(* ===== verification/Prelude.thy ===== *)
theory Prelude
  imports Main
begin

text \<open>
  Shared vocabulary of the development: results of fallible code, the list operations
  of the JavaScript standard library that the sources use (\<open>splice\<close>, \<open>slice\<close>,
  \<open>indexOf\<close>, \<open>findLast\<close>), decimal rendering of integers, and the lemma collections the
  component theories extend.
\<close>

named_theorems result_simps \<open>rewriting of computations that may throw\<close>
named_theorems inv_intros \<open>preservation of component invariants\<close>

section \<open>Results: a value or the error that was thrown\<close>

type_synonym ('e, 'a) result = "'e + 'a"

text \<open>Sequencing: a thrown error skips the rest, as a JavaScript exception does.\<close>

definition and_then :: "('e, 'a) result \<Rightarrow> ('a \<Rightarrow> ('e, 'b) result) \<Rightarrow> ('e, 'b) result" where
  "and_then m f = (case m of Inl e \<Rightarrow> Inl e | Inr x \<Rightarrow> f x)"

text \<open>A guard clause: \<open>if (bad) throw new Error(...)\<close>.\<close>

definition reject_if :: "bool \<Rightarrow> 'e \<Rightarrow> ('e, unit) result" where
  "reject_if bad e = (if bad then Inl e else Inr ())"

definition rethrow :: "('e \<Rightarrow> 'f) \<Rightarrow> ('e, 'a) result \<Rightarrow> ('f, 'a) result" where
  "rethrow g m = (case m of Inl e \<Rightarrow> Inl (g e) | Inr x \<Rightarrow> Inr x)"

definition is_ok :: "('e, 'a) result \<Rightarrow> bool" where
  "is_ok m = (case m of Inl _ \<Rightarrow> False | Inr _ \<Rightarrow> True)"

lemma and_then_simps [simp, result_simps]:
  "and_then (Inl e) f = Inl e"
  "and_then (Inr x) f = f x"
  by (simp_all add: and_then_def)

lemma and_then_Inr_iff [result_simps]:
  "and_then m f = Inr y \<longleftrightarrow> (\<exists>x. m = Inr x \<and> f x = Inr y)"
  by (cases m) simp_all

lemma and_then_Inl_iff:
  "and_then m f = Inl e \<longleftrightarrow> m = Inl e \<or> (\<exists>x. m = Inr x \<and> f x = Inl e)"
  by (cases m) simp_all

lemma and_then_assoc: "and_then (and_then m f) g = and_then m (\<lambda>x. and_then (f x) g)"
  by (cases m) simp_all

lemma and_then_cong [fundef_cong]:
  "m = m' \<Longrightarrow> (\<And>x. m' = Inr x \<Longrightarrow> f x = f' x) \<Longrightarrow> and_then m f = and_then m' f'"
  by (cases m') simp_all

lemma reject_if_simps [simp, result_simps]:
  "reject_if True e = Inl e"
  "reject_if False e = Inr ()"
  by (simp_all add: reject_if_def)

lemma reject_if_Inr_iff [simp, result_simps]: "reject_if bad e = Inr u \<longleftrightarrow> \<not> bad"
  by (simp add: reject_if_def)

lemma reject_if_Inl_iff [simp, result_simps]: "reject_if bad e = Inl e' \<longleftrightarrow> bad \<and> e' = e"
  by (auto simp: reject_if_def)

lemma rethrow_simps [simp, result_simps]:
  "rethrow g (Inl e) = Inl (g e)"
  "rethrow g (Inr x) = Inr x"
  by (simp_all add: rethrow_def)

lemma rethrow_Inr_iff [simp, result_simps]: "rethrow g m = Inr x \<longleftrightarrow> m = Inr x"
  by (cases m) simp_all

lemma is_ok_simps [simp]: "is_ok (Inl e) = False" "is_ok (Inr x) = True"
  by (simp_all add: is_ok_def)

lemma is_ok_iff: "is_ok m \<longleftrightarrow> (\<exists>x. m = Inr x)"
  by (cases m) simp_all

lemma not_is_ok_iff: "\<not> is_ok m \<longleftrightarrow> (\<exists>e. m = Inl e)"
  by (cases m) simp_all

text \<open>A loop body that may throw, run over the elements of an array in order.\<close>

primrec fold_result :: "('a \<Rightarrow> 's \<Rightarrow> ('e, 's) result) \<Rightarrow> 'a list \<Rightarrow> 's \<Rightarrow> ('e, 's) result" where
  "fold_result f [] s = Inr s"
| "fold_result f (x # xs) s = and_then (f x s) (fold_result f xs)"

lemma fold_result_append:
  "fold_result f (xs @ ys) s = and_then (fold_result f xs s) (fold_result f ys)"
proof (induction xs arbitrary: s)
  case Nil
  then show ?case by simp
next
  case (Cons x xs)
  then show ?case by (cases "f x s") simp_all
qed

lemma fold_result_snoc:
  "fold_result f (xs @ [x]) s = and_then (fold_result f xs s) (f x)"
proof -
  have "and_then m (fold_result f [x]) = and_then m (f x)" for m
    by (cases m) (simp_all add: and_then_def split: sum.splits)
  then show ?thesis by (simp only: fold_result_append)
qed

lemma fold_result_inv:
  assumes "fold_result f xs s = Inr t" and "P s"
    and "\<And>x s t. x \<in> set xs \<Longrightarrow> P s \<Longrightarrow> f x s = Inr t \<Longrightarrow> P t"
  shows "P t"
  using assms by (induction xs arbitrary: s) (auto simp: and_then_Inr_iff)

lemma fold_result_cong:
  assumes "\<And>x s. x \<in> set xs \<Longrightarrow> f x s = g x s"
  shows "fold_result f xs s = fold_result g xs s"
  using assms
proof (induction xs arbitrary: s)
  case Nil
  then show ?case by simp
next
  case (Cons x xs)
  then show ?case by (cases "g x s") simp_all
qed

section \<open>Arrays\<close>

text \<open>\<open>xs.splice(start, count, ...ins)\<close> for coordinates inside the array: what remains,
  and what was removed.\<close>

definition splice :: "nat \<Rightarrow> nat \<Rightarrow> 'a list \<Rightarrow> 'a list \<Rightarrow> 'a list" where
  "splice start n ins xs = take start xs @ ins @ drop (start + n) xs"

definition spliced_out :: "nat \<Rightarrow> nat \<Rightarrow> 'a list \<Rightarrow> 'a list" where
  "spliced_out start n xs = take n (drop start xs)"

text \<open>\<open>xs.slice(from, to)\<close> for non-negative bounds.\<close>

definition slice :: "nat \<Rightarrow> nat \<Rightarrow> 'a list \<Rightarrow> 'a list" where
  "slice i j xs = take (j - i) (drop i xs)"

text \<open>\<open>xs.indexOf(x)\<close>, with \<open>None\<close> for -1.\<close>

fun index_of :: "'a \<Rightarrow> 'a list \<Rightarrow> nat option" where
  "index_of x [] = None"
| "index_of x (y # ys) = (if x = y then Some 0 else map_option Suc (index_of x ys))"

text \<open>\<open>xs[i]\<close>, with \<open>None\<close> for \<open>undefined\<close> out of range.\<close>

definition elem_at :: "'a list \<Rightarrow> nat \<Rightarrow> 'a option" where
  "elem_at xs i = (if i < length xs then Some (xs ! i) else None)"

definition last_opt :: "'a list \<Rightarrow> 'a option" where
  "last_opt xs = (if xs = [] then None else Some (last xs))"

text \<open>\<open>xs.findLast(p)\<close>\<close>

definition find_last :: "('a \<Rightarrow> bool) \<Rightarrow> 'a list \<Rightarrow> 'a option" where
  "find_last p xs = find p (rev xs)"

lemma elem_at_simps [simp]:
  "elem_at [] i = None" "elem_at (x # xs) 0 = Some x" "elem_at (x # xs) (Suc i) = elem_at xs i"
  by (simp_all add: elem_at_def)

lemma elem_at_eq_Some_iff: "elem_at xs i = Some x \<longleftrightarrow> i < length xs \<and> xs ! i = x"
  by (simp add: elem_at_def)

lemma elem_at_append: "elem_at (xs @ ys) i = (if i < length xs then elem_at xs i else elem_at ys (i - length xs))"
  by (auto simp: elem_at_def nth_append)

lemma last_opt_simps [simp]: "last_opt [] = None" "last_opt (xs @ [x]) = Some x"
  by (simp_all add: last_opt_def)

lemma index_of_Some_iff:
  "index_of x xs = Some i \<longleftrightarrow> i < length xs \<and> xs ! i = x \<and> x \<notin> set (take i xs)"
proof (induction xs arbitrary: i)
  case Nil
  then show ?case by simp
next
  case (Cons y ys)
  then show ?case by (cases i) auto
qed

lemma index_of_None_iff: "index_of x xs = None \<longleftrightarrow> x \<notin> set xs"
  by (induction xs) auto

lemma index_of_nth_distinct: "distinct xs \<Longrightarrow> i < length xs \<Longrightarrow> index_of (xs ! i) xs = Some i"
  by (auto simp: index_of_Some_iff in_set_conv_nth distinct_conv_nth)

lemma set_slice_subset: "set (slice i j xs) \<subseteq> set xs"
  by (auto simp: slice_def dest: in_set_takeD in_set_dropD)

lemma length_slice: "j \<le> length xs \<Longrightarrow> length (slice i j xs) = j - i"
  by (simp add: slice_def)

lemma distinct_slice: "distinct xs \<Longrightarrow> distinct (slice i j xs)"
  by (simp add: slice_def)

lemma find_last_snoc [simp]: "find_last p (xs @ [x]) = (if p x then Some x else find_last p xs)"
  by (simp add: find_last_def)

lemma find_last_Nil [simp]: "find_last p [] = None"
  by (simp add: find_last_def)

lemma map_filter_snoc:
  "List.map_filter f (xs @ [x]) = List.map_filter f xs @ (case f x of None \<Rightarrow> [] | Some y \<Rightarrow> [y])"
  by (induction xs) (auto simp: List.map_filter_simps split: option.splits)

section \<open>Maps in insertion order\<close>

text \<open>A JavaScript \<open>Map\<close> as the list of its entries: \<open>set\<close> on a present key keeps its place.\<close>

fun omap_set :: "'k \<Rightarrow> 'v \<Rightarrow> ('k \<times> 'v) list \<Rightarrow> ('k \<times> 'v) list" where
  "omap_set k v [] = [(k, v)]"
| "omap_set k v ((k', v') # m) = (if k = k' then (k, v) # m else (k', v') # omap_set k v m)"

definition omap_delete :: "'k \<Rightarrow> ('k \<times> 'v) list \<Rightarrow> ('k \<times> 'v) list" where
  "omap_delete k m = filter (\<lambda>kv. fst kv \<noteq> k) m"

lemma map_of_omap_set [simp]: "map_of (omap_set k v m) = (map_of m)(k \<mapsto> v)"
  by (induction k v m rule: omap_set.induct) (auto simp: fun_upd_twist)

lemma map_of_omap_delete [simp]: "map_of (omap_delete k m) = (map_of m)(k := None)"
  by (induction m) (auto simp: omap_delete_def)

lemma set_omap_set: "set (omap_set k v m) \<subseteq> insert (k, v) (set m)"
  by (induction k v m rule: omap_set.induct) auto

lemma keys_omap_set: "set (map fst (omap_set k v m)) = insert k (set (map fst m))"
  by (induction k v m rule: omap_set.induct) auto

lemma distinct_omap_set [simp]: "distinct (map fst m) \<Longrightarrow> distinct (map fst (omap_set k v m))"
  by (induction k v m rule: omap_set.induct) (auto simp: keys_omap_set simp del: set_map)

lemma distinct_omap_delete [simp]: "distinct (map fst m) \<Longrightarrow> distinct (map fst (omap_delete k m))"
  by (simp add: omap_delete_def distinct_map_filter)

section \<open>Decimal rendering\<close>

fun show_nat :: "nat \<Rightarrow> string" where
  "show_nat n = (if n < 10 then [char_of (48 + n)]
                 else show_nat (n div 10) @ [char_of (48 + n mod 10)])"

declare show_nat.simps [simp del]

definition show_int :: "int \<Rightarrow> string" where
  "show_int i = (if i < 0 then ''-'' @ show_nat (nat (- i)) else show_nat (nat i))"

fun read_nat :: "nat \<Rightarrow> string \<Rightarrow> nat" where
  "read_nat acc [] = acc"
| "read_nat acc (c # cs) = read_nat (10 * acc + (of_char c - 48)) cs"

lemma read_nat_append: "read_nat acc (xs @ ys) = read_nat (read_nat acc xs) ys"
  by (induction xs arbitrary: acc) auto

lemma of_char_digit: "d < 10 \<Longrightarrow> of_char (char_of (48 + d) :: char) = (48 + d :: nat)"
  by simp

lemma read_show_nat: "read_nat 0 (show_nat n) = n"
proof (induction n rule: show_nat.induct)
  case (1 n)
  show ?case
  proof (cases "n < 10")
    case True
    then show ?thesis by (subst show_nat.simps) simp
  next
    case False
    with 1 show ?thesis
      by (subst show_nat.simps) (simp add: read_nat_append)
  qed
qed

lemma show_nat_inj [simp]: "show_nat m = show_nat n \<longleftrightarrow> m = n"
  by (metis read_show_nat)

lemma show_nat_nonempty [simp]: "show_nat n \<noteq> []"
  by (subst show_nat.simps) simp

section \<open>White space\<close>

text \<open>The code units below 256 that \<open>String.prototype.trim\<close> removes.\<close>

definition is_space :: "char \<Rightarrow> bool" where
  "is_space c \<longleftrightarrow> of_char c \<in> {9, 10, 11, 12, 13, 32, 160 :: nat}"

definition trim :: "string \<Rightarrow> string" where
  "trim s = rev (dropWhile is_space (rev (dropWhile is_space s)))"

lemma all_dropWhile_iff: "(\<forall>c \<in> set (dropWhile P s). P c) \<longleftrightarrow> (\<forall>c \<in> set s. P c)"
  by (induction s) auto

lemma trim_empty_iff: "trim s = [] \<longleftrightarrow> (\<forall>c \<in> set s. is_space c)"
  by (simp add: trim_def dropWhile_eq_Nil_conv all_dropWhile_iff)

end
