(* ===== verification/Deque.thy ===== *)
theory Deque
  imports Prelude
begin

text \<open>
  \<open>packages/util/deque/src/index.ts\<close>: the circular deque that the runtime's queues use.
  The backing array is a list of slots, \<open>None\<close> standing for \<open>undefined\<close>; an entry is
  \<open>Some\<close> value. The section on refinement shows that the ring behaves as a list, that
  removed entries are cleared, and that the capacity stays a power of two between the
  minimum and four times the number of live entries.
\<close>

section \<open>State and operations\<close>

definition MIN_CAPACITY :: nat where
  "MIN_CAPACITY = 16"

record 'a deque =
  buffer :: "'a option list"
  head :: nat
  count :: nat

definition new_deque :: "'a deque" where
  "new_deque = \<lparr>buffer = replicate MIN_CAPACITY None, head = 0, count = 0\<rparr>"

definition deque_size :: "'a deque \<Rightarrow> nat" where
  "deque_size d = count d"

text \<open>\<open>array[i]\<close> and \<open>array[i] = v\<close>: reading past the end is \<open>undefined\<close>, writing past
  the end extends the array.\<close>

definition read_slot :: "'a option list \<Rightarrow> nat \<Rightarrow> 'a option" where
  "read_slot b i = (if i < length b then b ! i else None)"

definition write_slot :: "'a option list \<Rightarrow> nat \<Rightarrow> 'a option \<Rightarrow> 'a option list" where
  "write_slot b i v =
     (if i < length b then b[i := v] else b @ replicate (i - length b) None @ [v])"

text \<open>The copying loop of \<open>resize\<close>: \<open>n\<close> entries are left, \<open>source\<close> runs round the old ring.\<close>

fun resize_loop :: "'a option list \<Rightarrow> nat \<Rightarrow> nat \<Rightarrow> nat \<Rightarrow> 'a option list \<Rightarrow> 'a option list" where
  "resize_loop old source 0 index acc = acc"
| "resize_loop old source (Suc n) index acc =
     (let acc' = write_slot acc index (read_slot old source);
          source' = (if source + 1 = length old then 0 else source + 1)
      in resize_loop old source' n (index + 1) acc')"

definition resize :: "nat \<Rightarrow> 'a deque \<Rightarrow> 'a deque" where
  "resize capacity d =
     d\<lparr>buffer := resize_loop (buffer d) (head d) (count d) 0 (replicate capacity None), head := 0\<rparr>"

definition ensure_capacity :: "'a deque \<Rightarrow> 'a deque" where
  "ensure_capacity d =
     (if count d < length (buffer d) then d else resize (length (buffer d) * 2) d)"

definition compact :: "'a deque \<Rightarrow> 'a deque" where
  "compact d =
     (if count d = 0 then d\<lparr>head := 0\<rparr>
      else if length (buffer d) > MIN_CAPACITY \<and> 4 * count d \<le> length (buffer d)
        then resize (max MIN_CAPACITY (length (buffer d) div 2)) d
        else d)"

definition push_back :: "'a \<Rightarrow> 'a deque \<Rightarrow> 'a deque" where
  "push_back v d0 =
     (let d = ensure_capacity d0;
          tail = head d + count d;
          i = (if tail < length (buffer d) then tail else tail - length (buffer d))
      in d\<lparr>buffer := write_slot (buffer d) i (Some v), count := count d + 1\<rparr>)"

definition push_front :: "'a \<Rightarrow> 'a deque \<Rightarrow> 'a deque" where
  "push_front v d0 =
     (let d = ensure_capacity d0;
          h = (if head d = 0 then length (buffer d) - 1 else head d - 1)
      in d\<lparr>buffer := write_slot (buffer d) h (Some v), head := h, count := count d + 1\<rparr>)"

definition pop_front :: "'a deque \<Rightarrow> 'a option \<times> 'a deque" where
  "pop_front d =
     (if count d = 0 then (None, d)
      else
        let v = read_slot (buffer d) (head d);
            b = write_slot (buffer d) (head d) None;
            h = (if head d + 1 = length b then 0 else head d + 1)
        in (v, compact (d\<lparr>buffer := b, head := h, count := count d - 1\<rparr>)))"

definition clear_deque :: "'a deque \<Rightarrow> 'a deque" where
  "clear_deque d = \<lparr>buffer = replicate MIN_CAPACITY None, head = 0, count = 0\<rparr>"

section \<open>Abstraction and invariant\<close>

text \<open>Slot of the \<open>i\<close>-th entry in a ring of \<open>c\<close> slots whose head is \<open>h\<close>.\<close>

definition ring_pos :: "nat \<Rightarrow> nat \<Rightarrow> nat \<Rightarrow> nat" where
  "ring_pos h c i = (if h + i < c then h + i else h + i - c)"

definition ring_slots :: "'a option list \<Rightarrow> nat \<Rightarrow> nat \<Rightarrow> 'a option list" where
  "ring_slots b h n = map (\<lambda>i. b ! ring_pos h (length b) i) [0..<n]"

definition deque_list :: "'a deque \<Rightarrow> 'a list" where
  "deque_list d = List.map_filter (\<lambda>x. x) (ring_slots (buffer d) (head d) (count d))"

text \<open>Exactly the slots of the live window hold an entry; the rest are cleared.\<close>

definition window_exact :: "'a deque \<Rightarrow> bool" where
  "window_exact d \<longleftrightarrow>
     (\<forall>j < length (buffer d). buffer d ! j \<noteq> None \<longleftrightarrow>
        (\<exists>i < count d. j = ring_pos (head d) (length (buffer d)) i))"

definition pow2_capacity :: "'a deque \<Rightarrow> bool" where
  "pow2_capacity d \<longleftrightarrow> (\<exists>k. length (buffer d) = MIN_CAPACITY * 2 ^ k)"

definition deque_inv :: "'a deque \<Rightarrow> bool" where
  "deque_inv d \<longleftrightarrow> head d < length (buffer d) \<and> count d \<le> length (buffer d)
     \<and> pow2_capacity d \<and> window_exact d"

lemma MIN_CAPACITY_pos [simp]: "0 < MIN_CAPACITY" "MIN_CAPACITY \<noteq> 0"
  by (simp_all add: MIN_CAPACITY_def)

lemma ring_pos_less: "h < c \<Longrightarrow> i < c \<Longrightarrow> ring_pos h c i < c"
  by (auto simp: ring_pos_def)

lemma ring_pos_inj: "h < c \<Longrightarrow> i < c \<Longrightarrow> j < c \<Longrightarrow> ring_pos h c i = ring_pos h c j \<longleftrightarrow> i = j"
  by (auto simp: ring_pos_def)

lemma ring_pos_surj: "h < c \<Longrightarrow> j < c \<Longrightarrow> \<exists>i<c. j = ring_pos h c i"
  by (rule exI [of _ "if h \<le> j then j - h else j + c - h"]) (auto simp: ring_pos_def)

lemma ring_pos_Suc:
  "h < c \<Longrightarrow> i < c - 1 \<Longrightarrow> ring_pos h c (Suc i) = ring_pos (if h + 1 = c then 0 else h + 1) c i"
  by (auto simp: ring_pos_def)

lemma ring_pos_ne_head: "h < c \<Longrightarrow> 0 < i \<Longrightarrow> i < c \<Longrightarrow> ring_pos h c i \<noteq> h"
  by (auto simp: ring_pos_def)

lemma ring_pos_0 [simp]: "h < c \<Longrightarrow> ring_pos h c 0 = h"
  by (simp add: ring_pos_def)

lemma ring_pos_zero [simp]: "i < c \<Longrightarrow> ring_pos 0 c i = i"
  by (simp add: ring_pos_def)

lemma length_ring_slots [simp]: "length (ring_slots b h n) = n"
  by (simp add: ring_slots_def)

lemma ring_slots_snoc: "ring_slots b h (Suc n) = ring_slots b h n @ [b ! ring_pos h (length b) n]"
  by (simp add: ring_slots_def)

lemma nth_ring_slots [simp]: "i < n \<Longrightarrow> ring_slots b h n ! i = b ! ring_pos h (length b) i"
  by (simp add: ring_slots_def)

text \<open>The window in terms of the list of its slots: all of them hold an entry.\<close>

lemma window_occupied:
  assumes "deque_inv d" and "i < count d"
  shows "buffer d ! ring_pos (head d) (length (buffer d)) i \<noteq> None"
proof -
  from assms have "ring_pos (head d) (length (buffer d)) i < length (buffer d)"
    by (intro ring_pos_less) (auto simp: deque_inv_def)
  with assms show ?thesis unfolding deque_inv_def window_exact_def by blast
qed

lemma window_slots:
  assumes "deque_inv d"
  shows "ring_slots (buffer d) (head d) (count d) = map Some (deque_list d)"
proof -
  have full: "None \<notin> set (ring_slots (buffer d) (head d) (count d))"
  proof
    assume "None \<in> set (ring_slots (buffer d) (head d) (count d))"
    then obtain i where "i < count d" and "ring_slots (buffer d) (head d) (count d) ! i = None"
      unfolding in_set_conv_nth by auto
    with window_occupied [OF assms, of i] show False by simp
  qed
  have "None \<notin> set xs \<Longrightarrow> map Some (List.map_filter (\<lambda>x. x) xs) = xs" for xs :: "'a option list"
  proof (induction xs)
    case (Cons a xs)
    then show ?case by (cases a) (auto simp: List.map_filter_simps)
  qed (simp add: List.map_filter_simps)
  from this [OF full] show ?thesis by (simp add: deque_list_def)
qed

lemma deque_list_eqI:
  assumes "ring_slots (buffer d) (head d) (count d) = map Some xs"
  shows "deque_list d = xs"
proof -
  have "List.map_filter (\<lambda>x. x) (map Some xs) = xs"
    by (induction xs) (auto simp: List.map_filter_simps)
  with assms show ?thesis by (simp add: deque_list_def)
qed

lemma length_deque_list: "deque_inv d \<Longrightarrow> length (deque_list d) = count d"
  by (metis length_map length_ring_slots window_slots)


lemma deque_invI:
  assumes "head d < length (buffer d)" and "count d = length xs" and "length xs \<le> length (buffer d)"
    and "pow2_capacity d"
    and "ring_slots (buffer d) (head d) (count d) = map Some xs"
    and "\<And>j. j < length (buffer d) \<Longrightarrow>
           (\<forall>i < count d. j \<noteq> ring_pos (head d) (length (buffer d)) i) \<Longrightarrow> buffer d ! j = None"
  shows "deque_inv d \<and> deque_list d = xs"
proof -
  have occ: "buffer d ! ring_pos (head d) (length (buffer d)) i \<noteq> None" if "i < count d" for i
  proof -
    from assms(5) have "ring_slots (buffer d) (head d) (count d) ! i = map Some xs ! i" by simp
    with that assms(2) show ?thesis by simp
  qed
  have "window_exact d"
    unfolding window_exact_def using occ assms(6) by metis
  with assms deque_list_eqI [OF assms(5)] show ?thesis by (auto simp: deque_inv_def)
qed

section \<open>Resizing keeps the entries\<close>

lemma resize_loop_eq:
  assumes "h < length old" and "k + n \<le> length old" and "k + n \<le> length acc"
    and "index = k" and "source = ring_pos h (length old) k \<or> n = 0"
  shows "resize_loop old source n index acc
           = take k acc @ map (\<lambda>i. old ! ring_pos h (length old) i) [k..<k + n] @ drop (k + n) acc"
  using assms
proof (induction n arbitrary: k index source acc)
  case 0
  then show ?case by simp
next
  case (Suc n)
  let ?p = "ring_pos h (length old)"
  from Suc.prems have src: "source = ?p k" by simp
  have less: "?p k < length old" using Suc.prems by (intro ring_pos_less) auto
  have nxt: "(if source + 1 = length old then 0 else source + 1) = ?p (Suc k) \<or> n = 0"
    using Suc.prems src by (auto simp: ring_pos_def)
  have "resize_loop old source (Suc n) index acc
      = resize_loop old (if source + 1 = length old then 0 else source + 1) n (Suc k)
          (acc[k := old ! ?p k])"
    using Suc.prems less src by (simp add: read_slot_def write_slot_def Let_def)
  also have "\<dots> = take (Suc k) (acc[k := old ! ?p k])
      @ map (\<lambda>i. old ! ?p i) [Suc k..<Suc k + n] @ drop (Suc k + n) (acc[k := old ! ?p k])"
    by (rule Suc.IH) (use Suc.prems nxt in auto)
  also have "\<dots> = take k acc @ map (\<lambda>i. old ! ?p i) [k..<k + Suc n] @ drop (k + Suc n) acc"
    using Suc.prems by (simp add: take_Suc_conv_app_nth upt_rec [of k])
  finally show ?case .
qed

lemma resize_correct:
  assumes inv: "deque_inv d" and cap: "capacity = MIN_CAPACITY * 2 ^ k" and fits: "count d \<le> capacity"
  shows "deque_inv (resize capacity d) \<and> deque_list (resize capacity d) = deque_list d"
proof -
  let ?b = "map (\<lambda>i. buffer d ! ring_pos (head d) (length (buffer d)) i) [0..<count d]
              @ replicate (capacity - count d) None"
  have eq: "resize_loop (buffer d) (head d) (count d) 0 (replicate capacity None) = ?b"
    using resize_loop_eq [of "head d" "buffer d" 0 "count d" "replicate capacity None" 0 "head d"]
      inv fits by (simp add: deque_inv_def)
  have slots: "ring_slots ?b 0 (count d) = map Some (deque_list d)"
    unfolding window_slots [OF inv, symmetric]
    by (rule nth_equalityI) (use fits in \<open>auto simp: nth_append\<close>)
  have len: "length (buffer (resize capacity d)) = capacity"
    using fits by (simp add: resize_def eq)
  show ?thesis
  proof (rule deque_invI)
    show "head (resize capacity d) < length (buffer (resize capacity d))"
      unfolding len using cap by (simp add: resize_def)
    show "count (resize capacity d) = length (deque_list d)"
      by (simp add: resize_def length_deque_list [OF inv])
    show "length (deque_list d) \<le> length (buffer (resize capacity d))"
      by (simp add: resize_def eq length_deque_list [OF inv])
    show "pow2_capacity (resize capacity d)"
      unfolding pow2_capacity_def len using cap by blast
    show "ring_slots (buffer (resize capacity d)) (head (resize capacity d)) (count (resize capacity d))
            = map Some (deque_list d)"
      using slots by (simp add: resize_def eq)
  next
    fix j
    assume "j < length (buffer (resize capacity d))"
      and "\<forall>i<count (resize capacity d).
             j \<noteq> ring_pos (head (resize capacity d)) (length (buffer (resize capacity d))) i"
    then have "j < capacity" and "\<not> j < count d"
      using fits by (auto simp: resize_def eq)
    then show "buffer (resize capacity d) ! j = None"
      by (simp add: resize_def eq nth_append)
  qed
qed

lemma ensure_capacity_correct:
  assumes "deque_inv d"
  shows "deque_inv (ensure_capacity d) \<and> deque_list (ensure_capacity d) = deque_list d
     \<and> count (ensure_capacity d) = count d \<and> count d < length (buffer (ensure_capacity d))"
proof (cases "count d < length (buffer d)")
  case True
  with assms show ?thesis by (simp add: ensure_capacity_def)
next
  case False
  from assms obtain k where k: "length (buffer d) = MIN_CAPACITY * 2 ^ k"
    by (auto simp: deque_inv_def pow2_capacity_def)
  then have cap: "length (buffer d) * 2 = MIN_CAPACITY * 2 ^ Suc k" by simp
  have cnt: "count d = length (buffer d)" using False assms by (simp add: deque_inv_def)
  have r: "deque_inv (resize (length (buffer d) * 2) d)
      \<and> deque_list (resize (length (buffer d) * 2) d) = deque_list d"
    by (rule resize_correct [OF assms cap]) (simp add: cnt)
  have "length (buffer (resize (length (buffer d) * 2) d)) = length (buffer d) * 2"
    using resize_loop_eq [of "head d" "buffer d" 0 "count d" "replicate (length (buffer d) * 2) None" 0 "head d"]
      assms cnt by (simp add: resize_def deque_inv_def)
  moreover have "0 < length (buffer d)" using k by simp
  ultimately show ?thesis using False r cnt by (simp add: ensure_capacity_def resize_def)
qed

section \<open>Each operation on the list of entries\<close>

lemma push_back_correct:
  assumes "deque_inv d0"
  shows "deque_inv (push_back v d0) \<and> deque_list (push_back v d0) = deque_list d0 @ [v]"
proof -
  define d where "d = ensure_capacity d0"
  have d: "deque_inv d" "deque_list d = deque_list d0" "count d < length (buffer d)"
    using ensure_capacity_correct [OF assms] by (auto simp: d_def)
  let ?c = "length (buffer d)" and ?i = "ring_pos (head d) (length (buffer d)) (count d)"
  have bounds: "head d < ?c" "?i < ?c"
    using d by (auto simp: deque_inv_def intro: ring_pos_less)
  have eq: "push_back v d0 = d\<lparr>buffer := (buffer d)[?i := Some v], count := count d + 1\<rparr>"
    using bounds by (simp add: push_back_def d_def [symmetric] write_slot_def ring_pos_def Let_def)
  have other: "i < count d \<Longrightarrow> ?i \<noteq> ring_pos (head d) ?c i" for i
    using d bounds ring_pos_inj [of "head d" ?c i "count d"] by simp
  have "deque_inv (push_back v d0) \<and> deque_list (push_back v d0) = deque_list d @ [v]"
  proof (rule deque_invI)
    show "head (push_back v d0) < length (buffer (push_back v d0))" using bounds by (simp add: eq)
    show "count (push_back v d0) = length (deque_list d @ [v])"
      by (simp add: eq length_deque_list [OF d(1)])
    show "length (deque_list d @ [v]) \<le> length (buffer (push_back v d0))"
      using d(1,3) by (simp add: eq length_deque_list)
    show "pow2_capacity (push_back v d0)" using d by (simp add: eq deque_inv_def pow2_capacity_def)
    have "ring_slots ((buffer d)[?i := Some v]) (head d) (count d) = ring_slots (buffer d) (head d) (count d)"
      by (rule nth_equalityI) (use other in auto)
    then show "ring_slots (buffer (push_back v d0)) (head (push_back v d0)) (count (push_back v d0))
        = map Some (deque_list d @ [v])"
      using window_slots [OF d(1)] bounds by (simp add: eq ring_slots_snoc)
  next
    fix j
    assume j: "j < length (buffer (push_back v d0))"
      and out: "\<forall>i<count (push_back v d0).
        j \<noteq> ring_pos (head (push_back v d0)) (length (buffer (push_back v d0))) i"
    then have "j \<noteq> ?i" and "\<forall>i<count d. j \<noteq> ring_pos (head d) ?c i" by (auto simp: eq)
    moreover have "window_exact d" using d by (simp add: deque_inv_def)
    ultimately show "buffer (push_back v d0) ! j = None"
      using j unfolding window_exact_def by (auto simp: eq)
  qed
  with d show ?thesis by simp
qed

lemma ring_pos_pred:
  assumes "h < c" and "i < c - 1"
  shows "ring_pos (if h = 0 then c - 1 else h - 1) c (Suc i) = ring_pos h c i"
  using assms by (auto simp: ring_pos_def)

lemma push_front_correct:
  assumes "deque_inv d0"
  shows "deque_inv (push_front v d0) \<and> deque_list (push_front v d0) = v # deque_list d0"
proof -
  define d where "d = ensure_capacity d0"
  have d: "deque_inv d" "deque_list d = deque_list d0" "count d < length (buffer d)"
    using ensure_capacity_correct [OF assms] by (auto simp: d_def)
  let ?c = "length (buffer d)"
  define h where "h = (if head d = 0 then ?c - 1 else head d - 1)"
  have bounds: "head d < ?c" "h < ?c" using d by (auto simp: deque_inv_def h_def)
  have eq: "push_front v d0 = d\<lparr>buffer := (buffer d)[h := Some v], head := h, count := count d + 1\<rparr>"
    using bounds unfolding h_def
    by (simp add: push_front_def d_def [symmetric] write_slot_def Let_def)
  have pos: "i < count d \<Longrightarrow> ring_pos h ?c (Suc i) = ring_pos (head d) ?c i" for i
    unfolding h_def by (rule ring_pos_pred) (use d bounds in auto)
  have other: "i < count d \<Longrightarrow> ring_pos (head d) ?c i \<noteq> h" for i
    using pos [of i] ring_pos_ne_head [of h ?c "Suc i"] d(3) bounds by simp
  have "deque_inv (push_front v d0) \<and> deque_list (push_front v d0) = v # deque_list d"
  proof (rule deque_invI)
    show "head (push_front v d0) < length (buffer (push_front v d0))" using bounds by (simp add: eq)
    show "count (push_front v d0) = length (v # deque_list d)"
      by (simp add: eq length_deque_list [OF d(1)])
    show "length (v # deque_list d) \<le> length (buffer (push_front v d0))"
      using d(1,3) by (simp add: eq length_deque_list)
    show "pow2_capacity (push_front v d0)" using d by (simp add: eq deque_inv_def pow2_capacity_def)
    note other' = not_sym [OF other]
    have "ring_slots ((buffer d)[h := Some v]) h (Suc (count d)) = Some v # ring_slots (buffer d) (head d) (count d)"
    proof (rule nth_equalityI)
      fix i
      assume "i < length (ring_slots ((buffer d)[h := Some v]) h (Suc (count d)))"
      then show "ring_slots ((buffer d)[h := Some v]) h (Suc (count d)) ! i
          = (Some v # ring_slots (buffer d) (head d) (count d)) ! i"
        using bounds by (cases i) (simp_all add: pos other')
    qed simp
    then show "ring_slots (buffer (push_front v d0)) (head (push_front v d0)) (count (push_front v d0))
        = map Some (v # deque_list d)"
      using window_slots [OF d(1)] by (simp add: eq)
  next
    fix j
    assume j: "j < length (buffer (push_front v d0))"
      and out: "\<forall>i<count (push_front v d0).
        j \<noteq> ring_pos (head (push_front v d0)) (length (buffer (push_front v d0))) i"
    then have "j \<noteq> h" using bounds by (auto simp: eq)
    moreover have "\<forall>i<count d. j \<noteq> ring_pos (head d) ?c i"
      using out pos by (auto simp: eq)
    moreover have "window_exact d" using d by (simp add: deque_inv_def)
    ultimately show "buffer (push_front v d0) ! j = None"
      using j unfolding window_exact_def by (auto simp: eq)
  qed
  with d show ?thesis by simp
qed

lemma compact_correct:
  assumes "deque_inv d"
  shows "deque_inv (compact d) \<and> deque_list (compact d) = deque_list d"
proof -
  from assms obtain k where k: "length (buffer d) = MIN_CAPACITY * 2 ^ k"
    by (auto simp: deque_inv_def pow2_capacity_def)
  consider (empty) "count d = 0" | (shrink) "count d \<noteq> 0" "length (buffer d) > MIN_CAPACITY \<and> 4 * count d \<le> length (buffer d)"
    | (keep) "count d \<noteq> 0" "\<not> (length (buffer d) > MIN_CAPACITY \<and> 4 * count d \<le> length (buffer d))" by blast
  then show ?thesis
  proof cases
    case empty
    with assms k show ?thesis
      by (auto simp: compact_def deque_inv_def pow2_capacity_def window_exact_def deque_list_def ring_slots_def)
  next
    case shrink
    with k obtain k' where "k = Suc k'" by (cases k) auto
    with k have "max MIN_CAPACITY (length (buffer d) div 2) = MIN_CAPACITY * 2 ^ k'" by simp
    moreover have "count d \<le> MIN_CAPACITY * 2 ^ k'" using shrink k \<open>k = Suc k'\<close> by simp
    ultimately have "deque_inv (resize (max MIN_CAPACITY (length (buffer d) div 2)) d)
        \<and> deque_list (resize (max MIN_CAPACITY (length (buffer d) div 2)) d) = deque_list d"
      by (intro resize_correct [OF assms, where k = k']) auto
    with shrink show ?thesis by (simp add: compact_def)
  next
    case keep
    then have "compact d = d" unfolding compact_def by auto
    with assms show ?thesis by simp
  qed
qed

lemma pop_front_empty: "count d = 0 \<Longrightarrow> pop_front d = (None, d)"
  by (simp add: pop_front_def)

lemma pop_front_correct:
  assumes inv: "deque_inv d" and cnt: "count d \<noteq> 0"
  shows "fst (pop_front d) = Some (hd (deque_list d)) \<and> deque_inv (snd (pop_front d))
     \<and> deque_list (snd (pop_front d)) = tl (deque_list d)"
proof -
  let ?c = "length (buffer d)"
  define h where "h = (if head d + 1 = ?c then 0 else head d + 1)"
  define d' where "d' = d\<lparr>buffer := (buffer d)[head d := None], head := h, count := count d - 1\<rparr>"
  have bounds: "head d < ?c" "h < ?c" "count d \<le> ?c"
    using inv by (auto simp: deque_inv_def h_def)
  have eq: "pop_front d = (buffer d ! head d, compact d')"
    using bounds cnt by (simp add: pop_front_def d'_def h_def read_slot_def write_slot_def Let_def)
  obtain x xs where xs: "deque_list d = x # xs"
    using cnt length_deque_list [OF inv] by (cases "deque_list d") auto
  have len: "length xs = count d - 1" using length_deque_list [OF inv] xs by simp
  have slot: "buffer d ! ring_pos (head d) ?c i = Some ((x # xs) ! i)" if "i < count d" for i
  proof -
    have "ring_slots (buffer d) (head d) (count d) ! i = map Some (x # xs) ! i"
      using window_slots [OF inv] xs by simp
    moreover have "map Some (x # xs) ! i = Some ((x # xs) ! i)"
      by (rule nth_map) (use that len in simp)
    ultimately show ?thesis using that by simp
  qed
  have pos: "ring_pos h ?c i = ring_pos (head d) ?c (Suc i)" if "i < count d - 1" for i
    unfolding h_def by (rule ring_pos_Suc [symmetric]) (use that bounds in auto)
  have other: "ring_pos (head d) ?c (Suc i) \<noteq> head d" if "i < count d - 1" for i
    by (rule ring_pos_ne_head) (use that bounds in auto)
  have "deque_inv d' \<and> deque_list d' = xs"
  proof (rule deque_invI)
    show "head d' < length (buffer d')" "count d' = length xs" "length xs \<le> length (buffer d')"
      using bounds len by (auto simp: d'_def)
    show "pow2_capacity d'" using inv by (simp add: d'_def deque_inv_def pow2_capacity_def)
    have "ring_slots ((buffer d)[head d := None]) h (count d - 1) = map Some xs"
    proof (rule nth_equalityI)
      fix i
      assume "i < length (ring_slots ((buffer d)[head d := None]) h (count d - 1))"
      then have i: "i < count d - 1" by simp
      with other [OF i] pos [OF i] slot [of "Suc i"] len
      show "ring_slots ((buffer d)[head d := None]) h (count d - 1) ! i = map Some xs ! i"
        by (simp add: nth_list_update)
    qed (simp add: len)
    then show "ring_slots (buffer d') (head d') (count d') = map Some xs"
      by (simp add: d'_def)
  next
    fix j
    assume j: "j < length (buffer d')"
      and out: "\<forall>i<count d'. j \<noteq> ring_pos (head d') (length (buffer d')) i"
    show "buffer d' ! j = None"
    proof (cases "j = head d")
      case True
      with bounds show ?thesis by (simp add: d'_def)
    next
      case False
      have "\<forall>i<count d. j \<noteq> ring_pos (head d) ?c i"
      proof (intro allI impI)
        fix i assume "i < count d"
        show "j \<noteq> ring_pos (head d) ?c i"
        proof (cases i)
          case 0
          with False bounds show ?thesis by simp
        next
          case (Suc n)
          with \<open>i < count d\<close> have n: "n < count d - 1" by simp
          with out have "j \<noteq> ring_pos h ?c n" by (simp add: d'_def)
          with pos [OF n] Suc show ?thesis by simp
        qed
      qed
      moreover have "window_exact d" using inv by (simp add: deque_inv_def)
      ultimately show ?thesis using j False unfolding window_exact_def by (auto simp: d'_def)
    qed
  qed
  moreover have "buffer d ! head d = Some x" using slot [of 0] cnt bounds by simp
  ultimately show ?thesis using compact_correct [of d'] by (simp add: eq xs)
qed

lemma new_deque_correct: "deque_inv new_deque \<and> deque_list new_deque = []"
  by (auto simp: new_deque_def deque_inv_def pow2_capacity_def window_exact_def deque_list_def
      ring_slots_def List.map_filter_simps intro: exI [of _ 0])

lemma clear_deque_eq: "clear_deque d = new_deque"
  by (simp add: clear_deque_def new_deque_def)

section \<open>The interface clients rely on, and its interpretation\<close>

text \<open>
  What a queue promises its clients: an abstraction to the list of entries on which every
  operation acts as the list operation, under an invariant every operation keeps.
\<close>

datatype 'a queue_op = PushBack 'a | PushFront 'a | PopFront | Clear

fun list_step :: "'a queue_op \<Rightarrow> 'a list \<Rightarrow> 'a option \<times> 'a list" where
  "list_step (PushBack x) xs = (None, xs @ [x])"
| "list_step (PushFront x) xs = (None, x # xs)"
| "list_step PopFront [] = (None, [])"
| "list_step PopFront (x # xs) = (Some x, xs)"
| "list_step Clear xs = (None, [])"

fun run_steps :: "('op \<Rightarrow> 's \<Rightarrow> 'o \<times> 's) \<Rightarrow> 'op list \<Rightarrow> 's \<Rightarrow> 'o list \<times> 's" where
  "run_steps step [] s = ([], s)"
| "run_steps step (x # xs) s =
     (let (out, s') = step x s; (outs, t) = run_steps step xs s' in (out # outs, t))"

locale queue_interface =
  fixes empty :: "'q"
    and step :: "'a queue_op \<Rightarrow> 'q \<Rightarrow> 'a option \<times> 'q"
    and entries :: "'q \<Rightarrow> 'a list"
    and size_of :: "'q \<Rightarrow> nat"
    and inv :: "'q \<Rightarrow> bool"
  assumes inv_empty: "inv empty"
    and entries_empty: "entries empty = []"
    and inv_step: "inv q \<Longrightarrow> inv (snd (step x q))"
    and entries_step: "inv q \<Longrightarrow> entries (snd (step x q)) = snd (list_step x (entries q))"
    and output_step: "inv q \<Longrightarrow> fst (step x q) = fst (list_step x (entries q))"
    and size_entries: "inv q \<Longrightarrow> size_of q = length (entries q)"
begin

lemma run_inv: "inv q \<Longrightarrow> inv (snd (run_steps step xs q))"
  by (induction xs arbitrary: q) (auto simp: split_beta Let_def inv_step)

lemma run_simulates:
  "inv q \<Longrightarrow> fst (run_steps step xs q) = fst (run_steps list_step xs (entries q))
     \<and> entries (snd (run_steps step xs q)) = snd (run_steps list_step xs (entries q))"
  by (induction xs arbitrary: q) (auto simp: split_beta Let_def inv_step entries_step output_step)

lemma run_from_empty:
  "fst (run_steps step xs empty) = fst (run_steps list_step xs [])"
  "size_of (snd (run_steps step xs empty)) = length (snd (run_steps list_step xs []))"
  using run_simulates [OF inv_empty, of xs] run_inv [OF inv_empty, of xs]
  by (simp_all add: entries_empty size_entries)

end

fun deque_step :: "'a queue_op \<Rightarrow> 'a deque \<Rightarrow> 'a option \<times> 'a deque" where
  "deque_step (PushBack x) d = (None, push_back x d)"
| "deque_step (PushFront x) d = (None, push_front x d)"
| "deque_step PopFront d = pop_front d"
| "deque_step Clear d = (None, clear_deque d)"

lemma deque_step_correct:
  assumes "deque_inv d"
  shows "deque_inv (snd (deque_step x d))"
    and "deque_list (snd (deque_step x d)) = snd (list_step x (deque_list d))"
    and "fst (deque_step x d) = fst (list_step x (deque_list d))"
proof -
  have "deque_inv (snd (deque_step x d))
      \<and> deque_list (snd (deque_step x d)) = snd (list_step x (deque_list d))
      \<and> fst (deque_step x d) = fst (list_step x (deque_list d))"
  proof (cases x)
    case (PushBack a)
    with push_back_correct [OF assms] show ?thesis by simp
  next
    case (PushFront a)
    with push_front_correct [OF assms] show ?thesis by simp
  next
    case PopFront
    show ?thesis
    proof (cases "count d = 0")
      case True
      with PopFront assms length_deque_list [OF assms] show ?thesis by (simp add: pop_front_empty)
    next
      case False
      with length_deque_list [OF assms] obtain y ys where "deque_list d = y # ys"
        by (cases "deque_list d") auto
      with PopFront False pop_front_correct [OF assms] show ?thesis by simp
    qed
  next
    case Clear
    with new_deque_correct show ?thesis by (simp add: clear_deque_eq)
  qed
  then show "deque_inv (snd (deque_step x d))"
    and "deque_list (snd (deque_step x d)) = snd (list_step x (deque_list d))"
    and "fst (deque_step x d) = fst (list_step x (deque_list d))" by auto
qed

interpretation dq: queue_interface new_deque deque_step deque_list deque_size deque_inv
  by unfold_locales
    (simp_all add: new_deque_correct deque_step_correct deque_size_def length_deque_list)

section \<open>Properties\<close>

text \<open>
  Any sequence of operations on a fresh deque returns exactly what the same
  operations return on a plain list, and its size is the length of that list: the ring,
  its growth and its shrinking are invisible.
\<close>

theorem deque_run_refines_list:
  "fst (run_steps deque_step xs new_deque) = fst (run_steps list_step xs [])
   \<and> deque_size (snd (run_steps deque_step xs new_deque)) = length (snd (run_steps list_step xs []))"
  using dq.run_from_empty by blast

lemma card_window:
  assumes "deque_inv d"
  shows "card {j. j < length (buffer d) \<and> buffer d ! j \<noteq> None} = count d"
proof -
  let ?p = "ring_pos (head d) (length (buffer d))"
  have "inj_on ?p {..<count d}"
    using assms by (auto simp: inj_on_def deque_inv_def ring_pos_inj)
  moreover have "{j. j < length (buffer d) \<and> buffer d ! j \<noteq> None} = ?p ` {..<count d}"
  proof -
    have "?p i < length (buffer d)" if "i < count d" for i
      using that assms by (intro ring_pos_less) (auto simp: deque_inv_def)
    moreover have "window_exact d" using assms by (simp add: deque_inv_def)
    ultimately show ?thesis unfolding window_exact_def by blast
  qed
  ultimately show ?thesis by (simp add: card_image)
qed

text \<open>
  After any sequence of operations on a fresh deque, the array holds exactly
  as many entries as the deque has: every removed entry has been cleared, so no reference
  is retained.
\<close>

theorem deque_no_retention:
  "card {j. j < length (buffer (snd (run_steps deque_step xs new_deque)))
          \<and> buffer (snd (run_steps deque_step xs new_deque)) ! j \<noteq> None}
   = length (snd (run_steps list_step xs []))"
  using card_window [OF dq.run_inv [OF dq.inv_empty, of xs]] dq.run_from_empty(2) [of xs]
  by (simp add: deque_size_def)

section \<open>Storage bound\<close>

text \<open>Either the array has the minimum capacity or more than a quarter of it is live.\<close>

definition dense :: "'a deque \<Rightarrow> bool" where
  "dense d \<longleftrightarrow> length (buffer d) = MIN_CAPACITY \<or> length (buffer d) < 4 * count d"

lemma length_resize_loop:
  "index + n \<le> length acc \<Longrightarrow> length (resize_loop old source n index acc) = length acc"
  by (induction n arbitrary: source index acc) (auto simp: Let_def write_slot_def)

lemma length_resize:
  assumes "deque_inv d" and "count d \<le> capacity"
  shows "length (buffer (resize capacity d)) = capacity"
  using resize_loop_eq [of "head d" "buffer d" 0 "count d" "replicate capacity None" 0 "head d"]
    assms by (simp add: resize_def deque_inv_def)

lemma count_resize [simp]: "count (resize capacity d) = count d"
  by (simp add: resize_def)

lemma length_ensure_capacity:
  assumes "deque_inv d"
  shows "length (buffer (ensure_capacity d))
    = (if count d < length (buffer d) then length (buffer d) else 2 * count d)"
proof (cases "count d < length (buffer d)")
  case False
  with assms have "count d = length (buffer d)" by (simp add: deque_inv_def)
  with assms show ?thesis by (simp add: ensure_capacity_def length_resize)
qed (simp add: ensure_capacity_def)

lemma length_write_slot: "i < length b \<Longrightarrow> length (write_slot b i v) = length b"
  by (simp add: write_slot_def)

lemma dense_ensure:
  assumes "deque_inv d" and "dense d"
  shows "length (buffer (ensure_capacity d)) = MIN_CAPACITY
    \<or> length (buffer (ensure_capacity d)) < 4 * (count d + 1)"
  using assms length_ensure_capacity [OF assms(1)] by (auto simp: dense_def)

lemma dense_push_back:
  assumes "deque_inv d0" and "dense d0"
  shows "dense (push_back v d0)"
proof -
  define d where "d = ensure_capacity d0"
  have d: "deque_inv d" "count d = count d0" "count d < length (buffer d)"
    using ensure_capacity_correct [OF assms(1)] by (auto simp: d_def)
  have "(if head d + count d < length (buffer d) then head d + count d
      else head d + count d - length (buffer d)) < length (buffer d)"
    using d by (auto simp: deque_inv_def)
  then have "length (buffer (push_back v d0)) = length (buffer d)" "count (push_back v d0) = count d0 + 1"
    using d by (auto simp: push_back_def Let_def d_def [symmetric] length_write_slot)
  with dense_ensure [OF assms] show ?thesis by (simp add: dense_def d_def)
qed

lemma dense_push_front:
  assumes "deque_inv d0" and "dense d0"
  shows "dense (push_front v d0)"
proof -
  define d where "d = ensure_capacity d0"
  have d: "deque_inv d" "count d = count d0"
    using ensure_capacity_correct [OF assms(1)] by (auto simp: d_def)
  have "(if head d = 0 then length (buffer d) - 1 else head d - 1) < length (buffer d)"
    using d by (auto simp: deque_inv_def)
  then have "length (buffer (push_front v d0)) = length (buffer d)" "count (push_front v d0) = count d0 + 1"
    using d by (auto simp: push_front_def Let_def d_def [symmetric] length_write_slot)
  with dense_ensure [OF assms] show ?thesis by (simp add: dense_def d_def)
qed

text \<open>After one removal a ring that was dense is at least a quarter full, and \<open>compact\<close>
  halves the capacity exactly when it is a quarter full.\<close>

lemma dense_compact:
  assumes pow: "length (buffer d) = MIN_CAPACITY * 2 ^ k"
    and nearly: "length (buffer d) = MIN_CAPACITY \<or> length (buffer d) < 4 * (count d + 1)"
  shows "dense (compact d)"
proof (cases "length (buffer d) = MIN_CAPACITY")
  case True
  then show ?thesis by (simp add: compact_def dense_def)
next
  case False
  with pow obtain k' where k': "k = Suc k'" by (cases k) auto
  define h where "h = MIN_CAPACITY * 2 ^ k'"
  have L: "length (buffer d) = 2 * h" using pow k' by (simp add: h_def)
  have h16: "16 \<le> h" by (simp add: h_def MIN_CAPACITY_def)
  obtain q where q: "h = 2 * q" by (auto simp: h_def MIN_CAPACITY_def)
  have nz: "count d \<noteq> 0" using nearly False L h16 by auto
  show ?thesis
  proof (cases "4 * count d \<le> length (buffer d)")
    case True
    have "max MIN_CAPACITY (length (buffer d) div 2) = h" using L h16 by (simp add: MIN_CAPACITY_def)
    then have "compact d = resize h d"
      using True False nz L h16 by (simp add: compact_def MIN_CAPACITY_def)
    moreover have "length (buffer (resize h d)) = h"
      using True L length_resize_loop [of 0 "count d" "replicate h None" "buffer d" "head d"]
      by (simp add: resize_def)
    ultimately show ?thesis using nearly False L q nz by (simp add: dense_def)
  next
    case not_sparse: False
    then have "compact d = d" using nz by (simp add: compact_def)
    with not_sparse show ?thesis by (simp add: dense_def)
  qed
qed

lemma dense_pop_front:
  assumes "deque_inv d" and "dense d"
  shows "dense (snd (pop_front d))"
proof (cases "count d = 0")
  case True
  with assms show ?thesis by (simp add: pop_front_empty)
next
  case False
  let ?b = "write_slot (buffer d) (head d) None"
  let ?d = "d\<lparr>buffer := ?b, head := (if head d + 1 = length ?b then 0 else head d + 1), count := count d - 1\<rparr>"
  have len: "length ?b = length (buffer d)" using assms by (simp add: length_write_slot deque_inv_def)
  from assms obtain k where "length (buffer d) = MIN_CAPACITY * 2 ^ k"
    by (auto simp: deque_inv_def pow2_capacity_def)
  then have "dense (compact ?d)"
    by (intro dense_compact [where k = k]) (use len assms False in \<open>auto simp: dense_def\<close>)
  with False show ?thesis by (simp add: pop_front_def Let_def)
qed

lemma dense_step:
  assumes "deque_inv d" and "dense d"
  shows "dense (snd (deque_step x d))"
proof (cases x)
  case Clear
  then show ?thesis by (simp add: clear_deque_def dense_def)
qed (use assms in \<open>simp_all add: dense_push_back dense_push_front dense_pop_front\<close>)

lemma dense_run: "deque_inv d \<Longrightarrow> dense d \<Longrightarrow> dense (snd (run_steps deque_step xs d))"
  by (induction xs arbitrary: d) (auto simp: split_beta Let_def dense_step deque_step_correct)

text \<open>
  After any sequence of operations on a fresh deque, the array either has the
  minimum capacity of 16 slots or fewer than four slots per live entry: storage grown for
  a burst is given back as the entries are removed.
\<close>

theorem deque_capacity_bound:
  "length (buffer (snd (run_steps deque_step xs new_deque)))
     \<le> max MIN_CAPACITY (4 * length (snd (run_steps list_step xs [])))"
proof -
  have "dense (snd (run_steps deque_step xs new_deque))"
    by (rule dense_run [OF dq.inv_empty]) (simp add: dense_def new_deque_def)
  then show ?thesis
    using dq.run_from_empty(2) [of xs] by (auto simp: dense_def deque_size_def)
qed

end
