(* ===== verification/Json.thy ===== *)
theory Json
  imports Complex_Main Prelude "HOL-Library.List_Lexorder" "HOL-Library.Char_ord"
begin

text \<open>
  JSON values as the runtime's validators see them, and the two structural comparisons of
  the repository: \<open>deepEqualJson\<close> of \<open>packages/util/values/src/index.ts\<close> and
  \<open>isDeepEqualJson\<close> of \<open>packages/core/session/src/surface.ts\<close>. A number is an integral
  double, the negative zero that JSON text can spell, or a non-integral double. An object
  is the list of its own properties in insertion order. A string is a list of characters,
  one per code unit of the source's strings.
\<close>

section \<open>Values\<close>

datatype jnum = JInt int | JNegZero | JFrac rat

datatype json =
    JNull
  | JBool bool
  | JNum jnum
  | JStr string
  | JArr "json list"
  | JObj "(string \<times> json) list"

definition MAX_SAFE_INTEGER :: int where
  "MAX_SAFE_INTEGER = 2 ^ 53 - 1"

text \<open>\<open>Number.isSafeInteger\<close>; it holds of negative zero.\<close>

fun is_safe_integer :: "jnum \<Rightarrow> bool" where
  "is_safe_integer (JInt i) = (- MAX_SAFE_INTEGER \<le> i \<and> i \<le> MAX_SAFE_INTEGER)"
| "is_safe_integer JNegZero = True"
| "is_safe_integer (JFrac _) = False"

text \<open>The integer a number stands for (of a non-integral one, its floor).\<close>

fun jnum_int :: "jnum \<Rightarrow> int" where
  "jnum_int (JInt i) = i"
| "jnum_int JNegZero = 0"
| "jnum_int (JFrac q) = \<lfloor>q\<rfloor>"

text \<open>The recurring guard \<open>isSafeInteger(v) && v >= 0 && !Object.is(v, -0)\<close>.\<close>

fun safe_nat :: "json \<Rightarrow> nat option" where
  "safe_nat (JNum (JInt i)) = (if 0 \<le> i \<and> i \<le> MAX_SAFE_INTEGER then Some (nat i) else None)"
| "safe_nat _ = None"

text \<open>\<open>===\<close> on numbers: the two zeros are equal.\<close>

fun num_eq :: "jnum \<Rightarrow> jnum \<Rightarrow> bool" where
  "num_eq (JInt i) (JInt j) = (i = j)"
| "num_eq (JInt i) JNegZero = (i = 0)"
| "num_eq JNegZero (JInt j) = (j = 0)"
| "num_eq JNegZero JNegZero = True"
| "num_eq (JFrac p) (JFrac q) = (p = q)"
| "num_eq _ _ = False"

text \<open>An own property, \<open>None\<close> for \<open>undefined\<close>; a non-object has none of those the sources read.\<close>

fun jget :: "string \<Rightarrow> json \<Rightarrow> json option" where
  "jget k (JObj kvs) = map_of kvs k"
| "jget k _ = None"

fun is_jobj :: "json \<Rightarrow> bool" where
  "is_jobj (JObj _) = True"
| "is_jobj _ = False"

fun is_jstr :: "json \<Rightarrow> bool" where
  "is_jstr (JStr _) = True"
| "is_jstr _ = False"

fun jkeys :: "json \<Rightarrow> string list" where
  "jkeys (JObj kvs) = map fst kvs"
| "jkeys _ = []"

text \<open>A property as the type tests see it: what is absent has none of the tested types.\<close>

definition jfield :: "string \<Rightarrow> json \<Rightarrow> json" where
  "jfield k j = (case jget k j of Some v \<Rightarrow> v | None \<Rightarrow> JNull)"

fun is_jnum :: "json \<Rightarrow> bool" where
  "is_jnum (JNum _) = True"
| "is_jnum _ = False"

fun is_jarr :: "json \<Rightarrow> bool" where
  "is_jarr (JArr _) = True"
| "is_jarr _ = False"

text \<open>\<open>typeof value === 'object' && value !== null\<close>\<close>

definition is_record :: "json \<Rightarrow> bool" where
  "is_record j \<longleftrightarrow> is_jobj j \<or> is_jarr j"

fun num_of :: "json \<Rightarrow> jnum" where
  "num_of (JNum n) = n"
| "num_of _ = JInt 0"

fun str_of :: "json \<Rightarrow> string" where
  "str_of (JStr s) = s"
| "str_of _ = []"

fun items_of :: "json \<Rightarrow> json list" where
  "items_of (JArr xs) = xs"
| "items_of _ = []"

text \<open>\<open>value\<close> has every key of \<open>keys\<close> and nothing else.\<close>

definition has_exact_keys :: "json \<Rightarrow> string list \<Rightarrow> bool" where
  "has_exact_keys v keys \<longleftrightarrow> length (jkeys v) = length keys \<and> (\<forall>k \<in> set keys. k \<in> set (jkeys v))"

text \<open>Property keys of a JavaScript object are distinct.\<close>

fun wf_json :: "json \<Rightarrow> bool" where
  "wf_json (JArr xs) = list_all wf_json xs"
| "wf_json (JObj kvs) = (distinct (map fst kvs) \<and> list_all (\<lambda>kv. wf_json (snd kv)) kvs)"
| "wf_json _ = True"

lemma safe_nat_Some_iff:
  "safe_nat j = Some n \<longleftrightarrow> j = JNum (JInt (int n)) \<and> int n \<le> MAX_SAFE_INTEGER"
  by (cases j rule: safe_nat.cases) auto

lemma num_eq_refl [simp]: "num_eq n n"
  by (cases n) auto

lemma num_eq_trans: "num_eq a b \<Longrightarrow> num_eq b c \<Longrightarrow> num_eq a c"
  by (cases a; cases b; cases c) auto

lemma is_jnum_conv: "is_jnum j \<longleftrightarrow> (\<exists>n. j = JNum n)"
  by (cases j) auto

lemma is_jstr_conv: "is_jstr j \<longleftrightarrow> (\<exists>s. j = JStr s)"
  by (cases j) auto

lemma num_eq_sym: "num_eq m n \<longleftrightarrow> num_eq n m"
  by (cases m; cases n) auto

section \<open>Structural comparison\<close>

text \<open>\<open>isDeepEqualJson\<close>: member keys are looked up with \<open>Object.hasOwn\<close>.\<close>

fun is_deep_equal_json :: "json \<Rightarrow> json \<Rightarrow> bool"
  and items_equal :: "json list \<Rightarrow> json list \<Rightarrow> bool"
  and members_equal :: "(string \<times> json) list \<Rightarrow> (string \<times> json) list \<Rightarrow> bool" where
  "is_deep_equal_json JNull JNull = True"
| "is_deep_equal_json (JBool a) (JBool b) = (a = b)"
| "is_deep_equal_json (JNum a) (JNum b) = num_eq a b"
| "is_deep_equal_json (JStr a) (JStr b) = (a = b)"
| "is_deep_equal_json (JArr xs) (JArr ys) = (length xs = length ys \<and> items_equal xs ys)"
| "is_deep_equal_json (JObj xs) (JObj ys) = (length xs = length ys \<and> members_equal xs ys)"
| "is_deep_equal_json _ _ = False"
| "items_equal [] ys = True"
| "items_equal (x # xs) [] = False"
| "items_equal (x # xs) (y # ys) = (is_deep_equal_json x y \<and> items_equal xs ys)"
| "members_equal [] ys = True"
| "members_equal ((k, v) # xs) ys =
     ((case map_of ys k of None \<Rightarrow> False | Some w \<Rightarrow> is_deep_equal_json v w) \<and> members_equal xs ys)"

text \<open>
  \<open>deepEqualJson\<close>: member keys are looked up with \<open>in\<close>, which also finds what an ordinary
  object inherits. The inherited properties of \<open>Object.prototype\<close> are functions, which no
  JSON value equals, with one exception: \<open>__proto__\<close> reads \<open>Object.prototype\<close> itself, an
  object without enumerable own keys.
\<close>

fun deep_equal_json :: "json \<Rightarrow> json \<Rightarrow> bool"
  and deep_items_equal :: "json list \<Rightarrow> json list \<Rightarrow> bool"
  and deep_members_equal :: "(string \<times> json) list \<Rightarrow> (string \<times> json) list \<Rightarrow> bool" where
  "deep_equal_json JNull JNull = True"
| "deep_equal_json (JBool a) (JBool b) = (a = b)"
| "deep_equal_json (JNum a) (JNum b) = num_eq a b"
| "deep_equal_json (JStr a) (JStr b) = (a = b)"
| "deep_equal_json (JArr xs) (JArr ys) = (length xs = length ys \<and> deep_items_equal xs ys)"
| "deep_equal_json (JObj xs) (JObj ys) = (length xs = length ys \<and> deep_members_equal xs ys)"
| "deep_equal_json _ _ = False"
| "deep_items_equal [] ys = True"
| "deep_items_equal (x # xs) [] = False"
| "deep_items_equal (x # xs) (y # ys) = (deep_equal_json x y \<and> deep_items_equal xs ys)"
| "deep_members_equal [] ys = True"
| "deep_members_equal ((k, v) # xs) ys =
     ((case map_of ys k of
         Some w \<Rightarrow> deep_equal_json v w
       | None \<Rightarrow> k = ''__proto__'' \<and> deep_equal_json v (JObj []))
      \<and> deep_members_equal xs ys)"

text \<open>The reference: sort the members of every object by key and identify the two zeros.\<close>

fun canon_num :: "jnum \<Rightarrow> jnum" where
  "canon_num JNegZero = JInt 0"
| "canon_num n = n"

fun canon :: "json \<Rightarrow> json" where
  "canon (JNum n) = JNum (canon_num n)"
| "canon (JArr xs) = JArr (map canon xs)"
| "canon (JObj kvs) = JObj (sort_key fst (map (\<lambda>kv. (fst kv, canon (snd kv))) kvs))"
| "canon j = j"

lemma num_eq_canon: "num_eq m n \<longleftrightarrow> canon_num m = canon_num n"
  by (cases m; cases n) auto

definition canon_members :: "(string \<times> json) list \<Rightarrow> (string \<times> json) list" where
  "canon_members kvs = map (\<lambda>kv. (fst kv, canon (snd kv))) kvs"

lemma map_fst_canon_members [simp]: "map fst (canon_members kvs) = map fst kvs"
  by (simp add: canon_members_def comp_def)

lemma length_canon_members [simp]: "length (canon_members kvs) = length kvs"
  by (simp add: canon_members_def)

lemma map_of_canon_members: "map_of (canon_members kvs) k = map_option canon (map_of kvs k)"
  by (induction kvs) (auto simp: canon_members_def)

lemma sort_key_eq_iff_set:
  fixes xs ys :: "(string \<times> json) list"
  assumes "distinct (map fst xs)" and "distinct (map fst ys)"
  shows "sort_key fst xs = sort_key fst ys \<longleftrightarrow> set xs = set ys"
proof
  assume "sort_key fst xs = sort_key fst ys"
  then have "set (sort_key fst xs) = set (sort_key fst ys)" by simp
  then show "set xs = set ys" by simp
next
  assume eq: "set xs = set ys"
  have "inj_on fst (set (sort_key fst xs) \<union> set (sort_key fst ys))"
    using assms by (simp add: eq distinct_map)
  moreover have "distinct (map fst (sort_key fst xs))" "distinct (map fst (sort_key fst ys))"
    using assms by (simp_all add: distinct_map)
  ultimately show "sort_key fst xs = sort_key fst ys"
    by (intro map_sorted_distinct_set_unique [of fst]) (simp_all add: eq)
qed

lemma same_members_iff:
  fixes xs ys :: "(string \<times> json) list"
  assumes "distinct (map fst xs)" and "distinct (map fst ys)"
  shows "length xs = length ys \<and> set xs \<subseteq> set ys \<longleftrightarrow> sort_key fst xs = sort_key fst ys"
proof -
  have "distinct xs" "distinct ys" using assms by (simp_all add: distinct_map)
  then have "card (set xs) = length xs" "card (set ys) = length ys" by (simp_all add: distinct_card)
  then have "length xs = length ys \<and> set xs \<subseteq> set ys \<longleftrightarrow> set xs = set ys"
    by (metis List.finite_set card_subset_eq order_refl)
  with sort_key_eq_iff_set [OF assms] show ?thesis by simp
qed

text \<open>On well-formed values \<open>isDeepEqualJson\<close> decides equality of the canonical forms.\<close>

lemma wf_map_of: "list_all (\<lambda>kv. wf_json (snd kv)) kvs \<Longrightarrow> map_of kvs k = Some w \<Longrightarrow> wf_json w"
  by (fastforce simp: list_all_iff dest: map_of_SomeD)

lemma is_deep_equal_canon:
  "wf_json a \<Longrightarrow> wf_json b \<Longrightarrow> is_deep_equal_json a b \<longleftrightarrow> canon a = canon b"
  "list_all wf_json xs \<Longrightarrow> list_all wf_json ys \<Longrightarrow> length xs = length ys \<Longrightarrow>
     items_equal xs ys \<longleftrightarrow> map canon xs = map canon ys"
  "list_all (\<lambda>kv. wf_json (snd kv)) kvs \<Longrightarrow> list_all (\<lambda>kv. wf_json (snd kv)) lvs \<Longrightarrow>
     distinct (map fst lvs) \<Longrightarrow>
     members_equal kvs lvs \<longleftrightarrow> set (canon_members kvs) \<subseteq> set (canon_members lvs)"
proof (induction a b and xs ys and kvs lvs
    rule: is_deep_equal_json_items_equal_members_equal.induct)
  case (6 xs ys)
  then have d: "distinct (map fst (canon_members xs))" "distinct (map fst (canon_members ys))"
    by simp_all
  from 6 have "is_deep_equal_json (JObj xs) (JObj ys)
      \<longleftrightarrow> length (canon_members xs) = length (canon_members ys)
        \<and> set (canon_members xs) \<subseteq> set (canon_members ys)" by simp
  also have "\<dots> \<longleftrightarrow> sort_key fst (canon_members xs) = sort_key fst (canon_members ys)"
    by (rule same_members_iff [OF d])
  finally show ?case by (simp add: canon_members_def)
next
  case (12 k v xs ys)
  have "(k, canon v) \<in> set (canon_members ys) \<longleftrightarrow> map_of (canon_members ys) k = Some (canon v)"
    using "12.prems" by (intro map_of_eq_Some_iff [symmetric]) simp
  also have "\<dots> \<longleftrightarrow> (\<exists>w. map_of ys k = Some w \<and> canon w = canon v)"
    by (auto simp: map_of_canon_members)
  also have "\<dots> \<longleftrightarrow> (case map_of ys k of None \<Rightarrow> False | Some w \<Rightarrow> is_deep_equal_json v w)"
  proof (cases "map_of ys k")
    case (Some w)
    then have "wf_json w" using "12.prems" by (intro wf_map_of)
    with Some "12.prems" "12.IH"(1) [OF Some] show ?thesis by (simp add: eq_commute)
  qed simp
  finally show ?case using 12 by (simp add: canon_members_def)
qed (auto simp: num_eq_canon canon_members_def dest: map_eq_imp_length_eq)

text \<open>
  On JSON values with distinct keys \<open>isDeepEqualJson\<close> is equality up to member
  order: it holds exactly when the canonical forms (members sorted by key) are equal.
\<close>

theorem is_deep_equal_json_iff_canon:
  assumes "wf_json a" and "wf_json b"
  shows "is_deep_equal_json a b \<longleftrightarrow> canon a = canon b"
  using is_deep_equal_canon(1) [OF assms] .

fun proto_free :: "json \<Rightarrow> bool" where
  "proto_free (JArr xs) = list_all proto_free xs"
| "proto_free (JObj kvs) =
     (''__proto__'' \<notin> set (map fst kvs) \<and> list_all (\<lambda>kv. proto_free (snd kv)) kvs)"
| "proto_free _ = True"

lemma deep_equal_proto_free:
  "proto_free a \<Longrightarrow> deep_equal_json a b = is_deep_equal_json a b"
  "list_all proto_free xs \<Longrightarrow> deep_items_equal xs ys = items_equal xs ys"
  "''__proto__'' \<notin> set (map fst kvs) \<Longrightarrow> list_all (\<lambda>kv. proto_free (snd kv)) kvs \<Longrightarrow>
     deep_members_equal kvs lvs = members_equal kvs lvs"
proof (induction a b and xs ys and kvs lvs
    rule: is_deep_equal_json_items_equal_members_equal.induct)
  case (12 k v xs ys)
  then show ?case by (cases "map_of ys k") auto
qed auto

text \<open>
  \<open>deepEqualJson\<close> agrees with equality up to member order as long as no object
  of its arguments has a member named \<open>__proto__\<close>.
\<close>

theorem deep_equal_json_iff_canon:
  assumes "wf_json a" and "wf_json b" and "proto_free a"
  shows "deep_equal_json a b \<longleftrightarrow> canon a = canon b"
  using is_deep_equal_canon(1) [OF assms(1,2)] deep_equal_proto_free(1) [OF assms(3)] by simp

lemma deep_members_equal_iff:
  "deep_members_equal kvs lvs \<longleftrightarrow> (\<forall>(k, v) \<in> set kvs. case map_of lvs k of
       Some w \<Rightarrow> deep_equal_json v w | None \<Rightarrow> k = ''__proto__'' \<and> deep_equal_json v (JObj []))"
  by (induction kvs) auto

lemma lookup_in_keys: "map_of kvs k \<noteq> None \<Longrightarrow> k \<in> fst ` set kvs"
  by (simp add: map_of_eq_None_iff)

lemma members_equal_keys: "members_equal kvs lvs \<Longrightarrow> (k, v) \<in> set kvs \<Longrightarrow> k \<in> fst ` set lvs"
  by (induction kvs) (auto split: option.splits intro: lookup_in_keys)

lemma deep_members_equal_keys:
  assumes "deep_members_equal kvs lvs" and "(k, v) \<in> set kvs" and "k \<noteq> ''__proto__''"
  shows "k \<in> fst ` set lvs"
proof -
  have "case map_of lvs k of Some w \<Rightarrow> deep_equal_json v w
      | None \<Rightarrow> k = ''__proto__'' \<and> deep_equal_json v (JObj [])"
    using bspec [OF assms(1) [unfolded deep_members_equal_iff] assms(2)] by simp
  with assms(3) have "map_of lvs k \<noteq> None" by (cases "map_of lvs k") simp_all
  then show ?thesis by (rule lookup_in_keys)
qed

lemma deep_equal_empty_object: "deep_equal_json v (JObj []) \<longleftrightarrow> v = JObj []"
  by (cases v) auto

text \<open>The member comparison against an object without an own \<open>__proto__\<close>.\<close>

lemma deep_members_equal_proto:
  assumes dist: "distinct (map fst kvs)" and p: "(''__proto__'', p) \<in> set kvs" and none: "map_of lvs ''__proto__'' = None"
  shows "deep_members_equal kvs lvs \<longleftrightarrow> p = JObj []
      \<and> (\<forall>(k, v) \<in> set kvs. k \<noteq> ''__proto__'' \<longrightarrow> (\<exists>w. map_of lvs k = Some w \<and> deep_equal_json v w))"
    (is "?l = ?r")
proof
  assume l: ?l
  then have each: "case map_of lvs k of Some w \<Rightarrow> deep_equal_json v w
      | None \<Rightarrow> k = ''__proto__'' \<and> deep_equal_json v (JObj [])" if "(k, v) \<in> set kvs" for k v
    using that by (auto simp: deep_members_equal_iff)
  have "\<exists>w. map_of lvs k = Some w \<and> deep_equal_json v w" if "(k, v) \<in> set kvs" "k \<noteq> ''__proto__''" for k v
    using each [OF that(1)] that(2) by (cases "map_of lvs k") simp_all
  moreover have "p = JObj []" using each [OF p] none by (simp add: deep_equal_empty_object)
  ultimately show ?r by blast
next
  assume r: ?r
  have own: "v = p" if "(''__proto__'', v) \<in> set kvs" for v using eq_key_imp_eq_value [OF dist that p] .
  have "case map_of lvs k of Some w \<Rightarrow> deep_equal_json v w
      | None \<Rightarrow> k = ''__proto__'' \<and> deep_equal_json v (JObj [])" if kv: "(k, v) \<in> set kvs" for k v
  proof (cases "k = ''__proto__''")
    case True
    then show ?thesis using own [of v] kv r none by (simp add: deep_equal_empty_object)
  next
    case False
    then show ?thesis using r kv by fastforce
  qed
  then show ?l by (auto simp: deep_members_equal_iff)
qed

lemma deep_equal_needs_proto:
  assumes dist: "distinct (map fst kvs)" "distinct (map fst lvs)"
    and key: "''__proto__'' \<in> fst ` set kvs" and free: "''__proto__'' \<notin> set (map fst lvs)"
  shows "\<not> deep_equal_json (JObj lvs) (JObj kvs)"
proof
  assume "deep_equal_json (JObj lvs) (JObj kvs)"
  then have eq: "length lvs = length kvs" and m: "deep_members_equal lvs kvs" by simp_all
  have "fst ` set lvs \<subseteq> fst ` set kvs"
  proof
    fix k assume k: "k \<in> fst ` set lvs"
    then obtain v where "(k, v) \<in> set lvs" by auto
    moreover have "k \<noteq> ''__proto__''" using k free by (metis set_map)
    ultimately show "k \<in> fst ` set kvs" by (rule deep_members_equal_keys [OF m])
  qed
  then have "fst ` set lvs \<subset> fst ` set kvs" using key free by auto
  then have "card (fst ` set lvs) < card (fst ` set kvs)" by (simp add: psubset_card_mono)
  then show False using distinct_card [OF dist(1)] distinct_card [OF dist(2)] eq by simp
qed

text \<open>
  Claim C40. Without that restriction it does not: an object with an own \<open>__proto__\<close> member
  compares equal to an object of the same size without one exactly when that member is an empty
  object and the other members have equal counterparts, since the looked-up \<open>__proto__\<close> of the
  second object is the inherited prototype. The objects are never equal, and the
  comparison with the sides exchanged says so.
\<close>

theorem deep_equal_json_proto_defect:
  assumes "wf_json (JObj kvs)" and "wf_json (JObj lvs)"
    and "(''__proto__'', p) \<in> set kvs" and "''__proto__'' \<notin> set (map fst lvs)"
  shows "(deep_equal_json (JObj kvs) (JObj lvs) \<longleftrightarrow> p = JObj [] \<and> length kvs = length lvs
      \<and> (\<forall>(k, v) \<in> set kvs. k \<noteq> ''__proto__'' \<longrightarrow> (\<exists>w. map_of lvs k = Some w \<and> deep_equal_json v w)))
    \<and> \<not> is_deep_equal_json (JObj kvs) (JObj lvs) \<and> \<not> deep_equal_json (JObj lvs) (JObj kvs)"
proof (intro conjI)
  have dist: "distinct (map fst kvs)" "distinct (map fst lvs)" using assms(1,2) by simp_all
  have none: "map_of lvs ''__proto__'' = None" using assms(4) by (simp add: map_of_eq_None_iff)
  show "deep_equal_json (JObj kvs) (JObj lvs) \<longleftrightarrow> p = JObj [] \<and> length kvs = length lvs
      \<and> (\<forall>(k, v) \<in> set kvs. k \<noteq> ''__proto__'' \<longrightarrow> (\<exists>w. map_of lvs k = Some w \<and> deep_equal_json v w))"
    using deep_members_equal_proto [OF dist(1) assms(3) none] by auto
  show "\<not> is_deep_equal_json (JObj kvs) (JObj lvs)"
    using members_equal_keys [OF _ assms(3), of lvs] assms(4) by auto
  have "''__proto__'' \<in> fst ` set kvs" using assms(3) by force
  then show "\<not> deep_equal_json (JObj lvs) (JObj kvs)" by (rule deep_equal_needs_proto [OF dist _ assms(4)])
qed

theorem deep_equal_json_proto_defect_witness:
  "deep_equal_json (JObj [(''__proto__'', JObj []), (''b'', JBool True)]) (JObj [(''a'', JNum (JInt 1)), (''b'', JBool True)])
   \<and> \<not> is_deep_equal_json (JObj [(''__proto__'', JObj []), (''b'', JBool True)]) (JObj [(''a'', JNum (JInt 1)), (''b'', JBool True)])
   \<and> \<not> deep_equal_json (JObj [(''a'', JNum (JInt 1)), (''b'', JBool True)]) (JObj [(''__proto__'', JObj []), (''b'', JBool True)])"
  using deep_equal_json_proto_defect [of "[(''__proto__'', JObj []), (''b'', JBool True)]"
      "[(''a'', JNum (JInt 1)), (''b'', JBool True)]" "JObj []"] by simp

theorem is_deep_equal_json_iff_canon_witness:
  "is_deep_equal_json (JObj [(''a'', JNull), (''b'', JBool True)]) (JObj [(''b'', JBool True), (''a'', JNull)])
   \<longleftrightarrow> canon (JObj [(''a'', JNull), (''b'', JBool True)]) = canon (JObj [(''b'', JBool True), (''a'', JNull)])"
  by (rule is_deep_equal_json_iff_canon) simp_all

theorem deep_equal_json_iff_canon_witness:
  "deep_equal_json (JObj [(''a'', JNull), (''b'', JBool True)]) (JObj [(''b'', JBool True), (''a'', JNull)])
   \<longleftrightarrow> canon (JObj [(''a'', JNull), (''b'', JBool True)]) = canon (JObj [(''b'', JBool True), (''a'', JNull)])"
  by (rule deep_equal_json_iff_canon) simp_all

end
