(* ===== verification/Llm_Types.thy ===== *)
theory Llm_Types
  imports Json
begin

text \<open>
  The provider-neutral vocabulary of \<open>packages/llm/llm/src/types.ts\<close> and
  \<open>packages/llm/llm/src/message.ts\<close>: content blocks, stream chunks, finish reasons, token
  usage, and the three kinds of identified message. The merge-extensible unions carry one
  more constructor for the variants that packages outside this development declare. Each
  type comes with the JSON object the runtime stores for it.
\<close>

section \<open>Content blocks\<close>

datatype content_block =
    TextBlock string
  | ReasoningBlock string
  | ImageBlock json
  | ToolCallBlock string string string
  | ToolResultBlock string "content_block list" "bool option"
  | OtherBlock string "(string \<times> json) list"

fun block_type :: "content_block \<Rightarrow> string" where
  "block_type (TextBlock _) = ''text''"
| "block_type (ReasoningBlock _) = ''reasoning''"
| "block_type (ImageBlock _) = ''image''"
| "block_type (ToolCallBlock _ _ _) = ''tool-call''"
| "block_type (ToolResultBlock _ _ _) = ''tool-result''"
| "block_type (OtherBlock t _) = t"

text \<open>An optional property: absent, or present with its value.\<close>

definition opt_field :: "string \<Rightarrow> json option \<Rightarrow> (string \<times> json) list" where
  "opt_field k v = (case v of None \<Rightarrow> [] | Some j \<Rightarrow> [(k, j)])"

fun block_json :: "content_block \<Rightarrow> json" where
  "block_json (TextBlock t) = JObj [(''type'', JStr ''text''), (''text'', JStr t)]"
| "block_json (ReasoningBlock t) = JObj [(''type'', JStr ''reasoning''), (''text'', JStr t)]"
| "block_json (ImageBlock a) = JObj [(''type'', JStr ''image''), (''attachment'', a)]"
| "block_json (ToolCallBlock i n a) =
     JObj [(''type'', JStr ''tool-call''), (''id'', JStr i), (''name'', JStr n), (''arguments'', JStr a)]"
| "block_json (ToolResultBlock i bs e) =
     JObj ([(''type'', JStr ''tool-result''), (''toolCallId'', JStr i),
            (''content'', JArr (map block_json bs))] @ opt_field ''isError'' (map_option JBool e))"
| "block_json (OtherBlock t rest) = JObj ((''type'', JStr t) # rest)"

fun is_tool_call :: "content_block \<Rightarrow> bool" where
  "is_tool_call (ToolCallBlock _ _ _) = True"
| "is_tool_call _ = False"

section \<open>Failures, usage, finish reasons, chunks\<close>

record llm_failure =
  failure_message :: string
  failure_code :: string
  failure_status :: "int option"
  provider_retry_after_ms :: "int option"
  request_id :: "string option"

definition failure_json :: "llm_failure \<Rightarrow> json" where
  "failure_json f =
     JObj ([(''message'', JStr (failure_message f)), (''code'', JStr (failure_code f))]
       @ opt_field ''status'' (map_option (JNum \<circ> JInt) (failure_status f))
       @ opt_field ''providerRetryAfterMs'' (map_option (JNum \<circ> JInt) (provider_retry_after_ms f))
       @ opt_field ''requestId'' (map_option JStr (request_id f)))"

record token_usage =
  input_tokens :: int
  output_tokens :: int
  total_tokens :: "int option"
  cache_read_tokens :: "int option"
  cache_write_tokens :: "int option"
  reasoning_tokens :: "int option"

definition usage_json :: "token_usage \<Rightarrow> json" where
  "usage_json u =
     JObj ([(''inputTokens'', JNum (JInt (input_tokens u))), (''outputTokens'', JNum (JInt (output_tokens u)))]
       @ opt_field ''totalTokens'' (map_option (JNum \<circ> JInt) (total_tokens u))
       @ opt_field ''cacheReadTokens'' (map_option (JNum \<circ> JInt) (cache_read_tokens u))
       @ opt_field ''cacheWriteTokens'' (map_option (JNum \<circ> JInt) (cache_write_tokens u))
       @ opt_field ''reasoningTokens'' (map_option (JNum \<circ> JInt) (reasoning_tokens u)))"

datatype finish_reason =
    FinishStop
  | FinishToolCalls
  | FinishMaxTokens
  | FinishAborted llm_failure
  | FinishError llm_failure

fun finish_json :: "finish_reason \<Rightarrow> json" where
  "finish_json FinishStop = JObj [(''kind'', JStr ''stop'')]"
| "finish_json FinishToolCalls = JObj [(''kind'', JStr ''tool-calls'')]"
| "finish_json FinishMaxTokens = JObj [(''kind'', JStr ''max-tokens'')]"
| "finish_json (FinishAborted f) = JObj [(''kind'', JStr ''aborted''), (''failure'', failure_json f)]"
| "finish_json (FinishError f) = JObj [(''kind'', JStr ''error''), (''failure'', failure_json f)]"

record replay_envelope =
  response :: json
  replay_blocks :: "json list option"

datatype stream_chunk =
    BlockStart int string
  | TextDelta int string
  | ReasoningDelta int string
  | ToolCallDelta int string "string option" string
  | BlockEnd int content_block
  | UsageChunk token_usage
  | FinishChunk finish_reason "replay_envelope option"

definition envelope_json :: "replay_envelope \<Rightarrow> json" where
  "envelope_json r = JObj ([(''response'', response r)] @ opt_field ''blocks'' (map_option JArr (replay_blocks r)))"

fun chunk_json :: "stream_chunk \<Rightarrow> json" where
  "chunk_json (BlockStart i t) =
     JObj [(''type'', JStr ''block-start''), (''index'', JNum (JInt i)), (''blockType'', JStr t)]"
| "chunk_json (TextDelta i t) =
     JObj [(''type'', JStr ''text-delta''), (''index'', JNum (JInt i)), (''text'', JStr t)]"
| "chunk_json (ReasoningDelta i t) =
     JObj [(''type'', JStr ''reasoning-delta''), (''index'', JNum (JInt i)), (''text'', JStr t)]"
| "chunk_json (ToolCallDelta i c n a) =
     JObj ([(''type'', JStr ''tool-call-delta''), (''index'', JNum (JInt i)), (''id'', JStr c)]
       @ opt_field ''name'' (map_option JStr n) @ [(''argumentsDelta'', JStr a)])"
| "chunk_json (BlockEnd i b) =
     JObj [(''type'', JStr ''block-end''), (''index'', JNum (JInt i)), (''block'', block_json b)]"
| "chunk_json (UsageChunk u) = JObj [(''type'', JStr ''usage''), (''usage'', usage_json u)]"
| "chunk_json (FinishChunk r e) =
     JObj ([(''type'', JStr ''finish''), (''reason'', finish_json r)]
       @ opt_field ''replayState'' (map_option envelope_json e))"

section \<open>Messages\<close>

text \<open>Who produced a message. \<open>OtherSource\<close> is a variant merged in by another package: its
  kind and its remaining properties.\<close>

datatype message_source =
    UserSource
  | PluginSource string "(string \<times> json) list"
  | ModelSource string string "json option"
  | ToolSource string
  | OtherSource string "(string \<times> json) list"

fun source_json :: "message_source \<Rightarrow> json" where
  "source_json UserSource = JObj [(''kind'', JStr ''user'')]"
| "source_json (PluginSource p rest) = JObj ((''kind'', JStr ''plugin'') # (''plugin'', JStr p) # rest)"
| "source_json (ModelSource p m r) =
     JObj ([(''kind'', JStr ''model''), (''provider'', JStr p), (''model'', JStr m)]
       @ opt_field ''replayState'' r)"
| "source_json (ToolSource c) = JObj [(''kind'', JStr ''tool''), (''callId'', JStr c)]"
| "source_json (OtherSource k rest) = JObj ((''kind'', JStr k) # rest)"

record user_message =
  um_id :: string
  um_content :: "content_block list"
  um_source :: message_source

record assistant_message =
  am_id :: string
  am_content :: "content_block list"
  am_provider :: string
  am_model :: string
  am_replay :: "json option"

text \<open>A tool result's message has exactly one block, of type \<open>tool-result\<close>.\<close>

record tool_result_message =
  tr_id :: string
  tr_call_id :: string
  tr_block_call_id :: string
  tr_content :: "content_block list"
  tr_is_error :: "bool option"

datatype message =
    UserMessage user_message
  | AssistantMessage assistant_message
  | ToolResultMessage tool_result_message

definition message_object :: "string \<Rightarrow> string \<Rightarrow> json list \<Rightarrow> message_source \<Rightarrow> json" where
  "message_object i role content src =
     JObj [(''id'', JStr i), (''role'', JStr role), (''content'', JArr content), (''source'', source_json src)]"

definition tool_result_block_json :: "tool_result_message \<Rightarrow> json \<Rightarrow> json" where
  "tool_result_block_json m content =
     JObj ([(''type'', JStr ''tool-result''), (''toolCallId'', JStr (tr_block_call_id m)), (''content'', content)]
       @ opt_field ''isError'' (map_option JBool (tr_is_error m)))"

definition user_message_json :: "user_message \<Rightarrow> json" where
  "user_message_json m = message_object (um_id m) ''user'' (map block_json (um_content m)) (um_source m)"

definition assistant_message_json :: "assistant_message \<Rightarrow> json" where
  "assistant_message_json m =
     message_object (am_id m) ''assistant'' (map block_json (am_content m))
       (ModelSource (am_provider m) (am_model m) (am_replay m))"

definition tool_result_message_json :: "tool_result_message \<Rightarrow> json" where
  "tool_result_message_json m =
     message_object (tr_id m) ''user'' [tool_result_block_json m (JArr (map block_json (tr_content m)))]
       (ToolSource (tr_call_id m))"

end
