(* ===== verification/Assembler.thy ===== *)
theory Assembler
  imports Llm_Types
begin

text \<open>
  \<open>packages/llm/llm/src/assembler.ts\<close>: the incremental assembler that turns a stream of raw
  chunks into content blocks. The state holds one partial block per stream index and the
  order in which the indices appeared. The lemmas show that the order and the partials
  agree, that an index is assembled from its own chunks only, that a closed block never
  changes, and what truncation and interruption keep.
\<close>

section \<open>State and operations\<close>

record partial_block =
  pb_type :: string
  pb_text :: string
  pb_call_id :: "string option"
  pb_call_name :: "string option"
  pb_arguments :: string
  pb_block :: "content_block option"

record assembler =
  partials :: "int \<rightharpoonup> partial_block"
  order :: "int list"
  usage_seen :: "token_usage option"
  finish_seen :: "finish_reason option"
  replay_seen :: "replay_envelope option"

datatype assembler_error = IncompleteBlock string | MissingPartial int

definition new_assembler :: assembler where
  "new_assembler = \<lparr>partials = Map.empty, order = [], usage_seen = None, finish_seen = None, replay_seen = None\<rparr>"

definition empty_partial :: "string \<Rightarrow> partial_block" where
  "empty_partial t = \<lparr>pb_type = t, pb_text = [], pb_call_id = None, pb_call_name = None,
     pb_arguments = [], pb_block = None\<rparr>"

text \<open>\<open>ensure\<close> returns the partial of an index, opening it at the end of the order if new.\<close>

definition ensure :: "int \<Rightarrow> string \<Rightarrow> assembler \<Rightarrow> partial_block \<times> assembler" where
  "ensure i t a =
     (case partials a i of
        Some p \<Rightarrow> (p, a)
      | None \<Rightarrow> (empty_partial t,
                 a\<lparr>partials := (partials a)(i \<mapsto> empty_partial t), order := order a @ [i]\<rparr>))"

definition store_partial :: "int \<Rightarrow> partial_block \<Rightarrow> assembler \<Rightarrow> assembler" where
  "store_partial i p a = a\<lparr>partials := (partials a)(i \<mapsto> p)\<rparr>"

text \<open>Mutation of the partial of an index that is still open; stragglers are ignored.\<close>

definition update_open :: "int \<Rightarrow> string \<Rightarrow> (partial_block \<Rightarrow> partial_block) \<Rightarrow> assembler \<Rightarrow> assembler" where
  "update_open i t f a =
     (let (p, a') = ensure i t a
      in if pb_block p \<noteq> None then a' else store_partial i (f p) a')"

fun push_chunk :: "stream_chunk \<Rightarrow> assembler \<Rightarrow> assembler" where
  "push_chunk (BlockStart i t) a = snd (ensure i t a)"
| "push_chunk (TextDelta i s) a = update_open i ''text'' (\<lambda>p. p\<lparr>pb_text := pb_text p @ s\<rparr>) a"
| "push_chunk (ReasoningDelta i s) a = update_open i ''reasoning'' (\<lambda>p. p\<lparr>pb_text := pb_text p @ s\<rparr>) a"
| "push_chunk (ToolCallDelta i c n s) a =
     update_open i ''tool-call''
       (\<lambda>p. p\<lparr>pb_call_id := Some c,
              pb_call_name := (case n of Some m \<Rightarrow> if m = [] then pb_call_name p else Some m
                                       | None \<Rightarrow> pb_call_name p),
              pb_arguments := pb_arguments p @ s\<rparr>) a"
| "push_chunk (BlockEnd i b) a = update_open i (block_type b) (\<lambda>p. p\<lparr>pb_block := Some b\<rparr>) a"
| "push_chunk (UsageChunk u) a = a\<lparr>usage_seen := Some u\<rparr>"
| "push_chunk (FinishChunk r e) a = a\<lparr>finish_seen := Some r, replay_seen := e\<rparr>"

definition push_chunks :: "stream_chunk list \<Rightarrow> assembler \<Rightarrow> assembler" where
  "push_chunks cs a = fold push_chunk cs a"

definition assemble :: "partial_block \<Rightarrow> int \<Rightarrow> (assembler_error, content_block) result" where
  "assemble p i =
     (case pb_block p of
        Some b \<Rightarrow> Inr b
      | None \<Rightarrow>
          if pb_type p = ''text'' then Inr (TextBlock (pb_text p))
          else if pb_type p = ''reasoning'' then Inr (ReasoningBlock (pb_text p))
          else if pb_type p = ''tool-call'' then
            Inr (ToolCallBlock (case pb_call_id p of Some c \<Rightarrow> c | None \<Rightarrow> ''call-'' @ show_int i)
                   (case pb_call_name p of Some n \<Rightarrow> n | None \<Rightarrow> []) (pb_arguments p))
          else Inl (IncompleteBlock (pb_type p)))"

definition must_get :: "assembler \<Rightarrow> int \<Rightarrow> (assembler_error, partial_block) result" where
  "must_get a i = (case partials a i of Some p \<Rightarrow> Inr p | None \<Rightarrow> Inl (MissingPartial i))"

primrec map_result :: "('a \<Rightarrow> ('e, 'b) result) \<Rightarrow> 'a list \<Rightarrow> ('e, 'b list) result" where
  "map_result f [] = Inr []"
| "map_result f (x # xs) = and_then (f x) (\<lambda>y. and_then (map_result f xs) (\<lambda>ys. Inr (y # ys)))"

definition finish :: "assembler \<Rightarrow> finish_reason" where
  "finish a = (case finish_seen a of Some r \<Rightarrow> r | None \<Rightarrow> FinishStop)"

text \<open>Keep the positions whose flag is set: \<open>xs.filter((_, position) => kept[position])\<close>.\<close>

definition keep_flagged :: "bool list \<Rightarrow> 'a list \<Rightarrow> 'a list" where
  "keep_flagged kept xs = map snd (filter fst (zip kept xs))"

definition assembled :: "assembler \<Rightarrow> (assembler_error, content_block list \<times> replay_envelope option) result" where
  "assembled a =
     and_then (map_result (\<lambda>i. and_then (must_get a i) (\<lambda>p. assemble p i)) (order a)) (\<lambda>all.
       let kept = (if finish a = FinishMaxTokens then Some (map (\<lambda>b. \<not> is_tool_call b) all) else None);
           bs = (case kept of None \<Rightarrow> all | Some k \<Rightarrow> keep_flagged k all)
       in case replay_seen a of
            None \<Rightarrow> Inr (bs, None)
          | Some env \<Rightarrow>
              (case replay_blocks env of
                 None \<Rightarrow> Inr (bs, Some env)
               | Some entries \<Rightarrow>
                   if length entries \<noteq> length all then Inr (bs, None)
                   else case kept of
                          None \<Rightarrow> Inr (bs, Some env)
                        | Some k \<Rightarrow>
                            if length bs = length all then Inr (bs, Some env)
                            else Inr (bs, Some \<lparr>response = response env,
                                                replay_blocks = Some (keep_flagged k entries)\<rparr>)))"

definition assembled_blocks :: "assembler \<Rightarrow> (assembler_error, content_block list) result" where
  "assembled_blocks a = and_then (assembled a) (\<lambda>r. Inr (fst r))"

definition replay_state :: "assembler \<Rightarrow> (assembler_error, replay_envelope option) result" where
  "replay_state a = and_then (assembled a) (\<lambda>r. Inr (snd r))"

fun visible_text :: "content_block \<Rightarrow> bool" where
  "visible_text (TextBlock t) = (trim t \<noteq> [])"
| "visible_text (ReasoningBlock t) = (trim t \<noteq> [])"
| "visible_text _ = False"

definition interrupted_block :: "assembler \<Rightarrow> int \<Rightarrow> (assembler_error, content_block option) result" where
  "interrupted_block a i =
     and_then (must_get a i) (\<lambda>p.
       let t = (case pb_block p of Some b \<Rightarrow> block_type b | None \<Rightarrow> pb_type p)
       in if t \<noteq> ''text'' \<and> t \<noteq> ''reasoning'' then Inr None
          else and_then (assemble p i) (\<lambda>b. Inr (Some b)))"

definition interrupted_blocks :: "assembler \<Rightarrow> (assembler_error, content_block list) result" where
  "interrupted_blocks a =
     and_then (map_result (interrupted_block a) (order a)) (\<lambda>bs.
       Inr (filter visible_text (List.map_filter (\<lambda>b. b) bs)))"

section \<open>The order lists exactly the partials\<close>

definition assembler_inv :: "assembler \<Rightarrow> bool" where
  "assembler_inv a \<longleftrightarrow> distinct (order a) \<and> set (order a) = dom (partials a)"

lemma assembler_inv_frame:
  "assembler_inv (a\<lparr>usage_seen := u\<rparr>) = assembler_inv a"
  "assembler_inv (a\<lparr>finish_seen := r, replay_seen := e\<rparr>) = assembler_inv a"
  by (simp_all add: assembler_inv_def)

lemma new_assembler_inv [inv_intros]: "assembler_inv new_assembler"
  by (simp add: assembler_inv_def new_assembler_def)

lemma ensure_inv [inv_intros]: "assembler_inv a \<Longrightarrow> assembler_inv (snd (ensure i t a))"
  by (auto simp: assembler_inv_def ensure_def split: option.splits)

lemma ensure_present: "partials (snd (ensure i t a)) i = Some (fst (ensure i t a))"
  by (auto simp: ensure_def split: option.splits)

lemma update_open_inv [inv_intros]: "assembler_inv a \<Longrightarrow> assembler_inv (update_open i t f a)"
  using ensure_inv [of a i t] ensure_present [of i t a]
  by (auto simp: update_open_def split_beta Let_def store_partial_def assembler_inv_def)

lemma push_chunk_inv [inv_intros]: "assembler_inv a \<Longrightarrow> assembler_inv (push_chunk c a)"
  by (cases c) (auto intro: inv_intros simp: assembler_inv_frame)

lemma push_chunks_inv [inv_intros]: "assembler_inv a \<Longrightarrow> assembler_inv (push_chunks cs a)"
  unfolding push_chunks_def by (induction cs arbitrary: a) (auto intro: inv_intros)

section \<open>Chunks of different indices do not interfere\<close>

fun chunk_index :: "stream_chunk \<Rightarrow> int option" where
  "chunk_index (BlockStart i _) = Some i"
| "chunk_index (TextDelta i _) = Some i"
| "chunk_index (ReasoningDelta i _) = Some i"
| "chunk_index (ToolCallDelta i _ _ _) = Some i"
| "chunk_index (BlockEnd i _) = Some i"
| "chunk_index _ = None"

text \<open>What a chunk does to the partial of its own index.\<close>

definition step_partial :: "stream_chunk \<Rightarrow> int \<Rightarrow> partial_block option \<Rightarrow> partial_block option" where
  "step_partial c i p =
     partials (push_chunk c (new_assembler\<lparr>partials := (case p of None \<Rightarrow> Map.empty | Some q \<Rightarrow> [i \<mapsto> q])\<rparr>)) i"

lemma partials_update_open:
  "partials (update_open i t f a) j =
     (if j = i then (let p = (case partials a i of None \<Rightarrow> empty_partial t | Some p \<Rightarrow> p)
                     in Some (if pb_block p \<noteq> None then p else f p))
      else partials a j)"
  by (auto simp: update_open_def ensure_def store_partial_def Let_def split: option.splits)

lemma partials_ensure:
  "partials (snd (ensure i t a)) j =
     (if j = i then Some (case partials a i of None \<Rightarrow> empty_partial t | Some p \<Rightarrow> p) else partials a j)"
  by (auto simp: ensure_def split: option.splits)

lemma partials_push_chunk:
  "partials (push_chunk c a) i =
     (if chunk_index c = Some i then step_partial c i (partials a i) else partials a i)"
  by (cases c; cases "partials a i") (auto simp: partials_update_open partials_ensure step_partial_def)

lemma partials_push_chunks:
  "partials (push_chunks cs a) i =
     fold (\<lambda>c. step_partial c i) (filter (\<lambda>c. chunk_index c = Some i) cs) (partials a i)"
  unfolding push_chunks_def
  by (induction cs arbitrary: a) (auto simp: partials_push_chunk)

text \<open>
  A block is assembled from the chunks of its own index only: interleaving the
  chunks of other indices, in any order, changes neither its content nor whether it is
  closed.
\<close>

theorem assembler_index_isolation:
  "partials (push_chunks cs new_assembler) i
     = partials (push_chunks (filter (\<lambda>c. chunk_index c = Some i) cs) new_assembler) i"
  by (simp add: partials_push_chunks)

section \<open>Stream order\<close>

definition first_occurrences :: "'a list \<Rightarrow> 'a list" where
  "first_occurrences xs = rev (remdups (rev xs))"

lemma first_occurrences_snoc:
  "first_occurrences (xs @ [x])
     = (if x \<in> set xs then first_occurrences xs else first_occurrences xs @ [x])"
  by (simp add: first_occurrences_def)

lemma set_first_occurrences [simp]: "set (first_occurrences xs) = set xs"
  by (simp add: first_occurrences_def)

definition chunk_indices :: "stream_chunk list \<Rightarrow> int list" where
  "chunk_indices cs = List.map_filter chunk_index cs"

lemma order_push_chunk:
  "order (push_chunk c a) =
     (case chunk_index c of
        Some i \<Rightarrow> if partials a i = None then order a @ [i] else order a
      | None \<Rightarrow> order a)"
  by (cases c) (auto simp: update_open_def ensure_def store_partial_def Let_def split: option.splits)

text \<open>
  The assembled blocks come in stream order: the indices are listed once each,
  in the order of their first chunk.
\<close>

theorem assembler_stream_order:
  "order (push_chunks cs new_assembler) = first_occurrences (chunk_indices cs)"
proof (induction cs rule: rev_induct)
  case Nil
  then show ?case
    by (simp add: push_chunks_def new_assembler_def first_occurrences_def chunk_indices_def List.map_filter_simps)
next
  case (snoc c cs)
  let ?a = "push_chunks cs new_assembler"
  have inv: "assembler_inv ?a" by (intro inv_intros)
  have "order (push_chunks (cs @ [c]) new_assembler) = order (push_chunk c ?a)"
    by (simp add: push_chunks_def)
  moreover have "partials ?a i = None \<longleftrightarrow> i \<notin> set (chunk_indices cs)" for i
  proof -
    have "set (order ?a) = set (chunk_indices cs)" using snoc.IH by simp
    with inv show ?thesis by (auto simp: assembler_inv_def)
  qed
  ultimately show ?case
    using snoc.IH
    by (auto simp: order_push_chunk chunk_indices_def map_filter_snoc first_occurrences_snoc
        split: option.splits)
qed

section \<open>Closed blocks and delta-only streams\<close>

lemma step_partial_closed:
  "pb_block p = Some b \<Longrightarrow> chunk_index c = Some i \<Longrightarrow> step_partial c i (Some p) = Some p"
  by (cases c) (auto simp: step_partial_def partials_update_open partials_ensure)

text \<open>
  The first \<open>block-end\<close> of an index is final: whatever chunks follow, the index
  keeps that block, so late deltas and repeated closes cannot alter it.
\<close>

theorem assembler_first_close_wins:
  assumes "partials a i = Some p" and "pb_block p = None"
  shows "\<exists>q. partials (push_chunks (BlockEnd i b # cs) a) i = Some q \<and> assemble q i = Inr b"
proof -
  let ?q = "p\<lparr>pb_block := Some b\<rparr>"
  have "step_partial (BlockEnd i b) i (Some p) = Some ?q"
    using assms by (simp add: step_partial_def partials_update_open)
  moreover have "fold (\<lambda>c. step_partial c i) (filter (\<lambda>c. chunk_index c = Some i) cs) (Some ?q) = Some ?q"
    by (induction cs) (auto simp: step_partial_closed [of ?q b])
  ultimately have "partials (push_chunks (BlockEnd i b # cs) a) i = Some ?q"
    using assms by (simp add: partials_push_chunks)
  then show ?thesis by (simp add: assemble_def)
qed

theorem assembler_first_close_wins_witness:
  "\<exists>q. partials (push_chunks [BlockEnd 0 (TextBlock ''hello''), TextDelta 0 ''late'']
          (push_chunks [TextDelta 0 ''hel''] new_assembler)) 0 = Some q
      \<and> assemble q 0 = Inr (TextBlock ''hello'')"
  by (rule assembler_first_close_wins [where p = "(empty_partial ''text'')\<lparr>pb_text := ''hel''\<rparr>"])
    (simp_all add: push_chunks_def update_open_def ensure_def new_assembler_def store_partial_def
      empty_partial_def)

definition delta_texts :: "int \<Rightarrow> stream_chunk list \<Rightarrow> string" where
  "delta_texts i cs = concat (map (\<lambda>c. case c of TextDelta j s \<Rightarrow> if j = i then s else [] | _ \<Rightarrow> []) cs)"

text \<open>
  A stream without block boundaries still assembles: an index that only ever
  received text deltas becomes the text block of their concatenation.
\<close>

theorem assembler_delta_only_text:
  assumes only: "\<forall>c \<in> set cs. chunk_index c = Some i \<longrightarrow> (\<exists>s. c = TextDelta i s)"
    and some: "i \<in> set (chunk_indices cs)"
  shows "\<exists>p. partials (push_chunks cs new_assembler) i = Some p
           \<and> assemble p i = Inr (TextBlock (delta_texts i cs))"
proof -
  have step: "step_partial (TextDelta i s) i p
      = Some (case p of None \<Rightarrow> (empty_partial ''text'')\<lparr>pb_text := s\<rparr>
                      | Some q \<Rightarrow> if pb_block q \<noteq> None then q else q\<lparr>pb_text := pb_text q @ s\<rparr>)" for s p
    by (auto simp: step_partial_def partials_update_open empty_partial_def new_assembler_def split: option.splits)
  have fold: "fold (\<lambda>c. step_partial c i) (filter (\<lambda>c. chunk_index c = Some i) cs)
      (Some ((empty_partial ''text'')\<lparr>pb_text := t\<rparr>))
      = Some ((empty_partial ''text'')\<lparr>pb_text := t @ delta_texts i cs\<rparr>)"
    if "\<forall>c \<in> set cs. chunk_index c = Some i \<longrightarrow> (\<exists>s. c = TextDelta i s)" for t cs
    using that
  proof (induction cs arbitrary: t)
    case Nil
    then show ?case by (simp add: delta_texts_def)
  next
    case (Cons c cs)
    then show ?case
      by (cases c) (auto simp: step empty_partial_def delta_texts_def)
  qed
  have "fold (\<lambda>c. step_partial c i) (filter (\<lambda>c. chunk_index c = Some i) cs) None
      = Some ((empty_partial ''text'')\<lparr>pb_text := delta_texts i cs\<rparr>)"
    using only some
  proof (induction cs)
    case Nil
    then show ?case by (simp add: chunk_indices_def List.map_filter_simps)
  next
    case (Cons c cs)
    show ?case
    proof (cases "chunk_index c = Some i")
      case True
      with Cons.prems obtain s where "c = TextDelta i s" by auto
      with Cons.prems show ?thesis by (simp add: step fold) (simp add: delta_texts_def)
    next
      case False
      with Cons have "fold (\<lambda>c. step_partial c i) (filter (\<lambda>c. chunk_index c = Some i) cs) None
          = Some ((empty_partial ''text'')\<lparr>pb_text := delta_texts i cs\<rparr>)"
        by (auto simp: chunk_indices_def List.map_filter_simps split: option.splits)
      with False show ?thesis by (cases c) (auto simp: delta_texts_def)
    qed
  qed
  then have "partials (push_chunks cs new_assembler) i
      = Some ((empty_partial ''text'')\<lparr>pb_text := delta_texts i cs\<rparr>)"
    by (simp add: partials_push_chunks new_assembler_def)
  then show ?thesis by (simp add: assemble_def empty_partial_def)
qed

section \<open>Truncation and interruption\<close>

lemma map_result_length: "map_result f xs = Inr ys \<Longrightarrow> length ys = length xs"
  by (induction xs arbitrary: ys) (auto simp: and_then_Inr_iff)

lemma map_result_total: "(\<And>x. x \<in> set xs \<Longrightarrow> is_ok (f x)) \<Longrightarrow> \<exists>ys. map_result f xs = Inr ys"
  by (induction xs) (fastforce simp: is_ok_iff and_then_Inr_iff)+

lemma keep_flagged_map: "keep_flagged (map P xs) xs = filter P xs"
  by (induction xs) (auto simp: keep_flagged_def)

lemma length_keep_flagged:
  "length es = length xs \<Longrightarrow> length (keep_flagged k es) = length (keep_flagged k xs)"
proof (induction k arbitrary: es xs)
  case Nil
  then show ?case by (simp add: keep_flagged_def)
next
  case (Cons f k)
  then show ?case by (cases es; cases xs) (auto simp: keep_flagged_def)
qed

text \<open>
  Emitted blocks and replay metadata agree: whenever a replay envelope with
  per-block entries is returned, it has one entry for each emitted block, and a response
  cut off at the token limit contains no tool call.
\<close>

theorem assembled_replay_aligned:
  assumes "assembled a = Inr (bs, r)"
  shows "(case r of None \<Rightarrow> True
          | Some env \<Rightarrow> (case replay_blocks env of None \<Rightarrow> True | Some es \<Rightarrow> length es = length bs))
       \<and> (finish a = FinishMaxTokens \<longrightarrow> filter is_tool_call bs = [])"
proof -
  obtain all where all: "map_result (\<lambda>i. and_then (must_get a i) (\<lambda>p. assemble p i)) (order a) = Inr all"
    using assms by (auto simp: assembled_def and_then_Inr_iff)
  show ?thesis
  proof (cases "finish a = FinishMaxTokens")
    case True
    let ?k = "map (\<lambda>b. \<not> is_tool_call b) all"
    have bs: "bs = filter (\<lambda>b. \<not> is_tool_call b) all"
      using assms True
      by (auto simp: assembled_def all Let_def keep_flagged_map split: option.splits if_splits)
    moreover have "length es = length all \<Longrightarrow> length (keep_flagged ?k es) = length bs" for es :: "json list"
      using length_keep_flagged [of es all ?k] by (simp add: bs keep_flagged_map)
    ultimately show ?thesis
      using assms True
      by (auto simp: assembled_def all Let_def keep_flagged_map split: option.splits if_splits)
  next
    case False
    with assms show ?thesis
      by (auto simp: assembled_def all Let_def split: option.splits if_splits)
  qed
qed

theorem assembled_replay_aligned_witness:
  "\<exists>a :: assembler. assembled a = Inr ([TextBlock ''a''], Some \<lparr>response = JNull, replay_blocks = Some [JBool True]\<rparr>)
     \<and> finish a = FinishMaxTokens \<and> filter is_tool_call [TextBlock ''a''] = []"
proof -
  define a where "a = push_chunks
    [TextDelta 0 ''a'', ToolCallDelta 1 ''c'' (Some ''t'') ''{}'',
     FinishChunk FinishMaxTokens (Some \<lparr>response = JNull, replay_blocks = Some [JBool True, JBool False]\<rparr>)]
    new_assembler"
  have "assembled a = Inr ([TextBlock ''a''], Some \<lparr>response = JNull, replay_blocks = Some [JBool True]\<rparr>)"
      "finish a = FinishMaxTokens"
    by (simp_all add: a_def push_chunks_def update_open_def ensure_def new_assembler_def store_partial_def
      empty_partial_def assembled_def must_get_def assemble_def finish_def keep_flagged_def)
  then show ?thesis using assembled_replay_aligned [of a] by blast
qed

lemma interrupted_block_ok:
  assumes "assembler_inv a" and "i \<in> set (order a)"
  shows "is_ok (interrupted_block a i)"
proof -
  from assms obtain p where "partials a i = Some p" by (auto simp: assembler_inv_def)
  then show ?thesis
    by (auto simp: interrupted_block_def must_get_def assemble_def Let_def split: option.splits)
qed

text \<open>
  After any chunks whatever, an interrupted stream can be finalised: the prefix is
  assembled without an error, unknown open blocks included, and it consists of text and
  reasoning blocks with visible text.
\<close>

theorem interrupted_blocks_total:
  "\<exists>bs. interrupted_blocks (push_chunks cs new_assembler) = Inr bs \<and> filter visible_text bs = bs"
proof -
  let ?a = "push_chunks cs new_assembler"
  have "assembler_inv ?a" by (intro inv_intros)
  then obtain bs where "map_result (interrupted_block ?a) (order ?a) = Inr bs"
    using map_result_total [of "order ?a" "interrupted_block ?a"] interrupted_block_ok by blast
  then show ?thesis by (simp add: interrupted_blocks_def)
qed

lemma assemble_list_errors:
  "map_result (\<lambda>i. and_then (must_get a i) (\<lambda>p. assemble p i)) is = Inl e \<Longrightarrow>
   set is \<subseteq> dom (partials a) \<Longrightarrow>
   \<exists>t. e = IncompleteBlock t \<and> t \<notin> {''text'', ''reasoning'', ''tool-call''}"
  by (induction "is")
    (auto simp: and_then_Inl_iff must_get_def assemble_def split: option.splits if_splits)

text \<open>
  Assembling a complete stream fails only on an open block of an unknown type: the
  accessor of the partials never meets an index without one.
\<close>

theorem assembled_error_is_unknown_type:
  assumes "assembled_blocks (push_chunks cs new_assembler) = Inl e"
  shows "\<exists>t. e = IncompleteBlock t \<and> t \<notin> {''text'', ''reasoning'', ''tool-call''}"
proof -
  let ?a = "push_chunks cs new_assembler"
  have inv: "assembler_inv ?a" by (intro inv_intros)
  have "map_result (\<lambda>i. and_then (must_get ?a i) (\<lambda>p. assemble p i)) (order ?a) = Inl e"
    using assms by (auto simp: assembled_blocks_def assembled_def and_then_Inl_iff Let_def
        split: option.splits if_splits)
  moreover have "set (order ?a) \<subseteq> dom (partials ?a)" using inv by (simp add: assembler_inv_def)
  ultimately show ?thesis using assemble_list_errors by blast
qed

theorem assembled_error_is_unknown_type_witness:
  "\<exists>t. IncompleteBlock ''video'' = IncompleteBlock t \<and> t \<notin> {''text'', ''reasoning'', ''tool-call''}"
  by (rule assembled_error_is_unknown_type [of "[BlockStart 0 ''video'']"])
    (simp add: push_chunks_def ensure_def new_assembler_def empty_partial_def assembled_blocks_def
      assembled_def must_get_def assemble_def)

end
