(* ===== verification/Session_Types.thy ===== *)
theory Session_Types
  imports Llm_Types
begin

text \<open>
  The session log's vocabulary, \<open>packages/core/session/src/types.ts\<close>: event payloads
  (with the variants that \<open>dsh-agent\<close>, \<open>dsh-compaction\<close> and \<open>dsh-goal\<close> merge into the
  event map), the event envelope, and the JSON object stored for each event. Sequence
  numbers are branded non-negative safe integers, \<open>nat\<close> here with the branding
  constructor \<open>session_seq\<close>; \<open>surfaceOp\<close> and \<open>sourceEventSeqs\<close> are the raw values the
  validators inspect, \<open>None\<close> when the property is absent.
\<close>

section \<open>Branded numbers\<close>

datatype brand_error = NotASafeNatural jnum

text \<open>The constructors \<open>SessionSeq\<close> and \<open>SessionLogOffset\<close>.\<close>

definition session_seq :: "jnum \<Rightarrow> (brand_error, nat) result" where
  "session_seq v =
     (case v of
        JInt i \<Rightarrow> if 0 \<le> i \<and> i \<le> MAX_SAFE_INTEGER then Inr (nat i) else Inl (NotASafeNatural v)
      | _ \<Rightarrow> Inl (NotASafeNatural v))"

definition session_log_offset :: "jnum \<Rightarrow> (brand_error, nat) result" where
  "session_log_offset v =
     (case v of
        JInt i \<Rightarrow> if 0 \<le> i \<and> i \<le> MAX_SAFE_INTEGER then Inr (nat i) else Inl (NotASafeNatural v)
      | _ \<Rightarrow> Inl (NotASafeNatural v))"

lemma session_seq_int:
  "session_seq (JInt (int n)) = (if int n \<le> MAX_SAFE_INTEGER then Inr n else Inl (NotASafeNatural (JInt (int n))))"
  by (simp add: session_seq_def)

lemma session_seq_Inr_iff: "session_seq v = Inr n \<longleftrightarrow> v = JInt (int n) \<and> int n \<le> MAX_SAFE_INTEGER"
  by (auto simp: session_seq_def split: jnum.splits if_splits)

definition SESSION_FORMAT_VERSION :: int where
  "SESSION_FORMAT_VERSION = 0"

section \<open>Payloads\<close>

datatype cancel_cause = CancelUser | CancelParent | CancelHook string | CancelDisposed | CancelLegacy

datatype turn_end_reason =
    Completed
  | Aborted cancel_cause
  | Blocked
  | ErrorEnd llm_failure
  | MaxTokensEnd
  | Interrupted

record call_config =
  cc_provider :: string
  cc_model :: string
  cc_effort :: "string option"
  cc_temperature :: "jnum option"
  cc_max_tokens :: "jnum option"
  cc_stop :: "string list option"

text \<open>Each marker is present (\<open>true\<close>) or absent.\<close>

record adapter_defaults =
  default_effort :: bool
  default_max_tokens :: bool

record tool_schema =
  schema_name :: string
  schema_description :: string
  schema_parameters :: json

record epoch_header =
  eh_config :: call_config
  eh_defaults :: "adapter_defaults option"
  eh_system :: "string option"
  eh_tools :: "tool_schema list option"

datatype header_reason = HeaderInitial | HeaderResume | HeaderChange | HeaderSeries

record request_context =
  rc_provider :: string
  rc_model :: string
  rc_window :: "int option"

record assistant_data =
  asst_turn :: int
  asst_step :: int
  asst_message :: assistant_message
  asst_usage :: "token_usage option"
  asst_interrupted :: bool

record tool_result_data =
  res_turn :: int
  res_step :: int
  res_message :: tool_result_message
  res_error :: "(string \<times> string) option"
  res_meta :: "json option"

text \<open>\<open>agent/inbox/spliced\<close> of \<open>packages/core/agent/src/types.ts\<close>.\<close>

datatype inbox_target = NextTurn | NextStep

record inbox_splice =
  sp_target :: inbox_target
  sp_start :: jnum
  sp_removed :: "jnum option"
  sp_inserted :: "user_message list"
  sp_canceled :: bool

text \<open>The compaction events of \<open>packages/compaction/compaction/src/types.ts\<close>.\<close>

record compaction_start =
  cs_id :: string
  cs_command :: "string option"
  cs_turn :: "int option"

record shadowed_span =
  span_start :: jnum
  span_end :: jnum
  span_seqs :: "jnum list"
  span_tokens :: jnum

text \<open>What a summarizer answers: the summary, the raw output it came from, and the call that made it.\<close>

record summary_result =
  su_blocks :: "content_block list"
  su_raw :: "content_block list option"
  su_stream_call :: bool
  su_provider :: string
  su_model :: string
  su_max_tokens :: "int option"
  su_usage :: "token_usage option"

record compaction_summary =
  cm_id :: string
  cm_command :: "string option"
  cm_span :: shadowed_span
  cm_body :: summary_result

record compaction_end =
  ce_id :: string
  ce_command :: "string option"
  ce_turn :: "int option"
  ce_error :: "string option"

datatype payload =
    TurnStart int
  | TurnEnd int turn_end_reason
  | StepStart int int
  | StepEnd int int
  | UserMessageEvent user_message
  | AssistantChunk int int stream_chunk
  | AssistantMessageEvent assistant_data
  | ToolCallEvent int int string string string
  | ToolResultEvent tool_result_data
  | RequestHeader epoch_header header_reason bool
  | RequestContextEvent request_context
  | EndSeed
  | InboxSpliced inbox_splice
  | CompactionStart compaction_start
  | CompactionSummary compaction_summary
  | CompactionEnd compaction_end
  | CompactionPrune shadowed_span
  | GoalChange json
  | OtherEvent string json

fun event_type :: "payload \<Rightarrow> string" where
  "event_type (TurnStart _) = ''turn/start''"
| "event_type (TurnEnd _ _) = ''turn/end''"
| "event_type (StepStart _ _) = ''step/start''"
| "event_type (StepEnd _ _) = ''step/end''"
| "event_type (UserMessageEvent _) = ''user/message''"
| "event_type (AssistantChunk _ _ _) = ''assistant/chunk''"
| "event_type (AssistantMessageEvent _) = ''assistant/message''"
| "event_type (ToolCallEvent _ _ _ _ _) = ''tool/call''"
| "event_type (ToolResultEvent _) = ''tool/result''"
| "event_type (RequestHeader _ _ _) = ''request/header''"
| "event_type (RequestContextEvent _) = ''request/context''"
| "event_type EndSeed = ''session/end-seed''"
| "event_type (InboxSpliced _) = ''agent/inbox/spliced''"
| "event_type (CompactionStart _) = ''compaction/start''"
| "event_type (CompactionSummary _) = ''compaction/summary''"
| "event_type (CompactionEnd _) = ''compaction/end''"
| "event_type (CompactionPrune _) = ''compaction/prune''"
| "event_type (GoalChange _) = ''goal/change''"
| "event_type (OtherEvent t _) = t"

record session_event =
  ev_payload :: payload
  ev_seq :: nat
  ev_time :: int
  ev_surface_op :: "json option"
  ev_sources :: "json option"
  ev_ignorable :: bool

abbreviation ev_type :: "session_event \<Rightarrow> string" where
  "ev_type e \<equiv> event_type (ev_payload e)"

section \<open>Stored form\<close>

abbreviation jint :: "int \<Rightarrow> json" where
  "jint i \<equiv> JNum (JInt i)"

fun cause_json :: "cancel_cause \<Rightarrow> json" where
  "cause_json CancelUser = JObj [(''kind'', JStr ''user'')]"
| "cause_json CancelParent = JObj [(''kind'', JStr ''parent'')]"
| "cause_json (CancelHook r) = JObj [(''kind'', JStr ''hook''), (''reason'', JStr r)]"
| "cause_json CancelDisposed = JObj [(''kind'', JStr ''disposed'')]"
| "cause_json CancelLegacy = JObj [(''kind'', JStr ''legacy'')]"

fun reason_json :: "turn_end_reason \<Rightarrow> json" where
  "reason_json Completed = JObj [(''kind'', JStr ''completed'')]"
| "reason_json (Aborted c) = JObj [(''kind'', JStr ''aborted''), (''reason'', cause_json c)]"
| "reason_json Blocked = JObj [(''kind'', JStr ''blocked'')]"
| "reason_json (ErrorEnd f) = JObj [(''kind'', JStr ''error''), (''error'', failure_json f)]"
| "reason_json MaxTokensEnd = JObj [(''kind'', JStr ''max-tokens'')]"
| "reason_json Interrupted = JObj [(''kind'', JStr ''interrupted'')]"

definition config_json :: "call_config \<Rightarrow> json" where
  "config_json c =
     JObj ([(''provider'', JStr (cc_provider c)), (''model'', JStr (cc_model c))]
       @ opt_field ''reasoningEffort'' (map_option JStr (cc_effort c))
       @ opt_field ''temperature'' (map_option JNum (cc_temperature c))
       @ opt_field ''maxTokens'' (map_option JNum (cc_max_tokens c))
       @ opt_field ''stop'' (map_option (JArr \<circ> map JStr) (cc_stop c)))"

definition marker :: "bool \<Rightarrow> json option" where
  "marker b = (if b then Some (JBool True) else None)"

definition defaults_json :: "adapter_defaults \<Rightarrow> json" where
  "defaults_json d =
     JObj (opt_field ''reasoningEffort'' (marker (default_effort d))
       @ opt_field ''maxTokens'' (marker (default_max_tokens d)))"

definition schema_json :: "tool_schema \<Rightarrow> json" where
  "schema_json t =
     JObj [(''name'', JStr (schema_name t)), (''description'', JStr (schema_description t)),
           (''parameters'', schema_parameters t)]"

definition header_json :: "epoch_header \<Rightarrow> json" where
  "header_json h =
     JObj ([(''config'', config_json (eh_config h))]
       @ opt_field ''adapterDefaults'' (map_option defaults_json (eh_defaults h))
       @ opt_field ''system'' (map_option JStr (eh_system h))
       @ opt_field ''tools'' (map_option (JArr \<circ> map schema_json) (eh_tools h)))"

fun header_reason_json :: "header_reason \<Rightarrow> json" where
  "header_reason_json HeaderInitial = JStr ''initial''"
| "header_reason_json HeaderResume = JStr ''resume''"
| "header_reason_json HeaderChange = JStr ''change''"
| "header_reason_json HeaderSeries = JStr ''series''"

text \<open>The data of a \<open>tool/result\<close>, with the block's content as a parameter.\<close>

definition tool_result_data_json :: "tool_result_data \<Rightarrow> json \<Rightarrow> json" where
  "tool_result_data_json d content =
     JObj ([(''turn'', jint (res_turn d)), (''step'', jint (res_step d)),
            (''message'', message_object (tr_id (res_message d)) ''user''
               [tool_result_block_json (res_message d) content] (ToolSource (tr_call_id (res_message d))))]
       @ opt_field ''error'' (map_option (\<lambda>(n, c). JObj [(''name'', JStr n), (''code'', JStr c)]) (res_error d))
       @ opt_field ''meta'' (res_meta d))"

definition opt_turn_json :: "int option \<Rightarrow> json" where
  "opt_turn_json t = (case t of None \<Rightarrow> JNull | Some n \<Rightarrow> jint n)"

definition span_fields :: "shadowed_span \<Rightarrow> (string \<times> json) list" where
  "span_fields s =
     [(''shadowedRange'', JObj [(''start'', JNum (span_start s)), (''end'', JNum (span_end s))]),
      (''shadowedSeqs'', JArr (map JNum (span_seqs s))),
      (''shadowedTokenCount'', JNum (span_tokens s))]"

fun payload_json :: "payload \<Rightarrow> json" where
  "payload_json (TurnStart t) = JObj [(''turn'', jint t)]"
| "payload_json (TurnEnd t r) = JObj [(''turn'', jint t), (''reason'', reason_json r)]"
| "payload_json (StepStart t s) = JObj [(''turn'', jint t), (''step'', jint s)]"
| "payload_json (StepEnd t s) = JObj [(''turn'', jint t), (''step'', jint s)]"
| "payload_json (UserMessageEvent m) = user_message_json m"
| "payload_json (AssistantChunk t s c) = JObj [(''turn'', jint t), (''step'', jint s), (''chunk'', chunk_json c)]"
| "payload_json (AssistantMessageEvent d) =
     JObj ([(''turn'', jint (asst_turn d)), (''step'', jint (asst_step d)),
            (''message'', assistant_message_json (asst_message d))]
       @ opt_field ''usage'' (map_option usage_json (asst_usage d))
       @ opt_field ''interrupted'' (marker (asst_interrupted d)))"
| "payload_json (ToolCallEvent t s c n a) =
     JObj [(''turn'', jint t), (''step'', jint s), (''callId'', JStr c), (''name'', JStr n), (''arguments'', JStr a)]"
| "payload_json (ToolResultEvent d) =
     tool_result_data_json d (JArr (map block_json (tr_content (res_message d))))"
| "payload_json (RequestHeader h r s) =
     JObj ([(''header'', header_json h), (''reason'', header_reason_json r)] @ opt_field ''startsSeries'' (marker s))"
| "payload_json (RequestContextEvent c) =
     JObj ([(''provider'', JStr (rc_provider c)), (''model'', JStr (rc_model c))]
       @ opt_field ''contextWindow'' (map_option jint (rc_window c)))"
| "payload_json EndSeed = JObj []"
| "payload_json (InboxSpliced sp) =
     JObj ([(''target'', JStr (case sp_target sp of NextTurn \<Rightarrow> ''next-turn'' | NextStep \<Rightarrow> ''next-step'')),
            (''start'', JNum (sp_start sp))]
       @ opt_field ''removedCount'' (map_option JNum (sp_removed sp))
       @ [(''inserted'', JArr (map user_message_json (sp_inserted sp)))]
       @ opt_field ''outcome'' (if sp_canceled sp then Some (JStr ''canceled'') else None))"
| "payload_json (CompactionStart c) =
     JObj ([(''compactionId'', JStr (cs_id c))] @ opt_field ''sourceCommandId'' (map_option JStr (cs_command c))
       @ [(''turn'', opt_turn_json (cs_turn c))])"
| "payload_json (CompactionSummary c) =
     JObj ([(''compactionId'', JStr (cm_id c))] @ opt_field ''sourceCommandId'' (map_option JStr (cm_command c))
       @ [(''summary'', JArr (map block_json (su_blocks (cm_body c))))]
       @ opt_field ''rawOutput'' (map_option (\<lambda>bs. JArr (map block_json bs)) (su_raw (cm_body c)))
       @ opt_field ''llmStreamCall'' (marker (su_stream_call (cm_body c)))
       @ span_fields (cm_span c)
       @ [(''provider'', JStr (su_provider (cm_body c))), (''model'', JStr (su_model (cm_body c)))]
       @ opt_field ''maxTokens'' (map_option jint (su_max_tokens (cm_body c)))
       @ opt_field ''usage'' (map_option usage_json (su_usage (cm_body c))))"
| "payload_json (CompactionEnd c) =
     JObj ([(''compactionId'', JStr (ce_id c))] @ opt_field ''sourceCommandId'' (map_option JStr (ce_command c))
       @ [(''turn'', opt_turn_json (ce_turn c))] @ opt_field ''error'' (map_option JStr (ce_error c)))"
| "payload_json (CompactionPrune s) = JObj (span_fields s)"
| "payload_json (GoalChange j) = j"
| "payload_json (OtherEvent _ j) = j"

definition event_json :: "session_event \<Rightarrow> json" where
  "event_json e =
     JObj ([(''type'', JStr (ev_type e)), (''seq'', jint (int (ev_seq e))), (''time'', jint (ev_time e)),
            (''data'', payload_json (ev_payload e))]
       @ opt_field ''sourceEventSeqs'' (ev_sources e)
       @ opt_field ''surfaceOp'' (ev_surface_op e)
       @ opt_field ''ignorable'' (marker (ev_ignorable e)))"

section \<open>Surface metadata of a well-typed append\<close>

definition append_op :: json where
  "append_op = JStr ''append''"

definition replace_op :: "nat \<Rightarrow> nat \<Rightarrow> json" where
  "replace_op s e = JObj [(''op'', JStr ''replace''), (''start'', jint (int s)), (''end'', jint (int e))]"

definition seqs_json :: "nat list \<Rightarrow> json" where
  "seqs_json ns = JArr (map (\<lambda>n. jint (int n)) ns)"

text \<open>Events without surface metadata, and events that append to the surface.\<close>

definition log_event :: "payload \<Rightarrow> nat \<Rightarrow> session_event" where
  "log_event p n = \<lparr>ev_payload = p, ev_seq = n, ev_time = 0, ev_surface_op = None, ev_sources = None, ev_ignorable = False\<rparr>"

definition append_event :: "payload \<Rightarrow> nat \<Rightarrow> session_event" where
  "append_event p n = (log_event p n)\<lparr>ev_surface_op := Some append_op\<rparr>"

definition replace_event :: "payload \<Rightarrow> nat \<Rightarrow> nat \<Rightarrow> nat \<Rightarrow> nat list \<Rightarrow> session_event" where
  "replace_event p n s t cited =
     (log_event p n)\<lparr>ev_surface_op := Some (replace_op s t), ev_sources := Some (seqs_json cited)\<rparr>"

end
