(* ===== verification/Surface.thy ===== *)
theory Surface
  imports Session_Types "HOL-Library.Multiset"
begin

text \<open>
  \<open>packages/core/session/src/surface.ts\<close>: the ordered view of the message-producing events
  of a session log. Planning an event validates it against the current surface without
  changing anything; applying a plan appends a node or replaces a range of nodes by one.
  \<open>foldSurface\<close> replays a complete log; \<open>SurfaceManager\<close> keeps the same view incrementally
  and validates a candidate before it enters the log.
\<close>

section \<open>Eligibility and markers\<close>

datatype surface_error =
    NotEligibleOp string
  | NotEligibleSources string
  | MissingMarker string
  | InvalidOp string
  | InvalidReplaceOp string
  | SourcesNotArray nat
  | EmptySources
  | SourcesNotSeqs string
  | DuplicateSources
  | NonEarlierSource nat nat
  | MissingShadowed "nat list"
  | StartNotFound nat
  | EndNotFound nat
  | StartAfterEnd nat nat nat nat
  | RewriteNotSingle
  | RewriteTarget
  | RewriteBeyondContent
  | NotContiguous nat nat

definition SURFACE_EVENT_TYPES :: "string list" where
  "SURFACE_EVENT_TYPES = [''user/message'', ''assistant/message'', ''tool/result'']"

definition is_surface_eligible_type :: "string \<Rightarrow> bool" where
  "is_surface_eligible_type t \<longleftrightarrow> t \<in> set SURFACE_EVENT_TYPES"

definition is_surface_event :: "session_event \<Rightarrow> bool" where
  "is_surface_event e \<longleftrightarrow> is_surface_eligible_type (ev_type e) \<and> ev_surface_op e \<noteq> None"

definition is_append_surface_event :: "session_event \<Rightarrow> bool" where
  "is_append_surface_event e \<longleftrightarrow> is_surface_event e \<and> ev_surface_op e = Some append_op"

definition is_replacement_surface_event :: "session_event \<Rightarrow> bool" where
  "is_replacement_surface_event e \<longleftrightarrow> is_surface_event e \<and> ev_surface_op e \<noteq> Some append_op"

text \<open>The projection of one event to the message it derives, if any.\<close>

definition derive_event_message :: "session_event \<Rightarrow> message option" where
  "derive_event_message e =
     (case ev_payload e of
        UserMessageEvent m \<Rightarrow> Some (UserMessage m)
      | AssistantMessageEvent d \<Rightarrow>
          if am_content (asst_message d) = [] then None else Some (AssistantMessage (asst_message d))
      | ToolResultEvent d \<Rightarrow> Some (ToolResultMessage (res_message d))
      | _ \<Rightarrow> None)"

datatype surface_op = AppendOp | ReplaceOp nat nat

definition is_event_seq :: "json \<Rightarrow> bool" where
  "is_event_seq j \<longleftrightarrow> safe_nat j \<noteq> None"

text \<open>The exact positional-replacement shape, with its coordinates.\<close>

definition replace_op_of :: "json \<Rightarrow> (nat \<times> nat) option" where
  "replace_op_of j =
     (if length (jkeys j) = 3 \<and> jget ''op'' j = Some (JStr ''replace'') then
        (case (jget ''start'' j, jget ''end'' j) of
           (Some s, Some e) \<Rightarrow>
             (case (safe_nat s, safe_nat e) of (Some m, Some n) \<Rightarrow> Some (m, n) | _ \<Rightarrow> None)
         | _ \<Rightarrow> None)
      else None)"

definition surface_op_of :: "session_event \<Rightarrow> (surface_error, surface_op option) result" where
  "surface_op_of e =
     (if \<not> is_surface_eligible_type (ev_type e) then
        (if ev_surface_op e \<noteq> None then Inl (NotEligibleOp (ev_type e))
         else if ev_sources e \<noteq> None then Inl (NotEligibleSources (ev_type e))
         else Inr None)
      else case ev_surface_op e of
        None \<Rightarrow> Inl (MissingMarker (ev_type e))
      | Some op \<Rightarrow>
          if op = append_op then Inr (Some AppendOp)
          else if \<not> is_jobj op then Inl (InvalidOp (ev_type e))
          else case replace_op_of op of
                 None \<Rightarrow> Inl (InvalidReplaceOp (ev_type e))
               | Some (s, t) \<Rightarrow> Inr (Some (ReplaceOp s t)))"

section \<open>Cited source events\<close>

text \<open>The loop over the cited values: the set read so far, in order, and the first one that
  is not earlier than the event.\<close>

fun scan_sources :: "string \<Rightarrow> nat \<Rightarrow> json list \<Rightarrow> nat list \<Rightarrow> nat option \<Rightarrow>
    (surface_error, nat list \<times> nat option) result" where
  "scan_sources t seq [] acc late = Inr (acc, late)"
| "scan_sources t seq (j # js) acc late =
     (case safe_nat j of
        None \<Rightarrow> Inl (SourcesNotSeqs t)
      | Some s \<Rightarrow> scan_sources t seq js (acc @ [s])
                   (if late = None \<and> seq \<le> s then Some s else late))"

definition cited_sources :: "session_event \<Rightarrow> (surface_error, nat list) result" where
  "cited_sources e =
     (case ev_sources e of
        None \<Rightarrow> Inr []
      | Some (JArr raw) \<Rightarrow>
          if raw = [] \<and> ev_type e \<noteq> ''assistant/message'' then Inl EmptySources
          else and_then (scan_sources (ev_type e) (ev_seq e) raw [] None) (\<lambda>(sources, late).
            if card (set sources) \<noteq> length raw then Inl DuplicateSources
            else case late of Some s \<Rightarrow> Inl (NonEarlierSource s (ev_seq e)) | None \<Rightarrow> Inr sources)
      | Some _ \<Rightarrow> Inl (SourcesNotArray (ev_seq e)))"

definition assert_provenance :: "session_event \<Rightarrow> nat list \<Rightarrow> (surface_error, unit) result" where
  "assert_provenance e shadowed =
     and_then (cited_sources e) (\<lambda>sources.
       let missing = filter (\<lambda>s. s \<notin> set sources) shadowed
       in reject_if (missing \<noteq> []) (MissingShadowed missing))"

section \<open>Planning and applying\<close>

record surface_state =
  nodes :: "nat list"
  replace_generation :: nat

definition create_fold_state :: surface_state where
  "create_fold_state = \<lparr>nodes = [], replace_generation = 0\<rparr>"

record replacement =
  rep_seq :: nat
  rep_start :: nat
  rep_end :: nat
  rep_shadowed :: "nat list"

datatype surface_plan = PlanAppend nat | PlanReplace replacement nat nat

definition replacement_range :: "surface_state \<Rightarrow> nat \<Rightarrow> nat \<Rightarrow> (surface_error, nat \<times> nat \<times> nat list) result" where
  "replacement_range st s t =
     (case index_of s (nodes st) of
        None \<Rightarrow> Inl (StartNotFound s)
      | Some i \<Rightarrow>
          (case index_of t (nodes st) of
             None \<Rightarrow> Inl (EndNotFound t)
           | Some j \<Rightarrow> if i > j then Inl (StartAfterEnd s i t j)
                       else Inr (i, j, slice i (j + 1) (nodes st))))"

text \<open>The event at an absolute sequence number of a window that starts at \<open>base\<close>.\<close>

definition event_at :: "session_event list \<Rightarrow> nat \<Rightarrow> nat \<Rightarrow> session_event option" where
  "event_at events base s = (if base \<le> s then elem_at events (s - base) else None)"

definition rewrite_allowed :: "tool_result_data \<Rightarrow> session_event list \<Rightarrow> nat \<Rightarrow> nat \<Rightarrow> (surface_error, unit) result" where
  "rewrite_allowed d events base s =
     (case event_at events base s of
        Some original \<Rightarrow>
          (case ev_payload original of
             ToolResultEvent d0 \<Rightarrow>
               reject_if (\<not> is_deep_equal_json (tool_result_data_json d0 JNull) (tool_result_data_json d JNull))
                 RewriteBeyondContent
           | _ \<Rightarrow> Inl RewriteTarget)
      | None \<Rightarrow> Inl RewriteTarget)"

definition assert_tool_result_rewrite ::
    "session_event \<Rightarrow> nat list \<Rightarrow> session_event list \<Rightarrow> nat \<Rightarrow> (surface_error, unit) result" where
  "assert_tool_result_rewrite e shadowed events base =
     (case ev_payload e of
        ToolResultEvent d \<Rightarrow>
          if length shadowed \<noteq> 1 then Inl RewriteNotSingle
          else fold_result (\<lambda>s _. rewrite_allowed d events base s) shadowed ()
      | _ \<Rightarrow> Inr ())"

definition plan_surface_event ::
    "surface_state \<Rightarrow> session_event \<Rightarrow> nat \<Rightarrow> session_event list \<Rightarrow> nat \<Rightarrow> (surface_error, surface_plan option) result" where
  "plan_surface_event st e expected events base =
     (if ev_seq e \<noteq> expected then Inl (NotContiguous (ev_seq e) expected)
      else and_then (surface_op_of e) (\<lambda>op.
        case op of
          None \<Rightarrow> Inr None
        | Some AppendOp \<Rightarrow>
            and_then (assert_provenance e []) (\<lambda>_. Inr (Some (PlanAppend (ev_seq e))))
        | Some (ReplaceOp s t) \<Rightarrow>
            and_then (replacement_range st s t) (\<lambda>(i, j, shadowed).
              and_then (assert_provenance e shadowed) (\<lambda>_.
                and_then (assert_tool_result_rewrite e shadowed events base) (\<lambda>_.
                  Inr (Some (PlanReplace
                    \<lparr>rep_seq = ev_seq e, rep_start = s, rep_end = t, rep_shadowed = shadowed\<rparr> i j)))))))"

fun apply_surface_plan :: "surface_state \<Rightarrow> surface_plan option \<Rightarrow> surface_state \<times> replacement option" where
  "apply_surface_plan st None = (st, None)"
| "apply_surface_plan st (Some (PlanAppend s)) = (st\<lparr>nodes := nodes st @ [s]\<rparr>, None)"
| "apply_surface_plan st (Some (PlanReplace r i j)) =
     (st\<lparr>nodes := splice i (j - i + 1) [rep_seq r] (nodes st),
         replace_generation := replace_generation st + 1\<rparr>, Some r)"

definition apply_surface_event ::
    "surface_state \<Rightarrow> session_event \<Rightarrow> nat \<Rightarrow> session_event list \<Rightarrow> nat \<Rightarrow>
     (surface_error, surface_state \<times> replacement option) result" where
  "apply_surface_event st e expected events base =
     and_then (plan_surface_event st e expected events base) (\<lambda>p. Inr (apply_surface_plan st p))"

text \<open>The loop of \<open>foldSurface\<close>, over a window that starts at \<open>base\<close>.\<close>

fun fold_surface_loop ::
    "nat \<Rightarrow> session_event list \<Rightarrow> nat \<Rightarrow> session_event list \<Rightarrow> surface_state \<times> replacement list \<Rightarrow>
     (surface_error, surface_state \<times> replacement list) result" where
  "fold_surface_loop base events i [] acc = Inr acc"
| "fold_surface_loop base events i (e # rest) (st, reps) =
     and_then (apply_surface_event st e (base + i) events base) (\<lambda>(st', r).
       fold_surface_loop base events (i + 1) rest
         (st', reps @ (case r of None \<Rightarrow> [] | Some x \<Rightarrow> [x])))"

definition fold_window :: "nat \<Rightarrow> session_event list \<Rightarrow> (surface_error, surface_state \<times> replacement list) result" where
  "fold_window base events = fold_surface_loop base events 0 events (create_fold_state, [])"

definition fold_surface :: "session_event list \<Rightarrow> (surface_error, nat list \<times> replacement list) result" where
  "fold_surface events = and_then (fold_window 0 events) (\<lambda>(st, reps). Inr (nodes st, reps))"

section \<open>The incremental manager\<close>

record surface_manager =
  base_seq :: nat
  sm_state :: surface_state
  last_processed :: int
  pending_plan :: "(session_event \<times> nat \<times> surface_plan option) option"

definition new_manager :: "nat \<Rightarrow> surface_manager" where
  "new_manager base =
     \<lparr>base_seq = base, sm_state = create_fold_state,
      last_processed = (if base = 0 then -1 else int base - 1), pending_plan = None\<rparr>"

text \<open>
  One round of \<open>_processDelta\<close>. The code recognises the pending candidate by identity; the
  model compares values, which admits the shortcut on at least as many events and, as
  \<open>process_one_applies\<close> shows, never changes the outcome.
\<close>

definition process_one :: "session_event list \<Rightarrow> nat \<Rightarrow> surface_manager \<Rightarrow> (surface_error, surface_manager) result" where
  "process_one events seq m =
     (let e = events ! (seq - base_seq m);
          settle = (\<lambda>st. m\<lparr>sm_state := st,
                     pending_plan := (case pending_plan m of
                        Some (c, x, p) \<Rightarrow> if x \<le> seq then None else pending_plan m
                      | None \<Rightarrow> None),
                     last_processed := int seq\<rparr>)
      in case pending_plan m of
           Some (c, x, p) \<Rightarrow>
             if c = e \<and> x = seq then Inr (settle (fst (apply_surface_plan (sm_state m) p)))
             else and_then (apply_surface_event (sm_state m) e seq events (base_seq m)) (\<lambda>(st, _). Inr (settle st))
         | None \<Rightarrow>
             and_then (apply_surface_event (sm_state m) e seq events (base_seq m)) (\<lambda>(st, _). Inr (settle st)))"

text \<open>\<open>_processDelta\<close> keeps what it processed before an error.\<close>

fun process_delta :: "session_event list \<Rightarrow> nat \<Rightarrow> surface_manager \<Rightarrow> (surface_error, unit) result \<times> surface_manager" where
  "process_delta events 0 m = (Inr (), m)"
| "process_delta events (Suc n) m =
     (case process_one events (nat (last_processed m + 1)) m of
        Inl e \<Rightarrow> (Inl e, m)
      | Inr m' \<Rightarrow> process_delta events n m')"

definition sync :: "session_event list \<Rightarrow> surface_manager \<Rightarrow> (surface_error, unit) result \<times> surface_manager" where
  "sync events m = process_delta events (nat (int (base_seq m) + int (length events) - 1 - last_processed m)) m"

definition validate_next ::
    "session_event list \<Rightarrow> session_event \<Rightarrow> surface_manager \<Rightarrow> (surface_error, unit) result \<times> surface_manager" where
  "validate_next events e m =
     (case sync events m of
        (Inl err, m') \<Rightarrow> (Inl err, m')
      | (Inr _, m') \<Rightarrow>
          let expected = base_seq m' + length events
          in case plan_surface_event (sm_state m') e expected events (base_seq m') of
               Inl err \<Rightarrow> (Inl err, m')
             | Inr p \<Rightarrow> (Inr (), m'\<lparr>pending_plan := Some (e, expected, p)\<rparr>))"

definition manager_nodes :: "session_event list \<Rightarrow> surface_manager \<Rightarrow> (surface_error, nat list) result \<times> surface_manager" where
  "manager_nodes events m =
     (case sync events m of
        (Inl err, m') \<Rightarrow> (Inl err, m')
      | (Inr _, m') \<Rightarrow> (Inr (nodes (sm_state m')), m'))"

definition manager_generation :: "session_event list \<Rightarrow> surface_manager \<Rightarrow> (surface_error, nat) result \<times> surface_manager" where
  "manager_generation events m =
     (case sync events m of
        (Inl err, m') \<Rightarrow> (Inl err, m')
      | (Inr _, m') \<Rightarrow> (Inr (replace_generation (sm_state m')), m'))"

section \<open>Planning: what each accepted plan guarantees\<close>

lemma replacement_range_Inr:
  "replacement_range st s t = Inr (i, j, sh) \<longleftrightarrow>
     index_of s (nodes st) = Some i \<and> index_of t (nodes st) = Some j \<and> i \<le> j
     \<and> sh = slice i (j + 1) (nodes st)"
  by (auto simp: replacement_range_def split: option.splits)

lemma scan_sources_Inr:
  "scan_sources t seq raw acc late = Inr (ns, l) \<Longrightarrow>
     \<exists>ms. raw = map (\<lambda>n. jint (int n)) ms \<and> ns = acc @ ms
       \<and> (l = None \<longrightarrow> late = None \<and> (\<forall>m \<in> set ms. m < seq))"
proof (induction raw arbitrary: acc late)
  case Nil
  then show ?case by simp
next
  case (Cons j js)
  then obtain m where m: "safe_nat j = Some m"
    and rest: "scan_sources t seq js (acc @ [m]) (if late = None \<and> seq \<le> m then Some m else late) = Inr (ns, l)"
    by (auto split: option.splits)
  from Cons.IH [OF rest] obtain ms where ms: "js = map (\<lambda>n. jint (int n)) ms" "ns = (acc @ [m]) @ ms"
    "l = None \<longrightarrow> (if late = None \<and> seq \<le> m then Some m else late) = None \<and> (\<forall>m \<in> set ms. m < seq)"
    by auto
  from m have "j = jint (int m)" by (simp add: safe_nat_Some_iff)
  with ms show ?case
    by (intro exI [of _ "m # ms"]) (auto split: if_splits)
qed

lemma cited_sources_Inr:
  assumes "cited_sources e = Inr ns"
  shows "(ev_sources e = None \<and> ns = [] \<or> ev_sources e = Some (seqs_json ns))
       \<and> distinct ns \<and> (\<forall>n \<in> set ns. n < ev_seq e)"
proof (cases "ev_sources e")
  case None
  with assms show ?thesis by (simp add: cited_sources_def)
next
  case (Some raw)
  then obtain js where js: "raw = JArr js"
    using assms by (cases raw) (auto simp: cited_sources_def)
  with Some assms obtain l where scan: "scan_sources (ev_type e) (ev_seq e) js [] None = Inr (ns, l)"
    and card: "card (set ns) = length js" and l: "l = None"
    by (auto simp: cited_sources_def and_then_Inr_iff split: if_splits option.splits)
  from scan_sources_Inr [OF scan] l obtain ms where
    "js = map (\<lambda>n. jint (int n)) ms" "ns = ms" "\<forall>m \<in> set ms. m < ev_seq e" by auto
  with card Some js show ?thesis by (auto simp: seqs_json_def intro: card_distinct)
qed

lemma assert_provenance_Inr:
  "assert_provenance e sh = Inr u \<Longrightarrow> \<exists>ns. cited_sources e = Inr ns \<and> set sh \<subseteq> set ns"
  by (auto simp: assert_provenance_def and_then_Inr_iff Let_def filter_empty_conv)

lemma plan_Inr_cases:
  assumes "plan_surface_event st e expected events base = Inr p"
  obtains (none) "p = None" "\<not> is_surface_eligible_type (ev_type e)" "ev_seq e = expected"
  | (app) ns where "p = Some (PlanAppend expected)" "ev_seq e = expected" "is_surface_eligible_type (ev_type e)"
      "ev_surface_op e = Some append_op" "cited_sources e = Inr ns"
  | (repl) s t i j sh ns where
      "p = Some (PlanReplace \<lparr>rep_seq = expected, rep_start = s, rep_end = t, rep_shadowed = sh\<rparr> i j)"
      "ev_seq e = expected" "is_surface_eligible_type (ev_type e)"
      "replacement_range st s t = Inr (i, j, sh)" "cited_sources e = Inr ns" "set sh \<subseteq> set ns"
      "assert_tool_result_rewrite e sh events base = Inr ()"
proof -
  from assms have seq: "ev_seq e = expected" by (auto simp: plan_surface_event_def split: if_splits)
  from assms obtain op where op: "surface_op_of e = Inr op"
    by (auto simp: plan_surface_event_def and_then_Inr_iff split: if_splits)
  show ?thesis
  proof (cases op)
    case None
    with op have "\<not> is_surface_eligible_type (ev_type e)"
      by (auto simp: surface_op_of_def split: if_splits option.splits)
    moreover from assms seq op None have "p = None" by (simp add: plan_surface_event_def)
    ultimately show ?thesis using none seq by blast
  next
    case (Some o')
    with op have elig: "is_surface_eligible_type (ev_type e)"
      by (auto simp: surface_op_of_def split: if_splits)
    show ?thesis
    proof (cases o')
      case AppendOp
      with op Some elig have "ev_surface_op e = Some append_op"
        by (auto simp: surface_op_of_def split: if_splits option.splits)
      moreover from assms seq op Some AppendOp obtain ns where
        "p = Some (PlanAppend expected)" "cited_sources e = Inr ns"
        by (auto simp: plan_surface_event_def and_then_Inr_iff dest: assert_provenance_Inr)
      ultimately show ?thesis using app seq elig by blast
    next
      case (ReplaceOp s t)
      with assms seq op Some obtain i j sh ns where
        "replacement_range st s t = Inr (i, j, sh)"
        "p = Some (PlanReplace \<lparr>rep_seq = expected, rep_start = s, rep_end = t, rep_shadowed = sh\<rparr> i j)"
        "cited_sources e = Inr ns" "set sh \<subseteq> set ns" "assert_tool_result_rewrite e sh events base = Inr ()"
        by (auto simp: plan_surface_event_def and_then_Inr_iff dest: assert_provenance_Inr)
      with repl seq elig show ?thesis by blast
    qed
  qed
qed

section \<open>Planning looks only at the events below the surface nodes\<close>

definition nodes_within :: "surface_state \<Rightarrow> nat \<Rightarrow> nat \<Rightarrow> bool" where
  "nodes_within st base k \<longleftrightarrow> distinct (nodes st) \<and> (\<forall>n \<in> set (nodes st). base \<le> n \<and> n < base + k)"

lemma event_at_take:
  assumes "base \<le> n" and "n < base + k" and "take k events = take k events'"
    and "k \<le> length events" and "k \<le> length events'"
  shows "event_at events base n = event_at events' base n"
proof -
  have "n - base < k" using assms(1,2) by simp
  moreover have "events ! (n - base) = events' ! (n - base)"
    using calculation assms(3) by (metis nth_take)
  ultimately show ?thesis using assms by (simp add: event_at_def elem_at_def)
qed

lemma rewrite_take:
  assumes "\<forall>n \<in> set sh. event_at events base n = event_at events' base n"
  shows "assert_tool_result_rewrite e sh events base = assert_tool_result_rewrite e sh events' base"
proof -
  have "fold_result (\<lambda>s _. rewrite_allowed d events base s) sh ()
      = fold_result (\<lambda>s _. rewrite_allowed d events' base s) sh ()" for d
    using assms by (intro fold_result_cong) (simp add: rewrite_allowed_def)
  then show ?thesis by (simp add: assert_tool_result_rewrite_def split: payload.splits)
qed

lemma plan_take:
  assumes "nodes_within st base k" and "take k events = take k events'"
    and "k \<le> length events" and "k \<le> length events'"
  shows "plan_surface_event st e x events base = plan_surface_event st e x events' base"
proof -
  have "assert_tool_result_rewrite e sh events base = assert_tool_result_rewrite e sh events' base"
    if "replacement_range st s t = Inr (i, j, sh)" for s t i j sh
  proof (rule rewrite_take, rule ballI)
    fix n assume "n \<in> set sh"
    with that have "n \<in> set (nodes st)" using set_slice_subset by (fastforce simp: replacement_range_Inr)
    with assms show "event_at events base n = event_at events' base n"
      by (intro event_at_take [of base n k]) (auto simp: nodes_within_def)
  qed
  then show ?thesis
    unfolding plan_surface_event_def
    by (auto intro!: and_then_cong split: option.splits surface_op.splits)
qed

lemma apply_take:
  assumes "nodes_within st base k" and "take k events = take k events'"
    and "k \<le> length events" and "k \<le> length events'"
  shows "apply_surface_event st e x events base = apply_surface_event st e x events' base"
  by (simp add: apply_surface_event_def plan_take [OF assms])

lemma nodes_within_apply:
  assumes "nodes_within st base k"
    and "apply_surface_event st e (base + k) events base = Inr (st', r)"
  shows "nodes_within st' base (Suc k)"
proof -
  from assms(2) obtain p where p: "plan_surface_event st e (base + k) events base = Inr p"
    and st': "apply_surface_plan st p = (st', r)"
    by (auto simp: apply_surface_event_def and_then_Inr_iff)
  from p show ?thesis
  proof (cases rule: plan_Inr_cases)
    case none
    with st' assms(1) show ?thesis by (auto simp: nodes_within_def)
  next
    case app
    with st' assms(1) show ?thesis by (fastforce simp: nodes_within_def)
  next
    case (repl s t i j sh ns)
    then have "st' = st\<lparr>nodes := take i (nodes st) @ [base + k] @ drop (j + 1) (nodes st),
        replace_generation := replace_generation st + 1\<rparr>"
      using st' by (auto simp: splice_def replacement_range_Inr)
    moreover have "set (take i (nodes st)) \<inter> set (drop (j + 1) (nodes st)) = {}"
      using assms(1) repl by (intro set_take_disj_set_drop_if_distinct) (auto simp: nodes_within_def replacement_range_Inr)
    ultimately show ?thesis
      using assms(1) by (fastforce simp: nodes_within_def dest: in_set_takeD in_set_dropD)
  qed
qed

section \<open>The fold, one event at a time\<close>

lemma fold_loop_append:
  "fold_surface_loop base events i (xs @ ys) acc =
     and_then (fold_surface_loop base events i xs acc) (fold_surface_loop base events (i + length xs) ys)"
proof (induction xs arbitrary: i acc)
  case Nil
  then show ?case by simp
next
  case (Cons x xs)
  obtain st reps where acc: "acc = (st, reps)" by (cases acc)
  show ?case
    by (cases "apply_surface_event st x (base + i) events base")
      (simp_all add: acc Cons.IH split: prod.splits)
qed

lemma fold_loop_take:
  assumes "nodes_within (fst acc) base i" and "take (i + length xs) events = take (i + length xs) events'"
    and "i + length xs \<le> length events" and "i + length xs \<le> length events'"
  shows "fold_surface_loop base events i xs acc = fold_surface_loop base events' i xs acc"
  using assms
proof (induction xs arbitrary: i acc)
  case Nil
  then show ?case by simp
next
  case (Cons x xs)
  obtain st reps where acc: "acc = (st, reps)" by (cases acc)
  have tk: "take i events = take i events'"
    using Cons.prems(2) by (metis min.absorb1 le_add1 take_take)
  have eq: "apply_surface_event st x (base + i) events base = apply_surface_event st x (base + i) events' base"
    using Cons.prems acc tk by (intro apply_take [of st base i]) auto
  show ?case
  proof (cases "apply_surface_event st x (base + i) events' base")
    case (Inl err)
    then show ?thesis by (simp add: acc eq)
  next
    case (Inr res)
    obtain st' r where res: "res = (st', r)" by (cases res)
    have "nodes_within st' base (Suc i)"
      using Cons.prems(1) acc eq Inr res by (intro nodes_within_apply) auto
    with Cons.prems have "fold_surface_loop base events (Suc i) xs (st', reps @ (case r of None \<Rightarrow> [] | Some x \<Rightarrow> [x]))
        = fold_surface_loop base events' (Suc i) xs (st', reps @ (case r of None \<Rightarrow> [] | Some x \<Rightarrow> [x]))"
      by (intro Cons.IH) auto
    with Inr res show ?thesis by (simp add: acc eq)
  qed
qed

lemma nodes_within_empty [simp]: "nodes_within create_fold_state base k"
  by (simp add: nodes_within_def create_fold_state_def)

text \<open>Folding one more event is one more accepted transition.\<close>

lemma fold_window_snoc:
  "fold_window base (es @ [e]) =
     and_then (fold_window base es) (\<lambda>(st, reps).
       and_then (apply_surface_event st e (base + length es) (es @ [e]) base) (\<lambda>(st', r).
         Inr (st', reps @ (case r of None \<Rightarrow> [] | Some x \<Rightarrow> [x]))))"
proof -
  have "fold_surface_loop base (es @ [e]) 0 es (create_fold_state, [])
      = fold_surface_loop base es 0 es (create_fold_state, [])"
    by (intro fold_loop_take) simp_all
  moreover have "fold_surface_loop base events i [e] = (\<lambda>(st, reps).
       and_then (apply_surface_event st e (base + i) events base) (\<lambda>(st', r).
         Inr (st', reps @ (case r of None \<Rightarrow> [] | Some x \<Rightarrow> [x]))))" for events i
    by (rule ext) (auto intro: and_then_cong)
  ultimately show ?thesis
    by (simp add: fold_window_def fold_loop_append)
qed

lemma fold_window_Nil [simp]: "fold_window base [] = Inr (create_fold_state, [])"
  by (simp add: fold_window_def)

lemma fold_window_nodes_within: "fold_window base es = Inr (st, reps) \<Longrightarrow> nodes_within st base (length es)"
proof (induction es arbitrary: st reps rule: rev_induct)
  case Nil
  then show ?case by simp
next
  case (snoc e es)
  then obtain st0 reps0 r where "fold_window base es = Inr (st0, reps0)"
    "apply_surface_event st0 e (base + length es) (es @ [e]) base = Inr (st, r)"
    by (auto simp: fold_window_snoc and_then_Inr_iff)
  with snoc.IH nodes_within_apply show ?case by fastforce
qed

lemma fold_window_prefix:
  "fold_window base (es @ fs) = Inr x \<Longrightarrow> \<exists>y. fold_window base es = Inr y"
proof (induction fs arbitrary: x rule: rev_induct)
  case Nil
  then show ?case by auto
next
  case (snoc f fs)
  from snoc.prems have "\<exists>z. fold_window base (es @ fs) = Inr z"
    unfolding append_assoc [symmetric] fold_window_snoc by (auto simp: and_then_Inr_iff)
  with snoc.IH show ?case by blast
qed

section \<open>What the fold guarantees\<close>

text \<open>The sequence numbers of the eligible events of a window.\<close>

definition eligible_seqs :: "nat \<Rightarrow> session_event list \<Rightarrow> nat list" where
  "eligible_seqs base es =
     filter (\<lambda>n. is_surface_eligible_type (ev_type (es ! (n - base)))) [base ..< base + length es]"

lemma eligible_seqs_Nil [simp]: "eligible_seqs base [] = []"
  by (simp add: eligible_seqs_def)

lemma eligible_seqs_snoc:
  "eligible_seqs base (es @ [e]) =
     eligible_seqs base es @ (if is_surface_eligible_type (ev_type e) then [base + length es] else [])"
proof -
  have "filter (\<lambda>n. is_surface_eligible_type (ev_type ((es @ [e]) ! (n - base)))) [base ..< base + length es]
      = eligible_seqs base es"
    unfolding eligible_seqs_def by (intro filter_cong) (auto simp: nth_append)
  then show ?thesis by (simp add: eligible_seqs_def)
qed

text \<open>One accepted event, as the fold sees it.\<close>

lemma fold_window_snoc_cases:
  assumes "fold_window base (es @ [e]) = Inr (st, reps)"
  obtains st0 reps0 where "fold_window base es = Inr (st0, reps0)" "ev_seq e = base + length es"
      "\<not> is_surface_eligible_type (ev_type e)" "st = st0" "reps = reps0"
  | st0 reps0 ns where "fold_window base es = Inr (st0, reps0)" "ev_seq e = base + length es"
      "is_surface_eligible_type (ev_type e)" "cited_sources e = Inr ns"
      "st = st0\<lparr>nodes := nodes st0 @ [base + length es]\<rparr>" "reps = reps0"
  | st0 reps0 s t i j sh ns where "fold_window base es = Inr (st0, reps0)" "ev_seq e = base + length es"
      "is_surface_eligible_type (ev_type e)"
      "replacement_range st0 s t = Inr (i, j, sh)" "cited_sources e = Inr ns" "set sh \<subseteq> set ns"
      "assert_tool_result_rewrite e sh es base = Inr ()"
      "st = st0\<lparr>nodes := splice i (j - i + 1) [base + length es] (nodes st0),
                replace_generation := replace_generation st0 + 1\<rparr>"
      "reps = reps0 @ [\<lparr>rep_seq = base + length es, rep_start = s, rep_end = t, rep_shadowed = sh\<rparr>]"
proof -
  from assms obtain st0 reps0 r where f: "fold_window base es = Inr (st0, reps0)"
    and a: "apply_surface_event st0 e (base + length es) (es @ [e]) base = Inr (st, r)"
    and reps: "reps = reps0 @ (case r of None \<Rightarrow> [] | Some x \<Rightarrow> [x])"
    by (auto simp: fold_window_snoc and_then_Inr_iff)
  have "apply_surface_event st0 e (base + length es) es base = Inr (st, r)"
    using a apply_take [OF fold_window_nodes_within [OF f], of es "es @ [e]"] by simp
  then obtain p where p: "plan_surface_event st0 e (base + length es) es base = Inr p"
    and st: "apply_surface_plan st0 p = (st, r)"
    by (auto simp: apply_surface_event_def and_then_Inr_iff)
  from p show ?thesis
    by (cases rule: plan_Inr_cases) (use that f reps st in auto)
qed

lemma fold_window_seqs: "fold_window base es = Inr x \<Longrightarrow> k < length es \<Longrightarrow> ev_seq (es ! k) = base + k"
proof (induction es arbitrary: x rule: rev_induct)
  case Nil
  then show ?case by simp
next
  case (snoc e es)
  obtain st reps where x: "x = (st, reps)" by (cases x)
  from snoc.prems(1) [unfolded x] obtain y where "fold_window base es = Inr y" "ev_seq e = base + length es"
    by (cases rule: fold_window_snoc_cases) auto
  with snoc show ?case by (cases "k < length es") (auto simp: nth_append less_Suc_eq)
qed

lemma splice_mset:
  assumes "j < length xs" and "i \<le> j"
  shows "mset (splice i (j - i + 1) ins xs) + mset (slice i (j + 1) xs) = mset xs + mset ins"
proof -
  have "i + (j - i + 1) = (j + 1 - i) + i" using assms by simp
  then have "drop (i + (j - i + 1)) xs = drop (j + 1 - i) (drop i xs)"
    by (simp only: drop_drop)
  then have "xs = take i xs @ slice i (j + 1) xs @ drop (i + (j - i + 1)) xs"
    by (simp only: slice_def append_take_drop_id)
  then have "mset xs = mset (take i xs) + mset (slice i (j + 1) xs) + mset (drop (i + (j - i + 1)) xs)"
    by (metis mset_append union_assoc)
  then show ?thesis by (simp add: splice_def)
qed

lemma multiset_exchange:
  "a + s = b + x \<Longrightarrow> b + c = d \<Longrightarrow> a + (c + s) = d + (x :: 'a multiset)"
proof -
  assume "a + s = b + x" and "b + c = d"
  moreover have "a + (c + s) = (a + s) + c" by (simp add: ac_simps)
  moreover have "(b + x) + c = (b + c) + x" by (simp add: ac_simps)
  ultimately show "a + (c + s) = d + x" by simp
qed

text \<open>
  Claim C5. The surface neither loses nor duplicates a message: after a successful fold, the
  nodes on the surface together with the nodes shadowed by the recorded replacements are
  exactly the sequence numbers of the message-producing events of the log, each once.
\<close>

theorem surface_conservation:
  assumes "fold_surface es = Inr (ns, reps)"
  shows "mset ns + mset (concat (map rep_shadowed reps)) = mset (eligible_seqs 0 es)"
proof -
  have "fold_window 0 es = Inr (st, reps) \<Longrightarrow>
      mset (nodes st) + mset (concat (map rep_shadowed reps)) = mset (eligible_seqs 0 es)" for st reps
  proof (induction es arbitrary: st reps rule: rev_induct)
    case Nil
    then show ?case by (auto simp: create_fold_state_def)
  next
    case (snoc e es)
    from snoc.prems show ?case
    proof (cases rule: fold_window_snoc_cases)
      case (1 st0 reps0)
      with snoc.IH [of st0 reps0] show ?thesis by (simp add: eligible_seqs_snoc)
    next
      case (2 st0 reps0 ns)
      with snoc.IH [of st0 reps0] show ?thesis by (simp add: eligible_seqs_snoc)
    next
      case (3 st0 reps0 s t i j sh ns)
      then have "mset (nodes st) + mset sh = mset (nodes st0) + {#length es#}"
        using splice_mset [of j "nodes st0" i "[length es]"]
        by (simp add: replacement_range_Inr index_of_Some_iff)
      moreover have "mset (nodes st0) + mset (concat (map rep_shadowed reps0)) = mset (eligible_seqs 0 es)"
        using 3 snoc.IH by blast
      ultimately have "mset (nodes st) + (mset (concat (map rep_shadowed reps0)) + mset sh)
          = mset (eligible_seqs 0 es) + {#length es#}"
        by (rule multiset_exchange)
      with 3 show ?thesis by (simp add: eligible_seqs_snoc)
    qed
  qed
  with assms show ?thesis by (auto simp: fold_surface_def and_then_Inr_iff)
qed

lemma fold_window_provenance:
  "fold_window base es = Inr (st, reps) \<Longrightarrow> r \<in> set reps \<Longrightarrow>
     \<exists>ns. base \<le> rep_seq r \<and> rep_seq r < base + length es
        \<and> ev_sources (es ! (rep_seq r - base)) = Some (seqs_json ns)
        \<and> distinct ns \<and> set (rep_shadowed r) \<subseteq> set ns \<and> (\<forall>n \<in> set ns. n < rep_seq r)
        \<and> rep_shadowed r \<noteq> [] \<and> hd (rep_shadowed r) = rep_start r \<and> last (rep_shadowed r) = rep_end r
        \<and> (\<forall>n \<in> set (rep_shadowed r). base \<le> n)
        \<and> assert_tool_result_rewrite (es ! (rep_seq r - base)) (rep_shadowed r) es base = Inr ()"
proof (induction es arbitrary: st reps rule: rev_induct)
  case Nil
  then show ?case by simp
next
  case (snoc e es)
  have keep: "assert_tool_result_rewrite e' sh (es @ [e]) base = assert_tool_result_rewrite e' sh es base"
    if "\<forall>n \<in> set sh. base \<le> n \<and> n < base + length es" for e' sh
    using that by (intro rewrite_take) (auto simp: event_at_def elem_at_append)
  have old: ?case if "fold_window base es = Inr (st0, reps0)" "r \<in> set reps0" for st0 reps0
  proof -
    from snoc.IH [OF that] obtain ns where ns:
      "base \<le> rep_seq r" "rep_seq r < base + length es"
      "ev_sources (es ! (rep_seq r - base)) = Some (seqs_json ns)"
      "distinct ns" "set (rep_shadowed r) \<subseteq> set ns" "\<forall>n \<in> set ns. n < rep_seq r"
      "rep_shadowed r \<noteq> []" "hd (rep_shadowed r) = rep_start r" "last (rep_shadowed r) = rep_end r"
      "\<forall>n \<in> set (rep_shadowed r). base \<le> n"
      "assert_tool_result_rewrite (es ! (rep_seq r - base)) (rep_shadowed r) es base = Inr ()" by blast
    then have "rep_seq r - base < length es" by simp
    moreover have "\<forall>n \<in> set (rep_shadowed r). base \<le> n \<and> n < base + length es"
      using ns by fastforce
    ultimately show ?thesis using ns keep by (intro exI [of _ ns]) (simp add: nth_append)
  qed
  from snoc.prems(1) show ?case
  proof (cases rule: fold_window_snoc_cases)
    case (1 st0 reps0)
    with old snoc.prems(2) show ?thesis by blast
  next
    case (2 st0 reps0 ns)
    with old snoc.prems(2) show ?thesis by blast
  next
    case (3 st0 reps0 s t i j sh ns)
    show ?thesis
    proof (cases "r \<in> set reps0")
      case True
      with old 3(1) show ?thesis by blast
    next
      case False
      with snoc.prems(2) 3 have r: "r = \<lparr>rep_seq = base + length es, rep_start = s, rep_end = t, rep_shadowed = sh\<rparr>"
        by simp
      from 3(4) have idx: "i \<le> j" "j < length (nodes st0)" "nodes st0 ! i = s" "nodes st0 ! j = t"
        "sh = slice i (j + 1) (nodes st0)"
        by (auto simp: replacement_range_Inr index_of_Some_iff)
      have ne: "sh \<noteq> []" using idx length_slice [of "j + 1" "nodes st0" i] by (cases sh) auto
      have hd: "hd sh = s" using idx by (simp add: slice_def hd_conv_nth ne [unfolded idx(5) slice_def] hd_drop_conv_nth hd_take)
      have "last sh = sh ! (length sh - 1)" using ne by (rule last_conv_nth)
      also have "\<dots> = t" using idx length_slice [of "j + 1" "nodes st0" i] by (simp add: slice_def)
      finally have lst: "last sh = t" .
      have sub: "\<forall>n \<in> set sh. base \<le> n \<and> n < base + length es"
        using fold_window_nodes_within [OF 3(1)] idx set_slice_subset [of i "j + 1" "nodes st0"]
        by (auto simp: nodes_within_def)
      have "ev_sources e = Some (seqs_json ns)"
        using cited_sources_Inr [OF 3(5)] 3(6) ne by auto
      then show ?thesis
        using r 3 ne hd lst sub keep cited_sources_Inr [OF 3(5)] by (intro exI [of _ ns]) simp
    qed
  qed
qed

text \<open>
  Every replacement the fold records is justified by its event: the event is in
  the log, carries a duplicate-free list of earlier source events, and that list names every
  node the replacement shadows, which are a non-empty run from the first to the last
  coordinate of the operation.
\<close>

theorem surface_replacement_provenance:
  assumes "fold_surface es = Inr (ns, reps)" and "r \<in> set reps"
  shows "rep_seq r < length es \<and> rep_shadowed r \<noteq> []
     \<and> hd (rep_shadowed r) = rep_start r \<and> last (rep_shadowed r) = rep_end r
     \<and> (\<exists>cited. ev_sources (es ! rep_seq r) = Some (seqs_json cited) \<and> distinct cited
          \<and> set (rep_shadowed r) \<subseteq> set cited \<and> (\<forall>s \<in> set cited. s < rep_seq r))"
proof -
  from assms obtain st where "fold_window 0 es = Inr (st, reps)"
    by (auto simp: fold_surface_def and_then_Inr_iff)
  from fold_window_provenance [OF this assms(2)] show ?thesis by auto
qed

text \<open>
  A replacement by a tool result rewrites nothing but the result's text: it
  shadows exactly one event, which is itself a tool result whose stored data equals the
  replacement's in everything (turn, step, call id, error, metadata) except the content.
\<close>

theorem surface_tool_rewrite_content_only:
  assumes "fold_surface es = Inr (ns, reps)" and "r \<in> set reps"
    and "ev_payload (es ! rep_seq r) = ToolResultEvent d"
  shows "\<exists>s d0. rep_shadowed r = [s] \<and> s < rep_seq r \<and> ev_payload (es ! s) = ToolResultEvent d0
     \<and> is_deep_equal_json (tool_result_data_json d0 JNull) (tool_result_data_json d JNull)"
proof -
  from assms obtain st where "fold_window 0 es = Inr (st, reps)"
    by (auto simp: fold_surface_def and_then_Inr_iff)
  from fold_window_provenance [OF this assms(2)] obtain cited where
    ok: "assert_tool_result_rewrite (es ! rep_seq r) (rep_shadowed r) es 0 = Inr ()"
    and lt: "\<forall>s \<in> set (rep_shadowed r). s < rep_seq r" by auto
  from ok assms(3) have len: "length (rep_shadowed r) = 1"
    by (auto simp: assert_tool_result_rewrite_def split: if_splits)
  then obtain s where s: "rep_shadowed r = [s]" by (auto simp: length_Suc_conv)
  with ok assms(3) have "rewrite_allowed d es 0 s = Inr ()"
    by (auto simp: assert_tool_result_rewrite_def and_then_Inr_iff)
  then show ?thesis using s lt
    by (auto simp: rewrite_allowed_def event_at_def elem_at_def split: option.splits if_splits payload.splits)
qed

section \<open>The manager refines the fold\<close>

text \<open>The manager has processed a prefix of the log exactly as the fold does, and its
  pending plan is the plan of some candidate for the next position.\<close>

definition manager_inv :: "nat \<Rightarrow> session_event list \<Rightarrow> nat \<Rightarrow> surface_manager \<Rightarrow> bool" where
  "manager_inv base es k m \<longleftrightarrow>
     base_seq m = base \<and> k \<le> length es \<and> last_processed m = int base + int k - 1
     \<and> (\<exists>reps. fold_window base (take k es) = Inr (sm_state m, reps))
     \<and> (\<forall>c x p. pending_plan m = Some (c, x, p) \<longrightarrow>
          x = base + k \<and> plan_surface_event (sm_state m) c x (take k es) base = Inr p)"

lemma manager_inv_new [inv_intros]: "manager_inv base es 0 (new_manager base)"
  by (simp add: manager_inv_def new_manager_def)

lemma manager_inv_push [inv_intros]: "manager_inv base es k m \<Longrightarrow> manager_inv base (es @ [e]) k m"
  by (simp add: manager_inv_def)

text \<open>One round of the delta is the fold's transition, pending plan or not.\<close>

lemma process_one_applies:
  assumes "manager_inv base es k m" and "k < length es"
  shows "process_one es (base + k) m =
     and_then (apply_surface_event (sm_state m) (es ! k) (base + k) (take k es) base) (\<lambda>(st, r).
       Inr (m\<lparr>sm_state := st, pending_plan := None, last_processed := int (base + k)\<rparr>))"
proof -
  from assms obtain reps where f: "fold_window base (take k es) = Inr (sm_state m, reps)"
    and b: "base_seq m = base"
    and pend: "\<And>c x p. pending_plan m = Some (c, x, p) \<Longrightarrow>
      x = base + k \<and> plan_surface_event (sm_state m) c x (take k es) base = Inr p"
    by (auto simp: manager_inv_def)
  from assms(2) have "nodes_within (sm_state m) base k"
    using fold_window_nodes_within [OF f] by simp
  then have eq: "apply_surface_event (sm_state m) (es ! k) (base + k) es base
      = apply_surface_event (sm_state m) (es ! k) (base + k) (take k es) base"
    using assms(2) by (intro apply_take) auto
  show ?thesis
  proof (cases "pending_plan m")
    case None
    then show ?thesis by (simp add: process_one_def b eq)
  next
    case (Some q)
    obtain c x p where q: "q = (c, x, p)" by (cases q)
    with Some pend have "x = base + k" "plan_surface_event (sm_state m) c (base + k) (take k es) base = Inr p"
      by auto
    with Some q show ?thesis
      by (cases "c = es ! k")
        (simp_all add: process_one_def Let_def b eq [unfolded b] apply_surface_event_def [of _ _ _ "take k es"] split_beta)
  qed
qed

lemma fold_take_Suc:
  assumes "fold_window base (take k es) = Inr (st, reps)" and "k < length es"
  shows "fold_window base (take (Suc k) es) =
     and_then (apply_surface_event st (es ! k) (base + k) (take k es) base) (\<lambda>(st', r).
       Inr (st', reps @ (case r of None \<Rightarrow> [] | Some x \<Rightarrow> [x])))"
proof -
  have "take (Suc k) es = take k es @ [es ! k]" using assms(2) by (simp add: take_Suc_conv_app_nth)
  moreover have "apply_surface_event st (es ! k) (base + k) (take k es @ [es ! k]) base
      = apply_surface_event st (es ! k) (base + k) (take k es) base"
    using assms fold_window_nodes_within [OF assms(1)] by (intro apply_take) auto
  ultimately show ?thesis using assms by (simp add: fold_window_snoc)
qed

lemma fold_window_error_prefix:
  "fold_window base es = Inl err \<Longrightarrow> fold_window base (es @ fs) = Inl err"
proof (induction fs rule: rev_induct)
  case Nil
  then show ?case by simp
next
  case (snoc f fs)
  then have "fold_window base (es @ fs) = Inl err" by simp
  then show ?case unfolding append_assoc [symmetric] by (simp only: fold_window_snoc and_then_simps)
qed

lemma process_delta_refines:
  assumes "manager_inv base es k m" and "n = length es - k"
  shows "case process_delta es n m of
      (Inr _, m') \<Rightarrow> manager_inv base es (length es) m'
    | (Inl err, m') \<Rightarrow> fold_window base es = Inl err \<and> (\<exists>k'. manager_inv base es k' m')"
  using assms
proof (induction n arbitrary: k m)
  case 0
  then show ?case by (auto simp: manager_inv_def)
next
  case (Suc n)
  then have k: "k < length es" by simp
  from Suc.prems obtain reps where f: "fold_window base (take k es) = Inr (sm_state m, reps)"
    by (auto simp: manager_inv_def)
  have seq: "nat (last_processed m + 1) = base + k" using Suc.prems by (simp add: manager_inv_def)
  show ?case
  proof (cases "apply_surface_event (sm_state m) (es ! k) (base + k) (take k es) base")
    case (Inl err)
    then have "fold_window base (take (Suc k) es @ drop (Suc k) es) = Inl err"
      using fold_take_Suc [OF f k] by (intro fold_window_error_prefix) simp
    then show ?thesis
      using Suc.prems(1) Inl process_one_applies [OF Suc.prems(1) k] seq by auto
  next
    case (Inr res)
    obtain st r where res: "res = (st, r)" by (cases res)
    let ?m' = "m\<lparr>sm_state := st, pending_plan := None, last_processed := int (base + k)\<rparr>"
    have "process_one es (base + k) m = Inr ?m'"
      using process_one_applies [OF Suc.prems(1) k] Inr res by simp
    moreover have "manager_inv base es (Suc k) ?m'"
      using Suc.prems(1) k fold_take_Suc [OF f k] Inr res by (simp add: manager_inv_def)
    moreover have "n = length es - Suc k" using Suc.prems(2) by simp
    ultimately show ?thesis using Suc.IH [of "Suc k" ?m'] seq by simp
  qed
qed

lemma sync_refines:
  assumes "manager_inv base es k m"
  shows "case sync es m of
      (Inr _, m') \<Rightarrow> manager_inv base es (length es) m'
    | (Inl err, m') \<Rightarrow> fold_window base es = Inl err \<and> (\<exists>k'. manager_inv base es k' m')"
proof -
  have "nat (int (base_seq m) + int (length es) - 1 - last_processed m) = length es - k"
    using assms by (simp add: manager_inv_def)
  then show ?thesis using process_delta_refines [OF assms refl] by (simp add: sync_def)
qed

lemma sync_cases:
  assumes "manager_inv base es k m"
  obtains m' reps where "sync es m = (Inr (), m')" "manager_inv base es (length es) m'"
      "fold_window base es = Inr (sm_state m', reps)"
  | err m' k' where "sync es m = (Inl err, m')" "manager_inv base es k' m'" "fold_window base es = Inl err"
  using sync_refines [OF assms]
  by (cases "sync es m"; cases "fst (sync es m)") (auto simp: manager_inv_def)

lemma validate_next_refines:
  assumes "manager_inv base es k m"
  shows "fst (validate_next es e m) = and_then (fold_window base (es @ [e])) (\<lambda>_. Inr ())"
    and "\<exists>k'. manager_inv base es k' (snd (validate_next es e m))"
proof -
  have "fst (validate_next es e m) = and_then (fold_window base (es @ [e])) (\<lambda>_. Inr ())
      \<and> (\<exists>k'. manager_inv base es k' (snd (validate_next es e m)))"
    using assms
  proof (cases rule: sync_cases)
    case (1 m' reps)
    have "plan_surface_event (sm_state m') e (base + length es) (es @ [e]) base
        = plan_surface_event (sm_state m') e (base + length es) es base"
      using fold_window_nodes_within [OF 1(3)] by (intro plan_take) auto
    then have fold: "fold_window base (es @ [e]) =
        and_then (plan_surface_event (sm_state m') e (base + length es) es base) (\<lambda>p.
          case apply_surface_plan (sm_state m') p of (st', r) \<Rightarrow>
            Inr (st', reps @ (case r of None \<Rightarrow> [] | Some x \<Rightarrow> [x])))"
      using 1(3) by (simp add: fold_window_snoc apply_surface_event_def and_then_assoc)
    show ?thesis
    proof (cases "plan_surface_event (sm_state m') e (base + length es) es base")
      case (Inl err)
      with 1 fold show ?thesis by (auto simp: validate_next_def manager_inv_def)
    next
      case (Inr p)
      have "manager_inv base es (length es) (m'\<lparr>pending_plan := Some (e, base + length es, p)\<rparr>)"
        using 1 Inr by (simp add: manager_inv_def)
      moreover have "base_seq m' = base" using 1 by (simp add: manager_inv_def)
      ultimately show ?thesis
        using 1 fold Inr by (auto simp: validate_next_def split: prod.splits)
    qed
  next
    case (2 err m' k')
    then show ?thesis by (auto simp: validate_next_def fold_window_snoc)
  qed
  then show "fst (validate_next es e m) = and_then (fold_window base (es @ [e])) (\<lambda>_. Inr ())"
    and "\<exists>k'. manager_inv base es k' (snd (validate_next es e m))" by blast+
qed

text \<open>A manager's life: reads, validations and pushes to the shared log, in any order.\<close>

inductive manager_run :: "nat \<Rightarrow> session_event list \<Rightarrow> surface_manager \<Rightarrow> bool" for base where
  start: "manager_run base es (new_manager base)"
| push: "manager_run base es m \<Longrightarrow> manager_run base (es @ [e]) m"
| read: "manager_run base es m \<Longrightarrow> manager_run base es (snd (manager_nodes es m))"
| validate: "manager_run base es m \<Longrightarrow> manager_run base es (snd (validate_next es e m))"

lemma manager_run_inv: "manager_run base es m \<Longrightarrow> \<exists>k. manager_inv base es k m"
proof (induction rule: manager_run.induct)
  case (start es)
  show ?case using manager_inv_new by blast
next
  case (push es m e)
  then show ?case using manager_inv_push by blast
next
  case (read es m)
  from read.IH obtain k where "manager_inv base es k m" ..
  then show ?case by (cases rule: sync_cases) (auto simp: manager_nodes_def)
next
  case (validate es m e)
  then show ?case using validate_next_refines(2) by blast
qed

text \<open>
  Claim C4. The incremental manager refines the fold: whatever reads, validations and pushes
  came before, asking it for the surface gives the nodes and the replacement count of a
  replay of the whole window, and the same error where the replay fails.
\<close>

theorem manager_reads_fold:
  assumes "manager_run base es m"
  shows "fst (manager_nodes es m) = and_then (fold_window base es) (\<lambda>(st, _). Inr (nodes st))
    \<and> fst (manager_generation es m) = and_then (fold_window base es) (\<lambda>(st, _). Inr (replace_generation st))"
proof -
  from manager_run_inv [OF assms] obtain k where "manager_inv base es k m" ..
  then show ?thesis
    by (cases rule: sync_cases) (auto simp: manager_nodes_def manager_generation_def)
qed

text \<open>
  The pre-append check is exact: the manager accepts a candidate if and only if a
  replay of the log with that candidate appended would succeed, and otherwise reports the
  error that replay would raise.
\<close>

theorem validate_next_exact:
  assumes "manager_run base es m"
  shows "fst (validate_next es e m) = and_then (fold_window base (es @ [e])) (\<lambda>_. Inr ())"
  using manager_run_inv [OF assms] validate_next_refines(1) by blast

lemma fold_window_generation:
  "fold_window base es = Inr (st, reps) \<Longrightarrow> replace_generation st = length reps"
proof (induction es arbitrary: st reps rule: rev_induct)
  case Nil
  then show ?case by (auto simp: create_fold_state_def)
next
  case (snoc e es)
  from snoc.prems show ?case
    by (cases rule: fold_window_snoc_cases) (use snoc.IH in auto)
qed

section \<open>A concrete log\<close>

definition surface_user :: user_message where
  "surface_user = \<lparr>um_id = ''m0'', um_content = [], um_source = UserSource\<rparr>"

definition surface_result :: "content_block list \<Rightarrow> tool_result_data" where
  "surface_result content =
     \<lparr>res_turn = 0, res_step = 0,
      res_message = \<lparr>tr_id = ''m1'', tr_call_id = ''c'', tr_block_call_id = ''c'',
                     tr_content = content, tr_is_error = None\<rparr>,
      res_error = None, res_meta = None\<rparr>"

text \<open>A user message, a tool result, and the same tool result with its content pruned.\<close>

definition surface_example :: "session_event list" where
  "surface_example =
     [append_event (UserMessageEvent surface_user) 0,
      log_event (TurnStart 0) 1,
      append_event (ToolResultEvent (surface_result [TextBlock ''long''])) 2,
      replace_event (ToolResultEvent (surface_result [])) 3 2 2 [2]]"

definition surface_example_replacement :: replacement where
  "surface_example_replacement = \<lparr>rep_seq = 3, rep_start = 2, rep_end = 2, rep_shadowed = [2]\<rparr>"

lemma fold_surface_example: "fold_surface surface_example = Inr ([0, 3], [surface_example_replacement])"
  by code_simp

theorem surface_conservation_witness:
  "mset [0, 3] + mset (concat (map rep_shadowed [surface_example_replacement])) = mset (eligible_seqs 0 surface_example)"
  by (rule surface_conservation [OF fold_surface_example])

theorem surface_replacement_provenance_witness:
  "\<exists>cited. ev_sources (surface_example ! 3) = Some (seqs_json cited) \<and> 2 \<in> set cited"
  using surface_replacement_provenance [OF fold_surface_example, of surface_example_replacement]
  by (auto simp: surface_example_replacement_def)

theorem surface_tool_rewrite_content_only_witness:
  "\<exists>d0. ev_payload (surface_example ! 2) = ToolResultEvent d0
     \<and> is_deep_equal_json (tool_result_data_json d0 JNull) (tool_result_data_json (surface_result []) JNull)"
  using surface_tool_rewrite_content_only [OF fold_surface_example, of surface_example_replacement "surface_result []"]
  by (auto simp: surface_example_replacement_def surface_example_def replace_event_def log_event_def)

lemma surface_example_run:
  "manager_run 0 surface_example (snd (manager_nodes surface_example (new_manager 0)))"
  by (intro manager_run.read manager_run.start)

theorem manager_reads_fold_witness:
  "fst (manager_nodes surface_example (snd (manager_nodes surface_example (new_manager 0)))) = Inr [0, 3]"
proof -
  have "fold_window 0 surface_example
      = Inr (\<lparr>nodes = [0, 3], replace_generation = 1\<rparr>, [surface_example_replacement])" by code_simp
  then show ?thesis using manager_reads_fold [OF surface_example_run] by simp
qed

theorem validate_next_exact_witness:
  "fst (validate_next surface_example (log_event (TurnEnd 0 Completed) 7)
      (snd (manager_nodes surface_example (new_manager 0)))) = Inl (NotContiguous 7 4)"
proof -
  have "fold_window 0 (surface_example @ [log_event (TurnEnd 0 Completed) 7]) = Inl (NotContiguous 7 4)" by code_simp
  then show ?thesis using validate_next_exact [OF surface_example_run, of "log_event (TurnEnd 0 Completed) 7"] by simp
qed

end
