(* ===== verification/Seq_Ranges.thy ===== *)
theory Seq_Ranges
  imports Session_Types
begin

text \<open>
  \<open>packages/core/session/src/seq-ranges.ts\<close>: the storage form of \<open>sourceEventSeqs\<close>, in
  which runs of at least three consecutive sequence numbers are stored as inclusive pairs.
  The encoder works on sequence numbers; the decoder reads an untrusted JSON value.
\<close>

datatype seq_range_error =
    SeqsNotArray
  | SeqsTooMany
  | RangeNotPair
  | RangeReversed
  | RangeTooLong
  | RangesNotIncreasing
  | SeqNotSafeNatural
  | SeqBrand brand_error

fun is_strictly_increasing :: "nat list \<Rightarrow> bool" where
  "is_strictly_increasing [] = True"
| "is_strictly_increasing [x] = True"
| "is_strictly_increasing (x # y # xs) = (y > x \<and> is_strictly_increasing (y # xs))"

section \<open>Encoding\<close>

datatype encoded_seq = OneSeq nat | SeqRange nat nat

text \<open>The inner loop: the last index of the consecutive run that starts at an index.\<close>

function run_end :: "nat list \<Rightarrow> nat \<Rightarrow> nat" where
  "run_end vs e = (if e + 1 < length vs \<and> vs ! (e + 1) = vs ! e + 1 then run_end vs (e + 1) else e)"
  by pat_completeness auto
termination by (relation "measure (\<lambda>(vs, e). length vs - e)") auto

declare run_end.simps [simp del]

lemma run_end_ge: "e \<le> run_end vs e"
proof (induction vs e rule: run_end.induct)
  case (1 vs e)
  then show ?case by (subst run_end.simps) auto
qed

function encode_loop :: "nat list \<Rightarrow> nat \<Rightarrow> encoded_seq list" where
  "encode_loop vs start =
     (if start < length vs then
        (let e = run_end vs start
         in (if e - start \<ge> 2 then [SeqRange (vs ! start) (vs ! e)]
             else map OneSeq (slice start (e + 1) vs)) @ encode_loop vs (e + 1))
      else [])"
  by pat_completeness auto
termination by (relation "measure (\<lambda>(vs, start). length vs - start)") (auto simp: le_imp_less_Suc run_end_ge diff_less_mono2)

declare encode_loop.simps [simp del]

definition encode_seq_ranges :: "nat list \<Rightarrow> encoded_seq list" where
  "encode_seq_ranges vs = (if \<not> is_strictly_increasing vs then map OneSeq vs else encode_loop vs 0)"

fun encoded_json :: "encoded_seq \<Rightarrow> json" where
  "encoded_json (OneSeq n) = jint (int n)"
| "encoded_json (SeqRange s e) = JArr [jint (int s), jint (int e)]"

section \<open>Decoding\<close>

text \<open>\<open>assertSeq\<close> admits negative zero; the constructor \<open>SessionSeq\<close> does not.\<close>

definition assert_seq :: "json \<Rightarrow> (seq_range_error, jnum) result" where
  "assert_seq j =
     (case j of
        JNum (JInt i) \<Rightarrow> if is_safe_integer (JInt i) \<and> 0 \<le> i then Inr (JInt i) else Inl SeqNotSafeNatural
      | JNum JNegZero \<Rightarrow> Inr JNegZero
      | _ \<Rightarrow> Inl SeqNotSafeNatural)"

definition decode_entry :: "nat \<Rightarrow> json \<Rightarrow> nat list \<times> bool \<Rightarrow> (seq_range_error, nat list \<times> bool) result" where
  "decode_entry max_entries entry acc =
     (let (decoded, has_range) = acc in
      case entry of
        JNum n \<Rightarrow>
          and_then (assert_seq entry) (\<lambda>_.
            if length decoded \<ge> max_entries then Inl SeqsTooMany
            else and_then (rethrow SeqBrand (session_seq n)) (\<lambda>s. Inr (decoded @ [s], has_range)))
      | JArr [start, end] \<Rightarrow>
          and_then (assert_seq start) (\<lambda>s.
          and_then (assert_seq end) (\<lambda>e.
            if jnum_int e < jnum_int s then Inl RangeReversed
            else if jnum_int e - jnum_int s + 1 > int max_entries - int (length decoded) then Inl RangeTooLong
            else and_then (rethrow SeqBrand (session_seq s)) (\<lambda>first.
                   Inr (decoded @ [first ..< nat (jnum_int e) + 1], True))))
      | _ \<Rightarrow> Inl RangeNotPair)"

definition decode_seq_ranges :: "json \<Rightarrow> nat \<Rightarrow> (seq_range_error, nat list) result" where
  "decode_seq_ranges v max_entries =
     (case v of
        JArr entries \<Rightarrow>
          and_then (fold_result (decode_entry max_entries) entries ([], False)) (\<lambda>(decoded, has_range).
            if has_range \<and> \<not> is_strictly_increasing decoded then Inl RangesNotIncreasing
            else Inr decoded)
      | _ \<Rightarrow> Inl SeqsNotArray)"

section \<open>The encoder's runs\<close>

lemma run_end_lt: "start < length vs \<Longrightarrow> run_end vs start < length vs"
proof (induction vs start rule: run_end.induct)
  case (1 vs e)
  then show ?case by (subst run_end.simps) auto
qed

lemma run_end_consecutive:
  "start \<le> i \<Longrightarrow> i \<le> run_end vs start \<Longrightarrow> vs ! i = vs ! start + (i - start)"
proof (induction vs start rule: run_end.induct)
  case (1 vs e)
  show ?case
  proof (cases "i = e")
    case True
    then show ?thesis by simp
  next
    case False
    with 1(2) have i: "e + 1 \<le> i" by simp
    have step: "e + 1 < length vs \<and> vs ! (e + 1) = vs ! e + 1"
      using 1(3) False 1(2) by (subst (asm) run_end.simps) (auto split: if_splits)
    then have "run_end vs e = run_end vs (e + 1)" by (subst run_end.simps) simp
    with 1 i step show ?thesis by auto
  qed
qed

lemma run_slice:
  assumes "start < length vs"
  shows "[vs ! start ..< vs ! run_end vs start + 1] = slice start (run_end vs start + 1) vs"
proof (rule nth_equalityI)
  have e: "start \<le> run_end vs start" "run_end vs start < length vs"
    using run_end_ge run_end_lt [OF assms] by auto
  then have last: "vs ! run_end vs start = vs ! start + (run_end vs start - start)"
    by (intro run_end_consecutive) auto
  show "length [vs ! start ..< vs ! run_end vs start + 1] = length (slice start (run_end vs start + 1) vs)"
    using e last by (simp add: length_slice Suc_diff_le)
  fix i assume "i < length [vs ! start ..< vs ! run_end vs start + 1]"
  then have "i \<le> run_end vs start - start" using last by simp
  then have "vs ! (start + i) = vs ! start + i"
    using run_end_consecutive [of start "start + i" vs] e by simp
  moreover have "[vs ! start ..< vs ! run_end vs start + 1] ! i = vs ! start + i"
    using \<open>i \<le> run_end vs start - start\<close> last by (intro nth_upt) simp
  moreover have "slice start (run_end vs start + 1) vs ! i = vs ! (start + i)"
    using \<open>i \<le> run_end vs start - start\<close> e by (simp add: slice_def)
  ultimately show "[vs ! start ..< vs ! run_end vs start + 1] ! i = slice start (run_end vs start + 1) vs ! i"
    by simp
qed

lemma take_slice: "i \<le> j \<Longrightarrow> take i xs @ slice i j xs = take j xs"
  using take_add [of i "j - i" xs] by (simp add: slice_def)

lemma decode_ones:
  assumes "\<forall>v \<in> set vs. int v \<le> MAX_SAFE_INTEGER" and "length acc + length vs \<le> m"
  shows "fold_result (decode_entry m) (map (encoded_json \<circ> OneSeq) vs) (acc, h) = Inr (acc @ vs, h)"
  using assms
proof (induction vs arbitrary: acc)
  case Nil
  then show ?case by simp
next
  case (Cons v vs)
  then have "decode_entry m (encoded_json (OneSeq v)) (acc, h) = Inr (acc @ [v], h)"
    by (simp add: decode_entry_def assert_seq_def session_seq_int)
  with Cons show ?case by simp
qed

lemma decode_range:
  assumes "int s \<le> MAX_SAFE_INTEGER" and "int e \<le> MAX_SAFE_INTEGER" and "s \<le> e"
    and "length acc + (e - s + 1) \<le> m"
  shows "decode_entry m (JArr [jint (int s), jint (int e)]) (acc, h) = Inr (acc @ [s ..< e + 1], True)"
  using assms by (simp add: decode_entry_def assert_seq_def session_seq_int of_nat_diff)

lemma decode_loop:
  assumes "\<forall>v \<in> set vs. int v \<le> MAX_SAFE_INTEGER" and "length vs \<le> m" and "start \<le> length vs"
  shows "\<exists>h'. fold_result (decode_entry m) (map encoded_json (encode_loop vs start)) (take start vs, h) = Inr (vs, h')"
  using assms
proof (induction vs start arbitrary: h rule: encode_loop.induct)
  case (1 vs start)
  show ?case
  proof (cases "start < length vs")
    case False
    with 1 show ?thesis by (subst encode_loop.simps) simp
  next
    case True
    define e where "e = run_end vs start"
    have e: "start \<le> e" "e < length vs"
      using run_end_ge run_end_lt [OF True] by (auto simp: e_def)
    have rest: "\<exists>h'. fold_result (decode_entry m) (map encoded_json (encode_loop vs (e + 1))) (take (e + 1) vs, h) = Inr (vs, h')" for h
      using 1 True e unfolding e_def by auto
    have joined: "take start vs @ slice start (e + 1) vs = take (e + 1) vs"
      using e by (intro take_slice) simp
    show ?thesis
    proof (cases "e - start \<ge> 2")
      case long: True
      have "vs ! e = vs ! start + (e - start)"
        using run_end_consecutive [of start e vs] e by (simp add: e_def)
      moreover have "int (vs ! start) \<le> MAX_SAFE_INTEGER" "int (vs ! e) \<le> MAX_SAFE_INTEGER"
        using 1(2) e True by auto
      moreover have "e - start + 1 \<le> m - start" using 1 e by simp
      ultimately have "decode_entry m (JArr [jint (int (vs ! start)), jint (int (vs ! e))]) (take start vs, h)
          = Inr (take start vs @ [vs ! start ..< vs ! e + 1], True)"
        using 1 e True by (intro decode_range) simp_all
      then have "decode_entry m (JArr [jint (int (vs ! start)), jint (int (vs ! e))]) (take start vs, h)
          = Inr (take (e + 1) vs, True)"
        using run_slice [OF True] joined by (simp only: e_def)
      then show ?thesis using True long rest by (subst encode_loop.simps) (simp add: e_def Let_def)
    next
      case short: False
      have "fold_result (decode_entry m) (map (encoded_json \<circ> OneSeq) (slice start (e + 1) vs)) (take start vs, h)
          = Inr (take (e + 1) vs, h)"
        using 1 e joined set_slice_subset [of start "e + 1" vs]
        by (subst decode_ones) (auto simp: length_slice)
      then show ?thesis using True short rest
        by (subst encode_loop.simps) (simp add: e_def Let_def fold_result_append)
    qed
  qed
qed

text \<open>
  Storing and reading back a list of cited sequence numbers gives the same list:
  for safe sequence numbers that fit the owning event's bound, decoding the encoded form
  succeeds and returns exactly the original values, consecutive runs and unsorted lists
  included.
\<close>

theorem seq_ranges_roundtrip:
  assumes "\<forall>v \<in> set vs. int v \<le> MAX_SAFE_INTEGER" and "length vs \<le> m"
  shows "decode_seq_ranges (JArr (map encoded_json (encode_seq_ranges vs))) m = Inr vs"
proof (cases "is_strictly_increasing vs")
  case True
  from decode_loop [OF assms, of 0 False] obtain h' where
    "fold_result (decode_entry m) (map encoded_json (encode_loop vs 0)) ([], False) = Inr (vs, h')" by auto
  with True show ?thesis by (simp add: decode_seq_ranges_def encode_seq_ranges_def)
next
  case False
  have "fold_result (decode_entry m) (map (encoded_json \<circ> OneSeq) vs) ([], False) = Inr (vs, False)"
    using decode_ones [of vs "[]" m False] assms by simp
  with False show ?thesis by (simp add: decode_seq_ranges_def encode_seq_ranges_def)
qed

theorem seq_ranges_roundtrip_witness:
  "encode_seq_ranges [1, 2, 3, 7] = [SeqRange 1 3, OneSeq 7]
   \<and> decode_seq_ranges (JArr (map encoded_json (encode_seq_ranges [1, 2, 3, 7]))) 9 = Inr [1, 2, 3, 7]"
proof
  show "encode_seq_ranges [1, 2, 3, 7] = [SeqRange 1 3, OneSeq 7]" by code_simp
  show "decode_seq_ranges (JArr (map encoded_json (encode_seq_ranges [1, 2, 3, 7]))) 9 = Inr [1, 2, 3, 7]"
    by (rule seq_ranges_roundtrip) (simp_all add: MAX_SAFE_INTEGER_def)
qed

lemma decode_entry_bounded:
  assumes "decode_entry m j (xs, h) = Inr (ys, h')" and "length xs \<le> m"
    and "\<forall>x \<in> set xs. int x \<le> MAX_SAFE_INTEGER"
  shows "length ys \<le> m \<and> (\<forall>y \<in> set ys. int y \<le> MAX_SAFE_INTEGER)"
proof -
  have safe: "assert_seq j = Inr n \<Longrightarrow> jnum_int n \<le> MAX_SAFE_INTEGER \<and> 0 \<le> jnum_int n" for j n
    by (auto simp: assert_seq_def MAX_SAFE_INTEGER_def split: json.splits jnum.splits if_splits)
  from assms show ?thesis
    by (auto simp: decode_entry_def and_then_Inr_iff session_seq_Inr_iff dest!: safe
        split: json.splits if_splits list.splits)
qed

text \<open>
  A decoded list never exceeds the bound of its event and holds only safe sequence
  numbers, whatever the stored value was: a small stored range cannot expand beyond the number
  of events that precede it.
\<close>

theorem seq_ranges_bounded:
  assumes "decode_seq_ranges v m = Inr ns"
  shows "length ns \<le> m \<and> (\<forall>n \<in> set ns. int n \<le> MAX_SAFE_INTEGER)"
proof -
  from assms obtain entries h where f: "fold_result (decode_entry m) entries ([], False) = Inr (ns, h)"
    by (auto simp: decode_seq_ranges_def and_then_Inr_iff split: json.splits if_splits)
  have "length (fst (ns, h)) \<le> m \<and> (\<forall>n \<in> set (fst (ns, h)). int n \<le> MAX_SAFE_INTEGER)"
    by (rule fold_result_inv [OF f]) (auto dest: decode_entry_bounded)
  then show ?thesis by simp
qed

theorem seq_ranges_bounded_witness:
  "decode_seq_ranges (JArr [JArr [jint 2, jint 5]]) 4 = Inr [2, 3, 4, 5] \<and> length [2, 3, 4, 5 :: nat] \<le> 4"
proof -
  have d: "decode_seq_ranges (JArr [JArr [jint 2, jint 5]]) 4 = Inr [2, 3, 4, 5]" by code_simp
  then show ?thesis using seq_ranges_bounded [OF d] by blast
qed

end
