(* ===== verification/Chunk_Rows.thy ===== *)
theory Chunk_Rows
  imports Session_Types
begin

text \<open>
  \<open>packages/core/session/src/chunk-rows.ts\<close>: the storage codec that packs runs of
  consecutive stream-delta events into one row and expands rows again. Encoder and decoder
  check shapes structurally, so events, rows and stored lines are JSON values here. Member
  times are doubles: the sums and differences of safe integers the code forms are rounded
  as doubles round them.
\<close>

section \<open>Double arithmetic on safe integers\<close>

text \<open>The nearest double, ties to even, of an integer of magnitude at most $2^{54}$.\<close>

definition round_double :: "int \<Rightarrow> int" where
  "round_double i =
     (if \<bar>i\<bar> \<le> 2 ^ 53 \<or> even i then i else if (i + 1) mod 4 = 0 then i + 1 else i - 1)"

text \<open>Sums and differences, signed zeros included. The codec forms them of safe integers
  only; of other numbers the exact value is given.\<close>

fun num_sub :: "jnum \<Rightarrow> jnum \<Rightarrow> jnum" where
  "num_sub (JInt a) (JInt b) = JInt (round_double (a - b))"
| "num_sub JNegZero (JInt b) = (if b = 0 then JNegZero else JInt (- b))"
| "num_sub (JInt a) JNegZero = JInt a"
| "num_sub JNegZero JNegZero = JInt 0"
| "num_sub (JFrac p) n = (case n of JInt b \<Rightarrow> JFrac (p - of_int b) | JNegZero \<Rightarrow> JFrac p | JFrac q \<Rightarrow> JFrac (p - q))"
| "num_sub n (JFrac q) = (case n of JInt a \<Rightarrow> JFrac (of_int a - q) | _ \<Rightarrow> JFrac (- q))"

fun num_add :: "jnum \<Rightarrow> jnum \<Rightarrow> jnum" where
  "num_add (JInt a) (JInt b) = JInt (round_double (a + b))"
| "num_add JNegZero n = n"
| "num_add n JNegZero = n"
| "num_add (JFrac p) n = (case n of JInt b \<Rightarrow> JFrac (p + of_int b) | JNegZero \<Rightarrow> JFrac p | JFrac q \<Rightarrow> JFrac (p + q))"
| "num_add (JInt a) (JFrac q) = JFrac (of_int a + q)"

section \<open>Rows and their recognition\<close>

datatype delta_kind = TextDeltaKind | ReasoningDeltaKind | ToolCallDeltaKind

fun delta_tag :: "delta_kind \<Rightarrow> string" where
  "delta_tag TextDeltaKind = ''text-delta''"
| "delta_tag ReasoningDeltaKind = ''reasoning-delta''"
| "delta_tag ToolCallDeltaKind = ''tool-call-delta''"

fun row_tag :: "delta_kind \<Rightarrow> string" where
  "row_tag TextDeltaKind = ''text-chunks''"
| "row_tag ReasoningDeltaKind = ''reasoning-chunks''"
| "row_tag ToolCallDeltaKind = ''tool-call-chunks''"

definition row_tags :: "string list" where
  "row_tags = [''text-chunks'', ''reasoning-chunks'', ''tool-call-chunks'']"

definition is_chunk_row :: "json \<Rightarrow> bool" where
  "is_chunk_row r \<longleftrightarrow> (case jget ''type'' r of Some (JStr t) \<Rightarrow> t \<in> set row_tags | _ \<Rightarrow> False)"

definition chunk_row_length :: "json \<Rightarrow> nat" where
  "chunk_row_length r =
     (if jfield ''type'' r = JStr ''tool-call-chunks'' then length (items_of (jfield ''args'' (jfield ''data'' r)))
      else length (items_of (jfield ''texts'' (jfield ''data'' r))))"

definition MIN_RUN :: nat where
  "MIN_RUN = 3"

definition classify_chunk :: "json \<Rightarrow> delta_kind option" where
  "classify_chunk chunk =
     (case jget ''type'' chunk of
        Some (JStr t) \<Rightarrow>
          if t = ''text-delta'' \<or> t = ''reasoning-delta'' then
            (if has_exact_keys chunk [''type'', ''index'', ''text''] \<and> is_jstr (jfield ''text'' chunk)
             then Some (if t = ''text-delta'' then TextDeltaKind else ReasoningDeltaKind) else None)
          else if t = ''tool-call-delta'' then
            (let shape_ok = has_exact_keys chunk [''type'', ''index'', ''id'', ''argumentsDelta'']
                   \<or> (has_exact_keys chunk [''type'', ''index'', ''id'', ''name'', ''argumentsDelta'']
                      \<and> is_jstr (jfield ''name'' chunk))
             in if shape_ok \<and> is_jstr (jfield ''id'' chunk) \<and> is_jstr (jfield ''argumentsDelta'' chunk)
                then Some ToolCallDeltaKind else None)
          else None
      | _ \<Rightarrow> None)"

definition classify :: "json \<Rightarrow> delta_kind option" where
  "classify event =
     (if jget ''type'' event \<noteq> Some (JStr ''assistant/chunk'') then None
      else if \<not> has_exact_keys event [''type'', ''seq'', ''time'', ''data''] then None
      else if safe_nat (jfield ''seq'' event) = None
        \<or> \<not> (is_jnum (jfield ''time'' event) \<and> is_safe_integer (num_of (jfield ''time'' event))) then None
      else let data = jfield ''data'' event in
        if \<not> is_record data \<or> \<not> has_exact_keys data [''turn'', ''step'', ''chunk''] then None
        else if \<not> is_jnum (jfield ''turn'' data) \<or> \<not> is_jnum (jfield ''step'' data) then None
        else let chunk = jfield ''chunk'' data in
          if \<not> is_record chunk \<or> \<not> is_jnum (jfield ''index'' chunk) then None
          else classify_chunk chunk)"

text \<open>Properties of a classified event.\<close>

definition chunk_of :: "json \<Rightarrow> json" where
  "chunk_of e = jfield ''chunk'' (jfield ''data'' e)"

definition time_of :: "json \<Rightarrow> jnum" where
  "time_of e = num_of (jfield ''time'' e)"

definition seq_of :: "json \<Rightarrow> jnum" where
  "seq_of e = num_of (jfield ''seq'' e)"

definition turn_of :: "json \<Rightarrow> jnum" where
  "turn_of e = num_of (jfield ''turn'' (jfield ''data'' e))"

definition step_of :: "json \<Rightarrow> jnum" where
  "step_of e = num_of (jfield ''step'' (jfield ''data'' e))"

definition block_index_of :: "json \<Rightarrow> jnum" where
  "block_index_of e = num_of (jfield ''index'' (chunk_of e))"

definition continues :: "json \<Rightarrow> json \<Rightarrow> delta_kind \<Rightarrow> bool" where
  "continues prev next kind \<longleftrightarrow>
     num_eq (seq_of next) (num_add (seq_of prev) (JInt 1))
     \<and> is_safe_integer (num_sub (time_of next) (time_of prev))
     \<and> num_eq (turn_of next) (turn_of prev) \<and> num_eq (step_of next) (step_of prev)
     \<and> num_eq (block_index_of next) (block_index_of prev)
     \<and> (kind \<noteq> ToolCallDeltaKind \<or>
          jget ''id'' (chunk_of prev) = jget ''id'' (chunk_of next)
          \<and> (jget ''name'' (chunk_of prev) = None) = (jget ''name'' (chunk_of next) = None)
          \<and> jget ''name'' (chunk_of prev) = jget ''name'' (chunk_of next))"

section \<open>Packing\<close>

definition gaps :: "json list \<Rightarrow> jnum list" where
  "gaps run = map (\<lambda>(prev, event). num_sub (time_of event) (time_of prev)) (zip run (tl run))"

definition fragment :: "delta_kind \<Rightarrow> json \<Rightarrow> json" where
  "fragment kind e = jfield (if kind = ToolCallDeltaKind then ''argumentsDelta'' else ''text'') (chunk_of e)"

definition build_row :: "delta_kind \<Rightarrow> json list \<Rightarrow> json" where
  "build_row kind run =
     (let first = hd run;
          base = [(''turn'', JNum (turn_of first)), (''step'', JNum (step_of first)),
                  (''index'', JNum (block_index_of first)), (''dt'', JArr (map JNum (gaps run)))];
          members = JArr (map (fragment kind) run);
          data = (if kind = ToolCallDeltaKind then
                    base @ [(''id'', jfield ''id'' (chunk_of first))]
                      @ opt_field ''name'' (jget ''name'' (chunk_of first)) @ [(''args'', members)]
                  else base @ [(''texts'', members)])
      in JObj [(''type'', JStr (row_tag kind)), (''seq0'', JNum (seq_of first)),
               (''time0'', JNum (time_of first)), (''data'', JObj data)])"

record pack_state =
  pk_out :: "json list"
  pk_kind :: "delta_kind option"
  pk_run :: "json list"

definition pack_flush :: "pack_state \<Rightarrow> pack_state" where
  "pack_flush st =
     \<lparr>pk_out = pk_out st
        @ (case pk_kind st of
             Some kind \<Rightarrow> if length (pk_run st) \<ge> MIN_RUN then [build_row kind (pk_run st)] else pk_run st
           | None \<Rightarrow> pk_run st),
      pk_kind = None, pk_run = []\<rparr>"

definition pack_step :: "json \<Rightarrow> pack_state \<Rightarrow> pack_state" where
  "pack_step event st =
     (case classify event of
        None \<Rightarrow> let st' = pack_flush st in st'\<lparr>pk_out := pk_out st' @ [event]\<rparr>
      | Some k \<Rightarrow>
          if pk_kind st = Some k \<and> pk_run st \<noteq> [] \<and> continues (last (pk_run st)) event k
          then st\<lparr>pk_run := pk_run st @ [event]\<rparr>
          else (pack_flush st)\<lparr>pk_kind := Some k, pk_run := [event]\<rparr>)"

definition pack_chunk_runs :: "json list \<Rightarrow> json list" where
  "pack_chunk_runs events =
     pk_out (pack_flush (fold pack_step events \<lparr>pk_out = [], pk_kind = None, pk_run = []\<rparr>))"

section \<open>Expanding\<close>

datatype row_fault =
    BadEnvelope | BadSeq0 | BadTime0 | DataNotObject | BadDataKeys | BadIdentity
  | BadPlacement | BadPayload | BadGaps | GapCount nat nat | SeqOverflow | TimeOverflow

datatype row_error = Malformed string row_fault | RowSeq brand_error

definition validate_run_data :: "string \<Rightarrow> json \<Rightarrow> string \<Rightarrow> (row_error, json list) result" where
  "validate_run_data tag data payload_key =
     (if \<not> is_jnum (jfield ''turn'' data) \<or> \<not> is_jnum (jfield ''step'' data) \<or> \<not> is_jnum (jfield ''index'' data)
      then Inl (Malformed tag BadPlacement)
      else let payload = jfield payload_key data in
        if \<not> is_jarr payload \<or> items_of payload = [] \<or> \<not> list_all is_jstr (items_of payload)
        then Inl (Malformed tag BadPayload)
        else let dt = jfield ''dt'' data in
          if \<not> is_jarr dt \<or> \<not> list_all (\<lambda>g. is_jnum g \<and> is_safe_integer (num_of g)) (items_of dt)
          then Inl (Malformed tag BadGaps)
          else if length (items_of dt) \<noteq> length (items_of payload) - 1
          then Inl (Malformed tag (GapCount (length (items_of dt)) (length (items_of payload))))
          else Inr (items_of payload))"

definition advance_time :: "string \<Rightarrow> json \<Rightarrow> jnum \<Rightarrow> (row_error, jnum) result" where
  "advance_time tag gap t =
     (let t' = num_add t (num_of gap)
      in if is_safe_integer t' then Inr t' else Inl (Malformed tag TimeOverflow))"

definition validate_payload :: "string \<Rightarrow> json \<Rightarrow> (row_error, json list) result" where
  "validate_payload tag data =
     (if tag = ''tool-call-chunks'' then
        (let with_name = has_exact_keys data [''turn'', ''step'', ''index'', ''id'', ''name'', ''dt'', ''args'']
         in if \<not> with_name \<and> \<not> has_exact_keys data [''turn'', ''step'', ''index'', ''id'', ''dt'', ''args'']
            then Inl (Malformed tag BadDataKeys)
            else if \<not> is_jstr (jfield ''id'' data) \<or> (with_name \<and> \<not> is_jstr (jfield ''name'' data))
            then Inl (Malformed tag BadIdentity)
            else validate_run_data tag data ''args'')
      else if \<not> has_exact_keys data [''turn'', ''step'', ''index'', ''dt'', ''texts'']
      then Inl (Malformed tag BadDataKeys)
      else validate_run_data tag data ''texts'')"

definition validate_row :: "json \<Rightarrow> string \<Rightarrow> (row_error, json) result" where
  "validate_row v tag =
     (if \<not> has_exact_keys v [''type'', ''seq0'', ''time0'', ''data''] then Inl (Malformed tag BadEnvelope)
      else if safe_nat (jfield ''seq0'' v) = None then Inl (Malformed tag BadSeq0)
      else if \<not> (is_jnum (jfield ''time0'' v) \<and> is_safe_integer (num_of (jfield ''time0'' v)))
      then Inl (Malformed tag BadTime0)
      else let data = jfield ''data'' v; seq0 = num_of (jfield ''seq0'' v) in
        if \<not> is_record data then Inl (Malformed tag DataNotObject)
        else and_then (validate_payload tag data) (\<lambda>payload.
          if int (length payload) - 1 > MAX_SAFE_INTEGER - jnum_int seq0 then Inl (Malformed tag SeqOverflow)
          else and_then (fold_result (advance_time tag) (items_of (jfield ''dt'' data)) (num_of (jfield ''time0'' v))) (\<lambda>_.
            and_then (rethrow RowSeq (session_seq seq0)) (\<lambda>_. Inr v))))"

definition member_chunk :: "json \<Rightarrow> json \<Rightarrow> json" where
  "member_chunk row m =
     (let data = jfield ''data'' row in
      if jfield ''type'' row = JStr ''text-chunks'' then
        JObj [(''type'', JStr ''text-delta''), (''index'', jfield ''index'' data), (''text'', m)]
      else if jfield ''type'' row = JStr ''reasoning-chunks'' then
        JObj [(''type'', JStr ''reasoning-delta''), (''index'', jfield ''index'' data), (''text'', m)]
      else
        JObj ([(''type'', JStr ''tool-call-delta''), (''index'', jfield ''index'' data), (''id'', jfield ''id'' data)]
          @ opt_field ''name'' (jget ''name'' data) @ [(''argumentsDelta'', m)]))"

definition member_event :: "json \<Rightarrow> nat \<Rightarrow> jnum \<Rightarrow> json \<Rightarrow> json" where
  "member_event row s time m =
     (let data = jfield ''data'' row in
      JObj [(''type'', JStr ''assistant/chunk''), (''seq'', jint (int s)), (''time'', JNum time),
            (''data'', JObj [(''turn'', jfield ''turn'' data), (''step'', jfield ''step'' data),
                             (''chunk'', member_chunk row m)])])"

fun expand_members :: "json \<Rightarrow> nat \<Rightarrow> jnum \<Rightarrow> json list \<Rightarrow> (row_error, json list) result" where
  "expand_members row k time [] = Inr []"
| "expand_members row k time (m # ms) =
     (let time' = (if k > 0 then num_add time (num_of (items_of (jfield ''dt'' (jfield ''data'' row)) ! (k - 1))) else time)
      in and_then (rethrow RowSeq (session_seq (num_add (num_of (jfield ''seq0'' row)) (JInt (int k))))) (\<lambda>s.
           and_then (expand_members row (k + 1) time' ms) (\<lambda>rest. Inr (member_event row s time' m # rest))))"

definition expand_row :: "json \<Rightarrow> (row_error, json list) result" where
  "expand_row row =
     (let data = jfield ''data'' row;
          members = items_of (if jfield ''type'' row = JStr ''tool-call-chunks'' then jfield ''args'' data
                              else jfield ''texts'' data)
      in expand_members row 0 (num_of (jfield ''time0'' row)) members)"

definition decode_storage_record :: "json \<Rightarrow> (row_error, json list) result" where
  "decode_storage_record v =
     (if \<not> is_record v then Inr [v]
      else case jget ''type'' v of
        Some (JStr tag) \<Rightarrow>
          if tag \<in> set row_tags then and_then (validate_row v tag) expand_row
          else if is_jnum (jfield ''seq'' v)
          then and_then (rethrow RowSeq (session_seq (num_of (jfield ''seq'' v)))) (\<lambda>_. Inr [v])
          else Inr [v]
      | _ \<Rightarrow>
          if is_jnum (jfield ''seq'' v)
          then and_then (rethrow RowSeq (session_seq (num_of (jfield ''seq'' v)))) (\<lambda>_. Inr [v])
          else Inr [v])"

text \<open>Reading the stored lines of a batch in order.\<close>

definition decode_records :: "json list \<Rightarrow> (row_error, json list) result" where
  "decode_records vs =
     fold_result (\<lambda>v acc. and_then (decode_storage_record v) (\<lambda>es. Inr (acc @ es))) vs []"

section \<open>Objects with exactly the expected keys\<close>

lemma jget_None_iff: "jget k j = None \<longleftrightarrow> k \<notin> set (jkeys j)"
  by (cases j) (auto simp: map_of_eq_None_iff)

lemma has_exact_keys_set:
  assumes "has_exact_keys j ks" and "distinct ks"
  shows "set (jkeys j) = set ks"
proof -
  have "set ks \<subseteq> set (jkeys j)" and "length (jkeys j) = length ks"
    using assms(1) by (auto simp: has_exact_keys_def)
  moreover have "card (set (jkeys j)) \<le> length (jkeys j)" by (rule card_length)
  ultimately show ?thesis
    using distinct_card [OF assms(2)] by (metis List.finite_set card_seteq)
qed

lemma has_exact_keys_jget:
  "has_exact_keys j ks \<Longrightarrow> distinct ks \<Longrightarrow> jget k j = (if k \<in> set ks then Some (jfield k j) else None)"
  using has_exact_keys_set [of j ks] jget_None_iff [of k j]
  by (cases "jget k j") (auto simp: jfield_def)

lemma members_equal_iff:
  "members_equal kvs ys \<longleftrightarrow> (\<forall>(k, v) \<in> set kvs. \<exists>w. map_of ys k = Some w \<and> is_deep_equal_json v w)"
  by (induction kvs) (auto split: option.splits)

lemma deep_equal_by_keys:
  assumes "has_exact_keys e (map fst kvs)" and "kvs \<noteq> []"
    and "\<And>k v. (k, v) \<in> set kvs \<Longrightarrow> is_deep_equal_json v (jfield k e)"
  shows "is_deep_equal_json (JObj kvs) e"
proof -
  from assms(1,2) obtain ys where ys: "e = JObj ys"
    by (cases e) (auto simp: has_exact_keys_def)
  have "\<exists>w. map_of ys k = Some w \<and> is_deep_equal_json v w" if "(k, v) \<in> set kvs" for k v
  proof -
    have "k \<in> set (jkeys e)" using assms(1) that by (force simp: has_exact_keys_def)
    then obtain w where "map_of ys k = Some w"
      using ys jget_None_iff [of k e] by auto
    then show ?thesis using assms(3) [OF that] ys by (auto simp: jfield_def)
  qed
  then show ?thesis using assms(1) ys by (auto simp: members_equal_iff has_exact_keys_def)
qed

section \<open>Classified events\<close>

lemma classify_Some:
  assumes "classify e = Some kind"
  shows "jget ''type'' e = Some (JStr ''assistant/chunk'')"
    and "has_exact_keys e [''type'', ''seq'', ''time'', ''data'']"
    and "\<exists>n. jfield ''seq'' e = jint (int n) \<and> int n \<le> MAX_SAFE_INTEGER"
    and "jfield ''time'' e = JNum (time_of e)" and "is_safe_integer (time_of e)"
    and "has_exact_keys (jfield ''data'' e) [''turn'', ''step'', ''chunk'']"
    and "jfield ''turn'' (jfield ''data'' e) = JNum (turn_of e)"
    and "jfield ''step'' (jfield ''data'' e) = JNum (step_of e)"
    and "jfield ''index'' (chunk_of e) = JNum (block_index_of e)"
    and "classify_chunk (chunk_of e) = Some kind"
  using assms
  by (auto simp: classify_def Let_def time_of_def turn_of_def step_of_def block_index_of_def chunk_of_def
      safe_nat_Some_iff is_jnum_conv split: if_splits)

lemma classify_chunk_text:
  assumes "classify_chunk c = Some kind" and "kind \<noteq> ToolCallDeltaKind"
  shows "has_exact_keys c [''type'', ''index'', ''text'']" and "jfield ''type'' c = JStr (delta_tag kind)"
    and "\<exists>t. jfield ''text'' c = JStr t"
  using assms
  by (auto simp: classify_chunk_def Let_def is_jstr_conv jfield_def [of "''type''"]
      split: option.splits json.splits if_splits)

lemma classify_chunk_call:
  assumes "classify_chunk c = Some ToolCallDeltaKind"
  shows "has_exact_keys c (if jget ''name'' c = None then [''type'', ''index'', ''id'', ''argumentsDelta'']
           else [''type'', ''index'', ''id'', ''name'', ''argumentsDelta''])"
    and "jfield ''type'' c = JStr ''tool-call-delta''"
    and "\<exists>t. jfield ''id'' c = JStr t" and "\<exists>t. jfield ''argumentsDelta'' c = JStr t"
    and "jget ''name'' c = None \<or> (\<exists>t. jget ''name'' c = Some (JStr t))"
proof -
  from assms have shape: "has_exact_keys c [''type'', ''index'', ''id'', ''argumentsDelta'']
      \<or> (has_exact_keys c [''type'', ''index'', ''id'', ''name'', ''argumentsDelta'']
         \<and> is_jstr (jfield ''name'' c))"
    by (auto simp: classify_chunk_def Let_def split: option.splits json.splits if_splits)
  have "jget ''name'' c = None" if "has_exact_keys c [''type'', ''index'', ''id'', ''argumentsDelta'']"
    using has_exact_keys_jget [OF that, of "''name''"] by simp
  moreover have "\<exists>t. jget ''name'' c = Some (JStr t)"
    if "has_exact_keys c [''type'', ''index'', ''id'', ''name'', ''argumentsDelta'']" "is_jstr (jfield ''name'' c)"
    using has_exact_keys_jget [OF that(1), of "''name''"] that(2) by (auto simp: is_jstr_conv)
  ultimately show "has_exact_keys c (if jget ''name'' c = None then [''type'', ''index'', ''id'', ''argumentsDelta'']
           else [''type'', ''index'', ''id'', ''name'', ''argumentsDelta''])"
    and "jget ''name'' c = None \<or> (\<exists>t. jget ''name'' c = Some (JStr t))"
    using shape by auto
  show "jfield ''type'' c = JStr ''tool-call-delta''" "\<exists>t. jfield ''id'' c = JStr t"
    "\<exists>t. jfield ''argumentsDelta'' c = JStr t"
    using assms by (auto simp: classify_chunk_def Let_def is_jstr_conv jfield_def [of "''type''"]
        split: option.splits json.splits if_splits)
qed

lemma fragment_str: "classify e = Some kind \<Longrightarrow> \<exists>t. fragment kind e = JStr t"
  using classify_Some(10) [of e kind] classify_chunk_text(3) [of "chunk_of e" kind]
    classify_chunk_call(4) [of "chunk_of e"]
  by (auto simp: fragment_def)

lemma seq_of_classified: "classify e = Some kind \<Longrightarrow> \<exists>n. seq_of e = JInt (int n) \<and> int n \<le> MAX_SAFE_INTEGER"
  using classify_Some(3) [of e kind] by (auto simp: seq_of_def)

section \<open>The members of a packed row\<close>

lemma build_row_fields [simp]:
  "jget ''type'' (build_row kind run) = Some (JStr (row_tag kind))"
  "jfield ''type'' (build_row kind run) = JStr (row_tag kind)"
  "jfield ''seq0'' (build_row kind run) = JNum (seq_of (hd run))"
  "jfield ''time0'' (build_row kind run) = JNum (time_of (hd run))"
  "has_exact_keys (build_row kind run) [''type'', ''seq0'', ''time0'', ''data'']"
  "is_record (build_row kind run)"
  by (simp_all add: build_row_def Let_def jfield_def has_exact_keys_def is_record_def)

lemma build_row_data [simp]:
  "jfield ''turn'' (jfield ''data'' (build_row kind run)) = JNum (turn_of (hd run))"
  "jfield ''step'' (jfield ''data'' (build_row kind run)) = JNum (step_of (hd run))"
  "jfield ''index'' (jfield ''data'' (build_row kind run)) = JNum (block_index_of (hd run))"
  "jfield ''dt'' (jfield ''data'' (build_row kind run)) = JArr (map JNum (gaps run))"
  "is_record (jfield ''data'' (build_row kind run))"
  by (simp_all add: build_row_def Let_def jfield_def is_record_def)

lemma build_row_text [simp]:
  assumes "kind \<noteq> ToolCallDeltaKind"
  shows "jfield ''texts'' (jfield ''data'' (build_row kind run)) = JArr (map (fragment kind) run)"
    and "has_exact_keys (jfield ''data'' (build_row kind run)) [''turn'', ''step'', ''index'', ''dt'', ''texts'']"
  using assms by (simp_all add: build_row_def Let_def jfield_def has_exact_keys_def)

lemma build_row_call [simp]:
  "jfield ''args'' (jfield ''data'' (build_row ToolCallDeltaKind run)) = JArr (map (fragment ToolCallDeltaKind) run)"
  "jfield ''id'' (jfield ''data'' (build_row ToolCallDeltaKind run)) = jfield ''id'' (chunk_of (hd run))"
  "jget ''name'' (jfield ''data'' (build_row ToolCallDeltaKind run)) = jget ''name'' (chunk_of (hd run))"
  "has_exact_keys (jfield ''data'' (build_row ToolCallDeltaKind run)) [''turn'', ''step'', ''index'', ''id'', ''dt'', ''args'']
     \<longleftrightarrow> jget ''name'' (chunk_of (hd run)) = None"
  "has_exact_keys (jfield ''data'' (build_row ToolCallDeltaKind run)) [''turn'', ''step'', ''index'', ''id'', ''name'', ''dt'', ''args'']
     \<longleftrightarrow> jget ''name'' (chunk_of (hd run)) \<noteq> None"
  by (cases "jget ''name'' (chunk_of (hd run))";
      simp add: build_row_def Let_def jfield_def has_exact_keys_def opt_field_def)+

definition same_block :: "delta_kind \<Rightarrow> json \<Rightarrow> json \<Rightarrow> bool" where
  "same_block kind a e \<longleftrightarrow>
     num_eq (turn_of a) (turn_of e) \<and> num_eq (step_of a) (step_of e) \<and> num_eq (block_index_of a) (block_index_of e)
     \<and> (kind = ToolCallDeltaKind \<longrightarrow> jget ''id'' (chunk_of a) = jget ''id'' (chunk_of e)
          \<and> jget ''name'' (chunk_of a) = jget ''name'' (chunk_of e))"

lemma same_block_refl [simp]: "same_block kind a a"
  by (simp add: same_block_def)

lemma same_block_step: "same_block kind a b \<Longrightarrow> continues b c kind \<Longrightarrow> same_block kind a c"
  by (auto simp: same_block_def continues_def num_eq_sym elim: num_eq_trans)

lemma member_chunk_equal:
  assumes "classify e = Some kind" and "same_block kind (hd run) e"
  shows "is_deep_equal_json (member_chunk (build_row kind run) (fragment kind e)) (chunk_of e)"
proof (cases "kind = ToolCallDeltaKind")
  case True
  note call = classify_chunk_call [OF classify_Some(10) [OF assms(1), unfolded True]]
  have same: "jfield ''id'' (chunk_of (hd run)) = jfield ''id'' (chunk_of e)"
    "jget ''name'' (chunk_of (hd run)) = jget ''name'' (chunk_of e)"
    "num_eq (block_index_of (hd run)) (block_index_of e)"
    using assms(2) True by (auto simp: same_block_def jfield_def)
  have chunk: "member_chunk (build_row kind run) (fragment kind e) =
      JObj ([(''type'', JStr ''tool-call-delta''), (''index'', JNum (block_index_of (hd run))),
             (''id'', jfield ''id'' (chunk_of e))]
        @ opt_field ''name'' (jget ''name'' (chunk_of e)) @ [(''argumentsDelta'', fragment kind e)])"
    using same True by (simp add: member_chunk_def Let_def)
  show ?thesis unfolding chunk
  proof (rule deep_equal_by_keys)
    show "has_exact_keys (chunk_of e) (map fst ([(''type'', JStr ''tool-call-delta''),
        (''index'', JNum (block_index_of (hd run))), (''id'', jfield ''id'' (chunk_of e))]
        @ opt_field ''name'' (jget ''name'' (chunk_of e)) @ [(''argumentsDelta'', fragment kind e)]))"
      using call(1) by (cases "jget ''name'' (chunk_of e)") (simp_all add: opt_field_def)
    show "is_deep_equal_json v (jfield k (chunk_of e))"
      if "(k, v) \<in> set ([(''type'', JStr ''tool-call-delta''),
        (''index'', JNum (block_index_of (hd run))), (''id'', jfield ''id'' (chunk_of e))]
        @ opt_field ''name'' (jget ''name'' (chunk_of e)) @ [(''argumentsDelta'', fragment kind e)])" for k v
      using that call(2-5) same(3) True classify_Some(9) [OF assms(1)]
      by (auto simp: opt_field_def fragment_def jfield_def [of "''name''"] split: option.splits)
  qed simp
next
  case False
  note delta = classify_chunk_text [OF classify_Some(10) [OF assms(1)] False]
  have chunk: "member_chunk (build_row kind run) (fragment kind e) =
      JObj [(''type'', JStr (delta_tag kind)), (''index'', JNum (block_index_of (hd run))), (''text'', fragment kind e)]"
    using False by (cases kind) (simp_all add: member_chunk_def Let_def)
  show ?thesis unfolding chunk
    using delta classify_Some(9) [OF assms(1)] assms(2) False
    by (intro deep_equal_by_keys) (auto simp: same_block_def fragment_def)
qed

lemma member_event_equal:
  assumes "classify e = Some kind" and "same_block kind (hd run) e"
    and "num_eq t (time_of e)" and "jfield ''seq'' e = jint (int n)"
  shows "is_deep_equal_json (member_event (build_row kind run) n t (fragment kind e)) e"
proof -
  note c = classify_Some [OF assms(1)]
  have "is_deep_equal_json (JObj [(''turn'', JNum (turn_of (hd run))), (''step'', JNum (step_of (hd run))),
      (''chunk'', member_chunk (build_row kind run) (fragment kind e))]) (jfield ''data'' e)"
    using c(6-8) assms(2) member_chunk_equal [OF assms(1,2)]
    by (intro deep_equal_by_keys) (auto simp: same_block_def chunk_of_def)
  with c assms show ?thesis
    unfolding member_event_def Let_def
    by (intro deep_equal_by_keys) (auto simp: jfield_def [of "''type''"])
qed

section \<open>Times\<close>

lemma round_double_small [simp]: "\<bar>i\<bar> \<le> MAX_SAFE_INTEGER \<Longrightarrow> round_double i = i"
  by (simp add: round_double_def MAX_SAFE_INTEGER_def)

text \<open>
  The safe-integer test on a rounded difference is exact: rounding to a double never
  brings an out-of-range time gap back into the safe range, nor a gap in range out of it.
\<close>

theorem rounded_gap_check_exact:
  "is_safe_integer (JInt (round_double i)) \<longleftrightarrow> is_safe_integer (JInt i)"
  by (auto simp: round_double_def MAX_SAFE_INTEGER_def)

lemma time_gap:
  assumes "is_safe_integer a" and "is_safe_integer b" and "is_safe_integer (num_sub a b)" and "num_eq t b"
  shows "num_eq (num_add t (num_sub a b)) a"
proof (cases "\<exists>i j. a = JInt i \<and> b = JInt j")
  case True
  then obtain i j where ab: "a = JInt i" "b = JInt j" by blast
  with assms(3) have "is_safe_integer (JInt (i - j))" by (simp add: rounded_gap_check_exact del: is_safe_integer.simps)
  then have "round_double (i - j) = i - j" by (intro round_double_small) auto
  moreover have "round_double i = i" using assms(1) ab by (intro round_double_small) auto
  ultimately show ?thesis using ab assms(4) by (cases t) auto
next
  case False
  with assms show ?thesis by (cases a; cases b; cases t) (auto split: if_splits)
qed

lemma safe_num_eq: "num_eq a b \<Longrightarrow> is_safe_integer b \<Longrightarrow> is_safe_integer a"
  by (cases a; cases b) (auto simp: MAX_SAFE_INTEGER_def)

section \<open>Runs\<close>

definition valid_run :: "delta_kind \<Rightarrow> json list \<Rightarrow> bool" where
  "valid_run kind run \<longleftrightarrow>
     run \<noteq> [] \<and> (\<forall>e \<in> set run. classify e = Some kind) \<and> successively (\<lambda>a b. continues a b kind) run"

lemma valid_run_nth:
  assumes "valid_run kind run" and "i < length run"
  shows "classify (run ! i) = Some kind"
    and "Suc i < length run \<Longrightarrow> continues (run ! i) (run ! Suc i) kind"
  using assms by (auto simp: valid_run_def successively_conv_nth)

lemma continues_seq:
  assumes "continues a b kind" and "seq_of a = JInt (int m)" and "int m \<le> MAX_SAFE_INTEGER" and "classify b = Some kind"
  shows "seq_of b = JInt (int (m + 1))"
proof -
  have "round_double (int m + 1) = int m + 1" using assms(3) by (simp add: round_double_def MAX_SAFE_INTEGER_def)
  with assms seq_of_classified [OF assms(4)] show ?thesis by (auto simp: continues_def)
qed

lemma run_members:
  assumes "valid_run kind run" and "seq_of (hd run) = JInt (int s)"
  shows "i < length run \<Longrightarrow> same_block kind (hd run) (run ! i) \<and> seq_of (run ! i) = JInt (int (s + i))
    \<and> int (s + i) \<le> MAX_SAFE_INTEGER"
proof (induction i)
  case 0
  then show ?case using assms seq_of_classified [OF valid_run_nth(1) [OF assms(1), of 0]]
    by (auto simp: valid_run_def hd_conv_nth)
next
  case (Suc i)
  then have IH: "same_block kind (hd run) (run ! i)" "seq_of (run ! i) = JInt (int (s + i))"
    "int (s + i) \<le> MAX_SAFE_INTEGER" by auto
  have cont: "continues (run ! i) (run ! Suc i) kind" and cl: "classify (run ! Suc i) = Some kind"
    using valid_run_nth [OF assms(1)] Suc by auto
  from continues_seq [OF cont IH(2,3) cl] seq_of_classified [OF cl] same_block_step [OF IH(1) cont]
  show ?case by auto
qed

lemma gaps_nth: "Suc i < length run \<Longrightarrow> gaps run ! i = num_sub (time_of (run ! Suc i)) (time_of (run ! i))"
  by (simp add: gaps_def nth_tl)

lemma length_gaps [simp]: "length (gaps run) = length run - 1"
  by (simp add: gaps_def)

lemma gap_step:
  assumes "valid_run kind run" and "Suc i < length run" and "num_eq t (time_of (run ! i))"
  shows "is_safe_integer (gaps run ! i)" and "num_eq (num_add t (gaps run ! i)) (time_of (run ! Suc i))"
proof -
  have cont: "continues (run ! i) (run ! Suc i) kind" using valid_run_nth(2) [OF assms(1)] assms(2) by simp
  have safe: "is_safe_integer (time_of (run ! i))" "is_safe_integer (time_of (run ! Suc i))"
    using classify_Some(5) valid_run_nth(1) [OF assms(1)] assms(2) by (metis Suc_lessD)+
  from cont show "is_safe_integer (gaps run ! i)" using gaps_nth [OF assms(2)] by (simp add: continues_def)
  then show "num_eq (num_add t (gaps run ! i)) (time_of (run ! Suc i))"
    using time_gap [OF safe(2,1) _ assms(3)] gaps_nth [OF assms(2)] by simp
qed

lemma run_times_ok:
  assumes "valid_run kind run"
  shows "k \<le> length run - 1 \<Longrightarrow> num_eq t (time_of (run ! k)) \<Longrightarrow>
    \<exists>t'. fold_result (advance_time tag) (map JNum (drop k (gaps run))) t = Inr t'"
proof (induction "length run - 1 - k" arbitrary: k t)
  case 0
  then show ?case by simp
next
  case (Suc n)
  then have k: "Suc k < length run" by simp
  have "num_eq (num_add t (gaps run ! k)) (time_of (run ! Suc k))"
    by (rule gap_step(2) [OF assms k Suc.prems(2)])
  moreover from this have "is_safe_integer (num_add t (gaps run ! k))"
    using safe_num_eq classify_Some(5) valid_run_nth(1) [OF assms k] by blast
  moreover have "drop k (gaps run) = gaps run ! k # drop (Suc k) (gaps run)"
    using k by (intro Cons_nth_drop_Suc [symmetric]) simp
  ultimately show ?case
    using Suc.hyps(1) [of "Suc k" "num_add t (gaps run ! k)"] Suc.hyps(2) k
    by (simp add: advance_time_def Let_def)
qed

lemma run_payload_ok:
  assumes "valid_run kind run"
  shows "validate_payload (row_tag kind) (jfield ''data'' (build_row kind run)) = Inr (map (fragment kind) run)"
proof -
  have ne: "run \<noteq> []" using assms by (simp add: valid_run_def)
  have strs: "list_all is_jstr (map (fragment kind) run)"
    using assms fragment_str by (fastforce simp: valid_run_def list_all_iff is_jstr_conv)
  have safe: "is_safe_integer g" if "g \<in> set (gaps run)" for g
  proof -
    from that obtain i where "i < length run - 1" "g = gaps run ! i" by (auto simp: in_set_conv_nth)
    then show ?thesis using gap_step(1) [OF assms, of i "time_of (run ! i)"] by (cases "time_of (run ! i)") auto
  qed
  have data: "validate_run_data (row_tag kind) (jfield ''data'' (build_row kind run)) key = Inr (map (fragment kind) run)"
    if "jfield key (jfield ''data'' (build_row kind run)) = JArr (map (fragment kind) run)" for key
    using ne strs safe that by (auto simp: validate_run_data_def Let_def list_all_iff)
  show ?thesis
  proof (cases "kind = ToolCallDeltaKind")
    case True
    have "classify_chunk (chunk_of (hd run)) = Some ToolCallDeltaKind"
      using assms True classify_Some(10) by (auto simp: valid_run_def)
    from classify_chunk_call(3,5) [OF this] show ?thesis
      using True data [of "''args''"]
      by (auto simp: validate_payload_def Let_def jfield_def [of "''name''"])
  next
    case False
    then show ?thesis using data [of "''texts''"] by (cases kind) (simp_all add: validate_payload_def)
  qed
qed

lemma run_row_valid:
  assumes "valid_run kind run"
  shows "validate_row (build_row kind run) (row_tag kind) = Inr (build_row kind run)"
proof -
  have ne: "run \<noteq> []" and cl: "classify (hd run) = Some kind"
    using assms by (auto simp: valid_run_def)
  obtain s where s: "seq_of (hd run) = JInt (int s)" "int s \<le> MAX_SAFE_INTEGER"
    using seq_of_classified [OF cl] by blast
  have "int (s + (length run - 1)) \<le> MAX_SAFE_INTEGER"
    using run_members [OF assms s(1), of "length run - 1"] ne by simp
  then have "\<not> int (length run) - 1 > MAX_SAFE_INTEGER - int s" using ne by (cases run) auto
  moreover obtain t' where "fold_result (advance_time (row_tag kind)) (map JNum (gaps run)) (time_of (hd run)) = Inr t'"
    using run_times_ok [OF assms, of 0 "time_of (hd run)"] ne by (auto simp: hd_conv_nth)
  ultimately show ?thesis
    using s classify_Some(5) [OF cl] run_payload_ok [OF assms]
    by (simp add: validate_row_def Let_def session_seq_int)
qed

lemma run_expands:
  assumes "valid_run kind run" and "seq_of (hd run) = JInt (int s)"
  shows "k \<le> length run \<Longrightarrow> num_eq t (time_of (run ! (k - 1))) \<Longrightarrow>
    \<exists>out. expand_members (build_row kind run) k t (map (fragment kind) (drop k run)) = Inr out
        \<and> list_all2 is_deep_equal_json out (drop k run)"
proof (induction "length run - k" arbitrary: k t)
  case 0
  then show ?case by simp
next
  case (Suc n)
  then have k: "k < length run" and n: "n = length run - Suc k" by simp_all
  define t' where "t' = (if k > 0 then num_add t (gaps run ! (k - 1)) else t)"
  have t': "num_eq t' (time_of (run ! k))"
    using gap_step(2) [OF assms(1), of "k - 1" t] Suc.prems k by (cases k) (auto simp: t'_def)
  note m = run_members [OF assms k]
  have "classify (run ! k) = Some kind" using valid_run_nth(1) [OF assms(1) k] .
  then have seq: "jfield ''seq'' (run ! k) = jint (int (s + k))"
    using m classify_Some(3) by (fastforce simp: seq_of_def)
  have eq: "is_deep_equal_json (member_event (build_row kind run) (s + k) t' (fragment kind (run ! k))) (run ! k)"
    using m valid_run_nth(1) [OF assms(1) k] t' seq by (intro member_event_equal) auto
  have brand: "session_seq (num_add (JInt (int s)) (JInt (int k))) = Inr (s + k)"
    using m session_seq_int [of "s + k"] by simp
  obtain out where "expand_members (build_row kind run) (Suc k) t' (map (fragment kind) (drop (Suc k) run)) = Inr out"
    "list_all2 is_deep_equal_json out (drop (Suc k) run)"
    using Suc.hyps(1) [OF n, of t'] t' k by auto
  moreover have "drop k run = run ! k # drop (Suc k) run" using k by (simp add: Cons_nth_drop_Suc)
  ultimately show ?case using eq brand assms(2) k by (auto simp: t'_def)
qed

lemma run_decodes:
  assumes "valid_run kind run"
  shows "\<exists>out. decode_storage_record (build_row kind run) = Inr out \<and> list_all2 is_deep_equal_json out run"
proof -
  have ne: "run \<noteq> []" and cl: "classify (hd run) = Some kind"
    using assms by (auto simp: valid_run_def)
  obtain s where s: "seq_of (hd run) = JInt (int s)" using seq_of_classified [OF cl] by blast
  have "\<exists>out. expand_row (build_row kind run) = Inr out \<and> list_all2 is_deep_equal_json out run"
    using run_expands [OF assms s, of 0 "time_of (hd run)"] ne
    by (cases kind) (auto simp: expand_row_def Let_def hd_conv_nth)
  moreover have "row_tag kind \<in> set row_tags" by (cases kind) (simp_all add: row_tags_def)
  ultimately show ?thesis using run_row_valid [OF assms] by (simp add: decode_storage_record_def)
qed

section \<open>The round trip\<close>

lemma is_deep_equal_refl: "wf_json e \<Longrightarrow> is_deep_equal_json e e"
  using is_deep_equal_canon(1) by blast

lemma decode_records_snoc:
  "decode_records (vs @ [v]) =
     and_then (decode_records vs) (\<lambda>acc. and_then (decode_storage_record v) (\<lambda>es. Inr (acc @ es)))"
  by (simp add: decode_records_def fold_result_snoc)

text \<open>Records that read back as the events they stand for.\<close>

definition decodes_to :: "json list \<Rightarrow> json list \<Rightarrow> bool" where
  "decodes_to vs es \<longleftrightarrow> (\<exists>out. decode_records vs = Inr out \<and> list_all2 is_deep_equal_json out es)"

lemma decodes_to_Nil [simp]: "decodes_to [] []"
  by (simp add: decodes_to_def decode_records_def)

lemma decodes_to_snoc:
  assumes "decodes_to vs es" and "decode_storage_record v = Inr out" and "list_all2 is_deep_equal_json out fs"
  shows "decodes_to (vs @ [v]) (es @ fs)"
  using assms by (auto simp: decodes_to_def decode_records_snoc intro: list_all2_appendI)

definition storable :: "json \<Rightarrow> bool" where
  "storable e \<longleftrightarrow> wf_json e \<and> decode_storage_record e = Inr [e]"

lemma decodes_to_verbatim:
  "decodes_to vs es \<Longrightarrow> \<forall>f \<in> set fs. storable f \<Longrightarrow> decodes_to (vs @ fs) (es @ fs)"
proof (induction fs arbitrary: vs es)
  case Nil
  then show ?case by simp
next
  case (Cons f fs)
  then have "decodes_to (vs @ [f]) (es @ [f])"
    by (intro decodes_to_snoc) (auto simp: storable_def is_deep_equal_refl)
  with Cons show ?case by fastforce
qed

definition pack_inv :: "json list \<Rightarrow> pack_state \<Rightarrow> bool" where
  "pack_inv es st \<longleftrightarrow>
     (\<exists>done. es = done @ pk_run st \<and> decodes_to (pk_out st) done)
     \<and> (pk_run st = [] \<or> (\<exists>k. pk_kind st = Some k \<and> valid_run k (pk_run st)))"

lemma pack_flush_inv:
  assumes "pack_inv es st" and "\<forall>e \<in> set es. storable e"
  shows "decodes_to (pk_out (pack_flush st)) es" and "pk_run (pack_flush st) = []"
proof -
  from assms obtain prev where d: "es = prev @ pk_run st" "decodes_to (pk_out st) prev"
    by (auto simp: pack_inv_def)
  have verbatim: "decodes_to (pk_out st @ pk_run st) es"
    using decodes_to_verbatim [OF d(2)] assms(2) d(1) by simp
  show "decodes_to (pk_out (pack_flush st)) es"
  proof (cases "pk_kind st")
    case None
    with verbatim show ?thesis by (simp add: pack_flush_def)
  next
    case (Some k)
    show ?thesis
    proof (cases "length (pk_run st) \<ge> MIN_RUN")
      case False
      with verbatim Some show ?thesis by (simp add: pack_flush_def)
    next
      case True
      then have "valid_run k (pk_run st)" using assms(1) Some by (auto simp: pack_inv_def MIN_RUN_def)
      from run_decodes [OF this] obtain out where
        "decode_storage_record (build_row k (pk_run st)) = Inr out" "list_all2 is_deep_equal_json out (pk_run st)" by blast
      with decodes_to_snoc [OF d(2)] True Some d(1) show ?thesis by (simp add: pack_flush_def)
    qed
  qed
  show "pk_run (pack_flush st) = []" by (simp add: pack_flush_def)
qed

lemma pack_step_inv:
  assumes "pack_inv es st" and "\<forall>x \<in> set (es @ [e]). storable x"
  shows "pack_inv (es @ [e]) (pack_step e st)"
proof -
  have fl: "decodes_to (pk_out (pack_flush st)) es" using pack_flush_inv(1) [OF assms(1)] assms(2) by simp
  show ?thesis
  proof (cases "classify e")
    case None
    have "decodes_to (pk_out (pack_flush st) @ [e]) (es @ [e])"
      using decodes_to_verbatim [OF fl, of "[e]"] assms(2) by simp
    with None show ?thesis by (simp add: pack_step_def pack_inv_def Let_def pack_flush_def)
  next
    case (Some k)
    show ?thesis
    proof (cases "pk_kind st = Some k \<and> pk_run st \<noteq> [] \<and> continues (last (pk_run st)) e k")
      case True
      with assms(1) Some have "valid_run k (pk_run st @ [e])"
        by (auto simp: pack_inv_def valid_run_def successively_append_iff)
      with True Some assms(1) show ?thesis by (auto simp: pack_step_def pack_inv_def)
    next
      case False
      have "valid_run k [e]" using Some by (simp add: valid_run_def)
      with False Some fl show ?thesis by (auto simp: pack_step_def pack_inv_def)
    qed
  qed
qed

text \<open>
  Claim C13. Packing a batch and reading the stored lines back gives the batch: for storable
  events (distinct keys, a valid sequence number, a type that is not a row tag) every stored
  line decodes, and the decoded events are, one for one, structurally equal to the originals.
\<close>

theorem chunk_rows_roundtrip:
  assumes "\<forall>e \<in> set events. storable e"
  shows "\<exists>out. decode_records (pack_chunk_runs events) = Inr out \<and> list_all2 is_deep_equal_json out events"
proof -
  let ?init = "\<lparr>pk_out = [], pk_kind = None, pk_run = []\<rparr>"
  have "pack_inv events (fold pack_step events ?init)"
    using assms
  proof (induction events rule: rev_induct)
    case Nil
    then show ?case by (simp add: pack_inv_def)
  next
    case (snoc e es)
    then show ?case by (simp add: pack_step_inv)
  qed
  from pack_flush_inv(1) [OF this assms] show ?thesis by (simp add: pack_chunk_runs_def decodes_to_def)
qed

text \<open>Three tokens of one text block, and the end of the block.\<close>

definition chunk_example :: "json list" where
  "chunk_example =
     map (\<lambda>(s, t, x). event_json (\<lparr>ev_payload = AssistantChunk 0 0 (TextDelta 1 x), ev_seq = s, ev_time = t,
            ev_surface_op = None, ev_sources = None, ev_ignorable = False\<rparr>))
       [(4, 100, ''a''), (5, 103, ''b''), (6, 101, ''c'')]
     @ [event_json (log_event (AssistantChunk 0 0 (BlockEnd 1 (TextBlock ''abc''))) 7)]"

theorem chunk_rows_roundtrip_witness:
  "length (pack_chunk_runs chunk_example) = 2
   \<and> (\<exists>out. decode_records (pack_chunk_runs chunk_example) = Inr out \<and> list_all2 is_deep_equal_json out chunk_example)"
proof
  show "length (pack_chunk_runs chunk_example) = 2" by code_simp
  have "list_all storable chunk_example" by code_simp
  then show "\<exists>out. decode_records (pack_chunk_runs chunk_example) = Inr out \<and> list_all2 is_deep_equal_json out chunk_example"
    by (intro chunk_rows_roundtrip) (simp add: list_all_iff)
qed

section \<open>Decoding untrusted rows\<close>

lemma expand_members_ok:
  assumes "num_of (jfield ''seq0'' row) = JInt (int s)"
  shows "int (s + k + length ms) \<le> MAX_SAFE_INTEGER + 1 \<Longrightarrow>
    \<exists>out. expand_members row k t ms = Inr out \<and> length out = length ms
      \<and> (\<forall>i < length ms. jfield ''seq'' (out ! i) = jint (int (s + k + i)))"
proof (induction ms arbitrary: k t)
  case Nil
  then show ?case by simp
next
  case (Cons m ms)
  have brand: "session_seq (num_add (JInt (int s)) (JInt (int k))) = Inr (s + k)"
    using Cons.prems session_seq_int [of "s + k"] by simp
  from Cons.IH [of "k + 1" "if k > 0 then num_add t (num_of (items_of (jfield ''dt'' (jfield ''data'' row)) ! (k - 1))) else t"]
    Cons.prems obtain out where
    "expand_members row (k + 1) (if k > 0 then num_add t (num_of (items_of (jfield ''dt'' (jfield ''data'' row)) ! (k - 1))) else t) ms = Inr out"
    "length out = length ms" "\<forall>i < length ms. jfield ''seq'' (out ! i) = jint (int (s + (k + 1) + i))" by auto
  moreover have "jfield ''seq'' (member_event row (s + k) t' m) = jint (int (s + k))" for t'
    by (simp add: member_event_def Let_def jfield_def)
  ultimately show ?case using brand assms
    by (auto simp: Let_def nth_Cons split: nat.splits)
qed

lemma validate_row_Inr:
  assumes "validate_row v tag = Inr w"
  shows "w = v" and "\<exists>s. jfield ''seq0'' v = jint (int s) \<and> (\<exists>payload.
     validate_payload tag (jfield ''data'' v) = Inr payload \<and> payload \<noteq> []
     \<and> int (s + length payload) \<le> MAX_SAFE_INTEGER + 1)"
proof -
  show "w = v" using assms by (auto simp: validate_row_def Let_def and_then_Inr_iff split: if_splits)
  from assms obtain s payload where s: "safe_nat (jfield ''seq0'' v) = Some s"
    and p: "validate_payload tag (jfield ''data'' v) = Inr payload"
    and b: "\<not> int (length payload) - 1 > MAX_SAFE_INTEGER - jnum_int (num_of (jfield ''seq0'' v))"
    by (auto simp: validate_row_def Let_def and_then_Inr_iff split: if_splits)
  have "payload \<noteq> []" using p by (auto simp: validate_payload_def validate_run_data_def Let_def split: if_splits)
  with s p b show "\<exists>s. jfield ''seq0'' v = jint (int s) \<and> (\<exists>payload.
     validate_payload tag (jfield ''data'' v) = Inr payload \<and> payload \<noteq> []
     \<and> int (s + length payload) \<le> MAX_SAFE_INTEGER + 1)"
    by (auto simp: safe_nat_Some_iff)
qed

lemma validate_payload_members:
  assumes "validate_payload tag data = Inr payload"
  shows "payload = items_of (if tag = ''tool-call-chunks'' then jfield ''args'' data else jfield ''texts'' data)"
  using assms by (auto simp: validate_payload_def validate_run_data_def Let_def split: if_splits)

text \<open>
  A row that passes validation always expands, to as many events as the row says it
  holds and at least one, carrying consecutive sequence numbers that are all safe integers: an
  untrusted row can be rejected, but never half expanded or expanded past the safe range.
\<close>

theorem validated_row_expands:
  assumes "is_chunk_row v" and "jfield ''type'' v = JStr tag" and "validate_row v tag = Inr w"
  shows "\<exists>s out. jfield ''seq0'' v = jint (int s) \<and> decode_storage_record v = Inr out
    \<and> length out = chunk_row_length v \<and> out \<noteq> []
    \<and> (\<forall>i < length out. jfield ''seq'' (out ! i) = jint (int (s + i)) \<and> int (s + i) \<le> MAX_SAFE_INTEGER)"
proof -
  have w: "w = v" by (rule validate_row_Inr(1) [OF assms(3)])
  from validate_row_Inr(2) [OF assms(3)] obtain s payload where s: "jfield ''seq0'' v = jint (int s)"
    and p: "validate_payload tag (jfield ''data'' v) = Inr payload" "payload \<noteq> []"
    and b: "int (s + length payload) \<le> MAX_SAFE_INTEGER + 1" by blast
  have members: "payload = items_of (if jfield ''type'' v = JStr ''tool-call-chunks''
      then jfield ''args'' (jfield ''data'' v) else jfield ''texts'' (jfield ''data'' v))"
    using validate_payload_members [OF p(1)] assms(2) by simp
  from expand_members_ok [of v s 0 payload "num_of (jfield ''time0'' v)"] s b obtain out where
    out: "expand_members v 0 (num_of (jfield ''time0'' v)) payload = Inr out" "length out = length payload"
      "\<forall>i < length payload. jfield ''seq'' (out ! i) = jint (int (s + i))" by auto
  have "expand_row v = Inr out" using out(1) members by (simp add: expand_row_def Let_def)
  moreover have "is_record v" and "jget ''type'' v = Some (JStr tag)" and "tag \<in> set row_tags"
    using assms(1,2) by (cases v; auto simp: is_chunk_row_def is_record_def jfield_def split: option.splits json.splits)+
  ultimately have "decode_storage_record v = Inr out"
    using assms(3) w by (simp add: decode_storage_record_def)
  moreover have "length payload = chunk_row_length v" using members by (auto simp: chunk_row_length_def)
  moreover have "\<forall>i < length out. int (s + i) \<le> MAX_SAFE_INTEGER" using b out(2) by auto
  ultimately show ?thesis using out(2,3) s p(2) by auto
qed

theorem validated_row_expands_witness:
  "\<exists>out. decode_storage_record (hd (pack_chunk_runs chunk_example)) = Inr out \<and> length out = 3"
proof -
  let ?v = "hd (pack_chunk_runs chunk_example)"
  have "is_chunk_row ?v" "jfield ''type'' ?v = JStr ''text-chunks''" "is_ok (validate_row ?v ''text-chunks'')"
    "chunk_row_length ?v = 3" by code_simp+
  then show ?thesis using validated_row_expands [of ?v "''text-chunks''"] by (auto simp: is_ok_iff)
qed

end
