(* ===== verification/Session_Trace.thy ===== *)
theory Session_Trace
  imports Session_Types
begin

text \<open>
  \<open>packages/core/session/src/invariant.ts\<close>: the relational checks on a session log. A trace
  per session remembers the open turn and step, the numbers the next ones must carry and the
  tool calls still waiting for a result. Validating an event is pure and yields a transition;
  the transition is applied when the event commits.
\<close>

section \<open>Traces and transitions\<close>

definition TOOL_NOT_STARTED :: string where
  "TOOL_NOT_STARTED = ''TOOL_NOT_STARTED''"

definition TOOL_OUTCOME_UNKNOWN :: string where
  "TOOL_OUTCOME_UNKNOWN = ''TOOL_OUTCOME_UNKNOWN''"

datatype trace_error =
    SeqNotIncreasing nat int
  | TurnStartWhileOpen int int
  | TurnStartExpected int int
  | TurnEndMismatch int "int option"
  | TurnEndInStep int int
  | StepStartOutsideTurn int "int option"
  | StepStartWhileOpen int int
  | StepStartExpected int int int
  | NotInOpenStep string int int "int option" "int option"
  | ReplacementOutsideTurn
  | ResultWithoutCall string
  | OutsideTurn string
  | NotStaged

record session_trace =
  last_seq :: int
  open_turn :: "int option"
  open_step :: "int option"
  next_turn :: int
  next_step :: int
  pending_calls :: "string set"

datatype pending_change = PendNone | PendAdd string | PendDelete string | PendClear

record trace_transition =
  to_seq :: nat
  to_turn :: "int option"
  to_step :: "int option"
  to_next_turn :: int
  to_next_step :: int
  to_pending :: pending_change

definition fresh_trace :: session_trace where
  "fresh_trace =
     \<lparr>last_seq = -1, open_turn = None, open_step = None, next_turn = 1, next_step = 1, pending_calls = {}\<rparr>"

definition require_open_step :: "session_trace \<Rightarrow> string \<Rightarrow> int \<Rightarrow> int \<Rightarrow> (trace_error, unit) result" where
  "require_open_step tr kind turn step =
     reject_if (open_turn tr \<noteq> Some turn \<or> open_step tr \<noteq> Some step)
       (NotInOpenStep kind turn step (open_turn tr) (open_step tr))"

text \<open>The transition that only moves the last sequence number.\<close>

definition stay :: "session_trace \<Rightarrow> session_event \<Rightarrow> trace_transition" where
  "stay tr e =
     \<lparr>to_seq = ev_seq e, to_turn = open_turn tr, to_step = open_step tr,
      to_next_turn = next_turn tr, to_next_step = next_step tr, to_pending = PendNone\<rparr>"

definition validate_tool_result ::
    "session_trace \<Rightarrow> session_event \<Rightarrow> tool_result_data \<Rightarrow> (trace_error, trace_transition) result" where
  "validate_tool_result tr e d =
     (if ev_surface_op e \<noteq> Some append_op then
        and_then (reject_if (open_turn tr = None) ReplacementOutsideTurn) (\<lambda>_. Inr (stay tr e))
      else and_then (require_open_step tr ''tool/result'' (res_turn d) (res_step d)) (\<lambda>_.
        let call_id = tr_call_id (res_message d);
            synthetic_not_started = tr_is_error (res_message d) = Some True
              \<and> map_option snd (res_error d) = Some TOOL_NOT_STARTED
        in and_then (reject_if (call_id \<notin> pending_calls tr \<and> \<not> synthetic_not_started)
                       (ResultWithoutCall call_id)) (\<lambda>_.
             Inr ((stay tr e)\<lparr>to_pending := PendDelete call_id\<rparr>))))"

definition validate_payload_relation ::
    "session_trace \<Rightarrow> session_event \<Rightarrow> (trace_error, trace_transition) result" where
  "validate_payload_relation tr e =
     (case ev_payload e of
        TurnStart t \<Rightarrow>
          (case open_turn tr of
             Some t0 \<Rightarrow> Inl (TurnStartWhileOpen t t0)
           | None \<Rightarrow> if t \<noteq> next_turn tr then Inl (TurnStartExpected (next_turn tr) t)
                     else Inr ((stay tr e)\<lparr>to_turn := Some t, to_next_step := 1\<rparr>))
      | TurnEnd t r \<Rightarrow>
          if open_turn tr \<noteq> Some t then Inl (TurnEndMismatch t (open_turn tr))
          else (case open_step tr of
                  Some s \<Rightarrow> Inl (TurnEndInStep t s)
                | None \<Rightarrow> Inr ((stay tr e)\<lparr>to_turn := None, to_next_turn := next_turn tr + 1\<rparr>))
      | StepStart t s \<Rightarrow>
          if open_turn tr \<noteq> Some t then Inl (StepStartOutsideTurn t (open_turn tr))
          else (case open_step tr of
                  Some s0 \<Rightarrow> Inl (StepStartWhileOpen s s0)
                | None \<Rightarrow> if s \<noteq> next_step tr then Inl (StepStartExpected (next_step tr) t s)
                          else Inr ((stay tr e)\<lparr>to_step := Some s\<rparr>))
      | StepEnd t s \<Rightarrow>
          and_then (require_open_step tr ''step/end'' t s) (\<lambda>_.
            Inr ((stay tr e)\<lparr>to_pending := PendClear, to_step := None, to_next_step := next_step tr + 1\<rparr>))
      | AssistantChunk t s c \<Rightarrow>
          and_then (require_open_step tr ''assistant/chunk'' t s) (\<lambda>_. Inr (stay tr e))
      | AssistantMessageEvent d \<Rightarrow>
          and_then (require_open_step tr ''assistant/message'' (asst_turn d) (asst_step d)) (\<lambda>_. Inr (stay tr e))
      | ToolCallEvent t s c n a \<Rightarrow>
          and_then (require_open_step tr ''tool/call'' t s) (\<lambda>_. Inr ((stay tr e)\<lparr>to_pending := PendAdd c\<rparr>))
      | ToolResultEvent d \<Rightarrow> validate_tool_result tr e d
      | RequestHeader h r s \<Rightarrow>
          and_then (reject_if (open_turn tr = None) (OutsideTurn ''request/header'')) (\<lambda>_. Inr (stay tr e))
      | RequestContextEvent c \<Rightarrow>
          and_then (reject_if (open_turn tr = None) (OutsideTurn ''request/context'')) (\<lambda>_. Inr (stay tr e))
      | _ \<Rightarrow> Inr (stay tr e))"

definition validate_event :: "session_trace \<Rightarrow> session_event \<Rightarrow> (trace_error, trace_transition) result" where
  "validate_event tr e =
     and_then (reject_if (int (ev_seq e) \<le> last_seq tr) (SeqNotIncreasing (ev_seq e) (last_seq tr))) (\<lambda>_.
       validate_payload_relation tr e)"

fun change_pending :: "pending_change \<Rightarrow> string set \<Rightarrow> string set" where
  "change_pending PendNone s = s"
| "change_pending (PendAdd c) s = insert c s"
| "change_pending (PendDelete c) s = s - {c}"
| "change_pending PendClear s = {}"

definition apply_transition :: "session_trace \<Rightarrow> trace_transition \<Rightarrow> session_trace" where
  "apply_transition tr t =
     \<lparr>last_seq = int (to_seq t), open_turn = to_turn t, open_step = to_step t,
      next_turn = to_next_turn t, next_step = to_next_step t,
      pending_calls = change_pending (to_pending t) (pending_calls tr)\<rparr>"

definition trace_step :: "session_event \<Rightarrow> session_trace \<Rightarrow> (trace_error, session_trace) result" where
  "trace_step e tr = and_then (validate_event tr e) (\<lambda>t. Inr (apply_transition tr t))"

text \<open>\<open>seedSession\<close>: the trace of a complete log.\<close>

definition seed_session :: "session_event list \<Rightarrow> (trace_error, session_trace) result" where
  "seed_session events = fold_result trace_step events fresh_trace"

section \<open>The companion: validate at dispatch, apply at commit\<close>

record companion =
  traces :: "(string \<times> session_trace) list"
  staged :: "((string \<times> session_event) \<times> trace_transition) list"

definition empty_companion :: companion where
  "empty_companion = \<lparr>traces = [], staged = []\<rparr>"

definition on_created :: "string \<Rightarrow> session_event list \<Rightarrow> companion \<Rightarrow> (trace_error, companion) result" where
  "on_created sid events c =
     and_then (seed_session events) (\<lambda>tr. Inr (c\<lparr>traces := (sid, tr) # traces c\<rparr>))"

text \<open>\<open>traceFor\<close>: the known trace, or one seeded from the session's log.\<close>

definition trace_for :: "string \<Rightarrow> session_event list \<Rightarrow> companion \<Rightarrow> (trace_error, companion \<times> session_trace) result" where
  "trace_for sid events c =
     (case map_of (traces c) sid of
        Some tr \<Rightarrow> Inr (c, tr)
      | None \<Rightarrow> and_then (seed_session events) (\<lambda>tr. Inr (c\<lparr>traces := (sid, tr) # traces c\<rparr>, tr)))"

definition on_dispatch ::
    "string \<Rightarrow> session_event list \<Rightarrow> session_event \<Rightarrow> companion \<Rightarrow> (trace_error, companion) result" where
  "on_dispatch sid events e c =
     and_then (trace_for sid events c) (\<lambda>(c', tr).
       and_then (validate_event tr e) (\<lambda>t. Inr (c'\<lparr>staged := ((sid, e), t) # staged c'\<rparr>)))"

definition on_event :: "string \<Rightarrow> session_event \<Rightarrow> companion \<Rightarrow> (trace_error, companion) result" where
  "on_event sid e c =
     (case (map_of (staged c) (sid, e), map_of (traces c) sid) of
        (Some t, Some tr) \<Rightarrow>
          Inr (c\<lparr>staged := filter (\<lambda>q. fst q \<noteq> (sid, e)) (staged c),
                 traces := (sid, apply_transition tr t) # traces c\<rparr>)
      | _ \<Rightarrow> Inl NotStaged)"

lemmas validate_defs =
  validate_event_def validate_payload_relation_def validate_tool_result_def require_open_step_def stay_def
  trace_step_def apply_transition_def

section \<open>What a valid trace satisfies\<close>

definition trace_inv :: "session_trace \<Rightarrow> bool" where
  "trace_inv tr \<longleftrightarrow> (open_turn tr = None \<longrightarrow> open_step tr = None)
     \<and> (open_step tr = None \<longrightarrow> pending_calls tr = {})
     \<and> (\<forall>t. open_turn tr = Some t \<longrightarrow> t = next_turn tr)
     \<and> (\<forall>s. open_step tr = Some s \<longrightarrow> s = next_step tr)"

lemma trace_inv_fresh [inv_intros, simp]: "trace_inv fresh_trace"
  by (simp add: trace_inv_def fresh_trace_def)

lemma trace_step_inv [inv_intros]:
  "trace_inv tr \<Longrightarrow> trace_step e tr = Inr tr' \<Longrightarrow> trace_inv tr'"
  by (auto simp: validate_defs trace_inv_def and_then_Inr_iff Let_def
      split: payload.splits if_splits option.splits)

lemma seed_session_snoc: "seed_session (es @ [e]) = and_then (seed_session es) (trace_step e)"
  by (simp add: seed_session_def fold_result_snoc)

lemma seed_session_Nil [simp]: "seed_session [] = Inr fresh_trace"
  by (simp add: seed_session_def)

lemma seed_session_inv: "seed_session es = Inr tr \<Longrightarrow> trace_inv tr"
  unfolding seed_session_def by (rule fold_result_inv [where P = trace_inv]) (auto intro: trace_step_inv)

definition turn_starts :: "session_event list \<Rightarrow> int list" where
  "turn_starts es = concat (map (\<lambda>e. case ev_payload e of TurnStart t \<Rightarrow> [t] | _ \<Rightarrow> []) es)"

definition turn_ends :: "session_event list \<Rightarrow> int list" where
  "turn_ends es = concat (map (\<lambda>e. case ev_payload e of TurnEnd t _ \<Rightarrow> [t] | _ \<Rightarrow> []) es)"

lemma seed_session_turns:
  "seed_session es = Inr tr \<Longrightarrow>
     0 < next_turn tr \<and> turn_ends es = [1 .. next_turn tr - 1]
     \<and> turn_starts es = (case open_turn tr of None \<Rightarrow> [1 .. next_turn tr - 1] | Some _ \<Rightarrow> [1 .. next_turn tr])"
proof (induction es arbitrary: tr rule: rev_induct)
  case Nil
  then show ?case by (auto simp: fresh_trace_def turn_starts_def turn_ends_def)
next
  case (snoc e es)
  then obtain tr0 where s: "seed_session es = Inr tr0" and step: "trace_step e tr0 = Inr tr"
    by (auto simp: seed_session_snoc and_then_Inr_iff)
  have upto: "0 < n \<Longrightarrow> [1 .. n - 1] @ [n] = [1 .. n]" for n :: int
    by (simp add: upto_rec2)
  from snoc.IH [OF s] step seed_session_inv [OF s] show ?case
    by (auto simp: validate_defs trace_inv_def and_then_Inr_iff Let_def turn_starts_def turn_ends_def upto
        split: payload.splits if_splits option.splits)
qed

text \<open>
  Turns are numbered and nested properly: in a log every event of which the trace
  accepts, the turns started are numbered 1, 2, 3, ... without gap or repetition, the turns
  ended are exactly these in order, all of them when no turn is open and all but the last
  otherwise.
\<close>

theorem trace_turns_numbered:
  assumes "seed_session es = Inr tr"
  shows "turn_starts es = [1 .. int (length (turn_starts es))]
     \<and> (open_turn tr = None \<longrightarrow> turn_ends es = turn_starts es)
     \<and> (\<forall>t. open_turn tr = Some t \<longrightarrow> turn_starts es = turn_ends es @ [t])"
proof -
  note t = seed_session_turns [OF assms]
  have "[1 .. next_turn tr] = [1 .. next_turn tr - 1] @ [next_turn tr]"
    using t by (simp add: upto_rec2)
  with t seed_session_inv [OF assms] show ?thesis
    by (cases "open_turn tr") (auto simp: trace_inv_def)
qed

definition ends_step :: "session_event \<Rightarrow> bool" where
  "ends_step e \<longleftrightarrow> (case ev_payload e of StepEnd _ _ \<Rightarrow> True | _ \<Rightarrow> False)"

definition answers :: "string \<Rightarrow> session_event \<Rightarrow> bool" where
  "answers c e \<longleftrightarrow>
     (case ev_payload e of
        ToolResultEvent d \<Rightarrow> tr_call_id (res_message d) = c \<and> ev_surface_op e = Some append_op
      | _ \<Rightarrow> False)"

text \<open>A call recorded in the given step that nothing answered since, the step still open.\<close>

definition call_waiting :: "session_event list \<Rightarrow> int \<Rightarrow> int \<Rightarrow> string \<Rightarrow> bool" where
  "call_waiting es t s c \<longleftrightarrow>
     (\<exists>pre e mid n a. es = pre @ e # mid \<and> ev_payload e = ToolCallEvent t s c n a
        \<and> (\<forall>x \<in> set mid. \<not> ends_step x \<and> \<not> answers c x))"

lemma call_waiting_snoc:
  "call_waiting es t s c \<Longrightarrow> \<not> ends_step e \<Longrightarrow> \<not> answers c e \<Longrightarrow> call_waiting (es @ [e]) t s c"
proof -
  assume "call_waiting es t s c" and "\<not> ends_step e" and "\<not> answers c e"
  moreover from this obtain pre x mid n a where "es = pre @ x # mid" "ev_payload x = ToolCallEvent t s c n a"
    "\<forall>x \<in> set mid. \<not> ends_step x \<and> \<not> answers c x" by (auto simp: call_waiting_def)
  ultimately show ?thesis
    unfolding call_waiting_def by (intro exI [of _ pre] exI [of _ x] exI [of _ "mid @ [e]"]) auto
qed

lemma call_waiting_new: "ev_payload e = ToolCallEvent t s c n a \<Longrightarrow> call_waiting (es @ [e]) t s c"
  unfolding call_waiting_def by (rule exI [of _ es], rule exI [of _ e], rule exI [of _ "[]"]) simp

lemma trace_step_pending:
  assumes "trace_step e tr = Inr tr'" and "c \<in> pending_calls tr'" and "trace_inv tr"
  shows "open_turn tr' \<noteq> None \<and> open_step tr' \<noteq> None \<and>
    ((\<exists>t s n a. ev_payload e = ToolCallEvent t s c n a \<and> open_turn tr' = Some t \<and> open_step tr' = Some s)
     \<or> (c \<in> pending_calls tr \<and> open_turn tr' = open_turn tr \<and> open_step tr' = open_step tr
        \<and> \<not> ends_step e \<and> \<not> answers c e))"
  using assms
  by (auto simp: validate_defs trace_inv_def and_then_Inr_iff Let_def ends_step_def answers_def
      split: payload.splits if_splits option.splits)

lemma pending_waiting:
  "seed_session es = Inr tr \<Longrightarrow> c \<in> pending_calls tr \<Longrightarrow>
     \<exists>t s. open_turn tr = Some t \<and> open_step tr = Some s \<and> call_waiting es t s c"
proof (induction es arbitrary: tr rule: rev_induct)
  case Nil
  then show ?case by (auto simp: fresh_trace_def)
next
  case (snoc e es)
  then obtain tr0 where s0: "seed_session es = Inr tr0" and step: "trace_step e tr0 = Inr tr"
    by (auto simp: seed_session_snoc and_then_Inr_iff)
  from trace_step_pending [OF step snoc.prems(2) seed_session_inv [OF s0]] snoc.IH [OF s0]
  show ?case by (fastforce intro: call_waiting_new call_waiting_snoc)
qed

text \<open>
  A tool result never comes out of nowhere and never answers twice: in an accepted
  log, an appended tool result that is not the recovery result of a call that never started
  follows a recorded call with the same id in the same, still open step, with no other
  result for that id in between.
\<close>

theorem trace_result_answers_call:
  assumes "seed_session (es @ [r]) = Inr tr" and "ev_payload r = ToolResultEvent d"
    and "ev_surface_op r = Some append_op" and "map_option snd (res_error d) \<noteq> Some TOOL_NOT_STARTED"
  shows "call_waiting es (res_turn d) (res_step d) (tr_call_id (res_message d))"
proof -
  from assms(1) obtain tr0 where s0: "seed_session es = Inr tr0" and step: "trace_step r tr0 = Inr tr"
    by (auto simp: seed_session_snoc and_then_Inr_iff)
  from step assms(2-4) have "tr_call_id (res_message d) \<in> pending_calls tr0"
    "open_turn tr0 = Some (res_turn d)" "open_step tr0 = Some (res_step d)"
    by (auto simp: validate_defs and_then_Inr_iff Let_def)
  with pending_waiting [OF s0] show ?thesis by auto
qed

section \<open>The companion's trace is the trace of the committed log\<close>

text \<open>Dispatches of one session: some are vetoed after validation, the others commit.\<close>

inductive companion_run :: "string \<Rightarrow> session_event list \<Rightarrow> companion \<Rightarrow> bool" for sid where
  created: "on_created sid es empty_companion = Inr c \<Longrightarrow> companion_run sid es c"
| vetoed: "companion_run sid es c \<Longrightarrow> on_dispatch sid es e c = Inr c' \<Longrightarrow> companion_run sid es c'"
| committed: "companion_run sid es c \<Longrightarrow> on_dispatch sid es e c = Inr c' \<Longrightarrow> on_event sid e c' = Inr c'' \<Longrightarrow>
    companion_run sid (es @ [e]) c''"

text \<open>
  Whatever was validated and then vetoed, the companion's trace of a session is the
  trace of the events that committed, and the next dispatch is accepted exactly when a replay
  of the log with that event would be.
\<close>

theorem companion_tracks_log:
  assumes "companion_run sid es c"
  shows "\<exists>tr. map_of (traces c) sid = Some tr \<and> seed_session es = Inr tr
     \<and> (is_ok (on_dispatch sid es e c) \<longleftrightarrow> is_ok (seed_session (es @ [e])))"
proof -
  have "\<exists>tr. map_of (traces c) sid = Some tr \<and> seed_session es = Inr tr"
    using assms
  proof (induction rule: companion_run.induct)
    case (created es c)
    then show ?case by (auto simp: on_created_def and_then_Inr_iff)
  next
    case (vetoed es c e c')
    then show ?case by (auto simp: on_dispatch_def trace_for_def and_then_Inr_iff)
  next
    case (committed es c e c' c'')
    then show ?case
      by (auto simp: on_dispatch_def trace_for_def on_event_def and_then_Inr_iff seed_session_snoc trace_step_def)
  qed
  then obtain tr where tr: "map_of (traces c) sid = Some tr" "seed_session es = Inr tr" by blast
  then have "is_ok (on_dispatch sid es e c) \<longleftrightarrow> is_ok (seed_session (es @ [e]))"
    by (cases "validate_event tr e") (simp_all add: on_dispatch_def trace_for_def seed_session_snoc trace_step_def)
  with tr show ?thesis by blast
qed

section \<open>A concrete log\<close>

definition trace_result :: "tool_result_data" where
  "trace_result =
     \<lparr>res_turn = 1, res_step = 1,
      res_message = \<lparr>tr_id = ''m1'', tr_call_id = ''c'', tr_block_call_id = ''c'', tr_content = [], tr_is_error = None\<rparr>,
      res_error = None, res_meta = None\<rparr>"

definition trace_example :: "session_event list" where
  "trace_example =
     [log_event (TurnStart 1) 0, log_event (StepStart 1 1) 1, log_event (ToolCallEvent 1 1 ''c'' ''read'' ''{}'') 2]"

definition trace_answer :: session_event where
  "trace_answer = append_event (ToolResultEvent trace_result) 3"

theorem trace_turns_numbered_witness:
  "turn_starts trace_example = [1 .. 1]"
proof -
  have "is_ok (seed_session trace_example)" by code_simp
  then obtain tr where tr: "seed_session trace_example = Inr tr" by (auto simp: is_ok_iff)
  have "int (length (turn_starts trace_example)) = 1" by code_simp
  then show ?thesis using trace_turns_numbered [OF tr] by simp
qed

theorem trace_result_answers_call_witness: "call_waiting trace_example 1 1 ''c''"
proof -
  have "is_ok (seed_session (trace_example @ [trace_answer]))" by code_simp
  then obtain tr where tr: "seed_session (trace_example @ [trace_answer]) = Inr tr" by (auto simp: is_ok_iff)
  show ?thesis using trace_result_answers_call [OF tr, of trace_result]
    by (simp add: trace_answer_def append_event_def log_event_def trace_result_def)
qed

theorem companion_tracks_log_witness:
  "\<exists>(c :: companion) tr. map_of (traces c) ''s'' = Some tr \<and> seed_session trace_example = Inr tr"
proof -
  have "is_ok (on_created ''s'' trace_example empty_companion)" by code_simp
  then obtain c where "on_created ''s'' trace_example empty_companion = Inr c" by (auto simp: is_ok_iff)
  then have "companion_run ''s'' trace_example c" by (rule companion_run.created)
  from companion_tracks_log [OF this, of trace_answer] show ?thesis by blast
qed

end
