(* ===== verification/Repair.thy ===== *)
theory Repair
  imports Surface Session_Trace
begin

text \<open>
  \<open>packages/core/session/src/repair.ts\<close>: the synthetic events that close the open tail turn
  of a log cut short by a crash. A scan finds the open turn and step and the tool calls
  without a result; unanswered calls get error results, then the open step and the turn are
  ended.
\<close>

section \<open>The scan\<close>

record pending_call =
  pc_step :: int
  pc_seq :: "nat option"

record repair_cursor =
  cur_turn :: "int option"
  cur_step :: "int option"
  cur_pending :: "(string \<times> pending_call) list"

definition start_cursor :: repair_cursor where
  "start_cursor = \<lparr>cur_turn = None, cur_step = None, cur_pending = []\<rparr>"

fun register_calls :: "int \<Rightarrow> content_block list \<Rightarrow> (string \<times> pending_call) list \<Rightarrow> (string \<times> pending_call) list" where
  "register_calls step [] m = m"
| "register_calls step (ToolCallBlock i n a # bs) m =
     register_calls step bs (omap_set i \<lparr>pc_step = step, pc_seq = None\<rparr> m)"
| "register_calls step (b # bs) m = register_calls step bs m"

definition scan_event :: "session_event \<Rightarrow> repair_cursor \<Rightarrow> repair_cursor" where
  "scan_event e c =
     (case ev_payload e of
        TurnStart t \<Rightarrow> \<lparr>cur_turn = Some t, cur_step = None, cur_pending = []\<rparr>
      | TurnEnd t r \<Rightarrow> \<lparr>cur_turn = None, cur_step = None, cur_pending = []\<rparr>
      | StepStart t s \<Rightarrow> c\<lparr>cur_step := Some s\<rparr>
      | StepEnd t s \<Rightarrow> c\<lparr>cur_pending := [], cur_step := None\<rparr>
      | AssistantMessageEvent d \<Rightarrow>
          c\<lparr>cur_pending := register_calls (asst_step d) (am_content (asst_message d)) (cur_pending c)\<rparr>
      | ToolCallEvent t s i n a \<Rightarrow>
          (case map_of (cur_pending c) i of
             Some entry \<Rightarrow> c\<lparr>cur_pending := omap_set i (entry\<lparr>pc_seq := Some (ev_seq e)\<rparr>) (cur_pending c)\<rparr>
           | None \<Rightarrow> c)
      | ToolResultEvent d \<Rightarrow> c\<lparr>cur_pending := omap_delete (tr_call_id (res_message d)) (cur_pending c)\<rparr>
      | _ \<Rightarrow> c)"

definition scan_log :: "session_event list \<Rightarrow> repair_cursor" where
  "scan_log events = fold scan_event events start_cursor"

section \<open>The closers\<close>

definition OUTCOME_UNKNOWN_TEXT :: string where
  "OUTCOME_UNKNOWN_TEXT =
     ''The tool call was interrupted after it was recorded, but no result was durably recorded. ''
     @ ''Its outcome is unknown. Decide whether to retry from the tool semantics: retry only if ''
     @ ''the operation is read-only or idempotent; if it may have side effects, first verify ''
     @ ''external state or ask the user. Do not retry blindly.''"

definition NOT_STARTED_TEXT :: string where
  "NOT_STARTED_TEXT =
     ''The tool call was interrupted before the Harness recorded it as started. ''
     @ ''Retry it if it is still needed.''"

definition synthetic_result :: "int \<Rightarrow> string \<Rightarrow> pending_call \<Rightarrow> nat \<Rightarrow> tool_result_data" where
  "synthetic_result turn call_id p seq =
     \<lparr>res_turn = turn, res_step = pc_step p,
      res_message =
        \<lparr>tr_id = ''interrupted-tool-result-'' @ call_id @ ''-'' @ show_nat seq,
         tr_call_id = call_id, tr_block_call_id = call_id,
         tr_content = [TextBlock (if pc_seq p \<noteq> None then OUTCOME_UNKNOWN_TEXT else NOT_STARTED_TEXT)],
         tr_is_error = Some True\<rparr>,
      res_error = Some (if pc_seq p \<noteq> None then (''ToolOutcomeUnknownError'', TOOL_OUTCOME_UNKNOWN)
                        else (''ToolNotStartedError'', TOOL_NOT_STARTED)),
      res_meta = None\<rparr>"

definition result_closer :: "int \<Rightarrow> int \<Rightarrow> string \<Rightarrow> pending_call \<Rightarrow> nat \<Rightarrow> nat \<Rightarrow> session_event" where
  "result_closer turn time call_id p seq branded =
     \<lparr>ev_payload = ToolResultEvent (synthetic_result turn call_id p seq), ev_seq = branded, ev_time = time,
      ev_surface_op = Some append_op,
      ev_sources = map_option (\<lambda>s. seqs_json [s]) (pc_seq p), ev_ignorable = False\<rparr>"

definition boundary_closer :: "payload \<Rightarrow> int \<Rightarrow> nat \<Rightarrow> session_event" where
  "boundary_closer p time branded = (log_event p branded)\<lparr>ev_time := time\<rparr>"

text \<open>\<open>SessionSeq(seq++)\<close>\<close>

definition next_seq :: "nat \<Rightarrow> (brand_error, nat) result" where
  "next_seq seq = session_seq (JInt (int seq))"

fun close_calls :: "int \<Rightarrow> int \<Rightarrow> nat \<Rightarrow> (string \<times> pending_call) list \<Rightarrow> (brand_error, session_event list) result" where
  "close_calls turn time seq [] = Inr []"
| "close_calls turn time seq ((call_id, p) # rest) =
     and_then (next_seq seq) (\<lambda>s.
       and_then (close_calls turn time (seq + 1) rest) (\<lambda>es.
         Inr (result_closer turn time call_id p seq s # es)))"

definition close_step :: "int \<Rightarrow> int option \<Rightarrow> int \<Rightarrow> nat \<Rightarrow> (brand_error, session_event list) result" where
  "close_step turn step time seq =
     (case step of
        None \<Rightarrow> Inr []
      | Some s \<Rightarrow> and_then (next_seq seq) (\<lambda>n. Inr [boundary_closer (StepEnd turn s) time n]))"

definition interrupted_turn_closers :: "session_event list \<Rightarrow> (brand_error, session_event list) result" where
  "interrupted_turn_closers events =
     (let c = scan_log events in
      case (cur_turn c, last_opt events) of
        (Some turn, Some lst) \<Rightarrow>
          and_then (close_calls turn (ev_time lst) (ev_seq lst + 1) (cur_pending c)) (\<lambda>results.
          and_then (close_step turn (cur_step c) (ev_time lst) (ev_seq lst + 1 + length results)) (\<lambda>steps.
          and_then (next_seq (ev_seq lst + 1 + length results + length steps)) (\<lambda>n.
            Inr (results @ steps @ [boundary_closer (TurnEnd turn Interrupted) (ev_time lst) n]))))
      | _ \<Rightarrow> Inr [])"

section \<open>The scan follows the trace\<close>

lemma scan_log_snoc: "scan_log (es @ [e]) = scan_event e (scan_log es)"
  by (simp add: scan_log_def)

lemma scan_log_Nil [simp]: "scan_log [] = start_cursor"
  by (simp add: scan_log_def)

lemma register_calls_entries:
  "(i, p) \<in> set (register_calls s bs m) \<Longrightarrow> (i, p) \<in> set m \<or> (pc_step p = s \<and> pc_seq p = None)"
  by (induction s bs m rule: register_calls.induct) (auto dest!: subsetD [OF set_omap_set])

lemma register_calls_distinct: "distinct (map fst m) \<Longrightarrow> distinct (map fst (register_calls s bs m))"
  by (induction s bs m rule: register_calls.induct) simp_all

definition tool_call_ids :: "content_block list \<Rightarrow> string set" where
  "tool_call_ids bs = {i. \<exists>n a. ToolCallBlock i n a \<in> set bs}"

lemma register_calls_keys: "fst ` set (register_calls s bs m) = tool_call_ids bs \<union> fst ` set m"
proof (induction s bs m rule: register_calls.induct)
  case (2 step i n a bs m)
  have "tool_call_ids (ToolCallBlock i n a # bs) = insert i (tool_call_ids bs)"
    by (auto simp: tool_call_ids_def)
  then show ?case using 2 keys_omap_set [of i "\<lparr>pc_step = step, pc_seq = None\<rparr>" m] by auto
qed (auto simp: tool_call_ids_def)

text \<open>The cursor and the trace agree on what is open; every pending call belongs to the open
  step, and a call recorded as started is one the trace still waits for.\<close>

definition cursor_ok :: "repair_cursor \<Rightarrow> session_trace \<Rightarrow> bool" where
  "cursor_ok c tr \<longleftrightarrow>
     cur_turn c = open_turn tr \<and> cur_step c = open_step tr \<and> distinct (map fst (cur_pending c))
     \<and> (\<forall>(i, p) \<in> set (cur_pending c). open_step tr = Some (pc_step p)
          \<and> (pc_seq p \<noteq> None \<longrightarrow> i \<in> pending_calls tr))"

lemma omap_set_cases: "(i, p) \<in> set (omap_set k v m) \<Longrightarrow> (i = k \<and> p = v) \<or> ((i, p) \<in> set m)"
  using set_omap_set by fastforce

lemma scan_event_ok:
  assumes "cursor_ok c tr" and "trace_inv tr" and "trace_step e tr = Inr tr'"
  shows "cursor_ok (scan_event e c) tr'"
proof (cases "ev_payload e")
  case (ToolCallEvent t s i n a)
  with assms(3) have tr': "open_turn tr' = open_turn tr" "open_step tr' = open_step tr"
    "pending_calls tr' = insert i (pending_calls tr)"
    by (auto simp: validate_defs and_then_Inr_iff)
  show ?thesis
  proof (cases "map_of (cur_pending c) i")
    case None
    with ToolCallEvent tr' assms(1) show ?thesis by (auto simp: scan_event_def cursor_ok_def)
  next
    case (Some entry)
    then have "(i, entry) \<in> set (cur_pending c)" by (rule map_of_SomeD)
    with Some ToolCallEvent tr' assms(1) show ?thesis
      by (auto simp: scan_event_def cursor_ok_def dest!: omap_set_cases)
  qed
next
  case (AssistantMessageEvent d)
  with assms(3) have tr': "open_turn tr' = open_turn tr" "open_step tr' = open_step tr"
    "pending_calls tr' = pending_calls tr" "open_step tr = Some (asst_step d)"
    by (auto simp: validate_defs and_then_Inr_iff)
  with AssistantMessageEvent assms(1) show ?thesis
    by (auto simp: scan_event_def cursor_ok_def register_calls_distinct dest!: register_calls_entries)
next
  case (ToolResultEvent d)
  with assms(3) have tr': "open_turn tr' = open_turn tr" "open_step tr' = open_step tr"
    "pending_calls tr - {tr_call_id (res_message d)} \<subseteq> pending_calls tr'"
    by (auto simp: validate_defs and_then_Inr_iff Let_def split: if_splits)
  with ToolResultEvent assms(1) show ?thesis
    by (auto simp: scan_event_def cursor_ok_def omap_delete_def distinct_map_filter)
qed (use assms in \<open>simp add: scan_event_def cursor_ok_def validate_defs trace_inv_def and_then_Inr_iff
      split: if_splits option.splits; clarsimp\<close>)+

lemma scan_log_ok: "seed_session es = Inr tr \<Longrightarrow> cursor_ok (scan_log es) tr"
proof (induction es arbitrary: tr rule: rev_induct)
  case Nil
  then show ?case by (auto simp: cursor_ok_def start_cursor_def fresh_trace_def)
next
  case (snoc e es)
  then show ?case
    using scan_event_ok seed_session_inv by (fastforce simp: seed_session_snoc scan_log_snoc and_then_Inr_iff)
qed

lemma trace_step_last_seq:
  assumes "trace_step e tr = Inr tr'"
  shows "last_seq tr' = int (ev_seq e)"
proof -
  from assms obtain t where t: "validate_payload_relation tr e = Inr t" and tr': "tr' = apply_transition tr t"
    by (auto simp: trace_step_def validate_event_def and_then_Inr_iff)
  from t have "to_seq t = ev_seq e"
    by (cases "ev_payload e") (auto simp: validate_payload_relation_def validate_tool_result_def stay_def
        and_then_Inr_iff Let_def split: if_splits option.splits)
  with tr' show ?thesis by (simp add: apply_transition_def)
qed

lemma trace_last_seq: "seed_session (es @ [e]) = Inr tr \<Longrightarrow> last_seq tr = int (ev_seq e)"
  using trace_step_last_seq by (auto simp: seed_session_snoc and_then_Inr_iff)

section \<open>What the closers do\<close>

lemma next_seq_Inr [simp]: "next_seq seq = Inr n \<longleftrightarrow> n = seq \<and> int seq \<le> MAX_SAFE_INTEGER"
  by (auto simp: next_seq_def session_seq_Inr_iff)

lemma close_calls_Inr:
  "close_calls turn time seq m = Inr es \<Longrightarrow>
     length es = length m \<and> (\<forall>i < length m. es ! i =
        result_closer turn time (fst (m ! i)) (snd (m ! i)) (seq + i) (seq + i))
     \<and> (m \<noteq> [] \<longrightarrow> int (seq + length m) \<le> MAX_SAFE_INTEGER + 1)"
proof (induction turn time seq m arbitrary: es rule: close_calls.induct)
  case (1 turn time seq)
  then show ?case by simp
next
  case (2 turn time seq call_id p rest)
  then obtain fs where fs: "close_calls turn time (seq + 1) rest = Inr fs" "int seq \<le> MAX_SAFE_INTEGER"
    "es = result_closer turn time call_id p seq seq # fs"
    by (auto simp: and_then_Inr_iff)
  from 2(1) [of seq, OF _ fs(1)] fs show ?case
    by (cases rest) (auto simp: nth_Cons split: nat.splits)
qed

text \<open>Each closer is accepted by the trace of what precedes it.\<close>

definition at_step :: "session_trace \<Rightarrow> int \<Rightarrow> int option \<Rightarrow> nat \<Rightarrow> bool" where
  "at_step tr turn step seq \<longleftrightarrow> open_turn tr = Some turn \<and> open_step tr = step \<and> last_seq tr < int seq"

lemma trace_result_closer:
  assumes "at_step tr turn (Some (pc_step p)) seq" and "pc_seq p \<noteq> None \<longrightarrow> i \<in> pending_calls tr"
  shows "\<exists>tr'. trace_step (result_closer turn time i p seq seq) tr = Inr tr'
    \<and> at_step tr' turn (Some (pc_step p)) (seq + 1) \<and> pending_calls tr' = pending_calls tr - {i}"
  using assms
  by (auto simp: validate_defs result_closer_def synthetic_result_def at_step_def Let_def)

lemma trace_close_calls:
  assumes "close_calls turn time seq m = Inr es" and "at_step tr turn step seq"
    and "distinct (map fst m)"
    and "\<forall>(i, p) \<in> set m. step = Some (pc_step p) \<and> (pc_seq p \<noteq> None \<longrightarrow> i \<in> pending_calls tr)"
  shows "\<exists>tr'. fold_result trace_step es tr = Inr tr' \<and> at_step tr' turn step (seq + length es)"
  using assms
proof (induction turn time seq m arbitrary: es tr rule: close_calls.induct)
  case (1 turn time seq)
  then show ?case by auto
next
  case (2 turn time seq call_id p rest)
  then obtain fs where fs: "close_calls turn time (seq + 1) rest = Inr fs" "int seq \<le> MAX_SAFE_INTEGER"
    "es = result_closer turn time call_id p seq seq # fs"
    by (auto simp: and_then_Inr_iff)
  obtain tr1 where tr1: "trace_step (result_closer turn time call_id p seq seq) tr = Inr tr1"
    "at_step tr1 turn step (seq + 1)" "pending_calls tr1 = pending_calls tr - {call_id}"
    using trace_result_closer [of tr turn p seq call_id time] 2(3,5) by auto
  have "\<forall>(i, q) \<in> set rest. step = Some (pc_step q) \<and> (pc_seq q \<noteq> None \<longrightarrow> i \<in> pending_calls tr1)"
    using 2(4,5) tr1(3) by force
  with 2(1) [of seq, OF _ fs(1) tr1(2)] 2(4) fs tr1(1) show ?case by auto
qed

lemma closers_cases:
  assumes "interrupted_turn_closers (es @ [e]) = Inr closers" and "cur_turn (scan_log (es @ [e])) = Some turn"
  obtains results steps where
    "close_calls turn (ev_time e) (ev_seq e + 1) (cur_pending (scan_log (es @ [e]))) = Inr results"
    "close_step turn (cur_step (scan_log (es @ [e]))) (ev_time e) (ev_seq e + 1 + length results) = Inr steps"
    "closers = results @ steps @ [boundary_closer (TurnEnd turn Interrupted) (ev_time e)
       (ev_seq e + 1 + length results + length steps)]"
  using assms by (auto simp: interrupted_turn_closers_def Let_def and_then_Inr_iff)

lemma repair_closes_turn_holds:
  assumes "seed_session events = Inr tr" and "interrupted_turn_closers events = Inr closers"
  shows "\<exists>tr'. seed_session (events @ closers) = Inr tr'
     \<and> open_turn tr' = None \<and> open_step tr' = None \<and> pending_calls tr' = {}"
proof -
  have inv: "trace_inv tr" by (rule seed_session_inv [OF assms(1)])
  note ok = scan_log_ok [OF assms(1)]
  show ?thesis
  proof (cases "cur_turn (scan_log events)")
    case None
    with assms ok inv show ?thesis
      by (auto simp: interrupted_turn_closers_def cursor_ok_def trace_inv_def)
  next
    case (Some turn)
    show ?thesis
    proof (cases events rule: rev_cases)
      case Nil
      with Some show ?thesis by (simp add: start_cursor_def)
    next
      case (snoc es e)
      define c where "c = scan_log (es @ [e])"
      from assms(2) [unfolded snoc] Some [unfolded snoc] obtain results steps where
        r: "close_calls turn (ev_time e) (ev_seq e + 1) (cur_pending c) = Inr results"
        and s: "close_step turn (cur_step c) (ev_time e) (ev_seq e + 1 + length results) = Inr steps"
        and cl: "closers = results @ steps @ [boundary_closer (TurnEnd turn Interrupted) (ev_time e)
                   (ev_seq e + 1 + length results + length steps)]"
        unfolding c_def by (rule closers_cases)
      have at: "at_step tr turn (cur_step c) (ev_seq e + 1)"
        using ok Some trace_last_seq assms(1) snoc by (auto simp: at_step_def cursor_ok_def c_def)
      from trace_close_calls [OF r at] ok snoc obtain tr1 where
        tr1: "fold_result trace_step results tr = Inr tr1" "at_step tr1 turn (cur_step c) (ev_seq e + 1 + length results)"
        by (auto simp: cursor_ok_def c_def)
      have inv1: "trace_inv tr1"
        using fold_result_inv [OF tr1(1), of trace_inv] inv trace_step_inv by blast
      have "\<exists>tr2. fold_result trace_step steps tr1 = Inr tr2
          \<and> at_step tr2 turn None (ev_seq e + 1 + length results + length steps) \<and> pending_calls tr2 = {}"
      proof (cases "cur_step c")
        case None
        with s tr1 inv1 show ?thesis by (auto simp: close_step_def at_step_def trace_inv_def)
      next
        case (Some st)
        with s tr1 show ?thesis
          by (auto simp: close_step_def boundary_closer_def log_event_def at_step_def validate_defs and_then_Inr_iff)
      qed
      then obtain tr2 where tr2: "fold_result trace_step steps tr1 = Inr tr2"
        "at_step tr2 turn None (ev_seq e + 1 + length results + length steps)" "pending_calls tr2 = {}" by blast
      have "\<exists>tr'. trace_step (boundary_closer (TurnEnd turn Interrupted) (ev_time e)
            (ev_seq e + 1 + length results + length steps)) tr2 = Inr tr'
          \<and> open_turn tr' = None \<and> open_step tr' = None \<and> pending_calls tr' = {}"
        using tr2(2,3) by (auto simp: boundary_closer_def log_event_def at_step_def validate_defs)
      with assms(1) tr1(1) tr2(1) show ?thesis
        by (auto simp: cl seed_session_def fold_result_append)
    qed
  qed
qed

text \<open>
  Claim C8. Recovery closes an interrupted log properly: if the trace accepts the log, it also
  accepts the log followed by the synthetic closers, and afterwards no turn, no step and no
  tool call is open.
\<close>

theorem repair_closes_turn:
  assumes "seed_session events = Inr tr" and "interrupted_turn_closers events = Inr closers"
  shows "\<exists>tr'. seed_session (events @ closers) = Inr tr'
     \<and> open_turn tr' = None \<and> open_step tr' = None \<and> pending_calls tr' = {}"
  by (rule repair_closes_turn_holds [OF assms])

lemma closers_Nil: "cur_turn (scan_log events) = None \<Longrightarrow> interrupted_turn_closers events = Inr []"
  by (simp add: interrupted_turn_closers_def Let_def)

text \<open>
  Recovery is idempotent: a log that was already repaired needs no further closers.
\<close>

theorem repair_idempotent:
  assumes "interrupted_turn_closers events = Inr closers"
  shows "interrupted_turn_closers (events @ closers) = Inr []"
proof (cases "closers = []")
  case True
  with assms show ?thesis by simp
next
  case False
  then obtain turn where t: "cur_turn (scan_log events) = Some turn"
    using assms closers_Nil by fastforce
  with assms False obtain es e where "events = es @ [e]"
    by (cases events rule: rev_cases) (auto simp: start_cursor_def)
  with assms t obtain cs n where "closers = cs @ [boundary_closer (TurnEnd turn Interrupted) (ev_time e) n]"
    by (auto elim!: closers_cases)
  then have "cur_turn (scan_log (events @ closers)) = None"
    by (simp add: scan_log_snoc scan_event_def boundary_closer_def log_event_def flip: append_assoc)
  then show ?thesis by (rule closers_Nil)
qed

section \<open>Every unanswered call is answered once\<close>

definition cursor_boundary :: "session_event \<Rightarrow> bool" where
  "cursor_boundary e \<longleftrightarrow>
     (case ev_payload e of TurnStart _ \<Rightarrow> True | TurnEnd _ _ \<Rightarrow> True | StepEnd _ _ \<Rightarrow> True | _ \<Rightarrow> False)"

definition result_call :: "session_event \<Rightarrow> string option" where
  "result_call e = (case ev_payload e of ToolResultEvent d \<Rightarrow> Some (tr_call_id (res_message d)) | _ \<Rightarrow> None)"

definition requests_call :: "string \<Rightarrow> session_event \<Rightarrow> bool" where
  "requests_call i e \<longleftrightarrow>
     (case ev_payload e of AssistantMessageEvent d \<Rightarrow> i \<in> tool_call_ids (am_content (asst_message d)) | _ \<Rightarrow> False)"

text \<open>An assistant message asked for the call, and neither a result nor a boundary followed.\<close>

definition unanswered :: "session_event list \<Rightarrow> string \<Rightarrow> bool" where
  "unanswered es i \<longleftrightarrow>
     (\<exists>pre e post. es = pre @ e # post \<and> requests_call i e
        \<and> (\<forall>x \<in> set post. \<not> cursor_boundary x \<and> result_call x \<noteq> Some i))"

lemma unanswered_snoc:
  "unanswered (es @ [e]) i \<longleftrightarrow>
     requests_call i e \<or> (unanswered es i \<and> \<not> cursor_boundary e \<and> result_call e \<noteq> Some i)"
proof
  assume "unanswered (es @ [e]) i"
  then obtain pre x post where s: "es @ [e] = pre @ x # post" "requests_call i x"
    "\<forall>y \<in> set post. \<not> cursor_boundary y \<and> result_call y \<noteq> Some i" by (auto simp: unanswered_def)
  show "requests_call i e \<or> (unanswered es i \<and> \<not> cursor_boundary e \<and> result_call e \<noteq> Some i)"
  proof (cases post rule: rev_cases)
    case Nil
    with s show ?thesis by simp
  next
    case (snoc p y)
    with s have "es = pre @ x # p" "y = e" by simp_all
    with s snoc show ?thesis unfolding unanswered_def by auto
  qed
next
  assume "requests_call i e \<or> (unanswered es i \<and> \<not> cursor_boundary e \<and> result_call e \<noteq> Some i)"
  then show "unanswered (es @ [e]) i"
  proof
    assume "requests_call i e"
    then show ?thesis unfolding unanswered_def
      by (intro exI [of _ es] exI [of _ e] exI [of _ "[]"]) (rule conjI, simp, simp)
  next
    assume a: "unanswered es i \<and> \<not> cursor_boundary e \<and> result_call e \<noteq> Some i"
    then obtain pre x post where "es = pre @ x # post" "requests_call i x"
      "\<forall>y \<in> set post. \<not> cursor_boundary y \<and> result_call y \<noteq> Some i" by (auto simp: unanswered_def)
    with a show ?thesis unfolding unanswered_def
      by (intro exI [of _ pre] exI [of _ x] exI [of _ "post @ [e]"]) auto
  qed
qed

lemma keys_omap_delete: "fst ` set (omap_delete k m) = fst ` set m - {k}"
  by (force simp: omap_delete_def)

lemma pending_keys: "i \<in> fst ` set (cur_pending (scan_log es)) \<longleftrightarrow> unanswered es i"
proof (induction es rule: rev_induct)
  case Nil
  then show ?case by (simp add: start_cursor_def unanswered_def)
next
  case (snoc e es)
  show ?case
  proof (cases "ev_payload e")
    case (ToolCallEvent t s c n a)
    have "fst ` set (cur_pending (scan_event e (scan_log es))) = fst ` set (cur_pending (scan_log es))"
    proof (cases "map_of (cur_pending (scan_log es)) c")
      case None
      with ToolCallEvent show ?thesis by (simp add: scan_event_def)
    next
      case (Some entry)
      then have "c \<in> set (map fst (cur_pending (scan_log es)))" by (force dest: map_of_SomeD)
      with Some ToolCallEvent show ?thesis
        using keys_omap_set [of c "entry\<lparr>pc_seq := Some (ev_seq e)\<rparr>" "cur_pending (scan_log es)"]
        by (simp add: scan_event_def insert_absorb)
    qed
    with snoc ToolCallEvent show ?thesis
      by (simp add: scan_log_snoc unanswered_snoc requests_call_def cursor_boundary_def result_call_def)
  next
    case (ToolResultEvent d)
    with snoc show ?thesis
      by (auto simp: scan_log_snoc scan_event_def unanswered_snoc requests_call_def cursor_boundary_def
          result_call_def keys_omap_delete)
  qed (use snoc in \<open>simp add: scan_log_snoc scan_event_def unanswered_snoc requests_call_def cursor_boundary_def
      result_call_def register_calls_keys\<close>)+
qed

lemma pending_distinct: "distinct (map fst (cur_pending (scan_log es)))"
proof (induction es rule: rev_induct)
  case Nil
  then show ?case by (simp add: start_cursor_def)
next
  case (snoc e es)
  then show ?case
    by (cases "ev_payload e")
      (auto simp: scan_log_snoc scan_event_def register_calls_distinct split: option.splits)
qed

definition answered_calls :: "session_event list \<Rightarrow> string list" where
  "answered_calls es = concat (map (\<lambda>e. case result_call e of Some i \<Rightarrow> [i] | None \<Rightarrow> []) es)"

lemma close_calls_answers:
  "close_calls turn time seq m = Inr es \<Longrightarrow> answered_calls es = map fst m"
proof (induction turn time seq m arbitrary: es rule: close_calls.induct)
  case (1 turn time seq)
  then show ?case by (simp add: answered_calls_def)
next
  case (2 turn time seq call_id p rest)
  then show ?case
    by (auto simp: and_then_Inr_iff answered_calls_def result_call_def result_closer_def synthetic_result_def)
qed

text \<open>
  Claim C9. When a turn is open, the closers answer exactly the tool calls of the transcript
  that are still unanswered (requested by an assistant message of the current step and
  followed by no result), and each of them once.
\<close>

theorem repair_answers_exactly_unanswered:
  assumes "interrupted_turn_closers events = Inr closers" and "closers \<noteq> []"
  shows "distinct (answered_calls closers) \<and> (\<forall>i. i \<in> set (answered_calls closers) \<longleftrightarrow> unanswered events i)"
proof -
  obtain turn where t: "cur_turn (scan_log events) = Some turn"
    using assms closers_Nil by fastforce
  with assms obtain es e where ev: "events = es @ [e]"
    by (cases events rule: rev_cases) (auto simp: start_cursor_def)
  from assms(1) t obtain results steps where
    r: "close_calls turn (ev_time e) (ev_seq e + 1) (cur_pending (scan_log events)) = Inr results"
    and s: "close_step turn (cur_step (scan_log events)) (ev_time e) (ev_seq e + 1 + length results) = Inr steps"
    and cl: "closers = results @ steps @ [boundary_closer (TurnEnd turn Interrupted) (ev_time e)
       (ev_seq e + 1 + length results + length steps)]"
    unfolding ev by (rule closers_cases)
  have "answered_calls steps = []"
    using s by (auto simp: close_step_def answered_calls_def result_call_def boundary_closer_def log_event_def
        and_then_Inr_iff split: option.splits)
  then have "answered_calls closers = map fst (cur_pending (scan_log events))"
    using close_calls_answers [OF r]
    by (simp add: cl answered_calls_def result_call_def boundary_closer_def log_event_def)
  then show ?thesis using pending_keys pending_distinct by simp
qed

section \<open>The surface of a repaired log\<close>

lemma pending_call_seq:
  "(i, p) \<in> set (cur_pending (scan_log es)) \<Longrightarrow> pc_seq p = Some q \<Longrightarrow> q \<in> ev_seq ` set es"
proof (induction es arbitrary: i p rule: rev_induct)
  case Nil
  then show ?case by (simp add: start_cursor_def)
next
  case (snoc e es)
  show ?case
  proof (cases "ev_payload e")
    case (ToolCallEvent t s c n a)
    show ?thesis
    proof (cases "map_of (cur_pending (scan_log es)) c")
      case None
      with ToolCallEvent snoc show ?thesis by (auto simp: scan_log_snoc scan_event_def)
    next
      case (Some entry)
      with ToolCallEvent snoc.prems(1) have "(i, p) \<in> set (omap_set c (entry\<lparr>pc_seq := Some (ev_seq e)\<rparr>) (cur_pending (scan_log es)))"
        by (simp add: scan_log_snoc scan_event_def)
      then have "p = entry\<lparr>pc_seq := Some (ev_seq e)\<rparr> \<or> (i, p) \<in> set (cur_pending (scan_log es))"
        by (auto dest: omap_set_cases)
      with snoc show ?thesis by auto
    qed
  next
    case (AssistantMessageEvent d)
    with snoc show ?thesis
      by (auto simp: scan_log_snoc scan_event_def dest!: register_calls_entries)
  next
    case (ToolResultEvent d)
    with snoc show ?thesis by (auto simp: scan_log_snoc scan_event_def omap_delete_def)
  qed (use snoc in \<open>auto simp: scan_log_snoc scan_event_def\<close>)
qed

text \<open>Two kinds of event a fold always accepts at the end of its log.\<close>

lemma fold_window_append_ok:
  assumes "fold_window base es = Inr (st, reps)" and "ev_seq e = base + length es"
    and "is_surface_eligible_type (ev_type e)" and "ev_surface_op e = Some append_op" and "is_ok (cited_sources e)"
  shows "fold_window base (es @ [e]) = Inr (st\<lparr>nodes := nodes st @ [ev_seq e]\<rparr>, reps)"
  using assms
  by (auto simp: fold_window_snoc apply_surface_event_def plan_surface_event_def surface_op_of_def
      assert_provenance_def is_ok_iff)

lemma fold_window_plain_ok:
  assumes "fold_window base es = Inr (st, reps)" and "ev_seq e = base + length es"
    and "\<not> is_surface_eligible_type (ev_type e)" and "ev_surface_op e = None" and "ev_sources e = None"
  shows "fold_window base (es @ [e]) = Inr (st, reps)"
  using assms
  by (simp add: fold_window_snoc apply_surface_event_def plan_surface_event_def surface_op_of_def)

lemma result_closer_sources:
  assumes "\<And>q. pc_seq p = Some q \<Longrightarrow> q < seq" and "int seq \<le> MAX_SAFE_INTEGER"
  shows "is_ok (cited_sources (result_closer turn time i p seq seq))"
  using assms by (auto simp: cited_sources_def result_closer_def seqs_json_def split: option.splits)

lemma fold_close_calls:
  assumes "close_calls turn time seq m = Inr results" and "fold_window 0 es = Inr (st, reps)"
    and "seq = length es" and "\<forall>(i, p) \<in> set m. \<forall>q. pc_seq p = Some q \<longrightarrow> q < seq"
  shows "fold_window 0 (es @ results) = Inr (st\<lparr>nodes := nodes st @ [seq ..< seq + length results]\<rparr>, reps)"
  using assms
proof (induction turn time seq m arbitrary: results es st rule: close_calls.induct)
  case (1 turn time seq)
  then show ?case by simp
next
  case (2 turn time seq call_id p rest)
  then obtain fs where fs: "close_calls turn time (seq + 1) rest = Inr fs" "int seq \<le> MAX_SAFE_INTEGER"
    "results = result_closer turn time call_id p seq seq # fs"
    by (auto simp: and_then_Inr_iff)
  have "is_ok (cited_sources (result_closer turn time call_id p seq seq))"
    using 2(5) fs(2) by (intro result_closer_sources) auto
  then have one: "fold_window 0 (es @ [result_closer turn time call_id p seq seq])
      = Inr (st\<lparr>nodes := nodes st @ [seq]\<rparr>, reps)"
    using fold_window_append_ok [OF 2(3), of "result_closer turn time call_id p seq seq"] 2(4)
    by (simp add: result_closer_def is_surface_eligible_type_def SURFACE_EVENT_TYPES_def)
  have "\<forall>(i, q) \<in> set rest. \<forall>r. pc_seq q = Some r \<longrightarrow> r < seq + 1" using 2(5) by fastforce
  from 2(1) [of seq, OF _ fs(1) one _ this] 2(4) fs(2,3)
  show ?case by (simp add: upt_conv_Cons del: upt_Suc)
qed

text \<open>
  Recovery does not disturb the model's view: a log that folds still folds with its
  closers appended, no node is replaced or lost, and the only new nodes are the synthetic
  results at the end.
\<close>

theorem repair_extends_surface:
  assumes "fold_window 0 events = Inr (st, reps)" and "interrupted_turn_closers events = Inr closers"
  shows "\<exists>st'. fold_window 0 (events @ closers) = Inr (st', reps)
     \<and> nodes st' = nodes st @ [length events ..< length events + length (answered_calls closers)]"
proof (cases "cur_turn (scan_log events)")
  case None
  with assms closers_Nil show ?thesis by (simp add: answered_calls_def)
next
  case (Some turn)
  then obtain es e where ev: "events = es @ [e]"
    by (cases events rule: rev_cases) (auto simp: start_cursor_def)
  from assms(2) Some obtain results steps where
    r: "close_calls turn (ev_time e) (ev_seq e + 1) (cur_pending (scan_log events)) = Inr results"
    and s: "close_step turn (cur_step (scan_log events)) (ev_time e) (ev_seq e + 1 + length results) = Inr steps"
    and cl: "closers = results @ steps @ [boundary_closer (TurnEnd turn Interrupted) (ev_time e)
       (ev_seq e + 1 + length results + length steps)]"
    unfolding ev by (rule closers_cases)
  have seq: "ev_seq (events ! k) = k" if "k < length events" for k
    using fold_window_seqs [OF assms(1) that] by simp
  then have len: "ev_seq e + 1 = length events" using seq [of "length es"] ev by (simp add: nth_append)
  have "\<forall>(i, p) \<in> set (cur_pending (scan_log events)). \<forall>q. pc_seq p = Some q \<longrightarrow> q < length events"
  proof clarify
    fix i p q assume "(i, p) \<in> set (cur_pending (scan_log events))" "pc_seq p = Some q"
    then obtain x where "x \<in> set events" "q = ev_seq x" using pending_call_seq by blast
    then show "q < length events" using seq by (auto simp: in_set_conv_nth)
  qed
  from fold_close_calls [OF r [unfolded len] assms(1) refl this]
  have 1: "fold_window 0 (events @ results)
      = Inr (st\<lparr>nodes := nodes st @ [length events ..< length events + length results]\<rparr>, reps)" .
  have 2: "fold_window 0 (events @ results @ steps)
      = Inr (st\<lparr>nodes := nodes st @ [length events ..< length events + length results]\<rparr>, reps)"
  proof (cases "cur_step (scan_log events)")
    case None
    with s 1 show ?thesis by (simp add: close_step_def)
  next
    case (Some n)
    with s have steps: "steps = [boundary_closer (StepEnd turn n) (ev_time e) (ev_seq e + 1 + length results)]"
      by (simp add: close_step_def and_then_Inr_iff)
    have "fold_window 0 ((events @ results) @ [boundary_closer (StepEnd turn n) (ev_time e) (ev_seq e + 1 + length results)])
        = Inr (st\<lparr>nodes := nodes st @ [length events ..< length events + length results]\<rparr>, reps)"
      using len by (intro fold_window_plain_ok [OF 1])
        (simp_all add: boundary_closer_def log_event_def is_surface_eligible_type_def SURFACE_EVENT_TYPES_def)
    then show ?thesis by (simp add: steps)
  qed
  have 3: "fold_window 0 (events @ closers)
      = Inr (st\<lparr>nodes := nodes st @ [length events ..< length events + length results]\<rparr>, reps)"
    using fold_window_plain_ok [OF 2, of "boundary_closer (TurnEnd turn Interrupted) (ev_time e)
        (length events + length results + length steps)"] cl [unfolded len]
    by (simp add: boundary_closer_def log_event_def is_surface_eligible_type_def SURFACE_EVENT_TYPES_def)
  have "answered_calls steps = []"
    using s by (auto simp: close_step_def answered_calls_def result_call_def boundary_closer_def log_event_def
        and_then_Inr_iff split: option.splits)
  then have "length (answered_calls closers) = length results"
    using close_calls_answers [OF r] close_calls_Inr [OF r]
    by (simp add: cl answered_calls_def result_call_def boundary_closer_def log_event_def)
  with 3 show ?thesis by simp
qed

section \<open>A crashed log\<close>

definition crash_message :: "assistant_data" where
  "crash_message =
     \<lparr>asst_turn = 1, asst_step = 1,
      asst_message = \<lparr>am_id = ''a'', am_content = [TextBlock ''hi'', ToolCallBlock ''c1'' ''read'' ''{}'', ToolCallBlock ''c2'' ''edit'' ''{}''],
                      am_provider = ''p'', am_model = ''m'', am_replay = None\<rparr>,
      asst_usage = None, asst_interrupted = False\<rparr>"

definition crash_example :: "session_event list" where
  "crash_example =
     [log_event (TurnStart 1) 0, log_event (StepStart 1 1) 1,
      append_event (AssistantMessageEvent crash_message) 2,
      log_event (ToolCallEvent 1 1 ''c1'' ''read'' ''{}'') 3]"

lemma crash_closers:
  "\<exists>closers. interrupted_turn_closers crash_example = Inr closers \<and> closers \<noteq> [] \<and> length closers = 4"
proof -
  have "is_ok (interrupted_turn_closers crash_example)
      \<and> (case interrupted_turn_closers crash_example of Inr cs \<Rightarrow> length cs = 4 | _ \<Rightarrow> False)" by code_simp
  then show ?thesis by (auto simp: is_ok_iff)
qed

theorem repair_closes_turn_witness:
  "\<exists>closers tr'. interrupted_turn_closers crash_example = Inr closers
     \<and> seed_session (crash_example @ closers) = Inr tr' \<and> open_turn tr' = None"
proof -
  have "is_ok (seed_session crash_example)" by code_simp
  then obtain tr where tr: "seed_session crash_example = Inr tr" by (auto simp: is_ok_iff)
  obtain closers where c: "interrupted_turn_closers crash_example = Inr closers" using crash_closers by blast
  from repair_closes_turn [OF tr c] c show ?thesis by blast
qed

theorem repair_idempotent_witness:
  "\<exists>closers. length closers = 4 \<and> interrupted_turn_closers (crash_example @ closers) = Inr []"
  using crash_closers repair_idempotent by blast

theorem repair_answers_exactly_unanswered_witness:
  "\<exists>closers. interrupted_turn_closers crash_example = Inr closers \<and> distinct (answered_calls closers)"
  using crash_closers repair_answers_exactly_unanswered by blast

theorem repair_extends_surface_witness:
  "\<exists>closers st'. fold_window 0 (crash_example @ closers) = Inr (st', []) \<and> length closers = 4"
proof -
  have f: "fold_window 0 crash_example = Inr (\<lparr>nodes = [2], replace_generation = 0\<rparr>, [])" by code_simp
  obtain closers where c: "interrupted_turn_closers crash_example = Inr closers" "length closers = 4"
    using crash_closers by blast
  from repair_extends_surface [OF f c(1)] c(2) show ?thesis by blast
qed

end
