(* ===== verification/Request_Header.thy ===== *)
theory Request_Header
  imports Session_Types
begin

text \<open>
  \<open>packages/core/session/src/request-header.ts\<close> and \<open>callConfigEquals\<close> of
  \<open>packages/llm/llm/src/call-config.ts\<close>: the canonical form of a request header, the
  comparison that decides whether a header snapshot must be logged, and the fold that
  recovers the header in force from a log.
\<close>

section \<open>Comparison and canonical form\<close>

text \<open>\<open>===\<close> between a present or absent number.\<close>

definition opt_num_eq :: "jnum option \<Rightarrow> jnum option \<Rightarrow> bool" where
  "opt_num_eq a b = (case (a, b) of (Some m, Some n) \<Rightarrow> num_eq m n | (None, None) \<Rightarrow> True | _ \<Rightarrow> False)"

definition call_config_equals :: "call_config \<Rightarrow> call_config \<Rightarrow> bool" where
  "call_config_equals a b =
     (if cc_provider a \<noteq> cc_provider b \<or> cc_model a \<noteq> cc_model b \<or> cc_effort a \<noteq> cc_effort b
        \<or> \<not> opt_num_eq (cc_temperature a) (cc_temperature b)
        \<or> \<not> opt_num_eq (cc_max_tokens a) (cc_max_tokens b) then False
      else case (cc_stop a, cc_stop b) of
             (Some xs, Some ys) \<Rightarrow> length xs = length ys \<and> (\<forall>i < length xs. xs ! i = ys ! i)
           | (None, None) \<Rightarrow> True
           | _ \<Rightarrow> False)"

definition canonical_header :: "epoch_header \<Rightarrow> epoch_header" where
  "canonical_header h =
     \<lparr>eh_config = eh_config h,
      eh_defaults = (case eh_defaults h of
         Some d \<Rightarrow> if default_effort d \<or> default_max_tokens d then Some d else None
       | None \<Rightarrow> None),
      eh_system = (case eh_system h of Some s \<Rightarrow> if length s > 0 then Some s else None | None \<Rightarrow> None),
      eh_tools = (case eh_tools h of Some ts \<Rightarrow> if length ts > 0 then Some ts else None | None \<Rightarrow> None)\<rparr>"

text \<open>Two values print to the same JSON text: member order counts, the two zeros print alike.\<close>

fun same_text :: "json \<Rightarrow> json \<Rightarrow> bool"
  and same_text_items :: "json list \<Rightarrow> json list \<Rightarrow> bool"
  and same_text_members :: "(string \<times> json) list \<Rightarrow> (string \<times> json) list \<Rightarrow> bool" where
  "same_text JNull JNull = True"
| "same_text (JBool a) (JBool b) = (a = b)"
| "same_text (JNum a) (JNum b) = num_eq a b"
| "same_text (JStr a) (JStr b) = (a = b)"
| "same_text (JArr xs) (JArr ys) = same_text_items xs ys"
| "same_text (JObj xs) (JObj ys) = same_text_members xs ys"
| "same_text _ _ = False"
| "same_text_items [] [] = True"
| "same_text_items (x # xs) (y # ys) = (same_text x y \<and> same_text_items xs ys)"
| "same_text_items _ _ = False"
| "same_text_members [] [] = True"
| "same_text_members ((k, v) # xs) ((l, w) # ys) = (k = l \<and> same_text v w \<and> same_text_members xs ys)"
| "same_text_members _ _ = False"

definition same_schema :: "tool_schema \<Rightarrow> tool_schema \<Rightarrow> bool" where
  "same_schema a b = same_text (schema_json a) (schema_json b)"

definition marker_of :: "(adapter_defaults \<Rightarrow> bool) \<Rightarrow> epoch_header \<Rightarrow> bool" where
  "marker_of f h = (case eh_defaults h of Some d \<Rightarrow> f d | None \<Rightarrow> False)"

definition header_equals :: "epoch_header \<Rightarrow> epoch_header \<Rightarrow> bool" where
  "header_equals a b =
     (if \<not> call_config_equals (eh_config a) (eh_config b)
        \<or> marker_of default_effort a \<noteq> marker_of default_effort b
        \<or> marker_of default_max_tokens a \<noteq> marker_of default_max_tokens b
        \<or> eh_system a \<noteq> eh_system b then False
      else let ats = (case eh_tools a of Some ts \<Rightarrow> ts | None \<Rightarrow> []);
               bts = (case eh_tools b of Some ts \<Rightarrow> ts | None \<Rightarrow> [])
           in length ats = length bts \<and> (\<forall>i < length ats. same_schema (ats ! i) (bts ! i)))"

section \<open>The fold\<close>

definition fold_header_event :: "session_event \<Rightarrow> epoch_header option \<Rightarrow> epoch_header option" where
  "fold_header_event e st = (case ev_payload e of RequestHeader h r s \<Rightarrow> Some (canonical_header h) | _ \<Rightarrow> st)"

definition fold_request_header :: "session_event list \<Rightarrow> epoch_header option \<Rightarrow> epoch_header option" where
  "fold_request_header events from = fold fold_header_event events from"

lemma fold_request_header_append:
  "fold_request_header (xs @ ys) st = fold_request_header ys (fold_request_header xs st)"
  by (simp add: fold_request_header_def)

lemma fold_request_header_Nil [simp]: "fold_request_header [] st = st"
  by (simp add: fold_request_header_def)

section \<open>Equality of canonical headers\<close>

lemma opt_num_eq_iff: "opt_num_eq a b \<longleftrightarrow> map_option canon_num a = map_option canon_num b"
  by (cases a; cases b) (simp_all add: opt_num_eq_def num_eq_canon)

text \<open>The value a JSON text denotes: members in order, one zero.\<close>

fun text_form :: "json \<Rightarrow> json" where
  "text_form (JNum n) = JNum (canon_num n)"
| "text_form (JArr xs) = JArr (map text_form xs)"
| "text_form (JObj kvs) = JObj (map (\<lambda>kv. (fst kv, text_form (snd kv))) kvs)"
| "text_form j = j"

lemma same_text_iff:
  "same_text a b \<longleftrightarrow> text_form a = text_form b"
  "same_text_items xs ys \<longleftrightarrow> map text_form xs = map text_form ys"
  "same_text_members kvs lvs \<longleftrightarrow>
     map (\<lambda>kv. (fst kv, text_form (snd kv))) kvs = map (\<lambda>kv. (fst kv, text_form (snd kv))) lvs"
  by (induction a b and xs ys and kvs lvs rule: same_text_same_text_items_same_text_members.induct)
    (auto simp: num_eq_canon)

text \<open>What a header says, up to the two zeros and to absent versus empty fields.\<close>

definition header_content :: "epoch_header \<Rightarrow> call_config \<times> (bool \<times> bool) \<times> string option \<times> json list" where
  "header_content h =
     ((eh_config h)\<lparr>cc_temperature := map_option canon_num (cc_temperature (eh_config h)),
                    cc_max_tokens := map_option canon_num (cc_max_tokens (eh_config h))\<rparr>,
      (marker_of default_effort h, marker_of default_max_tokens h),
      eh_system h,
      (case eh_tools h of Some ts \<Rightarrow> map (\<lambda>t. text_form (schema_json t)) ts | None \<Rightarrow> []))"

lemma call_config_equals_iff:
  "call_config_equals a b \<longleftrightarrow>
     a\<lparr>cc_temperature := map_option canon_num (cc_temperature a), cc_max_tokens := map_option canon_num (cc_max_tokens a)\<rparr>
   = b\<lparr>cc_temperature := map_option canon_num (cc_temperature b), cc_max_tokens := map_option canon_num (cc_max_tokens b)\<rparr>"
proof -
  have "(\<forall>i < length xs. xs ! i = ys ! i) \<and> length xs = length ys \<longleftrightarrow> xs = ys" for xs ys :: "string list"
    by (auto intro: nth_equalityI)
  then show ?thesis
    by (cases a; cases b)
      (auto simp: call_config_equals_def opt_num_eq_iff intro: nth_equalityI split: option.splits)
qed

lemma header_equals_iff: "header_equals a b \<longleftrightarrow> header_content a = header_content b"
proof -
  have "(length ats = length bts \<and> (\<forall>i < length ats. same_schema (ats ! i) (bts ! i)))
      \<longleftrightarrow> map (\<lambda>t. text_form (schema_json t)) ats = map (\<lambda>t. text_form (schema_json t)) bts" for ats bts
    by (auto simp: list_eq_iff_nth_eq same_schema_def same_text_iff(1))
  then show ?thesis
    by (auto simp: header_equals_def header_content_def call_config_equals_iff Let_def split: option.splits)
qed

text \<open>
  \<open>headerEquals\<close> is equality of content: two headers compare equal exactly when they
  agree on the call configuration (numbers up to the sign of zero), on the adapter-default
  markers, on the system prompt and, in order, on the tool schemas as printed. In particular
  the comparison is an equivalence.
\<close>

theorem header_equals_iff_content:
  "header_equals a b \<longleftrightarrow> header_content a = header_content b"
  by (rule header_equals_iff)

text \<open>
  The logged header is canonical: canonicalising twice changes nothing, it never
  changes the content of a header except that an empty system prompt becomes an absent one,
  and headers that differ only in spelling an absent prompt or tool list as an empty one
  compare equal after it.
\<close>

theorem canonical_header_normal:
  "canonical_header (canonical_header h) = canonical_header h
   \<and> header_content (canonical_header h)
     = header_content (h\<lparr>eh_system := (if eh_system h = Some [] then None else eh_system h)\<rparr>)
   \<and> header_equals (canonical_header (h\<lparr>eh_system := Some []\<rparr>)) (canonical_header (h\<lparr>eh_system := None\<rparr>))
   \<and> header_equals (canonical_header (h\<lparr>eh_tools := Some []\<rparr>)) (canonical_header (h\<lparr>eh_tools := None\<rparr>))"
  by (auto simp: canonical_header_def header_equals_iff header_content_def marker_of_def
      split: option.splits if_splits)

definition is_header_event :: "session_event \<Rightarrow> bool" where
  "is_header_event e \<longleftrightarrow> (case ev_payload e of RequestHeader h r s \<Rightarrow> True | _ \<Rightarrow> False)"

text \<open>
  The offline reconstruction gives the last header of the log: the fold returns the
  canonical form of the most recent header event, and the state it started from when the
  events contain none.
\<close>

theorem fold_request_header_last:
  "fold_request_header events from =
     (case find_last is_header_event events of
        None \<Rightarrow> from
      | Some e \<Rightarrow> (case ev_payload e of RequestHeader h r s \<Rightarrow> Some (canonical_header h) | _ \<Rightarrow> from))"
proof (induction events rule: rev_induct)
  case Nil
  then show ?case by simp
next
  case (snoc e events)
  then show ?case
    by (cases "ev_payload e")
      (simp_all add: fold_request_header_append is_header_event_def fold_request_header_def fold_header_event_def)
qed

end
