(* ===== verification/Session_Validate.thy ===== *)
theory Session_Validate
  imports Session_Types
begin

text \<open>
  The validators at the seed and load boundary of \<open>packages/core/session/src/index.ts\<close>: the
  creation header, the event envelope, identified messages, request headers. They inspect
  untrusted JSON values. The last section relates them to the typed events of this
  development: the envelope check accepts the stored form of a typed event exactly when the
  event meets the conditions of \<open>event_ok\<close>.
\<close>

section \<open>Session headers\<close>

datatype header_error =
    HeaderNotRecord | HeaderSeedLength | HeaderVersion | HeaderIdMismatch | HeaderCreatedAt
  | HeaderCwdType | HeaderCwdRelative | HeaderParent | HeaderSeededFlag | HeaderOrigin
  | HeaderDepth | HeaderPreset

text \<open>\<open>typeof v === 'number' && Number.isSafeInteger(v) && v >= 0\<close>\<close>

definition is_natural :: "json \<Rightarrow> bool" where
  "is_natural j \<longleftrightarrow> is_jnum j \<and> is_safe_integer (num_of j) \<and> 0 \<le> jnum_int (num_of j)"

text \<open>\<open>isAbsolute\<close> of \<open>node:path\<close> on POSIX systems.\<close>

definition is_absolute :: "string \<Rightarrow> bool" where
  "is_absolute p \<longleftrightarrow> p \<noteq> [] \<and> hd p = CHR ''/''"

definition absent_or :: "(json \<Rightarrow> bool) \<Rightarrow> string \<Rightarrow> json \<Rightarrow> bool" where
  "absent_or P k j = (case jget k j of None \<Rightarrow> True | Some v \<Rightarrow> P v)"

definition validate_session_header :: "string \<Rightarrow> json \<Rightarrow> (header_error, json) result" where
  "validate_session_header sid j =
     (if \<not> is_jobj j then Inl HeaderNotRecord
      else if jget ''seedLength'' j \<noteq> None then Inl HeaderSeedLength
      else if \<not> (is_jnum (jfield ''version'' j) \<and> num_eq (num_of (jfield ''version'' j)) (JInt SESSION_FORMAT_VERSION))
      then Inl HeaderVersion
      else if jget ''id'' j \<noteq> Some (JStr sid) then Inl HeaderIdMismatch
      else if \<not> is_natural (jfield ''createdAt'' j) then Inl HeaderCreatedAt
      else if \<not> absent_or is_jstr ''cwd'' j then Inl HeaderCwdType
      else if \<not> absent_or (\<lambda>v. is_absolute (str_of v)) ''cwd'' j then Inl HeaderCwdRelative
      else if \<not> absent_or is_jstr ''parentSession'' j then Inl HeaderParent
      else if jfield ''isSeeded'' j \<notin> {JBool True, JBool False} then Inl HeaderSeededFlag
      else if \<not> absent_or (\<lambda>v. v = JStr ''subagent'') ''origin'' j then Inl HeaderOrigin
      else if \<not> absent_or is_natural ''delegationDepth'' j then Inl HeaderDepth
      else if \<not> absent_or is_jstr ''agentPreset'' j then Inl HeaderPreset
      else Inr j)"

record session_header =
  sh_id :: string
  sh_created :: int
  sh_cwd :: "string option"
  sh_parent :: "string option"
  sh_seeded :: bool
  sh_subagent :: bool
  sh_depth :: "int option"
  sh_preset :: "string option"

definition session_header_json :: "session_header \<Rightarrow> json" where
  "session_header_json h =
     JObj ([(''version'', jint SESSION_FORMAT_VERSION), (''id'', JStr (sh_id h)), (''createdAt'', jint (sh_created h))]
       @ opt_field ''cwd'' (map_option JStr (sh_cwd h))
       @ opt_field ''parentSession'' (map_option JStr (sh_parent h))
       @ [(''isSeeded'', JBool (sh_seeded h))]
       @ opt_field ''origin'' (if sh_subagent h then Some (JStr ''subagent'') else None)
       @ opt_field ''delegationDepth'' (map_option jint (sh_depth h))
       @ opt_field ''agentPreset'' (map_option JStr (sh_preset h)))"

section \<open>Events\<close>

datatype shape_error =
    LegacyHeaderDelta nat
  | LegacyFallback
  | BadEventEnvelope nat
  | LacksProviderModel nat
  | BadEffort nat
  | BadAdapterDefaults nat
  | LacksIdentity
  | WrongRole string
  | BadSource
  | BadContent
  | NotModelSource
  | NotToolSource
  | NotOneResultBlock
  | MismatchedCallIds

definition nonempty_str :: "json \<Rightarrow> bool" where
  "nonempty_str j \<longleftrightarrow> is_jstr j \<and> str_of j \<noteq> []"

definition has_provider_model :: "json \<Rightarrow> bool" where
  "has_provider_model v \<longleftrightarrow>
     (if \<not> is_record v then False
      else nonempty_str (jfield ''provider'' v) \<and> nonempty_str (jfield ''model'' v))"

definition allowed_adapter_keys :: "string list" where
  "allowed_adapter_keys = [''reasoningEffort'', ''maxTokens'']"

fun jvalues :: "json \<Rightarrow> json list" where
  "jvalues (JObj kvs) = map snd kvs"
| "jvalues _ = []"

definition assert_adapter_defaults :: "json option \<Rightarrow> json \<Rightarrow> nat \<Rightarrow> (shape_error, unit) result" where
  "assert_adapter_defaults v config index =
     (case v of
        None \<Rightarrow> Inr ()
      | Some defaults \<Rightarrow>
          if \<not> is_jobj defaults then Inl (BadAdapterDefaults index)
          else reject_if
            (list_ex (\<lambda>k. k \<notin> set allowed_adapter_keys) (jkeys defaults)
             \<or> list_ex (\<lambda>m. m \<noteq> JBool True) (jvalues defaults)
             \<or> (jget ''reasoningEffort'' defaults = Some (JBool True) \<and> jget ''reasoningEffort'' config = None)
             \<or> (jget ''maxTokens'' defaults = Some (JBool True) \<and> jget ''maxTokens'' config = None))
            (BadAdapterDefaults index))"

definition message_event_types :: "string list" where
  "message_event_types = [''user/message'', ''assistant/message'', ''tool/result'']"

text \<open>The checks of a tool result's single block.\<close>

definition assert_result_block :: "json \<Rightarrow> json \<Rightarrow> (shape_error, unit) result" where
  "assert_result_block source content =
     (if jget ''kind'' source \<noteq> Some (JStr ''tool'') \<or> \<not> nonempty_str (jfield ''callId'' source)
      then Inl NotToolSource
      else case items_of content of
        [block] \<Rightarrow>
          if \<not> is_record block \<or> jget ''type'' block \<noteq> Some (JStr ''tool-result'') \<or> \<not> is_jarr (jfield ''content'' block)
          then Inl NotOneResultBlock
          else reject_if (jget ''toolCallId'' block \<noteq> jget ''callId'' source) MismatchedCallIds
      | _ \<Rightarrow> Inl NotOneResultBlock)"

definition assert_message_event_shape :: "json \<Rightarrow> (shape_error, unit) result" where
  "assert_message_event_shape event =
     (let type = str_of (jfield ''type'' event) in
      if type \<notin> set message_event_types then Inr ()
      else let data = jfield ''data'' event;
               message = (if type = ''user/message'' then data else jfield ''message'' data);
               expected_role = (if type = ''assistant/message'' then ''assistant'' else ''user'');
               source = jfield ''source'' message
           in if \<not> is_record message \<or> \<not> nonempty_str (jfield ''id'' message) then Inl LacksIdentity
              else if jget ''role'' message \<noteq> Some (JStr expected_role) then Inl (WrongRole expected_role)
              else if \<not> is_record source \<or> \<not> nonempty_str (jfield ''kind'' source) then Inl BadSource
              else if \<not> is_jarr (jfield ''content'' message) then Inl BadContent
              else if type = ''assistant/message'' then
                reject_if (jget ''kind'' source \<noteq> Some (JStr ''model'') \<or> \<not> has_provider_model source) NotModelSource
              else if type \<noteq> ''tool/result'' then Inr ()
              else assert_result_block source (jfield ''content'' message))"

definition assert_current_llm_shape :: "json \<Rightarrow> nat \<Rightarrow> (shape_error, unit) result" where
  "assert_current_llm_shape event index =
     and_then
       (if jget ''type'' event = Some (JStr ''request/header'') then
          (let header = jfield ''header'' (jfield ''data'' event);
               config = (if is_jobj header then jfield ''config'' header else JNull)
           in if \<not> has_provider_model config then Inl (LacksProviderModel index)
              else if \<not> absent_or nonempty_str ''reasoningEffort'' config then Inl (BadEffort index)
              else assert_adapter_defaults (jget ''adapterDefaults'' header) config index)
        else Inr ())
       (\<lambda>_. assert_message_event_shape event)"

definition envelope_keys :: "string list" where
  "envelope_keys = [''type'', ''seq'', ''time'', ''data'', ''surfaceOp'', ''sourceEventSeqs'', ''ignorable'']"

definition assert_session_event_envelope :: "json \<Rightarrow> nat \<Rightarrow> (shape_error, unit) result" where
  "assert_session_event_envelope event index =
     (if jget ''type'' event = Some (JStr ''request/header-delta'') then Inl (LegacyHeaderDelta index)
      else if list_ex (\<lambda>k. k \<notin> set envelope_keys) (jkeys event) then Inl (BadEventEnvelope index)
      else if \<not> is_jstr (jfield ''type'' event)
        \<or> safe_nat (jfield ''seq'' event) = None
        \<or> \<not> (is_jnum (jfield ''time'' event) \<and> is_safe_integer (num_of (jfield ''time'' event)))
        \<or> jget ''data'' event = None
        \<or> \<not> absent_or (\<lambda>v. v = JBool True) ''ignorable'' event
      then Inl (BadEventEnvelope index)
      else if str_of (jfield ''type'' event) \<in> {''request/header'', ''user/message'', ''assistant/message'', ''tool/result''}
      then assert_current_llm_shape event index
      else Inr ())"

definition assert_supported_request_header :: "string \<Rightarrow> json \<Rightarrow> nat \<Rightarrow> (shape_error, unit) result" where
  "assert_supported_request_header type data location =
     (if type = ''request/header-delta'' then Inl (LegacyHeaderDelta location)
      else reject_if (type = ''request/header'' \<and> is_jobj data \<and> jget ''reason'' data = Some (JStr ''fallback''))
        LegacyFallback)"

section \<open>Accepted headers\<close>

definition header_ok :: "session_header \<Rightarrow> bool" where
  "header_ok h \<longleftrightarrow> 0 \<le> sh_created h \<and> sh_created h \<le> MAX_SAFE_INTEGER
     \<and> (\<forall>c. sh_cwd h = Some c \<longrightarrow> is_absolute c)
     \<and> (\<forall>d. sh_depth h = Some d \<longrightarrow> 0 \<le> d \<and> d \<le> MAX_SAFE_INTEGER)"

lemma jget_opt_field [simp]:
  "jget k (JObj (opt_field l v @ rest)) = (if k = l \<and> v \<noteq> None then v else jget k (JObj rest))"
  "map_of (opt_field l v @ rest) k = (if k = l \<and> v \<noteq> None then v else map_of rest k)"
  "map_of (opt_field l v) k = (if k = l then v else None)"
  by (cases v; simp add: opt_field_def)+

lemma session_header_fields:
  "is_jobj (session_header_json h)"
  "jget ''seedLength'' (session_header_json h) = None"
  "jfield ''version'' (session_header_json h) = jint SESSION_FORMAT_VERSION"
  "jget ''id'' (session_header_json h) = Some (JStr (sh_id h))"
  "jfield ''createdAt'' (session_header_json h) = jint (sh_created h)"
  "jget ''cwd'' (session_header_json h) = map_option JStr (sh_cwd h)"
  "jget ''parentSession'' (session_header_json h) = map_option JStr (sh_parent h)"
  "jfield ''isSeeded'' (session_header_json h) = JBool (sh_seeded h)"
  "jget ''origin'' (session_header_json h) = (if sh_subagent h then Some (JStr ''subagent'') else None)"
  "jget ''delegationDepth'' (session_header_json h) = map_option jint (sh_depth h)"
  "jget ''agentPreset'' (session_header_json h) = map_option JStr (sh_preset h)"
  by (simp_all add: session_header_json_def jfield_def del: map_of_append)

lemma absent_or_cases:
  "jget k j = map_option f v \<Longrightarrow> absent_or P k j \<longleftrightarrow> (\<forall>x. v = Some x \<longrightarrow> P (f x))"
  by (cases v) (simp_all add: absent_or_def)

lemma is_natural_jint: "is_natural (jint i) \<longleftrightarrow> 0 \<le> i \<and> i \<le> MAX_SAFE_INTEGER"
  by (auto simp: is_natural_def MAX_SAFE_INTEGER_def)

lemma session_header_checks:
  "absent_or is_jstr ''cwd'' (session_header_json h)"
  "absent_or (\<lambda>v. is_absolute (str_of v)) ''cwd'' (session_header_json h) \<longleftrightarrow> (\<forall>c. sh_cwd h = Some c \<longrightarrow> is_absolute c)"
  "absent_or is_jstr ''parentSession'' (session_header_json h)"
  "absent_or (\<lambda>v. v = JStr ''subagent'') ''origin'' (session_header_json h)"
  "absent_or is_natural ''delegationDepth'' (session_header_json h)
     \<longleftrightarrow> (\<forall>d. sh_depth h = Some d \<longrightarrow> 0 \<le> d \<and> d \<le> MAX_SAFE_INTEGER)"
  "absent_or is_jstr ''agentPreset'' (session_header_json h)"
  by (simp_all add: absent_or_cases [OF session_header_fields(6)] absent_or_cases [OF session_header_fields(7)]
      absent_or_cases [OF session_header_fields(10)] absent_or_cases [OF session_header_fields(11)] is_natural_jint)
    (simp add: absent_or_def session_header_fields)

text \<open>
  The header validator accepts the stored form of a session header exactly when its
  numbers are non-negative safe integers and its working directory is absolute, and returns
  the stored value unchanged; for any other session id it always refuses.
\<close>

theorem validate_session_header_exact:
  "validate_session_header sid (session_header_json h) = Inr (session_header_json h)
   \<longleftrightarrow> sid = sh_id h \<and> header_ok h"
  by (simp add: validate_session_header_def session_header_fields session_header_checks is_natural_jint
      header_ok_def) auto

section \<open>Accepted events\<close>

definition typed_payload_types :: "string list" where
  "typed_payload_types =
     [''turn/start'', ''turn/end'', ''step/start'', ''step/end'', ''user/message'', ''assistant/chunk'',
      ''assistant/message'', ''tool/call'', ''tool/result'', ''request/header'', ''request/context'',
      ''session/end-seed'', ''agent/inbox/spliced'', ''compaction/start'', ''compaction/summary'',
      ''compaction/end'', ''compaction/prune'', ''goal/change'']"

text \<open>An event of another package does not carry the type of a payload modelled here.\<close>

definition payload_tagged :: "payload \<Rightarrow> bool" where
  "payload_tagged p \<longleftrightarrow> (case p of OtherEvent t j \<Rightarrow> t \<notin> set typed_payload_types | _ \<Rightarrow> True)"

fun source_kind :: "message_source \<Rightarrow> string" where
  "source_kind UserSource = ''user''"
| "source_kind (PluginSource p rest) = ''plugin''"
| "source_kind (ModelSource p m r) = ''model''"
| "source_kind (ToolSource c) = ''tool''"
| "source_kind (OtherSource k rest) = k"

definition payload_ok :: "payload \<Rightarrow> bool" where
  "payload_ok p \<longleftrightarrow>
     (case p of
        UserMessageEvent m \<Rightarrow> um_id m \<noteq> [] \<and> source_kind (um_source m) \<noteq> []
      | AssistantMessageEvent d \<Rightarrow> am_id (asst_message d) \<noteq> []
          \<and> am_provider (asst_message d) \<noteq> [] \<and> am_model (asst_message d) \<noteq> []
      | ToolResultEvent d \<Rightarrow> tr_id (res_message d) \<noteq> [] \<and> tr_call_id (res_message d) \<noteq> []
          \<and> tr_block_call_id (res_message d) = tr_call_id (res_message d)
      | RequestHeader h r s \<Rightarrow>
          cc_provider (eh_config h) \<noteq> [] \<and> cc_model (eh_config h) \<noteq> [] \<and> cc_effort (eh_config h) \<noteq> Some []
          \<and> (\<forall>d. eh_defaults h = Some d \<longrightarrow> (default_effort d \<longrightarrow> cc_effort (eh_config h) \<noteq> None)
                \<and> (default_max_tokens d \<longrightarrow> cc_max_tokens (eh_config h) \<noteq> None))
      | OtherEvent t j \<Rightarrow> t \<noteq> ''request/header-delta''
      | _ \<Rightarrow> True)"

definition event_ok :: "session_event \<Rightarrow> bool" where
  "event_ok e \<longleftrightarrow> payload_ok (ev_payload e) \<and> int (ev_seq e) \<le> MAX_SAFE_INTEGER
     \<and> \<bar>ev_time e\<bar> \<le> MAX_SAFE_INTEGER"

lemma event_json_fields [simp]:
  "jget ''type'' (event_json e) = Some (JStr (ev_type e))"
  "jfield ''type'' (event_json e) = JStr (ev_type e)"
  "jfield ''seq'' (event_json e) = jint (int (ev_seq e))"
  "jfield ''time'' (event_json e) = jint (ev_time e)"
  "jget ''data'' (event_json e) = Some (payload_json (ev_payload e))"
  "jfield ''data'' (event_json e) = payload_json (ev_payload e)"
  "absent_or (\<lambda>v. v = JBool True) ''ignorable'' (event_json e)"
  "\<not> list_ex (\<lambda>k. k \<notin> set envelope_keys) (jkeys (event_json e))"
  by (auto simp: event_json_def jfield_def absent_or_def marker_def envelope_keys_def opt_field_def
      split: option.splits)

lemma source_json_fields [simp]:
  "is_record (source_json s)" "jfield ''kind'' (source_json s) = JStr (source_kind s)"
  "jget ''kind'' (source_json s) = Some (JStr (source_kind s))"
  by (cases s; simp add: is_record_def jfield_def)+

lemma message_object_fields [simp]:
  "is_record (message_object i r c s)" "jfield ''id'' (message_object i r c s) = JStr i"
  "jget ''role'' (message_object i r c s) = Some (JStr r)" "jfield ''content'' (message_object i r c s) = JArr c"
  "jfield ''source'' (message_object i r c s) = source_json s"
  by (simp_all add: message_object_def is_record_def jfield_def)

lemma nonempty_str_JStr [simp]: "nonempty_str (JStr s) \<longleftrightarrow> s \<noteq> []"
  by (simp add: nonempty_str_def)

lemma message_shape_iff:
  assumes "payload_tagged (ev_payload e)" and "\<not> (\<exists>h r s. ev_payload e = RequestHeader h r s)"
    and "\<not> (\<exists>t j. ev_payload e = OtherEvent t j)"
  shows "is_ok (assert_message_event_shape (event_json e)) \<longleftrightarrow> payload_ok (ev_payload e)"
proof (cases "ev_payload e")
  case (UserMessageEvent m)
  then show ?thesis
    by (simp add: assert_message_event_shape_def Let_def message_event_types_def payload_ok_def user_message_json_def)
next
  case (AssistantMessageEvent d)
  have m: "jfield ''message'' (payload_json (AssistantMessageEvent d)) = assistant_message_json (asst_message d)"
    by (simp add: jfield_def)
  have "has_provider_model (source_json (ModelSource p m r)) \<longleftrightarrow> p \<noteq> [] \<and> m \<noteq> []" for p m r
    by (simp add: has_provider_model_def is_record_def jfield_def)
  with AssistantMessageEvent m show ?thesis
    by (simp add: assert_message_event_shape_def Let_def message_event_types_def payload_ok_def
        assistant_message_json_def is_ok_iff del: payload_json.simps source_json.simps)
next
  case (ToolResultEvent d)
  have m: "jfield ''message'' (payload_json (ToolResultEvent d)) = tool_result_message_json (res_message d)"
    by (simp add: jfield_def tool_result_data_json_def tool_result_message_json_def)
  have b: "is_record (tool_result_block_json t c)" "jget ''type'' (tool_result_block_json t c) = Some (JStr ''tool-result'')"
    "jfield ''content'' (tool_result_block_json t c) = c"
    "jget ''toolCallId'' (tool_result_block_json t c) = Some (JStr (tr_block_call_id t))" for t c
    by (simp_all add: tool_result_block_json_def is_record_def jfield_def)
  have s: "jfield ''callId'' (source_json (ToolSource c)) = JStr c" "jget ''callId'' (source_json (ToolSource c)) = Some (JStr c)" for c
    by (simp_all add: jfield_def)
  from ToolResultEvent m b s show ?thesis
    by (auto simp: assert_message_event_shape_def Let_def message_event_types_def payload_ok_def
        tool_result_message_json_def assert_result_block_def is_ok_iff simp del: payload_json.simps source_json.simps)
qed (use assms in \<open>auto simp: assert_message_event_shape_def message_event_types_def payload_ok_def Let_def\<close>)

lemma config_json_fields:
  "is_record (config_json c)"
  "jfield ''provider'' (config_json c) = JStr (cc_provider c)"
  "jfield ''model'' (config_json c) = JStr (cc_model c)"
  "jget ''reasoningEffort'' (config_json c) = map_option JStr (cc_effort c)"
  "jget ''maxTokens'' (config_json c) = map_option JNum (cc_max_tokens c)"
  by (simp_all add: config_json_def jfield_def is_record_def del: map_of_append)

lemma header_json_fields:
  "is_jobj (header_json h)"
  "jfield ''config'' (header_json h) = config_json (eh_config h)"
  "jget ''adapterDefaults'' (header_json h) = map_option defaults_json (eh_defaults h)"
  by (simp_all add: header_json_def jfield_def del: map_of_append)

lemma defaults_json_fields:
  "is_jobj (defaults_json d)"
  "\<not> list_ex (\<lambda>k. k \<notin> set allowed_adapter_keys) (jkeys (defaults_json d))"
  "\<not> list_ex (\<lambda>m. m \<noteq> JBool True) (jvalues (defaults_json d))"
  "jget ''reasoningEffort'' (defaults_json d) = Some (JBool True) \<longleftrightarrow> default_effort d"
  "jget ''maxTokens'' (defaults_json d) = Some (JBool True) \<longleftrightarrow> default_max_tokens d"
  by (simp_all add: defaults_json_def marker_def allowed_adapter_keys_def opt_field_def)

lemma is_ok_reject_if [simp]: "is_ok (reject_if b e) \<longleftrightarrow> \<not> b"
  by (simp add: is_ok_iff)

lemma is_ok_and_then: "is_ok (and_then m f) \<longleftrightarrow> (\<exists>x. m = Inr x \<and> is_ok (f x))"
  by (cases m) simp_all

lemma is_ok_if: "is_ok (if b then m else n) \<longleftrightarrow> (if b then is_ok m else is_ok n)"
  by simp

lemma request_header_shape_iff:
  assumes "ev_payload e = RequestHeader h r s"
  shows "is_ok (assert_current_llm_shape (event_json e) i) \<longleftrightarrow> payload_ok (ev_payload e)"
proof -
  have header: "jfield ''header'' (payload_json (RequestHeader h r s)) = header_json h"
    by (simp add: jfield_def)
  have model: "has_provider_model (config_json (eh_config h))
      \<longleftrightarrow> cc_provider (eh_config h) \<noteq> [] \<and> cc_model (eh_config h) \<noteq> []"
    by (simp add: has_provider_model_def config_json_fields)
  have effort: "absent_or nonempty_str ''reasoningEffort'' (config_json (eh_config h)) \<longleftrightarrow> cc_effort (eh_config h) \<noteq> Some []"
    by (auto simp: absent_or_cases [OF config_json_fields(4)])
  have defaults: "is_ok (assert_adapter_defaults (map_option defaults_json (eh_defaults h)) (config_json (eh_config h)) i)
      \<longleftrightarrow> (\<forall>d. eh_defaults h = Some d \<longrightarrow> (default_effort d \<longrightarrow> cc_effort (eh_config h) \<noteq> None)
            \<and> (default_max_tokens d \<longrightarrow> cc_max_tokens (eh_config h) \<noteq> None))"
    by (cases "eh_defaults h") (auto simp: assert_adapter_defaults_def defaults_json_fields config_json_fields)
  have msg: "assert_message_event_shape (event_json e) = Inr ()"
    using assms by (simp add: assert_message_event_shape_def message_event_types_def)
  show ?thesis
    using assms
    by (simp add: assert_current_llm_shape_def Let_def msg header header_json_fields model effort
        payload_ok_def is_ok_and_then is_ok_iff [symmetric] defaults [unfolded is_ok_iff] del: payload_json.simps)
      (use defaults in \<open>auto simp: is_ok_iff\<close>)
qed

text \<open>
  Claim C39. The load boundary accepts the stored form of a typed event exactly when the event
  is well formed: its sequence number and time are safe integers, its message has an id and
  the source its role requires, a tool result's block names the call its source names, and a
  header's adapter-default markers mark fields that are present.
\<close>

theorem envelope_accepts_exactly_ok:
  assumes "payload_tagged (ev_payload e)"
  shows "is_ok (assert_session_event_envelope (event_json e) i) \<longleftrightarrow> event_ok e"
proof -
  let ?checked = "ev_type e \<in> {''request/header'', ''user/message'', ''assistant/message'', ''tool/result''}"
  have shape: "is_ok (if ?checked then assert_current_llm_shape (event_json e) i else Inr ()) \<longleftrightarrow> payload_ok (ev_payload e)"
    if "ev_type e \<noteq> ''request/header-delta''"
  proof (cases "ev_payload e")
    case (RequestHeader h r s)
    then show ?thesis using request_header_shape_iff [OF RequestHeader] by simp
  next
    case (OtherEvent t j)
    with assms that show ?thesis by (auto simp: payload_tagged_def typed_payload_types_def payload_ok_def)
  qed (use message_shape_iff [OF assms] in
      \<open>simp add: assert_current_llm_shape_def payload_ok_def\<close>)+
  have delta: "ev_type e = ''request/header-delta'' \<longleftrightarrow> (\<exists>j. ev_payload e = OtherEvent ''request/header-delta'' j)"
    by (cases "ev_payload e") auto
  have time: "is_safe_integer (JInt (ev_time e)) \<longleftrightarrow> \<bar>ev_time e\<bar> \<le> MAX_SAFE_INTEGER" by auto
  show ?thesis
  proof (cases "ev_type e = ''request/header-delta''")
    case True
    then show ?thesis using delta
      by (auto simp: assert_session_event_envelope_def event_ok_def payload_ok_def)
  next
    case False
    have "is_ok (assert_session_event_envelope (event_json e) i) \<longleftrightarrow>
        int (ev_seq e) \<le> MAX_SAFE_INTEGER \<and> is_safe_integer (JInt (ev_time e))
        \<and> is_ok (if ?checked then assert_current_llm_shape (event_json e) i else Inr ())"
      using False
      by (simp add: assert_session_event_envelope_def is_ok_if del: is_safe_integer.simps)
    then show ?thesis using shape [OF False] time by (auto simp: event_ok_def)
  qed
qed

text \<open>
  Whatever JSON was loaded, an accepted tool result is internally consistent: it has
  one block, and the block answers the very call the message's source names.
\<close>

theorem accepted_tool_result_consistent:
  assumes "assert_session_event_envelope v i = Inr ()" and "jget ''type'' v = Some (JStr ''tool/result'')"
  shows "\<exists>c block. c \<noteq> [] \<and> jfield ''content'' (jfield ''message'' (jfield ''data'' v)) = JArr [block]
     \<and> jget ''callId'' (jfield ''source'' (jfield ''message'' (jfield ''data'' v))) = Some (JStr c)
     \<and> jget ''toolCallId'' block = Some (JStr c) \<and> safe_nat (jfield ''seq'' v) \<noteq> None"
proof -
  have type: "jfield ''type'' v = JStr ''tool/result''" using assms(2) by (simp add: jfield_def)
  from assms have seq: "safe_nat (jfield ''seq'' v) \<noteq> None"
    and shape: "assert_message_event_shape v = Inr ()"
    by (auto simp: assert_session_event_envelope_def type assert_current_llm_shape_def and_then_Inr_iff split: if_splits)
  let ?m = "jfield ''message'' (jfield ''data'' v)"
  from shape have arr: "is_jarr (jfield ''content'' ?m)"
    and block: "assert_result_block (jfield ''source'' ?m) (jfield ''content'' ?m) = Inr ()"
    by (auto simp: assert_message_event_shape_def type message_event_types_def Let_def split: if_splits)
  from block obtain b where b: "items_of (jfield ''content'' ?m) = [b]"
    and ids: "jget ''toolCallId'' b = jget ''callId'' (jfield ''source'' ?m)"
    and c: "nonempty_str (jfield ''callId'' (jfield ''source'' ?m))"
    by (auto simp: assert_result_block_def split: if_splits list.splits)
  from c obtain c where "jget ''callId'' (jfield ''source'' ?m) = Some (JStr c)" "c \<noteq> []"
    by (auto simp: nonempty_str_def jfield_def is_jstr_conv split: option.splits)
  moreover have "jfield ''content'' ?m = JArr [b]" using arr b by (cases "jfield ''content'' ?m") auto
  ultimately show ?thesis using ids seq by auto
qed

section \<open>Examples\<close>

definition valid_result_event :: session_event where
  "valid_result_event =
     append_event (ToolResultEvent
       \<lparr>res_turn = 1, res_step = 1,
        res_message = \<lparr>tr_id = ''m'', tr_call_id = ''c'', tr_block_call_id = ''c'', tr_content = [], tr_is_error = None\<rparr>,
        res_error = None, res_meta = None\<rparr>) 4"

theorem envelope_accepts_exactly_ok_witness:
  "payload_tagged (ev_payload valid_result_event)
   \<and> (is_ok (assert_session_event_envelope (event_json valid_result_event) 4) \<longleftrightarrow> event_ok valid_result_event)"
proof -
  have t: "payload_tagged (ev_payload valid_result_event)" by code_simp
  then show ?thesis using envelope_accepts_exactly_ok [OF t] by simp
qed

theorem accepted_tool_result_consistent_witness:
  "\<exists>block. jfield ''content'' (jfield ''message'' (jfield ''data'' (event_json valid_result_event))) = JArr [block]"
proof -
  have "assert_session_event_envelope (event_json valid_result_event) 4 = Inr ()" by code_simp
  moreover have "jget ''type'' (event_json valid_result_event) = Some (JStr ''tool/result'')" by code_simp
  ultimately show ?thesis using accepted_tool_result_consistent by blast
qed

end
