(* ===== verification/Session_Log.thy ===== *)
theory Session_Log
  imports Surface Request_Header Session_Validate
begin

text \<open>
  The class \<open>Session\<close> of \<open>packages/core/session/src/index.ts\<close>: an append-only event log
  with its surface manager, creation header and three caches (the request header in force, the
  request context, the derived messages). Every method is one definition on the session
  record; what a failing call leaves behind is part of its result. Appending is split where
  the store intervenes: \<open>append_prepare\<close> builds and validates the event, \<open>append_commit\<close>
  pushes it.
\<close>

section \<open>Incremental caches\<close>

text \<open>
  A cache of a fold over a growing log: the value and the number of events it has consumed.
  Refreshing it must give the fold of the whole log.
\<close>

definition cache_valid :: "('e list \<Rightarrow> 's) \<Rightarrow> 'e list \<Rightarrow> 's \<times> nat \<Rightarrow> bool" where
  "cache_valid spec events c \<longleftrightarrow> snd c \<le> length events \<and> fst c = spec (take (snd c) events)"

locale incremental_cache =
  fixes refresh :: "'e list \<Rightarrow> 's \<times> nat \<Rightarrow> 's \<times> nat"
    and spec :: "'e list \<Rightarrow> 's"
  assumes refresh_valid: "cache_valid spec events c \<Longrightarrow> refresh events c = (spec events, length events)"
begin

lemma read_current: "cache_valid spec events c \<Longrightarrow> fst (refresh events c) = spec events"
  by (simp add: refresh_valid)

lemma refresh_keeps: "cache_valid spec events c \<Longrightarrow> cache_valid spec events (refresh events c)"
  by (simp add: refresh_valid cache_valid_def)

lemma push_keeps: "cache_valid spec events c \<Longrightarrow> cache_valid spec (events @ [e]) c"
  by (simp add: cache_valid_def)

lemma start_valid: "cache_valid spec events (spec [], 0)"
  by (simp add: cache_valid_def)

lemma read_stable: "cache_valid spec events c \<Longrightarrow> refresh events (refresh events c) = refresh events c"
  by (simp add: refresh_valid cache_valid_def)

end

text \<open>The refresh of \<open>requestHeader\<close>: fold the unseen events onto the held header.\<close>

definition refresh_header :: "session_event list \<Rightarrow> epoch_header option \<times> nat \<Rightarrow> epoch_header option \<times> nat" where
  "refresh_header events c =
     (if snd c < length events
      then (fold_request_header (slice (snd c) (length events) events) (fst c), length events)
      else c)"

text \<open>The refresh of \<open>requestContext\<close>: the last context event wins.\<close>

definition fold_context_event :: "session_event \<Rightarrow> request_context option \<Rightarrow> request_context option" where
  "fold_context_event e st = (case ev_payload e of RequestContextEvent c \<Rightarrow> Some c | _ \<Rightarrow> st)"

definition refresh_context :: "session_event list \<Rightarrow> request_context option \<times> nat \<Rightarrow> request_context option \<times> nat" where
  "refresh_context events c =
     (if snd c < length events
      then (fold fold_context_event (slice (snd c) (length events) events) (fst c), length events)
      else c)"

lemma take_slice_all: "n \<le> length events \<Longrightarrow> take n events @ slice n (length events) events = events"
  by (simp add: slice_def)

interpretation header_cache: incremental_cache refresh_header "\<lambda>events. fold_request_header events None"
proof unfold_locales
  fix events c
  assume v: "cache_valid (\<lambda>events. fold_request_header events None) events c"
  then have "fold_request_header (slice (snd c) (length events) events) (fst c)
      = fold_request_header (take (snd c) events @ slice (snd c) (length events) events) None"
    by (simp add: cache_valid_def fold_request_header_append)
  with v show "refresh_header events c = (fold_request_header events None, length events)"
    by (cases c) (auto simp: refresh_header_def cache_valid_def take_slice_all)
qed

interpretation context_cache: incremental_cache refresh_context "\<lambda>events. fold fold_context_event events None"
proof unfold_locales
  fix events c
  assume v: "cache_valid (\<lambda>events. fold fold_context_event events None) events c"
  then have "fold fold_context_event (slice (snd c) (length events) events) (fst c)
      = fold fold_context_event (take (snd c) events @ slice (snd c) (length events) events) None"
    by (simp add: cache_valid_def)
  with v show "refresh_context events c = (fold fold_context_event events None, length events)"
    by (cases c) (auto simp: refresh_context_def cache_valid_def take_slice_all)
qed

section \<open>The session\<close>

datatype session_error =
    SeedNotJson nat
  | SeedShape shape_error
  | SeedSeq nat nat
  | SeedSurface nat surface_error
  | SessionHeaderError header_error
  | SeededWithoutSeed
  | SeededWithoutCount
  | UnseededCount
  | InheritedTooLong
  | LogNumber brand_error
  | DataNotJson string
  | MetadataNotJson string
  | AppendShape shape_error
  | AppendSurface surface_error
  | DanglingNode nat

record session =
  s_log :: "session_event list"
  s_surface :: surface_manager
  s_header :: session_header
  s_inherited :: nat
  s_first_live :: nat
  s_snapshot :: "session_event list option"
  s_header_fold :: "epoch_header option \<times> nat"
  s_context_fold :: "request_context option \<times> nat"
  s_derived :: "message list"
  s_derived_nodes :: nat
  s_derived_generation :: nat

text \<open>
  \<open>snapshotJsonValue\<close> on a value that is already a JSON tree: a detached copy, or
  \<open>undefined\<close> when a negative zero occurs in it (the value JSON text would lose).
\<close>

fun lossless :: "json \<Rightarrow> bool" where
  "lossless (JNum n) = (n \<noteq> JNegZero)"
| "lossless (JArr xs) = list_all lossless xs"
| "lossless (JObj kvs) = list_all (\<lambda>kv. lossless (snd kv)) kvs"
| "lossless _ = True"

section \<open>Appending\<close>

definition opt_lossless :: "json option \<Rightarrow> bool" where
  "opt_lossless v = (case v of None \<Rightarrow> True | Some j \<Rightarrow> lossless j)"

text \<open>The checks \<open>append\<close> makes of its arguments alone.\<close>

definition append_precheck ::
    "payload \<Rightarrow> json option \<Rightarrow> json option \<Rightarrow> session \<Rightarrow> (session_error, unit) result" where
  "append_precheck p op sources s =
     and_then (reject_if (\<not> lossless (payload_json p)) (DataNotJson (event_type p))) (\<lambda>_.
     and_then (rethrow AppendShape (assert_supported_request_header (event_type p) (payload_json p) (length (s_log s)))) (\<lambda>_.
       reject_if (\<not> (opt_lossless op \<and> opt_lossless sources)) (MetadataNotJson (event_type p))))"

text \<open>Building the event and planning it against the surface. The surface manager keeps what it
  processed and, on success, the plan of the pending event.\<close>

definition append_validate ::
    "int \<Rightarrow> payload \<Rightarrow> json option \<Rightarrow> json option \<Rightarrow> session \<Rightarrow> (session_error, session_event) result \<times> session" where
  "append_validate now p op sources s =
     (case session_seq (JInt (int (length (s_log s)))) of
        Inl err \<Rightarrow> (Inl (LogNumber err), s)
      | Inr n \<Rightarrow>
          let e = \<lparr>ev_payload = p, ev_seq = n, ev_time = now, ev_surface_op = op,
                   ev_sources = sources, ev_ignorable = False\<rparr>
          in case validate_next (s_log s) e (s_surface s) of
               (Inl err, m) \<Rightarrow> (Inl (AppendSurface err), s\<lparr>s_surface := m\<rparr>)
             | (Inr _, m) \<Rightarrow> (Inr e, s\<lparr>s_surface := m\<rparr>))"

text \<open>Everything \<open>append\<close> does before the event enters the log.\<close>

definition append_prepare ::
    "int \<Rightarrow> payload \<Rightarrow> json option \<Rightarrow> json option \<Rightarrow> session \<Rightarrow> (session_error, session_event) result \<times> session" where
  "append_prepare now p op sources s =
     (case append_precheck p op sources s of
        Inl err \<Rightarrow> (Inl err, s)
      | Inr _ \<Rightarrow> append_validate now p op sources s)"

definition append_commit :: "session_event \<Rightarrow> session \<Rightarrow> session" where
  "append_commit e s = s\<lparr>s_log := s_log s @ [e], s_snapshot := None\<rparr>"

text \<open>\<open>append\<close> on a session no store has entered.\<close>

definition session_append ::
    "int \<Rightarrow> payload \<Rightarrow> json option \<Rightarrow> json option \<Rightarrow> session \<Rightarrow> (session_error, session_event) result \<times> session" where
  "session_append now p op sources s =
     (case append_prepare now p op sources s of
        (Inl err, s') \<Rightarrow> (Inl err, s')
      | (Inr e, s') \<Rightarrow> (Inr e, append_commit e s'))"

section \<open>Construction\<close>

datatype seed_mode = SnapshotSeed | RestoreSeed

text \<open>The loop over the seed: each event is checked, planned against the surface so far, and
  pushed.\<close>

definition seed_event ::
    "seed_mode \<Rightarrow> session_event \<Rightarrow> session_event list \<times> surface_manager \<Rightarrow>
     (session_error, session_event list \<times> surface_manager) result" where
  "seed_event mode e acc =
     (let (events, m) = acc; index = length events in
      if mode = SnapshotSeed \<and> \<not> lossless (event_json e) then Inl (SeedNotJson index)
      else and_then (rethrow SeedShape (assert_session_event_envelope (event_json e) index)) (\<lambda>_.
        and_then (rethrow SeedShape (assert_supported_request_header (ev_type e) (payload_json (ev_payload e)) index)) (\<lambda>_.
          if ev_seq e \<noteq> index then Inl (SeedSeq index (ev_seq e))
          else case validate_next events e m of
                 (Inl err, m') \<Rightarrow> Inl (SeedSurface index err)
               | (Inr _, m') \<Rightarrow> Inr (events @ [e], m'))))"

definition minimal_header :: "string \<Rightarrow> int \<Rightarrow> session_header" where
  "minimal_header sid now =
     \<lparr>sh_id = sid, sh_created = now, sh_cwd = None, sh_parent = None, sh_seeded = False,
      sh_subagent = False, sh_depth = None, sh_preset = None\<rparr>"

definition checked_header :: "string \<Rightarrow> session_header \<Rightarrow> (session_error, session_header) result" where
  "checked_header sid h =
     and_then (rethrow SessionHeaderError (validate_session_header sid (session_header_json h))) (\<lambda>_. Inr h)"

definition new_session :: "session_event list \<Rightarrow> surface_manager \<Rightarrow> session_header \<Rightarrow> nat \<Rightarrow> nat \<Rightarrow> session" where
  "new_session events m h inherited first_live =
     \<lparr>s_log = events, s_surface = m, s_header = h, s_inherited = inherited, s_first_live = first_live,
      s_snapshot = None, s_header_fold = (None, 0), s_context_fold = (None, 0),
      s_derived = [], s_derived_nodes = 0, s_derived_generation = 0\<rparr>"

definition finish_construction ::
    "int \<Rightarrow> bool \<Rightarrow> session_event list \<Rightarrow> surface_manager \<Rightarrow> session_header \<Rightarrow> jnum option \<Rightarrow>
     (session_error, session) result" where
  "finish_construction now seeded events m h supplied =
     (if sh_seeded h \<and> \<not> seeded then Inl SeededWithoutSeed
      else if sh_seeded h \<and> supplied = None then Inl SeededWithoutCount
      else and_then (rethrow LogNumber (session_log_offset (case supplied of Some n \<Rightarrow> n | None \<Rightarrow> JInt 0))) (\<lambda>inherited.
        if \<not> sh_seeded h \<and> inherited \<noteq> 0 then Inl UnseededCount
        else if inherited > length events then Inl InheritedTooLong
        else let s = new_session events m h inherited (length events) in
          if seeded \<and> map_option ev_type (last_opt events) \<noteq> Some ''session/end-seed''
          then (case session_append now EndSeed None None s of
                  (Inl err, _) \<Rightarrow> Inl err
                | (Inr _, s') \<Rightarrow> Inr s')
          else Inr s))"

definition construct_session ::
    "int \<Rightarrow> string \<Rightarrow> session_event list option \<Rightarrow> session_header option \<Rightarrow> seed_mode \<Rightarrow> jnum option \<Rightarrow>
     (session_error, session) result" where
  "construct_session now sid seed header mode supplied =
     and_then (if mode = RestoreSeed then
                 (case header of Some h \<Rightarrow> and_then (checked_header sid h) (\<lambda>h. Inr (Some h))
                  | None \<Rightarrow> Inl (SessionHeaderError HeaderNotRecord))
               else Inr None) (\<lambda>restored.
       and_then (fold_result (seed_event mode) (case seed of Some es \<Rightarrow> es | None \<Rightarrow> []) ([], new_manager 0)) (\<lambda>(events, m).
         and_then (rethrow LogNumber (session_log_offset (JInt (int (length events))))) (\<lambda>_.
           and_then (case restored of
                       Some h \<Rightarrow> Inr h
                     | None \<Rightarrow> checked_header sid (case header of Some h \<Rightarrow> h | None \<Rightarrow> minimal_header sid now)) (\<lambda>h.
             finish_construction now (seed \<noteq> None) events m h supplied))))"

section \<open>Reading\<close>

definition session_event_at :: "nat \<Rightarrow> session \<Rightarrow> session_event option" where
  "session_event_at seq s = elem_at (s_log s) seq"

definition session_seq_of :: "session \<Rightarrow> nat" where
  "session_seq_of s = length (s_log s)"

definition snapshot_events :: "nat \<Rightarrow> nat \<Rightarrow> session \<Rightarrow> session_event list \<times> session" where
  "snapshot_events from to s =
     (if from = 0 \<and> to = length (s_log s) then
        (case s_snapshot s of
           Some es \<Rightarrow> (es, s)
         | None \<Rightarrow> (s_log s, s\<lparr>s_snapshot := Some (s_log s)\<rparr>))
      else (slice from to (s_log s), s))"

definition own_events :: "session \<Rightarrow> session_event list \<times> session" where
  "own_events s = snapshot_events (s_inherited s) (session_seq_of s) s"

definition is_own_seq :: "nat \<Rightarrow> session \<Rightarrow> bool" where
  "is_own_seq seq s \<longleftrightarrow> seq \<ge> s_inherited s \<and> seq < session_seq_of s"

definition request_header :: "session \<Rightarrow> epoch_header option \<times> session" where
  "request_header s =
     (let c = refresh_header (s_log s) (s_header_fold s) in (fst c, s\<lparr>s_header_fold := c\<rparr>))"

definition request_context_of :: "session \<Rightarrow> request_context option \<times> session" where
  "request_context_of s =
     (let c = refresh_context (s_log s) (s_context_fold s) in (fst c, s\<lparr>s_context_fold := c\<rparr>))"

text \<open>Projecting the unseen nodes onto the cache.\<close>

definition derive_node ::
    "session_event list \<Rightarrow> nat \<Rightarrow> message list \<Rightarrow> (session_error, message list) result" where
  "derive_node events seq acc =
     (case elem_at events seq of
        None \<Rightarrow> Inl (DanglingNode seq)
      | Some e \<Rightarrow> Inr (acc @ (case derive_event_message e of Some msg \<Rightarrow> [msg] | None \<Rightarrow> [])))"

definition derive_messages :: "session \<Rightarrow> (session_error, message list) result \<times> session" where
  "derive_messages s =
     (case manager_nodes (s_log s) (s_surface s) of
        (Inl err, m) \<Rightarrow> (Inl (AppendSurface err), s\<lparr>s_surface := m\<rparr>)
      | (Inr ns, m) \<Rightarrow>
          (case manager_generation (s_log s) m of
             (Inl err, m') \<Rightarrow> (Inl (AppendSurface err), s\<lparr>s_surface := m'\<rparr>)
           | (Inr g, m') \<Rightarrow>
               let s1 = (if g \<noteq> s_derived_generation s
                         then s\<lparr>s_surface := m', s_derived := [], s_derived_nodes := 0, s_derived_generation := g\<rparr>
                         else s\<lparr>s_surface := m'\<rparr>)
               in case fold_result (derive_node (s_log s1)) (drop (s_derived_nodes s1) ns) (s_derived s1) of
                    Inl err \<Rightarrow> (Inl err, s1)
                  | Inr msgs \<Rightarrow> (Inr msgs, s1\<lparr>s_derived := msgs, s_derived_nodes := length ns\<rparr>)))"

section \<open>Consistency\<close>

text \<open>The messages of a list of surface nodes, derived from scratch.\<close>

definition project_nodes :: "session_event list \<Rightarrow> nat list \<Rightarrow> message list" where
  "project_nodes events ns =
     concat (map (\<lambda>n. case derive_event_message (events ! n) of Some msg \<Rightarrow> [msg] | None \<Rightarrow> []) ns)"

definition derived_valid :: "session \<Rightarrow> bool" where
  "derived_valid s \<longleftrightarrow>
     (\<exists>k st reps. k \<le> length (s_log s) \<and> fold_window 0 (take k (s_log s)) = Inr (st, reps)
        \<and> s_derived s = project_nodes (s_log s) (nodes st)
        \<and> s_derived_nodes s = length (nodes st) \<and> s_derived_generation s = replace_generation st)"

definition session_inv :: "session \<Rightarrow> bool" where
  "session_inv s \<longleftrightarrow>
     (\<exists>k. manager_inv 0 (s_log s) k (s_surface s)) \<and> is_ok (fold_window 0 (s_log s))
     \<and> s_inherited s \<le> s_first_live s \<and> s_first_live s \<le> length (s_log s)
     \<and> (\<forall>es. s_snapshot s = Some es \<longrightarrow> es = s_log s)
     \<and> cache_valid (\<lambda>events. fold_request_header events None) (s_log s) (s_header_fold s)
     \<and> cache_valid (\<lambda>events. fold fold_context_event events None) (s_log s) (s_context_fold s)
     \<and> derived_valid s"

lemma project_nodes_append [simp]:
  "project_nodes events (xs @ ys) = project_nodes events xs @ project_nodes events ys"
  by (simp add: project_nodes_def)

lemma project_nodes_Nil [simp]: "project_nodes events [] = []"
  by (simp add: project_nodes_def)

lemma project_nodes_extend:
  assumes "\<forall>n \<in> set ns. n < length events"
  shows "project_nodes (events @ fs) ns = project_nodes events ns"
  using assms by (induction ns) (simp_all add: project_nodes_def nth_append)

lemma derive_nodes_fold:
  assumes "\<forall>n \<in> set ns. n < length events"
  shows "fold_result (derive_node events) ns acc = Inr (acc @ project_nodes events ns)"
  using assms
proof (induction ns arbitrary: acc)
  case Nil
  then show ?case by simp
next
  case (Cons n ns)
  then have "derive_node events n acc = Inr (acc @ project_nodes events [n])"
    by (auto simp: derive_node_def elem_at_def project_nodes_def split: option.splits)
  moreover have "project_nodes events (n # ns) = project_nodes events [n] @ project_nodes events ns"
    using project_nodes_append [of events "[n]" ns] by simp
  ultimately show ?case using Cons by simp
qed

text \<open>Without a replacement in between, the surface only grew at its end.\<close>

lemma fold_window_grows:
  "fold_window base es = Inr (st, reps) \<Longrightarrow> fold_window base (es @ fs) = Inr (st', reps') \<Longrightarrow>
     replace_generation st \<le> replace_generation st'
     \<and> (replace_generation st = replace_generation st' \<longrightarrow> (\<exists>ns. nodes st' = nodes st @ ns))"
proof (induction fs arbitrary: st' reps' rule: rev_induct)
  case Nil
  then show ?case by simp
next
  case (snoc f fs)
  from snoc.prems(2) have "fold_window base ((es @ fs) @ [f]) = Inr (st', reps')" by simp
  then show ?case
  proof (cases rule: fold_window_snoc_cases)
    case (1 st0 reps0)
    with snoc show ?thesis by blast
  next
    case (2 st0 reps0 ns)
    with snoc show ?thesis by fastforce
  next
    case (3 st0 reps0 s t i j sh ns)
    with snoc show ?thesis by fastforce
  qed
qed

lemma derived_valid_commit:
  assumes "derived_valid s"
  shows "derived_valid (append_commit e s)"
proof -
  from assms obtain k st reps where k: "k \<le> length (s_log s)" "fold_window 0 (take k (s_log s)) = Inr (st, reps)"
    "s_derived s = project_nodes (s_log s) (nodes st)" "s_derived_nodes s = length (nodes st)"
    "s_derived_generation s = replace_generation st" by (auto simp: derived_valid_def)
  have "\<forall>n \<in> set (nodes st). n < length (s_log s)"
    using fold_window_nodes_within [OF k(2)] k(1) by (auto simp: nodes_within_def)
  with k show ?thesis
    unfolding derived_valid_def append_commit_def
    by (intro exI [of _ k] exI [of _ st] exI [of _ reps]) (simp add: project_nodes_extend)
qed

lemma surface_change_inv:
  assumes "session_inv s" and "\<exists>k. manager_inv 0 (s_log s) k m"
  shows "session_inv (s\<lparr>s_surface := m\<rparr>)"
  using assms by (simp add: session_inv_def derived_valid_def)

lemma append_prepare_cases:
  assumes "session_inv s"
  obtains err s' where "append_prepare now p op sources s = (Inl err, s')" "session_inv s'" "s_log s' = s_log s"
      "s_derived s' = s_derived s" "s' = s\<lparr>s_surface := s_surface s'\<rparr>"
  | e s' where "append_prepare now p op sources s = (Inr e, s')" "session_inv s'" "s_log s' = s_log s"
      "e = \<lparr>ev_payload = p, ev_seq = length (s_log s), ev_time = now, ev_surface_op = op,
            ev_sources = sources, ev_ignorable = False\<rparr>"
      "is_ok (fold_window 0 (s_log s @ [e]))" "s' = s\<lparr>s_surface := s_surface s'\<rparr>"
proof -
  from assms obtain k where m: "manager_inv 0 (s_log s) k (s_surface s)" by (auto simp: session_inv_def)
  define e where "e = \<lparr>ev_payload = p, ev_seq = length (s_log s), ev_time = now, ev_surface_op = op,
            ev_sources = sources, ev_ignorable = False\<rparr>"
  note v = validate_next_refines [OF m, of e]
  obtain r m' where vn: "validate_next (s_log s) e (s_surface s) = (r, m')" by (cases "validate_next (s_log s) e (s_surface s)")
  have inv': "session_inv (s\<lparr>s_surface := m'\<rparr>)" using surface_change_inv [OF assms] v(2) vn by simp
  consider (plain) err where "append_prepare now p op sources s = (Inl err, s)"
    | (validated) "append_prepare now p op sources s =
        (case r of Inl err \<Rightarrow> (Inl (AppendSurface err), s\<lparr>s_surface := m'\<rparr>)
         | Inr _ \<Rightarrow> (Inr e, s\<lparr>s_surface := m'\<rparr>))"
  proof (cases "append_precheck p op sources s")
    case (Inl err)
    then show ?thesis using plain by (simp add: append_prepare_def)
  next
    case (Inr u)
    show ?thesis
    proof (cases "session_seq (JInt (int (length (s_log s)))) = Inr (length (s_log s))")
      case True
      then have "append_prepare now p op sources s =
          (case r of Inl err \<Rightarrow> (Inl (AppendSurface err), s\<lparr>s_surface := m'\<rparr>)
           | Inr _ \<Rightarrow> (Inr e, s\<lparr>s_surface := m'\<rparr>))"
        using Inr vn by (simp add: append_prepare_def append_validate_def e_def Let_def split: sum.splits)
      then show ?thesis by (rule validated)
    next
      case False
      then have "\<exists>err. append_prepare now p op sources s = (Inl err, s)"
        using Inr by (simp add: append_prepare_def append_validate_def session_seq_int split: if_splits)
      then show ?thesis using plain by blast
    qed
  qed
  then show ?thesis
  proof cases
    case plain
    with assms that(1) show ?thesis by simp
  next
    case validated
    show ?thesis
    proof (cases r)
      case (Inl err)
      with validated inv' that(1) show ?thesis by simp
    next
      case (Inr u)
      with v(1) vn have "is_ok (fold_window 0 (s_log s @ [e]))" by (cases "fold_window 0 (s_log s @ [e])") auto
      with validated Inr inv' that(2) e_def show ?thesis by simp
    qed
  qed
qed

lemma append_commit_inv:
  assumes "session_inv s" and "is_ok (fold_window 0 (s_log s @ [e]))"
  shows "session_inv (append_commit e s)"
proof -
  from assms(1) obtain k where "manager_inv 0 (s_log s) k (s_surface s)" by (auto simp: session_inv_def)
  then have "\<exists>k. manager_inv 0 (s_log s @ [e]) k (s_surface s)" using manager_inv_push by blast
  with assms derived_valid_commit [of s e] show ?thesis
    by (simp add: session_inv_def append_commit_def header_cache.push_keeps context_cache.push_keeps)
qed

lemma session_append_inv: "session_inv s \<Longrightarrow> session_inv (snd (session_append now p op sources s))"
  by (erule append_prepare_cases [of s now p op sources])
    (auto simp: session_append_def intro: append_commit_inv)

lemma request_header_inv: "session_inv s \<Longrightarrow> session_inv (snd (request_header s))"
  by (simp add: request_header_def Let_def session_inv_def header_cache.refresh_keeps derived_valid_def)

lemma request_context_inv: "session_inv s \<Longrightarrow> session_inv (snd (request_context_of s))"
  by (simp add: request_context_of_def Let_def session_inv_def context_cache.refresh_keeps derived_valid_def)

lemma snapshot_events_inv: "session_inv s \<Longrightarrow> session_inv (snd (snapshot_events from to s))"
  by (auto simp: snapshot_events_def session_inv_def derived_valid_def split: option.splits)

lemma derive_messages_spec:
  assumes "session_inv s"
  shows "\<exists>st reps. fold_window 0 (s_log s) = Inr (st, reps)
    \<and> fst (derive_messages s) = Inr (project_nodes (s_log s) (nodes st))
    \<and> session_inv (snd (derive_messages s)) \<and> s_log (snd (derive_messages s)) = s_log s"
proof -
  from assms obtain k0 where m: "manager_inv 0 (s_log s) k0 (s_surface s)" by (auto simp: session_inv_def)
  from assms obtain st reps where f: "fold_window 0 (s_log s) = Inr (st, reps)"
    by (auto simp: session_inv_def is_ok_iff)
  from m obtain m1 where m1: "sync (s_log s) (s_surface s) = (Inr (), m1)"
    "manager_inv 0 (s_log s) (length (s_log s)) m1" "sm_state m1 = st"
    using f by (cases rule: sync_cases) auto
  from m1(2) obtain m2 where m2: "sync (s_log s) m1 = (Inr (), m2)"
    "manager_inv 0 (s_log s) (length (s_log s)) m2" "sm_state m2 = st"
    using f by (cases rule: sync_cases) auto
  define s1 where "s1 = (if replace_generation st \<noteq> s_derived_generation s
     then s\<lparr>s_surface := m2, s_derived := [], s_derived_nodes := 0, s_derived_generation := replace_generation st\<rparr>
     else s\<lparr>s_surface := m2\<rparr>)"
  have log1: "s_log s1 = s_log s" by (simp add: s1_def)
  have within: "\<forall>n \<in> set (nodes st). n < length (s_log s)"
    using fold_window_nodes_within [OF f] by (auto simp: nodes_within_def)
  have split: "\<exists>ns. nodes st = ns @ drop (s_derived_nodes s1) (nodes st)
      \<and> s_derived s1 = project_nodes (s_log s) ns"
  proof (cases "replace_generation st = s_derived_generation s")
    case False
    then show ?thesis by (simp add: s1_def)
  next
    case True
    from assms obtain k st0 reps0 where k: "k \<le> length (s_log s)" "fold_window 0 (take k (s_log s)) = Inr (st0, reps0)"
      "s_derived s = project_nodes (s_log s) (nodes st0)" "s_derived_nodes s = length (nodes st0)"
      "s_derived_generation s = replace_generation st0" by (auto simp: session_inv_def derived_valid_def)
    have "fold_window 0 (take k (s_log s) @ drop k (s_log s)) = Inr (st, reps)" using f by simp
    from fold_window_grows [OF k(2) this] True k(5) obtain ns where "nodes st = nodes st0 @ ns" by auto
    with True k show ?thesis by (intro exI [of _ "nodes st0"]) (simp add: s1_def)
  qed
  then have "s_derived s1 @ project_nodes (s_log s) (drop (s_derived_nodes s1) (nodes st)) = project_nodes (s_log s) (nodes st)"
    by (metis project_nodes_append)
  moreover have "\<forall>n \<in> set (drop (s_derived_nodes s1) (nodes st)). n < length (s_log s)"
    using within by (auto dest: in_set_dropD)
  ultimately have "fold_result (derive_node (s_log s1)) (drop (s_derived_nodes s1) (nodes st)) (s_derived s1)
      = Inr (project_nodes (s_log s) (nodes st))"
    by (simp add: derive_nodes_fold log1)
  then have res: "derive_messages s = (Inr (project_nodes (s_log s) (nodes st)),
      s1\<lparr>s_derived := project_nodes (s_log s) (nodes st), s_derived_nodes := length (nodes st)\<rparr>)"
    using m1 m2
    by (simp add: derive_messages_def manager_nodes_def manager_generation_def s1_def Let_def)
  have "derived_valid (s1\<lparr>s_derived := project_nodes (s_log s) (nodes st), s_derived_nodes := length (nodes st)\<rparr>)"
    unfolding derived_valid_def using f
    by (intro exI [of _ "length (s_log s)"] exI [of _ st] exI [of _ reps]) (simp add: s1_def)
  moreover have "\<exists>k. manager_inv 0 (s_log s) k m2" using m2 by blast
  ultimately have "session_inv (s1\<lparr>s_derived := project_nodes (s_log s) (nodes st), s_derived_nodes := length (nodes st)\<rparr>)"
    using assms by (simp add: session_inv_def s1_def)
  with res f show ?thesis by (simp add: s1_def)
qed

section \<open>Construction establishes consistency\<close>

lemma seed_event_Inr:
  assumes "seed_event mode e (events, m) = Inr (events', m')" and "manager_run 0 events m"
    and "is_ok (fold_window 0 events)"
  shows "events' = events @ [e] \<and> manager_run 0 events' m' \<and> is_ok (fold_window 0 events') \<and> ev_seq e = length events"
proof -
  from assms(1) obtain u where v: "validate_next events e m = (Inr u, m')" and ev: "events' = events @ [e]"
    and n: "ev_seq e = length events"
    by (auto simp: seed_event_def Let_def and_then_Inr_iff split: if_splits prod.splits sum.splits)
  have "fst (validate_next events e m) = and_then (fold_window 0 (events @ [e])) (\<lambda>_. Inr ())"
    using manager_run_inv [OF assms(2)] validate_next_refines(1) by blast
  with v have "is_ok (fold_window 0 (events @ [e]))" by (cases "fold_window 0 (events @ [e])") auto
  moreover have "manager_run 0 (events @ [e]) m'"
    using manager_run.push [OF manager_run.validate [OF assms(2), of e], of e] v by simp
  ultimately show ?thesis using ev n by simp
qed

lemma seed_loop_Inr:
  "fold_result (seed_event mode) es ([], new_manager 0) = Inr (events, m) \<Longrightarrow>
     events = es \<and> manager_run 0 events m \<and> is_ok (fold_window 0 events)"
proof (induction es arbitrary: events m rule: rev_induct)
  case Nil
  then show ?case by (auto intro: manager_run.start)
next
  case (snoc e es)
  then obtain events0 m0 where f: "fold_result (seed_event mode) es ([], new_manager 0) = Inr (events0, m0)"
    and s: "seed_event mode e (events0, m0) = Inr (events, m)"
    by (auto simp: fold_result_snoc and_then_Inr_iff)
  from snoc.IH [OF f] seed_event_Inr [OF s] show ?case by blast
qed

lemma new_session_inv:
  assumes "manager_run 0 events m" and "is_ok (fold_window 0 events)" and "n \<le> length events"
  shows "session_inv (new_session events m h n (length events))"
proof -
  have "derived_valid (new_session events m h n (length events))"
    unfolding derived_valid_def
    by (intro exI [of _ 0] exI [of _ create_fold_state] exI [of _ "[]"])
      (simp add: new_session_def create_fold_state_def)
  moreover have "\<exists>k. manager_inv 0 events k m" by (rule manager_run_inv [OF assms(1)])
  ultimately show ?thesis using assms(2,3)
    by (simp add: session_inv_def new_session_def cache_valid_def)
qed

lemma session_append_log:
  assumes "session_inv s" and "session_append now p op sources s = (r, s')"
  shows "(case r of
      Inl err \<Rightarrow> s_log s' = s_log s \<and> s_derived s' = s_derived s
    | Inr e \<Rightarrow> s_log s' = s_log s @ [e] \<and> ev_payload e = p \<and> ev_seq e = length (s_log s) \<and> ev_time e = now
        \<and> ev_surface_op e = op \<and> ev_sources e = sources)
    \<and> s_header s' = s_header s \<and> s_inherited s' = s_inherited s \<and> s_first_live s' = s_first_live s"
  using assms(1)
proof (cases rule: append_prepare_cases [of s now p op sources])
  case (1 err s1)
  from 1(5) have "s_header s1 = s_header s" "s_inherited s1 = s_inherited s" "s_first_live s1 = s_first_live s"
    by (metis session.select_convs session.surjective session.update_convs(2))+
  with 1 assms(2) show ?thesis by (auto simp: session_append_def)
next
  case (2 e s1)
  from 2(6) have "s_header s1 = s_header s" "s_inherited s1 = s_inherited s" "s_first_live s1 = s_first_live s"
    by (metis session.select_convs session.surjective session.update_convs(2))+
  with 2 assms(2) show ?thesis by (auto simp: session_append_def append_commit_def)
qed

lemma construct_session_Inr:
  assumes "construct_session now sid seed header mode supplied = Inr s"
  shows "session_inv s \<and> sh_id (s_header s) = sid \<and> s_first_live s = length (case seed of Some es \<Rightarrow> es | None \<Rightarrow> [])
    \<and> (case seed of
         None \<Rightarrow> s_log s = []
       | Some es \<Rightarrow>
           if map_option ev_type (last_opt es) = Some ''session/end-seed'' then s_log s = es
           else \<exists>e. s_log s = es @ [e] \<and> ev_payload e = EndSeed \<and> ev_seq e = length es)"
proof -
  define es where "es = (case seed of Some es \<Rightarrow> es | None \<Rightarrow> [])"
  from assms obtain events m h where loop0: "fold_result (seed_event mode) es ([], new_manager 0) = Inr (events, m)"
    and h: "\<exists>hd. checked_header sid hd = Inr h"
    and fin0: "finish_construction now (seed \<noteq> None) events m h supplied = Inr s"
    unfolding construct_session_def es_def [symmetric]
    by (cases header; cases "mode = RestoreSeed") (auto simp: and_then_Inr_iff, blast)
  have "events = es" using seed_loop_Inr [OF loop0] by blast
  with loop0 fin0 have loop: "fold_result (seed_event mode) es ([], new_manager 0) = Inr (es, m)"
    and fin: "finish_construction now (seed \<noteq> None) es m h supplied = Inr s" by simp_all
  have run: "manager_run 0 es m" "is_ok (fold_window 0 es)" using seed_loop_Inr [OF loop] by auto
  from h have hid: "sh_id h = sid"
    by (auto simp: checked_header_def and_then_Inr_iff validate_session_header_def session_header_fields
        split: if_splits)
  from fin obtain n where n: "n \<le> length es"
    and rest: "(let s0 = new_session es m h n (length es) in
          if seed \<noteq> None \<and> map_option ev_type (last_opt es) \<noteq> Some ''session/end-seed''
          then (case session_append now EndSeed None None s0 of (Inl err, _) \<Rightarrow> Inl err | (Inr _, s') \<Rightarrow> Inr s')
          else Inr s0) = Inr s"
    by (auto simp: finish_construction_def and_then_Inr_iff not_less split: if_splits)
  define s0 where "s0 = new_session es m h n (length es)"
  have inv0: "session_inv s0" unfolding s0_def by (rule new_session_inv [OF run n])
  have s0: "s_log s0 = es" "s_header s0 = h" "s_first_live s0 = length es" by (simp_all add: s0_def new_session_def)
  show ?thesis
  proof (cases "seed \<noteq> None \<and> map_option ev_type (last_opt es) \<noteq> Some ''session/end-seed''")
    case False
    then have "s = s0" using rest unfolding Let_def if_not_P [OF False] s0_def by simp
    with False inv0 s0 hid show ?thesis by (auto simp: es_def split: option.splits)
  next
    case True
    obtain e where ap: "session_append now EndSeed None None s0 = (Inr e, s)"
      using rest unfolding Let_def if_P [OF True] s0_def by (auto split: sum.splits prod.splits)
    have "session_inv s" using session_append_inv [OF inv0, of now EndSeed None None] ap by simp
    with session_append_log [OF inv0 ap] True s0 hid show ?thesis by (auto simp: es_def split: option.splits)
  qed
qed

section \<open>Every reachable session\<close>

text \<open>Construction, then appends, vetoed appends and reads in any order.\<close>

inductive session_reach :: "session \<Rightarrow> bool" where
  construct: "construct_session now sid seed header mode supplied = Inr s \<Longrightarrow> session_reach s"
| append: "session_reach s \<Longrightarrow> session_reach (snd (session_append now p op sources s))"
| vetoed: "session_reach s \<Longrightarrow> session_reach (snd (append_prepare now p op sources s))"
| read_header: "session_reach s \<Longrightarrow> session_reach (snd (request_header s))"
| read_context: "session_reach s \<Longrightarrow> session_reach (snd (request_context_of s))"
| read_messages: "session_reach s \<Longrightarrow> session_reach (snd (derive_messages s))"
| read_events: "session_reach s \<Longrightarrow> session_reach (snd (snapshot_events from to s))"

lemma session_reach_inv: "session_reach s \<Longrightarrow> session_inv s"
proof (induction rule: session_reach.induct)
  case (construct now sid seed header mode supplied s)
  then show ?case using construct_session_Inr by blast
next
  case (vetoed s now p op sources)
  then show ?case by (elim append_prepare_cases [of s now p op sources]) auto
next
  case (read_messages s)
  then show ?case using derive_messages_spec by blast
qed (auto intro: session_append_inv request_header_inv request_context_inv snapshot_events_inv)

text \<open>
  Claim C3. The model sees exactly the surface: in every reachable session the derived
  message history, whatever part of it was cached, is the projection of the nodes of a full
  replay of the log, and deriving it never fails.
\<close>

theorem derive_messages_is_replay:
  assumes "session_reach s"
  shows "\<exists>ns reps. fold_surface (s_log s) = Inr (ns, reps)
    \<and> fst (derive_messages s) = Inr (project_nodes (s_log s) ns)"
  using derive_messages_spec [OF session_reach_inv [OF assms]] by (auto simp: fold_surface_def)

text \<open>
  The cached request header and request context of a reachable session are those of
  a replay of the whole log, however reads and appends were interleaved.
\<close>

theorem cached_header_is_replay:
  assumes "session_reach s"
  shows "fst (request_header s) = fold_request_header (s_log s) None
    \<and> fst (request_context_of s) = fold fold_context_event (s_log s) None"
  using session_reach_inv [OF assms]
  by (simp add: session_inv_def request_header_def request_context_of_def Let_def
      header_cache.read_current context_cache.read_current)

text \<open>A refused append touches the surface manager only, so every other field is the same value.\<close>

lemma refused_append_frame:
  assumes "session_inv s" and "session_append now p op sources s = (Inl err, s')"
  shows "s' = s\<lparr>s_surface := s_surface s'\<rparr>"
  using assms(1)
proof (cases rule: append_prepare_cases [of s now p op sources])
  case (1 err' s1)
  with assms(2) show ?thesis by (simp add: session_append_def)
next
  case (2 e s1)
  with assms(2) show ?thesis by (simp add: session_append_def)
qed

lemma refused_append_reads:
  assumes "session_inv s" and "session_append now p op sources s = (Inl err, s')"
  shows "s_log s' = s_log s" and "fst (request_header s') = fst (request_header s)"
    and "fst (request_context_of s') = fst (request_context_of s)"
    and "fst (snapshot_events from to s') = fst (snapshot_events from to s)"
    and "fst (own_events s') = fst (own_events s)" and "session_seq_of s' = session_seq_of s"
proof -
  obtain m where s': "s' = s\<lparr>s_surface := m\<rparr>" using refused_append_frame [OF assms] by blast
  show "s_log s' = s_log s" "fst (request_header s') = fst (request_header s)"
    "fst (request_context_of s') = fst (request_context_of s)"
    "fst (snapshot_events from to s') = fst (snapshot_events from to s)"
    "fst (own_events s') = fst (own_events s)" "session_seq_of s' = session_seq_of s"
    unfolding s' by (simp_all add: request_header_def request_context_of_def snapshot_events_def own_events_def
      session_seq_of_def Let_def split: option.split)
qed

text \<open>
  Claim C2. An append is all or nothing: on success the log grows by exactly the returned
  event, which carries the next sequence number and leaves a log that still folds; on failure
  the log is unchanged and everything a client reads from the session is what it read before:
  the derived history, the request header, the request context, every range of events and the
  session's own events.
\<close>

theorem append_all_or_nothing:
  assumes "session_reach s" and "session_append now p op sources s = (r, s')"
  shows "case r of
      Inr e \<Rightarrow> s_log s' = s_log s @ [e] \<and> ev_payload e = p \<and> ev_seq e = length (s_log s)
        \<and> is_ok (fold_surface (s_log s'))
    | Inl err \<Rightarrow> s_log s' = s_log s \<and> fst (derive_messages s') = fst (derive_messages s)
        \<and> fst (request_header s') = fst (request_header s)
        \<and> fst (request_context_of s') = fst (request_context_of s)
        \<and> (\<forall>from to. fst (snapshot_events from to s') = fst (snapshot_events from to s))
        \<and> fst (own_events s') = fst (own_events s)"
proof -
  have inv: "session_inv s" by (rule session_reach_inv [OF assms(1)])
  have inv': "session_inv s'" using session_reach.append [OF assms(1), of now p op sources] assms(2)
    by (simp add: session_reach_inv)
  note l = session_append_log [OF inv assms(2)]
  have folds: "is_ok (fold_surface (s_log s'))"
    using inv' by (auto simp: session_inv_def fold_surface_def is_ok_iff)
  show ?thesis
  proof (cases r)
    case (Inl err)
    note same = refused_append_reads [OF inv assms(2) [unfolded Inl]]
    have "fst (derive_messages s') = fst (derive_messages s)"
      using derive_messages_spec [OF inv] derive_messages_spec [OF inv'] same(1) by auto
    with Inl same show ?thesis by simp
  next
    case (Inr e)
    with l folds show ?thesis by simp
  qed
qed

text \<open>
  Opening a stored session does not rewrite it: construction keeps the seed as the
  start of the log, adds one end-of-seed marker unless the seed already ends in one, and so
  reopening an untouched session from its own log adds nothing.
\<close>

theorem construction_keeps_seed:
  assumes "construct_session now sid (Some es) header mode supplied = Inr s"
  shows "(\<exists>tail. s_log s = es @ tail \<and> length tail \<le> 1) \<and> ev_type (last (s_log s)) = ''session/end-seed''
    \<and> s_first_live s = length es \<and> s_inherited s \<le> length es
    \<and> (\<forall>now' sid' header' mode' supplied' s'.
         construct_session now' sid' (Some (s_log s)) header' mode' supplied' = Inr s' \<longrightarrow> s_log s' = s_log s)"
proof -
  note c = construct_session_Inr [OF assms]
  have last: "ev_type (last (s_log s)) = ''session/end-seed'' \<and> s_log s \<noteq> []"
    using c by (auto simp: last_opt_def split: if_splits)
  then have "map_option ev_type (last_opt (s_log s)) = Some ''session/end-seed''" by (simp add: last_opt_def)
  then have "s_log s' = s_log s" if "construct_session now' sid' (Some (s_log s)) header' mode' supplied' = Inr s'"
    for now' sid' header' mode' supplied' s'
    using construct_session_Inr [OF that] by simp
  moreover have "\<exists>tail. s_log s = es @ tail \<and> length tail \<le> 1" using c by (auto split: if_splits)
  moreover have "s_inherited s \<le> length es" using c by (auto simp: session_inv_def)
  ultimately show ?thesis using last c by auto
qed

section \<open>Examples\<close>

definition example_seed :: "session_event list" where
  "example_seed = [append_event (UserMessageEvent \<lparr>um_id = ''m0'', um_content = [TextBlock ''hi''], um_source = UserSource\<rparr>) 0]"

lemma example_constructs:
  "\<exists>s. construct_session 5 ''s'' (Some example_seed) None SnapshotSeed None = Inr s"
proof -
  have "is_ok (construct_session 5 ''s'' (Some example_seed) None SnapshotSeed None)" by code_simp
  then show ?thesis by (simp add: is_ok_iff)
qed

theorem derive_messages_is_replay_witness:
  "\<exists>s ns. fst (derive_messages s) = Inr (project_nodes (s_log s) ns) \<and> sh_id (s_header s) = ''s''"
proof -
  obtain s where s: "construct_session 5 ''s'' (Some example_seed) None SnapshotSeed None = Inr s"
    using example_constructs by blast
  from derive_messages_is_replay [OF session_reach.construct [OF s]] construct_session_Inr [OF s]
  show ?thesis by blast
qed

theorem cached_header_is_replay_witness:
  "\<exists>s. fst (request_header s) = fold_request_header (s_log s) None \<and> sh_id (s_header s) = ''s''"
proof -
  obtain s where s: "construct_session 5 ''s'' (Some example_seed) None SnapshotSeed None = Inr s"
    using example_constructs by blast
  from cached_header_is_replay [OF session_reach.construct [OF s]] construct_session_Inr [OF s]
  show ?thesis by blast
qed

theorem append_all_or_nothing_witness:
  "\<exists>s s' err. session_append 7 (UserMessageEvent \<lparr>um_id = ''m1'', um_content = [], um_source = UserSource\<rparr>) None None s
     = (Inl err, s') \<and> s_log s' = s_log s"
proof -
  obtain s where s: "construct_session 5 ''s'' (Some example_seed) None SnapshotSeed None = Inr s"
    using example_constructs by blast
  let ?p = "UserMessageEvent \<lparr>um_id = ''m1'', um_content = [], um_source = UserSource\<rparr>"
  obtain r s' where r: "session_append 7 ?p None None s = (r, s')" by (cases "session_append 7 ?p None None s")
  have reach: "session_reach s" by (rule session_reach.construct [OF s])
  have "\<exists>err. r = Inl err"
  proof (rule ccontr)
    assume "\<not> (\<exists>err. r = Inl err)"
    then obtain e where e: "r = Inr e" by (cases r) auto
    with append_all_or_nothing [OF reach r] have "is_ok (fold_window 0 (s_log s @ [e]))" "ev_payload e = ?p"
      by (auto simp: fold_surface_def is_ok_iff and_then_Inr_iff)
    moreover have "ev_surface_op e = None" using session_append_log [OF session_reach_inv [OF reach] r] e by simp
    ultimately show False
      by (auto simp: is_ok_iff fold_window_snoc and_then_Inr_iff apply_surface_event_def plan_surface_event_def
          surface_op_of_def is_surface_eligible_type_def SURFACE_EVENT_TYPES_def split: if_splits)
  qed
  then obtain err where err: "r = Inl err" ..
  with append_all_or_nothing [OF reach r] have "s_log s' = s_log s" by simp
  with r err show ?thesis by blast
qed

theorem construction_keeps_seed_witness:
  "\<exists>s tail. construct_session 5 ''s'' (Some example_seed) None SnapshotSeed None = Inr s
     \<and> s_log s = example_seed @ tail"
proof -
  obtain s where s: "construct_session 5 ''s'' (Some example_seed) None SnapshotSeed None = Inr s"
    using example_constructs by blast
  from construction_keeps_seed [OF s] s show ?thesis by blast
qed

end
