(* ===== verification/Session_Store.thy ===== *)
theory Session_Store
  imports Session_Log
begin

text \<open>
  The class \<open>SessionStore\<close> of \<open>packages/core/session/src/index.ts\<close> and the attached path of
  \<open>Session.append\<close>: entering, announcing, detaching and forking sessions. Sessions and store
  entries are objects with identity, so both are addressed by their index of creation.
  Listener callbacks run in the middle of an announcement or an append and may call the store
  again; those operations are therefore split at the callback points, and \<open>store_step\<close> lets
  anything happen in between.
\<close>

section \<open>State\<close>

text \<open>An open call of \<open>append\<close> past its guards: its own event is a local variable of the
  call, before and after the push.\<close>

datatype append_call = Collecting session_event | Published session_event

record store_entry =
  en_id :: string
  en_session :: nat
  en_announced :: bool
  en_announcing :: bool
  en_appending :: bool
  en_detach_requested :: bool
  en_entered :: bool
  en_calls :: "append_call list"

datatype emission = CreatedEmit nat | DisposedEmit nat | EventEmit nat session_event

record session_store =
  st_objects :: "session list"
  st_entries :: "store_entry list"
  st_live :: "(string \<times> nat) list"
  st_attached :: "(nat \<times> nat) list"
  st_counter :: nat
  st_emitted :: "emission list"

definition empty_store :: session_store where
  "empty_store = \<lparr>st_objects = [], st_entries = [], st_live = [], st_attached = [], st_counter = 0, st_emitted = []\<rparr>"

datatype store_error =
    AlreadyExists string
  | AlreadyAttached string
  | NotLiveHere
  | AlreadyAnnounced string
  | ReentrantAppend
  | SessionFailure session_error
  | ForkNotFound
  | ForkNotLive
  | ForkExists string
  | ForkInvalidBoundary
  | ForkOpenTurn int
  | NoSuchObject

definition object_id :: "session_store \<Rightarrow> nat \<Rightarrow> string" where
  "object_id st h = sh_id (s_header (st_objects st ! h))"

definition update_entry :: "nat \<Rightarrow> (store_entry \<Rightarrow> store_entry) \<Rightarrow> session_store \<Rightarrow> session_store" where
  "update_entry e f st = st\<lparr>st_entries := (st_entries st)[e := f (st_entries st ! e)]\<rparr>"

definition update_object :: "nat \<Rightarrow> session \<Rightarrow> session_store \<Rightarrow> session_store" where
  "update_object h s st = st\<lparr>st_objects := (st_objects st)[h := s]\<rparr>"

definition emit :: "emission \<Rightarrow> session_store \<Rightarrow> session_store" where
  "emit x st = st\<lparr>st_emitted := st_emitted st @ [x]\<rparr>"

section \<open>Preparation\<close>

text \<open>Options of \<open>prepare\<close>: fresh metadata, or values whose ownership persistence hands over.\<close>

record fresh_options =
  fo_seed :: "session_event list option"
  fo_created :: "int option"
  fo_cwd :: "string option"
  fo_parent :: "string option"
  fo_seeded :: bool
  fo_subagent :: bool
  fo_depth :: "int option"
  fo_preset :: "string option"
  fo_inherited :: "jnum option"

datatype prepare_options = FreshOptions fresh_options | RestoreOptions "session_event list" session_header jnum

definition no_options :: fresh_options where
  "no_options =
     \<lparr>fo_seed = None, fo_created = None, fo_cwd = None, fo_parent = None, fo_seeded = False,
      fo_subagent = False, fo_depth = None, fo_preset = None, fo_inherited = None\<rparr>"

text \<open>The minting loop \<open>do id = session-<++counter> while (store.has(id))\<close>, with as much fuel
  as there are live ids.\<close>

fun mint_id :: "nat \<Rightarrow> nat \<Rightarrow> string set \<Rightarrow> string \<times> nat" where
  "mint_id fuel counter taken =
     (let c = counter + 1; i = ''session-'' @ show_nat c in
      case fuel of
        0 \<Rightarrow> (i, c)
      | Suc n \<Rightarrow> if i \<in> taken then mint_id n c taken else (i, c))"

declare mint_id.simps [simp del]

definition live_ids :: "session_store \<Rightarrow> string set" where
  "live_ids st = fst ` set (st_live st)"

definition fresh_header :: "int \<Rightarrow> string \<Rightarrow> fresh_options \<Rightarrow> session_header" where
  "fresh_header now sid fo =
     \<lparr>sh_id = sid, sh_created = (case fo_created fo of Some t \<Rightarrow> t | None \<Rightarrow> now), sh_cwd = fo_cwd fo,
      sh_parent = fo_parent fo, sh_seeded = fo_seeded fo, sh_subagent = fo_subagent fo,
      sh_depth = fo_depth fo, sh_preset = fo_preset fo\<rparr>"

definition prepare_session ::
    "int \<Rightarrow> string option \<Rightarrow> prepare_options \<Rightarrow> session_store \<Rightarrow> (store_error, nat) result \<times> session_store" where
  "prepare_session now wanted opts st =
     (let (sid, counter) = (case wanted of
            Some i \<Rightarrow> (i, st_counter st)
          | None \<Rightarrow> mint_id (length (st_live st)) (st_counter st) (live_ids st));
          st1 = st\<lparr>st_counter := counter\<rparr>
      in if sid \<in> live_ids st then (Inl (AlreadyExists sid), st1)
         else let built = (case opts of
                RestoreOptions seed meta inherited \<Rightarrow>
                  construct_session now sid (Some seed) (Some meta) RestoreSeed (Some inherited)
              | FreshOptions fo \<Rightarrow>
                  construct_session now sid (fo_seed fo) (Some (fresh_header now sid fo)) SnapshotSeed (fo_inherited fo))
           in case built of
                Inl err \<Rightarrow> (Inl (SessionFailure err), st1)
              | Inr s \<Rightarrow> (Inr (length (st_objects st)), st1\<lparr>st_objects := st_objects st @ [s]\<rparr>))"

section \<open>Entering, announcing, detaching\<close>

definition enter_session :: "nat \<Rightarrow> session_store \<Rightarrow> (store_error, nat) result \<times> session_store" where
  "enter_session h st =
     (let i = object_id st h in
      if i \<in> live_ids st then (Inl (AlreadyExists i), st)
      else if map_of (st_attached st) h \<noteq> None then (Inl (AlreadyAttached i), st)
      else let e = length (st_entries st) in
        (Inr e, st\<lparr>st_entries := st_entries st @
             [\<lparr>en_id = i, en_session = h, en_announced = False, en_announcing = False, en_appending = False,
               en_detach_requested = False, en_entered = True, en_calls = []\<rparr>],
           st_live := omap_set i e (st_live st), st_attached := omap_set h e (st_attached st)\<rparr>))"

text \<open>\<open>detachEntered\<close>\<close>

definition detach_entered :: "nat \<Rightarrow> session_store \<Rightarrow> session_store" where
  "detach_entered e st =
     (let st1 = update_entry e (\<lambda>en. en\<lparr>en_detach_requested := False\<rparr>) st;
          en = st_entries st1 ! e
      in if map_of (st_live st1) (en_id en) \<noteq> Some e then st1
         else let st2 = st1\<lparr>st_live := omap_delete (en_id en) (st_live st1),
                            st_attached := omap_delete (en_session en) (st_attached st1)\<rparr>
              in if en_announced en then emit (DisposedEmit e) st2 else st2)"

text \<open>The single-shot capability that \<open>enter\<close> returns.\<close>

definition detach :: "nat \<Rightarrow> session_store \<Rightarrow> session_store" where
  "detach e st =
     (let en = st_entries st ! e in
      if \<not> en_entered en then st
      else let st1 = update_entry e (\<lambda>en. en\<lparr>en_entered := False\<rparr>) st in
        if en_announcing en \<or> en_appending en then update_entry e (\<lambda>en. en\<lparr>en_detach_requested := True\<rparr>) st1
        else detach_entered e st1)"

definition live_entry_for :: "nat \<Rightarrow> session_store \<Rightarrow> (store_error, nat) result" where
  "live_entry_for h st =
     (case map_of (st_attached st) h of
        None \<Rightarrow> Inl NotLiveHere
      | Some e \<Rightarrow> if map_of (st_live st) (en_id (st_entries st ! e)) \<noteq> Some e then Inl NotLiveHere else Inr e)"

text \<open>\<open>announce\<close> up to its callbacks, and its \<open>finally\<close> block.\<close>

definition announce_begin :: "nat \<Rightarrow> session_store \<Rightarrow> (store_error, nat) result \<times> session_store" where
  "announce_begin h st =
     (case live_entry_for h st of
        Inl err \<Rightarrow> (Inl err, st)
      | Inr e \<Rightarrow>
          let en = st_entries st ! e in
          if en_announced en \<or> en_announcing en then (Inl (AlreadyAnnounced (en_id en)), st)
          else (Inr e, emit (CreatedEmit e)
                 (update_entry e (\<lambda>en. en\<lparr>en_announced := True, en_announcing := True\<rparr>) st)))"

definition announce_end :: "nat \<Rightarrow> session_store \<Rightarrow> session_store" where
  "announce_end e st =
     (let st1 = update_entry e (\<lambda>en. en\<lparr>en_announcing := False\<rparr>) st; en = st_entries st1 ! e
      in if en_detach_requested en \<and> \<not> en_appending en then detach_entered e st1 else st1)"

section \<open>Appending to an attached session\<close>

text \<open>Up to the dispatch: the guards, the reentrancy check, validation; then the entry is
  marked as appending.\<close>

definition append_start ::
    "int \<Rightarrow> payload \<Rightarrow> json option \<Rightarrow> json option \<Rightarrow> nat \<Rightarrow> session_store \<Rightarrow>
     (store_error, session_event) result \<times> session_store" where
  "append_start now p op sources h st =
     (let s = st_objects st ! h in
      case append_precheck p op sources s of
        Inl err \<Rightarrow> (Inl (SessionFailure err), st)
      | Inr _ \<Rightarrow>
          (case map_of (st_attached st) h of
             None \<Rightarrow>
               (case append_validate now p op sources s of
                  (Inl err, s') \<Rightarrow> (Inl (SessionFailure err), update_object h s' st)
                | (Inr e, s') \<Rightarrow> (Inr e, update_object h (append_commit e s') st))
           | Some i \<Rightarrow>
               if en_appending (st_entries st ! i) then (Inl ReentrantAppend, st)
               else (case append_validate now p op sources s of
                  (Inl err, s') \<Rightarrow> (Inl (SessionFailure err), update_object h s' st)
                | (Inr e, s') \<Rightarrow>
                    (Inr e, update_entry i (\<lambda>en. en\<lparr>en_appending := True, en_calls := en_calls en @ [Collecting e]\<rparr>)
                              (update_object h s' st)))))"

text \<open>The push and publication of the \<open>k\<close>-th open call, after its callbacks were resolved.\<close>

definition append_push :: "nat \<Rightarrow> nat \<Rightarrow> session_store \<Rightarrow> session_store" where
  "append_push i k st =
     (let en = st_entries st ! i in
      case en_calls en ! k of
        Published _ \<Rightarrow> st
      | Collecting e \<Rightarrow>
          emit (EventEmit i e)
            (update_object (en_session en) (append_commit e (st_objects st ! en_session en))
              (update_entry i (\<lambda>en. en\<lparr>en_calls := (en_calls en)[k := Published e]\<rparr>) st)))"

text \<open>The \<open>finally\<close> block of the \<open>k\<close>-th open call, after publication or after a veto.\<close>

definition append_end :: "nat \<Rightarrow> nat \<Rightarrow> session_store \<Rightarrow> session_store" where
  "append_end i k st =
     (let st1 = update_entry i (\<lambda>en. en\<lparr>en_appending := False,
                  en_calls := take k (en_calls en) @ drop (Suc k) (en_calls en)\<rparr>) st;
          en = st_entries st1 ! i
      in if en_detach_requested en \<and> \<not> en_announcing en then detach_entered i st1 else st1)"

section \<open>Lookup and fork\<close>

definition get_session :: "string \<Rightarrow> session_store \<Rightarrow> nat option" where
  "get_session i st = map_option (\<lambda>e. en_session (st_entries st ! e)) (map_of (st_live st) i)"

definition list_sessions :: "session_store \<Rightarrow> nat list" where
  "list_sessions st = map (\<lambda>(i, e). en_session (st_entries st ! e)) (st_live st)"

datatype fork_source = ForkById string | ForkByObject nat

definition resolve_fork_source :: "fork_source \<Rightarrow> session_store \<Rightarrow> (store_error, nat) result" where
  "resolve_fork_source src st =
     (case src of
        ForkById i \<Rightarrow> (case get_session i st of None \<Rightarrow> Inl ForkNotFound | Some h \<Rightarrow> Inr h)
      | ForkByObject h \<Rightarrow>
          (case get_session (object_id st h) st of
             None \<Rightarrow> Inl ForkNotFound
           | Some live \<Rightarrow> if live \<noteq> h then Inl ForkNotLive else Inr h))"

definition is_turn_boundary :: "session_event \<Rightarrow> bool" where
  "is_turn_boundary e \<longleftrightarrow> (case ev_payload e of TurnStart _ \<Rightarrow> True | TurnEnd _ _ \<Rightarrow> True | _ \<Rightarrow> False)"

text \<open>\<open>_forkSeed\<close>: the boundary, then the checks on it and the cut. Its reads may fill the
  source's event snapshot.\<close>

definition fork_cut :: "jnum \<Rightarrow> session \<Rightarrow> (store_error, session_event list) result \<times> session" where
  "fork_cut boundary s =
     (if \<not> is_safe_integer boundary \<or> jnum_int boundary < 0 then (Inl ForkInvalidBoundary, s)
      else let b = nat (jnum_int boundary) in
        if b \<ge> session_seq_of s then (Inl ForkInvalidBoundary, s)
        else if map_option ev_seq (session_event_at b s) \<noteq> Some b then (Inl ForkInvalidBoundary, s)
        else let (events, s2) = snapshot_events 0 (b + 1) s in
          case find_last is_turn_boundary events of
            Some e \<Rightarrow> (case ev_payload e of TurnStart t \<Rightarrow> (Inl (ForkOpenTurn t), s2) | _ \<Rightarrow> (Inr events, s2))
          | None \<Rightarrow> (Inr events, s2))"

definition fork_seed :: "session \<Rightarrow> jnum option \<Rightarrow> (store_error, session_event list) result \<times> session" where
  "fork_seed s requested =
     (let (full, s1) = snapshot_events 0 (session_seq_of s) s in
      case requested of
        Some b \<Rightarrow> fork_cut b s1
      | None \<Rightarrow> (case last_opt full of
                   None \<Rightarrow> (Inr [], s1)
                 | Some e \<Rightarrow> fork_cut (JInt (int (ev_seq e))) s1))"

text \<open>\<open>create\<close> up to the callbacks of the announcement.\<close>

definition create_begin ::
    "int \<Rightarrow> string option \<Rightarrow> prepare_options \<Rightarrow> session_store \<Rightarrow> (store_error, nat) result \<times> session_store" where
  "create_begin now wanted opts st =
     (case prepare_session now wanted opts st of
        (Inl err, st1) \<Rightarrow> (Inl err, st1)
      | (Inr h, st1) \<Rightarrow>
          (case enter_session h st1 of
             (Inl err, st2) \<Rightarrow> (Inl err, st2)
           | (Inr e, st2) \<Rightarrow> announce_begin h st2))"

definition fork_begin ::
    "int \<Rightarrow> fork_source \<Rightarrow> jnum option \<Rightarrow> string option \<Rightarrow> session_store \<Rightarrow> (store_error, nat) result \<times> session_store" where
  "fork_begin now src boundary child st =
     (if (case child of Some c \<Rightarrow> get_session c st \<noteq> None | None \<Rightarrow> False)
      then (Inl (ForkExists (case child of Some c \<Rightarrow> c | None \<Rightarrow> [])), st)
      else case resolve_fork_source src st of
        Inl err \<Rightarrow> (Inl err, st)
      | Inr h \<Rightarrow>
          let s = st_objects st ! h in
          (case fork_seed s boundary of
             (Inl err, s') \<Rightarrow> (Inl err, update_object h s' st)
           | (Inr seed, s') \<Rightarrow>
               create_begin now child
                 (FreshOptions (no_options\<lparr>fo_seed := Some seed, fo_inherited := Some (JInt (int (length seed))),
                    fo_cwd := sh_cwd (s_header s), fo_parent := Some (sh_id (s_header s)), fo_seeded := True\<rparr>))
                 (update_object h s' st)))"

section \<open>Interleavings\<close>

text \<open>One operation on the store; callbacks running inside an announcement or an append are
  further operations between its halves.\<close>

inductive store_step :: "session_store \<Rightarrow> session_store \<Rightarrow> bool" where
  prepare: "store_step st (snd (prepare_session now wanted opts st))"
| enter: "h < length (st_objects st) \<Longrightarrow> store_step st (snd (enter_session h st))"
| announce_begin: "store_step st (snd (announce_begin h st))"
| announce_end: "e < length (st_entries st) \<Longrightarrow> en_announcing (st_entries st ! e) \<Longrightarrow> store_step st (announce_end e st)"
| append_start: "h < length (st_objects st) \<Longrightarrow> store_step st (snd (append_start now p op sources h st))"
| append_push: "e < length (st_entries st) \<Longrightarrow> k < length (en_calls (st_entries st ! e)) \<Longrightarrow> store_step st (append_push e k st)"
| append_end: "e < length (st_entries st) \<Longrightarrow> k < length (en_calls (st_entries st ! e)) \<Longrightarrow> store_step st (append_end e k st)"
| detach: "e < length (st_entries st) \<Longrightarrow> store_step st (detach e st)"
| read: "h < length (st_objects st) \<Longrightarrow>
    store_step st (update_object h (snd (snapshot_events from to (st_objects st ! h))) st)"

inductive store_reach :: "session_store \<Rightarrow> bool" where
  empty: "store_reach empty_store"
| step: "store_reach st \<Longrightarrow> store_step st st' \<Longrightarrow> store_reach st'"

section \<open>The store invariant\<close>

abbreviation entry_at :: "session_store \<Rightarrow> nat \<Rightarrow> store_entry" where
  "entry_at st e \<equiv> st_entries st ! e"

definition is_live :: "session_store \<Rightarrow> nat \<Rightarrow> bool" where
  "is_live st e \<longleftrightarrow> map_of (st_live st) (en_id (entry_at st e)) = Some e"

definition lifecycle :: "session_store \<Rightarrow> nat \<Rightarrow> emission list" where
  "lifecycle st e = filter (\<lambda>x. x = CreatedEmit e \<or> x = DisposedEmit e) (st_emitted st)"

text \<open>The two maps describe the same entries.\<close>

definition maps_ok :: "session_store \<Rightarrow> bool" where
  "maps_ok st \<longleftrightarrow>
     (\<forall>i e. map_of (st_live st) i = Some e \<longrightarrow>
        e < length (st_entries st) \<and> en_id (entry_at st e) = i
        \<and> map_of (st_attached st) (en_session (entry_at st e)) = Some e)
     \<and> (\<forall>h e. map_of (st_attached st) h = Some e \<longrightarrow>
        e < length (st_entries st) \<and> en_session (entry_at st e) = h
        \<and> map_of (st_live st) (en_id (entry_at st e)) = Some e)
     \<and> distinct (map fst (st_live st)) \<and> distinct (map fst (st_attached st))"

definition objects_ok :: "session_store \<Rightarrow> bool" where
  "objects_ok st \<longleftrightarrow> (\<forall>s \<in> set (st_objects st). session_inv s)
     \<and> (\<forall>e < length (st_entries st). en_session (entry_at st e) < length (st_objects st)
          \<and> en_id (entry_at st e) = object_id st (en_session (entry_at st e)))"

text \<open>The flag counts the open calls, and the event of a call that has not pushed yet is still the
  next one.\<close>

definition calls_fit :: "store_entry \<Rightarrow> bool" where
  "calls_fit en \<longleftrightarrow> length (en_calls en) = (if en_appending en then 1 else 0)"

definition pending_event :: "store_entry \<Rightarrow> session_event option" where
  "pending_event en = (case en_calls en of [Collecting ev] \<Rightarrow> Some ev | _ \<Rightarrow> None)"

definition pending_ok :: "session_store \<Rightarrow> nat \<Rightarrow> bool" where
  "pending_ok st e \<longleftrightarrow> calls_fit (entry_at st e) \<and>
     (\<forall>ev. pending_event (entry_at st e) = Some ev \<longrightarrow>
        ev_seq ev = length (s_log (st_objects st ! en_session (entry_at st e)))
        \<and> is_ok (fold_window 0 (s_log (st_objects st ! en_session (entry_at st e)) @ [ev])))"

definition busy_ok :: "session_store \<Rightarrow> nat \<Rightarrow> bool" where
  "busy_ok st e \<longleftrightarrow>
     (en_announcing (entry_at st e) \<longrightarrow> is_live st e \<and> en_announced (entry_at st e))
     \<and> (en_appending (entry_at st e) \<longrightarrow> is_live st e)"

definition emitted_ok :: "session_store \<Rightarrow> nat \<Rightarrow> bool" where
  "emitted_ok st e \<longleftrightarrow>
     lifecycle st e =
       (if en_announced (entry_at st e)
        then CreatedEmit e # (if is_live st e then [] else [DisposedEmit e]) else [])"

definition flags_ok :: "session_store \<Rightarrow> nat \<Rightarrow> bool" where
  "flags_ok st e \<longleftrightarrow>
     (en_detach_requested (entry_at st e) \<longrightarrow>
        (en_announcing (entry_at st e) \<or> en_appending (entry_at st e)) \<and> \<not> en_entered (entry_at st e))
     \<and> (en_entered (entry_at st e) \<longrightarrow> is_live st e)
     \<and> (is_live st e \<and> \<not> en_entered (entry_at st e) \<longrightarrow> en_detach_requested (entry_at st e))"

fun emission_entry :: "emission \<Rightarrow> nat" where
  "emission_entry (CreatedEmit e) = e"
| "emission_entry (DisposedEmit e) = e"
| "emission_entry (EventEmit e _) = e"

definition core_ok :: "session_store \<Rightarrow> bool" where
  "core_ok st \<longleftrightarrow> maps_ok st \<and> objects_ok st
     \<and> (\<forall>e < length (st_entries st). pending_ok st e \<and> busy_ok st e \<and> emitted_ok st e)
     \<and> (\<forall>x \<in> set (st_emitted st). emission_entry x < length (st_entries st))"

definition store_inv :: "session_store \<Rightarrow> bool" where
  "store_inv st \<longleftrightarrow> core_ok st \<and> (\<forall>e < length (st_entries st). flags_ok st e)"

lemma calls_fit_open:
  assumes "calls_fit en" and "k < length (en_calls en)"
  shows "en_appending en" and "k = 0" and "en_calls en = [en_calls en ! k]"
  using assms by (auto simp: calls_fit_def length_Suc_conv split: if_splits)

lemma calls_fit_idle: "calls_fit en \<Longrightarrow> \<not> en_appending en \<Longrightarrow> en_calls en = []"
  by (simp add: calls_fit_def)

lemma pending_event_open: "pending_event en \<noteq> None \<Longrightarrow> calls_fit en \<Longrightarrow> en_appending en"
  by (auto simp: calls_fit_def pending_event_def split: if_splits)

text \<open>The flags the \<open>finally\<close> block of a call leaves.\<close>

abbreviation drop_call :: "nat \<Rightarrow> store_entry \<Rightarrow> store_entry" where
  "drop_call k en \<equiv> en\<lparr>en_appending := False, en_calls := take k (en_calls en) @ drop (Suc k) (en_calls en)\<rparr>"

lemma drop_call_fit:
  assumes "calls_fit en" and "k < length (en_calls en)"
  shows "calls_fit (drop_call k en)" and "pending_event (drop_call k en) = None"
  using assms by (auto simp: calls_fit_def pending_event_def split: if_splits)

lemmas entry_defs = pending_ok_def busy_ok_def emitted_ok_def flags_ok_def is_live_def lifecycle_def

lemma maps_ok_live: "maps_ok st \<Longrightarrow> map_of (st_live st) i = Some e \<Longrightarrow>
    e < length (st_entries st) \<and> en_id (entry_at st e) = i \<and> map_of (st_attached st) (en_session (entry_at st e)) = Some e"
  by (simp add: maps_ok_def)

lemma maps_ok_attached: "maps_ok st \<Longrightarrow> map_of (st_attached st) h = Some e \<Longrightarrow>
    e < length (st_entries st) \<and> en_session (entry_at st e) = h \<and> map_of (st_live st) (en_id (entry_at st e)) = Some e"
  by (simp add: maps_ok_def)

text \<open>Changing the flags of one entry leaves the maps, the objects and all other entries alone.\<close>

lemma update_entry_simps [simp]:
  "length (st_entries (update_entry e f st)) = length (st_entries st)"
  "st_objects (update_entry e f st) = st_objects st" "st_live (update_entry e f st) = st_live st"
  "st_attached (update_entry e f st) = st_attached st" "st_emitted (update_entry e f st) = st_emitted st"
  "e < length (st_entries st) \<Longrightarrow> entry_at (update_entry e f st) e = f (entry_at st e)"
  "e' \<noteq> e \<Longrightarrow> entry_at (update_entry e f st) e' = entry_at st e'"
  by (simp_all add: update_entry_def)

text \<open>Such a change keeps what identifies an entry.\<close>

definition keeps_identity :: "(store_entry \<Rightarrow> store_entry) \<Rightarrow> bool" where
  "keeps_identity f \<longleftrightarrow> (\<forall>en. en_id (f en) = en_id en \<and> en_session (f en) = en_session en)"

lemma update_entry_identity:
  assumes "keeps_identity f" and "e < length (st_entries st)"
  shows "en_id (entry_at (update_entry e f st) e') = en_id (entry_at st e')"
    and "en_session (entry_at (update_entry e f st) e') = en_session (entry_at st e')"
  using assms by (cases "e' = e"; simp add: keeps_identity_def)+

lemma update_entry_maps:
  assumes "keeps_identity f" and "e < length (st_entries st)"
  shows "maps_ok (update_entry e f st) \<longleftrightarrow> maps_ok st"
    and "objects_ok (update_entry e f st) \<longleftrightarrow> objects_ok st"
    and "is_live (update_entry e f st) e' \<longleftrightarrow> is_live st e'"
  by (simp_all add: maps_ok_def objects_ok_def is_live_def object_id_def update_entry_identity [OF assms])

lemma update_entry_others:
  assumes "e' \<noteq> e" and "keeps_identity f" and "e < length (st_entries st)"
  shows "pending_ok (update_entry e f st) e' \<longleftrightarrow> pending_ok st e'"
    and "busy_ok (update_entry e f st) e' \<longleftrightarrow> busy_ok st e'"
    and "emitted_ok (update_entry e f st) e' \<longleftrightarrow> emitted_ok st e'"
    and "flags_ok (update_entry e f st) e' \<longleftrightarrow> flags_ok st e'"
  using assms by (simp_all add: pending_ok_def busy_ok_def emitted_ok_def flags_ok_def lifecycle_def
      update_entry_maps(3))

lemma core_update:
  assumes "core_ok st" and "keeps_identity f" and "e < length (st_entries st)"
    and "pending_ok (update_entry e f st) e" and "busy_ok (update_entry e f st) e" and "emitted_ok (update_entry e f st) e"
  shows "core_ok (update_entry e f st)"
proof -
  have "pending_ok (update_entry e f st) e' \<and> busy_ok (update_entry e f st) e' \<and> emitted_ok (update_entry e f st) e'"
    if "e' < length (st_entries st)" for e'
    using assms that update_entry_others [of e' e f st]
    by (cases "e' = e") (auto simp: core_ok_def)
  with assms(1) update_entry_maps [OF assms(2,3)] show ?thesis by (simp add: core_ok_def)
qed

text \<open>In particular a change of the capability flags only.\<close>

definition quiet :: "(store_entry \<Rightarrow> store_entry) \<Rightarrow> bool" where
  "quiet f \<longleftrightarrow> keeps_identity f
     \<and> (\<forall>en. en_announced (f en) = en_announced en \<and> en_announcing (f en) = en_announcing en
          \<and> en_appending (f en) = en_appending en \<and> en_calls (f en) = en_calls en)"

lemma core_update_quiet:
  assumes "core_ok st" and "quiet f" and "e < length (st_entries st)"
  shows "core_ok (update_entry e f st)"
proof -
  have id: "keeps_identity f" using assms(2) by (simp add: quiet_def)
  have live: "is_live (update_entry e f st) e \<longleftrightarrow> is_live st e" by (rule update_entry_maps(3) [OF id assms(3)])
  have e_ok: "pending_ok st e" "busy_ok st e" "emitted_ok st e"
    using assms(1,3) by (simp_all add: core_ok_def)
  have f: "en_session (f en) = en_session en" "en_announced (f en) = en_announced en"
    "en_announcing (f en) = en_announcing en" "en_appending (f en) = en_appending en" "en_calls (f en) = en_calls en" for en
    using assms(2) by (simp_all add: quiet_def keeps_identity_def)
  show ?thesis
    using assms(1) id assms(3)
  proof (rule core_update)
    show "pending_ok (update_entry e f st) e" using e_ok(1) assms(3) by (simp add: pending_ok_def calls_fit_def pending_event_def f)
    show "busy_ok (update_entry e f st) e" using e_ok(2) assms(3) by (simp add: busy_ok_def f live)
    show "emitted_ok (update_entry e f st) e" using e_ok(3) assms(3) by (simp add: emitted_ok_def f live lifecycle_def)
  qed
qed

lemma flags_update:
  assumes "\<forall>e' < length (st_entries st). e' \<noteq> e \<longrightarrow> flags_ok st e'" and "keeps_identity f"
    and "e < length (st_entries st)" and "flags_ok (update_entry e f st) e"
  shows "\<forall>e' < length (st_entries st). flags_ok (update_entry e f st) e'"
proof (intro allI impI)
  fix e' assume "e' < length (st_entries st)"
  with assms(1,4) update_entry_others(4) [OF _ assms(2,3)] show "flags_ok (update_entry e f st) e'"
    by (cases "e' = e") auto
qed

section \<open>Detaching\<close>

text \<open>Removing an idle entry whose capability was spent restores the invariant.\<close>

lemma detach_entered_inv:
  assumes core: "core_ok st" and e: "e < length (st_entries st)"
    and others: "\<forall>e' < length (st_entries st). e' \<noteq> e \<longrightarrow> flags_ok st e'"
    and idle: "\<not> en_announcing (entry_at st e)" "\<not> en_appending (entry_at st e)" "\<not> en_entered (entry_at st e)"
  shows "store_inv (detach_entered e st) \<and> \<not> is_live (detach_entered e st) e"
proof -
  define f where "f = (\<lambda>en. en\<lparr>en_detach_requested := False\<rparr> :: store_entry)"
  define st1 where "st1 = update_entry e f st"
  have id: "keeps_identity f" by (simp add: keeps_identity_def f_def)
  have core1: "core_ok st1"
    unfolding st1_def using core _ e
    by (rule core_update_quiet) (simp add: quiet_def keeps_identity_def f_def)
  have others1: "\<forall>e' < length (st_entries st1). e' \<noteq> e \<longrightarrow> flags_ok st1 e'"
    using others update_entry_others(4) [OF _ id e] by (simp add: st1_def)
  have en: "entry_at st1 e = (entry_at st e)\<lparr>en_detach_requested := False\<rparr>" and len: "e < length (st_entries st1)"
    using e by (simp_all add: st1_def f_def)
  show ?thesis
  proof (cases "is_live st1 e")
    case False
    then have same: "detach_entered e st = st1"
      by (simp add: detach_entered_def st1_def f_def is_live_def Let_def)
    have "flags_ok st1 e" using False idle en by (simp add: flags_ok_def)
    with core1 others1 False same show ?thesis by (auto simp: store_inv_def)
  next
    case True
    define st2 where "st2 = st1\<lparr>st_live := omap_delete (en_id (entry_at st1 e)) (st_live st1),
                            st_attached := omap_delete (en_session (entry_at st1 e)) (st_attached st1)\<rparr>"
    define st3 where "st3 = (if en_announced (entry_at st1 e) then emit (DisposedEmit e) st2 else st2)"
    have res: "detach_entered e st = st3"
      using True by (simp add: detach_entered_def st3_def st2_def st1_def f_def is_live_def Let_def)
    have maps1: "maps_ok st1" using core1 by (simp add: core_ok_def)
    have att: "map_of (st_attached st1) (en_session (entry_at st1 e)) = Some e"
      using maps_ok_live [OF maps1] True by (auto simp: is_live_def)
    have s3: "st_entries st3 = st_entries st1" "st_objects st3 = st_objects st1"
      "st_live st3 = omap_delete (en_id (entry_at st1 e)) (st_live st1)"
      "st_attached st3 = omap_delete (en_session (entry_at st1 e)) (st_attached st1)"
      "st_emitted st3 = st_emitted st1 @ (if en_announced (entry_at st1 e) then [DisposedEmit e] else [])"
      by (simp_all add: st3_def st2_def emit_def)
    have notlive: "\<not> is_live st3 e" by (simp add: is_live_def s3)
    have live: "is_live st3 e' \<longleftrightarrow> is_live st1 e'" if "e' \<noteq> e" for e'
      using that True by (auto simp: is_live_def s3)
    have liveE: "map_of (st_live st1) (en_id (entry_at st1 e)) = Some e" using True by (simp add: is_live_def)
    have "maps_ok st3"
      unfolding maps_ok_def s3
    proof (intro conjI allI impI)
      fix i e' assume "map_of (omap_delete (en_id (entry_at st1 e)) (st_live st1)) i = Some e'"
      then have i: "map_of (st_live st1) i = Some e'" "i \<noteq> en_id (entry_at st1 e)" by (auto split: if_splits)
      note m = maps_ok_live [OF maps1 i(1)]
      show "e' < length (st_entries st1)" "en_id (entry_at st1 e') = i" using m by simp_all
      have "en_session (entry_at st1 e') \<noteq> en_session (entry_at st1 e)"
        using m i(2) att by auto
      then show "map_of (omap_delete (en_session (entry_at st1 e)) (st_attached st1)) (en_session (entry_at st1 e')) = Some e'"
        using m by simp
    next
      fix h e' assume "map_of (omap_delete (en_session (entry_at st1 e)) (st_attached st1)) h = Some e'"
      then have h: "map_of (st_attached st1) h = Some e'" "h \<noteq> en_session (entry_at st1 e)" by (auto split: if_splits)
      note m = maps_ok_attached [OF maps1 h(1)]
      show "e' < length (st_entries st1)" "en_session (entry_at st1 e') = h" using m by simp_all
      have "en_id (entry_at st1 e') \<noteq> en_id (entry_at st1 e)" using m h(2) liveE by auto
      then show "map_of (omap_delete (en_id (entry_at st1 e)) (st_live st1)) (en_id (entry_at st1 e')) = Some e'"
        using m by simp
    qed (use maps1 in \<open>simp_all add: maps_ok_def\<close>)
    moreover have "objects_ok st3" using core1 by (simp add: core_ok_def objects_ok_def object_id_def s3)
    moreover have "pending_ok st3 e' \<and> busy_ok st3 e' \<and> emitted_ok st3 e' \<and> flags_ok st3 e'"
      if e': "e' < length (st_entries st3)" for e'
    proof (cases "e' = e")
      case True
      have "lifecycle st1 e = (if en_announced (entry_at st1 e) then [CreatedEmit e] else [])"
        using core1 len \<open>is_live st1 e\<close> by (auto simp: core_ok_def emitted_ok_def)
      then have "emitted_ok st3 e" using notlive by (auto simp: emitted_ok_def lifecycle_def s3)
      moreover have "pending_ok st3 e" using core1 len by (auto simp: core_ok_def pending_ok_def s3)
      moreover have "busy_ok st3 e" using idle en by (simp add: busy_ok_def s3)
      moreover have "flags_ok st3 e" using idle en notlive by (simp add: flags_ok_def s3)
      ultimately show ?thesis using True by simp
    next
      case False
      have "pending_ok st1 e' \<and> busy_ok st1 e' \<and> emitted_ok st1 e' \<and> flags_ok st1 e'"
        using core1 others1 e' False by (simp add: core_ok_def s3)
      moreover have lc: "lifecycle st3 e' = lifecycle st1 e'" using False by (simp add: lifecycle_def s3)
      have "pending_ok st3 e' = pending_ok st1 e'" by (simp only: pending_ok_def s3(1,2))
      moreover have "busy_ok st3 e' = busy_ok st1 e'" by (simp only: busy_ok_def s3(1,2) live [OF False])
      moreover have "emitted_ok st3 e' = emitted_ok st1 e'" by (simp only: emitted_ok_def s3(1,2) live [OF False] lc)
      moreover have "flags_ok st3 e' = flags_ok st1 e'" by (simp only: flags_ok_def s3(1,2) live [OF False])
      ultimately show ?thesis by blast
    qed
    moreover have "\<forall>x \<in> set (st_emitted st3). emission_entry x < length (st_entries st3)"
      using core1 len by (auto simp: core_ok_def s3)
    ultimately show ?thesis using res notlive by (simp add: store_inv_def core_ok_def)
  qed
qed

section \<open>Every operation keeps the invariant\<close>

lemma detach_inv:
  assumes "store_inv st" and "e < length (st_entries st)"
  shows "store_inv (detach e st)"
proof (cases "en_entered (entry_at st e)")
  case False
  with assms show ?thesis by (simp add: detach_def Let_def)
next
  case True
  define f where "f = (\<lambda>en. en\<lparr>en_entered := False\<rparr> :: store_entry)"
  have id: "keeps_identity f" by (simp add: keeps_identity_def f_def)
  have core: "core_ok st" and flags: "\<forall>e' < length (st_entries st). flags_ok st e'"
    using assms(1) by (simp_all add: store_inv_def)
  have core1: "core_ok (update_entry e f st)"
    using core _ assms(2) by (rule core_update_quiet) (simp add: quiet_def keeps_identity_def f_def)
  have others1: "\<forall>e' < length (st_entries (update_entry e f st)). e' \<noteq> e \<longrightarrow> flags_ok (update_entry e f st) e'"
    using flags update_entry_others(4) [OF _ id assms(2)] by simp
  show ?thesis
  proof (cases "en_announcing (entry_at st e) \<or> en_appending (entry_at st e)")
    case False
    then have "detach e st = detach_entered e (update_entry e f st)"
      using True by (simp add: detach_def Let_def f_def)
    then show ?thesis
      using detach_entered_inv [OF core1 _ others1] False assms(2) by (simp add: f_def)
  next
    case busy: True
    define g where "g = (\<lambda>en. en\<lparr>en_detach_requested := True\<rparr> :: store_entry)"
    have idg: "keeps_identity g" by (simp add: keeps_identity_def g_def)
    define st1 where "st1 = update_entry e f st"
    have e1: "e < length (st_entries st1)" "entry_at st1 e = (entry_at st e)\<lparr>en_entered := False\<rparr>"
      using assms(2) by (simp_all add: st1_def f_def)
    have "detach e st = update_entry e g st1"
      using True busy by (simp add: detach_def Let_def f_def g_def st1_def)
    moreover have "core_ok (update_entry e g st1)"
      using core1 [folded st1_def] _ e1(1) by (rule core_update_quiet) (simp add: quiet_def keeps_identity_def g_def)
    moreover have "\<forall>e' < length (st_entries st1). flags_ok (update_entry e g st1) e'"
      using others1 [folded st1_def] idg e1(1)
      by (rule flags_update) (use busy e1 in \<open>simp add: flags_ok_def g_def\<close>)
    ultimately show ?thesis by (simp add: store_inv_def)
  qed
qed

text \<open>The two \<open>finally\<close> blocks: one busy flag is cleared, and a deferred detach carried out when
  the other is clear too.\<close>

lemma finish_inv:
  assumes "store_inv st" and "e < length (st_entries st)" and "keeps_identity f"
    and "entry_at st e = en" and "en_announced (f en) = en_announced en"
    and "en_detach_requested (f en) = en_detach_requested en" and "en_entered (f en) = en_entered en"
    and "en_announcing (f en) \<longrightarrow> en_announcing en" and "en_appending (f en) \<longrightarrow> en_appending en"
    and "calls_fit en \<Longrightarrow> calls_fit (f en) \<and> (pending_event (f en) \<noteq> None \<longrightarrow> pending_event (f en) = pending_event en)"
  shows "store_inv (if en_detach_requested (f en) \<and> \<not> en_announcing (f en) \<and> \<not> en_appending (f en)
                    then detach_entered e (update_entry e f st) else update_entry e f st)"
proof -
  have core: "core_ok st" and flags: "\<forall>e' < length (st_entries st). flags_ok st e'"
    using assms(1) by (simp_all add: store_inv_def)
  have live: "is_live (update_entry e f st) e \<longleftrightarrow> is_live st e" by (rule update_entry_maps(3) [OF assms(3,2)])
  have ident: "en_session (f en) = en_session en" using assms(3) by (simp add: keeps_identity_def)
  have e_ok: "pending_ok st e" "busy_ok st e" "emitted_ok st e" "flags_ok st e"
    using core flags assms(2) by (simp_all add: core_ok_def)
  have core1: "core_ok (update_entry e f st)"
    using core assms(3,2)
  proof (rule core_update)
    show "pending_ok (update_entry e f st) e"
      using e_ok(1) assms(2,4,10) ident by (auto simp: pending_ok_def)
    show "busy_ok (update_entry e f st) e"
      using e_ok(2) assms(2,4,5,8,9) by (simp add: busy_ok_def live)
    show "emitted_ok (update_entry e f st) e"
      using e_ok(3) assms(2,4,5) by (simp add: emitted_ok_def lifecycle_def live)
  qed
  have others1: "\<forall>e' < length (st_entries (update_entry e f st)). e' \<noteq> e \<longrightarrow> flags_ok (update_entry e f st) e'"
    using flags update_entry_others(4) [OF _ assms(3,2)] by simp
  show ?thesis
  proof (cases "en_detach_requested (f en) \<and> \<not> en_announcing (f en) \<and> \<not> en_appending (f en)")
    case True
    moreover have "\<not> en_entered (f en)" using True e_ok(4) assms(4,6,7) by (simp add: flags_ok_def)
    ultimately have idle: "\<not> en_announcing (entry_at (update_entry e f st) e)"
      "\<not> en_appending (entry_at (update_entry e f st) e)" "\<not> en_entered (entry_at (update_entry e f st) e)"
      using assms(2,4) by simp_all
    have "e < length (st_entries (update_entry e f st))" using assms(2) by simp
    from detach_entered_inv [OF core1 this others1 idle] show ?thesis by (simp only: if_P [OF True])
  next
    case False
    have eq: "entry_at (update_entry e f st) e = f en" using assms(2,4) by simp
    have fe: "flags_ok (update_entry e f st) e"
      unfolding flags_ok_def eq live assms(6,7)
      using e_ok(4) [unfolded flags_ok_def assms(4)] False [unfolded assms(6)] by blast
    have "\<forall>e' < length (st_entries st). e' \<noteq> e \<longrightarrow> flags_ok st e'" using flags by simp
    from flags_update [OF this assms(3,2) fe]
    have "\<forall>e' < length (st_entries st). flags_ok (update_entry e f st) e'" .
    with core1 show ?thesis by (simp only: if_not_P [OF False] store_inv_def update_entry_simps simp_thms)
  qed
qed

lemma announce_end_inv:
  assumes "store_inv st" and "e < length (st_entries st)"
  shows "store_inv (announce_end e st)"
proof -
  have "store_inv (if en_detach_requested (entry_at st e) \<and> \<not> en_appending (entry_at st e)
      then detach_entered e (update_entry e (\<lambda>en. en\<lparr>en_announcing := False\<rparr>) st)
      else update_entry e (\<lambda>en. en\<lparr>en_announcing := False\<rparr>) st)"
    using finish_inv [OF assms, of "\<lambda>en. en\<lparr>en_announcing := False\<rparr>" "entry_at st e"]
    by (simp add: keeps_identity_def calls_fit_def pending_event_def)
  then show ?thesis using assms(2) by (simp add: announce_end_def Let_def)
qed

lemma append_end_inv:
  assumes "store_inv st" and "e < length (st_entries st)" and "k < length (en_calls (entry_at st e))"
  shows "store_inv (append_end e k st)"
proof -
  have "store_inv (if en_detach_requested (entry_at st e) \<and> \<not> en_announcing (entry_at st e)
      then detach_entered e (update_entry e (drop_call k) st) else update_entry e (drop_call k) st)"
    using finish_inv [OF assms(1,2), of "drop_call k" "entry_at st e"] drop_call_fit [OF _ assms(3)]
    by (simp add: keeps_identity_def)
  then show ?thesis using assms(2) by (simp add: append_end_def Let_def)
qed

text \<open>Replacing a session object by a consistent one with the same header, and the same log
  where an append is pending.\<close>

lemma update_object_simps [simp]:
  "st_entries (update_object h s st) = st_entries st" "st_live (update_object h s st) = st_live st"
  "st_attached (update_object h s st) = st_attached st" "st_emitted (update_object h s st) = st_emitted st"
  "length (st_objects (update_object h s st)) = length (st_objects st)"
  by (simp_all add: update_object_def)

lemma update_object_nth:
  "h < length (st_objects st) \<Longrightarrow> st_objects (update_object h s st) ! k = (if k = h then s else st_objects st ! k)"
  by (auto simp: update_object_def nth_list_update)

lemma update_object_inv:
  assumes inv: "store_inv st" and h: "h < length (st_objects st)" and s: "session_inv s"
    and hdr: "s_header s = s_header (st_objects st ! h)"
    and same: "\<And>e. e < length (st_entries st) \<Longrightarrow> en_session (entry_at st e) = h \<Longrightarrow> pending_event (entry_at st e) \<noteq> None \<Longrightarrow>
        s_log s = s_log (st_objects st ! h)"
  shows "store_inv (update_object h s st)"
proof -
  let ?st = "update_object h s st"
  have live: "is_live ?st e = is_live st e" for e by (simp add: is_live_def)
  have core: "core_ok st" and flags: "\<And>e. e < length (st_entries st) \<Longrightarrow> flags_ok st e"
    using inv by (simp_all add: store_inv_def)
  have "maps_ok ?st" using core by (simp add: core_ok_def maps_ok_def)
  moreover have "objects_ok ?st"
  proof -
    have "object_id ?st k = object_id st k" if "k < length (st_objects st)" for k
      using hdr h by (simp add: object_id_def update_object_nth)
    moreover have "\<forall>x \<in> set (st_objects ?st). session_inv x"
      using core s h by (auto simp: core_ok_def objects_ok_def update_object_def dest: set_update_subset_insert [THEN subsetD])
    ultimately show ?thesis using core by (simp add: core_ok_def objects_ok_def)
  qed
  moreover have "pending_ok ?st e" if e: "e < length (st_entries st)" for e
  proof -
    have p: "pending_ok st e" using core e by (simp add: core_ok_def)
    show ?thesis
    proof (cases "en_session (entry_at st e) = h \<and> pending_event (entry_at st e) \<noteq> None")
      case True
      with same e have "s_log s = s_log (st_objects st ! h)" by blast
      with True p h show ?thesis by (simp add: pending_ok_def update_object_nth)
    next
      case False
      then show ?thesis
      proof (cases "pending_event (entry_at st e)")
        case (Some ev)
        with False p h show ?thesis by (simp add: pending_ok_def update_object_nth)
      qed (use p in \<open>simp add: pending_ok_def\<close>)
    qed
  qed
  moreover have "busy_ok ?st e" "emitted_ok ?st e" "flags_ok ?st e" if e: "e < length (st_entries st)" for e
  proof -
    have "busy_ok ?st e = busy_ok st e" "emitted_ok ?st e = emitted_ok st e" "flags_ok ?st e = flags_ok st e"
      by (simp_all only: busy_ok_def emitted_ok_def flags_ok_def lifecycle_def live update_object_simps)
    then show "busy_ok ?st e" "emitted_ok ?st e" "flags_ok ?st e"
      using core flags [OF e] e by (simp_all add: core_ok_def)
  qed
  ultimately show ?thesis using core by (simp add: store_inv_def core_ok_def)
qed

lemma emit_event_inv:
  assumes "store_inv st" and "e < length (st_entries st)"
  shows "store_inv (emit (EventEmit e ev) st)"
proof -
  let ?st = "emit (EventEmit e ev) st"
  have same: "st_entries ?st = st_entries st" "st_objects ?st = st_objects st" "st_live ?st = st_live st"
    "st_attached ?st = st_attached st" "st_emitted ?st = st_emitted st @ [EventEmit e ev]"
    by (simp_all add: emit_def)
  have "lifecycle ?st e' = lifecycle st e'" "is_live ?st e' = is_live st e'" for e'
    by (simp_all add: lifecycle_def is_live_def same)
  then have eq: "pending_ok ?st e' = pending_ok st e'" "busy_ok ?st e' = busy_ok st e'"
    "emitted_ok ?st e' = emitted_ok st e'" "flags_ok ?st e' = flags_ok st e'" for e'
    by (simp_all only: pending_ok_def busy_ok_def emitted_ok_def flags_ok_def same)
  have "maps_ok ?st = maps_ok st" "objects_ok ?st = objects_ok st"
    by (simp_all only: maps_ok_def objects_ok_def object_id_def same)
  with assms show ?thesis by (simp add: store_inv_def core_ok_def eq same)
qed

lemma live_entry:
  assumes "store_inv st" and "map_of (st_attached st) h = Some e"
  shows "e < length (st_entries st)" and "en_session (entry_at st e) = h" and "is_live st e"
    and "h < length (st_objects st)"
proof -
  have m: "maps_ok st" and o: "objects_ok st" using assms(1) by (simp_all add: store_inv_def core_ok_def)
  from maps_ok_attached [OF m assms(2)] show a: "e < length (st_entries st)" "en_session (entry_at st e) = h" "is_live st e"
    by (simp_all add: is_live_def)
  with o show "h < length (st_objects st)" by (auto simp: objects_ok_def)
qed

lemma pending_attached:
  assumes "store_inv st" and "e < length (st_entries st)" and "pending_event (entry_at st e) \<noteq> None"
  shows "map_of (st_attached st) (en_session (entry_at st e)) = Some e" and "en_appending (entry_at st e)"
proof -
  have ok: "pending_ok st e" "busy_ok st e" and m: "maps_ok st"
    using assms by (simp_all add: store_inv_def core_ok_def)
  from ok(1) assms(3) show a: "en_appending (entry_at st e)"
    using pending_event_open by (simp add: pending_ok_def)
  with ok(2) have "is_live st e" by (simp add: busy_ok_def)
  with maps_ok_live [OF m] show "map_of (st_attached st) (en_session (entry_at st e)) = Some e"
    by (auto simp: is_live_def)
qed

text \<open>Setting flags of one entry without touching lifecycle and identity.\<close>

lemma update_entry_inv:
  assumes inv: "store_inv st" and id: "keeps_identity f" and e: "e < length (st_entries st)"
    and ann: "en_announced (f (entry_at st e)) = en_announced (entry_at st e)"
    and p: "pending_ok (update_entry e f st) e" and b: "busy_ok (update_entry e f st) e"
    and fl: "flags_ok (update_entry e f st) e"
  shows "store_inv (update_entry e f st)"
proof -
  have core: "core_ok st" and flags: "\<forall>e' < length (st_entries st). e' \<noteq> e \<longrightarrow> flags_ok st e'"
    using inv by (simp_all add: store_inv_def)
  have live: "is_live (update_entry e f st) e \<longleftrightarrow> is_live st e" by (rule update_entry_maps(3) [OF id e])
  have "emitted_ok st e" using core e by (simp add: core_ok_def)
  then have "emitted_ok (update_entry e f st) e" using e ann by (simp add: emitted_ok_def lifecycle_def live)
  from core_update [OF core id e p b this] flags_update [OF flags id e fl] show ?thesis
    by (simp add: store_inv_def)
qed

lemma append_push_inv:
  assumes inv: "store_inv st" and e: "e < length (st_entries st)"
    and k: "k < length (en_calls (entry_at st e))"
  shows "store_inv (append_push e k st)"
proof (cases "en_calls (entry_at st e) ! k")
  case (Published ev)
  with inv show ?thesis by (simp add: append_push_def Let_def)
next
  case (Collecting ev)
  define f where "f = (\<lambda>en. en\<lparr>en_calls := (en_calls en)[k := Published ev]\<rparr> :: store_entry)"
  define h where "h = en_session (entry_at st e)"
  have id: "keeps_identity f" by (simp add: keeps_identity_def f_def)
  have ok: "pending_ok st e" "busy_ok st e" "flags_ok st e" "objects_ok st"
    using inv e by (simp_all add: store_inv_def core_ok_def)
  have fit: "calls_fit (entry_at st e)" using ok(1) by (simp add: pending_ok_def)
  have one: "k = 0" "en_calls (entry_at st e) = [Collecting ev]"
    using calls_fit_open [OF fit k] Collecting by simp_all
  then have Some: "pending_event (entry_at st e) = Some ev" by (simp add: pending_event_def)
  have att: "map_of (st_attached st) h = Some e" using pending_attached(1) [OF inv e] Some by (simp add: h_def)
  have hlen: "h < length (st_objects st)" by (rule live_entry(4) [OF inv att])
  define st1 where "st1 = update_entry e f st"
  have live: "is_live st1 e \<longleftrightarrow> is_live st e" unfolding st1_def by (rule update_entry_maps(3) [OF id e])
  have en1: "entry_at st1 e = (entry_at st e)\<lparr>en_calls := [Published ev]\<rparr>" using e one by (simp add: st1_def f_def)
  have fit1: "calls_fit (entry_at st1 e)" "pending_event (entry_at st1 e) = None"
    using fit one en1 by (simp_all add: calls_fit_def pending_event_def)
  have inv1: "store_inv st1"
    unfolding st1_def
  proof (rule update_entry_inv [OF inv id e])
    show "en_announced (f (entry_at st e)) = en_announced (entry_at st e)" by (simp add: f_def)
    show "pending_ok (update_entry e f st) e" using fit1 by (simp add: pending_ok_def st1_def)
    show "busy_ok (update_entry e f st) e" using ok(2) live en1 by (simp add: busy_ok_def st1_def)
    have "flags_ok (update_entry e f st) e = flags_ok st e"
      unfolding flags_ok_def live [unfolded st1_def] en1 [unfolded st1_def] by simp
    with ok(3) show "flags_ok (update_entry e f st) e" by simp
  qed
  have "is_ok (fold_window 0 (s_log (st_objects st ! h) @ [ev]))"
    using ok(1) Some by (simp add: pending_ok_def h_def)
  moreover have "session_inv (st_objects st ! h)" using ok(4) hlen by (simp add: objects_ok_def)
  ultimately have "session_inv (append_commit ev (st_objects st ! h))" by (intro append_commit_inv)
  then have "store_inv (update_object h (append_commit ev (st_objects st ! h)) st1)"
  proof (intro update_object_inv [OF inv1])
    fix e' assume e': "e' < length (st_entries st1)" "en_session (entry_at st1 e') = h" "pending_event (entry_at st1 e') \<noteq> None"
    have "map_of (st_attached st1) h = Some e'" using pending_attached(1) [OF inv1 e'(1,3)] e'(2) by simp
    then have "e' = e" using att by (simp add: st1_def)
    with e'(3) fit1 show "s_log (append_commit ev (st_objects st ! h)) = s_log (st_objects st1 ! h)" by simp
  qed (simp_all add: hlen st1_def append_commit_def)
  moreover have "append_push e k st = emit (EventEmit e ev) (update_object h (append_commit ev (st_objects st ! h)) st1)"
    using Collecting by (simp add: append_push_def Let_def h_def st1_def f_def)
  ultimately show ?thesis using emit_event_inv e by (simp add: st1_def)
qed

lemma append_validate_session:
  assumes "session_inv s" and "append_precheck p op sources s = Inr u"
  obtains err s' where "append_validate now p op sources s = (Inl err, s')" "session_inv s'" "s_log s' = s_log s"
      "s_header s' = s_header s"
  | e s' where "append_validate now p op sources s = (Inr e, s')" "session_inv s'" "s_log s' = s_log s"
      "s_header s' = s_header s" "ev_seq e = length (s_log s)" "is_ok (fold_window 0 (s_log s @ [e]))"
proof -
  have eq: "append_prepare now p op sources s = append_validate now p op sources s"
    using assms(2) by (simp add: append_prepare_def)
  have hdr: "s_header s' = s_header s" if "s' = s\<lparr>s_surface := s_surface s'\<rparr>" for s' :: session
    using that by (metis session.select_convs(3) session.surjective session.update_convs(2))
  from assms(1) show ?thesis
  proof (cases rule: append_prepare_cases [of s now p op sources])
    case (1 err s')
    from that(1) [of err s'] 1(1-3) hdr [OF 1(5)] eq show ?thesis by simp
  next
    case (2 e s')
    from that(2) [of e s'] 2(1-3,5) hdr [OF 2(6)] eq 2(4) show ?thesis by simp
  qed
qed

text \<open>An entry may become busier without breaking its capability flags.\<close>

lemma flags_mono:
  assumes "flags_ok st e" and "is_live st' e = is_live st e"
    and "en_detach_requested (entry_at st' e) = en_detach_requested (entry_at st e)"
    and "en_entered (entry_at st' e) = en_entered (entry_at st e)"
    and "en_announcing (entry_at st e) \<longrightarrow> en_announcing (entry_at st' e)"
    and "en_appending (entry_at st e) \<longrightarrow> en_appending (entry_at st' e)"
  shows "flags_ok st' e"
  using assms unfolding flags_ok_def by blast

lemma append_start_inv:
  assumes inv: "store_inv st" and h: "h < length (st_objects st)"
  shows "store_inv (snd (append_start now p op sources h st))"
proof (cases "append_precheck p op sources (st_objects st ! h)")
  case (Inl err)
  with inv show ?thesis by (simp add: append_start_def Let_def)
next
  case (Inr u)
  have s: "session_inv (st_objects st ! h)" using inv h by (simp add: store_inv_def core_ok_def objects_ok_def)
  note validate = append_validate_session [OF s Inr, of now]
  have keep: "store_inv (update_object h s' st)"
    if "session_inv s'" "s_log s' = s_log (st_objects st ! h)" "s_header s' = s_header (st_objects st ! h)" for s'
    using that by (intro update_object_inv [OF inv h]) auto
  show ?thesis
  proof (cases "map_of (st_attached st) h")
    case None
    from validate show ?thesis
    proof cases
      case (1 err s')
      with None Inr keep [OF 1(2-4)] show ?thesis by (simp add: append_start_def Let_def)
    next
      case (2 e s')
      have c: "session_inv (append_commit e s')" using 2 append_commit_inv by auto
      have "store_inv (update_object h (append_commit e s') st)"
      proof (rule update_object_inv [OF inv h c])
        show "s_header (append_commit e s') = s_header (st_objects st ! h)" using 2(4) by (simp add: append_commit_def)
      next
        fix e' assume "e' < length (st_entries st)" "en_session (entry_at st e') = h" "pending_event (entry_at st e') \<noteq> None"
        with pending_attached(1) [OF inv, of e'] None show "s_log (append_commit e s') = s_log (st_objects st ! h)" by simp
      qed
      with None Inr 2 show ?thesis by (simp add: append_start_def Let_def)
    qed
  next
    case (Some i)
    show ?thesis
    proof (cases "en_appending (entry_at st i)")
      case True
      with Some Inr inv show ?thesis by (simp add: append_start_def Let_def)
    next
      case False
      from validate show ?thesis
      proof cases
        case (1 err s')
        with Some False Inr keep [OF 1(2-4)] show ?thesis by (simp add: append_start_def Let_def)
      next
        case (2 e s')
        define f where "f = (\<lambda>en. en\<lparr>en_appending := True, en_calls := en_calls en @ [Collecting e]\<rparr> :: store_entry)"
        define st1 where "st1 = update_object h s' st"
        have inv1: "store_inv st1" unfolding st1_def by (rule keep [OF 2(2-4)])
        note i = live_entry [OF inv Some]
        have i1: "i < length (st_entries st1)" "en_session (entry_at st1 i) = h" "is_live st1 i"
          using i by (simp_all add: st1_def is_live_def)
        have id: "keeps_identity f" by (simp add: keeps_identity_def f_def)
        have live: "is_live (update_entry i f st1) i" using update_entry_maps(3) [OF id i1(1)] i1(3) by simp
        have ok: "pending_ok st1 i" "busy_ok st1 i" "flags_ok st1 i" using inv1 i1 by (simp_all add: store_inv_def core_ok_def)
        have "\<not> en_appending (entry_at st1 i)" using False by (simp add: st1_def)
        then have none: "en_calls (entry_at st1 i) = []" using ok(1) calls_fit_idle by (simp add: pending_ok_def)
        have en: "entry_at (update_entry i f st1) i = (entry_at st1 i)\<lparr>en_appending := True, en_calls := [Collecting e]\<rparr>"
          using i1 none by (simp add: f_def)
        have logh: "s_log (st_objects st1 ! h) = s_log (st_objects st ! h)"
          using 2(3) h by (simp add: st1_def update_object_nth)
        have "store_inv (update_entry i f st1)"
        proof (rule update_entry_inv [OF inv1 id i1(1)])
          show "en_announced (f (entry_at st1 i)) = en_announced (entry_at st1 i)" by (simp add: f_def)
          show "pending_ok (update_entry i f st1) i"
            unfolding pending_ok_def en using 2(5,6) i1(2) logh by (simp add: calls_fit_def pending_event_def)
          show "busy_ok (update_entry i f st1) i"
            using ok(2) live unfolding busy_ok_def en by simp
          show "flags_ok (update_entry i f st1) i"
            by (rule flags_mono [OF ok(3)]) (simp_all add: live i1(3) en)
        qed
        with Some False Inr 2 show ?thesis by (simp add: append_start_def Let_def st1_def f_def)
      qed
    qed
  qed
qed

lemma announce_begin_inv:
  assumes inv: "store_inv st"
  shows "store_inv (snd (announce_begin h st))"
proof (cases "\<exists>e. live_entry_for h st = Inr e \<and> \<not> en_announced (entry_at st e) \<and> \<not> en_announcing (entry_at st e)")
  case False
  with inv show ?thesis by (auto simp: announce_begin_def Let_def split: sum.splits)
next
  case True
  then obtain e where le: "live_entry_for h st = Inr e" and idle: "\<not> en_announced (entry_at st e)" "\<not> en_announcing (entry_at st e)"
    by blast
  then have att: "map_of (st_attached st) h = Some e" by (auto simp: live_entry_for_def split: option.splits if_splits)
  note i = live_entry [OF inv att]
  define f where "f = (\<lambda>en. en\<lparr>en_announced := True, en_announcing := True\<rparr> :: store_entry)"
  define st1 where "st1 = update_entry e f st"
  define st2 where "st2 = emit (CreatedEmit e) st1"
  have id: "keeps_identity f" by (simp add: keeps_identity_def f_def)
  have core: "core_ok st" and flags: "\<And>e'. e' < length (st_entries st) \<Longrightarrow> flags_ok st e'"
    using inv by (simp_all add: store_inv_def)
  have ok: "pending_ok st e" "busy_ok st e" "emitted_ok st e" "flags_ok st e"
    using core flags i(1) by (simp_all add: core_ok_def)
  have s2: "st_entries st2 = st_entries st1" "st_objects st2 = st_objects st" "st_live st2 = st_live st"
    "st_attached st2 = st_attached st" "st_emitted st2 = st_emitted st @ [CreatedEmit e]"
    by (simp_all add: st2_def st1_def emit_def)
  have en: "entry_at st1 e = (entry_at st e)\<lparr>en_announced := True, en_announcing := True\<rparr>"
    using i(1) by (simp add: st1_def f_def)
  have live1: "is_live st1 e' = is_live st e'" for e' unfolding st1_def by (rule update_entry_maps(3) [OF id i(1)])
  have live2: "is_live st2 e' = is_live st e'" for e' using live1 [of e'] by (simp add: is_live_def s2 st1_def)
  have s21: "st_entries st2 = st_entries st1" "st_objects st2 = st_objects st1" "st_live st2 = st_live st1"
    "st_attached st2 = st_attached st1" by (simp_all add: st2_def emit_def)
  have "maps_ok st2 = maps_ok st1" "objects_ok st2 = objects_ok st1"
    by (simp_all only: maps_ok_def objects_ok_def object_id_def s21)
  then have "maps_ok st2" "objects_ok st2"
    using core update_entry_maps(1,2) [OF id i(1)] by (simp_all add: core_ok_def st1_def)
  moreover have "pending_ok st2 e' \<and> busy_ok st2 e' \<and> emitted_ok st2 e' \<and> flags_ok st2 e'"
    if e': "e' < length (st_entries st2)" for e'
  proof (cases "e' = e")
    case True
    have "lifecycle st2 e = [CreatedEmit e]"
      using ok(3) idle by (simp add: emitted_ok_def lifecycle_def s2)
    then have "emitted_ok st2 e" using i(3) en by (simp add: emitted_ok_def live2 s2)
    moreover have "pending_ok st2 e" using ok(1) en by (simp add: pending_ok_def calls_fit_def pending_event_def s2)
    moreover have "busy_ok st2 e" using ok(2) en i(3) by (simp add: busy_ok_def s2 live2)
    moreover have "flags_ok st2 e" by (rule flags_mono [OF ok(4)]) (simp_all add: live2 s2 en)
    ultimately show ?thesis using True by simp
  next
    case False
    have e1: "e' < length (st_entries st)" using e' by (simp add: s2 st1_def)
    have "entry_at st2 e' = entry_at st e'" using False by (simp add: s2 st1_def)
    moreover have "lifecycle st2 e' = lifecycle st e'" using False by (simp add: lifecycle_def s2)
    ultimately have "pending_ok st2 e' = pending_ok st e'" "busy_ok st2 e' = busy_ok st e'"
      "emitted_ok st2 e' = emitted_ok st e'" "flags_ok st2 e' = flags_ok st e'"
      by (simp_all only: pending_ok_def busy_ok_def emitted_ok_def flags_ok_def live2 s2(2))
    then show ?thesis using core flags [OF e1] e1 by (simp add: core_ok_def)
  qed
  moreover have "\<forall>x \<in> set (st_emitted st2). emission_entry x < length (st_entries st2)"
    using core i(1) by (auto simp: core_ok_def s2 st1_def)
  ultimately have "store_inv st2" by (simp add: store_inv_def core_ok_def)
  with le idle show ?thesis by (simp add: announce_begin_def Let_def st2_def st1_def f_def)
qed

lemma enter_inv:
  assumes inv: "store_inv st" and h: "h < length (st_objects st)"
  shows "store_inv (snd (enter_session h st))"
proof (cases "object_id st h \<in> live_ids st \<or> map_of (st_attached st) h \<noteq> None")
  case True
  with inv show ?thesis by (auto simp: enter_session_def Let_def)
next
  case False
  define i where "i = object_id st h"
  define e where "e = length (st_entries st)"
  define en where "en = \<lparr>en_id = i, en_session = h, en_announced = False, en_announcing = False, en_appending = False,
               en_detach_requested = False, en_entered = True, en_calls = []\<rparr>"
  define st' where "st' = st\<lparr>st_entries := st_entries st @ [en],
           st_live := omap_set i e (st_live st), st_attached := omap_set h e (st_attached st)\<rparr>"
  have res: "snd (enter_session h st) = st'"
    using False by (simp add: enter_session_def Let_def st'_def en_def e_def i_def)
  have core: "core_ok st" and flags: "\<And>e'. e' < length (st_entries st) \<Longrightarrow> flags_ok st e'"
    using inv by (simp_all add: store_inv_def)
  have maps: "maps_ok st" and objs: "objects_ok st" using core by (simp_all add: core_ok_def)
  have fresh: "map_of (st_live st) i = None" "map_of (st_attached st) h = None"
    using False by (auto simp: live_ids_def i_def map_of_eq_None_iff)
  have s': "st_entries st' = st_entries st @ [en]" "st_objects st' = st_objects st"
    "map_of (st_live st') = (map_of (st_live st))(i \<mapsto> e)" "map_of (st_attached st') = (map_of (st_attached st))(h \<mapsto> e)"
    "st_emitted st' = st_emitted st"
    by (simp_all add: st'_def)
  have old: "entry_at st' e' = entry_at st e'" if "e' < e" for e' using that by (simp add: s' e_def nth_append)
  have new: "entry_at st' e = en" by (simp add: s' e_def)
  have livenew: "is_live st' e" by (simp add: is_live_def new s'(3) en_def)
  have liveold: "is_live st' e' = is_live st e'" if "e' < e" for e'
    using that fresh(1) by (auto simp: is_live_def old s'(3))
  have "maps_ok st'"
    unfolding maps_ok_def
  proof (intro conjI allI impI)
    fix j e' assume j: "map_of (st_live st') j = Some e'"
    have cases: "(j = i \<and> e' = e) \<or> (j \<noteq> i \<and> map_of (st_live st) j = Some e')"
      using j by (simp add: s'(3) split: if_splits)
    have "e' < length (st_entries st') \<and> en_id (entry_at st' e') = j
      \<and> map_of (st_attached st') (en_session (entry_at st' e')) = Some e'"
      using cases
    proof
      assume "j = i \<and> e' = e"
      then show ?thesis by (simp add: new en_def s'(4)) (simp add: s'(1) e_def)
    next
      assume "j \<noteq> i \<and> map_of (st_live st) j = Some e'"
      then have m: "e' < e" "en_id (entry_at st e') = j" "map_of (st_attached st) (en_session (entry_at st e')) = Some e'"
        using maps_ok_live [OF maps, of j e'] by (simp_all add: e_def)
      then have "en_session (entry_at st e') \<noteq> h" using fresh(2) by auto
      with m show ?thesis by (simp add: old s'(4)) (simp add: s'(1) e_def)
    qed
    then show "e' < length (st_entries st')" "en_id (entry_at st' e') = j"
      "map_of (st_attached st') (en_session (entry_at st' e')) = Some e'" by blast+
  next
    fix k e' assume k: "map_of (st_attached st') k = Some e'"
    have cases: "(k = h \<and> e' = e) \<or> (k \<noteq> h \<and> map_of (st_attached st) k = Some e')"
      using k by (simp add: s'(4) split: if_splits)
    have "e' < length (st_entries st') \<and> en_session (entry_at st' e') = k
      \<and> map_of (st_live st') (en_id (entry_at st' e')) = Some e'"
      using cases
    proof
      assume "k = h \<and> e' = e"
      then show ?thesis by (simp add: new en_def s'(3)) (simp add: s'(1) e_def)
    next
      assume "k \<noteq> h \<and> map_of (st_attached st) k = Some e'"
      then have m: "e' < e" "en_session (entry_at st e') = k" "map_of (st_live st) (en_id (entry_at st e')) = Some e'"
        using maps_ok_attached [OF maps, of k e'] by (simp_all add: e_def)
      then have "en_id (entry_at st e') \<noteq> i" using fresh(1) by auto
      with m show ?thesis by (simp add: old s'(3)) (simp add: s'(1) e_def)
    qed
    then show "e' < length (st_entries st')" "en_session (entry_at st' e') = k"
      "map_of (st_live st') (en_id (entry_at st' e')) = Some e'" by blast+
  qed (use maps in \<open>simp_all add: maps_ok_def st'_def\<close>)
  moreover have "objects_ok st'"
    using objs h by (auto simp: objects_ok_def object_id_def s'(1,2) nth_append en_def i_def less_Suc_eq)
  moreover have "pending_ok st' e' \<and> busy_ok st' e' \<and> emitted_ok st' e' \<and> flags_ok st' e'"
    if e': "e' < length (st_entries st')" for e'
  proof (cases "e' = e")
    case True
    have "lifecycle st' e = []"
      using core by (auto simp: lifecycle_def s'(5) core_ok_def e_def filter_empty_conv)
    then show ?thesis using True livenew
      by (simp add: pending_ok_def calls_fit_def pending_event_def busy_ok_def emitted_ok_def flags_ok_def new en_def)
  next
    case False
    then have lt: "e' < e" using e' by (simp add: s'(1) e_def)
    have "lifecycle st' e' = lifecycle st e'" by (simp add: lifecycle_def s'(5))
    then have "pending_ok st' e' = pending_ok st e'" "busy_ok st' e' = busy_ok st e'"
      "emitted_ok st' e' = emitted_ok st e'" "flags_ok st' e' = flags_ok st e'"
      by (simp_all only: pending_ok_def busy_ok_def emitted_ok_def flags_ok_def liveold [OF lt] old [OF lt] s'(2))
    then show ?thesis using core flags lt by (simp add: core_ok_def e_def)
  qed
  moreover have "\<forall>x \<in> set (st_emitted st'). emission_entry x < length (st_entries st')"
    using core by (auto simp: core_ok_def s'(1,5))
  ultimately show ?thesis unfolding res by (simp add: store_inv_def core_ok_def)
qed

lemma prepare_inv:
  assumes inv: "store_inv st"
  shows "store_inv (snd (prepare_session now wanted opts st))"
proof -
  have "store_inv (st\<lparr>st_counter := c\<rparr>) = store_inv st" for c
    unfolding store_inv_def core_ok_def maps_ok_def objects_ok_def object_id_def pending_ok_def busy_ok_def
      emitted_ok_def flags_ok_def is_live_def lifecycle_def by simp
  with inv have counter: "store_inv (st\<lparr>st_counter := c\<rparr>)" for c by blast
  have add: "store_inv (st\<lparr>st_counter := c, st_objects := st_objects st @ [s]\<rparr>)" if s: "session_inv s" for c s
  proof -
    let ?st = "st\<lparr>st_counter := c, st_objects := st_objects st @ [s]\<rparr>"
    have core: "core_ok st" and flags: "\<And>e. e < length (st_entries st) \<Longrightarrow> flags_ok st e"
      using inv by (simp_all add: store_inv_def)
    have obj: "st_objects ?st ! en_session (entry_at st e) = st_objects st ! en_session (entry_at st e)"
      if "e < length (st_entries st)" for e
      using core that by (simp add: core_ok_def objects_ok_def nth_append)
    have live: "is_live ?st e = is_live st e" "lifecycle ?st e = lifecycle st e" for e
      by (simp_all add: is_live_def lifecycle_def)
    have ents: "st_entries ?st = st_entries st" by simp
    have "maps_ok ?st" using core by (simp add: core_ok_def maps_ok_def)
    moreover have "objects_ok ?st"
      using core s by (auto simp: core_ok_def objects_ok_def object_id_def nth_append less_SucI)
    moreover have "pending_ok ?st e = pending_ok st e" "busy_ok ?st e = busy_ok st e"
      "emitted_ok ?st e = emitted_ok st e" "flags_ok ?st e = flags_ok st e" if "e < length (st_entries st)" for e
      by (simp_all only: pending_ok_def busy_ok_def emitted_ok_def flags_ok_def live ents obj [OF that])
    ultimately show ?thesis using core flags by (simp add: store_inv_def core_ok_def)
  qed
  obtain sid c where mint: "(case wanted of Some i \<Rightarrow> (i, st_counter st)
      | None \<Rightarrow> mint_id (length (st_live st)) (st_counter st) (live_ids st)) = (sid, c)"
    by (cases "case wanted of Some i \<Rightarrow> (i, st_counter st)
      | None \<Rightarrow> mint_id (length (st_live st)) (st_counter st) (live_ids st)")
  define built where "built = (case opts of
      RestoreOptions seed meta inherited \<Rightarrow>
        construct_session now sid (Some seed) (Some meta) RestoreSeed (Some inherited)
    | FreshOptions fo \<Rightarrow>
        construct_session now sid (fo_seed fo) (Some (fresh_header now sid fo)) SnapshotSeed (fo_inherited fo))"
  have "session_inv s" if "built = Inr s" for s
    using that construct_session_Inr by (cases opts) (auto simp: built_def)
  moreover have "snd (prepare_session now wanted opts st) =
      (if sid \<in> live_ids st then st\<lparr>st_counter := c\<rparr>
       else case built of Inl err \<Rightarrow> st\<lparr>st_counter := c\<rparr>
            | Inr s \<Rightarrow> st\<lparr>st_counter := c, st_objects := st_objects st @ [s]\<rparr>)"
    by (simp add: prepare_session_def mint built_def [symmetric] Let_def split: sum.splits)
  ultimately show ?thesis using counter add by (auto split: sum.splits)
qed

lemma read_inv:
  assumes inv: "store_inv st" and h: "h < length (st_objects st)"
  shows "store_inv (update_object h (snd (snapshot_events from to (st_objects st ! h))) st)"
proof -
  have "session_inv (st_objects st ! h)" using inv h by (simp add: store_inv_def core_ok_def objects_ok_def)
  then have "session_inv (snd (snapshot_events from to (st_objects st ! h)))" by (rule snapshot_events_inv)
  moreover have "s_log (snd (snapshot_events from to s)) = s_log s" "s_header (snd (snapshot_events from to s)) = s_header s" for s
    by (simp_all add: snapshot_events_def split: option.splits)
  ultimately show ?thesis by (intro update_object_inv [OF inv h]) auto
qed

lemma store_step_inv: "store_step st st' \<Longrightarrow> store_inv st \<Longrightarrow> store_inv st'"
  by (induction rule: store_step.induct)
    (simp_all add: prepare_inv enter_inv announce_begin_inv announce_end_inv append_start_inv append_push_inv
      append_end_inv detach_inv read_inv)

lemma store_reach_inv: "store_reach st \<Longrightarrow> store_inv st"
proof (induction rule: store_reach.induct)
  case empty
  then show ?case
    by (simp add: store_inv_def core_ok_def maps_ok_def objects_ok_def empty_store_def)
next
  case (step st st')
  then show ?case using store_step_inv by blast
qed

section \<open>Lifecycle\<close>

text \<open>
  Claim C14. Creation and disposal are announced in pairs: whatever listeners do in between,
  an entry's announcements are nothing, one creation, or one creation followed by one
  disposal, and the disposal is there exactly when the announced entry has left the store.
\<close>

theorem store_lifecycle_paired:
  assumes "store_reach st" and "e < length (st_entries st)"
  shows "lifecycle st e \<in> {[], [CreatedEmit e], [CreatedEmit e, DisposedEmit e]}
    \<and> (DisposedEmit e \<in> set (st_emitted st) \<longleftrightarrow> en_announced (entry_at st e) \<and> \<not> is_live st e)"
proof -
  have l: "lifecycle st e = (if en_announced (entry_at st e)
      then CreatedEmit e # (if is_live st e then [] else [DisposedEmit e]) else [])"
    using store_reach_inv [OF assms(1)] assms(2) by (simp add: store_inv_def core_ok_def emitted_ok_def)
  have "DisposedEmit e \<in> set (st_emitted st) \<longleftrightarrow> DisposedEmit e \<in> set (lifecycle st e)"
    by (auto simp: lifecycle_def)
  with l show ?thesis by auto
qed

text \<open>
  A detach requested from inside an announcement or an append is deferred, not lost:
  the entry stays in the store until the last of them finishes, and is gone when it has.
\<close>

theorem store_detach_deferred:
  assumes "store_reach st" and "e < length (st_entries st)" and "en_detach_requested (entry_at st e)"
  shows "is_live st e
    \<and> (\<not> en_appending (entry_at st e) \<longrightarrow> \<not> is_live (announce_end e st) e)
    \<and> (\<forall>k < length (en_calls (entry_at st e)). \<not> en_announcing (entry_at st e) \<longrightarrow> \<not> is_live (append_end e k st) e)"
proof -
  have inv: "store_inv st" by (rule store_reach_inv [OF assms(1)])
  then have ok: "flags_ok st e" "busy_ok st e" "pending_ok st e" "core_ok st"
    and flags: "\<forall>e' < length (st_entries st). flags_ok st e'"
    using assms(2) by (simp_all add: store_inv_def core_ok_def)
  have live: "is_live st e" and spent: "\<not> en_entered (entry_at st e)"
    using ok(1,2) assms(3) by (auto simp: flags_ok_def busy_ok_def)
  have gone: "\<not> is_live (detach_entered e (update_entry e f st)) e"
    if f: "keeps_identity f" "en_announced (f (entry_at st e)) = en_announced (entry_at st e)"
      "\<not> en_announcing (f (entry_at st e))" "\<not> en_appending (f (entry_at st e))"
      "calls_fit (f (entry_at st e)) \<and> pending_event (f (entry_at st e)) = None" "\<not> en_entered (f (entry_at st e))" for f
  proof -
    have c: "core_ok (update_entry e f st)"
    proof (rule core_update [OF ok(4) f(1) assms(2)])
      show "pending_ok (update_entry e f st) e" using f(5) assms(2) by (simp add: pending_ok_def)
      show "busy_ok (update_entry e f st) e" using f(3,4) assms(2) by (simp add: busy_ok_def)
      have "emitted_ok st e" using ok(4) assms(2) by (simp add: core_ok_def)
      then show "emitted_ok (update_entry e f st) e"
        using f(2) assms(2) by (simp add: emitted_ok_def lifecycle_def update_entry_maps(3) [OF f(1) assms(2)])
    qed
    have o: "\<forall>e' < length (st_entries (update_entry e f st)). e' \<noteq> e \<longrightarrow> flags_ok (update_entry e f st) e'"
      using flags update_entry_others(4) [OF _ f(1) assms(2)] by simp
    have e: "e < length (st_entries (update_entry e f st))" using assms(2) by simp
    have idle: "\<not> en_announcing (entry_at (update_entry e f st) e)" "\<not> en_appending (entry_at (update_entry e f st) e)"
      "\<not> en_entered (entry_at (update_entry e f st) e)" using f assms(2) by simp_all
    from detach_entered_inv [OF c e o idle] show ?thesis by blast
  qed
  have "\<not> is_live (announce_end e st) e" if a: "\<not> en_appending (entry_at st e)"
  proof -
    have "en_calls (entry_at st e) = []" using ok(3) a calls_fit_idle by (simp add: pending_ok_def)
    then have "\<not> is_live (detach_entered e (update_entry e (\<lambda>en. en\<lparr>en_announcing := False\<rparr>) st)) e"
      using a spent by (intro gone) (simp_all add: keeps_identity_def calls_fit_def pending_event_def)
    then show ?thesis using assms(2,3) a by (simp add: announce_end_def Let_def)
  qed
  moreover have "\<not> is_live (append_end e k st) e"
    if a: "\<not> en_announcing (entry_at st e)" and k: "k < length (en_calls (entry_at st e))" for k
  proof -
    have "calls_fit (entry_at st e)" using ok(3) by (simp add: pending_ok_def)
    from drop_call_fit [OF this k] have "\<not> is_live (detach_entered e (update_entry e (drop_call k) st)) e"
      using a spent by (intro gone) (simp_all add: keeps_identity_def)
    then show ?thesis using assms(2,3) a by (simp add: append_end_def Let_def)
  qed
  ultimately show ?thesis using live by blast
qed

section \<open>Appends do not interleave\<close>

definition log_of :: "session_store \<Rightarrow> nat \<Rightarrow> session_event list" where
  "log_of st h = s_log (st_objects st ! h)"

lemma log_of_simps [simp]:
  "log_of (update_entry e f st) h = log_of st h" "log_of (emit x st) h = log_of st h"
  "log_of (st\<lparr>st_live := l\<rparr>) h = log_of st h" "log_of (st\<lparr>st_attached := a\<rparr>) h = log_of st h"
  by (simp_all add: log_of_def emit_def)

lemma log_of_detach_entered [simp]: "log_of (detach_entered e st) h = log_of st h"
  by (simp add: detach_entered_def Let_def)

lemma log_of_update_object:
  "k < length (st_objects st) \<Longrightarrow> log_of (update_object k s st) h = (if h = k then s_log s else log_of st h)"
  by (simp add: log_of_def update_object_nth)

lemma append_start_log:
  assumes inv: "store_inv st" and k: "k < length (st_objects st)"
    and att: "h = k \<Longrightarrow> map_of (st_attached st) k \<noteq> None"
  shows "log_of (snd (append_start now p op sources k st)) h = log_of st h"
proof (cases "append_precheck p op sources (st_objects st ! k)")
  case (Inl err)
  then show ?thesis by (simp add: append_start_def Let_def)
next
  case (Inr u)
  have s: "session_inv (st_objects st ! k)" using inv k by (simp add: store_inv_def core_ok_def objects_ok_def)
  obtain r s' where v: "append_validate now p op sources (st_objects st ! k) = (r, s')"
    and l: "s_log s' = s_log (st_objects st ! k)"
    by (rule append_validate_session [OF s Inr, of now]) blast+
  show ?thesis
  proof (cases "h = k")
    case True
    with att obtain i' where i': "map_of (st_attached st) k = Some i'" by blast
    show ?thesis
    proof (cases "en_appending (entry_at st i')")
      case True
      with Inr i' show ?thesis by (simp add: append_start_def Let_def)
    next
      case False
      have "s_log s' = log_of st k" using l by (simp add: log_of_def)
      with False Inr i' v k \<open>h = k\<close> show ?thesis
        by (simp add: append_start_def Let_def log_of_update_object split: sum.split)
    qed
  next
    case False
    with Inr v k show ?thesis
      by (simp add: append_start_def Let_def log_of_update_object split: option.split sum.split)
  qed
qed

text \<open>One operation seen from a session with an open append call.\<close>

lemma store_step_log:
  assumes inv: "store_inv st" and step: "store_step st st'" and att: "map_of (st_attached st) h = Some e"
  shows "log_of st' h = log_of st h \<or> (\<exists>ev. en_calls (entry_at st e) = [Collecting ev]
      \<and> en_calls (entry_at st' e) = [Published ev] \<and> log_of st' h = log_of st h @ [ev])"
proof -
  note ent = live_entry [OF inv att]
  from step show ?thesis
  proof cases
    case (prepare now wanted opts)
    then show ?thesis using ent(4)
      by (auto simp: prepare_session_def Let_def log_of_def nth_append split: prod.splits sum.splits if_splits option.splits)
  next
    case (enter k)
    then show ?thesis by (auto simp: enter_session_def Let_def log_of_def)
  next
    case (announce_begin k)
    then show ?thesis by (auto simp: announce_begin_def Let_def split: sum.splits)
  next
    case (announce_end k)
    then show ?thesis by (auto simp: announce_end_def Let_def)
  next
    case (append_start k now p op sources)
    have "log_of (snd (append_start now p op sources k st)) h = log_of st h"
      by (rule append_start_log [OF inv]) (use append_start att in auto)
    with append_start show ?thesis by simp
  next
    case (append_push i k)
    show ?thesis
    proof (cases "en_calls (entry_at st i) ! k")
      case (Published ev)
      with append_push show ?thesis by (simp add: append_push_def Let_def)
    next
      case (Collecting ev)
      have fit: "calls_fit (entry_at st i)" using inv append_push(2) by (simp add: store_inv_def core_ok_def pending_ok_def)
      have one: "k = 0" "en_calls (entry_at st i) = [Collecting ev]"
        using calls_fit_open [OF fit append_push(3)] Collecting by simp_all
      then have "map_of (st_attached st) (en_session (entry_at st i)) = Some i"
        using pending_attached(1) [OF inv append_push(2)] by (simp add: pending_event_def)
      note i = this live_entry(4) [OF inv this]
      have new: "log_of st' h = (if h = en_session (entry_at st i) then log_of st h @ [ev] else log_of st h)"
        using append_push Collecting i(2)
        by (simp add: append_push_def Let_def log_of_update_object append_commit_def) (simp add: log_of_def)
      have calls: "en_calls (entry_at st' i) = [Published ev]"
        using append_push Collecting one by (simp add: append_push_def Let_def emit_def)
      show ?thesis
      proof (cases "h = en_session (entry_at st i)")
        case True
        with i(1) att have "i = e" by simp
        with one new calls True show ?thesis by simp
      qed (use new in simp)
    qed
  next
    case (append_end i k)
    then show ?thesis by (auto simp: append_end_def Let_def)
  next
    case (detach k)
    then show ?thesis by (auto simp: detach_def Let_def)
  next
    case (read k lo hi)
    have "s_log (snd (snapshot_events lo hi (st_objects st ! k))) = log_of st k"
      by (auto simp: snapshot_events_def log_of_def split: option.split)
    with read show ?thesis by (simp add: log_of_update_object)
  qed
qed

lemma append_start_reentrant:
  assumes "map_of (st_attached st) h = Some e" and "en_appending (entry_at st e)"
  shows "append_start now p op sources h st =
    (case append_precheck p op sources (st_objects st ! h) of
       Inl err \<Rightarrow> Inl (SessionFailure err) | Inr _ \<Rightarrow> Inl ReentrantAppend, st)"
  using assms by (cases "append_precheck p op sources (st_objects st ! h)") (simp_all add: append_start_def Let_def)

lemma open_call:
  assumes inv: "store_inv st" and e: "e < length (st_entries st)" and "en_calls (entry_at st e) \<noteq> []"
  shows "\<exists>c. en_calls (entry_at st e) = [c]" and "en_appending (entry_at st e)"
    and "map_of (st_attached st) (en_session (entry_at st e)) = Some e"
proof -
  have ok: "busy_ok st e" "calls_fit (entry_at st e)" "maps_ok st"
    using inv e by (simp_all add: store_inv_def core_ok_def pending_ok_def)
  have k: "0 < length (en_calls (entry_at st e))" using assms(3) by simp
  show "\<exists>c. en_calls (entry_at st e) = [c]" using calls_fit_open(3) [OF ok(2) k] by blast
  show a: "en_appending (entry_at st e)" by (rule calls_fit_open(1) [OF ok(2) k])
  then show "map_of (st_attached st) (en_session (entry_at st e)) = Some e"
    using ok(1) maps_ok_live [OF ok(3)] by (auto simp: busy_ok_def is_live_def)
qed

text \<open>
  Claim C1. An append is atomic under reentrancy: while a call of append on an attached session is
  open, it is the only one; whatever its listeners do next, that session's log is unchanged or
  grows by exactly the event the call itself validated, which therefore still carries the next
  sequence number and still folds; and a nested append on that session is refused and leaves the
  whole store as it was.
\<close>

theorem store_append_atomic:
  assumes "store_reach st" and "store_step st st'" and "e < length (st_entries st)"
    and "en_calls (entry_at st e) \<noteq> []" and "h = en_session (entry_at st e)"
  shows "\<exists>c. en_calls (entry_at st e) = [c]
    \<and> (log_of st' h = log_of st h
       \<or> (\<exists>ev. c = Collecting ev \<and> en_calls (entry_at st' e) = [Published ev]
            \<and> log_of st' h = log_of st h @ [ev] \<and> ev_seq ev = length (log_of st h)
            \<and> is_ok (fold_surface (log_of st' h))))
    \<and> (\<forall>now p op sources. append_start now p op sources h st =
         (case append_precheck p op sources (st_objects st ! h) of
            Inl err \<Rightarrow> Inl (SessionFailure err) | Inr _ \<Rightarrow> Inl ReentrantAppend, st))"
proof -
  have inv: "store_inv st" by (rule store_reach_inv [OF assms(1)])
  note call = open_call [OF inv assms(3,4), folded assms(5)]
  from call(1) obtain c where c: "en_calls (entry_at st e) = [c]" by blast
  have "pending_ok st e" using inv assms(3) by (simp add: store_inv_def core_ok_def)
  then have next_event: "ev_seq ev = length (log_of st h) \<and> is_ok (fold_surface (log_of st h @ [ev]))"
    if "c = Collecting ev" for ev
    using that c by (auto simp: pending_ok_def pending_event_def log_of_def assms(5) fold_surface_def is_ok_iff)
  show ?thesis
    using store_step_log [OF inv assms(2) call(3)] next_event append_start_reentrant [OF call(3,2)]
    by (intro exI [of _ c]) (auto simp: c)
qed

section \<open>Minted ids are fresh\<close>

definition minted :: "nat \<Rightarrow> string" where
  "minted c = ''session-'' @ show_nat c"

lemma mint_id_taken:
  "fst (mint_id n c taken) \<in> taken \<Longrightarrow> minted ` {c + 1 .. c + n + 1} \<subseteq> taken"
proof (induction n arbitrary: c)
  case 0
  then show ?case by (simp add: mint_id.simps minted_def)
next
  case (Suc n)
  have split: "{c + 1 .. c + Suc n + 1} = insert (c + 1) {Suc c + 1 .. Suc c + n + 1}" by auto
  from Suc.prems have "minted (c + 1) \<in> taken"
    by (simp add: mint_id.simps [of "Suc n"] minted_def Let_def split: if_splits)
  moreover have "fst (mint_id n (Suc c) taken) \<in> taken"
    using Suc.prems calculation by (simp add: mint_id.simps [of "Suc n"] minted_def Let_def)
  ultimately show ?case using Suc.IH [of "Suc c"] unfolding split by simp
qed

text \<open>
  The store mints ids that are free: with the fuel the model gives the loop, which
  is the number of live sessions, the minting loop always leaves on a free id, so preparing a
  session without an id never fails because the id exists.
\<close>

theorem minted_id_is_fresh:
  "fst (mint_id (length (st_live st)) (st_counter st) (live_ids st)) \<notin> live_ids st
   \<and> fst (prepare_session now None opts st) \<noteq> Inl (AlreadyExists i)"
proof -
  let ?n = "length (st_live st)" and ?c = "st_counter st"
  have fresh: "fst (mint_id ?n ?c (live_ids st)) \<notin> live_ids st"
  proof
    assume "fst (mint_id ?n ?c (live_ids st)) \<in> live_ids st"
    then have "minted ` {?c + 1 .. ?c + ?n + 1} \<subseteq> live_ids st" by (rule mint_id_taken)
    then have "card (minted ` {?c + 1 .. ?c + ?n + 1}) \<le> card (live_ids st)"
      by (intro card_mono) (simp_all add: live_ids_def)
    moreover have "inj_on minted {?c + 1 .. ?c + ?n + 1}"
      by (auto simp: inj_on_def minted_def show_nat_inj)
    ultimately have "?n + 1 \<le> card (live_ids st)" by (simp add: card_image)
    also have "\<dots> \<le> ?n" unfolding live_ids_def
      using card_image_le [of "set (st_live st)" fst] card_length [of "st_live st"] by simp
    finally show False by simp
  qed
  moreover have "fst (prepare_session now None opts st) \<noteq> Inl (AlreadyExists i)"
    using fresh by (auto simp: prepare_session_def Let_def split: prod.split sum.split prepare_options.split)
  ultimately show ?thesis by blast
qed

section \<open>Forking\<close>

text \<open>The last turn boundary of the events, if any, closes its turn.\<close>

definition between_turns :: "session_event list \<Rightarrow> bool" where
  "between_turns es \<longleftrightarrow>
     (\<forall>e t. find_last is_turn_boundary es = Some e \<longrightarrow> ev_payload e \<noteq> TurnStart t)"

text \<open>The prefix a request names: everything, or everything through an inclusive boundary.\<close>

definition requested_length :: "session \<Rightarrow> jnum option \<Rightarrow> nat option" where
  "requested_length s r =
     (case r of
        None \<Rightarrow> Some (length (s_log s))
      | Some b \<Rightarrow>
          if is_safe_integer b \<and> 0 \<le> jnum_int b \<and> jnum_int b < int (length (s_log s))
          then Some (nat (jnum_int b) + 1) else None)"

lemma snapshot_prefix:
  assumes "session_inv s" and "n \<le> length (s_log s)"
  shows "fst (snapshot_events 0 n s) = take n (s_log s)" "s_log (snd (snapshot_events 0 n s)) = s_log s"
    "s_header (snd (snapshot_events 0 n s)) = s_header s"
  using assms by (auto simp: snapshot_events_def session_inv_def slice_def split: option.split)

lemma session_inv_seqs:
  "session_inv s \<Longrightarrow> k < length (s_log s) \<Longrightarrow> ev_seq (s_log s ! k) = k"
  using fold_window_seqs [of 0 "s_log s"] by (auto simp: session_inv_def is_ok_iff)

text \<open>The cut at one boundary.\<close>

lemma fork_cut_exact:
  assumes inv: "session_inv s"
  shows "(fst (fork_cut b s) = Inr es \<longleftrightarrow>
       (\<exists>n. requested_length s (Some b) = Some n \<and> es = take n (s_log s) \<and> between_turns es))
     \<and> (fst (fork_cut b s) = Inl ForkInvalidBoundary \<longleftrightarrow> requested_length s (Some b) = None)
     \<and> s_log (snd (fork_cut b s)) = s_log s \<and> s_header (snd (fork_cut b s)) = s_header s"
proof (cases "requested_length s (Some b)")
  case None
  then have bad: "\<not> (is_safe_integer b \<and> 0 \<le> jnum_int b \<and> jnum_int b < int (length (s_log s)))"
    by (simp add: requested_length_def split: if_splits)
  then have "fork_cut b s = (Inl ForkInvalidBoundary, s)"
    by (cases "is_safe_integer b \<and> 0 \<le> jnum_int b") (auto simp: fork_cut_def session_seq_of_def Let_def)
  with None show ?thesis by simp
next
  case (Some n)
  then have b: "is_safe_integer b" "0 \<le> jnum_int b" "jnum_int b < int (length (s_log s))" "n = nat (jnum_int b) + 1"
    by (simp_all add: requested_length_def split: if_splits)
  define s2 where "s2 = snd (snapshot_events 0 n s)"
  have n: "n \<le> length (s_log s)" using b by linarith
  have snap: "snapshot_events 0 n s = (take n (s_log s), s2)"
    using snapshot_prefix(1) [OF inv n] by (simp add: s2_def prod_eq_iff)
  have s2: "s_log s2 = s_log s" "s_header s2 = s_header s"
    using snapshot_prefix(2,3) [OF inv n] by (simp_all add: s2_def)
  have here: "map_option ev_seq (session_event_at (nat (jnum_int b)) s) = Some (nat (jnum_int b))"
    using session_inv_seqs [OF inv, of "nat (jnum_int b)"] n b(4) by (simp add: session_event_at_def elem_at_def)
  have within: "\<not> session_seq_of s \<le> nat (jnum_int b)" using n b(4) by (simp add: session_seq_of_def)
  have "fork_cut b s = (case find_last is_turn_boundary (take n (s_log s)) of
                Some e \<Rightarrow> (case ev_payload e of TurnStart t \<Rightarrow> (Inl (ForkOpenTurn t), s2) | _ \<Rightarrow> (Inr (take n (s_log s)), s2))
              | None \<Rightarrow> (Inr (take n (s_log s)), s2))"
    unfolding fork_cut_def Let_def b(4) [symmetric] snap using b(1,2) here within by (simp add: not_less)
  with Some s2 show ?thesis
    by (auto simp: between_turns_def split: option.splits payload.splits)
qed

lemma fork_seed_exact_holds:
  assumes "session_reach s" and "int (length (s_log s)) \<le> MAX_SAFE_INTEGER"
  shows "(fst (fork_seed s r) = Inr es \<longleftrightarrow>
       (\<exists>n. requested_length s r = Some n \<and> es = take n (s_log s) \<and> between_turns es))
     \<and> (fst (fork_seed s r) = Inl ForkInvalidBoundary \<longleftrightarrow> requested_length s r = None)
     \<and> s_log (snd (fork_seed s r)) = s_log s \<and> s_header (snd (fork_seed s r)) = s_header s"
proof -
  have inv: "session_inv s" by (rule session_reach_inv [OF assms(1)])
  define s1 where "s1 = snd (snapshot_events 0 (length (s_log s)) s)"
  have snap: "snapshot_events 0 (length (s_log s)) s = (s_log s, s1)"
    using snapshot_prefix(1) [OF inv order.refl] by (simp add: s1_def prod_eq_iff)
  have s1: "session_inv s1" "s_log s1 = s_log s" "s_header s1 = s_header s"
    using snapshot_events_inv [OF inv] snapshot_prefix [OF inv order.refl] by (simp_all add: s1_def)
  have cut: ?thesis if "fork_seed s r = fork_cut b s1" "requested_length s r = requested_length s (Some b)" for b
    using fork_cut_exact [OF s1(1), of b es] that s1(2,3) by (simp add: requested_length_def)
  show ?thesis
  proof (cases r)
    case (Some b)
    then show ?thesis by (intro cut [of b]) (simp_all add: fork_seed_def session_seq_of_def snap)
  next
    case None
    show ?thesis
    proof (cases "s_log s = []")
      case True
      with snap have "snapshot_events 0 0 s = ([], s1)" by simp
      with True have "fork_seed s r = (Inr [], s1)" by (simp add: fork_seed_def session_seq_of_def None)
      with None True s1 show ?thesis by (auto simp: requested_length_def between_turns_def)
    next
      case False
      define n where "n = length (s_log s) - 1"
      have n: "n < length (s_log s)" "int n \<le> MAX_SAFE_INTEGER" "length (s_log s) = n + 1"
        using False assms(2) by (auto simp: n_def)
      have "ev_seq (last (s_log s)) = n"
        using session_inv_seqs [OF inv n(1)] False by (simp add: last_conv_nth n_def)
      then have "fork_seed s r = fork_cut (JInt (int n)) s1"
        using False by (simp add: fork_seed_def session_seq_of_def snap None last_opt_def)
      moreover have "- MAX_SAFE_INTEGER \<le> int n" by (simp add: MAX_SAFE_INTEGER_def)
      then have "requested_length s r = requested_length s (Some (JInt (int n)))"
        using n None by (simp add: requested_length_def)
      ultimately show ?thesis by (rule cut)
    qed
  qed
qed

text \<open>
  What a fork copies: the seed is exactly the requested prefix of the source's log
  (the whole log when no boundary is given), it is refused when the boundary does not exist
  and when the prefix ends inside a turn, and the source's log and header are untouched.
\<close>

theorem fork_seed_exact:
  assumes "session_reach s" and "int (length (s_log s)) \<le> MAX_SAFE_INTEGER"
  shows "(fst (fork_seed s r) = Inr es \<longleftrightarrow>
       (\<exists>n. requested_length s r = Some n \<and> es = take n (s_log s) \<and> between_turns es))
     \<and> (fst (fork_seed s r) = Inl ForkInvalidBoundary \<longleftrightarrow> requested_length s r = None)
     \<and> s_log (snd (fork_seed s r)) = s_log s \<and> s_header (snd (fork_seed s r)) = s_header s"
  by (rule fork_seed_exact_holds [OF assms])

lemma construct_session_seeded:
  assumes "construct_session now sid (Some es) (Some h) SnapshotSeed (Some (JInt (int n))) = Inr s" and "sh_seeded h"
  shows "s_header s = h" "s_inherited s = n"
proof -
  from assms obtain m where fin: "finish_construction now True es m h (Some (JInt (int n))) = Inr s"
    unfolding construct_session_def
    by (auto simp: and_then_Inr_iff checked_header_def dest!: seed_loop_Inr)
  define s0 where "s0 = new_session es m h n (length es)"
  have off: "session_log_offset (JInt (int n)) = Inr k \<Longrightarrow> k = n" for k
    by (auto simp: session_log_offset_def split: if_splits)
  have s0: "s_header s0 = h" "s_inherited s0 = n" by (simp_all add: s0_def new_session_def)
  have "s = s0 \<or> (\<exists>e. session_append now EndSeed None None s0 = (Inr e, s))"
    using fin assms(2) unfolding finish_construction_def s0_def
    by (auto simp: and_then_Inr_iff Let_def dest!: off split: if_splits sum.splits prod.splits)
  moreover have "s_header s' = s_header s0 \<and> s_inherited s' = s_inherited s0"
    if "session_append now EndSeed None None s0 = (r, s')" for r s'
    using that by (auto simp: session_append_def append_prepare_def append_validate_def append_commit_def Let_def
        split: prod.splits sum.splits if_splits)
  ultimately show "s_header s = h" "s_inherited s = n" using s0 by auto
qed


lemma snd_turn_start_case:
  "snd (case p of TurnStart t \<Rightarrow> (a t, x) | _ \<Rightarrow> (b, x)) = x"
  by (cases p) simp_all

lemma snapshot_events_log: "s_log (snd (snapshot_events i j s)) = s_log s"
  by (simp add: snapshot_events_def split: option.split)

lemma fork_cut_log: "s_log (snd (fork_cut b s)) = s_log s"
proof -
  obtain es s2 where snap: "snapshot_events 0 (nat (jnum_int b) + 1) s = (es, s2)" by fastforce
  then have "s_log s2 = s_log s" using snapshot_events_log [of 0 "nat (jnum_int b) + 1" s] by simp
  then show ?thesis
    unfolding fork_cut_def Let_def snap
    by (cases "find_last is_turn_boundary es") (simp_all add: snd_turn_start_case)
qed

lemma fork_seed_log: "s_log (snd (fork_seed s r)) = s_log s"
  using snapshot_events_log [of 0 "session_seq_of s" s]
  by (auto simp: fork_seed_def fork_cut_log split: option.split prod.split)

lemma create_begin_Inr:
  assumes "create_begin now wanted (FreshOptions fo) st = (Inr e, st')"
  obtains sid s where "construct_session now sid (fo_seed fo) (Some (fresh_header now sid fo)) SnapshotSeed (fo_inherited fo) = Inr s"
    and "st_objects st' = st_objects st @ [s]" and "e = length (st_entries st)"
    and "en_session (entry_at st' e) = length (st_objects st)" and "is_live st' e"
    and "st_emitted st' = st_emitted st @ [CreatedEmit e]"
    and "\<And>i. wanted = Some i \<Longrightarrow> sid = i" and "sid \<notin> live_ids st" and "en_id (entry_at st' e) = sh_id (s_header s)"
proof -
  from assms obtain h st1 e1 st2 where p: "prepare_session now wanted (FreshOptions fo) st = (Inr h, st1)"
    and en: "enter_session h st1 = (Inr e1, st2)" and an: "announce_begin h st2 = (Inr e, st')"
    by (auto simp: create_begin_def split: prod.splits sum.splits)
  define sid where "sid = (case wanted of Some i \<Rightarrow> i | None \<Rightarrow> fst (mint_id (length (st_live st)) (st_counter st) (live_ids st)))"
  from p obtain s where
    "construct_session now sid (fo_seed fo) (Some (fresh_header now sid fo)) SnapshotSeed (fo_inherited fo) = Inr s"
    and h: "h = length (st_objects st)" and st1: "st_objects st1 = st_objects st @ [s]" "st_entries st1 = st_entries st" "st_live st1 = st_live st"
      "st_attached st1 = st_attached st" "st_emitted st1 = st_emitted st"
    and "sid \<notin> live_ids st"
    by (cases wanted) (auto simp: prepare_session_def sid_def Let_def split: prod.splits sum.splits if_splits)
  moreover from en st1 h have e1: "e1 = length (st_entries st)"
    and st2: "st_objects st2 = st_objects st @ [s]" "st_emitted st2 = st_emitted st" "length (st_entries st2) = Suc e1"
      "en_session (entry_at st2 e1) = h" "en_id (entry_at st2 e1) = sh_id (s_header s)"
      "map_of (st_attached st2) h = Some e1" "map_of (st_live st2) (sh_id (s_header s)) = Some e1"
    by (auto simp: enter_session_def Let_def object_id_def nth_append split: if_splits)
  moreover from an st2 have "e = e1" and st': "st' = emit (CreatedEmit e1)
      (update_entry e1 (\<lambda>en. en\<lparr>en_announced := True, en_announcing := True\<rparr>) st2)"
    by (auto simp: announce_begin_def live_entry_for_def Let_def split: if_splits)
  moreover have "sid = i" if "wanted = Some i" for i using that by (simp add: sid_def)
  ultimately show ?thesis
    by (intro that [of sid s]) (simp_all add: is_live_def emit_def update_entry_def)
qed

lemma resolve_fork_live:
  assumes "store_inv st" and "resolve_fork_source src st = Inr h"
  shows "h < length (st_objects st)"
proof -
  from assms(2) obtain i e where e: "map_of (st_live st) i = Some e" "h = en_session (entry_at st e)"
    by (auto simp: resolve_fork_source_def get_session_def split: fork_source.splits option.splits if_splits)
  with assms(1) show ?thesis
    by (auto simp: store_inv_def core_ok_def objects_ok_def dest: maps_ok_live)
qed

text \<open>
  A fork is a new live session whose log starts with the seed cut from the source and
  which owns none of it: the inherited count is the seed's length, the parent and the working
  directory are the source's, it is announced once, and no log of any existing session changed.
\<close>

theorem fork_inherits_prefix:
  assumes "store_reach st" and "fork_begin now src boundary child st = (Inr e, st')"
  shows "\<exists>h seed s. resolve_fork_source src st = Inr h
     \<and> fst (fork_seed (st_objects st ! h) boundary) = Inr seed
     \<and> st_objects st' ! en_session (entry_at st' e) = s \<and> en_session (entry_at st' e) = length (st_objects st)
     \<and> take (length seed) (s_log s) = seed \<and> s_inherited s = length seed
     \<and> sh_parent (s_header s) = Some (object_id st h) \<and> sh_cwd (s_header s) = sh_cwd (s_header (st_objects st ! h))
     \<and> is_live st' e \<and> lifecycle st' e = [CreatedEmit e]
     \<and> (\<forall>k < length (st_objects st). log_of st' k = log_of st k)"
proof -
  have inv: "store_inv st" by (rule store_reach_inv [OF assms(1)])
  from assms(2) obtain h seed s0 where h: "resolve_fork_source src st = Inr h"
    and f: "fork_seed (st_objects st ! h) boundary = (Inr seed, s0)"
    and c: "create_begin now child
       (FreshOptions (no_options\<lparr>fo_seed := Some seed, fo_inherited := Some (JInt (int (length seed))),
           fo_cwd := sh_cwd (s_header (st_objects st ! h)),
           fo_parent := Some (sh_id (s_header (st_objects st ! h))), fo_seeded := True\<rparr>))
       (update_object h s0 st) = (Inr e, st')"
    by (auto simp: fork_begin_def Let_def split: if_splits sum.splits prod.splits)
  from c obtain sid s where s: "construct_session now sid (Some seed) (Some (fresh_header now sid
        (no_options\<lparr>fo_seed := Some seed, fo_inherited := Some (JInt (int (length seed))),
           fo_cwd := sh_cwd (s_header (st_objects st ! h)),
           fo_parent := Some (sh_id (s_header (st_objects st ! h))), fo_seeded := True\<rparr>)))
        SnapshotSeed (Some (JInt (int (length seed)))) = Inr s"
    and st': "st_objects st' = st_objects (update_object h s0 st) @ [s]" "e = length (st_entries st)"
      "en_session (entry_at st' e) = length (st_objects st)" "is_live st' e" "st_emitted st' = st_emitted st @ [CreatedEmit e]"
    by (rule create_begin_Inr) simp_all
  note hd = construct_session_seeded [OF s]
  have hlen: "h < length (st_objects st)" by (rule resolve_fork_live [OF inv h])
  have "session_inv (st_objects st ! h)" using inv hlen by (simp add: store_inv_def core_ok_def objects_ok_def)
  then have "s_log s0 = s_log (st_objects st ! h)"
    using fork_seed_log f by (metis snd_conv)
  then have logs: "log_of st' k = log_of st k" if "k < length (st_objects st)" for k
    using that st'(1) hlen by (simp add: log_of_def nth_append update_object_nth)
  have "\<forall>x \<in> set (st_emitted st). emission_entry x < e"
    using inv st'(2) by (simp add: store_inv_def core_ok_def)
  then have "lifecycle st' e = [CreatedEmit e]"
    using st'(5) by (auto simp: lifecycle_def filter_empty_conv)
  moreover have "take (length seed) (s_log s) = seed"
    using construct_session_Inr [OF s] by (auto split: if_splits)
  moreover have "st_objects st' ! length (st_objects st) = s" using st'(1) by (simp add: nth_append)
  ultimately show ?thesis
    using h f st'(3,4) hd logs
    by (intro exI [of _ h] exI [of _ seed] exI [of _ s]) (simp add: fresh_header_def no_options_def object_id_def)
qed

section \<open>A concrete store\<close>

definition example_options :: prepare_options where
  "example_options = FreshOptions (no_options\<lparr>fo_seed := Some example_seed, fo_cwd := Some ''/w''\<rparr>)"

definition example_message :: payload where
  "example_message = UserMessageEvent \<lparr>um_id = ''m1'', um_content = [], um_source = UserSource\<rparr>"

text \<open>Announcing; detached during the announcement; announced; in the middle of an append.\<close>

definition example_entered :: session_store where
  "example_entered = snd (enter_session 0 (snd (prepare_session 5 (Some ''s'') example_options empty_store)))"

definition example_announcing :: session_store where
  "example_announcing = snd (announce_begin 0 example_entered)"

definition example_detaching :: session_store where
  "example_detaching = detach 0 example_announcing"

definition example_live :: session_store where
  "example_live = announce_end 0 example_announcing"

definition example_appending :: session_store where
  "example_appending = snd (append_start 7 example_message (Some append_op) None 0 example_live)"

lemma example_store_values:
  "length (st_objects (snd (prepare_session 5 (Some ''s'') example_options empty_store))) = 1"
  "length (st_entries example_announcing) = 1" "en_announcing (entry_at example_announcing 0)"
  "en_detach_requested (entry_at example_detaching 0)" "length (st_entries example_detaching) = 1"
  "length (st_objects example_live) = 1"
  "length (st_entries example_appending) = 1" "en_session (entry_at example_appending 0) = 0"
  "length (en_calls (entry_at example_appending 0)) = 1"
  by code_simp+

lemma example_store_reach:
  "store_reach example_announcing" "store_reach example_detaching" "store_reach example_live"
  "store_reach example_appending"
proof -
  have "store_reach (snd (prepare_session 5 (Some ''s'') example_options empty_store))"
    by (rule store_reach.step [OF store_reach.empty store_step.prepare])
  then have "store_reach example_entered"
    unfolding example_entered_def by (rule store_reach.step) (rule store_step.enter, simp add: example_store_values)
  then show a: "store_reach example_announcing"
    unfolding example_announcing_def by (rule store_reach.step) (rule store_step.announce_begin)
  then show "store_reach example_detaching"
    unfolding example_detaching_def by (rule store_reach.step) (rule store_step.detach, simp add: example_store_values)
  from a show l: "store_reach example_live"
    unfolding example_live_def by (rule store_reach.step) (rule store_step.announce_end, simp_all add: example_store_values)
  then show "store_reach example_appending"
    unfolding example_appending_def by (rule store_reach.step) (rule store_step.append_start, simp add: example_store_values)
qed

theorem store_lifecycle_paired_witness:
  "lifecycle example_announcing 0 \<in> {[], [CreatedEmit 0], [CreatedEmit 0, DisposedEmit 0]}"
  using store_lifecycle_paired [OF example_store_reach(1), of 0] by (simp add: example_store_values)

theorem store_detach_deferred_witness: "is_live example_detaching 0"
  using store_detach_deferred [OF example_store_reach(2), of 0] by (simp add: example_store_values)

text \<open>In the middle of an append: another append is refused, the push adds the validated event.\<close>

theorem store_append_atomic_witness:
  "append_start 8 example_message (Some append_op) None 0 example_appending = (Inl ReentrantAppend, example_appending)
   \<and> (\<exists>ev. log_of (append_push 0 0 example_appending) 0 = log_of example_appending 0 @ [ev])"
proof -
  have "is_ok (append_precheck example_message (Some append_op) None (st_objects example_appending ! 0))"
    by code_simp
  then obtain u where pre: "append_precheck example_message (Some append_op) None (st_objects example_appending ! 0) = Inr u"
    by (auto simp: is_ok_iff)
  have grown: "log_of (append_push 0 0 example_appending) 0 \<noteq> log_of example_appending 0" by code_simp
  have k: "0 < length (st_entries example_appending)" "0 < length (en_calls (entry_at example_appending 0))"
    by (simp_all add: example_store_values)
  have s: "0 = en_session (entry_at example_appending 0)" by (simp add: example_store_values)
  from store_append_atomic [OF example_store_reach(4) store_step.append_push [OF k] k(1)
      length_greater_0_conv [THEN iffD1, OF k(2)] s] pre grown
  show ?thesis by fastforce
qed

theorem fork_seed_exact_witness:
  "\<exists>s. s_log s \<noteq> [] \<and> fst (fork_seed s None) = Inr (s_log s)"
proof -
  obtain s where s: "construct_session 5 ''s'' (Some example_seed) None SnapshotSeed None = Inr s"
    using example_constructs by blast
  have "\<exists>e. s_log s = example_seed @ [e] \<and> ev_payload e = EndSeed"
    using construct_session_Inr [OF s] by (auto simp: example_seed_def last_opt_def append_event_def log_event_def)
  then obtain e where e: "s_log s = example_seed @ [e]" "ev_payload e = EndSeed" by blast
  have "int (length (s_log s)) \<le> MAX_SAFE_INTEGER" using e by (simp add: example_seed_def MAX_SAFE_INTEGER_def)
  from fork_seed_exact [OF session_reach.construct [OF s] this, of None "s_log s"] e
  have "fst (fork_seed s None) = Inr (s_log s)"
    by (simp add: requested_length_def between_turns_def example_seed_def append_event_def log_event_def
        is_turn_boundary_def find_last_def)
  then show ?thesis using e(1) by (intro exI [of _ s]) simp
qed

theorem fork_inherits_prefix_witness:
  "\<exists>e st'. fork_begin 9 (ForkById ''s'') None (Some ''c'') example_live = (Inr e, st') \<and> is_live st' e"
proof -
  have "is_ok (fst (fork_begin 9 (ForkById ''s'') None (Some ''c'') example_live))" by code_simp
  then obtain e st' where f: "fork_begin 9 (ForkById ''s'') None (Some ''c'') example_live = (Inr e, st')"
    by (cases "fork_begin 9 (ForkById ''s'') None (Some ''c'') example_live") (auto simp: is_ok_iff)
  from fork_inherits_prefix [OF example_store_reach(3) f] f show ?thesis by blast
qed

end
