(* ===== verification/Inbox.thy ===== *)
theory Inbox
  imports Session_Log
begin

text \<open>
  \<open>packages/core/agent/src/inbox.ts\<close>: the two lists of messages waiting for an agent, kept as a
  projection of the \<open>agent/inbox/spliced\<close> events in its session's log. Every mutation first
  normalises its coordinates, validates the result, appends the durable event and only then
  changes the lists and notifies. The session is a parameter of the operations, as the record
  of \<open>Session_Log\<close>; the clock that stamps the event is their first argument.
\<close>

section \<open>Numbers a caller may pass\<close>

datatype js_number = Finite jnum | NotANumber | PosInfinity | NegInfinity

text \<open>\<open>Math.trunc\<close>: towards zero, keeping the sign of a zero.\<close>

fun trunc_num :: "js_number \<Rightarrow> js_number" where
  "trunc_num (Finite (JFrac q)) =
     Finite (if 0 \<le> q then JInt \<lfloor>q\<rfloor> else if - 1 < q then JNegZero else JInt \<lceil>q\<rceil>)"
| "trunc_num x = x"

section \<open>State\<close>

record pending =
  pd_turn :: "user_message list"
  pd_step :: "user_message list"

definition no_pending :: pending where
  "no_pending = \<lparr>pd_turn = [], pd_step = []\<rparr>"

fun get_list :: "inbox_target \<Rightarrow> pending \<Rightarrow> user_message list" where
  "get_list NextTurn p = pd_turn p"
| "get_list NextStep p = pd_step p"

fun set_list :: "inbox_target \<Rightarrow> user_message list \<Rightarrow> pending \<Rightarrow> pending" where
  "set_list NextTurn xs p = p\<lparr>pd_turn := xs\<rparr>"
| "set_list NextStep xs p = p\<lparr>pd_step := xs\<rparr>"

datatype inbox_notice = Inserted user_message | Discarded user_message | Claimed user_message int

datatype inbox_error =
    InvalidSplice
  | AlreadyPending string
  | InboxAppend session_error
  | PersistedSplice nat inbox_error

record inbox =
  ib_pending :: pending
  ib_session :: session
  ib_sent :: "inbox_notice list"

definition has_pending :: "inbox \<Rightarrow> bool" where
  "has_pending ib \<longleftrightarrow> pd_turn (ib_pending ib) \<noteq> [] \<or> pd_step (ib_pending ib) \<noteq> []"

section \<open>Validation and replay\<close>

text \<open>The loop over the identities with its set of those seen.\<close>

fun first_duplicate :: "string set \<Rightarrow> string list \<Rightarrow> string option" where
  "first_duplicate seen [] = None"
| "first_duplicate seen (i # is) = (if i \<in> seen then Some i else first_duplicate (insert i seen) is)"

definition all_pending :: "pending \<Rightarrow> user_message list" where
  "all_pending p = pd_turn p @ pd_step p"

definition validate_splice :: "inbox_splice \<Rightarrow> pending \<Rightarrow> (inbox_error, unit) result" where
  "validate_splice sp p =
     (let xs = get_list (sp_target sp) p;
          removed = (case sp_removed sp of Some n \<Rightarrow> n | None \<Rightarrow> JInt 0)
      in if \<not> is_safe_integer (sp_start sp) \<or> jnum_int (sp_start sp) < 0
            \<or> jnum_int (sp_start sp) > int (length xs)
            \<or> \<not> is_safe_integer removed \<or> jnum_int removed < 0
            \<or> jnum_int (sp_start sp) + jnum_int removed > int (length xs)
         then Inl InvalidSplice
         else let candidate = splice (nat (jnum_int (sp_start sp))) (nat (jnum_int removed)) (sp_inserted sp) xs
              in case first_duplicate {} (map um_id (all_pending (set_list (sp_target sp) candidate p))) of
                   Some i \<Rightarrow> Inl (AlreadyPending i)
                 | None \<Rightarrow> Inr ())"

definition apply_splice :: "inbox_splice \<Rightarrow> pending \<Rightarrow> (inbox_error, pending) result" where
  "apply_splice sp p =
     and_then (validate_splice sp p) (\<lambda>_.
       let removed = (case sp_removed sp of Some n \<Rightarrow> n | None \<Rightarrow> JInt 0) in
       Inr (set_list (sp_target sp)
         (splice (nat (jnum_int (sp_start sp))) (nat (jnum_int removed)) (sp_inserted sp) (get_list (sp_target sp) p)) p))"

text \<open>The constructor replays the events the session owns.\<close>

definition replay_event :: "session_event \<Rightarrow> pending \<Rightarrow> (inbox_error, pending) result" where
  "replay_event e p =
     (case ev_payload e of
        InboxSpliced sp \<Rightarrow> rethrow (PersistedSplice (ev_seq e)) (apply_splice sp p)
      | _ \<Rightarrow> Inr p)"

definition open_inbox :: "session \<Rightarrow> (inbox_error, inbox) result" where
  "open_inbox s =
     (let (events, s') = own_events s in
      and_then (fold_result replay_event events no_pending) (\<lambda>p.
        Inr \<lparr>ib_pending = p, ib_session = s', ib_sent = []\<rparr>))"

section \<open>Mutations\<close>

definition actual_start :: "nat \<Rightarrow> js_number \<Rightarrow> jnum" where
  "actual_start len start =
     (case trunc_num start of
        Finite n \<Rightarrow>
          if jnum_int n < 0 then JInt (max (int len + jnum_int n) 0)
          else if n = JNegZero then JNegZero
          else JInt (min (jnum_int n) (int len))
      | NotANumber \<Rightarrow> JInt 0
      | PosInfinity \<Rightarrow> JInt (int len)
      | NegInfinity \<Rightarrow> JInt 0)"

definition actual_delete :: "nat \<Rightarrow> nat \<Rightarrow> js_number \<Rightarrow> nat" where
  "actual_delete len start cnt =
     (case trunc_num cnt of
        Finite n \<Rightarrow> nat (min (max (jnum_int n) 0) (int len - int start))
      | PosInfinity \<Rightarrow> len - start
      | _ \<Rightarrow> 0)"

definition normalized_splice ::
    "inbox_target \<Rightarrow> js_number \<Rightarrow> js_number \<Rightarrow> user_message list \<Rightarrow> bool \<Rightarrow> pending \<Rightarrow> inbox_splice" where
  "normalized_splice target start cnt inserted discard p =
     (let len = length (get_list target p);
          s = actual_start len start;
          n = actual_delete len (nat (jnum_int s)) cnt
      in \<lparr>sp_target = target, sp_start = s, sp_removed = (if n = 0 then None else Some (JInt (int n))),
          sp_inserted = inserted, sp_canceled = discard \<and> n > 0\<rparr>)"

text \<open>\<open>mutate\<close>: nothing to do, or validate, append, change the list, notify.\<close>

definition mutate ::
    "int \<Rightarrow> inbox_target \<Rightarrow> js_number \<Rightarrow> js_number \<Rightarrow> user_message list \<Rightarrow> bool \<Rightarrow> inbox \<Rightarrow>
     (inbox_error, user_message list) result \<times> inbox" where
  "mutate now target start cnt inserted discard ib =
     (let xs = get_list target (ib_pending ib);
          sp = normalized_splice target start cnt inserted discard (ib_pending ib);
          k = nat (jnum_int (sp_start sp));
          n = (case sp_removed sp of Some n \<Rightarrow> nat (jnum_int n) | None \<Rightarrow> 0)
      in if n = 0 \<and> inserted = [] then (Inr [], ib)
         else case validate_splice sp (ib_pending ib) of
           Inl err \<Rightarrow> (Inl err, ib)
         | Inr _ \<Rightarrow>
             (case session_append now (InboxSpliced sp) None None (ib_session ib) of
                (Inl err, s') \<Rightarrow> (Inl (InboxAppend err), ib\<lparr>ib_session := s'\<rparr>)
              | (Inr _, s') \<Rightarrow>
                  let removed = spliced_out k n xs in
                  (Inr removed,
                   ib\<lparr>ib_pending := set_list target (splice k n inserted xs) (ib_pending ib), ib_session := s',
                      ib_sent := ib_sent ib @ (if discard then map Discarded removed else []) @ map Inserted inserted\<rparr>)))"

definition inbox_splice_op ::
    "int \<Rightarrow> inbox_target \<Rightarrow> js_number \<Rightarrow> js_number \<Rightarrow> user_message list \<Rightarrow> inbox \<Rightarrow>
     (inbox_error, user_message list) result \<times> inbox" where
  "inbox_splice_op now target start cnt inserted ib = mutate now target start cnt inserted True ib"

abbreviation jsn :: "nat \<Rightarrow> js_number" where
  "jsn n \<equiv> Finite (JInt (int n))"

definition inbox_clear :: "int \<Rightarrow> inbox \<Rightarrow> (inbox_error, unit) result \<times> inbox" where
  "inbox_clear now ib =
     (case inbox_splice_op now NextStep (jsn 0) (jsn (length (pd_step (ib_pending ib)))) [] ib of
        (Inl err, ib1) \<Rightarrow> (Inl err, ib1)
      | (Inr _, ib1) \<Rightarrow>
          (case inbox_splice_op now NextTurn (jsn 0) (jsn (length (pd_turn (ib_pending ib1)))) [] ib1 of
             (Inl err, ib2) \<Rightarrow> (Inl err, ib2)
           | (Inr _, ib2) \<Rightarrow> (Inr (), ib2)))"

definition notify_claimed :: "user_message list \<Rightarrow> int \<Rightarrow> inbox \<Rightarrow> inbox" where
  "notify_claimed ms turn ib = ib\<lparr>ib_sent := ib_sent ib @ map (\<lambda>m. Claimed m turn) ms\<rparr>"

definition inbox_claim ::
    "int \<Rightarrow> inbox_target \<Rightarrow> int \<Rightarrow> inbox \<Rightarrow> (inbox_error, user_message list) result \<times> inbox" where
  "inbox_claim now target turn ib =
     (case mutate now NextStep (jsn 0) (jsn (length (pd_step (ib_pending ib)))) [] False ib of
        (Inl err, ib1) \<Rightarrow> (Inl err, ib1)
      | (Inr steps, ib1) \<Rightarrow>
          if target = NextTurn then
            (case mutate now NextTurn (jsn 0) (jsn 1) [] False ib1 of
               (Inl err, ib2) \<Rightarrow> (Inl err, ib2)
             | (Inr turns, ib2) \<Rightarrow> (Inr (steps @ turns), notify_claimed (steps @ turns) turn ib2))
          else (Inr steps, notify_claimed steps turn ib1))"

definition inbox_append ::
    "int \<Rightarrow> inbox_target \<Rightarrow> user_message \<Rightarrow> inbox \<Rightarrow> (inbox_error, user_message list) result \<times> inbox" where
  "inbox_append now target m ib =
     inbox_splice_op now target (jsn (length (get_list target (ib_pending ib)))) (jsn 0) [m] ib"

definition inbox_prepend ::
    "int \<Rightarrow> inbox_target \<Rightarrow> user_message \<Rightarrow> inbox \<Rightarrow> (inbox_error, user_message list) result \<times> inbox" where
  "inbox_prepend now target m ib = inbox_splice_op now target (jsn 0) (jsn 0) [m] ib"

fun find_index :: "('a \<Rightarrow> bool) \<Rightarrow> 'a list \<Rightarrow> nat option" where
  "find_index q [] = None"
| "find_index q (x # xs) = (if q x then Some 0 else map_option Suc (find_index q xs))"

definition locate :: "string \<Rightarrow> pending \<Rightarrow> (inbox_target \<times> nat) option" where
  "locate i p =
     (case find_index (\<lambda>m. um_id m = i) (pd_turn p) of
        Some k \<Rightarrow> Some (NextTurn, k)
      | None \<Rightarrow> map_option (Pair NextStep) (find_index (\<lambda>m. um_id m = i) (pd_step p)))"

definition inbox_replace ::
    "int \<Rightarrow> string \<Rightarrow> user_message \<Rightarrow> inbox \<Rightarrow> (inbox_error, bool) result \<times> inbox" where
  "inbox_replace now i m ib =
     (case locate i (ib_pending ib) of
        None \<Rightarrow> (Inr False, ib)
      | Some (target, k) \<Rightarrow>
          (case inbox_splice_op now target (jsn k) (jsn 1) [m] ib of
             (Inl err, ib') \<Rightarrow> (Inl err, ib')
           | (Inr _, ib') \<Rightarrow> (Inr True, ib')))"

definition inbox_remove :: "int \<Rightarrow> string \<Rightarrow> inbox \<Rightarrow> (inbox_error, bool) result \<times> inbox" where
  "inbox_remove now i ib =
     (case locate i (ib_pending ib) of
        None \<Rightarrow> (Inr False, ib)
      | Some (target, k) \<Rightarrow>
          (case inbox_splice_op now target (jsn k) (jsn 1) [] ib of
             (Inl err, ib') \<Rightarrow> (Inl err, ib')
           | (Inr _, ib') \<Rightarrow> (Inr True, ib')))"

section \<open>Consistency with the log\<close>

lemmas splice_defs = validate_splice_def apply_splice_def Let_def

lemma get_set_list [simp]:
  "get_list t (set_list t xs p) = xs"
  "get_list u (set_list t xs p) = (if u = t then xs else get_list u p)"
  by (cases t; cases u; simp)+

lemma first_duplicate_None_iff: "first_duplicate seen is = None \<longleftrightarrow> distinct is \<and> set is \<inter> seen = {}"
  by (induction seen "is" rule: first_duplicate.induct) auto

definition ids_unique :: "pending \<Rightarrow> bool" where
  "ids_unique p \<longleftrightarrow> distinct (map um_id (all_pending p))"

lemma apply_splice_unique: "apply_splice sp p = Inr p' \<Longrightarrow> ids_unique p'"
  by (auto simp: splice_defs and_then_Inr_iff ids_unique_def first_duplicate_None_iff split: if_splits option.splits)

lemma replay_event_unique: "ids_unique p \<Longrightarrow> replay_event e p = Inr p' \<Longrightarrow> ids_unique p'"
  by (auto simp: replay_event_def split: payload.splits dest: apply_splice_unique)

lemma replay_unique:
  assumes "fold_result replay_event es no_pending = Inr p"
  shows "ids_unique p"
proof (rule fold_result_inv [where P = ids_unique, OF assms])
  show "ids_unique no_pending" by (simp add: ids_unique_def no_pending_def all_pending_def)
qed (rule replay_event_unique)

definition owned :: "session \<Rightarrow> session_event list" where
  "owned s = drop (s_inherited s) (s_log s)"

lemma own_events_owned: "session_inv s \<Longrightarrow> fst (own_events s) = owned s"
  by (auto simp: own_events_def snapshot_events_def session_seq_of_def owned_def slice_def session_inv_def
      split: option.splits)

lemma own_events_keeps:
  "session_inv s \<Longrightarrow> session_inv (snd (own_events s))"
  "owned (snd (own_events s)) = owned s" "s_log (snd (own_events s)) = s_log s"
  using snapshot_events_inv [of s]
  by (auto simp: own_events_def snapshot_events_def owned_def split: option.splits)

definition inbox_inv :: "inbox \<Rightarrow> bool" where
  "inbox_inv ib \<longleftrightarrow> session_inv (ib_session ib)
     \<and> fold_result replay_event (owned (ib_session ib)) no_pending = Inr (ib_pending ib)"

lemma inbox_inv_unique: "inbox_inv ib \<Longrightarrow> ids_unique (ib_pending ib)"
  by (auto simp: inbox_inv_def dest: replay_unique)

lemma open_inbox_inv: "session_inv s \<Longrightarrow> open_inbox s = Inr ib \<Longrightarrow> inbox_inv ib"
  using own_events_owned [of s] own_events_keeps [of s]
  by (auto simp: open_inbox_def inbox_inv_def and_then_Inr_iff split: prod.splits)

lemma owned_append:
  assumes "session_inv s" and "session_append now p op sources s = (r, s')"
  shows "case r of Inl _ \<Rightarrow> owned s' = owned s | Inr e \<Rightarrow> owned s' = owned s @ [e] \<and> ev_payload e = p"
    and "session_inv s'"
  using session_append_log [OF assms] session_append_inv [OF assms(1), of now p op sources] assms
  by (auto simp: owned_def session_inv_def split: sum.splits)

text \<open>What \<open>mutate\<close> does, in one place.\<close>

lemma mutate_cases:
  assumes "inbox_inv ib" and "mutate now target start cnt inserted discard ib = (r, ib')"
  defines "sp \<equiv> normalized_splice target start cnt inserted discard (ib_pending ib)"
  defines "xs \<equiv> get_list target (ib_pending ib)"
  defines "k \<equiv> nat (jnum_int (sp_start sp))"
  defines "n \<equiv> actual_delete (length xs) k cnt"
  obtains (nothing) "n = 0" "inserted = []" "r = Inr []" "ib' = ib"
  | (failed) err where "r = Inl err" "ib_pending ib' = ib_pending ib" "ib_sent ib' = ib_sent ib"
      "s_log (ib_session ib') = s_log (ib_session ib)" "inbox_inv ib'" "n \<noteq> 0 \<or> inserted \<noteq> []"
  | (changed) e where "r = Inr (spliced_out k n xs)" "inbox_inv ib'" "n \<noteq> 0 \<or> inserted \<noteq> []"
      "validate_splice sp (ib_pending ib) = Inr ()"
      "ib_pending ib' = set_list target (splice k n inserted xs) (ib_pending ib)"
      "ib_sent ib' = ib_sent ib @ (if discard then map Discarded (spliced_out k n xs) else []) @ map Inserted inserted"
      "s_log (ib_session ib') = s_log (ib_session ib) @ [e]" "ev_payload e = InboxSpliced sp"
proof -
  have n: "(case sp_removed sp of Some m \<Rightarrow> nat (jnum_int m) | None \<Rightarrow> 0) = n"
    by (simp add: sp_def n_def k_def xs_def normalized_splice_def Let_def)
  have fields: "sp_target sp = target" "sp_inserted sp = inserted"
    by (simp_all add: sp_def normalized_splice_def Let_def)
  note m = assms(2) [unfolded mutate_def Let_def, folded sp_def xs_def k_def, unfolded n]
  have inv: "session_inv (ib_session ib)" using assms(1) by (simp add: inbox_inv_def)
  show ?thesis
  proof (cases "n = 0 \<and> inserted = []")
    case True
    with m have "r = Inr []" "ib' = ib" by auto
    with True show ?thesis using that(1) by simp
  next
    case False
    show ?thesis
    proof (cases "validate_splice sp (ib_pending ib)")
      case (Inl err)
      with m n False assms(1) show ?thesis by (intro failed [of err]) auto
    next
      case (Inr u)
      obtain r' s' where a: "session_append now (InboxSpliced sp) None None (ib_session ib) = (r', s')"
        by (cases "session_append now (InboxSpliced sp) None None (ib_session ib)")
      note own = owned_append [OF inv a] session_append_log [OF inv a]
      show ?thesis
      proof (cases r')
        case (Inl err)
        with m n False Inr a own assms(1) show ?thesis by (intro failed [of "InboxAppend err"]) (auto simp: inbox_inv_def)
      next
        case (Inr e)
        have "fold_result replay_event (owned s') no_pending = replay_event e (ib_pending ib)"
          using own(1) assms(1) Inr by (simp add: fold_result_snoc inbox_inv_def)
        moreover have "replay_event e (ib_pending ib) = Inr (set_list target (splice k n inserted xs) (ib_pending ib))"
          using own(1) Inr \<open>validate_splice sp (ib_pending ib) = Inr u\<close> fields n
          by (simp add: replay_event_def apply_splice_def Let_def k_def xs_def split: option.splits)
        ultimately show ?thesis
          using m n False Inr a own \<open>validate_splice sp (ib_pending ib) = Inr u\<close>
          by (intro changed [of e]) (auto simp: inbox_inv_def)
      qed
    qed
  qed
qed

lemma mutate_inv: "inbox_inv ib \<Longrightarrow> inbox_inv (snd (mutate now target start cnt inserted discard ib))"
  by (rule mutate_cases [of ib now target start cnt inserted discard, OF _ prod.collapse [symmetric]])
    simp_all

section \<open>Every reachable inbox\<close>

text \<open>An inbox opened on a session, then its own mutations, claims, and appends of other events by
  other code in any order; failing operations included.\<close>

inductive inbox_reach :: "inbox \<Rightarrow> bool" where
  opened: "session_reach s \<Longrightarrow> open_inbox s = Inr ib \<Longrightarrow> inbox_reach ib"
| mutated: "inbox_reach ib \<Longrightarrow> inbox_reach (snd (mutate now target start cnt inserted discard ib))"
| notified: "inbox_reach ib \<Longrightarrow> inbox_reach (notify_claimed ms turn ib)"
| foreign: "inbox_reach ib \<Longrightarrow> (\<And>sp. p \<noteq> InboxSpliced sp) \<Longrightarrow>
    inbox_reach (ib\<lparr>ib_session := snd (session_append now p op sources (ib_session ib))\<rparr>)"

lemma foreign_inv:
  assumes "inbox_inv ib" and "\<And>sp. p \<noteq> InboxSpliced sp"
  shows "inbox_inv (ib\<lparr>ib_session := snd (session_append now p op sources (ib_session ib))\<rparr>)"
proof -
  have inv: "session_inv (ib_session ib)" using assms(1) by (simp add: inbox_inv_def)
  obtain r s' where a: "session_append now p op sources (ib_session ib) = (r, s')"
    by (cases "session_append now p op sources (ib_session ib)")
  have "replay_event e q = Inr q" if "ev_payload e = p" for e q
    using assms(2) that by (auto simp: replay_event_def split: payload.split)
  with owned_append [OF inv a] assms(1) a show ?thesis
    by (cases r) (auto simp: inbox_inv_def fold_result_snoc)
qed

lemma inbox_reach_inv: "inbox_reach ib \<Longrightarrow> inbox_inv ib"
proof (induction rule: inbox_reach.induct)
  case (opened s ib)
  then show ?case by (intro open_inbox_inv [OF session_reach_inv])
next
  case (mutated ib now target start cnt inserted discard)
  from mutated(2) show ?case by (rule mutate_inv)
next
  case (notified ib ms turn)
  then show ?case by (simp add: notify_claimed_def inbox_inv_def)
next
  case (foreign ib p now op sources)
  from foreign(3,2) show ?case by (rule foreign_inv)
qed

text \<open>
  Claim C10. The inbox survives a restart: whatever was spliced, claimed, rejected or appended by
  others, opening a new inbox on the same session replays the session's own splice events to
  exactly the two lists the live inbox holds.
\<close>

theorem inbox_replay_roundtrip:
  assumes "inbox_reach ib"
  shows "\<exists>ib'. open_inbox (ib_session ib) = Inr ib' \<and> ib_pending ib' = ib_pending ib"
proof -
  have inv: "inbox_inv ib" by (rule inbox_reach_inv [OF assms])
  then have "fst (own_events (ib_session ib)) = owned (ib_session ib)"
    by (simp add: inbox_inv_def own_events_owned)
  with inv show ?thesis
    by (cases "own_events (ib_session ib)") (simp add: open_inbox_def inbox_inv_def)
qed

text \<open>
  No identity is pending twice, in one list or across the two.
\<close>

theorem inbox_ids_unique:
  assumes "inbox_reach ib"
  shows "distinct (map um_id (pd_turn (ib_pending ib) @ pd_step (ib_pending ib)))"
  using inbox_inv_unique [OF inbox_reach_inv [OF assms]] by (simp add: ids_unique_def all_pending_def)

text \<open>\<open>Array.prototype.splice\<close> as the language defines it: relative start, clamped delete count.\<close>

definition js_splice :: "js_number \<Rightarrow> js_number \<Rightarrow> 'a list \<Rightarrow> 'a list \<Rightarrow> 'a list \<times> 'a list" where
  "js_splice start cnt ins xs =
     (let rel = (case trunc_num start of Finite n \<Rightarrow> jnum_int n | PosInfinity \<Rightarrow> int (length xs)
                 | NegInfinity \<Rightarrow> - int (length xs) | NotANumber \<Rightarrow> 0);
          k = nat (if rel < 0 then max (int (length xs) + rel) 0 else min rel (int (length xs)));
          del = (case trunc_num cnt of Finite n \<Rightarrow> jnum_int n | PosInfinity \<Rightarrow> int (length xs) | _ \<Rightarrow> 0);
          n = nat (min (max del 0) (int (length xs - k)))
      in (take n (drop k xs), take k xs @ ins @ drop (k + n) xs))"

lemma actual_start_within: "nat (jnum_int (actual_start len start)) \<le> len"
  by (auto simp: actual_start_def split: js_number.splits)

lemma js_splice_normalized:
  fixes xs :: "'a list" and start :: js_number
  defines "k \<equiv> nat (jnum_int (actual_start (length xs) start))"
  shows "js_splice start cnt ins xs = (spliced_out k (actual_delete (length xs) k cnt) xs,
     splice k (actual_delete (length xs) k cnt) ins xs)"
proof -
  have k: "k = nat (let rel = (case trunc_num start of Finite n \<Rightarrow> jnum_int n | PosInfinity \<Rightarrow> int (length xs)
                 | NegInfinity \<Rightarrow> - int (length xs) | NotANumber \<Rightarrow> 0)
      in if rel < 0 then max (int (length xs) + rel) 0 else min rel (int (length xs)))"
    by (auto simp: k_def actual_start_def Let_def split: js_number.split)
  have "k \<le> length xs" unfolding k_def by (rule actual_start_within)
  then have n: "actual_delete (length xs) k cnt =
      nat (min (max (case trunc_num cnt of Finite n \<Rightarrow> jnum_int n | PosInfinity \<Rightarrow> int (length xs) | _ \<Rightarrow> 0) 0)
             (int (length xs - k)))"
    by (auto simp: actual_delete_def of_nat_diff split: js_number.split)
  show ?thesis
    unfolding js_splice_def Let_def
    by (simp only: k [unfolded Let_def, symmetric] n [symmetric] spliced_out_def splice_def)
qed

lemma inbox_splice_standard_steps:
  assumes "inbox_reach ib" and "mutate now target start cnt inserted discard ib = (r, ib')"
  shows "(case r of
      Inr removed \<Rightarrow>
        (removed, get_list target (ib_pending ib')) = js_splice start cnt inserted (get_list target (ib_pending ib))
        \<and> (\<forall>other. other \<noteq> target \<longrightarrow> get_list other (ib_pending ib') = get_list other (ib_pending ib))
        \<and> (removed = [] \<and> inserted = [] \<and> ib' = ib
           \<or> (\<exists>e sp. s_log (ib_session ib') = s_log (ib_session ib) @ [e] \<and> ev_payload e = InboxSpliced sp
                \<and> sp_inserted sp = inserted \<and> (sp_canceled sp \<longleftrightarrow> discard \<and> removed \<noteq> [])))
    | Inl err \<Rightarrow> ib_pending ib' = ib_pending ib \<and> ib_sent ib' = ib_sent ib
        \<and> s_log (ib_session ib') = s_log (ib_session ib))"
proof -
  define xs where "xs = get_list target (ib_pending ib)"
  define sp where "sp = normalized_splice target start cnt inserted discard (ib_pending ib)"
  define k where "k = nat (jnum_int (sp_start sp))"
  define n where "n = actual_delete (length xs) k cnt"
  have k: "k = nat (jnum_int (actual_start (length xs) start))"
    by (simp add: k_def sp_def xs_def normalized_splice_def Let_def)
  have js: "js_splice start cnt inserted xs = (spliced_out k n xs, splice k n inserted xs)"
    unfolding n_def k by (rule js_splice_normalized)
  have k_le: "k \<le> length xs" unfolding k by (rule actual_start_within)
  then have "n \<le> length xs - k" by (auto simp: n_def actual_delete_def split: js_number.split)
  with k_le have len: "length (spliced_out k n xs) = n" by (simp add: spliced_out_def)
  have sp: "sp_inserted sp = inserted" "sp_canceled sp \<longleftrightarrow> discard \<and> n > 0"
    by (simp_all add: sp_def n_def k_def xs_def normalized_splice_def Let_def)
  show ?thesis
  proof (cases rule: mutate_cases [OF inbox_reach_inv [OF assms(1)] assms(2)])
    case 1
    then have "n = 0" by (simp add: n_def k_def sp_def xs_def)
    with 1 js show ?thesis by (simp add: xs_def [symmetric] spliced_out_def splice_def)
  next
    case (2 err)
    then show ?thesis by simp
  next
    case (3 e)
    then have r: "r = Inr (spliced_out k n xs)"
      and p: "ib_pending ib' = set_list target (splice k n inserted xs) (ib_pending ib)"
      and e: "ev_payload e = InboxSpliced sp"
      by (simp_all add: n_def k_def sp_def xs_def)
    have "sp_canceled sp \<longleftrightarrow> discard \<and> spliced_out k n xs \<noteq> []" using sp(2) len by (cases "spliced_out k n xs") auto
    with r p e js sp(1) 3(7) show ?thesis by (simp add: xs_def [symmetric])
  qed
qed

text \<open>
  A mutation has the effect of the language's own \<open>splice\<close> for every number a caller
  can pass, fractions, negative, infinite and NaN coordinates included, and is all or nothing:
  either the removed messages and the resulting list are those of the standard operation, the
  other list is untouched and one durable event was added (none when there was nothing to do), or
  it failed and neither list nor the log nor the notifications changed.
\<close>

theorem inbox_splice_standard:
  assumes "inbox_reach ib" and "mutate now target start cnt inserted discard ib = (r, ib')"
  shows "(case r of
      Inr removed \<Rightarrow>
        (removed, get_list target (ib_pending ib')) = js_splice start cnt inserted (get_list target (ib_pending ib))
        \<and> (\<forall>other. other \<noteq> target \<longrightarrow> get_list other (ib_pending ib') = get_list other (ib_pending ib))
        \<and> (removed = [] \<and> inserted = [] \<and> ib' = ib
           \<or> (\<exists>e sp. s_log (ib_session ib') = s_log (ib_session ib) @ [e] \<and> ev_payload e = InboxSpliced sp
                \<and> sp_inserted sp = inserted \<and> (sp_canceled sp \<longleftrightarrow> discard \<and> removed \<noteq> [])))
    | Inl err \<Rightarrow> ib_pending ib' = ib_pending ib \<and> ib_sent ib' = ib_sent ib
        \<and> s_log (ib_session ib') = s_log (ib_session ib))"
  by (rule inbox_splice_standard_steps [OF assms])

text \<open>Taking the first messages of a list.\<close>

lemma js_splice_prefix:
  "js_splice (Finite (JInt 0)) (jsn c) [] xs = (take c xs, drop c xs)"
  by (simp add: js_splice_def Let_def min_def)

lemma mutate_prefix:
  assumes "inbox_reach ib" and "mutate now target (jsn 0) (jsn c) [] discard ib = (Inr removed, ib')"
  shows "removed = take c (get_list target (ib_pending ib))"
    and "get_list target (ib_pending ib') = drop c (get_list target (ib_pending ib))"
    and "other \<noteq> target \<Longrightarrow> get_list other (ib_pending ib') = get_list other (ib_pending ib)"
    and "ib_sent ib' = ib_sent ib @ (if discard then map Discarded removed else [])"
    and "\<exists>es. s_log (ib_session ib') = s_log (ib_session ib) @ es
      \<and> (\<forall>e \<in> set es. \<exists>sp. ev_payload e = InboxSpliced sp \<and> sp_inserted sp = [] \<and> (sp_canceled sp \<longrightarrow> discard))"
proof -
  note std = inbox_splice_standard_steps [OF assms]
  from std show "removed = take c (get_list target (ib_pending ib))"
    "get_list target (ib_pending ib') = drop c (get_list target (ib_pending ib))"
    "other \<noteq> target \<Longrightarrow> get_list other (ib_pending ib') = get_list other (ib_pending ib)"
    by (simp_all add: js_splice_prefix)
  from std show "\<exists>es. s_log (ib_session ib') = s_log (ib_session ib) @ es
      \<and> (\<forall>e \<in> set es. \<exists>sp. ev_payload e = InboxSpliced sp \<and> sp_inserted sp = [] \<and> (sp_canceled sp \<longrightarrow> discard))"
    by fastforce
  show "ib_sent ib' = ib_sent ib @ (if discard then map Discarded removed else [])"
    by (rule mutate_cases [OF inbox_reach_inv [OF assms(1)] assms(2)]) auto
qed

text \<open>
  A step boundary claims everything waiting for the step and, at a turn boundary, one
  queued turn after it, in order; the rest of the queue stays. The durable record is pure
  deletions that are not cancellations, and exactly the claimed messages are announced as
  claimed by the turn.
\<close>

theorem inbox_claim_exact:
  assumes "inbox_reach ib" and "inbox_claim now target turn ib = (Inr claimed, ib')"
  shows "claimed = pd_step (ib_pending ib) @ (if target = NextTurn then take 1 (pd_turn (ib_pending ib)) else [])
    \<and> pd_step (ib_pending ib') = []
    \<and> pd_turn (ib_pending ib') = (if target = NextTurn then drop 1 (pd_turn (ib_pending ib)) else pd_turn (ib_pending ib))
    \<and> ib_sent ib' = ib_sent ib @ map (\<lambda>m. Claimed m turn) claimed
    \<and> (\<exists>es. s_log (ib_session ib') = s_log (ib_session ib) @ es
         \<and> (\<forall>e \<in> set es. \<exists>sp. ev_payload e = InboxSpliced sp \<and> sp_inserted sp = [] \<and> \<not> sp_canceled sp))"
proof -
  from assms(2) obtain steps ib1 where
    m1: "mutate now NextStep (jsn 0) (jsn (length (pd_step (ib_pending ib)))) [] False ib = (Inr steps, ib1)"
    by (auto simp: inbox_claim_def split: prod.splits sum.splits)
  have reach1: "inbox_reach ib1" using inbox_reach.mutated [OF assms(1)] m1 by (metis snd_conv)
  note p1 = mutate_prefix [OF assms(1) m1]
  have steps: "steps = pd_step (ib_pending ib)" "pd_step (ib_pending ib1) = []"
      "pd_turn (ib_pending ib1) = pd_turn (ib_pending ib)" "ib_sent ib1 = ib_sent ib"
    using p1(1,2) p1(3) [of NextTurn] p1(4) by simp_all
  obtain es1 where es1: "s_log (ib_session ib1) = s_log (ib_session ib) @ es1"
    "\<forall>e \<in> set es1. \<exists>sp. ev_payload e = InboxSpliced sp \<and> sp_inserted sp = [] \<and> \<not> sp_canceled sp"
    using p1(5) by auto
  show ?thesis
  proof (cases "target = NextTurn")
    case False
    with assms(2) m1 have "claimed = steps" "ib' = notify_claimed steps turn ib1"
      by (auto simp: inbox_claim_def)
    with False steps es1 show ?thesis by (auto simp: notify_claimed_def)
  next
    case True
    with assms(2) m1 obtain turns ib2 where
      m2: "mutate now NextTurn (jsn 0) (jsn 1) [] False ib1 = (Inr turns, ib2)"
      and c: "claimed = steps @ turns" "ib' = notify_claimed (steps @ turns) turn ib2"
      by (auto simp: inbox_claim_def split: prod.splits sum.splits)
    note p2 = mutate_prefix [OF reach1 m2]
    have turns: "turns = take 1 (pd_turn (ib_pending ib))" "pd_turn (ib_pending ib2) = drop 1 (pd_turn (ib_pending ib))"
        "pd_step (ib_pending ib2) = []" "ib_sent ib2 = ib_sent ib"
      using p2(1,2) p2(3) [of NextStep] p2(4) steps by simp_all
    obtain es2 where es2: "s_log (ib_session ib2) = s_log (ib_session ib1) @ es2"
      "\<forall>e \<in> set es2. \<exists>sp. ev_payload e = InboxSpliced sp \<and> sp_inserted sp = [] \<and> \<not> sp_canceled sp"
      using p2(5) by auto
    have "s_log (ib_session ib2) = s_log (ib_session ib) @ (es1 @ es2)" using es1(1) es2(1) by simp
    moreover have "\<forall>e \<in> set (es1 @ es2). \<exists>sp. ev_payload e = InboxSpliced sp \<and> sp_inserted sp = [] \<and> \<not> sp_canceled sp"
      using es1(2) es2(2) by auto
    ultimately have "\<exists>es. s_log (ib_session ib2) = s_log (ib_session ib) @ es
         \<and> (\<forall>e \<in> set es. \<exists>sp. ev_payload e = InboxSpliced sp \<and> sp_inserted sp = [] \<and> \<not> sp_canceled sp)"
      by blast
    with True c steps turns show ?thesis by (simp add: notify_claimed_def)
  qed
qed

text \<open>
  The one number where a mutation departs from the standard operation: a start of
  negative zero, or a fraction that truncates to it, is carried into the durable event, whose
  data the session refuses as not losslessly serialisable. The insertion fails although the
  standard operation would insert at the front.
\<close>

theorem inbox_negative_zero_rejected:
  assumes "inserted \<noteq> []" and "trunc_num start = Finite JNegZero"
  shows "\<not> is_ok (fst (mutate now target start cnt inserted discard ib))
    \<and> snd (js_splice start (jsn 0) inserted xs) = inserted @ xs"
proof -
  define sp where "sp = normalized_splice target start cnt inserted discard (ib_pending ib)"
  have "sp_start sp = JNegZero"
    using assms(2) by (simp add: sp_def normalized_splice_def Let_def actual_start_def)
  then have "\<not> lossless (payload_json (InboxSpliced sp))" by simp
  then have "fst (session_append now (InboxSpliced sp) None None s) = Inl (DataNotJson (event_type (InboxSpliced sp)))" for s
    by (simp add: session_append_def append_prepare_def append_precheck_def)
  then have "\<not> is_ok (fst (mutate now target start cnt inserted discard ib))"
    using assms(1) unfolding mutate_def Let_def sp_def [symmetric]
    by (auto split: sum.split prod.split) (metis fst_conv sum.distinct(1))
  moreover have "snd (js_splice start (jsn 0) inserted xs) = inserted @ xs"
    using assms(2) by (simp add: js_splice_def Let_def)
  ultimately show ?thesis by blast
qed

section \<open>A concrete inbox\<close>

definition example_prompt :: user_message where
  "example_prompt = \<lparr>um_id = ''p'', um_content = [TextBlock ''go''], um_source = UserSource\<rparr>"

definition example_opened :: "inbox \<Rightarrow> bool" where
  "example_opened ib \<longleftrightarrow>
     and_then (rethrow InboxAppend (construct_session 5 ''s'' None None SnapshotSeed None)) open_inbox = Inr ib"

lemma example_opens:
  obtains ib where "example_opened ib" "inbox_reach ib" "ib_pending ib = no_pending"
    "is_ok (fst (inbox_claim 2 NextTurn 1 (snd (mutate 1 NextTurn (jsn 0) (jsn 0) [example_prompt] True ib))))"
proof -
  have "is_ok (and_then (rethrow InboxAppend (construct_session 5 ''s'' None None SnapshotSeed None)) (\<lambda>s.
     and_then (open_inbox s) (\<lambda>ib. and_then (reject_if (ib_pending ib \<noteq> no_pending) InvalidSplice) (\<lambda>_.
       fst (inbox_claim 2 NextTurn 1 (snd (mutate 1 NextTurn (jsn 0) (jsn 0) [example_prompt] True ib)))))))"
    by code_simp
  then obtain s ib where "construct_session 5 ''s'' None None SnapshotSeed None = Inr s" "open_inbox s = Inr ib"
    "ib_pending ib = no_pending"
    "is_ok (fst (inbox_claim 2 NextTurn 1 (snd (mutate 1 NextTurn (jsn 0) (jsn 0) [example_prompt] True ib))))"
    by (auto simp: is_ok_iff and_then_Inr_iff)
  then show ?thesis using that [of ib]
    by (auto simp: example_opened_def intro: inbox_reach.opened session_reach.construct)
qed

theorem inbox_replay_roundtrip_witness:
  "\<exists>ib ib'. example_opened ib \<and> open_inbox (ib_session ib) = Inr ib' \<and> ib_pending ib' = no_pending"
  by (rule example_opens) (use inbox_replay_roundtrip in fastforce)

theorem inbox_ids_unique_witness:
  "\<exists>ib. example_opened ib \<and> distinct (map um_id (pd_turn (ib_pending ib) @ pd_step (ib_pending ib)))"
  by (rule example_opens) (use inbox_ids_unique in blast)

theorem inbox_splice_standard_witness:
  "\<exists>ib r ib'. example_opened ib \<and> mutate 1 NextTurn NotANumber PosInfinity [] True ib = (Inr r, ib') \<and> r = []"
proof (rule example_opens)
  fix ib assume ib: "example_opened ib" "inbox_reach ib" "ib_pending ib = no_pending"
  then have "mutate 1 NextTurn NotANumber PosInfinity [] True ib = (Inr [], ib)"
    by (simp add: mutate_def normalized_splice_def actual_start_def actual_delete_def no_pending_def Let_def)
  with ib inbox_splice_standard [OF ib(2) this] show ?thesis by blast
qed

theorem inbox_claim_exact_witness:
  "\<exists>ib ib1 ib' claimed. example_opened ib \<and> inbox_claim 2 NextTurn 1 ib1 = (Inr claimed, ib')
     \<and> pd_step (ib_pending ib') = [] \<and> ib_sent ib' = ib_sent ib1 @ map (\<lambda>m. Claimed m 1) claimed"
proof (rule example_opens)
  fix ib assume ib: "example_opened ib" "inbox_reach ib"
    "is_ok (fst (inbox_claim 2 NextTurn 1 (snd (mutate 1 NextTurn (jsn 0) (jsn 0) [example_prompt] True ib))))"
  define ib1 where "ib1 = snd (mutate 1 NextTurn (jsn 0) (jsn 0) [example_prompt] True ib)"
  from ib(3) obtain claimed ib' where c: "inbox_claim 2 NextTurn 1 ib1 = (Inr claimed, ib')"
    unfolding ib1_def [symmetric] by (cases "inbox_claim 2 NextTurn 1 ib1") (auto simp: is_ok_iff)
  have "inbox_reach ib1" unfolding ib1_def by (rule inbox_reach.mutated [OF ib(2)])
  from inbox_claim_exact [OF this c] c ib(1) show ?thesis by blast
qed

theorem inbox_negative_zero_rejected_witness:
  "\<exists>ib. example_opened ib \<and> \<not> is_ok (fst (mutate 1 NextStep (Finite JNegZero) (jsn 0) [example_prompt] True ib))"
  by (rule example_opens) (use inbox_negative_zero_rejected [of "[example_prompt]" "Finite JNegZero"] in fastforce)

end
