(* ===== verification/Consumed_Work.thy ===== *)
theory Consumed_Work
  imports Session_Trace
begin

text \<open>
  \<open>packages/core/agent/src/consumed-work.ts\<close>: which closed turn accounts for the work an agent
  consumed, and whether work was dropped unrun after it. The single pass over the log with its
  two sets of turn numbers is the model; it is compared with a declarative account of each turn
  in isolation.
\<close>

section \<open>The fold\<close>

fun accounts_for_claim :: "turn_end_reason \<Rightarrow> bool" where
  "accounts_for_claim Completed = False"
| "accounts_for_claim _ = True"

record work_state =
  wk_stepped :: "int set"
  wk_claimed :: "int set"
  wk_open :: "int option"
  wk_end :: "session_event option"
  wk_dropped :: bool

definition start_work :: work_state where
  "start_work = \<lparr>wk_stepped = {}, wk_claimed = {}, wk_open = None, wk_end = None, wk_dropped = False\<rparr>"

definition work_splice :: "inbox_splice \<Rightarrow> work_state \<Rightarrow> work_state" where
  "work_splice sp w =
     (if sp_removed sp = None then w
      else if sp_canceled sp then w\<lparr>wk_dropped := wk_dropped w \<or> sp_inserted sp = []\<rparr>
      else (case wk_open w of None \<Rightarrow> w | Some t \<Rightarrow> w\<lparr>wk_claimed := insert t (wk_claimed w)\<rparr>))"

text \<open>The end of a turn: \<open>Set.delete\<close> tells whether the number was there, and the second one
  runs only when the first found nothing.\<close>

definition work_turn_end :: "session_event \<Rightarrow> int \<Rightarrow> turn_end_reason \<Rightarrow> work_state \<Rightarrow> work_state" where
  "work_turn_end e t r w =
     (let w1 = w\<lparr>wk_open := None\<rparr> in
      if t \<in> wk_stepped w1 then w1\<lparr>wk_stepped := wk_stepped w1 - {t}, wk_end := Some e, wk_dropped := False\<rparr>
      else let w2 = w1\<lparr>wk_claimed := wk_claimed w1 - {t}\<rparr> in
        if t \<in> wk_claimed w1 \<and> accounts_for_claim r then w2\<lparr>wk_end := Some e, wk_dropped := False\<rparr> else w2)"

definition work_step :: "session_event \<Rightarrow> work_state \<Rightarrow> work_state" where
  "work_step e w =
     (case ev_payload e of
        TurnStart t \<Rightarrow> w\<lparr>wk_open := Some t\<rparr>
      | StepStart t s \<Rightarrow> w\<lparr>wk_stepped := insert t (wk_stepped w)\<rparr>
      | InboxSpliced sp \<Rightarrow> work_splice sp w
      | TurnEnd t r \<Rightarrow> work_turn_end e t r w
      | _ \<Rightarrow> w)"

definition fold_consumed_work :: "session_event list \<Rightarrow> session_event option \<times> bool" where
  "fold_consumed_work events = (let w = fold work_step events start_work in (wk_end w, wk_dropped w))"

section \<open>Each turn in isolation\<close>

definition opens_turn :: "session_event \<Rightarrow> bool" where
  "opens_turn e \<longleftrightarrow> (case ev_payload e of TurnStart _ \<Rightarrow> True | _ \<Rightarrow> False)"

definition enters_step :: "session_event \<Rightarrow> bool" where
  "enters_step e \<longleftrightarrow> (case ev_payload e of StepStart _ _ \<Rightarrow> True | _ \<Rightarrow> False)"

definition claims_input :: "session_event \<Rightarrow> bool" where
  "claims_input e \<longleftrightarrow> (case ev_payload e of InboxSpliced sp \<Rightarrow> sp_removed sp \<noteq> None \<and> \<not> sp_canceled sp | _ \<Rightarrow> False)"

definition drops_work :: "session_event \<Rightarrow> bool" where
  "drops_work e \<longleftrightarrow>
     (case ev_payload e of InboxSpliced sp \<Rightarrow> sp_removed sp \<noteq> None \<and> sp_canceled sp \<and> sp_inserted sp = [] | _ \<Rightarrow> False)"

text \<open>The events since the last turn opened, latest first.\<close>

definition turn_so_far :: "session_event list \<Rightarrow> session_event list" where
  "turn_so_far es = takeWhile (\<lambda>e. \<not> opens_turn e) (rev es)"

text \<open>Whether an event ends a turn that entered a step, or that took input and then ended in a way
  that accounts for it.\<close>

definition accounts_after :: "session_event list \<Rightarrow> session_event \<Rightarrow> bool" where
  "accounts_after es e \<longleftrightarrow>
     (case ev_payload e of
        TurnEnd t r \<Rightarrow> (\<exists>x \<in> set (turn_so_far es). enters_step x)
          \<or> (\<exists>x \<in> set (turn_so_far es). claims_input x) \<and> accounts_for_claim r
      | _ \<Rightarrow> False)"

text \<open>Scanning the log from its end: the last accounting end, and whether anything was dropped
  after it.\<close>

fun account_rev :: "session_event list \<Rightarrow> session_event option \<times> bool" where
  "account_rev [] = (None, False)"
| "account_rev (e # before) =
     (if accounts_after (rev before) e then (Some e, False)
      else (fst (account_rev before), drops_work e \<or> snd (account_rev before)))"

definition work_account :: "session_event list \<Rightarrow> session_event option \<times> bool" where
  "work_account es = account_rev (rev es)"

lemma work_account_snoc:
  "work_account (es @ [e]) =
     (if accounts_after es e then (Some e, False) else (fst (work_account es), drops_work e \<or> snd (work_account es)))"
  by (simp add: work_account_def)

lemma turn_so_far_snoc: "turn_so_far (es @ [e]) = (if opens_turn e then [] else e # turn_so_far es)"
  by (simp add: turn_so_far_def)

text \<open>What the two sets say about the turn that is open, in a log the trace accepts.\<close>

definition work_ok :: "session_event list \<Rightarrow> session_trace \<Rightarrow> work_state \<Rightarrow> bool" where
  "work_ok es tr w \<longleftrightarrow> wk_open w = open_turn tr
     \<and> (\<forall>t \<in> wk_stepped w \<union> wk_claimed w. t < next_turn tr \<or> open_turn tr = Some t)
     \<and> (\<forall>t. open_turn tr = Some t \<longrightarrow>
          (t \<in> wk_stepped w \<longleftrightarrow> (\<exists>x \<in> set (turn_so_far es). enters_step x))
          \<and> (t \<in> wk_claimed w \<longleftrightarrow> (\<exists>x \<in> set (turn_so_far es). claims_input x)))
     \<and> wk_end w = fst (work_account es) \<and> wk_dropped w = snd (work_account es)"

lemmas work_defs = work_ok_def work_account_snoc turn_so_far_snoc opens_turn_def enters_step_def claims_input_def
  drops_work_def accounts_after_def

lemma work_ok_step:
  assumes ok: "work_ok es tr w" and inv: "trace_inv tr" and step: "trace_step e tr = Inr tr'"
  shows "work_ok (es @ [e]) tr' (work_step e w)"
proof (cases "ev_payload e")
  case (TurnStart t)
  with step inv have tr': "open_turn tr = None" "open_turn tr' = Some t" "next_turn tr' = next_turn tr" "t = next_turn tr"
    by (auto simp: validate_defs and_then_Inr_iff split: if_splits option.splits)
  with TurnStart ok show ?thesis by (auto simp: work_defs work_step_def)
next
  case (TurnEnd t r)
  with step inv have tr': "open_turn tr = Some t" "open_turn tr' = None" "next_turn tr' = next_turn tr + 1" "t = next_turn tr"
    by (auto simp: validate_defs trace_inv_def and_then_Inr_iff split: if_splits option.splits)
  have known: "\<forall>u \<in> wk_stepped w \<union> wk_claimed w. u < next_turn tr + 1"
  proof
    fix u assume "u \<in> wk_stepped w \<union> wk_claimed w"
    then have "u < next_turn tr \<or> open_turn tr = Some u" using ok unfolding work_ok_def by blast
    with tr'(1,4) show "u < next_turn tr + 1" by auto
  qed
  have acc: "accounts_after es e \<longleftrightarrow> t \<in> wk_stepped w \<or> t \<in> wk_claimed w \<and> accounts_for_claim r"
    using ok tr'(1) TurnEnd by (simp add: work_ok_def accounts_after_def)
  have old: "wk_end w = fst (work_account es)" "wk_dropped w = snd (work_account es)" using ok unfolding work_ok_def by blast+
  have drop: "\<not> drops_work e" using TurnEnd by (simp add: drops_work_def)
  have step: "work_step e w = work_turn_end e t r w" using TurnEnd by (simp add: work_step_def)
  have "wk_end (work_step e w) = fst (work_account (es @ [e])) \<and> wk_dropped (work_step e w) = snd (work_account (es @ [e]))"
    using acc old drop unfolding step work_account_snoc work_turn_end_def Let_def by simp
  moreover have "wk_open (work_step e w) = None" unfolding step work_turn_end_def Let_def by simp
  moreover have "wk_stepped (work_step e w) \<union> wk_claimed (work_step e w) \<subseteq> wk_stepped w \<union> wk_claimed w"
    unfolding step work_turn_end_def Let_def by auto
  ultimately show ?thesis using known tr'(2,3) unfolding work_ok_def by auto
next
  case (StepStart t s)
  with step have tr': "open_turn tr = Some t" "open_turn tr' = Some t" "next_turn tr' = next_turn tr"
    by (auto simp: validate_defs and_then_Inr_iff split: if_splits option.splits)
  with StepStart ok show ?thesis by (auto simp: work_defs work_step_def)
next
  case (InboxSpliced sp)
  with step have tr': "open_turn tr' = open_turn tr" "next_turn tr' = next_turn tr"
    by (auto simp: validate_defs and_then_Inr_iff)
  with InboxSpliced ok show ?thesis
    by (cases "open_turn tr") (auto simp: work_defs work_step_def work_splice_def)
qed (use step ok in \<open>auto simp: work_defs work_step_def validate_defs and_then_Inr_iff Let_def split: if_splits\<close>)

lemma work_ok_fold: "seed_session es = Inr tr \<Longrightarrow> work_ok es tr (fold work_step es start_work)"
proof (induction es arbitrary: tr rule: rev_induct)
  case Nil
  then show ?case by (auto simp: work_ok_def start_work_def fresh_trace_def work_account_def)
next
  case (snoc e es)
  then obtain tr0 where s: "seed_session es = Inr tr0" and step: "trace_step e tr0 = Inr tr"
    by (auto simp: seed_session_snoc and_then_Inr_iff)
  from work_ok_step [OF snoc.IH [OF s] seed_session_inv [OF s] step] show ?case by simp
qed

text \<open>
  The single pass accounts correctly for consumed work: on every log the trace
  accepts, its two sets of turn numbers give the same answer as looking at each turn in
  isolation. The reported end is the last turn that entered a step, or that took input and did
  not simply complete, and work counts as dropped exactly when a cancellation that put nothing
  back happened after that end.
\<close>

theorem consumed_work_exact:
  assumes "seed_session es = Inr tr"
  shows "fold_consumed_work es = work_account es"
  using work_ok_fold [OF assms] by (simp add: fold_consumed_work_def Let_def work_ok_def)

definition work_example :: "session_event list" where
  "work_example =
     [log_event (TurnStart 1) 0,
      log_event (InboxSpliced \<lparr>sp_target = NextTurn, sp_start = JInt 0, sp_removed = Some (JInt 1),
        sp_inserted = [], sp_canceled = False\<rparr>) 1,
      log_event (TurnEnd 1 Blocked) 2,
      log_event (InboxSpliced \<lparr>sp_target = NextTurn, sp_start = JInt 0, sp_removed = Some (JInt 1),
        sp_inserted = [], sp_canceled = True\<rparr>) 3]"

theorem consumed_work_exact_witness:
  "fold_consumed_work work_example = (Some (log_event (TurnEnd 1 Blocked) 2), True)"
proof -
  have "is_ok (seed_session work_example)" by code_simp
  then obtain tr where "seed_session work_example = Inr tr" by (auto simp: is_ok_iff)
  from consumed_work_exact [OF this] show ?thesis
    by (simp add: work_account_def work_example_def accounts_after_def turn_so_far_def log_event_def opens_turn_def
        enters_step_def claims_input_def drops_work_def)
qed

end
