(* ===== verification/Tool_Pairing.thy ===== *)
theory Tool_Pairing
  imports Session_Log
begin

text \<open>
  \<open>packages/compaction/compaction/src/tool-pairing.ts\<close>: where a session's surface may be cut
  without separating a tool call from its result. The balance of every cut is cached per
  session, extended as the surface grows, and rebuilt when a replacement rewrote it. The model
  keeps the cache, its partial updates and its errors; the specification counts calls and
  results from scratch.
\<close>

section \<open>The cache\<close>

record balance_cache =
  bc_generation :: nat
  bc_cuts :: "bool list"
  bc_index :: "(nat \<times> nat) list"
  bc_in_progress :: int

datatype pairing_error =
    CorruptSurface nat
  | UnmatchedResult nat
  | NotOnSurface nat
  | SurfaceUnreadable surface_error

definition event_delta :: "session_event \<Rightarrow> int" where
  "event_delta e =
     (case ev_payload e of
        AssistantMessageEvent d \<Rightarrow> int (length (filter is_tool_call (am_content (asst_message d))))
      | ToolResultEvent _ \<Rightarrow> -1
      | _ \<Rightarrow> 0)"

definition pair_step :: "session_event list \<Rightarrow> nat \<Rightarrow> bool list \<times> int \<Rightarrow> (pairing_error, bool list \<times> int) result" where
  "pair_step events seq acc =
     (let (cuts, n) = acc in
      case elem_at events seq of
        None \<Rightarrow> Inl (CorruptSurface seq)
      | Some e \<Rightarrow>
          if ev_seq e \<noteq> seq then Inl (CorruptSurface seq)
          else let n' = n + event_delta e in
            if n' < 0 then Inl (UnmatchedResult seq) else Inr (cuts @ [n' = 0], n'))"

definition index_tail :: "nat \<Rightarrow> nat list \<Rightarrow> (nat \<times> nat) list \<Rightarrow> (nat \<times> nat) list" where
  "index_tail processed tail m = fold (\<lambda>(offset, seq). omap_set seq (processed + offset)) (enumerate 0 tail) m"

definition extend_cache :: "session_event list \<Rightarrow> balance_cache \<Rightarrow> nat list \<Rightarrow> (pairing_error, balance_cache) result" where
  "extend_cache events c seqs =
     (let processed = length (bc_cuts c) - 1; tail = drop processed seqs in
      and_then (fold_result (pair_step events) tail ([], bc_in_progress c)) (\<lambda>(cuts, n).
        Inr (c\<lparr>bc_index := index_tail processed tail (bc_index c), bc_cuts := bc_cuts c @ cuts, bc_in_progress := n\<rparr>)))"

text \<open>Reading the surface and its generation brings the surface manager up to date.\<close>

definition read_surface :: "session \<Rightarrow> (surface_error, nat list \<times> nat) result \<times> session" where
  "read_surface s =
     (case manager_nodes (s_log s) (s_surface s) of
        (Inl err, m) \<Rightarrow> (Inl err, s\<lparr>s_surface := m\<rparr>)
      | (Inr ns, m) \<Rightarrow>
          (case manager_generation (s_log s) m of
             (Inl err, m') \<Rightarrow> (Inl err, s\<lparr>s_surface := m'\<rparr>)
           | (Inr g, m') \<Rightarrow> (Inr (ns, g), s\<lparr>s_surface := m'\<rparr>)))"

definition empty_balance :: "nat \<Rightarrow> balance_cache" where
  "empty_balance g = \<lparr>bc_generation = g, bc_cuts = [True], bc_index = [], bc_in_progress = 0\<rparr>"

text \<open>\<open>balanceCache\<close>: rebuild, extend, or use as it is. The last component is what the weak map
  holds for the session afterwards.\<close>

definition balance_cache_for ::
    "session \<Rightarrow> balance_cache option \<Rightarrow> (pairing_error, balance_cache) result \<times> session \<times> balance_cache option" where
  "balance_cache_for s held =
     (case read_surface s of
        (Inl err, s') \<Rightarrow> (Inl (SurfaceUnreadable err), s', held)
      | (Inr (seqs, g), s') \<Rightarrow>
          let stale = (case held of None \<Rightarrow> True
                       | Some c \<Rightarrow> bc_generation c \<noteq> g \<or> length (bc_cuts c) - 1 > length seqs);
              start = (case held of Some c \<Rightarrow> if stale then empty_balance g else c | None \<Rightarrow> empty_balance g)
          in if stale \<or> length (bc_cuts start) - 1 < length seqs
             then (case extend_cache (s_log s') start seqs of
                     Inl err \<Rightarrow> (Inl err, s', held)
                   | Inr c \<Rightarrow> (Inr c, s', Some c))
             else (Inr start, s', held))"

definition cut_balance :: "balance_cache \<Rightarrow> nat \<Rightarrow> nat \<Rightarrow> (pairing_error, bool) result" where
  "cut_balance c seq offset =
     (case map_of (bc_index c) seq of
        None \<Rightarrow> Inl (NotOnSurface seq)
      | Some i \<Rightarrow> (case elem_at (bc_cuts c) (i + offset) of None \<Rightarrow> Inl (NotOnSurface seq) | Some b \<Rightarrow> Inr b))"

definition balanced_at ::
    "nat \<Rightarrow> nat \<Rightarrow> session \<Rightarrow> balance_cache option \<Rightarrow> (pairing_error, bool) result \<times> session \<times> balance_cache option" where
  "balanced_at offset seq s held =
     (case balance_cache_for s held of
        (Inl err, s', held') \<Rightarrow> (Inl err, s', held')
      | (Inr c, s', held') \<Rightarrow> (cut_balance c seq offset, s', held'))"

definition tool_pairing_balanced_before where
  "tool_pairing_balanced_before = balanced_at 0"

definition tool_pairing_balanced_after where
  "tool_pairing_balanced_after = balanced_at 1"

section \<open>Counting from scratch\<close>

definition in_progress :: "session_event list \<Rightarrow> nat list \<Rightarrow> nat \<Rightarrow> int" where
  "in_progress events ns i = (\<Sum>n\<leftarrow>take i ns. event_delta (events ! n))"

definition scan_pairs :: "session_event list \<Rightarrow> nat list \<Rightarrow> (pairing_error, bool list \<times> int) result" where
  "scan_pairs events ns = fold_result (pair_step events) ns ([True], 0)"

lemma in_progress_0 [simp]: "in_progress events ns 0 = 0"
  by (simp add: in_progress_def)

lemma in_progress_snoc: "i \<le> length ns \<Longrightarrow> in_progress events (ns @ [n]) i = in_progress events ns i"
  by (simp add: in_progress_def)

lemma in_progress_all_snoc:
  "in_progress events (ns @ [n]) (Suc (length ns)) = in_progress events ns (length ns) + event_delta (events ! n)"
  by (simp add: in_progress_def)

text \<open>Nodes that name their own events.\<close>

definition named :: "session_event list \<Rightarrow> nat list \<Rightarrow> bool" where
  "named events ns \<longleftrightarrow> (\<forall>n \<in> set ns. n < length events \<and> ev_seq (events ! n) = n)"

lemma pair_step_named:
  "n < length events \<Longrightarrow> ev_seq (events ! n) = n \<Longrightarrow>
     pair_step events n (cuts, m) =
       (let m' = m + event_delta (events ! n) in
        if m' < 0 then Inl (UnmatchedResult n) else Inr (cuts @ [m' = 0], m'))"
  by (simp add: pair_step_def elem_at_def Let_def)

lemma scan_pairs_exact:
  "named events ns \<Longrightarrow>
     (if \<exists>i \<le> length ns. in_progress events ns i < 0 then \<exists>n \<in> set ns. scan_pairs events ns = Inl (UnmatchedResult n)
      else scan_pairs events ns
        = Inr (map (\<lambda>i. in_progress events ns i = 0) [0..<Suc (length ns)], in_progress events ns (length ns)))"
proof (induction ns rule: rev_induct)
  case Nil
  then show ?case by (simp add: scan_pairs_def)
next
  case (snoc n ns)
  then have n: "n < length events" "ev_seq (events ! n) = n" and IH: "named events ns" by (auto simp: named_def)
  have split: "(\<exists>i \<le> length (ns @ [n]). in_progress events (ns @ [n]) i < 0) \<longleftrightarrow>
      (\<exists>i \<le> length ns. in_progress events ns i < 0) \<or> in_progress events ns (length ns) + event_delta (events ! n) < 0"
    by (auto simp: le_Suc_eq in_progress_all_snoc in_progress_snoc)
  have scan: "scan_pairs events (ns @ [n]) = and_then (scan_pairs events ns) (pair_step events n)"
    by (simp add: scan_pairs_def fold_result_snoc)
  show ?case
  proof (cases "\<exists>i \<le> length ns. in_progress events ns i < 0")
    case True
    with snoc.IH [OF IH] obtain m where "m \<in> set ns" "scan_pairs events ns = Inl (UnmatchedResult m)" by auto
    with True show ?thesis unfolding scan split by auto
  next
    case False
    with snoc.IH [OF IH] have "scan_pairs events ns
        = Inr (map (\<lambda>i. in_progress events ns i = 0) [0..<Suc (length ns)], in_progress events ns (length ns))" by auto
    with False show ?thesis unfolding scan split
      by (auto simp: pair_step_named [OF n] Let_def in_progress_all_snoc in_progress_snoc simp del: upt_Suc
          simp add: upt_Suc [of 0 "Suc (length ns)"])
  qed
qed

text \<open>The answer without a cache.\<close>

definition balance_spec :: "session_event list \<Rightarrow> nat list \<Rightarrow> nat \<Rightarrow> nat \<Rightarrow> (pairing_error, bool) result" where
  "balance_spec events ns seq offset =
     and_then (scan_pairs events ns) (\<lambda>_.
       case index_of seq ns of
         None \<Rightarrow> Inl (NotOnSurface seq)
       | Some i \<Rightarrow> Inr (in_progress events ns (i + offset) = 0))"

section \<open>The cache is always the scan of the surface it describes\<close>

lemma map_of_index_tail:
  "distinct tail \<Longrightarrow> map_of (index_tail k tail m) seq =
     (case index_of seq tail of Some i \<Rightarrow> Some (k + i) | None \<Rightarrow> map_of m seq)"
proof (induction tail arbitrary: seq rule: rev_induct)
  case Nil
  then show ?case by (simp add: index_tail_def)
next
  case (snoc x xs)
  have tail: "index_tail k (xs @ [x]) m = omap_set x (k + length xs) (index_tail k xs m)"
    by (simp add: index_tail_def enumerate_append_eq)
  have idx: "index_of seq (xs @ [x]) = (case index_of seq xs of Some i \<Rightarrow> Some i
      | None \<Rightarrow> if seq = x then Some (length xs) else None)"
    by (induction xs) (auto split: option.splits)
  have "index_of x xs = None" using snoc.prems by (simp add: index_of_None_iff)
  with snoc show ?case unfolding tail idx by (auto split: option.splits)
qed

definition balance_ok :: "session_event list \<Rightarrow> nat list \<Rightarrow> balance_cache \<Rightarrow> bool" where
  "balance_ok events ns c \<longleftrightarrow> scan_pairs events ns = Inr (bc_cuts c, bc_in_progress c)
     \<and> (\<forall>seq. map_of (bc_index c) seq = index_of seq ns)"

lemma scan_pairs_length: "scan_pairs events ns = Inr (cuts, n) \<Longrightarrow> length cuts = Suc (length ns)"
proof (induction ns arbitrary: cuts n rule: rev_induct)
  case Nil
  then show ?case by (auto simp: scan_pairs_def)
next
  case (snoc x xs)
  then show ?case
    by (auto simp: scan_pairs_def fold_result_snoc and_then_Inr_iff pair_step_def Let_def split: option.splits if_splits)
qed

lemma balance_ok_empty: "balance_ok events [] (empty_balance g)" "bc_generation (empty_balance g) = g"
  by (simp_all add: balance_ok_def scan_pairs_def empty_balance_def)

text \<open>The pending cuts are collected apart and appended at the end.\<close>

lemma pair_fold_prefix:
  "fold_result (pair_step events) tail (pre @ cuts, n) =
     and_then (fold_result (pair_step events) tail (cuts, n)) (\<lambda>(cs, m). Inr (pre @ cs, m))"
proof (induction tail arbitrary: cuts n)
  case Nil
  then show ?case by simp
next
  case (Cons x tail)
  have step: "pair_step events x (pre @ cuts, n) = and_then (pair_step events x (cuts, n)) (\<lambda>(cs, m). Inr (pre @ cs, m))"
    by (auto simp: pair_step_def Let_def split: option.split)
  show ?case unfolding fold_result.simps step
    by (cases "pair_step events x (cuts, n)") (auto simp: Cons.IH)
qed

lemma extend_cache_exact:
  assumes "balance_ok events ns c" and "distinct (ns @ tail)"
  shows "case extend_cache events c (ns @ tail) of
      Inl err \<Rightarrow> scan_pairs events (ns @ tail) = Inl err
    | Inr c' \<Rightarrow> balance_ok events (ns @ tail) c' \<and> bc_generation c' = bc_generation c"
proof -
  have scan: "scan_pairs events ns = Inr (bc_cuts c, bc_in_progress c)" and len: "length (bc_cuts c) - 1 = length ns"
    using assms(1) scan_pairs_length by (auto simp: balance_ok_def)
  have whole: "scan_pairs events (ns @ tail) =
      and_then (fold_result (pair_step events) tail ([], bc_in_progress c)) (\<lambda>(cs, m). Inr (bc_cuts c @ cs, m))"
    using scan pair_fold_prefix [of events tail "bc_cuts c" "[]" "bc_in_progress c"]
    by (simp add: scan_pairs_def fold_result_append)
  have idx: "map_of (index_tail (length ns) tail (bc_index c)) seq = index_of seq (ns @ tail)" for seq
  proof -
    have app: "index_of seq (ns @ tail) = (case index_of seq ns of Some i \<Rightarrow> Some i
        | None \<Rightarrow> map_option ((+) (length ns)) (index_of seq tail))"
      by (cases "index_of seq tail"; induction ns) (auto split: option.splits)
    have "index_of seq ns = None \<or> index_of seq tail = None"
      using assms(2) by (auto simp: index_of_None_iff)
    with assms show ?thesis unfolding app
      by (auto simp: map_of_index_tail balance_ok_def split: option.splits)
  qed
  show ?thesis
    unfolding extend_cache_def Let_def len whole
    by (cases "fold_result (pair_step events) tail ([], bc_in_progress c)")
      (auto simp: balance_ok_def idx whole)
qed

text \<open>Appending to the log leaves the scan of existing nodes alone.\<close>

lemma scan_pairs_extend: "\<forall>n \<in> set ns. n < length events \<Longrightarrow> scan_pairs (events @ fs) ns = scan_pairs events ns"
  unfolding scan_pairs_def
  by (rule fold_result_cong) (auto simp: pair_step_def elem_at_append split: option.split)

text \<open>The held cache describes the surface of some prefix of the log.\<close>

definition held_ok :: "session \<Rightarrow> balance_cache option \<Rightarrow> bool" where
  "held_ok s held \<longleftrightarrow>
     (\<forall>c. held = Some c \<longrightarrow> (\<exists>k st reps. k \<le> length (s_log s) \<and> fold_window 0 (take k (s_log s)) = Inr (st, reps)
        \<and> balance_ok (s_log s) (nodes st) c \<and> bc_generation c = replace_generation st))"

lemma held_ok_grow:
  assumes "held_ok s held" and "s_log s' = s_log s @ fs"
  shows "held_ok s' held"
  unfolding held_ok_def
proof (intro allI impI)
  fix c assume "held = Some c"
  with assms(1) obtain k st reps where k: "k \<le> length (s_log s)" "fold_window 0 (take k (s_log s)) = Inr (st, reps)"
    "balance_ok (s_log s) (nodes st) c" "bc_generation c = replace_generation st" by (auto simp: held_ok_def)
  have "\<forall>n \<in> set (nodes st). n < length (s_log s)"
    using fold_window_nodes_within [OF k(2)] k(1) by (auto simp: nodes_within_def)
  then have "balance_ok (s_log s') (nodes st) c"
    using k(3) by (simp add: balance_ok_def assms(2) scan_pairs_extend)
  with k assms(2) show "\<exists>k st reps. k \<le> length (s_log s') \<and> fold_window 0 (take k (s_log s')) = Inr (st, reps)
        \<and> balance_ok (s_log s') (nodes st) c \<and> bc_generation c = replace_generation st"
    by (intro exI [of _ k] exI [of _ st] exI [of _ reps]) simp
qed

lemma read_surface_spec:
  assumes "session_inv s"
  obtains st reps s' where "read_surface s = (Inr (nodes st, replace_generation st), s')"
    "fold_window 0 (s_log s) = Inr (st, reps)" "session_inv s'" "s_log s' = s_log s"
proof -
  from assms obtain k0 where m: "manager_inv 0 (s_log s) k0 (s_surface s)" by (auto simp: session_inv_def)
  from assms obtain st reps where f: "fold_window 0 (s_log s) = Inr (st, reps)"
    by (auto simp: session_inv_def is_ok_iff)
  from m obtain m1 where m1: "sync (s_log s) (s_surface s) = (Inr (), m1)"
    "manager_inv 0 (s_log s) (length (s_log s)) m1" "sm_state m1 = st"
    using f by (cases rule: sync_cases) auto
  from m1(2) obtain m2 where m2: "sync (s_log s) m1 = (Inr (), m2)"
    "manager_inv 0 (s_log s) (length (s_log s)) m2" "sm_state m2 = st"
    using f by (cases rule: sync_cases) auto
  have "session_inv (s\<lparr>s_surface := m2\<rparr>)" using m2(2) by (intro surface_change_inv [OF assms]) blast
  with f m1 m2 show ?thesis
    by (intro that [of st "s\<lparr>s_surface := m2\<rparr>" reps]) (simp_all add: read_surface_def manager_nodes_def manager_generation_def)
qed

lemma balance_cache_for_spec:
  assumes inv: "session_inv s" and held: "held_ok s held"
  obtains st reps r s' held' where "balance_cache_for s held = (r, s', held')"
    "fold_window 0 (s_log s) = Inr (st, reps)" "session_inv s'" "s_log s' = s_log s" "held_ok s' held'"
    "case r of Inl err \<Rightarrow> scan_pairs (s_log s) (nodes st) = Inl err | Inr c \<Rightarrow> balance_ok (s_log s) (nodes st) c"
proof -
  from read_surface_spec [OF inv] obtain st reps s' where rd: "read_surface s = (Inr (nodes st, replace_generation st), s')"
    and f: "fold_window 0 (s_log s) = Inr (st, reps)" and s': "session_inv s'" "s_log s' = s_log s" by blast
  have dist: "distinct (nodes st)" using fold_window_nodes_within [OF f] by (simp add: nodes_within_def)
  define g where "g = replace_generation st"
  define stale where "stale = (case held of None \<Rightarrow> True
       | Some c \<Rightarrow> bc_generation c \<noteq> g \<or> length (bc_cuts c) - 1 > length (nodes st))"
  define start where "start = (case held of Some c \<Rightarrow> if stale then empty_balance g else c | None \<Rightarrow> empty_balance g)"
  have fresh: "\<exists>ns tail. nodes st = ns @ tail \<and> balance_ok (s_log s) ns start \<and> bc_generation start = g"
  proof (cases stale)
    case True
    then have "start = empty_balance g" by (simp add: start_def split: option.split)
    then show ?thesis
      by (intro exI [of _ "[]"] exI [of _ "nodes st"]) (simp add: balance_ok_empty)
  next
    case False
    then obtain c where c: "held = Some c" "bc_generation c = g" "start = c"
      by (cases held) (auto simp: stale_def start_def)
    with held obtain k st0 reps0 where k: "k \<le> length (s_log s)" "fold_window 0 (take k (s_log s)) = Inr (st0, reps0)"
      "balance_ok (s_log s) (nodes st0) c" "bc_generation c = replace_generation st0" by (auto simp: held_ok_def)
    have "fold_window 0 (take k (s_log s) @ drop k (s_log s)) = Inr (st, reps)" using f by simp
    from fold_window_grows [OF k(2) this] k(4) c(2) obtain ns where "nodes st = nodes st0 @ ns" by (auto simp: g_def)
    with k(3) c show ?thesis by blast
  qed
  then obtain ns tail where ns: "nodes st = ns @ tail" "balance_ok (s_log s) ns start" "bc_generation start = g" by blast
  have len: "length (bc_cuts start) = Suc (length ns)" using ns(2) scan_pairs_length by (auto simp: balance_ok_def)
  have now: "held_ok s' (Some c)" if "balance_ok (s_log s) (nodes st) c" "bc_generation c = g" for c
    unfolding held_ok_def using that f s' g_def
    by (auto intro!: exI [of _ "length (s_log s)"] exI [of _ st] exI [of _ reps])
  have old: "held_ok s' held" using held_ok_grow [OF held, of s' "[]"] s' by simp
  have eq: "balance_cache_for s held =
      (if stale \<or> length (bc_cuts start) - 1 < length (nodes st)
       then (case extend_cache (s_log s) start (nodes st) of
               Inl err \<Rightarrow> (Inl err, s', held) | Inr c \<Rightarrow> (Inr c, s', Some c))
       else (Inr start, s', held))"
    by (simp only: balance_cache_for_def rd prod.case sum.case Let_def s'(2) stale_def start_def g_def)
  note ext = extend_cache_exact [OF ns(2), of tail, folded ns(1), OF dist]
  show ?thesis
  proof (cases "stale \<or> length (bc_cuts start) - 1 < length (nodes st)")
    case True
    show ?thesis
    proof (cases "extend_cache (s_log s) start (nodes st)")
      case (Inl err)
      with True eq ext f s' old show ?thesis by (intro that [of "Inl err" s' held st reps]) simp_all
    next
      case (Inr c)
      with True eq ext f s' now ns(3) show ?thesis by (intro that [of "Inr c" s' "Some c" st reps]) simp_all
    qed
  next
    case False
    then have "tail = []" using len ns(1) by simp
    with False eq ns f s' old show ?thesis by (intro that [of "Inr start" s' held st reps]) simp_all
  qed
qed

lemma fold_window_named: "fold_window 0 events = Inr (st, reps) \<Longrightarrow> named events (nodes st)"
  using fold_window_nodes_within fold_window_seqs by (fastforce simp: named_def nodes_within_def)

lemma balanced_at_state: "snd (balanced_at offset seq s held) = snd (balance_cache_for s held)"
  by (auto simp: balanced_at_def split: prod.split sum.split)

text \<open>One query: the answer of counting from scratch, and the session and the cache stay consistent.\<close>

lemma balanced_at_spec:
  assumes inv: "session_inv s" "held_ok s held" and offset: "offset \<le> 1"
  obtains st reps s' held' where
    "balanced_at offset seq s held = (balance_spec (s_log s) (nodes st) seq offset, s', held')"
    "fold_window 0 (s_log s) = Inr (st, reps)" "session_inv s'" "s_log s' = s_log s" "held_ok s' held'"
proof -
  obtain st reps r s' held' where
    b: "balance_cache_for s held = (r, s', held')" and f: "fold_window 0 (s_log s) = Inr (st, reps)"
    and keep: "session_inv s'" "s_log s' = s_log s" "held_ok s' held'"
    and r: "case r of Inl err \<Rightarrow> scan_pairs (s_log s) (nodes st) = Inl err | Inr c \<Rightarrow> balance_ok (s_log s) (nodes st) c"
    by (rule balance_cache_for_spec [OF inv]) (rule that)
  note scan = scan_pairs_exact [OF fold_window_named [OF f]]
  have "fst (balanced_at offset seq s held) = balance_spec (s_log s) (nodes st) seq offset"
  proof (cases r)
    case (Inl err)
    with r b show ?thesis by (simp add: balanced_at_def balance_spec_def)
  next
    case (Inr c)
    with r have ok: "balance_ok (s_log s) (nodes st) c" by simp
    then have sc: "scan_pairs (s_log s) (nodes st) = Inr (bc_cuts c, bc_in_progress c)" by (simp add: balance_ok_def)
    with scan have cuts: "bc_cuts c = map (\<lambda>i. in_progress (s_log s) (nodes st) i = 0) [0..<Suc (length (nodes st))]"
      by (auto split: if_splits)
    have elem: "elem_at (bc_cuts c) (i + offset) = Some (in_progress (s_log s) (nodes st) (i + offset) = 0)"
      if "i < length (nodes st)" for i
      using that offset unfolding cuts by (simp add: elem_at_def del: upt_Suc)
    have cut: "cut_balance c seq offset = (case index_of seq (nodes st) of
         None \<Rightarrow> Inl (NotOnSurface seq) | Some i \<Rightarrow> Inr (in_progress (s_log s) (nodes st) (i + offset) = 0))"
    proof (cases "index_of seq (nodes st)")
      case (Some i)
      moreover from this have "i < length (nodes st)" by (simp add: index_of_Some_iff)
      ultimately show ?thesis using ok elem by (simp add: cut_balance_def balance_ok_def)
    qed (use ok in \<open>simp add: cut_balance_def balance_ok_def\<close>)
    have "fst (balanced_at offset seq s held) = cut_balance c seq offset" using b Inr by (simp add: balanced_at_def)
    then show ?thesis unfolding cut balance_spec_def sc by simp
  qed
  moreover have "snd (balanced_at offset seq s held) = (s', held')" using balanced_at_state [of offset seq s held] b by simp
  ultimately show ?thesis using f keep by (intro that [of st s' held' reps]) (simp_all add: prod_eq_iff)
qed

lemma balance_spec_answers:
  assumes "named events ns" and "seq \<in> set ns" and "\<forall>i \<le> length ns. 0 \<le> in_progress events ns i"
  shows "\<exists>i < length ns. ns ! i = seq \<and> balance_spec events ns seq offset = Inr (in_progress events ns (i + offset) = 0)"
proof -
  from assms(2) obtain i where i: "index_of seq ns = Some i"
    by (cases "index_of seq ns") (simp_all add: index_of_None_iff)
  moreover have "is_ok (scan_pairs events ns)"
    using scan_pairs_exact [OF assms(1)] assms(3) by (auto simp: not_less split: if_splits)
  ultimately have "balance_spec events ns seq offset = Inr (in_progress events ns (i + offset) = 0)"
    by (auto simp: balance_spec_def is_ok_iff)
  with i show ?thesis by (auto simp: index_of_Some_iff)
qed

section \<open>Queries between any other work on the session\<close>

inductive pairing_run :: "session \<Rightarrow> balance_cache option \<Rightarrow> bool" where
  start: "session_reach s \<Longrightarrow> pairing_run s None"
| append: "pairing_run s held \<Longrightarrow> pairing_run (snd (session_append now p op sources s)) held"
| query: "pairing_run s held \<Longrightarrow> balanced_at offset seq s held = (r, s', held') \<Longrightarrow> pairing_run s' held'"

lemma pairing_run_inv: "pairing_run s held \<Longrightarrow> session_inv s \<and> held_ok s held"
proof (induction rule: pairing_run.induct)
  case (start s)
  then show ?case by (simp add: session_reach_inv held_ok_def)
next
  case (append s held now p op sources)
  obtain r s' where a: "session_append now p op sources s = (r, s')" by (cases "session_append now p op sources s")
  have inv: "session_inv s" using append by simp
  have "\<exists>fs. s_log s' = s_log s @ fs" using session_append_log [OF inv a] by (cases r) auto
  then have "held_ok s' held" using held_ok_grow append by blast
  with session_append_inv [OF inv, of now p op sources] a show ?case by simp
next
  case (query s held offset seq r s' held')
  then have inv: "session_inv s" "held_ok s held" by auto
  have "snd (balance_cache_for s held) = (s', held')"
    using query(2) balanced_at_state [of offset seq s held] by simp
  then show ?case by (rule_tac balance_cache_for_spec [OF inv]) simp
qed

text \<open>
  Claim C12. The cache is invisible: however appends, replacements and earlier queries (failed
  ones included) interleave, the answer about a cut is the one obtained by counting calls and
  results over the current surface from the start, and so are the errors. In particular a node
  on a well-paired surface gets an answer, and it is whether as many calls as results precede
  the cut.
\<close>

theorem tool_pairing_cache_transparent:
  assumes "pairing_run s held" and "offset \<le> 1"
  shows "\<exists>st reps. fold_window 0 (s_log s) = Inr (st, reps)
    \<and> fst (balanced_at offset seq s held) = balance_spec (s_log s) (nodes st) seq offset
    \<and> (seq \<in> set (nodes st) \<and> (\<forall>i \<le> length (nodes st). 0 \<le> in_progress (s_log s) (nodes st) i) \<longrightarrow>
         (\<exists>i < length (nodes st). nodes st ! i = seq
            \<and> fst (balanced_at offset seq s held) = Inr (in_progress (s_log s) (nodes st) (i + offset) = 0)))"
proof -
  have inv: "session_inv s" "held_ok s held" using pairing_run_inv [OF assms(1)] by auto
  from balanced_at_spec [OF this assms(2), of seq] obtain st reps where
    "fold_window 0 (s_log s) = Inr (st, reps)" "fst (balanced_at offset seq s held) = balance_spec (s_log s) (nodes st) seq offset"
    by (metis fst_conv)
  with balance_spec_answers [OF fold_window_named, of "s_log s" st reps seq offset] show ?thesis by auto
qed

theorem tool_pairing_cache_transparent_witness:
  "\<exists>s. session_reach s \<and> fst (tool_pairing_balanced_after 0 s None) = Inr True"
proof -
  obtain s where s: "construct_session 5 ''s'' (Some example_seed) None SnapshotSeed None = Inr s"
    using example_constructs by blast
  have "is_ok (and_then (construct_session 5 ''s'' (Some example_seed) None SnapshotSeed None) (\<lambda>s.
     reject_if (and_then (rethrow SurfaceUnreadable (fold_window 0 (s_log s))) (\<lambda>(st, _). balance_spec (s_log s) (nodes st) 0 1) \<noteq> Inr True)
       SeededWithoutSeed))"
    by code_simp
  with s have n: "and_then (rethrow SurfaceUnreadable (fold_window 0 (s_log s))) (\<lambda>(st, _). balance_spec (s_log s) (nodes st) 0 1) = Inr True"
    by (simp add: is_ok_iff)
  have reach: "session_reach s" by (rule session_reach.construct [OF s])
  from tool_pairing_cache_transparent [OF pairing_run.start [OF reach], of 1 0] n
  have "fst (balanced_at 1 0 s None) = Inr True" by auto
  with reach show ?thesis unfolding tool_pairing_balanced_after_def by blast
qed

end
