(* ===== verification/Compaction_Trace.thy ===== *)
theory Compaction_Trace
  imports Session_Log
begin

text \<open>
  \<open>packages/compaction/compaction/src/invariant.ts\<close> and \<open>checkpoint.ts\<close>: the bracket
  discipline of compaction events. A trace per session remembers the open turn, the open
  compaction and its own surface of the committed events. Validation happens at dispatch and
  does not advance the trace (it may bring the surface manager up to date); the staged
  transition is applied at commit. A new companion replays the session's log.
\<close>

section \<open>State\<close>

record open_compaction =
  oc_id :: string
  oc_command :: "string option"
  oc_start :: nat
  oc_turn :: "int option"
  oc_summarized :: bool

record compaction_trace =
  ct_turn :: "int option"
  ct_open :: "open_compaction option"
  ct_events :: "session_event list"
  ct_surface :: surface_manager

datatype compaction_transition =
    StartCompaction string "string option" nat "int option"
  | SummarizeCompaction string "string option" nat "int option"
  | EndCompaction
  | EndSeedCompaction

datatype compaction_error =
    EmptyId string
  | BadSeq string
  | EmptyShadow
  | ShadowEnds
  | NotASurfaceSpan
  | IncompleteSpan
  | TraceSurface surface_error
  | CommandMismatch string
  | NoOpenCompaction string
  | IdMismatch string
  | CrossesCompaction
  | OwnerMismatch string
  | StillCompacting
  | RepeatedSummary
  | BadTokenCount
  | EndOwnerMismatch
  | MissingSummary
  | NotPrevalidated

section \<open>Field checks\<close>

definition validate_id :: "string \<Rightarrow> json option \<Rightarrow> (compaction_error, unit) result" where
  "validate_id label v = (case v of Some (JStr s) \<Rightarrow> reject_if (s = []) (EmptyId label) | _ \<Rightarrow> Inl (EmptyId label))"

definition validate_opt_id :: "string \<Rightarrow> string option \<Rightarrow> (compaction_error, unit) result" where
  "validate_opt_id label v = (case v of None \<Rightarrow> Inr () | Some s \<Rightarrow> validate_id label (Some (JStr s)))"

definition validate_seq :: "string \<Rightarrow> jnum \<Rightarrow> (compaction_error, nat) result" where
  "validate_seq label v = rethrow (\<lambda>_. BadSeq label) (session_seq v)"

fun validate_seqs :: "jnum list \<Rightarrow> (compaction_error, nat list) result" where
  "validate_seqs [] = Inr []"
| "validate_seqs (v # vs) =
     and_then (validate_seq ''shadowedSeqs'' v) (\<lambda>n. and_then (validate_seqs vs) (\<lambda>ns. Inr (n # ns)))"

definition span_matches :: "nat list \<Rightarrow> nat \<Rightarrow> nat \<Rightarrow> nat list \<Rightarrow> (compaction_error, unit) result" where
  "span_matches surface start end seqs =
     (case (index_of start surface, index_of end surface) of
        (Some i, Some j) \<Rightarrow>
          if j < i then Inl NotASurfaceSpan
          else reject_if (slice i (j + 1) surface \<noteq> seqs) IncompleteSpan
      | _ \<Rightarrow> Inl NotASurfaceSpan)"

definition validate_shadowed :: "compaction_trace \<Rightarrow> shadowed_span \<Rightarrow> (compaction_error, unit) result \<times> compaction_trace" where
  "validate_shadowed tr sp =
     (case and_then (validate_seq ''shadowedRange.start'' (span_start sp)) (\<lambda>start.
             and_then (validate_seq ''shadowedRange.end'' (span_end sp)) (\<lambda>end.
               and_then (validate_seqs (span_seqs sp)) (\<lambda>seqs.
                 and_then (reject_if (seqs = []) EmptyShadow) (\<lambda>_.
                   and_then (reject_if (hd seqs \<noteq> start \<or> last seqs \<noteq> end) ShadowEnds) (\<lambda>_.
                     Inr (start, end, seqs)))))) of
        Inl err \<Rightarrow> (Inl err, tr)
      | Inr (start, end, seqs) \<Rightarrow>
          (case manager_nodes (ct_events tr) (ct_surface tr) of
             (Inl err, m) \<Rightarrow> (Inl (TraceSurface err), tr\<lparr>ct_surface := m\<rparr>)
           | (Inr ns, m) \<Rightarrow> (span_matches ns start end seqs, tr\<lparr>ct_surface := m\<rparr>)))"

definition validate_source_command :: "string \<Rightarrow> string option \<Rightarrow> string option \<Rightarrow> (compaction_error, unit) result" where
  "validate_source_command label v expected =
     and_then (validate_opt_id label v) (\<lambda>_. reject_if (v \<noteq> expected) (CommandMismatch label))"

definition validate_owner :: "string \<Rightarrow> int option \<Rightarrow> int option \<Rightarrow> (compaction_error, unit) result" where
  "validate_owner label owner turn =
     (case owner of
        None \<Rightarrow> reject_if (turn \<noteq> None) (OwnerMismatch label)
      | Some t \<Rightarrow> reject_if (turn \<noteq> Some t) (OwnerMismatch label))"

section \<open>Checkpoints\<close>

definition is_compact_checkpoint_source :: "message_source \<Rightarrow> bool" where
  "is_compact_checkpoint_source src \<longleftrightarrow> (case src of PluginSource p _ \<Rightarrow> p = ''compact'' | _ \<Rightarrow> False)"

definition compact_checkpoint_source :: "string \<Rightarrow> string option \<Rightarrow> message_source" where
  "compact_checkpoint_source cid cmd =
     PluginSource ''compact'' ((''compactionId'', JStr cid) # opt_field ''sourceCommandId'' (map_option JStr cmd))"

definition source_fields :: "message_source \<Rightarrow> (string \<times> json) list" where
  "source_fields src = (case src of PluginSource _ fs \<Rightarrow> fs | _ \<Rightarrow> [])"

definition validate_checkpoint :: "compaction_trace \<Rightarrow> user_message \<Rightarrow> (compaction_error, unit) result" where
  "validate_checkpoint tr m =
     (let fs = source_fields (um_source m); cid = map_of fs ''compactionId''; cmd = map_of fs ''sourceCommandId'' in
      and_then (validate_id ''compactionId'' cid) (\<lambda>_.
      and_then (case cmd of None \<Rightarrow> Inr () | Some _ \<Rightarrow> validate_id ''sourceCommandId'' cmd) (\<lambda>_.
        case ct_open tr of
          None \<Rightarrow> Inl (NoOpenCompaction ''checkpoint'')
        | Some c \<Rightarrow>
            and_then (reject_if (cid \<noteq> Some (JStr (oc_id c))) (IdMismatch ''checkpoint'')) (\<lambda>_.
              reject_if (cmd \<noteq> map_option JStr (oc_command c)) (CommandMismatch ''checkpoint'')))))"

section \<open>Brackets and turns\<close>

fun orphan_loop :: "session_event list \<Rightarrow> nat option \<Rightarrow> nat set \<Rightarrow> nat set" where
  "orphan_loop [] op stale = stale"
| "orphan_loop (e # es) op stale =
     (case ev_payload e of
        CompactionStart _ \<Rightarrow> orphan_loop es (Some (ev_seq e)) stale
      | CompactionEnd _ \<Rightarrow> orphan_loop es None stale
      | EndSeed \<Rightarrow> orphan_loop es None (case op of None \<Rightarrow> stale | Some s \<Rightarrow> insert s stale)
      | _ \<Rightarrow> orphan_loop es op stale)"

definition inherited_orphan_start_seqs :: "session_event list \<Rightarrow> nat set" where
  "inherited_orphan_start_seqs es = orphan_loop es None {}"

definition turn_boundary :: "session_event \<Rightarrow> bool" where
  "turn_boundary e \<longleftrightarrow> (case ev_payload e of TurnStart _ \<Rightarrow> True | TurnEnd _ _ \<Rightarrow> True | _ \<Rightarrow> False)"

definition validate_turn_boundary :: "compaction_trace \<Rightarrow> session_event \<Rightarrow> (compaction_error, unit) result" where
  "validate_turn_boundary tr e = reject_if (turn_boundary e \<and> ct_open tr \<noteq> None) CrossesCompaction"

definition apply_turn_boundary :: "compaction_trace \<Rightarrow> session_event \<Rightarrow> compaction_trace" where
  "apply_turn_boundary tr e =
     (case ev_payload e of
        TurnStart t \<Rightarrow> tr\<lparr>ct_turn := Some t\<rparr>
      | TurnEnd t _ \<Rightarrow> tr\<lparr>ct_turn := None\<rparr>
      | _ \<Rightarrow> tr)"

definition validate_start :: "compaction_trace \<Rightarrow> session_event \<Rightarrow> compaction_start \<Rightarrow> (compaction_error, compaction_transition) result" where
  "validate_start tr e d =
     and_then (validate_id ''compaction/start compactionId'' (Some (JStr (cs_id d)))) (\<lambda>_.
     and_then (validate_opt_id ''compaction/start sourceCommandId'' (cs_command d)) (\<lambda>_.
     and_then (reject_if (ct_open tr \<noteq> None) StillCompacting) (\<lambda>_.
     and_then (validate_owner ''compaction/start'' (cs_turn d) (ct_turn tr)) (\<lambda>_.
       Inr (StartCompaction (cs_id d) (cs_command d) (ev_seq e) (cs_turn d))))))"

text \<open>The checks that \<open>compaction/summary\<close> and \<open>compaction/end\<close> share.\<close>

definition matching_open ::
    "string \<Rightarrow> compaction_trace \<Rightarrow> string \<Rightarrow> string option \<Rightarrow> (compaction_error, open_compaction) result" where
  "matching_open label tr cid cmd =
     and_then (validate_id label (Some (JStr cid))) (\<lambda>_.
     and_then (validate_opt_id label cmd) (\<lambda>_.
       case ct_open tr of
         None \<Rightarrow> Inl (NoOpenCompaction label)
       | Some c \<Rightarrow>
           and_then (reject_if (cid \<noteq> oc_id c) (IdMismatch label)) (\<lambda>_.
           and_then (validate_source_command label cmd (oc_command c)) (\<lambda>_. Inr c))))"

definition validate_summary ::
    "compaction_trace \<Rightarrow> compaction_summary \<Rightarrow> (compaction_error, compaction_transition) result \<times> compaction_trace" where
  "validate_summary tr d =
     (case and_then (matching_open ''compaction/summary'' tr (cm_id d) (cm_command d)) (\<lambda>c.
             and_then (validate_owner ''compaction/summary'' (oc_turn c) (ct_turn tr)) (\<lambda>_.
               and_then (reject_if (oc_summarized c) RepeatedSummary) (\<lambda>_. Inr c))) of
        Inl err \<Rightarrow> (Inl err, tr)
      | Inr c \<Rightarrow>
          (case validate_shadowed tr (cm_span d) of
             (Inl err, tr') \<Rightarrow> (Inl err, tr')
           | (Inr _, tr') \<Rightarrow>
               if is_safe_integer (span_tokens (cm_span d)) \<and> 0 \<le> jnum_int (span_tokens (cm_span d))
               then (Inr (SummarizeCompaction (oc_id c) (oc_command c) (oc_start c) (oc_turn c)), tr')
               else (Inl BadTokenCount, tr')))"

definition validate_end :: "compaction_trace \<Rightarrow> compaction_end \<Rightarrow> (compaction_error, compaction_transition) result" where
  "validate_end tr d =
     and_then (matching_open ''compaction/end'' tr (ce_id d) (ce_command d)) (\<lambda>c.
     and_then (reject_if (ce_turn d \<noteq> oc_turn c) EndOwnerMismatch) (\<lambda>_.
     and_then (validate_owner ''compaction/end'' (oc_turn c) (ct_turn tr)) (\<lambda>_.
     and_then (reject_if (ce_error d = None \<and> \<not> oc_summarized c) MissingSummary) (\<lambda>_. Inr EndCompaction))))"

definition validate_compaction_event ::
    "compaction_trace \<Rightarrow> session_event \<Rightarrow> (compaction_error, compaction_transition option) result \<times> compaction_trace" where
  "validate_compaction_event tr e =
     (case ev_payload e of
        EndSeed \<Rightarrow> (Inr (Some EndSeedCompaction), tr)
      | CompactionPrune sp \<Rightarrow>
          (case validate_shadowed tr sp of (Inl err, tr') \<Rightarrow> (Inl err, tr') | (Inr _, tr') \<Rightarrow> (Inr None, tr'))
      | UserMessageEvent m \<Rightarrow>
          if is_replacement_surface_event e \<and> is_compact_checkpoint_source (um_source m)
          then (and_then (validate_checkpoint tr m) (\<lambda>_. Inr None), tr) else (Inr None, tr)
      | CompactionStart d \<Rightarrow> (and_then (validate_start tr e d) (\<lambda>t. Inr (Some t)), tr)
      | CompactionSummary d \<Rightarrow>
          (case validate_summary tr d of (Inl err, tr') \<Rightarrow> (Inl err, tr') | (Inr t, tr') \<Rightarrow> (Inr (Some t), tr'))
      | CompactionEnd d \<Rightarrow> (and_then (validate_end tr d) (\<lambda>t. Inr (Some t)), tr)
      | _ \<Rightarrow> (Inr None, tr))"

fun apply_compaction_transition :: "compaction_transition \<Rightarrow> open_compaction option" where
  "apply_compaction_transition (StartCompaction i c s t) =
     Some \<lparr>oc_id = i, oc_command = c, oc_start = s, oc_turn = t, oc_summarized = False\<rparr>"
| "apply_compaction_transition (SummarizeCompaction i c s t) =
     Some \<lparr>oc_id = i, oc_command = c, oc_start = s, oc_turn = t, oc_summarized = True\<rparr>"
| "apply_compaction_transition EndCompaction = None"
| "apply_compaction_transition EndSeedCompaction = None"

section \<open>The companion\<close>

definition push_event :: "session_event \<Rightarrow> compaction_trace \<Rightarrow> compaction_trace" where
  "push_event e tr = tr\<lparr>ct_events := ct_events tr @ [e]\<rparr>"

definition new_compaction_trace :: compaction_trace where
  "new_compaction_trace = \<lparr>ct_turn = None, ct_open = None, ct_events = [], ct_surface = new_manager 0\<rparr>"

text \<open>One round of \<open>seed\<close>.\<close>

definition seed_compaction_event ::
    "nat set \<Rightarrow> session_event \<Rightarrow> compaction_trace \<Rightarrow> (compaction_error, compaction_trace) result" where
  "seed_compaction_event stale e tr =
     and_then (if (case ct_open tr of None \<Rightarrow> True | Some c \<Rightarrow> oc_start c \<notin> stale)
               then validate_turn_boundary tr e else Inr ()) (\<lambda>_.
       case validate_compaction_event tr e of
         (Inl err, _) \<Rightarrow> Inl err
       | (Inr t, tr') \<Rightarrow>
           Inr (push_event e (apply_turn_boundary
             (case t of None \<Rightarrow> tr' | Some t \<Rightarrow> tr'\<lparr>ct_open := apply_compaction_transition t\<rparr>) e)))"

definition seed_compaction :: "session_event list \<Rightarrow> (compaction_error, compaction_trace) result" where
  "seed_compaction es =
     fold_result (seed_compaction_event (inherited_orphan_start_seqs es)) es new_compaction_trace"

text \<open>Dispatch validates and stages; commit applies what was staged for that event.\<close>

definition dispatch_compaction ::
    "session_event \<Rightarrow> compaction_trace \<Rightarrow> (compaction_error, compaction_transition option) result \<times> compaction_trace" where
  "dispatch_compaction e tr =
     (case validate_turn_boundary tr e of
        Inl err \<Rightarrow> (Inl err, tr)
      | Inr _ \<Rightarrow> validate_compaction_event tr e)"

definition commits_staged :: "session_event \<Rightarrow> bool" where
  "commits_staged e \<longleftrightarrow>
     (case ev_payload e of EndSeed \<Rightarrow> True | CompactionStart _ \<Rightarrow> True | CompactionSummary _ \<Rightarrow> True
      | CompactionEnd _ \<Rightarrow> True | _ \<Rightarrow> False)"

definition commit_compaction ::
    "compaction_transition option \<Rightarrow> session_event \<Rightarrow> compaction_trace \<Rightarrow> (compaction_error, compaction_trace) result" where
  "commit_compaction staged e tr =
     and_then (validate_turn_boundary tr e) (\<lambda>_.
       let tr1 = apply_turn_boundary tr e in
       if turn_boundary e \<or> \<not> commits_staged e then Inr (push_event e tr1)
       else (case staged of
               None \<Rightarrow> Inl NotPrevalidated
             | Some t \<Rightarrow> Inr (push_event e (tr1\<lparr>ct_open := apply_compaction_transition t\<rparr>))))"

section \<open>Validation does not advance the trace\<close>

definition trace_ok :: "compaction_trace \<Rightarrow> bool" where
  "trace_ok tr \<longleftrightarrow> manager_run 0 (ct_events tr) (ct_surface tr)"

text \<open>Equal but for how far the surface managers have read.\<close>

definition same_trace :: "compaction_trace \<Rightarrow> compaction_trace \<Rightarrow> bool" where
  "same_trace tr tr' \<longleftrightarrow> ct_turn tr' = ct_turn tr \<and> ct_open tr' = ct_open tr \<and> ct_events tr' = ct_events tr"

lemma same_trace_refl [simp]: "same_trace tr tr"
  by (simp add: same_trace_def)

lemma same_trace_sym: "same_trace tr tr' \<Longrightarrow> same_trace tr' tr"
  by (simp add: same_trace_def)

lemma same_trace_trans [trans]: "same_trace a b \<Longrightarrow> same_trace b c \<Longrightarrow> same_trace a c"
  by (simp add: same_trace_def)

lemma same_trace_surface [simp]: "same_trace tr (tr\<lparr>ct_surface := m\<rparr>)"
  by (simp add: same_trace_def)

definition shadow_fields :: "shadowed_span \<Rightarrow> (compaction_error, nat \<times> nat \<times> nat list) result" where
  "shadow_fields sp =
     and_then (validate_seq ''shadowedRange.start'' (span_start sp)) (\<lambda>start.
       and_then (validate_seq ''shadowedRange.end'' (span_end sp)) (\<lambda>end.
         and_then (validate_seqs (span_seqs sp)) (\<lambda>seqs.
           and_then (reject_if (seqs = []) EmptyShadow) (\<lambda>_.
             and_then (reject_if (hd seqs \<noteq> start \<or> last seqs \<noteq> end) ShadowEnds) (\<lambda>_.
               Inr (start, end, seqs))))))"

text \<open>The span check against the replayed surface.\<close>

definition shadow_spec :: "session_event list \<Rightarrow> shadowed_span \<Rightarrow> (compaction_error, unit) result" where
  "shadow_spec es sp =
     and_then (shadow_fields sp) (\<lambda>(start, end, seqs).
       and_then (rethrow TraceSurface (fold_window 0 es)) (\<lambda>(st, _). span_matches (nodes st) start end seqs))"

lemma validate_shadowed_spec:
  assumes "trace_ok tr"
  shows "fst (validate_shadowed tr sp) = shadow_spec (ct_events tr) sp"
    and "same_trace tr (snd (validate_shadowed tr sp))" and "trace_ok (snd (validate_shadowed tr sp))"
proof -
  have eq: "validate_shadowed tr sp = (case shadow_fields sp of
        Inl err \<Rightarrow> (Inl err, tr)
      | Inr (start, end, seqs) \<Rightarrow>
          (case manager_nodes (ct_events tr) (ct_surface tr) of
             (Inl err, m) \<Rightarrow> (Inl (TraceSurface err), tr\<lparr>ct_surface := m\<rparr>)
           | (Inr ns, m) \<Rightarrow> (span_matches ns start end seqs, tr\<lparr>ct_surface := m\<rparr>)))"
    by (simp only: validate_shadowed_def shadow_fields_def)
  obtain r m where rd: "manager_nodes (ct_events tr) (ct_surface tr) = (r, m)"
    by (cases "manager_nodes (ct_events tr) (ct_surface tr)")
  have r: "r = and_then (fold_window 0 (ct_events tr)) (\<lambda>(st, _). Inr (nodes st))"
  proof -
    from assms obtain k where "manager_inv 0 (ct_events tr) k (ct_surface tr)"
      using manager_run_inv unfolding trace_ok_def by blast
    then show ?thesis using rd by (cases rule: sync_cases) (auto simp: manager_nodes_def)
  qed
  have m: "manager_run 0 (ct_events tr) m"
    using manager_run.read [of 0 "ct_events tr" "ct_surface tr"] assms rd by (simp add: trace_ok_def)
  show "fst (validate_shadowed tr sp) = shadow_spec (ct_events tr) sp"
    unfolding eq shadow_spec_def rd r
    by (cases "shadow_fields sp"; cases "fold_window 0 (ct_events tr)") auto
  show "same_trace tr (snd (validate_shadowed tr sp))"
    unfolding eq rd by (cases "shadow_fields sp"; cases r) auto
  show "trace_ok (snd (validate_shadowed tr sp))"
    using m assms unfolding eq rd by (cases "shadow_fields sp"; cases r) (auto simp: trace_ok_def)
qed

text \<open>What validation answers, as a function of the open turn, the open compaction and the
  committed events.\<close>

definition check_spec ::
    "compaction_trace \<Rightarrow> session_event \<Rightarrow> (compaction_error, compaction_transition option) result" where
  "check_spec tr e =
     (case ev_payload e of
        CompactionPrune sp \<Rightarrow> and_then (shadow_spec (ct_events tr) sp) (\<lambda>_. Inr None)
      | CompactionSummary d \<Rightarrow>
          and_then (matching_open ''compaction/summary'' tr (cm_id d) (cm_command d)) (\<lambda>c.
          and_then (validate_owner ''compaction/summary'' (oc_turn c) (ct_turn tr)) (\<lambda>_.
          and_then (reject_if (oc_summarized c) RepeatedSummary) (\<lambda>_.
          and_then (shadow_spec (ct_events tr) (cm_span d)) (\<lambda>_.
          and_then (reject_if (\<not> (is_safe_integer (span_tokens (cm_span d)) \<and> 0 \<le> jnum_int (span_tokens (cm_span d))))
                      BadTokenCount) (\<lambda>_.
            Inr (Some (SummarizeCompaction (oc_id c) (oc_command c) (oc_start c) (oc_turn c))))))))
      | _ \<Rightarrow> fst (validate_compaction_event tr e))"

lemma validate_summary_spec:
  assumes "trace_ok tr" and "ev_payload e = CompactionSummary d"
  shows "fst (validate_compaction_event tr e) = check_spec tr e"
    and "same_trace tr (snd (validate_compaction_event tr e))" and "trace_ok (snd (validate_compaction_event tr e))"
proof -
  define pre where "pre = and_then (matching_open ''compaction/summary'' tr (cm_id d) (cm_command d)) (\<lambda>c.
             and_then (validate_owner ''compaction/summary'' (oc_turn c) (ct_turn tr)) (\<lambda>_.
               and_then (reject_if (oc_summarized c) RepeatedSummary) (\<lambda>_. Inr c)))"
  obtain r tr' where v: "validate_shadowed tr (cm_span d) = (r, tr')" by (cases "validate_shadowed tr (cm_span d)")
  note vs = validate_shadowed_spec [OF assms(1), of "cm_span d", unfolded v, simplified]
  have spec: "check_spec tr e = and_then pre (\<lambda>c. and_then r (\<lambda>_.
      and_then (reject_if (\<not> (is_safe_integer (span_tokens (cm_span d)) \<and> 0 \<le> jnum_int (span_tokens (cm_span d)))) BadTokenCount)
        (\<lambda>_. Inr (Some (SummarizeCompaction (oc_id c) (oc_command c) (oc_start c) (oc_turn c))))))"
    by (simp add: check_spec_def assms(2) pre_def and_then_assoc vs(1) case_prod_unfold)
  note eq = validate_compaction_event_def [of tr e, unfolded assms(2) validate_summary_def payload.case, folded pre_def, unfolded v]
  show "fst (validate_compaction_event tr e) = check_spec tr e"
    unfolding spec eq by (cases pre; cases r) auto
  show "same_trace tr (snd (validate_compaction_event tr e))"
    unfolding eq using vs(2) by (cases pre; cases r) auto
  show "trace_ok (snd (validate_compaction_event tr e))"
    unfolding eq using vs(3) assms(1) by (cases pre; cases r) auto
qed

lemma validate_compaction_spec:
  assumes "trace_ok tr"
  shows "fst (validate_compaction_event tr e) = check_spec tr e"
    and "same_trace tr (snd (validate_compaction_event tr e))" and "trace_ok (snd (validate_compaction_event tr e))"
proof -
  have all: "fst (validate_compaction_event tr e) = check_spec tr e
     \<and> same_trace tr (snd (validate_compaction_event tr e)) \<and> trace_ok (snd (validate_compaction_event tr e))"
  proof (cases "ev_payload e")
    case (CompactionSummary d)
    then show ?thesis using validate_summary_spec [OF assms] by blast
  next
    case (CompactionPrune sp)
    obtain r tr' where v: "validate_shadowed tr sp = (r, tr')" by (cases "validate_shadowed tr sp")
    note vs = validate_shadowed_spec [OF assms, of sp, unfolded v, simplified]
    have "check_spec tr e = and_then r (\<lambda>_. Inr None)" by (simp add: check_spec_def CompactionPrune vs(1))
    moreover have "validate_compaction_event tr e =
        (case r of Inl err \<Rightarrow> (Inl err, tr') | Inr _ \<Rightarrow> (Inr None, tr'))"
      by (simp add: validate_compaction_event_def CompactionPrune v)
    ultimately show ?thesis using vs(2,3) by (cases r) simp_all
  qed (use assms in \<open>simp_all add: validate_compaction_event_def check_spec_def\<close>)
  then show "fst (validate_compaction_event tr e) = check_spec tr e"
    and "same_trace tr (snd (validate_compaction_event tr e))" and "trace_ok (snd (validate_compaction_event tr e))"
    by auto
qed

lemma check_spec_cong: "same_trace tr tr' \<Longrightarrow> check_spec tr e = check_spec tr' e"
  by (cases "ev_payload e")
    (simp_all add: same_trace_def check_spec_def validate_compaction_event_def validate_checkpoint_def validate_start_def
      validate_end_def matching_open_def cong: if_cong)

section \<open>The live trace is the trace of a replay\<close>

lemma same_trace_updates:
  "same_trace tr tr' \<Longrightarrow> same_trace (push_event e tr) (push_event e tr')"
  "same_trace tr tr' \<Longrightarrow> same_trace (apply_turn_boundary tr e) (apply_turn_boundary tr' e)"
  "same_trace tr tr' \<Longrightarrow> same_trace (tr\<lparr>ct_open := c\<rparr>) (tr'\<lparr>ct_open := c\<rparr>)"
  by (auto simp: same_trace_def push_event_def apply_turn_boundary_def split: payload.split)

lemma trace_ok_updates:
  "trace_ok tr \<Longrightarrow> trace_ok (push_event e tr)"
  "trace_ok tr \<Longrightarrow> trace_ok (apply_turn_boundary tr e)"
  "trace_ok tr \<Longrightarrow> trace_ok (tr\<lparr>ct_open := c\<rparr>)"
  by (auto simp: trace_ok_def push_event_def apply_turn_boundary_def intro: manager_run.push split: payload.split)

text \<open>What committing an event does to a trace, given its transition.\<close>

definition advance :: "compaction_transition option \<Rightarrow> session_event \<Rightarrow> compaction_trace \<Rightarrow> compaction_trace" where
  "advance t e tr = push_event e (apply_turn_boundary
     (case t of None \<Rightarrow> tr | Some t \<Rightarrow> tr\<lparr>ct_open := apply_compaction_transition t\<rparr>) e)"

lemma advance_same: "same_trace tr tr' \<Longrightarrow> same_trace (advance t e tr) (advance t e tr')"
  by (auto simp: advance_def intro!: same_trace_updates split: option.split)

lemma advance_ok: "trace_ok tr \<Longrightarrow> trace_ok (advance t e tr)"
  by (auto simp: advance_def intro!: trace_ok_updates split: option.split)

lemma seed_step_iff:
  assumes "trace_ok tr"
  shows "seed_compaction_event stale e tr = Inr tr' \<longleftrightarrow>
    ((case ct_open tr of None \<Rightarrow> True | Some c \<Rightarrow> oc_start c \<notin> stale) \<longrightarrow> \<not> (turn_boundary e \<and> ct_open tr \<noteq> None))
    \<and> (\<exists>t. check_spec tr e = Inr t \<and> tr' = advance t e (snd (validate_compaction_event tr e)))"
proof -
  obtain r tr1 where v: "validate_compaction_event tr e = (r, tr1)" by (cases "validate_compaction_event tr e")
  have r: "r = check_spec tr e" using validate_compaction_spec(1) [OF assms, of e] v by simp
  show ?thesis
    unfolding seed_compaction_event_def v validate_turn_boundary_def
    by (cases r) (auto simp: r [symmetric] advance_def reject_if_def split: if_splits)
qed

lemma seed_step_ok:
  assumes "trace_ok tr" and "seed_compaction_event stale e tr = Inr tr'"
  shows "trace_ok tr'" "ct_events tr' = ct_events tr @ [e]"
proof -
  from assms obtain t where t: "tr' = advance t e (snd (validate_compaction_event tr e))"
    using seed_step_iff by blast
  note v = validate_compaction_spec [OF assms(1), of e]
  show "trace_ok tr'" unfolding t by (rule advance_ok [OF v(3)])
  show "ct_events tr' = ct_events tr @ [e]"
    using v(2) by (auto simp: t advance_def push_event_def apply_turn_boundary_def same_trace_def
        split: payload.split option.split)
qed

lemma seed_loop_ok:
  "fold_result (seed_compaction_event stale) es new_compaction_trace = Inr tr \<Longrightarrow> trace_ok tr \<and> ct_events tr = es"
proof (induction es arbitrary: tr rule: rev_induct)
  case Nil
  then show ?case by (auto simp: trace_ok_def new_compaction_trace_def intro: manager_run.start)
next
  case (snoc e es)
  then obtain tr0 where "fold_result (seed_compaction_event stale) es new_compaction_trace = Inr tr0"
    and "seed_compaction_event stale e tr0 = Inr tr"
    by (auto simp: fold_result_snoc and_then_Inr_iff)
  with snoc.IH seed_step_ok show ?case by blast
qed

lemma orphan_loop_snoc:
  "ev_payload e \<noteq> EndSeed \<Longrightarrow> orphan_loop (es @ [e]) op stale = orphan_loop es op stale"
proof (induction es op stale rule: orphan_loop.induct)
  case (1 op stale)
  then show ?case by (cases "ev_payload e") auto
next
  case (2 x es op stale)
  then show ?case by (cases "ev_payload x") auto
qed

text \<open>A companion at work: it replayed a log, dispatches are validated and vetoed or committed.
  The end-of-seed marker is only ever written by a session's constructor.\<close>

inductive compaction_run :: "session_event list \<Rightarrow> compaction_trace \<Rightarrow> bool" where
  seeded: "seed_compaction es = Inr tr \<Longrightarrow> compaction_run es tr"
| vetoed: "compaction_run es tr \<Longrightarrow> dispatch_compaction e tr = (r, tr') \<Longrightarrow> compaction_run es tr'"
| committed: "compaction_run es tr \<Longrightarrow> dispatch_compaction e tr = (Inr t, tr') \<Longrightarrow> ev_payload e \<noteq> EndSeed \<Longrightarrow>
    commit_compaction t e tr' = Inr tr'' \<Longrightarrow> compaction_run (es @ [e]) tr''"

lemma dispatch_spec:
  assumes "trace_ok tr" and "dispatch_compaction e tr = (r, tr')"
  shows "same_trace tr tr'" "trace_ok tr'" "r = Inr t \<Longrightarrow> check_spec tr e = Inr t \<and> \<not> (turn_boundary e \<and> ct_open tr \<noteq> None)"
  using assms validate_compaction_spec [OF assms(1), of e]
  by (auto simp: dispatch_compaction_def validate_turn_boundary_def reject_if_def split: if_splits)

lemma commit_advances:
  assumes "check_spec tr e = Inr t" and "commit_compaction t e tr = Inr tr'"
  shows "tr' = advance t e tr"
proof -
  have kind: "t \<noteq> None \<longleftrightarrow> commits_staged e" "commits_staged e \<Longrightarrow> \<not> turn_boundary e"
    using assms(1)
    by (auto simp: check_spec_def validate_compaction_event_def commits_staged_def turn_boundary_def and_then_Inr_iff
        split: payload.splits if_splits)
  show ?thesis
  proof (cases "commits_staged e")
    case True
    with kind obtain u where u: "t = Some u" by auto
    have "apply_turn_boundary x e = x" for x
      using kind(2) [OF True] by (auto simp: turn_boundary_def apply_turn_boundary_def split: payload.splits)
    with u True kind(2) assms(2) show ?thesis
      by (auto simp: commit_compaction_def advance_def and_then_Inr_iff)
  next
    case False
    with kind(1) assms(2) show ?thesis by (auto simp: commit_compaction_def advance_def and_then_Inr_iff Let_def)
  qed
qed

lemma compaction_run_replay:
  "compaction_run es tr \<Longrightarrow> trace_ok tr \<and> (\<exists>tr2. seed_compaction es = Inr tr2 \<and> same_trace tr2 tr)"
proof (induction rule: compaction_run.induct)
  case (seeded es tr)
  then show ?case using seed_loop_ok by (auto simp: seed_compaction_def)
next
  case (vetoed es tr e r tr')
  then obtain tr2 where "seed_compaction es = Inr tr2" "same_trace tr2 tr" "trace_ok tr" by blast
  with dispatch_spec(1,2) [OF _ vetoed(2)] show ?case using same_trace_trans by blast
next
  case (committed es tr e t tr' tr'')
  then obtain tr2 where s: "seed_compaction es = Inr tr2" and same: "same_trace tr2 tr" and ok: "trace_ok tr" by blast
  have ok2: "trace_ok tr2" using s seed_loop_ok by (auto simp: seed_compaction_def)
  note d = dispatch_spec [OF ok committed(2)]
  have same': "same_trace tr2 tr'" using same d(1) by (rule same_trace_trans)
  have check: "check_spec tr e = Inr t" "\<not> (turn_boundary e \<and> ct_open tr \<noteq> None)" using d(3) by auto
  have "check_spec tr' e = Inr t" using check_spec_cong [OF d(1), of e] check by simp
  then have tr'': "tr'' = advance t e tr'" by (rule commit_advances [OF _ committed(4)])
  have check2: "check_spec tr2 e = Inr t" using check_spec_cong [OF same, of e] check by simp
  have open2: "ct_open tr2 = ct_open tr" using same by (simp add: same_trace_def)
  define tr3 where "tr3 = advance t e (snd (validate_compaction_event tr2 e))"
  have step: "seed_compaction_event stale e tr2 = Inr tr3" for stale
    unfolding seed_step_iff [OF ok2] using check2 check(2) open2 by (simp add: tr3_def)
  have "seed_compaction (es @ [e]) = Inr tr3"
    using s step committed(3)
    by (simp add: seed_compaction_def inherited_orphan_start_seqs_def orphan_loop_snoc fold_result_snoc)
  moreover have "same_trace tr3 tr''"
    unfolding tr'' tr3_def
    by (rule advance_same) (rule same_trace_trans [OF same_trace_sym [OF validate_compaction_spec(2) [OF ok2]] same'])
  moreover have "trace_ok tr''" unfolding tr'' by (rule advance_ok [OF d(2)])
  ultimately show ?case by blast
qed

text \<open>
  Reloading the companion changes nothing: whatever was validated, vetoed and
  committed, replaying the session's log from scratch is accepted and gives the same open turn
  and the same open compaction as the live trace.
\<close>

theorem compaction_replay_matches:
  assumes "compaction_run es tr"
  shows "\<exists>tr2. seed_compaction es = Inr tr2 \<and> ct_turn tr2 = ct_turn tr \<and> ct_open tr2 = ct_open tr \<and> ct_events tr = es"
proof -
  from compaction_run_replay [OF assms] obtain tr2 where s: "seed_compaction es = Inr tr2" and same: "same_trace tr2 tr" by blast
  have "ct_events tr2 = es" using s seed_loop_ok by (auto simp: seed_compaction_def)
  with s same show ?thesis by (auto simp: same_trace_def)
qed

section \<open>Brackets match\<close>

definition bracket_event :: "session_event \<Rightarrow> bool" where
  "bracket_event e \<longleftrightarrow>
     (case ev_payload e of CompactionStart _ \<Rightarrow> True | CompactionEnd _ \<Rightarrow> True | EndSeed \<Rightarrow> True | _ \<Rightarrow> False)"

definition summary_event :: "session_event \<Rightarrow> bool" where
  "summary_event e \<longleftrightarrow> (case ev_payload e of CompactionSummary _ \<Rightarrow> True | _ \<Rightarrow> False)"

text \<open>A start the replay treats as stale is followed by an end-of-seed marker before any other
  bracket event.\<close>

definition marker_next :: "session_event list \<Rightarrow> bool" where
  "marker_next es \<longleftrightarrow> (\<exists>m z q. es = m @ z # q \<and> (\<forall>y \<in> set m. \<not> bracket_event y) \<and> ev_payload z = EndSeed)"

definition orphan_in :: "session_event list \<Rightarrow> nat \<Rightarrow> bool" where
  "orphan_in es x \<longleftrightarrow>
     (\<exists>p s d rest. es = p @ s # rest \<and> ev_payload s = CompactionStart d \<and> ev_seq s = x \<and> marker_next rest)"

lemma marker_next_Cons:
  "ev_payload e = EndSeed \<Longrightarrow> marker_next (e # es)"
  "\<not> bracket_event e \<Longrightarrow> marker_next es \<Longrightarrow> marker_next (e # es)"
proof -
  assume "ev_payload e = EndSeed"
  then show "marker_next (e # es)"
    unfolding marker_next_def by (intro exI [of _ "[]"] exI [of _ e] exI [of _ es]) simp
next
  assume e: "\<not> bracket_event e" and "marker_next es"
  then obtain m z q where "es = m @ z # q" "\<forall>y \<in> set m. \<not> bracket_event y" "ev_payload z = EndSeed"
    by (auto simp: marker_next_def)
  with e show "marker_next (e # es)"
    unfolding marker_next_def by (intro exI [of _ "e # m"] exI [of _ z] exI [of _ q]) simp
qed

lemma orphan_in_Cons:
  "orphan_in es x \<Longrightarrow> orphan_in (e # es) x"
  "ev_payload e = CompactionStart d \<Longrightarrow> ev_seq e = x \<Longrightarrow> marker_next es \<Longrightarrow> orphan_in (e # es) x"
proof -
  assume "orphan_in es x"
  then obtain p s d rest where "es = p @ s # rest" "ev_payload s = CompactionStart d" "ev_seq s = x" "marker_next rest"
    by (auto simp: orphan_in_def)
  then show "orphan_in (e # es) x"
    unfolding orphan_in_def by (intro exI [of _ "e # p"] exI [of _ s] exI [of _ d] exI [of _ rest]) simp
next
  assume "ev_payload e = CompactionStart d" "ev_seq e = x" "marker_next es"
  then show "orphan_in (e # es) x"
    unfolding orphan_in_def by (intro exI [of _ "[]"] exI [of _ e] exI [of _ d] exI [of _ es]) simp
qed

lemma orphan_loop_cases:
  "x \<in> orphan_loop es op stale \<Longrightarrow> x \<in> stale \<or> (op = Some x \<and> marker_next es) \<or> orphan_in es x"
proof (induction es arbitrary: op stale)
  case Nil
  then show ?case by simp
next
  case (Cons e es)
  show ?case
  proof (cases "ev_payload e")
    case (CompactionStart d)
    with Cons show ?thesis using orphan_in_Cons by fastforce
  next
    case (CompactionEnd d)
    with Cons show ?thesis using orphan_in_Cons(1) by fastforce
  next
    case EndSeed
    then have "marker_next (e # es)" by (rule marker_next_Cons(1))
    moreover from EndSeed Cons.prems Cons.IH have "x \<in> stale \<or> op = Some x \<or> orphan_in es x"
      by (fastforce split: option.splits)
    ultimately show ?thesis using orphan_in_Cons(1) by blast
  qed (use Cons orphan_in_Cons(1) marker_next_Cons(2) in \<open>fastforce simp: bracket_event_def\<close>)+
qed

text \<open>The open compaction of an accepted log, located in it.\<close>

definition open_from :: "nat set \<Rightarrow> session_event list \<Rightarrow> open_compaction \<Rightarrow> bool" where
  "open_from stale es c \<longleftrightarrow>
     (\<exists>pre s d mid. es = pre @ s # mid \<and> ev_payload s = CompactionStart d
        \<and> oc_id c = cs_id d \<and> oc_command c = cs_command d \<and> oc_turn c = cs_turn d \<and> oc_start c = ev_seq s \<and> cs_id d \<noteq> []
        \<and> (\<forall>x \<in> set mid. \<not> bracket_event x)
        \<and> (oc_start c \<notin> stale \<longrightarrow> (\<forall>x \<in> set mid. \<not> turn_boundary x))
        \<and> length (filter summary_event mid) = (if oc_summarized c then 1 else 0))"

lemma open_from_keep:
  assumes "open_from stale es c" and "\<not> bracket_event e" and "\<not> summary_event e"
    and "oc_start c \<notin> stale \<Longrightarrow> \<not> turn_boundary e"
  shows "open_from stale (es @ [e]) c"
proof -
  from assms(1) obtain pre s d mid where "es = pre @ s # mid" "ev_payload s = CompactionStart d"
    "oc_id c = cs_id d" "oc_command c = cs_command d" "oc_turn c = cs_turn d" "oc_start c = ev_seq s" "cs_id d \<noteq> []"
    "\<forall>x \<in> set mid. \<not> bracket_event x" "oc_start c \<notin> stale \<longrightarrow> (\<forall>x \<in> set mid. \<not> turn_boundary x)"
    "length (filter summary_event mid) = (if oc_summarized c then 1 else 0)"
    unfolding open_from_def by blast
  with assms(2-4) show ?thesis
    unfolding open_from_def
    by (intro exI [of _ pre] exI [of _ s] exI [of _ d] exI [of _ "mid @ [e]"]) auto
qed

lemma open_from_summary:
  assumes "open_from stale es c" and "\<not> oc_summarized c" and "ev_payload e = CompactionSummary d"
  shows "open_from stale (es @ [e]) (c\<lparr>oc_summarized := True\<rparr>)"
proof -
  from assms(1) obtain pre s d' mid where "es = pre @ s # mid" "ev_payload s = CompactionStart d'"
    "oc_id c = cs_id d'" "oc_command c = cs_command d'" "oc_turn c = cs_turn d'" "oc_start c = ev_seq s" "cs_id d' \<noteq> []"
    "\<forall>x \<in> set mid. \<not> bracket_event x" "oc_start c \<notin> stale \<longrightarrow> (\<forall>x \<in> set mid. \<not> turn_boundary x)"
    "length (filter summary_event mid) = (if oc_summarized c then 1 else 0)"
    unfolding open_from_def by blast
  with assms(2,3) show ?thesis
    unfolding open_from_def
    by (intro exI [of _ pre] exI [of _ s] exI [of _ d'] exI [of _ "mid @ [e]"])
      (auto simp: bracket_event_def turn_boundary_def summary_event_def)
qed

lemma open_from_start:
  assumes "ev_payload e = CompactionStart d" and "cs_id d \<noteq> []"
  shows "open_from stale (es @ [e]) \<lparr>oc_id = cs_id d, oc_command = cs_command d, oc_start = ev_seq e, oc_turn = cs_turn d, oc_summarized = False\<rparr>"
  unfolding open_from_def using assms
  by (intro exI [of _ es] exI [of _ e] exI [of _ d] exI [of _ "[]"]) simp

lemma validate_id_str: "validate_id label (Some (JStr s)) = Inr u \<longleftrightarrow> s \<noteq> []"
  by (simp add: validate_id_def)

lemma seed_open_step:
  assumes ok: "trace_ok tr" and step: "seed_compaction_event stale e tr = Inr tr'"
    and inv: "\<And>c. ct_open tr = Some c \<Longrightarrow> open_from stale es c" and c: "ct_open tr' = Some c"
  shows "open_from stale (es @ [e]) c"
proof -
  from step obtain t where guard: "(case ct_open tr of None \<Rightarrow> True | Some c \<Rightarrow> oc_start c \<notin> stale) \<longrightarrow> \<not> (turn_boundary e \<and> ct_open tr \<noteq> None)"
    and t: "check_spec tr e = Inr t" "tr' = advance t e (snd (validate_compaction_event tr e))"
    using seed_step_iff [OF ok] by blast
  have "ct_open (snd (validate_compaction_event tr e)) = ct_open tr"
    using validate_compaction_spec(2) [OF ok, of e] by (simp add: same_trace_def)
  then have op: "ct_open tr' = (case t of None \<Rightarrow> ct_open tr | Some t \<Rightarrow> apply_compaction_transition t)"
    by (auto simp: t(2) advance_def push_event_def apply_turn_boundary_def split: payload.split option.split)
  show ?thesis
  proof (cases t)
    case None
    with op c have "ct_open tr = Some c" by simp
    moreover have "\<not> bracket_event e" "\<not> summary_event e"
      using t(1) None
      by (auto simp: check_spec_def validate_compaction_event_def bracket_event_def summary_event_def and_then_Inr_iff
          split: payload.splits)
    ultimately show ?thesis using inv guard by (intro open_from_keep) auto
  next
    case (Some u)
    with t(1) op c consider (start) d where "ev_payload e = CompactionStart d" "cs_id d \<noteq> []"
        "c = \<lparr>oc_id = cs_id d, oc_command = cs_command d, oc_start = ev_seq e, oc_turn = cs_turn d, oc_summarized = False\<rparr>"
      | (summary) d c0 where "ev_payload e = CompactionSummary d" "ct_open tr = Some c0" "\<not> oc_summarized c0"
          "c = c0\<lparr>oc_summarized := True\<rparr>"
      by (auto simp: check_spec_def validate_compaction_event_def validate_start_def validate_end_def matching_open_def
          validate_id_str and_then_Inr_iff split: payload.splits option.splits if_splits)
    then show ?thesis
    proof cases
      case start
      then show ?thesis using open_from_start by simp
    next
      case summary
      then show ?thesis using open_from_summary [OF inv [OF summary(2)] summary(3,1)] by simp
    qed
  qed
qed

lemma seed_open_from:
  "fold_result (seed_compaction_event stale) es new_compaction_trace = Inr tr \<Longrightarrow> ct_open tr = Some c \<Longrightarrow> open_from stale es c"
proof (induction es arbitrary: tr c rule: rev_induct)
  case Nil
  then show ?case by (auto simp: new_compaction_trace_def)
next
  case (snoc e es)
  then obtain tr0 where "fold_result (seed_compaction_event stale) es new_compaction_trace = Inr tr0"
    and "seed_compaction_event stale e tr0 = Inr tr"
    by (auto simp: fold_result_snoc and_then_Inr_iff)
  with snoc seed_open_step [of tr0 stale e tr es c] seed_loop_ok show ?case by blast
qed

text \<open>
  Claim C11. Compaction brackets match: in an accepted log, every \<open>compaction/end\<close> closes a
  \<open>compaction/start\<close> with the same identity, command and owning turn; no other bracket event
  and no turn boundary lies between the two; the bracket holds at most one summary, and exactly
  one when the end reports success.
\<close>

theorem compaction_brackets_match:
  assumes "seed_compaction es = Inr tr" and numbered: "\<forall>i < length es. ev_seq (es ! i) = i"
    and es: "es = pre @ e # post" and e: "ev_payload e = CompactionEnd d"
  shows "\<exists>before s c mid. pre = before @ s # mid \<and> ev_payload s = CompactionStart c
     \<and> cs_id c = ce_id d \<and> ce_id d \<noteq> [] \<and> cs_command c = ce_command d \<and> cs_turn c = ce_turn d
     \<and> (\<forall>x \<in> set mid. \<not> bracket_event x \<and> \<not> turn_boundary x)
     \<and> length (filter summary_event mid) \<le> 1
     \<and> (ce_error d = None \<longrightarrow> length (filter summary_event mid) = 1)"
proof -
  define stale where "stale = inherited_orphan_start_seqs es"
  from assms(1) es obtain tr0 tr1 where s0: "fold_result (seed_compaction_event stale) pre new_compaction_trace = Inr tr0"
    and step: "seed_compaction_event stale e tr0 = Inr tr1"
    unfolding seed_compaction_def stale_def [symmetric] by (auto simp: fold_result_append and_then_Inr_iff)
  have ok: "trace_ok tr0" using seed_loop_ok [OF s0] by blast
  from step e obtain c where c: "ct_open tr0 = Some c" "ce_id d = oc_id c" "ce_command d = oc_command c"
    "ce_turn d = oc_turn c" "ce_error d = None \<longrightarrow> oc_summarized c" "ce_id d \<noteq> []"
    unfolding seed_step_iff [OF ok]
    by (auto simp: check_spec_def validate_compaction_event_def validate_end_def matching_open_def
        validate_source_command_def validate_id_str and_then_Inr_iff split: option.splits)
  from seed_open_from [OF s0 c(1)] obtain before s c' mid where b: "pre = before @ s # mid"
    "ev_payload s = CompactionStart c'" "oc_id c = cs_id c'" "oc_command c = cs_command c'" "oc_turn c = cs_turn c'"
    "oc_start c = ev_seq s" "\<forall>x \<in> set mid. \<not> bracket_event x"
    "oc_start c \<notin> stale \<longrightarrow> (\<forall>x \<in> set mid. \<not> turn_boundary x)"
    "length (filter summary_event mid) = (if oc_summarized c then 1 else 0)"
    unfolding open_from_def by blast
  have "oc_start c \<notin> stale"
  proof
    assume "oc_start c \<in> stale"
    then have "orphan_in es (ev_seq s)"
      using orphan_loop_cases b(6) unfolding stale_def inherited_orphan_start_seqs_def by fastforce
    then obtain p s' d' rest where o: "es = p @ s' # rest" "ev_seq s' = ev_seq s" "marker_next rest"
      by (auto simp: orphan_in_def)
    have "ev_seq s' = length p" using numbered o(1) by (metis nth_append_length length_append add.commute
          le_add1 le_imp_less_Suc length_Cons add_Suc_right)
    moreover have "ev_seq s = length before"
      using numbered es b(1) by (auto dest: spec [of _ "length before"] simp: nth_append)
    ultimately have "length p = length before" using o(2) by simp
    then have "rest = mid @ e # post" using es b(1) o(1) by simp
    with o(3) obtain m z q where m: "mid @ e # post = m @ z # q" "\<forall>y \<in> set m. \<not> bracket_event y" "ev_payload z = EndSeed"
      by (auto simp: marker_next_def)
    have z: "bracket_event z" using m(3) by (simp add: bracket_event_def)
    have "bracket_event e" "ev_payload e \<noteq> EndSeed" using e by (simp_all add: bracket_event_def)
    with m b(7) z show False by (auto simp: append_eq_append_conv2 Cons_eq_append_conv append_eq_Cons_conv)
  qed
  with b c show ?thesis
    by (intro exI [of _ before] exI [of _ s] exI [of _ c'] exI [of _ mid]) auto
qed

section \<open>Shadowed spans are exact\<close>

lemma validate_seqs_iff: "validate_seqs vs = Inr ns \<longleftrightarrow> vs = map (JInt \<circ> int) ns \<and> (\<forall>n \<in> set ns. int n \<le> MAX_SAFE_INTEGER)"
proof (induction vs arbitrary: ns)
  case Nil
  then show ?case by auto
next
  case (Cons v vs)
  then show ?case by (cases ns) (auto simp: and_then_Inr_iff validate_seq_def session_seq_Inr_iff)
qed

text \<open>
  A prune record is accepted exactly when it names a contiguous, non-empty run of the
  current surface: its list is that run in surface order, its range the run's first and last
  node.
\<close>

theorem compaction_span_exact:
  assumes "compaction_run es tr" and "ev_payload e = CompactionPrune sp" and "fold_window 0 es = Inr (st, reps)"
    and "\<forall>n \<in> set (nodes st). int n \<le> MAX_SAFE_INTEGER"
  shows "is_ok (fst (validate_compaction_event tr e)) \<longleftrightarrow>
    (\<exists>i j. i \<le> j \<and> j < length (nodes st) \<and> span_seqs sp = map (JInt \<circ> int) (slice i (j + 1) (nodes st))
       \<and> span_start sp = JInt (int (nodes st ! i)) \<and> span_end sp = JInt (int (nodes st ! j)))"
proof -
  have run: "trace_ok tr" "ct_events tr = es"
    using compaction_run_replay [OF assms(1)] seed_loop_ok by (auto simp: seed_compaction_def same_trace_def)
  have dist: "distinct (nodes st)" using fold_window_nodes_within [OF assms(3)] by (simp add: nodes_within_def)
  have ends: "hd (slice i (j + 1) (nodes st)) = nodes st ! i" "last (slice i (j + 1) (nodes st)) = nodes st ! j"
    "slice i (j + 1) (nodes st) \<noteq> []" if "i \<le> j" "j < length (nodes st)" for i j
    using that by (simp_all add: slice_def hd_drop_conv_nth last_conv_nth)
  have "check_spec tr e = and_then (shadow_spec es sp) (\<lambda>_. Inr None)"
    by (simp add: check_spec_def assms(2) run(2))
  then have "fst (validate_compaction_event tr e) = and_then (shadow_spec es sp) (\<lambda>_. Inr None)"
    using validate_compaction_spec(1) [OF run(1), of e] by simp
  then have "is_ok (fst (validate_compaction_event tr e)) \<longleftrightarrow> is_ok (shadow_spec es sp)"
    by (cases "shadow_spec es sp") simp_all
  also have "\<dots> \<longleftrightarrow> (\<exists>start end seqs. span_start sp = JInt (int start) \<and> span_end sp = JInt (int end)
      \<and> span_seqs sp = map (JInt \<circ> int) seqs \<and> (\<forall>n \<in> set seqs \<union> {start, end}. int n \<le> MAX_SAFE_INTEGER)
      \<and> seqs \<noteq> [] \<and> hd seqs = start \<and> last seqs = end \<and> is_ok (span_matches (nodes st) start end seqs))"
    by (auto simp: is_ok_iff shadow_spec_def shadow_fields_def and_then_Inr_iff assms(3) validate_seqs_iff
        validate_seq_def session_seq_Inr_iff)
  also have "\<dots> \<longleftrightarrow> (\<exists>i j. i \<le> j \<and> j < length (nodes st) \<and> span_seqs sp = map (JInt \<circ> int) (slice i (j + 1) (nodes st))
       \<and> span_start sp = JInt (int (nodes st ! i)) \<and> span_end sp = JInt (int (nodes st ! j)))" (is "?L \<longleftrightarrow> ?R")
  proof
    assume ?L
    then obtain seqs where s: "span_start sp = JInt (int (hd seqs))" "span_end sp = JInt (int (last seqs))"
      "span_seqs sp = map (JInt \<circ> int) seqs" "is_ok (span_matches (nodes st) (hd seqs) (last seqs) seqs)" by auto
    from s(4) obtain i j where ij: "index_of (hd seqs) (nodes st) = Some i" "index_of (last seqs) (nodes st) = Some j"
      "i \<le> j" "slice i (j + 1) (nodes st) = seqs"
      by (auto simp: span_matches_def is_ok_iff split: option.splits if_splits)
    then show ?R using s(1-3) by (intro exI [of _ i] exI [of _ j]) (auto simp: index_of_Some_iff)
  next
    assume ?R
    then obtain i j where ij: "i \<le> j" "j < length (nodes st)" "span_seqs sp = map (JInt \<circ> int) (slice i (j + 1) (nodes st))"
      "span_start sp = JInt (int (nodes st ! i))" "span_end sp = JInt (int (nodes st ! j))" by blast
    have "is_ok (span_matches (nodes st) (nodes st ! i) (nodes st ! j) (slice i (j + 1) (nodes st)))"
      using ij dist by (simp add: span_matches_def index_of_nth_distinct)
    moreover have "\<forall>n \<in> set (slice i (j + 1) (nodes st)) \<union> {nodes st ! i, nodes st ! j}. int n \<le> MAX_SAFE_INTEGER"
      using assms(4) ij(1,2) set_slice_subset [of i "j + 1" "nodes st"] by auto
    ultimately show ?L using ij ends [OF ij(1,2)]
      by (intro exI [of _ "nodes st ! i"] exI [of _ "nodes st ! j"] exI [of _ "slice i (j + 1) (nodes st)"]) simp
  qed
  finally show ?thesis .
qed

section \<open>A concrete compaction\<close>

definition compaction_span :: shadowed_span where
  "compaction_span = \<lparr>span_start = JInt 0, span_end = JInt 0, span_seqs = [JInt 0], span_tokens = JInt 3\<rparr>"

definition compaction_body :: summary_result where
  "compaction_body =
     \<lparr>su_blocks = [TextBlock ''sum''], su_raw = Some [ReasoningBlock ''r'', TextBlock ''sum''], su_stream_call = True,
      su_provider = ''p'', su_model = ''m'', su_max_tokens = Some 8192, su_usage = None\<rparr>"

definition compaction_example :: "session_event list" where
  "compaction_example =
     [append_event (UserMessageEvent \<lparr>um_id = ''m'', um_content = [TextBlock ''hi''], um_source = UserSource\<rparr>) 0,
      log_event (CompactionStart \<lparr>cs_id = ''c'', cs_command = None, cs_turn = None\<rparr>) 1,
      log_event (CompactionSummary \<lparr>cm_id = ''c'', cm_command = None, cm_span = compaction_span, cm_body = compaction_body\<rparr>) 2,
      replace_event (UserMessageEvent \<lparr>um_id = ''k'', um_content = [TextBlock ''sum''],
        um_source = compact_checkpoint_source ''c'' None\<rparr>) 3 0 0 [0],
      log_event (CompactionEnd \<lparr>ce_id = ''c'', ce_command = None, ce_turn = None, ce_error = None\<rparr>) 4]"

lemma compaction_example_runs:
  obtains tr where "seed_compaction compaction_example = Inr tr" "ct_open tr = None"
proof -
  have "is_ok (and_then (seed_compaction compaction_example) (\<lambda>tr. reject_if (ct_open tr \<noteq> None) StillCompacting))"
    by code_simp
  then show ?thesis using that by (auto simp: is_ok_iff and_then_Inr_iff)
qed

theorem compaction_replay_matches_witness:
  "\<exists>(tr :: compaction_trace) tr2. seed_compaction compaction_example = Inr tr2 \<and> ct_open tr2 = None \<and> ct_events tr = compaction_example"
proof -
  obtain tr where tr: "seed_compaction compaction_example = Inr tr" "ct_open tr = None" by (rule compaction_example_runs)
  from compaction_replay_matches [OF compaction_run.seeded [OF tr(1)]] tr(2) show ?thesis by auto
qed

theorem compaction_brackets_match_witness:
  "\<exists>before s c mid. take 4 compaction_example = before @ s # mid \<and> ev_payload s = CompactionStart c \<and> cs_id c = ''c''
     \<and> length (filter summary_event mid) = 1"
proof -
  obtain tr where tr: "seed_compaction compaction_example = Inr tr" by (rule compaction_example_runs)
  have "\<forall>i < length compaction_example. ev_seq (compaction_example ! i) = i"
    by (simp add: compaction_example_def less_Suc_eq append_event_def log_event_def replace_event_def)
  moreover have "compaction_example = take 4 compaction_example
      @ log_event (CompactionEnd \<lparr>ce_id = ''c'', ce_command = None, ce_turn = None, ce_error = None\<rparr>) 4 # []"
    by (simp add: compaction_example_def)
  moreover have "ev_payload (log_event (CompactionEnd \<lparr>ce_id = ''c'', ce_command = None, ce_turn = None, ce_error = None\<rparr>) 4)
      = CompactionEnd \<lparr>ce_id = ''c'', ce_command = None, ce_turn = None, ce_error = None\<rparr>"
    by (simp add: log_event_def)
  ultimately have "\<exists>before s c mid. take 4 compaction_example = before @ s # mid \<and> ev_payload s = CompactionStart c
     \<and> cs_id c = ''c'' \<and> length (filter summary_event mid) = 1"
    using compaction_brackets_match [OF tr, of "take 4 compaction_example"] by fastforce
  then show ?thesis .
qed

theorem compaction_span_exact_witness:
  "\<exists>tr. seed_compaction (take 2 compaction_example) = Inr tr
     \<and> is_ok (fst (validate_compaction_event tr (log_event (CompactionPrune compaction_span) 2)))"
proof -
  have "is_ok (seed_compaction (take 2 compaction_example))" by code_simp
  then obtain tr where tr: "seed_compaction (take 2 compaction_example) = Inr tr" by (auto simp: is_ok_iff)
  have f: "fold_window 0 (take 2 compaction_example) = Inr (\<lparr>nodes = [0], replace_generation = 0\<rparr>, [])" by code_simp
  have e: "ev_payload (log_event (CompactionPrune compaction_span) 2) = CompactionPrune compaction_span"
    by (simp add: log_event_def)
  from compaction_span_exact [OF compaction_run.seeded [OF tr] e f] tr show ?thesis
    by (simp add: compaction_span_def slice_def MAX_SAFE_INTEGER_def)
qed

end
