(* ===== verification/Goal_Fold.thy ===== *)
theory Goal_Fold
  imports Session_Types
begin

text \<open>
  \<open>packages/goal/goal/src/fold.ts\<close> with the vocabulary of \<open>domain.ts\<close> and \<open>types.ts\<close>: the strict
  decoder of durable goal changes and the fold that rebuilds the current goal, its counters and
  its history of identities from a session log. Decoded numbers are integers (the decoder admits
  both zeros and no code reads the sign of one).
\<close>

section \<open>Vocabulary\<close>

datatype goal_phase = PhActive | PhPaused | PhBlocked | PhComplete

datatype goal_operation = OpCreate | OpEdit | OpPause | OpResume | OpComplete | OpBlock | OpClear

record block_reason =
  br_code :: string
  br_message :: string

record goal_ref =
  gr_id :: string
  gr_revision :: int

record goal_snapshot =
  gs_id :: string
  gs_revision :: int
  gs_objective :: string
  gs_phase :: goal_phase
  gs_reason :: "block_reason option"
  gs_max_rounds :: int

text \<open>The operation of a snapshot change is never \<open>clear\<close>; its numbers are \<open>roundsStarted\<close>,
  \<open>createdAt\<close> and \<open>updatedAt\<close>.\<close>

datatype goal_change =
    SnapshotChange goal_operation goal_snapshot int int int
  | ClearChange goal_ref int

datatype goal_error =
    NotPositive string
  | NotNonNegative string
  | ReasonKeys
  | ReasonCode
  | ReasonMessage
  | SnapshotNotRecord
  | SnapshotId
  | SnapshotObjective
  | SnapshotPhase
  | SnapshotKeys goal_phase
  | TombstoneKeys
  | TombstoneId
  | UnsupportedVersion
  | ClearKeys
  | OperationInvalid
  | ChangeKeys
  | UpdatedBeforeCreated
  | GoalSourceInvalid
  | DefinitionChanged goal_operation
  | NotNextRevision goal_operation
  | LacksUpdatedAt
  | CountersChanged goal_operation
  | BadTransition goal_operation
  | NoCurrentGoal goal_operation
  | ClearTooEarly
  | CreateNotFresh
  | KindInvalid nat
  | RoundNotNext nat

definition GOAL_CHANGE_VERSION :: int where
  "GOAL_CHANGE_VERSION = 1"

section \<open>Field decoders\<close>

definition positive_integer :: "string \<Rightarrow> json \<Rightarrow> (goal_error, int) result" where
  "positive_integer label v =
     (case v of
        JNum n \<Rightarrow> if is_safe_integer n \<and> 1 \<le> jnum_int n then Inr (jnum_int n) else Inl (NotPositive label)
      | _ \<Rightarrow> Inl (NotPositive label))"

definition non_negative_integer :: "string \<Rightarrow> json \<Rightarrow> (goal_error, int) result" where
  "non_negative_integer label v =
     (case v of
        JNum n \<Rightarrow> if is_safe_integer n \<and> 0 \<le> jnum_int n then Inr (jnum_int n) else Inl (NotNonNegative label)
      | _ \<Rightarrow> Inl (NotNonNegative label))"

text \<open>\<open>Object.keys(value).sort().join(',')\<close>\<close>

fun join_comma :: "string list \<Rightarrow> string" where
  "join_comma [] = []"
| "join_comma [k] = k"
| "join_comma (k # ks) = k @ '','' @ join_comma ks"

definition sorted_keys :: "json \<Rightarrow> string" where
  "sorted_keys v = join_comma (sort (jkeys v))"

definition is_lower :: "char \<Rightarrow> bool" where
  "is_lower c \<longleftrightarrow> (97 :: nat) \<le> of_char c \<and> of_char c \<le> (122 :: nat)"

definition is_lower_digit :: "char \<Rightarrow> bool" where
  "is_lower_digit c \<longleftrightarrow> is_lower c \<or> ((48 :: nat) \<le> of_char c \<and> of_char c \<le> (57 :: nat))"

text \<open>The pattern of a lower-kebab-case code: inside a segment, and right after a hyphen.\<close>

fun kebab_tail :: "string \<Rightarrow> bool"
  and kebab_segment :: "string \<Rightarrow> bool" where
  "kebab_tail [] = True"
| "kebab_tail (c # cs) = (if is_lower_digit c then kebab_tail cs else c = CHR ''-'' \<and> kebab_segment cs)"
| "kebab_segment [] = False"
| "kebab_segment (c # cs) = (is_lower_digit c \<and> kebab_tail cs)"

definition lower_kebab :: "string \<Rightarrow> bool" where
  "lower_kebab s = (case s of [] \<Rightarrow> False | c # cs \<Rightarrow> is_lower c \<and> kebab_tail cs)"

text \<open>\<open>typeof v === 'string' && v.trim().length > 0 && v === v.trim()\<close>\<close>

definition normalized_text :: "json \<Rightarrow> bool" where
  "normalized_text v \<longleftrightarrow> is_jstr v \<and> trim (str_of v) \<noteq> [] \<and> str_of v = trim (str_of v)"

definition non_empty_text :: "json \<Rightarrow> bool" where
  "non_empty_text v \<longleftrightarrow> is_jstr v \<and> str_of v \<noteq> []"

section \<open>Decoding\<close>

definition decode_block_reason :: "json \<Rightarrow> (goal_error, block_reason) result" where
  "decode_block_reason v =
     and_then (reject_if (\<not> is_jobj v \<or> sorted_keys v \<noteq> ''code,message'') ReasonKeys) (\<lambda>_.
     and_then (reject_if (\<not> (is_jstr (jfield ''code'' v) \<and> lower_kebab (str_of (jfield ''code'' v)))) ReasonCode) (\<lambda>_.
     and_then (reject_if (\<not> normalized_text (jfield ''message'' v)) ReasonMessage) (\<lambda>_.
       Inr \<lparr>br_code = str_of (jfield ''code'' v), br_message = str_of (jfield ''message'' v)\<rparr>)))"

fun phase_name :: "goal_phase \<Rightarrow> string" where
  "phase_name PhActive = ''active''"
| "phase_name PhPaused = ''paused''"
| "phase_name PhBlocked = ''blocked''"
| "phase_name PhComplete = ''complete''"

definition phase_of :: "json \<Rightarrow> goal_phase option" where
  "phase_of v = (case v of
     JStr s \<Rightarrow> find (\<lambda>p. phase_name p = s) [PhActive, PhPaused, PhBlocked, PhComplete] | _ \<Rightarrow> None)"

definition snapshot_keys :: "goal_phase \<Rightarrow> string" where
  "snapshot_keys p =
     (if p = PhBlocked then ''blockedReason,id,maxGoalRounds,objective,phase,revision''
      else ''id,maxGoalRounds,objective,phase,revision'')"

definition decode_snapshot :: "json \<Rightarrow> (goal_error, goal_snapshot) result" where
  "decode_snapshot v =
     and_then (reject_if (\<not> is_jobj v) SnapshotNotRecord) (\<lambda>_.
     and_then (reject_if (\<not> non_empty_text (jfield ''id'' v)) SnapshotId) (\<lambda>_.
     and_then (reject_if (\<not> normalized_text (jfield ''objective'' v)) SnapshotObjective) (\<lambda>_.
     case phase_of (jfield ''phase'' v) of
       None \<Rightarrow> Inl SnapshotPhase
     | Some p \<Rightarrow>
         and_then (reject_if (sorted_keys v \<noteq> snapshot_keys p) (SnapshotKeys p)) (\<lambda>_.
         and_then (positive_integer ''goal.revision'' (jfield ''revision'' v)) (\<lambda>revision.
         and_then (positive_integer ''goal.maxGoalRounds'' (jfield ''maxGoalRounds'' v)) (\<lambda>max_rounds.
         and_then (if p = PhBlocked
                   then and_then (decode_block_reason (jfield ''blockedReason'' v)) (\<lambda>r. Inr (Some r))
                   else Inr None) (\<lambda>reason.
           Inr \<lparr>gs_id = str_of (jfield ''id'' v), gs_revision = revision,
                gs_objective = str_of (jfield ''objective'' v), gs_phase = p,
                gs_reason = reason, gs_max_rounds = max_rounds\<rparr>)))))))"

definition decode_ref :: "json \<Rightarrow> (goal_error, goal_ref) result" where
  "decode_ref v =
     and_then (reject_if (\<not> is_jobj v \<or> sorted_keys v \<noteq> ''id,revision'') TombstoneKeys) (\<lambda>_.
     and_then (reject_if (\<not> non_empty_text (jfield ''id'' v)) TombstoneId) (\<lambda>_.
     and_then (positive_integer ''cleared.revision'' (jfield ''revision'' v)) (\<lambda>revision.
       Inr \<lparr>gr_id = str_of (jfield ''id'' v), gr_revision = revision\<rparr>)))"

fun operation_name :: "goal_operation \<Rightarrow> string" where
  "operation_name OpCreate = ''create''"
| "operation_name OpEdit = ''edit''"
| "operation_name OpPause = ''pause''"
| "operation_name OpResume = ''resume''"
| "operation_name OpComplete = ''complete''"
| "operation_name OpBlock = ''block''"
| "operation_name OpClear = ''clear''"

text \<open>\<open>SNAPSHOT_OPERATIONS\<close>\<close>

definition snapshot_operation_of :: "json \<Rightarrow> goal_operation option" where
  "snapshot_operation_of v = (case v of
     JStr s \<Rightarrow> find (\<lambda>p. operation_name p = s) [OpCreate, OpEdit, OpPause, OpResume, OpComplete, OpBlock]
   | _ \<Rightarrow> None)"

definition decode_clear_change :: "json \<Rightarrow> (goal_error, goal_change) result" where
  "decode_clear_change v =
     and_then (reject_if (sorted_keys v \<noteq> ''cleared,clearedAt,kind,operation,version'') ClearKeys) (\<lambda>_.
     and_then (decode_ref (jfield ''cleared'' v)) (\<lambda>ref.
     and_then (non_negative_integer ''clearedAt'' (jfield ''clearedAt'' v)) (\<lambda>cleared_at.
       Inr (ClearChange ref cleared_at))))"

definition decode_snapshot_change :: "json \<Rightarrow> (goal_error, goal_change) result" where
  "decode_snapshot_change v =
     (case snapshot_operation_of (jfield ''operation'' v) of
        None \<Rightarrow> Inl OperationInvalid
      | Some p \<Rightarrow>
          and_then (reject_if (sorted_keys v \<noteq> ''createdAt,goal,kind,operation,roundsStarted,updatedAt,version'')
                      ChangeKeys) (\<lambda>_.
          and_then (non_negative_integer ''createdAt'' (jfield ''createdAt'' v)) (\<lambda>created.
          and_then (non_negative_integer ''updatedAt'' (jfield ''updatedAt'' v)) (\<lambda>updated.
          and_then (reject_if (updated < created) UpdatedBeforeCreated) (\<lambda>_.
          and_then (decode_snapshot (jfield ''goal'' v)) (\<lambda>g.
          and_then (non_negative_integer ''roundsStarted'' (jfield ''roundsStarted'' v)) (\<lambda>rounds.
            Inr (SnapshotChange p g rounds created updated))))))))"

definition decode_goal_change :: "json \<Rightarrow> (goal_error, goal_change option) result" where
  "decode_goal_change v =
     (if \<not> is_jobj v \<or> jfield ''kind'' v \<noteq> JStr ''goal/change'' then Inr None
      else and_then (reject_if (jfield ''version'' v \<noteq> JNum (JInt GOAL_CHANGE_VERSION)) UnsupportedVersion) (\<lambda>_.
        and_then (if jfield ''operation'' v = JStr ''clear'' then decode_clear_change v
                  else decode_snapshot_change v) (\<lambda>c. Inr (Some c))))"

text \<open>A \<open>goal\<close> message source: the goal's id, its revision and the admitted round.\<close>

definition goal_source :: "message_source \<Rightarrow> (goal_error, (goal_ref \<times> int) option) result" where
  "goal_source src =
     (case src of
        OtherSource k fs \<Rightarrow>
          if k \<noteq> ''goal'' then Inr None
          else
            (let v = JObj fs;
                 revision = positive_integer ''revision'' (jfield ''revision'' v);
                 n = positive_integer ''round'' (jfield ''round'' v)
             in and_then (reject_if (\<not> non_empty_text (jfield ''goalId'' v)) GoalSourceInvalid) (\<lambda>_.
                and_then (rethrow (\<lambda>_. GoalSourceInvalid) revision) (\<lambda>rev.
                and_then (rethrow (\<lambda>_. GoalSourceInvalid) n) (\<lambda>rnd.
                  Inr (Some (\<lparr>gr_id = str_of (jfield ''goalId'' v), gr_revision = rev\<rparr>, rnd))))))
      | _ \<Rightarrow> Inr None)"

section \<open>The fold\<close>

record goal_fold =
  gf_goal :: "goal_snapshot option"
  gf_rounds :: int
  gf_created :: "int option"
  gf_updated :: "int option"
  gf_last_ref :: "goal_ref option"
  gf_seen :: "string list"

definition empty_goal_fold :: goal_fold where
  "empty_goal_fold =
     \<lparr>gf_goal = None, gf_rounds = 0, gf_created = None, gf_updated = None, gf_last_ref = None, gf_seen = []\<rparr>"

definition require_same_definition ::
    "goal_snapshot \<Rightarrow> goal_snapshot \<Rightarrow> goal_operation \<Rightarrow> (goal_error, unit) result" where
  "require_same_definition current new p =
     reject_if (gs_objective new \<noteq> gs_objective current \<or> gs_max_rounds new \<noteq> gs_max_rounds current)
       (DefinitionChanged p)"

definition snapshot_ref :: "goal_snapshot \<Rightarrow> goal_ref" where
  "snapshot_ref g = \<lparr>gr_id = gs_id g, gr_revision = gs_revision g\<rparr>"

definition require_next_revision ::
    "goal_snapshot \<Rightarrow> goal_ref \<Rightarrow> goal_operation \<Rightarrow> (goal_error, unit) result" where
  "require_next_revision current new p =
     reject_if (gr_id new \<noteq> gs_id current \<or> gr_revision new \<noteq> gs_revision current + 1) (NotNextRevision p)"

text \<open>The phase rules of one operation (the \<open>switch\<close>); \<open>create\<close> and \<open>clear\<close> never reach it.\<close>

definition check_operation ::
    "goal_fold \<Rightarrow> goal_operation \<Rightarrow> goal_snapshot \<Rightarrow> goal_snapshot \<Rightarrow> (goal_error, unit) result" where
  "check_operation st p new current =
     (case p of
        OpEdit \<Rightarrow> reject_if (gs_phase new \<noteq> gs_phase current \<or> gs_reason new \<noteq> gs_reason current) (BadTransition p)
      | OpPause \<Rightarrow>
          and_then (require_same_definition current new p) (\<lambda>_.
            reject_if (gs_phase current \<noteq> PhActive \<or> gs_phase new \<noteq> PhPaused) (BadTransition p))
      | OpResume \<Rightarrow>
          and_then (require_same_definition current new p) (\<lambda>_.
            reject_if (gs_phase current \<notin> {PhActive, PhPaused, PhBlocked} \<or> gs_phase new \<noteq> PhActive
              \<or> gs_max_rounds new \<le> gf_rounds st) (BadTransition p))
      | OpComplete \<Rightarrow>
          and_then (require_same_definition current new p) (\<lambda>_.
            reject_if (gs_phase current = PhComplete \<or> gs_phase new \<noteq> PhComplete) (BadTransition p))
      | OpBlock \<Rightarrow>
          and_then (require_same_definition current new p) (\<lambda>_.
            reject_if (gs_phase current \<noteq> PhActive \<or> gs_phase new \<noteq> PhBlocked) (BadTransition p))
      | OpCreate \<Rightarrow> Inl (BadTransition p)
      | OpClear \<Rightarrow> Inl OperationInvalid)"

definition validate_snapshot_transition ::
    "goal_fold \<Rightarrow> goal_operation \<Rightarrow> goal_snapshot \<Rightarrow> int \<Rightarrow> int \<Rightarrow> int \<Rightarrow> goal_snapshot \<Rightarrow> (goal_error, unit) result" where
  "validate_snapshot_transition st p new rounds created updated current =
     and_then (require_next_revision current (snapshot_ref new) p) (\<lambda>_.
       case gf_updated st of
         None \<Rightarrow> Inl LacksUpdatedAt
       | Some last_updated \<Rightarrow>
           and_then (reject_if (Some created \<noteq> gf_created st \<or> updated < last_updated \<or> rounds \<noteq> gf_rounds st)
                       (CountersChanged p)) (\<lambda>_.
             check_operation st p new current))"

definition goal_change_ref :: "goal_change \<Rightarrow> goal_ref" where
  "goal_change_ref c = (case c of ClearChange r _ \<Rightarrow> r | SnapshotChange _ g _ _ _ \<Rightarrow> snapshot_ref g)"

text \<open>Every check of a change precedes its first assignment, so a rejected change leaves the
  accumulator as it was.\<close>

definition apply_clear :: "goal_ref \<Rightarrow> int \<Rightarrow> goal_fold \<Rightarrow> (goal_error, goal_fold) result" where
  "apply_clear ref cleared_at st =
     (case gf_goal st of
        None \<Rightarrow> Inl (NoCurrentGoal OpClear)
      | Some current \<Rightarrow>
          and_then (require_next_revision current ref OpClear) (\<lambda>_.
            case gf_updated st of
              None \<Rightarrow> Inl LacksUpdatedAt
            | Some last_updated \<Rightarrow>
                and_then (reject_if (cleared_at < last_updated) ClearTooEarly) (\<lambda>_.
                  Inr (st\<lparr>gf_goal := None, gf_rounds := 0, gf_created := None, gf_updated := None,
                          gf_last_ref := Some ref\<rparr>))))"

definition check_snapshot_change ::
    "goal_operation \<Rightarrow> goal_snapshot \<Rightarrow> int \<Rightarrow> int \<Rightarrow> int \<Rightarrow> goal_fold \<Rightarrow> (goal_error, goal_fold) result" where
  "check_snapshot_change p g rounds created updated st =
     (if p = OpCreate then
        and_then (reject_if (gs_revision g \<noteq> 1 \<or> gs_phase g \<noteq> PhActive \<or> rounds \<noteq> 0
            \<or> (\<exists>c \<in> set_option (gf_goal st). gs_phase c \<noteq> PhComplete) \<or> gs_id g \<in> set (gf_seen st))
          CreateNotFresh) (\<lambda>_. Inr (st\<lparr>gf_seen := gf_seen st @ [gs_id g]\<rparr>))
      else (case gf_goal st of
              None \<Rightarrow> Inl (NoCurrentGoal p)
            | Some current \<Rightarrow>
                and_then (validate_snapshot_transition st p g rounds created updated current) (\<lambda>_. Inr st)))"

definition apply_goal_change :: "goal_change \<Rightarrow> goal_fold \<Rightarrow> (goal_error, goal_fold) result" where
  "apply_goal_change c st =
     (case c of
        ClearChange ref cleared_at \<Rightarrow> apply_clear ref cleared_at st
      | SnapshotChange p g rounds created updated \<Rightarrow>
          and_then (check_snapshot_change p g rounds created updated st) (\<lambda>st'.
            Inr (st'\<lparr>gf_goal := Some g, gf_rounds := rounds, gf_created := Some created,
                     gf_updated := Some updated, gf_last_ref := Some (goal_change_ref c)\<rparr>)))"

definition apply_goal_round :: "nat \<Rightarrow> goal_ref \<Rightarrow> int \<Rightarrow> goal_fold \<Rightarrow> (goal_error, goal_fold) result" where
  "apply_goal_round n ref rnd st =
     (case gf_goal st of
        None \<Rightarrow> Inl (RoundNotNext n)
      | Some current \<Rightarrow>
          and_then (reject_if (gs_phase current \<noteq> PhActive \<or> gr_id ref \<noteq> gs_id current
              \<or> gr_revision ref \<noteq> gs_revision current \<or> rnd \<noteq> gf_rounds st + 1 \<or> gs_max_rounds current < rnd)
            (RoundNotNext n)) (\<lambda>_. Inr (st\<lparr>gf_rounds := rnd\<rparr>)))"

definition apply_goal_event :: "session_event \<Rightarrow> goal_fold \<Rightarrow> (goal_error, goal_fold) result" where
  "apply_goal_event e st =
     (case ev_payload e of
        GoalChange v \<Rightarrow>
          and_then (decode_goal_change v) (\<lambda>c.
            case c of None \<Rightarrow> Inl (KindInvalid (ev_seq e)) | Some c \<Rightarrow> apply_goal_change c st)
      | UserMessageEvent m \<Rightarrow>
          and_then (goal_source (um_source m)) (\<lambda>src.
            case src of None \<Rightarrow> Inr st | Some (ref, rnd) \<Rightarrow> apply_goal_round (ev_seq e) ref rnd st)
      | _ \<Rightarrow> Inr st)"

definition goal_replay :: "session_event list \<Rightarrow> (goal_error, goal_fold) result" where
  "goal_replay es = fold_result apply_goal_event es empty_goal_fold"

text \<open>\<open>FoldedGoal\<close>: the accumulator without the identities seen.\<close>

record folded_goal =
  fg_goal :: "goal_snapshot option"
  fg_rounds :: int
  fg_created :: "int option"
  fg_updated :: "int option"
  fg_last_ref :: "goal_ref option"

definition fold_goal :: "session_event list \<Rightarrow> (goal_error, folded_goal) result" where
  "fold_goal es = and_then (goal_replay es) (\<lambda>st.
     Inr \<lparr>fg_goal = gf_goal st, fg_rounds = gf_rounds st, fg_created = gf_created st,
          fg_updated = gf_updated st, fg_last_ref = gf_last_ref st\<rparr>)"

section \<open>Encoding, and what the decoder accepts\<close>

text \<open>The stored form of a change (\<open>GoalSnapshot\<close>, \<open>GoalSnapshotChangeMeta\<close>, \<open>GoalClearChangeMeta\<close>).\<close>

definition reason_obj :: "block_reason \<Rightarrow> json" where
  "reason_obj r = JObj [(''code'', JStr (br_code r)), (''message'', JStr (br_message r))]"

definition ref_obj :: "goal_ref \<Rightarrow> json" where
  "ref_obj r = JObj [(''id'', JStr (gr_id r)), (''revision'', jint (gr_revision r))]"

definition snapshot_obj :: "goal_snapshot \<Rightarrow> json" where
  "snapshot_obj g =
     JObj ([(''id'', JStr (gs_id g)), (''revision'', jint (gs_revision g)), (''objective'', JStr (gs_objective g)),
            (''phase'', JStr (phase_name (gs_phase g))), (''maxGoalRounds'', jint (gs_max_rounds g))]
       @ opt_field ''blockedReason'' (map_option reason_obj (gs_reason g)))"

fun change_obj :: "goal_change \<Rightarrow> json" where
  "change_obj (SnapshotChange p g rounds created updated) =
     JObj [(''kind'', JStr ''goal/change''), (''version'', jint GOAL_CHANGE_VERSION),
           (''operation'', JStr (operation_name p)), (''goal'', snapshot_obj g),
           (''roundsStarted'', jint rounds), (''createdAt'', jint created), (''updatedAt'', jint updated)]"
| "change_obj (ClearChange r cleared_at) =
     JObj [(''kind'', JStr ''goal/change''), (''version'', jint GOAL_CHANGE_VERSION),
           (''operation'', JStr ''clear''), (''cleared'', ref_obj r), (''clearedAt'', jint cleared_at)]"

definition safe_positive :: "int \<Rightarrow> bool" where
  "safe_positive i \<longleftrightarrow> 1 \<le> i \<and> i \<le> MAX_SAFE_INTEGER"

definition safe_non_negative :: "int \<Rightarrow> bool" where
  "safe_non_negative i \<longleftrightarrow> 0 \<le> i \<and> i \<le> MAX_SAFE_INTEGER"

definition text_ok :: "string \<Rightarrow> bool" where
  "text_ok s \<longleftrightarrow> s \<noteq> [] \<and> trim s = s"

definition reason_ok :: "block_reason \<Rightarrow> bool" where
  "reason_ok r \<longleftrightarrow> lower_kebab (br_code r) \<and> text_ok (br_message r)"

definition ref_ok :: "goal_ref \<Rightarrow> bool" where
  "ref_ok r \<longleftrightarrow> gr_id r \<noteq> [] \<and> safe_positive (gr_revision r)"

definition snapshot_ok :: "goal_snapshot \<Rightarrow> bool" where
  "snapshot_ok g \<longleftrightarrow> gs_id g \<noteq> [] \<and> safe_positive (gs_revision g) \<and> text_ok (gs_objective g)
     \<and> safe_positive (gs_max_rounds g)
     \<and> (case gs_reason g of None \<Rightarrow> gs_phase g \<noteq> PhBlocked | Some r \<Rightarrow> gs_phase g = PhBlocked \<and> reason_ok r)"

fun change_ok :: "goal_change \<Rightarrow> bool" where
  "change_ok (SnapshotChange p g rounds created updated) \<longleftrightarrow>
     p \<noteq> OpClear \<and> snapshot_ok g \<and> safe_non_negative rounds \<and> safe_non_negative created
     \<and> safe_non_negative updated \<and> created \<le> updated"
| "change_ok (ClearChange r cleared_at) \<longleftrightarrow> ref_ok r \<and> safe_non_negative cleared_at"

lemmas goal_ok_defs = snapshot_ok_def reason_ok_def ref_ok_def text_ok_def safe_positive_def safe_non_negative_def

lemma safe_integer_bound: "is_safe_integer n \<Longrightarrow> jnum_int n \<le> MAX_SAFE_INTEGER"
  by (cases n) (auto simp: MAX_SAFE_INTEGER_def)

lemma positive_integer_Inr: "positive_integer l v = Inr i \<Longrightarrow> safe_positive i"
  by (cases v) (auto simp: positive_integer_def safe_positive_def split: if_splits dest: safe_integer_bound)

lemma non_negative_integer_Inr: "non_negative_integer l v = Inr i \<Longrightarrow> safe_non_negative i"
  by (cases v) (auto simp: non_negative_integer_def safe_non_negative_def split: if_splits dest: safe_integer_bound)

lemma positive_integer_jint: "positive_integer l (jint i) = (if safe_positive i then Inr i else Inl (NotPositive l))"
  by (auto simp: positive_integer_def safe_positive_def MAX_SAFE_INTEGER_def)

lemma non_negative_integer_jint:
  "non_negative_integer l (jint i) = (if safe_non_negative i then Inr i else Inl (NotNonNegative l))"
  by (auto simp: non_negative_integer_def safe_non_negative_def MAX_SAFE_INTEGER_def)

lemma normalized_text_ok: "normalized_text v \<Longrightarrow> text_ok (str_of v)"
  by (auto simp: normalized_text_def text_ok_def)

lemma normalized_text_str [simp]: "normalized_text (JStr s) \<longleftrightarrow> text_ok s"
  by (auto simp: normalized_text_def text_ok_def)

lemma non_empty_text_str [simp]: "non_empty_text (JStr s) \<longleftrightarrow> s \<noteq> []"
  by (simp add: non_empty_text_def)

lemma decode_block_reason_ok: "decode_block_reason v = Inr r \<Longrightarrow> reason_ok r"
  by (auto simp: decode_block_reason_def and_then_Inr_iff reason_ok_def dest: normalized_text_ok)

lemma decode_ref_ok: "decode_ref v = Inr r \<Longrightarrow> ref_ok r"
  by (auto simp: decode_ref_def and_then_Inr_iff ref_ok_def non_empty_text_def dest: positive_integer_Inr)

lemma decode_snapshot_ok: "decode_snapshot v = Inr g \<Longrightarrow> snapshot_ok g"
  by (auto simp: decode_snapshot_def and_then_Inr_iff snapshot_ok_def non_empty_text_def
      split: option.splits if_splits
      dest: positive_integer_Inr normalized_text_ok decode_block_reason_ok)

lemma snapshot_operation_not_clear: "snapshot_operation_of v = Some p \<Longrightarrow> p \<noteq> OpClear"
  by (auto simp: snapshot_operation_of_def split: json.splits if_splits)

lemma decode_goal_change_ok: "decode_goal_change v = Inr (Some c) \<Longrightarrow> change_ok c"
  by (auto simp: decode_goal_change_def decode_clear_change_def decode_snapshot_change_def and_then_Inr_iff
      split: if_splits option.splits
      dest: decode_ref_ok decode_snapshot_ok non_negative_integer_Inr snapshot_operation_not_clear)

lemma sorted_keys_of:
  "jkeys v = ks \<Longrightarrow> join_comma (sort ks) = s \<Longrightarrow> sorted_keys v = s"
  by (simp add: sorted_keys_def)

lemma reason_obj_keys: "sorted_keys (reason_obj r) = ''code,message''"
  by (simp add: sorted_keys_def reason_obj_def)

lemma ref_obj_keys: "sorted_keys (ref_obj r) = ''id,revision''"
  by (simp add: sorted_keys_def ref_obj_def)

lemma snapshot_obj_keys:
  "gs_reason g \<noteq> None \<longleftrightarrow> gs_phase g = PhBlocked \<Longrightarrow> sorted_keys (snapshot_obj g) = snapshot_keys (gs_phase g)"
  by (cases "gs_reason g") (simp_all add: sorted_keys_def snapshot_obj_def snapshot_keys_def opt_field_def)

lemma snapshot_ok_reason_iff: "snapshot_ok g \<Longrightarrow> gs_reason g \<noteq> None \<longleftrightarrow> gs_phase g = PhBlocked"
  by (cases "gs_reason g") (auto simp: snapshot_ok_def)

lemma phase_of_name [simp]: "phase_of (JStr (phase_name p)) = Some p"
  by (cases p) (simp_all add: phase_of_def)

lemmas phase_of_literal [simp] =
  phase_of_name [of PhActive, unfolded phase_name.simps] phase_of_name [of PhPaused, unfolded phase_name.simps]
  phase_of_name [of PhBlocked, unfolded phase_name.simps] phase_of_name [of PhComplete, unfolded phase_name.simps]

lemma operation_of_name:
  "snapshot_operation_of (JStr (operation_name p)) = (if p = OpClear then None else Some p)"
  by (cases p) (simp_all add: snapshot_operation_of_def)

lemma operation_name_clear [simp]: "operation_name p = ''clear'' \<longleftrightarrow> p = OpClear"
  by (cases p) simp_all

lemma decode_reason_obj: "reason_ok r \<Longrightarrow> decode_block_reason (reason_obj r) = Inr r"
  unfolding decode_block_reason_def reason_obj_keys
  by (simp add: reason_obj_def jfield_def reason_ok_def)

lemma decode_ref_obj: "ref_ok r \<Longrightarrow> decode_ref (ref_obj r) = Inr r"
  unfolding decode_ref_def ref_obj_keys
  by (simp add: ref_obj_def jfield_def ref_ok_def positive_integer_jint)

lemma snapshot_obj_fields:
  "is_jobj (snapshot_obj g)"
  "jfield ''id'' (snapshot_obj g) = JStr (gs_id g)"
  "jfield ''revision'' (snapshot_obj g) = jint (gs_revision g)"
  "jfield ''objective'' (snapshot_obj g) = JStr (gs_objective g)"
  "jfield ''phase'' (snapshot_obj g) = JStr (phase_name (gs_phase g))"
  "jfield ''maxGoalRounds'' (snapshot_obj g) = jint (gs_max_rounds g)"
  "gs_reason g = Some r \<Longrightarrow> jfield ''blockedReason'' (snapshot_obj g) = reason_obj r"
  by (simp_all add: snapshot_obj_def jfield_def opt_field_def)

lemma decode_snapshot_obj:
  assumes "snapshot_ok g"
  shows "decode_snapshot (snapshot_obj g) = Inr g"
proof -
  have keys: "sorted_keys (snapshot_obj g) = snapshot_keys (gs_phase g)"
    by (rule snapshot_obj_keys [OF snapshot_ok_reason_iff [OF assms]])
  show ?thesis
    using assms unfolding decode_snapshot_def keys
    by (cases g; cases "gs_reason g")
      (simp_all add: snapshot_obj_fields snapshot_ok_def positive_integer_jint decode_reason_obj)
qed

lemma change_obj_keys:
  "sorted_keys (change_obj (ClearChange r t)) = ''cleared,clearedAt,kind,operation,version''"
  "sorted_keys (change_obj (SnapshotChange p g n c u)) = ''createdAt,goal,kind,operation,roundsStarted,updatedAt,version''"
  by (simp_all add: sorted_keys_def)

lemma change_obj_head:
  "is_jobj (change_obj c)" "jfield ''kind'' (change_obj c) = JStr ''goal/change''"
  "jfield ''version'' (change_obj c) = JNum (JInt GOAL_CHANGE_VERSION)"
  by (cases c; simp add: jfield_def)+

lemma decode_change_obj: "change_ok c \<Longrightarrow> decode_goal_change (change_obj c) = Inr (Some c)"
proof (cases c)
  case (SnapshotChange p g n cr u)
  assume ok: "change_ok c"
  have "decode_snapshot_change (change_obj c) = Inr c"
    using ok unfolding decode_snapshot_change_def SnapshotChange change_obj_keys
    by (simp add: jfield_def operation_of_name non_negative_integer_jint decode_snapshot_obj)
  moreover have "jfield ''operation'' (change_obj c) \<noteq> JStr ''clear''"
    using ok by (simp add: SnapshotChange jfield_def)
  ultimately show ?thesis by (simp add: decode_goal_change_def change_obj_head)
next
  case (ClearChange r t)
  assume ok: "change_ok c"
  have "decode_clear_change (change_obj c) = Inr c"
    using ok unfolding decode_clear_change_def ClearChange change_obj_keys
    by (simp add: jfield_def non_negative_integer_jint decode_ref_obj)
  moreover have "jfield ''operation'' (change_obj c) = JStr ''clear''"
    by (simp add: ClearChange jfield_def)
  ultimately show ?thesis by (simp add: decode_goal_change_def change_obj_head)
qed

text \<open>
  The strict decoder and the stored form agree: a change survives being stored and read
  back exactly when it is valid (safe positive revisions and round caps, normalised texts, a
  blocker explanation exactly in the blocked phase, times in order), and whatever JSON was
  stored, a decoded change is valid.
\<close>

theorem goal_change_roundtrip:
  "(decode_goal_change (change_obj c) = Inr (Some c) \<longleftrightarrow> change_ok c)
   \<and> (decode_goal_change v = Inr (Some d) \<longrightarrow> change_ok d)"
  using decode_change_obj decode_goal_change_ok by blast

section \<open>Invariant of the fold\<close>

definition goal_inv :: "goal_fold \<Rightarrow> bool" where
  "goal_inv st \<longleftrightarrow> distinct (gf_seen st) \<and>
     (case gf_goal st of
        None \<Rightarrow> gf_rounds st = 0 \<and> gf_created st = None \<and> gf_updated st = None
      | Some g \<Rightarrow> snapshot_ok g \<and> gs_id g \<in> set (gf_seen st) \<and> safe_non_negative (gf_rounds st)
          \<and> gf_last_ref st = Some (snapshot_ref g)
          \<and> (\<exists>c u. gf_created st = Some c \<and> gf_updated st = Some u \<and> safe_non_negative c
               \<and> safe_non_negative u \<and> c \<le> u))"

lemma goal_inv_empty [simp]: "goal_inv empty_goal_fold"
  by (simp add: goal_inv_def empty_goal_fold_def)

lemma apply_clear_Inr:
  assumes "apply_clear ref t st = Inr st'"
  obtains g u where "gf_goal st = Some g" and "gr_id ref = gs_id g" and "gr_revision ref = gs_revision g + 1"
    and "gf_updated st = Some u" and "u \<le> t"
    and "st' = st\<lparr>gf_goal := None, gf_rounds := 0, gf_created := None, gf_updated := None, gf_last_ref := Some ref\<rparr>"
  using assms that
  by (auto simp: apply_clear_def and_then_Inr_iff require_next_revision_def split: option.splits)

lemma apply_create_Inr:
  assumes "apply_goal_change (SnapshotChange OpCreate g n c u) st = Inr st'"
  shows "gs_revision g = 1 \<and> gs_phase g = PhActive \<and> n = 0 \<and> gs_id g \<notin> set (gf_seen st)
     \<and> (\<forall>h. gf_goal st = Some h \<longrightarrow> gs_phase h = PhComplete)
     \<and> st' = \<lparr>gf_goal = Some g, gf_rounds = 0, gf_created = Some c, gf_updated = Some u,
              gf_last_ref = Some (snapshot_ref g), gf_seen = gf_seen st @ [gs_id g]\<rparr>"
  using assms
  by (auto simp: apply_goal_change_def check_snapshot_change_def and_then_Inr_iff goal_change_ref_def)

lemma apply_update_Inr:
  assumes "apply_goal_change (SnapshotChange p g n c u) st = Inr st'" and "p \<noteq> OpCreate"
  obtains h lu where "gf_goal st = Some h" and "gs_id g = gs_id h" and "gs_revision g = gs_revision h + 1"
    and "n = gf_rounds st" and "gf_created st = Some c" and "gf_updated st = Some lu" and "lu \<le> u"
    and "check_operation st p g h = Inr ()"
    and "st' = st\<lparr>gf_goal := Some g, gf_updated := Some u, gf_last_ref := Some (snapshot_ref g)\<rparr>"
  using assms that
  by (auto simp: apply_goal_change_def check_snapshot_change_def and_then_Inr_iff goal_change_ref_def
      validate_snapshot_transition_def require_next_revision_def snapshot_ref_def split: option.splits)

lemma apply_round_Inr:
  assumes "apply_goal_round k ref rnd st = Inr st'"
  obtains g where "gf_goal st = Some g" and "gs_phase g = PhActive" and "ref = snapshot_ref g"
    and "rnd = gf_rounds st + 1" and "rnd \<le> gs_max_rounds g" and "st' = st\<lparr>gf_rounds := rnd\<rparr>"
  using assms that
  by (auto simp: apply_goal_round_def and_then_Inr_iff snapshot_ref_def split: option.splits)

lemma apply_clear_inv: "goal_inv st \<Longrightarrow> apply_clear ref t st = Inr st' \<Longrightarrow> goal_inv st'"
  by (erule apply_clear_Inr) (auto simp: goal_inv_def)

lemma apply_goal_change_inv:
  assumes inv: "goal_inv st" and step: "apply_goal_change c st = Inr st'" and ok: "change_ok c"
  shows "goal_inv st'"
proof (cases c)
  case (ClearChange ref t)
  then show ?thesis using inv step apply_clear_inv by (auto simp: apply_goal_change_def)
next
  case (SnapshotChange p g n cr u)
  show ?thesis
  proof (cases "p = OpCreate")
    case True
    with step SnapshotChange have "apply_goal_change (SnapshotChange OpCreate g n cr u) st = Inr st'" by simp
    then show ?thesis
      using inv ok SnapshotChange by (auto simp: goal_inv_def safe_non_negative_def dest!: apply_create_Inr)
  next
    case False
    from step SnapshotChange have "apply_goal_change (SnapshotChange p g n cr u) st = Inr st'" by simp
    then show ?thesis using False
      by (rule apply_update_Inr) (use inv ok SnapshotChange in \<open>auto simp: goal_inv_def\<close>)
  qed
qed

lemma apply_goal_round_inv: "goal_inv st \<Longrightarrow> apply_goal_round k ref rnd st = Inr st' \<Longrightarrow> goal_inv st'"
  by (erule apply_round_Inr) (auto simp: goal_inv_def snapshot_ok_def safe_non_negative_def safe_positive_def)

text \<open>What one accepted event did: nothing, a valid change, or the next round of the current goal.\<close>

definition event_change :: "session_event \<Rightarrow> goal_change option" where
  "event_change e =
     (case ev_payload e of
        GoalChange v \<Rightarrow> (case decode_goal_change v of Inr (Some c) \<Rightarrow> Some c | _ \<Rightarrow> None)
      | _ \<Rightarrow> None)"

definition event_round :: "session_event \<Rightarrow> (goal_ref \<times> int) option" where
  "event_round e =
     (case ev_payload e of
        UserMessageEvent m \<Rightarrow> (case goal_source (um_source m) of Inr (Some r) \<Rightarrow> Some r | _ \<Rightarrow> None)
      | _ \<Rightarrow> None)"

lemma apply_goal_event_Inr:
  assumes "apply_goal_event e st = Inr st'"
  obtains (change) c where "event_change e = Some c" and "event_round e = None" and "change_ok c"
      and "apply_goal_change c st = Inr st'"
  | (rnd) ref k where "event_round e = Some (ref, k)" and "event_change e = None"
      and "apply_goal_round (ev_seq e) ref k st = Inr st'"
  | (unrelated) "event_change e = None" and "event_round e = None" and "st' = st"
proof (cases "ev_payload e")
  case (GoalChange v)
  with assms obtain c where "decode_goal_change v = Inr (Some c)" "apply_goal_change c st = Inr st'"
    by (auto simp: apply_goal_event_def and_then_Inr_iff split: option.splits)
  then show ?thesis using GoalChange that(1) decode_goal_change_ok
    by (simp add: event_change_def event_round_def)
next
  case (UserMessageEvent m)
  with assms obtain r where r: "goal_source (um_source m) = Inr r"
    and step: "(case r of None \<Rightarrow> Inr st | Some (ref, k) \<Rightarrow> apply_goal_round (ev_seq e) ref k st) = Inr st'"
    by (auto simp: apply_goal_event_def and_then_Inr_iff)
  show ?thesis
    using that(2,3) step UserMessageEvent r
    by (cases r) (auto simp: event_change_def event_round_def split: prod.splits)
qed (use assms that(3) in \<open>simp_all add: apply_goal_event_def event_change_def event_round_def\<close>)

lemma apply_goal_event_inv: "goal_inv st \<Longrightarrow> apply_goal_event e st = Inr st' \<Longrightarrow> goal_inv st'"
  by (erule apply_goal_event_Inr) (auto intro: apply_goal_change_inv apply_goal_round_inv)

lemma goal_replay_snoc: "goal_replay (es @ [e]) = and_then (goal_replay es) (apply_goal_event e)"
  by (simp add: goal_replay_def fold_result_snoc)

lemma goal_replay_append: "goal_replay (es @ fs) = and_then (goal_replay es) (fold_result apply_goal_event fs)"
  by (simp add: goal_replay_def fold_result_append)

lemma goal_replay_Nil [simp]: "goal_replay [] = Inr empty_goal_fold"
  by (simp add: goal_replay_def)

lemma goal_replay_inv: "goal_replay es = Inr st \<Longrightarrow> goal_inv st"
  unfolding goal_replay_def by (rule fold_result_inv [where P = goal_inv]) (auto intro: apply_goal_event_inv)

section \<open>Revisions and rounds are numbered\<close>

text \<open>The revisions the log records for a goal, and the rounds it admitted for it, in log order.\<close>

definition goal_revisions :: "string \<Rightarrow> session_event list \<Rightarrow> int list" where
  "goal_revisions i es = map gr_revision (filter (\<lambda>r. gr_id r = i) (map goal_change_ref (List.map_filter event_change es)))"

definition goal_rounds :: "string \<Rightarrow> session_event list \<Rightarrow> int list" where
  "goal_rounds i es = map snd (filter (\<lambda>r. gr_id (fst r) = i) (List.map_filter event_round es))"

definition counts_ok :: "string \<Rightarrow> int \<Rightarrow> int \<Rightarrow> session_event list \<Rightarrow> goal_fold \<Rightarrow> bool" where
  "counts_ok i n m es st \<longleftrightarrow> 0 \<le> n \<and> 0 \<le> m \<and> goal_revisions i es = [1 .. n] \<and> goal_rounds i es = [1 .. m]
     \<and> (i \<notin> set (gf_seen st) \<longrightarrow> n = 0 \<and> m = 0)
     \<and> (\<forall>g. gf_goal st = Some g \<and> gs_id g = i \<longrightarrow> gs_revision g = n \<and> gf_rounds st = m)"

lemma goal_revisions_snoc:
  "goal_revisions i (es @ [e]) = goal_revisions i es
     @ (case event_change e of None \<Rightarrow> [] | Some c \<Rightarrow>
          if gr_id (goal_change_ref c) = i then [gr_revision (goal_change_ref c)] else [])"
  by (simp add: goal_revisions_def List.map_filter_def split: option.splits)

lemma goal_rounds_snoc:
  "goal_rounds i (es @ [e]) = goal_rounds i es
     @ (case event_round e of None \<Rightarrow> [] | Some r \<Rightarrow> if gr_id (fst r) = i then [snd r] else [])"
  by (simp add: goal_rounds_def List.map_filter_def split: option.splits)

lemma upto_next: "0 \<le> n \<Longrightarrow> [1 .. n] @ [n + 1] = [1 .. n + 1 :: int]"
  by (simp add: upto_rec2)

lemma counts_change_self:
  assumes "counts_ok i n m es st" and "event_change e = Some c" and "event_round e = None"
    and "goal_change_ref c = \<lparr>gr_id = i, gr_revision = n + 1\<rparr>" and "i \<in> set (gf_seen st')"
    and "\<And>g. gf_goal st' = Some g \<Longrightarrow> gs_id g = i \<Longrightarrow> gs_revision g = n + 1 \<and> gf_rounds st' = m"
  shows "counts_ok i (n + 1) m (es @ [e]) st'"
  using assms by (simp add: counts_ok_def goal_revisions_snoc goal_rounds_snoc upto_next)

lemma counts_change_other:
  assumes "counts_ok i n m es st" and "event_change e = Some c" and "event_round e = None"
    and "gr_id (goal_change_ref c) \<noteq> i" and "i \<in> set (gf_seen st') \<longleftrightarrow> i \<in> set (gf_seen st)"
    and "\<And>g. gf_goal st' = Some g \<Longrightarrow> gs_id g \<noteq> i"
  shows "counts_ok i n m (es @ [e]) st'"
  using assms by (auto simp: counts_ok_def goal_revisions_snoc goal_rounds_snoc)

lemma counts_round:
  assumes "counts_ok i n m es st" and "event_change e = None" and "event_round e = Some (ref, k)"
    and "gf_goal st = Some g" and "ref = snapshot_ref g" and "gs_id g \<in> set (gf_seen st)" and "k = gf_rounds st + 1"
  shows "counts_ok i n (if gs_id g = i then m + 1 else m) (es @ [e]) (st\<lparr>gf_rounds := k\<rparr>)"
  using assms by (auto simp: counts_ok_def goal_revisions_snoc goal_rounds_snoc snapshot_ref_def upto_next)

lemma counts_change:
  assumes ok: "counts_ok i n m es st" and inv: "goal_inv st"
    and e: "event_change e = Some c" "event_round e = None" and step: "apply_goal_change c st = Inr st'"
  shows "\<exists>n'. counts_ok i n' m (es @ [e]) st'"
proof (cases c)
  case (ClearChange ref t)
  with step have "apply_clear ref t st = Inr st'" by (simp add: apply_goal_change_def)
  then obtain g where g: "gf_goal st = Some g" "gr_id ref = gs_id g" "gr_revision ref = gs_revision g + 1"
    and st': "gf_goal st' = None" "gf_seen st' = gf_seen st" by (elim apply_clear_Inr) simp
  show ?thesis
  proof (cases "gs_id g = i")
    case True
    then have "gs_revision g = n" "i \<in> set (gf_seen st)" using ok inv g(1) by (auto simp: counts_ok_def goal_inv_def)
    then have "counts_ok i (n + 1) m (es @ [e]) st'"
      by (intro counts_change_self [OF ok e]) (simp_all add: ClearChange goal_change_ref_def st' g True)
    then show ?thesis ..
  next
    case False
    then have "counts_ok i n m (es @ [e]) st'"
      by (intro counts_change_other [OF ok e]) (simp_all add: ClearChange goal_change_ref_def st' g)
    then show ?thesis ..
  qed
next
  case (SnapshotChange p g k cr u)
  have ref: "goal_change_ref c = \<lparr>gr_id = gs_id g, gr_revision = gs_revision g\<rparr>"
    by (simp add: SnapshotChange goal_change_ref_def snapshot_ref_def)
  have facts: "gf_goal st' = Some g \<and> gs_id g \<in> set (gf_seen st')
      \<and> (gs_id g \<noteq> i \<longrightarrow> i \<in> set (gf_seen st') \<longleftrightarrow> i \<in> set (gf_seen st))
      \<and> (gs_id g = i \<longrightarrow> gs_revision g = n + 1 \<and> gf_rounds st' = m)"
  proof (cases "p = OpCreate")
    case True
    with step SnapshotChange have "apply_goal_change (SnapshotChange OpCreate g k cr u) st = Inr st'" by simp
    from apply_create_Inr [OF this] show ?thesis
      using ok by (auto simp: counts_ok_def)
  next
    case False
    from step SnapshotChange have "apply_goal_change (SnapshotChange p g k cr u) st = Inr st'" by simp
    then obtain h where "gf_goal st = Some h" "gs_id g = gs_id h" "gs_revision g = gs_revision h + 1"
        "gf_goal st' = Some g" "gf_seen st' = gf_seen st" "gf_rounds st' = gf_rounds st"
      using False by (elim apply_update_Inr) simp_all
    then show ?thesis
      using ok inv by (auto simp: counts_ok_def goal_inv_def)
  qed
  show ?thesis
  proof (cases "gs_id g = i")
    case True
    then have "counts_ok i (n + 1) m (es @ [e]) st'"
      using facts by (intro counts_change_self [OF ok e]) (simp_all add: ref)
    then show ?thesis ..
  next
    case False
    then have "counts_ok i n m (es @ [e]) st'"
      using facts by (intro counts_change_other [OF ok e]) (simp_all add: ref)
    then show ?thesis ..
  qed
qed

lemma counts_step:
  assumes ok: "counts_ok i n m es st" and inv: "goal_inv st" and step: "apply_goal_event e st = Inr st'"
  shows "\<exists>n' m'. counts_ok i n' m' (es @ [e]) st'"
  using step
proof (cases rule: apply_goal_event_Inr)
  case (change c)
  then show ?thesis using counts_change [OF ok inv] by blast
next
  case (rnd ref k)
  from rnd(3) obtain g where g: "gf_goal st = Some g" "ref = snapshot_ref g" "k = gf_rounds st + 1"
    "st' = st\<lparr>gf_rounds := k\<rparr>" by (elim apply_round_Inr)
  then have "gs_id g \<in> set (gf_seen st)" using inv by (simp add: goal_inv_def)
  then show ?thesis using counts_round [OF ok rnd(2,1) g(1,2) _ g(3)] g(4) by blast
next
  case unrelated
  then have "counts_ok i n m (es @ [e]) st'" using ok by (auto simp: counts_ok_def goal_revisions_snoc goal_rounds_snoc)
  then show ?thesis by blast
qed

lemma goal_replay_counts: "goal_replay es = Inr st \<Longrightarrow> \<exists>n m. counts_ok i n m es st"
proof (induction es arbitrary: st rule: rev_induct)
  case Nil
  then have "counts_ok i 0 0 [] st"
    by (auto simp: counts_ok_def goal_revisions_def goal_rounds_def empty_goal_fold_def List.map_filter_def)
  then show ?case by blast
next
  case (snoc e es)
  then obtain st0 where st0: "goal_replay es = Inr st0" "apply_goal_event e st0 = Inr st"
    by (auto simp: goal_replay_snoc and_then_Inr_iff)
  with snoc.IH obtain n m where "counts_ok i n m es st0" by blast
  then show ?case using counts_step goal_replay_inv [OF st0(1)] st0(2) by blast
qed

text \<open>
  Claim C7. The durable goal history has no gap and no repetition: in a log the fold accepts, the
  revisions recorded for a goal are 1, 2, 3, ... in order, a clear included, the rounds admitted
  for it are 1, 2, 3, ..., and the current goal's revision and round counter are the last of them.
\<close>

theorem goal_stream_numbered:
  assumes "goal_replay es = Inr st"
  shows "goal_revisions i es = [1 .. int (length (goal_revisions i es))]
    \<and> goal_rounds i es = [1 .. int (length (goal_rounds i es))]
    \<and> (\<forall>g. gf_goal st = Some g \<and> gs_id g = i \<longrightarrow>
         gs_revision g = int (length (goal_revisions i es)) \<and> gf_rounds st = int (length (goal_rounds i es)))"
proof -
  from goal_replay_counts [OF assms] obtain n m where "counts_ok i n m es st" by blast
  then show ?thesis by (auto simp: counts_ok_def)
qed

section \<open>A completed goal stays complete\<close>

definition finished :: "string \<Rightarrow> int \<Rightarrow> goal_fold \<Rightarrow> bool" where
  "finished i n st \<longleftrightarrow> i \<in> set (gf_seen st)
     \<and> (\<forall>g. gf_goal st = Some g \<and> gs_id g = i \<longrightarrow> gs_phase g = PhComplete \<and> gf_rounds st = n)"

lemma finished_step:
  assumes fin: "finished i n st" and step: "apply_goal_event e st = Inr st'"
  shows "finished i n st'"
  using step
proof (cases rule: apply_goal_event_Inr)
  case (change c)
  show ?thesis
  proof (cases c)
    case (ClearChange ref t)
    with change have "apply_clear ref t st = Inr st'" by (simp add: apply_goal_change_def)
    then show ?thesis by (rule apply_clear_Inr) (use fin in \<open>auto simp: finished_def\<close>)
  next
    case (SnapshotChange p g k cr u)
    show ?thesis
    proof (cases "p = OpCreate")
      case True
      with change SnapshotChange have "apply_goal_change (SnapshotChange OpCreate g k cr u) st = Inr st'" by simp
      from apply_create_Inr [OF this] show ?thesis using fin by (auto simp: finished_def)
    next
      case False
      from change SnapshotChange have "apply_goal_change (SnapshotChange p g k cr u) st = Inr st'" by simp
      then show ?thesis using False
      proof (rule apply_update_Inr)
        fix h lu
        assume h: "gf_goal st = Some h" "gs_id g = gs_id h" and op: "check_operation st p g h = Inr ()"
          and st': "st' = st\<lparr>gf_goal := Some g, gf_updated := Some u, gf_last_ref := Some (snapshot_ref g)\<rparr>"
        have "gs_phase g = PhComplete" if "gs_phase h = PhComplete"
          using op that by (cases p) (auto simp: check_operation_def and_then_Inr_iff)
        then show ?thesis using fin h st' by (auto simp: finished_def)
      qed
    qed
  qed
next
  case (rnd ref k)
  from rnd(3) show ?thesis by (rule apply_round_Inr) (use fin in \<open>auto simp: finished_def\<close>)
next
  case unrelated
  then show ?thesis using fin by simp
qed

text \<open>
  Completion is final: however an accepted log goes on, a goal that was complete is
  never current again in another phase, and no round is admitted for it any more.
\<close>

theorem goal_completion_final:
  assumes "goal_replay es = Inr st" and "gf_goal st = Some g" and "gs_phase g = PhComplete"
    and "goal_replay (es @ fs) = Inr st'"
  shows "(\<forall>h. gf_goal st' = Some h \<and> gs_id h = gs_id g \<longrightarrow> gs_phase h = PhComplete)
    \<and> goal_rounds (gs_id g) (es @ fs) = goal_rounds (gs_id g) es"
proof -
  have "finished (gs_id g) (gf_rounds st) st"
    using assms(2,3) goal_replay_inv [OF assms(1)] by (auto simp: finished_def goal_inv_def)
  with assms(1,4) have "finished (gs_id g) (gf_rounds st) st'
      \<and> goal_rounds (gs_id g) (es @ fs) = goal_rounds (gs_id g) es"
  proof (induction fs arbitrary: st' rule: rev_induct)
    case Nil
    then show ?case by simp
  next
    case (snoc e fs)
    from snoc.prems obtain s where s: "goal_replay (es @ fs) = Inr s" and step: "apply_goal_event e s = Inr st'"
      by (auto simp: goal_replay_snoc and_then_Inr_iff simp flip: append_assoc)
    from snoc.IH [OF snoc.prems(1) s snoc.prems(3)] have
      IH: "finished (gs_id g) (gf_rounds st) s" "goal_rounds (gs_id g) (es @ fs) = goal_rounds (gs_id g) es" by auto
    have "\<not> (\<exists>ref k. event_round e = Some (ref, k) \<and> gr_id ref = gs_id g)"
      using step by (cases rule: apply_goal_event_Inr)
        (use IH(1) in \<open>auto simp: finished_def snapshot_ref_def elim!: apply_round_Inr\<close>)
    then have "goal_rounds (gs_id g) ((es @ fs) @ [e]) = goal_rounds (gs_id g) (es @ fs)"
      by (subst goal_rounds_snoc) (auto split: option.splits)
    then show ?case using finished_step [OF IH(1) step] IH(2) by simp
  qed
  then show ?thesis by (auto simp: finished_def)
qed

section \<open>Examples\<close>

lemma apply_change_event:
  "change_ok c \<Longrightarrow> apply_goal_event (log_event (GoalChange (change_obj c)) n) st = apply_goal_change c st"
  by (simp add: apply_goal_event_def log_event_def decode_change_obj)

definition example_goal :: goal_snapshot where
  "example_goal = \<lparr>gs_id = ''g'', gs_revision = 1, gs_objective = ''ship'', gs_phase = PhActive,
     gs_reason = None, gs_max_rounds = 2\<rparr>"

definition example_create :: goal_change where
  "example_create = SnapshotChange OpCreate example_goal 0 5 5"

definition example_complete :: goal_change where
  "example_complete = SnapshotChange OpComplete (example_goal\<lparr>gs_revision := 2, gs_phase := PhComplete\<rparr>) 1 5 7"

definition goal_message :: "string \<Rightarrow> int \<Rightarrow> int \<Rightarrow> user_message" where
  "goal_message i revision rnd =
     \<lparr>um_id = ''m'', um_content = [], um_source = OtherSource ''goal''
        [(''goalId'', JStr i), (''revision'', jint revision), (''round'', jint rnd)]\<rparr>"

definition goal_log :: "session_event list" where
  "goal_log =
     [log_event (GoalChange (change_obj example_create)) 0,
      append_event (UserMessageEvent (goal_message ''g'' 1 1)) 1,
      log_event (GoalChange (change_obj example_complete)) 2]"

definition goal_log_state :: goal_fold where
  "goal_log_state =
     \<lparr>gf_goal = Some (example_goal\<lparr>gs_revision := 2, gs_phase := PhComplete\<rparr>), gf_rounds = 1,
      gf_created = Some 5, gf_updated = Some 7, gf_last_ref = Some \<lparr>gr_id = ''g'', gr_revision = 2\<rparr>, gf_seen = [''g'']\<rparr>"

lemma trim_ship: "trim ''ship'' = ''ship''"
  by (simp add: trim_def is_space_def)

lemma example_changes_ok [simp]: "change_ok example_create" "change_ok example_complete"
  by (simp_all add: example_create_def example_complete_def example_goal_def goal_ok_defs MAX_SAFE_INTEGER_def trim_ship)

lemma apply_round_event:
  assumes "i \<noteq> []" and "safe_positive revision" and "safe_positive rnd"
  shows "apply_goal_event (append_event (UserMessageEvent (goal_message i revision rnd)) n) st
    = apply_goal_round n \<lparr>gr_id = i, gr_revision = revision\<rparr> rnd st"
  using assms
  by (simp add: apply_goal_event_def append_event_def log_event_def goal_message_def goal_source_def jfield_def
      positive_integer_jint)

lemmas goal_step_defs =
  apply_goal_change_def check_snapshot_change_def apply_goal_round_def validate_snapshot_transition_def
  require_next_revision_def check_operation_def require_same_definition_def snapshot_ref_def goal_change_ref_def

lemma goal_log_steps:
  "apply_goal_change example_create empty_goal_fold =
     Inr \<lparr>gf_goal = Some example_goal, gf_rounds = 0, gf_created = Some 5, gf_updated = Some 5,
          gf_last_ref = Some \<lparr>gr_id = ''g'', gr_revision = 1\<rparr>, gf_seen = [''g'']\<rparr>"
  "apply_goal_round n \<lparr>gr_id = ''g'', gr_revision = 1\<rparr> 1
     \<lparr>gf_goal = Some example_goal, gf_rounds = 0, gf_created = Some 5, gf_updated = Some 5, gf_last_ref = r, gf_seen = [''g'']\<rparr>
     = Inr \<lparr>gf_goal = Some example_goal, gf_rounds = 1, gf_created = Some 5, gf_updated = Some 5, gf_last_ref = r, gf_seen = [''g'']\<rparr>"
  "apply_goal_change example_complete
     \<lparr>gf_goal = Some example_goal, gf_rounds = 1, gf_created = Some 5, gf_updated = Some 5, gf_last_ref = r, gf_seen = [''g'']\<rparr>
     = Inr goal_log_state"
  by (simp_all add: example_create_def example_complete_def example_goal_def goal_step_defs empty_goal_fold_def
      goal_log_state_def)

lemma goal_log_replays: "goal_replay goal_log = Inr goal_log_state"
  by (simp add: goal_replay_def goal_log_def apply_change_event apply_round_event safe_positive_def
      MAX_SAFE_INTEGER_def goal_log_steps)

theorem goal_change_roundtrip_witness:
  "decode_goal_change (change_obj example_create) = Inr (Some example_create) \<and> change_ok example_create"
  using goal_change_roundtrip [of example_create "change_obj example_create" example_create] by simp

theorem goal_stream_numbered_witness:
  "goal_replay goal_log = Inr goal_log_state
     \<and> goal_revisions ''g'' goal_log = [1 .. int (length (goal_revisions ''g'' goal_log))]"
  using goal_stream_numbered [OF goal_log_replays, of "''g''"] goal_log_replays by simp

theorem goal_completion_final_witness:
  "gf_goal goal_log_state \<noteq> None \<and> goal_rounds ''g'' (goal_log @ []) = goal_rounds ''g'' goal_log"
  using goal_completion_final [OF goal_log_replays, of _ "[]" goal_log_state] goal_log_replays
  by (simp add: goal_log_state_def example_goal_def)

end
