(* ===== verification/Goal_Service.thy ===== *)
theory Goal_Service
  imports Goal_Fold Session_Log
begin

text \<open>
  \<open>packages/goal/goal/src/index.ts\<close> and \<open>invariant.ts\<close>: the checkpointable projection of the goal
  fold, the goal service's compare-and-set mutations with their process-local activation, and the
  companion that validates goal events before they commit. The projection registry is reduced to
  what the service relies on: after every append the projection has consumed the new event.
  Requests are JSON values, as the remote boundary delivers them; the clock and the random part of
  a new identity are arguments; the clock is read twice, by the service for the change and by the
  session for its event.
\<close>

section \<open>The projection\<close>

record goal_projection =
  pj_goal :: goal_snapshot
  pj_rounds :: int
  pj_created :: int
  pj_updated :: int

datatype projection_failure = ReplayFailed nat goal_error | LacksTimestamps nat

record goal_state =
  gp_current :: "goal_projection option"
  gp_seen :: "string list"
  gp_failure :: "projection_failure option"

definition init_goal_state :: goal_state where
  "init_goal_state = \<lparr>gp_current = None, gp_seen = [], gp_failure = None\<rparr>"

definition goal_fold_state :: "goal_state \<Rightarrow> goal_fold" where
  "goal_fold_state p =
     \<lparr>gf_goal = map_option pj_goal (gp_current p),
      gf_rounds = (case gp_current p of Some c \<Rightarrow> pj_rounds c | None \<Rightarrow> 0),
      gf_created = map_option pj_created (gp_current p), gf_updated = map_option pj_updated (gp_current p),
      gf_last_ref = None, gf_seen = gp_seen p\<rparr>"

text \<open>\<open>None\<close> where the source throws for missing timestamps.\<close>

definition goal_projection_state :: "goal_fold \<Rightarrow> goal_state option" where
  "goal_projection_state st =
     (case gf_goal st of
        None \<Rightarrow> Some \<lparr>gp_current = None, gp_seen = gf_seen st, gp_failure = None\<rparr>
      | Some g \<Rightarrow>
          (case (gf_created st, gf_updated st) of
             (Some c, Some u) \<Rightarrow>
               Some \<lparr>gp_current = Some \<lparr>pj_goal = g, pj_rounds = gf_rounds st, pj_created = c, pj_updated = u\<rparr>,
                     gp_seen = gf_seen st, gp_failure = None\<rparr>
           | _ \<Rightarrow> None))"

definition goal_relevant :: "session_event \<Rightarrow> bool" where
  "goal_relevant e \<longleftrightarrow>
     (case ev_payload e of
        GoalChange _ \<Rightarrow> True
      | UserMessageEvent m \<Rightarrow> (case um_source m of OtherSource k _ \<Rightarrow> k = ''goal'' | _ \<Rightarrow> False)
      | _ \<Rightarrow> False)"

definition apply_goal_projection :: "session_event \<Rightarrow> goal_state \<Rightarrow> goal_state" where
  "apply_goal_projection e p =
     (if gp_failure p \<noteq> None \<or> \<not> goal_relevant e then p
      else case apply_goal_event e (goal_fold_state p) of
        Inl err \<Rightarrow> p\<lparr>gp_failure := Some (ReplayFailed (ev_seq e) err)\<rparr>
      | Inr st \<Rightarrow>
          (case goal_projection_state st of
             None \<Rightarrow> p\<lparr>gp_failure := Some (LacksTimestamps (ev_seq e))\<rparr>
           | Some p' \<Rightarrow> p'))"

definition project_goal :: "session_event list \<Rightarrow> goal_state" where
  "project_goal es = fold apply_goal_projection es init_goal_state"

text \<open>\<open>goalProjectionSchema\<close> and \<open>goalProjectionStateSchema\<close>: what a checkpoint must satisfy to be read back.\<close>

definition projection_schema :: "goal_projection \<Rightarrow> bool" where
  "projection_schema c \<longleftrightarrow>
     gs_id (pj_goal c) \<noteq> [] \<and> 0 < gs_revision (pj_goal c) \<and> gs_objective (pj_goal c) \<noteq> []
     \<and> 0 < gs_max_rounds (pj_goal c) \<and> 0 \<le> pj_rounds c"

definition state_schema :: "goal_state \<Rightarrow> bool" where
  "state_schema p \<longleftrightarrow>
     (\<forall>i \<in> set (gp_seen p). i \<noteq> []) \<and> distinct (gp_seen p)
     \<and> (case gp_current p of
          None \<Rightarrow> True
        | Some c \<Rightarrow> projection_schema c \<and> gs_id (pj_goal c) \<in> set (gp_seen p)
            \<and> pj_created c \<le> pj_updated c \<and> pj_rounds c \<le> gs_max_rounds (pj_goal c))"

section \<open>The service\<close>

type_synonym clock = "int \<times> int"

datatype goal_activation = Armed | Disarmed

record goal_runtime =
  rt_activation :: goal_activation
  rt_pending :: "(nat \<times> goal_activation) option"

record goal_view =
  gv_projection :: goal_projection
  gv_activation :: goal_activation

record goal_changed =
  ch_operation :: goal_operation
  ch_ref :: goal_ref
  ch_goal :: "goal_view option"

datatype service_error =
    NotLive
  | GoalNotFound
  | GoalExists goal_phase
  | StaleRevision
  | InvalidObjective
  | InvalidMaxRounds
  | InvalidBlockReason
  | InvalidEdit
  | InvalidTransition goal_operation
  | ReplayInvalid projection_failure
  | ChangeNotAppended session_error

text \<open>One agent of the service: whether it is the registry's live one, its session, the registry's
  projection of that session, the runtime state, the notifications sent.\<close>

record goal_world =
  gw_live :: bool
  gw_session :: session
  gw_state :: goal_state
  gw_runtime :: goal_runtime
  gw_sent :: "goal_changed list"

text \<open>The listeners of a committed event: the registry advances the projection, and the service
  derives the activation of a goal change.\<close>

definition activation_listener :: "session_event \<Rightarrow> goal_runtime \<Rightarrow> goal_runtime" where
  "activation_listener e rt =
     (case ev_payload e of
        GoalChange _ \<Rightarrow>
          rt\<lparr>rt_activation := (case rt_pending rt of
              Some (offset, a) \<Rightarrow> if offset = ev_seq e then a else Disarmed
            | None \<Rightarrow> Disarmed)\<rparr>
      | _ \<Rightarrow> rt)"

definition publish_event :: "session_event \<Rightarrow> goal_world \<Rightarrow> goal_world" where
  "publish_event e w =
     w\<lparr>gw_state := apply_goal_projection e (gw_state w), gw_runtime := activation_listener e (gw_runtime w)\<rparr>"

definition append_in_world ::
    "int \<Rightarrow> payload \<Rightarrow> json option \<Rightarrow> json option \<Rightarrow> goal_world \<Rightarrow> (session_error, session_event) result \<times> goal_world" where
  "append_in_world now p op sources w =
     (case session_append now p op sources (gw_session w) of
        (Inl err, s) \<Rightarrow> (Inl err, w\<lparr>gw_session := s\<rparr>)
      | (Inr e, s) \<Rightarrow> (Inr e, publish_event e (w\<lparr>gw_session := s\<rparr>)))"

definition session_start :: "goal_world \<Rightarrow> goal_world" where
  "session_start w = w\<lparr>gw_runtime := (gw_runtime w)\<lparr>rt_activation := Disarmed\<rparr>\<rparr>"

definition resolve_max_rounds :: "json \<Rightarrow> (service_error, int) result" where
  "resolve_max_rounds v =
     (case v of
        JNum n \<Rightarrow> if is_safe_integer n \<and> 1 \<le> jnum_int n then Inr (jnum_int n) else Inl InvalidMaxRounds
      | _ \<Rightarrow> Inl InvalidMaxRounds)"

definition resolve_objective :: "json \<Rightarrow> (service_error, string) result" where
  "resolve_objective v =
     (if \<not> is_jstr v \<or> trim (str_of v) = [] then Inl InvalidObjective else Inr (trim (str_of v)))"

text \<open>\<open>request.maxGoalRounds ?? defaultMaxGoalRounds\<close>\<close>

definition resolve_create :: "json \<Rightarrow> json option \<Rightarrow> int \<Rightarrow> (service_error, string \<times> int) result" where
  "resolve_create objective max_rounds default_rounds =
     and_then (resolve_objective objective) (\<lambda>obj.
     and_then (resolve_max_rounds (case max_rounds of
         Some v \<Rightarrow> if v = JNull then jint default_rounds else v | None \<Rightarrow> jint default_rounds)) (\<lambda>n.
       Inr (obj, n)))"

definition resolve_block_reason :: "json \<Rightarrow> (service_error, block_reason) result" where
  "resolve_block_reason v =
     (let code = (if is_jobj v then jfield ''code'' v else JNull);
          msg = (if is_jobj v then jfield ''message'' v else JNull)
      in if \<not> is_jstr code \<or> \<not> lower_kebab (str_of code) \<or> \<not> is_jstr msg \<or> trim (str_of msg) = []
         then Inl InvalidBlockReason
         else Inr \<lparr>br_code = str_of code, br_message = trim (str_of msg)\<rparr>)"

definition assert_live :: "goal_world \<Rightarrow> (service_error, unit) result" where
  "assert_live w = reject_if (\<not> gw_live w) NotLive"

definition state_of_goal :: "goal_world \<Rightarrow> (service_error, goal_projection option) result" where
  "state_of_goal w =
     (case gp_failure (gw_state w) of Some f \<Rightarrow> Inl (ReplayInvalid f) | None \<Rightarrow> Inr (gp_current (gw_state w)))"

definition prepare_mutation :: "goal_world \<Rightarrow> (service_error, goal_projection option) result" where
  "prepare_mutation w = and_then (assert_live w) (\<lambda>_. state_of_goal w)"

definition expect_current :: "goal_projection option \<Rightarrow> goal_ref \<Rightarrow> (service_error, goal_projection) result" where
  "expect_current cur ref =
     (case cur of
        None \<Rightarrow> Inl GoalNotFound
      | Some c \<Rightarrow>
          and_then (reject_if (gr_id ref \<noteq> gs_id (pj_goal c) \<or> gr_revision ref \<noteq> gs_revision (pj_goal c)) StaleRevision)
            (\<lambda>_. Inr c))"

definition view_of :: "goal_projection option \<Rightarrow> goal_runtime \<Rightarrow> goal_view option" where
  "view_of cur rt = map_option (\<lambda>c. \<lparr>gv_projection = c, gv_activation = rt_activation rt\<rparr>) cur"

definition get_goal :: "goal_world \<Rightarrow> (service_error, goal_view option) result" where
  "get_goal w = and_then (prepare_mutation w) (\<lambda>cur. Inr (view_of cur (gw_runtime w)))"

text \<open>\<open>disarm\<close> disarms before it reads the state, which may fail.\<close>

definition disarm :: "goal_world \<Rightarrow> (service_error, goal_view option) result \<times> goal_world" where
  "disarm w =
     (case assert_live w of
        Inl err \<Rightarrow> (Inl err, w)
      | Inr _ \<Rightarrow>
          let w' = session_start w
          in (and_then (state_of_goal w') (\<lambda>cur. Inr (view_of cur (gw_runtime w'))), w'))"

definition change_operation :: "goal_change \<Rightarrow> goal_operation" where
  "change_operation c = (case c of ClearChange _ _ \<Rightarrow> OpClear | SnapshotChange p _ _ _ _ \<Rightarrow> p)"

definition commit_change ::
    "clock \<Rightarrow> goal_change \<Rightarrow> goal_activation \<Rightarrow> goal_world \<Rightarrow> (service_error, unit) result \<times> goal_world" where
  "commit_change clk c a w =
     (let offset = session_seq_of (gw_session w);
          w1 = w\<lparr>gw_runtime := (gw_runtime w)\<lparr>rt_pending := Some (offset, a)\<rparr>\<rparr>;
          (r, w2) = append_in_world (snd clk) (GoalChange (change_obj c)) None None w1
      in case r of
           Inl err \<Rightarrow> (Inl (ChangeNotAppended err), w2\<lparr>gw_runtime := (gw_runtime w2)\<lparr>rt_pending := None\<rparr>\<rparr>)
         | Inr e \<Rightarrow>
             let rt = (if offset = ev_seq e then (gw_runtime w2)\<lparr>rt_activation := a\<rparr> else gw_runtime w2);
                 w3 = w2\<lparr>gw_runtime := rt\<lparr>rt_pending := None\<rparr>\<rparr>
             in (case state_of_goal w3 of
                   Inl err \<Rightarrow> (Inl err, w3)
                 | Inr cur \<Rightarrow>
                     (Inr (), w3\<lparr>gw_sent := gw_sent w3 @
                        [\<lparr>ch_operation = change_operation c, ch_ref = goal_change_ref c,
                          ch_goal = view_of cur (gw_runtime w3)\<rparr>]\<rparr>)))"

definition commit_snapshot ::
    "clock \<Rightarrow> goal_operation \<Rightarrow> goal_snapshot \<Rightarrow> int \<Rightarrow> int \<Rightarrow> int \<Rightarrow> goal_activation \<Rightarrow> goal_world \<Rightarrow>
     (service_error, goal_view) result \<times> goal_world" where
  "commit_snapshot clk p g rounds created updated a w =
     (case commit_change clk (SnapshotChange p g rounds created updated) a w of
        (Inl err, w') \<Rightarrow> (Inl err, w')
      | (Inr _, w') \<Rightarrow>
          (Inr \<lparr>gv_projection = \<lparr>pj_goal = g, pj_rounds = rounds, pj_created = created, pj_updated = updated\<rparr>,
                gv_activation = rt_activation (gw_runtime w')\<rparr>, w'))"

text \<open>\<open>nextMutationTime\<close>: the clock, never before the last update.\<close>

definition commit_current ::
    "clock \<Rightarrow> goal_projection \<Rightarrow> goal_operation \<Rightarrow> goal_snapshot \<Rightarrow> goal_activation \<Rightarrow> goal_world \<Rightarrow>
     (service_error, goal_view) result \<times> goal_world" where
  "commit_current clk c p g a w =
     commit_snapshot clk p g (pj_rounds c) (pj_created c) (max (fst clk) (pj_updated c)) a w"

definition with_phase :: "goal_snapshot \<Rightarrow> goal_phase \<Rightarrow> goal_snapshot" where
  "with_phase current p =
     \<lparr>gs_id = gs_id current, gs_revision = gs_revision current + 1, gs_objective = gs_objective current,
      gs_phase = p, gs_reason = None, gs_max_rounds = gs_max_rounds current\<rparr>"

section \<open>Its operations\<close>

definition create_goal ::
    "clock \<Rightarrow> string \<Rightarrow> int \<Rightarrow> json \<Rightarrow> json option \<Rightarrow> goal_world \<Rightarrow> (service_error, goal_view) result \<times> goal_world" where
  "create_goal clk uuid default_rounds objective max_rounds w =
     (case and_then (resolve_create objective max_rounds default_rounds) (\<lambda>spec.
             and_then (prepare_mutation w) (\<lambda>cur.
               case cur of
                 Some c \<Rightarrow> if gs_phase (pj_goal c) \<noteq> PhComplete then Inl (GoalExists (gs_phase (pj_goal c))) else Inr spec
               | None \<Rightarrow> Inr spec)) of
        Inl err \<Rightarrow> (Inl err, w)
      | Inr (obj, n) \<Rightarrow>
          commit_snapshot clk OpCreate
            \<lparr>gs_id = ''goal-'' @ uuid, gs_revision = 1, gs_objective = obj, gs_phase = PhActive,
             gs_reason = None, gs_max_rounds = n\<rparr> 0 (fst clk) (fst clk) Armed w)"

definition current_of :: "goal_ref \<Rightarrow> goal_world \<Rightarrow> (service_error, goal_projection) result" where
  "current_of ref w = and_then (prepare_mutation w) (\<lambda>cur. expect_current cur ref)"

definition edited_snapshot :: "json option \<Rightarrow> json option \<Rightarrow> goal_snapshot \<Rightarrow> (service_error, goal_snapshot) result" where
  "edited_snapshot objective max_rounds current =
     and_then (reject_if (objective = None \<and> max_rounds = None) InvalidEdit) (\<lambda>_.
     and_then (case objective of None \<Rightarrow> Inr (gs_objective current) | Some v \<Rightarrow> resolve_objective v) (\<lambda>obj.
     and_then (case max_rounds of None \<Rightarrow> Inr (gs_max_rounds current) | Some v \<Rightarrow> resolve_max_rounds v) (\<lambda>n.
       Inr (current\<lparr>gs_revision := gs_revision current + 1, gs_objective := obj, gs_max_rounds := n\<rparr>))))"

definition edit_goal ::
    "clock \<Rightarrow> goal_ref \<Rightarrow> json option \<Rightarrow> json option \<Rightarrow> goal_world \<Rightarrow> (service_error, goal_view) result \<times> goal_world" where
  "edit_goal clk ref objective max_rounds w =
     (case and_then (current_of ref w) (\<lambda>c.
             and_then (edited_snapshot objective max_rounds (pj_goal c)) (\<lambda>g. Inr (c, g))) of
        Inl err \<Rightarrow> (Inl err, w)
      | Inr (c, g) \<Rightarrow> commit_current clk c OpEdit g (rt_activation (gw_runtime w)) w)"

definition transition_goal ::
    "clock \<Rightarrow> goal_ref \<Rightarrow> goal_operation \<Rightarrow> goal_phase list \<Rightarrow> goal_phase \<Rightarrow> goal_activation \<Rightarrow> goal_world \<Rightarrow>
     (service_error, goal_view) result \<times> goal_world" where
  "transition_goal clk ref p allowed target a w =
     (case and_then (current_of ref w) (\<lambda>c.
             and_then (reject_if (gs_phase (pj_goal c) \<notin> set allowed) (InvalidTransition p)) (\<lambda>_. Inr c)) of
        Inl err \<Rightarrow> (Inl err, w)
      | Inr c \<Rightarrow> commit_current clk c p (with_phase (pj_goal c) target) a w)"

definition pause_goal :: "clock \<Rightarrow> goal_ref \<Rightarrow> goal_world \<Rightarrow> (service_error, goal_view) result \<times> goal_world" where
  "pause_goal clk ref w = transition_goal clk ref OpPause [PhActive] PhPaused Disarmed w"

definition complete_goal :: "clock \<Rightarrow> goal_ref \<Rightarrow> goal_world \<Rightarrow> (service_error, goal_view) result \<times> goal_world" where
  "complete_goal clk ref w = transition_goal clk ref OpComplete [PhActive, PhPaused, PhBlocked] PhComplete Disarmed w"

definition resume_goal :: "clock \<Rightarrow> goal_ref \<Rightarrow> goal_world \<Rightarrow> (service_error, goal_view) result \<times> goal_world" where
  "resume_goal clk ref w =
     (case and_then (current_of ref w) (\<lambda>c.
             and_then (reject_if (gs_phase (pj_goal c) \<notin> {PhActive, PhPaused, PhBlocked}
                 \<or> gs_phase (pj_goal c) = PhActive \<and> rt_activation (gw_runtime w) = Armed
                 \<or> gs_max_rounds (pj_goal c) \<le> pj_rounds c) (InvalidTransition OpResume)) (\<lambda>_. Inr c)) of
        Inl err \<Rightarrow> (Inl err, w)
      | Inr c \<Rightarrow> commit_current clk c OpResume (with_phase (pj_goal c) PhActive) Armed w)"

definition block_goal :: "clock \<Rightarrow> goal_ref \<Rightarrow> json \<Rightarrow> goal_world \<Rightarrow> (service_error, goal_view) result \<times> goal_world" where
  "block_goal clk ref reason w =
     (case and_then (current_of ref w) (\<lambda>c.
             and_then (reject_if (gs_phase (pj_goal c) \<noteq> PhActive) (InvalidTransition OpBlock)) (\<lambda>_.
             and_then (resolve_block_reason reason) (\<lambda>r. Inr (c, r)))) of
        Inl err \<Rightarrow> (Inl err, w)
      | Inr (c, r) \<Rightarrow>
          commit_current clk c OpBlock ((with_phase (pj_goal c) PhBlocked)\<lparr>gs_reason := Some r\<rparr>) Disarmed w)"

definition clear_goal :: "clock \<Rightarrow> goal_ref \<Rightarrow> goal_world \<Rightarrow> (service_error, goal_ref) result \<times> goal_world" where
  "clear_goal clk ref w =
     (case current_of ref w of
        Inl err \<Rightarrow> (Inl err, w)
      | Inr c \<Rightarrow>
          let tombstone = \<lparr>gr_id = gs_id (pj_goal c), gr_revision = gs_revision (pj_goal c) + 1\<rparr>
          in case commit_change clk (ClearChange tombstone (max (fst clk) (pj_updated c))) Disarmed w of
               (Inl err, w') \<Rightarrow> (Inl err, w')
             | (Inr _, w') \<Rightarrow> (Inr tombstone, w'))"

section \<open>The projection is the fold\<close>

definition forget_ref :: "goal_fold \<Rightarrow> goal_fold" where
  "forget_ref st = st\<lparr>gf_last_ref := None\<rparr>"

lemma forget_ref_simps [simp]:
  "gf_goal (forget_ref st) = gf_goal st" "gf_rounds (forget_ref st) = gf_rounds st"
  "gf_created (forget_ref st) = gf_created st" "gf_updated (forget_ref st) = gf_updated st"
  "gf_seen (forget_ref st) = gf_seen st" "forget_ref (forget_ref st) = forget_ref st"
  by (simp_all add: forget_ref_def)

definition same_result :: "(goal_error, goal_fold) result \<Rightarrow> (goal_error, goal_fold) result \<Rightarrow> bool" where
  "same_result a b \<longleftrightarrow> and_then a (\<lambda>st. Inr (forget_ref st)) = and_then b (\<lambda>st. Inr (forget_ref st))"

lemma same_result_change: "same_result (apply_goal_change c (forget_ref st)) (apply_goal_change c st)"
proof (cases c)
  case (ClearChange ref t)
  then show ?thesis
    by (auto simp: same_result_def apply_goal_change_def apply_clear_def and_then_def forget_ref_def
        split: option.split sum.split)
next
  case (SnapshotChange p g n cr u)
  have "check_operation (forget_ref st) p g h = check_operation st p g h" for h
    by (cases p) (simp_all add: check_operation_def)
  then have "validate_snapshot_transition (forget_ref st) p g n cr u h = validate_snapshot_transition st p g n cr u h" for h
    by (cases "gf_updated st") (simp_all add: validate_snapshot_transition_def)
  then show ?thesis
    by (auto simp: SnapshotChange same_result_def apply_goal_change_def check_snapshot_change_def and_then_def
        forget_ref_def split: option.split sum.split)
qed

lemma same_result_event: "same_result (apply_goal_event e (forget_ref st)) (apply_goal_event e st)"
proof (cases "ev_payload e")
  case (GoalChange v)
  then show ?thesis
    using same_result_change
    by (cases "decode_goal_change v") (auto simp: apply_goal_event_def same_result_def split: option.split)
next
  case (UserMessageEvent m)
  have "same_result (apply_goal_round n ref k (forget_ref st)) (apply_goal_round n ref k st)" for n ref k
    by (auto simp: same_result_def apply_goal_round_def and_then_def forget_ref_def split: option.split sum.split)
  then show ?thesis
    using UserMessageEvent
    by (cases "goal_source (um_source m)") (auto simp: apply_goal_event_def same_result_def split: option.split)
qed (simp_all add: apply_goal_event_def same_result_def)

definition checkpoint_of :: "goal_fold \<Rightarrow> goal_state" where
  "checkpoint_of st =
     \<lparr>gp_current = (case gf_goal st of None \<Rightarrow> None | Some g \<Rightarrow>
         Some \<lparr>pj_goal = g, pj_rounds = gf_rounds st, pj_created = the (gf_created st), pj_updated = the (gf_updated st)\<rparr>),
      gp_seen = gf_seen st, gp_failure = None\<rparr>"

lemma checkpoint_no_failure [simp]: "gp_failure (checkpoint_of st) = None"
  by (simp add: checkpoint_of_def)

lemma goal_projection_state_inv: "goal_inv st \<Longrightarrow> goal_projection_state st = Some (checkpoint_of st)"
  by (auto simp: goal_projection_state_def checkpoint_of_def goal_inv_def split: option.splits)

lemma checkpoint_forget [simp]: "checkpoint_of (forget_ref st) = checkpoint_of st"
  by (cases "gf_goal st") (simp_all add: checkpoint_of_def)

lemma projection_state_forget [simp]: "goal_projection_state (forget_ref st) = goal_projection_state st"
  by (cases "gf_goal st"; cases "gf_created st"; cases "gf_updated st") (simp_all add: goal_projection_state_def)

lemma fold_state_checkpoint: "goal_inv st \<Longrightarrow> goal_fold_state (checkpoint_of st) = forget_ref st"
  by (auto simp: goal_fold_state_def checkpoint_of_def goal_inv_def forget_ref_def split: option.splits)

lemma irrelevant_event: "\<not> goal_relevant e \<Longrightarrow> apply_goal_event e st = Inr st"
  by (cases "ev_payload e")
    (auto simp: goal_relevant_def apply_goal_event_def goal_source_def split: message_source.splits)

text \<open>One event of the projection, on a checkpoint of a fold state: the fold's step, or its error
  kept.\<close>

lemma apply_projection_step:
  assumes inv: "goal_inv st"
  shows "apply_goal_projection e (checkpoint_of st) =
    (case apply_goal_event e st of
       Inl err \<Rightarrow> (checkpoint_of st)\<lparr>gp_failure := Some (ReplayFailed (ev_seq e) err)\<rparr>
     | Inr st' \<Rightarrow> checkpoint_of st')"
proof (cases "goal_relevant e")
  case False
  then show ?thesis by (simp add: apply_goal_projection_def irrelevant_event)
next
  case True
  have same: "same_result (apply_goal_event e (forget_ref st)) (apply_goal_event e st)" by (rule same_result_event)
  have nofail: "gp_failure (checkpoint_of st) = None" by (simp add: checkpoint_of_def)
  show ?thesis
  proof (cases "apply_goal_event e st")
    case (Inl err)
    with same have "apply_goal_event e (forget_ref st) = Inl err"
      by (cases "apply_goal_event e (forget_ref st)") (simp_all add: same_result_def)
    with Inl True nofail show ?thesis by (simp add: apply_goal_projection_def fold_state_checkpoint [OF inv])
  next
    case (Inr st')
    with same obtain st1 where st1: "apply_goal_event e (forget_ref st) = Inr st1" "forget_ref st1 = forget_ref st'"
      by (cases "apply_goal_event e (forget_ref st)") (simp_all add: same_result_def)
    have "goal_inv st'" by (rule apply_goal_event_inv [OF inv Inr])
    then have "goal_projection_state st1 = Some (checkpoint_of st')"
      using st1(2) goal_projection_state_inv projection_state_forget by metis
    with st1 Inr True nofail show ?thesis by (simp add: apply_goal_projection_def fold_state_checkpoint [OF inv])
  qed
qed

lemma failed_projection_stays: "gp_failure p \<noteq> None \<Longrightarrow> fold apply_goal_projection es p = p"
  by (induction es) (simp_all add: apply_goal_projection_def)

lemma project_goal_ok: "goal_replay es = Inr st \<Longrightarrow> project_goal es = checkpoint_of st"
proof (induction es arbitrary: st rule: rev_induct)
  case Nil
  then show ?case by (auto simp: project_goal_def init_goal_state_def checkpoint_of_def empty_goal_fold_def)
next
  case (snoc e es)
  then obtain st0 where st0: "goal_replay es = Inr st0" "apply_goal_event e st0 = Inr st"
    by (auto simp: goal_replay_snoc and_then_Inr_iff)
  have "project_goal (es @ [e]) = apply_goal_projection e (project_goal es)" by (simp add: project_goal_def)
  then show ?case using snoc.IH [OF st0(1)] st0 apply_projection_step [OF goal_replay_inv [OF st0(1)]] by simp
qed

lemma goal_replay_first_error:
  "goal_replay es = Inl err \<Longrightarrow>
     \<exists>k st. k < length es \<and> goal_replay (take k es) = Inr st \<and> apply_goal_event (es ! k) st = Inl err"
proof (induction es rule: rev_induct)
  case Nil
  then show ?case by simp
next
  case (snoc e es)
  show ?case
  proof (cases "goal_replay es")
    case (Inl err')
    with snoc.prems have "err' = err" by (simp add: goal_replay_snoc)
    with snoc.IH Inl obtain k st where "k < length es" "goal_replay (take k es) = Inr st" "apply_goal_event (es ! k) st = Inl err"
      by blast
    then show ?thesis by (intro exI [of _ k] exI [of _ st]) (simp add: nth_append)
  next
    case (Inr st)
    with snoc.prems have "apply_goal_event e st = Inl err" by (simp add: goal_replay_snoc)
    with Inr show ?thesis by (intro exI [of _ "length es"] exI [of _ st]) simp
  qed
qed

text \<open>
  The checkpointable projection computes the strict fold: on a log the fold accepts it
  holds the fold's goal, counters, times and identities and no failure; on a log the fold rejects
  it keeps the last accepted state and the fold's own error with the number of the event that
  raised it, whatever came after.
\<close>

theorem goal_projection_is_fold:
  "case goal_replay es of
     Inr st \<Rightarrow> project_goal es = checkpoint_of st
   | Inl err \<Rightarrow> (\<exists>k st. k < length es \<and> goal_replay (take k es) = Inr st \<and> apply_goal_event (es ! k) st = Inl err
       \<and> project_goal es = (checkpoint_of st)\<lparr>gp_failure := Some (ReplayFailed (ev_seq (es ! k)) err)\<rparr>)"
proof (cases "goal_replay es")
  case (Inr st)
  then show ?thesis by (simp add: project_goal_ok)
next
  case (Inl err)
  from goal_replay_first_error [OF this] obtain k st where k: "k < length es" "goal_replay (take k es) = Inr st"
    "apply_goal_event (es ! k) st = Inl err" by blast
  have "project_goal es = fold apply_goal_projection (drop (Suc k) es) (project_goal (take k es @ [es ! k]))"
    by (subst id_take_nth_drop [OF k(1)]) (simp add: project_goal_def)
  also have "project_goal (take k es @ [es ! k]) = apply_goal_projection (es ! k) (project_goal (take k es))"
    by (simp add: project_goal_def)
  also have "\<dots> = (checkpoint_of st)\<lparr>gp_failure := Some (ReplayFailed (ev_seq (es ! k)) err)\<rparr>"
    using k project_goal_ok [OF k(2)] apply_projection_step [OF goal_replay_inv [OF k(2)]] by simp
  finally have "project_goal es = (checkpoint_of st)\<lparr>gp_failure := Some (ReplayFailed (ev_seq (es ! k)) err)\<rparr>"
    by (simp add: failed_projection_stays)
  with k Inl show ?thesis by auto
qed

section \<open>What a checkpoint can be read back\<close>

lemma seen_non_empty:
  "goal_replay es = Inr st \<Longrightarrow> \<forall>i \<in> set (gf_seen st). i \<noteq> []"
  unfolding goal_replay_def
proof (rule fold_result_inv [where P = "\<lambda>st. \<forall>i \<in> set (gf_seen st). i \<noteq> []"])
  show "fold_result apply_goal_event es empty_goal_fold = Inr st \<Longrightarrow> fold_result apply_goal_event es empty_goal_fold = Inr st" .
  fix e s t
  assume s: "\<forall>i \<in> set (gf_seen s). i \<noteq> []" and step: "apply_goal_event e s = Inr t"
  from step show "\<forall>i \<in> set (gf_seen t). i \<noteq> []"
  proof (cases rule: apply_goal_event_Inr)
    case (change c)
    show ?thesis
    proof (cases c)
      case (ClearChange ref time)
      with change have "apply_clear ref time s = Inr t" by (simp add: apply_goal_change_def)
      then show ?thesis by (rule apply_clear_Inr) (use s in simp)
    next
      case (SnapshotChange p g n cr u)
      with change have step: "apply_goal_change (SnapshotChange p g n cr u) s = Inr t" and "gs_id g \<noteq> []"
        by (simp_all add: snapshot_ok_def)
      then show ?thesis
        using s by (cases "p = OpCreate") (auto dest!: apply_create_Inr elim!: apply_update_Inr)
    qed
  next
    case (rnd ref k)
    from rnd(3) show ?thesis by (rule apply_round_Inr) (use s in simp)
  qed (use s in simp)
qed (simp add: empty_goal_fold_def)

text \<open>
  Which checkpoints can be read back: the projection of a log the fold accepts satisfies
  its own persisted-state schema exactly when the current goal has not started more rounds than its
  cap. The other conditions of the schema always hold.
\<close>

theorem goal_checkpoint_schema_iff:
  assumes "goal_replay es = Inr st"
  shows "state_schema (project_goal es) \<longleftrightarrow> (\<forall>g. gf_goal st = Some g \<longrightarrow> gf_rounds st \<le> gs_max_rounds g)"
proof -
  have inv: "goal_inv st" by (rule goal_replay_inv [OF assms])
  show ?thesis
    using inv seen_non_empty [OF assms] unfolding project_goal_ok [OF assms]
    by (cases "gf_goal st")
      (auto simp: state_schema_def projection_schema_def checkpoint_of_def goal_inv_def goal_ok_defs)
qed

section \<open>Committing a change\<close>

lemma lossless_change [simp]: "lossless (change_obj c)"
proof -
  have reason: "lossless (reason_obj r)" for r by (simp add: reason_obj_def)
  have snapshot: "lossless (snapshot_obj g)" for g
    by (cases "gs_reason g") (simp_all add: snapshot_obj_def opt_field_def reason)
  show ?thesis by (cases c) (simp_all add: snapshot ref_obj_def)
qed

lemma goal_append_ok:
  assumes inv: "session_inv s" and room: "int (length (s_log s)) \<le> MAX_SAFE_INTEGER" and ll: "lossless v"
  obtains e s' where "session_append now (GoalChange v) None None s = (Inr e, s')" and "s_log s' = s_log s @ [e]"
    and "ev_payload e = GoalChange v" and "ev_seq e = length (s_log s)" and "session_inv s'"
proof -
  obtain r s' where a: "session_append now (GoalChange v) None None s = (r, s')"
    by (cases "session_append now (GoalChange v) None None s")
  note log = session_append_log [OF inv a]
  have inv': "session_inv s'" using session_append_inv [OF inv, of now "GoalChange v" None None] a by simp
  have "\<exists>e. r = Inr e"
  proof -
    define e where "e = \<lparr>ev_payload = GoalChange v, ev_seq = length (s_log s), ev_time = now, ev_surface_op = None,
            ev_sources = None, ev_ignorable = False\<rparr>"
    from inv obtain k x where m: "manager_inv 0 (s_log s) k (s_surface s)" and w: "fold_window 0 (s_log s) = Inr x"
      by (auto simp: session_inv_def is_ok_iff)
    have "is_ok (fold_window 0 (s_log s @ [e]))"
      using w by (cases x) (simp add: fold_window_snoc apply_surface_event_def plan_surface_event_def
          surface_op_of_def e_def is_surface_eligible_type_def SURFACE_EVENT_TYPES_def)
    then have "fst (validate_next (s_log s) e (s_surface s)) = Inr ()"
      unfolding validate_next_refines(1) [OF m] by (auto simp: is_ok_iff)
    moreover have "append_precheck (GoalChange v) None None s = Inr ()"
      using ll by (simp add: append_precheck_def opt_lossless_def assert_supported_request_header_def)
    moreover have "session_seq (JInt (int (length (s_log s)))) = Inr (length (s_log s))"
      using room by (simp add: session_seq_int)
    ultimately show ?thesis
      using a by (cases "validate_next (s_log s) e (s_surface s)")
        (auto simp: session_append_def append_prepare_def append_validate_def Let_def e_def)
  qed
  then obtain e where "r = Inr e" ..
  with a log inv' show ?thesis by (intro that) auto
qed

text \<open>A world in step with its session: the log is one the fold accepts, the projection is up to
  date and no activation is pending.\<close>

definition world_ok :: "goal_fold \<Rightarrow> goal_world \<Rightarrow> bool" where
  "world_ok st w \<longleftrightarrow> session_inv (gw_session w) \<and> goal_replay (s_log (gw_session w)) = Inr st
     \<and> gw_state w = checkpoint_of st \<and> rt_pending (gw_runtime w) = None"

abbreviation world_log :: "goal_world \<Rightarrow> session_event list" where
  "world_log w \<equiv> s_log (gw_session w)"

lemma world_ok_inv: "world_ok st w \<Longrightarrow> goal_inv st"
  by (auto simp: world_ok_def intro: goal_replay_inv)

lemma state_of_goal_ok [simp]: "world_ok st w \<Longrightarrow> state_of_goal w = Inr (gp_current (checkpoint_of st))"
  by (simp add: world_ok_def state_of_goal_def checkpoint_of_def)

text \<open>What a committed change leaves.\<close>

definition committed :: "goal_change \<Rightarrow> goal_activation \<Rightarrow> goal_fold \<Rightarrow> goal_world \<Rightarrow> goal_world \<Rightarrow> bool" where
  "committed c a st' w w' \<longleftrightarrow> world_ok st' w' \<and> gw_live w' = gw_live w
     \<and> rt_activation (gw_runtime w') = a
     \<and> (\<exists>e. world_log w' = world_log w @ [e] \<and> ev_payload e = GoalChange (change_obj c))
     \<and> gw_sent w' = gw_sent w @ [\<lparr>ch_operation = change_operation c, ch_ref = goal_change_ref c,
          ch_goal = view_of (gp_current (checkpoint_of st')) (gw_runtime w')\<rparr>]"

lemma commit_change_ok:
  assumes ok: "world_ok st w" and room: "int (length (world_log w)) \<le> MAX_SAFE_INTEGER"
    and valid: "change_ok c" and step: "apply_goal_change c st = Inr st'"
  shows "\<exists>w'. commit_change clk c a w = (Inr (), w') \<and> committed c a st' w w'"
proof -
  from ok have inv: "session_inv (gw_session w)" and replay: "goal_replay (world_log w) = Inr st"
    and state: "gw_state w = checkpoint_of st" by (simp_all add: world_ok_def)
  obtain e s' where app: "session_append (snd clk) (GoalChange (change_obj c)) None None (gw_session w) = (Inr e, s')"
    and s': "s_log s' = world_log w @ [e]" "ev_payload e = GoalChange (change_obj c)"
      "ev_seq e = length (world_log w)" "session_inv s'"
    by (rule goal_append_ok [OF inv room lossless_change])
  have ev: "apply_goal_event e st = Inr st'"
    using s'(2) step by (simp add: apply_goal_event_def decode_change_obj [OF valid])
  have replay': "goal_replay (s_log s') = Inr st'" using s'(1) replay ev by (simp add: goal_replay_snoc)
  have proj: "apply_goal_projection e (checkpoint_of st) = checkpoint_of st'"
    using apply_projection_step [OF goal_replay_inv [OF replay], of e] ev by simp
  define w3 where "w3 = w\<lparr>gw_session := s', gw_state := checkpoint_of st',
    gw_runtime := (gw_runtime w)\<lparr>rt_activation := a, rt_pending := None\<rparr>\<rparr>"
  have w3: "world_ok st' w3" by (simp add: world_ok_def w3_def s'(4) replay')
  have "commit_change clk c a w = (Inr (), w3\<lparr>gw_sent := gw_sent w3 @
      [\<lparr>ch_operation = change_operation c, ch_ref = goal_change_ref c,
        ch_goal = view_of (gp_current (checkpoint_of st')) (gw_runtime w3)\<rparr>]\<rparr>)"
    by (simp add: commit_change_def Let_def append_in_world_def app session_seq_of_def publish_event_def
        activation_listener_def s'(2,3) state proj state_of_goal_def w3_def)
  then show ?thesis
    using replay' [unfolded s'(1)] by (auto simp: committed_def world_ok_def w3_def s')
qed

section \<open>Commands\<close>

text \<open>The mutating operations in one type, and the acknowledgement of each: the revision it made
  (\<open>remoteExportCreate\<close> and the other remote methods return it to the caller).\<close>

datatype goal_command =
    CmdCreate string json "json option"
  | CmdEdit goal_ref "json option" "json option"
  | CmdPause goal_ref
  | CmdResume goal_ref
  | CmdComplete goal_ref
  | CmdBlock goal_ref json
  | CmdClear goal_ref

definition view_ref :: "(service_error, goal_view) result \<times> goal_world \<Rightarrow> (service_error, goal_ref) result \<times> goal_world" where
  "view_ref x = (and_then (fst x) (\<lambda>v. Inr (snapshot_ref (pj_goal (gv_projection v)))), snd x)"

fun run_command ::
    "clock \<Rightarrow> int \<Rightarrow> goal_command \<Rightarrow> goal_world \<Rightarrow> (service_error, goal_ref) result \<times> goal_world" where
  "run_command clk default_rounds (CmdCreate uuid objective max_rounds) w =
     view_ref (create_goal clk uuid default_rounds objective max_rounds w)"
| "run_command clk default_rounds (CmdEdit ref objective max_rounds) w = view_ref (edit_goal clk ref objective max_rounds w)"
| "run_command clk default_rounds (CmdPause ref) w = view_ref (pause_goal clk ref w)"
| "run_command clk default_rounds (CmdResume ref) w = view_ref (resume_goal clk ref w)"
| "run_command clk default_rounds (CmdComplete ref) w = view_ref (complete_goal clk ref w)"
| "run_command clk default_rounds (CmdBlock ref reason) w = view_ref (block_goal clk ref reason w)"
| "run_command clk default_rounds (CmdClear ref) w = clear_goal clk ref w"

text \<open>The specification: the change a command asks for in a world (or why not), and the activation
  it leaves.\<close>

definition updated_at :: "clock \<Rightarrow> goal_projection \<Rightarrow> int" where
  "updated_at clk c = max (fst clk) (pj_updated c)"

definition snapshot_change :: "clock \<Rightarrow> goal_operation \<Rightarrow> goal_projection \<Rightarrow> goal_snapshot \<Rightarrow> goal_change" where
  "snapshot_change clk p c g = SnapshotChange p g (pj_rounds c) (pj_created c) (updated_at clk c)"

definition phase_change ::
    "clock \<Rightarrow> goal_operation \<Rightarrow> goal_phase set \<Rightarrow> goal_phase \<Rightarrow> goal_projection \<Rightarrow> (service_error, goal_change) result" where
  "phase_change clk p allowed target c =
     (if gs_phase (pj_goal c) \<in> allowed then Inr (snapshot_change clk p c (with_phase (pj_goal c) target))
      else Inl (InvalidTransition p))"

fun command_change :: "clock \<Rightarrow> int \<Rightarrow> goal_command \<Rightarrow> goal_world \<Rightarrow> (service_error, goal_change) result" where
  "command_change clk d (CmdCreate uuid objective max_rounds) w =
     and_then (resolve_create objective max_rounds d) (\<lambda>(obj, n).
     and_then (prepare_mutation w) (\<lambda>cur.
       case cur of
         Some c \<Rightarrow>
           if gs_phase (pj_goal c) \<noteq> PhComplete then Inl (GoalExists (gs_phase (pj_goal c)))
           else Inr (SnapshotChange OpCreate \<lparr>gs_id = ''goal-'' @ uuid, gs_revision = 1, gs_objective = obj,
                  gs_phase = PhActive, gs_reason = None, gs_max_rounds = n\<rparr> 0 (fst clk) (fst clk))
       | None \<Rightarrow> Inr (SnapshotChange OpCreate \<lparr>gs_id = ''goal-'' @ uuid, gs_revision = 1, gs_objective = obj,
                  gs_phase = PhActive, gs_reason = None, gs_max_rounds = n\<rparr> 0 (fst clk) (fst clk))))"
| "command_change clk d (CmdEdit ref objective max_rounds) w =
     and_then (current_of ref w) (\<lambda>c.
     and_then (edited_snapshot objective max_rounds (pj_goal c)) (\<lambda>g. Inr (snapshot_change clk OpEdit c g)))"
| "command_change clk d (CmdPause ref) w =
     and_then (current_of ref w) (phase_change clk OpPause {PhActive} PhPaused)"
| "command_change clk d (CmdResume ref) w =
     and_then (current_of ref w) (\<lambda>c.
       if gs_phase (pj_goal c) \<in> {PhActive, PhPaused, PhBlocked}
          \<and> \<not> (gs_phase (pj_goal c) = PhActive \<and> rt_activation (gw_runtime w) = Armed)
          \<and> pj_rounds c < gs_max_rounds (pj_goal c)
       then Inr (snapshot_change clk OpResume c (with_phase (pj_goal c) PhActive))
       else Inl (InvalidTransition OpResume))"
| "command_change clk d (CmdComplete ref) w =
     and_then (current_of ref w) (phase_change clk OpComplete {PhActive, PhPaused, PhBlocked} PhComplete)"
| "command_change clk d (CmdBlock ref reason) w =
     and_then (current_of ref w) (\<lambda>c.
       if gs_phase (pj_goal c) \<noteq> PhActive then Inl (InvalidTransition OpBlock)
       else and_then (resolve_block_reason reason) (\<lambda>r.
         Inr (snapshot_change clk OpBlock c ((with_phase (pj_goal c) PhBlocked)\<lparr>gs_reason := Some r\<rparr>))))"
| "command_change clk d (CmdClear ref) w =
     and_then (current_of ref w) (\<lambda>c.
       Inr (ClearChange \<lparr>gr_id = gs_id (pj_goal c), gr_revision = gs_revision (pj_goal c) + 1\<rparr> (updated_at clk c)))"

fun command_activation :: "goal_command \<Rightarrow> goal_world \<Rightarrow> goal_activation" where
  "command_activation (CmdCreate _ _ _) w = Armed"
| "command_activation (CmdEdit _ _ _) w = rt_activation (gw_runtime w)"
| "command_activation (CmdResume _) w = Armed"
| "command_activation _ w = Disarmed"

text \<open>Every command is: decide on the change, then commit it.\<close>

lemma commit_snapshot_ref:
  "view_ref (commit_snapshot clk p g n c u a w) =
     (case commit_change clk (SnapshotChange p g n c u) a w of
        (Inl err, w') \<Rightarrow> (Inl err, w') | (Inr _, w') \<Rightarrow> (Inr (snapshot_ref g), w'))"
  by (auto simp: commit_snapshot_def view_ref_def split: prod.split sum.split)

lemma view_ref_Inl [simp]: "view_ref (Inl err, w) = (Inl err, w)"
  by (simp add: view_ref_def)

lemma goal_change_ref_simps [simp]:
  "goal_change_ref (SnapshotChange p g n c u) = snapshot_ref g" "goal_change_ref (ClearChange r t) = r"
  by (simp_all add: goal_change_ref_def)

definition commit_of ::
    "clock \<Rightarrow> goal_activation \<Rightarrow> goal_world \<Rightarrow> (service_error, goal_change) result \<Rightarrow> (service_error, goal_ref) result \<times> goal_world" where
  "commit_of clk a w r =
     (case r of
        Inl err \<Rightarrow> (Inl err, w)
      | Inr c \<Rightarrow> (case commit_change clk c a w of
            (Inl err, w') \<Rightarrow> (Inl err, w') | (Inr _, w') \<Rightarrow> (Inr (goal_change_ref c), w')))"

lemma commit_of_snapshot:
  "commit_of clk a w (Inr (SnapshotChange p g n c u)) = view_ref (commit_snapshot clk p g n c u a w)"
  by (auto simp: commit_of_def commit_snapshot_ref split: prod.split sum.split)

lemma commit_of_current:
  "commit_of clk a w (Inr (snapshot_change clk p c g)) = view_ref (commit_current clk c p g a w)"
  by (simp add: snapshot_change_def commit_of_snapshot commit_current_def updated_at_def)

lemma commit_of_Inl [simp]: "commit_of clk a w (Inl err) = (Inl err, w)"
  by (simp add: commit_of_def)

lemma run_command_commits:
  "run_command clk d cmd w = commit_of clk (command_activation cmd w) w (command_change clk d cmd w)"
proof (cases cmd)
  case (CmdCreate uuid objective max_rounds)
  then show ?thesis
    by (cases "resolve_create objective max_rounds d"; cases "prepare_mutation w")
      (auto simp: create_goal_def commit_of_snapshot split: option.splits)
next
  case (CmdEdit ref objective max_rounds)
  show ?thesis
  proof (cases "current_of ref w")
    case (Inr c)
    then show ?thesis using CmdEdit
      by (cases "edited_snapshot objective max_rounds (pj_goal c)") (simp_all add: edit_goal_def commit_of_current)
  qed (simp add: CmdEdit edit_goal_def)
next
  case (CmdPause ref)
  then show ?thesis
    by (cases "current_of ref w") (simp_all add: pause_goal_def transition_goal_def phase_change_def commit_of_current)
next
  case (CmdResume ref)
  then show ?thesis
    by (cases "current_of ref w") (auto simp: resume_goal_def commit_of_current reject_if_def)
next
  case (CmdComplete ref)
  then show ?thesis
    by (cases "current_of ref w") (simp_all add: complete_goal_def transition_goal_def phase_change_def commit_of_current)
next
  case (CmdBlock ref reason)
  then show ?thesis
    by (cases "current_of ref w"; cases "resolve_block_reason reason")
      (simp_all add: block_goal_def commit_of_current)
next
  case (CmdClear ref)
  then show ?thesis
    by (cases "current_of ref w")
      (auto simp: clear_goal_def commit_of_def updated_at_def Let_def split: prod.split sum.split)
qed

section \<open>What the service asks for is what the fold accepts\<close>

lemma trim_trim [simp]: "trim (trim s) = trim s"
proof -
  have drop: "dropWhile P (rev (dropWhile P (rev (dropWhile P xs)))) = rev (dropWhile P (rev (dropWhile P xs)))"
    for P and xs :: string
  proof -
    let ?ys = "dropWhile P xs" and ?zs = "rev (dropWhile P (rev (dropWhile P xs)))"
    have split: "?ys = ?zs @ rev (takeWhile P (rev ?ys))"
      by (metis rev_append rev_rev_ident takeWhile_dropWhile_id)
    have "\<not> P (hd ?zs)" if "?zs \<noteq> []"
    proof -
      have "hd ?ys = hd ?zs" using split that by (metis hd_append2)
      moreover have "?ys \<noteq> []" using split that by (metis append_is_Nil_conv)
      ultimately show ?thesis by (metis hd_dropWhile)
    qed
    then show ?thesis by (cases ?zs) (simp_all add: dropWhile_eq_self_iff)
  qed
  show ?thesis unfolding trim_def by (simp only: drop rev_rev_ident dropWhile_idem)
qed

lemma resolve_objective_ok: "resolve_objective v = Inr s \<Longrightarrow> text_ok s"
  by (auto simp: resolve_objective_def text_ok_def split: if_splits)

lemma resolve_max_rounds_ok: "resolve_max_rounds v = Inr n \<Longrightarrow> safe_positive n"
  by (cases v) (auto simp: resolve_max_rounds_def safe_positive_def split: if_splits dest: safe_integer_bound)

lemma resolve_block_reason_ok: "resolve_block_reason v = Inr r \<Longrightarrow> reason_ok r"
  by (auto simp: resolve_block_reason_def Let_def reason_ok_def text_ok_def split: if_splits)

lemma goal_revision_bound:
  assumes "goal_replay es = Inr st" and "gf_goal st = Some g"
  shows "gs_revision g \<le> int (length es)"
proof -
  have len: "length (List.map_filter f es) \<le> length es" for f :: "session_event \<Rightarrow> goal_change option"
    by (induction es) (simp_all add: List.map_filter_simps split: option.splits)
  from goal_replay_counts [OF assms(1)] obtain n m where "counts_ok (gs_id g) n m es st" by blast
  then have "gs_revision g = int (length (goal_revisions (gs_id g) es))" using assms(2) by (simp add: counts_ok_def)
  also have "length (goal_revisions (gs_id g) es) \<le> length es"
    unfolding goal_revisions_def length_map
    by (rule order_trans [OF length_filter_le]) (simp add: len)
  finally show ?thesis by simp
qed

lemma current_of_Inr:
  assumes "world_ok st w" and "current_of ref w = Inr c"
  obtains g u cr where "gw_live w" and "gf_goal st = Some g" and "ref = snapshot_ref g" and "gf_created st = Some cr"
    and "gf_updated st = Some u" and "c = \<lparr>pj_goal = g, pj_rounds = gf_rounds st, pj_created = cr, pj_updated = u\<rparr>"
  using assms world_ok_inv [OF assms(1)] that
  by (auto simp: current_of_def prepare_mutation_def assert_live_def expect_current_def checkpoint_of_def
      and_then_Inr_iff goal_inv_def snapshot_ref_def split: option.splits)

text \<open>Every change of the current goal the service builds keeps the counters and times.\<close>

lemma snapshot_change_accepted:
  assumes inv: "goal_inv st" and cur: "gf_goal st = Some h" "gf_created st = Some cr" "gf_updated st = Some u"
    and g: "gs_id g = gs_id h" "gs_revision g = gs_revision h + 1" and "p \<noteq> OpCreate"
    and op: "check_operation st p g h = Inr ()"
  defines "c \<equiv> \<lparr>pj_goal = h, pj_rounds = gf_rounds st, pj_created = cr, pj_updated = u\<rparr>"
  shows "\<exists>st'. apply_goal_change (snapshot_change clk p c g) st = Inr st'"
  using assms
  by (simp add: apply_goal_change_def snapshot_change_def check_snapshot_change_def validate_snapshot_transition_def
      require_next_revision_def snapshot_ref_def updated_at_def)

lemma snapshot_change_valid:
  assumes inv: "goal_inv st" and cur: "gf_goal st = Some h" "gf_created st = Some cr" "gf_updated st = Some u"
    and "safe_non_negative (fst clk)" and "snapshot_ok g" and "p \<noteq> OpClear"
  shows "change_ok (snapshot_change clk p \<lparr>pj_goal = h, pj_rounds = gf_rounds st, pj_created = cr, pj_updated = u\<rparr> g)"
  using assms by (auto simp: snapshot_change_def updated_at_def goal_inv_def safe_non_negative_def)

lemma with_phase_ok:
  assumes "snapshot_ok h" and "gs_revision h < MAX_SAFE_INTEGER" and "p \<noteq> PhBlocked"
  shows "snapshot_ok (with_phase h p)"
  using assms by (simp add: with_phase_def snapshot_ok_def safe_positive_def)

lemma blocked_ok:
  assumes "snapshot_ok h" and "gs_revision h < MAX_SAFE_INTEGER" and "reason_ok r"
  shows "snapshot_ok ((with_phase h PhBlocked)\<lparr>gs_reason := Some r\<rparr>)"
  using assms by (simp add: with_phase_def snapshot_ok_def safe_positive_def)

lemma edited_ok:
  assumes "edited_snapshot objective max_rounds h = Inr g" and "snapshot_ok h" and "gs_revision h < MAX_SAFE_INTEGER"
  shows "snapshot_ok g \<and> gs_id g = gs_id h \<and> gs_revision g = gs_revision h + 1
    \<and> gs_phase g = gs_phase h \<and> gs_reason g = gs_reason h"
  using assms
  by (auto simp: edited_snapshot_def and_then_Inr_iff snapshot_ok_def safe_positive_def
      split: option.splits dest: resolve_objective_ok resolve_max_rounds_ok)

fun fresh_command :: "goal_command \<Rightarrow> goal_world \<Rightarrow> bool" where
  "fresh_command (CmdCreate uuid _ _) w \<longleftrightarrow> ''goal-'' @ uuid \<notin> set (gp_seen (gw_state w))"
| "fresh_command _ w \<longleftrightarrow> True"

definition accepted :: "goal_change \<Rightarrow> goal_fold \<Rightarrow> bool" where
  "accepted c st \<longleftrightarrow> change_ok c \<and> (\<exists>st'. apply_goal_change c st = Inr st')"

lemma create_accepted:
  assumes "goal_inv st" and "safe_non_negative t" and "text_ok obj" and "safe_positive n"
    and "i \<noteq> []" and "i \<notin> set (gf_seen st)" and "\<forall>h. gf_goal st = Some h \<longrightarrow> gs_phase h = PhComplete"
  shows "accepted (SnapshotChange OpCreate \<lparr>gs_id = i, gs_revision = 1, gs_objective = obj, gs_phase = PhActive,
    gs_reason = None, gs_max_rounds = n\<rparr> 0 t t) st"
  using assms
  by (auto simp: accepted_def snapshot_ok_def safe_positive_def safe_non_negative_def MAX_SAFE_INTEGER_def
      apply_goal_change_def check_snapshot_change_def)

lemma clear_accepted:
  assumes "goal_inv st" and "gf_goal st = Some h" and "gf_updated st = Some u" and "u \<le> t"
    and "safe_non_negative t" and "gs_revision h < MAX_SAFE_INTEGER"
  shows "accepted (ClearChange \<lparr>gr_id = gs_id h, gr_revision = gs_revision h + 1\<rparr> t) st"
  using assms
  by (auto simp: accepted_def ref_ok_def goal_inv_def snapshot_ok_def safe_positive_def
      apply_goal_change_def apply_clear_def require_next_revision_def)

lemma update_accepted:
  assumes "goal_inv st" and "gf_goal st = Some h" and "gf_created st = Some cr" and "gf_updated st = Some u"
    and "safe_non_negative (fst clk)" and "snapshot_ok g" and "gs_id g = gs_id h" and "gs_revision g = gs_revision h + 1"
    and "p \<noteq> OpCreate" and "p \<noteq> OpClear" and "check_operation st p g h = Inr ()"
  shows "accepted (snapshot_change clk p \<lparr>pj_goal = h, pj_rounds = gf_rounds st, pj_created = cr, pj_updated = u\<rparr> g) st"
  unfolding accepted_def
  using snapshot_change_valid [OF assms(1-6,10)] snapshot_change_accepted [OF assms(1-4,7-9,11)] by blast

lemma with_phase_simps [simp]:
  "gs_id (with_phase h p) = gs_id h" "gs_revision (with_phase h p) = gs_revision h + 1"
  "gs_phase (with_phase h p) = p" "gs_objective (with_phase h p) = gs_objective h"
  "gs_max_rounds (with_phase h p) = gs_max_rounds h"
  by (simp_all add: with_phase_def)

lemma update_from_current:
  assumes ok: "world_ok st w" and clk: "safe_non_negative (fst clk)"
    and room: "int (length (world_log w)) < MAX_SAFE_INTEGER" and p: "current_of ref w = Inr p"
    and op: "q \<noteq> OpCreate" "q \<noteq> OpClear"
    and new: "\<And>h. h = pj_goal p \<Longrightarrow> pj_rounds p = gf_rounds st \<Longrightarrow> snapshot_ok h \<Longrightarrow> gs_revision h < MAX_SAFE_INTEGER \<Longrightarrow>
      snapshot_ok g \<and> gs_id g = gs_id h \<and> gs_revision g = gs_revision h + 1 \<and> check_operation st q g h = Inr ()"
  shows "accepted (snapshot_change clk q p g) st"
  using ok p
proof (rule current_of_Inr)
  fix h u cr
  assume h: "gf_goal st = Some h" "gf_created st = Some cr" "gf_updated st = Some u"
    and p: "p = \<lparr>pj_goal = h, pj_rounds = gf_rounds st, pj_created = cr, pj_updated = u\<rparr>"
  have inv: "goal_inv st" by (rule world_ok_inv [OF ok])
  then have "snapshot_ok h" using h(1) by (simp add: goal_inv_def)
  moreover have "gs_revision h < MAX_SAFE_INTEGER"
    using ok goal_revision_bound [of "world_log w" st h] h(1) room by (simp add: world_ok_def)
  ultimately have "snapshot_ok g" "gs_id g = gs_id h" "gs_revision g = gs_revision h + 1" "check_operation st q g h = Inr ()"
    using new p by simp_all
  then show ?thesis unfolding p using update_accepted [OF inv h clk] op by blast
qed

lemma create_command_accepted:
  assumes ok: "world_ok st w" and "safe_non_negative (fst clk)" and "fresh_command cmd w"
    and "cmd = CmdCreate uuid objective max_rounds" and change: "command_change clk d cmd w = Inr c"
  shows "accepted c st"
proof -
  from change assms(4) obtain obj n cur where spec: "resolve_create objective max_rounds d = Inr (obj, n)"
    and cur: "prepare_mutation w = Inr cur" and free: "\<forall>p. cur = Some p \<longrightarrow> gs_phase (pj_goal p) = PhComplete"
    and c: "c = SnapshotChange OpCreate \<lparr>gs_id = ''goal-'' @ uuid, gs_revision = 1, gs_objective = obj,
          gs_phase = PhActive, gs_reason = None, gs_max_rounds = n\<rparr> 0 (fst clk) (fst clk)"
    by (auto simp: and_then_Inr_iff split: option.splits if_splits)
  have "text_ok obj" "safe_positive n"
    using spec by (auto simp: resolve_create_def and_then_Inr_iff dest: resolve_objective_ok resolve_max_rounds_ok)
  moreover have "\<forall>h. gf_goal st = Some h \<longrightarrow> gs_phase h = PhComplete"
    using cur free ok by (auto simp: prepare_mutation_def and_then_Inr_iff checkpoint_of_def split: option.splits)
  moreover have "''goal-'' @ uuid \<notin> set (gf_seen st)"
    using assms(3,4) ok by (simp add: checkpoint_of_def world_ok_def)
  ultimately show ?thesis unfolding c using assms(2) world_ok_inv [OF ok] by (intro create_accepted) simp_all
qed

lemma clear_command_accepted:
  assumes ok: "world_ok st w" and clk: "safe_non_negative (fst clk)"
    and room: "int (length (world_log w)) < MAX_SAFE_INTEGER" and p: "current_of ref w = Inr p"
  shows "accepted (ClearChange \<lparr>gr_id = gs_id (pj_goal p), gr_revision = gs_revision (pj_goal p) + 1\<rparr> (updated_at clk p)) st"
  using ok p
proof (rule current_of_Inr)
  fix h u cr
  assume h: "gf_goal st = Some h" "gf_created st = Some cr" "gf_updated st = Some u"
    and p: "p = \<lparr>pj_goal = h, pj_rounds = gf_rounds st, pj_created = cr, pj_updated = u\<rparr>"
  have inv: "goal_inv st" by (rule world_ok_inv [OF ok])
  have "gs_revision h < MAX_SAFE_INTEGER"
    using ok goal_revision_bound [of "world_log w" st h] h(1) room by (simp add: world_ok_def)
  moreover have "safe_non_negative (updated_at clk p)" "u \<le> updated_at clk p"
    using clk inv h p by (auto simp: updated_at_def goal_inv_def safe_non_negative_def)
  ultimately show ?thesis using clear_accepted [OF inv h(1,3)] p by simp
qed

lemma command_change_accepted:
  assumes base: "world_ok st w" "safe_non_negative (fst clk)" "int (length (world_log w)) < MAX_SAFE_INTEGER"
    and fresh: "fresh_command cmd w" and change: "command_change clk d cmd w = Inr c"
  shows "accepted c st"
proof (cases cmd)
  case (CmdCreate uuid objective max_rounds)
  then show ?thesis by (rule create_command_accepted [OF base(1,2) fresh _ change])
next
  case (CmdEdit ref objective max_rounds)
  with change obtain p g where p: "current_of ref w = Inr p"
    and g: "edited_snapshot objective max_rounds (pj_goal p) = Inr g" "c = snapshot_change clk OpEdit p g"
    by (auto simp: and_then_Inr_iff)
  show ?thesis unfolding g(2)
    by (rule update_from_current [OF base p]) (auto simp: check_operation_def dest: edited_ok [OF g(1)])
next
  case (CmdPause ref)
  with change obtain p where p: "current_of ref w = Inr p" and c: "gs_phase (pj_goal p) = PhActive"
      "c = snapshot_change clk OpPause p (with_phase (pj_goal p) PhPaused)"
    by (auto simp: and_then_Inr_iff phase_change_def split: if_splits)
  show ?thesis unfolding c(2)
    by (rule update_from_current [OF base p])
      (auto simp: check_operation_def require_same_definition_def c(1) intro: with_phase_ok)
next
  case (CmdResume ref)
  with change obtain p where p: "current_of ref w = Inr p"
    and c: "gs_phase (pj_goal p) \<in> {PhActive, PhPaused, PhBlocked}" "pj_rounds p < gs_max_rounds (pj_goal p)"
      "c = snapshot_change clk OpResume p (with_phase (pj_goal p) PhActive)"
    by (auto simp: and_then_Inr_iff split: if_splits)
  show ?thesis unfolding c(3)
    by (rule update_from_current [OF base p])
      (use c(1,2) in \<open>auto simp: check_operation_def require_same_definition_def intro: with_phase_ok\<close>)
next
  case (CmdComplete ref)
  with change obtain p where p: "current_of ref w = Inr p" and c: "gs_phase (pj_goal p) \<noteq> PhComplete"
      "c = snapshot_change clk OpComplete p (with_phase (pj_goal p) PhComplete)"
    by (auto simp: and_then_Inr_iff phase_change_def split: if_splits)
  show ?thesis unfolding c(2)
    by (rule update_from_current [OF base p])
      (use c(1) in \<open>auto simp: check_operation_def require_same_definition_def intro: with_phase_ok\<close>)
next
  case (CmdBlock ref reason)
  with change obtain p r where p: "current_of ref w = Inr p" and r: "resolve_block_reason reason = Inr r"
    and c: "gs_phase (pj_goal p) = PhActive"
      "c = snapshot_change clk OpBlock p ((with_phase (pj_goal p) PhBlocked)\<lparr>gs_reason := Some r\<rparr>)"
    by (auto simp: and_then_Inr_iff split: if_splits)
  show ?thesis unfolding c(2)
    by (rule update_from_current [OF base p])
      (auto simp: check_operation_def require_same_definition_def c(1) intro: blocked_ok resolve_block_reason_ok [OF r])
next
  case (CmdClear ref)
  with change obtain p where p: "current_of ref w = Inr p"
    and c: "c = ClearChange \<lparr>gr_id = gs_id (pj_goal p), gr_revision = gs_revision (pj_goal p) + 1\<rparr> (updated_at clk p)"
    by (auto simp: and_then_Inr_iff)
  show ?thesis unfolding c by (rule clear_command_accepted [OF base p])
qed

lemma command_outcome:
  assumes "world_ok st w" and "safe_non_negative (fst clk)"
    and "int (length (world_log w)) < MAX_SAFE_INTEGER" and "fresh_command cmd w"
  shows "case command_change clk d cmd w of
      Inl err \<Rightarrow> run_command clk d cmd w = (Inl err, w)
    | Inr c \<Rightarrow> (\<exists>st' w'. run_command clk d cmd w = (Inr (goal_change_ref c), w') \<and> change_ok c
        \<and> apply_goal_change c st = Inr st' \<and> committed c (command_activation cmd w) st' w w')"
proof (cases "command_change clk d cmd w")
  case (Inl err)
  then show ?thesis by (simp add: run_command_commits)
next
  case (Inr c)
  from command_change_accepted [OF assms Inr] obtain st' where c: "change_ok c" "apply_goal_change c st = Inr st'"
    unfolding accepted_def by blast
  from assms(3) have "int (length (world_log w)) \<le> MAX_SAFE_INTEGER" by simp
  from commit_change_ok [OF assms(1) this c, of clk "command_activation cmd w"] obtain w' where
    "commit_change clk c (command_activation cmd w) w = (Inr (), w')" "committed c (command_activation cmd w) st' w w'"
    by blast
  then show ?thesis using Inr c by (auto simp: run_command_commits commit_of_def)
qed

section \<open>Reachable worlds\<close>

text \<open>A session whose log the fold accepts, then commands, session starts, changes of the registry's
  live agent, and appends by other code of events the fold accepts (which the goal companion
  enforces), in any order.\<close>

definition initial_world :: "bool \<Rightarrow> session \<Rightarrow> goal_world" where
  "initial_world live s =
     \<lparr>gw_live = live, gw_session = s, gw_state = project_goal (s_log s),
      gw_runtime = \<lparr>rt_activation = Disarmed, rt_pending = None\<rparr>, gw_sent = []\<rparr>"

inductive goal_run :: "goal_world \<Rightarrow> bool" where
  opened: "session_reach s \<Longrightarrow> is_ok (goal_replay (s_log s)) \<Longrightarrow> goal_run (initial_world live s)"
| command: "goal_run w \<Longrightarrow> safe_non_negative (fst clk) \<Longrightarrow> int (length (world_log w)) < MAX_SAFE_INTEGER \<Longrightarrow>
    fresh_command cmd w \<Longrightarrow> goal_run (snd (run_command clk d cmd w))"
| started: "goal_run w \<Longrightarrow> goal_run (session_start w)"
| liveness: "goal_run w \<Longrightarrow> goal_run (w\<lparr>gw_live := live\<rparr>)"
| foreign: "goal_run w \<Longrightarrow> append_in_world now p op sources w = (r, w') \<Longrightarrow>
    is_ok (goal_replay (world_log w')) \<Longrightarrow> goal_run w'"

lemma foreign_world_ok:
  assumes ok: "world_ok st w" and app: "append_in_world now p op sources w = (r, w')"
    and replay: "goal_replay (world_log w') = Inr st'"
  shows "world_ok st' w'"
proof -
  from ok have inv: "session_inv (gw_session w)" by (simp add: world_ok_def)
  obtain q s where a: "session_append now p op sources (gw_session w) = (q, s)"
    by (cases "session_append now p op sources (gw_session w)")
  have inv': "session_inv s" using session_append_inv [OF inv, of now p op sources] a by simp
  note log = session_append_log [OF inv a]
  show ?thesis
  proof (cases q)
    case (Inl err)
    with app a have w': "w' = w\<lparr>gw_session := s\<rparr>" by (simp add: append_in_world_def)
    with replay log Inl ok have "st' = st" by (simp add: world_ok_def)
    with ok inv' w' log Inl show ?thesis by (simp add: world_ok_def)
  next
    case (Inr e)
    with app a have w': "w' = publish_event e (w\<lparr>gw_session := s\<rparr>)" by (simp add: append_in_world_def)
    have "s_log s = world_log w @ [e]" using log Inr by simp
    moreover have "goal_replay (world_log w) = Inr st" "gw_state w = checkpoint_of st"
      "rt_pending (gw_runtime w) = None" using ok by (simp_all add: world_ok_def)
    ultimately have step: "apply_goal_event e st = Inr st'"
      using replay w' by (simp add: publish_event_def goal_replay_snoc)
    have "rt_pending (activation_listener e (gw_runtime w)) = None"
      using ok by (auto simp: activation_listener_def world_ok_def split: payload.split)
    then show ?thesis
      using w' inv' replay ok step apply_projection_step [OF world_ok_inv [OF ok], of e]
      by (simp add: world_ok_def publish_event_def)
  qed
qed

lemma goal_run_ok: "goal_run w \<Longrightarrow> \<exists>st. world_ok st w"
proof (induction rule: goal_run.induct)
  case (opened s live)
  then obtain st where "goal_replay (s_log s) = Inr st" by (auto simp: is_ok_iff)
  with session_reach_inv [OF opened(1)] show ?case
    by (auto simp: world_ok_def initial_world_def project_goal_ok)
next
  case (command w clk cmd d)
  then obtain st where ok: "world_ok st w" by blast
  from command_outcome [OF ok command(2-4), of d] ok show ?case
    by (cases "command_change clk d cmd w") (auto simp: committed_def)
next
  case (started w)
  then show ?case by (auto simp: session_start_def world_ok_def)
next
  case (liveness w live)
  then show ?case by (auto simp: world_ok_def)
next
  case (foreign w now p op sources r w')
  then show ?case by (auto simp: is_ok_iff dest: foreign_world_ok)
qed

text \<open>
  Claim C6. Every mutation of the goal service is all or nothing, and what it writes is what the
  strict fold accepts: in any reachable world a command fails with the error of its precondition
  and changes nothing, or it appends exactly one event, the change the command stands for, which
  the fold accepts after the log so far; afterwards the projection is again the fold of the log,
  the activation is the command's, one notification was sent and the caller got the new revision.
\<close>

theorem goal_command_exact:
  assumes "goal_run w" and "safe_non_negative (fst clk)"
    and "int (length (world_log w)) < MAX_SAFE_INTEGER" and "fresh_command cmd w"
  shows "\<exists>st. goal_replay (world_log w) = Inr st \<and>
    (case command_change clk d cmd w of
      Inl err \<Rightarrow> run_command clk d cmd w = (Inl err, w)
    | Inr c \<Rightarrow> (\<exists>st' w'. run_command clk d cmd w = (Inr (goal_change_ref c), w') \<and> change_ok c
        \<and> apply_goal_change c st = Inr st' \<and> committed c (command_activation cmd w) st' w w'))"
proof -
  from goal_run_ok [OF assms(1)] obtain st where ok: "world_ok st w" by blast
  then show ?thesis using command_outcome [OF ok assms(2-4), of d] by (auto simp: world_ok_def)
qed

text \<open>
  Claim C18. A defect of the edit: an edit may lower the round cap below the rounds already
  started. The service accepts it and so does the fold, but the projection it leaves is one the
  projection's own persisted-state schema refuses, so the checkpoint cannot be read back.
\<close>

theorem goal_edit_breaks_checkpoint:
  assumes "goal_run w" and "safe_non_negative (fst clk)" and "int (length (world_log w)) < MAX_SAFE_INTEGER"
    and "gw_live w" and "gp_current (gw_state w) = Some c" and "1 \<le> n" and "n < pj_rounds c"
  shows "\<exists>w'. run_command clk d (CmdEdit (snapshot_ref (pj_goal c)) None (Some (jint n))) w
      = (Inr \<lparr>gr_id = gs_id (pj_goal c), gr_revision = gs_revision (pj_goal c) + 1\<rparr>, w')
    \<and> is_ok (goal_replay (world_log w')) \<and> \<not> state_schema (gw_state w')"
proof -
  let ?cmd = "CmdEdit (snapshot_ref (pj_goal c)) None (Some (jint n))"
  let ?g = "(pj_goal c)\<lparr>gs_revision := gs_revision (pj_goal c) + 1, gs_max_rounds := n\<rparr>"
  from goal_run_ok [OF assms(1)] obtain st where ok: "world_ok st w" by blast
  have "pj_rounds c \<le> MAX_SAFE_INTEGER"
    using ok assms(5) world_ok_inv [OF ok]
    by (auto simp: world_ok_def checkpoint_of_def goal_inv_def safe_non_negative_def split: option.splits)
  then have "n \<le> MAX_SAFE_INTEGER" using assms(7) by simp
  then have change: "command_change clk d ?cmd w = Inr (snapshot_change clk OpEdit c ?g)"
    using ok assms(4-6)
    by (simp add: current_of_def prepare_mutation_def assert_live_def expect_current_def snapshot_ref_def
        edited_snapshot_def resolve_max_rounds_def world_ok_def MAX_SAFE_INTEGER_def)
  have "fresh_command ?cmd w" by simp
  from command_outcome [OF ok assms(2,3) this, of d] change obtain st' w' where
    w': "run_command clk d ?cmd w = (Inr (snapshot_ref ?g), w')"
      "apply_goal_change (snapshot_change clk OpEdit c ?g) st = Inr st'"
      "committed (snapshot_change clk OpEdit c ?g) (command_activation ?cmd w) st' w w'"
    by (auto simp: snapshot_change_def)
  have "gf_goal st' = Some ?g" "gf_rounds st' = pj_rounds c"
    using w'(2) by (auto simp: snapshot_change_def apply_goal_change_def check_snapshot_change_def and_then_Inr_iff
        split: option.splits)
  then have "\<not> state_schema (gw_state w')"
    using w'(3) assms(7) by (simp add: committed_def world_ok_def checkpoint_of_def state_schema_def)
  moreover have "is_ok (goal_replay (world_log w'))" using w'(3) by (simp add: committed_def world_ok_def)
  ultimately show ?thesis using w'(1) by (simp add: snapshot_ref_def)
qed

section \<open>The companion\<close>

text \<open>\<open>invariant.ts\<close>: an independent fold per session. A dispatched event is applied to a copy of the
  state, which replaces the state when that event commits.\<close>

record goal_companion =
  gc_states :: "(string \<times> goal_fold) list"
  gc_staged :: "((string \<times> session_event) \<times> goal_fold) list"

datatype companion_error = StreamViolation nat goal_error | NotValidated

definition no_goal_companion :: goal_companion where
  "no_goal_companion = \<lparr>gc_states = [], gc_staged = []\<rparr>"

definition apply_checked :: "session_event \<Rightarrow> goal_fold \<Rightarrow> (companion_error, goal_fold) result" where
  "apply_checked e st = rethrow (StreamViolation (ev_seq e)) (apply_goal_event e st)"

definition seed_goal :: "string \<Rightarrow> session_event list \<Rightarrow> goal_companion \<Rightarrow> (companion_error, goal_companion \<times> goal_fold) result" where
  "seed_goal sid es c =
     and_then (fold_result apply_checked es empty_goal_fold) (\<lambda>st. Inr (c\<lparr>gc_states := (sid, st) # gc_states c\<rparr>, st))"

definition goal_created :: "string \<Rightarrow> session_event list \<Rightarrow> goal_companion \<Rightarrow> (companion_error, goal_companion) result" where
  "goal_created sid es c = and_then (seed_goal sid es c) (\<lambda>(c', _). Inr c')"

definition state_for ::
    "string \<Rightarrow> session_event list \<Rightarrow> goal_companion \<Rightarrow> (companion_error, goal_companion \<times> goal_fold) result" where
  "state_for sid es c = (case map_of (gc_states c) sid of Some st \<Rightarrow> Inr (c, st) | None \<Rightarrow> seed_goal sid es c)"

definition goal_dispatch ::
    "string \<Rightarrow> session_event list \<Rightarrow> session_event \<Rightarrow> goal_companion \<Rightarrow> (companion_error, goal_companion) result" where
  "goal_dispatch sid es e c =
     and_then (state_for sid es c) (\<lambda>(c', st).
     and_then (apply_checked e st) (\<lambda>st'. Inr (c'\<lparr>gc_staged := ((sid, e), st') # gc_staged c'\<rparr>)))"

definition goal_committed :: "string \<Rightarrow> session_event \<Rightarrow> goal_companion \<Rightarrow> (companion_error, goal_companion) result" where
  "goal_committed sid e c =
     (case map_of (gc_staged c) (sid, e) of
        None \<Rightarrow> Inl NotValidated
      | Some st \<Rightarrow>
          Inr (c\<lparr>gc_staged := filter (\<lambda>q. fst q \<noteq> (sid, e)) (gc_staged c), gc_states := (sid, st) # gc_states c\<rparr>))"

inductive goal_companion_run :: "string \<Rightarrow> session_event list \<Rightarrow> goal_companion \<Rightarrow> bool" for sid where
  created: "goal_created sid es no_goal_companion = Inr c \<Longrightarrow> goal_companion_run sid es c"
| vetoed: "goal_companion_run sid es c \<Longrightarrow> goal_dispatch sid es e c = Inr c' \<Longrightarrow> goal_companion_run sid es c'"
| committed: "goal_companion_run sid es c \<Longrightarrow> goal_dispatch sid es e c = Inr c' \<Longrightarrow>
    goal_committed sid e c' = Inr c'' \<Longrightarrow> goal_companion_run sid (es @ [e]) c''"

lemma apply_checked_Inr [simp]: "apply_checked e st = Inr st' \<longleftrightarrow> apply_goal_event e st = Inr st'"
  by (simp add: apply_checked_def)

lemma checked_replay: "fold_result apply_checked es empty_goal_fold = Inr st \<longleftrightarrow> goal_replay es = Inr st"
proof (induction es arbitrary: st rule: rev_induct)
  case (snoc e es)
  then show ?case by (simp add: goal_replay_snoc fold_result_snoc and_then_Inr_iff)
qed simp

lemma companion_state: "goal_companion_run sid es c \<Longrightarrow> \<exists>st. map_of (gc_states c) sid = Some st \<and> goal_replay es = Inr st"
proof (induction rule: goal_companion_run.induct)
  case (created es c)
  then show ?case by (auto simp: goal_created_def seed_goal_def and_then_Inr_iff checked_replay)
next
  case (vetoed es c e c')
  then show ?case by (auto simp: goal_dispatch_def state_for_def and_then_Inr_iff)
next
  case (committed es c e c' c'')
  then show ?case
    by (auto simp: goal_dispatch_def state_for_def goal_committed_def and_then_Inr_iff goal_replay_snoc)
qed

text \<open>
  The goal companion enforces the fold: whatever was validated and vetoed, its state is the
  fold of the committed events, and a dispatched event is let through exactly when the fold
  accepts the log with that event appended.
\<close>

theorem goal_companion_exact:
  assumes "goal_companion_run sid es c"
  shows "(\<exists>st. map_of (gc_states c) sid = Some st \<and> goal_replay es = Inr st)
    \<and> (is_ok (goal_dispatch sid es e c) \<longleftrightarrow> is_ok (goal_replay (es @ [e])))"
proof -
  from companion_state [OF assms] obtain st where st: "map_of (gc_states c) sid = Some st" "goal_replay es = Inr st" by blast
  then show ?thesis
    by (cases "apply_goal_event e st") (auto simp: goal_dispatch_def state_for_def apply_checked_def goal_replay_snoc)
qed

section \<open>Examples\<close>

lemma example_session:
  "\<exists>s. construct_session 5 ''s'' None None SnapshotSeed None = Inr s \<and> s_log s = []"
proof -
  have "is_ok (and_then (rethrow (\<lambda>_. ()) (construct_session 5 ''s'' None None SnapshotSeed None))
     (\<lambda>s. reject_if (s_log s \<noteq> []) ()))"
    by code_simp
  then show ?thesis by (auto simp: is_ok_iff and_then_Inr_iff)
qed

definition round_log :: "session_event list" where
  "round_log =
     [log_event (GoalChange (change_obj example_create)) 0,
      append_event (UserMessageEvent (goal_message ''g'' 1 1)) 1,
      append_event (UserMessageEvent (goal_message ''g'' 1 2)) 2,
      log_event EndSeed 3]"

definition round_state :: goal_fold where
  "round_state =
     \<lparr>gf_goal = Some example_goal, gf_rounds = 2, gf_created = Some 5, gf_updated = Some 5,
      gf_last_ref = Some \<lparr>gr_id = ''g'', gr_revision = 1\<rparr>, gf_seen = [''g'']\<rparr>"

lemma round_log_replays: "goal_replay round_log = Inr round_state"
proof -
  have second: "apply_goal_round n \<lparr>gr_id = ''g'', gr_revision = 1\<rparr> 2
     \<lparr>gf_goal = Some example_goal, gf_rounds = 1, gf_created = Some 5, gf_updated = Some 5, gf_last_ref = r, gf_seen = [''g'']\<rparr>
     = Inr \<lparr>gf_goal = Some example_goal, gf_rounds = 2, gf_created = Some 5, gf_updated = Some 5, gf_last_ref = r, gf_seen = [''g'']\<rparr>"
    for n r
    by (simp add: example_goal_def apply_goal_round_def)
  have marker: "apply_goal_event (log_event EndSeed 3) st = Inr st" for st
    by (simp add: apply_goal_event_def log_event_def)
  show ?thesis
    by (simp add: goal_replay_def round_log_def apply_change_event apply_round_event safe_positive_def
        MAX_SAFE_INTEGER_def goal_log_steps second marker round_state_def)
qed

lemma round_session:
  "\<exists>s. construct_session 0 ''s'' (Some round_log) None SnapshotSeed None = Inr s \<and> s_log s = round_log"
proof -
  have "is_ok (and_then (rethrow (\<lambda>_. ()) (construct_session 0 ''s'' (Some round_log) None SnapshotSeed None))
     (\<lambda>s. reject_if (s_log s \<noteq> round_log) ()))"
    by code_simp
  then show ?thesis by (auto simp: is_ok_iff and_then_Inr_iff)
qed

theorem goal_checkpoint_schema_iff_witness:
  "state_schema (project_goal goal_log) \<and> goal_replay goal_log = Inr goal_log_state"
  using goal_checkpoint_schema_iff [OF goal_log_replays] goal_log_replays
  by (simp add: goal_log_state_def example_goal_def)

theorem goal_command_exact_witness:
  "\<exists>w w' c. run_command (6, 6) 256 (CmdCreate ''u'' (JStr ''ship'') None) w = (Inr \<lparr>gr_id = ''goal-u'', gr_revision = 1\<rparr>, w')
     \<and> world_log w' \<noteq> [] \<and> change_ok c"
proof -
  obtain s where s: "construct_session 5 ''s'' None None SnapshotSeed None = Inr s" "s_log s = []"
    using example_session by blast
  let ?w = "initial_world True s" and ?cmd = "CmdCreate ''u'' (JStr ''ship'') None"
  have run: "goal_run ?w" by (rule goal_run.opened [OF session_reach.construct [OF s(1)]]) (simp add: s(2))
  have "\<exists>c. command_change (6, 6) 256 ?cmd ?w = Inr c \<and> goal_change_ref c = \<lparr>gr_id = ''goal-u'', gr_revision = 1\<rparr>"
    by (simp add: initial_world_def s(2) project_goal_def init_goal_state_def prepare_mutation_def assert_live_def
        state_of_goal_def resolve_create_def resolve_objective_def resolve_max_rounds_def trim_ship MAX_SAFE_INTEGER_def
        snapshot_ref_def)
  moreover have "safe_non_negative (fst (6, 6))" "int (length (world_log ?w)) < MAX_SAFE_INTEGER" "fresh_command ?cmd ?w"
    by (simp_all add: safe_non_negative_def MAX_SAFE_INTEGER_def initial_world_def s(2) project_goal_def init_goal_state_def)
  ultimately show ?thesis
    using goal_command_exact [OF run, of "(6, 6)" ?cmd 256] by (fastforce simp: committed_def)
qed

theorem goal_edit_breaks_checkpoint_witness:
  "\<exists>w w' ref. run_command (6, 6) 256 (CmdEdit ref None (Some (jint 1))) w
      = (Inr \<lparr>gr_id = ''g'', gr_revision = 2\<rparr>, w') \<and> \<not> state_schema (gw_state w')"
proof -
  obtain s where s: "construct_session 0 ''s'' (Some round_log) None SnapshotSeed None = Inr s" "s_log s = round_log"
    using round_session by blast
  let ?w = "initial_world True s"
  have run: "goal_run ?w"
    by (rule goal_run.opened [OF session_reach.construct [OF s(1)]]) (simp add: s(2) round_log_replays)
  have cur: "gp_current (gw_state ?w) = Some \<lparr>pj_goal = example_goal, pj_rounds = 2, pj_created = 5, pj_updated = 5\<rparr>"
    by (simp add: initial_world_def s(2) project_goal_ok [OF round_log_replays] checkpoint_of_def round_state_def)
  have "int (length (world_log ?w)) < MAX_SAFE_INTEGER" "gw_live ?w"
    by (simp_all add: initial_world_def s(2) round_log_def MAX_SAFE_INTEGER_def)
  from goal_edit_breaks_checkpoint [OF run _ this cur, of "(6, 6)" 1 256] show ?thesis
    by (fastforce simp: safe_non_negative_def MAX_SAFE_INTEGER_def example_goal_def)
qed

theorem goal_companion_exact_witness:
  "\<exists>(c :: goal_companion) st. map_of (gc_states c) ''s'' = Some st \<and> goal_replay goal_log = Inr st"
proof -
  have "fold_result apply_checked goal_log empty_goal_fold = Inr goal_log_state"
    by (simp only: checked_replay goal_log_replays)
  then obtain c where "goal_created ''s'' goal_log no_goal_companion = Inr c"
    by (auto simp: goal_created_def seed_goal_def)
  then have "goal_companion_run ''s'' goal_log c" by (rule goal_companion_run.created)
  from goal_companion_exact [OF this, of "log_event EndSeed 3"] show ?thesis by blast
qed

end
