(* ===== verification/Session_Projection.thy ===== *)
theory Session_Projection
  imports Session_Log
begin

text \<open>
  \<open>packages/session/session-projection/src/index.ts\<close>: the registry that drives units, pure folds over
  a session's log, with one cell per unit and session that holds the state and the number of the
  last event it has consumed. The model is the registry as one session sees it: cells of other
  sessions do not interact with it. A unit is a parameter: states and views are values of any
  types, a schema is a partial function. The reference equality the registry tests on states is the
  unit's own answer, \<open>None\<close> where it returns the state it was given; equality of views is the equality of
  their type. A unit's step is total: a unit that throws on an event is outside this theory (the
  token meter's two units that can throw are modelled as folds of their own).
\<close>

section \<open>Units and cells\<close>

record ('s, 'v) projection_unit =
  pu_key :: string
  pu_version :: jnum
  pu_init :: "session_header \<Rightarrow> nat \<Rightarrow> 's"
  pu_apply :: "'s \<Rightarrow> session_event \<Rightarrow> 's option"
  pu_parse :: "'s \<Rightarrow> 's option"
  pu_wire :: "(('s \<Rightarrow> 'v) \<times> ('v \<Rightarrow> 'v option)) option"

record ('s, 'v) unit_cell =
  uc_state :: 's
  uc_seq :: int
  uc_views :: "'v option \<times> 'v option"

record ('s, 'v) registration =
  rg_unit :: "('s, 'v) projection_unit"
  rg_cell :: "('s, 'v) unit_cell option"
  rg_refs :: nat

type_synonym ('s, 'v) registry = "(string \<times> ('s, 'v) registration) list"

record 's checkpoint_row =
  cr_version :: jnum
  cr_seq :: int
  cr_value :: 's

record 'v projection_snapshot =
  ps_seq :: int
  ps_values :: "(string \<times> 'v) list"

datatype projection_error =
    BadStateVersion string
  | VersionConflict string
  | MissingSeq string int
  | NoWireView string
  | ViewSchema string
  | StateSchema string
  | RestoreFloor string
  | RestoreGap string int
  | CursorInvalid brand_error

section \<open>Registration\<close>

definition register_unit ::
    "('s, 'v) projection_unit \<Rightarrow> ('s, 'v) registry \<Rightarrow> (projection_error, ('s, 'v) registry) result" where
  "register_unit d reg =
     (if \<not> is_safe_integer (pu_version d) \<or> jnum_int (pu_version d) < 0 then Inl (BadStateVersion (pu_key d))
      else case map_of reg (pu_key d) of
        None \<Rightarrow> Inr (omap_set (pu_key d) \<lparr>rg_unit = d, rg_cell = None, rg_refs = 1\<rparr> reg)
      | Some r \<Rightarrow>
          if \<not> num_eq (pu_version (rg_unit r)) (pu_version d) then Inl (VersionConflict (pu_key d))
          else Inr (omap_set (pu_key d) (r\<lparr>rg_refs := rg_refs r + 1\<rparr>) reg))"

definition unregister_unit :: "string \<Rightarrow> ('s, 'v) registry \<Rightarrow> ('s, 'v) registry" where
  "unregister_unit k reg =
     (case map_of reg k of
        None \<Rightarrow> reg
      | Some r \<Rightarrow>
          if rg_refs r - 1 = 0 then omap_delete k reg else omap_set k (r\<lparr>rg_refs := rg_refs r - 1\<rparr>) reg)"

section \<open>Advancing cells\<close>

definition next_state :: "('s, 'v) projection_unit \<Rightarrow> 's \<Rightarrow> session_event \<Rightarrow> 's" where
  "next_state d s e = (case pu_apply d s e of None \<Rightarrow> s | Some t \<Rightarrow> t)"

definition initial_cell :: "('s, 'v) projection_unit \<Rightarrow> session \<Rightarrow> ('s, 'v) unit_cell" where
  "initial_cell d s = \<lparr>uc_state = pu_init d (s_header s) (s_inherited s), uc_seq = -1, uc_views = (None, None)\<rparr>"

definition build_cell :: "('s, 'v) projection_unit \<Rightarrow> session \<Rightarrow> session_event list \<Rightarrow> ('s, 'v) unit_cell" where
  "build_cell d s es =
     \<lparr>uc_state = foldl (next_state d) (pu_init d (s_header s) (s_inherited s)) es,
      uc_seq = (case last_opt es of Some e \<Rightarrow> int (ev_seq e) | None \<Rightarrow> -1), uc_views = (None, None)\<rparr>"

text \<open>One event of \<open>advanceCell\<close>: a changed state moves the view buffer on.\<close>

definition step_cell :: "('s, 'v) projection_unit \<Rightarrow> session_event \<Rightarrow> ('s, 'v) unit_cell \<Rightarrow> ('s, 'v) unit_cell" where
  "step_cell d e c =
     \<lparr>uc_state = next_state d (uc_state c) e, uc_seq = uc_seq c + 1,
      uc_views = (if pu_apply d (uc_state c) e = None then uc_views c else (snd (uc_views c), None))\<rparr>"

fun advance_loop ::
    "('s, 'v) projection_unit \<Rightarrow> session_event list \<Rightarrow> nat \<Rightarrow> ('s, 'v) unit_cell \<Rightarrow>
     (projection_error, unit) result \<times> ('s, 'v) unit_cell" where
  "advance_loop d es 0 c = (Inr (), c)"
| "advance_loop d es (Suc n) c =
     (case elem_at es (nat (uc_seq c + 1)) of
        None \<Rightarrow> (Inl (MissingSeq (pu_key d) (uc_seq c + 1)), c)
      | Some e \<Rightarrow>
          if int (ev_seq e) \<noteq> uc_seq c + 1 then (Inl (MissingSeq (pu_key d) (uc_seq c + 1)), c)
          else advance_loop d es n (step_cell d e c))"

definition advance_cell ::
    "('s, 'v) projection_unit \<Rightarrow> session_event list \<Rightarrow> int \<Rightarrow> ('s, 'v) unit_cell \<Rightarrow>
     (projection_error, unit) result \<times> ('s, 'v) unit_cell" where
  "advance_cell d es through c =
     (if uc_seq c \<ge> through then (Inr (), c) else advance_loop d es (nat (through - uc_seq c)) c)"

definition cursor_before :: "nat \<Rightarrow> int" where
  "cursor_before offset = (if offset = 0 then -1 else int (offset - 1))"

definition cell_for ::
    "session \<Rightarrow> ('s, 'v) registration \<Rightarrow> (projection_error, unit) result \<times> ('s, 'v) unit_cell" where
  "cell_for s r =
     (case rg_cell r of
        None \<Rightarrow> (Inr (), build_cell (rg_unit r) s (s_log s))
      | Some c \<Rightarrow> advance_cell (rg_unit r) (s_log s) (cursor_before (session_seq_of s)) c)"

text \<open>A loop over the registrations that may throw: those before the error keep their new cells, the
  failing one what it had reached.\<close>

fun materialize_cells ::
    "session \<Rightarrow> ('s, 'v) registry \<Rightarrow> (projection_error, unit) result \<times> ('s, 'v) registry" where
  "materialize_cells s [] = (Inr (), [])"
| "materialize_cells s ((k, r) # reg) =
     (case cell_for s r of
        (Inl err, c) \<Rightarrow> (Inl err, (k, r\<lparr>rg_cell := Some c\<rparr>) # reg)
      | (Inr _, c) \<Rightarrow>
          let (x, reg') = materialize_cells s reg in (x, (k, r\<lparr>rg_cell := Some c\<rparr>) # reg'))"

text \<open>The \<open>session/created\<close> listener: an empty session gets initial cells.\<close>

definition session_created :: "session \<Rightarrow> ('s, 'v) registry \<Rightarrow> ('s, 'v) registry" where
  "session_created s reg =
     (if session_seq_of s \<noteq> 0 then reg
      else map (\<lambda>(k, r). (k, if rg_cell r \<noteq> None then r else r\<lparr>rg_cell := Some (initial_cell (rg_unit r) s)\<rparr>)) reg)"

section \<open>Reading\<close>

definition view_cell :: "('s, 'v) projection_unit \<Rightarrow> 's \<Rightarrow> (projection_error, 'v) result" where
  "view_cell d st =
     (case pu_wire d of
        None \<Rightarrow> Inl (NoWireView (pu_key d))
      | Some (view, parse) \<Rightarrow> (case parse (view st) of None \<Rightarrow> Inl (ViewSchema (pu_key d)) | Some v \<Rightarrow> Inr v))"

definition state_of ::
    "session \<Rightarrow> string \<Rightarrow> ('s, 'v) registry \<Rightarrow> (projection_error, 's option) result \<times> ('s, 'v) registry" where
  "state_of s k reg =
     (if map_of reg k = None then (Inr None, reg)
      else case materialize_cells s reg of
        (Inl err, reg') \<Rightarrow> (Inl err, reg')
      | (Inr _, reg') \<Rightarrow> (Inr (map_option uc_state (Option.bind (map_of reg' k) rg_cell)), reg'))"

definition selects :: "string list option \<Rightarrow> ('s, 'v) projection_unit \<Rightarrow> bool" where
  "selects keys d \<longleftrightarrow> pu_wire d \<noteq> None \<and> (case keys of None \<Rightarrow> True | Some ks \<Rightarrow> pu_key d \<in> set ks)"

fun collect_views ::
    "string list option \<Rightarrow> ('s, 'v) registry \<Rightarrow> (projection_error, (string \<times> 'v) list) result" where
  "collect_views keys [] = Inr []"
| "collect_views keys ((k, r) # reg) =
     (if \<not> selects keys (rg_unit r) then collect_views keys reg
      else case rg_cell r of
        None \<Rightarrow> collect_views keys reg
      | Some c \<Rightarrow>
          and_then (view_cell (rg_unit r) (uc_state c)) (\<lambda>v.
          and_then (collect_views keys reg) (\<lambda>vs. Inr ((pu_key (rg_unit r), v) # vs))))"

definition snapshot ::
    "session \<Rightarrow> string list option \<Rightarrow> ('s, 'v) registry \<Rightarrow>
     (projection_error, 'v projection_snapshot) result \<times> ('s, 'v) registry" where
  "snapshot s keys reg =
     (case materialize_cells s reg of
        (Inl err, reg') \<Rightarrow> (Inl err, reg')
      | (Inr _, reg') \<Rightarrow>
          (and_then (collect_views keys reg') (\<lambda>vs.
             Inr \<lparr>ps_seq = cursor_before (session_seq_of s), ps_values = vs\<rparr>), reg'))"

text \<open>The lowest watermark of the selected cells, \<open>None\<close> when there is none.\<close>

definition lowest :: "int list \<Rightarrow> int option" where
  "lowest ns = (if ns = [] then None else Some (Min (set ns)))"

definition selected_seqs :: "string list option \<Rightarrow> ('s, 'v) registry \<Rightarrow> int list" where
  "selected_seqs keys reg =
     concat (map (\<lambda>(k, r). if selects keys (rg_unit r) then (case rg_cell r of Some c \<Rightarrow> [uc_seq c] | None \<Rightarrow> []) else []) reg)"

definition cached_snapshot ::
    "string list option \<Rightarrow> ('s, 'v) registry \<Rightarrow> (projection_error, 'v projection_snapshot option) result" where
  "cached_snapshot keys reg =
     and_then (collect_views keys reg) (\<lambda>vs.
       Inr (map_option (\<lambda>n. \<lparr>ps_seq = n, ps_values = vs\<rparr>) (lowest (selected_seqs keys reg))))"

definition row_of :: "('s, 'v) projection_unit \<Rightarrow> ('s, 'v) unit_cell \<Rightarrow> 's checkpoint_row" where
  "row_of d c = \<lparr>cr_version = pu_version d, cr_seq = uc_seq c, cr_value = uc_state c\<rparr>"

definition checkpoint ::
    "session \<Rightarrow> ('s, 'v) registry \<Rightarrow> (projection_error, (string \<times> 's checkpoint_row) list) result \<times> ('s, 'v) registry" where
  "checkpoint s reg =
     (case materialize_cells s reg of
        (Inl err, reg') \<Rightarrow> (Inl err, reg')
      | (Inr _, reg') \<Rightarrow>
          (Inr (concat (map (\<lambda>(k, r). case rg_cell r of
              Some c \<Rightarrow> [(pu_key (rg_unit r), row_of (rg_unit r) c)] | None \<Rightarrow> []) reg')), reg'))"

section \<open>Driving one event\<close>

text \<open>The second half of \<open>drive\<close> for one unit: apply the event, and compute and compare the view when
  the state changed and someone listens. An emission is the key, the validated value and the
  event's number.\<close>

definition observe_event ::
    "bool \<Rightarrow> ('s, 'v) projection_unit \<Rightarrow> session_event \<Rightarrow> ('s, 'v) unit_cell \<Rightarrow>
     (projection_error, (string \<times> 'v \<times> nat) list) result \<times> ('s, 'v) unit_cell" where
  "observe_event listening d e c =
     (case pu_apply d (uc_state c) e of
        None \<Rightarrow> (Inr [], c\<lparr>uc_seq := int (ev_seq e)\<rparr>)
      | Some t \<Rightarrow>
          let c1 = c\<lparr>uc_state := t, uc_seq := int (ev_seq e)\<rparr>; previous = snd (uc_views c) in
          case pu_wire d of
            None \<Rightarrow> (Inr [], c1)
          | Some (view, parse) \<Rightarrow>
              if \<not> listening then (Inr [], c1\<lparr>uc_views := (previous, None)\<rparr>)
              else let c2 = c1\<lparr>uc_views := (previous, Some (view t))\<rparr> in
                if previous = Some (view t) then (Inr [], c2)
                else case parse (view t) of
                  None \<Rightarrow> (Inl (ViewSchema (pu_key d)), c2)
                | Some v \<Rightarrow> (Inr [(pu_key d, v, ev_seq e)], c2))"

definition drive_unit ::
    "bool \<Rightarrow> session \<Rightarrow> session_event \<Rightarrow> ('s, 'v) registration \<Rightarrow>
     (projection_error, (string \<times> 'v \<times> nat) list) result \<times> ('s, 'v) registration" where
  "drive_unit listening s e r =
     (case rg_cell r of
        Some c \<Rightarrow>
          if uc_seq c \<ge> int (ev_seq e) then (Inr [], r)
          else (case advance_cell (rg_unit r) (s_log s) (cursor_before (ev_seq e)) c of
              (Inl err, c1) \<Rightarrow> (Inl err, r\<lparr>rg_cell := Some c1\<rparr>)
            | (Inr _, c1) \<Rightarrow>
                let (x, c2) = observe_event listening (rg_unit r) e c1 in (x, r\<lparr>rg_cell := Some c2\<rparr>))
      | None \<Rightarrow>
          let (x, c2) = observe_event listening (rg_unit r) e (build_cell (rg_unit r) s (slice 0 (ev_seq e) (s_log s)))
          in (x, r\<lparr>rg_cell := Some c2\<rparr>))"

fun drive ::
    "bool \<Rightarrow> session \<Rightarrow> session_event \<Rightarrow> ('s, 'v) registry \<Rightarrow>
     ((string \<times> 'v \<times> nat) list \<times> projection_error option) \<times> ('s, 'v) registry" where
  "drive listening s e [] = (([], None), [])"
| "drive listening s e ((k, r) # reg) =
     (case drive_unit listening s e r of
        (Inl err, r') \<Rightarrow> (([], Some err), (k, r') # reg)
      | (Inr out, r') \<Rightarrow>
          let ((outs, x), reg') = drive listening s e reg in ((out @ outs, x), (k, r') # reg'))"

section \<open>Stored checkpoints\<close>

definition row_current :: "('s, 'v) projection_unit \<Rightarrow> 's checkpoint_row option \<Rightarrow> bool" where
  "row_current d row = (case row of None \<Rightarrow> False | Some w \<Rightarrow> num_eq (cr_version w) (pu_version d))"

text \<open>Where the tail read must start: one event below the lowest usable watermark.\<close>

definition row_need :: "('s, 'v) projection_unit \<Rightarrow> 's checkpoint_row option \<Rightarrow> int" where
  "row_need d row = (if row_current d row then max (cr_seq (the row) + 1) 0 else 0)"

definition restore_floor :: "(string \<times> 's checkpoint_row) list \<Rightarrow> ('s, 'v) registry \<Rightarrow> int option" where
  "restore_floor rows reg =
     map_option (\<lambda>n. max (n - 1) 0)
       (lowest (map (\<lambda>(k, r). row_need (rg_unit r) (map_of rows (pu_key (rg_unit r)))) reg))"

fun view_checkpoint ::
    "(string \<times> 's checkpoint_row) list \<Rightarrow> string list option \<Rightarrow> ('s, 'v) registry \<Rightarrow>
     (projection_error, (string \<times> 'v) list) result" where
  "view_checkpoint rows keys [] = Inr []"
| "view_checkpoint rows keys ((k, r) # reg) =
     (let d = rg_unit r; row = map_of rows (pu_key d) in
      if \<not> selects keys d \<or> \<not> row_current d row then view_checkpoint rows keys reg
      else case pu_parse d (cr_value (the row)) of
        None \<Rightarrow> view_checkpoint rows keys reg
      | Some st \<Rightarrow>
          and_then (view_cell d st) (\<lambda>v.
          and_then (view_checkpoint rows keys reg) (\<lambda>vs. Inr ((pu_key d, v) # vs))))"

definition end_cursor :: "nat \<Rightarrow> session_event list \<Rightarrow> int" where
  "end_cursor base es = (case last_opt es of Some e \<Rightarrow> int (ev_seq e) | None \<Rightarrow> cursor_before base)"

text \<open>The replay of a tail that starts at \<open>base\<close>, from an index on.\<close>

fun replay_tail ::
    "('s, 'v) projection_unit \<Rightarrow> nat \<Rightarrow> nat \<Rightarrow> session_event list \<Rightarrow> 's \<Rightarrow> (projection_error, 's) result" where
  "replay_tail d base i [] st = Inr st"
| "replay_tail d base i (e # es) st =
     and_then (rethrow CursorInvalid (session_seq (JInt (int (base + i))))) (\<lambda>expected.
     and_then (reject_if (ev_seq e \<noteq> expected) (RestoreGap (pu_key d) (int expected))) (\<lambda>_.
       replay_tail d base (i + 1) es (next_state d st e)))"

definition row_usable ::
    "('s, 'v) projection_unit \<Rightarrow> nat \<Rightarrow> session_event list \<Rightarrow> 's checkpoint_row option \<Rightarrow> bool" where
  "row_usable d base es row \<longleftrightarrow>
     row_current d row \<and> cursor_before base \<le> cr_seq (the row) \<and> cr_seq (the row) \<le> end_cursor base es"

definition restore_unit ::
    "('s, 'v) projection_unit \<Rightarrow> 's checkpoint_row option \<Rightarrow> session_event list \<Rightarrow> nat \<Rightarrow> session_header \<Rightarrow> nat \<Rightarrow>
     (projection_error, 's) result" where
  "restore_unit d row es base h inherited =
     (if \<not> row_usable d base es row \<and> base > 0 then Inl (RestoreFloor (pu_key d))
      else and_then
        (if row_usable d base es row
         then (case pu_parse d (cr_value (the row)) of None \<Rightarrow> Inl (StateSchema (pu_key d)) | Some st \<Rightarrow> Inr st)
         else Inr (pu_init d h inherited)) (\<lambda>st.
          let from = (if row_usable d base es row then cr_seq (the row) else cursor_before base);
              start = nat (from - int base + 1)
          in replay_tail d base start (drop start es) st))"

fun restore_loop ::
    "(string \<times> 's checkpoint_row) list \<Rightarrow> session_event list \<Rightarrow> nat \<Rightarrow> session_header \<Rightarrow> nat \<Rightarrow> ('s, 'v) registry \<Rightarrow>
     (projection_error, (string \<times> 'v) list \<times> (string \<times> 's checkpoint_row) list) result" where
  "restore_loop rows es base h inherited [] = Inr ([], [])"
| "restore_loop rows es base h inherited ((k, r) # reg) =
     (let d = rg_unit r in
      and_then (restore_unit d (map_of rows (pu_key d)) es base h inherited) (\<lambda>st.
      and_then (if pu_wire d = None then Inr [] else and_then (view_cell d st) (\<lambda>v. Inr [(pu_key d, v)])) (\<lambda>v.
      and_then (restore_loop rows es base h inherited reg) (\<lambda>(vs, fresh).
        Inr (v @ vs, (pu_key d, \<lparr>cr_version = pu_version d, cr_seq = end_cursor base es, cr_value = st\<rparr>) # fresh)))))"

definition restore ::
    "(string \<times> 's checkpoint_row) list \<Rightarrow> session_event list \<Rightarrow> nat \<Rightarrow> session_header \<Rightarrow> nat \<Rightarrow> ('s, 'v) registry \<Rightarrow>
     (projection_error, 'v projection_snapshot \<times> (string \<times> 's checkpoint_row) list) result" where
  "restore rows es base h inherited reg =
     and_then (restore_loop rows es base h inherited reg) (\<lambda>(vs, fresh).
       Inr (\<lparr>ps_seq = end_cursor base es, ps_values = vs\<rparr>, fresh))"

text \<open>\<open>hydrate\<close>: the installed cells serve when all of them stand at the end; otherwise the restored
  states are installed where no cell is further on.\<close>

definition all_at :: "int \<Rightarrow> ('s, 'v) registry \<Rightarrow> bool" where
  "all_at n reg \<longleftrightarrow> list_all (\<lambda>(k, r). map_option uc_seq (rg_cell r) = Some n) reg"

definition install_row :: "(string \<times> 's checkpoint_row) list \<Rightarrow> ('s, 'v) registration \<Rightarrow> ('s, 'v) registration" where
  "install_row fresh r =
     (case map_of fresh (pu_key (rg_unit r)) of
        None \<Rightarrow> r
      | Some row \<Rightarrow>
          if (case rg_cell r of Some c \<Rightarrow> uc_seq c > cr_seq row | None \<Rightarrow> False) then r
          else r\<lparr>rg_cell := Some \<lparr>uc_state = cr_value row, uc_seq = cr_seq row, uc_views = (None, None)\<rparr>\<rparr>)"

definition hydrate ::
    "session \<Rightarrow> (string \<times> 's checkpoint_row) list \<Rightarrow> session_event list \<Rightarrow> nat \<Rightarrow> ('s, 'v) registry \<Rightarrow>
     (projection_error, 'v projection_snapshot) result \<times> ('s, 'v) registry" where
  "hydrate s rows es base reg =
     (if all_at (end_cursor base es) reg then
        (and_then (collect_views None reg) (\<lambda>vs. Inr \<lparr>ps_seq = end_cursor base es, ps_values = vs\<rparr>), reg)
      else case restore rows es base (s_header s) (s_inherited s) reg of
        Inl err \<Rightarrow> (Inl err, reg)
      | Inr (shot, fresh) \<Rightarrow> (Inr shot, map (\<lambda>(k, r). (k, install_row fresh r)) reg))"

section \<open>Cells hold the fold of a prefix\<close>

definition unit_fold :: "('s, 'v) projection_unit \<Rightarrow> session \<Rightarrow> session_event list \<Rightarrow> 's" where
  "unit_fold d s es = foldl (next_state d) (pu_init d (s_header s) (s_inherited s)) es"

definition log_numbered :: "session \<Rightarrow> bool" where
  "log_numbered s \<longleftrightarrow> (\<forall>k < length (s_log s). ev_seq (s_log s ! k) = k)"

definition buffer_ok :: "('s, 'v) projection_unit \<Rightarrow> 's \<Rightarrow> 'v option \<Rightarrow> bool" where
  "buffer_ok d st b \<longleftrightarrow> (case b of None \<Rightarrow> True | Some v \<Rightarrow> (case pu_wire d of None \<Rightarrow> False | Some (view, _) \<Rightarrow> v = view st))"

definition cell_ok :: "session \<Rightarrow> ('s, 'v) projection_unit \<Rightarrow> ('s, 'v) unit_cell \<Rightarrow> bool" where
  "cell_ok s d c \<longleftrightarrow> -1 \<le> uc_seq c \<and> uc_seq c < int (length (s_log s))
     \<and> uc_state c = unit_fold d s (take (nat (uc_seq c + 1)) (s_log s))
     \<and> buffer_ok d (uc_state c) (snd (uc_views c))"

definition registration_ok :: "session \<Rightarrow> string \<times> ('s, 'v) registration \<Rightarrow> bool" where
  "registration_ok s kr \<longleftrightarrow> fst kr = pu_key (rg_unit (snd kr))
     \<and> (case rg_cell (snd kr) of None \<Rightarrow> True | Some c \<Rightarrow> cell_ok s (rg_unit (snd kr)) c)"

definition registry_ok :: "session \<Rightarrow> ('s, 'v) registry \<Rightarrow> bool" where
  "registry_ok s reg \<longleftrightarrow> distinct (map fst reg) \<and> (\<forall>kr \<in> set reg. registration_ok s kr)"

lemma buffer_ok_None [simp]: "buffer_ok d st None"
  by (simp add: buffer_ok_def)

lemma buffer_ok_same: "buffer_ok d st b \<Longrightarrow> pu_apply d st e = None \<Longrightarrow> buffer_ok d (next_state d st e) b"
  by (simp add: next_state_def)

lemma unit_fold_snoc: "unit_fold d s (es @ [e]) = next_state d (unit_fold d s es) e"
  by (simp add: unit_fold_def)

lemma step_cell_ok:
  assumes ok: "cell_ok s d c" and next_one: "uc_seq c + 1 < int (length (s_log s))"
    and e: "e = s_log s ! nat (uc_seq c + 1)"
  shows "cell_ok s d (step_cell d e c)"
proof -
  let ?k = "nat (uc_seq c + 1)"
  from ok have lo: "-1 \<le> uc_seq c" by (simp add: cell_ok_def)
  then have k: "?k < length (s_log s)" and next_k: "nat (uc_seq c + 1 + 1) = Suc ?k" using next_one by auto
  have "take (Suc ?k) (s_log s) = take ?k (s_log s) @ [e]" using k e by (simp add: take_Suc_conv_app_nth)
  then have state: "next_state d (uc_state c) e = unit_fold d s (take (nat (uc_seq c + 1 + 1)) (s_log s))"
    using ok unfolding next_k by (simp add: unit_fold_snoc cell_ok_def)
  have buffer: "buffer_ok d (next_state d (uc_state c) e)
      (snd (if pu_apply d (uc_state c) e = None then uc_views c else (snd (uc_views c), None)))"
    using ok by (auto simp: cell_ok_def intro: buffer_ok_same)
  show ?thesis
    unfolding cell_ok_def step_cell_def unit_cell.select_convs
    using lo next_one state buffer by (intro conjI) simp_all
qed

lemma advance_loop_ok:
  assumes "log_numbered s" and "cell_ok s d c" and "uc_seq c + int n < int (length (s_log s))"
  shows "\<exists>c'. advance_loop d (s_log s) n c = (Inr (), c') \<and> cell_ok s d c' \<and> uc_seq c' = uc_seq c + int n"
  using assms(2,3)
proof (induction n arbitrary: c)
  case 0
  then show ?case by simp
next
  case (Suc n)
  let ?k = "nat (uc_seq c + 1)"
  from Suc.prems have lo: "-1 \<le> uc_seq c" by (simp add: cell_ok_def)
  with Suc.prems(2) have k: "?k < length (s_log s)" by auto
  have e: "elem_at (s_log s) ?k = Some (s_log s ! ?k)" using k by (simp add: elem_at_def)
  have num: "int (ev_seq (s_log s ! ?k)) = uc_seq c + 1"
    using assms(1) k lo by (simp add: log_numbered_def)
  have ok: "cell_ok s d (step_cell d (s_log s ! ?k) c)"
    by (rule step_cell_ok [OF Suc.prems(1)]) (use Suc.prems(2) in auto)
  have "uc_seq (step_cell d (s_log s ! ?k) c) = uc_seq c + 1" by (simp add: step_cell_def)
  with Suc.IH [OF ok] Suc.prems(2) obtain c' where
    "advance_loop d (s_log s) n (step_cell d (s_log s ! ?k) c) = (Inr (), c')" "cell_ok s d c'"
    "uc_seq c' = uc_seq c + 1 + int n" by auto
  then show ?case using e num by simp
qed

lemma advance_cell_ok:
  assumes "log_numbered s" and "cell_ok s d c" and "through < int (length (s_log s))"
  shows "\<exists>c'. advance_cell d (s_log s) through c = (Inr (), c') \<and> cell_ok s d c' \<and> uc_seq c' = max (uc_seq c) through"
proof (cases "uc_seq c \<ge> through")
  case True
  then show ?thesis using assms(2) by (simp add: advance_cell_def)
next
  case False
  then show ?thesis
    using advance_loop_ok [OF assms(1,2), of "nat (through - uc_seq c)"] assms(3) by (simp add: advance_cell_def)
qed

lemma build_cell_ok:
  assumes "log_numbered s" and "n \<le> length (s_log s)"
  shows "cell_ok s d (build_cell d s (take n (s_log s))) \<and> uc_seq (build_cell d s (take n (s_log s))) = int n - 1"
proof (cases n)
  case 0
  then show ?thesis by (simp add: build_cell_def cell_ok_def unit_fold_def)
next
  case (Suc m)
  then have "take n (s_log s) = take m (s_log s) @ [s_log s ! m]" using assms(2) by (simp add: take_Suc_conv_app_nth)
  then have "last_opt (take n (s_log s)) = Some (s_log s ! m)" by simp
  moreover have "ev_seq (s_log s ! m) = m" using assms Suc by (simp add: log_numbered_def)
  moreover have "nat (int m + 1) = Suc m" by simp
  ultimately show ?thesis using assms(2) Suc by (simp add: build_cell_def cell_ok_def unit_fold_def)
qed

lemma cursor_before_int: "cursor_before n = int n - 1"
  by (cases n) (simp_all add: cursor_before_def)

lemma cell_for_ok:
  assumes "log_numbered s" and "registration_ok s (k, r)"
  shows "\<exists>c. cell_for s r = (Inr (), c) \<and> cell_ok s (rg_unit r) c \<and> uc_seq c = int (length (s_log s)) - 1"
proof (cases "rg_cell r")
  case None
  then show ?thesis using build_cell_ok [OF assms(1), of "length (s_log s)"] by (simp add: cell_for_def)
next
  case (Some c)
  with assms(2) have c: "cell_ok s (rg_unit r) c" by (simp add: registration_ok_def)
  then have "uc_seq c < int (length (s_log s))" by (simp add: cell_ok_def)
  with advance_cell_ok [OF assms(1) c, of "int (length (s_log s)) - 1"] Some show ?thesis
    by (auto simp: cell_for_def cursor_before_int session_seq_of_def)
qed

lemma full_cell: "cell_ok s d c \<Longrightarrow> uc_seq c = int (length (s_log s)) - 1 \<Longrightarrow> uc_state c = unit_fold d s (s_log s)"
  by (simp add: cell_ok_def)

text \<open>Materialising never fails and leaves every cell at the end of the log.\<close>

definition all_current :: "session \<Rightarrow> ('s, 'v) registry \<Rightarrow> bool" where
  "all_current s reg \<longleftrightarrow> (\<forall>(k, r) \<in> set reg. \<exists>c. rg_cell r = Some c \<and> uc_seq c = int (length (s_log s)) - 1)"

lemma materialize_ok:
  assumes "log_numbered s" and "\<forall>kr \<in> set reg. registration_ok s kr"
  shows "\<exists>reg'. materialize_cells s reg = (Inr (), reg') \<and> (\<forall>kr \<in> set reg'. registration_ok s kr)
     \<and> map fst reg' = map fst reg \<and> all_current s reg'
     \<and> map (\<lambda>kr. rg_unit (snd kr)) reg' = map (\<lambda>kr. rg_unit (snd kr)) reg"
  using assms(2)
proof (induction reg)
  case Nil
  then show ?case by (simp add: all_current_def)
next
  case (Cons kr reg)
  obtain k r where kr: "kr = (k, r)" by (cases kr)
  from Cons obtain reg' where reg': "materialize_cells s reg = (Inr (), reg')"
    "\<forall>kr \<in> set reg'. registration_ok s kr" "map fst reg' = map fst reg" "all_current s reg'"
    "map (\<lambda>kr. rg_unit (snd kr)) reg' = map (\<lambda>kr. rg_unit (snd kr)) reg" by auto
  from Cons.prems kr have rok: "registration_ok s (k, r)" by simp
  from cell_for_ok [OF assms(1) this] obtain c where c: "cell_for s r = (Inr (), c)" "cell_ok s (rg_unit r) c"
    "uc_seq c = int (length (s_log s)) - 1" by blast
  with reg' kr rok show ?case by (simp add: all_current_def registration_ok_def)
qed

section \<open>Every operation keeps the invariant\<close>

lemma registration_ok_cell:
  "registration_ok s (k, r\<lparr>rg_cell := Some c\<rparr>) \<longleftrightarrow> k = pu_key (rg_unit r) \<and> cell_ok s (rg_unit r) c"
  by (simp add: registration_ok_def)

lemma registration_ok_refs: "registration_ok s (k, r\<lparr>rg_refs := n\<rparr>) = registration_ok s (k, r)"
  by (simp add: registration_ok_def cong: option.case_cong)

lemma registry_ok_Nil [simp]: "registry_ok s []"
  by (simp add: registry_ok_def)

lemma registry_okD: "registry_ok s reg \<Longrightarrow> map_of reg k = Some r \<Longrightarrow> registration_ok s (k, r)"
  by (auto simp: registry_ok_def dest: map_of_SomeD)

lemma omap_set_ok: "registry_ok s reg \<Longrightarrow> registration_ok s (k, r) \<Longrightarrow> registry_ok s (omap_set k r reg)"
  using set_omap_set [of k r reg] by (auto simp: registry_ok_def)

lemma register_ok:
  assumes "registry_ok s reg" and "register_unit d reg = Inr reg'"
  shows "registry_ok s reg'"
proof (cases "map_of reg (pu_key d)")
  case None
  with assms(2) have "reg' = omap_set (pu_key d) \<lparr>rg_unit = d, rg_cell = None, rg_refs = 1\<rparr> reg"
    by (simp add: register_unit_def split: if_splits)
  then show ?thesis using assms(1) by (simp add: omap_set_ok registration_ok_def)
next
  case (Some r)
  with assms(2) have "reg' = omap_set (pu_key d) (r\<lparr>rg_refs := rg_refs r + 1\<rparr>) reg"
    by (simp add: register_unit_def split: if_splits)
  with registry_okD [OF assms(1) Some] show ?thesis
    using assms(1) by (simp add: omap_set_ok registration_ok_refs)
qed

lemma unregister_ok:
  assumes "registry_ok s reg"
  shows "registry_ok s (unregister_unit k reg)"
proof (cases "map_of reg k")
  case None
  then show ?thesis using assms by (simp add: unregister_unit_def)
next
  case (Some r)
  from registry_okD [OF assms Some] have "registration_ok s (k, r\<lparr>rg_refs := rg_refs r - 1\<rparr>)"
    by (simp only: registration_ok_refs)
  moreover have "registry_ok s (omap_delete k reg)" using assms distinct_omap_delete [of reg k]
    by (auto simp: registry_ok_def omap_delete_def)
  ultimately show ?thesis using assms Some by (simp add: unregister_unit_def omap_set_ok)
qed

lemma created_ok:
  assumes "registry_ok s reg"
  shows "registry_ok s (session_created s reg)"
proof (cases "session_seq_of s = 0")
  case True
  then have "s_log s = []" by (simp add: session_seq_of_def)
  then have "cell_ok s d (initial_cell d s)" if "s_log s = []" for d :: "('a, 'b) projection_unit"
    by (simp add: cell_ok_def initial_cell_def unit_fold_def)
  with \<open>s_log s = []\<close> assms show ?thesis
    by (auto simp: registry_ok_def session_created_def registration_ok_def case_prod_unfold comp_def)
next
  case False
  then show ?thesis using assms by (simp add: session_created_def)
qed

lemma materialize_registry_ok:
  assumes "log_numbered s" and "registry_ok s reg"
  obtains reg' where "materialize_cells s reg = (Inr (), reg')" and "registry_ok s reg'" and "all_current s reg'"
    and "map fst reg' = map fst reg" and "map (\<lambda>kr. rg_unit (snd kr)) reg' = map (\<lambda>kr. rg_unit (snd kr)) reg"
proof -
  from assms(2) have "\<forall>kr \<in> set reg. registration_ok s kr" by (simp add: registry_ok_def)
  from materialize_ok [OF assms(1) this] obtain reg' where
    r: "materialize_cells s reg = (Inr (), reg')" "\<forall>kr \<in> set reg'. registration_ok s kr"
      "map fst reg' = map fst reg" "all_current s reg'"
      "map (\<lambda>kr. rg_unit (snd kr)) reg' = map (\<lambda>kr. rg_unit (snd kr)) reg" by blast
  then have "registry_ok s reg'" using assms(2) by (simp add: registry_ok_def)
  with r show ?thesis by (intro that)
qed

text \<open>A longer log of the same session.\<close>

definition extends :: "session \<Rightarrow> session \<Rightarrow> bool" where
  "extends s s' \<longleftrightarrow> s_header s' = s_header s \<and> s_inherited s' = s_inherited s \<and> (\<exists>es. s_log s' = s_log s @ es)"

lemma cell_ok_extends: "extends s s' \<Longrightarrow> cell_ok s d c \<Longrightarrow> cell_ok s' d c"
  by (auto simp: extends_def cell_ok_def unit_fold_def)

lemma registry_ok_extends: "extends s s' \<Longrightarrow> registry_ok s reg \<Longrightarrow> registry_ok s' reg"
  by (auto simp: registry_ok_def registration_ok_def split: option.splits intro: cell_ok_extends)

lemma append_extends: "session_inv s \<Longrightarrow> session_append now p op sources s = (r, s') \<Longrightarrow> extends s s'"
  using session_append_log [of s now p op sources r s'] by (cases r) (auto simp: extends_def)

lemma observe_event_ok:
  assumes c: "cell_ok s d c" and at_end: "uc_seq c + 1 = int n" and n: "n < length (s_log s)" "ev_seq (s_log s ! n) = n"
  shows "cell_ok s d (snd (observe_event listening d (s_log s ! n) c)) \<and>
    uc_seq (snd (observe_event listening d (s_log s ! n) c)) = int n"
proof -
  let ?e = "s_log s ! n"
  have "take (nat (int n + 1)) (s_log s) = take n (s_log s) @ [?e]"
    using n by (simp add: nat_add_distrib take_Suc_conv_app_nth)
  moreover from c at_end have "uc_state c = unit_fold d s (take n (s_log s))" by (simp add: cell_ok_def)
  ultimately have fold: "unit_fold d s (take (nat (int n + 1)) (s_log s)) = next_state d (uc_state c) ?e"
    by (simp add: unit_fold_snoc)
  have ok: "cell_ok s d c'" if "uc_seq c' = int n" "uc_state c' = next_state d (uc_state c) ?e"
      "buffer_ok d (uc_state c') (snd (uc_views c'))" for c'
    using that n fold by (simp add: cell_ok_def)
  have c2: "buffer_ok d (uc_state c) (snd (uc_views c))" using c unfolding cell_ok_def by blast
  show ?thesis
  proof (cases "pu_apply d (uc_state c) ?e")
    case None
    then show ?thesis using c2 n by (auto simp: observe_event_def next_state_def intro!: ok)
  next
    case (Some t)
    then have t: "next_state d (uc_state c) ?e = t" by (simp add: next_state_def)
    show ?thesis
    proof (cases "pu_wire d")
      case None
      have "snd (uc_views c) = None" using c2 None by (simp add: buffer_ok_def split: option.splits)
      then show ?thesis using Some None n t by (auto simp: observe_event_def intro!: ok)
    next
      case wire: (Some w)
      then show ?thesis using Some n t
        by (cases w) (auto simp: observe_event_def Let_def buffer_ok_def split: option.splits intro!: ok)
    qed
  qed
qed

lemma drive_unit_ok:
  assumes "log_numbered s" and r: "registration_ok s (k, r)" and e: "n < length (s_log s)" "s_log s ! n = e"
  shows "registration_ok s (k, snd (drive_unit listening s e r))"
proof -
  let ?d = "rg_unit r"
  have seq: "ev_seq e = n" using assms(1) e by (auto simp: log_numbered_def)
  have key: "k = pu_key ?d" using r by (simp add: registration_ok_def)
  have obs: "cell_ok s ?d (snd (observe_event listening ?d e c))" if "cell_ok s ?d c" "uc_seq c + 1 = int n" for c
    using observe_event_ok [OF that e(1)] e(2) seq by simp
  show ?thesis
  proof (cases "rg_cell r")
    case None
    have "slice 0 (ev_seq e) (s_log s) = take n (s_log s)" using seq by (simp add: slice_def)
    with None key obs [of "build_cell ?d s (take n (s_log s))"] build_cell_ok [OF assms(1), of n ?d] e(1)
    show ?thesis
      by (simp add: drive_unit_def registration_ok_cell case_prod_unfold Let_def)
  next
    case (Some c)
    then have c: "cell_ok s ?d c" using r by (simp add: registration_ok_def)
    show ?thesis
    proof (cases "uc_seq c \<ge> int (ev_seq e)")
      case True
      then show ?thesis using r Some by (simp add: drive_unit_def)
    next
      case False
      from advance_cell_ok [OF assms(1) c, of "int n - 1"] e(1) False obtain c' where
        "advance_cell ?d (s_log s) (int n - 1) c = (Inr (), c')" "cell_ok s ?d c'" "uc_seq c' + 1 = int n"
        by (auto simp: seq)
      with False Some key obs [of c'] seq show ?thesis
        by (simp add: drive_unit_def registration_ok_cell case_prod_unfold cursor_before_int Let_def)
    qed
  qed
qed

lemma drive_registrations_ok:
  assumes "log_numbered s" and "e \<in> set (s_log s)" and "\<forall>kr \<in> set reg. registration_ok s kr"
  shows "(\<forall>kr \<in> set (snd (drive listening s e reg)). registration_ok s kr) \<and>
    map fst (snd (drive listening s e reg)) = map fst reg"
  using assms(3)
proof (induction reg)
  case Nil
  then show ?case by simp
next
  case (Cons kr reg)
  obtain k r where kr: "kr = (k, r)" by (cases kr)
  from assms(2) obtain n where n: "n < length (s_log s)" "s_log s ! n = e" by (auto simp: in_set_conv_nth)
  from Cons.prems kr have "registration_ok s (k, snd (drive_unit listening s e r))"
    by (intro drive_unit_ok [OF assms(1) _ n]) simp
  with Cons kr show ?case by (auto split: sum.splits prod.splits)
qed

lemma drive_ok: "log_numbered s \<Longrightarrow> e \<in> set (s_log s) \<Longrightarrow> registry_ok s reg \<Longrightarrow> registry_ok s (snd (drive listening s e reg))"
  using drive_registrations_ok [of s e reg listening] by (simp add: registry_ok_def)

section \<open>Restoring\<close>

text \<open>The specification: what a set of units serves over the first \<open>n\<close> events of a log.\<close>

definition units_of :: "('s, 'v) registry \<Rightarrow> ('s, 'v) projection_unit list" where
  "units_of reg = map (\<lambda>kr. rg_unit (snd kr)) reg"

definition prefix_state :: "session \<Rightarrow> nat \<Rightarrow> ('s, 'v) projection_unit \<Rightarrow> 's" where
  "prefix_state s n d = unit_fold d s (take n (s_log s))"

definition prefix_row :: "session \<Rightarrow> nat \<Rightarrow> ('s, 'v) projection_unit \<Rightarrow> string \<times> 's checkpoint_row" where
  "prefix_row s n d = (pu_key d, \<lparr>cr_version = pu_version d, cr_seq = int n - 1, cr_value = prefix_state s n d\<rparr>)"

fun prefix_views ::
    "session \<Rightarrow> nat \<Rightarrow> string list option \<Rightarrow> ('s, 'v) projection_unit list \<Rightarrow> (projection_error, (string \<times> 'v) list) result" where
  "prefix_views s n keys [] = Inr []"
| "prefix_views s n keys (d # ds) =
     (if \<not> selects keys d then prefix_views s n keys ds
      else and_then (view_cell d (prefix_state s n d)) (\<lambda>v.
           and_then (prefix_views s n keys ds) (\<lambda>vs. Inr ((pu_key d, v) # vs))))"

text \<open>A stored row is honest when, if it belongs to this version of the unit and to the log as it is, its
  value reads as the fold of the prefix it names. A row past the end of the log, or of
  another version, may hold anything.\<close>

definition row_honest :: "session \<Rightarrow> ('s, 'v) projection_unit \<Rightarrow> 's checkpoint_row option \<Rightarrow> bool" where
  "row_honest s d row \<longleftrightarrow> (row_current d row \<longrightarrow> -1 \<le> cr_seq (the row) \<longrightarrow> cr_seq (the row) < int (length (s_log s)) \<longrightarrow>
     pu_parse d (cr_value (the row)) \<in> {None, Some (prefix_state s (nat (cr_seq (the row) + 1)) d)})"

definition rows_honest :: "session \<Rightarrow> (string \<times> 's checkpoint_row) list \<Rightarrow> ('s, 'v) registry \<Rightarrow> bool" where
  "rows_honest s rows reg \<longleftrightarrow> (\<forall>d \<in> set (units_of reg). row_honest s d (map_of rows (pu_key d)))"

lemma replay_tail_fold: "replay_tail d base i es st = Inr st' \<Longrightarrow> st' = foldl (next_state d) st es"
  by (induction d base i es st rule: replay_tail.induct) (auto simp: and_then_Inr_iff)

lemma end_cursor_slice:
  assumes "log_numbered s" and "base \<le> n" and "n \<le> length (s_log s)"
  shows "end_cursor base (drop base (take n (s_log s))) = int n - 1"
proof (cases "base = n")
  case True
  then show ?thesis by (simp add: end_cursor_def cursor_before_int)
next
  case False
  with assms(2) obtain m where m: "n = Suc m" "base \<le> m" by (cases n) auto
  with assms(3) have "drop base (take n (s_log s)) = drop base (take m (s_log s)) @ [s_log s ! m]"
    by (simp add: take_Suc_conv_app_nth)
  moreover have "ev_seq (s_log s ! m) = m" using assms(1,3) m by (simp add: log_numbered_def)
  ultimately show ?thesis using m by (simp add: end_cursor_def)
qed

lemma prefix_state_split:
  "m \<le> n \<Longrightarrow> foldl (next_state d) (prefix_state s m d) (drop m (take n (s_log s))) = prefix_state s n d"
proof -
  assume "m \<le> n"
  then have "take n (s_log s) = take m (s_log s) @ drop m (take n (s_log s))"
    by (metis append_take_drop_id min.absorb1 take_take)
  then have "foldl (next_state d) b (take n (s_log s)) = foldl (next_state d) b (take m (s_log s) @ drop m (take n (s_log s)))" for b
    by (rule arg_cong)
  then show ?thesis by (simp add: prefix_state_def unit_fold_def)
qed

lemma restore_unit_fold:
  assumes "log_numbered s" and bn: "base \<le> n" "n \<le> length (s_log s)" and honest: "row_honest s d row"
    and r: "restore_unit d row (drop base (take n (s_log s))) base (s_header s) (s_inherited s) = Inr st"
  shows "st = prefix_state s n d"
proof -
  let ?es = "drop base (take n (s_log s))"
  have usable: "row_usable d base ?es row \<longleftrightarrow> row_current d row \<and> int base - 1 \<le> cr_seq (the row) \<and> cr_seq (the row) \<le> int n - 1"
    by (simp add: row_usable_def end_cursor_slice [OF assms(1) bn] cursor_before_int)
  show ?thesis
  proof (cases "row_usable d base ?es row")
    case True
    let ?m = "nat (cr_seq (the row) + 1)" and ?start = "nat (cr_seq (the row) - int base + 1)"
    from True usable have u: "row_current d row" "int base - 1 \<le> cr_seq (the row)" "cr_seq (the row) \<le> int n - 1" by simp_all
    have "?start + base = ?m" and le: "?m \<le> n" using u by linarith+
    then have start: "drop ?start ?es = drop ?m (take n (s_log s))" by simp
    from r True obtain st0 where "pu_parse d (cr_value (the row)) = Some st0"
      and rest: "replay_tail d base ?start (drop ?start ?es) st0 = Inr st"
      by (auto simp: restore_unit_def and_then_Inr_iff Let_def split: option.splits)
    moreover have "pu_parse d (cr_value (the row)) \<in> {None, Some (prefix_state s ?m d)}"
      using honest u bn unfolding row_honest_def by auto
    ultimately have "st = foldl (next_state d) (prefix_state s ?m d) (drop ?m (take n (s_log s)))"
      using replay_tail_fold start by force
    then show ?thesis using prefix_state_split [OF le] by simp
  next
    case False
    with r have "base = 0" by (auto simp: restore_unit_def split: if_splits)
    with False r have "replay_tail d 0 0 (take n (s_log s)) (pu_init d (s_header s) (s_inherited s)) = Inr st"
      by (simp add: restore_unit_def cursor_before_def)
    then show ?thesis by (auto simp: prefix_state_def unit_fold_def dest: replay_tail_fold)
  qed
qed

lemma restore_loop_exact:
  assumes ln: "log_numbered s" and bn: "base \<le> n" "n \<le> length (s_log s)" and honest: "rows_honest s rows reg"
    and r: "restore_loop rows (drop base (take n (s_log s))) base (s_header s) (s_inherited s) reg = Inr (vs, fresh)"
  shows "prefix_views s n None (units_of reg) = Inr vs \<and> fresh = map (prefix_row s n) (units_of reg)"
  using honest r
proof (induction reg arbitrary: vs fresh)
  case Nil
  then show ?case by (simp add: units_of_def)
next
  case (Cons kr reg)
  let ?es = "drop base (take n (s_log s))"
  obtain k r where kr: "kr = (k, r)" by (cases kr)
  let ?d = "rg_unit r"
  from Cons.prems(2) kr obtain st v vs' fresh' where
    st: "restore_unit ?d (map_of rows (pu_key ?d)) ?es base (s_header s) (s_inherited s) = Inr st"
    and v: "(if pu_wire ?d = None then Inr [] else and_then (view_cell ?d st) (\<lambda>v. Inr [(pu_key ?d, v)])) = Inr v"
    and rest: "restore_loop rows ?es base (s_header s) (s_inherited s) reg = Inr (vs', fresh')"
    and out: "vs = v @ vs'" "fresh = (pu_key ?d, \<lparr>cr_version = pu_version ?d, cr_seq = end_cursor base ?es, cr_value = st\<rparr>) # fresh'"
    by (auto simp: and_then_Inr_iff Let_def)
  have "row_honest s ?d (map_of rows (pu_key ?d))" using Cons.prems(1) kr by (simp add: rows_honest_def units_of_def)
  from restore_unit_fold [OF ln bn this st] have st': "st = prefix_state s n ?d" .
  have "rows_honest s rows reg" using Cons.prems(1) by (simp add: rows_honest_def units_of_def)
  from Cons.IH [OF this rest] have ih: "prefix_views s n None (units_of reg) = Inr vs'"
    "fresh' = map (prefix_row s n) (units_of reg)" by simp_all
  have "prefix_views s n None (?d # units_of reg) = Inr (v @ vs')"
    using v ih(1) by (auto simp: selects_def st' and_then_Inr_iff split: if_splits)
  moreover have "units_of (kr # reg) = ?d # units_of reg" by (simp add: units_of_def kr)
  ultimately show ?case using out ih(2) st'
    by (simp add: prefix_row_def end_cursor_slice [OF ln bn])
qed

lemma map_of_unit_rows:
  "distinct (map pu_key ds) \<Longrightarrow> d \<in> set ds \<Longrightarrow> map_of (map (prefix_row s n) ds) (pu_key d) = Some (snd (prefix_row s n d))"
  by (intro map_of_is_SomeI) (auto simp: prefix_row_def comp_def image_iff)

lemma prefix_cell_ok:
  "n \<le> length (s_log s) \<Longrightarrow> cell_ok s d \<lparr>uc_state = prefix_state s n d, uc_seq = int n - 1, uc_views = (None, None)\<rparr>"
  by (simp add: cell_ok_def prefix_state_def)

lemma unit_keys: "registry_ok s reg \<Longrightarrow> distinct (map pu_key (units_of reg))"
proof -
  assume ok: "registry_ok s reg"
  then have "map pu_key (units_of reg) = map fst reg" by (auto simp: units_of_def registry_ok_def registration_ok_def)
  then show ?thesis using ok by (simp add: registry_ok_def)
qed

lemma hydrate_ok:
  assumes ln: "log_numbered s" and bn: "base \<le> n" "n \<le> length (s_log s)" and honest: "rows_honest s rows reg"
    and ok: "registry_ok s reg"
  shows "registry_ok s (snd (hydrate s rows (drop base (take n (s_log s))) base reg))"
proof (cases "restore rows (drop base (take n (s_log s))) base (s_header s) (s_inherited s) reg")
  case (Inl err)
  then show ?thesis using ok by (simp add: hydrate_def)
next
  case (Inr p)
  then obtain shot fresh where p: "p = (shot, fresh)" by (cases p)
  with Inr have "fresh = map (prefix_row s n) (units_of reg)"
    using restore_loop_exact [OF ln bn honest] by (auto simp: restore_def and_then_Inr_iff)
  then have "registration_ok s (k, install_row fresh r)" if "(k, r) \<in> set reg" for k r
  proof -
    have u: "rg_unit r \<in> set (units_of reg)" using that by (force simp: units_of_def)
    have r: "registration_ok s (k, r)" using ok that by (simp add: registry_ok_def)
    show ?thesis
      using map_of_unit_rows [OF unit_keys [OF ok] u] r prefix_cell_ok [OF bn(2), of "rg_unit r"]
      by (auto simp: install_row_def \<open>fresh = _\<close> prefix_row_def registration_ok_def split: option.splits)
  qed
  then have "registry_ok s (map (\<lambda>(k, r). (k, install_row fresh r)) reg)"
    using ok by (auto simp: registry_ok_def comp_def case_prod_unfold)
  then show ?thesis using ok Inr p by (simp add: hydrate_def)
qed

section \<open>Histories\<close>

text \<open>
  Everything that may happen to a session and its registry: registration and release, the announcement of
  the session, appends, the delivery of an appended event at once or later (listeners before the
  registry may read it or append in between), reads, and hydration from honest rows.
\<close>

inductive registry_run :: "session \<Rightarrow> ('s, 'v) registry \<Rightarrow> bool" where
  opened: "session_reach s \<Longrightarrow> registry_run s []"
| registered: "registry_run s reg \<Longrightarrow> register_unit d reg = Inr reg' \<Longrightarrow> registry_run s reg'"
| unregistered: "registry_run s reg \<Longrightarrow> registry_run s (unregister_unit k reg)"
| announced: "registry_run s reg \<Longrightarrow> registry_run s (session_created s reg)"
| appended: "registry_run s reg \<Longrightarrow> registry_run (snd (session_append now p op sources s)) reg"
| driven: "registry_run s reg \<Longrightarrow> e \<in> set (s_log s) \<Longrightarrow> registry_run s (snd (drive listening s e reg))"
| state_read: "registry_run s reg \<Longrightarrow> registry_run s (snd (state_of s k reg))"
| snapshot_read: "registry_run s reg \<Longrightarrow> registry_run s (snd (snapshot s keys reg))"
| checkpointed: "registry_run s reg \<Longrightarrow> registry_run s (snd (checkpoint s reg))"
| hydrated: "registry_run s reg \<Longrightarrow> base \<le> n \<Longrightarrow> n \<le> length (s_log s) \<Longrightarrow> rows_honest s rows reg \<Longrightarrow>
    registry_run s (snd (hydrate s rows (drop base (take n (s_log s))) base reg))"

lemma log_numbered_reach: "session_inv s \<Longrightarrow> log_numbered s"
  using fold_window_seqs [of 0 "s_log s"] by (auto simp: session_inv_def is_ok_iff log_numbered_def)

lemma reads_ok:
  assumes "log_numbered s" and "registry_ok s reg"
  shows "registry_ok s (snd (state_of s k reg))" and "registry_ok s (snd (snapshot s keys reg))"
    and "registry_ok s (snd (checkpoint s reg))"
proof -
  from assms obtain reg' where r: "materialize_cells s reg = (Inr (), reg')" "registry_ok s reg'"
    by (rule materialize_registry_ok)
  then show "registry_ok s (snd (state_of s k reg))" and "registry_ok s (snd (snapshot s keys reg))"
    and "registry_ok s (snd (checkpoint s reg))"
    using assms(2) by (simp_all add: state_of_def snapshot_def checkpoint_def)
qed

lemma registry_run_inv: "registry_run s reg \<Longrightarrow> session_inv s \<and> registry_ok s reg"
proof (induction rule: registry_run.induct)
  case (opened s)
  then show ?case by (simp add: session_reach_inv)
next
  case (appended s reg now p op sources)
  obtain r s' where a: "session_append now p op sources s = (r, s')" by (cases "session_append now p op sources s")
  have "session_inv s'" using session_append_inv [of s now p op sources] appended.IH a by simp
  then show ?case using appended.IH a append_extends [OF _ a] registry_ok_extends by auto
next
  case (hydrated s reg base n rows)
  then show ?case using hydrate_ok log_numbered_reach by blast
qed (use log_numbered_reach in \<open>auto intro: register_ok unregister_ok created_ok drive_ok reads_ok\<close>)

section \<open>What is served\<close>

lemma collect_views_current:
  assumes "\<forall>kr \<in> set reg. registration_ok s kr" and "all_current s reg"
  shows "collect_views keys reg = prefix_views s (length (s_log s)) keys (units_of reg)"
  using assms
proof (induction reg)
  case Nil
  then show ?case by (simp add: units_of_def)
next
  case (Cons kr reg)
  obtain k r where kr: "kr = (k, r)" by (cases kr)
  from Cons.prems kr obtain c where c: "rg_cell r = Some c" "cell_ok s (rg_unit r) c" "uc_seq c = int (length (s_log s)) - 1"
    by (auto simp: all_current_def registration_ok_def)
  have "uc_state c = prefix_state s (length (s_log s)) (rg_unit r)" using full_cell [OF c(2,3)] by (simp add: prefix_state_def)
  moreover have "collect_views keys reg = prefix_views s (length (s_log s)) keys (units_of reg)"
    using Cons by (simp add: all_current_def)
  ultimately show ?case using c kr by (simp add: units_of_def)
qed

lemma checkpoint_rows_current:
  assumes "\<forall>kr \<in> set reg. registration_ok s kr" and "all_current s reg"
  shows "concat (map (\<lambda>(k, r). case rg_cell r of Some c \<Rightarrow> [(pu_key (rg_unit r), row_of (rg_unit r) c)] | None \<Rightarrow> []) reg)
    = map (prefix_row s (length (s_log s))) (units_of reg)"
  using assms
proof (induction reg)
  case Nil
  then show ?case by (simp add: units_of_def)
next
  case (Cons kr reg)
  obtain k r where kr: "kr = (k, r)" by (cases kr)
  from Cons.prems kr obtain c where c: "rg_cell r = Some c" "cell_ok s (rg_unit r) c" "uc_seq c = int (length (s_log s)) - 1"
    by (auto simp: all_current_def registration_ok_def)
  have "uc_state c = prefix_state s (length (s_log s)) (rg_unit r)" using full_cell [OF c(2,3)] by (simp add: prefix_state_def)
  then show ?case using Cons c kr by (simp add: units_of_def all_current_def row_of_def prefix_row_def)
qed

lemma map_of_same_units:
  "map fst reg' = map fst reg \<Longrightarrow> units_of reg' = units_of reg \<Longrightarrow>
   map_option rg_unit (map_of reg' k) = map_option rg_unit (map_of reg k)"
proof (induction reg arbitrary: reg')
  case Nil
  then show ?case by simp
next
  case (Cons kr reg)
  from Cons.prems(1) obtain kr' reg'' where reg': "reg' = kr' # reg''" by (cases reg') auto
  with Cons.prems have heads: "fst kr' = fst kr" "rg_unit (snd kr') = rg_unit (snd kr)"
    and "map fst reg'' = map fst reg" "units_of reg'' = units_of reg"
    by (simp_all only: units_of_def list.map list.inject)
  then have "map_option rg_unit (map_of reg'' k) = map_option rg_unit (map_of reg k)" by (intro Cons.IH)
  then show ?case using heads reg' by simp
qed

lemma state_current:
  assumes "\<forall>kr \<in> set reg. registration_ok s kr" and "all_current s reg" and "map_of reg k = Some r"
  shows "map_option uc_state (rg_cell r) = Some (prefix_state s (length (s_log s)) (rg_unit r))"
proof -
  from assms(3) have kr: "(k, r) \<in> set reg" by (rule map_of_SomeD)
  with assms(2) obtain c where c: "rg_cell r = Some c" "uc_seq c = int (length (s_log s)) - 1"
    by (auto simp: all_current_def)
  have "registration_ok s (k, r)" using assms(1) kr by blast
  then have "cell_ok s (rg_unit r) c" using c(1) by (simp add: registration_ok_def)
  with full_cell c show ?thesis by (fastforce simp: prefix_state_def)
qed

lemma reads_are_folds:
  assumes "log_numbered s" and "registry_ok s reg"
  shows "fst (state_of s k reg) = Inr (map_option (\<lambda>r. prefix_state s (length (s_log s)) (rg_unit r)) (map_of reg k))"
    and "fst (snapshot s keys reg) = and_then (prefix_views s (length (s_log s)) keys (units_of reg))
           (\<lambda>vs. Inr \<lparr>ps_seq = int (length (s_log s)) - 1, ps_values = vs\<rparr>)"
    and "fst (checkpoint s reg) = Inr (map (prefix_row s (length (s_log s))) (units_of reg))"
proof -
  from assms obtain reg' where m: "materialize_cells s reg = (Inr (), reg')" "registry_ok s reg'" "all_current s reg'"
    and same: "map fst reg' = map fst reg" "units_of reg' = units_of reg"
    unfolding units_of_def by (rule materialize_registry_ok)
  have each: "\<forall>kr \<in> set reg'. registration_ok s kr" using m(2) by (simp add: registry_ok_def)
  show "fst (snapshot s keys reg) = and_then (prefix_views s (length (s_log s)) keys (units_of reg))
           (\<lambda>vs. Inr \<lparr>ps_seq = int (length (s_log s)) - 1, ps_values = vs\<rparr>)"
    using m(1) collect_views_current [OF each m(3)] same(2)
    by (simp add: snapshot_def cursor_before_int session_seq_of_def)
  show "fst (checkpoint s reg) = Inr (map (prefix_row s (length (s_log s))) (units_of reg))"
    using m(1) checkpoint_rows_current [OF each m(3)] same(2) by (simp add: checkpoint_def)
  note unit = map_of_same_units [OF same, of k]
  show "fst (state_of s k reg) = Inr (map_option (\<lambda>r. prefix_state s (length (s_log s)) (rg_unit r)) (map_of reg k))"
  proof (cases "map_of reg k")
    case None
    then show ?thesis by (simp add: state_of_def)
  next
    case (Some r)
    with unit obtain r' where "map_of reg' k = Some r'" "rg_unit r' = rg_unit r" by auto
    then show ?thesis using Some m(1) state_current [OF each m(3), of k r'] by (auto simp: state_of_def)
  qed
qed

text \<open>
  Claim C16. Live reads are folds: after any history of registrations, appends, deliveries in any order, reads
  and hydrations, the state a key reads, every served value and every checkpoint row are the unit's
  fold of the whole log, the snapshot is cut at the last event, and no read fails except by a view
  its own schema refuses.
\<close>

theorem registry_reads_fold:
  assumes "registry_run s reg"
  shows "fst (state_of s k reg) = Inr (map_option (\<lambda>r. prefix_state s (length (s_log s)) (rg_unit r)) (map_of reg k))
    \<and> fst (snapshot s keys reg) = and_then (prefix_views s (length (s_log s)) keys (units_of reg))
         (\<lambda>vs. Inr \<lparr>ps_seq = int (length (s_log s)) - 1, ps_values = vs\<rparr>)
    \<and> fst (checkpoint s reg) = Inr (map (prefix_row s (length (s_log s))) (units_of reg))"
proof -
  have inv: "log_numbered s" "registry_ok s reg" using registry_run_inv [OF assms] log_numbered_reach by auto
  show ?thesis by (intro conjI reads_are_folds [OF inv])
qed

section \<open>Restoring from the floor\<close>

lemma restore_floor_need:
  assumes "restore_floor rows reg = Some (int base)" and "0 < base" and "d \<in> set (units_of reg)"
  shows "int base + 1 \<le> row_need d (map_of rows (pu_key d))"
proof -
  let ?needs = "map (\<lambda>(k, r). row_need (rg_unit r) (map_of rows (pu_key (rg_unit r)))) reg"
  from assms(1,2) have "Min (set ?needs) - 1 = int base"
    by (auto simp: restore_floor_def lowest_def max_def split: if_splits)
  moreover have "row_need d (map_of rows (pu_key d)) \<in> set ?needs" using assms(3) by (force simp: units_of_def)
  then have "Min (set ?needs) \<le> row_need d (map_of rows (pu_key d))" by (rule Min_le [OF finite_set])
  ultimately show ?thesis by linarith
qed

lemma floor_rows_current:
  assumes "restore_floor rows reg = Some (int base)" and "0 < base" and "d \<in> set (units_of reg)"
  shows "row_current d (map_of rows (pu_key d)) \<and> int base \<le> cr_seq (the (map_of rows (pu_key d)))"
  using restore_floor_need [OF assms] by (auto simp: row_need_def split: if_splits)

lemma shrunk_log_refused:
  assumes "restore_floor rows reg = Some (int base)" and "0 < base"
  shows "\<exists>k. restore_loop rows [] base h inherited reg = Inl (RestoreFloor k)"
proof (cases reg)
  case Nil
  then show ?thesis using assms(1) by (simp add: restore_floor_def lowest_def)
next
  case (Cons kr reg')
  obtain k r where kr: "kr = (k, r)" by (cases kr)
  let ?row = "map_of rows (pu_key (rg_unit r))"
  have "rg_unit r \<in> set (units_of reg)" using Cons kr by (simp add: units_of_def)
  from floor_rows_current [OF assms this] have "int base \<le> cr_seq (the ?row)" by simp
  then have "\<not> row_usable (rg_unit r) base [] ?row"
    by (simp add: row_usable_def end_cursor_def cursor_before_int)
  then show ?thesis using Cons kr assms(2) by (simp add: restore_unit_def Let_def)
qed

text \<open>
  Claim C17. A stored checkpoint is only ever a shortcut: restoring over the tail read from the floor, whether
  the log has grown, stayed or been cut back since the rows were written, either fails or gives
  exactly the snapshot and the checkpoint that the live registry would give.
\<close>

theorem restore_equals_live:
  assumes run: "registry_run s reg" and honest: "rows_honest s rows reg" and floor: "restore_floor rows reg = Some (int base)"
    and r: "restore rows (drop base (s_log s)) base (s_header s) (s_inherited s) reg = Inr (shot, fresh)"
  shows "fst (snapshot s None reg) = Inr shot \<and> fst (checkpoint s reg) = Inr fresh"
proof -
  let ?n = "length (s_log s)"
  have inv: "log_numbered s" "registry_ok s reg" using registry_run_inv [OF run] log_numbered_reach by auto
  have le: "base \<le> ?n"
    using shrunk_log_refused [OF floor, of "s_header s" "s_inherited s"] r
    by (cases "base \<le> ?n") (auto simp: restore_def)
  from r obtain vs where l: "restore_loop rows (drop base (take ?n (s_log s))) base (s_header s) (s_inherited s) reg = Inr (vs, fresh)"
    and shot: "shot = \<lparr>ps_seq = end_cursor base (drop base (take ?n (s_log s))), ps_values = vs\<rparr>"
    by (auto simp: restore_def and_then_Inr_iff)
  from restore_loop_exact [OF inv(1) le _ honest l] show ?thesis
    using reads_are_folds(2) [OF inv, of None] reads_are_folds(3) [OF inv] shot end_cursor_slice [OF inv(1) le] by simp
qed

text \<open>Conversely, rows that belong to the log as it is restore.\<close>

lemma replay_tail_numbered:
  assumes "log_numbered s" and "int (length (s_log s)) \<le> MAX_SAFE_INTEGER"
  shows "\<exists>st'. replay_tail d base i (drop (base + i) (s_log s)) st = Inr st'"
proof (induction "length (s_log s) - (base + i)" arbitrary: i st)
  case 0
  then show ?case by simp
next
  case (Suc m)
  let ?j = "base + i"
  from Suc.hyps(2) have j: "?j < length (s_log s)" and m: "m = length (s_log s) - (base + (i + 1))" by simp_all
  have "drop ?j (s_log s) = s_log s ! ?j # drop (base + (i + 1)) (s_log s)" using j by (simp add: Cons_nth_drop_Suc)
  moreover have "session_seq (JInt (int base + int i)) = Inr ?j"
    using assms(2) j session_seq_int [of ?j] by simp
  moreover have "ev_seq (s_log s ! ?j) = ?j" using assms(1) j by (simp add: log_numbered_def)
  ultimately show ?case using Suc.hyps(1) [OF m] by simp
qed

definition row_readable :: "session \<Rightarrow> ('s, 'v) projection_unit \<Rightarrow> 's checkpoint_row option \<Rightarrow> bool" where
  "row_readable s d row \<longleftrightarrow> (row_current d row \<longrightarrow> -1 \<le> cr_seq (the row) \<and> cr_seq (the row) < int (length (s_log s))
     \<and> pu_parse d (cr_value (the row)) \<noteq> None)"

lemma restore_unit_readable:
  assumes ln: "log_numbered s" and small: "int (length (s_log s)) \<le> MAX_SAFE_INTEGER" and le: "base \<le> length (s_log s)"
    and row: "row_readable s d row" and floor: "0 < base \<Longrightarrow> row_current d row \<and> int base \<le> cr_seq (the row)"
  shows "\<exists>st. restore_unit d row (drop base (s_log s)) base (s_header s) (s_inherited s) = Inr st"
proof -
  have e: "end_cursor base (drop base (s_log s)) = int (length (s_log s)) - 1"
    using end_cursor_slice [OF ln le] by simp
  show ?thesis
  proof (cases "row_usable d base (drop base (s_log s)) row")
    case True
    then have u: "row_current d row" by (simp add: row_usable_def)
    with row obtain st where "pu_parse d (cr_value (the row)) = Some st" by (auto simp: row_readable_def)
    then show ?thesis
      using True replay_tail_numbered [OF ln small, of d base "nat (cr_seq (the row) - int base + 1)" st]
      by (simp add: restore_unit_def Let_def add.commute)
  next
    case False
    have "base = 0"
    proof (rule ccontr)
      assume "base \<noteq> 0"
      with floor have "row_current d row" "int base \<le> cr_seq (the row)" by auto
      with row False show False by (simp add: row_usable_def row_readable_def e cursor_before_int)
    qed
    with False replay_tail_numbered [OF ln small, of d 0 0 "pu_init d (s_header s) (s_inherited s)"] show ?thesis
      by (simp add: restore_unit_def cursor_before_def)
  qed
qed

lemma restore_loop_readable:
  assumes ln: "log_numbered s" and small: "int (length (s_log s)) \<le> MAX_SAFE_INTEGER" and le: "base \<le> length (s_log s)"
    and each: "\<forall>d \<in> set (units_of reg). row_honest s d (map_of rows (pu_key d)) \<and> row_readable s d (map_of rows (pu_key d))
      \<and> (0 < base \<longrightarrow> row_current d (map_of rows (pu_key d)) \<and> int base \<le> cr_seq (the (map_of rows (pu_key d))))"
    and views: "prefix_views s (length (s_log s)) None (units_of reg) = Inr vs"
  shows "\<exists>p. restore_loop rows (drop base (s_log s)) base (s_header s) (s_inherited s) reg = Inr p"
  using each views
proof (induction reg arbitrary: vs)
  case Nil
  then show ?case by simp
next
  case (Cons kr reg)
  obtain k r where kr: "kr = (k, r)" by (cases kr)
  let ?d = "rg_unit r" and ?n = "length (s_log s)"
  have units: "units_of (kr # reg) = ?d # units_of reg" by (simp add: units_of_def kr)
  from Cons.prems(1) units have d: "row_honest s ?d (map_of rows (pu_key ?d))" "row_readable s ?d (map_of rows (pu_key ?d))"
    "0 < base \<Longrightarrow> row_current ?d (map_of rows (pu_key ?d)) \<and> int base \<le> cr_seq (the (map_of rows (pu_key ?d)))" by simp_all
  from restore_unit_readable [OF ln small le d(2,3)] obtain st where
    st: "restore_unit ?d (map_of rows (pu_key ?d)) (drop base (s_log s)) base (s_header s) (s_inherited s) = Inr st" by blast
  have st': "st = prefix_state s ?n ?d" using restore_unit_fold [OF ln le order.refl d(1)] st by simp
  obtain vs' where rest: "prefix_views s ?n None (units_of reg) = Inr vs'"
    and v: "pu_wire ?d = None \<or> is_ok (view_cell ?d st)"
    using Cons.prems(2) units st' by (cases "pu_wire ?d") (auto simp: selects_def and_then_Inr_iff is_ok_iff)
  have "\<forall>d \<in> set (units_of reg). row_honest s d (map_of rows (pu_key d)) \<and> row_readable s d (map_of rows (pu_key d))
      \<and> (0 < base \<longrightarrow> row_current d (map_of rows (pu_key d)) \<and> int base \<le> cr_seq (the (map_of rows (pu_key d))))"
    using Cons.prems(1) units by simp
  from Cons.IH [OF this rest] obtain p where "restore_loop rows (drop base (s_log s)) base (s_header s) (s_inherited s) reg = Inr p" ..
  then show ?case using kr st v by (cases p) (auto simp: Let_def is_ok_iff)
qed

text \<open>
  Restoring never refuses without a reason: when every current row lies within the log and reads
  back, restoring over the tail from the floor succeeds with the live snapshot.
\<close>

theorem restore_succeeds:
  assumes run: "registry_run s reg" and honest: "rows_honest s rows reg" and floor: "restore_floor rows reg = Some (int base)"
    and small: "int (length (s_log s)) \<le> MAX_SAFE_INTEGER"
    and readable: "\<forall>d \<in> set (units_of reg). row_readable s d (map_of rows (pu_key d))"
    and live: "fst (snapshot s None reg) = Inr live"
  shows "\<exists>fresh. restore rows (drop base (s_log s)) base (s_header s) (s_inherited s) reg = Inr (live, fresh)"
proof -
  let ?n = "length (s_log s)"
  have inv: "log_numbered s" "registry_ok s reg" using registry_run_inv [OF run] log_numbered_reach by auto
  from live reads_are_folds(2) [OF inv, of None] obtain vs where
    views: "prefix_views s ?n None (units_of reg) = Inr vs" and l: "live = \<lparr>ps_seq = int ?n - 1, ps_values = vs\<rparr>"
    by (auto simp: and_then_Inr_iff)
  have "reg \<noteq> []" using floor by (auto simp: restore_floor_def lowest_def)
  then obtain d where d: "d \<in> set (units_of reg)" by (cases reg) (auto simp: units_of_def)
  have le: "base \<le> ?n"
    using floor_rows_current [OF floor _ d] readable d by (cases "0 < base") (auto simp: row_readable_def)
  have "\<forall>d \<in> set (units_of reg). row_honest s d (map_of rows (pu_key d)) \<and> row_readable s d (map_of rows (pu_key d))
      \<and> (0 < base \<longrightarrow> row_current d (map_of rows (pu_key d)) \<and> int base \<le> cr_seq (the (map_of rows (pu_key d))))"
    using honest readable floor_rows_current [OF floor] by (auto simp: rows_honest_def)
  from restore_loop_readable [OF inv(1) small le this views] obtain vs' fresh where
    p: "restore_loop rows (drop base (s_log s)) base (s_header s) (s_inherited s) reg = Inr (vs', fresh)" by auto
  have "vs' = vs" using restore_loop_exact [OF inv(1) le order.refl honest] p views by simp
  then show ?thesis using p l end_cursor_slice [OF inv(1) le order.refl] by (simp add: restore_def)
qed

section \<open>Notification\<close>

definition raw_view :: "('s, 'v) projection_unit \<Rightarrow> 's \<Rightarrow> 'v option" where
  "raw_view d st = map_option (\<lambda>(view, parse). view st) (pu_wire d)"

text \<open>What a listened delivery of an event says about one unit whose states before and after it are
  given: nothing when the view is the same; otherwise, or when no earlier view was kept, the new value.\<close>

definition emission_ok ::
    "('s, 'v) projection_unit \<Rightarrow> session_event \<Rightarrow> 's \<Rightarrow> 's \<Rightarrow> (string \<times> 'v \<times> nat) list \<Rightarrow> bool" where
  "emission_ok d e old new_state out \<longleftrightarrow>
     out = [] \<and> raw_view d new_state = raw_view d old \<or>
     (\<exists>v. view_cell d new_state = Inr v \<and> out = [(pu_key d, v, ev_seq e)])"

lemma observe_event_emission:
  assumes "cell_ok s d c" and "observe_event True d e c = (Inr out, c')"
  shows "emission_ok d e (uc_state c) (next_state d (uc_state c) e) out"
proof (cases "pu_apply d (uc_state c) e")
  case None
  then show ?thesis using assms(2) by (simp add: observe_event_def next_state_def emission_ok_def)
next
  case (Some t)
  have buffer: "buffer_ok d (uc_state c) (snd (uc_views c))" using assms(1) unfolding cell_ok_def by blast
  show ?thesis
  proof (cases "pu_wire d")
    case None
    then show ?thesis using assms(2) Some by (simp add: observe_event_def emission_ok_def raw_view_def Let_def)
  next
    case wire: (Some w)
    obtain view parse where w: "w = (view, parse)" by (cases w)
    show ?thesis
    proof (cases "snd (uc_views c) = Some (view t)")
      case True
      then have "view t = view (uc_state c)" using buffer wire w by (simp add: buffer_ok_def)
      then show ?thesis using assms(2) Some wire w True
        by (simp add: observe_event_def emission_ok_def raw_view_def next_state_def Let_def)
    next
      case False
      then show ?thesis using assms(2) Some wire w
        by (auto simp: observe_event_def emission_ok_def next_state_def view_cell_def Let_def split: option.splits)
    qed
  qed
qed

lemma drive_unit_emission:
  assumes ln: "log_numbered s'" and log: "s_log s' = s_log s @ [e]" and ext: "extends s s'"
    and ok: "registration_ok s (k, r)" and d: "drive_unit True s' e r = (Inr out, r')"
  shows "emission_ok (rg_unit r) e (prefix_state s (length (s_log s)) (rg_unit r))
    (prefix_state s' (length (s_log s')) (rg_unit r)) out"
proof -
  let ?n = "length (s_log s)" and ?d = "rg_unit r"
  have len: "?n < length (s_log s')" and e: "s_log s' ! ?n = e" using log by simp_all
  have seq: "ev_seq e = ?n" using ln len e by (auto simp: log_numbered_def)
  have old: "prefix_state s' ?n ?d = prefix_state s ?n ?d"
    using ext log by (simp add: prefix_state_def unit_fold_def extends_def)
  have new_state: "prefix_state s' (length (s_log s')) ?d = next_state ?d (prefix_state s ?n ?d) e"
    using old log by (simp add: prefix_state_def unit_fold_snoc)
  have final: "emission_ok ?d e (prefix_state s ?n ?d) (prefix_state s' (length (s_log s')) ?d) out"
    if "cell_ok s' ?d c" "uc_seq c = int ?n - 1" "observe_event True ?d e c = (Inr out, c')" for c c'
  proof -
    have "uc_state c = prefix_state s ?n ?d" using that(1,2) old by (simp add: cell_ok_def prefix_state_def)
    with observe_event_emission [OF that(1,3)] new_state show ?thesis by simp
  qed
  show ?thesis
  proof (cases "rg_cell r")
    case None
    have "slice 0 (ev_seq e) (s_log s') = take ?n (s_log s')" using seq by (simp add: slice_def)
    with None d obtain c' where "observe_event True ?d e (build_cell ?d s' (take ?n (s_log s'))) = (Inr out, c')"
      by (auto simp: drive_unit_def Let_def split: prod.splits)
    with build_cell_ok [OF ln, of ?n ?d] len show ?thesis by (intro final) auto
  next
    case (Some c)
    then have "cell_ok s ?d c" using ok by (simp add: registration_ok_def)
    then have c: "cell_ok s' ?d c" "uc_seq c < int ?n" using cell_ok_extends [OF ext] by (auto simp: cell_ok_def)
    from advance_cell_ok [OF ln c(1), of "int ?n - 1"] len c(2) obtain c1 where
      c1: "advance_cell ?d (s_log s') (int ?n - 1) c = (Inr (), c1)" "cell_ok s' ?d c1" "uc_seq c1 = int ?n - 1" by auto
    with d Some c(2) seq obtain c' where "observe_event True ?d e c1 = (Inr out, c')"
      by (auto simp: drive_unit_def Let_def cursor_before_int split: prod.splits)
    with final c1 show ?thesis by blast
  qed
qed

lemma drive_emissions:
  assumes ln: "log_numbered s'" and log: "s_log s' = s_log s @ [e]" and ext: "extends s s'"
    and ok: "\<forall>kr \<in> set reg. registration_ok s kr" and d: "drive True s' e reg = ((outs, err), reg')"
  shows "(\<forall>x \<in> set outs. \<exists>kr \<in> set reg. \<exists>out. x \<in> set out \<and>
      emission_ok (rg_unit (snd kr)) e (prefix_state s (length (s_log s)) (rg_unit (snd kr)))
        (prefix_state s' (length (s_log s')) (rg_unit (snd kr))) out)
    \<and> (err = None \<longrightarrow> (\<forall>kr \<in> set reg. \<exists>out. set out \<subseteq> set outs \<and>
      emission_ok (rg_unit (snd kr)) e (prefix_state s (length (s_log s)) (rg_unit (snd kr)))
        (prefix_state s' (length (s_log s')) (rg_unit (snd kr))) out))"
  using ok d
proof (induction reg arbitrary: outs err reg')
  case Nil
  then show ?case by simp
next
  case (Cons kr reg)
  obtain k r where kr: "kr = (k, r)" by (cases kr)
  obtain x r' where x: "drive_unit True s' e r = (x, r')" by (cases "drive_unit True s' e r")
  show ?case
  proof (cases x)
    case (Inl b)
    then show ?thesis using Cons.prems(2) kr x by auto
  next
    case (Inr out)
    obtain outs' err' reg'' where rest: "drive True s' e reg = ((outs', err'), reg'')" by (cases "drive True s' e reg") auto
    have "registration_ok s (k, r)" and ok': "\<forall>kr \<in> set reg. registration_ok s kr" using Cons.prems(1) kr by simp_all
    from drive_unit_emission [OF ln log ext this(1)] x Inr
    have em: "emission_ok (rg_unit (snd kr)) e (prefix_state s (length (s_log s)) (rg_unit (snd kr)))
        (prefix_state s' (length (s_log s')) (rg_unit (snd kr))) out" using kr by simp
    have outs: "outs = out @ outs'" "err = err'" using Cons.prems(2) kr x Inr rest by auto
    from Cons.IH [OF ok' rest] show ?thesis unfolding outs
      by (simp only: set_append ball_Un set_simps ball_simps bex_simps)
         (use em in \<open>blast intro: subset_trans Un_upper2\<close>)
  qed
qed

text \<open>
  Change notification is exact for a listened delivery: after an append, every emission carries
  the event's number and the validated view of the unit's new state, and, unless a schema refuses
  a view, every key whose view the event changed is among the emissions, however stale its cell was.
\<close>

theorem drive_notifies_changes:
  assumes run: "registry_run s reg" and a: "session_append now p op sources s = (Inr e, s')"
    and d: "drive True s' e reg = ((outs, err), reg')"
  shows "(\<forall>k v n. (k, v, n) \<in> set outs \<longrightarrow> n = ev_seq e \<and> (\<exists>r. map_of reg k = Some r \<and>
      view_cell (rg_unit r) (prefix_state s' (length (s_log s')) (rg_unit r)) = Inr v))
    \<and> (err = None \<longrightarrow> (\<forall>k r. map_of reg k = Some r \<longrightarrow>
        raw_view (rg_unit r) (prefix_state s' (length (s_log s')) (rg_unit r)) \<noteq>
        raw_view (rg_unit r) (prefix_state s (length (s_log s)) (rg_unit r)) \<longrightarrow> k \<in> fst ` set outs))"
proof -
  have inv: "session_inv s" "registry_ok s reg" using registry_run_inv [OF run] by auto
  have ext: "extends s s'" by (rule append_extends [OF inv(1) a])
  have log: "s_log s' = s_log s @ [e]" using session_append_log [OF inv(1) a] by simp
  have "session_inv s'" using session_append_inv [OF inv(1), of now p op sources] a by simp
  then have ln: "log_numbered s'" by (rule log_numbered_reach)
  have ok: "\<forall>kr \<in> set reg. registration_ok s kr" and dist: "distinct (map fst reg)" using inv(2) by (simp_all add: registry_ok_def)
  have key: "map_of reg (pu_key (rg_unit r)) = Some r" if "(k, r) \<in> set reg" for k r
    using ok dist that by (auto simp: registration_ok_def)
  note em = drive_emissions [OF ln log ext ok d]
  show ?thesis
  proof (intro conjI allI impI)
    fix k v n assume "(k, v, n) \<in> set outs"
    with em obtain k' r out where r: "(k', r) \<in> set reg" "(k, v, n) \<in> set out" and
      o: "emission_ok (rg_unit r) e (prefix_state s (length (s_log s)) (rg_unit r))
        (prefix_state s' (length (s_log s')) (rg_unit r)) out" by fastforce
    then show "n = ev_seq e" by (auto simp: emission_ok_def)
    from r o key [OF r(1)] show "\<exists>r. map_of reg k = Some r \<and>
        view_cell (rg_unit r) (prefix_state s' (length (s_log s')) (rg_unit r)) = Inr v" by (auto simp: emission_ok_def)
  next
    fix k r assume "err = None" "map_of reg k = Some r"
      and changed: "raw_view (rg_unit r) (prefix_state s' (length (s_log s')) (rg_unit r)) \<noteq>
        raw_view (rg_unit r) (prefix_state s (length (s_log s)) (rg_unit r))"
    then have kr: "(k, r) \<in> set reg" by (auto dest: map_of_SomeD)
    with em \<open>err = None\<close> obtain out where "set out \<subseteq> set outs" and
      "emission_ok (rg_unit r) e (prefix_state s (length (s_log s)) (rg_unit r))
        (prefix_state s' (length (s_log s')) (rg_unit r)) out" by fastforce
    with changed obtain v where "(pu_key (rg_unit r), v, ev_seq e) \<in> set outs" by (auto simp: emission_ok_def)
    moreover have "k = pu_key (rg_unit r)" using ok kr by (auto simp: registration_ok_def)
    ultimately show "k \<in> fst ` set outs" by force
  qed
qed

section \<open>Examples\<close>

definition counting_unit :: "(nat, nat) projection_unit" where
  "counting_unit = \<lparr>pu_key = ''n'', pu_version = JInt 1, pu_init = (\<lambda>_ _. 0), pu_apply = (\<lambda>n _. Some (Suc n)),
     pu_parse = Some, pu_wire = Some (\<lambda>n. n, Some)\<rparr>"

definition counting :: "(nat, nat) registry" where
  "counting = [(''n'', \<lparr>rg_unit = counting_unit, rg_cell = None, rg_refs = 1\<rparr>)]"

definition one_turn :: "session \<Rightarrow> session" where
  "one_turn s = snd (session_append 0 (TurnEnd 1 Interrupted) None None (snd (session_append 0 (TurnStart 1) None None s)))"

lemma counting_run: "registry_run s ([] :: (nat, nat) registry) \<Longrightarrow> registry_run s counting"
  by (rule registry_run.registered [of s "[]" counting_unit])
    (simp_all add: register_unit_def counting_def counting_unit_def MAX_SAFE_INTEGER_def)

lemma one_turn_example:
  obtains s where "session_reach s" and "s_log (one_turn s) = [log_event (TurnStart 1) 0, log_event (TurnEnd 1 Interrupted) 1]"
    and "session_append 0 (TurnStart 1) None None s = (Inr (log_event (TurnStart 1) 0), snd (session_append 0 (TurnStart 1) None None s))"
    and "s_log s = []"
proof -
  have "case construct_session 5 ''s'' None None SnapshotSeed None of Inl _ \<Rightarrow> False
    | Inr s \<Rightarrow> s_log s = [] \<and> s_log (one_turn s) = [log_event (TurnStart 1) 0, log_event (TurnEnd 1 Interrupted) 1]
        \<and> fst (session_append 0 (TurnStart 1) None None s) = Inr (log_event (TurnStart 1) 0)" by code_simp
  then obtain s where "construct_session 5 ''s'' None None SnapshotSeed None = Inr s" "s_log s = []"
    "s_log (one_turn s) = [log_event (TurnStart 1) 0, log_event (TurnEnd 1 Interrupted) 1]"
    "fst (session_append 0 (TurnStart 1) None None s) = Inr (log_event (TurnStart 1) 0)" by (auto split: sum.splits)
  then show ?thesis by (intro that [of s]) (auto intro: session_reach.construct simp: prod_eq_iff)
qed

lemma one_turn_run: "session_reach s \<Longrightarrow> registry_run (one_turn s) counting"
  unfolding one_turn_def by (intro counting_run registry_run.appended registry_run.opened)

definition counting_rows :: "(string \<times> nat checkpoint_row) list" where
  "counting_rows = [(''n'', \<lparr>cr_version = JInt 1, cr_seq = 1, cr_value = 2\<rparr>)]"

theorem registry_reads_fold_witness:
  "\<exists>s. fst (state_of (one_turn s) ''n'' counting) = Inr (Some 2)"
proof -
  obtain s where s: "session_reach s" "s_log (one_turn s) = [log_event (TurnStart 1) 0, log_event (TurnEnd 1 Interrupted) 1]"
    by (rule one_turn_example)
  have "fst (state_of (one_turn s) ''n'' counting) =
      Inr (map_option (\<lambda>r. prefix_state (one_turn s) (length (s_log (one_turn s))) (rg_unit r)) (map_of counting ''n''))"
    using registry_reads_fold [OF one_turn_run [OF s(1)], of "''n''"] by blast
  then show ?thesis
    using s(2) by (intro exI [of _ s])
      (simp add: counting_def counting_unit_def prefix_state_def unit_fold_def next_state_def)
qed

lemma counting_rows_facts:
  assumes "s_log (one_turn s) = [log_event (TurnStart 1) 0, log_event (TurnEnd 1 Interrupted) 1]"
  shows "rows_honest (one_turn s) counting_rows counting" and "restore_floor counting_rows counting = Some (int 1)"
    and "\<forall>d \<in> set (units_of counting). row_readable (one_turn s) d (map_of counting_rows (pu_key d))"
  using assms by (simp_all add: rows_honest_def row_honest_def row_readable_def row_current_def units_of_def counting_def
    counting_rows_def counting_unit_def prefix_state_def unit_fold_def next_state_def restore_floor_def lowest_def row_need_def)

theorem restore_succeeds_witness:
  "\<exists>s fresh. restore counting_rows (drop 1 (s_log (one_turn s))) 1 (s_header (one_turn s)) (s_inherited (one_turn s)) counting
     = Inr (\<lparr>ps_seq = 1, ps_values = [(''n'', 2)]\<rparr>, fresh)"
proof -
  obtain s where s: "session_reach s" "s_log (one_turn s) = [log_event (TurnStart 1) 0, log_event (TurnEnd 1 Interrupted) 1]"
    by (rule one_turn_example)
  have "fst (snapshot (one_turn s) None counting) = Inr \<lparr>ps_seq = 1, ps_values = [(''n'', 2)]\<rparr>"
    using s(2) by (simp add: snapshot_def counting_def counting_unit_def cell_for_def build_cell_def selects_def view_cell_def
        next_state_def cursor_before_def session_seq_of_def)
  from restore_succeeds [OF one_turn_run [OF s(1)] counting_rows_facts(1,2) [OF s(2)] _ counting_rows_facts(3) [OF s(2)] this] s(2)
  show ?thesis by (intro exI [of _ s]) (simp add: MAX_SAFE_INTEGER_def)
qed

theorem restore_equals_live_witness:
  "\<exists>s fresh. fst (checkpoint (one_turn s) counting) = Inr fresh \<and>
     restore counting_rows (drop 1 (s_log (one_turn s))) 1 (s_header (one_turn s)) (s_inherited (one_turn s)) counting
     = Inr (\<lparr>ps_seq = 1, ps_values = [(''n'', 2)]\<rparr>, fresh)"
proof -
  obtain s where s: "session_reach s" "s_log (one_turn s) = [log_event (TurnStart 1) 0, log_event (TurnEnd 1 Interrupted) 1]"
    by (rule one_turn_example)
  have r: "restore counting_rows (drop 1 (s_log (one_turn s))) 1 (s_header (one_turn s)) (s_inherited (one_turn s)) counting
     = Inr (\<lparr>ps_seq = 1, ps_values = [(''n'', 2)]\<rparr>, [(''n'', \<lparr>cr_version = JInt 1, cr_seq = 1, cr_value = 2\<rparr>)])"
    using s(2) by (simp add: restore_def restore_unit_def counting_def counting_unit_def counting_rows_def row_usable_def
        row_current_def cursor_before_def end_cursor_def last_opt_def view_cell_def Let_def log_event_def)
  from restore_equals_live [OF one_turn_run [OF s(1)] counting_rows_facts(1,2) [OF s(2)]] r show ?thesis by auto
qed

theorem drive_notifies_changes_witness:
  "\<exists>s s' e outs reg'. session_append 0 (TurnStart 1) None None s = (Inr e, s') \<and>
     drive True s' e counting = ((outs, None), reg') \<and> ''n'' \<in> fst ` set outs"
proof -
  obtain s where s: "session_reach s" "s_log s = []"
    "session_append 0 (TurnStart 1) None None s = (Inr (log_event (TurnStart 1) 0), snd (session_append 0 (TurnStart 1) None None s))"
    by (rule one_turn_example)
  let ?e = "log_event (TurnStart 1) 0" and ?s' = "snd (session_append 0 (TurnStart 1) None None s)"
  have inv: "session_inv s" by (rule session_reach_inv [OF s(1)])
  have run: "registry_run s counting" by (intro counting_run registry_run.opened s(1))
  have log: "s_log ?s' = [?e]" using session_append_log [OF inv s(3)] s(2) by simp
  obtain outs reg' where d: "drive True ?s' ?e counting = ((outs, None), reg')"
    by (simp add: counting_def counting_unit_def drive_unit_def observe_event_def build_cell_def slice_def log log_event_def Let_def)
  from drive_notifies_changes [OF run s(3) d] have "''n'' \<in> fst ` set outs"
    by (simp add: counting_def counting_unit_def raw_view_def prefix_state_def unit_fold_def next_state_def log s(2))
  with s(3) d show ?thesis by blast
qed

end
