(* ===== verification/Goal_Projection.thy ===== *)
theory Goal_Projection
  imports Goal_Service Session_Projection
begin

text \<open>
  The goal package's projection unit (\<open>goalProjectionDefinition\<close> in
  \<open>packages/goal/goal/src/index.ts\<close>) as a unit of the projection registry
  (\<open>packages/session/session-projection/src/index.ts\<close>): what the goal service reads through
  \<open>stateOf\<close>, and what becomes of a goal checkpoint.
\<close>

definition goal_schema :: "goal_projection option \<Rightarrow> goal_projection option option" where
  "goal_schema v = (case v of None \<Rightarrow> Some v | Some c \<Rightarrow> if projection_schema c then Some v else None)"

definition goal_unit :: "(goal_state, goal_projection option) projection_unit" where
  "goal_unit =
     \<lparr>pu_key = ''goal'', pu_version = JInt 6, pu_init = (\<lambda>_ _. init_goal_state),
      pu_apply = (\<lambda>p e. if gp_failure p \<noteq> None \<or> \<not> goal_relevant e then None else Some (apply_goal_projection e p)),
      pu_parse = (\<lambda>p. if state_schema p then Some p else None),
      pu_wire = Some (gp_current, goal_schema)\<rparr>"

lemma goal_unit_simps [simp]:
  "pu_key goal_unit = ''goal''" "pu_version goal_unit = JInt 6" "pu_wire goal_unit = Some (gp_current, goal_schema)"
  "pu_init goal_unit h n = init_goal_state" "pu_parse goal_unit p = (if state_schema p then Some p else None)"
  by (simp_all add: goal_unit_def)

lemma goal_unit_step: "next_state goal_unit p e = apply_goal_projection e p"
  by (simp add: next_state_def goal_unit_def apply_goal_projection_def)

lemma goal_unit_state: "prefix_state s n goal_unit = project_goal (take n (s_log s))"
  by (simp add: prefix_state_def unit_fold_def project_goal_def foldl_conv_fold goal_unit_step)

text \<open>
  What the goal service reads: once the goal unit is registered, the registry answers the
  service's read with the projection of the whole log, whatever was delivered before, so the
  service's check and the strict fold never disagree about the current goal.
\<close>

theorem goal_read_is_projection:
  assumes "registry_run s reg" and "map_of reg ''goal'' = Some r" and "rg_unit r = goal_unit"
  shows "fst (state_of s ''goal'' reg) = Inr (Some (project_goal (s_log s)))"
proof -
  have inv: "log_numbered s" "registry_ok s reg" using registry_run_inv [OF assms(1)] log_numbered_reach by auto
  show ?thesis using reads_are_folds(1) [OF inv, of "''goal''"] assms(2,3) by (simp add: goal_unit_state)
qed

definition goal_registry :: "(goal_state, goal_projection option) registry" where
  "goal_registry = [(''goal'', \<lparr>rg_unit = goal_unit, rg_cell = None, rg_refs = 1\<rparr>)]"

lemma goal_registry_run: "session_reach s \<Longrightarrow> registry_run s goal_registry"
  by (rule registry_run.registered [OF registry_run.opened, of s goal_unit])
    (simp_all add: register_unit_def goal_registry_def MAX_SAFE_INTEGER_def)

lemma goal_registry_checkpoint:
  assumes "session_reach s"
  shows "fst (checkpoint s goal_registry) = Inr [(''goal'', \<lparr>cr_version = JInt 6, cr_seq = int (length (s_log s)) - 1,
    cr_value = project_goal (s_log s)\<rparr>)]"
proof -
  have inv: "log_numbered s" "registry_ok s goal_registry"
    using registry_run_inv [OF goal_registry_run [OF assms]] log_numbered_reach by auto
  show ?thesis using reads_are_folds(3) [OF inv] goal_unit_state [of s "length (s_log s)"]
    by (simp add: units_of_def goal_registry_def prefix_row_def)
qed

text \<open>
  A goal checkpoint reads back exactly when the state it holds passes its own schema: with
  the log unchanged, restoring the registry's own checkpoint fails with the schema's error for a state
  the schema refuses, and otherwise gives back the projection.
\<close>

theorem goal_checkpoint_restores_iff:
  assumes reach: "session_reach s" and rows: "fst (checkpoint s goal_registry) = Inr rows"
    and floor: "restore_floor rows goal_registry = Some (int base)" and small: "int (length (s_log s)) \<le> MAX_SAFE_INTEGER"
    and view: "goal_schema (gp_current (project_goal (s_log s))) \<noteq> None"
  shows "(if state_schema (project_goal (s_log s))
     then \<exists>shot. restore rows (drop base (s_log s)) base (s_header s) (s_inherited s) goal_registry = Inr (shot, rows)
     else restore rows (drop base (s_log s)) base (s_header s) (s_inherited s) goal_registry = Inl (StateSchema ''goal''))"
proof -
  let ?n = "length (s_log s)" and ?p = "project_goal (s_log s)"
  let ?row = "\<lparr>cr_version = JInt 6, cr_seq = int ?n - 1, cr_value = ?p\<rparr>"
  have rows': "rows = [(''goal'', ?row)]" using rows goal_registry_checkpoint [OF reach] by simp
  have base: "int base = max (int ?n - 1) 0"
    using floor by (simp add: rows' restore_floor_def goal_registry_def lowest_def row_need_def row_current_def)
  have ln: "log_numbered s" by (rule log_numbered_reach [OF session_reach_inv [OF reach]])
  have le: "base \<le> ?n" using base by auto
  have ec: "end_cursor base (drop base (s_log s)) = int ?n - 1" using end_cursor_slice [OF ln le order.refl] by simp
  have usable: "row_usable goal_unit base (drop base (s_log s)) (Some ?row)"
    using base by (simp add: row_usable_def row_current_def ec cursor_before_int)
  have "drop (nat (int ?n - 1 - int base + 1)) (drop base (s_log s)) = []" using base by auto
  then have unit: "restore_unit goal_unit (Some ?row) (drop base (s_log s)) base (s_header s) (s_inherited s) =
      (if state_schema ?p then Inr ?p else Inl (StateSchema ''goal''))"
    using usable by (simp add: restore_unit_def Let_def)
  from view obtain v where "view_cell goal_unit ?p = Inr v" by (auto simp: view_cell_def)
  then show ?thesis using unit ec by (simp add: restore_def rows' goal_registry_def Let_def)
qed

section \<open>Examples\<close>

theorem goal_read_is_projection_witness:
  "\<exists>s. s_log s = round_log \<and> fst (state_of s ''goal'' goal_registry) = Inr (Some (checkpoint_of round_state))"
proof -
  obtain s where s: "construct_session 0 ''s'' (Some round_log) None SnapshotSeed None = Inr s" "s_log s = round_log"
    using round_session by blast
  have "fst (state_of s ''goal'' goal_registry) = Inr (Some (project_goal (s_log s)))"
    by (rule goal_read_is_projection [OF goal_registry_run [OF session_reach.construct [OF s(1)]]])
      (simp add: goal_registry_def, simp)
  then show ?thesis using s(2) project_goal_ok [OF round_log_replays] by auto
qed

theorem goal_checkpoint_restores_iff_witness:
  "\<exists>s rows shot. fst (checkpoint s goal_registry) = Inr rows \<and>
     restore rows (drop 3 (s_log s)) 3 (s_header s) (s_inherited s) goal_registry = Inr (shot, rows)"
proof -
  obtain s where s: "construct_session 0 ''s'' (Some round_log) None SnapshotSeed None = Inr s" "s_log s = round_log"
    using round_session by blast
  have reach: "session_reach s" by (rule session_reach.construct [OF s(1)])
  have p: "project_goal (s_log s) = checkpoint_of round_state" using s(2) project_goal_ok [OF round_log_replays] by simp
  have n: "length (s_log s) = 4" using s(2) by (simp add: round_log_def)
  obtain rows where rows: "fst (checkpoint s goal_registry) = Inr rows"
    "rows = [(''goal'', \<lparr>cr_version = JInt 6, cr_seq = 3, cr_value = checkpoint_of round_state\<rparr>)]"
    using goal_registry_checkpoint [OF reach] p n by simp
  have ok: "state_schema (checkpoint_of round_state)" "goal_schema (gp_current (checkpoint_of round_state)) \<noteq> None"
    by (simp_all add: state_schema_def checkpoint_of_def round_state_def example_goal_def projection_schema_def goal_schema_def)
  have "restore_floor rows goal_registry = Some (int 3)"
    by (simp add: rows(2) restore_floor_def goal_registry_def lowest_def row_need_def row_current_def)
  from goal_checkpoint_restores_iff [OF reach rows(1) this] p ok n rows(1) show ?thesis
    by (auto simp: MAX_SAFE_INTEGER_def)
qed

end
