(* ===== verification/Token_Estimate.thy ===== *)
theory Token_Estimate
  imports Request_Header Surface
begin

text \<open>
  \<open>packages/llm/token-meter/src/estimate.ts\<close> and \<open>surface-fold.ts\<close>: the fixed-density prices of
  content blocks, messages and request envelopes, and the priced surface that follows the log's
  surface node by node. \<open>JSON.stringify\<close> is modelled on JSON trees; the text of a fraction or of an
  integer past twenty-one digits is the argument \<open>nt\<close>, since its digits are the engine's.
\<close>

section \<open>The JSON text of a value\<close>

definition hex_digit :: "nat \<Rightarrow> char" where
  "hex_digit k = ''0123456789abcdef'' ! k"

definition escaped_char :: "char \<Rightarrow> string" where
  "escaped_char c =
     (let n = of_char c :: nat; esc = (\<lambda>d. [CHR 0x5C, d]) in
      if c = CHR 0x22 \<or> c = CHR 0x5C then esc c
      else if n = 8 then esc (CHR ''b'')
      else if n = 9 then esc (CHR ''t'')
      else if n = 10 then esc (CHR ''n'')
      else if n = 12 then esc (CHR ''f'')
      else if n = 13 then esc (CHR ''r'')
      else if n < 32 then esc (CHR ''u'') @ ''00'' @ [hex_digit (n div 16), hex_digit (n mod 16)]
      else [c])"

definition quoted :: "string \<Rightarrow> string" where
  "quoted s = [CHR 0x22] @ concat (map escaped_char s) @ [CHR 0x22]"

fun comma_separated :: "string list \<Rightarrow> string" where
  "comma_separated [] = []"
| "comma_separated [x] = x"
| "comma_separated (x # xs) = x @ '','' @ comma_separated xs"

fun number_text :: "(jnum \<Rightarrow> string) \<Rightarrow> jnum \<Rightarrow> string" where
  "number_text nt (JInt i) = (if \<bar>i\<bar> < 10 ^ 21 then show_int i else nt (JInt i))"
| "number_text nt JNegZero = ''0''"
| "number_text nt (JFrac q) = nt (JFrac q)"

fun json_text :: "(jnum \<Rightarrow> string) \<Rightarrow> json \<Rightarrow> string" where
  "json_text nt JNull = ''null''"
| "json_text nt (JBool b) = (if b then ''true'' else ''false'')"
| "json_text nt (JNum n) = number_text nt n"
| "json_text nt (JStr s) = quoted s"
| "json_text nt (JArr xs) = ''['' @ comma_separated (map (json_text nt) xs) @ '']''"
| "json_text nt (JObj kvs) =
     ''{'' @ comma_separated (map (\<lambda>kv. quoted (fst kv) @ '':'' @ json_text nt (snd kv)) kvs) @ ''}''"

section \<open>Prices\<close>

definition CHARS_PER_TOKEN :: nat where
  "CHARS_PER_TOKEN = 4"

definition BLOCK_OVERHEAD :: nat where
  "BLOCK_OVERHEAD = 4"

definition ROLE_OVERHEAD :: nat where
  "ROLE_OVERHEAD = 4"

text \<open>\<open>Math.ceil(length / CHARS_PER_TOKEN)\<close>\<close>

definition density :: "string \<Rightarrow> nat" where
  "density s = (length s + CHARS_PER_TOKEN - 1) div CHARS_PER_TOKEN"

definition estimate_structural_block :: "(jnum \<Rightarrow> string) \<Rightarrow> content_block \<Rightarrow> nat" where
  "estimate_structural_block nt b = BLOCK_OVERHEAD + density (json_text nt (block_json b))"

fun estimate_block :: "(jnum \<Rightarrow> string) \<Rightarrow> content_block \<Rightarrow> nat" where
  "estimate_block nt (TextBlock t) = density t + BLOCK_OVERHEAD"
| "estimate_block nt (ReasoningBlock t) = density t + BLOCK_OVERHEAD"
| "estimate_block nt (ToolCallBlock i n a) = density n + density a + BLOCK_OVERHEAD"
| "estimate_block nt (ToolResultBlock i bs e) = sum_list (map (estimate_block nt) bs) + BLOCK_OVERHEAD"
| "estimate_block nt (ImageBlock a) = estimate_structural_block nt (ImageBlock a)"
| "estimate_block nt (OtherBlock t rest) = estimate_structural_block nt (OtherBlock t rest)"

definition estimate_content :: "(jnum \<Rightarrow> string) \<Rightarrow> content_block list \<Rightarrow> nat" where
  "estimate_content nt bs = sum_list (map (estimate_block nt) bs)"

fun message_content :: "message \<Rightarrow> content_block list" where
  "message_content (UserMessage m) = um_content m"
| "message_content (AssistantMessage m) = am_content m"
| "message_content (ToolResultMessage m) = [ToolResultBlock (tr_block_call_id m) (tr_content m) (tr_is_error m)]"

definition estimate_message :: "(jnum \<Rightarrow> string) \<Rightarrow> message \<Rightarrow> nat" where
  "estimate_message nt m = estimate_content nt (message_content m) + ROLE_OVERHEAD"

definition estimate_system_tokens :: "epoch_header option \<Rightarrow> nat" where
  "estimate_system_tokens h =
     (case Option.bind h eh_system of None \<Rightarrow> 0 | Some s \<Rightarrow> density s + ROLE_OVERHEAD)"

definition estimate_tools_tokens :: "(jnum \<Rightarrow> string) \<Rightarrow> epoch_header option \<Rightarrow> nat" where
  "estimate_tools_tokens nt h =
     (case Option.bind h eh_tools of
        None \<Rightarrow> 0
      | Some ts \<Rightarrow> if ts = [] then 0 else density (json_text nt (JArr (map schema_json ts))) + BLOCK_OVERHEAD)"

definition estimate_header :: "(jnum \<Rightarrow> string) \<Rightarrow> epoch_header option \<Rightarrow> nat" where
  "estimate_header nt h = estimate_system_tokens h + estimate_tools_tokens nt h"

section \<open>The priced surface\<close>

record meter_node =
  mn_seq :: nat
  mn_heuristic :: nat
  mn_image_free :: int
  mn_images :: "json list"

datatype token_target = TargetAppend | TargetReplace nat nat

record token_plan =
  tp_tokens :: nat
  tp_delta :: int
  tp_node :: meter_node
  tp_target :: token_target

datatype token_error = InvalidTokenRange nat json

text \<open>The images of a list of blocks, in order, and the total of their structural prices.\<close>

fun collect_block :: "(jnum \<Rightarrow> string) \<Rightarrow> content_block \<Rightarrow> json list \<times> nat" where
  "collect_block nt (ImageBlock a) = ([a], estimate_structural_block nt (ImageBlock a))"
| "collect_block nt (ToolResultBlock i bs e) =
     (concat (map (\<lambda>b. fst (collect_block nt b)) bs), sum_list (map (\<lambda>b. snd (collect_block nt b)) bs))"
| "collect_block nt _ = ([], 0)"

definition collect_images :: "(jnum \<Rightarrow> string) \<Rightarrow> content_block list \<Rightarrow> json list \<times> nat" where
  "collect_images nt bs =
     (concat (map (\<lambda>b. fst (collect_block nt b)) bs), sum_list (map (\<lambda>b. snd (collect_block nt b)) bs))"

definition analyze_node :: "(jnum \<Rightarrow> string) \<Rightarrow> nat \<Rightarrow> message option \<Rightarrow> meter_node" where
  "analyze_node nt n m =
     (case m of
        None \<Rightarrow> \<lparr>mn_seq = n, mn_heuristic = 0, mn_image_free = 0, mn_images = []\<rparr>
      | Some msg \<Rightarrow>
          let (images, structural) = collect_images nt (message_content msg); h = estimate_message nt msg
          in \<lparr>mn_seq = n, mn_heuristic = h, mn_image_free = int h - int structural, mn_images = images\<rparr>)"

text \<open>\<open>nodes.findIndex(candidate => candidate.seq === seq)\<close> for a coordinate of a stored operation.\<close>

definition find_node :: "json option \<Rightarrow> meter_node list \<Rightarrow> nat option" where
  "find_node j ns =
     (case j of
        Some (JNum (JInt i)) \<Rightarrow> if 0 \<le> i then index_of (nat i) (map mn_seq ns) else None
      | Some (JNum JNegZero) \<Rightarrow> index_of 0 (map mn_seq ns)
      | _ \<Rightarrow> None)"

definition heuristic_sum :: "meter_node list \<Rightarrow> nat" where
  "heuristic_sum ns = sum_list (map mn_heuristic ns)"

definition event_node :: "(jnum \<Rightarrow> string) \<Rightarrow> session_event \<Rightarrow> meter_node" where
  "event_node nt e = analyze_node nt (ev_seq e) (derive_event_message e)"

definition plan_surface_tokens ::
    "(jnum \<Rightarrow> string) \<Rightarrow> meter_node list \<Rightarrow> session_event \<Rightarrow> json \<Rightarrow> (token_error, token_plan) result" where
  "plan_surface_tokens nt ns e op =
     (let n = event_node nt e; t = mn_heuristic n in
      if op = append_op then Inr \<lparr>tp_tokens = t, tp_delta = int t, tp_node = n, tp_target = TargetAppend\<rparr>
      else case (find_node (jget ''start'' op) ns, find_node (jget ''end'' op) ns) of
        (Some i, Some j) \<Rightarrow>
          if i > j then Inl (InvalidTokenRange (ev_seq e) op)
          else Inr \<lparr>tp_tokens = t, tp_delta = int t - int (heuristic_sum (slice i (j + 1) ns)), tp_node = n,
                    tp_target = TargetReplace i j\<rparr>
      | _ \<Rightarrow> Inl (InvalidTokenRange (ev_seq e) op))"

definition commit_surface_tokens :: "token_plan \<Rightarrow> meter_node list \<Rightarrow> meter_node list" where
  "commit_surface_tokens p ns =
     (case tp_target p of
        TargetAppend \<Rightarrow> ns @ [tp_node p]
      | TargetReplace i j \<Rightarrow> splice i (j - i + 1) [tp_node p] ns)"

text \<open>The plan of an event, if it is one of the surface.\<close>

definition event_plan ::
    "(jnum \<Rightarrow> string) \<Rightarrow> meter_node list \<Rightarrow> session_event \<Rightarrow> (token_error, token_plan option) result" where
  "event_plan nt ns e =
     (if is_surface_event e
      then and_then (plan_surface_tokens nt ns e (the (ev_surface_op e))) (\<lambda>p. Inr (Some p))
      else Inr None)"

definition commit_plan :: "token_plan option \<Rightarrow> meter_node list \<Rightarrow> meter_node list" where
  "commit_plan p ns = (case p of None \<Rightarrow> ns | Some q \<Rightarrow> commit_surface_tokens q ns)"

section \<open>Images are priced apart\<close>

fun without_images :: "content_block \<Rightarrow> content_block list" where
  "without_images (ImageBlock a) = []"
| "without_images (ToolResultBlock i bs e) = [ToolResultBlock i (concat (map without_images bs)) e]"
| "without_images b = [b]"

lemma estimate_content_simps [simp]:
  "estimate_content nt [] = 0" "estimate_content nt (b # bs) = estimate_block nt b + estimate_content nt bs"
  "estimate_content nt (as @ bs) = estimate_content nt as + estimate_content nt bs"
  by (simp_all add: estimate_content_def)

lemma estimate_concat: "estimate_content nt (concat (map f bs)) = sum_list (map (\<lambda>b. estimate_content nt (f b)) bs)"
  by (induction bs) simp_all

lemma sum_list_split: "(\<And>b. b \<in> set bs \<Longrightarrow> (f b :: nat) = g b + h b) \<Longrightarrow>
  sum_list (map f bs) = sum_list (map g bs) + sum_list (map h bs)"
  by (induction bs) simp_all

lemma estimate_block_split:
  "estimate_block nt b = estimate_content nt (without_images b) + snd (collect_block nt b)"
proof (induction b rule: without_images.induct)
  case (2 i bs e)
  then have "sum_list (map (estimate_block nt) bs) =
      sum_list (map (\<lambda>b. estimate_content nt (without_images b)) bs) + sum_list (map (\<lambda>b. snd (collect_block nt b)) bs)"
    by (intro sum_list_split) simp
  moreover have "sum_list (map (\<lambda>b. estimate_content nt (without_images b)) bs) =
      sum_list (map (estimate_block nt) (concat (map without_images bs)))"
    by (induction bs) (simp_all add: estimate_content_def)
  ultimately show ?case by simp
qed simp_all

lemma estimate_content_split:
  "estimate_content nt bs = estimate_content nt (concat (map without_images bs)) + snd (collect_images nt bs)"
  unfolding estimate_concat collect_images_def snd_conv
  using sum_list_split [of bs "estimate_block nt" "\<lambda>b. estimate_content nt (without_images b)" "\<lambda>b. snd (collect_block nt b)"]
  by (simp add: estimate_block_split estimate_content_def [of nt bs])

text \<open>
  A node's image-free price is exactly the price of its message with every image left out, at
  any depth of nested results, so it is never negative; a message without images is priced the same either way.
\<close>

theorem image_free_exact:
  "mn_image_free (analyze_node nt n (Some m)) = int (estimate_content nt (concat (map without_images (message_content m))) + ROLE_OVERHEAD)
   \<and> (mn_images (analyze_node nt n (Some m)) = [] \<longrightarrow> mn_image_free (analyze_node nt n (Some m)) = int (mn_heuristic (analyze_node nt n (Some m))))"
proof -
  have none: "fst (collect_block nt b) = [] \<Longrightarrow> snd (collect_block nt b) = 0" for b
    by (induction nt b rule: collect_block.induct) auto
  have "fst (collect_images nt (message_content m)) = [] \<Longrightarrow> snd (collect_images nt (message_content m)) = 0"
    using none by (auto simp: collect_images_def)
  then show ?thesis
    using estimate_content_split [of nt "message_content m"]
    by (auto simp: analyze_node_def estimate_message_def Let_def case_prod_unfold)
qed

section \<open>The priced surface is the surface\<close>

definition token_step :: "(jnum \<Rightarrow> string) \<Rightarrow> session_event \<Rightarrow> meter_node list \<Rightarrow> (token_error, meter_node list) result" where
  "token_step nt e ns = and_then (event_plan nt ns e) (\<lambda>p. Inr (commit_plan p ns))"

definition priced_nodes :: "(jnum \<Rightarrow> string) \<Rightarrow> session_event list \<Rightarrow> nat list \<Rightarrow> meter_node list" where
  "priced_nodes nt es ns = map (\<lambda>n. analyze_node nt n (derive_event_message (es ! n))) ns"

lemma analyze_node_seq [simp]: "mn_seq (analyze_node nt n m) = n"
  by (simp add: analyze_node_def Let_def case_prod_unfold split: option.split)

lemma priced_nodes_seqs [simp]: "map mn_seq (priced_nodes nt es ns) = ns"
  by (simp add: priced_nodes_def comp_def)

lemma priced_nodes_extend:
  "\<forall>n \<in> set ns. n < length es \<Longrightarrow> priced_nodes nt (es @ fs) ns = priced_nodes nt es ns"
  by (simp add: priced_nodes_def nth_append)

lemma splice_map: "splice i n (map f ins) (map f xs) = map f (splice i n ins xs)"
  by (simp add: splice_def take_map drop_map)

lemma slice_map: "slice i n (map f xs) = map f (slice i n xs)"
  by (simp add: slice_def take_map drop_map)

lemma find_node_nat: "find_node (Some (jint (int s))) (priced_nodes nt es ns) = index_of s ns"
  by (simp add: find_node_def)

lemma replace_op_of_coords:
  "replace_op_of op = Some (s, t) \<Longrightarrow> jget ''start'' op = Some (jint (int s)) \<and> jget ''end'' op = Some (jint (int t))"
  by (auto simp: replace_op_of_def safe_nat_Some_iff split: if_splits option.splits)

lemma surface_op_of_Inr:
  assumes "surface_op_of e = Inr x"
  shows "case x of
      None \<Rightarrow> \<not> is_surface_eligible_type (ev_type e) \<and> ev_surface_op e = None
    | Some AppendOp \<Rightarrow> is_surface_eligible_type (ev_type e) \<and> ev_surface_op e = Some append_op
    | Some (ReplaceOp s t) \<Rightarrow> is_surface_eligible_type (ev_type e) \<and>
        (\<exists>op. ev_surface_op e = Some op \<and> op \<noteq> append_op \<and> replace_op_of op = Some (s, t))"
  using assms by (auto simp: surface_op_of_def split: if_splits option.splits)

text \<open>One accepted event, with its operation as stored.\<close>

lemma fold_window_step:
  assumes "fold_window 0 (es @ [e]) = Inr (st, reps)"
  obtains (off) st0 reps0 where "fold_window 0 es = Inr (st0, reps0)" "ev_seq e = length es" "\<not> is_surface_event e" "nodes st = nodes st0"
  | (app) st0 reps0 where "fold_window 0 es = Inr (st0, reps0)" "ev_seq e = length es" "is_surface_event e"
      "ev_surface_op e = Some append_op" "nodes st = nodes st0 @ [length es]"
  | (repl) st0 reps0 op s t i j where "fold_window 0 es = Inr (st0, reps0)" "ev_seq e = length es" "is_surface_event e"
      "ev_surface_op e = Some op" "op \<noteq> append_op" "replace_op_of op = Some (s, t)"
      "index_of s (nodes st0) = Some i" "index_of t (nodes st0) = Some j" "i \<le> j"
      "nodes st = splice i (j - i + 1) [length es] (nodes st0)"
proof -
  from assms obtain st0 reps0 r where f: "fold_window 0 es = Inr (st0, reps0)"
    and a: "apply_surface_event st0 e (length es) (es @ [e]) 0 = Inr (st, r)"
    by (auto simp: fold_window_snoc and_then_Inr_iff)
  then obtain p where p: "plan_surface_event st0 e (length es) (es @ [e]) 0 = Inr p" and st: "apply_surface_plan st0 p = (st, r)"
    by (auto simp: apply_surface_event_def and_then_Inr_iff)
  from p obtain x where x: "surface_op_of e = Inr x" and seq: "ev_seq e = length es"
    by (auto simp: plan_surface_event_def and_then_Inr_iff split: if_splits)
  note op = surface_op_of_Inr [OF x]
  show ?thesis
  proof (cases x)
    case None
    with p x seq st op f off show ?thesis by (simp add: plan_surface_event_def is_surface_event_def)
  next
    case (Some y)
    show ?thesis
    proof (cases y)
      case AppendOp
      with p x seq Some have "p = Some (PlanAppend (length es))" by (auto simp: plan_surface_event_def and_then_Inr_iff)
      with st op f app Some AppendOp seq show ?thesis by (auto simp: is_surface_event_def)
    next
      case (ReplaceOp s t)
      with p x seq Some obtain i j sh where r: "replacement_range st0 s t = Inr (i, j, sh)"
        "p = Some (PlanReplace \<lparr>rep_seq = length es, rep_start = s, rep_end = t, rep_shadowed = sh\<rparr> i j)"
        by (auto simp: plan_surface_event_def and_then_Inr_iff)
      from r(1) have "index_of s (nodes st0) = Some i" "index_of t (nodes st0) = Some j" "i \<le> j"
        by (auto simp: replacement_range_def split: option.splits if_splits)
      moreover from op Some ReplaceOp obtain sop where "is_surface_event e" "ev_surface_op e = Some sop"
        "sop \<noteq> append_op" "replace_op_of sop = Some (s, t)" by (auto simp: is_surface_event_def)
      moreover from st r(2) have "nodes st = splice i (j - i + 1) [length es] (nodes st0)" by auto
      ultimately show ?thesis using repl f seq by blast
    qed
  qed
qed

lemma event_node_priced: "ev_seq e = length es \<Longrightarrow> event_node nt e = analyze_node nt (length es) (derive_event_message ((es @ [e]) ! length es))"
  by (simp add: event_node_def)

lemma token_plan_replace:
  assumes "replace_op_of op = Some (s, t)" and "op \<noteq> append_op" and "index_of s ns = Some i" and "index_of t ns = Some j" and "i \<le> j"
  shows "plan_surface_tokens nt (priced_nodes nt es ns) e op =
     Inr \<lparr>tp_tokens = mn_heuristic (event_node nt e),
          tp_delta = int (mn_heuristic (event_node nt e)) - int (heuristic_sum (priced_nodes nt es (slice i (j + 1) ns))),
          tp_node = event_node nt e, tp_target = TargetReplace i j\<rparr>"
proof -
  have "slice i (j + 1) (priced_nodes nt es ns) = priced_nodes nt es (slice i (j + 1) ns)"
    by (simp add: priced_nodes_def slice_map)
  then show ?thesis using assms replace_op_of_coords [OF assms(1)]
    by (simp add: plan_surface_tokens_def find_node_nat Let_def)
qed

lemma token_step_mirrors:
  assumes "fold_window 0 (es @ [e]) = Inr (st, reps)" and "fold_window 0 es = Inr (st0, reps0)"
  shows "token_step nt e (priced_nodes nt es (nodes st0)) = Inr (priced_nodes nt (es @ [e]) (nodes st))"
proof -
  have within: "\<forall>n \<in> set (nodes st0). n < length es"
    using fold_window_nodes_within [OF assms(2)] by (auto simp: nodes_within_def)
  note keep = priced_nodes_extend [OF within, of nt "[e]"]
  from assms(1) show ?thesis
  proof (cases rule: fold_window_step)
    case (off st1 reps1)
    then show ?thesis using assms(2) keep by (simp add: token_step_def event_plan_def commit_plan_def)
  next
    case (app st1 reps1)
    then show ?thesis using assms(2) keep
      by (simp add: token_step_def event_plan_def commit_plan_def plan_surface_tokens_def commit_surface_tokens_def
          event_node_priced priced_nodes_def Let_def)
  next
    case (repl st1 reps1 op s t i j)
    have "priced_nodes nt (es @ [e]) (splice i (j - i + 1) [length es] (nodes st0)) =
        splice i (j - i + 1) (priced_nodes nt (es @ [e]) [length es]) (priced_nodes nt (es @ [e]) (nodes st0))"
      unfolding priced_nodes_def by (rule splice_map [symmetric])
    also have "\<dots> = splice i (j - i + 1) [event_node nt e] (priced_nodes nt es (nodes st0))"
      unfolding keep using repl(2) by (simp add: priced_nodes_def event_node_priced)
    finally show ?thesis using repl assms(2) token_plan_replace [OF repl(6,5,7-9), of nt es e]
      by (simp add: token_step_def event_plan_def commit_plan_def commit_surface_tokens_def)
  qed
qed

text \<open>
  The priced surface mirrors the model-visible surface: on every log the surface fold accepts,
  pricing event by event never fails, and gives one node per surface node, in order, each priced from
  its own event's message, whatever replacements happened in between.
\<close>

theorem token_surface_mirrors:
  assumes "fold_surface es = Inr (ns, reps)"
  shows "fold_result (token_step nt) es [] = Inr (priced_nodes nt es ns)"
proof -
  have "fold_window 0 es = Inr (st, reps) \<Longrightarrow> fold_result (token_step nt) es [] = Inr (priced_nodes nt es (nodes st))" for st reps
  proof (induction es arbitrary: st reps rule: rev_induct)
    case Nil
    then show ?case by (auto simp: create_fold_state_def priced_nodes_def)
  next
    case (snoc e es)
    from snoc.prems obtain st0 reps0 where f: "fold_window 0 es = Inr (st0, reps0)"
      by (auto simp: fold_window_snoc and_then_Inr_iff)
    from snoc.IH [OF this] token_step_mirrors [OF snoc.prems f] show ?case by (simp add: fold_result_snoc)
  qed
  then show ?thesis using assms by (auto simp: fold_surface_def and_then_Inr_iff)
qed

theorem token_surface_mirrors_witness:
  "fold_result (token_step (\<lambda>_. [])) surface_example [] = Inr (priced_nodes (\<lambda>_. []) surface_example [0, 3])"
  by (rule token_surface_mirrors [OF fold_surface_example])

theorem image_free_exact_witness:
  "mn_image_free (analyze_node (\<lambda>_. []) 0 (Some (UserMessage \<lparr>um_id = ''m'', um_content = [TextBlock ''hello'', ImageBlock JNull], um_source = UserSource\<rparr>))) = 10
   \<and> mn_images (analyze_node (\<lambda>_. []) 0 (Some (UserMessage \<lparr>um_id = ''m'', um_content = [TextBlock ''hello'', ImageBlock JNull], um_source = UserSource\<rparr>))) = [JNull]"
  using image_free_exact [of "\<lambda>_. []" 0 "UserMessage \<lparr>um_id = ''m'', um_content = [TextBlock ''hello'', ImageBlock JNull], um_source = UserSource\<rparr>"]
  by (simp add: density_def CHARS_PER_TOKEN_def BLOCK_OVERHEAD_def ROLE_OVERHEAD_def analyze_node_def collect_images_def Let_def)

end
