(* ===== verification/Token_Projection.thy ===== *)
theory Token_Projection
  imports Token_Estimate
begin

text \<open>
  \<open>packages/llm/token-meter/src/surface-projection.ts\<close>, \<open>breakdown-projection.ts\<close> and
  \<open>usage-projection.ts\<close>: the bounded folds the meter registers as projections. The running surface
  total keeps no prices of single nodes: a replacement takes its price from the metering event right
  before it. A shadow price is an integer, as the compaction companion requires.
\<close>

section \<open>The running surface total\<close>

record price_claim =
  pc_start :: nat
  pc_end :: nat
  pc_tokens :: int

datatype claim_error = ClaimCursor brand_error | ClaimMismatch nat json price_claim

definition arm_claim :: "shadowed_span \<Rightarrow> (claim_error, price_claim) result" where
  "arm_claim sp =
     and_then (rethrow ClaimCursor (session_seq (span_start sp))) (\<lambda>s.
     and_then (rethrow ClaimCursor (session_seq (span_end sp))) (\<lambda>t.
       Inr \<lparr>pc_start = s, pc_end = t, pc_tokens = jnum_int (span_tokens sp)\<rparr>))"

text \<open>The span of a metering event.\<close>

definition metering_span :: "session_event \<Rightarrow> shadowed_span option" where
  "metering_span e =
     (case ev_payload e of
        CompactionSummary c \<Rightarrow> Some (cm_span c)
      | CompactionPrune s \<Rightarrow> Some s
      | _ \<Rightarrow> None)"

text \<open>\<open>===\<close> between a property and a number.\<close>

definition num_is :: "json option \<Rightarrow> int \<Rightarrow> bool" where
  "num_is j i \<longleftrightarrow> (case j of Some (JNum x) \<Rightarrow> num_eq x (JInt i) | _ \<Rightarrow> False)"

definition event_tokens :: "(jnum \<Rightarrow> string) \<Rightarrow> session_event \<Rightarrow> nat" where
  "event_tokens nt e = (case derive_event_message e of None \<Rightarrow> 0 | Some m \<Rightarrow> estimate_message nt m)"

definition fold_surface_projection ::
    "(jnum \<Rightarrow> string) \<Rightarrow> price_claim option \<Rightarrow> session_event \<Rightarrow> (claim_error, int \<times> price_claim option) result" where
  "fold_surface_projection nt claim e =
     (case metering_span e of
        Some sp \<Rightarrow> and_then (arm_claim sp) (\<lambda>c. Inr (0, Some c))
      | None \<Rightarrow>
          if \<not> is_surface_event e then Inr (0, None)
          else let tokens = int (event_tokens nt e); op = the (ev_surface_op e) in
            if op = append_op then Inr (tokens, None)
            else case claim of
              None \<Rightarrow> Inr (0, None)
            | Some c \<Rightarrow>
                if \<not> num_is (jget ''start'' op) (int (pc_start c)) \<or> \<not> num_is (jget ''end'' op) (int (pc_end c))
                then Inl (ClaimMismatch (ev_seq e) op c)
                else Inr (tokens - pc_tokens c, None))"

section \<open>The context breakdown\<close>

record breakdown_state =
  bd_system :: nat
  bd_tools :: nat
  bd_message :: int
  bd_claim :: "price_claim option"

definition init_breakdown :: breakdown_state where
  "init_breakdown = \<lparr>bd_system = 0, bd_tools = 0, bd_message = 0, bd_claim = None\<rparr>"

definition header_event :: "session_event \<Rightarrow> epoch_header option" where
  "header_event e = (case ev_payload e of RequestHeader h _ _ \<Rightarrow> Some (canonical_header h) | _ \<Rightarrow> None)"

definition apply_breakdown ::
    "(jnum \<Rightarrow> string) \<Rightarrow> session_event \<Rightarrow> breakdown_state \<Rightarrow> (claim_error, breakdown_state) result" where
  "apply_breakdown nt e st =
     and_then (fold_surface_projection nt (bd_claim st) e) (\<lambda>(delta, claim).
       let system = (case header_event e of None \<Rightarrow> bd_system st | Some h \<Rightarrow> estimate_system_tokens (Some h));
           tools = (case header_event e of None \<Rightarrow> bd_tools st | Some h \<Rightarrow> estimate_tools_tokens nt (Some h))
       in if system = bd_system st \<and> tools = bd_tools st \<and> delta = 0 \<and> claim = None \<and> bd_claim st = None then Inr st
          else Inr \<lparr>bd_system = system, bd_tools = tools, bd_message = bd_message st + delta, bd_claim = claim\<rparr>)"

section \<open>The context pressure\<close>

record pressure_state =
  cp_window :: "int option"
  cp_pressure :: "int option"
  cp_surface :: int
  cp_sampled :: "int option"
  cp_claim :: "price_claim option"

definition init_pressure :: pressure_state where
  "init_pressure = \<lparr>cp_window = None, cp_pressure = None, cp_surface = 0, cp_sampled = None, cp_claim = None\<rparr>"

definition opt_count :: "int option \<Rightarrow> int" where
  "opt_count v = (case v of None \<Rightarrow> 0 | Some n \<Rightarrow> n)"

definition pressure_from :: "token_usage \<Rightarrow> int" where
  "pressure_from u = input_tokens u + opt_count (cache_read_tokens u) + opt_count (cache_write_tokens u)"

definition usage_of :: "session_event \<Rightarrow> token_usage option" where
  "usage_of e =
     (case ev_payload e of
        AssistantChunk _ _ (UsageChunk u) \<Rightarrow> Some u
      | AssistantMessageEvent d \<Rightarrow> asst_usage d
      | _ \<Rightarrow> None)"

definition note_window :: "session_event \<Rightarrow> pressure_state \<Rightarrow> pressure_state" where
  "note_window e st =
     (case ev_payload e of
        RequestContextEvent c \<Rightarrow> if rc_window c \<noteq> cp_window st then st\<lparr>cp_window := rc_window c\<rparr> else st
      | _ \<Rightarrow> st)"

definition note_usage :: "session_event \<Rightarrow> pressure_state \<Rightarrow> pressure_state" where
  "note_usage e st =
     (case usage_of e of
        None \<Rightarrow> st
      | Some u \<Rightarrow>
          if Some (pressure_from u) \<noteq> cp_pressure st \<or> cp_sampled st \<noteq> Some (cp_surface st)
          then st\<lparr>cp_pressure := Some (pressure_from u), cp_sampled := Some (cp_surface st)\<rparr> else st)"

definition apply_pressure ::
    "(jnum \<Rightarrow> string) \<Rightarrow> session_event \<Rightarrow> pressure_state \<Rightarrow> (claim_error, pressure_state) result" where
  "apply_pressure nt e st =
     and_then (fold_surface_projection nt (cp_claim st) e) (\<lambda>(delta, claim).
       let st1 = note_usage e (note_window e st);
           st2 = (if delta \<noteq> 0 then st1\<lparr>cp_surface := cp_surface st1 + delta\<rparr> else st1)
       in if cp_claim st = None \<and> claim = None then Inr st2 else Inr (st2\<lparr>cp_claim := claim\<rparr>))"

record pressure_view =
  pv_pressure :: "int option"
  pv_projected :: "int option"
  pv_window :: "int option"

definition view_pressure :: "pressure_state \<Rightarrow> pressure_view" where
  "view_pressure st =
     \<lparr>pv_pressure = cp_pressure st,
      pv_projected = (case (cp_pressure st, cp_sampled st) of
          (Some p, Some s) \<Rightarrow> Some (max 0 (p + cp_surface st - s))
        | _ \<Rightarrow> None),
      pv_window = cp_window st\<rparr>"

section \<open>Token usage\<close>

record usage_buckets =
  bk_input :: int
  bk_output :: int
  bk_read :: int
  bk_write :: int

definition zero_buckets :: usage_buckets where
  "zero_buckets = \<lparr>bk_input = 0, bk_output = 0, bk_read = 0, bk_write = 0\<rparr>"

definition buckets_from :: "token_usage \<Rightarrow> usage_buckets" where
  "buckets_from u = \<lparr>bk_input = input_tokens u, bk_output = output_tokens u,
     bk_read = opt_count (cache_read_tokens u), bk_write = opt_count (cache_write_tokens u)\<rparr>"

definition add_replacing :: "usage_buckets \<Rightarrow> usage_buckets option \<Rightarrow> usage_buckets \<Rightarrow> usage_buckets" where
  "add_replacing totals previous new =
     (let p = (case previous of None \<Rightarrow> zero_buckets | Some b \<Rightarrow> b) in
      \<lparr>bk_input = bk_input totals - bk_input p + bk_input new, bk_output = bk_output totals - bk_output p + bk_output new,
       bk_read = bk_read totals - bk_read p + bk_read new, bk_write = bk_write totals - bk_write p + bk_write new\<rparr>)"

record usage_state =
  us_totals :: usage_buckets
  us_last :: "(int \<times> int \<times> usage_buckets) option"

definition init_usage :: usage_state where
  "init_usage = \<lparr>us_totals = zero_buckets, us_last = None\<rparr>"

text \<open>What an event means to the usage fold: a started retry, a usage report, or nothing.\<close>

datatype usage_note = RetryMark "json option" "json option" | UsageMark int int token_usage

definition usage_mark :: "session_event \<Rightarrow> usage_note option" where
  "usage_mark e =
     (case ev_payload e of
        OtherEvent t j \<Rightarrow>
          if t = ''llm/retry-started'' then Some (RetryMark (jget ''turn'' j) (jget ''step'' j)) else None
      | AssistantChunk t s (UsageChunk u) \<Rightarrow> Some (UsageMark t s u)
      | AssistantMessageEvent d \<Rightarrow> map_option (UsageMark (asst_turn d) (asst_step d)) (asst_usage d)
      | _ \<Rightarrow> None)"

definition apply_usage :: "session_event \<Rightarrow> usage_state \<Rightarrow> usage_state" where
  "apply_usage e st =
     (case usage_mark e of
        None \<Rightarrow> st
      | Some (RetryMark t s) \<Rightarrow>
          (case us_last st of
             Some (t', s', _) \<Rightarrow> if num_is t t' \<and> num_is s s' then st\<lparr>us_last := None\<rparr> else st
           | None \<Rightarrow> st)
      | Some (UsageMark t s u) \<Rightarrow>
          let b = buckets_from u;
              previous = (case us_last st of Some (t', s', p) \<Rightarrow> if t' = t \<and> s' = s then Some p else None | None \<Rightarrow> None)
          in if previous = Some b then st
             else \<lparr>us_totals = add_replacing (us_totals st) previous b, us_last = Some (t, s, b)\<rparr>)"

section \<open>The bounded total is the price of the surface\<close>

text \<open>A log is fully metered when every replacement comes right after a metering event that states the
  replaced range and the price of the nodes it shadows.\<close>

definition prices_range :: "(jnum \<Rightarrow> string) \<Rightarrow> session_event list \<Rightarrow> session_event \<Rightarrow> shadowed_span \<Rightarrow> bool" where
  "prices_range nt es e sp \<longleftrightarrow>
     (case (replace_op_of (the (ev_surface_op e)), fold_window 0 es) of
        (Some (s, t), Inr (st, _)) \<Rightarrow>
          span_start sp = JInt (int s) \<and> span_end sp = JInt (int t) \<and>
          (case replacement_range st s t of
             Inr (i, j, sh) \<Rightarrow> span_tokens sp = JInt (int (heuristic_sum (priced_nodes nt es sh)))
           | Inl _ \<Rightarrow> False)
      | _ \<Rightarrow> False)"

definition metered_event :: "(jnum \<Rightarrow> string) \<Rightarrow> session_event list \<Rightarrow> session_event \<Rightarrow> bool" where
  "metered_event nt es e \<longleftrightarrow>
     (case metering_span e of None \<Rightarrow> True | Some sp \<Rightarrow> is_ok (arm_claim sp))
     \<and> (is_replacement_surface_event e \<longrightarrow>
          (case Option.bind (last_opt es) metering_span of None \<Rightarrow> False | Some sp \<Rightarrow> prices_range nt es e sp))"

definition fully_metered :: "(jnum \<Rightarrow> string) \<Rightarrow> session_event list \<Rightarrow> bool" where
  "fully_metered nt es \<longleftrightarrow> (\<forall>k < length es. metered_event nt (take k es) (es ! k))"

lemma fully_metered_snoc: "fully_metered nt (es @ [e]) \<longleftrightarrow> fully_metered nt es \<and> metered_event nt es e"
  by (auto simp: fully_metered_def less_Suc_eq nth_append)

lemma fully_metered_prefix: "fully_metered nt (es @ fs) \<Longrightarrow> fully_metered nt es"
  by (induction fs rule: rev_induct) (simp_all add: append_assoc [symmetric] fully_metered_snoc del: append_assoc)

lemma fully_metered_Nil [simp]: "fully_metered nt []"
  by (simp add: fully_metered_def)

text \<open>The fold of the totals alone.\<close>

definition total_step ::
    "(jnum \<Rightarrow> string) \<Rightarrow> session_event \<Rightarrow> int \<times> price_claim option \<Rightarrow> (claim_error, int \<times> price_claim option) result" where
  "total_step nt e acc =
     (let (total, claim) = acc in
      and_then (fold_surface_projection nt claim e) (\<lambda>(delta, claim'). Inr (total + delta, claim')))"

definition claim_after :: "session_event list \<Rightarrow> price_claim option" where
  "claim_after es = (case Option.bind (last_opt es) metering_span of
     None \<Rightarrow> None | Some sp \<Rightarrow> (case arm_claim sp of Inr c \<Rightarrow> Some c | Inl _ \<Rightarrow> None))"

lemma heuristic_event_node: "mn_heuristic (event_node nt e) = event_tokens nt e"
  by (simp add: event_node_def event_tokens_def analyze_node_def Let_def case_prod_unfold split: option.split)

lemma heuristic_sum_append: "heuristic_sum (xs @ ys) = heuristic_sum xs + heuristic_sum ys"
  by (simp add: heuristic_sum_def)

lemma heuristic_sum_splice:
  assumes "i \<le> j" and "j < length xs"
  shows "int (heuristic_sum (splice i (j - i + 1) [x] xs)) =
    int (heuristic_sum xs) + int (mn_heuristic x) - int (heuristic_sum (slice i (j + 1) xs))"
proof -
  have "mset (splice i (j - i + 1) [x] xs) + mset (slice i (j + 1) xs) = mset xs + mset [x]"
    by (rule splice_mset [OF assms(2,1)])
  then have "sum_mset (image_mset mn_heuristic (mset (splice i (j - i + 1) [x] xs) + mset (slice i (j + 1) xs))) =
      sum_mset (image_mset mn_heuristic (mset xs + mset [x]))" by (rule arg_cong)
  then have "heuristic_sum (splice i (j - i + 1) [x] xs) + heuristic_sum (slice i (j + 1) xs) = heuristic_sum xs + mn_heuristic x"
    by (simp add: heuristic_sum_def sum_mset_sum_list [symmetric])
  then show ?thesis by linarith
qed

lemma metering_not_surface: "metering_span e = Some sp \<Longrightarrow> \<not> is_surface_event e"
  by (cases "ev_payload e") (auto simp: metering_span_def is_surface_event_def is_surface_eligible_type_def SURFACE_EVENT_TYPES_def)

lemma arm_claim_Inr:
  "arm_claim sp = Inr c \<Longrightarrow> span_start sp = JInt (int s) \<Longrightarrow> span_end sp = JInt (int t) \<Longrightarrow>
   c = \<lparr>pc_start = s, pc_end = t, pc_tokens = jnum_int (span_tokens sp)\<rparr>"
  by (auto simp: arm_claim_def and_then_Inr_iff rethrow_def session_seq_int split: sum.splits if_splits)

lemma fold_surface_projection_metered:
  assumes f: "fold_window 0 (es @ [e]) = Inr (st, reps)" and f0: "fold_window 0 es = Inr (st0, reps0)"
    and m: "metered_event nt es e"
    and prev: "\<forall>sp. Option.bind (last_opt es) metering_span = Some sp \<longrightarrow> is_ok (arm_claim sp)"
  shows "fold_surface_projection nt (claim_after es) e =
    Inr (int (heuristic_sum (priced_nodes nt (es @ [e]) (nodes st))) - int (heuristic_sum (priced_nodes nt es (nodes st0))),
         claim_after (es @ [e]))"
proof -
  have mirror: "token_step nt e (priced_nodes nt es (nodes st0)) = Inr (priced_nodes nt (es @ [e]) (nodes st))"
    by (rule token_step_mirrors [OF f f0])
  have within: "\<forall>n \<in> set (nodes st0). n < length es"
    using fold_window_nodes_within [OF f0] by (auto simp: nodes_within_def)
  note keep = priced_nodes_extend [OF within, of nt "[e]"]
  show ?thesis
  proof (cases "metering_span e")
    case (Some sp)
    from m Some obtain c where "arm_claim sp = Inr c" by (auto simp: metered_event_def is_ok_iff)
    moreover have "nodes st = nodes st0"
      using f f0 metering_not_surface [OF Some] by (cases rule: fold_window_step) auto
    ultimately show ?thesis using Some keep
      by (simp add: fold_surface_projection_def claim_after_def)
  next
    case None
    from f show ?thesis
    proof (cases rule: fold_window_step)
      case off
      then show ?thesis using None f0 keep by (simp add: fold_surface_projection_def claim_after_def)
    next
      case (app st1 reps1)
      have "priced_nodes nt (es @ [e]) (nodes st) = priced_nodes nt es (nodes st0) @ [event_node nt e]"
        using mirror app by (simp add: token_step_def event_plan_def commit_plan_def plan_surface_tokens_def
            commit_surface_tokens_def Let_def)
      then have "heuristic_sum (priced_nodes nt (es @ [e]) (nodes st)) = heuristic_sum (priced_nodes nt es (nodes st0)) + event_tokens nt e"
        by (simp add: heuristic_sum_append heuristic_event_node) (simp add: heuristic_sum_def heuristic_event_node)
      then show ?thesis using None app by (simp add: fold_surface_projection_def claim_after_def Let_def)
    next
      case (repl st1 reps1 op s t i j)
      from repl f0 have st1: "st1 = st0" by simp
      have j: "j < length (nodes st0)" using repl st1 by (simp add: index_of_Some_iff)
      from repl m obtain sp where sp: "Option.bind (last_opt es) metering_span = Some sp" "prices_range nt es e sp"
        by (auto simp: metered_event_def is_replacement_surface_event_def split: option.splits)
      have range: "replacement_range st0 s t = Inr (i, j, slice i (j + 1) (nodes st0))"
        using repl st1 by (simp add: replacement_range_def)
      from sp(2) repl f0 range have p: "span_start sp = JInt (int s)" "span_end sp = JInt (int t)"
        "span_tokens sp = JInt (int (heuristic_sum (priced_nodes nt es (slice i (j + 1) (nodes st0)))))"
        by (simp_all add: prices_range_def)
      from prev sp(1) obtain c where c: "arm_claim sp = Inr c" by (auto simp: is_ok_iff)
      note c' = arm_claim_Inr [OF c p(1,2)]
      have claim: "claim_after es = Some c" using sp(1) c by (simp add: claim_after_def)
      have "int (heuristic_sum (priced_nodes nt (es @ [e]) (nodes st))) = int (heuristic_sum (priced_nodes nt es (nodes st0)))
          + int (mn_heuristic (event_node nt e)) - int (heuristic_sum (slice i (j + 1) (priced_nodes nt es (nodes st0))))"
        using mirror repl f0 token_plan_replace [OF repl(6,5,7-9), of nt es e] j
          heuristic_sum_splice [OF repl(9), of "priced_nodes nt es (nodes st0)" "event_node nt e"]
        by (simp add: token_step_def event_plan_def commit_plan_def commit_surface_tokens_def priced_nodes_def)
      moreover have "slice i (j + 1) (priced_nodes nt es (nodes st0)) = priced_nodes nt es (slice i (j + 1) (nodes st0))"
        by (simp add: priced_nodes_def slice_map)
      ultimately show ?thesis using None repl claim c' p replace_op_of_coords [OF repl(6)] heuristic_event_node [of nt e]
        by (simp add: fold_surface_projection_def claim_after_def num_is_def Let_def)
    qed
  qed
qed

lemma metered_claims_ok:
  "fully_metered nt es \<Longrightarrow> Option.bind (last_opt es) metering_span = Some sp \<Longrightarrow> is_ok (arm_claim sp)"
  by (induction es rule: rev_induct) (auto simp: fully_metered_snoc metered_event_def last_opt_def)

lemma total_fold_metered:
  assumes "fold_window 0 es = Inr (st, reps)" and "fully_metered nt es"
  shows "fold_result (total_step nt) es (0, None) = Inr (int (heuristic_sum (priced_nodes nt es (nodes st))), claim_after es)"
  using assms
proof (induction es arbitrary: st reps rule: rev_induct)
  case Nil
  then show ?case by (auto simp: create_fold_state_def priced_nodes_def heuristic_sum_def claim_after_def last_opt_def)
next
  case (snoc e es)
  from snoc.prems(1) obtain st0 reps0 where f: "fold_window 0 es = Inr (st0, reps0)"
    by (auto simp: fold_window_snoc and_then_Inr_iff)
  from snoc.prems(2) have m: "fully_metered nt es" "metered_event nt es e" by (simp_all add: fully_metered_snoc)
  from fold_surface_projection_metered [OF snoc.prems(1) f m(2)] metered_claims_ok [OF m(1)] snoc.IH [OF f m(1)]
  show ?case by (auto simp: fold_result_snoc total_step_def)
qed

section \<open>What the units publish\<close>

lemma apply_breakdown_total:
  "apply_breakdown nt e st = and_then (total_step nt e (bd_message st, bd_claim st)) (\<lambda>(t, c).
     Inr \<lparr>bd_system = (case header_event e of None \<Rightarrow> bd_system st | Some h \<Rightarrow> estimate_system_tokens (Some h)),
          bd_tools = (case header_event e of None \<Rightarrow> bd_tools st | Some h \<Rightarrow> estimate_tools_tokens nt (Some h)),
          bd_message = t, bd_claim = c\<rparr>)"
  by (cases "fold_surface_projection nt (bd_claim st) e") (auto simp: apply_breakdown_def total_step_def Let_def)

lemma apply_pressure_total:
  "apply_pressure nt e st = and_then (total_step nt e (cp_surface st, cp_claim st)) (\<lambda>(t, c).
     Inr ((note_usage e (note_window e st))\<lparr>cp_surface := t, cp_claim := c\<rparr>))"
proof -
  have same: "cp_surface (note_usage e (note_window e st)) = cp_surface st" "cp_claim (note_usage e (note_window e st)) = cp_claim st"
    by (auto simp: note_usage_def note_window_def split: option.split payload.split)
  then have keep: "(note_usage e (note_window e st))\<lparr>cp_claim := c\<rparr> = (note_usage e (note_window e st))\<lparr>cp_surface := cp_surface st, cp_claim := c\<rparr>"
    and keep': "cp_claim st = None \<Longrightarrow> (note_usage e (note_window e st)) = (note_usage e (note_window e st))\<lparr>cp_surface := cp_surface st, cp_claim := None\<rparr>"
    and keep'': "cp_claim st = None \<Longrightarrow> (note_usage e (note_window e st))\<lparr>cp_surface := t\<rparr> = (note_usage e (note_window e st))\<lparr>cp_surface := t, cp_claim := None\<rparr>" for c t
    by (cases "note_usage e (note_window e st)"; simp)+
  show ?thesis
  proof (cases "fold_surface_projection nt (cp_claim st) e")
    case (Inl err)
    then show ?thesis by (simp add: apply_pressure_def total_step_def)
  next
    case (Inr p)
    then show ?thesis using keep keep' keep'' same
      by (cases p; cases "fst p = 0"; cases "cp_claim st"; cases "snd p")
        (simp_all add: apply_pressure_def total_step_def Let_def)
  qed
qed

definition envelope_tokens :: "(jnum \<Rightarrow> string) \<Rightarrow> epoch_header option \<Rightarrow> nat \<times> nat" where
  "envelope_tokens nt h = (estimate_system_tokens h, estimate_tools_tokens nt h)"

lemma breakdown_fold:
  "fold_result (total_step nt) es (bd_message st, bd_claim st) = Inr (t, c) \<Longrightarrow>
   (bd_system st, bd_tools st) = envelope_tokens nt h \<Longrightarrow>
   \<exists>b. fold_result (apply_breakdown nt) es st = Inr b \<and> bd_message b = t \<and> bd_claim b = c
     \<and> (bd_system b, bd_tools b) = envelope_tokens nt (fold_request_header es h)"
proof (induction es arbitrary: st h)
  case (Cons e es)
  then obtain t1 c1 where s: "total_step nt e (bd_message st, bd_claim st) = Inr (t1, c1)"
    "fold_result (total_step nt) es (t1, c1) = Inr (t, c)" by (auto simp: and_then_Inr_iff)
  define st1 where "st1 = \<lparr>bd_system = (case header_event e of None \<Rightarrow> bd_system st | Some h \<Rightarrow> estimate_system_tokens (Some h)),
    bd_tools = (case header_event e of None \<Rightarrow> bd_tools st | Some h \<Rightarrow> estimate_tools_tokens nt (Some h)), bd_message = t1, bd_claim = c1\<rparr>"
  have st1: "apply_breakdown nt e st = Inr st1" "bd_message st1 = t1" "bd_claim st1 = c1"
    using s(1) by (simp_all add: apply_breakdown_total st1_def)
  have "(bd_system st1, bd_tools st1) = envelope_tokens nt (fold_header_event e h)"
    using Cons.prems(2) by (cases "ev_payload e") (simp_all add: st1_def envelope_tokens_def header_event_def fold_header_event_def)
  with Cons.IH [of st1 "fold_header_event e h"] s(2) st1 show ?case by (simp add: fold_request_header_def)
qed (simp add: fold_request_header_def)

lemma pressure_fold:
  "fold_result (total_step nt) es (cp_surface st, cp_claim st) = Inr (t, c) \<Longrightarrow>
   \<exists>p. fold_result (apply_pressure nt) es st = Inr p \<and> cp_surface p = t \<and> cp_claim p = c"
proof (induction es arbitrary: st)
  case (Cons e es)
  then obtain t1 c1 where s: "total_step nt e (cp_surface st, cp_claim st) = Inr (t1, c1)"
    "fold_result (total_step nt) es (t1, c1) = Inr (t, c)" by (auto simp: and_then_Inr_iff)
  obtain st1 where st1: "apply_pressure nt e st = Inr st1" "cp_surface st1 = t1" "cp_claim st1 = c1"
    using s(1) by (simp add: apply_pressure_total)
  with Cons.IH [of st1] s(2) show ?case by simp
qed simp

lemma fold_surface_window: "fold_surface es = Inr (ns, reps) \<longleftrightarrow> (\<exists>st. fold_window 0 es = Inr (st, reps) \<and> ns = nodes st)"
  by (auto simp: fold_surface_def and_then_Inr_iff)

text \<open>
  Claim C24. The bounded projections agree with the meter: on every accepted log whose replacements
  are metered, neither fold ever fails, both keep as their surface total exactly the
  summed prices of the nodes now on the surface, although they remember no node, and the breakdown's other
  two figures are the price of the envelope in force.
\<close>

theorem bounded_total_exact:
  assumes "fold_surface es = Inr (ns, reps)" and "fully_metered nt es"
  shows "\<exists>b p. fold_result (apply_breakdown nt) es init_breakdown = Inr b \<and> fold_result (apply_pressure nt) es init_pressure = Inr p
    \<and> bd_message b = int (heuristic_sum (priced_nodes nt es ns)) \<and> cp_surface p = int (heuristic_sum (priced_nodes nt es ns))
    \<and> bd_system b + bd_tools b = estimate_header nt (fold_request_header es None)"
proof -
  from assms(1) obtain st where f: "fold_window 0 es = Inr (st, reps)" "ns = nodes st" by (auto simp: fold_surface_window)
  from total_fold_metered [OF f(1) assms(2)] breakdown_fold [of nt es init_breakdown _ _ None] pressure_fold [of nt es init_pressure] f(2)
  show ?thesis
    by (auto simp: init_breakdown_def init_pressure_def envelope_tokens_def estimate_header_def estimate_system_tokens_def
        estimate_tools_tokens_def)
qed

lemma note_usage_none: "usage_of e = None \<Longrightarrow> note_usage e st = st"
  by (simp add: note_usage_def)

lemma note_window_keeps: "cp_pressure (note_window e st) = cp_pressure st" "cp_sampled (note_window e st) = cp_sampled st"
    "cp_surface (note_window e st) = cp_surface st"
  by (auto simp: note_window_def split: payload.split)

lemma pressure_fold_keeps:
  "fold_result (apply_pressure nt) es st = Inr p \<Longrightarrow> \<forall>e \<in> set es. usage_of e = None \<Longrightarrow>
   cp_pressure p = cp_pressure st \<and> cp_sampled p = cp_sampled st"
proof (induction es arbitrary: st)
  case (Cons e es)
  then obtain st1 where st1: "apply_pressure nt e st = Inr st1" "fold_result (apply_pressure nt) es st1 = Inr p"
    by (auto simp: and_then_Inr_iff)
  then have "cp_pressure st1 = cp_pressure st \<and> cp_sampled st1 = cp_sampled st"
    using Cons.prems(2) by (auto simp: apply_pressure_total and_then_Inr_iff note_usage_none note_window_keeps)
  with Cons st1(2) show ?case by simp
qed simp

text \<open>
  The projected occupancy answers for the next request: it is the newest usage sample's prompt
  side plus what the surface has gained or lost since that sample's own request, never below zero.
\<close>

theorem pressure_projects:
  assumes "fold_surface (es @ e # fs) = Inr (ns, reps)" and "fold_surface es = Inr (ns0, reps0)"
    and "fully_metered nt (es @ e # fs)" and "usage_of e = Some u" and "\<forall>f \<in> set fs. usage_of f = None"
  shows "\<exists>p. fold_result (apply_pressure nt) (es @ e # fs) init_pressure = Inr p
    \<and> pv_pressure (view_pressure p) = Some (pressure_from u)
    \<and> pv_projected (view_pressure p) = Some (max 0 (pressure_from u
        + int (heuristic_sum (priced_nodes nt (es @ e # fs) ns)) - int (heuristic_sum (priced_nodes nt es ns0))))"
proof -
  note metered = fully_metered_prefix [OF assms(3)]
  from bounded_total_exact [OF assms(2) metered] obtain p0 where
    p0: "fold_result (apply_pressure nt) es init_pressure = Inr p0" "cp_surface p0 = int (heuristic_sum (priced_nodes nt es ns0))" by blast
  from bounded_total_exact [OF assms(1,3)] obtain p where
    p: "fold_result (apply_pressure nt) (es @ e # fs) init_pressure = Inr p"
       "cp_surface p = int (heuristic_sum (priced_nodes nt (es @ e # fs) ns))" by blast
  from p(1) p0(1) obtain p1 where p1: "apply_pressure nt e p0 = Inr p1" "fold_result (apply_pressure nt) fs p1 = Inr p"
    by (auto simp: fold_result_append and_then_Inr_iff)
  have "cp_pressure p1 = Some (pressure_from u)" "cp_sampled p1 = Some (cp_surface p0)"
    using p1(1) assms(4) by (auto simp: apply_pressure_total and_then_Inr_iff note_usage_def note_window_keeps split: if_splits)
  with pressure_fold_keeps [OF p1(2) assms(5)] p p0(2) show ?thesis by (auto simp: view_pressure_def)
qed

section \<open>Usage counts each attempt once\<close>

text \<open>A usage report is superseded when the next report, with no retry of its attempt in between, is for the
  same turn and step.\<close>

fun superseded :: "int \<Rightarrow> int \<Rightarrow> usage_note list \<Rightarrow> bool" where
  "superseded t s [] = False"
| "superseded t s (UsageMark t' s' u # ms) = (t' = t \<and> s' = s)"
| "superseded t s (RetryMark t' s' # ms) = (if num_is t' t \<and> num_is s' s then False else superseded t s ms)"

definition add_buckets :: "usage_buckets \<Rightarrow> usage_buckets \<Rightarrow> usage_buckets" where
  "add_buckets a b = \<lparr>bk_input = bk_input a + bk_input b, bk_output = bk_output a + bk_output b,
     bk_read = bk_read a + bk_read b, bk_write = bk_write a + bk_write b\<rparr>"

fun attempts_total :: "usage_note list \<Rightarrow> usage_buckets" where
  "attempts_total [] = zero_buckets"
| "attempts_total (RetryMark t s # ms) = attempts_total ms"
| "attempts_total (UsageMark t s u # ms) =
     (if superseded t s ms then attempts_total ms else add_buckets (buckets_from u) (attempts_total ms))"

text \<open>The sum still to come, given the report that a new one would replace.\<close>

definition open_total :: "(int \<times> int \<times> usage_buckets) option \<Rightarrow> usage_note list \<Rightarrow> usage_buckets" where
  "open_total prev ms =
     (case prev of
        Some (t, s, b) \<Rightarrow> if superseded t s ms then add_replacing (attempts_total ms) (Some b) zero_buckets else attempts_total ms
      | None \<Rightarrow> attempts_total ms)"

lemma buckets_laws:
  "add_buckets zero_buckets a = a" "add_buckets a zero_buckets = a"
  "add_buckets a (add_buckets b c) = add_buckets (add_buckets a b) c"
  "add_buckets a (add_replacing b p c) = add_replacing (add_buckets a b) p c"
  "add_replacing a None b = add_buckets a b"
  "add_buckets (add_replacing a p b) c = add_replacing (add_buckets a c) p b"
  "add_replacing (add_buckets b a) (Some b) zero_buckets = a"
  by (simp_all add: add_buckets_def add_replacing_def zero_buckets_def Let_def)

lemma usage_fold_open:
  "us_totals (fold apply_usage es st) = add_buckets (us_totals st) (open_total (us_last st) (List.map_filter usage_mark es))"
proof (induction es arbitrary: st)
  case Nil
  then show ?case by (simp add: open_total_def map_filter_simps buckets_laws split: option.split)
next
  case (Cons e es)
  let ?ms = "List.map_filter usage_mark es"
  show ?case
  proof (cases "usage_mark e")
    case None
    then show ?thesis using Cons by (simp add: apply_usage_def map_filter_simps)
  next
    case (Some m)
    then have fold1: "us_totals (fold apply_usage (e # es) st) =
        add_buckets (us_totals (apply_usage e st)) (open_total (us_last (apply_usage e st)) ?ms)"
      and marks: "List.map_filter usage_mark (e # es) = m # ?ms" using Cons by (simp_all add: map_filter_simps)
    show ?thesis
    proof (cases m)
      case (RetryMark t s)
      then show ?thesis unfolding fold1 marks using Some
        by (auto simp: apply_usage_def open_total_def split: option.split)
    next
      case (UsageMark t s u)
      show ?thesis unfolding fold1 marks using Some UsageMark
        by (auto simp: apply_usage_def open_total_def Let_def add_buckets_def add_replacing_def zero_buckets_def split: option.split if_splits)
    qed
  qed
qed

text \<open>
  Reported usage counts every request attempt once: the totals are the sum of the reports that
  no later report of the same attempt replaces, where a started retry opens a new attempt of the same step.
\<close>

theorem usage_counts_attempts:
  "us_totals (fold apply_usage es init_usage) = attempts_total (List.map_filter usage_mark es)"
  by (simp add: usage_fold_open open_total_def init_usage_def buckets_laws)

section \<open>Examples\<close>

definition plain_text :: "jnum \<Rightarrow> string" where
  "plain_text n = []"

definition greeting :: "string \<Rightarrow> user_message" where
  "greeting s = \<lparr>um_id = ''m'', um_content = [TextBlock s], um_source = UserSource\<rparr>"

definition sample_usage :: token_usage where
  "sample_usage = \<lparr>input_tokens = 20, output_tokens = 3, total_tokens = None, cache_read_tokens = Some 5,
     cache_write_tokens = None, reasoning_tokens = None\<rparr>"

definition metered_tail :: "session_event list" where
  "metered_tail =
     [log_event (CompactionPrune \<lparr>span_start = JInt 0, span_end = JInt 0, span_seqs = [JInt 0], span_tokens = JInt 10\<rparr>) 2,
      replace_event (UserMessageEvent (greeting ''hi'')) 3 0 0 [0]]"

definition metered_head :: "session_event list" where
  "metered_head = [append_event (UserMessageEvent (greeting ''hello'')) 0]"

definition usage_report :: session_event where
  "usage_report = log_event (AssistantChunk 1 1 (UsageChunk sample_usage)) 1"

lemma metered_example:
  "fold_surface (metered_head @ usage_report # metered_tail) =
     Inr ([3], [\<lparr>rep_seq = 3, rep_start = 0, rep_end = 0, rep_shadowed = [0]\<rparr>])"
  "fold_surface metered_head = Inr ([0], [])"
  "fully_metered plain_text (metered_head @ usage_report # metered_tail)"
  by code_simp+

theorem bounded_total_exact_witness:
  "\<exists>b p. fold_result (apply_breakdown plain_text) (metered_head @ usage_report # metered_tail) init_breakdown = Inr b
     \<and> fold_result (apply_pressure plain_text) (metered_head @ usage_report # metered_tail) init_pressure = Inr p
     \<and> bd_message b = 9 \<and> cp_surface p = 9"
proof -
  have "heuristic_sum (priced_nodes plain_text (metered_head @ usage_report # metered_tail) [3]) = 9" by code_simp
  with bounded_total_exact [OF metered_example(1,3)] show ?thesis by auto
qed

theorem pressure_projects_witness:
  "\<exists>p. fold_result (apply_pressure plain_text) (metered_head @ usage_report # metered_tail) init_pressure = Inr p
     \<and> pv_projected (view_pressure p) = Some 24"
proof -
  have "heuristic_sum (priced_nodes plain_text (metered_head @ usage_report # metered_tail) [3]) = 9"
    "heuristic_sum (priced_nodes plain_text metered_head [0]) = 10" "pressure_from sample_usage = 25"
    "usage_of usage_report = Some sample_usage" "\<forall>f \<in> set metered_tail. usage_of f = None" by code_simp+
  with pressure_projects [OF metered_example(1,2,3)] show ?thesis by auto
qed

end
