(* ===== verification/Token_Meter.thy ===== *)
theory Token_Meter
  imports Token_Projection Assembler Session_Log Session_Trace
begin

text \<open>
  \<open>packages/llm/token-meter/src/index.ts\<close> and \<open>route-pricing.ts\<close>: the meter service's replay of one
  session's log and its measurement. The image pricing a route's adapter declares is an argument:
  \<open>None\<close> where the route has none.
\<close>

section \<open>Pricing a surface for a route\<close>

type_synonym image_price = "int \<times> string"
type_synonym image_pricing = "json list \<Rightarrow> image_price list"

record public_node =
  pn_seq :: nat
  pn_tokens :: int
  pn_heuristic :: nat

datatype meter_error =
    PriceCount nat nat
  | StepAlreadyOpen nat
  | NoStepToEnd nat
  | NoStepForMessage nat
  | MeterSurface token_error
  | SourceNotEarlier nat json
  | SourceRepeated nat json
  | SourceNotChunk nat json
  | SourceOtherStep nat json
  | SourceContent assembler_error

definition occurrence_price :: "(jnum \<Rightarrow> string) \<Rightarrow> image_price \<Rightarrow> int" where
  "occurrence_price nt p = fst p + int (estimate_content nt [TextBlock (snd p)])"

definition public_of :: "meter_node \<Rightarrow> int \<Rightarrow> public_node" where
  "public_of n tokens = \<lparr>pn_seq = mn_seq n, pn_tokens = tokens, pn_heuristic = mn_heuristic n\<rparr>"

text \<open>The loop over the nodes, which takes the prices of each node's occurrences in order.\<close>

fun reprice :: "(jnum \<Rightarrow> string) \<Rightarrow> meter_node list \<Rightarrow> image_price list \<Rightarrow> public_node list" where
  "reprice nt [] prices = []"
| "reprice nt (n # ns) prices =
     (let k = length (mn_images n) in
      if k > 0 then public_of n (mn_image_free n + sum_list (map (occurrence_price nt) (take k prices))) # reprice nt ns (drop k prices)
      else public_of n (int (mn_heuristic n)) # reprice nt ns prices)"

definition surface_total :: "public_node list \<Rightarrow> int" where
  "surface_total ns = sum_list (map pn_tokens ns)"

definition price_surface ::
    "(jnum \<Rightarrow> string) \<Rightarrow> meter_node list \<Rightarrow> image_pricing option \<Rightarrow> (meter_error, public_node list) result" where
  "price_surface nt ns pricing =
     (let images = (case pricing of None \<Rightarrow> [] | Some _ \<Rightarrow> concat (map mn_images ns)) in
      case pricing of
        None \<Rightarrow> Inr (map (\<lambda>n. public_of n (int (mn_heuristic n))) ns)
      | Some f \<Rightarrow>
          if images = [] then Inr (map (\<lambda>n. public_of n (int (mn_heuristic n))) ns)
          else if length (f images) \<noteq> length images then Inl (PriceCount (length (f images)) (length images))
          else Inr (reprice nt ns (f images)))"

section \<open>Replay\<close>

record meter_anchor =
  an_header :: "epoch_header option"
  an_nodes :: "meter_node list"
  an_assistant :: nat
  an_usage :: "token_usage option"

record meter_state =
  ms_consumed :: nat
  ms_header :: "epoch_header option"
  ms_surface :: "meter_node list"
  ms_step :: "(int \<times> int \<times> meter_node list) option"
  ms_anchor :: "meter_anchor option"

definition fresh_meter :: meter_state where
  "fresh_meter = \<lparr>ms_consumed = 0, ms_header = None, ms_surface = [], ms_step = None, ms_anchor = None\<rparr>"

text \<open>The chunks an assistant message cites, pushed into an assembler. A cited value that is no sequence number
  is never earlier than the message.\<close>

fun push_sources ::
    "session_event list \<Rightarrow> session_event \<Rightarrow> assistant_data \<Rightarrow> json list \<Rightarrow> nat set \<Rightarrow> assembler \<Rightarrow>
     (meter_error, assembler) result" where
  "push_sources log_events e d [] seen a = Inr a"
| "push_sources log_events e d (j # js) seen a =
     (case safe_nat j of
        None \<Rightarrow> Inl (SourceNotEarlier (ev_seq e) j)
      | Some s \<Rightarrow>
          if s \<ge> ev_seq e then Inl (SourceNotEarlier (ev_seq e) j)
          else if s \<in> seen then Inl (SourceRepeated (ev_seq e) j)
          else case map_option ev_payload (elem_at log_events s) of
            Some (AssistantChunk t st c) \<Rightarrow>
              if t \<noteq> asst_turn d \<or> st \<noteq> asst_step d then Inl (SourceOtherStep (ev_seq e) j)
              else push_sources log_events e d js (insert s seen) (push_chunk c a)
          | _ \<Rightarrow> Inl (SourceNotChunk (ev_seq e) j))"

definition estimate_provider_assistant ::
    "(jnum \<Rightarrow> string) \<Rightarrow> session_event list \<Rightarrow> session_event \<Rightarrow> assistant_data \<Rightarrow> nat \<Rightarrow> (meter_error, nat) result" where
  "estimate_provider_assistant nt log_events e d durable =
     (case ev_sources e of
        None \<Rightarrow> Inr durable
      | Some js \<Rightarrow>
          and_then (push_sources log_events e d (items_of js) {} new_assembler) (\<lambda>a.
          and_then (rethrow SourceContent (assembled_blocks a)) (\<lambda>bs.
            Inr (if bs = [] then 0 else estimate_content nt bs + ROLE_OVERHEAD))))"

definition next_meter_step :: "session_event \<Rightarrow> meter_state \<Rightarrow> (meter_error, (int \<times> int \<times> meter_node list) option) result" where
  "next_meter_step e st =
     (case ev_payload e of
        StepStart t s \<Rightarrow>
          and_then (reject_if (ms_step st \<noteq> None) (StepAlreadyOpen (ev_seq e))) (\<lambda>_. Inr (Some (t, s, ms_surface st)))
      | StepEnd t s \<Rightarrow>
          (case ms_step st of
             None \<Rightarrow> Inl (NoStepToEnd (ev_seq e))
           | Some (t', s', _) \<Rightarrow> and_then (reject_if (t' \<noteq> t \<or> s' \<noteq> s) (NoStepToEnd (ev_seq e))) (\<lambda>_. Inr None))
      | _ \<Rightarrow> Inr (ms_step st))"

definition next_anchor ::
    "(jnum \<Rightarrow> string) \<Rightarrow> session_event list \<Rightarrow> session_event \<Rightarrow> token_plan option \<Rightarrow> epoch_header option \<Rightarrow> meter_state \<Rightarrow>
     (meter_error, meter_anchor option) result" where
  "next_anchor nt log_events e plan header st =
     (case ev_payload e of
        AssistantMessageEvent d \<Rightarrow>
          (case ms_step st of
             None \<Rightarrow> Inl (NoStepForMessage (ev_seq e))
           | Some (t, s, ns) \<Rightarrow>
               and_then (reject_if (t \<noteq> asst_turn d \<or> s \<noteq> asst_step d) (NoStepForMessage (ev_seq e))) (\<lambda>_.
               let tokens = tp_tokens (the plan) in
               if asst_usage d \<noteq> None \<and> header \<noteq> None
               then and_then (estimate_provider_assistant nt log_events e d tokens) (\<lambda>provider.
                 Inr (Some \<lparr>an_header = header, an_nodes = ns, an_assistant = provider, an_usage = asst_usage d\<rparr>))
               else Inr (Some \<lparr>an_header = header, an_nodes = ns, an_assistant = tokens, an_usage = None\<rparr>)))
      | _ \<Rightarrow> Inr (ms_anchor st))"

text \<open>Every step that can fail runs before the state changes.\<close>

definition fold_meter_event ::
    "(jnum \<Rightarrow> string) \<Rightarrow> session_event list \<Rightarrow> session_event \<Rightarrow> meter_state \<Rightarrow> (meter_error, meter_state) result" where
  "fold_meter_event nt log_events e st =
     (let header = fold_header_event e (ms_header st) in
      and_then (next_meter_step e st) (\<lambda>stp.
      and_then (rethrow MeterSurface (event_plan nt (ms_surface st) e)) (\<lambda>plan.
      and_then (next_anchor nt log_events e plan header st) (\<lambda>anchor.
        Inr (st\<lparr>ms_header := header, ms_step := stp, ms_surface := commit_plan plan (ms_surface st), ms_anchor := anchor\<rparr>)))))"

fun meter_loop ::
    "(jnum \<Rightarrow> string) \<Rightarrow> session_event list \<Rightarrow> nat \<Rightarrow> meter_state \<Rightarrow> (meter_error, unit) result \<times> meter_state" where
  "meter_loop nt log_events 0 st = (Inr (), st)"
| "meter_loop nt log_events (Suc n) st =
     (case fold_meter_event nt log_events (log_events ! ms_consumed st) st of
        Inl err \<Rightarrow> (Inl err, st)
      | Inr st' \<Rightarrow> meter_loop nt log_events n (st'\<lparr>ms_consumed := ms_consumed st + 1\<rparr>))"

definition sync_meter ::
    "(jnum \<Rightarrow> string) \<Rightarrow> session_event list \<Rightarrow> meter_state \<Rightarrow> (meter_error, unit) result \<times> meter_state" where
  "sync_meter nt log_events st = meter_loop nt log_events (length log_events - ms_consumed st) st"

section \<open>Measuring\<close>

datatype baseline = BaselineNone | BaselineEstimated int | BaselineUsage int token_usage

fun baseline_tokens :: "baseline \<Rightarrow> int" where
  "baseline_tokens BaselineNone = 0"
| "baseline_tokens (BaselineEstimated n) = n"
| "baseline_tokens (BaselineUsage n u) = n"

record measurement =
  me_revision :: nat
  me_baseline :: baseline
  me_delta :: int
  me_total :: int
  me_surface :: int
  me_nodes :: "public_node list"

definition usage_tokens :: "token_usage \<Rightarrow> int" where
  "usage_tokens u = input_tokens u + opt_count (cache_read_tokens u) + opt_count (cache_write_tokens u) + output_tokens u"

definition optional_header_equals :: "epoch_header option \<Rightarrow> epoch_header option \<Rightarrow> bool" where
  "optional_header_equals a b = (case (a, b) of (Some x, Some y) \<Rightarrow> header_equals x y | _ \<Rightarrow> a = None \<and> b = None)"

definition matching_anchor :: "meter_state \<Rightarrow> epoch_header option \<Rightarrow> meter_anchor option" where
  "matching_anchor st header =
     (case ms_anchor st of
        Some a \<Rightarrow> if optional_header_equals (an_header a) header then Some a else None
      | None \<Rightarrow> None)"

definition anchor_baseline :: "token_usage option \<Rightarrow> int \<Rightarrow> baseline" where
  "anchor_baseline usage estimated =
     (case usage of
        Some u \<Rightarrow> if usage_tokens u \<ge> estimated then BaselineUsage (usage_tokens u) u else BaselineEstimated estimated
      | None \<Rightarrow> BaselineEstimated estimated)"

definition measured ::
    "(jnum \<Rightarrow> string) \<Rightarrow> image_pricing option \<Rightarrow> meter_state \<Rightarrow> epoch_header option \<Rightarrow> (meter_error, measurement) result" where
  "measured nt pricing st header =
     and_then (price_surface nt (ms_surface st) pricing) (\<lambda>ns.
     and_then
       (case matching_anchor st header of
          Some a \<Rightarrow>
            and_then (price_surface nt (an_nodes a) pricing) (\<lambda>anchored.
              let anchor_surface = surface_total anchored + int (an_assistant a)
              in Inr (anchor_baseline (an_usage a) (int (estimate_header nt header) + anchor_surface),
                      surface_total ns - anchor_surface))
        | None \<Rightarrow>
            if header = None \<and> surface_total ns = 0 then Inr (BaselineNone, 0)
            else Inr (BaselineEstimated (int (estimate_header nt header) + surface_total ns), 0)) (\<lambda>(base, delta).
       Inr \<lparr>me_revision = ms_consumed st, me_baseline = base, me_delta = delta,
            me_total = max 0 (baseline_tokens base + delta), me_surface = surface_total ns, me_nodes = ns\<rparr>))"

definition meter_measure ::
    "(jnum \<Rightarrow> string) \<Rightarrow> (string \<Rightarrow> string \<Rightarrow> image_pricing option) \<Rightarrow> epoch_header option \<Rightarrow> session_event list \<Rightarrow> meter_state \<Rightarrow>
     (meter_error, measurement) result \<times> meter_state" where
  "meter_measure nt routes supplied log_events st =
     (case sync_meter nt log_events st of
        (Inl err, st') \<Rightarrow> (Inl err, st')
      | (Inr _, st') \<Rightarrow>
          let header = (case supplied of None \<Rightarrow> ms_header st' | Some h \<Rightarrow> Some (canonical_header h));
              pricing = (case header of None \<Rightarrow> None | Some h \<Rightarrow> routes (cc_provider (eh_config h)) (cc_model (eh_config h)))
          in (measured nt pricing st' header, st'))"

section \<open>A measurement never understates\<close>

text \<open>
  A measurement is conservative: the total is never below the full price of the envelope and
  the surface it was asked for, it is exactly that price unless the provider's own usage anchors it, and the
  surface figure is the sum of the node prices.
\<close>

theorem measure_conservative:
  assumes "measured nt pricing st header = Inr m"
  shows "me_surface m = surface_total (me_nodes m) \<and> int (estimate_header nt header) + me_surface m \<le> me_total m \<and> 0 \<le> me_total m
    \<and> ((\<exists>n u. me_baseline m = BaselineUsage n u \<and> n = usage_tokens u)
       \<or> me_total m = max 0 (int (estimate_header nt header) + me_surface m))"
proof -
  from assms obtain ns base delta where ns: "price_surface nt (ms_surface st) pricing = Inr ns"
    and m: "m = \<lparr>me_revision = ms_consumed st, me_baseline = base, me_delta = delta,
            me_total = max 0 (baseline_tokens base + delta), me_surface = surface_total ns, me_nodes = ns\<rparr>"
    and b: "(case matching_anchor st header of
          Some a \<Rightarrow>
            and_then (price_surface nt (an_nodes a) pricing) (\<lambda>anchored.
              let anchor_surface = surface_total anchored + int (an_assistant a)
              in Inr (anchor_baseline (an_usage a) (int (estimate_header nt header) + anchor_surface),
                      surface_total ns - anchor_surface))
        | None \<Rightarrow>
            if header = None \<and> surface_total ns = 0 then Inr (BaselineNone, 0)
            else Inr (BaselineEstimated (int (estimate_header nt header) + surface_total ns), 0)) = Inr (base, delta)"
    by (auto simp: measured_def and_then_Inr_iff)
  show ?thesis
  proof (cases "matching_anchor st header")
    case None
    have "estimate_header nt None = 0" by (simp add: estimate_header_def estimate_system_tokens_def estimate_tools_tokens_def)
    then show ?thesis using b None m by (auto split: if_splits)
  next
    case (Some a)
    with b obtain k where "base = anchor_baseline (an_usage a) (int (estimate_header nt header) + k)" "delta = surface_total ns - k"
      by (auto simp: and_then_Inr_iff Let_def)
    then show ?thesis using m by (auto simp: anchor_baseline_def split: option.splits if_splits)
  qed
qed

section \<open>The replay follows the session\<close>

definition meter_inv :: "(jnum \<Rightarrow> string) \<Rightarrow> session_event list \<Rightarrow> meter_state \<Rightarrow> bool" where
  "meter_inv nt log_events st \<longleftrightarrow> ms_consumed st \<le> length log_events
     \<and> (\<exists>sf reps. fold_window 0 (take (ms_consumed st) log_events) = Inr (sf, reps)
          \<and> ms_surface st = priced_nodes nt (take (ms_consumed st) log_events) (nodes sf))
     \<and> ms_header st = fold_request_header (take (ms_consumed st) log_events) None"

lemma fresh_meter_inv: "meter_inv nt log_events fresh_meter"
  by (simp add: meter_inv_def fresh_meter_def create_fold_state_def priced_nodes_def)

lemma fold_window_take: "fold_window 0 es = Inr x \<Longrightarrow> \<exists>y. fold_window 0 (take n es) = Inr y"
  using fold_window_prefix [of 0 "take n es" "drop n es"] by simp

lemma meter_inv_grow: "meter_inv nt es st \<Longrightarrow> meter_inv nt (es @ fs) st"
  by (auto simp: meter_inv_def)

lemma fold_meter_event_inv:
  assumes ok: "fold_window 0 log_events = Inr x" and inv: "meter_inv nt log_events st" and c: "ms_consumed st < length log_events"
    and f: "fold_meter_event nt log_events (log_events ! ms_consumed st) st = Inr st'"
  shows "meter_inv nt log_events (st'\<lparr>ms_consumed := ms_consumed st + 1\<rparr>)"
proof -
  let ?c = "ms_consumed st"
  let ?e = "log_events ! ?c" and ?es = "take ?c log_events"
  have es: "take (?c + 1) log_events = ?es @ [?e]" using c by (simp add: take_Suc_conv_app_nth)
  from inv obtain sf reps where sf: "fold_window 0 ?es = Inr (sf, reps)" "ms_surface st = priced_nodes nt ?es (nodes sf)"
    by (auto simp: meter_inv_def)
  from fold_window_take [OF ok, of "?c + 1"] obtain sf' reps' where sf': "fold_window 0 (?es @ [?e]) = Inr (sf', reps')"
    unfolding es by auto
  from f obtain plan where plan: "event_plan nt (ms_surface st) ?e = Inr plan" "ms_surface st' = commit_plan plan (ms_surface st)"
    and header: "ms_header st' = fold_header_event ?e (ms_header st)"
    by (auto simp: fold_meter_event_def and_then_Inr_iff Let_def rethrow_def split: sum.splits)
  from token_step_mirrors [OF sf' sf(1), of nt] plan sf(2)
  have "ms_surface st' = priced_nodes nt (?es @ [?e]) (nodes sf')" by (simp add: token_step_def)
  moreover have "fold_header_event ?e (ms_header st) = fold_request_header (?es @ [?e]) None"
    using inv by (simp add: meter_inv_def fold_request_header_def)
  ultimately show ?thesis using sf' header c unfolding meter_inv_def by (simp add: es [simplified])
qed

lemma meter_loop_inv:
  assumes "fold_window 0 log_events = Inr x" and "meter_inv nt log_events st" and "ms_consumed st + n \<le> length log_events"
  shows "meter_inv nt log_events (snd (meter_loop nt log_events n st))
    \<and> (is_ok (fst (meter_loop nt log_events n st)) \<longrightarrow> ms_consumed (snd (meter_loop nt log_events n st)) = ms_consumed st + n)"
  using assms(2,3)
proof (induction n arbitrary: st)
  case 0
  then show ?case by simp
next
  case (Suc n)
  show ?case
  proof (cases "fold_meter_event nt log_events (log_events ! ms_consumed st) st")
    case (Inl err)
    then show ?thesis using Suc.prems by (simp add: is_ok_iff)
  next
    case (Inr st')
    have "meter_inv nt log_events (st'\<lparr>ms_consumed := ms_consumed st + 1\<rparr>)"
      by (rule fold_meter_event_inv [OF assms(1) Suc.prems(1) _ Inr]) (use Suc.prems(2) in simp)
    from Suc.IH [OF this] Suc.prems(2) Inr show ?thesis by simp
  qed
qed

text \<open>The meter's state for a session, through appends and reads (which may fail).\<close>

inductive meter_run :: "(jnum \<Rightarrow> string) \<Rightarrow> session \<Rightarrow> meter_state \<Rightarrow> bool" for nt where
  start: "session_reach s \<Longrightarrow> meter_run nt s fresh_meter"
| append: "meter_run nt s st \<Longrightarrow> meter_run nt (snd (session_append now p op sources s)) st"
| synced: "meter_run nt s st \<Longrightarrow> meter_run nt s (snd (sync_meter nt (s_log s) st))"

lemma session_inv_window: "session_inv s \<Longrightarrow> \<exists>x. fold_window 0 (s_log s) = Inr x"
  by (auto simp: session_inv_def is_ok_iff)

lemma sync_meter_inv:
  assumes "session_inv s" and "meter_inv nt (s_log s) st"
  shows "meter_inv nt (s_log s) (snd (sync_meter nt (s_log s) st))
    \<and> (is_ok (fst (sync_meter nt (s_log s) st)) \<longrightarrow> ms_consumed (snd (sync_meter nt (s_log s) st)) = length (s_log s))"
proof -
  obtain x where "fold_window 0 (s_log s) = Inr x" using session_inv_window [OF assms(1)] by blast
  moreover have le: "ms_consumed st \<le> length (s_log s)" using assms(2) by (simp add: meter_inv_def)
  ultimately show ?thesis using meter_loop_inv [OF _ assms(2), of x "length (s_log s) - ms_consumed st"]
    by (simp add: sync_meter_def)
qed

lemma meter_run_inv: "meter_run nt s st \<Longrightarrow> session_inv s \<and> meter_inv nt (s_log s) st"
proof (induction rule: meter_run.induct)
  case (start s)
  then show ?case by (simp add: session_reach_inv fresh_meter_inv)
next
  case (append s st now p op sources)
  obtain r s' where a: "session_append now p op sources s = (r, s')" by (cases "session_append now p op sources s")
  have inv: "session_inv s" using append by simp
  have "\<exists>fs. s_log s' = s_log s @ fs" using session_append_log [OF inv a] by (cases r) auto
  then have "meter_inv nt (s_log s') st" using append.IH meter_inv_grow by auto
  with session_append_inv [OF inv, of now p op sources] a show ?case by simp
next
  case (synced s st)
  then show ?case using sync_meter_inv by blast
qed

lemma reprice_seqs: "map pn_seq (reprice nt ns prices) = map mn_seq ns" "map pn_heuristic (reprice nt ns prices) = map mn_heuristic ns"
  by (induction nt ns prices rule: reprice.induct) (simp_all add: public_of_def Let_def)

lemma price_surface_seqs:
  "price_surface nt ns pricing = Inr ps \<Longrightarrow> map pn_seq ps = map mn_seq ns \<and> map pn_heuristic ps = map mn_heuristic ns"
  by (auto simp: price_surface_def public_of_def comp_def reprice_seqs Let_def split: option.splits if_splits)

lemma node_price: "mn_heuristic (analyze_node nt n (derive_event_message e)) = event_tokens nt e"
  by (simp add: event_tokens_def analyze_node_def Let_def case_prod_unfold split: option.split)

lemma meter_measure_spec:
  assumes inv: "session_inv s" "meter_inv nt (s_log s) st" and run: "meter_measure nt routes supplied (s_log s) st = (r, st')"
  shows "meter_inv nt (s_log s) st'
    \<and> (\<forall>m sf reps. r = Inr m \<longrightarrow> fold_window 0 (s_log s) = Inr (sf, reps) \<longrightarrow>
         me_revision m = length (s_log s) \<and> map pn_seq (me_nodes m) = nodes sf
         \<and> map pn_heuristic (me_nodes m) = map (\<lambda>n. event_tokens nt (s_log s ! n)) (nodes sf)
         \<and> ms_header st' = fold_request_header (s_log s) None)"
proof -
  note sync = sync_meter_inv [OF inv]
  have st': "st' = snd (sync_meter nt (s_log s) st)"
    using run by (auto simp: meter_measure_def Let_def split: prod.splits sum.splits)
  have "me_revision m = length (s_log s) \<and> map pn_seq (me_nodes m) = nodes sf
         \<and> map pn_heuristic (me_nodes m) = map (\<lambda>n. event_tokens nt (s_log s ! n)) (nodes sf)
         \<and> ms_header st' = fold_request_header (s_log s) None"
    if r: "r = Inr m" and f: "fold_window 0 (s_log s) = Inr (sf, reps)" for m sf reps
  proof -
    from run r obtain pricing header where "fst (sync_meter nt (s_log s) st) = Inr ()" and m: "measured nt pricing st' header = Inr m"
      by (auto simp: meter_measure_def Let_def split: prod.splits sum.splits)
    with sync st' have c: "ms_consumed st' = length (s_log s)" and i: "meter_inv nt (s_log s) st'" by (simp_all add: is_ok_iff)
    from i c f have sf: "ms_surface st' = priced_nodes nt (s_log s) (nodes sf)" "ms_header st' = fold_request_header (s_log s) None"
      by (auto simp: meter_inv_def)
    from m obtain ps where ps: "price_surface nt (ms_surface st') pricing = Inr ps" "me_nodes m = ps" "me_revision m = ms_consumed st'"
      by (auto simp: measured_def and_then_Inr_iff)
    show ?thesis using price_surface_seqs [OF ps(1)] ps(2,3) sf c by (simp add: priced_nodes_def comp_def node_price)
  qed
  with sync st' show ?thesis by blast
qed

text \<open>
  A measurement describes the session as it is: whatever was appended, read or failed to be
  read before, a successful measurement has consumed the whole log, its nodes are the surface's
  nodes in order, and each carries the fixed price of its own event's message.
\<close>

theorem measure_describes_surface:
  assumes "meter_run nt s st" and "meter_measure nt routes supplied (s_log s) st = (Inr m, st')"
  shows "\<exists>ns reps. fold_surface (s_log s) = Inr (ns, reps) \<and> me_revision m = length (s_log s) \<and> map pn_seq (me_nodes m) = ns
    \<and> map pn_heuristic (me_nodes m) = map (\<lambda>n. event_tokens nt (s_log s ! n)) ns
    \<and> ms_header st' = fold_request_header (s_log s) None"
proof -
  have inv: "session_inv s" "meter_inv nt (s_log s) st" using meter_run_inv [OF assms(1)] by simp_all
  from session_inv_window [OF inv(1)] obtain sf reps where "fold_window 0 (s_log s) = Inr (sf, reps)" by auto
  with meter_measure_spec [OF inv assms(2)] show ?thesis by (simp add: fold_surface_def)
qed

section \<open>When reading fails\<close>

lemma meter_loop_error:
  "meter_loop nt log_events n st = (Inl err, st') \<Longrightarrow> ms_consumed st + n \<le> length log_events \<Longrightarrow>
   ms_consumed st' < length log_events \<and> fold_meter_event nt log_events (log_events ! ms_consumed st') st' = Inl err"
proof (induction n arbitrary: st)
  case (Suc n)
  show ?case
  proof (cases "fold_meter_event nt log_events (log_events ! ms_consumed st) st")
    case (Inr st1)
    with Suc.prems Suc.IH [of "st1\<lparr>ms_consumed := ms_consumed st + 1\<rparr>"] show ?thesis by simp
  qed (use Suc.prems in auto)
qed simp

lemma push_sources_extend:
  "ev_seq e \<le> length es \<Longrightarrow> push_sources (es @ fs) e d js seen a = push_sources es e d js seen a"
proof (induction es e d js seen a rule: push_sources.induct)
  case (2 es e d j js seen a)
  show ?case
  proof (cases "safe_nat j")
    case (Some s)
    show ?thesis
    proof (cases "s < ev_seq e")
      case True
      then have "elem_at (es @ fs) s = elem_at es s" using 2(2) by (simp add: elem_at_def nth_append)
      then show ?thesis using 2 Some True by (auto split: option.split payload.split)
    qed (use Some in simp)
  qed simp
qed simp

lemma fold_meter_event_extend:
  "ev_seq e \<le> length es \<Longrightarrow> fold_meter_event nt (es @ fs) e st = fold_meter_event nt es e st"
proof -
  assume "ev_seq e \<le> length es"
  then have "estimate_provider_assistant nt (es @ fs) e = estimate_provider_assistant nt es e"
    by (intro ext) (simp add: estimate_provider_assistant_def push_sources_extend [OF \<open>ev_seq e \<le> length es\<close>] split: option.split)
  then have "next_anchor nt (es @ fs) e p h st = next_anchor nt es e p h st" for p h
    by (cases "ev_payload e"; cases "ms_step st") (auto simp: next_anchor_def Let_def)
  then show ?thesis by (simp add: fold_meter_event_def)
qed

text \<open>
  A malformed event fails the same way on every read: when reading fails, the state stands
  right before the offending event with nothing of it applied, and any later read, of the same log or
  of a longer one, fails with the same error and leaves the same state.
\<close>

theorem meter_error_sticky:
  assumes "meter_run nt s st" and "sync_meter nt (s_log s) st = (Inl err, st')"
  shows "ms_consumed st' < length (s_log s) \<and> sync_meter nt (s_log s @ fs) st' = (Inl err, st')
    \<and> meter_inv nt (s_log s) st'"
proof -
  have inv: "session_inv s" "meter_inv nt (s_log s) st" using meter_run_inv [OF assms(1)] by simp_all
  have "ms_consumed st + (length (s_log s) - ms_consumed st) \<le> length (s_log s)" using inv(2) by (simp add: meter_inv_def)
  from meter_loop_error [OF assms(2) [unfolded sync_meter_def] this]
  have c: "ms_consumed st' < length (s_log s)" "fold_meter_event nt (s_log s) (s_log s ! ms_consumed st') st' = Inl err" by simp_all
  obtain x where "fold_window 0 (s_log s) = Inr x" using session_inv_window [OF inv(1)] by blast
  from fold_window_seqs [OF this c(1)] c(1) have "ev_seq (s_log s ! ms_consumed st') \<le> length (s_log s)" by simp
  from fold_meter_event_extend [OF this, of nt fs st'] c
  have "fold_meter_event nt (s_log s @ fs) ((s_log s @ fs) ! ms_consumed st') st' = Inl err" by (simp add: nth_append)
  moreover obtain n where "length (s_log s @ fs) - ms_consumed st' = Suc n" using c(1)
    by (metis Suc_diff_Suc length_append trans_less_add1)
  ultimately have "sync_meter nt (s_log s @ fs) st' = (Inl err, st')" by (simp add: sync_meter_def)
  with c(1) sync_meter_inv [OF inv] assms(2) show ?thesis by simp
qed

definition sources_ok :: "(jnum \<Rightarrow> string) \<Rightarrow> session_event list \<Rightarrow> bool" where
  "sources_ok nt es \<longleftrightarrow> (\<forall>e \<in> set es. \<forall>d n. ev_payload e = AssistantMessageEvent d \<longrightarrow> is_ok (estimate_provider_assistant nt es e d n))"

definition steps_agree :: "session_trace \<Rightarrow> meter_state \<Rightarrow> bool" where
  "steps_agree tr st \<longleftrightarrow> map_option (\<lambda>(t, s, _). (Some t, Some s)) (ms_step st)
     = (if open_step tr = None then None else Some (open_turn tr, open_step tr))"

lemma steps_agree_open:
  "steps_agree tr st \<Longrightarrow> open_turn tr = Some t \<Longrightarrow> open_step tr = Some s \<Longrightarrow> \<exists>ns. ms_step st = Some (t, s, ns)"
  by (auto simp: steps_agree_def)

lemma steps_agree_closed: "steps_agree tr st \<Longrightarrow> open_step tr = None \<Longrightarrow> ms_step st = None"
  by (auto simp: steps_agree_def)

lemma trace_other_steps:
  assumes "trace_step e tr = Inr tr'" and "\<And>t s. ev_payload e \<noteq> StepStart t s"
    and "\<And>t s. ev_payload e \<noteq> StepEnd t s" and "trace_inv tr"
  shows "open_step tr' = open_step tr \<and> (open_step tr \<noteq> None \<longrightarrow> open_turn tr' = open_turn tr)"
  using assms
  by (cases "ev_payload e") (auto simp: validate_defs and_then_Inr_iff Let_def trace_inv_def split: if_splits option.splits)

lemma next_meter_step_ok:
  assumes "trace_step e tr = Inr tr'" and "trace_inv tr" and "steps_agree tr st"
  obtains stp where "next_meter_step e st = Inr stp"
    and "\<And>st'. ms_step st' = stp \<Longrightarrow> steps_agree tr' st'"
proof (cases "\<exists>t s. ev_payload e = StepStart t s \<or> ev_payload e = StepEnd t s")
  case True
  then consider t s where "ev_payload e = StepStart t s" | t s where "ev_payload e = StepEnd t s" by blast
  then show ?thesis
  proof cases
    case (1 t s)
    with assms(1) have "open_step tr = None" "open_turn tr' = Some t" "open_step tr' = Some s"
      by (auto simp: validate_defs and_then_Inr_iff split: if_splits option.splits)
    with 1 steps_agree_closed [OF assms(3)] show ?thesis
      by (intro that [of "Some (t, s, ms_surface st)"]) (simp_all add: next_meter_step_def steps_agree_def)
  next
    case (2 t s)
    with assms(1) have "open_turn tr = Some t" "open_step tr = Some s" "open_step tr' = None"
      by (auto simp: validate_defs and_then_Inr_iff split: if_splits)
    moreover from this steps_agree_open [OF assms(3)] obtain ns where "ms_step st = Some (t, s, ns)" by blast
    ultimately show ?thesis using 2
      by (intro that [of None]) (simp_all add: next_meter_step_def steps_agree_def)
  qed
next
  case False
  with trace_other_steps [OF assms(1) _ _ assms(2)]
  have "open_step tr' = open_step tr \<and> (open_step tr \<noteq> None \<longrightarrow> open_turn tr' = open_turn tr)" by blast
  moreover have "next_meter_step e st = Inr (ms_step st)"
    using False by (cases "ev_payload e") (auto simp: next_meter_step_def)
  ultimately show ?thesis using assms(3) by (intro that) (auto simp: steps_agree_def)
qed

lemma fold_meter_event_ok:
  assumes tr: "trace_step e tr = Inr tr'" "trace_inv tr" "steps_agree tr st" and plan: "is_ok (event_plan nt (ms_surface st) e)"
    and src: "\<And>d n. ev_payload e = AssistantMessageEvent d \<Longrightarrow> is_ok (estimate_provider_assistant nt es e d n)"
  obtains st' where "fold_meter_event nt es e st = Inr st'" and "steps_agree tr' (st'\<lparr>ms_consumed := k\<rparr>)"
proof -
  from next_meter_step_ok [OF tr] obtain stp where stp: "next_meter_step e st = Inr stp"
    and agree: "\<And>st'. ms_step st' = stp \<Longrightarrow> steps_agree tr' st'" by blast
  from plan obtain p where p: "event_plan nt (ms_surface st) e = Inr p" by (auto simp: is_ok_iff)
  have "\<exists>a. next_anchor nt es e p (fold_header_event e (ms_header st)) st = Inr a"
  proof (cases "\<exists>d. ev_payload e = AssistantMessageEvent d")
    case True
    then obtain d where d: "ev_payload e = AssistantMessageEvent d" by blast
    with tr(1) have "open_turn tr = Some (asst_turn d)" "open_step tr = Some (asst_step d)"
      by (auto simp: validate_defs and_then_Inr_iff split: if_splits)
    with steps_agree_open [OF tr(3)] obtain ns where "ms_step st = Some (asst_turn d, asst_step d, ns)" by blast
    moreover from src [OF d, of "tp_tokens (the p)"] obtain k where
      "estimate_provider_assistant nt es e d (tp_tokens (the p)) = Inr k" by (auto simp: is_ok_iff)
    ultimately show ?thesis using d by (simp add: next_anchor_def Let_def)
  next
    case False
    then show ?thesis by (cases "ev_payload e") (auto simp: next_anchor_def)
  qed
  then obtain a where "next_anchor nt es e p (fold_header_event e (ms_header st)) st = Inr a" ..
  with stp p show ?thesis
    by (intro that [of "st\<lparr>ms_header := fold_header_event e (ms_header st), ms_step := stp,
        ms_surface := commit_plan p (ms_surface st), ms_anchor := a\<rparr>"] agree) (simp_all add: fold_meter_event_def Let_def)
qed

lemma meter_loop_Suc:
  "meter_loop nt es n st = (Inr (), st') \<Longrightarrow> meter_loop nt es (Suc n) st = meter_loop nt es 1 st'"
proof (induction n arbitrary: st)
  case (Suc n)
  then obtain st1 where "fold_meter_event nt es (es ! ms_consumed st) st = Inr st1"
    by (auto split: sum.splits)
  with Suc.prems Suc.IH [of "st1\<lparr>ms_consumed := ms_consumed st + 1\<rparr>"] show ?case by simp
qed simp

lemma meter_loop_ok:
  assumes ok: "fold_window 0 es = Inr x" and src: "sources_ok nt es" and tr: "seed_session es = Inr tr"
  shows "n \<le> length es \<Longrightarrow> \<exists>tr' st. seed_session (take n es) = Inr tr' \<and> meter_loop nt es n fresh_meter = (Inr (), st)
    \<and> ms_consumed st = n \<and> steps_agree tr' st"
proof (induction n)
  case 0
  then show ?case by (simp add: fresh_meter_def steps_agree_def fresh_trace_def)
next
  case (Suc n)
  then obtain tr1 st where ih: "seed_session (take n es) = Inr tr1" "meter_loop nt es n fresh_meter = (Inr (), st)"
    "ms_consumed st = n" "steps_agree tr1 st" by auto
  have n: "n < length es" using Suc.prems by simp
  let ?e = "es ! n"
  have es: "take (Suc n) es = take n es @ [?e]" using n by (simp add: take_Suc_conv_app_nth)
  have "is_ok (seed_session (take (Suc n) es))"
  proof -
    have "and_then (seed_session (take (Suc n) es)) (fold_result trace_step (drop (Suc n) es)) = Inr tr"
      using tr fold_result_append [of trace_step "take (Suc n) es" "drop (Suc n) es" fresh_trace]
      by (simp add: seed_session_def)
    then show ?thesis by (auto simp: and_then_Inr_iff is_ok_iff)
  qed
  then obtain tr2 where tr2: "seed_session (take (Suc n) es) = Inr tr2" "trace_step ?e tr1 = Inr tr2"
    using ih(1) by (auto simp: es seed_session_snoc is_ok_iff)
  have "ms_consumed fresh_meter + n \<le> length es" using n by (simp add: fresh_meter_def)
  from meter_loop_inv [OF ok fresh_meter_inv this, of nt] ih(2) have inv: "meter_inv nt es st" by simp
  obtain sf reps where sf: "fold_window 0 (take n es) = Inr (sf, reps)" "ms_surface st = priced_nodes nt (take n es) (nodes sf)"
    using inv ih(3) by (auto simp: meter_inv_def)
  from fold_window_take [OF ok, of "Suc n"] obtain sf' reps' where "fold_window 0 (take n es @ [?e]) = Inr (sf', reps')"
    unfolding es by auto
  from token_step_mirrors [OF this sf(1), of nt] sf(2) have plan: "is_ok (event_plan nt (ms_surface st) ?e)"
    by (auto simp: token_step_def and_then_Inr_iff is_ok_iff)
  have "is_ok (estimate_provider_assistant nt es ?e d k)" if "ev_payload ?e = AssistantMessageEvent d" for d k
    using src that n by (simp add: sources_ok_def)
  from fold_meter_event_ok [OF tr2(2) seed_session_inv [OF ih(1)] ih(4) plan this, of "Suc n"] obtain st' where
    "fold_meter_event nt es ?e st = Inr st'" "steps_agree tr2 (st'\<lparr>ms_consumed := Suc n\<rparr>)" by blast
  with ih(3) tr2(1) meter_loop_Suc [OF ih(2)] show ?case by simp
qed

text \<open>
  The meter can read every session the trace accepts: for a reachable session whose log satisfies
  the turn and step relations and whose assistant messages cite readable chunks of their own step, a
  first measurement consumes the whole log without an error.
\<close>

theorem meter_reads_traced_session:
  assumes "session_reach s" and "seed_session (s_log s) = Inr tr" and "sources_ok nt (s_log s)"
  shows "\<exists>st. sync_meter nt (s_log s) fresh_meter = (Inr (), st) \<and> ms_consumed st = length (s_log s)
    \<and> (ms_step st = None \<longleftrightarrow> open_step tr = None)"
proof -
  obtain x where "fold_window 0 (s_log s) = Inr x" using session_inv_window [OF session_reach_inv [OF assms(1)]] by blast
  from meter_loop_ok [OF this assms(3,2), of "length (s_log s)"] assms(2) show ?thesis
    by (auto simp: sync_meter_def fresh_meter_def steps_agree_def split: if_splits)
qed

section \<open>Examples\<close>

definition meter_log :: "session_event list" where
  "meter_log =
     [log_event (TurnStart 1) 0, append_event (UserMessageEvent (greeting ''hello'')) 1, log_event (StepStart 1 1) 2,
      log_event (AssistantChunk 1 1 (TextDelta 0 ''hi'')) 3,
      append_event (AssistantMessageEvent \<lparr>asst_turn = 1, asst_step = 1,
        asst_message = \<lparr>am_id = ''a'', am_content = [TextBlock ''hi''], am_provider = ''p'', am_model = ''m'', am_replay = None\<rparr>,
        asst_usage = None, asst_interrupted = False\<rparr>) 4,
      log_event (StepEnd 1 1) 5, log_event (TurnEnd 1 Completed) 6, log_event EndSeed 7]"

lemma meter_session:
  obtains s where "session_reach s" and "s_log s = meter_log"
proof -
  have "case construct_session 5 ''s'' (Some meter_log) None SnapshotSeed None of Inl _ \<Rightarrow> False | Inr s \<Rightarrow> s_log s = meter_log"
    by code_simp
  then obtain s where "construct_session 5 ''s'' (Some meter_log) None SnapshotSeed None = Inr s" "s_log s = meter_log"
    by (auto split: sum.splits)
  then show ?thesis by (intro that session_reach.construct)
qed

theorem meter_reads_traced_session_witness:
  "\<exists>(s :: session) st. s_log s = meter_log \<and> sync_meter plain_text (s_log s) fresh_meter = (Inr (), st) \<and> ms_consumed st = 8"
proof -
  obtain s where s: "session_reach s" "s_log s = meter_log" by (rule meter_session)
  have "is_ok (seed_session meter_log)" by code_simp
  then obtain tr where tr: "seed_session (s_log s) = Inr tr" using s(2) by (auto simp: is_ok_iff)
  have src: "sources_ok plain_text meter_log"
    by (auto simp: sources_ok_def meter_log_def estimate_provider_assistant_def append_event_def log_event_def)
  have "length meter_log = 8" by (simp add: meter_log_def)
  moreover obtain st where "sync_meter plain_text (s_log s) fresh_meter = (Inr (), st)" "ms_consumed st = length (s_log s)"
    using meter_reads_traced_session [OF s(1) tr, of plain_text] src unfolding s(2) by blast
  ultimately show ?thesis using s(2) by (intro exI [of _ s] exI [of _ st]) simp
qed

theorem measure_describes_surface_witness:
  "\<exists>(s :: session) m st. s_log s = meter_log \<and> meter_measure plain_text (\<lambda>_ _. None) None (s_log s) fresh_meter = (Inr m, st)
     \<and> map pn_seq (me_nodes m) = [1, 4] \<and> me_revision m = 8"
proof -
  obtain s where s: "session_reach s" "s_log s = meter_log" by (rule meter_session)
  have "is_ok (fst (meter_measure plain_text (\<lambda>_ _. None) None meter_log fresh_meter))" by code_simp
  then obtain m st where m: "meter_measure plain_text (\<lambda>_ _. None) None meter_log fresh_meter = (Inr m, st)"
    by (cases "meter_measure plain_text (\<lambda>_ _. None) None meter_log fresh_meter") (auto simp: is_ok_iff)
  have "fold_surface meter_log = Inr ([1, 4], [])" by code_simp
  moreover have "length meter_log = 8" by (simp add: meter_log_def)
  moreover note measure_describes_surface [OF meter_run.start [OF s(1)] m [folded s(2)]]
  ultimately have "map pn_seq (me_nodes m) = [1, 4]" "me_revision m = 8" by (auto simp: s(2))
  then show ?thesis using m s(2) by (intro exI [of _ s] exI [of _ m] exI [of _ st]) simp
qed

theorem measure_conservative_witness:
  "\<exists>m st. measured plain_text None (snd (sync_meter plain_text meter_log fresh_meter)) None = Inr m \<and> st = me_total m \<and> 0 \<le> st"
proof -
  have "is_ok (measured plain_text None (snd (sync_meter plain_text meter_log fresh_meter)) None)" by code_simp
  then show ?thesis using measure_conservative by (auto simp: is_ok_iff)
qed

definition bad_meter_log :: "session_event list" where
  "bad_meter_log = [log_event (StepEnd 1 1) 0, log_event EndSeed 1]"

theorem meter_error_sticky_witness:
  "\<exists>(s :: session) st. s_log s = bad_meter_log \<and> sync_meter plain_text (s_log s @ meter_log) st = (Inl (NoStepToEnd 0), st)"
proof -
  have "case construct_session 5 ''s'' (Some bad_meter_log) None SnapshotSeed None of Inl _ \<Rightarrow> False | Inr s \<Rightarrow> s_log s = bad_meter_log"
    by code_simp
  then obtain s where "construct_session 5 ''s'' (Some bad_meter_log) None SnapshotSeed None = Inr s" "s_log s = bad_meter_log"
    by (auto split: sum.splits)
  moreover from this have bad: "sync_meter plain_text (s_log s) fresh_meter = (Inl (NoStepToEnd 0), fresh_meter)"
    by (simp add: sync_meter_def bad_meter_log_def fold_meter_event_def next_meter_step_def fresh_meter_def log_event_def Let_def)
  ultimately have "sync_meter plain_text (s_log s @ meter_log) fresh_meter = (Inl (NoStepToEnd 0), fresh_meter)"
    using meter_error_sticky [OF meter_run.start [OF session_reach.construct] bad, of _ _ _ _ _ _ meter_log] by blast
  with \<open>s_log s = bad_meter_log\<close> show ?thesis by blast
qed

end
