(* ===== verification/Compaction_Region.thy ===== *)
theory Compaction_Region
  imports Tool_Pairing Compaction_Trace Token_Meter
begin

text \<open>
  \<open>packages/compaction/compaction-basic/src/region.ts\<close>: choosing the span of the surface to compact,
  validating it, and reading from the log whether a turn or a compaction is open. The session, the
  cached balance of its surface and the meter's replay are one state, and every step says what it
  leaves behind when it fails.
\<close>

section \<open>Steps that read or change a state and may fail\<close>

type_synonym ('s, 'e, 'a) step = "'s \<Rightarrow> ('e, 'a) result \<times> 's"

definition give :: "'a \<Rightarrow> ('s, 'e, 'a) step" where
  "give x w = (Inr x, w)"

definition raise :: "'e \<Rightarrow> ('s, 'e, 'a) step" where
  "raise e w = (Inl e, w)"

definition lift_result :: "('e, 'a) result \<Rightarrow> ('s, 'e, 'a) step" where
  "lift_result r w = (r, w)"

definition and_do :: "('s, 'e, 'a) step \<Rightarrow> ('a \<Rightarrow> ('s, 'e, 'b) step) \<Rightarrow> ('s, 'e, 'b) step" where
  "and_do m f w = (case m w of (Inl e, w') \<Rightarrow> (Inl e, w') | (Inr x, w') \<Rightarrow> f x w')"

text \<open>A step whose errors are wrapped.\<close>

definition wrap :: "('e \<Rightarrow> 'f) \<Rightarrow> ('s, 'e, 'a) step \<Rightarrow> ('s, 'f, 'a) step" where
  "wrap g m w = (case m w of (r, w') \<Rightarrow> (rethrow g r, w'))"

section \<open>The session, its balance cache and its meter\<close>

record region_world =
  rw_session :: session
  rw_balance :: "balance_cache option"
  rw_meter :: meter_state

datatype manual_code = ManualBusy | ManualChanged | ManualSummary | ManualCommit | ManualPersistence

datatype region_error =
    MeterMismatch
  | RegionStartMissing nat
  | RegionEndMissing nat
  | RegionReversed nat nat nat nat
  | StartUnbalanced nat
  | EndUnbalanced nat
  | NoOpenTurn
  | MissingEvent nat
  | NotSmaller nat int
  | Summarizer string
  | SignalAborted
  | FlushFailed string
  | SurfaceRead surface_error
  | Pairing pairing_error
  | Metering meter_error
  | Appending session_error
  | SurfaceChanged "region_error option"
  | ManualFailure manual_code "region_error option"

record region_env =
  re_number_text :: "jnum \<Rightarrow> string"
  re_routes :: "string \<Rightarrow> string \<Rightarrow> image_pricing option"
  re_chain :: "region_error \<Rightarrow> string"

abbreviation region_log :: "region_world \<Rightarrow> session_event list" where
  "region_log w \<equiv> s_log (rw_session w)"

definition surface_nodes :: "(region_world, region_error, nat list) step" where
  "surface_nodes w =
     (case manager_nodes (region_log w) (s_surface (rw_session w)) of
        (r, m) \<Rightarrow> (rethrow SurfaceRead r, w\<lparr>rw_session := (rw_session w)\<lparr>s_surface := m\<rparr>\<rparr>))"

definition pairing_query ::
    "(session \<Rightarrow> balance_cache option \<Rightarrow> (pairing_error, bool) result \<times> session \<times> balance_cache option) \<Rightarrow>
     (region_world, region_error, bool) step" where
  "pairing_query ask w =
     (case ask (rw_session w) (rw_balance w) of
        (r, s, held) \<Rightarrow> (rethrow Pairing r, w\<lparr>rw_session := s, rw_balance := held\<rparr>))"

definition measure_surface :: "region_env \<Rightarrow> (region_world, region_error, measurement) step" where
  "measure_surface env w =
     (case meter_measure (re_number_text env) (re_routes env) None (region_log w) (rw_meter w) of
        (r, st) \<Rightarrow> (rethrow Metering r, w\<lparr>rw_meter := st\<rparr>))"

definition append_log ::
    "int \<Rightarrow> payload \<Rightarrow> json option \<Rightarrow> json option \<Rightarrow> (region_world, region_error, session_event) step" where
  "append_log now p op sources w =
     (case session_append now p op sources (rw_session w) of
        (r, s) \<Rightarrow> (rethrow Appending r, w\<lparr>rw_session := s\<rparr>))"

section \<open>Selecting a range\<close>

text \<open>The first loop: from the end, until the kept tail has the budget. It ends at 0 when the whole surface has not.\<close>

fun retain_from :: "int list \<Rightarrow> int \<Rightarrow> int \<Rightarrow> nat \<Rightarrow> nat" where
  "retain_from tokens retain acc 0 = 0"
| "retain_from tokens retain acc (Suc i) =
     (let acc' = acc + tokens ! i in if acc' \<ge> retain then i else retain_from tokens retain acc' i)"

text \<open>The second loop: back to a cut that splits no call from its result.\<close>

fun balance_back :: "nat list \<Rightarrow> nat \<Rightarrow> (region_world, region_error, nat) step" where
  "balance_back ns 0 = give 0"
| "balance_back ns (Suc k) =
     and_do (pairing_query (tool_pairing_balanced_before (ns ! Suc k))) (\<lambda>b.
       if b then give (Suc k) else balance_back ns k)"

definition select_compactable_range ::
    "measurement \<Rightarrow> int \<Rightarrow> (region_world, region_error, (nat \<times> nat) option) step" where
  "select_compactable_range m retain =
     (if me_nodes m = [] then give None
      else and_do surface_nodes (\<lambda>ns.
        if ns \<noteq> map pn_seq (me_nodes m) then raise MeterMismatch
        else let keep = retain_from (map pn_tokens (me_nodes m)) retain 0 (length (me_nodes m)) in
          if keep = 0 then give None
          else and_do (balance_back ns keep) (\<lambda>k.
            give (if k = 0 then None else Some (ns ! 0, ns ! (k - 1))))))"

record surface_selection =
  sl_start :: nat
  sl_end :: nat
  sl_start_idx :: nat
  sl_end_idx :: nat
  sl_shadowed :: "nat list"

definition validate_surface_region :: "nat \<Rightarrow> nat \<Rightarrow> (region_world, region_error, surface_selection) step" where
  "validate_surface_region start end_seq =
     and_do surface_nodes (\<lambda>ns.
       case (index_of start ns, index_of end_seq ns) of
         (None, _) \<Rightarrow> raise (RegionStartMissing start)
       | (Some i, None) \<Rightarrow> raise (RegionEndMissing end_seq)
       | (Some i, Some j) \<Rightarrow>
           if i > j then raise (RegionReversed start i end_seq j)
           else and_do (pairing_query (tool_pairing_balanced_before (ns ! i))) (\<lambda>b.
             if \<not> b then raise (StartUnbalanced start)
             else and_do (pairing_query (tool_pairing_balanced_after (ns ! j))) (\<lambda>b'.
               if \<not> b' then raise (EndUnbalanced end_seq)
               else give \<lparr>sl_start = start, sl_end = end_seq, sl_start_idx = i, sl_end_idx = j,
                          sl_shadowed = slice i (j + 1) ns\<rparr>)))"

section \<open>The state of the log at entry\<close>

record entry_state =
  es_turn :: "int option"
  es_start :: "session_event option"
  es_seed :: "nat option"

text \<open>The backward scan, with the two facts it already knows.\<close>

record entry_scan = entry_state +
  turn_known :: bool
  start_known :: bool

definition scan_seed :: "session_event \<Rightarrow> entry_scan \<Rightarrow> entry_scan" where
  "scan_seed e st = (if es_seed st = None \<and> ev_payload e = EndSeed then st\<lparr>es_seed := Some (ev_seq e)\<rparr> else st)"

definition scan_bracket :: "session_event \<Rightarrow> entry_scan \<Rightarrow> entry_scan" where
  "scan_bracket e st =
     (if start_known st then st
      else case ev_payload e of
             CompactionStart _ \<Rightarrow> st\<lparr>es_start := Some e, start_known := True\<rparr>
           | CompactionEnd _ \<Rightarrow> st\<lparr>start_known := True\<rparr>
           | _ \<Rightarrow> st)"

definition scan_turn :: "session_event \<Rightarrow> entry_scan \<Rightarrow> entry_scan" where
  "scan_turn e st =
     (if turn_known st then st
      else case ev_payload e of
             TurnStart t \<Rightarrow> st\<lparr>es_turn := Some t, turn_known := True\<rparr>
           | TurnEnd _ _ \<Rightarrow> st\<lparr>turn_known := True\<rparr>
           | _ \<Rightarrow> st)"

fun scan_back :: "session_event list \<Rightarrow> entry_scan \<Rightarrow> entry_scan" where
  "scan_back [] st = st"
| "scan_back (e # es) st =
     (let st' = scan_turn e (scan_bracket e (scan_seed e st)) in
      if turn_known st' \<and> start_known st' \<and> es_seed st' \<noteq> None then st' else scan_back es st')"

definition inspect_entry_state :: "session_event list \<Rightarrow> entry_state" where
  "inspect_entry_state es =
     entry_state.truncate (scan_back (rev es)
       \<lparr>es_turn = None, es_start = None, es_seed = None, turn_known = False, start_known = False\<rparr>)"

definition assert_compaction_inactive :: "entry_state \<Rightarrow> (region_error, unit) result" where
  "assert_compaction_inactive st =
     (case es_start st of
        None \<Rightarrow> Inr ()
      | Some e \<Rightarrow>
          (case es_seed st of
             Some seed \<Rightarrow> reject_if (\<not> seed > ev_seq e) (ManualFailure ManualBusy None)
           | None \<Rightarrow> Inl (ManualFailure ManualBusy None)))"

definition assert_no_active_compaction :: "session_event list \<Rightarrow> (region_error, unit) result" where
  "assert_no_active_compaction es = assert_compaction_inactive (inspect_entry_state es)"

section \<open>Steps that only read\<close>

definition region_ok :: "region_env \<Rightarrow> region_world \<Rightarrow> bool" where
  "region_ok env w \<longleftrightarrow> session_inv (rw_session w) \<and> held_ok (rw_session w) (rw_balance w)
     \<and> meter_inv (re_number_text env) (region_log w) (rw_meter w)
     \<and> int (length (region_log w)) \<le> MAX_SAFE_INTEGER + 1"

text \<open>A step that answers a function of the log and changes caches only.\<close>

definition reads :: "region_env \<Rightarrow> (region_world, 'e, 'a) step \<Rightarrow> (session_event list \<Rightarrow> ('e, 'a) result) \<Rightarrow> bool" where
  "reads env m g \<longleftrightarrow> (\<forall>w. region_ok env w \<longrightarrow>
     (\<exists>w'. m w = (g (region_log w), w') \<and> region_ok env w' \<and> region_log w' = region_log w))"

definition log_nodes :: "session_event list \<Rightarrow> nat list" where
  "log_nodes es = (case fold_window 0 es of Inr (st, _) \<Rightarrow> nodes st | Inl _ \<Rightarrow> [])"

lemma reads_elim:
  assumes "reads env m g" and "region_ok env w"
  obtains w' where "m w = (g (region_log w), w')" "region_ok env w'" "region_log w' = region_log w"
  using assms by (auto simp: reads_def)

lemma reads_give: "reads env (give x) (\<lambda>_. Inr x)"
  by (simp add: reads_def give_def)

lemma reads_raise: "reads env (raise e) (\<lambda>_. Inl e)"
  by (simp add: reads_def raise_def)

lemma reads_and_do:
  assumes "reads env m g" and "\<And>x. reads env (f x) (h x)"
  shows "reads env (and_do m f) (\<lambda>es. and_then (g es) (\<lambda>x. h x es))"
  unfolding reads_def
proof (intro allI impI)
  fix w assume w: "region_ok env w"
  from assms(1) w obtain w1 where m: "m w = (g (region_log w), w1)" and w1: "region_ok env w1" "region_log w1 = region_log w"
    by (rule reads_elim)
  show "\<exists>w'. and_do m f w = (and_then (g (region_log w)) (\<lambda>x. h x (region_log w)), w')
      \<and> region_ok env w' \<and> region_log w' = region_log w"
  proof (cases "g (region_log w)")
    case (Inl e)
    with m w1 show ?thesis by (simp add: and_do_def)
  next
    case (Inr x)
    from assms(2) [of x] w1(1) obtain w' where "f x w1 = (h x (region_log w1), w')" "region_ok env w'" "region_log w' = region_log w1"
      by (rule reads_elim)
    with m w1 Inr show ?thesis by (simp add: and_do_def)
  qed
qed

lemma reads_cong: "reads env m g \<Longrightarrow> (\<And>es. g es = h es) \<Longrightarrow> reads env m h"
  by (simp add: reads_def)

lemma reads_surface_nodes: "reads env surface_nodes (\<lambda>es. Inr (log_nodes es))"
  unfolding reads_def
proof (intro allI impI)
  fix w assume w: "region_ok env w"
  let ?s = "rw_session w"
  from w have inv: "session_inv ?s" by (simp add: region_ok_def)
  then obtain k0 st reps where m: "manager_inv 0 (s_log ?s) k0 (s_surface ?s)" and f: "fold_window 0 (s_log ?s) = Inr (st, reps)"
    by (auto simp: session_inv_def is_ok_iff)
  from m obtain m1 where m1: "sync (s_log ?s) (s_surface ?s) = (Inr (), m1)"
    "manager_inv 0 (s_log ?s) (length (s_log ?s)) m1" "sm_state m1 = st"
    using f by (cases rule: sync_cases) auto
  have "session_inv (?s\<lparr>s_surface := m1\<rparr>)" using m1(2) by (intro surface_change_inv [OF inv]) blast
  with w m1 f show "\<exists>w'. surface_nodes w = (Inr (log_nodes (region_log w)), w') \<and> region_ok env w' \<and> region_log w' = region_log w"
    by (simp add: surface_nodes_def manager_nodes_def log_nodes_def region_ok_def held_ok_def)
qed

lemma reads_pairing:
  assumes "offset \<le> 1"
  shows "reads env (pairing_query (balanced_at offset seq)) (\<lambda>es. rethrow Pairing (balance_spec es (log_nodes es) seq offset))"
  unfolding reads_def
proof (intro allI impI)
  fix w assume w: "region_ok env w"
  then have inv: "session_inv (rw_session w)" "held_ok (rw_session w) (rw_balance w)" by (simp_all add: region_ok_def)
  from balanced_at_spec [OF inv assms, of seq] obtain st reps s' held' where
    "balanced_at offset seq (rw_session w) (rw_balance w) = (balance_spec (region_log w) (nodes st) seq offset, s', held')"
    "fold_window 0 (region_log w) = Inr (st, reps)" "session_inv s'" "s_log s' = region_log w" "held_ok s' held'" .
  with w show "\<exists>w'. pairing_query (balanced_at offset seq) w
      = (rethrow Pairing (balance_spec (region_log w) (log_nodes (region_log w)) seq offset), w')
      \<and> region_ok env w' \<and> region_log w' = region_log w"
    by (simp add: pairing_query_def log_nodes_def region_ok_def)
qed

lemma reads_before:
  "reads env (pairing_query (tool_pairing_balanced_before seq)) (\<lambda>es. rethrow Pairing (balance_spec es (log_nodes es) seq 0))"
  unfolding tool_pairing_balanced_before_def by (rule reads_pairing) simp

lemma reads_after:
  "reads env (pairing_query (tool_pairing_balanced_after seq)) (\<lambda>es. rethrow Pairing (balance_spec es (log_nodes es) seq 1))"
  unfolding tool_pairing_balanced_after_def by (rule reads_pairing) simp

section \<open>The selected range\<close>

fun back_spec :: "session_event list \<Rightarrow> nat list \<Rightarrow> nat \<Rightarrow> (region_error, nat) result" where
  "back_spec es ns 0 = Inr 0"
| "back_spec es ns (Suc k) =
     and_then (rethrow Pairing (balance_spec es (log_nodes es) (ns ! Suc k) 0)) (\<lambda>b.
       if b then Inr (Suc k) else back_spec es ns k)"

lemma reads_if: "(b \<Longrightarrow> reads env m g) \<Longrightarrow> (\<not> b \<Longrightarrow> reads env m' g') \<Longrightarrow> reads env (if b then m else m') (\<lambda>es. if b then g es else g' es)"
  by simp

lemma reads_balance_back: "reads env (balance_back ns k) (\<lambda>es. back_spec es ns k)"
proof (induction k)
  case 0
  then show ?case by (simp add: reads_give)
next
  case (Suc k)
  show ?case unfolding balance_back.simps back_spec.simps
    by (rule reads_and_do, rule reads_before, rule reads_if [OF reads_give Suc.IH])
qed


definition select_spec :: "measurement \<Rightarrow> int \<Rightarrow> session_event list \<Rightarrow> (region_error, (nat \<times> nat) option) result" where
  "select_spec m retain es =
     (if me_nodes m = [] then Inr None
      else if log_nodes es \<noteq> map pn_seq (me_nodes m) then Inl MeterMismatch
      else let keep = retain_from (map pn_tokens (me_nodes m)) retain 0 (length (me_nodes m)) in
        if keep = 0 then Inr None
        else and_then (back_spec es (log_nodes es) keep) (\<lambda>k.
          Inr (if k = 0 then None else Some (log_nodes es ! 0, log_nodes es ! (k - 1)))))"

lemma reads_select: "reads env (select_compactable_range m retain) (select_spec m retain)"
  unfolding select_compactable_range_def select_spec_def Let_def
  by (rule reads_cong, (rule reads_if reads_and_do reads_give reads_raise reads_surface_nodes reads_balance_back)+) simp

definition region_spec :: "nat \<Rightarrow> nat \<Rightarrow> session_event list \<Rightarrow> (region_error, surface_selection) result" where
  "region_spec start end_seq es =
     (let ns = log_nodes es in
      case (index_of start ns, index_of end_seq ns) of
        (None, _) \<Rightarrow> Inl (RegionStartMissing start)
      | (Some i, None) \<Rightarrow> Inl (RegionEndMissing end_seq)
      | (Some i, Some j) \<Rightarrow>
          if i > j then Inl (RegionReversed start i end_seq j)
          else and_then (rethrow Pairing (balance_spec es ns (ns ! i) 0)) (\<lambda>b.
            if \<not> b then Inl (StartUnbalanced start)
            else and_then (rethrow Pairing (balance_spec es ns (ns ! j) 1)) (\<lambda>b'.
              if \<not> b' then Inl (EndUnbalanced end_seq)
              else Inr \<lparr>sl_start = start, sl_end = end_seq, sl_start_idx = i, sl_end_idx = j,
                        sl_shadowed = slice i (j + 1) ns\<rparr>)))"

lemma reads_validate: "reads env (validate_surface_region start end_seq) (region_spec start end_seq)"
proof (rule reads_cong)
  show "reads env (validate_surface_region start end_seq)
    (\<lambda>es. and_then (Inr (log_nodes es)) (\<lambda>ns. (case (index_of start ns, index_of end_seq ns) of
         (None, _) \<Rightarrow> (\<lambda>es. Inl (RegionStartMissing start))
       | (Some i, None) \<Rightarrow> (\<lambda>es. Inl (RegionEndMissing end_seq))
       | (Some i, Some j) \<Rightarrow> (\<lambda>es.
           if i > j then Inl (RegionReversed start i end_seq j)
           else and_then (rethrow Pairing (balance_spec es (log_nodes es) (ns ! i) 0)) (\<lambda>b.
             if \<not> b then Inl (StartUnbalanced start)
             else and_then (rethrow Pairing (balance_spec es (log_nodes es) (ns ! j) 1)) (\<lambda>b'.
               if \<not> b' then Inl (EndUnbalanced end_seq)
               else Inr \<lparr>sl_start = start, sl_end = end_seq, sl_start_idx = i, sl_end_idx = j,
                          sl_shadowed = slice i (j + 1) ns\<rparr>)))) es))"
    unfolding validate_surface_region_def
  proof (rule reads_and_do [OF reads_surface_nodes])
    fix ns
    show "reads env
      (case (index_of start ns, index_of end_seq ns) of
         (None, _) \<Rightarrow> raise (RegionStartMissing start)
       | (Some i, None) \<Rightarrow> raise (RegionEndMissing end_seq)
       | (Some i, Some j) \<Rightarrow>
           if i > j then raise (RegionReversed start i end_seq j)
           else and_do (pairing_query (tool_pairing_balanced_before (ns ! i))) (\<lambda>b.
             if \<not> b then raise (StartUnbalanced start)
             else and_do (pairing_query (tool_pairing_balanced_after (ns ! j))) (\<lambda>b'.
               if \<not> b' then raise (EndUnbalanced end_seq)
               else give \<lparr>sl_start = start, sl_end = end_seq, sl_start_idx = i, sl_end_idx = j,
                          sl_shadowed = slice i (j + 1) ns\<rparr>)))
      (case (index_of start ns, index_of end_seq ns) of
         (None, _) \<Rightarrow> (\<lambda>es. Inl (RegionStartMissing start))
       | (Some i, None) \<Rightarrow> (\<lambda>es. Inl (RegionEndMissing end_seq))
       | (Some i, Some j) \<Rightarrow> (\<lambda>es.
           if i > j then Inl (RegionReversed start i end_seq j)
           else and_then (rethrow Pairing (balance_spec es (log_nodes es) (ns ! i) 0)) (\<lambda>b.
             if \<not> b then Inl (StartUnbalanced start)
             else and_then (rethrow Pairing (balance_spec es (log_nodes es) (ns ! j) 1)) (\<lambda>b'.
               if \<not> b' then Inl (EndUnbalanced end_seq)
               else Inr \<lparr>sl_start = start, sl_end = end_seq, sl_start_idx = i, sl_end_idx = j,
                          sl_shadowed = slice i (j + 1) ns\<rparr>))))"
      by (cases "index_of start ns"; cases "index_of end_seq ns")
        (simp_all only: option.case prod.case reads_raise,
          (rule reads_if reads_and_do reads_give reads_raise reads_before reads_after)+)
  qed
qed (simp add: region_spec_def Let_def split: option.split)

text \<open>What the first loop finds.\<close>

definition tail_sum :: "int list \<Rightarrow> nat \<Rightarrow> int" where
  "tail_sum tokens j = sum_list (drop j tokens)"

lemma tail_sum_step: "j < length tokens \<Longrightarrow> tail_sum tokens j = tokens ! j + tail_sum tokens (Suc j)"
  by (simp add: tail_sum_def Cons_nth_drop_Suc [symmetric])

lemma retain_from_spec:
  "i \<le> length tokens \<Longrightarrow> acc = tail_sum tokens i \<Longrightarrow> r = retain_from tokens retain acc i \<Longrightarrow>
     r \<le> i \<and> (0 < i \<longrightarrow> r < i) \<and> (r = 0 \<or> retain \<le> tail_sum tokens r) \<and> (\<forall>j. r < j \<and> j < i \<longrightarrow> tail_sum tokens j < retain)"
proof (induction i arbitrary: acc)
  case 0
  then show ?case by simp
next
  case (Suc i)
  have step: "acc + tokens ! i = tail_sum tokens i" using Suc.prems tail_sum_step [of i tokens] by simp
  show ?case
  proof (cases "tail_sum tokens i \<ge> retain")
    case True
    then have "r = i" using Suc.prems step by (simp add: Let_def)
    with True show ?thesis by (auto simp: less_Suc_eq)
  next
    case False
    then have "r = retain_from tokens retain (tail_sum tokens i) i" using Suc.prems step by (simp add: Let_def)
    from Suc.IH [OF _ refl this] Suc.prems False show ?thesis by (auto simp: less_Suc_eq)
  qed
qed

lemma tail_sum_antimono:
  assumes "\<forall>t \<in> set tokens. 0 \<le> t" and "i \<le> j"
  shows "tail_sum tokens j \<le> tail_sum tokens i"
proof -
  have "drop i tokens = take (j - i) (drop i tokens) @ drop j tokens"
    using assms(2) by (metis append_take_drop_id drop_drop le_add_diff_inverse2)
  then have "tail_sum tokens i = sum_list (take (j - i) (drop i tokens)) + tail_sum tokens j"
    unfolding tail_sum_def by (metis sum_list_append)
  moreover have "0 \<le> sum_list (take (j - i) (drop i tokens))"
    by (rule sum_list_nonneg) (use assms(1) in \<open>auto dest: in_set_takeD in_set_dropD\<close>)
  ultimately show ?thesis by simp
qed

lemma log_nodes_named:
  "fold_window 0 es = Inr x \<Longrightarrow> named es (log_nodes es) \<and> distinct (log_nodes es)"
  using fold_window_named fold_window_nodes_within
  by (cases x) (fastforce simp: log_nodes_def nodes_within_def)

lemma log_nodes_below: "n \<in> set (log_nodes es) \<Longrightarrow> n < length es"
  using log_nodes_named [of es] by (cases "fold_window 0 es") (auto simp: named_def log_nodes_def)

definition well_paired :: "session_event list \<Rightarrow> bool" where
  "well_paired es \<longleftrightarrow> (\<forall>i \<le> length (log_nodes es). 0 \<le> in_progress es (log_nodes es) i)"

lemma balance_spec_cut:
  assumes "fold_window 0 es = Inr x" and "well_paired es" and "i < length (log_nodes es)"
  shows "balance_spec es (log_nodes es) (log_nodes es ! i) offset = Inr (in_progress es (log_nodes es) (i + offset) = 0)"
proof -
  note n = log_nodes_named [OF assms(1)]
  from balance_spec_answers [of es "log_nodes es" "log_nodes es ! i" offset] n assms(2,3)
  obtain j where "j < length (log_nodes es)" "log_nodes es ! j = log_nodes es ! i"
    "balance_spec es (log_nodes es) (log_nodes es ! i) offset = Inr (in_progress es (log_nodes es) (j + offset) = 0)"
    by (auto simp: well_paired_def)
  moreover from this have "j = i" using n assms(3) by (simp add: nth_eq_iff_index_eq)
  ultimately show ?thesis by simp
qed

text \<open>What the second loop finds: the last cut that splits nothing.\<close>

lemma back_spec_finds:
  assumes "fold_window 0 es = Inr x" and "well_paired es"
  shows "k < length (log_nodes es) \<Longrightarrow>
     \<exists>r \<le> k. back_spec es (log_nodes es) k = Inr r \<and> in_progress es (log_nodes es) r = 0
       \<and> (\<forall>j. r < j \<and> j \<le> k \<longrightarrow> in_progress es (log_nodes es) j \<noteq> 0)"
proof (induction k)
  case 0
  then show ?case by simp
next
  case (Suc k)
  note c = balance_spec_cut [OF assms Suc.prems, of 0]
  show ?case
  proof (cases "in_progress es (log_nodes es) (Suc k) = 0")
    case True
    then show ?thesis using c by (intro exI [of _ "Suc k"]) simp
  next
    case False
    from Suc obtain r where "r \<le> k" "back_spec es (log_nodes es) k = Inr r" "in_progress es (log_nodes es) r = 0"
      "\<forall>j. r < j \<and> j \<le> k \<longrightarrow> in_progress es (log_nodes es) j \<noteq> 0" by auto
    with False c show ?thesis by (intro exI [of _ r]) (auto simp: le_Suc_eq)
  qed
qed
section \<open>Every reachable state\<close>

text \<open>Whatever other code may do to the session in any order: appends, failed or not, balance queries,
  measurements and reads.\<close>

inductive region_step :: "region_env \<Rightarrow> region_world \<Rightarrow> region_world \<Rightarrow> bool" for env where
  append: "region_step env w (snd (append_log now p op sources w))"
| query: "offset \<le> 1 \<Longrightarrow> region_step env w (snd (pairing_query (balanced_at offset seq) w))"
| surface: "region_step env w (snd (surface_nodes w))"
| measured: "region_step env w (snd (measure_surface env w))"
| header: "region_step env w (w\<lparr>rw_session := snd (request_header (rw_session w))\<rparr>)"
| messages: "region_step env w (w\<lparr>rw_session := snd (derive_messages (rw_session w))\<rparr>)"

definition region_run :: "region_env \<Rightarrow> region_world \<Rightarrow> region_world \<Rightarrow> bool" where
  "region_run env = (region_step env)\<^sup>*\<^sup>*"

definition region_start :: "session \<Rightarrow> region_world" where
  "region_start s = \<lparr>rw_session = s, rw_balance = None, rw_meter = fresh_meter\<rparr>"

definition region_reach :: "region_env \<Rightarrow> region_world \<Rightarrow> bool" where
  "region_reach env w \<longleftrightarrow> (\<exists>s. session_reach s \<and> region_run env (region_start s) w)"

text \<open>The brand of the next sequence number bounds every log.\<close>

lemma session_append_bound:
  "session_append now p op sources s = (Inr e, s') \<Longrightarrow> int (length (s_log s)) \<le> MAX_SAFE_INTEGER"
  by (auto simp: session_append_def append_prepare_def append_validate_def session_seq_int split: sum.splits prod.splits if_splits)

lemma construct_session_bound:
  assumes "construct_session now sid seed header mode supplied = Inr s"
  shows "int (length (s_log s)) \<le> MAX_SAFE_INTEGER + 1"
proof -
  define es where "es = (case seed of Some es \<Rightarrow> es | None \<Rightarrow> [])"
  from assms obtain events m n where "fold_result (seed_event mode) es ([], new_manager 0) = Inr (events, m)"
    and "session_log_offset (JInt (int (length events))) = Inr n"
    unfolding construct_session_def es_def [symmetric]
    by (cases header; cases "mode = RestoreSeed") (auto simp: and_then_Inr_iff, blast?)
  then have "int (length es) \<le> MAX_SAFE_INTEGER"
    using seed_loop_Inr [of mode es events m] by (auto simp: session_log_offset_def split: if_splits)
  then show ?thesis using construct_session_Inr [OF assms]
    by (auto simp: es_def MAX_SAFE_INTEGER_def split: option.splits if_splits)
qed

lemma session_reach_bound: "session_reach s \<Longrightarrow> int (length (s_log s)) \<le> MAX_SAFE_INTEGER + 1"
proof (induction rule: session_reach.induct)
  case (construct now sid seed header mode supplied s)
  then show ?case by (rule construct_session_bound)
next
  case (append s now p op sources)
  obtain r s' where a: "session_append now p op sources s = (r, s')" by (cases "session_append now p op sources s")
  with session_append_log [OF session_reach_inv [OF append(1)] a] session_append_bound [of now p op sources s] append.IH
  show ?case by (cases r) auto
next
  case (vetoed s now p op sources)
  then show ?case by (elim append_prepare_cases [of s now p op sources, OF session_reach_inv]) auto
next
  case (read_messages s)
  then show ?case using derive_messages_spec [OF session_reach_inv [OF read_messages(1)]] by auto
qed (auto simp: request_header_def request_context_of_def snapshot_events_def Let_def split: option.splits)

lemma region_start_ok: "session_reach s \<Longrightarrow> region_ok env (region_start s)"
  by (simp add: region_ok_def region_start_def session_reach_inv held_ok_def fresh_meter_inv session_reach_bound)

lemma append_log_ok:
  assumes "region_ok env w" and "append_log now p op sources w = (r, w')"
  shows "region_ok env w'
    \<and> (case r of
         Inl _ \<Rightarrow> region_log w' = region_log w
       | Inr e \<Rightarrow> region_log w' = region_log w @ [e] \<and> ev_payload e = p \<and> ev_seq e = length (region_log w) \<and> ev_time e = now
           \<and> ev_surface_op e = op \<and> ev_sources e = sources)"
proof -
  have inv: "session_inv (rw_session w)" using assms(1) by (simp add: region_ok_def)
  obtain r0 s' where a: "session_append now p op sources (rw_session w) = (r0, s')" by (cases "session_append now p op sources (rw_session w)")
  note l = session_append_log [OF inv a]
  from assms(2) a have w': "w' = w\<lparr>rw_session := s'\<rparr>" "r = rethrow Appending r0" by (simp_all add: append_log_def)
  from l obtain fs where fs: "s_log s' = region_log w @ fs" by (cases r0) auto
  have "session_inv s'" using session_append_inv [OF inv, of now p op sources] a by simp
  moreover have "int (length (s_log s')) \<le> MAX_SAFE_INTEGER + 1"
    using l a session_append_bound [of now p op sources "rw_session w"] assms(1) by (cases r0) (auto simp: region_ok_def)
  ultimately have "region_ok env w'" using fs assms(1) w' held_ok_grow meter_inv_grow by (auto simp: region_ok_def)
  with l w' show ?thesis by (cases r0) auto
qed

lemma measure_surface_ok:
  assumes "region_ok env w" and "measure_surface env w = (r, w')"
  shows "region_ok env w' \<and> region_log w' = region_log w
    \<and> (\<forall>m. r = Inr m \<longrightarrow> map pn_seq (me_nodes m) = log_nodes (region_log w)
         \<and> map pn_heuristic (me_nodes m) = map (\<lambda>n. event_tokens (re_number_text env) (region_log w ! n)) (log_nodes (region_log w)))"
proof -
  obtain r0 st' where mm: "meter_measure (re_number_text env) (re_routes env) None (region_log w) (rw_meter w) = (r0, st')"
    by (cases "meter_measure (re_number_text env) (re_routes env) None (region_log w) (rw_meter w)")
  from assms(1) have inv: "session_inv (rw_session w)" "meter_inv (re_number_text env) (s_log (rw_session w)) (rw_meter w)"
    by (simp_all add: region_ok_def)
  from session_inv_window [OF inv(1)] obtain sf reps where "fold_window 0 (region_log w) = Inr (sf, reps)" by auto
  with meter_measure_spec [OF inv mm] assms mm show ?thesis
    by (auto simp: measure_surface_def region_ok_def log_nodes_def)
qed

lemma measure_surface_unrouted:
  assumes "measure_surface env w = (Inr m, w')" and "re_routes env = (\<lambda>_ _. None)"
  shows "map pn_tokens (me_nodes m) = map (int \<circ> pn_heuristic) (me_nodes m)"
proof -
  from assms obtain st header where "measured (re_number_text env) None st header = Inr m"
    by (auto simp: measure_surface_def meter_measure_def Let_def split: prod.splits sum.splits option.splits)
  then obtain ns where "me_nodes m = map (\<lambda>n. public_of n (int (mn_heuristic n))) ns"
    by (auto simp: measured_def and_then_Inr_iff price_surface_def)
  then show ?thesis by (simp add: public_of_def comp_def)
qed

lemma region_step_ok:
  assumes "region_step env w w'" and "region_ok env w"
  shows "region_ok env w' \<and> (\<exists>fs. region_log w' = region_log w @ fs)"
  using assms
proof cases
  case (append now p op sources)
  obtain r w1 where a: "append_log now p op sources w = (r, w1)" by (cases "append_log now p op sources w")
  with append append_log_ok [OF assms(2) a] show ?thesis by (cases r) auto
next
  case (query offset seq)
  with reads_elim [OF reads_pairing assms(2)] show ?thesis by (metis append_Nil2 snd_conv)
next
  case surface
  with reads_elim [OF reads_surface_nodes assms(2)] show ?thesis by (metis append_Nil2 snd_conv)
next
  case measured
  with measure_surface_ok [OF assms(2)] show ?thesis by (metis append_Nil2 prod.collapse)
next
  case header
  with assms(2) request_header_inv show ?thesis
    by (auto simp: region_ok_def held_ok_def request_header_def Let_def)
next
  case messages
  with assms(2) derive_messages_spec [of "rw_session w"] show ?thesis
    by (auto simp: region_ok_def held_ok_def)
qed

lemma region_run_ok:
  "region_run env w w' \<Longrightarrow> region_ok env w \<Longrightarrow> region_ok env w' \<and> (\<exists>fs. region_log w' = region_log w @ fs)"
  unfolding region_run_def
proof (induction rule: rtranclp_induct)
  case (step w1 w2)
  with region_step_ok [OF step(2)] show ?case by (metis append_assoc)
qed simp

lemma region_reach_ok: "region_reach env w \<Longrightarrow> region_ok env w"
  using region_run_ok region_start_ok by (auto simp: region_reach_def)

lemma region_ok_window: "region_ok env w \<Longrightarrow> \<exists>x. fold_window 0 (region_log w) = Inr x"
  using session_inv_window by (auto simp: region_ok_def)

text \<open>The cuts of the surface that leave the budget behind them and split no call from its result.\<close>

definition useful_cuts :: "measurement \<Rightarrow> int \<Rightarrow> session_event list \<Rightarrow> nat set" where
  "useful_cuts m retain es =
     {j. 0 < j \<and> j < length (log_nodes es) \<and> in_progress es (log_nodes es) j = 0
         \<and> retain \<le> tail_sum (map pn_tokens (me_nodes m)) j}"

lemma select_spec_exact:
  assumes f: "fold_window 0 es = Inr x" and paired: "well_paired es" and seqs: "map pn_seq (me_nodes m) = log_nodes es"
    and pos: "\<forall>n \<in> set (me_nodes m). 0 \<le> pn_tokens n"
  shows "select_spec m retain es = Inr (if useful_cuts m retain es = {} then None
    else Some (log_nodes es ! 0, log_nodes es ! (Max (useful_cuts m retain es) - 1)))"
proof -
  let ?ns = "log_nodes es" and ?ts = "map pn_tokens (me_nodes m)" and ?C = "useful_cuts m retain es"
  have len: "length ?ts = length ?ns" using seqs [THEN arg_cong, of length] by simp
  show ?thesis
  proof (cases "me_nodes m = []")
    case True
    then have "?C = {}" using seqs by (simp add: useful_cuts_def)
    with True show ?thesis by (simp add: select_spec_def)
  next
    case False
    then have n: "0 < length ?ns" using seqs by auto
    define k where "k = retain_from ?ts retain 0 (length ?ts)"
    have k: "k < length ?ns" "k = 0 \<or> retain \<le> tail_sum ?ts k" "\<forall>j. k < j \<and> j < length ?ns \<longrightarrow> tail_sum ?ts j < retain"
      using retain_from_spec [OF order_refl _ k_def] n False len by (auto simp: tail_sum_def)
    have above: "j \<le> k" if "j \<in> ?C" for j
    proof (rule ccontr)
      assume "\<not> j \<le> k"
      moreover have "j < length ?ns" "retain \<le> tail_sum ?ts j" using that by (simp_all add: useful_cuts_def)
      ultimately show False using k(3) by (metis leD not_le)
    qed
    have sel: "select_spec m retain es = (if k = 0 then Inr None
        else and_then (back_spec es ?ns k) (\<lambda>k. Inr (if k = 0 then None else Some (?ns ! 0, ?ns ! (k - 1)))))"
      using False seqs by (simp add: select_spec_def k_def Let_def)
    show ?thesis
    proof (cases "k = 0")
      case True
      with above have "?C = {}" by (force simp: useful_cuts_def)
      with True sel show ?thesis by simp
    next
      case False
      from back_spec_finds [OF f paired k(1)] obtain r where r: "r \<le> k" "back_spec es ?ns k = Inr r" "in_progress es ?ns r = 0"
        "\<forall>j. r < j \<and> j \<le> k \<longrightarrow> in_progress es ?ns j \<noteq> 0" by auto
      have top: "j \<le> r" if "j \<in> ?C" for j
      proof -
        have "in_progress es ?ns j = 0" using that by (simp add: useful_cuts_def)
        with above [OF that] r(4) show ?thesis by (metis not_le)
      qed
      have "r \<in> ?C" if "0 < r"
        using that r(1,3) k(1,2) False tail_sum_antimono [of ?ts r k] pos by (auto simp: useful_cuts_def)
      with top have "?C = (if r = 0 then {} else ?C)" "0 < r \<Longrightarrow> Max ?C = r"
        by (auto intro!: Max_eqI simp: useful_cuts_def)
      with False r sel \<open>0 < r \<Longrightarrow> r \<in> ?C\<close> show ?thesis by (cases "r = 0") auto
    qed
  qed
qed

lemma region_spec_cut:
  assumes f: "fold_window 0 es = Inr x" and paired: "well_paired es"
    and k: "0 < k" "k < length (log_nodes es)" "in_progress es (log_nodes es) k = 0"
  shows "region_spec (log_nodes es ! 0) (log_nodes es ! (k - 1)) es =
    Inr \<lparr>sl_start = log_nodes es ! 0, sl_end = log_nodes es ! (k - 1), sl_start_idx = 0, sl_end_idx = k - 1,
         sl_shadowed = take k (log_nodes es)\<rparr>"
proof -
  have "distinct (log_nodes es)" using log_nodes_named [OF f] by simp
  then have "index_of (log_nodes es ! 0) (log_nodes es) = Some 0" "index_of (log_nodes es ! (k - 1)) (log_nodes es) = Some (k - 1)"
    using k by (auto intro: index_of_nth_distinct)
  moreover have "0 < length (log_nodes es)" using k by linarith
  then have "balance_spec es (log_nodes es) (log_nodes es ! 0) 0 = Inr True"
    using balance_spec_cut [OF f paired, of 0 0] by simp
  moreover have "balance_spec es (log_nodes es) (log_nodes es ! (k - 1)) 1 = Inr True"
    using balance_spec_cut [OF f paired, of "k - 1" 1] k by auto
  ultimately show ?thesis using k by (simp add: region_spec_def Let_def slice_def)
qed

text \<open>
  Claim C23. On a well-paired surface the selection takes the longest head of the surface that leaves at
  least the retained budget behind it and splits no tool call from its result, and nothing when there
  is none; a range it selects is one the transaction accepts, with exactly these nodes.
\<close>

theorem selected_range_maximal:
  assumes "region_reach env w" and "measure_surface env w = (Inr m, w1)" and "well_paired (region_log w)"
    and "\<forall>n \<in> set (me_nodes m). 0 \<le> pn_tokens n"
  shows "case select_compactable_range m retain w1 of
      (r, w2) \<Rightarrow> r = Inr (if useful_cuts m retain (region_log w) = {} then None
          else Some (log_nodes (region_log w) ! 0, log_nodes (region_log w) ! (Max (useful_cuts m retain (region_log w)) - 1)))
        \<and> region_log w2 = region_log w
        \<and> (\<forall>a b. r = Inr (Some (a, b)) \<longrightarrow>
             (\<exists>sel. fst (validate_surface_region a b w2) = Inr sel
               \<and> sl_shadowed sel = take (Max (useful_cuts m retain (region_log w))) (log_nodes (region_log w))))"
proof -
  let ?es = "region_log w" and ?C = "useful_cuts m retain (region_log w)"
  have ok: "region_ok env w" by (rule region_reach_ok [OF assms(1)])
  note ms = measure_surface_ok [OF ok assms(2)]
  from region_ok_window [OF ok] obtain x where f: "fold_window 0 ?es = Inr x" by blast
  from ms have w1: "region_ok env w1" and log1: "region_log w1 = ?es" by simp_all
  obtain w2 where sel: "select_compactable_range m retain w1 = (select_spec m retain ?es, w2)" "region_ok env w2" "region_log w2 = ?es"
    by (rule reads_elim [OF reads_select w1]) (use log1 in auto)
  note exact = select_spec_exact [OF f assms(3) _ assms(4), of retain]
  have "\<exists>sel. fst (validate_surface_region a b w2) = Inr sel \<and> sl_shadowed sel = take (Max ?C) (log_nodes ?es)"
    if s: "select_spec m retain ?es = Inr (Some (a, b))" for a b
  proof -
    from s exact ms have C: "?C \<noteq> {}" and ab: "a = log_nodes ?es ! 0" "b = log_nodes ?es ! (Max ?C - 1)"
      by (auto split: if_splits)
    have "finite ?C" by (rule finite_subset [of _ "{..<length (log_nodes ?es)}"]) (auto simp: useful_cuts_def)
    from this C have "Max ?C \<in> ?C" by (rule Max_in)
    then have k: "0 < Max ?C" "Max ?C < length (log_nodes ?es)" "in_progress ?es (log_nodes ?es) (Max ?C) = 0"
      by (simp_all add: useful_cuts_def)
    obtain w3 where "validate_surface_region a b w2 = (region_spec a b (region_log w2), w3)"
      by (rule reads_elim [OF reads_validate sel(2)])
    with region_spec_cut [OF f assms(3) k] ab sel(3) show ?thesis by simp
  qed
  with sel exact ms show ?thesis by simp
qed

section \<open>The entry scan\<close>

definition entry_fold :: "session_event list \<Rightarrow> entry_state" where
  "entry_fold es =
     \<lparr>es_turn = fold (\<lambda>e t. case ev_payload e of TurnStart n \<Rightarrow> Some n | TurnEnd _ _ \<Rightarrow> None | _ \<Rightarrow> t) es None,
      es_start = fold (\<lambda>e c. case ev_payload e of CompactionStart _ \<Rightarrow> Some e | CompactionEnd _ \<Rightarrow> None | _ \<Rightarrow> c) es None,
      es_seed = fold (\<lambda>e s. case ev_payload e of EndSeed \<Rightarrow> Some (ev_seq e) | _ \<Rightarrow> s) es None\<rparr>"

lemma scan_back_fold:
  "(\<not> turn_known st \<longrightarrow> es_turn st = None) \<Longrightarrow> (\<not> start_known st \<longrightarrow> es_start st = None) \<Longrightarrow>
   entry_state.truncate (scan_back (rev es) st) =
     \<lparr>es_turn = (if turn_known st then es_turn st else es_turn (entry_fold es)),
      es_start = (if start_known st then es_start st else es_start (entry_fold es)),
      es_seed = (case es_seed st of Some s \<Rightarrow> Some s | None \<Rightarrow> es_seed (entry_fold es))\<rparr>"
proof (induction es arbitrary: st rule: rev_induct)
  case Nil
  then show ?case by (auto simp: entry_fold_def entry_state.truncate_def split: option.split)
next
  case (snoc e es)
  let ?st = "scan_turn e (scan_bracket e (scan_seed e st))"
  have "\<not> turn_known ?st \<longrightarrow> es_turn ?st = None" "\<not> start_known ?st \<longrightarrow> es_start ?st = None"
    using snoc.prems by (cases "ev_payload e"; auto simp: scan_turn_def scan_bracket_def scan_seed_def)+
  note IH = snoc.IH [OF this]
  show ?case
  proof (cases "turn_known ?st \<and> start_known ?st \<and> es_seed ?st \<noteq> None")
    case True
    then show ?thesis using snoc.prems
      by (cases "ev_payload e")
        (auto simp: Let_def entry_fold_def entry_state.truncate_def scan_turn_def scan_bracket_def scan_seed_def split: if_splits option.splits)
  next
    case False
    then have "scan_back (rev (es @ [e])) st = scan_back (rev es) ?st"
      by (simp only: rev_append rev.simps append.simps scan_back.simps Let_def if_False)
    then show ?thesis using IH snoc.prems
      by (cases "ev_payload e")
        (auto simp: entry_fold_def scan_turn_def scan_bracket_def scan_seed_def split: if_splits option.splits)
  qed
qed

lemma scan_back_is_fold: "inspect_entry_state es = entry_fold es"
  unfolding inspect_entry_state_def by (subst scan_back_fold) simp_all

text \<open>
  The backward scan that stops early finds what a fold of the whole log finds: the turn the log
  is in, the compaction it has not closed, and its last end-of-seed marker.
\<close>

theorem inspect_entry_is_fold: "inspect_entry_state es = entry_fold es"
  by (rule scan_back_is_fold)

section \<open>A concrete selection\<close>

definition selection_seed :: "session_event list" where
  "selection_seed = map (\<lambda>i. append_event (UserMessageEvent (greeting ''hello'')) i) [0, 1, 2]"

definition plain_env :: region_env where
  "plain_env = \<lparr>re_number_text = plain_text, re_routes = (\<lambda>_ _. None), re_chain = (\<lambda>_. ''failed'')\<rparr>"

lemma well_paired_plain: "\<forall>e \<in> set es. 0 \<le> event_delta e \<Longrightarrow> well_paired es"
  unfolding well_paired_def in_progress_def
  by (intro allI impI sum_list_nonneg) (auto dest!: in_set_takeD log_nodes_below)

theorem selected_range_maximal_witness:
  "\<exists>w m w1 r w2. region_reach plain_env w \<and> length (region_log w) = 4 \<and> measure_surface plain_env w = (Inr m, w1)
     \<and> select_compactable_range m 5 w1 = (r, w2) \<and> region_log w2 = region_log w"
proof -
  have "is_ok (construct_session 5 ''s'' (Some selection_seed) None SnapshotSeed None)" by code_simp
  then obtain s where s: "construct_session 5 ''s'' (Some selection_seed) None SnapshotSeed None = Inr s" by (auto simp: is_ok_iff)
  let ?w = "region_start s"
  have "session_reach s" by (rule session_reach.construct [OF s])
  then have reach: "region_reach plain_env ?w" by (auto simp: region_reach_def region_run_def)
  have log: "region_log ?w = selection_seed @ [last (region_log ?w)]" "length (region_log ?w) = 4"
    "ev_payload (last (region_log ?w)) = EndSeed"
    using construct_session_Inr [OF s] by (auto simp: region_start_def selection_seed_def last_opt_def append_event_def log_event_def)
  have paired: "well_paired (region_log ?w)"
    by (rule well_paired_plain, subst log(1)) (simp add: log(3) event_delta_def selection_seed_def append_event_def log_event_def)
  have "is_ok (and_then (construct_session 5 ''s'' (Some selection_seed) None SnapshotSeed None)
    (\<lambda>s. reject_if (\<not> is_ok (fst (measure_surface plain_env (region_start s)))) SeededWithoutSeed))"
    by code_simp
  with s have "is_ok (fst (measure_surface plain_env ?w))" by (simp add: is_ok_iff)
  then obtain m w1 where m: "measure_surface plain_env ?w = (Inr m, w1)" by (cases "measure_surface plain_env ?w") (auto simp: is_ok_iff)
  have "map pn_tokens (me_nodes m) = map (int \<circ> pn_heuristic) (me_nodes m)"
    using measure_surface_unrouted [OF m] by (simp add: plain_env_def)
  then have "\<forall>n \<in> set (me_nodes m). 0 \<le> pn_tokens n" by (simp add: map_eq_conv)
  from selected_range_maximal [OF reach m paired this, of 5] reach log(2) m show ?thesis
    by (cases "select_compactable_range m 5 w1") auto
qed

end
