(* ===== verification/Compaction_Transaction.thy ===== *)
theory Compaction_Transaction
  imports Compaction_Region
begin

text \<open>
  \<open>packages/compaction/compaction-basic/src/region.ts\<close>: the transaction that replaces a span of the
  surface by a checkpoint. Between its opening marker and its commit it waits for a summarizer; what
  other code does to the session meanwhile is an argument, and so are the summarizer's answer, the
  cancellation signal at its three tests, the generated identities and the text of an error.
\<close>

section \<open>Opening the transaction\<close>

datatype stability = WholeSurface | SelectedSpan

record transaction_options =
  to_in_turn :: bool
  to_stability :: stability
  to_flush :: bool
  to_command :: "string option"

definition transaction_owner :: "transaction_options \<Rightarrow> entry_state \<Rightarrow> (region_error, int option) result" where
  "transaction_owner opts st =
     (if to_in_turn opts
      then (case es_turn st of None \<Rightarrow> Inl NoOpenTurn | Some t \<Rightarrow> Inr (Some t))
      else if es_turn st \<noteq> None then Inl (ManualFailure ManualBusy None) else Inr None)"

record region_transaction =
  tx_id :: string
  tx_command :: "string option"
  tx_owner :: "int option"
  tx_start :: session_event
  tx_selection :: surface_selection

text \<open>Everything up to the opening marker.\<close>

definition open_compaction_region ::
    "int \<Rightarrow> string \<Rightarrow> transaction_options \<Rightarrow> bool \<Rightarrow> nat \<Rightarrow> nat \<Rightarrow> (region_world, region_error, region_transaction) step" where
  "open_compaction_region now cid opts aborted start end_seq =
     and_do (lift_result (reject_if (\<not> to_in_turn opts \<and> aborted) SignalAborted)) (\<lambda>_.
     and_do (validate_surface_region start end_seq) (\<lambda>sel w.
       let st = inspect_entry_state (region_log w) in
       and_do (lift_result (assert_compaction_inactive st)) (\<lambda>_.
       and_do (lift_result (transaction_owner opts st)) (\<lambda>owner.
       and_do (append_log now (CompactionStart \<lparr>cs_id = cid, cs_command = to_command opts, cs_turn = owner\<rparr>) None None) (\<lambda>e.
         give \<lparr>tx_id = cid, tx_command = to_command opts, tx_owner = owner, tx_start = e, tx_selection = sel\<rparr>))) w))"

record summarization_input =
  si_system :: "string option"
  si_tools :: "tool_schema list option"
  si_messages :: "message list"

definition header_in_force :: "(region_world, region_error, epoch_header option) step" where
  "header_in_force w = (case request_header (rw_session w) of (h, s) \<Rightarrow> (Inr h, w\<lparr>rw_session := s\<rparr>))"

definition shadowed_message :: "session_event list \<Rightarrow> nat \<Rightarrow> message list \<Rightarrow> (region_error, message list) result" where
  "shadowed_message es seq acc =
     (case elem_at es seq of
        None \<Rightarrow> Inl (MissingEvent seq)
      | Some e \<Rightarrow> Inr (acc @ (case derive_event_message e of None \<Rightarrow> [] | Some m \<Rightarrow> [m])))"

definition build_summarization_input :: "nat list \<Rightarrow> (region_world, region_error, summarization_input) step" where
  "build_summarization_input shadowed =
     and_do header_in_force (\<lambda>h w.
       (case fold_result (shadowed_message (region_log w)) shadowed [] of
          Inl err \<Rightarrow> (Inl err, w)
        | Inr msgs \<Rightarrow> (Inr \<lparr>si_system = Option.bind h eh_system, si_tools = Option.bind h eh_tools, si_messages = msgs\<rparr>, w)))"

record prepared_compaction =
  pr_selection :: surface_selection
  pr_measured :: "public_node list"
  pr_nodes :: "public_node list"
  pr_tokens :: int
  pr_route_tokens :: int
  pr_input :: summarization_input

definition prepare_compaction ::
    "region_env \<Rightarrow> surface_selection \<Rightarrow> (region_world, region_error, prepared_compaction) step" where
  "prepare_compaction env sel =
     and_do (measure_surface env) (\<lambda>m.
       let selected = slice (sl_start_idx sel) (sl_end_idx sel + 1) (me_nodes m) in
       if map pn_seq selected \<noteq> sl_shadowed sel then raise (SurfaceChanged None)
       else and_do (build_summarization_input (sl_shadowed sel)) (\<lambda>input.
         give \<lparr>pr_selection = sel, pr_measured = me_nodes m, pr_nodes = selected,
               pr_tokens = (\<Sum>n\<leftarrow>selected. int (pn_heuristic n)), pr_route_tokens = (\<Sum>n\<leftarrow>selected. pn_tokens n),
               pr_input = input\<rparr>))"

section \<open>The summary and its checkpoint\<close>

definition CHECKPOINT_PREAMBLE :: string where
  "CHECKPOINT_PREAMBLE = ''This is an automatically generated checkpoint condensing an earlier span of the conversation to free up context. Treat the captured context as established background and build on it without restating it. Continue the task directly from the messages that follow, without acknowledging this checkpoint.''"

definition frame_summary :: "content_block list \<Rightarrow> content_block list" where
  "frame_summary summary =
     TextBlock (CHECKPOINT_PREAMBLE @ [CHR 0x0A, CHR 0x0A] @ ''<compacted-summary>'') # summary
       @ [TextBlock ''</compacted-summary>'']"

definition checkpoint_message :: "string \<Rightarrow> string \<Rightarrow> string option \<Rightarrow> summary_result \<Rightarrow> user_message" where
  "checkpoint_message mid cid cmd sr =
     \<lparr>um_id = mid, um_content = frame_summary (su_blocks sr), um_source = compact_checkpoint_source cid cmd\<rparr>"

definition summarize_compaction ::
    "region_env \<Rightarrow> string \<Rightarrow> region_transaction \<Rightarrow> (string, summary_result) result \<Rightarrow> prepared_compaction \<Rightarrow>
     (region_error, summary_result \<times> user_message) result" where
  "summarize_compaction env mid tx answer prepared =
     and_then (rethrow Summarizer answer) (\<lambda>sr.
       let m = checkpoint_message mid (tx_id tx) (tx_command tx) sr; n = estimate_message (re_number_text env) (UserMessage m) in
       and_then (reject_if (int n \<ge> pr_route_tokens prepared) (NotSmaller n (pr_route_tokens prepared))) (\<lambda>_.
         Inr (sr, m)))"

definition assert_whole_surface_unchanged ::
    "region_env \<Rightarrow> prepared_compaction \<Rightarrow> (region_world, region_error, unit) step" where
  "assert_whole_surface_unchanged env prepared =
     and_do (measure_surface env) (\<lambda>m.
       lift_result (reject_if (me_nodes m \<noteq> pr_measured prepared) (SurfaceChanged None)))"

definition assert_selected_span_stable ::
    "region_env \<Rightarrow> prepared_compaction \<Rightarrow> (region_world, region_error, unit) step" where
  "assert_selected_span_stable env prepared =
     (let sel = pr_selection prepared in
      and_do (wrap (\<lambda>err. SurfaceChanged (Some err)) (validate_surface_region (sl_start sel) (sl_end sel))) (\<lambda>cur.
      and_do (lift_result (reject_if (sl_shadowed cur \<noteq> sl_shadowed sel) (SurfaceChanged None))) (\<lambda>_.
      and_do (measure_surface env) (\<lambda>m.
        lift_result (reject_if (slice (sl_start_idx cur) (sl_end_idx cur + 1) (me_nodes m) \<noteq> pr_nodes prepared)
          (SurfaceChanged None))))))"

definition assert_stable ::
    "region_env \<Rightarrow> stability \<Rightarrow> prepared_compaction \<Rightarrow> (region_world, region_error, unit) step" where
  "assert_stable env rule =
     (case rule of WholeSurface \<Rightarrow> assert_whole_surface_unchanged env | SelectedSpan \<Rightarrow> assert_selected_span_stable env)"

section \<open>Committing and closing\<close>

record compaction_result =
  rs_id :: string
  rs_command :: "string option"
  rs_start_seq :: nat
  rs_summary_seq :: nat
  rs_summary :: "content_block list"
  rs_range :: "nat \<times> nat"
  rs_shadowed :: "nat list"
  rs_tokens :: int

record closed_result = compaction_result +
  rs_end_seq :: nat

definition shadow_span :: "prepared_compaction \<Rightarrow> shadowed_span" where
  "shadow_span prepared =
     (let sel = pr_selection prepared in
      \<lparr>span_start = JInt (int (sl_start sel)), span_end = JInt (int (sl_end sel)),
       span_seqs = map (JInt \<circ> int) (sl_shadowed sel), span_tokens = JInt (pr_tokens prepared)\<rparr>)"

text \<open>The three appends take the clock's next readings.\<close>

definition commit_compaction_body ::
    "(nat \<Rightarrow> int) \<Rightarrow> region_transaction \<Rightarrow> prepared_compaction \<Rightarrow> summary_result \<times> user_message \<Rightarrow>
     (region_world, region_error, compaction_result) step" where
  "commit_compaction_body clk tx prepared = (\<lambda>(sr, m).
     let sel = pr_selection prepared in
     and_do (append_log (clk 1)
       (CompactionSummary \<lparr>cm_id = tx_id tx, cm_command = tx_command tx, cm_span = shadow_span prepared, cm_body = sr\<rparr>) None None) (\<lambda>e.
     and_do (append_log (clk 2) (UserMessageEvent m) (Some (replace_op (sl_start sel) (sl_end sel)))
       (Some (seqs_json ([ev_seq (tx_start tx), ev_seq e] @ sl_shadowed sel)))) (\<lambda>_.
       give \<lparr>rs_id = tx_id tx, rs_command = tx_command tx, rs_start_seq = ev_seq (tx_start tx), rs_summary_seq = ev_seq e,
             rs_summary = su_blocks sr, rs_range = (sl_start sel, sl_end sel), rs_shadowed = sl_shadowed sel,
             rs_tokens = pr_tokens prepared\<rparr>)))"

definition lifecycle_end :: "region_transaction \<Rightarrow> string option \<Rightarrow> payload" where
  "lifecycle_end tx err =
     CompactionEnd \<lparr>ce_id = tx_id tx, ce_command = tx_command tx, ce_turn = tx_owner tx, ce_error = err\<rparr>"

datatype failure_stage = SummaryStage | CommitStage

text \<open>The body of the \<open>try\<close>, after the summarizer answered, up to the closing marker.\<close>

definition compaction_attempt ::
    "region_env \<Rightarrow> (nat \<Rightarrow> int) \<Rightarrow> string \<Rightarrow> transaction_options \<Rightarrow> bool \<Rightarrow> region_transaction \<Rightarrow>
     (string, summary_result) result \<Rightarrow> prepared_compaction \<Rightarrow>
     (region_world, failure_stage \<times> region_error, compaction_result) step" where
  "compaction_attempt env clk mid opts aborted tx answer prepared =
     and_do (wrap (Pair SummaryStage)
       (and_do (lift_result (summarize_compaction env mid tx answer prepared)) (\<lambda>summarized.
        and_do (lift_result (reject_if (\<not> to_in_turn opts \<and> aborted) SignalAborted)) (\<lambda>_.
        and_do (assert_stable env (to_stability opts) prepared) (\<lambda>_. give summarized)))))
       (\<lambda>summarized. wrap (Pair CommitStage) (commit_compaction_body clk tx prepared summarized))"

text \<open>The rest of the \<open>try\<close> and its \<open>catch\<close>: one closing marker is attempted. The flag says whether it landed.\<close>

definition close_compaction ::
    "region_env \<Rightarrow> (nat \<Rightarrow> int) \<Rightarrow> region_transaction \<Rightarrow>
     (failure_stage \<times> region_error, compaction_result) result \<times> region_world \<Rightarrow>
     ((failure_stage \<times> region_error, closed_result) result \<times> bool) \<times> region_world" where
  "close_compaction env clk tx = (\<lambda>(r, w).
     case r of
       Inr pending \<Rightarrow>
         (case append_log (clk 3) (lifecycle_end tx None) None None w of
            (Inl err, w') \<Rightarrow> ((Inl (CommitStage, err), False), w')
          | (Inr e, w') \<Rightarrow> ((Inr (compaction_result.extend pending \<lparr>rs_end_seq = ev_seq e\<rparr>), True), w'))
     | Inl (stage, err) \<Rightarrow>
         (case append_log (clk 3) (lifecycle_end tx (Some (re_chain env err))) None None w of
            (Inl err', w') \<Rightarrow> ((Inl (CommitStage, err'), False), w')
          | (Inr _, w') \<Rightarrow> ((Inl (stage, err), True), w')))"

definition manual_failure :: "failure_stage \<times> region_error \<Rightarrow> region_error" where
  "manual_failure f =
     (case f of
        (CommitStage, err) \<Rightarrow> ManualFailure ManualCommit (Some err)
      | (SummaryStage, SurfaceChanged c) \<Rightarrow> ManualFailure ManualChanged (Some (SurfaceChanged c))
      | (SummaryStage, err) \<Rightarrow> ManualFailure ManualSummary (Some err))"

text \<open>After the bracket: the durability checkpoint of a landed bracket, then what the caller sees.\<close>

definition conclude_compaction ::
    "transaction_options \<Rightarrow> bool \<Rightarrow> string option \<Rightarrow> (failure_stage \<times> region_error, closed_result) result \<times> bool \<Rightarrow>
     (region_error, closed_result) result" where
  "conclude_compaction opts aborted flush_error = (\<lambda>(r, landed).
     if \<not> to_in_turn opts \<and> aborted then Inl SignalAborted
     else case r of
       Inl f \<Rightarrow> Inl (if to_in_turn opts then snd f else manual_failure f)
     | Inr res \<Rightarrow>
         (case (if landed \<and> to_flush opts then flush_error else None) of
            Some x \<Rightarrow> Inl (ManualFailure ManualPersistence (Some (FlushFailed x)))
          | None \<Rightarrow> Inr res))"

text \<open>
  What happens around the transaction: the cancellation signal where it is read, the summarizer's
  answer to its input, what other code does to the session while it is awaited, and the outcome of
  the flush.
\<close>

record surroundings =
  sr_aborted :: "nat \<Rightarrow> bool"
  sr_summarizer :: "summarization_input \<Rightarrow> (string, summary_result) result"
  sr_meanwhile :: "region_world \<Rightarrow> region_world"
  sr_flush_error :: "string option"

text \<open>The \<open>try\<close> up to the closing marker: nothing is awaited when the preparation fails.\<close>

definition try_compaction ::
    "region_env \<Rightarrow> (nat \<Rightarrow> int) \<Rightarrow> string \<Rightarrow> transaction_options \<Rightarrow> surroundings \<Rightarrow> region_transaction \<Rightarrow>
     (region_world, failure_stage \<times> region_error, compaction_result) step" where
  "try_compaction env clk mid opts around tx w =
     (case prepare_compaction env (tx_selection tx) w of
        (Inl err, w1) \<Rightarrow> (Inl (SummaryStage, err), w1)
      | (Inr prepared, w1) \<Rightarrow>
          compaction_attempt env clk mid opts (sr_aborted around 1) tx (sr_summarizer around (pr_input prepared)) prepared
            (sr_meanwhile around w1))"

definition compact_surface_region ::
    "region_env \<Rightarrow> (nat \<Rightarrow> int) \<Rightarrow> string \<Rightarrow> string \<Rightarrow> transaction_options \<Rightarrow> surroundings \<Rightarrow> nat \<Rightarrow> nat \<Rightarrow>
     (region_world, region_error, closed_result) step" where
  "compact_surface_region env clk cid mid opts around start end_seq =
     and_do (open_compaction_region (clk 0) cid opts (sr_aborted around 0) start end_seq) (\<lambda>tx w.
       case close_compaction env clk tx (try_compaction env clk mid opts around tx w) of
         (outcome, w') \<Rightarrow> (conclude_compaction opts (sr_aborted around 2) (sr_flush_error around) outcome, w'))"

section \<open>What each step leaves behind\<close>

lemma lift_result_iff [simp]: "lift_result r w = (r', w') \<longleftrightarrow> r' = r \<and> w' = w"
  by (auto simp: lift_result_def)

lemma Inr_reject_if_iff [simp]: "Inr u = reject_if b e \<longleftrightarrow> \<not> b"
  by (auto simp: reject_if_def)

lemma give_iff [simp]: "give x w = (r, w') \<longleftrightarrow> r = Inr x \<and> w' = w"
  by (auto simp: give_def)

lemma raise_iff [simp]: "raise e w = (r, w') \<longleftrightarrow> r = Inl e \<and> w' = w"
  by (auto simp: raise_def)

lemma and_do_cases:
  assumes "and_do m f w = (r, w')"
  obtains (failed) e where "m w = (Inl e, w')" "r = Inl e"
  | (passed) x w1 where "m w = (Inr x, w1)" "f x w1 = (r, w')"
  using assms by (auto simp: and_do_def split: prod.splits sum.splits)

lemma wrap_cases:
  assumes "wrap g m w = (r, w')"
  obtains r0 where "m w = (r0, w')" "r = rethrow g r0"
  using assms by (auto simp: wrap_def split: prod.splits)

lemma validate_ok:
  assumes "region_ok env w" and "validate_surface_region a b w = (r, w')"
  shows "region_ok env w' \<and> region_log w' = region_log w \<and> r = region_spec a b (region_log w)"
  using reads_elim [OF reads_validate assms(1)] assms(2) by (metis prod.inject)

lemma open_region_ok:
  assumes "region_ok env w" and "open_compaction_region now cid opts aborted start end_seq w = (r, w')"
  shows "region_ok env w'
    \<and> (case r of
         Inl _ \<Rightarrow> region_log w' = region_log w
       | Inr tx \<Rightarrow> region_log w' = region_log w @ [tx_start tx] \<and> ev_seq (tx_start tx) = length (region_log w)
           \<and> ev_payload (tx_start tx) = CompactionStart \<lparr>cs_id = tx_id tx, cs_command = tx_command tx, cs_turn = tx_owner tx\<rparr>
           \<and> region_spec start end_seq (region_log w) = Inr (tx_selection tx)
           \<and> assert_no_active_compaction (region_log w) = Inr ())"
  using assms(2) unfolding open_compaction_region_def
proof (cases rule: and_do_cases)
  case (failed e)
  with assms(1) show ?thesis by auto
next
  case (passed u w0)
  then have w0: "w0 = w" by simp
  from passed(2) show ?thesis unfolding w0
  proof (cases rule: and_do_cases)
    case (failed e)
    with validate_ok [OF assms(1)] show ?thesis by auto
  next
    case (passed sel w1)
    note v = validate_ok [OF assms(1) passed(1)]
    define st where "st = inspect_entry_state (region_log w1)"
    from passed(2) have "and_do (lift_result (assert_compaction_inactive st)) (\<lambda>_.
       and_do (lift_result (transaction_owner opts st)) (\<lambda>owner.
       and_do (append_log now (CompactionStart \<lparr>cs_id = cid, cs_command = to_command opts, cs_turn = owner\<rparr>) None None) (\<lambda>e.
         give \<lparr>tx_id = cid, tx_command = to_command opts, tx_owner = owner, tx_start = e, tx_selection = sel\<rparr>))) w1 = (r, w')"
      by (simp add: Let_def st_def)
    then show ?thesis
    proof (cases rule: and_do_cases)
      case (failed e)
      with v show ?thesis by auto
    next
      case (passed u2 w2)
      then have w2: "w2 = w1" and inactive: "assert_compaction_inactive st = Inr ()" by simp_all
      from passed(2) show ?thesis unfolding w2
      proof (cases rule: and_do_cases)
        case (failed e)
        with v show ?thesis by auto
      next
        case (passed owner w3)
        then have w3: "w3 = w1" by simp
        from passed(2) show ?thesis unfolding w3
        proof (cases rule: and_do_cases)
          case (failed e)
          with append_log_ok [of env w1] v show ?thesis by fastforce
        next
          case (passed e w4)
          with append_log_ok [OF _ passed(1), of env] v inactive st_def show ?thesis
            by (auto simp: assert_no_active_compaction_def)
        qed
      qed
    qed
  qed
qed

definition span_price :: "region_env \<Rightarrow> session_event list \<Rightarrow> nat list \<Rightarrow> nat" where
  "span_price env es ns = (\<Sum>n\<leftarrow>ns. event_tokens (re_number_text env) (es ! n))"

text \<open>What the summarizer is asked: the model's view of the span, under the header in force.\<close>

definition span_input :: "session_event list \<Rightarrow> nat list \<Rightarrow> summarization_input" where
  "span_input es ns =
     (let h = fold_request_header es None in
      \<lparr>si_system = Option.bind h eh_system, si_tools = Option.bind h eh_tools, si_messages = project_nodes es ns\<rparr>)"

text \<open>The price of a run of surface nodes in a measurement of the session, under whatever pricing its route has.\<close>

definition route_priced :: "region_env \<Rightarrow> session_event list \<Rightarrow> nat list \<Rightarrow> int \<Rightarrow> bool" where
  "route_priced env es ns t \<longleftrightarrow> (\<exists>w m w' i j. region_ok env w \<and> region_log w = es \<and> measure_surface env w = (Inr m, w')
     \<and> map pn_seq (slice i j (me_nodes m)) = ns \<and> t = (\<Sum>n\<leftarrow>slice i j (me_nodes m). pn_tokens n))"

definition prepared_for :: "region_env \<Rightarrow> session_event list \<Rightarrow> surface_selection \<Rightarrow> prepared_compaction \<Rightarrow> bool" where
  "prepared_for env es sel p \<longleftrightarrow> pr_selection p = sel
     \<and> slice (sl_start_idx sel) (sl_end_idx sel + 1) (log_nodes es) = sl_shadowed sel
     \<and> map pn_seq (pr_measured p) = log_nodes es
     \<and> pr_tokens p = int (span_price env es (sl_shadowed sel))
     \<and> (re_routes env = (\<lambda>_ _. None) \<longrightarrow> pr_route_tokens p = pr_tokens p)
     \<and> route_priced env es (sl_shadowed sel) (pr_route_tokens p)
     \<and> pr_input p = span_input es (sl_shadowed sel)"

lemma int_sum_list: "(\<Sum>x\<leftarrow>xs. int (f x)) = int (sum_list (map f xs))"
  by (induction xs) simp_all

lemma shadowed_messages:
  "fold_result (shadowed_message es) ns acc = Inr msgs \<Longrightarrow> msgs = acc @ project_nodes es ns"
proof (induction ns arbitrary: acc)
  case Nil
  then show ?case by (simp add: project_nodes_def)
next
  case (Cons n ns)
  then obtain e where "elem_at es n = Some e"
    by (cases "elem_at es n") (simp_all add: shadowed_message_def)
  moreover from this have "es ! n = e" by (simp add: elem_at_def split: if_splits)
  ultimately have "shadowed_message es n acc = Inr (acc @ project_nodes es [n])"
    by (simp add: shadowed_message_def project_nodes_def)
  with Cons.prems have "fold_result (shadowed_message es) ns (acc @ project_nodes es [n]) = Inr msgs" by simp
  from Cons.IH [OF this] show ?case by (simp add: project_nodes_def)
qed

lemma build_input_ok:
  assumes "region_ok env w" and "build_summarization_input ns w = (r, w')"
  shows "region_ok env w' \<and> region_log w' = region_log w \<and> (\<forall>x. r = Inr x \<longrightarrow> x = span_input (region_log w) ns)"
proof -
  define w1 where "w1 = w\<lparr>rw_session := snd (request_header (rw_session w))\<rparr>"
  have "w' = w1"
    using assms(2) by (auto simp: build_summarization_input_def and_do_def header_in_force_def w1_def split: prod.splits sum.splits)
  moreover have "region_ok env w1 \<and> region_log w1 = region_log w"
    using region_step_ok [OF region_step.header assms(1)]
    by (simp add: w1_def request_header_def Let_def)
  moreover have "x = span_input (region_log w) ns" if "r = Inr x" for x
  proof -
    have "fst (request_header (rw_session w)) = fold_request_header (region_log w) None"
      using assms(1) by (simp add: region_ok_def session_inv_def request_header_def Let_def header_cache.read_current)
    moreover obtain h s' where h: "request_header (rw_session w) = (h, s')" by (cases "request_header (rw_session w)")
    moreover from h have "s_log s' = region_log w" by (auto simp: request_header_def Let_def)
    ultimately show ?thesis using assms(2) that
      by (auto simp: build_summarization_input_def and_do_def header_in_force_def span_input_def Let_def split: sum.splits dest!: shadowed_messages)
  qed
  ultimately show ?thesis by simp
qed

lemma prepare_ok:
  assumes "region_ok env w" and "prepare_compaction env sel w = (r, w')"
  shows "region_ok env w' \<and> region_log w' = region_log w \<and> (\<forall>p. r = Inr p \<longrightarrow> prepared_for env (region_log w) sel p)"
  using assms(2) unfolding prepare_compaction_def
proof (cases rule: and_do_cases)
  case (failed e)
  with measure_surface_ok [OF assms(1)] show ?thesis by blast
next
  case (passed m w1)
  note ms = measure_surface_ok [OF assms(1) passed(1)]
  define selected where "selected = slice (sl_start_idx sel) (sl_end_idx sel + 1) (me_nodes m)"
  show ?thesis
  proof (cases "map pn_seq selected = sl_shadowed sel")
    case False
    with passed(2) ms show ?thesis by (auto simp: Let_def selected_def)
  next
    case True
    with passed(2) have rest: "and_do (build_summarization_input (sl_shadowed sel)) (\<lambda>input.
         give \<lparr>pr_selection = sel, pr_measured = me_nodes m, pr_nodes = selected,
               pr_tokens = (\<Sum>n\<leftarrow>selected. int (pn_heuristic n)), pr_route_tokens = (\<Sum>n\<leftarrow>selected. pn_tokens n),
               pr_input = input\<rparr>) w1 = (r, w')"
      by (simp add: Let_def selected_def)
    have seqs: "slice (sl_start_idx sel) (sl_end_idx sel + 1) (log_nodes (region_log w)) = sl_shadowed sel"
      using True ms by (metis selected_def slice_map)
    have "map pn_heuristic selected = map (\<lambda>n. event_tokens (re_number_text env) (region_log w ! n)) (sl_shadowed sel)"
      using ms seqs by (metis selected_def slice_map)
    then have "(\<Sum>n\<leftarrow>selected. int (pn_heuristic n)) = int (span_price env (region_log w) (sl_shadowed sel))"
      by (simp add: span_price_def int_sum_list)
    note price = this
    have route: "(\<Sum>n\<leftarrow>selected. pn_tokens n) = (\<Sum>n\<leftarrow>selected. int (pn_heuristic n))" if "re_routes env = (\<lambda>_ _. None)"
    proof -
      have "map pn_tokens selected = map (int \<circ> pn_heuristic) selected"
        unfolding selected_def slice_map [symmetric] measure_surface_unrouted [OF passed(1) that] ..
      then show ?thesis by (simp only: comp_def)
    qed
    have routed: "route_priced env (region_log w) (sl_shadowed sel) (\<Sum>n\<leftarrow>selected. pn_tokens n)"
      unfolding route_priced_def using assms(1) passed(1) True selected_def by blast
    from rest show ?thesis
    proof (cases rule: and_do_cases)
      case (failed e)
      with build_input_ok [of env w1] ms show ?thesis by simp
    next
      case (passed input w2)
      with build_input_ok [OF _ passed(1), of env] ms seqs price route routed show ?thesis by (simp add: prepared_for_def)
    qed
  qed
qed

section \<open>A span stays replaceable\<close>

definition replaceable_at :: "session_event list \<Rightarrow> surface_selection \<Rightarrow> nat \<Rightarrow> nat \<Rightarrow> bool" where
  "replaceable_at es sel i j \<longleftrightarrow> i \<le> j \<and> j < length (log_nodes es)
     \<and> log_nodes es ! i = sl_start sel \<and> log_nodes es ! j = sl_end sel
     \<and> slice i (j + 1) (log_nodes es) = sl_shadowed sel
     \<and> in_progress es (log_nodes es) i = 0 \<and> in_progress es (log_nodes es) (j + 1) = 0"

lemma balance_spec_true:
  assumes "balance_spec es ns seq offset = Inr True" and "index_of seq ns = Some i"
  shows "in_progress es ns (i + offset) = 0"
  using assms by (auto simp: balance_spec_def and_then_Inr_iff)

lemma region_spec_Inr:
  assumes f: "fold_window 0 es = Inr x" and r: "region_spec a b es = Inr sel"
  shows "sl_start sel = a \<and> sl_end sel = b \<and> replaceable_at es sel (sl_start_idx sel) (sl_end_idx sel)"
proof -
  have dist: "distinct (log_nodes es)" using log_nodes_named [OF f] by simp
  from r obtain i j where ij: "index_of a (log_nodes es) = Some i" "index_of b (log_nodes es) = Some j" "i \<le> j"
    and bal: "balance_spec es (log_nodes es) (log_nodes es ! i) 0 = Inr True" "balance_spec es (log_nodes es) (log_nodes es ! j) 1 = Inr True"
    and sel: "sel = \<lparr>sl_start = a, sl_end = b, sl_start_idx = i, sl_end_idx = j, sl_shadowed = slice i (j + 1) (log_nodes es)\<rparr>"
    by (auto simp: region_spec_def Let_def and_then_Inr_iff not_less split: option.splits if_splits)
  have i: "i < length (log_nodes es)" "log_nodes es ! i = a" and j: "j < length (log_nodes es)" "log_nodes es ! j = b"
    using ij(1,2) by (simp_all add: index_of_Some_iff)
  have "index_of (log_nodes es ! i) (log_nodes es) = Some i" "index_of (log_nodes es ! j) (log_nodes es) = Some j"
    using dist i(1) j(1) by (auto intro: index_of_nth_distinct)
  with bal have "in_progress es (log_nodes es) (i + 0) = 0" "in_progress es (log_nodes es) (j + 1) = 0"
    by (auto dest: balance_spec_true)
  with i j ij(3) sel show ?thesis by (simp add: replaceable_at_def)
qed

lemma in_progress_extend:
  "\<forall>n \<in> set ns. n < length es \<Longrightarrow> in_progress (es @ fs) ns i = in_progress es ns i"
  unfolding in_progress_def
  by (rule arg_cong [of _ _ sum_list], rule map_cong) (auto simp: nth_append dest: in_set_takeD)

lemma log_nodes_within: "fold_window 0 es = Inr x \<Longrightarrow> n \<in> set (log_nodes es) \<Longrightarrow> n < length es"
  using log_nodes_named by (auto simp: named_def)

lemma replaceable_within:
  assumes "replaceable_at es sel i j" and "fold_window 0 es = Inr x"
  shows "\<forall>n \<in> set (sl_shadowed sel). n < length es"
proof
  fix n assume "n \<in> set (sl_shadowed sel)"
  then have "n \<in> set (slice i (j + 1) (log_nodes es))" using assms(1) by (simp add: replaceable_at_def)
  then have "n \<in> set (log_nodes es)" by (rule subsetD [OF set_slice_subset])
  then show "n < length es" by (rule log_nodes_within [OF assms(2)])
qed

lemma replaceable_extend:
  assumes "replaceable_at es sel i j" and "fold_window 0 es = Inr x" and "log_nodes (es @ fs) = log_nodes es"
  shows "replaceable_at (es @ fs) sel i j"
  using assms in_progress_extend [of "log_nodes es" es fs] log_nodes_within [OF assms(2)]
  by (simp add: replaceable_at_def)

lemma span_price_extend:
  "\<forall>n \<in> set ns. n < length es \<Longrightarrow> span_price env (es @ fs) ns = span_price env es ns"
  unfolding span_price_def by (rule arg_cong [of _ _ sum_list], rule map_cong) (auto simp: nth_append)

lemma log_nodes_off:
  assumes "fold_window 0 (es @ [e]) = Inr x" and "\<not> is_surface_eligible_type (ev_type e)"
  shows "log_nodes (es @ [e]) = log_nodes es"
proof -
  obtain st reps where x: "x = (st, reps)" by (cases x)
  from assms(1) [unfolded x] show ?thesis
    by (cases rule: fold_window_snoc_cases) (use assms x in \<open>simp_all add: log_nodes_def\<close>)
qed

lemma stable_ok:
  assumes ok: "region_ok env w" and run: "assert_stable env rule p w = (r, w')"
    and p: "prepared_for env es1 sel p" and log: "region_log w = es1 @ fs" and f1: "fold_window 0 es1 = Inr x1"
    and sel: "replaceable_at es1 sel i j"
  shows "region_ok env w' \<and> region_log w' = region_log w \<and> (r = Inr () \<longrightarrow> (\<exists>i j. replaceable_at (region_log w) sel i j))"
proof (cases rule)
  case WholeSurface
  with run have "and_do (measure_surface env) (\<lambda>m.
       lift_result (reject_if (me_nodes m \<noteq> pr_measured p) (SurfaceChanged None))) w = (r, w')"
    by (simp add: assert_stable_def assert_whole_surface_unchanged_def)
  then show ?thesis
  proof (cases rule: and_do_cases)
    case (failed e)
    with measure_surface_ok [OF ok] show ?thesis by blast
  next
    case (passed m w1)
    note ms = measure_surface_ok [OF ok passed(1)]
    have "replaceable_at (region_log w) sel i j" if "r = Inr ()"
    proof -
      from that passed(2) have "me_nodes m = pr_measured p" by (simp add: reject_if_def split: if_splits)
      with ms p have "log_nodes (region_log w) = log_nodes es1" by (simp add: prepared_for_def)
      with replaceable_extend [OF sel f1, of fs] log show ?thesis by simp
    qed
    with ms passed(2) show ?thesis by auto
  qed
next
  case SelectedSpan
  have ps: "pr_selection p = sel" using p by (simp add: prepared_for_def)
  with run SelectedSpan have "and_do (wrap (\<lambda>err. SurfaceChanged (Some err)) (validate_surface_region (sl_start sel) (sl_end sel))) (\<lambda>cur.
      and_do (lift_result (reject_if (sl_shadowed cur \<noteq> sl_shadowed sel) (SurfaceChanged None))) (\<lambda>_.
      and_do (measure_surface env) (\<lambda>m.
        lift_result (reject_if (slice (sl_start_idx cur) (sl_end_idx cur + 1) (me_nodes m) \<noteq> pr_nodes p)
          (SurfaceChanged None))))) w = (r, w')"
    by (simp add: assert_stable_def assert_selected_span_stable_def Let_def)
  then show ?thesis
  proof (cases rule: and_do_cases)
    case (failed e)
    from failed(1) show ?thesis by (cases rule: wrap_cases) (use validate_ok [OF ok] failed(2) in blast)
  next
    case (passed cur w1)
    from passed(1) obtain r0 where v: "validate_surface_region (sl_start sel) (sl_end sel) w = (r0, w1)" "Inr cur = rethrow (\<lambda>err. SurfaceChanged (Some err)) r0"
      by (cases rule: wrap_cases) auto
    then have r0: "r0 = Inr cur" by (cases r0) simp_all
    note vo = validate_ok [OF ok v(1)]
    from passed(2) show ?thesis
    proof (cases rule: and_do_cases)
      case (failed e)
      with vo show ?thesis by auto
    next
      case (passed u w2)
      then have w2: "w2 = w1" and same: "sl_shadowed cur = sl_shadowed sel" by simp_all
      from vo r0 have spec: "region_spec (sl_start sel) (sl_end sel) (region_log w) = Inr cur" by simp
      from region_ok_window [OF ok] obtain x where f: "fold_window 0 (region_log w) = Inr x" by blast
      from region_spec_Inr [OF f spec] same have "replaceable_at (region_log w) sel (sl_start_idx cur) (sl_end_idx cur)"
        by (simp add: replaceable_at_def)
      moreover from passed(2) [unfolded w2] have "region_ok env w' \<and> region_log w' = region_log w1"
        by (cases rule: and_do_cases) (use measure_surface_ok [of env w1] vo in \<open>auto\<close>)
      ultimately show ?thesis using vo by auto
    qed
  qed
qed

section \<open>The attempt\<close>

definition summary_entry :: "region_transaction \<Rightarrow> prepared_compaction \<Rightarrow> summary_result \<Rightarrow> session_event \<Rightarrow> bool" where
  "summary_entry tx p sr e \<longleftrightarrow> ev_payload e =
     CompactionSummary \<lparr>cm_id = tx_id tx, cm_command = tx_command tx, cm_span = shadow_span p, cm_body = sr\<rparr>"

definition checkpoint_entry :: "region_transaction \<Rightarrow> surface_selection \<Rightarrow> nat \<Rightarrow> user_message \<Rightarrow> session_event \<Rightarrow> bool" where
  "checkpoint_entry tx sel summary_seq m e \<longleftrightarrow> ev_payload e = UserMessageEvent m
     \<and> ev_surface_op e = Some (replace_op (sl_start sel) (sl_end sel))
     \<and> ev_sources e = Some (seqs_json ([ev_seq (tx_start tx), summary_seq] @ sl_shadowed sel))"

text \<open>What a committed run reports.\<close>

definition result_of :: "region_transaction \<Rightarrow> prepared_compaction \<Rightarrow> summary_result \<Rightarrow> nat \<Rightarrow> compaction_result" where
  "result_of tx p sr summary_seq =
     (let sel = pr_selection p in
      \<lparr>rs_id = tx_id tx, rs_command = tx_command tx, rs_start_seq = ev_seq (tx_start tx), rs_summary_seq = summary_seq,
       rs_summary = su_blocks sr, rs_range = (sl_start sel, sl_end sel), rs_shadowed = sl_shadowed sel, rs_tokens = pr_tokens p\<rparr>)"

lemma commit_body_ok:
  assumes ok: "region_ok env w" and run: "commit_compaction_body clk tx p (sr, m) w = (r, w')"
  shows "region_ok env w'
    \<and> (case r of
         Inl _ \<Rightarrow> \<exists>part. region_log w' = region_log w @ part \<and> (part = [] \<or> (\<exists>e. part = [e] \<and> summary_entry tx p sr e))
       | Inr res \<Rightarrow> \<exists>e1 e2. region_log w' = region_log w @ [e1, e2] \<and> summary_entry tx p sr e1
           \<and> checkpoint_entry tx (pr_selection p) (length (region_log w)) m e2
           \<and> res = result_of tx p sr (length (region_log w)))"
  using run unfolding commit_compaction_body_def prod.case Let_def
proof (cases rule: and_do_cases)
  case (failed e)
  with append_log_ok [OF ok failed(1)] show ?thesis by auto
next
  case (passed e1 w1)
  note a1 = append_log_ok [OF ok passed(1)]
  then have ok1: "region_ok env w1" by blast
  from passed(2) show ?thesis
  proof (cases rule: and_do_cases)
    case (failed e)
    with append_log_ok [OF ok1 failed(1)] a1 show ?thesis by (auto simp: summary_entry_def)
  next
    case (passed e2 w2)
    with append_log_ok [OF ok1 passed(1)] a1 show ?thesis
      by (intro conjI) (auto simp: summary_entry_def checkpoint_entry_def result_of_def Let_def)
  qed
qed

lemma attempt_ok:
  assumes ok: "region_ok env w" and run: "compaction_attempt env clk mid opts aborted tx answer p w = (r, w')"
    and p: "prepared_for env es1 sel p" and log: "region_log w = es1 @ fs" and f1: "fold_window 0 es1 = Inr x1"
    and sel: "replaceable_at es1 sel i j"
  shows "region_ok env w'
    \<and> (case r of
         Inl _ \<Rightarrow> \<exists>part. region_log w' = region_log w @ part \<and> (part = [] \<or> (\<exists>e sr. part = [e] \<and> summary_entry tx p sr e))
       | Inr res \<Rightarrow> \<exists>sr e1 e2. region_log w' = region_log w @ [e1, e2] \<and> answer = Inr sr \<and> summary_entry tx p sr e1
           \<and> checkpoint_entry tx sel (length (region_log w)) (checkpoint_message mid (tx_id tx) (tx_command tx) sr) e2
           \<and> int (event_tokens (re_number_text env) e2) < pr_route_tokens p
           \<and> (\<exists>i j. replaceable_at (region_log w) sel i j)
           \<and> res = result_of tx p sr (length (region_log w)))"
  using run unfolding compaction_attempt_def
proof (cases rule: and_do_cases)
  case (failed e)
  from failed(1) obtain r0 where "and_do (lift_result (summarize_compaction env mid tx answer p)) (\<lambda>summarized.
        and_do (lift_result (reject_if (\<not> to_in_turn opts \<and> aborted) SignalAborted)) (\<lambda>_.
        and_do (assert_stable env (to_stability opts) p) (\<lambda>_. give summarized))) w = (r0, w')"
    by (cases rule: wrap_cases)
  then have "region_ok env w' \<and> region_log w' = region_log w"
    by (elim and_do_cases) (use ok stable_ok [OF ok _ p log f1 sel] in auto)
  with failed(2) show ?thesis by auto
next
  case (passed summarized w1)
  obtain sr m where sm: "summarized = (sr, m)" by (cases summarized)
  from passed(1) obtain r0 where run0: "and_do (lift_result (summarize_compaction env mid tx answer p)) (\<lambda>summarized.
        and_do (lift_result (reject_if (\<not> to_in_turn opts \<and> aborted) SignalAborted)) (\<lambda>_.
        and_do (assert_stable env (to_stability opts) p) (\<lambda>_. give summarized))) w = (r0, w1)" "Inr summarized = rethrow (Pair SummaryStage) r0"
    by (cases rule: wrap_cases) auto
  then have r0: "r0 = Inr (sr, m)" using sm by (cases r0) simp_all
  from run0(1) [unfolded r0] have sum: "summarize_compaction env mid tx answer p = Inr (sr, m)"
    and st: "assert_stable env (to_stability opts) p w = (Inr (), w1)"
    by (auto elim!: and_do_cases)
  note so = stable_ok [OF ok st p log f1 sel]
  from sum have ans: "answer = Inr sr" and m: "m = checkpoint_message mid (tx_id tx) (tx_command tx) sr"
    and small: "int (estimate_message (re_number_text env) (UserMessage m)) < pr_route_tokens p"
    by (auto simp: summarize_compaction_def and_then_Inr_iff Let_def)
  from passed(2) obtain r1 where c: "commit_compaction_body clk tx p (sr, m) w1 = (r1, w')" "r = rethrow (Pair CommitStage) r1"
    by (cases rule: wrap_cases) (use sm in auto)
  have ok1: "region_ok env w1" and log1: "region_log w1 = region_log w" using so by auto
  note cb = commit_body_ok [OF ok1 c(1)]
  show ?thesis
  proof (cases r1)
    case (Inl e)
    with c(2) cb log1 show ?thesis by auto
  next
    case (Inr res)
    with cb log1 p obtain e1 e2 where e: "region_log w' = region_log w @ [e1, e2]" "summary_entry tx p sr e1"
      "checkpoint_entry tx sel (length (region_log w)) m e2" "res = result_of tx p sr (length (region_log w))"
      by (auto simp: prepared_for_def)
    then have "event_tokens (re_number_text env) e2 = estimate_message (re_number_text env) (UserMessage m)"
      by (simp add: checkpoint_entry_def event_tokens_def derive_event_message_def)
    with e small ans m so cb c(2) Inr show ?thesis by auto
  qed
qed

section \<open>A whole run\<close>

text \<open>The replacement of a run: the summary record and the checkpoint, on the log they were appended to.\<close>

definition replacing ::
    "region_env \<Rightarrow> region_transaction \<Rightarrow> session_event list \<Rightarrow> prepared_compaction \<Rightarrow> session_event \<Rightarrow> session_event \<Rightarrow> bool" where
  "replacing env tx before p e1 e2 \<longleftrightarrow>
     pr_selection p = tx_selection tx
     \<and> pr_tokens p = int (span_price env before (sl_shadowed (tx_selection tx)))
     \<and> (re_routes env = (\<lambda>_ _. None) \<longrightarrow> pr_route_tokens p = pr_tokens p)
     \<and> (\<exists>sr. summary_entry tx p sr e1)
     \<and> (\<exists>m. checkpoint_entry tx (tx_selection tx) (length before) m e2)
     \<and> int (event_tokens (re_number_text env) e2) < pr_route_tokens p
     \<and> (\<exists>i j. replaceable_at before (tx_selection tx) i j)"

text \<open>A committed run in full: the summarizer's answer to the span is what the record holds and the checkpoint shows,
  the checkpoint is cheaper than the span was on its route, and the report says so.\<close>

definition committed ::
    "region_env \<Rightarrow> surroundings \<Rightarrow> string \<Rightarrow> region_transaction \<Rightarrow> session_event list \<Rightarrow> session_event list \<Rightarrow>
     prepared_compaction \<Rightarrow> summary_result \<Rightarrow> session_event \<Rightarrow> session_event \<Rightarrow> compaction_result \<Rightarrow> bool" where
  "committed env around mid tx opened before p sr e1 e2 res \<longleftrightarrow>
     sr_summarizer around (span_input opened (sl_shadowed (tx_selection tx))) = Inr sr
     \<and> route_priced env opened (sl_shadowed (tx_selection tx)) (pr_route_tokens p)
     \<and> summary_entry tx p sr e1
     \<and> checkpoint_entry tx (tx_selection tx) (length before) (checkpoint_message mid (tx_id tx) (tx_command tx) sr) e2
     \<and> res = result_of tx p sr (length before)"

definition calm :: "region_env \<Rightarrow> surroundings \<Rightarrow> bool" where
  "calm env around \<longleftrightarrow> (\<forall>w. region_run env w (sr_meanwhile around w))"

text \<open>What a run that got past its opening marker leaves: the marker, what others appended, its body, and the
  closing marker if that could be appended.\<close>

definition ran ::
    "region_env \<Rightarrow> surroundings \<Rightarrow> region_world \<Rightarrow> nat \<Rightarrow> nat \<Rightarrow> region_transaction \<Rightarrow> session_event list \<Rightarrow>
     session_event list \<Rightarrow> session_event list \<Rightarrow> bool" where
  "ran env around w start end_seq tx before body ends \<longleftrightarrow>
     (\<exists>w1. region_ok env w1 \<and> region_log w1 = region_log w @ [tx_start tx]
        \<and> (before = region_log w1 \<or> before = region_log (sr_meanwhile around w1))
        \<and> (\<exists>i j. replaceable_at (region_log w1) (tx_selection tx) i j))
     \<and> ev_payload (tx_start tx) = CompactionStart \<lparr>cs_id = tx_id tx, cs_command = tx_command tx, cs_turn = tx_owner tx\<rparr>
     \<and> ev_seq (tx_start tx) = length (region_log w)
     \<and> sl_start (tx_selection tx) = start \<and> sl_end (tx_selection tx) = end_seq
     \<and> ((\<exists>p e1 e2. body = [e1, e2] \<and> replacing env tx before p e1 e2) \<or> body = []
         \<or> (\<exists>p e sr. body = [e] \<and> pr_selection p = tx_selection tx \<and> summary_entry tx p sr e))
     \<and> (ends = [] \<or> (\<exists>e err. ends = [e] \<and> ev_payload e = lifecycle_end tx err))"

lemma close_ok:
  assumes ok: "region_ok env w" and run: "close_compaction env clk tx (r, w) = ((r', landed), w')"
  shows "region_ok env w' \<and> (\<exists>ends. region_log w' = region_log w @ ends
      \<and> (if landed then \<exists>e err. ends = [e] \<and> ev_payload e = lifecycle_end tx err \<and> (err = None \<longleftrightarrow> is_ok r)
          else ends = [] \<and> (\<exists>err x. append_log (clk 3) (lifecycle_end tx err) None None w = (Inl x, w')))
      \<and> (\<forall>res'. r' = Inr res' \<longrightarrow> (\<exists>res e. r = Inr res \<and> compaction_result.truncate res' = res
            \<and> ends = [e] \<and> ev_payload e = lifecycle_end tx None \<and> rs_end_seq res' = ev_seq e)))"
proof (cases r)
  case (Inl f)
  obtain stage err where f: "f = (stage, err)" by (cases f)
  obtain r1 w1 where a: "append_log (clk 3) (lifecycle_end tx (Some (re_chain env err))) None None w = (r1, w1)"
    by (cases "append_log (clk 3) (lifecycle_end tx (Some (re_chain env err))) None None w")
  note ao = append_log_ok [OF ok a]
  with run Inl f a show ?thesis by (cases r1) (auto simp: close_compaction_def)
next
  case (Inr pending)
  obtain r1 w1 where a: "append_log (clk 3) (lifecycle_end tx None) None None w = (r1, w1)"
    by (cases "append_log (clk 3) (lifecycle_end tx None) None None w")
  note ao = append_log_ok [OF ok a]
  with run Inr a show ?thesis
    by (cases r1) (auto simp: close_compaction_def compaction_result.truncate_def compaction_result.extend_def)
qed

definition body_ok ::
    "region_env \<Rightarrow> surroundings \<Rightarrow> string \<Rightarrow> region_transaction \<Rightarrow> session_event list \<Rightarrow> session_event list \<Rightarrow>
     (failure_stage \<times> region_error, compaction_result) result \<Rightarrow> session_event list \<Rightarrow> bool" where
  "body_ok env around mid tx opened before attempt body \<longleftrightarrow>
     (case attempt of
        Inl _ \<Rightarrow> body = [] \<or> (\<exists>p e sr. body = [e] \<and> pr_selection p = tx_selection tx \<and> summary_entry tx p sr e)
      | Inr res \<Rightarrow> \<exists>p sr e1 e2. body = [e1, e2] \<and> replacing env tx before p e1 e2
          \<and> committed env around mid tx opened before p sr e1 e2 res)"

lemma body_ok_length: "body_ok env around mid tx opened before attempt body \<Longrightarrow> length body = 2 \<longleftrightarrow> is_ok attempt"
  by (cases attempt) (auto simp: body_ok_def is_ok_iff)

lemma prepared_attempt_ok:
  assumes ok: "region_ok env w"
    and run: "compaction_attempt env clk mid opts aborted tx (sr_summarizer around (pr_input p)) p w = (r, w')"
    and p: "prepared_for env es1 (tx_selection tx) p" and log: "region_log w = es1 @ fs" and f1: "fold_window 0 es1 = Inr x1"
    and sel: "replaceable_at es1 (tx_selection tx) i j"
  shows "\<exists>body. region_log w' = region_log w @ body \<and> body_ok env around mid tx es1 (region_log w) r body"
proof -
  note ao = attempt_ok [OF ok run p log f1 sel]
  let ?sel = "tx_selection tx"
  have "span_price env (region_log w) (sl_shadowed ?sel) = span_price env es1 (sl_shadowed ?sel)"
    using span_price_extend [OF replaceable_within [OF sel f1]] log by simp
  then have ps: "pr_selection p = ?sel" "pr_tokens p = int (span_price env (region_log w) (sl_shadowed ?sel))"
    "re_routes env = (\<lambda>_ _. None) \<longrightarrow> pr_route_tokens p = pr_tokens p"
    and asked: "pr_input p = span_input es1 (sl_shadowed ?sel)" "route_priced env es1 (sl_shadowed ?sel) (pr_route_tokens p)"
    using p by (simp_all add: prepared_for_def)
  show ?thesis
  proof (cases r)
    case (Inl f)
    from ao [unfolded Inl sum.case] ps(1) show ?thesis unfolding Inl body_ok_def sum.case by blast
  next
    case (Inr res)
    from ao [unfolded Inr sum.case] obtain sr e1 e2 where e: "region_log w' = region_log w @ [e1, e2]" "summary_entry tx p sr e1"
        "checkpoint_entry tx ?sel (length (region_log w)) (checkpoint_message mid (tx_id tx) (tx_command tx) sr) e2"
        "int (event_tokens (re_number_text env) e2) < pr_route_tokens p" "\<exists>i j. replaceable_at (region_log w) ?sel i j"
        "res = result_of tx p sr (length (region_log w))" "sr_summarizer around (pr_input p) = Inr sr" by blast
    from e(2,3) have "\<exists>sr. summary_entry tx p sr e1" "\<exists>m. checkpoint_entry tx ?sel (length (region_log w)) m e2" by blast+
    with ps e(4,5) have "replacing env tx (region_log w) p e1 e2" unfolding replacing_def by blast
    moreover have "committed env around mid tx es1 (region_log w) p sr e1 e2 res"
      unfolding committed_def using e asked by simp
    ultimately show ?thesis using e(1) unfolding Inr body_ok_def sum.case by blast
  qed
qed

lemma try_ok:
  assumes ok: "region_ok env w" and calm: "calm env around" and run: "try_compaction env clk mid opts around tx w = (r, w')"
    and sel: "replaceable_at (region_log w) (tx_selection tx) i j"
  shows "\<exists>w1 before body. region_ok env w1 \<and> region_log w1 = region_log w
    \<and> (before = region_log w1 \<or> before = region_log (sr_meanwhile around w1))
    \<and> region_ok env w' \<and> region_log w' = before @ body \<and> body_ok env around mid tx (region_log w) before r body"
proof -
  obtain r1 w1 where p: "prepare_compaction env (tx_selection tx) w = (r1, w1)" by (cases "prepare_compaction env (tx_selection tx) w")
  note po = prepare_ok [OF ok p]
  then have ok1: "region_ok env w1" and log1: "region_log w1 = region_log w" by simp_all
  from region_ok_window [OF ok] obtain x where f: "fold_window 0 (region_log w) = Inr x" by blast
  show ?thesis
  proof (cases r1)
    case (Inl err)
    with run p have "r = Inl (SummaryStage, err)" "w' = w1" by (simp_all add: try_compaction_def)
    with ok1 log1 show ?thesis by (intro exI [of _ w1] exI [of _ "region_log w1"] exI [of _ "[]"]) (simp add: body_ok_def)
  next
    case (Inr prepared)
    let ?w2 = "sr_meanwhile around w1"
    from region_run_ok [OF _ ok1, of ?w2] calm obtain fs where ok2: "region_ok env ?w2" and log2: "region_log ?w2 = region_log w @ fs"
      using log1 by (auto simp: calm_def)
    have pf: "prepared_for env (region_log w) (tx_selection tx) prepared" using po Inr by simp
    from run p Inr have a: "compaction_attempt env clk mid opts (sr_aborted around 1) tx (sr_summarizer around (pr_input prepared)) prepared ?w2
        = (r, w')" by (simp add: try_compaction_def)
    from attempt_ok [OF ok2 a pf log2 f sel] have "region_ok env w'" by blast
    with prepared_attempt_ok [OF ok2 a pf log2 f sel] ok1 log1 show ?thesis by blast
  qed
qed

lemma opened_replaceable:
  assumes "region_ok env w" and "open_compaction_region now cid opts aborted start end_seq w = (Inr tx, w0)"
  shows "sl_start (tx_selection tx) = start \<and> sl_end (tx_selection tx) = end_seq
    \<and> (\<exists>i j. replaceable_at (region_log w0) (tx_selection tx) i j)"
proof -
  note op = open_region_ok [OF assms, simplified]
  from region_ok_window [OF assms(1)] obtain x where f: "fold_window 0 (region_log w) = Inr x" by blast
  from region_ok_window [of env w0] op obtain x0 where f0: "fold_window 0 (region_log w @ [tx_start tx]) = Inr x0" by auto
  have "ev_type (tx_start tx) = ''compaction/start''" using op by simp
  then have "log_nodes (region_log w @ [tx_start tx]) = log_nodes (region_log w)"
    by (intro log_nodes_off [OF f0]) (simp add: is_surface_eligible_type_def SURFACE_EVENT_TYPES_def)
  with region_spec_Inr [OF f, of start end_seq "tx_selection tx"] op replaceable_extend [OF _ f, of "tx_selection tx" _ _ "[tx_start tx]"]
  show ?thesis by auto
qed

text \<open>How the bracket of a run ends: with one closing marker, which carries an error unless the replacement was
  committed, or open because the one attempt to append that marker was refused.\<close>

definition closed_by ::
    "region_env \<Rightarrow> (nat \<Rightarrow> int) \<Rightarrow> region_transaction \<Rightarrow> session_event list \<Rightarrow> bool \<Rightarrow> session_event list \<Rightarrow> region_world \<Rightarrow> bool" where
  "closed_by env clk tx es whole ends w' \<longleftrightarrow>
     (\<exists>e err. ends = [e] \<and> ev_payload e = lifecycle_end tx err \<and> (err = None \<longleftrightarrow> whole))
     \<or> (ends = [] \<and> (\<exists>wc err x. region_ok env wc \<and> region_log wc = es
          \<and> append_log (clk 3) (lifecycle_end tx err) None None wc = (Inl x, w')))"

lemma compact_runs:
  assumes ok: "region_ok env w" and calm: "calm env around"
    and run: "compact_surface_region env clk cid mid opts around start end_seq w = (r, w')"
  obtains (refused) e where "r = Inl e" "region_log w' = region_log w" "region_ok env w'"
  | (ran) tx before body ends where "ran env around w start end_seq tx before body ends"
      "region_log w' = before @ body @ ends" "region_ok env w'" "assert_no_active_compaction (region_log w) = Inr ()"
      "\<And>res. r = Inr res \<Longrightarrow> (\<exists>p sr e1 e2 e. body = [e1, e2] \<and> replacing env tx before p e1 e2
          \<and> committed env around mid tx (region_log w @ [tx_start tx]) before p sr e1 e2 (compaction_result.truncate res)
          \<and> ends = [e] \<and> ev_payload e = lifecycle_end tx None \<and> rs_end_seq res = ev_seq e)"
      "closed_by env clk tx (before @ body) (length body = 2) ends w'"
  using run unfolding compact_surface_region_def
proof (cases rule: and_do_cases)
  case (failed e)
  with open_region_ok [OF ok failed(1)] show ?thesis by (intro refused) simp_all
next
  case (passed tx w0)
  note op = open_region_ok [OF ok passed(1), simplified]
  note sel = opened_replaceable [OF ok passed(1)]
  have opened: "region_log w0 = region_log w @ [tx_start tx]" using op by simp
  obtain attempt wa where at: "try_compaction env clk mid opts around tx w0 = (attempt, wa)" by (cases "try_compaction env clk mid opts around tx w0")
  from sel obtain i j where "replaceable_at (region_log w0) (tx_selection tx) i j" by blast
  from try_ok [OF _ calm at this] op obtain w1 before body where w1: "region_ok env w1" "region_log w1 = region_log w @ [tx_start tx]"
    "before = region_log w1 \<or> before = region_log (sr_meanwhile around w1)" and oka: "region_ok env wa"
    and loga: "region_log wa = before @ body" and body: "body_ok env around mid tx (region_log w0) before attempt body" by auto
  note len = body_ok_length [OF body]
  obtain r' landed where cl: "close_compaction env clk tx (attempt, wa) = ((r', landed), w')"
    and r: "r = conclude_compaction opts (sr_aborted around 2) (sr_flush_error around) (r', landed)"
    using passed(2) at by (auto split: prod.splits)
  from close_ok [OF oka cl] obtain ends where w': "region_ok env w'" "region_log w' = region_log wa @ ends"
    and ends: "if landed then \<exists>e err. ends = [e] \<and> ev_payload e = lifecycle_end tx err \<and> (err = None \<longleftrightarrow> is_ok attempt)
          else ends = [] \<and> (\<exists>err x. append_log (clk 3) (lifecycle_end tx err) None None wa = (Inl x, w'))"
    and res: "\<forall>res'. r' = Inr res' \<longrightarrow> (\<exists>res e. attempt = Inr res \<and> compaction_result.truncate res' = res
          \<and> ends = [e] \<and> ev_payload e = lifecycle_end tx None \<and> rs_end_seq res' = ev_seq e)" by auto
  have closed: "closed_by env clk tx (before @ body) (length body = 2) ends w'"
  proof (cases landed)
    case True
    then show ?thesis using ends len by (simp add: closed_by_def)
  next
    case False
    then show ?thesis using ends oka loga unfolding closed_by_def by simp blast
  qed
  have "\<exists>i j. replaceable_at (region_log w1) (tx_selection tx) i j" using sel op w1(2) by simp
  with w1 have opens: "\<exists>w1. region_ok env w1 \<and> region_log w1 = region_log w @ [tx_start tx]
        \<and> (before = region_log w1 \<or> before = region_log (sr_meanwhile around w1))
        \<and> (\<exists>i j. replaceable_at (region_log w1) (tx_selection tx) i j)" by blast
  have "((\<exists>p e1 e2. body = [e1, e2] \<and> replacing env tx before p e1 e2) \<or> body = []
         \<or> (\<exists>p e sr. body = [e] \<and> pr_selection p = tx_selection tx \<and> summary_entry tx p sr e))"
    using body by (cases attempt) (auto simp: body_ok_def)
  moreover have "ends = [] \<or> (\<exists>e err. ends = [e] \<and> ev_payload e = lifecycle_end tx err)" using ends by (auto split: if_splits)
  ultimately have "ran env around w start end_seq tx before body ends"
    unfolding ran_def using opens op sel by blast
  moreover have "\<exists>p sr e1 e2 e. body = [e1, e2] \<and> replacing env tx before p e1 e2
        \<and> committed env around mid tx (region_log w @ [tx_start tx]) before p sr e1 e2 (compaction_result.truncate res')
        \<and> ends = [e] \<and> ev_payload e = lifecycle_end tx None \<and> rs_end_seq res' = ev_seq e"
    if "r = Inr res'" for res'
  proof -
    from that r have "r' = Inr res'" by (auto simp: conclude_compaction_def split: if_splits sum.splits option.splits)
    with res obtain e where e: "attempt = Inr (compaction_result.truncate res')" "ends = [e]"
      "ev_payload e = lifecycle_end tx None" "rs_end_seq res' = ev_seq e" by auto
    from body [unfolded e(1) body_ok_def sum.case opened] e(2-4) show ?thesis by blast
  qed
  ultimately show ?thesis using w' loga op closed by (intro ran [of tx before body ends]) auto
qed

section \<open>The effect on the surface\<close>

lemma not_surface_payload:
  "ev_payload e = CompactionStart c \<Longrightarrow> \<not> is_surface_eligible_type (ev_type e)"
  "ev_payload e = CompactionSummary cm \<Longrightarrow> \<not> is_surface_eligible_type (ev_type e)"
  "ev_payload e = CompactionEnd ce \<Longrightarrow> \<not> is_surface_eligible_type (ev_type e)"
  by (simp_all add: is_surface_eligible_type_def SURFACE_EVENT_TYPES_def)

lemma window_prefix: "fold_window 0 (es @ fs) = Inr x \<Longrightarrow> \<exists>y. fold_window 0 es = Inr y"
  using fold_window_prefix [of 0 es fs] by simp

lemma replace_op_of_replace: "replace_op_of (replace_op a b) = Some (s, t) \<Longrightarrow> s = a \<and> t = b"
  using replace_op_of_coords [of "replace_op a b" s t] by (auto simp: replace_op_def)

lemma replace_effect:
  assumes f: "fold_window 0 (es @ [e]) = Inr x" and e: "is_surface_eligible_type (ev_type e)" "ev_surface_op e = Some (replace_op a b)"
    and i: "i < length (log_nodes es)" "log_nodes es ! i = a" and j: "j < length (log_nodes es)" "log_nodes es ! j = b"
  shows "log_nodes (es @ [e]) = splice i (j - i + 1) [length es] (log_nodes es)"
proof -
  obtain st reps where x: "x = (st, reps)" by (cases x)
  from f [unfolded x] show ?thesis
  proof (cases rule: fold_window_step)
    case (off st0 reps0)
    with e show ?thesis by (simp add: is_surface_event_def)
  next
    case (app st0 reps0)
    with e show ?thesis by (simp add: append_op_def replace_op_def)
  next
    case (repl st0 reps0 op' s t i' j')
    have ns: "log_nodes es = nodes st0" using repl(1) by (simp add: log_nodes_def)
    have st: "s = a" "t = b" using repl(4,6) e replace_op_of_replace by auto
    have dist: "distinct (log_nodes es)" using log_nodes_named [OF repl(1)] by simp
    have "index_of (log_nodes es ! i) (log_nodes es) = Some i" "index_of (log_nodes es ! j) (log_nodes es) = Some j"
      using dist i(1) j(1) by (auto intro: index_of_nth_distinct)
    then have "i' = i" "j' = j" using repl(7,8) st ns i j by simp_all
    with repl(10) ns f x show ?thesis by (simp add: log_nodes_def)
  qed
qed

lemma checkpoint_effect:
  assumes f: "fold_window 0 (es @ [e]) = Inr x" and e: "checkpoint_entry tx sel q m e" and sel: "replaceable_at es sel i j"
  shows "log_nodes (es @ [e]) = splice i (j - i + 1) [length es] (log_nodes es)"
  by (rule replace_effect [OF f])
    (use e sel in \<open>simp_all add: checkpoint_entry_def replaceable_at_def is_surface_eligible_type_def SURFACE_EVENT_TYPES_def\<close>)

lemma replacement_effect:
  assumes f: "fold_window 0 (before @ [e1, e2]) = Inr x" and rep: "replacing env tx before p e1 e2"
  obtains i j where "replaceable_at before (tx_selection tx) i j"
    "log_nodes (before @ [e1, e2]) = splice i (j - i + 1) [Suc (length before)] (log_nodes before)"
    "ev_seq e2 = Suc (length before)"
proof -
  from rep obtain i j sr m where sel: "replaceable_at before (tx_selection tx) i j" and e1: "summary_entry tx p sr e1"
    and e2: "checkpoint_entry tx (tx_selection tx) (length before) m e2" by (auto simp: replacing_def)
  have f2: "fold_window 0 ((before @ [e1]) @ [e2]) = Inr x" using f by simp
  obtain x1 where f1: "fold_window 0 (before @ [e1]) = Inr x1" using window_prefix [OF f2] by blast
  obtain x0 where f0: "fold_window 0 before = Inr x0" using window_prefix [OF f1] by blast
  have off: "log_nodes (before @ [e1]) = log_nodes before"
    by (rule log_nodes_off [OF f1]) (use e1 not_surface_payload in \<open>auto simp: summary_entry_def\<close>)
  have sel1: "replaceable_at (before @ [e1]) (tx_selection tx) i j" by (rule replaceable_extend [OF sel f0 off])
  have "ev_seq e2 = Suc (length before)" using fold_window_seqs [OF f, of "Suc (length before)"] by (simp add: nth_append)
  with checkpoint_effect [OF f2 e2 sel1] off show ?thesis by (intro that [OF sel]) simp_all
qed

text \<open>The prices of a surface around a replacement.\<close>

lemma slice_parts:
  assumes "i \<le> j"
  shows "take i xs @ slice i (j + 1) xs @ drop (j + 1) xs = xs"
proof -
  have "drop (j + 1) xs = drop (j + 1 - i) (drop i xs)" using assms by simp
  then have "slice i (j + 1) xs @ drop (j + 1) xs = drop i xs" by (simp only: slice_def append_take_drop_id)
  then show ?thesis by (simp only: append_take_drop_id)
qed

lemma span_price_Cons [simp]: "span_price env es (n # ns) = event_tokens (re_number_text env) (es ! n) + span_price env es ns"
  by (simp add: span_price_def)

lemma span_price_append [simp]: "span_price env es (xs @ ys) = span_price env es xs + span_price env es ys"
  by (simp add: span_price_def)

lemma replaced_price:
  assumes f: "fold_window 0 (before @ [e1, e2] @ rest) = Inr x" and rep: "replaceable_at before sel i j"
    and ns: "ns = splice i (j - i + 1) [Suc (length before)] (log_nodes before)"
  shows "span_price env (before @ [e1, e2] @ rest) ns + span_price env before (sl_shadowed sel)
    = span_price env before (log_nodes before) + event_tokens (re_number_text env) e2"
proof -
  let ?L = "log_nodes before" and ?es = "before @ [e1, e2] @ rest"
  obtain y where y: "fold_window 0 before = Inr y" using window_prefix [OF f] by blast
  have ij: "i \<le> j" "j < length ?L" "slice i (j + 1) ?L = sl_shadowed sel" using rep by (simp_all add: replaceable_at_def)
  have whole: "?L = take i ?L @ sl_shadowed sel @ drop (j + 1) ?L" using slice_parts [OF ij(1), of ?L] ij(3) by simp
  have keep: "span_price env ?es zs = span_price env before zs" if "set zs \<subseteq> set ?L" for zs
    using span_price_extend [of zs before env "[e1, e2] @ rest"] log_nodes_within [OF y] that by auto
  have "?es ! Suc (length before) = e2" by (simp add: nth_append)
  moreover have "span_price env ?es (take i ?L) = span_price env before (take i ?L)" by (rule keep) (rule set_take_subset)
  moreover have "span_price env ?es (drop (j + 1) ?L) = span_price env before (drop (j + 1) ?L)" by (rule keep) (rule set_drop_subset)
  ultimately have "span_price env ?es ns = span_price env before (take i ?L) + event_tokens (re_number_text env) e2 + span_price env before (drop (j + 1) ?L)"
    using ij by (simp add: ns splice_def)
  moreover have "span_price env before ?L = span_price env before (take i ?L) + span_price env before (sl_shadowed sel) + span_price env before (drop (j + 1) ?L)"
    by (subst whole) simp
  ultimately show ?thesis by simp
qed

section \<open>What a successful compaction has done\<close>

text \<open>A run starts with its opening marker, right after the log it found.\<close>

lemma ran_opened:
  assumes "ran env around w start end_seq tx before body ends" and "calm env around"
  shows "(\<exists>others. before = region_log w @ tx_start tx # others)
    \<and> ev_payload (tx_start tx) = CompactionStart \<lparr>cs_id = tx_id tx, cs_command = tx_command tx, cs_turn = tx_owner tx\<rparr>
    \<and> sl_start (tx_selection tx) = start \<and> sl_end (tx_selection tx) = end_seq"
proof -
  from assms(1) obtain w1 where w1: "region_ok env w1" "region_log w1 = region_log w @ [tx_start tx]"
    "before = region_log w1 \<or> before = region_log (sr_meanwhile around w1)" by (auto simp: ran_def)
  with region_run_ok [OF _ w1(1), of "sr_meanwhile around w1"] assms(2)
  have "\<exists>others. before = region_log w @ tx_start tx # others" by (auto simp: calm_def)
  with assms(1) show ?thesis by (simp add: ran_def)
qed

lemma committed_surface:
  assumes f: "fold_window 0 (before @ [e1, e2] @ [e3]) = Inr x" and rep: "replacing env tx before p e1 e2"
    and e3: "ev_payload e3 = lifecycle_end tx err"
  obtains i j where "replaceable_at before (tx_selection tx) i j"
    "log_nodes (before @ [e1, e2, e3]) = splice i (j - i + 1) [ev_seq e2] (log_nodes before)"
    "ev_seq e1 = length before" "ev_seq e2 = Suc (length before)"
proof -
  have f3: "fold_window 0 ((before @ [e1, e2]) @ [e3]) = Inr x" using f by simp
  obtain y where f2: "fold_window 0 (before @ [e1, e2]) = Inr y" using window_prefix [OF f3] by blast
  from replacement_effect [OF f2 rep] obtain i j where ij: "replaceable_at before (tx_selection tx) i j"
    and eff: "log_nodes (before @ [e1, e2]) = splice i (j - i + 1) [Suc (length before)] (log_nodes before)"
    and seq: "ev_seq e2 = Suc (length before)" .
  have "log_nodes ((before @ [e1, e2]) @ [e3]) = log_nodes (before @ [e1, e2])"
    by (rule log_nodes_off [OF f3]) (use e3 not_surface_payload in \<open>auto simp: lifecycle_end_def\<close>)
  moreover have "ev_seq e1 = length before" using fold_window_seqs [OF f2, of "length before"] by (simp add: nth_append)
  ultimately show ?thesis using that [OF ij] eff seq by simp
qed

lemma committed_result:
  assumes "committed env around mid tx opened before p sr e1 e2 (compaction_result.truncate res)" and "pr_selection p = tx_selection tx"
  shows "rs_id res = tx_id tx \<and> rs_start_seq res = ev_seq (tx_start tx) \<and> rs_summary_seq res = length before
    \<and> rs_summary res = su_blocks sr \<and> rs_range res = (sl_start (tx_selection tx), sl_end (tx_selection tx))
    \<and> rs_shadowed res = sl_shadowed (tx_selection tx) \<and> rs_tokens res = pr_tokens p"
  using assms by (simp add: committed_def result_of_def compaction_result.truncate_def Let_def)

text \<open>
  Claim C19. A compaction that returns has appended its record, the checkpoint and the closing marker as the last
  three events after its opening marker and whatever others appended meanwhile. The summarizer was asked for the
  model's view of the span under the request header in force, its answer is the record's body and the summary the
  call reports, and the checkpoint is a user message with that summary between its fixed framing texts, citing the
  opening marker, the record and every shadowed node. On the surface it found, it has replaced exactly the requested
  span, at cuts that split no call from its result, by the checkpoint; the sequence numbers, span and price it reports
  are those of the log. Whatever pricing the route has, the checkpoint costs less than the route's price of the
  span when the compaction began; where no route prices images, the whole surface has become cheaper.
\<close>

theorem compaction_commits:
  assumes "region_reach env w" and "calm env around"
    and "compact_surface_region env clk cid mid opts around start end_seq w = (Inr res, w')"
  shows "\<exists>opening others e1 e2 e3 c cm ce i j t.
    let before = region_log w @ opening # others; ns = log_nodes before in
      region_log w' = before @ [e1, e2, e3]
      \<and> ev_payload opening = CompactionStart c \<and> ev_payload e1 = CompactionSummary cm \<and> ev_payload e3 = CompactionEnd ce
      \<and> cm_id cm = cs_id c \<and> ce_id ce = cs_id c \<and> ce_turn ce = cs_turn c \<and> ce_error ce = None
      \<and> sr_summarizer around (span_input (region_log w @ [opening]) (rs_shadowed res)) = Inr (cm_body cm)
      \<and> rs_summary res = su_blocks (cm_body cm)
      \<and> ev_payload e2 = UserMessageEvent \<lparr>um_id = mid,
          um_content = TextBlock (CHECKPOINT_PREAMBLE @ [CHR 0x0A, CHR 0x0A] @ ''<compacted-summary>'')
            # rs_summary res @ [TextBlock ''</compacted-summary>''],
          um_source = compact_checkpoint_source (cs_id c) (cs_command c)\<rparr>
      \<and> ev_surface_op e2 = Some (replace_op start end_seq)
      \<and> ev_sources e2 = Some (seqs_json ([ev_seq opening, ev_seq e1] @ rs_shadowed res))
      \<and> rs_id res = cs_id c \<and> rs_range res = (start, end_seq) \<and> rs_start_seq res = ev_seq opening
      \<and> rs_summary_seq res = ev_seq e1 \<and> rs_end_seq res = ev_seq e3
      \<and> i \<le> j \<and> j < length ns \<and> ns ! i = start \<and> ns ! j = end_seq
      \<and> in_progress before ns i = 0 \<and> in_progress before ns (j + 1) = 0
      \<and> rs_shadowed res = slice i (j + 1) ns \<and> rs_tokens res = int (span_price env before (rs_shadowed res))
      \<and> log_nodes (region_log w') = splice i (j - i + 1) [ev_seq e2] ns
      \<and> route_priced env (region_log w @ [opening]) (rs_shadowed res) t \<and> int (event_tokens (re_number_text env) e2) < t
      \<and> (re_routes env = (\<lambda>_ _. None) \<longrightarrow>
           span_price env (region_log w') (log_nodes (region_log w')) < span_price env before ns)"
proof -
  have ok: "region_ok env w" by (rule region_reach_ok [OF assms(1)])
  from ok assms(2,3) show ?thesis
  proof (cases rule: compact_runs)
    case (ran tx before body ends)
    from ran(5) [OF refl] obtain p sr e1 e2 e3 where b: "body = [e1, e2]" "ends = [e3]" and rep: "replacing env tx before p e1 e2"
      and com: "committed env around mid tx (region_log w @ [tx_start tx]) before p sr e1 e2 (compaction_result.truncate res)"
      and e3: "ev_payload e3 = lifecycle_end tx None" "rs_end_seq res = ev_seq e3" by auto
    note opened = ran_opened [OF ran(1) assms(2)]
    from opened obtain others where before: "before = region_log w @ tx_start tx # others" by blast
    have log: "region_log w' = before @ [e1, e2, e3]" using ran(2) b by simp
    obtain x where f: "fold_window 0 (before @ [e1, e2] @ [e3]) = Inr x" using region_ok_window [OF ran(3)] log by auto
    from committed_surface [OF f rep e3(1)] obtain i j where ij: "replaceable_at before (tx_selection tx) i j"
      and surface: "log_nodes (before @ [e1, e2, e3]) = splice i (j - i + 1) [ev_seq e2] (log_nodes before)"
      and seqs: "ev_seq e1 = length before" "ev_seq e2 = Suc (length before)" .
    have cheaper: "span_price env (region_log w') (log_nodes (region_log w')) < span_price env before (log_nodes before)"
      if "re_routes env = (\<lambda>_ _. None)"
      using replaced_price [OF f ij, of "log_nodes (region_log w')" env] surface seqs log rep that by (simp add: replacing_def)
    have sel: "pr_selection p = tx_selection tx" "pr_tokens p = int (span_price env before (sl_shadowed (tx_selection tx)))"
      and small: "int (event_tokens (re_number_text env) e2) < pr_route_tokens p" using rep by (simp_all add: replacing_def)
    note res = committed_result [OF com sel(1)]
    let ?c = "\<lparr>cs_id = tx_id tx, cs_command = tx_command tx, cs_turn = tx_owner tx\<rparr>"
    let ?cm = "\<lparr>cm_id = tx_id tx, cm_command = tx_command tx, cm_span = shadow_span p, cm_body = sr\<rparr>"
    let ?ce = "\<lparr>ce_id = tx_id tx, ce_command = tx_command tx, ce_turn = tx_owner tx, ce_error = None\<rparr>"
    show ?thesis
      using before log surface cheaper ij opened res com e3 sel small seqs
      by (intro exI [of _ "tx_start tx"] exI [of _ others] exI [of _ e1] exI [of _ e2] exI [of _ e3] exI [of _ ?c] exI [of _ ?cm]
          exI [of _ ?ce] exI [of _ i] exI [of _ j] exI [of _ "pr_route_tokens p"])
        (simp add: Let_def replaceable_at_def lifecycle_end_def committed_def summary_entry_def checkpoint_entry_def
          checkpoint_message_def frame_summary_def)
  qed simp
qed

section \<open>Compaction keeps the log metered\<close>

lemma arm_shadow_span:
  assumes "int (sl_start (pr_selection p)) \<le> MAX_SAFE_INTEGER" and "int (sl_end (pr_selection p)) \<le> MAX_SAFE_INTEGER"
  shows "is_ok (arm_claim (shadow_span p))"
  using assms by (simp add: arm_claim_def shadow_span_def Let_def session_seq_int)

lemma replace_op_of_safe:
  "int a \<le> MAX_SAFE_INTEGER \<Longrightarrow> int b \<le> MAX_SAFE_INTEGER \<Longrightarrow> replace_op_of (replace_op a b) = Some (a, b)"
  by (simp add: replace_op_of_def replace_op_def)

lemma metered_plain:
  "\<not> is_surface_eligible_type (ev_type e) \<Longrightarrow> metering_span e = None \<Longrightarrow> metered_event nt es e"
  by (simp add: metered_event_def is_replacement_surface_event_def is_surface_event_def)

lemma metered_bracket:
  "ev_payload e = CompactionStart c \<Longrightarrow> metered_event nt es e"
  "ev_payload e = CompactionEnd ce \<Longrightarrow> metered_event nt es e"
  using not_surface_payload by (auto intro!: metered_plain simp: metering_span_def)

lemma metered_summary:
  assumes "summary_entry tx p sr e" and "is_ok (arm_claim (shadow_span p))"
  shows "metered_event nt es e"
  using assms not_surface_payload(2) [of e]
  by (simp add: metered_event_def summary_entry_def metering_span_def is_replacement_surface_event_def is_surface_event_def)

lemma span_price_sum: "heuristic_sum (priced_nodes (re_number_text env) es ns) = span_price env es ns"
  by (simp add: heuristic_sum_def priced_nodes_def span_price_def comp_def node_price)

text \<open>A replacement right after a metering event that states its range and the price of what it shadows.\<close>

lemma metered_replace:
  assumes f: "fold_window 0 (es @ [e1]) = Inr x" and e1: "metering_span e1 = Some sp" and e2: "metering_span e2 = None"
    and op: "ev_surface_op e2 = Some (replace_op a b)" and safe: "int a \<le> MAX_SAFE_INTEGER" "int b \<le> MAX_SAFE_INTEGER"
    and i: "i \<le> j" "log_nodes es ! i = a" and j: "j < length (log_nodes es)" "log_nodes es ! j = b"
    and sp: "span_start sp = JInt (int a)" "span_end sp = JInt (int b)"
      "span_tokens sp = JInt (int (span_price env es (slice i (j + 1) (log_nodes es))))"
  shows "metered_event (re_number_text env) (es @ [e1]) e2"
proof -
  let ?ns = "log_nodes es"
  obtain x0 where f0: "fold_window 0 es = Inr x0" using window_prefix [OF f] by blast
  obtain st reps where x: "x = (st, reps)" by (cases x)
  have "\<not> is_surface_eligible_type (ev_type e1)"
    using e1 by (cases "ev_payload e1") (auto simp: metering_span_def is_surface_eligible_type_def SURFACE_EVENT_TYPES_def)
  with log_nodes_off [OF f] f x have ns: "nodes st = ?ns" by (simp add: log_nodes_def)
  have "distinct ?ns" using log_nodes_named [OF f0] by simp
  then have "index_of (?ns ! i) ?ns = Some i" "index_of (?ns ! j) ?ns = Some j" using i j by (auto intro: index_of_nth_distinct)
  then have range: "replacement_range st a b = Inr (i, j, slice i (j + 1) ?ns)"
    using i j ns by (simp add: replacement_range_def)
  have "span_price env (es @ [e1]) (slice i (j + 1) ?ns) = span_price env es (slice i (j + 1) ?ns)"
  proof (rule span_price_extend, rule ballI)
    fix n assume "n \<in> set (slice i (j + 1) ?ns)"
    then have "n \<in> set ?ns" by (rule subsetD [OF set_slice_subset])
    then show "n < length es" by (rule log_nodes_within [OF f0])
  qed
  then have "prices_range (re_number_text env) (es @ [e1]) e2 sp"
    using f x range sp op replace_op_of_safe [OF safe] by (simp add: prices_range_def span_price_sum)
  with e1 e2 show ?thesis by (simp add: metered_event_def last_opt_def)
qed

lemma metered_checkpoint:
  assumes rep: "replacing env tx before p e1 e2" and f: "fold_window 0 (before @ [e1]) = Inr x"
    and safe: "int (sl_start (tx_selection tx)) \<le> MAX_SAFE_INTEGER" "int (sl_end (tx_selection tx)) \<le> MAX_SAFE_INTEGER"
  shows "metered_event (re_number_text env) (before @ [e1]) e2"
proof -
  let ?sel = "tx_selection tx"
  from rep obtain i j sr m where sel: "replaceable_at before ?sel i j" and e1: "summary_entry tx p sr e1"
    and e2: "checkpoint_entry tx ?sel (length before) m e2" and price: "pr_tokens p = int (span_price env before (sl_shadowed ?sel))"
    and ps: "pr_selection p = ?sel" by (auto simp: replacing_def)
  have "metering_span e1 = Some (shadow_span p)" "metering_span e2 = None"
    using e1 e2 by (simp_all add: summary_entry_def checkpoint_entry_def metering_span_def)
  then show ?thesis
    by (rule metered_replace [OF f _ _ _ safe, where i = i and j = j])
      (use sel e2 price ps in \<open>simp_all add: checkpoint_entry_def replaceable_at_def shadow_span_def Let_def\<close>)
qed

lemma ran_cursors:
  assumes r: "ran env around w start end_seq tx before body ends" and calm: "calm env around"
    and bound: "int (length before) \<le> MAX_SAFE_INTEGER + 1"
  shows "int (sl_start (tx_selection tx)) \<le> MAX_SAFE_INTEGER \<and> int (sl_end (tx_selection tx)) \<le> MAX_SAFE_INTEGER"
proof -
  let ?sel = "tx_selection tx"
  from r obtain w1 i j where w1: "region_ok env w1" "before = region_log w1 \<or> before = region_log (sr_meanwhile around w1)"
    and rep: "replaceable_at (region_log w1) ?sel i j" by (auto simp: ran_def)
  have "\<exists>x. fold_window 0 (region_log w1) = Inr x" by (rule region_ok_window [OF w1(1)])
  then obtain x1 where f1: "fold_window 0 (region_log w1) = Inr x1" by blast
  have "sl_start ?sel \<in> set (log_nodes (region_log w1))" "sl_end ?sel \<in> set (log_nodes (region_log w1))"
    using rep unfolding replaceable_at_def by (metis le_less_trans nth_mem, metis nth_mem)
  then have "sl_start ?sel < length (region_log w1)" "sl_end ?sel < length (region_log w1)"
    using log_nodes_within [OF f1] by blast+
  moreover have "length (region_log w1) \<le> length before"
    using w1 region_run_ok [OF _ w1(1), of "sr_meanwhile around w1"] calm by (auto simp: calm_def)
  ultimately show ?thesis using bound by simp
qed

lemma ran_metered:
  assumes r: "ran env around w start end_seq tx before body ends" and calm: "calm env around"
    and ok: "region_ok env w'" and log: "region_log w' = before @ body @ ends"
    and pre: "fully_metered (re_number_text env) before"
  shows "fully_metered (re_number_text env) (region_log w')"
proof -
  let ?nt = "re_number_text env"
  have bound: "int (length before) \<le> MAX_SAFE_INTEGER + 1" using ok log by (simp add: region_ok_def)
  note safe = ran_cursors [OF r calm bound]
  obtain x where f: "fold_window 0 (before @ body @ ends) = Inr x" using region_ok_window [OF ok] log by auto
  have ends: "metered_event ?nt es e" if "e \<in> set ends" for es e
    using r that by (auto simp: ran_def lifecycle_end_def intro: metered_bracket)
  have "fully_metered ?nt (before @ body)"
  proof -
    from r consider (none) "body = []" | (both) p e1 e2 where "body = [e1, e2]" "replacing env tx before p e1 e2"
      | (one) p e sr where "body = [e]" "pr_selection p = tx_selection tx" "summary_entry tx p sr e" by (auto simp: ran_def)
    then show ?thesis
    proof cases
      case none
      with pre show ?thesis by simp
    next
      case one
      then have "is_ok (arm_claim (shadow_span p))" using safe by (intro arm_shadow_span) simp_all
      with pre one metered_summary show ?thesis by (simp add: fully_metered_snoc)
    next
      case both
      then have "is_ok (arm_claim (shadow_span p))" using safe by (intro arm_shadow_span) (simp_all add: replacing_def)
      then have "metered_event ?nt before e1" using both metered_summary by (auto simp: replacing_def)
      moreover obtain y where "fold_window 0 (before @ [e1]) = Inr y"
        using window_prefix [of "before @ [e1]" "e2 # ends"] f both by auto
      then have "metered_event ?nt (before @ [e1]) e2" using metered_checkpoint [OF both(2)] safe by blast
      ultimately have "fully_metered ?nt ((before @ [e1]) @ [e2])" using pre by (simp only: fully_metered_snoc)
      with both show ?thesis by simp
    qed
  qed
  note body = this
  from r consider "ends = []" | e where "ends = [e]" by (auto simp: ran_def)
  then have "fully_metered ?nt ((before @ body) @ ends)"
  proof cases
    case 2
    then show ?thesis using body ends unfolding 2 fully_metered_snoc by simp
  qed (use body in simp)
  with log show ?thesis by simp
qed

lemma fully_metered_opening:
  assumes "ran env around w start end_seq tx before body ends" and "fully_metered (re_number_text env) (region_log w)"
    and "\<And>w1. fully_metered (re_number_text env) (region_log w1) \<Longrightarrow> fully_metered (re_number_text env) (region_log (sr_meanwhile around w1))"
  shows "fully_metered (re_number_text env) before"
proof -
  from assms(1) obtain w1 where w1: "region_log w1 = region_log w @ [tx_start tx]" "before = region_log w1 \<or> before = region_log (sr_meanwhile around w1)"
    and st: "ev_payload (tx_start tx) = CompactionStart \<lparr>cs_id = tx_id tx, cs_command = tx_command tx, cs_turn = tx_owner tx\<rparr>"
    by (auto simp: ran_def)
  have "fully_metered (re_number_text env) (region_log w1)"
    unfolding w1(1) fully_metered_snoc using assms(2) metered_bracket(1) [OF st] by simp
  with w1(2) assms(3) show ?thesis by auto
qed

text \<open>
  Claim C22. Whatever way a compaction ends, it leaves a fully metered log fully metered, provided others append
  metered events only: its checkpoint comes right after the record that prices the span it replaces. The
  constant-size token projections therefore stay exact across compactions.
\<close>

theorem compaction_keeps_metering:
  assumes "region_reach env w" and "calm env around"
    and "compact_surface_region env clk cid mid opts around start end_seq w = (r, w')"
    and "fully_metered (re_number_text env) (region_log w)"
    and "\<And>w1. fully_metered (re_number_text env) (region_log w1) \<Longrightarrow> fully_metered (re_number_text env) (region_log (sr_meanwhile around w1))"
  shows "fully_metered (re_number_text env) (region_log w')"
  using region_reach_ok [OF assms(1)] assms(2,3)
proof (cases rule: compact_runs)
  case (refused e)
  with assms(4) show ?thesis by simp
next
  case (ran tx before body ends)
  from fully_metered_opening [OF ran(1) assms(4,5)] ran_metered [OF ran(1) assms(2) ran(3,2)] show ?thesis by blast
qed

section \<open>The lock\<close>

definition unlocks :: "session_event \<Rightarrow> bool" where
  "unlocks e \<longleftrightarrow> (case ev_payload e of CompactionEnd _ \<Rightarrow> True | EndSeed \<Rightarrow> True | _ \<Rightarrow> False)"

lemma entry_fold_snoc:
  "es_start (entry_fold (es @ [e])) = (case ev_payload e of CompactionStart _ \<Rightarrow> Some e | CompactionEnd _ \<Rightarrow> None | _ \<Rightarrow> es_start (entry_fold es))"
  "es_seed (entry_fold (es @ [e])) = (case ev_payload e of EndSeed \<Rightarrow> Some (ev_seq e) | _ \<Rightarrow> es_seed (entry_fold es))"
  by (cases "ev_payload e"; simp add: entry_fold_def)+

lemma entry_seed_bound:
  "\<forall>k < length es. ev_seq (es ! k) = k \<Longrightarrow> es_seed (entry_fold es) = Some n \<Longrightarrow> n < length es"
proof (induction es rule: rev_induct)
  case Nil
  then show ?case by (simp add: entry_fold_def)
next
  case (snoc e es)
  have seqs: "\<forall>k < length es. ev_seq (es ! k) = k" "ev_seq e = length es"
    using snoc.prems(1) by (auto simp: nth_append all_conj_distrib dest: spec [of _ "length es"] split: if_splits)
  show ?case
  proof (cases "ev_payload e = EndSeed")
    case True
    with snoc.prems(2) seqs(2) show ?thesis by (simp add: entry_fold_snoc)
  next
    case False
    then have "es_seed (entry_fold (es @ [e])) = es_seed (entry_fold es)" by (cases "ev_payload e") (simp_all add: entry_fold_snoc)
    with snoc.IH [OF seqs(1)] snoc.prems(2) show ?thesis by simp
  qed
qed

lemma locked_fold:
  assumes "\<forall>k < length (pre @ opening # others). ev_seq ((pre @ opening # others) ! k) = k"
    and "ev_payload opening = CompactionStart c" and "\<forall>e \<in> set others. \<not> unlocks e"
  shows "(\<exists>e. es_start (entry_fold (pre @ opening # others)) = Some e \<and> length pre \<le> ev_seq e)
    \<and> (\<forall>n. es_seed (entry_fold (pre @ opening # others)) = Some n \<longrightarrow> n < length pre)"
  using assms
proof (induction others rule: rev_induct)
  case Nil
  then have seqs: "\<forall>k < length pre. ev_seq (pre ! k) = k" "ev_seq opening = length pre"
    by (auto simp: nth_append dest: spec [of _ "length pre"] split: if_splits)
  with Nil entry_seed_bound [OF seqs(1)] show ?case
    by (simp add: entry_fold_snoc)
next
  case (snoc e others)
  let ?es = "pre @ opening # others"
  have n: "\<forall>k < length ?es. ev_seq (?es ! k) = k"
  proof (intro allI impI)
    fix k assume k: "k < length ?es"
    then have "ev_seq ((?es @ [e]) ! k) = k" using snoc.prems(1) by simp
    with k show "ev_seq (?es ! k) = k" by (simp only: nth_append if_True)
  qed
  have e: "ev_seq e = length ?es" using snoc.prems(1) [rule_format, of "length ?es"] by (simp add: nth_append)
  from snoc.IH [OF n snoc.prems(2)] snoc.prems(3)
  have IH: "(\<exists>e. es_start (entry_fold ?es) = Some e \<and> length pre \<le> ev_seq e)" "\<forall>n. es_seed (entry_fold ?es) = Some n \<longrightarrow> n < length pre"
    and u: "\<not> unlocks e" by simp_all
  have "pre @ opening # others @ [e] = ?es @ [e]" by simp
  then show ?case using IH u e entry_fold_snoc [of ?es e]
    by (cases "ev_payload e") (simp_all add: unlocks_def)
qed

lemma locked_busy:
  assumes "fold_window 0 (pre @ opening # others) = Inr x"
    and "ev_payload opening = CompactionStart c" and "\<forall>e \<in> set others. \<not> unlocks e"
  shows "assert_no_active_compaction (pre @ opening # others) = Inl (ManualFailure ManualBusy None)"
proof -
  have "\<forall>k < length (pre @ opening # others). ev_seq ((pre @ opening # others) ! k) = k"
    using fold_window_seqs [OF assms(1)] by simp
  from locked_fold [OF this assms(2,3)] show ?thesis
    by (auto simp: assert_no_active_compaction_def assert_compaction_inactive_def scan_back_is_fold split: option.split)
qed

text \<open>
  Claim C20. The opening marker is a lock: while a log holds a compaction that has not ended, and no later seed
  boundary disowns it, every other compaction fails and appends nothing, whichever options it has.
\<close>

theorem compaction_lock_excludes:
  assumes "region_reach env w" and "calm env around"
    and "compact_surface_region env clk cid mid opts around start end_seq w = (r, w')"
    and "region_log w = pre @ opening # others" and "ev_payload opening = CompactionStart c" and "\<forall>e \<in> set others. \<not> unlocks e"
  shows "(\<exists>err. r = Inl err) \<and> region_log w' = region_log w"
  using region_reach_ok [OF assms(1)] assms(2,3)
proof (cases rule: compact_runs)
  case (refused e)
  then show ?thesis by simp
next
  case (ran tx before body ends)
  obtain x where "fold_window 0 (region_log w) = Inr x" using region_ok_window [OF region_reach_ok [OF assms(1)]] by blast
  from locked_busy [OF this [unfolded assms(4)] assms(5,6)] ran(4) assms(4) show ?thesis by simp
qed

section \<open>What can refuse a closing marker\<close>

lemma append_log_succeeds:
  assumes ok: "region_ok env w" and room: "int (length (region_log w)) \<le> MAX_SAFE_INTEGER"
    and pre: "append_precheck p op sources (rw_session w) = Inr ()"
    and f: "is_ok (fold_window 0 (region_log w @ [\<lparr>ev_payload = p, ev_seq = length (region_log w), ev_time = now,
       ev_surface_op = op, ev_sources = sources, ev_ignorable = False\<rparr>]))"
  shows "\<exists>e. fst (append_log now p op sources w) = Inr e"
proof -
  let ?s = "rw_session w"
  define e where "e = \<lparr>ev_payload = p, ev_seq = length (region_log w), ev_time = now,
       ev_surface_op = op, ev_sources = sources, ev_ignorable = False\<rparr>"
  from ok obtain k where m: "manager_inv 0 (s_log ?s) k (s_surface ?s)" by (auto simp: region_ok_def session_inv_def)
  have "fst (validate_next (s_log ?s) e (s_surface ?s)) = Inr ()"
    using f unfolding validate_next_refines(1) [OF m] e_def [symmetric] by (auto simp: is_ok_iff)
  moreover have "session_seq (JInt (int (length (s_log ?s)))) = Inr (length (s_log ?s))"
    using room by (simp add: session_seq_int)
  ultimately show ?thesis using pre
    by (cases "validate_next (s_log ?s) e (s_surface ?s)")
      (simp add: append_log_def session_append_def append_prepare_def append_validate_def Let_def e_def)
qed

lemma fold_window_mark:
  assumes "fold_window 0 es = Inr x" and "ev_seq e = length es" and "\<not> is_surface_eligible_type (ev_type e)"
    and "ev_surface_op e = None" and "ev_sources e = None"
  shows "is_ok (fold_window 0 (es @ [e]))"
  using assms by (cases x) (simp add: fold_window_snoc apply_surface_event_def plan_surface_event_def surface_op_of_def)

text \<open>Only a session that has used up the sequence numbers.\<close>

lemma close_refused:
  assumes ok: "region_ok env w" and run: "append_log now (lifecycle_end tx err) None None w = (Inl x, w')"
  shows "int (length (region_log w)) = MAX_SAFE_INTEGER + 1" and "region_log w' = region_log w"
proof -
  show "region_log w' = region_log w" using append_log_ok [OF ok run] by simp
  show "int (length (region_log w)) = MAX_SAFE_INTEGER + 1"
  proof (rule ccontr)
    assume "int (length (region_log w)) \<noteq> MAX_SAFE_INTEGER + 1"
    with ok have room: "int (length (region_log w)) \<le> MAX_SAFE_INTEGER" by (simp add: region_ok_def)
    from region_ok_window [OF ok] obtain y where f: "fold_window 0 (region_log w) = Inr y" by blast
    have "\<exists>e. fst (append_log now (lifecycle_end tx err) None None w) = Inr e"
    proof (rule append_log_succeeds [OF ok room])
      show "append_precheck (lifecycle_end tx err) None None (rw_session w) = Inr ()"
        by (cases "tx_command tx"; cases "tx_owner tx"; cases err)
          (simp_all add: append_precheck_def lifecycle_end_def assert_supported_request_header_def opt_lossless_def opt_field_def opt_turn_json_def)
    qed (rule fold_window_mark [OF f], simp_all add: lifecycle_end_def is_surface_eligible_type_def SURFACE_EVENT_TYPES_def)
    with run show False by simp
  qed
qed

lemma body_keeps_lock:
  assumes "ran env around w start end_seq tx before body ends"
  shows "\<forall>e \<in> set body. \<not> unlocks e" and "length body \<le> 2"
  using assms by (auto simp: ran_def replacing_def summary_entry_def checkpoint_entry_def unlocks_def)


section \<open>A concrete compaction\<close>

definition region_seed :: "session_event list" where
  "region_seed =
     [append_event (UserMessageEvent \<lparr>um_id = ''m'', um_content = replicate 40 (TextBlock []), um_source = UserSource\<rparr>) 0,
      append_event (UserMessageEvent \<lparr>um_id = ''n'', um_content = [TextBlock ''go on''], um_source = UserSource\<rparr>) 1]"

definition region_example_env :: region_env where
  "region_example_env = \<lparr>re_number_text = plain_text, re_routes = (\<lambda>_ _. None), re_chain = (\<lambda>_. ''failed'')\<rparr>"

definition region_surroundings :: surroundings where
  "region_surroundings =
     \<lparr>sr_aborted = (\<lambda>_. False), sr_summarizer = (\<lambda>_. Inr compaction_body), sr_meanwhile = id, sr_flush_error = None\<rparr>"

definition manual_options :: transaction_options where
  "manual_options = \<lparr>to_in_turn = False, to_stability = SelectedSpan, to_flush = True, to_command = None\<rparr>"

definition example_compaction :: "(region_world, region_error, closed_result) step" where
  "example_compaction = compact_surface_region region_example_env int ''c'' ''k'' manual_options region_surroundings 0 0"

lemma example_calm: "calm region_example_env region_surroundings"
  by (simp add: calm_def region_surroundings_def region_run_def)

lemma region_example_opens:
  obtains s where "construct_session 5 ''s'' (Some region_seed) None SnapshotSeed None = Inr s" "session_reach s"
    "region_reach region_example_env (region_start s)"
proof -
  have "is_ok (construct_session 5 ''s'' (Some region_seed) None SnapshotSeed None)" by code_simp
  then obtain s where s: "construct_session 5 ''s'' (Some region_seed) None SnapshotSeed None = Inr s" by (auto simp: is_ok_iff)
  then have "session_reach s" by (rule session_reach.construct)
  moreover from this have "region_reach region_example_env (region_start s)" by (auto simp: region_reach_def region_run_def)
  ultimately show ?thesis using that s by blast
qed

lemma example_compacts:
  assumes "construct_session 5 ''s'' (Some region_seed) None SnapshotSeed None = Inr s"
  shows "is_ok (fst (example_compaction (region_start s)))"
proof -
  have "is_ok (and_then (rethrow Appending (construct_session 5 ''s'' (Some region_seed) None SnapshotSeed None))
    (\<lambda>s. fst (example_compaction (region_start s))))" by code_simp
  with assms show ?thesis by simp
qed

lemma example_metered:
  assumes "construct_session 5 ''s'' (Some region_seed) None SnapshotSeed None = Inr s"
  shows "fully_metered (re_number_text region_example_env) (s_log s)"
proof -
  have "is_ok (and_then (construct_session 5 ''s'' (Some region_seed) None SnapshotSeed None)
    (\<lambda>s. reject_if (\<not> fully_metered plain_text (s_log s)) SeededWithoutSeed))" by code_simp
  with assms show ?thesis by (simp add: is_ok_iff region_example_env_def)
qed

text \<open>The checkpoint shows the summary the summarizer gave.\<close>

theorem compaction_commits_witness:
  "\<exists>s res w' e2 m. session_reach s \<and> example_compaction (region_start s) = (Inr res, w')
     \<and> e2 \<in> set (region_log w') \<and> ev_payload e2 = UserMessageEvent m
     \<and> um_content m = TextBlock (CHECKPOINT_PREAMBLE @ [CHR 0x0A, CHR 0x0A] @ ''<compacted-summary>'')
         # su_blocks compaction_body @ [TextBlock ''</compacted-summary>'']
     \<and> su_blocks compaction_body \<noteq> [] \<and> rs_range res = (0, 0)"
proof -
  from region_example_opens obtain s where s: "construct_session 5 ''s'' (Some region_seed) None SnapshotSeed None = Inr s" "session_reach s"
    "region_reach region_example_env (region_start s)" .
  from example_compacts [OF s(1)] obtain res w' where r: "example_compaction (region_start s) = (Inr res, w')"
    by (cases "example_compaction (region_start s)") (auto simp: is_ok_iff)
  have "su_blocks compaction_body \<noteq> []" by code_simp
  with compaction_commits [OF s(3) example_calm r [unfolded example_compaction_def]] s(2) r show ?thesis
    by (fastforce simp: Let_def region_surroundings_def)
qed

theorem compaction_keeps_metering_witness:
  "\<exists>s res w'. session_reach s \<and> example_compaction (region_start s) = (Inr res, w')
     \<and> fully_metered (re_number_text region_example_env) (region_log w')"
proof -
  from region_example_opens obtain s where s: "construct_session 5 ''s'' (Some region_seed) None SnapshotSeed None = Inr s" "session_reach s"
    "region_reach region_example_env (region_start s)" .
  from example_compacts [OF s(1)] obtain res w' where r: "example_compaction (region_start s) = (Inr res, w')"
    by (cases "example_compaction (region_start s)") (auto simp: is_ok_iff)
  have "fully_metered (re_number_text region_example_env) (region_log w')"
    by (rule compaction_keeps_metering [OF s(3) example_calm r [unfolded example_compaction_def]])
      (simp_all add: example_metered [OF s(1)] region_start_def region_surroundings_def)
  with s r show ?thesis by blast
qed

text \<open>A summarizer that fails: the bracket is closed with the error, and the lock is free.\<close>

definition failing_surroundings :: surroundings where
  "failing_surroundings = region_surroundings\<lparr>sr_summarizer := (\<lambda>_. Inl ''down'')\<rparr>"


theorem compaction_lock_excludes_witness:
  "\<exists>w w' err. region_reach region_example_env w \<and> region_log w \<noteq> [] \<and> example_compaction w = (Inl err, w') \<and> region_log w' = region_log w"
proof -
  from region_example_opens obtain s where s: "construct_session 5 ''s'' (Some region_seed) None SnapshotSeed None = Inr s" "session_reach s"
    "region_reach region_example_env (region_start s)" .
  let ?c = "\<lparr>cs_id = ''c'', cs_command = None, cs_turn = None\<rparr>"
  have "is_ok (and_then (rethrow Appending (construct_session 5 ''s'' (Some region_seed) None SnapshotSeed None))
    (\<lambda>s. fst (append_log 7 (CompactionStart ?c) None None (region_start s))))" by code_simp
  with s(1) obtain e w where a: "append_log 7 (CompactionStart ?c) None None (region_start s) = (Inr e, w)"
    by (cases "append_log 7 (CompactionStart ?c) None None (region_start s)") (auto simp: is_ok_iff)
  have reach: "region_reach region_example_env w"
    using s(3) region_step.append [of region_example_env "region_start s" 7 "CompactionStart ?c" None None] a
    by (auto simp: region_reach_def region_run_def intro: rtranclp.rtrancl_into_rtrancl)
  from append_log_ok [OF region_reach_ok [OF s(3)] a] have log: "region_log w = region_log (region_start s) @ e # []" "ev_payload e = CompactionStart ?c"
    by simp_all
  obtain r w' where r: "example_compaction w = (r, w')" by (cases "example_compaction w")
  from compaction_lock_excludes [OF reach example_calm r [unfolded example_compaction_def] log] have "(\<exists>err. r = Inl err) \<and> region_log w' = region_log w"
    by simp
  with reach r log(1) show ?thesis by auto
qed

end
