(* ===== verification/Prune_Text.thy ===== *)
theory Prune_Text
  imports Session_Types "HOL-Library.Word"
begin

text \<open>
  Cutting the middle out of a content, \<open>pruneContent\<close> of
  \<open>packages/compaction/compaction-tool-result-pruner/src\<close>. The cut is made between Unicode code
  points of strings of 16-bit units, so the algorithm is given for texts over any type of units
  with a reading \<open>rd\<close> of a unit as a 16-bit word: at the identity it works on the strings of the
  language, at \<open>char_unit\<close> on the strings of the session model, whose characters are the units
  below 256. Budgets are exact integers: the engine's sum of the three is rounded when it passes the
  safe range.
\<close>

section \<open>Code units and code points\<close>

type_synonym code_unit = "16 word"

definition is_high_surrogate :: "code_unit \<Rightarrow> bool" where
  "is_high_surrogate u \<longleftrightarrow> 0xD800 \<le> u \<and> u \<le> 0xDBFF"

definition is_low_surrogate :: "code_unit \<Rightarrow> bool" where
  "is_low_surrogate u \<longleftrightarrow> 0xDC00 \<le> u \<and> u \<le> 0xDFFF"

text \<open>\<open>Array.from\<close> of a string: a high surrogate and the low surrogate after it are one code
  point, any other unit is one by itself.\<close>

fun code_points :: "('u \<Rightarrow> code_unit) \<Rightarrow> 'u list \<Rightarrow> 'u list list" where
  "code_points rd [] = []"
| "code_points rd [c] = [[c]]"
| "code_points rd (c # d # s) =
     (if is_high_surrogate (rd c) \<and> is_low_surrogate (rd d) then [c, d] # code_points rd s
      else [c] # code_points rd (d # s))"

definition code_point_length :: "('u \<Rightarrow> code_unit) \<Rightarrow> 'u list \<Rightarrow> nat" where
  "code_point_length rd t = length (code_points rd t)"

definition char_unit :: "char \<Rightarrow> code_unit" where
  "char_unit c = of_char c"

definition utf16 :: "string \<Rightarrow> code_unit list" where
  "utf16 t = map char_unit t"

section \<open>Configuration\<close>

definition PRUNE_MARKER :: string where
  "PRUNE_MARKER = [CHR 0x0A, CHR 0x0A] @ ''[... tool result middle pruned ...]'' @ [CHR 0x0A, CHR 0x0A]"

record prune_config =
  threshold_chars :: nat
  head_chars :: nat
  tail_chars :: nat

definition PRUNE_DEFAULTS :: prune_config where
  "PRUNE_DEFAULTS = \<lparr>threshold_chars = 8192, head_chars = 4096, tail_chars = 1024\<rparr>"

definition PRUNE_KEYS :: "string list" where
  "PRUNE_KEYS = [''thresholdChars'', ''headChars'', ''tailChars'']"

datatype prune_config_error =
    UnknownPruneKey string
  | NotPositiveInteger string json
  | NotNonNegativeInteger string json
  | EmittedOverThreshold nat nat

text \<open>\<open>Number.isInteger\<close>, with the integer.\<close>

definition integer_of :: "json \<Rightarrow> int option" where
  "integer_of j = (case j of JNum (JInt i) \<Rightarrow> Some i | JNum JNegZero \<Rightarrow> Some 0 | _ \<Rightarrow> None)"

definition assert_positive_integer :: "string \<Rightarrow> json \<Rightarrow> (prune_config_error, nat) result" where
  "assert_positive_integer name v =
     (case integer_of v of
        Some i \<Rightarrow> if i \<le> 0 then Inl (NotPositiveInteger name v) else Inr (nat i)
      | None \<Rightarrow> Inl (NotPositiveInteger name v))"

definition assert_non_negative_integer :: "string \<Rightarrow> json \<Rightarrow> (prune_config_error, nat) result" where
  "assert_non_negative_integer name v =
     (case integer_of v of
        Some i \<Rightarrow> if i < 0 then Inl (NotNonNegativeInteger name v) else Inr (nat i)
      | None \<Rightarrow> Inl (NotNonNegativeInteger name v))"

text \<open>\<open>config.key ?? default\<close>\<close>

definition config_value :: "(string \<times> json) list \<Rightarrow> string \<Rightarrow> nat \<Rightarrow> json" where
  "config_value raw k fallback =
     (case map_of raw k of None \<Rightarrow> jint (int fallback) | Some JNull \<Rightarrow> jint (int fallback) | Some v \<Rightarrow> v)"

definition resolve_prune_config :: "(string \<times> json) list \<Rightarrow> (prune_config_error, prune_config) result" where
  "resolve_prune_config raw =
     (case find (\<lambda>kv. fst kv \<notin> set PRUNE_KEYS) raw of
        Some (k, _) \<Rightarrow> Inl (UnknownPruneKey k)
      | None \<Rightarrow>
          and_then (assert_positive_integer ''thresholdChars''
            (config_value raw ''thresholdChars'' (threshold_chars PRUNE_DEFAULTS))) (\<lambda>threshold.
          and_then (assert_non_negative_integer ''headChars''
            (config_value raw ''headChars'' (head_chars PRUNE_DEFAULTS))) (\<lambda>head.
          and_then (assert_non_negative_integer ''tailChars''
            (config_value raw ''tailChars'' (tail_chars PRUNE_DEFAULTS))) (\<lambda>tail.
            let emitted = head + code_point_length char_unit PRUNE_MARKER + tail in
            if emitted > threshold then Inl (EmittedOverThreshold emitted threshold)
            else Inr \<lparr>threshold_chars = threshold, head_chars = head, tail_chars = tail\<rparr>))))"

section \<open>Cutting the middle of a content\<close>

text \<open>What the algorithm sees of a content block: a text, or something it keeps as it is.\<close>

datatype ('u, 'b) piece = TextPiece "'u list" | RichPiece 'b

fun piece_points :: "('u \<Rightarrow> code_unit) \<Rightarrow> ('u, 'b) piece \<Rightarrow> nat" where
  "piece_points rd (TextPiece t) = code_point_length rd t"
| "piece_points rd (RichPiece _) = 0"

definition measure_pieces :: "('u \<Rightarrow> code_unit) \<Rightarrow> ('u, 'b) piece list \<Rightarrow> nat" where
  "measure_pieces rd ps = (\<Sum>p\<leftarrow>ps. piece_points rd p)"

datatype prune_error = RemovedSpanLost | NotWithinThreshold

record ('u, 'b) prune_scan =
  ps_pruned :: "('u, 'b) piece list"
  ps_consumed :: nat
  ps_marked :: bool

text \<open>The body of the loop for a text block: what is kept of its head, the marker where the removed span
  starts, and what is kept of its tail.\<close>

definition prune_text ::
    "('u \<Rightarrow> code_unit) \<Rightarrow> 'u list \<Rightarrow> prune_config \<Rightarrow> int \<Rightarrow> 'u list \<Rightarrow> ('u, 'b) prune_scan \<Rightarrow> ('u, 'b) prune_scan" where
  "prune_text rd mk cfg removed_end t st =
     (let points = code_points rd t;
          block_start = int (ps_consumed st);
          block_end = block_start + int (length points);
          removed_start = int (head_chars cfg);
          head_end = min (int (length points)) (max 0 (removed_start - block_start));
          tail_start = min (int (length points)) (max 0 (removed_end - block_start));
          intersects = (block_start < removed_end \<and> block_end > removed_start);
          marker = (if intersects \<and> \<not> ps_marked st then mk else []);
          kept = concat (take (nat head_end) points) @ marker @ concat (drop (nat tail_start) points)
      in \<lparr>ps_pruned = (if length kept > 0 then ps_pruned st @ [TextPiece kept] else ps_pruned st),
          ps_consumed = nat block_end,
          ps_marked = (ps_marked st \<or> length marker > 0)\<rparr>)"

fun prune_piece ::
    "('u \<Rightarrow> code_unit) \<Rightarrow> 'u list \<Rightarrow> prune_config \<Rightarrow> int \<Rightarrow> ('u, 'b) piece \<Rightarrow> ('u, 'b) prune_scan \<Rightarrow> ('u, 'b) prune_scan" where
  "prune_piece rd mk cfg removed_end (TextPiece t) st = prune_text rd mk cfg removed_end t st"
| "prune_piece rd mk cfg removed_end (RichPiece b) st = st\<lparr>ps_pruned := ps_pruned st @ [RichPiece b]\<rparr>"

definition prune_pieces ::
    "('u \<Rightarrow> code_unit) \<Rightarrow> 'u list \<Rightarrow> prune_config \<Rightarrow> ('u, 'b) piece list \<Rightarrow>
     (prune_error, ('u, 'b) piece list option) result" where
  "prune_pieces rd mk cfg ps =
     (let total = measure_pieces rd ps in
      if total \<le> threshold_chars cfg then Inr None
      else let removed_end = int total - int (tail_chars cfg);
               st = fold (prune_piece rd mk cfg removed_end) ps \<lparr>ps_pruned = [], ps_consumed = 0, ps_marked = False\<rparr>
        in if \<not> ps_marked st then Inl RemovedSpanLost
           else let chars_after = measure_pieces rd (ps_pruned st) in
             if chars_after > threshold_chars cfg \<or> chars_after \<ge> total then Inl NotWithinThreshold
             else Inr (Some (ps_pruned st)))"

text \<open>On the language's own strings, and on the content blocks of the session model.\<close>

definition prune_utf16 ::
    "prune_config \<Rightarrow> (code_unit, 'b) piece list \<Rightarrow> (prune_error, (code_unit, 'b) piece list option) result" where
  "prune_utf16 cfg ps = prune_pieces (\<lambda>u. u) (utf16 PRUNE_MARKER) cfg ps"

fun piece_of :: "content_block \<Rightarrow> (char, content_block) piece" where
  "piece_of (TextBlock t) = TextPiece t"
| "piece_of b = RichPiece b"

fun block_of :: "(char, content_block) piece \<Rightarrow> content_block" where
  "block_of (TextPiece t) = TextBlock t"
| "block_of (RichPiece b) = b"

definition measure_content :: "content_block list \<Rightarrow> nat" where
  "measure_content bs = measure_pieces char_unit (map piece_of bs)"

definition prune_content :: "prune_config \<Rightarrow> content_block list \<Rightarrow> (prune_error, content_block list option) result" where
  "prune_content cfg bs =
     (case prune_pieces char_unit PRUNE_MARKER cfg (map piece_of bs) of
        Inl err \<Rightarrow> Inl err
      | Inr c \<Rightarrow> Inr (map_option (map block_of) c))"

section \<open>Cutting between code points\<close>

lemma concat_code_points [simp]: "concat (code_points rd t) = t"
  by (induction rd t rule: code_points.induct) simp_all

lemma code_points_Cons: "\<exists>x ps. code_points rd (d # s) = (d # x) # ps"
  by (cases s) auto

lemma code_points_Nil_iff [simp]: "code_points rd t = [] \<longleftrightarrow> t = []"
  by (cases t; cases "tl t") auto

lemma code_points_apart:
  "\<not> (is_high_surrogate (rd c) \<and> is_low_surrogate (rd d)) \<Longrightarrow> code_points rd (c # d # s) = [c] # code_points rd (d # s)"
  by simp

lemma code_points_append:
  assumes "xs = [] \<or> ys = [] \<or> \<not> (is_high_surrogate (rd (last xs)) \<and> is_low_surrogate (rd (hd ys)))"
  shows "code_points rd (xs @ ys) = code_points rd xs @ code_points rd ys"
  using assms
proof (induction rd xs rule: code_points.induct)
  case (2 rd c)
  then show ?case by (cases ys) auto
next
  case (3 rd c d s)
  show ?case
  proof (cases "is_high_surrogate (rd c) \<and> is_low_surrogate (rd d)")
    case True
    from 3(1) [OF True] 3(3) True show ?thesis by (cases "s = []") auto
  next
    case False
    from 3(2) [OF False] 3(3) False show ?thesis by auto
  qed
qed simp

text \<open>A cut between two code points leaves both sides with the code points they had.\<close>

lemma code_points_take: "code_points rd (concat (take i (code_points rd t))) = take i (code_points rd t)"
proof (induction rd t arbitrary: i rule: code_points.induct)
  case (2 rd c)
  then show ?case by (cases i) simp_all
next
  case (3 rd c d s)
  show ?case
  proof (cases i)
    case (Suc j)
    show ?thesis
    proof (cases "is_high_surrogate (rd c) \<and> is_low_surrogate (rd d)")
      case True
      with 3(1) [OF True] Suc show ?thesis by simp
    next
      case False
      obtain x ps where ds: "code_points rd (d # s) = (d # x) # ps" using code_points_Cons [of rd d s] by blast
      show ?thesis
      proof (cases j)
        case 0
        with Suc False show ?thesis by simp
      next
        case (Suc l)
        have IH: "code_points rd (concat (take j (code_points rd (d # s)))) = take j (code_points rd (d # s))"
          by (rule 3(2) [OF False])
        have "concat (take j (code_points rd (d # s))) = d # (x @ concat (take l ps))" by (simp add: ds Suc)
        with IH code_points_apart [of rd c d "x @ concat (take l ps)", OF False] show ?thesis
          unfolding \<open>i = Suc j\<close> code_points_apart [of rd c d s, OF False] by simp
      qed
    qed
  qed simp
qed simp

lemma code_points_drop: "code_points rd (concat (drop i (code_points rd t))) = drop i (code_points rd t)"
proof (induction rd t arbitrary: i rule: code_points.induct)
  case (2 rd c)
  then show ?case by (cases i) simp_all
next
  case (3 rd c d s)
  show ?case
  proof (cases i)
    case 0
    then show ?thesis by (simp only: drop_0 concat_code_points)
  next
    case (Suc j)
    show ?thesis
    proof (cases "is_high_surrogate (rd c) \<and> is_low_surrogate (rd d)")
      case True
      with 3(1) [OF True] Suc show ?thesis by simp
    next
      case False
      from 3(2) [OF False] have "code_points rd (concat (drop j (code_points rd (d # s)))) = drop j (code_points rd (d # s))" .
      then show ?thesis unfolding Suc code_points_apart [of rd c d s, OF False] by simp
    qed
  qed
qed simp

text \<open>The marker begins and ends with a unit that pairs with nothing.\<close>

definition marker_ok :: "('u \<Rightarrow> code_unit) \<Rightarrow> 'u list \<Rightarrow> bool" where
  "marker_ok rd mk \<longleftrightarrow> mk \<noteq> [] \<and> \<not> is_low_surrogate (rd (hd mk)) \<and> \<not> is_high_surrogate (rd (last mk))"

lemma code_points_kept:
  assumes "marker_ok rd m \<or> m = [] \<and> (i = 0 \<or> length (code_points rd t) \<le> j)"
  shows "code_points rd (concat (take i (code_points rd t)) @ m @ concat (drop j (code_points rd t))) =
   take i (code_points rd t) @ code_points rd m @ drop j (code_points rd t)"
  using assms
proof
  assume m: "marker_ok rd m"
  have "code_points rd (concat (take i (code_points rd t)) @ m @ concat (drop j (code_points rd t))) =
      code_points rd (concat (take i (code_points rd t))) @ code_points rd (m @ concat (drop j (code_points rd t)))"
    using m by (intro code_points_append) (auto simp: marker_ok_def)
  also have "code_points rd (m @ concat (drop j (code_points rd t))) =
      code_points rd m @ code_points rd (concat (drop j (code_points rd t)))"
    using m by (intro code_points_append) (auto simp: marker_ok_def)
  finally show ?thesis by (simp only: code_points_take code_points_drop)
next
  assume "m = [] \<and> (i = 0 \<or> length (code_points rd t) \<le> j)"
  then show ?thesis using code_points_take [of rd i t] code_points_drop [of rd j t] by auto
qed

section \<open>The middle is what is cut\<close>

text \<open>A content as the sequence of its code points and its other blocks.\<close>

datatype ('p, 'b) content_item = Point 'p | Rich 'b

fun piece_items :: "('u \<Rightarrow> code_unit) \<Rightarrow> ('u, 'b) piece \<Rightarrow> ('u list, 'b) content_item list" where
  "piece_items rd (TextPiece t) = map Point (code_points rd t)"
| "piece_items rd (RichPiece b) = [Rich b]"

definition content_items :: "('u \<Rightarrow> code_unit) \<Rightarrow> ('u, 'b) piece list \<Rightarrow> ('u list, 'b) content_item list" where
  "content_items rd ps = concat (map (piece_items rd) ps)"

text \<open>The points numbered from \<open>h\<close> up to \<open>e\<close> give way to the points \<open>ms\<close> of the marker; everything
  else stays where it is.\<close>

fun cut_items :: "'p list \<Rightarrow> nat \<Rightarrow> nat \<Rightarrow> nat \<Rightarrow> ('p, 'b) content_item list \<Rightarrow> ('p, 'b) content_item list" where
  "cut_items ms h e k [] = []"
| "cut_items ms h e k (Rich b # xs) = Rich b # cut_items ms h e k xs"
| "cut_items ms h e k (Point p # xs) =
     (if k = h then map Point ms else []) @ (if h \<le> k \<and> k < e then [] else [Point p]) @ cut_items ms h e (Suc k) xs"

lemma measure_pieces_simps [simp]:
  "measure_pieces rd [] = 0"
  "measure_pieces rd (b # bs) = piece_points rd b + measure_pieces rd bs"
  "measure_pieces rd (xs @ ys) = measure_pieces rd xs + measure_pieces rd ys"
  by (simp_all add: measure_pieces_def)

lemma content_items_simps [simp]:
  "content_items rd [] = []"
  "content_items rd (b # bs) = piece_items rd b @ content_items rd bs"
  "content_items rd (xs @ ys) = content_items rd xs @ content_items rd ys"
  by (simp_all add: content_items_def)

definition points_in :: "('p, 'b) content_item list \<Rightarrow> nat" where
  "points_in xs = length (filter (\<lambda>x. case x of Point _ \<Rightarrow> True | Rich _ \<Rightarrow> False) xs)"

lemma points_in_simps [simp]:
  "points_in [] = 0" "points_in (xs @ ys) = points_in xs + points_in ys"
  "points_in (Point p # xs) = Suc (points_in xs)" "points_in (Rich b # xs) = points_in xs"
  "points_in (map Point ps) = length ps"
  by (simp_all add: points_in_def comp_def)

lemma measure_points: "measure_pieces rd ps = points_in (content_items rd ps)"
proof (induction ps)
  case (Cons b bs)
  then show ?case by (cases b) (simp_all add: code_point_length_def)
qed simp

lemma cut_items_append: "cut_items ms h e k (xs @ ys) = cut_items ms h e k xs @ cut_items ms h e (k + points_in xs) ys"
  by (induction ms h e k xs rule: cut_items.induct) simp_all

text \<open>A run of points: its head before \<open>h\<close>, the marker if \<open>h\<close> is in the run, its tail from \<open>e\<close>.\<close>

lemma cut_items_points:
  assumes "h < e"
  shows "cut_items ms h e k (map Point ps) =
    map Point (take (h - k) ps @ (if k \<le> h \<and> h < k + length ps then ms else []) @ drop (e - k) ps)"
proof (induction ps arbitrary: k)
  case Nil
  show ?case by auto
next
  case (Cons p ps)
  show ?case
  proof (cases "k < h")
    case True
    then have "h - k = Suc (h - Suc k)" "e - k = Suc (e - Suc k)" using assms by simp_all
    with True Cons show ?thesis by simp
  next
    case False
    then consider "k = h" | "h < k" "k < e" | "h < k" "e \<le> k" by linarith
    then show ?thesis
    proof cases
      case 1
      then have "e - k = Suc (e - Suc k)" using assms by simp
      with 1 assms Cons show ?thesis by simp
    next
      case 2
      then have "e - k = Suc (e - Suc k)" by simp
      with 2 Cons show ?thesis by simp
    next
      case 3
      with Cons show ?thesis by simp
    qed
  qed
qed

lemma points_in_cut:
  "h < e \<Longrightarrow> points_in (cut_items ms h e k xs) + (min e (k + points_in xs) - max h k) =
   points_in xs + (if k \<le> h \<and> h < k + points_in xs then length ms else 0)"
proof (induction ms h e k xs rule: cut_items.induct)
  case (3 ms h e k p xs)
  then show ?case
    by (cases "k = h"; cases "h \<le> k \<and> k < e") (auto simp: min_def max_def split: if_splits)
qed auto

lemma cut_items_rich: "Rich b \<in> set (cut_items ms h e k xs) \<Longrightarrow> Rich b \<in> set xs"
  by (induction ms h e k xs rule: cut_items.induct) (auto split: if_splits)

lemma rich_piece: "Rich b \<in> set (content_items rd ps) \<longleftrightarrow> RichPiece b \<in> set ps"
proof (induction ps)
  case (Cons a ps)
  then show ?case by (cases a) auto
qed simp

definition scan_ok :: "('u \<Rightarrow> code_unit) \<Rightarrow> 'u list \<Rightarrow> nat \<Rightarrow> nat \<Rightarrow> ('u list, 'b) content_item list \<Rightarrow> ('u, 'b) prune_scan \<Rightarrow> bool" where
  "scan_ok rd mk h e xs st \<longleftrightarrow> content_items rd (ps_pruned st) = cut_items (code_points rd mk) h e 0 xs
     \<and> ps_consumed st = points_in xs \<and> ps_marked st = (h < points_in xs)
     \<and> (\<forall>b \<in> set (ps_pruned st). b \<noteq> TextPiece [])"

lemma prune_text_ok:
  assumes mk: "marker_ok rd mk" and he: "head_chars cfg < e" and ok: "scan_ok rd mk (head_chars cfg) e xs st"
  shows "scan_ok rd mk (head_chars cfg) e (xs @ map Point (code_points rd t)) (prune_text rd mk cfg (int e) t st)"
proof -
  let ?h = "head_chars cfg" and ?k = "ps_consumed st" and ?ps = "code_points rd t"
  define m where "m = (if ?k \<le> ?h \<and> ?h < ?k + length ?ps then mk else [])"
  define kept where "kept = concat (take (?h - ?k) ?ps) @ m @ concat (drop (e - ?k) ?ps)"
  have k: "?k = points_in xs" and marked: "ps_marked st \<longleftrightarrow> ?h < ?k" using ok by (simp_all add: scan_ok_def)
  have clamp: "nat (min (int n) (max 0 (int a - int b))) = min n (a - b)" for n a b :: nat by linarith
  have head: "take (nat (min (int (length ?ps)) (max 0 (int ?h - int ?k)))) ?ps = take (?h - ?k) ?ps"
    unfolding clamp by (simp add: min_def)
  have tail: "drop (nat (min (int (length ?ps)) (max 0 (int e - int ?k)))) ?ps = drop (e - ?k) ?ps"
    unfolding clamp by (simp add: min_def)
  have marker: "(if (int ?k < int e \<and> int ?k + int (length ?ps) > int ?h) \<and> \<not> ps_marked st then mk else []) = m"
    using he marked by (auto simp: m_def)
  have run: "prune_text rd mk cfg (int e) t st =
      \<lparr>ps_pruned = (if length kept > 0 then ps_pruned st @ [TextPiece kept] else ps_pruned st),
       ps_consumed = ?k + length ?ps, ps_marked = (ps_marked st \<or> length m > 0)\<rparr>"
    unfolding prune_text_def Let_def marker head tail kept_def by (simp add: nat_add_distrib)
  have "marker_ok rd m \<or> m = [] \<and> (?h - ?k = 0 \<or> length ?ps \<le> e - ?k)" using mk he by (auto simp: m_def)
  from code_points_kept [OF this] have items: "map Point (code_points rd kept) = cut_items (code_points rd mk) ?h e ?k (map Point ?ps)"
    unfolding cut_items_points [OF he] kept_def by (simp add: m_def)
  have "content_items rd (if length kept > 0 then ps_pruned st @ [TextPiece kept] else ps_pruned st)
      = content_items rd (ps_pruned st) @ map Point (code_points rd kept)" by simp
  then have "content_items rd (ps_pruned (prune_text rd mk cfg (int e) t st)) = cut_items (code_points rd mk) ?h e 0 (xs @ map Point ?ps)"
    using ok by (simp add: run items cut_items_append k scan_ok_def)
  moreover have "(ps_marked st \<or> length m > 0) = (?h < ?k + length ?ps)"
    using marked mk by (auto simp: m_def marker_ok_def)
  ultimately show ?thesis using ok k by (simp add: scan_ok_def run)
qed

lemma prune_piece_ok:
  assumes "marker_ok rd mk" and "head_chars cfg < e" and "scan_ok rd mk (head_chars cfg) e xs st"
  shows "scan_ok rd mk (head_chars cfg) e (xs @ piece_items rd b) (prune_piece rd mk cfg (int e) b st)"
  using assms prune_text_ok [OF assms] by (cases b) (simp_all add: scan_ok_def cut_items_append)

lemma prune_scan_ok:
  assumes "marker_ok rd mk" and "head_chars cfg < e" and "scan_ok rd mk (head_chars cfg) e xs st"
  shows "scan_ok rd mk (head_chars cfg) e (xs @ content_items rd ps) (fold (prune_piece rd mk cfg (int e)) ps st)"
  using assms(3)
proof (induction ps arbitrary: xs st)
  case (Cons b ps)
  from Cons.IH [OF prune_piece_ok [OF assms(1,2) Cons.prems], of b] show ?case by simp
qed simp

definition budget_ok :: "('u \<Rightarrow> code_unit) \<Rightarrow> 'u list \<Rightarrow> prune_config \<Rightarrow> bool" where
  "budget_ok rd mk cfg \<longleftrightarrow> head_chars cfg + code_point_length rd mk + tail_chars cfg \<le> threshold_chars cfg"

lemma prune_pieces_cases:
  assumes mk: "marker_ok rd mk" and cfg: "budget_ok rd mk cfg"
  obtains "measure_pieces rd ps \<le> threshold_chars cfg" "prune_pieces rd mk cfg ps = Inr None"
  | c where "threshold_chars cfg < measure_pieces rd ps" "prune_pieces rd mk cfg ps = Inr (Some c)"
      "content_items rd c = cut_items (code_points rd mk) (head_chars cfg) (measure_pieces rd ps - tail_chars cfg) 0 (content_items rd ps)"
      "measure_pieces rd c = head_chars cfg + code_point_length rd mk + tail_chars cfg"
      "\<forall>b \<in> set c. b \<noteq> TextPiece []"
proof (cases "measure_pieces rd ps \<le> threshold_chars cfg")
  case True
  with that(1) show ?thesis by (simp add: prune_pieces_def)
next
  case False
  let ?h = "head_chars cfg" and ?total = "measure_pieces rd ps"
  define e where "e = ?total - tail_chars cfg"
  have pos: "0 < code_point_length rd mk" using mk by (simp add: code_point_length_def marker_ok_def)
  have he: "?h < e" and e: "int e = int ?total - int (tail_chars cfg)" "tail_chars cfg \<le> ?total" "e \<le> ?total"
    using cfg False pos by (simp_all add: e_def budget_ok_def)
  define st where "st = fold (prune_piece rd mk cfg (int e)) ps \<lparr>ps_pruned = [], ps_consumed = 0, ps_marked = False\<rparr>"
  have "scan_ok rd mk ?h e ([] @ content_items rd ps) st" unfolding st_def
    by (rule prune_scan_ok [OF mk he]) (simp add: scan_ok_def)
  then have st: "content_items rd (ps_pruned st) = cut_items (code_points rd mk) ?h e 0 (content_items rd ps)"
    "ps_marked st" "\<forall>b \<in> set (ps_pruned st). b \<noteq> TextPiece []"
    using he e(3) by (simp_all add: scan_ok_def measure_points [symmetric])
  have size: "measure_pieces rd (ps_pruned st) = ?h + code_point_length rd mk + tail_chars cfg"
    using points_in_cut [OF he, of "code_points rd mk" 0 "content_items rd ps"] he e
    unfolding measure_points [of rd "ps_pruned st"] st(1) measure_points [symmetric]
    by (simp add: e_def code_point_length_def)
  show ?thesis
  proof (rule that(2))
    show "prune_pieces rd mk cfg ps = Inr (Some (ps_pruned st))"
      using False cfg size st(2) unfolding prune_pieces_def Let_def e(1) [symmetric] st_def [symmetric]
      by (simp add: budget_ok_def)
  qed (use False st size e_def in auto)
qed

lemma pruned_rich:
  assumes "marker_ok rd mk" and "budget_ok rd mk cfg" and "prune_pieces rd mk cfg ps = Inr (Some c)" and "RichPiece b \<in> set c"
  shows "RichPiece b \<in> set ps"
proof (cases rule: prune_pieces_cases [OF assms(1,2), of ps])
  case (2 c')
  with assms(3,4) rich_piece [of b rd c] have "Rich b \<in> set (content_items rd ps)"
    by (auto dest: cut_items_rich)
  then show ?thesis by (simp add: rich_piece)
qed (use assms(3) in simp)


section \<open>Unicode\<close>

text \<open>UTF-16 decoding, the specification of what a code point is: a surrogate pair denotes one scalar value
  above the basic plane, every other unit itself.\<close>

fun utf16_decode :: "code_unit list \<Rightarrow> int list" where
  "utf16_decode [] = []"
| "utf16_decode [u] = [uint u]"
| "utf16_decode (u # v # s) =
     (if 0xD800 \<le> uint u \<and> uint u < 0xDC00 \<and> 0xDC00 \<le> uint v \<and> uint v < 0xE000
      then (0x10000 + (uint u - 0xD800) * 0x400 + (uint v - 0xDC00)) # utf16_decode s
      else uint u # utf16_decode (v # s))"

fun decoded_items :: "(code_unit, 'b) piece \<Rightarrow> (int, 'b) content_item list" where
  "decoded_items (TextPiece t) = map Point (utf16_decode t)"
| "decoded_items (RichPiece b) = [Rich b]"

definition decoded :: "(code_unit, 'b) piece list \<Rightarrow> (int, 'b) content_item list" where
  "decoded ps = concat (map decoded_items ps)"

fun scalar_value :: "code_unit list \<Rightarrow> int" where
  "scalar_value [u] = uint u"
| "scalar_value [u, v] = 0x10000 + (uint u - 0xD800) * 0x400 + (uint v - 0xDC00)"
| "scalar_value _ = 0"

lemma surrogates_uint:
  "is_high_surrogate u \<longleftrightarrow> 0xD800 \<le> uint u \<and> uint u < 0xDC00"
  "is_low_surrogate u \<longleftrightarrow> 0xDC00 \<le> uint u \<and> uint u < 0xE000"
  by (auto simp: is_high_surrogate_def is_low_surrogate_def word_le_def)

lemma utf16_decode_points: "utf16_decode t = map scalar_value (code_points (\<lambda>u. u) t)"
  by (induction t rule: utf16_decode.induct) (simp_all add: surrogates_uint)

lemma decoded_content: "decoded ps = map (map_content_item scalar_value (\<lambda>b. b)) (content_items (\<lambda>u. u) ps)"
proof (induction ps)
  case (Cons a ps)
  then show ?case by (cases a) (simp_all add: decoded_def utf16_decode_points comp_def)
qed (simp add: decoded_def)

lemma cut_items_map:
  "cut_items (map f ms) h e k (map (map_content_item f g) xs) = map (map_content_item f g) (cut_items ms h e k xs)"
  by (induction ms h e k xs rule: cut_items.induct) (simp_all add: comp_def)

lemma points_in_map [simp]: "points_in (map (map_content_item f g) xs) = points_in xs"
proof (induction xs)
  case (Cons x xs)
  then show ?case by (cases x) simp_all
qed simp

lemma decoded_points: "points_in (decoded ps) = measure_pieces (\<lambda>u. u) ps"
  by (simp add: decoded_content measure_points)

lemma marker_units [simp]:
  "marker_ok (\<lambda>u. u) (utf16 PRUNE_MARKER)" "marker_ok char_unit PRUNE_MARKER"
  by code_simp+

lemma marker_length: "code_point_length (\<lambda>u. u) (utf16 PRUNE_MARKER) = code_point_length char_unit PRUNE_MARKER"
  by code_simp

abbreviation config_ok :: "prune_config \<Rightarrow> bool" where
  "config_ok \<equiv> budget_ok char_unit PRUNE_MARKER"

lemma config_ok_utf16: "config_ok cfg \<Longrightarrow> budget_ok (\<lambda>u. u) (utf16 PRUNE_MARKER) cfg"
  by (simp add: budget_ok_def marker_length)

lemma resolved_config_ok:
  assumes "resolve_prune_config raw = Inr cfg"
  shows "config_ok cfg"
  using assms by (auto simp: resolve_prune_config_def budget_ok_def and_then_Inr_iff Let_def split: option.splits if_splits)

text \<open>
  Claim C25. Under a validated configuration the content of a tool result of at most the threshold many
  Unicode code points is left alone. A longer one becomes, decoded as UTF-16, the same sequence of
  scalar values and other blocks with exactly those after the head and before the tail replaced
  by one marker: no surrogate pair is split at a boundary or counted twice. No empty text block is left, the
  result has the fixed size of head, marker and tail, and pruning it again changes nothing. The two internal checks
  never fail.
\<close>

theorem prune_content_exact:
  fixes ps :: "(code_unit, 'b) piece list"
  assumes "resolve_prune_config raw = Inr cfg" and "n = points_in (decoded ps)" and "mark = utf16_decode (utf16 PRUNE_MARKER)"
  shows "(n \<le> threshold_chars cfg \<and> prune_utf16 cfg ps = Inr None)
    \<or> (\<exists>c. threshold_chars cfg < n \<and> prune_utf16 cfg ps = Inr (Some c)
         \<and> decoded c = cut_items mark (head_chars cfg) (n - tail_chars cfg) 0 (decoded ps)
         \<and> TextPiece [] \<notin> set c
         \<and> points_in (decoded c) = head_chars cfg + length mark + tail_chars cfg
         \<and> prune_utf16 cfg c = Inr None)"
proof -
  have cfg: "budget_ok (\<lambda>u. u) (utf16 PRUNE_MARKER) cfg"
    by (rule config_ok_utf16 [OF resolved_config_ok [OF assms(1)]])
  note cases = prune_pieces_cases [OF marker_units(1) cfg]
  have n: "n = measure_pieces (\<lambda>u. u) ps" using assms(2) by (simp add: decoded_points)
  have mark: "mark = map scalar_value (code_points (\<lambda>u. u) (utf16 PRUNE_MARKER))"
    "length mark = code_point_length (\<lambda>u. u) (utf16 PRUNE_MARKER)"
    by (simp_all add: assms(3) utf16_decode_points code_point_length_def)
  show ?thesis
  proof (cases rule: cases [of ps])
    case 1
    then show ?thesis by (simp add: prune_utf16_def n)
  next
    case (2 c)
    have again: "prune_utf16 cfg c = Inr None" using 2(4) cfg by (simp add: prune_utf16_def prune_pieces_def budget_ok_def)
    have "decoded c = cut_items mark (head_chars cfg) (n - tail_chars cfg) 0 (decoded ps)"
      unfolding decoded_content mark(1) cut_items_map 2(3) n ..
    moreover have "points_in (decoded c) = head_chars cfg + length mark + tail_chars cfg"
      unfolding decoded_points mark(2) by (rule 2(4))
    moreover have "TextPiece [] \<notin> set c" using 2(5) by blast
    ultimately show ?thesis using 2(1,2) again by (intro disjI2 exI [of _ c]) (simp add: prune_utf16_def n)
  qed
qed

section \<open>The strings of the session model\<close>

text \<open>Reading every unit first and then pruning is pruning first: on the session model's strings
  the algorithm does what it does on the language's.\<close>

lemma code_points_map: "code_points rd (map f t) = map (map f) (code_points (\<lambda>c. rd (f c)) t)"
  by (induction "\<lambda>c. rd (f c)" t rule: code_points.induct) simp_all

lemma measure_pieces_map: "measure_pieces rd (map (map_piece f g) ps) = measure_pieces (\<lambda>c. rd (f c)) ps"
proof (induction ps)
  case (Cons p ps)
  then show ?case by (cases p) (simp_all add: code_point_length_def code_points_map)
qed simp

definition map_scan :: "('u \<Rightarrow> 'v) \<Rightarrow> ('b \<Rightarrow> 'c) \<Rightarrow> ('u, 'b) prune_scan \<Rightarrow> ('v, 'c) prune_scan" where
  "map_scan f g st = \<lparr>ps_pruned = map (map_piece f g) (ps_pruned st), ps_consumed = ps_consumed st, ps_marked = ps_marked st\<rparr>"

lemma prune_piece_map:
  "prune_piece rd (map f mk) cfg e (map_piece f g p) (map_scan f g st) = map_scan f g (prune_piece (\<lambda>c. rd (f c)) mk cfg e p st)"
proof (cases p)
  case (TextPiece t)
  let ?P = "code_points (\<lambda>c. rd (f c)) t" and ?k = "int (ps_consumed st)"
  define i where "i = nat (min (int (length ?P)) (max 0 (int (head_chars cfg) - ?k)))"
  define j where "j = nat (min (int (length ?P)) (max 0 (e - ?k)))"
  define b where "b = ((?k < e \<and> ?k + int (length ?P) > int (head_chars cfg)) \<and> \<not> ps_marked st)"
  define n where "n = nat (?k + int (length ?P))"
  define kept where "kept = concat (take i ?P) @ (if b then mk else []) @ concat (drop j ?P)"
  have inner: "prune_text (\<lambda>c. rd (f c)) mk cfg e t st =
      \<lparr>ps_pruned = (if length kept > 0 then ps_pruned st @ [TextPiece kept] else ps_pruned st), ps_consumed = n,
       ps_marked = (ps_marked st \<or> length (if b then mk else []) > 0)\<rparr>"
    unfolding prune_text_def Let_def kept_def i_def j_def b_def n_def ..
  have kept: "concat (take i (map (map f) ?P)) @ (if b then map f mk else []) @ concat (drop j (map (map f) ?P)) = map f kept"
    by (simp add: kept_def take_map drop_map map_concat)
  have "prune_text rd (map f mk) cfg e (map f t) (map_scan f g st) =
      \<lparr>ps_pruned = (if length (map f kept) > 0 then map (map_piece f g) (ps_pruned st) @ [TextPiece (map f kept)]
                    else map (map_piece f g) (ps_pruned st)), ps_consumed = n,
       ps_marked = (ps_marked st \<or> length (if b then map f mk else []) > 0)\<rparr>"
    unfolding prune_text_def Let_def code_points_map map_scan_def prune_scan.select_convs length_map
      i_def [symmetric] j_def [symmetric] b_def [symmetric] n_def [symmetric] kept length_map ..
  then show ?thesis by (simp add: TextPiece inner) (simp add: map_scan_def)
qed (simp add: map_scan_def)

lemma prune_scan_map:
  "fold (prune_piece rd (map f mk) cfg e) (map (map_piece f g) ps) (map_scan f g st) =
   map_scan f g (fold (prune_piece (\<lambda>c. rd (f c)) mk cfg e) ps st)"
  by (induction ps arbitrary: st) (simp_all add: prune_piece_map)

lemma prune_pieces_map:
  "prune_pieces rd (map f mk) cfg (map (map_piece f g) ps) =
   (case prune_pieces (\<lambda>c. rd (f c)) mk cfg ps of
      Inl err \<Rightarrow> Inl err | Inr r \<Rightarrow> Inr (map_option (map (map_piece f g)) r))"
proof -
  have start: "\<lparr>ps_pruned = [], ps_consumed = 0, ps_marked = False\<rparr> = map_scan f g \<lparr>ps_pruned = [], ps_consumed = 0, ps_marked = False\<rparr>"
    by (simp add: map_scan_def)
  show ?thesis
    unfolding prune_pieces_def Let_def measure_pieces_map start prune_scan_map
    by (simp add: map_scan_def measure_pieces_map)
qed

definition unit_pieces :: "content_block list \<Rightarrow> (code_unit, content_block) piece list" where
  "unit_pieces bs = map (map_piece char_unit (\<lambda>b. b)) (map piece_of bs)"

definition plain_rich :: "(char, content_block) piece \<Rightarrow> bool" where
  "plain_rich p \<longleftrightarrow> (\<forall>t. p \<noteq> RichPiece (TextBlock t))"

lemma piece_of_block_of: "plain_rich p \<Longrightarrow> piece_of (block_of p) = p"
  by (cases p rule: block_of.cases; cases "block_of p") (auto simp: plain_rich_def)

lemma piece_of_plain: "plain_rich (piece_of b)"
  by (cases b) (simp_all add: plain_rich_def)

lemma pruned_plain:
  assumes "config_ok cfg" and "prune_pieces char_unit PRUNE_MARKER cfg (map piece_of bs) = Inr (Some c)"
  shows "map piece_of (map block_of c) = c"
proof -
  have "plain_rich p" if "p \<in> set c" for p
  proof (cases p)
    case (RichPiece b)
    with pruned_rich [OF marker_units(2) assms] that have "p \<in> piece_of ` set bs" by simp
    then show ?thesis using piece_of_plain by blast
  qed (simp add: plain_rich_def)
  then show ?thesis by (simp add: piece_of_block_of map_idI)
qed

lemma prune_content_is_utf16:
  assumes "config_ok cfg"
  shows "prune_utf16 cfg (unit_pieces bs) =
    (case prune_content cfg bs of Inl err \<Rightarrow> Inl err | Inr r \<Rightarrow> Inr (map_option unit_pieces r))"
proof -
  have run: "prune_utf16 cfg (unit_pieces bs) =
      (case prune_pieces char_unit PRUNE_MARKER cfg (map piece_of bs) of
         Inl err \<Rightarrow> Inl err | Inr r \<Rightarrow> Inr (map_option (map (map_piece char_unit (\<lambda>b. b))) r))"
    unfolding prune_utf16_def unit_pieces_def utf16_def by (rule prune_pieces_map)
  show ?thesis
  proof (cases "prune_pieces char_unit PRUNE_MARKER cfg (map piece_of bs)")
    case (Inr r)
    have "unit_pieces (map block_of c) = map (map_piece char_unit (\<lambda>b. b)) c" if "r = Some c" for c
      unfolding unit_pieces_def pruned_plain [OF assms Inr [unfolded that]] ..
    with Inr show ?thesis unfolding run prune_content_def by (cases r) simp_all
  qed (simp add: run prune_content_def)
qed

lemma prune_content_cases:
  assumes "config_ok cfg"
  obtains "measure_content bs \<le> threshold_chars cfg" "prune_content cfg bs = Inr None"
  | c where "threshold_chars cfg < measure_content bs" "prune_content cfg bs = Inr (Some c)"
      "measure_content c = head_chars cfg + code_point_length char_unit PRUNE_MARKER + tail_chars cfg"
proof (cases rule: prune_pieces_cases [OF marker_units(2) assms, of "map piece_of bs"])
  case 1
  with that(1) show ?thesis by (simp add: prune_content_def measure_content_def)
next
  case (2 c)
  have "measure_content (map block_of c) = measure_pieces char_unit c"
    unfolding measure_content_def pruned_plain [OF assms 2(2)] ..
  with 2 that(2) [of "map block_of c"] show ?thesis by (simp add: prune_content_def measure_content_def)
qed

lemma prune_content_None_iff: "config_ok cfg \<Longrightarrow> prune_content cfg bs = Inr None \<longleftrightarrow> measure_content bs \<le> threshold_chars cfg"
  by (cases rule: prune_content_cases [of cfg bs]) simp_all

lemma pruned_blocks:
  assumes "config_ok cfg" and "prune_content cfg bs = Inr (Some c)" and "b \<in> set c"
  shows "(\<exists>t. b = TextBlock t) \<or> b \<in> set bs"
proof -
  from assms(2) obtain c' where c': "prune_pieces char_unit PRUNE_MARKER cfg (map piece_of bs) = Inr (Some c')" "c = map block_of c'"
    by (auto simp: prune_content_def split: sum.splits)
  with assms(3) obtain p where p: "p \<in> set c'" "b = block_of p" by auto
  show ?thesis
  proof (cases p)
    case (RichPiece b')
    with pruned_rich [OF marker_units(2) assms(1) c'(1)] p(1) obtain b0 where "b0 \<in> set bs" "RichPiece b' = piece_of b0" by auto
    with p RichPiece show ?thesis by (cases b0) auto
  qed (use p in simp)
qed

section \<open>A concrete cut\<close>

definition small_budget :: "(string \<times> json) list" where
  "small_budget = [(''thresholdChars'', jint 60), (''headChars'', jint 4), (''tailChars'', jint 3)]"

definition small_config :: prune_config where
  "small_config = \<lparr>threshold_chars = 60, head_chars = 4, tail_chars = 3\<rparr>"

lemma small_budget_resolves: "resolve_prune_config small_budget = Inr small_config"
  by code_simp

text \<open>Both boundaries fall next to a surrogate pair, which is kept whole.\<close>

definition emoji_pieces :: "(code_unit, nat) piece list" where
  "emoji_pieces =
     [TextPiece ([0x61, 0x62, 0x63, 0xD83D, 0xDE00] @ replicate 30 0x61), RichPiece 7,
      TextPiece (replicate 34 0x62 @ [0xD83D, 0xDE01, 0x78, 0x79])]"

theorem prune_content_exact_witness:
  "prune_utf16 small_config emoji_pieces =
     Inr (Some [TextPiece ([0x61, 0x62, 0x63, 0xD83D, 0xDE00] @ utf16 PRUNE_MARKER), RichPiece 7,
                TextPiece [0xD83D, 0xDE01, 0x78, 0x79]])
   \<and> points_in (decoded emoji_pieces) = 71"
proof -
  have size: "points_in (decoded emoji_pieces) = 71" by code_simp
  have "prune_utf16 small_config emoji_pieces =
     Inr (Some [TextPiece ([0x61, 0x62, 0x63, 0xD83D, 0xDE00] @ utf16 PRUNE_MARKER), RichPiece 7,
                TextPiece [0xD83D, 0xDE01, 0x78, 0x79]])"
    by code_simp
  moreover have "\<exists>c. prune_utf16 small_config emoji_pieces = Inr (Some c)"
    using prune_content_exact [OF small_budget_resolves refl refl, of emoji_pieces] size by (auto simp: small_config_def)
  ultimately show ?thesis using size by simp
qed

end
