(* ===== verification/Tool_Pruner.thy ===== *)
theory Tool_Pruner
  imports Compaction_Transaction Prune_Text
begin

text \<open>
  \<open>packages/compaction/compaction-tool-result-pruner/src\<close>: cutting the middle out of long tool results,
  without a model. A pass reads the surface once, and for each result over the budget appends a
  metering event and the shortened result that replaces it. What is cut out of a content is
  \<open>Prune_Text\<close>.
\<close>

section \<open>A pass over the surface\<close>

datatype pruner_error = PrunerContent prune_error | PrunerSurface region_error

text \<open>The tool results of the surface, as they were when the pass began.\<close>

definition prune_candidates :: "session_event list \<Rightarrow> nat list \<Rightarrow> (nat \<times> tool_result_data) list" where
  "prune_candidates es ns =
     concat (map (\<lambda>n. case elem_at es n of
        Some e \<Rightarrow> (case ev_payload e of ToolResultEvent d \<Rightarrow> [(n, d)] | _ \<Rightarrow> [])
      | None \<Rightarrow> []) ns)"

record pruned_entry =
  pe_original :: nat
  pe_replacement :: nat
  pe_call_id :: string
  pe_before :: nat
  pe_after :: nat

record prune_result =
  pr_pruned :: "pruned_entry list"
  pr_removed :: int

definition prune_span :: "(jnum \<Rightarrow> string) \<Rightarrow> nat \<Rightarrow> tool_result_data \<Rightarrow> shadowed_span" where
  "prune_span nt n d =
     \<lparr>span_start = JInt (int n), span_end = JInt (int n), span_seqs = [JInt (int n)],
      span_tokens = JInt (int (estimate_message nt (ToolResultMessage (res_message d))))\<rparr>"

definition with_content :: "content_block list \<Rightarrow> tool_result_data \<Rightarrow> tool_result_data" where
  "with_content c d = d\<lparr>res_message := (res_message d)\<lparr>tr_content := c\<rparr>\<rparr>"

text \<open>One candidate; the clock is read at each append.\<close>

definition prune_candidate ::
    "prune_config \<Rightarrow> region_env \<Rightarrow> (nat \<Rightarrow> int) \<Rightarrow> nat \<Rightarrow> tool_result_data \<Rightarrow> (region_world, pruner_error, pruned_entry option) step" where
  "prune_candidate cfg env clk n d =
     (case prune_content cfg (tr_content (res_message d)) of
        Inl err \<Rightarrow> raise (PrunerContent err)
      | Inr None \<Rightarrow> give None
      | Inr (Some c) \<Rightarrow>
          wrap PrunerSurface
            (and_do (\<lambda>w. append_log (clk (length (region_log w))) (CompactionPrune (prune_span (re_number_text env) n d)) None None w) (\<lambda>_.
             and_do (\<lambda>w. append_log (clk (length (region_log w))) (ToolResultEvent (with_content c d))
                      (Some (replace_op n n)) (Some (seqs_json [n])) w) (\<lambda>e.
               give (Some \<lparr>pe_original = n, pe_replacement = ev_seq e, pe_call_id = tr_call_id (res_message d),
                           pe_before = measure_content (tr_content (res_message d)), pe_after = measure_content c\<rparr>)))))"

fun prune_loop ::
    "prune_config \<Rightarrow> region_env \<Rightarrow> (nat \<Rightarrow> int) \<Rightarrow> (nat \<times> tool_result_data) list \<Rightarrow> prune_result \<Rightarrow>
     (region_world, pruner_error, prune_result) step" where
  "prune_loop cfg env clk [] acc = give acc"
| "prune_loop cfg env clk ((n, d) # rest) acc =
     and_do (prune_candidate cfg env clk n d) (\<lambda>entry.
       prune_loop cfg env clk rest
         (case entry of
            None \<Rightarrow> acc
          | Some x \<Rightarrow> \<lparr>pr_pruned = pr_pruned acc @ [x], pr_removed = pr_removed acc + (int (pe_before x) - int (pe_after x))\<rparr>))"

definition prune_session :: "prune_config \<Rightarrow> region_env \<Rightarrow> (nat \<Rightarrow> int) \<Rightarrow> (region_world, pruner_error, prune_result) step" where
  "prune_session cfg env clk =
     and_do (wrap PrunerSurface surface_nodes) (\<lambda>ns w.
       prune_loop cfg env clk (prune_candidates (region_log w) ns) \<lparr>pr_pruned = [], pr_removed = 0\<rparr> w)"

section \<open>One candidate\<close>

definition prune_mark :: "region_env \<Rightarrow> nat \<Rightarrow> tool_result_data \<Rightarrow> session_event \<Rightarrow> bool" where
  "prune_mark env n d e \<longleftrightarrow> ev_payload e = CompactionPrune (prune_span (re_number_text env) n d)"

definition shortened :: "nat \<Rightarrow> tool_result_data \<Rightarrow> content_block list \<Rightarrow> session_event \<Rightarrow> bool" where
  "shortened n d c e \<longleftrightarrow> ev_payload e = ToolResultEvent (with_content c d)
     \<and> ev_surface_op e = Some (replace_op n n) \<and> ev_sources e = Some (seqs_json [n])"

abbreviation result_blocks :: "tool_result_data \<Rightarrow> content_block list" where
  "result_blocks d \<equiv> tr_content (res_message d)"

definition entry_for :: "nat \<Rightarrow> nat \<Rightarrow> tool_result_data \<Rightarrow> content_block list \<Rightarrow> pruned_entry" where
  "entry_for n m d c = \<lparr>pe_original = n, pe_replacement = m, pe_call_id = tr_call_id (res_message d),
     pe_before = measure_content (result_blocks d), pe_after = measure_content c\<rparr>"

lemma prune_candidate_cases:
  assumes ok: "region_ok env w" and cfg: "config_ok cfg" and run: "prune_candidate cfg env clk n d w = (r, w')"
  obtains (kept) "prune_content cfg (result_blocks d) = Inr None" "r = Inr None" "w' = w"
  | (failed) err part where "r = Inl err" "region_ok env w'" "region_log w' = region_log w @ part"
      "part = [] \<or> (\<exists>e. part = [e] \<and> prune_mark env n d e)"
  | (pruned) c e1 e2 where "prune_content cfg (result_blocks d) = Inr (Some c)"
      "r = Inr (Some (entry_for n (Suc (length (region_log w))) d c))" "region_ok env w'"
      "region_log w' = region_log w @ [e1, e2]" "prune_mark env n d e1" "shortened n d c e2"
proof (cases rule: prune_content_cases [OF cfg, of "result_blocks d"])
  case 1
  with run kept show ?thesis by (simp add: prune_candidate_def)
next
  case (2 c)
  let ?mark = "\<lambda>w. append_log (clk (length (region_log w))) (CompactionPrune (prune_span (re_number_text env) n d)) None None w"
  let ?put = "\<lambda>w. append_log (clk (length (region_log w))) (ToolResultEvent (with_content c d))
      (Some (replace_op n n)) (Some (seqs_json [n])) w"
  from run 2(2) obtain r0 where run0: "and_do ?mark (\<lambda>_. and_do ?put (\<lambda>e.
      give (Some \<lparr>pe_original = n, pe_replacement = ev_seq e, pe_call_id = tr_call_id (res_message d),
        pe_before = measure_content (result_blocks d), pe_after = measure_content c\<rparr>))) w = (r0, w')"
    and r: "r = rethrow PrunerSurface r0"
    by (auto simp: prune_candidate_def elim: wrap_cases)
  from run0 show ?thesis
  proof (cases rule: and_do_cases)
    case (failed err)
    with append_log_ok [OF ok failed(1)] r that(2) [of _ "[]"] show ?thesis by simp
  next
    case (passed e1 w1)
    note a1 = append_log_ok [OF ok passed(1)]
    then have ok1: "region_ok env w1" by blast
    from passed(2) show ?thesis
    proof (cases rule: and_do_cases)
      case (failed err)
      with append_log_ok [OF ok1 failed(1)] a1 r that(2) [of _ "[e1]"] show ?thesis by (simp add: prune_mark_def)
    next
      case (passed e2 w2)
      with append_log_ok [OF ok1 passed(1)] a1 r 2(2) that(3) [of c e1 e2] show ?thesis
        by (simp add: prune_mark_def shortened_def entry_for_def)
    qed
  qed
qed

text \<open>The candidates left: nodes of the surface that still are the results read at the start.\<close>

definition still_pending :: "session_event list \<Rightarrow> (nat \<times> tool_result_data) list \<Rightarrow> bool" where
  "still_pending es cands \<longleftrightarrow> distinct (map fst cands)
     \<and> (\<forall>(n, d) \<in> set cands. n \<in> set (log_nodes es) \<and> ev_payload (es ! n) = ToolResultEvent d)"

lemma prune_candidates_pending:
  assumes "fold_window 0 es = Inr x"
  shows "still_pending es (prune_candidates es (log_nodes es))"
proof -
  have fsts: "map fst (prune_candidates es ns) = filter (\<lambda>n. \<exists>e d. elem_at es n = Some e \<and> ev_payload e = ToolResultEvent d) ns" for ns
    by (induction ns) (auto simp: prune_candidates_def split: option.splits payload.splits)
  have "distinct (log_nodes es)" using log_nodes_named [OF assms] by simp
  then show ?thesis unfolding still_pending_def fsts
    by (auto simp: prune_candidates_def elem_at_def split: option.splits payload.splits if_splits)
qed

definition renamed :: "pruned_entry list \<Rightarrow> nat \<Rightarrow> nat" where
  "renamed xs n = (case find (\<lambda>x. pe_original x = n) xs of None \<Rightarrow> n | Some x \<Rightarrow> pe_replacement x)"

lemma splice_one:
  assumes "distinct xs" and "i < length xs"
  shows "splice i 1 [m] xs = map (\<lambda>n. if n = xs ! i then m else n) xs"
proof -
  have "splice i 1 [m] xs = xs[i := m]" using assms(2) by (simp add: splice_def upd_conv_take_nth_drop)
  also have "\<dots> = map (\<lambda>n. if n = xs ! i then m else n) xs"
    by (rule nth_equalityI) (use assms in \<open>auto simp: nth_list_update nth_eq_iff_index_eq\<close>)
  finally show ?thesis .
qed

lemma prune_mark_off: "prune_mark env n d e \<Longrightarrow> \<not> is_surface_eligible_type (ev_type e)"
  by (simp add: prune_mark_def is_surface_eligible_type_def SURFACE_EVENT_TYPES_def)

text \<open>What the two events of a pruned candidate do to the surface.\<close>

lemma pruned_effect:
  assumes f: "fold_window 0 (es @ [e1, e2]) = Inr x" and e1: "prune_mark env n d e1" and e2: "shortened n d c e2"
    and n: "n \<in> set (log_nodes es)"
  shows "log_nodes (es @ [e1, e2]) = map (\<lambda>k. if k = n then Suc (length es) else k) (log_nodes es)"
proof -
  have f2: "fold_window 0 ((es @ [e1]) @ [e2]) = Inr x" using f by simp
  obtain x1 where f1: "fold_window 0 (es @ [e1]) = Inr x1" using window_prefix [OF f2] by blast
  obtain x0 where f0: "fold_window 0 es = Inr x0" using window_prefix [OF f1] by blast
  have off: "log_nodes (es @ [e1]) = log_nodes es" by (rule log_nodes_off [OF f1 prune_mark_off [OF e1]])
  from n obtain i where i: "i < length (log_nodes es)" "log_nodes es ! i = n" by (auto simp: in_set_conv_nth)
  have dist: "distinct (log_nodes es)" using log_nodes_named [OF f0] by simp
  have "log_nodes ((es @ [e1]) @ [e2]) = splice i (i - i + 1) [length (es @ [e1])] (log_nodes (es @ [e1]))"
    by (rule replace_effect [OF f2])
      (use e2 i off in \<open>simp_all add: shortened_def is_surface_eligible_type_def SURFACE_EVENT_TYPES_def\<close>)
  then show ?thesis using splice_one [OF dist i(1), of "Suc (length es)"] i(2) off by simp
qed

lemma still_pending_pruned:
  assumes p: "still_pending es ((n, d) # rest)" and f: "fold_window 0 (es @ [e1, e2]) = Inr x"
    and e1: "prune_mark env n d e1" and e2: "shortened n d c e2"
  shows "still_pending (es @ [e1, e2]) rest"
proof -
  obtain y where y: "fold_window 0 es = Inr y" using window_prefix [OF f] by blast
  have ns: "log_nodes (es @ [e1, e2]) = map (\<lambda>k. if k = n then Suc (length es) else k) (log_nodes es)"
    by (rule pruned_effect [OF f e1 e2]) (use p in \<open>simp add: still_pending_def\<close>)
  have "m \<in> set (log_nodes (es @ [e1, e2])) \<and> ev_payload ((es @ [e1, e2]) ! m) = ToolResultEvent d'" if "(m, d') \<in> set rest" for m d'
  proof -
    have "m \<in> fst ` set rest" using that by force
    then have m: "m \<in> set (log_nodes es)" "ev_payload (es ! m) = ToolResultEvent d'" "m \<noteq> n"
      using p that by (auto simp: still_pending_def)
    have "m < length es" by (rule log_nodes_within [OF y m(1)])
    with m show ?thesis unfolding ns by (auto simp: nth_append)
  qed
  then show ?thesis using p by (auto simp: still_pending_def)
qed

lemma still_pending_kept: "still_pending es (x # rest) \<Longrightarrow> still_pending es rest"
  by (simp add: still_pending_def)

section \<open>Pruning keeps the log metered\<close>

lemma surface_node_safe:
  assumes "region_ok env w" and "n \<in> set (log_nodes (region_log w))"
  shows "int n \<le> MAX_SAFE_INTEGER"
  using assms log_nodes_below [of n "region_log w"] by (simp add: region_ok_def)

lemma metered_prune_mark:
  assumes "prune_mark env n d e" and "int n \<le> MAX_SAFE_INTEGER"
  shows "metered_event nt es e"
  using assms by (simp add: metered_event_def prune_mark_def metering_span_def arm_claim_def prune_span_def session_seq_int
      is_replacement_surface_event_def is_surface_event_def is_surface_eligible_type_def SURFACE_EVENT_TYPES_def)

lemma metered_shortened:
  assumes f: "fold_window 0 (es @ [e1]) = Inr x" and e1: "prune_mark env n d e1" and e2: "shortened n d c e2"
    and n: "n \<in> set (log_nodes es)" "ev_payload (es ! n) = ToolResultEvent d" and safe: "int n \<le> MAX_SAFE_INTEGER"
  shows "metered_event (re_number_text env) (es @ [e1]) e2"
proof -
  from n(1) obtain i where i: "i < length (log_nodes es)" "log_nodes es ! i = n" by (auto simp: in_set_conv_nth)
  have one: "Prelude.slice i (i + 1) (log_nodes es) = [n]" using i by (simp add: Prelude.slice_def take_Suc hd_drop_conv_nth)
  have "event_tokens (re_number_text env) (es ! n) = estimate_message (re_number_text env) (ToolResultMessage (res_message d))"
    using n(2) by (simp add: event_tokens_def derive_event_message_def)
  then have price: "span_price env es (Prelude.slice i (i + 1) (log_nodes es)) =
      estimate_message (re_number_text env) (ToolResultMessage (res_message d))"
    unfolding one by (simp add: span_price_def)
  show ?thesis
    by (rule metered_replace [OF f _ _ _ safe safe, where i = i and j = i and sp = "prune_span (re_number_text env) n d"])
      (use e1 e2 i price in \<open>simp_all add: prune_mark_def shortened_def metering_span_def prune_span_def\<close>)
qed

lemma prune_loop_metered:
  assumes "config_ok cfg" and "region_ok env w" and "still_pending (region_log w) cands"
    and "fully_metered (re_number_text env) (region_log w)" and "prune_loop cfg env clk cands acc w = (r, w')"
  shows "region_ok env w' \<and> (\<exists>fs. region_log w' = region_log w @ fs) \<and> fully_metered (re_number_text env) (region_log w')"
  using assms(2-5)
proof (induction cands arbitrary: acc w)
  case Nil
  then show ?case by simp
next
  case (Cons x rest)
  obtain n d where x: "x = (n, d)" by (cases x)
  let ?es = "region_log w"
  have n: "n \<in> set (log_nodes ?es)" "ev_payload (?es ! n) = ToolResultEvent d" using Cons.prems(2) by (simp_all add: x still_pending_def)
  note safe = surface_node_safe [OF Cons.prems(1) n(1)]
  obtain r1 w1 where run: "prune_candidate cfg env clk n d w = (r1, w1)" by (cases "prune_candidate cfg env clk n d w")
  from Cons.prems(1) assms(1) run show ?case
  proof (cases rule: prune_candidate_cases)
    case kept
    with Cons.prems run Cons.IH [of w] still_pending_kept [of ?es x rest] show ?thesis by (simp add: x and_do_def)
  next
    case (failed err part)
    have "r = Inl err" "w' = w1" using Cons.prems(4) run failed by (simp_all add: x and_do_def)
    with failed Cons.prems(3) metered_prune_mark [OF _ safe] show ?thesis by (auto simp: fully_metered_snoc)
  next
    case (pruned c e1 e2)
    obtain y where f: "fold_window 0 (?es @ [e1, e2]) = Inr y" using region_ok_window [OF pruned(3)] pruned(4) by auto
    then have f1: "fold_window 0 ((?es @ [e1]) @ [e2]) = Inr y" by simp
    obtain z where f2: "fold_window 0 (?es @ [e1]) = Inr z" using window_prefix [OF f1] by blast
    have "metered_event (re_number_text env) (?es @ [e1]) e2" by (rule metered_shortened [OF f2 pruned(5,6) n safe])
    then have "fully_metered (re_number_text env) ((?es @ [e1]) @ [e2])"
      unfolding fully_metered_snoc using Cons.prems(3) metered_prune_mark [OF pruned(5) safe] by simp
    then have m: "fully_metered (re_number_text env) (region_log w1)" using pruned(4) by simp
    have "still_pending (region_log w1) rest"
      unfolding pruned(4) by (rule still_pending_pruned [OF _ f pruned(5,6)]) (use Cons.prems(2) x in simp)
    then show ?thesis using Cons.IH [OF pruned(3) _ m] Cons.prems(4) run pruned(2,4) by (auto simp: x and_do_def)
  qed
qed

lemma prune_session_loop:
  assumes ok: "region_ok env w" and run: "prune_session cfg env clk w = (r, w')"
  obtains w1 where "region_ok env w1" "region_log w1 = region_log w" "still_pending (region_log w1) (prune_candidates (region_log w) (log_nodes (region_log w)))"
    "prune_loop cfg env clk (prune_candidates (region_log w) (log_nodes (region_log w))) \<lparr>pr_pruned = [], pr_removed = 0\<rparr> w1 = (r, w')"
proof -
  from reads_elim [OF reads_surface_nodes ok] obtain w1 where
    "surface_nodes w = (Inr (log_nodes (region_log w)), w1)" "region_ok env w1" "region_log w1 = region_log w" .
  with run prune_candidates_pending region_ok_window [OF ok] show ?thesis
    by (intro that [of w1]) (auto simp: prune_session_def and_do_def wrap_def)
qed

section \<open>What a pass has done\<close>

definition over_budget :: "prune_config \<Rightarrow> nat \<times> tool_result_data \<Rightarrow> bool" where
  "over_budget cfg c \<longleftrightarrow> threshold_chars cfg < measure_content (result_blocks (snd c))"

definition pruned_into :: "prune_config \<Rightarrow> session_event list \<Rightarrow> nat \<times> tool_result_data \<Rightarrow> pruned_entry \<Rightarrow> bool" where
  "pruned_into cfg es = (\<lambda>(n, d) x. \<exists>c m. prune_content cfg (result_blocks d) = Inr (Some c)
     \<and> x = entry_for n m d c \<and> m < length es \<and> ev_payload (es ! m) = ToolResultEvent (with_content c d))"

lemma pruned_into_extend: "pruned_into cfg es c x \<Longrightarrow> pruned_into cfg (es @ fs) c x"
  by (auto simp: pruned_into_def nth_append)

lemma renamed_Cons:
  "renamed (x # xs) n = (if pe_original x = n then pe_replacement x else renamed xs n)"
  by (simp add: renamed_def)

lemma renamed_Nil [simp]: "renamed [] n = n"
  by (simp add: renamed_def)

lemma renamed_absent: "n \<notin> pe_original ` set xs \<Longrightarrow> renamed xs n = n"
  by (induction xs) (auto simp: renamed_Cons)

lemma pruned_originals: "list_all2 (pruned_into cfg es) cs xs \<Longrightarrow> map pe_original xs = map fst cs"
  by (induction rule: list_all2_induct) (auto simp: pruned_into_def entry_for_def)

definition saved :: "pruned_entry list \<Rightarrow> int" where
  "saved xs = (\<Sum>x\<leftarrow>xs. int (pe_before x) - int (pe_after x))"

text \<open>The loop as far as it got: what it appended, what it returned, and the surface it left.\<close>

definition pass_done ::
    "prune_config \<Rightarrow> region_world \<Rightarrow> (nat \<times> tool_result_data) list \<Rightarrow> region_world \<Rightarrow> pruned_entry list \<Rightarrow> bool" where
  "pass_done cfg w cands w' new \<longleftrightarrow>
     length (region_log w') = length (region_log w) + 2 * length new
     \<and> list_all2 (pruned_into cfg (region_log w')) (filter (over_budget cfg) cands) new
     \<and> log_nodes (region_log w') = map (renamed new) (log_nodes (region_log w))
     \<and> (\<exists>fs. region_log w' = region_log w @ fs)"

lemma prune_loop_done:
  assumes "config_ok cfg" and "region_ok env w" and "still_pending (region_log w) cands"
    and "prune_loop cfg env clk cands acc w = (Inr res, w')"
  shows "\<exists>new. pr_pruned res = pr_pruned acc @ new \<and> pr_removed res = pr_removed acc + saved new \<and> pass_done cfg w cands w' new"
  using assms(2-4)
proof (induction cands arbitrary: acc w)
  case Nil
  have "renamed [] = (\<lambda>n. n)" by (simp add: renamed_def fun_eq_iff)
  with Nil show ?case by (intro exI [of _ "[]"]) (simp add: saved_def pass_done_def)
next
  case (Cons x rest)
  obtain n d where x: "x = (n, d)" by (cases x)
  let ?es = "region_log w"
  have n: "n \<in> set (log_nodes ?es)" "ev_payload (?es ! n) = ToolResultEvent d" using Cons.prems(2) by (simp_all add: x still_pending_def)
  obtain r1 w1 where run: "prune_candidate cfg env clk n d w = (r1, w1)" by (cases "prune_candidate cfg env clk n d w")
  from Cons.prems(1) assms(1) run show ?case
  proof (cases rule: prune_candidate_cases)
    case kept
    then have "\<not> over_budget cfg x"
      using prune_content_None_iff [OF assms(1)] by (simp add: over_budget_def x)
    with Cons.IH [of w acc] Cons.prems run kept still_pending_kept [of ?es x rest] show ?thesis
      by (simp add: x and_do_def pass_done_def)
  next
    case (failed err part)
    with Cons.prems(3) run show ?thesis by (simp add: x and_do_def)
  next
    case (pruned c e1 e2)
    let ?x = "entry_for n (Suc (length ?es)) d c"
    obtain y where f: "fold_window 0 (?es @ [e1, e2]) = Inr y" using region_ok_window [OF pruned(3)] pruned(4) by auto
    have ns1: "log_nodes (region_log w1) = map (\<lambda>k. if k = n then Suc (length ?es) else k) (log_nodes ?es)"
      unfolding pruned(4) by (rule pruned_effect [OF f pruned(5,6) n(1)])
    have p1: "still_pending (region_log w1) rest"
      unfolding pruned(4) by (rule still_pending_pruned [OF _ f pruned(5,6)]) (use Cons.prems(2) x in simp)
    let ?acc = "\<lparr>pr_pruned = pr_pruned acc @ [?x], pr_removed = pr_removed acc + (int (pe_before ?x) - int (pe_after ?x))\<rparr>"
    have "prune_loop cfg env clk rest ?acc w1 = (Inr res, w')" using Cons.prems(3) run pruned(2) by (simp add: x and_do_def)
    from Cons.IH [OF pruned(3) p1 this] obtain new where new: "pr_pruned res = pr_pruned acc @ ?x # new"
      "pr_removed res = pr_removed acc + saved (?x # new)" "pass_done cfg w1 rest w' new" by (auto simp: saved_def)
    then obtain fs where fs: "region_log w' = ?es @ [e1, e2] @ fs" using pruned(4) by (auto simp: pass_done_def)
    have over: "over_budget cfg x"
      using prune_content_None_iff [OF assms(1), of "result_blocks d"] pruned(1) by (simp add: over_budget_def x)
    have into: "pruned_into cfg (region_log w') x ?x"
      using pruned(1,6) fs by (simp add: pruned_into_def x entry_for_def shortened_def nth_append)
    have olds: "pe_original ` set new \<subseteq> fst ` set rest"
    proof -
      have "map pe_original new = map fst (filter (over_budget cfg) rest)"
        using new(3) pruned_originals by (auto simp: pass_done_def)
      then have "set (map pe_original new) = set (map fst (filter (over_budget cfg) rest))" by (rule arg_cong)
      then show ?thesis by auto
    qed
    have "renamed (?x # new) k = renamed new (if k = n then Suc (length ?es) else k)" if "k \<in> set (log_nodes ?es)" for k
    proof (cases "k = n")
      case True
      have "m < length ?es" if "m \<in> pe_original ` set new" for m
      proof -
        from that olds have "m \<in> fst ` set rest" by auto
        then have "m \<in> set (log_nodes ?es)" using Cons.prems(2) by (auto simp: still_pending_def)
        then show ?thesis by (rule log_nodes_below)
      qed
      then have "renamed new (Suc (length ?es)) = Suc (length ?es)" by (intro renamed_absent) fastforce
      with True show ?thesis by (simp add: renamed_Cons entry_for_def)
    next
      case False
      then show ?thesis by (simp add: renamed_Cons entry_for_def)
    qed
    then have "log_nodes (region_log w') = map (renamed (?x # new)) (log_nodes ?es)"
      using new(3) ns1 by (simp add: pass_done_def)
    with new over into fs pruned(4) show ?thesis
      by (intro exI [of _ "?x # new"]) (simp add: pass_done_def)
  qed
qed

section \<open>Nothing refuses the replacement\<close>

text \<open>A result as a session holds it: a JSON value with distinct keys, without negative zero.\<close>

definition storable :: "tool_result_data \<Rightarrow> bool" where
  "storable d \<longleftrightarrow> lossless (payload_json (ToolResultEvent d)) \<and> wf_json (tool_result_data_json d JNull)"

lemma is_deep_equal_json_refl: "wf_json j \<Longrightarrow> is_deep_equal_json j j"
  by (simp add: is_deep_equal_canon(1))

lemma lossless_tool_result:
  "lossless (payload_json (ToolResultEvent d)) \<longleftrightarrow> lossless (tool_result_data_json d JNull) \<and> (\<forall>b \<in> set (result_blocks d). lossless (block_json b))"
  by (auto simp: tool_result_data_json_def message_object_def tool_result_block_json_def opt_field_def list_all_iff split: option.splits)

lemma content_free_json: "tool_result_data_json (with_content c d) JNull = tool_result_data_json d JNull"
  by (simp add: tool_result_data_json_def with_content_def tool_result_block_json_def)

lemma shortened_lossless:
  assumes "config_ok cfg" and "prune_content cfg (result_blocks d) = Inr (Some c)" and "storable d"
  shows "lossless (payload_json (ToolResultEvent (with_content c d)))"
proof -
  have "\<forall>b \<in> set c. lossless (block_json b)"
  proof
    fix b assume "b \<in> set c"
    from pruned_blocks [OF assms(1,2) this] assms(3) show "lossless (block_json b)"
      unfolding storable_def lossless_tool_result by auto
  qed
  with assms(3) show ?thesis unfolding lossless_tool_result content_free_json storable_def
    by (simp add: with_content_def)
qed

lemma fold_window_shortened:
  assumes f: "fold_window 0 es = Inr x" and n: "n \<in> set (log_nodes es)" "ev_payload (es ! n) = ToolResultEvent d"
    and safe: "int n \<le> MAX_SAFE_INTEGER" and e: "shortened n d c e" "ev_seq e = length es" and d: "storable d"
  shows "is_ok (fold_window 0 (es @ [e]))"
proof -
  obtain st reps where x: "x = (st, reps)" by (cases x)
  have ns: "log_nodes es = nodes st" using f x by (simp add: log_nodes_def)
  have lt: "n < length es" by (rule log_nodes_within [OF f n(1)])
  from n(1) obtain i where i: "i < length (nodes st)" "nodes st ! i = n" unfolding ns by (auto simp: in_set_conv_nth)
  have "index_of n (nodes st) = Some i"
    using index_of_nth_distinct [of "nodes st" i] log_nodes_named [OF f] i ns by simp
  then have range: "replacement_range st n n = Inr (i, i, [n])"
    using i by (simp add: replacement_range_def Prelude.slice_def take_Suc hd_drop_conv_nth)
  have cited: "cited_sources e = Inr [n]"
    using e lt safe by (simp add: cited_sources_def shortened_def seqs_json_def)
  have op: "surface_op_of e = Inr (Some (ReplaceOp n n))"
    using e(1) replace_op_of_safe [OF safe safe]
    by (simp add: surface_op_of_def shortened_def is_surface_eligible_type_def SURFACE_EVENT_TYPES_def replace_op_def append_op_def)
  have "event_at (es @ [e]) 0 n = Some (es ! n)" using lt by (simp add: event_at_def elem_at_append elem_at_def nth_append)
  moreover have "is_deep_equal_json (tool_result_data_json d JNull) (tool_result_data_json (with_content c d) JNull)"
    using d by (simp add: content_free_json storable_def is_deep_equal_json_refl)
  ultimately have "rewrite_allowed (with_content c d) (es @ [e]) 0 n = Inr ()" using n(2) by (simp add: rewrite_allowed_def)
  then have "assert_tool_result_rewrite e [n] (es @ [e]) 0 = Inr ()"
    using e(1) by (simp add: assert_tool_result_rewrite_def shortened_def)
  with f x range cited op e(2) show ?thesis
    by (simp add: fold_window_snoc apply_surface_event_def plan_surface_event_def assert_provenance_def)
qed

lemma prune_candidate_succeeds:
  assumes cfg: "config_ok cfg" and ok: "region_ok env w" and n: "n \<in> set (log_nodes (region_log w))"
    "ev_payload (region_log w ! n) = ToolResultEvent d" and d: "storable d"
    and room: "over_budget cfg (n, d) \<Longrightarrow> int (length (region_log w)) + 1 \<le> MAX_SAFE_INTEGER"
  shows "\<exists>x. fst (prune_candidate cfg env clk n d w) = Inr x"
proof (cases rule: prune_content_cases [OF cfg, of "result_blocks d"])
  case 1
  then show ?thesis by (simp add: prune_candidate_def give_def)
next
  case (2 c)
  let ?es = "region_log w" and ?span = "prune_span (re_number_text env) n d"
  let ?mark = "append_log (clk (length ?es)) (CompactionPrune ?span) None None w"
  note safe = surface_node_safe [OF ok n(1)]
  have rm: "int (length ?es) + 1 \<le> MAX_SAFE_INTEGER" by (rule room) (use 2(1) in \<open>simp add: over_budget_def\<close>)
  obtain x where f: "fold_window 0 ?es = Inr x" using region_ok_window [OF ok] by blast
  have "\<exists>e. fst ?mark = Inr e"
  proof (rule append_log_succeeds [OF ok])
    show "append_precheck (CompactionPrune ?span) None None (rw_session w) = Inr ()"
      by (simp add: append_precheck_def opt_lossless_def assert_supported_request_header_def span_fields_def prune_span_def)
    show "is_ok (fold_window 0 (?es @ [\<lparr>ev_payload = CompactionPrune ?span, ev_seq = length ?es, ev_time = clk (length ?es),
        ev_surface_op = None, ev_sources = None, ev_ignorable = False\<rparr>]))"
      by (rule fold_window_mark [OF f]) (simp_all add: is_surface_eligible_type_def SURFACE_EVENT_TYPES_def)
  qed (use rm in simp)
  then obtain e1 w1 where a1: "?mark = (Inr e1, w1)" by (metis prod.collapse)
  note l1 = append_log_ok [OF ok a1]
  then have ok1: "region_ok env w1" and log1: "region_log w1 = ?es @ [e1]" and e1: "prune_mark env n d e1"
    by (simp_all add: prune_mark_def)
  obtain y where f1: "fold_window 0 (?es @ [e1]) = Inr y" using region_ok_window [OF ok1] log1 by auto
  have n1: "n \<in> set (log_nodes (?es @ [e1]))" "ev_payload ((?es @ [e1]) ! n) = ToolResultEvent d"
    using n log_nodes_below [OF n(1)] log_nodes_off [OF f1 prune_mark_off [OF e1]] by (simp_all add: nth_append)
  let ?put = "append_log (clk (length (region_log w1))) (ToolResultEvent (with_content c d)) (Some (replace_op n n)) (Some (seqs_json [n])) w1"
  have "\<exists>e. fst ?put = Inr e"
  proof (rule append_log_succeeds [OF ok1])
    show "append_precheck (ToolResultEvent (with_content c d)) (Some (replace_op n n)) (Some (seqs_json [n])) (rw_session w1) = Inr ()"
      using shortened_lossless [OF cfg 2(2) d]
      by (simp add: append_precheck_def opt_lossless_def assert_supported_request_header_def replace_op_def seqs_json_def)
    show "is_ok (fold_window 0 (region_log w1 @ [\<lparr>ev_payload = ToolResultEvent (with_content c d), ev_seq = length (region_log w1),
        ev_time = clk (length (region_log w1)), ev_surface_op = Some (replace_op n n), ev_sources = Some (seqs_json [n]), ev_ignorable = False\<rparr>]))"
      unfolding log1 by (rule fold_window_shortened [OF f1 n1 safe _ _ d, where c = c]) (simp_all add: shortened_def)
  qed (use rm log1 in simp)
  then obtain e2 w2 where "?put = (Inr e2, w2)" by (metis prod.collapse)
  with 2(2) a1 show ?thesis by (simp add: prune_candidate_def wrap_def and_do_def give_def)
qed

lemma prune_loop_succeeds:
  assumes "config_ok cfg" and "region_ok env w" and "still_pending (region_log w) cands" and "\<forall>(n, d) \<in> set cands. storable d"
    and "int (length (region_log w)) + 2 * int (length (filter (over_budget cfg) cands)) \<le> MAX_SAFE_INTEGER + 1"
  shows "\<exists>res. fst (prune_loop cfg env clk cands acc w) = Inr res"
  using assms(2-5)
proof (induction cands arbitrary: acc w)
  case Nil
  then show ?case by (simp add: give_def)
next
  case (Cons x rest)
  obtain n d where x: "x = (n, d)" by (cases x)
  let ?es = "region_log w"
  have n: "n \<in> set (log_nodes ?es)" "ev_payload (?es ! n) = ToolResultEvent d" using Cons.prems(2) by (simp_all add: x still_pending_def)
  have d: "storable d" using Cons.prems(3) by (simp add: x)
  have room: "int (length ?es) + 1 \<le> MAX_SAFE_INTEGER" if "over_budget cfg (n, d)" using Cons.prems(4) that by (simp add: x)
  obtain y w1 where run: "prune_candidate cfg env clk n d w = (Inr y, w1)"
    using prune_candidate_succeeds [OF assms(1) Cons.prems(1) n d room] by (metis prod.collapse)
  from Cons.prems(1) assms(1) run show ?case
  proof (cases rule: prune_candidate_cases)
    case kept
    then have "\<not> over_budget cfg x"
      using prune_content_None_iff [OF assms(1)] by (simp add: over_budget_def x)
    with Cons.IH [of w1] Cons.prems run kept still_pending_kept [of ?es x rest] show ?thesis by (simp add: x and_do_def)
  next
    case (failed err part)
    then show ?thesis by simp
  next
    case (pruned c e1 e2)
    obtain z where f: "fold_window 0 (?es @ [e1, e2]) = Inr z" using region_ok_window [OF pruned(3)] pruned(4) by auto
    have p1: "still_pending (region_log w1) rest"
      unfolding pruned(4) by (rule still_pending_pruned [OF _ f pruned(5,6)]) (use Cons.prems(2) x in simp)
    have "over_budget cfg x"
      using prune_content_None_iff [OF assms(1), of "result_blocks d"] pruned(1) by (simp add: over_budget_def x)
    with Cons.IH [OF pruned(3) p1] Cons.prems(3,4) run pruned(4) show ?thesis by (simp add: x and_do_def)
  qed
qed

section \<open>Properties\<close>

lemma in_progress_cong:
  assumes "\<And>n. n \<in> set ns \<Longrightarrow> event_delta (es' ! f n) = event_delta (es ! n)"
  shows "in_progress es' (map f ns) i = in_progress es ns i"
proof -
  have "map (\<lambda>n. event_delta (es' ! n)) (take i (map f ns)) = map (\<lambda>n. event_delta (es ! n)) (take i ns)"
    unfolding take_map map_map by (rule map_cong [OF refl]) (auto intro: assms dest: in_set_takeD)
  then show ?thesis by (simp only: in_progress_def)
qed

lemma prune_candidates_iff:
  "(n, d) \<in> set (prune_candidates es ns) \<longleftrightarrow> n \<in> set ns \<and> n < length es \<and> ev_payload (es ! n) = ToolResultEvent d"
  by (induction ns) (auto simp: prune_candidates_def elem_at_def split: payload.splits if_splits)

lemma candidates_length: "length (prune_candidates es ns) \<le> length ns"
  by (induction ns) (auto simp: prune_candidates_def split: option.splits payload.splits)

lemma find_original:
  "n \<in> pe_original ` set xs \<Longrightarrow> \<exists>x \<in> set xs. pe_original x = n \<and> renamed xs n = pe_replacement x"
  by (induction xs) (auto simp: renamed_Cons)

lemma list_all2_member: "list_all2 P xs ys \<Longrightarrow> y \<in> set ys \<Longrightarrow> \<exists>x \<in> set xs. P x y"
  by (induction rule: list_all2_induct) auto

text \<open>A node after the pass: shortened, or left alone because it was no result over the budget.\<close>

lemma renamed_node:
  assumes landed: "list_all2 (pruned_into cfg es) (filter (over_budget cfg) cands) new"
  shows "(\<exists>d c. (n, d) \<in> set cands \<and> prune_content cfg (result_blocks d) = Inr (Some c)
        \<and> ev_payload (es ! renamed new n) = ToolResultEvent (with_content c d))
    \<or> (renamed new n = n \<and> (\<forall>d. (n, d) \<in> set cands \<longrightarrow> \<not> over_budget cfg (n, d)))"
proof (cases "n \<in> pe_original ` set new")
  case True
  from find_original [OF this] obtain x where x: "x \<in> set new" "pe_original x = n" "renamed new n = pe_replacement x" by blast
  from list_all2_member [OF landed x(1)] obtain y where y: "y \<in> set (filter (over_budget cfg) cands)" "pruned_into cfg es y x" by blast
  obtain k d where "y = (k, d)" by (cases y)
  with x y show ?thesis by (auto simp: pruned_into_def entry_for_def)
next
  case False
  have "n \<notin> set (map fst (filter (over_budget cfg) cands))"
    using False unfolding pruned_originals [OF landed, symmetric] by simp
  then have "\<not> over_budget cfg (n, d)" if "(n, d) \<in> set cands" for d using that by force
  with renamed_absent [OF False] show ?thesis by blast
qed

text \<open>
  Claim C26. With sound results and sequence numbers to spare, a pass over a reachable session never fails. It appends two
  events for each result over the budget and nothing else, each such result gives way on the surface, at its
  place, to the same result with the shortened content, every result left on the surface is within the
  threshold, the count of calls in progress at every cut is what it was, and the savings reported are the sum
  over the entries.
\<close>

theorem prune_session_exact:
  fixes w :: region_world
  defines "es \<equiv> region_log w"
  assumes reach: "region_reach env w" and raw: "resolve_prune_config raw = Inr cfg"
    and sound: "\<forall>(n, d) \<in> set (prune_candidates es (log_nodes es)). storable d"
    and room: "int (length es) + 2 * int (length (log_nodes es)) \<le> MAX_SAFE_INTEGER"
  shows "\<exists>res w' fs. prune_session cfg env clk w = (Inr res, w') \<and> region_log w' = es @ fs
    \<and> length fs = 2 * length (pr_pruned res)
    \<and> list_all2 (pruned_into cfg (es @ fs)) (filter (over_budget cfg) (prune_candidates es (log_nodes es))) (pr_pruned res)
    \<and> log_nodes (es @ fs) = map (renamed (pr_pruned res)) (log_nodes es)
    \<and> (\<forall>(n, d) \<in> set (prune_candidates (es @ fs) (log_nodes (es @ fs))). measure_content (result_blocks d) \<le> threshold_chars cfg)
    \<and> (\<forall>i. in_progress (es @ fs) (log_nodes (es @ fs)) i = in_progress es (log_nodes es) i)
    \<and> pr_removed res = saved (pr_pruned res)"
proof -
  let ?ns = "log_nodes es" and ?cands = "prune_candidates es (log_nodes es)"
  have cfg: "config_ok cfg" by (rule resolved_config_ok [OF raw])
  have ok: "region_ok env w" by (rule region_reach_ok [OF reach])
  obtain r w' where run: "prune_session cfg env clk w = (r, w')" by (cases "prune_session cfg env clk w")
  from prune_session_loop [OF ok run] obtain w1 where w1: "region_ok env w1" "region_log w1 = es"
    "still_pending es ?cands" "prune_loop cfg env clk ?cands \<lparr>pr_pruned = [], pr_removed = 0\<rparr> w1 = (r, w')"
    unfolding es_def by auto
  have "length (filter (over_budget cfg) ?cands) \<le> length ?cands" by (rule length_filter_le)
  moreover have "length ?cands \<le> length ?ns" by (rule candidates_length)
  ultimately have "int (length es) + 2 * int (length (filter (over_budget cfg) ?cands)) \<le> MAX_SAFE_INTEGER + 1"
    using room by linarith
  from prune_loop_succeeds [OF cfg w1(1) _ sound, unfolded w1(2), OF w1(3) this, of clk "\<lparr>pr_pruned = [], pr_removed = 0\<rparr>"] w1(4)
  obtain res where r: "r = Inr res" by auto
  from prune_loop_done [OF cfg w1(1) _ w1(4) [unfolded r]] w1(2,3) obtain fs where
    log': "region_log w' = es @ fs" and saved: "pr_removed res = saved (pr_pruned res)"
    and landed: "length fs = 2 * length (pr_pruned res)"
      "list_all2 (pruned_into cfg (es @ fs)) (filter (over_budget cfg) ?cands) (pr_pruned res)"
      "log_nodes (es @ fs) = map (renamed (pr_pruned res)) ?ns"
    by (auto simp: pass_done_def)
  note node = renamed_node [OF landed(2)]
  have small: "measure_content (result_blocks d) \<le> threshold_chars cfg"
    if "(m, d) \<in> set (prune_candidates (es @ fs) (log_nodes (es @ fs)))" for m d
  proof -
    from that obtain n where n: "n \<in> set ?ns" "m = renamed (pr_pruned res) n" and m: "ev_payload ((es @ fs) ! m) = ToolResultEvent d"
      by (auto simp: prune_candidates_iff landed(3))
    have lt: "n < length es" by (rule log_nodes_below [OF n(1)])
    from node [of n] show ?thesis
    proof (elim disjE exE conjE)
      fix d0 c assume "prune_content cfg (result_blocks d0) = Inr (Some c)" "ev_payload ((es @ fs) ! renamed (pr_pruned res) n) = ToolResultEvent (with_content c d0)"
      with m n cfg show ?thesis
        by (cases rule: prune_content_cases [OF cfg, of "result_blocks d0"]) (auto simp: with_content_def budget_ok_def)
    next
      assume "renamed (pr_pruned res) n = n" "\<forall>d. (n, d) \<in> set ?cands \<longrightarrow> \<not> over_budget cfg (n, d)"
      with m n lt show ?thesis by (auto simp: prune_candidates_iff nth_append over_budget_def)
    qed
  qed
  have delta: "event_delta ((es @ fs) ! renamed (pr_pruned res) n) = event_delta (es ! n)" if "n \<in> set ?ns" for n
    using node [of n] log_nodes_below [OF that] by (auto simp: prune_candidates_iff event_delta_def nth_append)
  have "in_progress (es @ fs) (log_nodes (es @ fs)) i = in_progress es ?ns i" for i
    unfolding landed(3) by (rule in_progress_cong [OF delta])
  with run r log' landed small saved show ?thesis by blast
qed

text \<open>
  A pass keeps the log metered, also when an append fails in the middle of it: every replacement
  is preceded by the record of its range and price, so the bounded totals stay the price of the surface.
\<close>

theorem prune_keeps_metering:
  assumes "region_reach env w" and "resolve_prune_config raw = Inr cfg"
    and "fully_metered (re_number_text env) (region_log w)" and "prune_session cfg env clk w = (r, w')"
  shows "fully_metered (re_number_text env) (region_log w')"
proof -
  have cfg: "config_ok cfg" by (rule resolved_config_ok [OF assms(2)])
  have ok: "region_ok env w" by (rule region_reach_ok [OF assms(1)])
  from prune_session_loop [OF ok assms(4)] obtain w1 where w1: "region_ok env w1" "region_log w1 = region_log w"
    "still_pending (region_log w1) (prune_candidates (region_log w) (log_nodes (region_log w)))"
    "prune_loop cfg env clk (prune_candidates (region_log w) (log_nodes (region_log w))) \<lparr>pr_pruned = [], pr_removed = 0\<rparr> w1 = (r, w')" .
  from prune_loop_metered [OF cfg w1(1,3) _ w1(4)] w1(2) assms(3) show ?thesis by simp
qed

section \<open>A concrete pass\<close>

definition long_content :: "content_block list" where
  "long_content = [TextBlock (replicate 40 (CHR ''a'')), ImageBlock JNull, TextBlock (replicate 30 (CHR ''b''))]"

definition prune_seed :: "session_event list" where
  "prune_seed =
     [append_event (UserMessageEvent surface_user) 0,
      append_event (ToolResultEvent (surface_result long_content)) 1]"

definition prune_log :: "session_event list" where
  "prune_log = prune_seed @ [(log_event EndSeed 2)\<lparr>ev_time := 5\<rparr>]"

lemma prune_example_opens:
  obtains s where "construct_session 5 ''s'' (Some prune_seed) None SnapshotSeed None = Inr s" "session_reach s"
    "region_reach region_example_env (region_start s)" "s_log s = prune_log"
proof -
  have "is_ok (and_then (construct_session 5 ''s'' (Some prune_seed) None SnapshotSeed None)
    (\<lambda>s. reject_if (s_log s \<noteq> prune_log) SeededWithoutSeed))" by code_simp
  then obtain s where s: "construct_session 5 ''s'' (Some prune_seed) None SnapshotSeed None = Inr s" "s_log s = prune_log"
    by (auto simp: is_ok_iff and_then_Inr_iff)
  then have "session_reach s" by (intro session_reach.construct)
  moreover from this have "region_reach region_example_env (region_start s)" by (auto simp: region_reach_def region_run_def)
  ultimately show ?thesis using that s by blast
qed

theorem prune_session_exact_witness:
  "\<exists>s res w'. session_reach s \<and> prune_session small_config region_example_env int (region_start s) = (Inr res, w')
     \<and> length (region_log w') = 5 \<and> hd (log_nodes (region_log w')) = 0"
proof -
  from prune_example_opens obtain s where s: "session_reach s" "region_reach region_example_env (region_start s)" "s_log s = prune_log" .
  have log: "region_log (region_start s) = prune_log" using s(3) by (simp add: region_start_def)
  have "log_nodes prune_log = [0, 1]" by code_simp
  note ns = this
  have cands: "prune_candidates prune_log [0, 1] = [(1, surface_result long_content)]" by code_simp
  have "storable (surface_result long_content)" by code_simp
  moreover have "int (length prune_log) + 2 * int (length [0, 1 :: nat]) \<le> MAX_SAFE_INTEGER" by code_simp
  ultimately obtain res w' fs where r: "prune_session small_config region_example_env int (region_start s) = (Inr res, w')"
    "region_log w' = prune_log @ fs" "length fs = 2 * length (pr_pruned res)"
    "list_all2 (pruned_into small_config (prune_log @ fs)) (filter (over_budget small_config) [(1, surface_result long_content)]) (pr_pruned res)"
    "log_nodes (prune_log @ fs) = map (renamed (pr_pruned res)) [0, 1]"
    using prune_session_exact [OF s(2) small_budget_resolves, of int] unfolding log ns cands by auto
  have over: "over_budget small_config (1, surface_result long_content)" by code_simp
  with r(4) have one: "map pe_original (pr_pruned res) = [1]" using pruned_originals [OF r(4)] by simp
  then have "length (pr_pruned res) = 1" by (metis length_map length_Cons list.size(3) One_nat_def)
  with r(3) have "length (region_log w') = 5" by (simp add: r(2)) (simp add: prune_log_def prune_seed_def)
  moreover have "renamed (pr_pruned res) 0 = 0" by (rule renamed_absent) (use one in force)
  ultimately show ?thesis using s(1) r by (intro exI [of _ s] exI [of _ res] exI [of _ w']) simp
qed

theorem prune_keeps_metering_witness:
  "\<exists>s r w'. session_reach s \<and> prune_session small_config region_example_env int (region_start s) = (r, w')
     \<and> region_log (region_start s) \<noteq> [] \<and> fully_metered (re_number_text region_example_env) (region_log w')"
proof -
  from prune_example_opens obtain s where s: "session_reach s" "region_reach region_example_env (region_start s)" "s_log s = prune_log" .
  have "fully_metered plain_text prune_log" by code_simp
  then have m: "fully_metered (re_number_text region_example_env) (region_log (region_start s))"
    using s(3) by (simp add: region_start_def region_example_env_def)
  obtain r w' where r: "prune_session small_config region_example_env int (region_start s) = (r, w')"
    by (cases "prune_session small_config region_example_env int (region_start s)")
  from prune_keeps_metering [OF s(2) small_budget_resolves m r] s r show ?thesis
    by (intro exI [of _ s] exI [of _ r] exI [of _ w']) (simp add: region_start_def prune_log_def)
qed

end
