(* ===== verification/Turn_Usage.thy ===== *)
theory Turn_Usage
  imports Token_Projection
begin

text \<open>
  \<open>packages/llm/token-meter/src/turn-usage.ts\<close>: exact accounting of the request attempts of one turn. The
  events of the turn drive an automaton that bills an attempt where it closes; any missing boundary,
  any incomplete, unsafe or contradictory report makes the whole disclosure unavailable.
\<close>

section \<open>Normalising one report\<close>

type_synonym usage_route = "string \<times> string"

record billed_attempt =
  ba_input :: int
  ba_output :: int
  ba_total :: int
  ba_read :: "int option"
  ba_write :: "int option"
  ba_reasoning :: "int option"
  ba_route :: "usage_route option"

definition is_count :: "int \<Rightarrow> bool" where
  "is_count v \<longleftrightarrow> \<bar>v\<bar> \<le> MAX_SAFE_INTEGER \<and> v \<ge> 0"

text \<open>\<open>value !== undefined && !isCount(value)\<close>, and \<open>every(isCount)\<close>.\<close>

definition bad_count :: "int option \<Rightarrow> bool" where
  "bad_count v = (case v of None \<Rightarrow> False | Some n \<Rightarrow> \<not> is_count n)"

definition counted :: "int option \<Rightarrow> bool" where
  "counted v = (case v of None \<Rightarrow> False | Some n \<Rightarrow> is_count n)"

fun safe_sum_from :: "int \<Rightarrow> int list \<Rightarrow> int option" where
  "safe_sum_from tot [] = Some tot"
| "safe_sum_from tot (v # vs) =
     (let t = tot + v in if \<not> \<bar>t\<bar> \<le> MAX_SAFE_INTEGER then None else safe_sum_from t vs)"

definition safe_sum :: "int list \<Rightarrow> int option" where
  "safe_sum vs = safe_sum_from 0 vs"

definition message_route :: "assistant_message \<Rightarrow> usage_route option" where
  "message_route m =
     (if length (am_provider m) > 0 \<and> length (am_model m) > 0 then Some (am_provider m, am_model m) else None)"

definition present :: "int option \<Rightarrow> int list" where
  "present v = (case v of None \<Rightarrow> [] | Some n \<Rightarrow> [n])"

definition exact_total :: "token_usage \<Rightarrow> int \<Rightarrow> int option" where
  "exact_total u known_prompt =
     (case total_tokens u of
        Some tot \<Rightarrow>
          if \<not> is_count tot then None
          else let exact_prompt = tot - output_tokens u in
            if \<not> is_count exact_prompt \<or> exact_prompt < known_prompt then None
            else if cache_read_tokens u \<noteq> None \<and> cache_write_tokens u \<noteq> None \<and> exact_prompt \<noteq> known_prompt then None
            else Some tot
      | None \<Rightarrow>
          if cache_read_tokens u = None \<or> cache_write_tokens u = None then None
          else safe_sum [known_prompt, output_tokens u])"

definition normalize_usage :: "token_usage \<Rightarrow> usage_route option \<Rightarrow> billed_attempt option" where
  "normalize_usage u route =
     (if \<not> is_count (input_tokens u) \<or> \<not> is_count (output_tokens u) then None
      else if bad_count (cache_read_tokens u) then None
      else if bad_count (cache_write_tokens u) then None
      else if (case reasoning_tokens u of None \<Rightarrow> False | Some r \<Rightarrow> \<not> is_count r \<or> r > output_tokens u) then None
      else Option.bind (safe_sum ([input_tokens u] @ present (cache_read_tokens u) @ present (cache_write_tokens u))) (\<lambda>known.
           Option.bind (exact_total u known) (\<lambda>tot.
             Some \<lparr>ba_input = input_tokens u, ba_output = output_tokens u, ba_total = tot,
                   ba_read = cache_read_tokens u, ba_write = cache_write_tokens u, ba_reasoning = reasoning_tokens u,
                   ba_route = route\<rparr>)))"

section \<open>Summing the attempts\<close>

record turn_usage =
  tu_input :: int
  tu_output :: int
  tu_total :: int
  tu_read :: "int option"
  tu_write :: "int option"
  tu_reasoning :: "int option"
  tu_routes :: "usage_route list option"

definition optional_sum :: "int option list \<Rightarrow> int option" where
  "optional_sum vs = (if list_all counted vs then safe_sum (map the vs) else None)"

text \<open>The routes by their key, each at the place it was first seen.\<close>

definition unique_routes :: "usage_route list \<Rightarrow> usage_route list" where
  "unique_routes rs = map snd (fold (\<lambda>r m. omap_set (fst r @ [CHR 0x00] @ snd r) r m) rs [])"

definition aggregate_attempts :: "billed_attempt list \<Rightarrow> turn_usage option" where
  "aggregate_attempts as =
     (if as = [] then None
      else case (safe_sum (map ba_input as), safe_sum (map ba_output as), safe_sum (map ba_total as)) of
        (Some i, Some out, Some tot) \<Rightarrow>
          Some \<lparr>tu_input = i, tu_output = out, tu_total = tot,
                tu_read = optional_sum (map ba_read as), tu_write = optional_sum (map ba_write as),
                tu_reasoning = optional_sum (map ba_reasoning as),
                tu_routes = (if list_all (\<lambda>r. r \<noteq> None) (map ba_route as)
                             then Some (unique_routes (map the (map ba_route as))) else None)\<rparr>
      | _ \<Rightarrow> None)"

section \<open>The attempts of a turn\<close>

datatype settled_by = ByMessage | ByRetry

datatype attempt_state =
    Idle
  | Open int "token_usage option"
  | FinishClosed int
  | Settled int settled_by

text \<open>Every state but the idle one belongs to the turn of the fold.\<close>

record turn_fold =
  tf_state :: attempt_state
  tf_attempts :: "billed_attempt list"
  tf_turn :: "int option"
  tf_ended :: bool

definition start_fold :: turn_fold where
  "start_fold = \<lparr>tf_state = Idle, tf_attempts = [], tf_turn = None, tf_ended = False\<rparr>"

fun state_step :: "attempt_state \<Rightarrow> int option" where
  "state_step Idle = None"
| "state_step (Open s _) = Some s"
| "state_step (FinishClosed s) = Some s"
| "state_step (Settled s _) = Some s"

definition close_open :: "usage_route option \<Rightarrow> turn_fold \<Rightarrow> turn_fold option" where
  "close_open route f =
     (case tf_state f of
        Open _ (Some u) \<Rightarrow> map_option (\<lambda>a. f\<lparr>tf_attempts := tf_attempts f @ [a]\<rparr>) (normalize_usage u route)
      | _ \<Rightarrow> None)"

text \<open>The handlers, for an event of the fold's own turn; \<open>None\<close> makes the log invalid.\<close>

definition on_chunk :: "int \<Rightarrow> stream_chunk \<Rightarrow> turn_fold \<Rightarrow> turn_fold option" where
  "on_chunk s c f =
     (case tf_state f of
        Open s' u \<Rightarrow>
          if s' \<noteq> s then None
          else (case c of
                  UsageChunk v \<Rightarrow> Some (f\<lparr>tf_state := Open s (Some v)\<rparr>)
                | FinishChunk (FinishError _) _ \<Rightarrow> map_option (\<lambda>g. g\<lparr>tf_state := FinishClosed s\<rparr>) (close_open None f)
                | FinishChunk (FinishAborted _) _ \<Rightarrow> map_option (\<lambda>g. g\<lparr>tf_state := FinishClosed s\<rparr>) (close_open None f)
                | _ \<Rightarrow> Some f)
      | _ \<Rightarrow> None)"

definition on_message :: "assistant_data \<Rightarrow> turn_fold \<Rightarrow> turn_fold option" where
  "on_message d f =
     (case tf_state f of
        Open s u \<Rightarrow>
          if s \<noteq> asst_step d then None
          else let f' = (case asst_usage d of None \<Rightarrow> f | Some v \<Rightarrow> f\<lparr>tf_state := Open s (Some v)\<rparr>) in
            map_option (\<lambda>g. g\<lparr>tf_state := Settled s ByMessage\<rparr>) (close_open (message_route (asst_message d)) f')
      | _ \<Rightarrow> None)"

definition on_retry :: "turn_fold \<Rightarrow> turn_fold option" where
  "on_retry f =
     (case tf_state f of
        Idle \<Rightarrow> None
      | Settled _ _ \<Rightarrow> None
      | Open s _ \<Rightarrow> map_option (\<lambda>g. g\<lparr>tf_state := Settled s ByRetry\<rparr>) (close_open None f)
      | FinishClosed s \<Rightarrow> Some (f\<lparr>tf_state := Settled s ByRetry\<rparr>))"

definition on_retry_started :: "turn_fold \<Rightarrow> turn_fold option" where
  "on_retry_started f =
     (case tf_state f of Settled s ByRetry \<Rightarrow> Some (f\<lparr>tf_state := Open s None\<rparr>) | _ \<Rightarrow> None)"

definition on_step_end :: "turn_fold \<Rightarrow> turn_fold option" where
  "on_step_end f =
     (case tf_state f of
        Idle \<Rightarrow> None
      | Open _ _ \<Rightarrow> map_option (\<lambda>g. g\<lparr>tf_state := Idle\<rparr>) (close_open None f)
      | _ \<Rightarrow> Some (f\<lparr>tf_state := Idle\<rparr>))"

text \<open>The coordinates of a merged-in event are JSON values compared with the fold's numbers.\<close>

definition names_attempt :: "json \<Rightarrow> int \<Rightarrow> attempt_state \<Rightarrow> bool" where
  "names_attempt j turn st \<longleftrightarrow> num_is (jget ''turn'' j) turn
     \<and> (case state_step st of None \<Rightarrow> False | Some s \<Rightarrow> num_is (jget ''step'' j) s)"

definition turn_usage_event :: "session_event \<Rightarrow> turn_fold \<Rightarrow> turn_fold option" where
  "turn_usage_event e f =
     (case ev_payload e of
        TurnStart t \<Rightarrow> if tf_turn f \<noteq> None \<or> tf_state f \<noteq> Idle then None else Some (f\<lparr>tf_turn := Some t\<rparr>)
      | p \<Rightarrow>
          (case tf_turn f of
             None \<Rightarrow> None
           | Some turn \<Rightarrow>
               (case p of
                  TurnEnd t _ \<Rightarrow>
                    if t \<noteq> turn \<or> tf_state f \<noteq> Idle \<or> tf_ended f then None else Some (f\<lparr>tf_ended := True\<rparr>)
                | _ \<Rightarrow>
                    if tf_ended f then None
                    else (case p of
                       StepStart t s \<Rightarrow> if t \<noteq> turn \<or> tf_state f \<noteq> Idle then None else Some (f\<lparr>tf_state := Open s None\<rparr>)
                     | AssistantChunk t s c \<Rightarrow> if t \<noteq> turn then None else on_chunk s c f
                     | AssistantMessageEvent d \<Rightarrow> if asst_turn d \<noteq> turn then None else on_message d f
                     | StepEnd t s \<Rightarrow>
                         if t \<noteq> turn \<or> state_step (tf_state f) \<noteq> Some s then None else on_step_end f
                     | OtherEvent ty j \<Rightarrow>
                         if ty = ''llm/retry-started'' then (if names_attempt j turn (tf_state f) then on_retry_started f else None)
                         else if ty = ''llm/retry'' then (if names_attempt j turn (tf_state f) then on_retry f else None)
                         else Some f
                     | _ \<Rightarrow> Some f))))"

primrec run_events :: "(session_event \<Rightarrow> turn_fold \<Rightarrow> turn_fold option) \<Rightarrow> session_event list \<Rightarrow> turn_fold \<Rightarrow> turn_fold option" where
  "run_events h [] f = Some f"
| "run_events h (e # es) f = Option.bind (h e f) (run_events h es)"

definition derive_turn_token_usage :: "session_event list \<Rightarrow> turn_usage option" where
  "derive_turn_token_usage es =
     Option.bind (run_events turn_usage_event es start_fold) (\<lambda>f.
       if \<not> tf_ended f \<or> tf_state f \<noteq> Idle then None else aggregate_attempts (tf_attempts f))"

section \<open>Exact sums\<close>

lemma safe_sum_from_nonneg:
  assumes "\<forall>v \<in> set vs. 0 \<le> v" and "0 \<le> t" and "t \<le> MAX_SAFE_INTEGER"
  shows "safe_sum_from t vs = (if t + sum_list vs \<le> MAX_SAFE_INTEGER then Some (t + sum_list vs) else None)"
  using assms
proof (induction vs arbitrary: t)
  case (Cons v vs)
  have nn: "0 \<le> sum_list vs" using Cons.prems(1) by (intro sum_list_nonneg) auto
  show ?case
  proof (cases "t + v \<le> MAX_SAFE_INTEGER")
    case True
    with Cons show ?thesis by (simp add: Let_def algebra_simps)
  next
    case False
    with Cons.prems nn show ?thesis by (auto simp: Let_def)
  qed
qed simp

lemma safe_sum_counts:
  "\<forall>v \<in> set vs. 0 \<le> v \<Longrightarrow> safe_sum vs = (if sum_list vs \<le> MAX_SAFE_INTEGER then Some (sum_list vs) else None)"
  using safe_sum_from_nonneg [of vs 0] by (simp add: safe_sum_def MAX_SAFE_INTEGER_def)

definition billed_ok :: "billed_attempt \<Rightarrow> bool" where
  "billed_ok a \<longleftrightarrow> 0 \<le> ba_input a \<and> 0 \<le> ba_output a
     \<and> (\<forall>v \<in> set_option (ba_read a) \<union> set_option (ba_write a) \<union> set_option (ba_reasoning a). is_count v)
     \<and> ba_input a + opt_count (ba_read a) + opt_count (ba_write a) + ba_output a \<le> ba_total a
     \<and> (ba_read a \<noteq> None \<and> ba_write a \<noteq> None \<longrightarrow>
          ba_input a + opt_count (ba_read a) + opt_count (ba_write a) + ba_output a = ba_total a)
     \<and> opt_count (ba_reasoning a) \<le> ba_output a"

lemma normalize_usage_ok:
  assumes "normalize_usage u route = Some a"
  shows "billed_ok a"
    and "ba_input a = input_tokens u" "ba_output a = output_tokens u" "ba_read a = cache_read_tokens u"
      "ba_write a = cache_write_tokens u" "ba_reasoning a = reasoning_tokens u" "ba_route a = route"
proof -
  from assms obtain known tot where c: "is_count (input_tokens u)" "is_count (output_tokens u)"
      "\<not> bad_count (cache_read_tokens u)" "\<not> bad_count (cache_write_tokens u)"
      "\<not> (case reasoning_tokens u of None \<Rightarrow> False | Some r \<Rightarrow> \<not> is_count r \<or> r > output_tokens u)"
    and known: "safe_sum ([input_tokens u] @ present (cache_read_tokens u) @ present (cache_write_tokens u)) = Some known"
    and tot: "exact_total u known = Some tot"
    and a: "a = \<lparr>ba_input = input_tokens u, ba_output = output_tokens u, ba_total = tot,
      ba_read = cache_read_tokens u, ba_write = cache_write_tokens u, ba_reasoning = reasoning_tokens u, ba_route = route\<rparr>"
    by (auto simp: normalize_usage_def bind_eq_Some_conv split: if_splits)
  have nn: "\<forall>v \<in> set ([input_tokens u] @ present (cache_read_tokens u) @ present (cache_write_tokens u)). 0 \<le> v"
    using c(1,3,4) by (auto simp: present_def bad_count_def is_count_def split: option.splits)
  have k: "known = input_tokens u + opt_count (cache_read_tokens u) + opt_count (cache_write_tokens u)"
    using known [unfolded safe_sum_counts [OF nn]] by (auto simp: present_def opt_count_def split: option.splits if_splits)
  have t: "known + output_tokens u \<le> tot \<and> (cache_read_tokens u \<noteq> None \<and> cache_write_tokens u \<noteq> None \<longrightarrow> known + output_tokens u = tot)"
  proof (cases "total_tokens u")
    case None
    have "\<forall>v \<in> set [known, output_tokens u]. 0 \<le> v"
      using c(2) nn k by (auto simp: is_count_def present_def opt_count_def split: option.splits)
    with None tot show ?thesis by (auto simp: exact_total_def safe_sum_counts split: if_splits)
  next
    case (Some n)
    with tot show ?thesis by (auto simp: exact_total_def Let_def split: if_splits)
  qed
  show "billed_ok a" unfolding billed_ok_def
    using c k t by (auto simp: a bad_count_def is_count_def opt_count_def split: option.splits)
qed (use assms in \<open>auto simp: normalize_usage_def bind_eq_Some_conv split: if_splits\<close>)

lemma sum_list_le: "(\<And>x. x \<in> set xs \<Longrightarrow> f x \<le> (g x :: int)) \<Longrightarrow> (\<Sum>x\<leftarrow>xs. f x) \<le> (\<Sum>x\<leftarrow>xs. g x)"
  by (induction xs) (simp_all add: add_mono)

text \<open>An optional sum is the plain sum when every attempt reported the bucket: it cannot pass the safe range.\<close>

lemma optional_sum_exact:
  assumes bound: "\<And>a. a \<in> set as \<Longrightarrow> opt_count (f a) \<le> g a" and safe: "(\<Sum>a\<leftarrow>as. g a) \<le> MAX_SAFE_INTEGER"
    and ok: "\<And>a v. a \<in> set as \<Longrightarrow> f a = Some v \<Longrightarrow> is_count v"
  shows "optional_sum (map f as) = (if \<forall>a \<in> set as. f a \<noteq> None then Some (\<Sum>a\<leftarrow>as. opt_count (f a)) else None)"
proof (cases "\<forall>a \<in> set as. f a \<noteq> None")
  case True
  then have all: "list_all counted (map f as)" using ok by (auto simp: list_all_iff counted_def)
  have vs: "map (the \<circ> f) as = map (\<lambda>a. opt_count (f a)) as" using True by (auto simp: opt_count_def)
  have "(\<Sum>a\<leftarrow>as. opt_count (f a)) \<le> MAX_SAFE_INTEGER" using sum_list_le [of as "\<lambda>a. opt_count (f a)" g] bound safe by simp
  moreover have "\<forall>v \<in> set (map (\<lambda>a. opt_count (f a)) as). 0 \<le> v"
    using ok by (auto simp: opt_count_def is_count_def split: option.splits)
  ultimately show ?thesis using True all by (simp add: optional_sum_def vs safe_sum_counts)
next
  case False
  then have "\<not> list_all counted (map f as)" by (force simp: list_all_iff counted_def)
  with False show ?thesis by (simp add: optional_sum_def)
qed

lemma billed_ok_bounds:
  assumes "billed_ok a"
  shows "0 \<le> ba_input a" "0 \<le> ba_output a" "ba_input a + opt_count (ba_read a) + opt_count (ba_write a) + ba_output a \<le> ba_total a"
    "0 \<le> opt_count (ba_read a)" "0 \<le> opt_count (ba_write a)" "0 \<le> opt_count (ba_reasoning a)" "opt_count (ba_reasoning a) \<le> ba_output a"
    "0 \<le> ba_total a" "opt_count (ba_read a) \<le> ba_total a" "opt_count (ba_write a) \<le> ba_total a"
proof -
  show p: "0 \<le> ba_input a" "0 \<le> ba_output a" "0 \<le> opt_count (ba_read a)" "0 \<le> opt_count (ba_write a)" "0 \<le> opt_count (ba_reasoning a)"
    and t: "ba_input a + opt_count (ba_read a) + opt_count (ba_write a) + ba_output a \<le> ba_total a"
    and "opt_count (ba_reasoning a) \<le> ba_output a"
    using assms by (auto simp: billed_ok_def opt_count_def is_count_def split: option.splits)
  from p t show "0 \<le> ba_total a" "opt_count (ba_read a) \<le> ba_total a" "opt_count (ba_write a) \<le> ba_total a" by linarith+
qed

definition total_of :: "(billed_attempt \<Rightarrow> int) \<Rightarrow> billed_attempt list \<Rightarrow> int" where
  "total_of f as = (\<Sum>a\<leftarrow>as. f a)"

lemma aggregate_exact:
  assumes ok: "\<forall>a \<in> set as. billed_ok a" and agg: "aggregate_attempts as = Some u"
  shows "tu_input u = total_of ba_input as \<and> tu_output u = total_of ba_output as \<and> tu_total u = total_of ba_total as"
    and "tu_read u = (if \<forall>a \<in> set as. ba_read a \<noteq> None then Some (total_of (opt_count \<circ> ba_read) as) else None)"
    and "tu_write u = (if \<forall>a \<in> set as. ba_write a \<noteq> None then Some (total_of (opt_count \<circ> ba_write) as) else None)"
    and "tu_reasoning u = (if \<forall>a \<in> set as. ba_reasoning a \<noteq> None then Some (total_of (opt_count \<circ> ba_reasoning) as) else None)"
proof -
  note b = billed_ok_bounds [OF bspec [OF ok]]
  have ss: "safe_sum (map f as) = (if total_of f as \<le> MAX_SAFE_INTEGER then Some (total_of f as) else None)"
    if "\<And>a. a \<in> set as \<Longrightarrow> 0 \<le> f a" for f
    unfolding total_of_def by (rule safe_sum_counts) (use that in auto)
  from agg have u: "total_of ba_input as \<le> MAX_SAFE_INTEGER" "total_of ba_output as \<le> MAX_SAFE_INTEGER" "total_of ba_total as \<le> MAX_SAFE_INTEGER"
    "tu_input u = total_of ba_input as" "tu_output u = total_of ba_output as" "tu_total u = total_of ba_total as"
    "tu_read u = optional_sum (map ba_read as)" "tu_write u = optional_sum (map ba_write as)" "tu_reasoning u = optional_sum (map ba_reasoning as)"
    by (auto simp: aggregate_attempts_def ss [OF b(1)] ss [OF b(2)] ss [OF b(8)] split: if_splits)
  from u(4-6) show "tu_input u = total_of ba_input as \<and> tu_output u = total_of ba_output as \<and> tu_total u = total_of ba_total as" by simp
  have c: "is_count v" if "a \<in> set as" "ba_read a = Some v \<or> ba_write a = Some v \<or> ba_reasoning a = Some v" for a v
    using ok that by (auto simp: billed_ok_def)
  show "tu_read u = (if \<forall>a \<in> set as. ba_read a \<noteq> None then Some (total_of (opt_count \<circ> ba_read) as) else None)"
    unfolding u(7) using optional_sum_exact [of as ba_read ba_total] b(9) u(3) c by (simp add: total_of_def comp_def)
  show "tu_write u = (if \<forall>a \<in> set as. ba_write a \<noteq> None then Some (total_of (opt_count \<circ> ba_write) as) else None)"
    unfolding u(8) using optional_sum_exact [of as ba_write ba_total] b(10) u(3) c by (simp add: total_of_def comp_def)
  show "tu_reasoning u = (if \<forall>a \<in> set as. ba_reasoning a \<noteq> None then Some (total_of (opt_count \<circ> ba_reasoning) as) else None)"
    unfolding u(9) using optional_sum_exact [of as ba_reasoning ba_output] b(7) u(2) c by (simp add: total_of_def comp_def)
qed

lemma attempts_bounds:
  assumes "\<forall>a \<in> set as. billed_ok a"
  shows "total_of ba_input as + total_of (opt_count \<circ> ba_read) as + total_of (opt_count \<circ> ba_write) as + total_of ba_output as \<le> total_of ba_total as"
    and "0 \<le> total_of (opt_count \<circ> ba_read) as" "0 \<le> total_of (opt_count \<circ> ba_write) as"
    and "\<forall>a \<in> set as. ba_read a \<noteq> None \<Longrightarrow> \<forall>a \<in> set as. ba_write a \<noteq> None \<Longrightarrow>
      total_of ba_input as + total_of (opt_count \<circ> ba_read) as + total_of (opt_count \<circ> ba_write) as + total_of ba_output as = total_of ba_total as"
  using assms
proof (induction as)
  case (Cons a as)
  note b = billed_ok_bounds [of a]
  case 1
  with Cons.IH(1) b show ?case by (simp add: total_of_def)
  case 2
  with Cons.IH(2) b show ?case by (simp add: total_of_def)
  case 3
  with Cons.IH(3) b show ?case by (simp add: total_of_def)
  case 4
  with Cons.IH(4) show ?case by (simp add: total_of_def billed_ok_def)
qed (simp_all add: total_of_def)

section \<open>One event\<close>

definition begun_step :: "session_event \<Rightarrow> int option" where
  "begun_step e = (case ev_payload e of StepStart _ s \<Rightarrow> Some s | _ \<Rightarrow> None)"

text \<open>The route a final message bills its attempt to, for an event that is one.\<close>

definition message_of :: "session_event \<Rightarrow> usage_route option option" where
  "message_of e = (case ev_payload e of AssistantMessageEvent d \<Rightarrow> Some (message_route (asst_message d)) | _ \<Rightarrow> None)"

fun is_open :: "attempt_state \<Rightarrow> bool" where
  "is_open (Open _ _) = True"
| "is_open _ = False"

text \<open>What an accepted event of the turn does: nothing to the attempts, opening one, sampling it, billing
  it, or moving on from a billed one.\<close>

lemma turn_usage_event_cases:
  assumes run: "turn_usage_event e f = Some f'" and t: "tf_turn f = Some t"
  obtains (ignored) "usage_mark e = None" "f' = f \<or> f' = f\<lparr>tf_ended := True\<rparr>" "begun_step e = None" "message_of e = None"
  | (started) s where "ev_payload e = StepStart t s" "tf_state f = Idle" "f' = f\<lparr>tf_state := Open s None\<rparr>"
  | (retried) s j where "ev_payload e = OtherEvent ''llm/retry-started'' j" "num_is (jget ''turn'' j) t" "num_is (jget ''step'' j) s"
      "tf_state f = Settled s ByRetry" "f' = f\<lparr>tf_state := Open s None\<rparr>"
  | (sampled) s u v where "ev_payload e = AssistantChunk t s (UsageChunk v)" "tf_state f = Open s u" "f' = f\<lparr>tf_state := Open s (Some v)\<rparr>"
  | (billed) s u route a st where "usage_mark e = None" "begun_step e = None" "tf_state f = Open s (Some u)"
      "normalize_usage u route = Some a" "st = Idle \<or> state_step st = Some s" "\<not> is_open st"
      "f' = f\<lparr>tf_state := st, tf_attempts := tf_attempts f @ [a]\<rparr>" "route = (case message_of e of Some r \<Rightarrow> r | None \<Rightarrow> None)"
  | (message) s u v route a where "usage_mark e = Some (UsageMark t s v)" "begun_step e = None" "usage_of e = Some v"
      "tf_state f = Open s u" "normalize_usage v route = Some a"
      "f' = f\<lparr>tf_state := Settled s ByMessage, tf_attempts := tf_attempts f @ [a]\<rparr>" "message_of e = Some route"
  | (moved) st where "usage_mark e = None" "begun_step e = None" "\<not> is_open (tf_state f)" "\<not> is_open st"
      "st = Idle \<or> state_step st = state_step (tf_state f)" "f' = f\<lparr>tf_state := st\<rparr>"
      "message_of e = None"
proof -
  have plain: thesis if "usage_mark e = None \<and> (f' = f \<or> f' = f\<lparr>tf_ended := True\<rparr>) \<and> begun_step e = None \<and> message_of e = None"
    using that by (elim conjE) (rule ignored; assumption)
  show ?thesis
proof (cases "ev_payload e")
  case (StepStart t' s)
  with run t started show ?thesis by (simp add: turn_usage_event_def split: if_splits)
next
  case (AssistantChunk t' s c)
  with run t have *: "t' = t" "on_chunk s c f = Some f'" by (simp_all add: turn_usage_event_def split: if_splits)
  then obtain u where st: "tf_state f = Open s u" by (auto simp: on_chunk_def split: attempt_state.splits if_splits)
  have closing: ?thesis if m: "usage_mark e = None" "map_option (\<lambda>g. g\<lparr>tf_state := FinishClosed s\<rparr>) (close_open None f) = Some f'"
  proof -
    from m(2) st obtain u' a where "u = Some u'" "normalize_usage u' None = Some a"
      "f' = f\<lparr>tf_attempts := tf_attempts f @ [a], tf_state := FinishClosed s\<rparr>"
      by (auto simp: close_open_def split: option.splits)
    with m(1) st AssistantChunk show ?thesis by (intro billed [of s u' None a "FinishClosed s"]) (simp_all add: begun_step_def message_of_def)
  qed
  show ?thesis
  proof (cases c)
    case (UsageChunk v)
    with * st AssistantChunk sampled show ?thesis by (simp add: on_chunk_def)
  next
    case (FinishChunk r env)
    with * st AssistantChunk closing ignored show ?thesis
      by (cases r) (auto simp: on_chunk_def usage_mark_def begun_step_def message_of_def)
  qed (use * st AssistantChunk ignored in \<open>simp_all add: on_chunk_def usage_mark_def begun_step_def message_of_def\<close>)
next
  case (AssistantMessageEvent d)
  with run t have *: "asst_turn d = t" "on_message d f = Some f'" by (simp_all add: turn_usage_event_def split: if_splits)
  then obtain u where st: "tf_state f = Open (asst_step d) u" by (auto simp: on_message_def split: attempt_state.splits if_splits)
  show ?thesis
  proof (cases "asst_usage d")
    case None
    with *(2) st obtain u' a where "u = Some u'" "normalize_usage u' (message_route (asst_message d)) = Some a"
      "f' = f\<lparr>tf_attempts := tf_attempts f @ [a], tf_state := Settled (asst_step d) ByMessage\<rparr>"
      by (auto simp: on_message_def close_open_def split: option.splits)
    with None st AssistantMessageEvent show ?thesis
      by (intro billed [of "asst_step d" u' "message_route (asst_message d)" a "Settled (asst_step d) ByMessage"]) (simp_all add: usage_mark_def begun_step_def message_of_def)
  next
    case (Some v)
    with *(2) st obtain a where "normalize_usage v (message_route (asst_message d)) = Some a"
      "f' = f\<lparr>tf_state := Settled (asst_step d) ByMessage, tf_attempts := tf_attempts f @ [a]\<rparr>"
      by (auto simp: on_message_def close_open_def Let_def split: option.splits)
    with Some * st AssistantMessageEvent show ?thesis
      by (intro message [of "asst_step d" v u "message_route (asst_message d)" a]) (simp_all add: usage_mark_def begun_step_def message_of_def usage_of_def)
  qed
next
  case (StepEnd t' s)
  with run t have *: "state_step (tf_state f) = Some s" "on_step_end f = Some f'" by (simp_all add: turn_usage_event_def split: if_splits)
  have m: "usage_mark e = None" using StepEnd by (simp add: usage_mark_def begun_step_def message_of_def)
  show ?thesis
  proof (cases "tf_state f")
    case (Open s' u)
    with * obtain u' a where "u = Some u'" "normalize_usage u' None = Some a" "f' = f\<lparr>tf_attempts := tf_attempts f @ [a], tf_state := Idle\<rparr>"
      by (auto simp: on_step_end_def close_open_def split: option.splits)
    with m Open StepEnd show ?thesis by (intro billed [of s' u' None a Idle]) (simp_all add: begun_step_def message_of_def)
  qed (use * m StepEnd moved [of Idle] in \<open>simp_all add: on_step_end_def begun_step_def message_of_def\<close>)
next
  case (OtherEvent ty j)
  show ?thesis
  proof (cases "ty = ''llm/retry-started''")
    case True
    with run t OtherEvent have *: "names_attempt j t (tf_state f)" "on_retry_started f = Some f'"
      by (simp_all add: turn_usage_event_def split: if_splits)
    then obtain s where "tf_state f = Settled s ByRetry" "f' = f\<lparr>tf_state := Open s None\<rparr>"
      by (auto simp: on_retry_started_def split: attempt_state.splits settled_by.splits)
    with * True OtherEvent show ?thesis by (intro retried [of j s]) (simp_all add: names_attempt_def)
  next
    case False
    then have m: "usage_mark e = None" using OtherEvent by (simp add: usage_mark_def begun_step_def message_of_def)
    show ?thesis
    proof (cases "ty = ''llm/retry''")
      case True
      with run t OtherEvent have *: "names_attempt j t (tf_state f)" "on_retry f = Some f'"
        by (simp_all add: turn_usage_event_def split: if_splits)
      show ?thesis
      proof (cases "tf_state f")
        case (Open s' u)
        with * obtain u' a where "u = Some u'" "normalize_usage u' None = Some a" "f' = f\<lparr>tf_attempts := tf_attempts f @ [a], tf_state := Settled s' ByRetry\<rparr>"
          by (auto simp: on_retry_def close_open_def split: option.splits)
        with m Open OtherEvent show ?thesis by (intro billed [of s' u' None a "Settled s' ByRetry"]) (simp_all add: begun_step_def message_of_def)
      next
        case (FinishClosed s')
        with * m OtherEvent show ?thesis by (intro moved [of "Settled s' ByRetry"]) (simp_all add: on_retry_def begun_step_def message_of_def)
      qed (use * in \<open>simp_all add: on_retry_def\<close>)
    next
      case other: False
      with False run t OtherEvent m show ?thesis by (intro ignored) (simp_all add: turn_usage_event_def begun_step_def message_of_def split: if_splits)
    qed
  qed
qed (rule plain, use run t in \<open>simp add: turn_usage_event_def usage_mark_def begun_step_def message_of_def split: if_splits\<close>)+
qed

section \<open>Every attempt is billed once\<close>

definition opens_attempt :: "session_event \<Rightarrow> bool" where
  "opens_attempt e = (case ev_payload e of StepStart _ _ \<Rightarrow> True | OtherEvent ty _ \<Rightarrow> ty = ''llm/retry-started'' | _ \<Rightarrow> False)"

text \<open>What happens from one opening of an attempt to the next, and how that determines what is billed:
  the last report, a final message's usage or a usage chunk, under the route of the final
  message if there is one.\<close>

fun attempt_segments :: "session_event list \<Rightarrow> session_event list list" where
  "attempt_segments [] = []"
| "attempt_segments (e # es) =
     (if opens_attempt e then takeWhile (\<lambda>x. \<not> opens_attempt x) es # attempt_segments es else attempt_segments es)"

definition segment_route :: "session_event list \<Rightarrow> usage_route option" where
  "segment_route seg = (case List.map_filter message_of seg of [] \<Rightarrow> None | r # _ \<Rightarrow> r)"

definition bills :: "session_event list \<Rightarrow> billed_attempt \<Rightarrow> bool" where
  "bills seg a \<longleftrightarrow> (\<exists>v. last_opt (List.map_filter usage_of seg) = Some v \<and> normalize_usage v (segment_route seg) = Some a)"

lemma length_attempt_segments: "length (attempt_segments es) = length (filter opens_attempt es)"
  by (induction es) simp_all

lemma attempt_segments_Nil: "attempt_segments es = [] \<longleftrightarrow> (\<forall>e \<in> set es. \<not> opens_attempt e)"
  by (induction es) auto

lemma attempt_segments_open: "opens_attempt e \<Longrightarrow> attempt_segments (es @ [e]) = attempt_segments es @ [[]]"
proof (induction es)
  case (Cons x es)
  have "takeWhile (\<lambda>x. \<not> opens_attempt x) (es @ [e]) = takeWhile (\<lambda>x. \<not> opens_attempt x) es"
    using Cons.prems by (cases "\<forall>y \<in> set es. \<not> opens_attempt y") (auto simp: takeWhile_append takeWhile_eq_all_conv [THEN iffD2, symmetric])
  with Cons show ?case by simp
qed simp

lemma attempt_segments_extend:
  assumes "\<not> opens_attempt e" and "attempt_segments es = ss @ [cur]"
  shows "attempt_segments (es @ [e]) = ss @ [cur @ [e]]"
  using assms(2)
proof (induction es arbitrary: ss)
  case (Cons x es)
  show ?case
  proof (cases "opens_attempt x")
    case False
    with Cons show ?thesis by simp
  next
    case True
    show ?thesis
    proof (cases "\<forall>y \<in> set es. \<not> opens_attempt y")
      case none: True
      then have "attempt_segments es = []" "attempt_segments (es @ [e]) = []"
        using assms(1) by (simp_all add: attempt_segments_Nil)
      moreover have "takeWhile (\<lambda>x. \<not> opens_attempt x) es = es" "takeWhile (\<lambda>x. \<not> opens_attempt x) (es @ [e]) = es @ [e]"
        using none assms(1) by (simp_all add: takeWhile_eq_all_conv)
      ultimately show ?thesis using True Cons.prems by (simp only: attempt_segments.simps append_Cons if_True) simp
    next
      case False
      then have "attempt_segments es \<noteq> []" by (simp add: attempt_segments_Nil)
      with True Cons.prems obtain ss' where ss: "ss = takeWhile (\<lambda>x. \<not> opens_attempt x) es # ss'" "attempt_segments es = ss' @ [cur]"
        by (cases ss) auto
      have "takeWhile (\<lambda>x. \<not> opens_attempt x) (es @ [e]) = takeWhile (\<lambda>x. \<not> opens_attempt x) es" using False by auto
      with Cons.IH [OF ss(2)] True ss(1) show ?thesis by simp
    qed
  qed
qed simp

lemma attempt_segments_none: "\<not> opens_attempt e \<Longrightarrow> attempt_segments es = [] \<Longrightarrow> attempt_segments (es @ [e]) = []"
  by (simp add: attempt_segments_Nil)

text \<open>An event that reports nothing and is no final message changes nothing.\<close>

lemma bills_silent: "usage_of e = None \<Longrightarrow> message_of e = None \<Longrightarrow> bills (seg @ [e]) a \<longleftrightarrow> bills seg a"
  by (simp add: bills_def segment_route_def map_filter_snoc)

text \<open>The segment of an attempt still open has its sample as the last report, and no final message.\<close>

definition accounted :: "session_event list \<Rightarrow> turn_fold \<Rightarrow> bool" where
  "accounted es f \<longleftrightarrow> (\<exists>t. tf_turn f = Some t)
     \<and> (case tf_state f of
          Open _ u \<Rightarrow> (\<exists>ss cur. attempt_segments es = ss @ [cur] \<and> list_all2 bills ss (tf_attempts f)
            \<and> last_opt (List.map_filter usage_of cur) = u \<and> List.map_filter message_of cur = [])
        | _ \<Rightarrow> list_all2 bills (attempt_segments es) (tf_attempts f))"

lemma accounted_closed:
  "\<not> is_open (tf_state f) \<Longrightarrow> accounted es f \<longleftrightarrow> (\<exists>t. tf_turn f = Some t) \<and> list_all2 bills (attempt_segments es) (tf_attempts f)"
  by (cases "tf_state f") (simp_all add: accounted_def)

lemma accounted_open:
  assumes "accounted es f" and "tf_state f = Open s u"
  obtains ss cur where "attempt_segments es = ss @ [cur]" "list_all2 bills ss (tf_attempts f)"
    "last_opt (List.map_filter usage_of cur) = u" "List.map_filter message_of cur = []"
  using assms by (auto simp: accounted_def)

lemma run_events_snoc: "run_events h (es @ [e]) f = Option.bind (run_events h es f) (h e)"
proof (induction es arbitrary: f)
  case Nil
  then show ?case by (cases "h e f") simp_all
next
  case (Cons x es)
  then show ?case by (cases "h x f") simp_all
qed

lemma opens_attempt_mark:
  "begun_step e = None \<Longrightarrow> usage_mark e = None \<or> (\<exists>t s u. usage_mark e = Some (UsageMark t s u)) \<Longrightarrow> \<not> opens_attempt e"
  by (cases "ev_payload e") (auto simp: opens_attempt_def usage_mark_def begun_step_def)

lemma unmarked_unreported: "usage_mark e = None \<Longrightarrow> usage_of e = None"
  by (cases "ev_payload e") (auto simp: usage_mark_def usage_of_def split: stream_chunk.splits if_splits)

lemma silent_segments:
  assumes "\<not> opens_attempt e" and "usage_of e = None" and "message_of e = None"
    and "list_all2 bills (attempt_segments es) as"
  shows "list_all2 bills (attempt_segments (es @ [e])) as"
proof (cases "attempt_segments es" rule: rev_cases)
  case Nil
  with assms show ?thesis by (simp add: attempt_segments_none)
next
  case (snoc ss cur)
  with assms(4) bills_silent [OF assms(2,3)] show ?thesis
    unfolding attempt_segments_extend [OF assms(1) snoc] by (auto simp: list_all2_append1 list_all2_Cons1)
qed

text \<open>Closing the open attempt bills its sample, unless the closing event brings a newer one.\<close>

lemma accounted_bill:
  assumes acc: "accounted es f" and f: "tf_state f = Open s u" and e: "\<not> opens_attempt e"
    and v: "(case usage_of e of Some v' \<Rightarrow> Some v' | None \<Rightarrow> u) = Some v"
    and a: "normalize_usage v (case message_of e of Some r \<Rightarrow> r | None \<Rightarrow> None) = Some a"
  shows "list_all2 bills (attempt_segments (es @ [e])) (tf_attempts f @ [a])"
proof -
  from accounted_open [OF acc f] obtain ss cur where c: "attempt_segments es = ss @ [cur]" "list_all2 bills ss (tf_attempts f)"
    "last_opt (List.map_filter usage_of cur) = u" "List.map_filter message_of cur = []" .
  have "last_opt (List.map_filter usage_of (cur @ [e])) = Some v"
    using v c(3) by (cases "usage_of e") (simp_all add: map_filter_snoc last_opt_def)
  moreover have "segment_route (cur @ [e]) = (case message_of e of Some r \<Rightarrow> r | None \<Rightarrow> None)"
    using c(4) by (cases "message_of e") (simp_all add: segment_route_def map_filter_snoc)
  ultimately have "bills (cur @ [e]) a" using a by (simp add: bills_def)
  with c(2) show ?thesis unfolding attempt_segments_extend [OF e c(1)] by (simp add: list_all2_appendI)
qed

lemma accounted_step:
  assumes acc: "accounted es f" and run: "turn_usage_event e f = Some f'"
  shows "accounted (es @ [e]) f'"
proof -
  from acc obtain t where t: "tf_turn f = Some t" by (auto simp: accounted_def)
  from run t show ?thesis
  proof (cases rule: turn_usage_event_cases)
    case ignored
    have e: "\<not> opens_attempt e" using ignored opens_attempt_mark [of e] by simp
    have u: "usage_of e = None" by (rule unmarked_unreported [OF ignored(1)])
    have same: "tf_state f' = tf_state f" "tf_attempts f' = tf_attempts f" "tf_turn f' = tf_turn f" using ignored(2) by auto
    show ?thesis
    proof (cases "tf_state f")
      case (Open s v)
      from accounted_open [OF acc Open] obtain ss cur where c: "attempt_segments es = ss @ [cur]" "list_all2 bills ss (tf_attempts f)"
        "last_opt (List.map_filter usage_of cur) = v" "List.map_filter message_of cur = []" .
      then show ?thesis using attempt_segments_extend [OF e c(1)] u ignored(4) t
        by (simp add: accounted_def same Open map_filter_snoc)
    qed (use acc t silent_segments [OF e u ignored(4)] in \<open>simp_all add: accounted_def same\<close>)
  next
    case (started s)
    then have "opens_attempt e" by (simp add: opens_attempt_def)
    with acc started t show ?thesis by (simp add: accounted_def attempt_segments_open last_opt_def map_filter_simps)
  next
    case (retried s j)
    then have "opens_attempt e" by (simp add: opens_attempt_def)
    with acc retried t show ?thesis by (simp add: accounted_def attempt_segments_open last_opt_def map_filter_simps)
  next
    case (sampled s u v)
    have e: "\<not> opens_attempt e" "usage_of e = Some v" "message_of e = None"
      using sampled(1) by (simp_all add: opens_attempt_def usage_of_def message_of_def)
    from accounted_open [OF acc sampled(2)] obtain ss cur where c: "attempt_segments es = ss @ [cur]" "list_all2 bills ss (tf_attempts f)"
      "last_opt (List.map_filter usage_of cur) = u" "List.map_filter message_of cur = []" .
    then show ?thesis using attempt_segments_extend [OF e(1) c(1)] e t sampled(3)
      by (simp add: accounted_def map_filter_snoc last_opt_def)
  next
    case (billed s u route a st)
    have e: "\<not> opens_attempt e" using billed opens_attempt_mark [of e] by simp
    have "list_all2 bills (attempt_segments (es @ [e])) (tf_attempts f @ [a])"
      using billed(4,8) unmarked_unreported [OF billed(1)] by (intro accounted_bill [OF acc billed(3) e]) simp_all
    with billed t show ?thesis by (cases st) (simp_all add: accounted_def)
  next
    case (message s u v route a)
    have e: "\<not> opens_attempt e" using message opens_attempt_mark [of e] by simp
    have "list_all2 bills (attempt_segments (es @ [e])) (tf_attempts f @ [a])"
      using message(3,5,7) by (intro accounted_bill [OF acc message(4) e]) simp_all
    with message t show ?thesis by (simp add: accounted_def)
  next
    case (moved st)
    have e: "\<not> opens_attempt e" using moved opens_attempt_mark [of e] by simp
    have "list_all2 bills (attempt_segments (es @ [e])) (tf_attempts f)"
      using acc moved silent_segments [OF e unmarked_unreported [OF moved(1)] moved(7)] by (simp add: accounted_closed)
    with moved t show ?thesis by (simp add: accounted_closed)
  qed
qed

lemma accounted_run:
  "run_events turn_usage_event es f = Some f' \<Longrightarrow> accounted pre f \<Longrightarrow> accounted (pre @ es) f'"
proof (induction es arbitrary: f pre)
  case (Cons e es)
  then obtain f1 where f1: "turn_usage_event e f = Some f1" "run_events turn_usage_event es f1 = Some f'"
    by (auto simp: bind_eq_Some_conv)
  from Cons.IH [OF f1(2) accounted_step [OF Cons.prems(2) f1(1)]] show ?case by simp
qed simp

lemma derive_starts:
  assumes "run_events turn_usage_event es start_fold = Some f" and "tf_ended f"
  obtains e rest t where "es = e # rest" "ev_payload e = TurnStart t"
    "run_events turn_usage_event rest (start_fold\<lparr>tf_turn := Some t\<rparr>) = Some f"
proof (cases es)
  case Nil
  with assms show ?thesis by (auto simp: start_fold_def)
next
  case (Cons e rest)
  then obtain f1 where f1: "turn_usage_event e start_fold = Some f1" "run_events turn_usage_event rest f1 = Some f"
    using assms(1) by (auto simp: bind_eq_Some_conv)
  show ?thesis
  proof (cases "\<exists>t. ev_payload e = TurnStart t")
    case True
    with f1 Cons that show ?thesis by (auto simp: turn_usage_event_def start_fold_def)
  next
    case False
    then have "turn_usage_event e start_fold = None"
      by (cases "ev_payload e") (simp_all add: turn_usage_event_def start_fold_def)
    with f1 show ?thesis by simp
  qed
qed

lemma derive_attempts:
  assumes "derive_turn_token_usage es = Some u"
  obtains f where "run_events turn_usage_event es start_fold = Some f" "tf_ended f" "tf_state f = Idle"
    "aggregate_attempts (tf_attempts f) = Some u" "list_all2 bills (attempt_segments es) (tf_attempts f)" "\<forall>a \<in> set (tf_attempts f). billed_ok a"
proof -
  from assms obtain f where f: "run_events turn_usage_event es start_fold = Some f" "tf_ended f" "tf_state f = Idle"
    "aggregate_attempts (tf_attempts f) = Some u" by (auto simp: derive_turn_token_usage_def bind_eq_Some_conv split: if_splits)
  from derive_starts [OF f(1,2)] obtain e rest t where s: "es = e # rest" "ev_payload e = TurnStart t"
    "run_events turn_usage_event rest (start_fold\<lparr>tf_turn := Some t\<rparr>) = Some f" .
  have "accounted [e] (start_fold\<lparr>tf_turn := Some t\<rparr>)"
    using s(2) by (simp add: accounted_def start_fold_def opens_attempt_def)
  from accounted_run [OF s(3) this] have acc: "accounted es f" using s(1) by simp
  then have "list_all2 bills (attempt_segments es) (tf_attempts f)" using f(3) by (simp add: accounted_def)
  then have "\<forall>a \<in> set (tf_attempts f). billed_ok a"
    using normalize_usage_ok(1) by (fastforce simp: list_all2_conv_all_nth in_set_conv_nth bills_def)
  with f \<open>list_all2 bills _ _\<close> show ?thesis by (intro that) auto
qed

text \<open>
  Claim C27. A disclosed usage is exact. The attempts billed are, in order, those the turn opened: each opening up to the
  next bills exactly one attempt, from the last report made there, whether a usage chunk or the final message's
  usage, under the route of the final message if there was one. Input, output and total are the sums over the attempts, a
  cache or reasoning bucket is present exactly when every attempt reported it and is then the plain sum, never
  lost to overflow, the routes are disclosed when every attempt has one; prompt and output together never exceed the
  total, and they make it up when both cache buckets are present.
\<close>

theorem turn_usage_exact:
  assumes "derive_turn_token_usage es = Some u"
  shows "\<exists>as. list_all2 bills (attempt_segments es) as \<and> as \<noteq> [] \<and> length as = length (filter opens_attempt es)
    \<and> tu_input u = total_of ba_input as \<and> tu_output u = total_of ba_output as \<and> tu_total u = total_of ba_total as
    \<and> tu_read u = (if \<forall>a \<in> set as. ba_read a \<noteq> None then Some (total_of (opt_count \<circ> ba_read) as) else None)
    \<and> tu_write u = (if \<forall>a \<in> set as. ba_write a \<noteq> None then Some (total_of (opt_count \<circ> ba_write) as) else None)
    \<and> tu_reasoning u = (if \<forall>a \<in> set as. ba_reasoning a \<noteq> None then Some (total_of (opt_count \<circ> ba_reasoning) as) else None)
    \<and> (tu_routes u \<noteq> None \<longleftrightarrow> (\<forall>a \<in> set as. ba_route a \<noteq> None))
    \<and> tu_input u + opt_count (tu_read u) + opt_count (tu_write u) + tu_output u \<le> tu_total u
    \<and> (tu_read u \<noteq> None \<and> tu_write u \<noteq> None \<longrightarrow>
         tu_input u + opt_count (tu_read u) + opt_count (tu_write u) + tu_output u = tu_total u)"
proof -
  from derive_attempts [OF assms] obtain f where run: "run_events turn_usage_event es start_fold = Some f" "tf_ended f"
    and f: "tf_state f = Idle" "aggregate_attempts (tf_attempts f) = Some u"
      "list_all2 bills (attempt_segments es) (tf_attempts f)" "\<forall>a \<in> set (tf_attempts f). billed_ok a" .
  let ?as = "tf_attempts f"
  note agg = aggregate_exact [OF f(4,2)]
  note bounds = attempts_bounds [OF f(4)]
  have "?as \<noteq> []" using f(2) by (auto simp: aggregate_attempts_def)
  moreover have "length ?as = length (filter opens_attempt es)"
    using list_all2_lengthD [OF f(3)] by (simp add: length_attempt_segments)
  moreover have "tu_routes u \<noteq> None \<longleftrightarrow> (\<forall>a \<in> set ?as. ba_route a \<noteq> None)"
    using f(2) by (auto simp: aggregate_attempts_def list_all_iff split: option.splits if_splits)
  ultimately show ?thesis using f(3) agg bounds
    by (intro exI [of _ ?as]) (auto simp: opt_count_def)
qed

section \<open>Agreement with the usage projection\<close>

definition attempt_buckets :: "billed_attempt \<Rightarrow> usage_buckets" where
  "attempt_buckets a = \<lparr>bk_input = ba_input a, bk_output = ba_output a,
     bk_read = opt_count (ba_read a), bk_write = opt_count (ba_write a)\<rparr>"

definition billed_buckets :: "billed_attempt list \<Rightarrow> usage_buckets" where
  "billed_buckets as = \<lparr>bk_input = total_of ba_input as, bk_output = total_of ba_output as,
     bk_read = total_of (opt_count \<circ> ba_read) as, bk_write = total_of (opt_count \<circ> ba_write) as\<rparr>"

definition open_buckets :: "attempt_state \<Rightarrow> usage_buckets" where
  "open_buckets st = (case st of Open _ (Some u) \<Rightarrow> buckets_from u | _ \<Rightarrow> zero_buckets)"

lemma billed_buckets_snoc: "billed_buckets (as @ [a]) = add_buckets (billed_buckets as) (attempt_buckets a)"
  by (simp add: billed_buckets_def attempt_buckets_def add_buckets_def total_of_def)

lemma normalized_buckets: "normalize_usage u route = Some a \<Longrightarrow> attempt_buckets a = buckets_from u"
  by (simp add: attempt_buckets_def buckets_from_def normalize_usage_ok)

lemma open_buckets_closed: "\<not> is_open st \<Longrightarrow> open_buckets st = zero_buckets"
  by (cases st) (simp_all add: open_buckets_def)

text \<open>The projection's last report is the sample of the open attempt, and never one of a step still to come.\<close>

definition coupled :: "usage_buckets \<Rightarrow> int \<Rightarrow> int set \<Rightarrow> turn_fold \<Rightarrow> usage_state \<Rightarrow> bool" where
  "coupled base t begun f st \<longleftrightarrow> tf_turn f = Some t
     \<and> us_totals st = add_buckets base (add_buckets (billed_buckets (tf_attempts f)) (open_buckets (tf_state f)))
     \<and> (\<forall>s. tf_state f = Open s None \<longrightarrow> (\<forall>b. us_last st \<noteq> Some (t, s, b)))
     \<and> (\<forall>s u. tf_state f = Open s (Some u) \<longrightarrow> us_last st = Some (t, s, buckets_from u))
     \<and> (\<forall>s b. us_last st = Some (t, s, b) \<longrightarrow> s \<in> begun)
     \<and> (\<forall>s. state_step (tf_state f) = Some s \<longrightarrow> s \<in> begun)"

text \<open>A report for the open attempt takes the place of its earlier sample.\<close>

lemma apply_usage_report:
  assumes c: "coupled base t begun f st" and f: "tf_state f = Open s u" and m: "usage_mark e = Some (UsageMark t s v)"
  shows "us_totals (apply_usage e st) = add_buckets base (add_buckets (billed_buckets (tf_attempts f)) (buckets_from v))
    \<and> us_last (apply_usage e st) = Some (t, s, buckets_from v)"
proof (cases u)
  case None
  with c f have "us_totals st = add_buckets base (add_buckets (billed_buckets (tf_attempts f)) zero_buckets)"
    "\<forall>b. us_last st \<noteq> Some (t, s, b)" by (simp_all add: coupled_def open_buckets_def)
  with m show ?thesis
    by (auto simp: apply_usage_def Let_def add_replacing_def add_buckets_def zero_buckets_def split: option.splits)
next
  case (Some u')
  with c f have "us_totals st = add_buckets base (add_buckets (billed_buckets (tf_attempts f)) (buckets_from u'))"
    "us_last st = Some (t, s, buckets_from u')" by (simp_all add: coupled_def open_buckets_def)
  with m show ?thesis by (auto simp: apply_usage_def Let_def add_replacing_def add_buckets_def)
qed

lemma coupled_step:
  assumes c: "coupled base t begun f st" and run: "turn_usage_event e f = Some f'"
    and fresh: "\<And>s. begun_step e = Some s \<Longrightarrow> s \<notin> begun"
  shows "coupled base t (begun \<union> set_option (begun_step e)) f' (apply_usage e st)"
proof -
  have t: "tf_turn f = Some t" using c by (simp add: coupled_def)
  have quiet: "apply_usage e st = st" if "usage_mark e = None" using that by (simp add: apply_usage_def)
  from run t show ?thesis
  proof (cases rule: turn_usage_event_cases)
    case ignored
    from ignored(2) show ?thesis unfolding quiet [OF ignored(1)]
      by (elim disjE) (use c ignored(3) in \<open>simp_all add: coupled_def\<close>)
  next
    case (started s)
    then have "usage_mark e = None" "begun_step e = Some s" by (simp_all add: usage_mark_def begun_step_def)
    with c started quiet fresh [of s] show ?thesis by (auto simp: coupled_def open_buckets_def)
  next
    case (retried s j)
    have m: "usage_mark e = Some (RetryMark (jget ''turn'' j) (jget ''step'' j))" using retried by (simp add: usage_mark_def)
    have "us_totals (apply_usage e st) = us_totals st" "\<forall>b. us_last (apply_usage e st) \<noteq> Some (t, s, b)"
      "\<forall>x. us_last (apply_usage e st) = Some x \<longrightarrow> us_last st = Some x"
      using retried(2,3) by (auto simp: apply_usage_def m split: option.splits)
    with c retried show ?thesis by (auto simp: coupled_def open_buckets_def)
  next
    case (sampled s u v)
    then have m: "usage_mark e = Some (UsageMark t s v)" by (simp add: usage_mark_def)
    from apply_usage_report [OF c sampled(2) m] c sampled show ?thesis
      by (auto simp: coupled_def open_buckets_def)
  next
    case (billed s u route a state)
    have "us_totals st = add_buckets base (billed_buckets (tf_attempts f @ [a]))"
      using c billed(3) normalized_buckets [OF billed(4)] by (simp add: coupled_def open_buckets_def billed_buckets_snoc)
    with c billed quiet open_buckets_closed [of state] show ?thesis
      by (cases state) (auto simp: coupled_def buckets_laws)
  next
    case (message s u v route a)
    from apply_usage_report [OF c message(4,1)] c message normalized_buckets [OF message(5)]
    show ?thesis by (auto simp: coupled_def billed_buckets_snoc open_buckets_def buckets_laws)
  next
    case (moved state)
    with c quiet open_buckets_closed [of state] open_buckets_closed [of "tf_state f"] show ?thesis
      by (cases state; cases "tf_state f") (auto simp: coupled_def)
  qed
qed

lemma coupled_run:
  assumes "run_events turn_usage_event es f = Some f'" and "coupled base t begun f st"
    and "distinct (List.map_filter begun_step es)" and "begun \<inter> set (List.map_filter begun_step es) = {}"
  shows "\<exists>begun'. coupled base t begun' f' (fold apply_usage es st)"
  using assms
proof (induction es arbitrary: f st begun)
  case Nil
  then show ?case by auto
next
  case (Cons e es)
  then obtain f1 where f1: "turn_usage_event e f = Some f1" "run_events turn_usage_event es f1 = Some f'"
    by (auto simp: bind_eq_Some_conv)
  have fresh: "s \<notin> begun" if "begun_step e = Some s" for s using Cons.prems(4) that by (auto simp: map_filter_simps)
  note c1 = coupled_step [OF Cons.prems(2) f1(1) fresh]
  have "distinct (List.map_filter begun_step es)"
    "(begun \<union> set_option (begun_step e)) \<inter> set (List.map_filter begun_step es) = {}"
    using Cons.prems(3,4) by (auto simp: map_filter_simps split: option.splits)
  from Cons.IH [OF f1(2) c1 this] show ?case by simp
qed

text \<open>
  Where a turn's usage is disclosed and no step number is used twice, the live usage projection of the same
  events counts exactly the same: its input and output grow by the disclosed sums, and so does a cache
  bucket the disclosure has.
\<close>

theorem turn_usage_agrees_with_projection:
  assumes u: "derive_turn_token_usage es = Some u" and steps: "distinct (List.map_filter begun_step es)"
    and before: "\<And>t s b. ev_payload (hd es) = TurnStart t \<Longrightarrow> us_last st \<noteq> Some (t, s, b)"
  shows "let now = us_totals (fold apply_usage es st) in
    bk_input now = bk_input (us_totals st) + tu_input u \<and> bk_output now = bk_output (us_totals st) + tu_output u
    \<and> (\<forall>r. tu_read u = Some r \<longrightarrow> bk_read now = bk_read (us_totals st) + r)
    \<and> (\<forall>r. tu_write u = Some r \<longrightarrow> bk_write now = bk_write (us_totals st) + r)"
proof -
  from derive_attempts [OF u] obtain f where f: "run_events turn_usage_event es start_fold = Some f" "tf_ended f" "tf_state f = Idle"
    "aggregate_attempts (tf_attempts f) = Some u" "\<forall>a \<in> set (tf_attempts f). billed_ok a" .
  from derive_starts [OF f(1,2)] obtain e rest t where s: "es = e # rest" "ev_payload e = TurnStart t"
    "run_events turn_usage_event rest (start_fold\<lparr>tf_turn := Some t\<rparr>) = Some f" .
  have "apply_usage e st = st" "begun_step e = None" using s(2) by (simp_all add: apply_usage_def usage_mark_def begun_step_def)
  moreover have "coupled (us_totals st) t {} (start_fold\<lparr>tf_turn := Some t\<rparr>) st"
    using before [of t] s(1,2)
    by (simp add: coupled_def start_fold_def open_buckets_def billed_buckets_def total_of_def add_buckets_def zero_buckets_def)
  ultimately obtain begun where "coupled (us_totals st) t begun f (fold apply_usage es st)"
    using coupled_run [OF s(3), of "us_totals st" t "{}" st] steps by (auto simp: s(1) map_filter_simps)
  then have "us_totals (fold apply_usage es st) = add_buckets (us_totals st) (billed_buckets (tf_attempts f))"
    using f(3) by (simp add: coupled_def open_buckets_def buckets_laws)
  with aggregate_exact [OF f(5,4)] show ?thesis
    by (auto simp: Let_def add_buckets_def billed_buckets_def split: if_splits)
qed

section \<open>A concrete turn\<close>

definition full_usage :: "int \<Rightarrow> int \<Rightarrow> int \<Rightarrow> token_usage" where
  "full_usage i r out = \<lparr>input_tokens = i, output_tokens = out, total_tokens = None, cache_read_tokens = Some r,
     cache_write_tokens = Some 0, reasoning_tokens = None\<rparr>"

text \<open>A step whose first attempt fails and is retried, and whose second attempt is answered.\<close>

definition retried_turn :: "session_event list" where
  "retried_turn =
     [log_event (TurnStart 1) 0, log_event (StepStart 1 1) 1,
      log_event (AssistantChunk 1 1 (UsageChunk (full_usage 4 1 0))) 2,
      log_event (AssistantChunk 1 1 (UsageChunk (full_usage 10 2 0))) 3,
      log_event (OtherEvent ''llm/retry'' (JObj [(''turn'', jint 1), (''step'', jint 1)])) 4,
      log_event (OtherEvent ''llm/retry-started'' (JObj [(''turn'', jint 1), (''step'', jint 1)])) 5,
      log_event (AssistantChunk 1 1 (UsageChunk (full_usage 10 2 3))) 6,
      log_event (AssistantMessageEvent \<lparr>asst_turn = 1, asst_step = 1,
        asst_message = \<lparr>am_id = ''a'', am_content = [], am_provider = ''p'', am_model = ''m'', am_replay = None\<rparr>,
        asst_usage = Some (full_usage 10 2 5), asst_interrupted = False\<rparr>) 7,
      log_event (StepEnd 1 1) 8, log_event (TurnEnd 1 Completed) 9]"

definition retried_turn_usage :: turn_usage where
  "retried_turn_usage = \<lparr>tu_input = 20, tu_output = 5, tu_total = 29, tu_read = Some 4, tu_write = Some 0,
     tu_reasoning = None, tu_routes = None\<rparr>"

lemma retried_turn_derives: "derive_turn_token_usage retried_turn = Some retried_turn_usage"
  by code_simp

text \<open>The first attempt reported twice, the second by a chunk and by its message: the last one counts.\<close>

theorem turn_usage_exact_witness:
  "derive_turn_token_usage retried_turn = Some retried_turn_usage
   \<and> (\<exists>a b. list_all2 bills (attempt_segments retried_turn) [a, b]
        \<and> ba_input a = 10 \<and> ba_output b = 5 \<and> ba_route b = Some (''p'', ''m'')
        \<and> tu_input retried_turn_usage = ba_input a + ba_input b \<and> tu_output retried_turn_usage = ba_output a + ba_output b)"
proof -
  from turn_usage_exact [OF retried_turn_derives] obtain as where as: "list_all2 bills (attempt_segments retried_turn) as"
    "length as = length (filter opens_attempt retried_turn)"
    "tu_input retried_turn_usage = total_of ba_input as" "tu_output retried_turn_usage = total_of ba_output as" by auto
  have "length (filter opens_attempt retried_turn) = Suc (Suc 0)" by code_simp
  with as(2) obtain a b where ab: "as = [a, b]" by (auto simp: length_Suc_conv)
  have "map (\<lambda>seg. (last_opt (List.map_filter usage_of seg), segment_route seg)) (attempt_segments retried_turn) =
      [(Some (full_usage 10 2 0), None), (Some (full_usage 10 2 5), Some (''p'', ''m''))]" by code_simp
  then obtain s1 s2 where s: "attempt_segments retried_turn = [s1, s2]"
    "last_opt (List.map_filter usage_of s1) = Some (full_usage 10 2 0)"
    "last_opt (List.map_filter usage_of s2) = Some (full_usage 10 2 5)" "segment_route s2 = Some (''p'', ''m'')"
    by (auto simp: map_eq_Cons_conv)
  have "bills s1 a" "bills s2 b" using as(1) unfolding s(1) ab by simp_all
  then have "ba_input a = 10" "ba_output b = 5" "ba_route b = Some (''p'', ''m'')"
    using s(2-4) by (auto simp: bills_def normalize_usage_ok full_usage_def)
  with as ab retried_turn_derives show ?thesis by (intro conjI exI [of _ a] exI [of _ b]) (simp_all add: total_of_def)
qed

theorem turn_usage_agrees_with_projection_witness:
  "bk_input (us_totals (fold apply_usage retried_turn init_usage)) = 20
   \<and> bk_read (us_totals (fold apply_usage retried_turn init_usage)) = 4"
proof -
  have "distinct (List.map_filter begun_step retried_turn)" by code_simp
  from turn_usage_agrees_with_projection [OF retried_turn_derives this, of init_usage] show ?thesis
    by (simp add: Let_def retried_turn_usage_def init_usage_def zero_buckets_def)
qed

end
