(* ===== verification/Retry_Policy.thy ===== *)
theory Retry_Policy
  imports Token_Estimate
begin

text \<open>
  \<open>packages/llm/llm/src/retry-policy.ts\<close>: a provider's retry configuration, defaulted and validated. A
  configuration is a JSON object, as a settings file gives it; its numbers are finite, so the tests
  for infinity never fail here.
\<close>

section \<open>Numbers\<close>

fun jnum_rat :: "jnum \<Rightarrow> rat" where
  "jnum_rat (JInt i) = of_int i"
| "jnum_rat JNegZero = 0"
| "jnum_rat (JFrac q) = q"

definition rat_jnum :: "rat \<Rightarrow> jnum" where
  "rat_jnum q = (if of_int \<lfloor>q\<rfloor> = q then JInt \<lfloor>q\<rfloor> else JFrac q)"

lemma jnum_rat_rat_jnum [simp]: "jnum_rat (rat_jnum q) = q"
  by (simp add: rat_jnum_def)

definition MAX_TIMER_DELAY_MS :: int where
  "MAX_TIMER_DELAY_MS = 2147483647"

section \<open>Policies\<close>

record backoff =
  initial_delay_ms :: rat
  max_delay_ms :: rat
  jitter_ratio :: rat

datatype retry_policy =
    NormalRetry nat "string list" backoff
  | AlwaysRetry backoff

fun policy_backoff :: "retry_policy \<Rightarrow> backoff" where
  "policy_backoff (NormalRetry _ _ b) = b"
| "policy_backoff (AlwaysRetry b) = b"

definition DEFAULT_MAX_RETRIES :: nat where
  "DEFAULT_MAX_RETRIES = 5"

definition DEFAULT_RETRYABLE_CODES :: "string list" where
  "DEFAULT_RETRYABLE_CODES = [''EMPTY_RESPONSE'', ''RATE_LIMIT'', ''SERVER'', ''TIMEOUT'', ''TRANSPORT'']"

definition default_initial :: json where
  "default_initial = jint 500"

definition default_max :: json where
  "default_max = jint 10000"

definition default_jitter :: json where
  "default_jitter = JNum (JFrac (1 / 10))"

definition POLICY_KEYS :: "string list" where
  "POLICY_KEYS = [''mode'', ''maxRetries'', ''retryableCodes'', ''backoff'']"

definition BACKOFF_KEYS :: "string list" where
  "BACKOFF_KEYS = [''initialDelayMs'', ''maxDelayMs'', ''jitterRatio'']"

datatype retry_config_error =
    UnknownRetryKey string
  | InitialDelayOutOfRange json
  | MaxDelayOutOfRange json
  | InitialOverMax rat rat
  | JitterOutOfRange json
  | MaxRetriesInvalid json
  | CodesNotArray json
  | CodesEmpty
  | CodesNotStrings
  | CodesDuplicate
  | BadRetryMode "json option"

definition validate_keys :: "(string \<times> json) list \<Rightarrow> string list \<Rightarrow> (retry_config_error, unit) result" where
  "validate_keys kvs allowed =
     (case find (\<lambda>kv. fst kv \<notin> set allowed) kvs of Some (k, _) \<Rightarrow> Inl (UnknownRetryKey k) | None \<Rightarrow> Inr ())"

text \<open>\<open>value ?? fallback\<close>\<close>

definition nullish :: "json option \<Rightarrow> json \<Rightarrow> json" where
  "nullish v fallback = (case v of None \<Rightarrow> fallback | Some JNull \<Rightarrow> fallback | Some j \<Rightarrow> j)"

text \<open>The number a value is, if it is one.\<close>

definition number_of :: "json \<Rightarrow> rat option" where
  "number_of j = (case j of JNum n \<Rightarrow> Some (jnum_rat n) | _ \<Rightarrow> None)"

definition in_range :: "(rat \<Rightarrow> bool) \<Rightarrow> json \<Rightarrow> 'e \<Rightarrow> ('e, rat) result" where
  "in_range ok v err = (case number_of v of Some q \<Rightarrow> if ok q then Inr q else Inl err | None \<Rightarrow> Inl err)"

definition resolve_backoff :: "(string \<times> json) list option \<Rightarrow> (retry_config_error, backoff) result" where
  "resolve_backoff config =
     (let kvs = (case config of None \<Rightarrow> [] | Some m \<Rightarrow> m);
          initial = nullish (map_of kvs ''initialDelayMs'') default_initial;
          maximum = nullish (map_of kvs ''maxDelayMs'') default_max;
          jitter = nullish (map_of kvs ''jitterRatio'') default_jitter;
          timer = (\<lambda>q. \<not> q \<le> 0 \<and> \<not> q > of_int MAX_TIMER_DELAY_MS)
      in and_then (validate_keys kvs BACKOFF_KEYS) (\<lambda>_.
         and_then (in_range timer initial (InitialDelayOutOfRange initial)) (\<lambda>i.
         and_then (in_range timer maximum (MaxDelayOutOfRange maximum)) (\<lambda>m.
         and_then (reject_if (i > m) (InitialOverMax i m)) (\<lambda>_.
         and_then (in_range (\<lambda>q. \<not> q < 0 \<and> \<not> q > 1) jitter (JitterOutOfRange jitter)) (\<lambda>r.
           Inr \<lparr>initial_delay_ms = i, max_delay_ms = m, jitter_ratio = r\<rparr>))))))"

definition resolve_max_retries :: "json \<Rightarrow> (retry_config_error, nat) result" where
  "resolve_max_retries v =
     (case v of
        JNum n \<Rightarrow> if \<not> is_safe_integer n \<or> jnum_int n < 0 then Inl (MaxRetriesInvalid v) else Inr (nat (jnum_int n))
      | _ \<Rightarrow> Inl (MaxRetriesInvalid v))"

definition resolve_codes :: "json \<Rightarrow> (retry_config_error, string list) result" where
  "resolve_codes v =
     (case v of
        JArr xs \<Rightarrow>
          and_then (reject_if (length xs = 0) CodesEmpty) (\<lambda>_.
          and_then (reject_if (list_ex (\<lambda>x. \<not> is_jstr x \<or> length (str_of x) = 0) xs) CodesNotStrings) (\<lambda>_.
          and_then (reject_if (card (set (map str_of xs)) \<noteq> length xs) CodesDuplicate) (\<lambda>_. Inr (map str_of xs))))
      | _ \<Rightarrow> Inl (CodesNotArray v))"

text \<open>The backoff object of a configuration; the declared type leaves it out or gives an object.\<close>

definition backoff_config :: "(string \<times> json) list \<Rightarrow> (string \<times> json) list option" where
  "backoff_config kvs = (case map_of kvs ''backoff'' of Some (JObj m) \<Rightarrow> Some m | _ \<Rightarrow> None)"

definition resolve_retry_policy :: "(string \<times> json) list option \<Rightarrow> (retry_config_error, retry_policy) result" where
  "resolve_retry_policy config =
     (case config of
        None \<Rightarrow> and_then (resolve_backoff None) (\<lambda>b. Inr (NormalRetry DEFAULT_MAX_RETRIES DEFAULT_RETRYABLE_CODES b))
      | Some kvs \<Rightarrow>
          if map_of kvs ''mode'' = Some (JStr ''normal'') then
            and_then (validate_keys kvs POLICY_KEYS) (\<lambda>_.
            let retries = nullish (map_of kvs ''maxRetries'') (jint (int DEFAULT_MAX_RETRIES));
                codes = nullish (map_of kvs ''retryableCodes'') (JArr (map JStr DEFAULT_RETRYABLE_CODES))
            in and_then (resolve_max_retries retries) (\<lambda>n.
               and_then (resolve_codes codes) (\<lambda>cs.
               and_then (resolve_backoff (backoff_config kvs)) (\<lambda>b. Inr (NormalRetry n cs b)))))
          else if map_of kvs ''mode'' = Some (JStr ''always'') then
            and_then (validate_keys kvs POLICY_KEYS) (\<lambda>_.
            and_then (resolve_backoff (backoff_config kvs)) (\<lambda>b. Inr (AlwaysRetry b)))
          else Inl (BadRetryMode (map_of kvs ''mode'')))"

section \<open>A resolved policy is within bounds\<close>

definition backoff_ok :: "backoff \<Rightarrow> bool" where
  "backoff_ok b \<longleftrightarrow> 0 < initial_delay_ms b \<and> initial_delay_ms b \<le> max_delay_ms b
     \<and> max_delay_ms b \<le> of_int MAX_TIMER_DELAY_MS \<and> 0 \<le> jitter_ratio b \<and> jitter_ratio b \<le> 1"

definition policy_ok :: "retry_policy \<Rightarrow> bool" where
  "policy_ok p \<longleftrightarrow> backoff_ok (policy_backoff p)
     \<and> (case p of
          NormalRetry n codes _ \<Rightarrow> int n \<le> MAX_SAFE_INTEGER \<and> codes \<noteq> [] \<and> [] \<notin> set codes \<and> distinct codes
        | AlwaysRetry _ \<Rightarrow> True)"

lemma in_range_Inr_iff: "in_range ok v err = Inr q \<longleftrightarrow> number_of v = Some q \<and> ok q"
  by (auto simp: in_range_def split: option.splits)

lemma resolve_backoff_ok: "resolve_backoff c = Inr b \<Longrightarrow> backoff_ok b"
  by (auto simp: resolve_backoff_def Let_def and_then_Inr_iff in_range_Inr_iff backoff_ok_def not_less)

lemma resolve_codes_ok:
  assumes "resolve_codes v = Inr cs"
  shows "cs \<noteq> [] \<and> [] \<notin> set cs \<and> distinct cs"
proof -
  from assms obtain xs where xs: "cs = map str_of xs" "xs \<noteq> []" "\<not> list_ex (\<lambda>x. \<not> is_jstr x \<or> length (str_of x) = 0) xs"
    "card (set (map str_of xs)) = length xs" by (auto simp: resolve_codes_def and_then_Inr_iff split: json.splits)
  then have "card (set cs) = length cs" by simp
  then have "distinct cs" by (rule card_distinct)
  moreover have "[] \<notin> set cs" using xs(1,3) by (auto simp: list_ex_iff)
  ultimately show ?thesis using xs(1,2) by simp
qed

lemma resolve_max_retries_ok: "resolve_max_retries v = Inr n \<Longrightarrow> int n \<le> MAX_SAFE_INTEGER"
  by (cases v) (auto simp: resolve_max_retries_def MAX_SAFE_INTEGER_def split: if_splits elim!: is_safe_integer.elims)

lemma resolve_retry_policy_ok:
  assumes "resolve_retry_policy config = Inr p"
  shows "policy_ok p"
proof -
  have "int DEFAULT_MAX_RETRIES \<le> MAX_SAFE_INTEGER" "distinct DEFAULT_RETRYABLE_CODES"
    "DEFAULT_RETRYABLE_CODES \<noteq> []" "[] \<notin> set DEFAULT_RETRYABLE_CODES"
    by (simp_all add: DEFAULT_MAX_RETRIES_def MAX_SAFE_INTEGER_def DEFAULT_RETRYABLE_CODES_def)
  with assms show ?thesis
    by (auto simp: resolve_retry_policy_def policy_ok_def and_then_Inr_iff Let_def resolve_backoff_ok
        resolve_codes_ok resolve_max_retries_ok split: option.splits if_splits)
qed

text \<open>
  Every configuration that resolves gives a policy within its bounds: delays are positive, ordered and
  short enough for a timer, the jitter is a ratio, a bounded policy has a safe retry count and a
  non-empty list of distinct non-empty codes; leaving the configuration out is accepted.
\<close>

theorem resolved_policy_ok:
  "is_ok (resolve_retry_policy None) \<and> (\<forall>config p. resolve_retry_policy config = Inr p \<longrightarrow> policy_ok p)"
proof
  show "is_ok (resolve_retry_policy None)" by code_simp
qed (use resolve_retry_policy_ok in blast)

theorem resolved_policy_ok_witness:
  "policy_ok (projr (resolve_retry_policy (Some [(''mode'', JStr ''always''), (''backoff'', JObj [(''maxDelayMs'', jint 500)])])))"
proof -
  have "is_ok (resolve_retry_policy (Some [(''mode'', JStr ''always''), (''backoff'', JObj [(''maxDelayMs'', jint 500)])]))"
    by code_simp
  then obtain p where "resolve_retry_policy (Some [(''mode'', JStr ''always''), (''backoff'', JObj [(''maxDelayMs'', jint 500)])]) = Inr p"
    by (auto simp: is_ok_iff)
  with resolved_policy_ok show ?thesis by simp
qed

end
