(* ===== verification/Llm_Retry.thy ===== *)
theory Llm_Retry
  imports Retry_Policy Session_Trace Session_Projection Token_Projection
begin

text \<open>
  \<open>packages/llm/llm-retry/src\<close>: the executor of retry policies, its projection unit, and the companion that
  checks the retry events of a log. The data of both events are JSON values, as the companion reads them;
  where a handler relies on their declared type the model decodes it and ignores other data. Floating-point
  rounding is the argument \<open>rnd\<close>.
\<close>

section \<open>The events\<close>

record retry_data =
  rd_id :: string
  rd_turn :: int
  rd_step :: int
  rd_provider :: string
  rd_max :: "nat option"
  rd_key :: string
  rd_retry :: nat
  rd_delay :: rat
  rd_failure :: llm_failure

text \<open>\<open>maxRetries\<close> is there in normal mode only.\<close>

definition retry_json :: "retry_data \<Rightarrow> json" where
  "retry_json d =
     JObj ([(''retryId'', JStr (rd_id d)), (''turn'', jint (rd_turn d)), (''step'', jint (rd_step d)),
            (''provider'', JStr (rd_provider d)),
            (''mode'', JStr (case rd_max d of Some _ \<Rightarrow> ''normal'' | None \<Rightarrow> ''always'')),
            (''policyKey'', JStr (rd_key d)), (''retry'', jint (int (rd_retry d)))]
       @ opt_field ''maxRetries'' (map_option (\<lambda>n. jint (int n)) (rd_max d))
       @ [(''delayMs'', JNum (rat_jnum (rd_delay d))), (''failure'', failure_json (rd_failure d))])"

definition started_json :: "retry_data \<Rightarrow> json" where
  "started_json d =
     JObj [(''retryId'', JStr (rd_id d)), (''turn'', jint (rd_turn d)), (''step'', jint (rd_step d)),
           (''retry'', jint (int (rd_retry d)))]"

definition scheduled :: "session_event \<Rightarrow> json option" where
  "scheduled e = (case ev_payload e of OtherEvent t j \<Rightarrow> if t = ''llm/retry'' then Some j else None | _ \<Rightarrow> None)"

definition started :: "session_event \<Rightarrow> json option" where
  "started e = (case ev_payload e of OtherEvent t j \<Rightarrow> if t = ''llm/retry-started'' then Some j else None | _ \<Rightarrow> None)"

section \<open>The projection of the retries of a step\<close>

definition retry_policy_key :: "(jnum \<Rightarrow> string) \<Rightarrow> retry_policy \<Rightarrow> string" where
  "retry_policy_key nt p =
     (let b = policy_backoff p;
          tail = [JNum (rat_jnum (initial_delay_ms b)), JNum (rat_jnum (max_delay_ms b)), JNum (rat_jnum (jitter_ratio b))]
      in case p of
        AlwaysRetry _ \<Rightarrow> json_text nt (JArr (JStr ''always'' # tail))
      | NormalRetry n codes _ \<Rightarrow>
          json_text nt (JArr ([JStr ''normal'', jint (int n), JArr (map JStr (sort codes))] @ tail)))"

definition retry_state_key :: "string \<Rightarrow> string \<Rightarrow> string" where
  "retry_state_key provider key = json_text (\<lambda>_. []) (JArr [JStr provider, JStr key])"

record retry_entry =
  re_retry :: jnum
  re_id :: string

type_synonym retry_state = "(string \<times> retry_entry) list"

text \<open>A scheduled retry as its declared type: the key of its policy and what the state keeps.\<close>

definition retry_note :: "session_event \<Rightarrow> (string \<times> retry_entry) option" where
  "retry_note e =
     (case scheduled e of
        None \<Rightarrow> None
      | Some j \<Rightarrow>
          (case (jget ''provider'' j, jget ''policyKey'' j, jget ''retry'' j, jget ''retryId'' j) of
             (Some (JStr p), Some (JStr k), Some (JNum n), Some (JStr i)) \<Rightarrow>
               Some (retry_state_key p k, \<lparr>re_retry = n, re_id = i\<rparr>)
           | _ \<Rightarrow> None))"

definition resets_retries :: "session_event \<Rightarrow> bool" where
  "resets_retries e = (case ev_payload e of StepStart _ _ \<Rightarrow> True | TurnEnd _ _ \<Rightarrow> True | _ \<Rightarrow> False)"

text \<open>\<open>None\<close> for the state handed back as it is.\<close>

definition apply_retry :: "retry_state \<Rightarrow> session_event \<Rightarrow> retry_state option" where
  "apply_retry st e =
     (if resets_retries e then Some []
      else case retry_note e of
        None \<Rightarrow> None
      | Some (key, new) \<Rightarrow>
          (case map_of st key of
             Some old \<Rightarrow>
               if num_eq (re_retry old) (re_retry new) \<and> re_id old = re_id new then None else Some (omap_set key new st)
           | None \<Rightarrow> Some (omap_set key new st)))"

definition retry_state_schema :: "retry_state \<Rightarrow> retry_state option" where
  "retry_state_schema st =
     (if list_all (\<lambda>(_, en). is_safe_integer (re_retry en) \<and> jnum_int (re_retry en) \<ge> 0) st then Some st else None)"

definition retry_unit :: "(retry_state, unit) projection_unit" where
  "retry_unit =
     \<lparr>pu_key = ''llmRetry'', pu_version = JInt 1, pu_init = (\<lambda>_ _. []), pu_apply = apply_retry,
      pu_parse = retry_state_schema, pu_wire = None\<rparr>"

section \<open>Recovery of a failed request\<close>

definition local_delay :: "(rat \<Rightarrow> rat) \<Rightarrow> backoff \<Rightarrow> nat \<Rightarrow> rat \<Rightarrow> rat" where
  "local_delay rnd b retry sample =
     (let exponent = min (retry - 1) 1024;
          exponential = (if exponent = 1024 then max_delay_ms b else min (initial_delay_ms b * 2 ^ exponent) (max_delay_ms b));
          jitter = rnd (rnd (1 - jitter_ratio b) + rnd (rnd (2 * jitter_ratio b) * sample))
      in min (rnd (exponential * jitter)) (max_delay_ms b))"

datatype request_action = RetryRequest | NoAction

record retry_request =
  rq_turn :: int
  rq_step :: int
  rq_provider :: string
  rq_failure :: llm_failure
  rq_policy :: "retry_policy option"

datatype recovery = Delegated | Decided request_action | Backoff retry_data

definition provider_delay :: "llm_failure \<Rightarrow> rat option" where
  "provider_delay f =
     (case provider_retry_after_ms f of Some ms \<Rightarrow> if ms > 0 then Some (of_int ms) else None | None \<Rightarrow> None)"

text \<open>The delay of the next retry; \<open>None\<close> hands the request on.\<close>

definition retry_delay :: "(rat \<Rightarrow> rat) \<Rightarrow> retry_policy \<Rightarrow> llm_failure \<Rightarrow> nat \<Rightarrow> rat \<Rightarrow> rat option" where
  "retry_delay rnd p f retry sample =
     (case provider_delay f of
        Some ms \<Rightarrow>
          if ms > max_delay_ms (policy_backoff p) then
            (case p of
               NormalRetry _ _ _ \<Rightarrow> None
             | AlwaysRetry b \<Rightarrow> Some (local_delay rnd b retry sample))
          else Some ms
      | None \<Rightarrow> Some (local_delay rnd (policy_backoff p) retry sample))"

text \<open>The decision once the policy applies, from the state of the projection.\<close>

definition schedule_retry ::
    "(jnum \<Rightarrow> string) \<Rightarrow> (rat \<Rightarrow> rat) \<Rightarrow> string \<Rightarrow> rat \<Rightarrow> retry_request \<Rightarrow> retry_policy \<Rightarrow> retry_state \<Rightarrow> recovery" where
  "schedule_retry nt rnd uuid sample rq p st =
     (let key = retry_policy_key nt p;
          previous = map_of st (retry_state_key (rq_provider rq) key);
          previous_retry = (case previous of None \<Rightarrow> 0 | Some en \<Rightarrow> nat (jnum_int (re_retry en)));
          retry = previous_retry + 1
      in if (case p of NormalRetry n _ _ \<Rightarrow> previous_retry \<ge> n | AlwaysRetry _ \<Rightarrow> False) then Delegated
         else case retry_delay rnd p (rq_failure rq) retry sample of
           None \<Rightarrow> Delegated
         | Some delay \<Rightarrow>
             Backoff \<lparr>rd_id = (case previous of None \<Rightarrow> uuid | Some en \<Rightarrow> re_id en), rd_turn = rq_turn rq, rd_step = rq_step rq,
               rd_provider = rq_provider rq, rd_max = (case p of NormalRetry n _ _ \<Rightarrow> Some n | AlwaysRetry _ \<Rightarrow> None),
               rd_key = key, rd_retry = retry, rd_delay = delay, rd_failure = rq_failure rq\<rparr>)"

text \<open>
  What a recovery meets: the abort signals where they are read, the outcome of the policies behind it (an
  action or an error), and the state of the projection when it is read, after they settled.
\<close>

record recovery_context =
  rx_aborted :: "nat \<Rightarrow> bool"
  rx_downstream :: "(unit, request_action) result"
  rx_state :: retry_state

definition recover_request ::
    "(jnum \<Rightarrow> string) \<Rightarrow> (rat \<Rightarrow> rat) \<Rightarrow> string \<Rightarrow> rat \<Rightarrow> recovery_context \<Rightarrow> retry_request \<Rightarrow> recovery" where
  "recover_request nt rnd uuid sample cx rq =
     (case rq_policy rq of
        None \<Rightarrow> Delegated
      | Some (AlwaysRetry b) \<Rightarrow>
          if rx_aborted cx 0 then Decided NoAction
          else if rx_aborted cx 1 then Decided NoAction
          else if rx_downstream cx = Inr RetryRequest then Decided RetryRequest
          else schedule_retry nt rnd uuid sample rq (AlwaysRetry b) (rx_state cx)
      | Some (NormalRetry n codes b) \<Rightarrow>
          if failure_code (rq_failure rq) \<notin> set codes then Delegated
          else schedule_retry nt rnd uuid sample rq (NormalRetry n codes b) (rx_state cx))"

text \<open>The wait around its two events; \<open>meanwhile\<close> is what others do to the session while it lasts.\<close>

definition backoff_retry ::
    "(nat \<Rightarrow> int) \<Rightarrow> (nat \<Rightarrow> bool) \<Rightarrow> (session \<Rightarrow> session) \<Rightarrow> bool \<Rightarrow> retry_data \<Rightarrow> session \<Rightarrow>
     (session_error, request_action) result \<times> session" where
  "backoff_retry clk aborted meanwhile waited d s =
     (if aborted 2 then (Inr NoAction, s)
      else case session_append (clk 0) (OtherEvent ''llm/retry'' (retry_json d)) None None s of
        (Inl err, s1) \<Rightarrow> (Inl err, s1)
      | (Inr _, s1) \<Rightarrow>
          if aborted 3 \<or> \<not> waited then (Inr NoAction, meanwhile s1)
          else case session_append (clk 1) (OtherEvent ''llm/retry-started'' (started_json d)) None None (meanwhile s1) of
            (Inl err, s2) \<Rightarrow> (Inl err, s2)
          | (Inr _, s2) \<Rightarrow> (Inr RetryRequest, s2))"

section \<open>The key of a policy names one provider and policy\<close>

text \<open>Reading an escaped character back.\<close>

fun unescape :: "string \<Rightarrow> (nat \<times> string) option" where
  "unescape [] = None"
| "unescape (x # r) =
     (if x \<noteq> CHR 0x5C then Some (of_char x, r)
      else case r of
        [] \<Rightarrow> None
      | y # r' \<Rightarrow>
          if y = CHR ''b'' then Some (8, r') else if y = CHR ''t'' then Some (9, r')
          else if y = CHR ''n'' then Some (10, r') else if y = CHR ''f'' then Some (12, r')
          else if y = CHR ''r'' then Some (13, r')
          else if y = CHR ''u'' then
            Some (16 * the (index_of (r' ! 2) ''0123456789abcdef'') + the (index_of (r' ! 3) ''0123456789abcdef''), drop 4 r')
          else Some (of_char y, r'))"

lemma hex_digit_index: "k < 16 \<Longrightarrow> index_of (hex_digit k) ''0123456789abcdef'' = Some k"
  unfolding hex_digit_def by (rule index_of_nth_distinct) simp_all

lemma unescape_escaped: "unescape (escaped_char c @ r) = Some (of_char c, r)"
proof -
  define n where "n = (of_char c :: nat)"
  have "n < 256" unfolding n_def by (cases c) (simp add: of_char_def horner_sum_simps)
  then have hi: "n div 16 < 16" using less_mult_imp_div_less [of n 16 16] by simp
  consider "c = CHR 0x22 \<or> c = CHR 0x5C" | "c \<noteq> CHR 0x22" "c \<noteq> CHR 0x5C" "n \<in> {8, 9, 10, 12, 13}"
    | (control) "c \<noteq> CHR 0x22" "c \<noteq> CHR 0x5C" "n \<notin> {8, 9, 10, 12, 13}" "n < 32"
    | (plain) "c \<noteq> CHR 0x22" "c \<noteq> CHR 0x5C" "n \<notin> {8, 9, 10, 12, 13}" "\<not> n < 32" by blast
  then show ?thesis
  proof cases
    case control
    then have e: "escaped_char c = CHR 0x5C # CHR ''u'' # ''00'' @ [hex_digit (n div 16), hex_digit (n mod 16)]"
      by (simp add: escaped_char_def Let_def n_def)
    have "unescape (escaped_char c @ r) = Some (16 * the (index_of (hex_digit (n div 16)) ''0123456789abcdef'')
        + the (index_of (hex_digit (n mod 16)) ''0123456789abcdef''), r)" unfolding e by (simp del: index_of.simps)
    also have "\<dots> = Some (n, r)" by (simp only: hex_digit_index [OF hi] hex_digit_index [of "n mod 16"] option.sel) simp
    finally show ?thesis by (simp add: n_def)
  next
    case plain
    then have "escaped_char c = [c]" by (simp add: escaped_char_def Let_def n_def)
    with plain show ?thesis by simp
  next
    case 1
    then show ?thesis by (elim disjE) (simp_all add: escaped_char_def Let_def)
  next
    case 2
    then have e: "escaped_char c = [CHR 0x5C, if n = 8 then CHR ''b'' else if n = 9 then CHR ''t'' else if n = 10 then CHR ''n''
        else if n = 12 then CHR ''f'' else CHR ''r'']" by (auto simp: escaped_char_def Let_def n_def)
    from 2(3) show ?thesis unfolding e n_def [symmetric] by auto
  qed
qed

lemma escaped_char_inj: "escaped_char c @ r = escaped_char d @ r' \<longleftrightarrow> c = d \<and> r = r'"
proof
  assume "escaped_char c @ r = escaped_char d @ r'"
  then have "unescape (escaped_char c @ r) = unescape (escaped_char d @ r')" by (rule arg_cong)
  then show "c = d \<and> r = r'" by (simp add: unescape_escaped)
qed simp

lemma escaped_char_not_quote: "escaped_char c @ r \<noteq> CHR 0x22 # r'"
  by (auto simp: escaped_char_def Let_def)

lemma quoted_inj: "quoted s @ x = quoted t @ y \<longleftrightarrow> s = t \<and> x = y"
proof -
  have "concat (map escaped_char s) @ CHR 0x22 # x = concat (map escaped_char t) @ CHR 0x22 # y \<Longrightarrow> s = t \<and> x = y"
  proof (induction s arbitrary: t)
    case Nil
    then show ?case using escaped_char_not_quote by (cases t) (simp_all, metis)
  next
    case (Cons c s)
    then show ?case using escaped_char_not_quote by (cases t) (auto simp: escaped_char_inj)
  qed
  then show ?thesis by (auto simp: quoted_def)
qed

lemma retry_state_key_inj: "retry_state_key p k = retry_state_key p' k' \<longleftrightarrow> p = p' \<and> k = k'"
proof -
  have "retry_state_key p k = ''['' @ quoted p @ '','' @ quoted k @ '']''" for p k
    by (simp add: retry_state_key_def)
  then show ?thesis using quoted_inj [of k "[]" k' "[]"] by (simp only: append_same_eq same_append_eq quoted_inj append_Nil2) simp
qed

section \<open>The delay of a retry\<close>

definition rounding :: "(rat \<Rightarrow> rat) \<Rightarrow> bool" where
  "rounding rnd \<longleftrightarrow> mono rnd \<and> rnd 0 = 0"

lemma rounding_nonneg: "rounding rnd \<Longrightarrow> 0 \<le> q \<Longrightarrow> 0 \<le> rnd q"
  unfolding rounding_def by (metis monoD)

lemma local_delay_bounds:
  assumes "rounding rnd" and "backoff_ok b" and "0 \<le> sample"
  shows "0 \<le> local_delay rnd b retry sample \<and> local_delay rnd b retry sample \<le> max_delay_ms b"
proof -
  define exponential where "exponential = (if min (retry - 1) 1024 = 1024 then max_delay_ms b
      else min (initial_delay_ms b * 2 ^ min (retry - 1) 1024) (max_delay_ms b))"
  define jitter where "jitter = rnd (rnd (1 - jitter_ratio b) + rnd (rnd (2 * jitter_ratio b) * sample))"
  have b: "0 < initial_delay_ms b" "0 < max_delay_ms b" "0 \<le> jitter_ratio b" "jitter_ratio b \<le> 1"
    using assms(2) by (auto simp: backoff_ok_def)
  note nn = rounding_nonneg [OF assms(1)]
  have "0 \<le> jitter" unfolding jitter_def by (intro nn add_nonneg_nonneg mult_nonneg_nonneg) (use b assms(3) in simp_all)
  moreover have "0 \<le> exponential" using b by (simp add: exponential_def)
  ultimately have "0 \<le> rnd (exponential * jitter)" by (intro nn) simp
  moreover have "local_delay rnd b retry sample = min (rnd (exponential * jitter)) (max_delay_ms b)"
    by (simp only: local_delay_def exponential_def jitter_def Let_def)
  ultimately show ?thesis using b(2) by simp
qed

lemma retry_delay_bounds:
  assumes "rounding rnd" and "policy_ok p" and "0 \<le> sample" and "retry_delay rnd p f retry sample = Some q"
  shows "0 \<le> q \<and> q \<le> max_delay_ms (policy_backoff p)"
proof -
  have "backoff_ok (policy_backoff p)" using assms(2) by (simp add: policy_ok_def)
  note local = local_delay_bounds [OF assms(1) this assms(3)]
  from assms(4) local show ?thesis
    by (auto simp: retry_delay_def provider_delay_def split: option.splits if_splits retry_policy.splits)
qed

end
