(* ===== verification/Retry_Companion.thy ===== *)
theory Retry_Companion
  imports Llm_Retry
begin

text \<open>
  \<open>packages/llm/llm-retry/src/invariant.ts\<close> and \<open>history.ts\<close>: the checks on the retry events of a log, and
  what they guarantee: chains of retries numbered without gap, identities that belong to one chain, and
  an executor whose events always pass.
\<close>

section \<open>The provider of the open step\<close>

definition starts_step :: "int \<Rightarrow> int \<Rightarrow> session_event \<Rightarrow> bool" where
  "starts_step t s e = (case ev_payload e of StepStart t' s' \<Rightarrow> t' = t \<and> s' = s | _ \<Rightarrow> False)"

definition closes_step :: "session_event \<Rightarrow> bool" where
  "closes_step e = (case ev_payload e of StepEnd _ _ \<Rightarrow> True | TurnEnd _ _ \<Rightarrow> True | _ \<Rightarrow> False)"

definition header_provider :: "session_event \<Rightarrow> string option" where
  "header_provider e = (case ev_payload e of RequestHeader h _ _ \<Rightarrow> Some (cc_provider (eh_config h)) | _ \<Rightarrow> None)"

definition provider_for_open_step :: "session_event list \<Rightarrow> int \<Rightarrow> int \<Rightarrow> string option" where
  "provider_for_open_step es t s =
     (if \<not> list_ex (starts_step t s) es then None
      else if list_ex closes_step (takeWhile (\<lambda>e. \<not> starts_step t s e) (rev es)) then None
      else Option.bind (find_last (\<lambda>e. header_provider e \<noteq> None) es) header_provider)"

section \<open>The checks\<close>

datatype retry_violation =
    RetryIdEmpty
  | FailureNotObject
  | FailureMessage
  | FailureCode
  | FailureStatus
  | FailureRetryAfter
  | FailureRequestId
  | RetryNotPositive
  | ProviderEmpty
  | PolicyKeyEmpty
  | RetryOverMax
  | AlwaysWithMax
  | BadMode
  | DelayOutOfRange
  | OutsideTurnRetry
  | OtherTurn
  | OutsideStepRetry
  | OtherStep
  | WrongProvider
  | RetryNotNext
  | RetryIdChanged
  | RetryIdTaken
  | StartedUnpaired
  | StartedElsewhere
  | StartedTwice

fun filled_str :: "json option \<Rightarrow> bool" where
  "filled_str (Some (JStr s)) = (length s > 0)"
| "filled_str _ = False"

text \<open>A safe integer of at least \<open>k\<close>.\<close>

definition safe_from :: "int \<Rightarrow> json option \<Rightarrow> bool" where
  "safe_from k v = (case v of Some (JNum n) \<Rightarrow> is_safe_integer n \<and> \<not> jnum_int n < k | _ \<Rightarrow> False)"

text \<open>\<open>===\<close> on properties; two objects of a log are never the same object.\<close>

fun same_value :: "json option \<Rightarrow> json option \<Rightarrow> bool" where
  "same_value None None = True"
| "same_value (Some (JNum a)) (Some (JNum b)) = num_eq a b"
| "same_value (Some (JStr a)) (Some (JStr b)) = (a = b)"
| "same_value (Some (JBool a)) (Some (JBool b)) = (a = b)"
| "same_value (Some JNull) (Some JNull) = True"
| "same_value _ _ = False"

definition integer_within :: "int \<Rightarrow> int \<Rightarrow> json \<Rightarrow> bool" where
  "integer_within lo hi j = (case j of JNum (JInt i) \<Rightarrow> \<not> i < lo \<and> \<not> i > hi | JNum JNegZero \<Rightarrow> \<not> 0 < lo \<and> \<not> 0 > hi | _ \<Rightarrow> False)"

definition validate_failure :: "json option \<Rightarrow> (retry_violation, unit) result" where
  "validate_failure value =
     (case value of
        None \<Rightarrow> Inl FailureNotObject
      | Some j \<Rightarrow>
          and_then (reject_if (\<not> is_record j) FailureNotObject) (\<lambda>_.
          and_then (reject_if (\<not> filled_str (jget ''message'' j)) FailureMessage) (\<lambda>_.
          and_then (reject_if (\<not> filled_str (jget ''code'' j)) FailureCode) (\<lambda>_.
          and_then (reject_if (case jget ''status'' j of None \<Rightarrow> False | Some v \<Rightarrow> \<not> integer_within 100 599 v) FailureStatus) (\<lambda>_.
          and_then (reject_if (case jget ''providerRetryAfterMs'' j of None \<Rightarrow> False
              | Some v \<Rightarrow> (case number_of v of None \<Rightarrow> True | Some q \<Rightarrow> q \<le> 0)) FailureRetryAfter) (\<lambda>_.
            reject_if (case jget ''requestId'' j of None \<Rightarrow> False | Some v \<Rightarrow> \<not> filled_str (Some v)) FailureRequestId))))))"

definition validate_mode :: "json \<Rightarrow> (retry_violation, unit) result" where
  "validate_mode j =
     (if jget ''mode'' j = Some (JStr ''normal'') then
        reject_if (\<not> safe_from 1 (jget ''maxRetries'' j)
          \<or> jnum_int (num_of (jfield ''retry'' j)) > jnum_int (num_of (jfield ''maxRetries'' j))) RetryOverMax
      else if jget ''mode'' j = Some (JStr ''always'') then
        reject_if (''maxRetries'' \<in> set (jkeys j)) AlwaysWithMax
      else Inl BadMode)"

text \<open>The checks on the data of a scheduled retry alone.\<close>

definition validate_retry_data :: "json \<Rightarrow> (retry_violation, unit) result" where
  "validate_retry_data j =
     and_then (reject_if (\<not> filled_str (jget ''retryId'' j)) RetryIdEmpty) (\<lambda>_.
     and_then (validate_failure (jget ''failure'' j)) (\<lambda>_.
     and_then (reject_if (\<not> safe_from 1 (jget ''retry'' j)) RetryNotPositive) (\<lambda>_.
     and_then (reject_if (\<not> filled_str (jget ''provider'' j)) ProviderEmpty) (\<lambda>_.
     and_then (reject_if (\<not> filled_str (jget ''policyKey'' j)) PolicyKeyEmpty) (\<lambda>_.
     and_then (validate_mode j) (\<lambda>_.
       reject_if (case Option.bind (jget ''delayMs'' j) number_of of
           None \<Rightarrow> True | Some q \<Rightarrow> q < 0 \<or> q > of_int MAX_TIMER_DELAY_MS) DelayOutOfRange))))))"

definition is_turn_edge :: "session_event \<Rightarrow> bool" where
  "is_turn_edge e = (case ev_payload e of TurnStart _ \<Rightarrow> True | TurnEnd _ _ \<Rightarrow> True | _ \<Rightarrow> False)"

definition is_step_edge :: "session_event \<Rightarrow> bool" where
  "is_step_edge e = (case ev_payload e of StepStart _ _ \<Rightarrow> True | StepEnd _ _ \<Rightarrow> True | _ \<Rightarrow> False)"

text \<open>The open turn and step a retry names.\<close>

definition validate_retry_place :: "session_event list \<Rightarrow> json \<Rightarrow> (retry_violation, int \<times> int) result" where
  "validate_retry_place es j =
     (case map_option ev_payload (find_last is_turn_edge es) of
        Some (TurnStart t) \<Rightarrow>
          and_then (reject_if (\<not> num_is (jget ''turn'' j) t) OtherTurn) (\<lambda>_.
            case map_option ev_payload (find_last is_step_edge es) of
              Some (StepStart t' s) \<Rightarrow>
                and_then (reject_if (\<not> num_is (jget ''step'' j) s \<or> \<not> num_is (jget ''turn'' j) t') OtherStep) (\<lambda>_. Inr (t, s))
            | _ \<Rightarrow> Inl OutsideStepRetry)
      | _ \<Rightarrow> Inl OutsideTurnRetry)"

definition same_chain :: "json \<Rightarrow> json \<Rightarrow> bool" where
  "same_chain j i \<longleftrightarrow> same_value (jget ''turn'' i) (jget ''turn'' j) \<and> same_value (jget ''step'' i) (jget ''step'' j)
     \<and> same_value (jget ''provider'' i) (jget ''provider'' j) \<and> same_value (jget ''policyKey'' i) (jget ''policyKey'' j)"

text \<open>The data of the last earlier retry that satisfies a test.\<close>

definition last_scheduled :: "(json \<Rightarrow> bool) \<Rightarrow> session_event list \<Rightarrow> json option" where
  "last_scheduled ok es = Option.bind (find_last (\<lambda>e. case scheduled e of None \<Rightarrow> False | Some i \<Rightarrow> ok i) es) scheduled"

definition names_id :: "json \<Rightarrow> session_event \<Rightarrow> bool" where
  "names_id j e =
     ((case scheduled e of None \<Rightarrow> False | Some i \<Rightarrow> same_value (jget ''retryId'' i) (jget ''retryId'' j))
      \<or> (case started e of None \<Rightarrow> False | Some i \<Rightarrow> same_value (jget ''retryId'' i) (jget ''retryId'' j)))"

definition validate_retry :: "session_event list \<Rightarrow> json \<Rightarrow> (retry_violation, unit) result" where
  "validate_retry es j =
     and_then (validate_retry_data j) (\<lambda>_.
     and_then (validate_retry_place es j) (\<lambda>(t, s).
     and_then (reject_if (case provider_for_open_step es t s of
         None \<Rightarrow> True | Some p \<Rightarrow> \<not> same_value (Some (JStr p)) (jget ''provider'' j)) WrongProvider) (\<lambda>_.
       let prior = last_scheduled (same_chain j) es;
           before = (case prior of None \<Rightarrow> Some 0 | Some i \<Rightarrow> Option.bind (jget ''retry'' i) number_of)
       in and_then (reject_if (case before of None \<Rightarrow> True | Some n \<Rightarrow> jnum_rat (num_of (jfield ''retry'' j)) \<noteq> n + 1) RetryNotNext) (\<lambda>_.
          case prior of
            Some i \<Rightarrow> reject_if (\<not> same_value (jget ''retryId'' i) (jget ''retryId'' j)) RetryIdChanged
          | None \<Rightarrow> reject_if (list_ex (names_id j) es) RetryIdTaken))))"

definition same_attempt :: "json \<Rightarrow> json \<Rightarrow> bool" where
  "same_attempt j i \<longleftrightarrow> same_value (jget ''retryId'' i) (jget ''retryId'' j) \<and> same_value (jget ''retry'' i) (jget ''retry'' j)"

definition validate_started :: "session_event list \<Rightarrow> json \<Rightarrow> (retry_violation, unit) result" where
  "validate_started es j =
     and_then (reject_if (\<not> filled_str (jget ''retryId'' j)) RetryIdEmpty) (\<lambda>_.
       case last_scheduled (same_attempt j) es of
         None \<Rightarrow> Inl StartedUnpaired
       | Some i \<Rightarrow>
           and_then (reject_if (\<not> same_value (jget ''turn'' i) (jget ''turn'' j) \<or> \<not> same_value (jget ''step'' i) (jget ''step'' j))
             StartedElsewhere) (\<lambda>_.
             reject_if (list_ex (\<lambda>e. case started e of None \<Rightarrow> False | Some i \<Rightarrow> same_attempt j i) es) StartedTwice))"

text \<open>One event against the log before it; a whole log, event by event.\<close>

definition check_retry_event :: "session_event list \<Rightarrow> session_event \<Rightarrow> (retry_violation, unit) result" where
  "check_retry_event es e =
     (case scheduled e of
        Some j \<Rightarrow> validate_retry es j
      | None \<Rightarrow> (case started e of Some j \<Rightarrow> validate_started es j | None \<Rightarrow> Inr ()))"

fun check_from :: "session_event list \<Rightarrow> session_event list \<Rightarrow> (retry_violation, unit) result" where
  "check_from before [] = Inr ()"
| "check_from before (e # es) = and_then (check_retry_event before e) (\<lambda>_. check_from (before @ [e]) es)"

definition validate_retry_session :: "session_event list \<Rightarrow> (retry_violation, unit) result" where
  "validate_retry_session es = check_from [] es"

section \<open>Accepted logs\<close>

lemma check_from_append: "check_from before (es @ fs) = and_then (check_from before es) (\<lambda>_. check_from (before @ es) fs)"
proof (induction es arbitrary: before)
  case (Cons e es)
  then show ?case by (cases "check_retry_event before e") simp_all
qed simp

lemma validate_retry_session_snoc:
  "validate_retry_session (es @ [e]) = Inr () \<longleftrightarrow> validate_retry_session es = Inr () \<and> check_retry_event es e = Inr ()"
  by (simp add: validate_retry_session_def check_from_append and_then_Inr_iff)

lemma validate_retry_session_Nil [simp]: "validate_retry_session [] = Inr ()"
  by (simp add: validate_retry_session_def)

text \<open>The chain of a retry: its turn and step, provider and policy.\<close>

definition in_chain :: "int \<Rightarrow> int \<Rightarrow> string \<Rightarrow> string \<Rightarrow> json \<Rightarrow> bool" where
  "in_chain t s p k j \<longleftrightarrow> num_is (jget ''turn'' j) t \<and> num_is (jget ''step'' j) s
     \<and> jget ''provider'' j = Some (JStr p) \<and> jget ''policyKey'' j = Some (JStr k)"

lemma num_is_same: "num_is v i \<Longrightarrow> same_value w v \<longleftrightarrow> num_is w i"
  by (cases v; cases w; auto simp: num_is_def split: json.splits option.splits elim!: num_eq.elims)

lemma same_value_str: "same_value w (Some (JStr x)) \<longleftrightarrow> w = Some (JStr x)"
  by (cases w) (auto split: json.splits elim: same_value.elims)

lemma same_chain_iff: "in_chain t s p k j \<Longrightarrow> same_chain j i \<longleftrightarrow> in_chain t s p k i"
  by (auto simp: same_chain_def in_chain_def num_is_same same_value_str)

definition retries :: "session_event list \<Rightarrow> json list" where
  "retries es = List.map_filter scheduled es"

definition starts :: "session_event list \<Rightarrow> json list" where
  "starts es = List.map_filter started es"

lemma retries_simps [simp]:
  "retries [] = []"
  "retries (es @ [e]) = retries es @ (case scheduled e of None \<Rightarrow> [] | Some j \<Rightarrow> [j])"
  "starts [] = []"
  "starts (es @ [e]) = starts es @ (case started e of None \<Rightarrow> [] | Some j \<Rightarrow> [j])"
  by (simp_all add: retries_def starts_def map_filter_def split: option.splits)

lemma last_scheduled_retries: "last_scheduled ok es = last_opt (filter ok (retries es))"
proof (induction es rule: rev_induct)
  case (snoc e es)
  then show ?case by (auto simp: last_scheduled_def split: option.splits)
qed (simp add: last_scheduled_def)

lemma retries_set: "j \<in> set (retries es) \<longleftrightarrow> (\<exists>e \<in> set es. scheduled e = Some j)"
  by (auto simp: retries_def map_filter_def image_iff)

lemma starts_set: "j \<in> set (starts es) \<longleftrightarrow> (\<exists>e \<in> set es. started e = Some j)"
  by (auto simp: starts_def map_filter_def image_iff)

lemma last_opt_in_set: "last_opt xs = Some x \<Longrightarrow> x \<in> set xs"
  by (auto simp: last_opt_def split: if_splits)

definition retry_number :: "json \<Rightarrow> int" where
  "retry_number j = jnum_int (num_of (jfield ''retry'' j))"

definition retry_id :: "json \<Rightarrow> string" where
  "retry_id j = str_of (jfield ''retryId'' j)"

text \<open>The shape every accepted retry has.\<close>

definition well_shaped :: "json \<Rightarrow> bool" where
  "well_shaped j \<longleftrightarrow> validate_retry_data j = Inr ()"

lemma filled_str_iff: "filled_str v \<longleftrightarrow> (\<exists>x. v = Some (JStr x) \<and> x \<noteq> [])"
  by (cases v) (auto split: json.splits elim: filled_str.elims)

lemma safe_from_iff: "1 \<le> k \<Longrightarrow> safe_from k v \<longleftrightarrow> (\<exists>i. v = Some (jint i) \<and> k \<le> i \<and> i \<le> MAX_SAFE_INTEGER)"
  by (auto simp: safe_from_def MAX_SAFE_INTEGER_def split: option.splits json.splits elim!: is_safe_integer.elims)

lemma well_shapedD:
  assumes "well_shaped j"
  shows "jget ''retryId'' j = Some (JStr (retry_id j))" "retry_id j \<noteq> []" "jget ''retry'' j = Some (jint (retry_number j))"
    "1 \<le> retry_number j" "\<exists>p. jget ''provider'' j = Some (JStr p)" "\<exists>k. jget ''policyKey'' j = Some (JStr k)"
proof -
  have "filled_str (jget ''retryId'' j)" "safe_from 1 (jget ''retry'' j)" "filled_str (jget ''provider'' j)"
    "filled_str (jget ''policyKey'' j)"
    using assms unfolding well_shaped_def validate_retry_data_def by (simp_all add: and_then_Inr_iff)
  then obtain x i p k where "jget ''retryId'' j = Some (JStr x)" "x \<noteq> []" "jget ''retry'' j = Some (jint i)" "1 \<le> i"
    "jget ''provider'' j = Some (JStr p)" "jget ''policyKey'' j = Some (JStr k)" by (auto simp: filled_str_iff safe_from_iff)
  then show "jget ''retryId'' j = Some (JStr (retry_id j))" "retry_id j \<noteq> []" "jget ''retry'' j = Some (jint (retry_number j))"
    "1 \<le> retry_number j" "\<exists>p. jget ''provider'' j = Some (JStr p)" "\<exists>k. jget ''policyKey'' j = Some (JStr k)"
    by (simp_all add: retry_id_def retry_number_def jfield_def)
qed

lemma validate_retry_shape:
  assumes "validate_retry es j = Inr ()"
  obtains t s p k where "well_shaped j" "in_chain t s p k j" "validate_retry_place es j = Inr (t, s)"
proof -
  from assms obtain t s where w: "well_shaped j" and pl: "validate_retry_place es j = Inr (t, s)"
    by (auto simp: validate_retry_def well_shaped_def and_then_Inr_iff)
  from pl have "num_is (jget ''turn'' j) t" "num_is (jget ''step'' j) s"
    by (auto simp: validate_retry_place_def and_then_Inr_iff split: option.splits payload.splits)
  moreover obtain p k where "jget ''provider'' j = Some (JStr p)" "jget ''policyKey'' j = Some (JStr k)"
    using well_shapedD(5,6) [OF w] by blast
  ultimately show ?thesis using that [OF w _ pl] by (simp add: in_chain_def)
qed

lemma accepted_retries:
  assumes "validate_retry_session es = Inr ()" and "j \<in> set (retries es)"
  shows "well_shaped j \<and> (\<exists>t s p k. in_chain t s p k j)"
  using assms
proof (induction es rule: rev_induct)
  case (snoc e es)
  then have v: "validate_retry_session es = Inr ()" "check_retry_event es e = Inr ()" by (simp_all add: validate_retry_session_snoc)
  show ?case
  proof (cases "j \<in> set (retries es)")
    case True
    then show ?thesis by (rule snoc.IH [OF v(1)])
  next
    case False
    then have "scheduled e = Some j" using snoc.prems(2) by (auto split: option.splits)
    with v(2) have "validate_retry es j = Inr ()" by (simp add: check_retry_event_def)
    then show ?thesis by (rule validate_retry_shape) blast
  qed
qed simp

text \<open>What the check of one retry says about its chain and its identity.\<close>

lemma validate_retry_chain:
  assumes v: "validate_retry es j = Inr ()" and c: "in_chain t s p k j"
    and ok: "\<And>i. i \<in> set (retries es) \<Longrightarrow> well_shaped i"
  shows "case last_opt (filter (in_chain t s p k) (retries es)) of
      None \<Rightarrow> retry_number j = 1 \<and> (\<forall>i \<in> set (retries es). retry_id i \<noteq> retry_id j)
    | Some i \<Rightarrow> retry_number j = retry_number i + 1 \<and> retry_id i = retry_id j"
proof -
  have w: "well_shaped j" using v by (rule validate_retry_shape)
  have same: "same_chain j = in_chain t s p k" using same_chain_iff [OF c] by (intro ext)
  have num: "jnum_rat (num_of (jfield ''retry'' j)) = of_int (retry_number j)"
    using well_shapedD(3) [OF w] by (simp add: jfield_def)
  show ?thesis
  proof (cases "last_opt (filter (in_chain t s p k) (retries es))")
    case None
    with v same num have one: "of_int (retry_number j) = (1 :: rat)" and new: "\<not> list_ex (names_id j) es"
      by (auto simp: validate_retry_def and_then_Inr_iff Let_def last_scheduled_retries)
    have "retry_id i \<noteq> retry_id j" if i: "i \<in> set (retries es)" for i
    proof
      assume eq: "retry_id i = retry_id j"
      from i obtain e where e: "e \<in> set es" "scheduled e = Some i" by (auto simp: retries_set)
      have "names_id j e" using e(2) well_shapedD(1) [OF ok [OF i]] well_shapedD(1) [OF w] eq by (simp add: names_id_def)
      with new e(1) show False by (auto simp: list_ex_iff)
    qed
    moreover have "retry_number j = 1" using one by (simp only: of_int_eq_1_iff)
    ultimately show ?thesis using None by simp
  next
    case (Some i)
    then have "i \<in> set (filter (in_chain t s p k) (retries es))" by (rule last_opt_in_set)
    then have i: "i \<in> set (retries es)" by simp
    note wi = ok [OF i]
    have "number_of (jint (retry_number i)) = Some (of_int (retry_number i))" by (simp add: number_of_def)
    with v same num Some well_shapedD(3) [OF wi] have n: "of_int (retry_number j) = (of_int (retry_number i) + 1 :: rat)"
      and same_id: "same_value (jget ''retryId'' i) (jget ''retryId'' j)"
      by (auto simp: validate_retry_def and_then_Inr_iff Let_def last_scheduled_retries)
    have "retry_id i = retry_id j" using same_id by (simp add: well_shapedD(1) [OF wi] well_shapedD(1) [OF w])
    moreover have "retry_number j = retry_number i + 1" using n by (metis of_int_1 of_int_add of_int_eq_iff)
    ultimately show ?thesis using Some by simp
  qed
qed

lemma chain_numbers:
  assumes "validate_retry_session es = Inr ()"
  shows "map retry_number (filter (in_chain t s p k) (retries es)) = map int [1..<Suc (length (filter (in_chain t s p k) (retries es)))]"
  using assms
proof (induction es rule: rev_induct)
  case (snoc e es)
  then have v: "validate_retry_session es = Inr ()" "check_retry_event es e = Inr ()" by (simp_all add: validate_retry_session_snoc)
  note IH = snoc.IH [OF v(1)]
  show ?case
  proof (cases "\<exists>j. scheduled e = Some j \<and> in_chain t s p k j")
    case True
    then obtain j where j: "scheduled e = Some j" "in_chain t s p k j" by blast
    let ?c = "filter (in_chain t s p k) (retries es)"
    have "validate_retry es j = Inr ()" using v(2) j(1) by (simp add: check_retry_event_def)
    note c = validate_retry_chain [OF this j(2)] accepted_retries [OF v(1)]
    have "retry_number j = int (Suc (length ?c))"
    proof (cases "?c = []")
      case True
      with c show ?thesis by (simp add: last_opt_def)
    next
      case False
      have "retry_number (last ?c) = last (map retry_number ?c)" using False by (simp add: last_map)
      also have "\<dots> = int (length ?c)" unfolding IH using False by (cases "length ?c") simp_all
      finally show ?thesis using c False by (simp add: last_opt_def)
    qed
    with IH j show ?thesis by simp
  next
    case False
    with IH show ?thesis by (auto split: option.splits)
  qed
qed simp

text \<open>
  Claim C33. The retries of a chain, those of one step for one provider and policy, are numbered 1, 2, 3, \<dots> in every
  log the companion accepts.
\<close>

theorem retry_chain_numbered:
  assumes "validate_retry_session es = Inr ()"
  shows "map retry_number (filter (in_chain t s p k) (retries es)) = map int [1..<Suc (length (filter (in_chain t s p k) (retries es)))]"
  by (rule chain_numbers [OF assms])

lemma in_chain_unique: "in_chain t s p k j \<Longrightarrow> in_chain t' s' p' k' j \<Longrightarrow> t' = t \<and> s' = s \<and> p' = p \<and> k' = k"
  by (auto simp: in_chain_def num_is_def split: option.splits json.splits elim!: num_eq.elims)

lemma ids_own_chains:
  assumes "validate_retry_session es = Inr ()" and "i \<in> set (retries es)" and "j \<in> set (retries es)" and "in_chain t s p k i"
  shows "retry_id i = retry_id j \<longleftrightarrow> in_chain t s p k j"
  using assms
proof (induction es arbitrary: i j t s p k rule: rev_induct)
  case (snoc e es)
  then have v: "validate_retry_session es = Inr ()" "check_retry_event es e = Inr ()" by (simp_all add: validate_retry_session_snoc)
  show ?case
  proof (cases "scheduled e")
    case None
    with snoc.prems snoc.IH [OF v(1)] show ?thesis by simp
  next
    case (Some j0)
    have vr: "validate_retry es j0 = Inr ()" using v(2) Some by (simp add: check_retry_event_def)
    then obtain t0 s0 p0 k0 where c0: "in_chain t0 s0 p0 k0 j0" by (rule validate_retry_shape)
    note vc = validate_retry_chain [OF vr] accepted_retries [OF v(1)]
    have old: "retry_id i = retry_id j0 \<longleftrightarrow> in_chain t s p k j0" if i: "i \<in> set (retries es)" "in_chain t s p k i" for i t s p k
    proof
      assume j0: "in_chain t s p k j0"
      with vc(1) [OF j0] vc(2) i obtain i' where i': "last_opt (filter (in_chain t s p k) (retries es)) = Some i'" "retry_id i' = retry_id j0"
        by (cases "last_opt (filter (in_chain t s p k) (retries es))") (auto simp: last_opt_def filter_empty_conv split: if_splits)
      then have "i' \<in> set (retries es)" "in_chain t s p k i'" using last_opt_in_set [OF i'(1)] by simp_all
      with snoc.IH [OF v(1) i(1)] i i'(2) show "retry_id i = retry_id j0" by metis
    next
      assume eq: "retry_id i = retry_id j0"
      with vc(1) [OF c0] vc(2) i obtain i' where i': "last_opt (filter (in_chain t0 s0 p0 k0) (retries es)) = Some i'" "retry_id i' = retry_id j0"
        by (auto split: option.splits)
      then have m: "i' \<in> set (retries es)" "in_chain t0 s0 p0 k0 i'" using last_opt_in_set [OF i'(1)] by simp_all
      from snoc.IH [OF v(1) i(1) m(1) i(2)] eq i'(2) have "in_chain t s p k i'" by simp
      with m(2) c0 show "in_chain t s p k j0" using in_chain_unique by blast
    qed
    from snoc.prems(2,3) Some consider "i \<in> set (retries es)" "j \<in> set (retries es)" | "i \<in> set (retries es)" "j = j0"
      | "i = j0" "j \<in> set (retries es)" | "i = j0" "j = j0" by auto
    then show ?thesis
    proof cases
      case 1
      with snoc.IH [OF v(1)] snoc.prems(4) show ?thesis by blast
    next
      case 2
      with old snoc.prems(4) show ?thesis by simp
    next
      case 3
      obtain t1 s1 p1 k1 where c1: "in_chain t1 s1 p1 k1 j" using accepted_retries [OF v(1) 3(2)] by blast
      have "retry_id j = retry_id j0 \<longleftrightarrow> in_chain t1 s1 p1 k1 j0" by (rule old [OF 3(2) c1])
      with 3 c1 snoc.prems(4) show ?thesis using in_chain_unique by metis
    next
      case 4
      with snoc.prems(4) show ?thesis by simp
    qed
  qed
qed simp

text \<open>
  An identity belongs to one chain: two retries of an accepted log carry the same identity exactly when they
  are of the same step, provider and policy.
\<close>

theorem retry_id_owns_chain:
  assumes "validate_retry_session es = Inr ()" and "i \<in> set (retries es)" and "j \<in> set (retries es)"
  shows "retry_id i = retry_id j \<longleftrightarrow> (\<exists>t s p k. in_chain t s p k i \<and> in_chain t s p k j)"
  using ids_own_chains [OF assms] accepted_retries [OF assms(1,2)] by blast

section \<open>Started attempts\<close>

lemma same_attempt_shaped:
  assumes "well_shaped i" and "same_attempt j i"
  shows "retry_id j = retry_id i" "retry_number j = retry_number i" "jget ''retryId'' j = Some (JStr (retry_id i))"
    "jget ''retry'' j = Some (jint (retry_number i))"
proof -
  note w = well_shapedD [OF assms(1)]
  from assms(2) w(1) show id: "jget ''retryId'' j = Some (JStr (retry_id i))"
    by (auto simp: same_attempt_def) (cases "jget ''retryId'' j"; auto elim: same_value.elims)
  from assms(2) w(3,4) show num: "jget ''retry'' j = Some (jint (retry_number i))"
    by (auto simp: same_attempt_def) (cases "jget ''retry'' j"; auto elim!: same_value.elims num_eq.elims)
  from id num show "retry_id j = retry_id i" "retry_number j = retry_number i"
    by (simp_all add: retry_id_def retry_number_def jfield_def)
qed

lemma validate_started_pair:
  assumes v: "validate_started es j = Inr ()" and ok: "\<And>i. i \<in> set (retries es) \<Longrightarrow> well_shaped i"
  obtains i where "i \<in> set (retries es)" "same_attempt j i" "same_value (jget ''turn'' i) (jget ''turn'' j)"
    "same_value (jget ''step'' i) (jget ''step'' j)" "\<forall>i \<in> set (starts es). \<not> same_attempt j i"
proof -
  from v obtain i where i: "last_scheduled (same_attempt j) es = Some i"
    and rest: "same_value (jget ''turn'' i) (jget ''turn'' j)" "same_value (jget ''step'' i) (jget ''step'' j)"
      "\<not> list_ex (\<lambda>e. case started e of None \<Rightarrow> False | Some i \<Rightarrow> same_attempt j i) es"
    by (auto simp: validate_started_def and_then_Inr_iff split: option.splits)
  from last_opt_in_set [OF i [unfolded last_scheduled_retries]] have "i \<in> set (retries es)" "same_attempt j i" by simp_all
  moreover have "\<not> same_attempt j x" if "x \<in> set (starts es)" for x
  proof -
    from that obtain e where "e \<in> set es" "started e = Some x" by (auto simp: starts_set)
    with rest(3) show ?thesis by (auto simp: list_ex_iff)
  qed
  ultimately show ?thesis using rest(1,2) that by blast
qed

definition attempt :: "json \<Rightarrow> string \<times> int" where
  "attempt j = (retry_id j, retry_number j)"

lemma started_attempts:
  assumes "validate_retry_session es = Inr ()"
  shows "distinct (map attempt (starts es)) \<and> (\<forall>j \<in> set (starts es). \<exists>i \<in> set (retries es). same_attempt j i
         \<and> same_value (jget ''turn'' i) (jget ''turn'' j) \<and> same_value (jget ''step'' i) (jget ''step'' j))"
  using assms
proof (induction es rule: rev_induct)
  case (snoc e es)
  then have v: "validate_retry_session es = Inr ()" "check_retry_event es e = Inr ()" by (simp_all add: validate_retry_session_snoc)
  note IH = snoc.IH [OF v(1)]
  show ?case
  proof (cases "started e")
    case None
    with IH show ?thesis by (auto split: option.splits)
  next
    case (Some j)
    have none: "scheduled e = None" using Some by (auto simp: started_def scheduled_def split: payload.splits if_splits)
    with v(2) Some have "validate_started es j = Inr ()" by (simp add: check_retry_event_def)
    from validate_started_pair [OF this] accepted_retries [OF v(1)] obtain i where i: "i \<in> set (retries es)" "same_attempt j i"
      "same_value (jget ''turn'' i) (jget ''turn'' j)" "same_value (jget ''step'' i) (jget ''step'' j)" "\<forall>i \<in> set (starts es). \<not> same_attempt j i"
      by blast
    have w: "well_shaped i" if "i \<in> set (retries es)" for i using accepted_retries [OF v(1) that] by blast
    note a = same_attempt_shaped [OF w [OF i(1)] i(2)]
    have "attempt j \<notin> set (map attempt (starts es))"
    proof
      assume "attempt j \<in> set (map attempt (starts es))"
      then obtain x where x: "x \<in> set (starts es)" and eq: "attempt x = attempt j" by auto
      from IH x obtain y where y: "y \<in> set (retries es)" "same_attempt x y" by blast
      note b = same_attempt_shaped [OF w [OF y(1)] y(2)]
      have "same_attempt j x" using a b eq by (simp add: same_attempt_def attempt_def)
      with i(5) x show False by blast
    qed
    with IH i Some none show ?thesis by auto
  qed
qed simp

text \<open>
  In an accepted log every started attempt was scheduled, for the same turn and step, and no attempt starts twice.
\<close>

theorem retry_started_paired:
  assumes "validate_retry_session es = Inr ()"
  shows "distinct (map attempt (starts es))
    \<and> (\<forall>j \<in> set (starts es). \<exists>i \<in> set (retries es). attempt i = attempt j
         \<and> same_value (jget ''turn'' i) (jget ''turn'' j) \<and> same_value (jget ''step'' i) (jget ''step'' j))"
proof -
  have "attempt i = attempt j" if "i \<in> set (retries es)" "same_attempt j i" for i j
    using same_attempt_shaped [OF _ that(2)] accepted_retries [OF assms that(1)] by (simp add: attempt_def)
  with started_attempts [OF assms] show ?thesis by fastforce
qed

section \<open>A concrete log\<close>

definition example_failure :: llm_failure where
  "example_failure = \<lparr>failure_message = ''busy'', failure_code = ''SERVER'', failure_status = Some 503,
     provider_retry_after_ms = None, request_id = None\<rparr>"

definition example_retry :: "nat \<Rightarrow> retry_data" where
  "example_retry n = \<lparr>rd_id = ''r'', rd_turn = 1, rd_step = 1, rd_provider = ''p'', rd_max = Some 2, rd_key = ''k'',
     rd_retry = n, rd_delay = 1, rd_failure = example_failure\<rparr>"

definition example_open :: "session_event list" where
  "example_open =
     [log_event (TurnStart 1) 0, log_event (StepStart 1 1) 1,
      log_event (RequestHeader \<lparr>eh_config = \<lparr>cc_provider = ''p'', cc_model = ''m'', cc_effort = None, cc_temperature = None,
        cc_max_tokens = None, cc_stop = None\<rparr>, eh_defaults = None, eh_system = None, eh_tools = None\<rparr> HeaderInitial False) 2]"

definition retry_example :: "session_event list" where
  "retry_example = example_open @
     [log_event (OtherEvent ''llm/retry'' (retry_json (example_retry 1))) 3,
      log_event (OtherEvent ''llm/retry-started'' (started_json (example_retry 1))) 4,
      log_event (OtherEvent ''llm/retry'' (retry_json (example_retry 2))) 5]"

lemma retry_example_accepted: "validate_retry_session retry_example = Inr ()"
  by code_simp

lemma retry_example_events:
  "retries retry_example = [retry_json (example_retry 1), retry_json (example_retry 2)]"
  "starts retry_example = [started_json (example_retry 1)]"
  by (simp_all add: retry_example_def example_open_def retries_def starts_def map_filter_def log_event_def scheduled_def started_def)

theorem retry_chain_numbered_witness:
  "map retry_number (filter (in_chain 1 1 ''p'' ''k'') (retries retry_example)) = map int [1..<3]"
proof -
  have "length (filter (in_chain 1 1 ''p'' ''k'') (retries retry_example)) = 2" by code_simp
  then show ?thesis using retry_chain_numbered [OF retry_example_accepted, of 1 1 "''p''" "''k''"] by simp
qed

theorem retry_id_owns_chain_witness:
  "\<exists>t s p k. in_chain t s p k (retry_json (example_retry 1)) \<and> in_chain t s p k (retry_json (example_retry 2))"
proof -
  have "retry_id (retry_json (example_retry 1)) = retry_id (retry_json (example_retry 2))" by code_simp
  then show ?thesis using retry_id_owns_chain [OF retry_example_accepted] by (simp add: retry_example_events)
qed

theorem retry_started_paired_witness:
  "\<exists>i \<in> set (retries retry_example). attempt i = attempt (started_json (example_retry 1))"
proof -
  have "started_json (example_retry 1) \<in> set (starts retry_example)" by (simp add: retry_example_events)
  then show ?thesis using retry_started_paired [OF retry_example_accepted] by blast
qed

end
