(* ===== verification/Retry_Executor.thy ===== *)
theory Retry_Executor
  imports Retry_Companion
begin

text \<open>
  The executor of retries and the companion on one log: the limit of a bounded policy, the projection the
  executor reads against the chains of the log, and the events it schedules against the checks.
\<close>

section \<open>The limit of a bounded policy\<close>

lemma normal_limit:
  assumes "well_shaped j" and "jget ''mode'' j = Some (JStr ''normal'')" and "jget ''maxRetries'' j = Some (jint m)"
  shows "retry_number j \<le> m"
proof -
  have "validate_mode j = Inr ()" using assms(1) by (auto simp: well_shaped_def validate_retry_data_def and_then_Inr_iff)
  with assms(2,3) show ?thesis by (simp add: validate_mode_def retry_number_def jfield_def not_less)
qed

text \<open>
  A bounded policy is kept: a chain whose last retry names a limit has at most that many retries.
\<close>

theorem retry_limit_kept:
  assumes "validate_retry_session es = Inr ()" and "last_opt (filter (in_chain t s p k) (retries es)) = Some j"
    and "jget ''mode'' j = Some (JStr ''normal'')" and "jget ''maxRetries'' j = Some (jint m)"
  shows "int (length (filter (in_chain t s p k) (retries es))) \<le> m"
proof -
  let ?c = "filter (in_chain t s p k) (retries es)"
  from assms(2) have j: "?c \<noteq> []" "j = last ?c" by (auto simp: last_opt_def split: if_splits)
  from last_opt_in_set [OF assms(2)] have w: "well_shaped j" using accepted_retries [OF assms(1)] by simp
  have "retry_number j = last (map retry_number ?c)" using j by (simp add: last_map)
  also have "\<dots> = int (length ?c)" unfolding chain_numbers [OF assms(1)] using j(1) by (cases "length ?c") simp_all
  finally show ?thesis using normal_limit [OF w assms(3,4)] by simp
qed

section \<open>Turns and steps of a traced log\<close>

lemma trace_step_shape:
  assumes "trace_step e tr = Inr tr'"
  shows "(open_turn tr', open_step tr', next_turn tr', next_step tr') =
    (case ev_payload e of
       TurnStart t \<Rightarrow> (Some t, open_step tr, next_turn tr, 1)
     | TurnEnd _ _ \<Rightarrow> (None, None, next_turn tr + 1, next_step tr)
     | StepStart _ s \<Rightarrow> (open_turn tr, Some s, next_turn tr, next_step tr)
     | StepEnd _ _ \<Rightarrow> (open_turn tr, None, next_turn tr, next_step tr + 1)
     | _ \<Rightarrow> (open_turn tr, open_step tr, next_turn tr, next_step tr))"
  using assms by (auto simp: validate_defs and_then_Inr_iff Let_def split: payload.splits if_splits option.splits)

lemma trace_step_guards:
  assumes "trace_step e tr = Inr tr'"
  shows "case ev_payload e of
       TurnStart t \<Rightarrow> open_turn tr = None \<and> t = next_turn tr
     | TurnEnd t _ \<Rightarrow> open_turn tr = Some t \<and> open_step tr = None
     | StepStart t s \<Rightarrow> open_turn tr = Some t \<and> open_step tr = None \<and> s = next_step tr
     | StepEnd t s \<Rightarrow> open_turn tr = Some t \<and> open_step tr = Some s
     | _ \<Rightarrow> True"
  using assms by (auto simp: validate_defs and_then_Inr_iff Let_def split: payload.splits if_splits option.splits)

text \<open>The last edges of the log are the open turn and step of the trace.\<close>

definition edges_open :: "session_event list \<Rightarrow> session_trace \<Rightarrow> bool" where
  "edges_open es tr \<longleftrightarrow>
     open_turn tr = (case map_option ev_payload (find_last is_turn_edge es) of Some (TurnStart t) \<Rightarrow> Some t | _ \<Rightarrow> None)
     \<and> (case map_option ev_payload (find_last is_step_edge es) of
          Some (StepStart t s) \<Rightarrow> open_turn tr = Some t \<and> open_step tr = Some s
        | _ \<Rightarrow> open_step tr = None)"

lemma edges_open_same:
  assumes "edges_open es tr" and "\<not> is_turn_edge e" and "\<not> is_step_edge e" and "open_turn tr' = open_turn tr"
    and "open_step tr' = open_step tr"
  shows "edges_open (es @ [e]) tr'"
proof -
  have eqs: "find_last is_turn_edge (es @ [e]) = find_last is_turn_edge es" "find_last is_step_edge (es @ [e]) = find_last is_step_edge es"
    using assms(2,3) by simp_all
  show ?thesis using assms(1) unfolding edges_open_def assms(4,5) eqs .
qed

lemma edges_open_step:
  assumes "edges_open es tr" and "trace_step e tr = Inr tr'" and "trace_inv tr"
  shows "edges_open (es @ [e]) tr'"
proof (cases "ev_payload e")
  case (TurnStart t)
  with assms trace_step_shape [OF assms(2)] trace_step_guards [OF assms(2)] show ?thesis
    by (auto simp: edges_open_def is_turn_edge_def is_step_edge_def trace_inv_def split: option.splits payload.splits)
next
  case (TurnEnd t r)
  with assms trace_step_shape [OF assms(2)] trace_step_guards [OF assms(2)] show ?thesis
    by (auto simp: edges_open_def is_turn_edge_def is_step_edge_def split: option.splits payload.splits)
next
  case (StepStart t s)
  with assms trace_step_shape [OF assms(2)] trace_step_guards [OF assms(2)] show ?thesis
    by (auto simp: edges_open_def is_turn_edge_def is_step_edge_def)
next
  case (StepEnd t s)
  with assms trace_step_shape [OF assms(2)] trace_step_guards [OF assms(2)] show ?thesis
    by (auto simp: edges_open_def is_turn_edge_def is_step_edge_def)
qed (rule edges_open_same [OF assms(1)]; use trace_step_shape [OF assms(2)] in \<open>simp add: is_turn_edge_def is_step_edge_def\<close>)+

lemma seed_session_edges: "seed_session es = Inr tr \<Longrightarrow> edges_open es tr"
proof (induction es arbitrary: tr rule: rev_induct)
  case Nil
  then show ?case by (auto simp: edges_open_def fresh_trace_def)
next
  case (snoc e es)
  then obtain tr0 where "seed_session es = Inr tr0" "trace_step e tr0 = Inr tr" by (auto simp: seed_session_snoc and_then_Inr_iff)
  with snoc.IH edges_open_step seed_session_inv show ?case by blast
qed

lemma place_is_open:
  "edges_open es tr \<Longrightarrow> validate_retry_place es j = Inr (t, s) \<Longrightarrow> open_turn tr = Some t \<and> open_step tr = Some s"
  by (auto simp: edges_open_def validate_retry_place_def and_then_Inr_iff split: option.splits payload.splits)

lemma open_is_place:
  "edges_open es tr \<Longrightarrow> open_turn tr = Some t \<Longrightarrow> open_step tr = Some s \<Longrightarrow> num_is (jget ''turn'' j) t \<Longrightarrow>
     num_is (jget ''step'' j) s \<Longrightarrow> validate_retry_place es j = Inr (t, s)"
  by (auto simp: edges_open_def validate_retry_place_def split: option.splits payload.splits)

section \<open>The projection holds the chains of the open step\<close>

definition retry_fold :: "session_event list \<Rightarrow> retry_state" where
  "retry_fold es = foldl (next_state retry_unit) [] es"

lemma retry_fold_snoc:
  "retry_fold (es @ [e]) = (case apply_retry (retry_fold es) e of Some st \<Rightarrow> st | None \<Rightarrow> retry_fold es)"
  by (simp add: retry_fold_def next_state_def retry_unit_def split: option.splits)

lemma retry_fold_Nil [simp]: "retry_fold [] = []"
  by (simp add: retry_fold_def)

definition entry_of :: "json \<Rightarrow> retry_entry" where
  "entry_of j = \<lparr>re_retry = JInt (retry_number j), re_id = retry_id j\<rparr>"

text \<open>A step the trace has already reached.\<close>

definition reached :: "session_trace \<Rightarrow> int \<Rightarrow> int \<Rightarrow> bool" where
  "reached tr t s \<longleftrightarrow> t < next_turn tr \<or> open_turn tr = Some t \<and> (s < next_step tr \<or> open_step tr = Some s)"

definition retries_reached :: "session_event list \<Rightarrow> session_trace \<Rightarrow> bool" where
  "retries_reached es tr \<longleftrightarrow> (\<forall>j \<in> set (retries es). \<forall>t s p k. in_chain t s p k j \<longrightarrow> reached tr t s)"

definition state_current :: "session_event list \<Rightarrow> session_trace \<Rightarrow> bool" where
  "state_current es tr \<longleftrightarrow> (\<forall>t s p k. open_turn tr = Some t \<longrightarrow> open_step tr = Some s \<longrightarrow>
     map_of (retry_fold es) (retry_state_key p k) = map_option entry_of (last_opt (filter (in_chain t s p k) (retries es))))"

lemma trace_step_reached:
  assumes "trace_step e tr = Inr tr'" and "trace_inv tr" and "reached tr t s"
  shows "reached tr' t s"
  using assms(2,3) trace_step_shape [OF assms(1)] trace_step_guards [OF assms(1)]
  by (cases "ev_payload e") (auto simp: reached_def trace_inv_def)

lemma scheduled_note:
  assumes "scheduled e = Some j" and "well_shaped j" and "in_chain t s p k j"
  shows "retry_note e = Some (retry_state_key p k, entry_of j)" "\<not> resets_retries e"
    "trace_step e tr = Inr tr' \<Longrightarrow> open_turn tr' = open_turn tr \<and> open_step tr' = open_step tr"
proof -
  show "retry_note e = Some (retry_state_key p k, entry_of j)"
    using assms well_shapedD(1,3) [OF assms(2)] by (simp add: retry_note_def in_chain_def entry_of_def)
  obtain n where "ev_payload e = OtherEvent n j" using assms(1) by (auto simp: scheduled_def split: payload.splits if_splits)
  then show "\<not> resets_retries e" "trace_step e tr = Inr tr' \<Longrightarrow> open_turn tr' = open_turn tr \<and> open_step tr' = open_step tr"
    using trace_step_shape [of e tr tr'] by (simp_all add: resets_retries_def)
qed

lemma apply_retry_lookup:
  assumes "retry_note e = Some (key, \<lparr>re_retry = JInt n, re_id = i\<rparr>)" and "\<not> resets_retries e"
    and "\<And>old. map_of st key = Some old \<Longrightarrow> \<exists>m. re_retry old = JInt m"
  shows "map_of (case apply_retry st e of Some st' \<Rightarrow> st' | None \<Rightarrow> st) = (map_of st)(key \<mapsto> \<lparr>re_retry = JInt n, re_id = i\<rparr>)"
proof (cases "map_of st key")
  case (Some old)
  with assms(3) obtain m where "re_retry old = JInt m" by blast
  with Some assms(1,2) show ?thesis by (auto simp: apply_retry_def fun_upd_idem_iff)
qed (use assms in \<open>simp add: apply_retry_def\<close>)

lemma state_current_step:
  assumes cur: "state_current es tr" "retries_reached es tr" and v: "validate_retry_session es = Inr ()" "check_retry_event es e = Inr ()"
    and tr: "seed_session es = Inr tr" "trace_step e tr = Inr tr'"
  shows "state_current (es @ [e]) tr' \<and> retries_reached (es @ [e]) tr'"
proof (cases "scheduled e")
  case (Some j)
  with v(2) have "validate_retry es j = Inr ()" by (simp add: check_retry_event_def)
  then obtain t0 s0 p0 k0 where w: "well_shaped j" and c: "in_chain t0 s0 p0 k0 j" and pl: "validate_retry_place es j = Inr (t0, s0)"
    by (rule validate_retry_shape)
  note n = scheduled_note [OF Some w c]
  have op: "open_turn tr = Some t0" "open_step tr = Some s0" using place_is_open [OF seed_session_edges [OF tr(1)] pl] by simp_all
  have same: "open_turn tr' = Some t0" "open_step tr' = Some s0" using n(3) [OF tr(2)] op by simp_all
  have "reached tr t s" if "in_chain t s p k j" for t s p k
    using in_chain_unique [OF c that] op by (simp add: reached_def)
  then have "retries_reached (es @ [e]) tr'"
    using cur(2) trace_step_reached [OF tr(2) seed_session_inv [OF tr(1)]] Some by (auto simp: retries_reached_def)
  moreover have "state_current (es @ [e]) tr'"
    unfolding state_current_def
  proof (intro allI impI)
    fix t s p k assume "open_turn tr' = Some t" "open_step tr' = Some s"
    with same have ts: "t = t0" "s = s0" by simp_all
    have old: "map_of (retry_fold es) (retry_state_key p k) = map_option entry_of (last_opt (filter (in_chain t0 s0 p k) (retries es)))" for p k
      using cur(1) op by (simp add: state_current_def)
    have "map_of (retry_fold (es @ [e])) = (map_of (retry_fold es))(retry_state_key p0 k0 \<mapsto> entry_of j)"
      unfolding retry_fold_snoc entry_of_def
      by (rule apply_retry_lookup [OF n(1) [unfolded entry_of_def] n(2)]) (auto simp: old entry_of_def)
    moreover have "in_chain t0 s0 p k j \<longleftrightarrow> p = p0 \<and> k = k0" using c in_chain_unique by blast
    ultimately show "map_of (retry_fold (es @ [e])) (retry_state_key p k)
        = map_option entry_of (last_opt (filter (in_chain t s p k) (retries (es @ [e]))))"
      using old by (auto simp: ts Some retry_state_key_inj last_opt_def)
  qed
  ultimately show ?thesis by blast
next
  case None
  have "retries_reached (es @ [e]) tr'"
    using cur(2) trace_step_reached [OF tr(2) seed_session_inv [OF tr(1)]] None by (auto simp: retries_reached_def)
  moreover have "state_current (es @ [e]) tr'"
  proof (cases "resets_retries e")
    case True
    show ?thesis unfolding state_current_def
    proof (intro allI impI)
      fix t s p k assume o: "open_turn tr' = Some t" "open_step tr' = Some s"
      with True have st: "ev_payload e = StepStart t s" "open_turn tr = Some t" "open_step tr = None" "s = next_step tr"
        using trace_step_shape [OF tr(2)] trace_step_guards [OF tr(2)] by (auto simp: resets_retries_def split: payload.splits)
      have "t = next_turn tr" using st(2) seed_session_inv [OF tr(1)] by (simp add: trace_inv_def)
      with st have "\<not> reached tr t s" by (simp add: reached_def)
      with cur(2) have "filter (in_chain t s p k) (retries es) = []" unfolding retries_reached_def filter_empty_conv by blast
      with None True show "map_of (retry_fold (es @ [e])) (retry_state_key p k)
          = map_option entry_of (last_opt (filter (in_chain t s p k) (retries (es @ [e]))))"
        by (simp add: retry_fold_snoc apply_retry_def last_opt_def)
    qed
  next
    case False
    have "retry_note e = None" using None by (simp add: retry_note_def)
    with False None have same: "retry_fold (es @ [e]) = retry_fold es" "retries (es @ [e]) = retries es"
      by (simp_all add: retry_fold_snoc apply_retry_def)
    have "open_turn tr = Some t \<and> open_step tr = Some s" if "open_turn tr' = Some t" "open_step tr' = Some s" for t s
      using that False trace_step_shape [OF tr(2)] trace_step_guards [OF tr(2)] seed_session_inv [OF tr(1)]
      by (auto simp: resets_retries_def trace_inv_def split: payload.splits)
    with cur(1) same show ?thesis by (simp add: state_current_def)
  qed
  ultimately show ?thesis by blast
qed

lemma retry_state_of_log:
  "validate_retry_session es = Inr () \<Longrightarrow> seed_session es = Inr tr \<Longrightarrow> state_current es tr \<and> retries_reached es tr"
proof (induction es arbitrary: tr rule: rev_induct)
  case Nil
  then show ?case by (simp add: state_current_def retries_reached_def last_opt_def)
next
  case (snoc e es)
  then obtain tr0 where tr: "seed_session es = Inr tr0" "trace_step e tr0 = Inr tr" by (auto simp: seed_session_snoc and_then_Inr_iff)
  from snoc.prems(1) have v: "validate_retry_session es = Inr ()" "check_retry_event es e = Inr ()"
    by (simp_all add: validate_retry_session_snoc)
  from snoc.IH [OF v(1) tr(1)] show ?case by (intro state_current_step [OF _ _ v tr]) simp_all
qed

section \<open>What the executor schedules passes the checks\<close>

lemma retry_json_get:
  "jget ''retryId'' (retry_json d) = Some (JStr (rd_id d))" "jget ''turn'' (retry_json d) = Some (jint (rd_turn d))"
  "jget ''step'' (retry_json d) = Some (jint (rd_step d))" "jget ''provider'' (retry_json d) = Some (JStr (rd_provider d))"
  "jget ''mode'' (retry_json d) = Some (JStr (case rd_max d of Some _ \<Rightarrow> ''normal'' | None \<Rightarrow> ''always''))"
  "jget ''policyKey'' (retry_json d) = Some (JStr (rd_key d))" "jget ''retry'' (retry_json d) = Some (jint (int (rd_retry d)))"
  "jget ''maxRetries'' (retry_json d) = map_option (\<lambda>n. jint (int n)) (rd_max d)"
  "jget ''delayMs'' (retry_json d) = Some (JNum (rat_jnum (rd_delay d)))" "jget ''failure'' (retry_json d) = Some (failure_json (rd_failure d))"
  by (simp_all add: retry_json_def opt_field_def split: option.splits)

lemma retry_json_always: "rd_max d = None \<Longrightarrow> ''maxRetries'' \<notin> set (jkeys (retry_json d))"
  by (simp add: retry_json_def opt_field_def)

text \<open>What scheduling reads from the projection and puts into its event.\<close>

lemma recover_schedules:
  "recover_request nt rnd uuid sample cx rq = Backoff d \<Longrightarrow> rq_policy rq = Some p \<Longrightarrow>
     schedule_retry nt rnd uuid sample rq p (rx_state cx) = Backoff d"
  by (auto simp: recover_request_def split: retry_policy.splits if_splits)

lemma schedule_retry_data:
  assumes "schedule_retry nt rnd uuid sample rq p st = Backoff d"
  shows "rd_turn d = rq_turn rq" "rd_step d = rq_step rq" "rd_provider d = rq_provider rq" "rd_key d = retry_policy_key nt p"
    "rd_failure d = rq_failure rq" "rd_max d = (case p of NormalRetry n _ _ \<Rightarrow> Some n | AlwaysRetry _ \<Rightarrow> None)"
    "retry_delay rnd p (rq_failure rq) (rd_retry d) sample = Some (rd_delay d)"
    "\<And>n. rd_max d = Some n \<Longrightarrow> rd_retry d \<le> n"
    "case map_of st (retry_state_key (rq_provider rq) (retry_policy_key nt p)) of
       None \<Rightarrow> rd_id d = uuid \<and> rd_retry d = 1
     | Some en \<Rightarrow> rd_id d = re_id en \<and> rd_retry d = nat (jnum_int (re_retry en)) + 1"
  using assms by (auto simp: schedule_retry_def Let_def split: if_splits option.splits retry_policy.splits)

lemma policy_key_nonempty: "retry_policy_key nt p \<noteq> []"
  by (simp add: retry_policy_key_def Let_def split: retry_policy.splits)

lemma scheduled_data_ok:
  assumes p: "policy_ok p" and rnd: "rounding rnd" "0 \<le> sample" and f: "validate_failure (Some (failure_json (rd_failure d))) = Inr ()"
    and names: "rd_id d \<noteq> []" "rd_provider d \<noteq> []" "rd_key d \<noteq> []"
    and retry: "1 \<le> rd_retry d" "int (rd_retry d) \<le> MAX_SAFE_INTEGER" "\<And>n. rd_max d = Some n \<Longrightarrow> rd_retry d \<le> n"
    and mode: "rd_max d = (case p of NormalRetry n _ _ \<Rightarrow> Some n | AlwaysRetry _ \<Rightarrow> None)"
    and delay: "retry_delay rnd p (rd_failure d) (rd_retry d) sample = Some (rd_delay d)"
  shows "well_shaped (retry_json d)"
proof -
  have "max_delay_ms (policy_backoff p) \<le> of_int MAX_TIMER_DELAY_MS" using p by (simp add: policy_ok_def backoff_ok_def)
  with retry_delay_bounds [OF rnd(1) p rnd(2) delay] have q: "0 \<le> rd_delay d" "rd_delay d \<le> of_int MAX_TIMER_DELAY_MS" by simp_all
  have "validate_mode (retry_json d) = Inr ()"
  proof (cases "rd_max d")
    case None
    then show ?thesis using retry_json_always by (simp add: validate_mode_def retry_json_get)
  next
    case (Some n)
    with mode p have "int n \<le> MAX_SAFE_INTEGER" by (auto simp: policy_ok_def split: retry_policy.splits)
    with Some retry show ?thesis by (simp add: validate_mode_def retry_json_get safe_from_iff jfield_def)
  qed
  with q f names retry(1,2) show ?thesis
    by (simp add: well_shaped_def validate_retry_data_def retry_json_get safe_from_iff and_then_Inr_iff number_of_def not_less)
qed

text \<open>The chain the next retry of a request belongs to, and what the projection says of it.\<close>

lemma retry_continues_chain:
  assumes v: "validate_retry_session es = Inr ()" and tr: "seed_session es = Inr tr"
    and op: "open_turn tr = Some (rq_turn rq)" "open_step tr = Some (rq_step rq)"
    and d: "schedule_retry nt rnd uuid sample rq p (retry_fold es) = Backoff d"
  defines "c \<equiv> filter (in_chain (rq_turn rq) (rq_step rq) (rq_provider rq) (retry_policy_key nt p)) (retries es)"
  shows "rd_retry d = Suc (length c)" "rd_id d = (case last_opt c of None \<Rightarrow> uuid | Some i \<Rightarrow> retry_id i)"
    "\<And>i. last_opt c = Some i \<Longrightarrow> retry_number i = int (length c)"
proof -
  show num: "retry_number i = int (length c)" if "last_opt c = Some i" for i
  proof -
    from that have i: "c \<noteq> []" "i = last c" by (auto simp: last_opt_def split: if_splits)
    then have "retry_number i = last (map retry_number c)" by (simp add: last_map)
    also have "\<dots> = int (length c)" unfolding c_def chain_numbers [OF v] using i(1) by (cases "length c") (simp_all add: c_def)
    finally show ?thesis .
  qed
  have st: "map_of (retry_fold es) (retry_state_key (rq_provider rq) (retry_policy_key nt p)) = map_option entry_of (last_opt c)"
    using retry_state_of_log [OF v tr] op by (simp add: state_current_def c_def)
  show "rd_retry d = Suc (length c)" "rd_id d = (case last_opt c of None \<Rightarrow> uuid | Some i \<Rightarrow> retry_id i)"
    using schedule_retry_data(9) [OF d] num unfolding st by (auto simp: entry_of_def last_opt_def split: option.splits if_splits)
qed

lemma list_ex_started: "list_ex (\<lambda>e. case started e of None \<Rightarrow> False | Some i \<Rightarrow> f i) es \<longleftrightarrow> (\<exists>i \<in> set (starts es). f i)"
proof -
  have "(case started e of None \<Rightarrow> False | Some i \<Rightarrow> f i) \<longleftrightarrow> (\<exists>i. started e = Some i \<and> f i)" for e by (simp split: option.splits)
  then show ?thesis by (simp add: list_ex_iff Bex_def starts_set) blast
qed

lemma list_ex_names:
  "list_ex (names_id j) es \<longleftrightarrow> (\<exists>i \<in> set (retries es) \<union> set (starts es). same_value (jget ''retryId'' i) (jget ''retryId'' j))"
proof -
  have "names_id j e \<longleftrightarrow> (\<exists>i. (scheduled e = Some i \<or> started e = Some i) \<and> same_value (jget ''retryId'' i) (jget ''retryId'' j))" for e
    by (simp add: names_id_def split: option.splits) blast
  then show ?thesis by (simp add: list_ex_iff Bex_def retries_set starts_set) blast
qed

lemma executor_schedules:
  assumes v: "validate_retry_session es = Inr ()" and tr: "seed_session es = Inr tr"
    and op: "open_turn tr = Some (rq_turn rq)" "open_step tr = Some (rq_step rq)"
    and provider: "provider_for_open_step es (rq_turn rq) (rq_step rq) = Some (rq_provider rq)" "rq_provider rq \<noteq> []"
    and failure: "validate_failure (Some (failure_json (rq_failure rq))) = Inr ()" and policy: "policy_ok p"
    and fresh: "uuid \<noteq> []" "\<forall>j \<in> set (retries es) \<union> set (starts es). jget ''retryId'' j \<noteq> Some (JStr uuid)"
    and room: "int (length (retries es)) < MAX_SAFE_INTEGER" and rnd: "rounding rnd" "0 \<le> sample"
    and d: "schedule_retry nt rnd uuid sample rq p (retry_fold es) = Backoff d"
  shows "validate_retry es (retry_json d) = Inr ()"
proof -
  let ?c = "filter (in_chain (rq_turn rq) (rq_step rq) (rq_provider rq) (retry_policy_key nt p)) (retries es)"
  note data = schedule_retry_data [OF d] and nx = retry_continues_chain [OF v tr op d]
  have old: "well_shaped i" "i \<in> set (retries es)" if "last_opt ?c = Some i" for i
    using last_opt_in_set [OF that] accepted_retries [OF v] by auto
  have "rd_id d \<noteq> []" unfolding nx(2) using fresh(1) well_shapedD(2) old(1) by (auto split: option.splits)
  moreover have "int (rd_retry d) \<le> MAX_SAFE_INTEGER"
    using room nx(1) length_filter_le [of "in_chain (rq_turn rq) (rq_step rq) (rq_provider rq) (retry_policy_key nt p)" "retries es"] by linarith
  ultimately have w: "well_shaped (retry_json d)"
    using policy rnd failure provider(2) policy_key_nonempty [of nt p] data(1-8) nx(1)
    by (intro scheduled_data_ok [of p rnd sample d]) simp_all
  have chain: "in_chain (rq_turn rq) (rq_step rq) (rq_provider rq) (retry_policy_key nt p) (retry_json d)"
    using data(1-4) by (simp add: in_chain_def retry_json_get num_is_def)
  have place: "validate_retry_place es (retry_json d) = Inr (rq_turn rq, rq_step rq)"
    using open_is_place [OF seed_session_edges [OF tr] op] chain by (simp add: in_chain_def)
  have prior: "last_scheduled (same_chain (retry_json d)) es = last_opt ?c"
    unfolding last_scheduled_retries ext [of "same_chain (retry_json d)", OF same_chain_iff [OF chain]] ..
  have unused: "\<not> list_ex (names_id (retry_json d)) es" if "last_opt ?c = None"
    using nx(2) that fresh(2) by (simp add: list_ex_names retry_json_get same_value_str)
  show ?thesis
  proof (cases "last_opt ?c")
    case None
    then have "?c = []" by (simp add: last_opt_def split: if_splits)
    with None w place prior provider(1) unused nx(1) data(3) show ?thesis
      by (simp add: validate_retry_def well_shaped_def retry_json_get jfield_def)
  next
    case (Some i)
    have "rd_id d = retry_id i" using nx(2) Some by simp
    with Some w place prior provider(1) nx(1) data(3) nx(3) [OF Some] well_shapedD(1,3) [OF old(1) [OF Some]] show ?thesis
      by (simp add: validate_retry_def well_shaped_def retry_json_get jfield_def number_of_def)
  qed
qed

lemma executor_starts:
  assumes v: "validate_retry_session es = Inr ()" and tr: "seed_session es = Inr tr"
    and op: "open_turn tr = Some (rq_turn rq)" "open_step tr = Some (rq_step rq)"
    and fresh: "uuid \<noteq> []" "\<forall>j \<in> set (retries es) \<union> set (starts es). jget ''retryId'' j \<noteq> Some (JStr uuid)"
    and d: "schedule_retry nt rnd uuid sample rq p (retry_fold es) = Backoff d"
    and e: "scheduled e = Some (retry_json d)" and others: "\<forall>x \<in> set others. scheduled x = None \<and> started x = None"
  shows "validate_started (es @ e # others) (started_json d) = Inr ()"
proof -
  let ?c = "filter (in_chain (rq_turn rq) (rq_step rq) (rq_provider rq) (retry_policy_key nt p)) (retries es)"
  note nx = retry_continues_chain [OF v tr op d]
  have get: "jget ''retryId'' (started_json d) = Some (JStr (rd_id d))" "jget ''turn'' (started_json d) = Some (jint (rd_turn d))"
    "jget ''step'' (started_json d) = Some (jint (rd_step d))" "jget ''retry'' (started_json d) = Some (jint (int (rd_retry d)))"
    by (simp_all add: started_json_def)
  have old: "well_shaped i" if "i \<in> set (retries es)" for i using accepted_retries [OF v that] by blast
  have "rd_id d \<noteq> []"
    unfolding nx(2) using fresh(1) last_opt_in_set old well_shapedD(2) by (fastforce split: option.splits)
  moreover have "retries (es @ e # others) = retries es @ [retry_json d]"
    using e others by (induction others rule: rev_induct) (simp_all flip: append_Cons append_assoc)
  moreover have "\<not> same_attempt (started_json d) x" if x: "x \<in> set (starts es)" for x
  proof
    assume same: "same_attempt (started_json d) x"
    from started_attempts [OF v] x obtain i where i: "i \<in> set (retries es)" "same_attempt x i" by blast
    note a = same_attempt_shaped [OF old [OF i(1)] i(2)]
    have n: "retry_id i = rd_id d" "retry_number i = int (rd_retry d)" using same a(3,4) get by (simp_all add: same_attempt_def)
    show False
    proof (cases "last_opt ?c")
      case None
      with nx(2) n(1) have "retry_id i = uuid" by simp
      with fresh(2) i(1) well_shapedD(1) [OF old [OF i(1)]] show False by auto
    next
      case (Some l)
      then have l: "l \<in> set (retries es)" "in_chain (rq_turn rq) (rq_step rq) (rq_provider rq) (retry_policy_key nt p) l"
        using last_opt_in_set [OF Some] by simp_all
      have "retry_id l = retry_id i" using nx(2) Some n(1) by simp
      then have "i \<in> set ?c" using ids_own_chains [OF v l(1) i(1) l(2)] i(1) by simp
      then have "retry_number i \<in> set (map retry_number ?c)" by simp
      then show False unfolding chain_numbers [OF v] using n(2) nx(1) by auto
    qed
  qed
  moreover have "starts (es @ e # others) = starts es"
    using e others by (induction others rule: rev_induct)
      (auto simp flip: append_Cons append_assoc simp: scheduled_def started_def split: payload.splits if_splits)
  ultimately show ?thesis using get
    by (simp add: validate_started_def last_scheduled_retries list_ex_started same_attempt_def retry_json_get last_opt_def)
qed

text \<open>
  Claim C32. The executor and the companion agree: on an accepted and traced log, a failed request of the open step whose policy is
  within bounds is scheduled with an event the companion accepts, and so is the start that follows its wait, as
  long as nobody else retries meanwhile.
\<close>

theorem executor_retries_accepted:
  assumes v: "validate_retry_session es = Inr ()" and tr: "seed_session es = Inr tr"
    and op: "open_turn tr = Some (rq_turn rq)" "open_step tr = Some (rq_step rq)"
    and provider: "provider_for_open_step es (rq_turn rq) (rq_step rq) = Some (rq_provider rq)" "rq_provider rq \<noteq> []"
    and failure: "validate_failure (Some (failure_json (rq_failure rq))) = Inr ()"
    and policy: "rq_policy rq = Some p" "policy_ok p"
    and state: "rx_state cx = retry_fold es"
    and fresh: "uuid \<noteq> []" "\<forall>j \<in> set (retries es) \<union> set (starts es). jget ''retryId'' j \<noteq> Some (JStr uuid)"
    and room: "int (length (retries es)) < MAX_SAFE_INTEGER"
    and rnd: "rounding rnd" "0 \<le> sample"
    and d: "recover_request nt rnd uuid sample cx rq = Backoff d"
    and e: "scheduled e = Some (retry_json d)" "started e' = Some (started_json d)"
    and others: "\<forall>x \<in> set others. scheduled x = None \<and> started x = None"
  shows "check_retry_event es e = Inr () \<and> check_retry_event (es @ e # others) e' = Inr ()"
proof -
  have d': "schedule_retry nt rnd uuid sample rq p (retry_fold es) = Backoff d"
    using recover_schedules [OF d policy(1)] state by simp
  have "scheduled e' = None" using e(2) by (auto simp: started_def scheduled_def split: payload.splits if_splits)
  with e executor_schedules [OF v tr op provider failure policy(2) fresh room rnd d'] executor_starts [OF v tr op fresh d' e(1) others]
  show ?thesis by (simp add: check_retry_event_def)
qed

text \<open>
  The state the executor decides on is that of the log: once the unit is registered, the registry answers
  its read with the fold of the whole log, whatever was delivered before.
\<close>

theorem retry_state_is_fold:
  assumes "registry_run s reg" and "map_of reg ''llmRetry'' = Some r" and "rg_unit r = retry_unit"
  shows "fst (state_of s ''llmRetry'' reg) = Inr (Some (retry_fold (s_log s)))"
proof -
  have inv: "log_numbered s" "registry_ok s reg" using registry_run_inv [OF assms(1)] log_numbered_reach by auto
  have "prefix_state s (length (s_log s)) retry_unit = retry_fold (s_log s)"
    by (simp add: prefix_state_def unit_fold_def retry_fold_def retry_unit_def)
  then show ?thesis using reads_are_folds(1) [OF inv, of "''llmRetry''"] assms(2,3) by simp
qed

text \<open>
  Claim C34. No wait outlasts a timer: under a policy resolved from any configuration a scheduled wait is between zero
  and the longest delay of the policy, which a timer can hold, and a bounded policy never schedules beyond its limit.
\<close>

theorem scheduled_wait_bounded:
  assumes "resolve_retry_policy config = Inr p" and "rq_policy rq = Some p" and "rounding rnd" and "0 \<le> sample"
    and "recover_request nt rnd uuid sample cx rq = Backoff d"
  shows "0 \<le> rd_delay d \<and> rd_delay d \<le> max_delay_ms (policy_backoff p) \<and> rd_delay d \<le> of_int MAX_TIMER_DELAY_MS
     \<and> (case p of NormalRetry n codes _ \<Rightarrow> rd_retry d \<le> n \<and> failure_code (rq_failure rq) \<in> set codes | AlwaysRetry _ \<Rightarrow> True)"
proof -
  have ok: "policy_ok p" by (rule resolve_retry_policy_ok [OF assms(1)])
  note d = schedule_retry_data [OF recover_schedules [OF assms(5,2)]]
  have "failure_code (rq_failure rq) \<in> set codes" if "p = NormalRetry n codes b" for n codes b
    using assms(2,5) that by (auto simp: recover_request_def split: if_splits)
  with retry_delay_bounds [OF assms(3) ok assms(4) d(7)] ok d(6,8) show ?thesis
    by (auto simp: policy_ok_def backoff_ok_def split: retry_policy.splits)
qed

section \<open>A concrete request\<close>

definition example_policy :: retry_policy where
  "example_policy = NormalRetry 2 [''SERVER''] \<lparr>initial_delay_ms = 500, max_delay_ms = 10000, jitter_ratio = 1 / 10\<rparr>"

definition example_request :: retry_request where
  "example_request = \<lparr>rq_turn = 1, rq_step = 1, rq_provider = ''p'',
     rq_failure = example_failure\<lparr>provider_retry_after_ms := Some 100\<rparr>, rq_policy = Some example_policy\<rparr>"

definition example_context :: recovery_context where
  "example_context = \<lparr>rx_aborted = (\<lambda>_. False), rx_downstream = Inr NoAction, rx_state = []\<rparr>"

lemma example_backoff:
  obtains d where "recover_request (\<lambda>_. ''0'') (\<lambda>q. q) ''u'' 0 example_context example_request = Backoff d"
proof -
  have "retry_delay (\<lambda>q. q) example_policy (example_failure\<lparr>provider_retry_after_ms := Some 100\<rparr>) 1 0 = Some 100"
    by (simp add: retry_delay_def provider_delay_def example_policy_def example_failure_def)
  then show ?thesis using that
    by (simp add: recover_request_def schedule_retry_def example_request_def example_context_def example_policy_def example_failure_def Let_def)
qed

lemma rounding_id: "rounding (\<lambda>q. q)"
  by (simp add: rounding_def mono_def)

lemma example_policy_ok: "policy_ok example_policy"
  by (simp add: policy_ok_def backoff_ok_def example_policy_def MAX_TIMER_DELAY_MS_def MAX_SAFE_INTEGER_def)

theorem retry_limit_kept_witness:
  "int (length (filter (in_chain 1 1 ''p'' ''k'') (retries retry_example))) \<le> 2"
proof -
  have "last_opt (filter (in_chain 1 1 ''p'' ''k'') (retries retry_example)) = Some (retry_json (example_retry 2))"
    by (simp add: retry_example_events in_chain_def retry_json_get num_is_def example_retry_def last_opt_def)
  then show ?thesis
    by (rule retry_limit_kept [OF retry_example_accepted]) (simp_all add: retry_json_get example_retry_def)
qed

theorem executor_retries_accepted_witness:
  "\<exists>d. recover_request (\<lambda>_. ''0'') (\<lambda>q. q) ''u'' 0 example_context example_request = Backoff d
     \<and> check_retry_event example_open (log_event (OtherEvent ''llm/retry'' (retry_json d)) 3) = Inr ()
     \<and> check_retry_event (example_open @ [log_event (OtherEvent ''llm/retry'' (retry_json d)) 3])
         (log_event (OtherEvent ''llm/retry-started'' (started_json d)) 4) = Inr ()"
proof -
  obtain d where d: "recover_request (\<lambda>_. ''0'') (\<lambda>q. q) ''u'' 0 example_context example_request = Backoff d"
    by (rule example_backoff)
  have "case seed_session example_open of Inr tr \<Rightarrow> open_turn tr = Some 1 \<and> open_step tr = Some 1 | _ \<Rightarrow> False" by code_simp
  then obtain tr where tr: "seed_session example_open = Inr tr" "open_turn tr = Some 1" "open_step tr = Some 1"
    by (auto split: sum.splits)
  have v: "validate_retry_session example_open = Inr ()" by code_simp
  have p: "provider_for_open_step example_open 1 1 = Some ''p''" by code_simp
  have f: "validate_failure (Some (failure_json (example_failure\<lparr>provider_retry_after_ms := Some 100\<rparr>))) = Inr ()" by code_simp
  have st: "retry_fold example_open = []" by code_simp
  have none: "retries example_open = []" "starts example_open = []" by code_simp+
  let ?e = "log_event (OtherEvent ''llm/retry'' (retry_json d)) 3" and ?e' = "log_event (OtherEvent ''llm/retry-started'' (started_json d)) 4"
  have e: "scheduled ?e = Some (retry_json d)" "started ?e' = Some (started_json d)"
    by (simp_all add: scheduled_def started_def log_event_def)
  have "check_retry_event example_open ?e = Inr () \<and> check_retry_event (example_open @ ?e # []) ?e' = Inr ()"
    by (rule executor_retries_accepted [OF v tr(1) _ _ _ _ _ _ example_policy_ok _ _ _ _ rounding_id _ d e])
      (use tr p f st none in \<open>simp_all add: example_request_def example_context_def MAX_SAFE_INTEGER_def\<close>)
  with d show ?thesis by blast
qed

definition retry_registry :: "(retry_state, unit) registry" where
  "retry_registry = [(''llmRetry'', \<lparr>rg_unit = retry_unit, rg_cell = None, rg_refs = 1\<rparr>)]"

lemma retry_registry_run: "session_reach s \<Longrightarrow> registry_run s retry_registry"
  by (rule registry_run.registered [OF registry_run.opened, of s retry_unit])
    (simp_all add: register_unit_def retry_registry_def retry_unit_def MAX_SAFE_INTEGER_def)

lemma retry_session:
  "\<exists>s. construct_session 0 ''s'' (Some retry_example) None SnapshotSeed None = Inr s \<and> s_log s = retry_example @ [log_event EndSeed 6]"
proof -
  have "is_ok (and_then (rethrow (\<lambda>_. ()) (construct_session 0 ''s'' (Some retry_example) None SnapshotSeed None))
      (\<lambda>s. reject_if (s_log s \<noteq> retry_example @ [log_event EndSeed 6]) ()))" by code_simp
  then show ?thesis by (auto simp: is_ok_iff and_then_Inr_iff)
qed

theorem retry_state_is_fold_witness:
  "\<exists>s. s_log s = retry_example @ [log_event EndSeed 6] \<and> fst (state_of s ''llmRetry'' retry_registry) = Inr (Some (retry_fold (s_log s)))"
proof -
  obtain s where s: "construct_session 0 ''s'' (Some retry_example) None SnapshotSeed None = Inr s" "s_log s = retry_example @ [log_event EndSeed 6]"
    using retry_session by blast
  have "fst (state_of s ''llmRetry'' retry_registry) = Inr (Some (retry_fold (s_log s)))"
    by (rule retry_state_is_fold [OF retry_registry_run [OF session_reach.construct [OF s(1)]]])
      (simp add: retry_registry_def, simp)
  with s(2) show ?thesis by auto
qed

theorem scheduled_wait_bounded_witness:
  "\<exists>d. recover_request (\<lambda>_. ''0'') (\<lambda>q. q) ''u'' 0 example_context example_request = Backoff d \<and> rd_delay d \<le> 10000"
proof -
  obtain d where d: "recover_request (\<lambda>_. ''0'') (\<lambda>q. q) ''u'' 0 example_context example_request = Backoff d"
    by (rule example_backoff)
  let ?config = "Some [(''mode'', JStr ''normal''), (''maxRetries'', jint 2), (''retryableCodes'', JArr [JStr ''SERVER''])]"
  have p: "resolve_retry_policy ?config = Inr example_policy" by code_simp
  show ?thesis using scheduled_wait_bounded [OF p _ rounding_id _ d] d by (simp add: example_request_def example_policy_def)
qed

end
