(* ===== verification/Adapter_Failure.thy ===== *)
theory Adapter_Failure
  imports Retry_Companion
begin

text \<open>
  \<open>packages/llm/llm/src/adapter-failure.ts\<close>: what an adapter throws, normalized to the failure of a request. A
  thrown error is what the normalization can read of it: its message, its own data properties \<open>code\<close> and \<open>failure\<close>
  (absent when an accessor or a trap hides them), and its code when it is an error of the harness. The
  carried failure is a JSON value; another thrown value is what \<open>String\<close> makes of it, if that does not throw.
\<close>

record thrown_error =
  te_message :: "string option"
  te_code :: "json option"
  te_failure :: "json option"
  te_harness :: "string option"

datatype thrown = ThrownError thrown_error | ThrownValue "string option"

definition thrown_message :: "string option \<Rightarrow> string" where
  "thrown_message text = (case text of Some m \<Rightarrow> if length m > 0 then m else ''LLM adapter failed'' | None \<Rightarrow> ''LLM adapter failed'')"

definition failure_snapshot :: "json \<Rightarrow> json option" where
  "failure_snapshot value =
     (if \<not> is_record value then None
      else
        let msg = jget ''message'' value; code = jget ''code'' value; status = jget ''status'' value;
            retry_after = jget ''providerRetryAfterMs'' value; request = jget ''requestId'' value
        in if \<not> filled_str msg \<or> \<not> filled_str code
             \<or> (case status of None \<Rightarrow> False | Some v \<Rightarrow> \<not> integer_within 100 599 v)
             \<or> (case retry_after of None \<Rightarrow> False | Some v \<Rightarrow> (case number_of v of None \<Rightarrow> True | Some q \<Rightarrow> q \<le> 0))
             \<or> (case request of None \<Rightarrow> False | Some v \<Rightarrow> \<not> filled_str (Some v))
           then None
           else Some (JObj ([(''message'', the msg), (''code'', the code)] @ opt_field ''status'' status
             @ opt_field ''providerRetryAfterMs'' retry_after @ opt_field ''requestId'' request)))"

definition error_message :: "thrown_error \<Rightarrow> string" where
  "error_message e = (case te_message e of Some m \<Rightarrow> if length m > 0 then m else ''LLM adapter failed'' | None \<Rightarrow> ''LLM adapter failed'')"

definition harness_error_code :: "thrown_error \<Rightarrow> string" where
  "harness_error_code e = (case te_harness e of Some c \<Rightarrow> c | None \<Rightarrow> ''UNKNOWN'')"

text \<open>The harness error that wraps a value which is no error.\<close>

definition wrap_thrown :: "thrown \<Rightarrow> thrown_error" where
  "wrap_thrown v =
     (case v of
        ThrownError e \<Rightarrow> e
      | ThrownValue text \<Rightarrow>
          \<lparr>te_message = Some (thrown_message text), te_code = Some (JStr ''UNKNOWN''), te_failure = None, te_harness = Some ''UNKNOWN''\<rparr>)"

definition normalize_llm_failure :: "thrown \<Rightarrow> json" where
  "normalize_llm_failure v =
     (let e = wrap_thrown v;
          fallback = JObj [(''message'', JStr (error_message e)), (''code'', JStr (harness_error_code e))]
      in case Option.bind (te_failure e) failure_snapshot of
        Some carried \<Rightarrow> if same_value (jget ''code'' carried) (te_code e) then carried else fallback
      | None \<Rightarrow> fallback)"

section \<open>Every normalized failure is well formed\<close>

lemma guarded_Some: "(if a then None else if b then None else Some x) = Some y \<longleftrightarrow> \<not> a \<and> \<not> b \<and> x = y"
  by simp

lemma snapshot_get:
  fixes a b st ra rq
  defines "j \<equiv> JObj ([(''message'', a), (''code'', b)] @ opt_field ''status'' st @ opt_field ''providerRetryAfterMs'' ra @ opt_field ''requestId'' rq)"
  shows "jget ''message'' j = Some a" "jget ''code'' j = Some b" "jget ''status'' j = st" "jget ''providerRetryAfterMs'' j = ra"
    "jget ''requestId'' j = rq" "is_record j"
  unfolding j_def by (simp_all add: opt_field_def is_record_def split: option.splits)

lemma failure_snapshot_ok:
  assumes "failure_snapshot v = Some f"
  shows "validate_failure (Some f) = Inr ()"
proof -
  note snap = assms [unfolded failure_snapshot_def Let_def guarded_Some de_Morgan_disj not_not]
  from snap have ok: "filled_str (jget ''message'' v)" "filled_str (jget ''code'' v)" by simp_all
  from snap have f: "JObj ([(''message'', the (jget ''message'' v)), (''code'', the (jget ''code'' v))] @ opt_field ''status'' (jget ''status'' v)
      @ opt_field ''providerRetryAfterMs'' (jget ''providerRetryAfterMs'' v) @ opt_field ''requestId'' (jget ''requestId'' v)) = f" by blast
  from ok(1,2) have "Some (the (jget ''message'' v)) = jget ''message'' v" "Some (the (jget ''code'' v)) = jget ''code'' v"
    by (auto simp: filled_str_iff)
  with snap show ?thesis unfolding f [symmetric] validate_failure_def option.case snapshot_get by (simp only: snapshot_get reject_if_simps and_then_simps simp_thms)
qed

text \<open>
  Whatever an adapter throws, the failure recorded for it passes the check of the retry companion, as long as
  the harness gives its own errors a code.
\<close>

theorem normalized_failure_ok:
  assumes "\<And>e. v = ThrownError e \<Longrightarrow> te_harness e \<noteq> Some []"
  shows "validate_failure (Some (normalize_llm_failure v)) = Inr ()"
proof -
  have "error_message e \<noteq> []" for e by (simp add: error_message_def split: option.splits)
  moreover have "harness_error_code (wrap_thrown v) \<noteq> []"
    using assms by (auto simp: harness_error_code_def wrap_thrown_def split: thrown.splits option.splits)
  ultimately have "validate_failure (Some (JObj [(''message'', JStr (error_message (wrap_thrown v))),
      (''code'', JStr (harness_error_code (wrap_thrown v)))])) = Inr ()"
    by (simp add: validate_failure_def is_record_def)
  then show ?thesis using failure_snapshot_ok
    by (auto simp: normalize_llm_failure_def Let_def split: option.splits bind_splits)
qed

lemma failure_snapshot_json:
  assumes "validate_failure (Some (failure_json f)) = Inr ()"
  shows "failure_snapshot (failure_json f) = Some (failure_json f)"
  using assms
  by (cases "failure_status f"; cases "provider_retry_after_ms f"; cases "request_id f")
    (auto simp: validate_failure_def failure_snapshot_def failure_json_def opt_field_def and_then_Inr_iff is_record_def)

text \<open>
  Facts an error carries are kept: an error whose own failure is well formed and whose own code agrees with it
  normalizes to exactly that failure, and to none of it when the codes disagree.
\<close>

theorem carried_failure_kept:
  assumes "validate_failure (Some (failure_json f)) = Inr ()" and "te_failure e = Some (failure_json f)"
  shows "normalize_llm_failure (ThrownError e) =
    (if te_code e = Some (JStr (failure_code f)) then failure_json f
     else JObj [(''message'', JStr (error_message e)), (''code'', JStr (harness_error_code e))])"
proof -
  have "jget ''code'' (failure_json f) = Some (JStr (failure_code f))" by (simp add: failure_json_def)
  moreover have "same_value (Some (JStr x)) w \<longleftrightarrow> w = Some (JStr x)" for x w
    by (cases w) (auto split: json.splits elim: same_value.elims)
  ultimately show ?thesis using failure_snapshot_json [OF assms(1)] assms(2)
    by (simp add: normalize_llm_failure_def wrap_thrown_def Let_def)
qed

section \<open>Examples\<close>

definition example_thrown :: thrown_error where
  "example_thrown = \<lparr>te_message = Some ''busy'', te_code = Some (JStr ''SERVER''), te_failure = Some (failure_json example_failure),
     te_harness = Some ''SERVER''\<rparr>"

theorem normalized_failure_ok_witness:
  "validate_failure (Some (normalize_llm_failure (ThrownError example_thrown))) = Inr ()"
  by (rule normalized_failure_ok) (simp add: example_thrown_def)

theorem carried_failure_kept_witness:
  "normalize_llm_failure (ThrownError example_thrown) = failure_json example_failure"
proof -
  have "validate_failure (Some (failure_json example_failure)) = Inr ()" by code_simp
  from carried_failure_kept [OF this, of example_thrown] show ?thesis by (simp add: example_thrown_def example_failure_def)
qed

end
