(* ===== verification/Tool_Calls.thy ===== *)
theory Tool_Calls
  imports Session_Log Session_Trace
begin

text \<open>
  \<open>packages/core/agent-loop/src/tool-calls.ts\<close>: the scheduler of the tool calls of one step. The two asynchronous
  functions are one machine: a function per stretch of code between two awaits, and a label for whatever ends an
  await. The tool registry is the outside: how it prepares, dispatches and finalizes a call comes with the labels, and
  so do an abort, a change of the registry and what others append.
\<close>

section \<open>Calls, results and the state\<close>

record tool_call =
  tc_id :: string
  tc_name :: string
  tc_arguments :: string

record execution_result =
  xr_content :: "content_block list"
  xr_is_error :: bool
  xr_error :: "(string \<times> string) option"
  xr_meta :: "json option"
  xr_contexts :: "user_message list"
  xr_concludes :: bool

text \<open>\<open>PlannedCall\<close> without its execution input, which the registry alone reads; \<open>Slot\<close> likewise.\<close>

record slot =
  sl_result :: execution_result
  sl_post :: bool

datatype preparation = PrepDispatch | PrepPost execution_result | PrepFinal execution_result

datatype scheduler_failure = ToolFault string | AppendFault session_error | UncommittedCalls

datatype scheduler_point =
    Preparing
  | Finalizing
  | Racing
  | Draining
  | GroupReturned nat bool
  | CallsReturned
  | CallsFailed

record scheduler =
  sd_session :: session
  sd_contexts :: "user_message list"
  sd_signal :: bool
  sd_classify :: "tool_call \<Rightarrow> bool"
  sd_limit :: nat
  sd_planned :: "tool_call list"
  sd_base :: nat
  sd_turn_concluded :: bool
  sd_group :: "tool_call list"
  sd_parallel :: bool
  sd_slots :: "slot option list"
  sd_call_seqs :: "nat option list"
  sd_next :: nat
  sd_committed :: nat
  sd_started :: nat
  sd_aborted :: bool
  sd_concluded :: bool
  sd_failure :: "scheduler_failure option"
  sd_in_flight :: "nat list"
  sd_settled :: "nat list"
  sd_point :: scheduler_point

text \<open>
  The step the calls belong to, and what synchronous calls answer, by the length of the log when they are made: the
  clock, a fresh message id, and the registry's \<open>finish\<close>.
\<close>

record scheduler_env =
  se_turn :: int
  se_step :: int
  se_clock :: "nat \<Rightarrow> int"
  se_message_id :: "nat \<Rightarrow> string"
  se_finish :: "nat \<Rightarrow> execution_result \<Rightarrow> (string, execution_result) result"

abbreviation sd_log :: "scheduler \<Rightarrow> session_event list" where
  "sd_log st \<equiv> s_log (sd_session st)"

section \<open>Appending calls and results\<close>

definition TOOL_ABORTED_BEFORE_DISPATCH :: string where
  "TOOL_ABORTED_BEFORE_DISPATCH = ''ABORTED_BEFORE_DISPATCH''"

definition put_event ::
    "scheduler_env \<Rightarrow> payload \<Rightarrow> json option \<Rightarrow> json option \<Rightarrow> scheduler \<Rightarrow> (session_error, nat) result \<times> scheduler" where
  "put_event env p op sources st =
     (case session_append (se_clock env (length (sd_log st))) p op sources (sd_session st) of
        (Inl err, s) \<Rightarrow> (Inl err, st\<lparr>sd_session := s\<rparr>)
      | (Inr e, s) \<Rightarrow> (Inr (ev_seq e), st\<lparr>sd_session := s\<rparr>))"

definition append_tool_call :: "scheduler_env \<Rightarrow> tool_call \<Rightarrow> scheduler \<Rightarrow> (session_error, nat) result \<times> scheduler" where
  "append_tool_call env c st =
     put_event env (ToolCallEvent (se_turn env) (se_step env) (tc_id c) (tc_name c) (tc_arguments c)) None None st"

definition result_data :: "scheduler_env \<Rightarrow> nat \<Rightarrow> tool_call \<Rightarrow> execution_result \<Rightarrow> tool_result_data" where
  "result_data env n c r =
     \<lparr>res_turn = se_turn env, res_step = se_step env,
      res_message = \<lparr>tr_id = se_message_id env n, tr_call_id = tc_id c, tr_block_call_id = tc_id c, tr_content = xr_content r,
        tr_is_error = Some (xr_is_error r)\<rparr>,
      res_error = xr_error r, res_meta = xr_meta r\<rparr>"

definition append_tool_result ::
    "scheduler_env \<Rightarrow> tool_call \<Rightarrow> execution_result \<Rightarrow> nat \<Rightarrow> scheduler \<Rightarrow> (session_error, nat) result \<times> scheduler" where
  "append_tool_result env c r call_seq st =
     put_event env (ToolResultEvent (result_data env (length (sd_log st)) c r)) (Some append_op) (Some (seqs_json [call_seq])) st"

definition skipped_result :: execution_result where
  "skipped_result =
     \<lparr>xr_content = [TextBlock ''Error: tool call aborted before dispatch''], xr_is_error = True,
      xr_error = Some (''AbortError'', TOOL_ABORTED_BEFORE_DISPATCH), xr_meta = None, xr_contexts = [], xr_concludes = False\<rparr>"

definition append_skipped_call :: "scheduler_env \<Rightarrow> tool_call \<Rightarrow> scheduler \<Rightarrow> (session_error, unit) result \<times> scheduler" where
  "append_skipped_call env c st =
     (case append_tool_call env c st of
        (Inl err, st1) \<Rightarrow> (Inl err, st1)
      | (Inr call_seq, st1) \<Rightarrow>
          (case append_tool_result env c skipped_result call_seq st1 of
             (Inl err, st2) \<Rightarrow> (Inl err, st2)
           | (Inr _, st2) \<Rightarrow> (Inr (), st2)))"

fun skip_calls :: "scheduler_env \<Rightarrow> tool_call list \<Rightarrow> scheduler \<Rightarrow> (session_error, unit) result \<times> scheduler" where
  "skip_calls env [] st = (Inr (), st)"
| "skip_calls env (c # cs) st =
     (case append_skipped_call env c st of
        (Inl err, st') \<Rightarrow> (Inl err, st')
      | (Inr _, st') \<Rightarrow> skip_calls env cs st')"

section \<open>One group\<close>

text \<open>A throw inside the group: the first failure is kept, and what is in flight drains.\<close>

definition fail_group :: "scheduler_failure \<Rightarrow> scheduler \<Rightarrow> scheduler" where
  "fail_group err st =
     st\<lparr>sd_failure := (case sd_failure st of None \<Rightarrow> Some err | Some first \<Rightarrow> Some first), sd_point := Draining\<rparr>"

text \<open>A throw past the drain.\<close>

definition fail_calls :: "scheduler_failure \<Rightarrow> scheduler \<Rightarrow> scheduler" where
  "fail_calls err st = st\<lparr>sd_failure := Some err, sd_point := CallsFailed\<rparr>"

definition group_done :: "scheduler_env \<Rightarrow> scheduler \<Rightarrow> scheduler" where
  "group_done env st =
     (if sd_aborted st then
        case skip_calls env (drop (sd_started st) (sd_group st)) st of
          (Inl err, st') \<Rightarrow> fail_calls (AppendFault err) st'
        | (Inr _, st') \<Rightarrow> st'\<lparr>sd_point := GroupReturned (length (sd_group st)) True\<rparr>
      else if sd_committed st \<noteq> sd_started st then fail_calls UncommittedCalls st
      else st\<lparr>sd_point := GroupReturned (sd_started st) False\<rparr>)"

definition start_call :: "scheduler_env \<Rightarrow> scheduler \<Rightarrow> scheduler" where
  "start_call env st =
     (case append_tool_call env (sd_group st ! sd_next st) st of
        (Inl err, st') \<Rightarrow> fail_group (AppendFault err) st'
      | (Inr call_seq, st') \<Rightarrow>
          st'\<lparr>sd_call_seqs := (sd_call_seqs st')[sd_next st := Some call_seq], sd_started := sd_started st' + 1, sd_point := Preparing\<rparr>)"

text \<open>The pool is filled, then the race is entered while anything is in flight.\<close>

definition fill_pool :: "scheduler_env \<Rightarrow> scheduler \<Rightarrow> scheduler" where
  "fill_pool env st =
     (if \<not> sd_aborted st \<and> sd_next st < length (sd_group st) \<and> length (sd_in_flight st) < sd_limit st
         \<and> \<not> (sd_next st > 0 \<and> sd_parallel st \<and> \<not> sd_classify st (sd_group st ! sd_next st))
      then start_call env st
      else if sd_in_flight st \<noteq> [] then st\<lparr>sd_point := Racing\<rparr>
      else group_done env st)"

text \<open>After a commit: a recorded failure is thrown, an abort is noted.\<close>

definition after_commit :: "scheduler_env \<Rightarrow> scheduler \<Rightarrow> scheduler" where
  "after_commit env st =
     (case sd_failure st of
        Some err \<Rightarrow> fail_group err st
      | None \<Rightarrow> fill_pool env (if sd_signal st then st\<lparr>sd_aborted := True\<rparr> else st))"

definition commit_result :: "scheduler_env \<Rightarrow> execution_result \<Rightarrow> scheduler \<Rightarrow> (scheduler_failure, unit) result \<times> scheduler" where
  "commit_result env r st =
     (case append_tool_result env (sd_group st ! sd_committed st) r (the (sd_call_seqs st ! sd_committed st)) st of
        (Inl err, st') \<Rightarrow> (Inl (AppendFault err), st')
      | (Inr _, st') \<Rightarrow>
          (Inr (), st'\<lparr>sd_contexts := sd_contexts st' @ xr_contexts r, sd_concluded := sd_concluded st' \<or> xr_concludes r,
             sd_committed := sd_committed st' + 1\<rparr>))"

lemma put_event_frame:
  "\<exists>s. snd (put_event env p op sources st) = st\<lparr>sd_session := s\<rparr>"
  by (auto simp: put_event_def split: prod.splits sum.splits)

lemma commit_result_counts:
  "sd_group (snd (commit_result env r st)) = sd_group st"
  "fst (commit_result env r st) = Inr () \<Longrightarrow> sd_committed (snd (commit_result env r st)) = Suc (sd_committed st)"
  unfolding commit_result_def append_tool_result_def
  using put_event_frame [of env "ToolResultEvent (result_data env (length (sd_log st)) (sd_group st ! sd_committed st) r)" "Some append_op"
      "Some (seqs_json [the (sd_call_seqs st ! sd_committed st)])" st]
  by (auto split: prod.splits sum.splits)

text \<open>\<open>commitReady\<close> up to its next await, and what follows it.\<close>

function commit_ready :: "scheduler_env \<Rightarrow> scheduler \<Rightarrow> scheduler" where
  "commit_ready env st =
     (if sd_committed st < length (sd_group st) then
        case sd_slots st ! sd_committed st of
          None \<Rightarrow> after_commit env st
        | Some slot \<Rightarrow>
            if sl_post slot then st\<lparr>sd_point := Finalizing\<rparr>
            else case se_finish env (length (sd_log st)) (sl_result slot) of
              Inl x \<Rightarrow> fail_group (ToolFault x) st
            | Inr r \<Rightarrow>
                if is_ok (fst (commit_result env r st)) then commit_ready env (snd (commit_result env r st))
                else fail_group (projl (fst (commit_result env r st))) (snd (commit_result env r st))
      else after_commit env st)"
  by pat_completeness auto
termination
  by (relation "measure (\<lambda>(env, st). length (sd_group st) - sd_committed st)")
    (use commit_result_counts in \<open>auto simp: is_ok_iff\<close>)

declare commit_ready.simps [simp del]

definition start_group :: "scheduler_env \<Rightarrow> nat \<Rightarrow> scheduler \<Rightarrow> scheduler" where
  "start_group env limit st =
     (let first = sd_planned st ! sd_base st;
          parallel = sd_classify st first;
          group = (if parallel then drop (sd_base st) (sd_planned st) else [first])
      in fill_pool env (st\<lparr>sd_limit := limit, sd_group := group, sd_parallel := parallel,
           sd_slots := replicate (length group) None, sd_call_seqs := replicate (length group) None,
           sd_next := 0, sd_committed := 0, sd_started := 0, sd_aborted := sd_signal st, sd_concluded := False,
           sd_failure := None, sd_in_flight := [], sd_settled := []\<rparr>))"

section \<open>What ends an await\<close>

definition on_prepared :: "scheduler_env \<Rightarrow> (string, preparation) result \<Rightarrow> scheduler \<Rightarrow> scheduler" where
  "on_prepared env outcome st =
     (case outcome of
        Inl x \<Rightarrow> fail_group (ToolFault x) st
      | Inr p \<Rightarrow>
          (case sd_failure st of
             Some err \<Rightarrow> fail_group err st
           | None \<Rightarrow>
               let i = sd_next st;
                   st' = (case p of
                       PrepDispatch \<Rightarrow> st\<lparr>sd_in_flight := sd_in_flight st @ [i]\<rparr>
                     | PrepPost r \<Rightarrow> st\<lparr>sd_slots := (sd_slots st)[i := Some \<lparr>sl_result = r, sl_post = True\<rparr>]\<rparr>
                     | PrepFinal r \<Rightarrow> st\<lparr>sd_slots := (sd_slots st)[i := Some \<lparr>sl_result = r, sl_post = False\<rparr>]\<rparr>)
               in commit_ready env (st'\<lparr>sd_next := i + 1\<rparr>)))"

text \<open>A dispatch settles while something else is awaited.\<close>

definition on_settled :: "nat \<Rightarrow> (string, execution_result \<times> bool) result \<Rightarrow> scheduler \<Rightarrow> scheduler" where
  "on_settled i outcome st =
     (case outcome of
        Inl x \<Rightarrow> st\<lparr>sd_settled := i # sd_settled st,
          sd_failure := (case sd_failure st of None \<Rightarrow> Some (ToolFault x) | Some first \<Rightarrow> Some first)\<rparr>
      | Inr (r, post) \<Rightarrow> st\<lparr>sd_settled := i # sd_settled st, sd_slots := (sd_slots st)[i := Some \<lparr>sl_result = r, sl_post = post\<rparr>]\<rparr>)"

definition on_race :: "scheduler_env \<Rightarrow> nat \<Rightarrow> scheduler \<Rightarrow> scheduler" where
  "on_race env i st =
     (let st' = st\<lparr>sd_in_flight := remove1 i (sd_in_flight st)\<rparr>
      in case sd_failure st' of Some err \<Rightarrow> fail_group err st' | None \<Rightarrow> commit_ready env st')"

definition on_finalized :: "scheduler_env \<Rightarrow> (string, execution_result) result \<Rightarrow> scheduler \<Rightarrow> scheduler" where
  "on_finalized env outcome st =
     (case outcome of
        Inl x \<Rightarrow> fail_group (ToolFault x) st
      | Inr r \<Rightarrow>
          (case commit_result env r st of
             (Inl err, st') \<Rightarrow> fail_group err st'
           | (Inr _, st') \<Rightarrow> commit_ready env st'))"

text \<open>The outer loop: after a group, skip the rest, run the next group, or return.\<close>

definition on_group_end :: "scheduler_env \<Rightarrow> nat \<Rightarrow> nat \<Rightarrow> bool \<Rightarrow> scheduler \<Rightarrow> scheduler" where
  "on_group_end env limit consumed aborted st =
     (let st' = st\<lparr>sd_base := sd_base st + consumed, sd_turn_concluded := sd_turn_concluded st \<or> sd_concluded st\<rparr>
      in if aborted then
           case skip_calls env (drop (sd_base st') (sd_planned st')) st' of
             (Inl err, st'') \<Rightarrow> fail_calls (AppendFault err) st''
           | (Inr _, st'') \<Rightarrow> st''\<lparr>sd_point := CallsReturned\<rparr>
         else if sd_base st' < length (sd_planned st') then start_group env limit st'
         else st'\<lparr>sd_point := CallsReturned\<rparr>)"

definition execute_tool_calls :: "scheduler_env \<Rightarrow> nat \<Rightarrow> bool \<Rightarrow> (tool_call \<Rightarrow> bool) \<Rightarrow> tool_call list \<Rightarrow> session \<Rightarrow> scheduler" where
  "execute_tool_calls env limit signal classify planned s =
     (let st = \<lparr>sd_session = s, sd_contexts = [], sd_signal = signal, sd_classify = classify, sd_limit = limit,
          sd_planned = planned, sd_base = 0, sd_turn_concluded = False, sd_group = [], sd_parallel = False, sd_slots = [],
          sd_call_seqs = [], sd_next = 0, sd_committed = 0, sd_started = 0, sd_aborted = False, sd_concluded = False,
          sd_failure = None, sd_in_flight = [], sd_settled = [], sd_point = CallsReturned\<rparr>
      in if sd_base st < length planned then start_group env limit st else st)"

datatype scheduler_label =
    Prepared "(string, preparation) result"
  | Settled nat "(string, execution_result \<times> bool) result"
  | RaceWon nat
  | Finalized "(string, execution_result) result"
  | Drained
  | GroupEnd nat

definition awaiting :: "scheduler_point \<Rightarrow> bool" where
  "awaiting p = (case p of GroupReturned _ _ \<Rightarrow> False | CallsReturned \<Rightarrow> False | CallsFailed \<Rightarrow> False | _ \<Rightarrow> True)"

definition scheduler_step :: "scheduler_env \<Rightarrow> scheduler_label \<Rightarrow> scheduler \<Rightarrow> scheduler option" where
  "scheduler_step env l st =
     (case l of
        Prepared outcome \<Rightarrow> if sd_point st = Preparing then Some (on_prepared env outcome st) else None
      | Settled i outcome \<Rightarrow>
          if awaiting (sd_point st) \<and> i \<in> set (sd_in_flight st) \<and> i \<notin> set (sd_settled st) then Some (on_settled i outcome st) else None
      | RaceWon i \<Rightarrow>
          if sd_point st = Racing \<and> i \<in> set (sd_in_flight st) \<and> i \<in> set (sd_settled st) then Some (on_race env i st) else None
      | Finalized outcome \<Rightarrow> if sd_point st = Finalizing then Some (on_finalized env outcome st) else None
      | Drained \<Rightarrow>
          if sd_point st = Draining \<and> set (sd_in_flight st) \<subseteq> set (sd_settled st) then Some (st\<lparr>sd_point := CallsFailed\<rparr>) else None
      | GroupEnd limit \<Rightarrow>
          (case sd_point st of
             GroupReturned consumed aborted \<Rightarrow> if limit > 0 then Some (on_group_end env limit consumed aborted st) else None
           | _ \<Rightarrow> None))"

section \<open>Runs\<close>

text \<open>What others append while the calls run: nothing that opens, closes or answers.\<close>

definition bystander :: "scheduler_env \<Rightarrow> session_event \<Rightarrow> bool" where
  "bystander env e =
     (case ev_payload e of
        TurnStart _ \<Rightarrow> False | TurnEnd _ _ \<Rightarrow> False | StepStart _ _ \<Rightarrow> False | StepEnd _ _ \<Rightarrow> False
      | ToolCallEvent _ _ _ _ _ \<Rightarrow> False | ToolResultEvent _ \<Rightarrow> False
      | AssistantChunk t s _ \<Rightarrow> t = se_turn env \<and> s = se_step env
      | AssistantMessageEvent d \<Rightarrow> asst_turn d = se_turn env \<and> asst_step d = se_step env
      | _ \<Rightarrow> True)"

text \<open>The states reached after \<open>n\<close> labels, from a session with room to reach its own log.\<close>

inductive scheduler_run :: "scheduler_env \<Rightarrow> session \<Rightarrow> tool_call list \<Rightarrow> nat \<Rightarrow> scheduler \<Rightarrow> bool"
  for env s0 planned where
  called: "session_reach s0 \<Longrightarrow> 0 < limit \<Longrightarrow>
     scheduler_run env s0 planned 0 (execute_tool_calls env limit signal classify planned s0)"
| labelled: "scheduler_run env s0 planned n st \<Longrightarrow> scheduler_step env l st = Some st' \<Longrightarrow> scheduler_run env s0 planned (Suc n) st'"
| signalled: "scheduler_run env s0 planned n st \<Longrightarrow> scheduler_run env s0 planned n (st\<lparr>sd_signal := True\<rparr>)"
| reclassified: "scheduler_run env s0 planned n st \<Longrightarrow> scheduler_run env s0 planned n (st\<lparr>sd_classify := f\<rparr>)"
| others: "scheduler_run env s0 planned n st \<Longrightarrow> session_reach s \<Longrightarrow> s_log s = sd_log st @ es \<Longrightarrow> list_all (bystander env) es \<Longrightarrow>
     scheduler_run env s0 planned n (st\<lparr>sd_session := s\<rparr>)"

section \<open>The calls and results of the step in a log\<close>

definition call_note :: "scheduler_env \<Rightarrow> session_event \<Rightarrow> (nat \<times> tool_call) option" where
  "call_note env e =
     (case ev_payload e of
        ToolCallEvent t s c n a \<Rightarrow>
          if t = se_turn env \<and> s = se_step env then Some (ev_seq e, \<lparr>tc_id = c, tc_name = n, tc_arguments = a\<rparr>) else None
      | _ \<Rightarrow> None)"

definition result_note :: "scheduler_env \<Rightarrow> session_event \<Rightarrow> (string \<times> json option) option" where
  "result_note env e =
     (case ev_payload e of
        ToolResultEvent d \<Rightarrow>
          if res_turn d = se_turn env \<and> res_step d = se_step env \<and> ev_surface_op e = Some append_op
          then Some (tr_call_id (res_message d), ev_sources e) else None
      | _ \<Rightarrow> None)"

definition logged_calls :: "scheduler_env \<Rightarrow> session_event list \<Rightarrow> (nat \<times> tool_call) list" where
  "logged_calls env es = List.map_filter (call_note env) es"

definition logged_results :: "scheduler_env \<Rightarrow> session_event list \<Rightarrow> (string \<times> json option) list" where
  "logged_results env es = List.map_filter (result_note env) es"

lemma logged_append [simp]:
  "logged_calls env [] = []" "logged_results env [] = []"
  "logged_calls env (xs @ ys) = logged_calls env xs @ logged_calls env ys"
  "logged_results env (xs @ ys) = logged_results env xs @ logged_results env ys"
  by (simp_all add: logged_calls_def logged_results_def map_filter_def)

lemma logged_single [simp]:
  "logged_calls env [e] = (case call_note env e of None \<Rightarrow> [] | Some x \<Rightarrow> [x])"
  "logged_results env [e] = (case result_note env e of None \<Rightarrow> [] | Some x \<Rightarrow> [x])"
  by (simp_all add: logged_calls_def logged_results_def map_filter_def split: option.splits)

lemma bystander_logs:
  assumes "list_all (bystander env) es"
  shows "logged_calls env es = []" "logged_results env es = []"
proof -
  have "call_note env e = None \<and> result_note env e = None" if "bystander env e" for e
    using that by (auto simp: bystander_def call_note_def result_note_def split: payload.splits)
  with assms show "logged_calls env es = []" "logged_results env es = []"
    by (auto simp: logged_calls_def logged_results_def map_filter_def list_all_iff)
qed

text \<open>The answer a call must get: its identity, citing its own event.\<close>

definition answer_to :: "nat \<times> tool_call \<Rightarrow> string \<times> json option" where
  "answer_to = (\<lambda>(q, c). (tc_id c, Some (seqs_json [q])))"

text \<open>The trace accepts the log, and waits exactly for the calls logged and not yet answered.\<close>

definition traced :: "scheduler_env \<Rightarrow> session \<Rightarrow> tool_call list \<Rightarrow> session \<Rightarrow> nat \<Rightarrow> nat \<Rightarrow> bool" where
  "traced env s0 planned s m k \<longleftrightarrow> (\<forall>tr. seed_session (s_log s0) = Inr tr \<longrightarrow>
     open_turn tr = Some (se_turn env) \<and> open_step tr = Some (se_step env) \<and> distinct (map tc_id planned)
       \<and> pending_calls tr \<inter> set (map tc_id planned) = {} \<longrightarrow>
     (\<exists>tr'. seed_session (s_log s) = Inr tr' \<and> open_turn tr' = Some (se_turn env) \<and> open_step tr' = Some (se_step env)
        \<and> last_seq tr' < int (length (s_log s)) \<and> pending_calls tr' = pending_calls tr \<union> set (map tc_id (drop k (take m planned)))))"

lemma seed_session_last: "seed_session es = Inr tr \<Longrightarrow> last_seq tr = (if es = [] then -1 else int (ev_seq (last es)))"
proof (induction es arbitrary: tr rule: rev_induct)
  case (snoc e es)
  then obtain tr0 where "trace_step e tr0 = Inr tr" by (auto simp: seed_session_snoc and_then_Inr_iff)
  then show ?case by (auto simp: validate_defs and_then_Inr_iff Let_def split: payload.splits if_splits option.splits)
qed (simp add: fresh_trace_def)

lemma session_numbered: "session_reach s \<Longrightarrow> i < length (s_log s) \<Longrightarrow> ev_seq (s_log s ! i) = i"
  using fold_window_seqs [of 0 "s_log s"] session_reach_inv [of s] by (auto simp: session_inv_def is_ok_iff)

lemma traced_start:
  assumes "session_reach s0"
  shows "traced env s0 planned s0 k k"
proof -
  have "last_seq tr < int (length (s_log s0))" if "seed_session (s_log s0) = Inr tr" for tr
    using seed_session_last [OF that] session_numbered [OF assms, of "length (s_log s0) - 1"] by (auto simp: last_conv_nth)
  then show ?thesis by (auto simp: traced_def)
qed

text \<open>One more event, whose effect on the calls waited for is known.\<close>

lemma traced_step:
  assumes t: "traced env s0 planned s m k" and e: "s_log s' = s_log s @ [e]" "ev_seq e = length (s_log s)"
    and step: "\<And>tr'. open_turn tr' = Some (se_turn env) \<Longrightarrow> open_step tr' = Some (se_step env) \<Longrightarrow> last_seq tr' < int (length (s_log s)) \<Longrightarrow>
        set (map tc_id (drop k (take m planned))) \<subseteq> pending_calls tr' \<Longrightarrow>
      \<exists>tr''. trace_step e tr' = Inr tr'' \<and> open_turn tr'' = open_turn tr' \<and> open_step tr'' = open_step tr'
        \<and> last_seq tr'' = int (ev_seq e) \<and> pending_calls tr'' = f (pending_calls tr')"
    and f: "\<And>P. distinct (map tc_id planned) \<Longrightarrow> P \<inter> set (map tc_id planned) = {} \<Longrightarrow>
      f (P \<union> set (map tc_id (drop k (take m planned)))) = P \<union> set (map tc_id (drop k' (take m' planned)))"
  shows "traced env s0 planned s' m' k'"
  unfolding traced_def
proof (intro allI impI)
  fix tr assume tr: "seed_session (s_log s0) = Inr tr"
    and start: "open_turn tr = Some (se_turn env) \<and> open_step tr = Some (se_step env) \<and> distinct (map tc_id planned)
       \<and> pending_calls tr \<inter> set (map tc_id planned) = {}"
  with t obtain tr' where tr': "seed_session (s_log s) = Inr tr'" "open_turn tr' = Some (se_turn env)" "open_step tr' = Some (se_step env)"
    "last_seq tr' < int (length (s_log s))" "pending_calls tr' = pending_calls tr \<union> set (map tc_id (drop k (take m planned)))"
    unfolding traced_def by blast
  obtain tr'' where tr'': "trace_step e tr' = Inr tr''" "open_turn tr'' = Some (se_turn env)" "open_step tr'' = Some (se_step env)"
    "last_seq tr'' = int (ev_seq e)" "pending_calls tr'' = f (pending_calls tr')"
    using step [OF tr'(2-4)] tr'(2,3,5) by auto
  have "pending_calls tr'' = pending_calls tr \<union> set (map tc_id (drop k' (take m' planned)))"
    unfolding tr''(5) tr'(5) using start by (intro f) simp_all
  with tr'(1) tr'' e show "\<exists>tr'. seed_session (s_log s') = Inr tr' \<and> open_turn tr' = Some (se_turn env) \<and> open_step tr' = Some (se_step env)
      \<and> last_seq tr' < int (length (s_log s')) \<and> pending_calls tr' = pending_calls tr \<union> set (map tc_id (drop k' (take m' planned)))"
    by (simp add: seed_session_snoc)
qed

lemma traced_call:
  assumes t: "traced env s0 planned s m k" and m: "k \<le> m" "m < length planned"
    and e: "s_log s' = s_log s @ [e]" "ev_seq e = length (s_log s)"
      "ev_payload e = ToolCallEvent (se_turn env) (se_step env) (tc_id (planned ! m)) n a"
  shows "traced env s0 planned s' (Suc m) k"
proof (rule traced_step [OF t e(1,2), where f = "insert (tc_id (planned ! m))"])
  show "insert (tc_id (planned ! m)) (P \<union> set (map tc_id (drop k (take m planned)))) = P \<union> set (map tc_id (drop k (take (Suc m) planned)))" for P
    using m by (simp add: take_Suc_conv_app_nth)
qed (use e(2,3) in \<open>simp add: validate_defs\<close>)

lemma traced_result:
  assumes t: "traced env s0 planned s m k" and m: "k < m" "m \<le> length planned"
    and e: "s_log s' = s_log s @ [e]" "ev_seq e = length (s_log s)" "ev_payload e = ToolResultEvent d" "ev_surface_op e = Some append_op"
      "res_turn d = se_turn env" "res_step d = se_step env" "tr_call_id (res_message d) = tc_id (planned ! k)"
  shows "traced env s0 planned s' m (Suc k)"
proof (rule traced_step [OF t e(1,2), where f = "\<lambda>P. P - {tc_id (planned ! k)}"])
  have d: "drop k (take m planned) = planned ! k # drop (Suc k) (take m planned)"
    using m Cons_nth_drop_Suc [of k "take m planned"] by simp
  show "(P \<union> set (map tc_id (drop k (take m planned)))) - {tc_id (planned ! k)} = P \<union> set (map tc_id (drop (Suc k) (take m planned)))"
    if "distinct (map tc_id planned)" "P \<inter> set (map tc_id planned) = {}" for P
  proof -
    have "distinct (map tc_id (drop k (take m planned)))" using that(1) by (simp flip: drop_map take_map)
    then have "tc_id (planned ! k) \<notin> set (map tc_id (drop (Suc k) (take m planned)))" unfolding d by simp
    moreover have "tc_id (planned ! k) \<notin> P" using that(2) m by auto
    ultimately show ?thesis unfolding d by auto
  qed
  show "\<exists>tr''. trace_step e tr' = Inr tr'' \<and> open_turn tr'' = open_turn tr' \<and> open_step tr'' = open_step tr'
      \<and> last_seq tr'' = int (ev_seq e) \<and> pending_calls tr'' = pending_calls tr' - {tc_id (planned ! k)}"
    if "open_turn tr' = Some (se_turn env)" "open_step tr' = Some (se_step env)" "last_seq tr' < int (length (s_log s))"
      "set (map tc_id (drop k (take m planned))) \<subseteq> pending_calls tr'" for tr'
    using that e(2-7) unfolding d by (simp add: validate_defs Let_def)
qed

lemma bystander_step:
  assumes "bystander env e" and "open_turn tr = Some (se_turn env)" and "open_step tr = Some (se_step env)" and "last_seq tr < int (ev_seq e)"
  shows "\<exists>tr'. trace_step e tr = Inr tr' \<and> open_turn tr' = open_turn tr \<and> open_step tr' = open_step tr
     \<and> last_seq tr' = int (ev_seq e) \<and> pending_calls tr' = pending_calls tr"
  using assms by (cases "ev_payload e") (simp_all add: bystander_def validate_defs)

lemma traced_others:
  assumes "traced env s0 planned s m k" and "session_reach s'" and "s_log s' = s_log s @ es" and "list_all (bystander env) es"
  shows "traced env s0 planned s' m k"
proof -
  have "\<exists>tr'. seed_session (s_log s @ take i es) = Inr tr' \<and> open_turn tr' = Some (se_turn env) \<and> open_step tr' = Some (se_step env)
      \<and> last_seq tr' < int (length (s_log s) + i) \<and> pending_calls tr' = pending_calls tr"
    if "seed_session (s_log s) = Inr tr" "open_turn tr = Some (se_turn env)" "open_step tr = Some (se_step env)"
      "last_seq tr < int (length (s_log s))" "i \<le> length es" for tr i
    using that(5)
  proof (induction i)
    case 0
    with that show ?case by simp
  next
    case (Suc i)
    then obtain tr' where tr': "seed_session (s_log s @ take i es) = Inr tr'" "open_turn tr' = Some (se_turn env)" "open_step tr' = Some (se_step env)"
      "last_seq tr' < int (length (s_log s) + i)" "pending_calls tr' = pending_calls tr" by auto
    have e: "bystander env (es ! i)" using assms(4) Suc.prems by (simp add: list_all_length)
    have seq: "ev_seq (es ! i) = length (s_log s) + i"
      using session_numbered [OF assms(2), of "length (s_log s) + i"] assms(3) Suc.prems by (simp add: nth_append)
    from bystander_step [OF e tr'(2,3)] tr'(4) seq obtain tr'' where "trace_step (es ! i) tr' = Inr tr''" "open_turn tr'' = open_turn tr'"
      "open_step tr'' = open_step tr'" "last_seq tr'' = int (ev_seq (es ! i))" "pending_calls tr'' = pending_calls tr'" by auto
    with tr' seq Suc.prems show ?case
      by (simp add: take_Suc_conv_app_nth seed_session_snoc flip: append_assoc)
  qed
  from this [of _ "length es"] assms(1,3) show ?thesis unfolding traced_def by fastforce
qed

text \<open>The first \<open>m\<close> calls are logged in model order, and the first \<open>k\<close> of them are answered in that order.\<close>

definition log_shape :: "scheduler_env \<Rightarrow> session \<Rightarrow> tool_call list \<Rightarrow> session \<Rightarrow> nat \<Rightarrow> nat \<Rightarrow> bool" where
  "log_shape env s0 planned s m k \<longleftrightarrow> session_reach s \<and> k \<le> m \<and> m \<le> length planned \<and> traced env s0 planned s m k
     \<and> (\<exists>es. s_log s = s_log s0 @ es \<and> map snd (logged_calls env es) = take m planned
          \<and> logged_results env es = map answer_to (take k (logged_calls env es)))"

text \<open>The sequence number of the \<open>i\<close>-th logged call.\<close>

definition call_seq_at :: "scheduler_env \<Rightarrow> session \<Rightarrow> session \<Rightarrow> nat \<Rightarrow> nat" where
  "call_seq_at env s0 s i = fst (logged_calls env (drop (length (s_log s0)) (s_log s)) ! i)"

lemma put_event_cases:
  assumes "session_reach (sd_session st)"
  obtains err s where "put_event env p op sources st = (Inl err, st\<lparr>sd_session := s\<rparr>)" "session_reach s" "s_log s = sd_log st"
  | e s where "put_event env p op sources st = (Inr (ev_seq e), st\<lparr>sd_session := s\<rparr>)" "session_reach s" "s_log s = sd_log st @ [e]"
      "ev_payload e = p" "ev_surface_op e = op" "ev_sources e = sources" "ev_seq e = length (sd_log st)"
proof -
  obtain r s where a: "session_append (se_clock env (length (sd_log st))) p op sources (sd_session st) = (r, s)" by fastforce
  have "session_reach s" using session_reach.append [OF assms, of "se_clock env (length (sd_log st))" p op sources] a by simp
  with session_append_log [OF session_reach_inv [OF assms] a] a that show ?thesis
    by (cases r) (auto simp: put_event_def)
qed

lemma append_tool_call_shape:
  assumes "log_shape env s0 planned (sd_session st) m k" and "m < length planned"
  obtains err s where "append_tool_call env (planned ! m) st = (Inl err, st\<lparr>sd_session := s\<rparr>)" "log_shape env s0 planned s m k"
      "s_log s = sd_log st"
  | s where "append_tool_call env (planned ! m) st = (Inr (call_seq_at env s0 s m), st\<lparr>sd_session := s\<rparr>)" "log_shape env s0 planned s (Suc m) k"
      "\<And>i. i < m \<Longrightarrow> call_seq_at env s0 s i = call_seq_at env s0 (sd_session st) i"
proof -
  from assms(1) obtain es where es: "sd_log st = s_log s0 @ es" "map snd (logged_calls env es) = take m planned"
      "logged_results env es = map answer_to (take k (logged_calls env es))" "k \<le> m" "session_reach (sd_session st)"
    and t: "traced env s0 planned (sd_session st) m k"
    by (auto simp: log_shape_def)
  have len: "length (logged_calls env es) = m" using es(2) assms(2) by (metis length_map length_take min.absorb4)
  show ?thesis
  proof (cases rule: put_event_cases [OF es(5), of env "ToolCallEvent (se_turn env) (se_step env) (tc_id (planned ! m)) (tc_name (planned ! m)) (tc_arguments (planned ! m))" None None])
    case (1 err s)
    with assms(1) that(1) show ?thesis by (simp add: append_tool_call_def log_shape_def traced_def)
  next
    case (2 e s)
    have n: "call_note env e = Some (ev_seq e, planned ! m)" "result_note env e = None"
      using 2(4) by (simp_all add: call_note_def result_note_def)
    have seq: "call_seq_at env s0 s m = ev_seq e" "\<And>i. i < m \<Longrightarrow> call_seq_at env s0 s i = call_seq_at env s0 (sd_session st) i"
      using 2(3) es(1) n len by (simp_all add: call_seq_at_def nth_append)
    have "traced env s0 planned s (Suc m) k" by (rule traced_call [OF t es(4) assms(2) 2(3,7,4)])
    then have "log_shape env s0 planned s (Suc m) k"
      unfolding log_shape_def using 2(2,3) es n len assms(2)
      by (auto intro!: exI [of _ "es @ [e]"] simp: take_Suc_conv_app_nth)
    then show ?thesis using 2(1) seq by (intro that(2) [of s]) (simp_all add: append_tool_call_def)
  qed
qed

lemma append_tool_result_shape:
  assumes "log_shape env s0 planned (sd_session st) m k" and "k < m"
  obtains err s where "append_tool_result env (planned ! k) r (call_seq_at env s0 (sd_session st) k) st = (Inl err, st\<lparr>sd_session := s\<rparr>)"
      "log_shape env s0 planned s m k" "s_log s = sd_log st"
  | q s where "append_tool_result env (planned ! k) r (call_seq_at env s0 (sd_session st) k) st = (Inr q, st\<lparr>sd_session := s\<rparr>)"
      "log_shape env s0 planned s m (Suc k)" "\<And>i. i < m \<Longrightarrow> call_seq_at env s0 s i = call_seq_at env s0 (sd_session st) i"
proof -
  from assms(1) obtain es where es: "sd_log st = s_log s0 @ es" "map snd (logged_calls env es) = take m planned"
      "logged_results env es = map answer_to (take k (logged_calls env es))" "m \<le> length planned" "session_reach (sd_session st)"
    and t: "traced env s0 planned (sd_session st) m k"
    by (auto simp: log_shape_def)
  have len: "length (logged_calls env es) = m" using es(2,4) by (metis length_map length_take min.absorb2)
  have c: "snd (logged_calls env es ! k) = planned ! k"
    using arg_cong [OF es(2), of "\<lambda>xs. xs ! k"] assms(2) len by simp
  let ?q = "call_seq_at env s0 (sd_session st) k"
  show ?thesis
  proof (cases rule: put_event_cases [OF es(5), of env "ToolResultEvent (result_data env (length (sd_log st)) (planned ! k) r)"
        "Some append_op" "Some (seqs_json [?q])"])
    case (1 err s)
    with assms(1) that(1) show ?thesis by (simp add: append_tool_result_def log_shape_def traced_def)
  next
    case (2 e s)
    have "?q = fst (logged_calls env es ! k)" using es(1) by (simp add: call_seq_at_def)
    then have n: "call_note env e = None" "result_note env e = Some (answer_to (logged_calls env es ! k))"
      using 2(4-6) c by (simp_all add: call_note_def result_note_def result_data_def answer_to_def split_beta)
    have "traced env s0 planned s m (Suc k)"
      by (rule traced_result [OF t assms(2) es(4) 2(3,7,4,5)]) (simp_all add: result_data_def)
    then have "log_shape env s0 planned s m (Suc k)"
      unfolding log_shape_def using 2(2,3) es n len assms(2)
      by (auto intro!: exI [of _ "es @ [e]"] simp: take_Suc_conv_app_nth)
    moreover have "call_seq_at env s0 s i = call_seq_at env s0 (sd_session st) i" for i
      using 2(3) es(1) n by (simp add: call_seq_at_def)
    ultimately show ?thesis using that(2) 2(1) by (simp add: append_tool_result_def)
  qed
qed

lemma log_shape_others:
  assumes "log_shape env s0 planned s m k" and "session_reach s'" and "s_log s' = s_log s @ es" and "list_all (bystander env) es"
  shows "log_shape env s0 planned s' m k" "call_seq_at env s0 s' i = call_seq_at env s0 s i"
  using assms bystander_logs [OF assms(4)] traced_others [OF _ assms(2-4)]
  by (auto simp: log_shape_def call_seq_at_def)

lemma skip_calls_shape:
  assumes "log_shape env s0 planned (sd_session st) m m" and "take (length cs) (drop m planned) = cs"
  obtains err s k l where "skip_calls env cs st = (Inl err, st\<lparr>sd_session := s\<rparr>)" "log_shape env s0 planned s k l"
  | s where "skip_calls env cs st = (Inr (), st\<lparr>sd_session := s\<rparr>)" "log_shape env s0 planned s (m + length cs) (m + length cs)"
  using assms
proof (induction cs arbitrary: st m thesis)
  case Nil
  from Nil(2)[of "sd_session st"] Nil(3) show ?case by simp
next
  case (Cons c cs)
  have d: "drop m planned = c # drop (Suc m) planned" "take (length cs) (drop (Suc m) planned) = cs"
    using Cons.prems(4) by (cases "drop m planned"; simp add: drop_Suc flip: tl_drop)+
  then have m: "m < length planned" "planned ! m = c" by (metis drop_eq_Nil linorder_not_le list.discI, metis nth_via_drop)
  show ?case
  proof (cases rule: append_tool_call_shape [OF Cons.prems(3) m(1)])
    case (1 err s)
    with Cons.prems(1) m(2) show ?thesis by (auto simp: append_skipped_call_def)
  next
    case (2 s)
    let ?st = "st\<lparr>sd_session := s\<rparr>"
    have shape: "log_shape env s0 planned (sd_session ?st) (Suc m) m" using 2(2) by simp
    show ?thesis
    proof (cases rule: append_tool_result_shape [OF shape lessI, of skipped_result])
      case inner: (1 err s')
      with 2(1) Cons.prems(1) m(2) show ?thesis by (auto simp: append_skipped_call_def)
    next
      case inner: (2 q s')
      have skip: "append_skipped_call env c st = (Inr (), st\<lparr>sd_session := s'\<rparr>)" using 2(1) inner(1) m(2) by (simp add: append_skipped_call_def)
      have "log_shape env s0 planned (sd_session (st\<lparr>sd_session := s'\<rparr>)) (Suc m) (Suc m)" using inner(2) by simp
      from Cons.IH [OF _ _ this d(2)] skip Cons.prems(1,2) show ?thesis by fastforce
    qed
  qed
qed

section \<open>The invariant\<close>

definition group_ok :: "tool_call list \<Rightarrow> scheduler \<Rightarrow> bool" where
  "group_ok planned st \<longleftrightarrow> sd_planned st = planned \<and> sd_base st < length planned \<and> 0 < sd_limit st
     \<and> sd_group st = (if sd_parallel st then drop (sd_base st) planned else [planned ! sd_base st])"

lemma group_ok_update [simp]:
  "group_ok planned (st\<lparr>sd_session := s\<rparr>) = group_ok planned st"
  "group_ok planned (st\<lparr>sd_slots := x1\<rparr>) = group_ok planned st"
  "group_ok planned (st\<lparr>sd_call_seqs := x2\<rparr>) = group_ok planned st"
  "group_ok planned (st\<lparr>sd_next := x3\<rparr>) = group_ok planned st"
  "group_ok planned (st\<lparr>sd_committed := x3\<rparr>) = group_ok planned st"
  "group_ok planned (st\<lparr>sd_started := x3\<rparr>) = group_ok planned st"
  "group_ok planned (st\<lparr>sd_aborted := x4\<rparr>) = group_ok planned st"
  "group_ok planned (st\<lparr>sd_concluded := x4\<rparr>) = group_ok planned st"
  "group_ok planned (st\<lparr>sd_signal := x4\<rparr>) = group_ok planned st"
  "group_ok planned (st\<lparr>sd_classify := x5\<rparr>) = group_ok planned st"
  "group_ok planned (st\<lparr>sd_contexts := x6\<rparr>) = group_ok planned st"
  "group_ok planned (st\<lparr>sd_failure := x7\<rparr>) = group_ok planned st"
  "group_ok planned (st\<lparr>sd_in_flight := x8\<rparr>) = group_ok planned st"
  "group_ok planned (st\<lparr>sd_settled := x8\<rparr>) = group_ok planned st"
  "group_ok planned (st\<lparr>sd_point := x9\<rparr>) = group_ok planned st"
  by (simp_all add: group_ok_def)

definition pool_ok :: "tool_call list \<Rightarrow> scheduler \<Rightarrow> bool" where
  "pool_ok planned st \<longleftrightarrow> group_ok planned st \<and> length (sd_slots st) = length (sd_group st) \<and> length (sd_call_seqs st) = length (sd_group st)
     \<and> sd_committed st \<le> sd_next st \<and> sd_next st \<le> length (sd_group st)
     \<and> distinct (sd_in_flight st) \<and> (\<forall>i \<in> set (sd_in_flight st) \<union> set (sd_settled st). i < sd_next st)
     \<and> length (sd_in_flight st) \<le> sd_limit st
     \<and> sd_failure st \<noteq> Some UncommittedCalls
     \<and> (\<forall>i < length (sd_group st). sd_slots st ! i \<noteq> None \<longrightarrow> i < sd_next st)
     \<and> (sd_failure st = None \<longrightarrow> (\<forall>i < sd_next st. sd_slots st ! i \<noteq> None \<or> i \<in> set (sd_in_flight st) \<and> i \<notin> set (sd_settled st)))"

text \<open>The group's counts against the log.\<close>

definition log_ok :: "scheduler_env \<Rightarrow> session \<Rightarrow> tool_call list \<Rightarrow> scheduler \<Rightarrow> bool" where
  "log_ok env s0 planned st \<longleftrightarrow>
     log_shape env s0 planned (sd_session st) (sd_base st + sd_started st) (sd_base st + sd_committed st)
     \<and> (\<forall>i < sd_started st. sd_call_seqs st ! i = Some (call_seq_at env s0 (sd_session st) (sd_base st + i)))"

definition running :: "scheduler_env \<Rightarrow> session \<Rightarrow> tool_call list \<Rightarrow> scheduler \<Rightarrow> bool" where
  "running env s0 planned st \<longleftrightarrow> pool_ok planned st \<and> log_ok env s0 planned st \<and> sd_started st = sd_next st"

definition nothing_ready :: "scheduler \<Rightarrow> bool" where
  "nothing_ready st \<longleftrightarrow> (sd_committed st < length (sd_group st) \<longrightarrow> sd_slots st ! sd_committed st = None)"

definition scheduler_inv :: "scheduler_env \<Rightarrow> session \<Rightarrow> tool_call list \<Rightarrow> scheduler \<Rightarrow> bool" where
  "scheduler_inv env s0 planned st \<longleftrightarrow> sd_planned st = planned \<and> length (sd_in_flight st) \<le> sd_limit st \<and> distinct (sd_in_flight st)
     \<and> sd_failure st \<noteq> Some UncommittedCalls
     \<and> (case sd_point st of
          Preparing \<Rightarrow> pool_ok planned st \<and> log_ok env s0 planned st \<and> sd_started st = Suc (sd_next st)
            \<and> sd_next st < length (sd_group st) \<and> length (sd_in_flight st) < sd_limit st
        | Finalizing \<Rightarrow> running env s0 planned st \<and> sd_committed st < sd_next st
        | Racing \<Rightarrow> running env s0 planned st \<and> sd_in_flight st \<noteq> []
        | Draining \<Rightarrow> sd_failure st \<noteq> None \<and> (\<exists>m k. log_shape env s0 planned (sd_session st) m k)
        | GroupReturned c a \<Rightarrow> 0 < c \<and> sd_base st + c \<le> length planned
            \<and> log_shape env s0 planned (sd_session st) (sd_base st + c) (sd_base st + c)
        | CallsReturned \<Rightarrow> log_shape env s0 planned (sd_session st) (length planned) (length planned)
        | CallsFailed \<Rightarrow> sd_failure st \<noteq> None \<and> (\<exists>m k. log_shape env s0 planned (sd_session st) m k))"

text \<open>Labels left, at most.\<close>

definition unsettled :: "scheduler \<Rightarrow> nat" where
  "unsettled st = length (filter (\<lambda>i. i \<notin> set (sd_settled st)) (sd_in_flight st))"

definition pool_work :: "scheduler \<Rightarrow> nat" where
  "pool_work st = 5 * (length (sd_planned st) - (sd_base st + sd_started st)) + (sd_next st - sd_committed st)
     + length (sd_in_flight st) + unsettled st + 1"

definition work_left :: "scheduler \<Rightarrow> nat" where
  "work_left st =
     (case sd_point st of
        Preparing \<Rightarrow> pool_work st + 4
      | Finalizing \<Rightarrow> pool_work st
      | Racing \<Rightarrow> pool_work st
      | Draining \<Rightarrow> unsettled st + 1
      | GroupReturned c a \<Rightarrow> 5 * (length (sd_planned st) - (sd_base st + c)) + 1
      | _ \<Rightarrow> 0)"

text \<open>A good outcome of a stretch of code that may use \<open>b\<close> more labels.\<close>

definition started_safely :: "scheduler \<Rightarrow> bool" where
  "started_safely st \<longleftrightarrow> (sd_point st = Preparing \<longrightarrow>
     (if sd_parallel st then sd_classify st (sd_group st ! sd_next st) else sd_next st = 0 \<and> sd_in_flight st = []))"

definition good :: "scheduler_env \<Rightarrow> session \<Rightarrow> tool_call list \<Rightarrow> nat \<Rightarrow> scheduler \<Rightarrow> bool" where
  "good env s0 planned b st \<longleftrightarrow> scheduler_inv env s0 planned st \<and> work_left st \<le> b \<and> started_safely st"

text \<open>The mode of a group is how its first call was just classified.\<close>

definition mode_fresh :: "scheduler \<Rightarrow> bool" where
  "mode_fresh st \<longleftrightarrow> (sd_next st = 0 \<longrightarrow> sd_parallel st = sd_classify st (sd_group st ! 0))"

lemma started_safely_other [simp]: "sd_point st \<noteq> Preparing \<Longrightarrow> started_safely st"
  by (simp add: started_safely_def)

lemma good_mono: "good env s0 planned b st \<Longrightarrow> b \<le> c \<Longrightarrow> good env s0 planned c st"
  by (simp add: good_def)

lemma fail_group_good:
  assumes "running env s0 planned st \<or> pool_ok planned st \<and> log_ok env s0 planned st" and "Suc (unsettled st) \<le> b" and "err \<noteq> UncommittedCalls"
  shows "good env s0 planned b (fail_group err st)"
  using assms by (auto simp: good_def scheduler_inv_def fail_group_def work_left_def running_def pool_ok_def group_ok_def log_ok_def unsettled_def
      split: option.splits)

lemma unsettled_le_work: "Suc (unsettled st) \<le> pool_work st"
  by (simp add: pool_work_def)

text \<open>A change of the session alone.\<close>

lemma pool_ok_session [simp]: "pool_ok planned (st\<lparr>sd_session := s\<rparr>) = pool_ok planned st"
  by (simp add: pool_ok_def)

lemma pool_work_session [simp]: "pool_work (st\<lparr>sd_session := s\<rparr>) = pool_work st" "unsettled (st\<lparr>sd_session := s\<rparr>) = unsettled st"
  by (simp_all add: pool_work_def unsettled_def)

lemma point_irrelevant [simp]:
  "pool_ok planned (st\<lparr>sd_point := x\<rparr>) = pool_ok planned st" "log_ok env s0 planned (st\<lparr>sd_point := x\<rparr>) = log_ok env s0 planned st"
  "running env s0 planned (st\<lparr>sd_point := x\<rparr>) = running env s0 planned st" "pool_work (st\<lparr>sd_point := x\<rparr>) = pool_work st"
  by (simp_all add: pool_ok_def log_ok_def running_def pool_work_def unsettled_def)

lemma pool_bounds:
  "pool_ok planned st \<Longrightarrow> sd_planned st = planned \<and> length (sd_in_flight st) \<le> sd_limit st \<and> distinct (sd_in_flight st)
     \<and> sd_failure st \<noteq> Some UncommittedCalls"
  by (simp add: pool_ok_def group_ok_def)

lemma group_prefix: "group_ok planned st \<Longrightarrow> take (length (sd_group st)) (drop (sd_base st) planned) = sd_group st"
  by (cases "sd_parallel st") (simp_all add: group_ok_def flip: Cons_nth_drop_Suc)

lemma group_within:
  assumes "pool_ok planned st" and "i < length (sd_group st)"
  shows "sd_base st + i < length planned" "sd_group st ! i = planned ! (sd_base st + i)"
  using assms by (auto simp: pool_ok_def group_ok_def split: if_splits)

lemma start_call_good:
  assumes r: "running env s0 planned st" and i: "sd_next st < length (sd_group st)" "length (sd_in_flight st) < sd_limit st"
    and safe: "if sd_parallel st then sd_classify st (sd_group st ! sd_next st) else sd_next st = 0 \<and> sd_in_flight st = []"
  shows "good env s0 planned (pool_work st - 1) (start_call env st)"
proof -
  let ?m = "sd_base st + sd_next st"
  have p: "pool_ok planned st" "log_ok env s0 planned st" and eq: "sd_started st = sd_next st" using r by (simp_all add: running_def)
  have m: "?m < length planned" "sd_group st ! sd_next st = planned ! ?m" using group_within [OF p(1) i(1)] by simp_all
  have shape: "log_shape env s0 planned (sd_session st) ?m (sd_base st + sd_committed st)" using p(2) eq by (simp add: log_ok_def)
  show ?thesis
  proof (cases rule: append_tool_call_shape [OF shape m(1)])
    case (1 err s)
    let ?st = "st\<lparr>sd_session := s\<rparr>"
    have "log_ok env s0 planned ?st" using p(2) 1(2,3) eq by (simp add: log_ok_def call_seq_at_def)
    moreover have "Suc (unsettled ?st) \<le> pool_work st - 1" using m(1) eq pool_bounds [OF p(1)] by (simp add: pool_work_def)
    ultimately have "good env s0 planned (pool_work st - 1) (fail_group (AppendFault err) ?st)"
      using p(1) by (intro fail_group_good) simp_all
    with 1(1) m(2) show ?thesis by (simp add: start_call_def)
  next
    case (2 s)
    define st' where "st' = st\<lparr>sd_session := s, sd_call_seqs := (sd_call_seqs st)[sd_next st := Some (call_seq_at env s0 s ?m)],
        sd_started := sd_started st + 1, sd_point := Preparing\<rparr>"
    have run: "start_call env st = st'" using 2(1) m(2) by (simp add: start_call_def st'_def)
    have "pool_ok planned st'" using p(1) by (simp add: pool_ok_def st'_def)
    moreover have "log_ok env s0 planned st'"
      using p 2(2,3) eq i(1) by (auto simp: log_ok_def st'_def nth_list_update less_Suc_eq pool_ok_def)
    moreover have "work_left st' \<le> pool_work st - 1" using m(1) eq p(1)
      by (auto simp: work_left_def pool_work_def st'_def unsettled_def pool_ok_def group_ok_def)
    moreover have "started_safely st'" using safe by (simp add: started_safely_def st'_def)
    moreover have "sd_started st' = Suc (sd_next st')" "sd_next st' < length (sd_group st')" "length (sd_in_flight st') < sd_limit st'"
      "sd_point st' = Preparing" using i eq by (simp_all add: st'_def)
    ultimately show ?thesis unfolding run using pool_bounds [of planned st'] by (simp add: good_def scheduler_inv_def)
  qed
qed

lemma group_done_good:
  assumes r: "running env s0 planned st" and idle: "nothing_ready st" "sd_in_flight st = []" "sd_failure st = None"
    and some: "\<not> sd_aborted st \<Longrightarrow> 0 < sd_next st"
  shows "good env s0 planned (pool_work st - (if sd_next st = 0 then 1 else 0)) (group_done env st)"
proof -
  have p: "pool_ok planned st" "log_ok env s0 planned st" and eq: "sd_started st = sd_next st" using r by (simp_all add: running_def)
  have g: "sd_planned st = planned" "sd_base st < length planned" "0 < length (sd_group st)" using p(1) by (auto simp: pool_ok_def group_ok_def)
  have all: "sd_committed st = sd_next st"
  proof (rule ccontr)
    assume "sd_committed st \<noteq> sd_next st"
    then have "sd_committed st < sd_next st" using p(1) by (simp add: pool_ok_def)
    then show False using p(1) idle by (auto simp: pool_ok_def nothing_ready_def)
  qed
  have len: "sd_base st + length (sd_group st) \<le> length planned" using p(1) by (auto simp: pool_ok_def group_ok_def)
  have shape: "log_shape env s0 planned (sd_session st) (sd_base st + sd_next st) (sd_base st + sd_next st)"
    using p(2) eq all by (simp add: log_ok_def)
  show ?thesis
  proof (cases "sd_aborted st")
    case False
    have "work_left (st\<lparr>sd_point := GroupReturned (sd_next st) False\<rparr>) \<le> pool_work st"
      by (simp add: work_left_def pool_work_def eq)
    moreover have "sd_base st + sd_next st \<le> length planned" using p(1) len by (simp add: pool_ok_def)
    ultimately show ?thesis using False all eq some shape g idle by (simp add: group_done_def good_def scheduler_inv_def)
  next
    case True
    let ?rest = "drop (sd_next st) (sd_group st)"
    have rest: "take (length ?rest) (drop (sd_base st + sd_next st) planned) = ?rest"
      using group_prefix [of planned st] p(1) by (metis add.commute drop_drop drop_take length_drop pool_ok_def)
    have n: "sd_next st \<le> length (sd_group st)" using p(1) by (simp add: pool_ok_def)
    show ?thesis
    proof (cases rule: skip_calls_shape [OF shape rest])
      case (1 err s k l)
      then show ?thesis using True eq g idle
        by (auto simp: group_done_def good_def scheduler_inv_def fail_calls_def work_left_def)
    next
      case (2 s)
      let ?st = "st\<lparr>sd_session := s, sd_point := GroupReturned (length (sd_group st)) True\<rparr>"
      have "work_left ?st \<le> pool_work st - (if sd_next st = 0 then 1 else 0)"
      proof -
        obtain k where "length (sd_group st) = Suc k" using g(3) by (cases "length (sd_group st)") simp_all
        with n g(1,2) len show ?thesis by (auto simp: work_left_def pool_work_def eq)
      qed
      with 2 True eq g idle len n show ?thesis
        by (simp add: group_done_def good_def scheduler_inv_def add.assoc)
    qed
  qed
qed

lemma fill_pool_good:
  assumes r: "running env s0 planned st" and idle: "nothing_ready st" "sd_failure st = None" and m: "mode_fresh st"
  shows "good env s0 planned (pool_work st - (if sd_next st = 0 then 1 else 0)) (fill_pool env st)"
proof -
  have p: "pool_ok planned st" using r by (simp add: running_def)
  consider (start) "\<not> sd_aborted st" "sd_next st < length (sd_group st)" "length (sd_in_flight st) < sd_limit st"
      "\<not> (sd_next st > 0 \<and> sd_parallel st \<and> \<not> sd_classify st (sd_group st ! sd_next st))"
    | (race) "sd_in_flight st \<noteq> []" "fill_pool env st = st\<lparr>sd_point := Racing\<rparr>"
    | (finish) "sd_in_flight st = []" "fill_pool env st = group_done env st" "\<not> sd_aborted st \<Longrightarrow> 0 < sd_next st"
  proof (cases "\<not> sd_aborted st \<and> sd_next st < length (sd_group st) \<and> length (sd_in_flight st) < sd_limit st
      \<and> \<not> (sd_next st > 0 \<and> sd_parallel st \<and> \<not> sd_classify st (sd_group st ! sd_next st))")
    case True
    then show ?thesis using that(1) by blast
  next
    case False
    then have f: "fill_pool env st = (if sd_in_flight st \<noteq> [] then st\<lparr>sd_point := Racing\<rparr> else group_done env st)"
      unfolding fill_pool_def by (rule if_not_P)
    show ?thesis
    proof (cases "sd_in_flight st = []")
      case True
      have "0 < length (sd_group st)" "0 < sd_limit st" using p by (auto simp: pool_ok_def group_ok_def)
      with False True f show ?thesis using that(3) by fastforce
    qed (use f that(2) in simp)
  qed
  then show ?thesis
  proof cases
    case start
    then have "fill_pool env st = start_call env st" by (simp add: fill_pool_def)
    have "if sd_parallel st then sd_classify st (sd_group st ! sd_next st) else sd_next st = 0 \<and> sd_in_flight st = []"
    proof (cases "sd_parallel st")
      case True
      then show ?thesis using start(4) m by (cases "sd_next st") (auto simp: mode_fresh_def)
    next
      case False
      then have "sd_next st = 0" using p start(2) by (simp add: pool_ok_def group_ok_def)
      with False p show ?thesis by (cases "sd_in_flight st") (auto simp: pool_ok_def)
    qed
    from good_mono [OF start_call_good [OF r start(2,3) this]] \<open>fill_pool env st = start_call env st\<close> show ?thesis by simp
  next
    case race
    moreover have "0 < sd_next st" using p race(1) by (cases "sd_in_flight st") (auto simp: pool_ok_def)
    ultimately show ?thesis using r pool_bounds [OF p] by (simp add: good_def scheduler_inv_def work_left_def)
  next
    case finish
    then show ?thesis using group_done_good [OF r idle(1) finish(1) idle(2) finish(3)] by simp
  qed
qed

lemma aborted_irrelevant [simp]:
  "running env s0 planned (st\<lparr>sd_aborted := x\<rparr>) = running env s0 planned st" "nothing_ready (st\<lparr>sd_aborted := x\<rparr>) = nothing_ready st"
  "pool_work (st\<lparr>sd_aborted := x\<rparr>) = pool_work st"
  by (simp_all add: running_def pool_ok_def log_ok_def nothing_ready_def pool_work_def unsettled_def)

lemma after_commit_good:
  assumes r: "running env s0 planned st" and idle: "nothing_ready st"
    and m: "mode_fresh st"
  shows "good env s0 planned (pool_work st) (after_commit env st)"
proof (cases "sd_failure st")
  case None
  then show ?thesis
    using good_mono [OF fill_pool_good [of env s0 planned st], of "pool_work st"]
      good_mono [OF fill_pool_good [of env s0 planned "st\<lparr>sd_aborted := True\<rparr>"], of "pool_work st"] r idle m
    by (simp add: after_commit_def mode_fresh_def)
next
  case (Some err)
  moreover have "err \<noteq> UncommittedCalls" using Some r by (auto simp: running_def pool_ok_def)
  ultimately show ?thesis using fail_group_good [of env s0 planned st _ err] r unsettled_le_work by (simp add: after_commit_def)
qed

text \<open>Committing the result of a started call.\<close>

lemma commit_result_cases:
  assumes r: "running env s0 planned st" and c: "sd_committed st < sd_next st"
  obtains err st' where "commit_result env x st = (Inl err, st')" "running env s0 planned st'" "unsettled st' = unsettled st"
      "err \<noteq> UncommittedCalls"
  | st' where "commit_result env x st = (Inr (), st')" "running env s0 planned st'" "Suc (pool_work st') = pool_work st"
      "sd_failure st' = sd_failure st" "mode_fresh st' = mode_fresh st"
proof -
  let ?m = "sd_base st + sd_started st" and ?k = "sd_base st + sd_committed st"
  have p: "pool_ok planned st" "log_ok env s0 planned st" and eq: "sd_started st = sd_next st" using r by (simp_all add: running_def)
  have len: "sd_committed st < length (sd_group st)" using p(1) c by (simp add: pool_ok_def)
  have call: "sd_group st ! sd_committed st = planned ! ?k" using group_within [OF p(1) len] by simp
  have shape: "log_shape env s0 planned (sd_session st) ?m ?k" and km: "?k < ?m" using p(2) eq c by (simp_all add: log_ok_def)
  have seq: "the (sd_call_seqs st ! sd_committed st) = call_seq_at env s0 (sd_session st) ?k" using p(2) eq c by (simp add: log_ok_def)
  show ?thesis
  proof (cases rule: append_tool_result_shape [OF shape km, of x])
    case (1 err s)
    let ?st = "st\<lparr>sd_session := s\<rparr>"
    have "running env s0 planned ?st" using r 1(2,3) by (simp add: running_def log_ok_def call_seq_at_def)
    with 1(1) call seq that(1) show ?thesis by (simp add: commit_result_def)
  next
    case (2 q s)
    let ?st = "st\<lparr>sd_session := s, sd_contexts := sd_contexts st @ xr_contexts x, sd_concluded := sd_concluded st \<or> xr_concludes x,
        sd_committed := sd_committed st + 1\<rparr>"
    have "pool_ok planned ?st" using p(1) c by (simp add: pool_ok_def)
    moreover have "log_ok env s0 planned ?st" using p(2) 2(2,3) by (simp add: log_ok_def)
    ultimately have "running env s0 planned ?st" using eq by (simp add: running_def)
    moreover have "Suc (pool_work ?st) = pool_work st" using c by (simp add: pool_work_def unsettled_def)
    ultimately show ?thesis using 2(1) call seq that(2) [of ?st] by (simp add: commit_result_def mode_fresh_def)
  qed
qed

lemma commit_ready_good: "running env s0 planned st \<Longrightarrow> mode_fresh st \<Longrightarrow> good env s0 planned (pool_work st) (commit_ready env st)"
proof (induction env st rule: commit_ready.induct)
  case (1 env st)
  note r = 1(2) and fresh = 1(3)
  have p: "pool_ok planned st" using r by (simp add: running_def)
  show ?case
  proof (cases "sd_committed st < length (sd_group st)")
    case False
    then have "nothing_ready st" by (simp add: nothing_ready_def)
    from after_commit_good [OF r this fresh] False show ?thesis by (simp add: commit_ready.simps)
  next
    case more: True
    show ?thesis
    proof (cases "sd_slots st ! sd_committed st")
      case None
      then have "nothing_ready st" by (simp add: nothing_ready_def)
      from after_commit_good [OF r this fresh] None more show ?thesis by (simp add: commit_ready.simps)
    next
      case (Some slot)
      then have c: "sd_committed st < sd_next st" using p more by (auto simp: pool_ok_def)
      show ?thesis
      proof (cases "sl_post slot")
        case True
        then show ?thesis using Some more r c pool_bounds [OF p]
          by (simp add: commit_ready.simps good_def scheduler_inv_def work_left_def)
      next
        case sync: False
        show ?thesis
        proof (cases "se_finish env (length (sd_log st)) (sl_result slot)")
          case (Inl x)
          then show ?thesis using sync Some more fail_group_good [of env s0 planned st "pool_work st"] r unsettled_le_work
            by (simp add: commit_ready.simps)
        next
          case (Inr x)
          show ?thesis
          proof (cases rule: commit_result_cases [OF r c, of x])
            case c1: (1 err st')
            have "good env s0 planned (pool_work st) (fail_group err st')"
              using c1(2-4) unsettled_le_work [of st] by (intro fail_group_good) simp_all
            with c1 Inr sync Some more show ?thesis by (simp add: commit_ready.simps [of env st] is_ok_iff)
          next
            case c2: (2 st')
            have "good env s0 planned (pool_work st') (commit_ready env st')"
              using 1(1) [OF more Some sync Inr] c2 fresh by (simp add: is_ok_iff)
            then have "good env s0 planned (pool_work st) (commit_ready env st')" by (rule good_mono) (use c2(3) in simp)
            with c2 Inr sync Some more show ?thesis by (simp add: commit_ready.simps [of env st] is_ok_iff)
          qed
        qed
      qed
    qed
  qed
qed

lemma start_group_good:
  assumes "sd_planned st = planned" and "sd_base st < length planned" and "0 < limit"
    and "log_shape env s0 planned (sd_session st) (sd_base st) (sd_base st)"
  shows "good env s0 planned (5 * (length planned - sd_base st)) (start_group env limit st)"
proof -
  let ?first = "sd_planned st ! sd_base st"
  let ?group = "if sd_classify st ?first then drop (sd_base st) (sd_planned st) else [?first]"
  let ?st = "st\<lparr>sd_limit := limit, sd_group := ?group, sd_parallel := sd_classify st ?first,
           sd_slots := replicate (length ?group) None, sd_call_seqs := replicate (length ?group) None,
           sd_next := 0, sd_committed := 0, sd_started := 0, sd_aborted := sd_signal st, sd_concluded := False,
           sd_failure := None, sd_in_flight := [], sd_settled := []\<rparr>"
  have "running env s0 planned ?st" using assms by (simp add: running_def pool_ok_def group_ok_def log_ok_def)
  moreover have "nothing_ready ?st" using assms by (auto simp: nothing_ready_def nth_replicate)
  ultimately have "good env s0 planned (pool_work ?st - (if sd_next ?st = 0 then 1 else 0)) (fill_pool env ?st)"
    using assms(1,2) by (intro fill_pool_good) (simp_all add: mode_fresh_def hd_drop_conv_nth nth_drop)
  moreover have "pool_work ?st = 5 * (length planned - sd_base st) + 1" using assms(1) by (simp add: pool_work_def unsettled_def)
  ultimately have "good env s0 planned (5 * (length planned - sd_base st)) (fill_pool env ?st)" by simp
  then show ?thesis by (simp only: start_group_def Let_def)
qed

section \<open>Every state of a run is sound\<close>

lemma on_prepared_good:
  assumes inv: "scheduler_inv env s0 planned st" "sd_point st = Preparing"
  shows "good env s0 planned (pool_work st + 3) (on_prepared env outcome st)"
proof -
  have p: "pool_ok planned st" "log_ok env s0 planned st" and n: "sd_started st = Suc (sd_next st)" "sd_next st < length (sd_group st)"
    and room: "length (sd_in_flight st) < sd_limit st" using inv by (simp_all add: scheduler_inv_def)
  have fail: "good env s0 planned (pool_work st + 3) (fail_group err st)" if "err \<noteq> UncommittedCalls" for err
    using p unsettled_le_work [of st] that by (intro fail_group_good) simp_all
  show ?thesis
  proof (cases "(\<exists>x. outcome = Inl x) \<or> sd_failure st \<noteq> None")
    case True
    with fail p(1) show ?thesis by (auto simp: on_prepared_def pool_ok_def split: sum.splits option.splits)
  next
    case False
    then obtain prep where ok: "outcome = Inr prep" "sd_failure st = None" by (cases outcome) auto
    let ?i = "sd_next st"
    define st1 where "st1 = (case prep of
        PrepDispatch \<Rightarrow> st\<lparr>sd_in_flight := sd_in_flight st @ [?i]\<rparr>
      | PrepPost r \<Rightarrow> st\<lparr>sd_slots := (sd_slots st)[?i := Some \<lparr>sl_result = r, sl_post = True\<rparr>]\<rparr>
      | PrepFinal r \<Rightarrow> st\<lparr>sd_slots := (sd_slots st)[?i := Some \<lparr>sl_result = r, sl_post = False\<rparr>]\<rparr>)\<lparr>sd_next := ?i + 1\<rparr>"
    have new: "?i \<notin> set (sd_in_flight st)" "?i \<notin> set (sd_settled st)" "?i < length (sd_slots st)" using p(1) n(2) by (auto simp: pool_ok_def)
    have "pool_ok planned st1"
    proof (cases prep)
      case PrepDispatch
      with p(1) n room new show ?thesis by (auto simp: st1_def pool_ok_def less_Suc_eq)
    next
      case (PrepPost r)
      with p(1) n new show ?thesis by (auto simp: st1_def pool_ok_def less_Suc_eq nth_list_update)
    next
      case (PrepFinal r)
      with p(1) n new show ?thesis by (auto simp: st1_def pool_ok_def less_Suc_eq nth_list_update)
    qed
    moreover have "log_ok env s0 planned st1" using p(2) by (simp add: st1_def log_ok_def split: preparation.splits)
    moreover have "sd_started st1 = sd_next st1" using n(1) by (simp add: st1_def split: preparation.splits)
    ultimately have "good env s0 planned (pool_work st1) (commit_ready env st1)"
      by (intro commit_ready_good) (simp_all add: running_def mode_fresh_def st1_def)
    moreover have "pool_work st1 \<le> pool_work st + 3"
      using p(1) by (auto simp: st1_def pool_work_def unsettled_def pool_ok_def split: preparation.splits)
    moreover have "on_prepared env outcome st = commit_ready env st1" using ok by (simp add: on_prepared_def st1_def Let_def split: preparation.splits)
    ultimately show ?thesis by (auto intro: good_mono)
  qed
qed

lemma awaiting_in_flight:
  assumes "scheduler_inv env s0 planned st" and "awaiting (sd_point st)" and "sd_point st \<noteq> Draining"
  shows "pool_ok planned st"
  using assms by (auto simp: scheduler_inv_def awaiting_def running_def split: scheduler_point.splits)

lemma on_settled_good:
  assumes inv: "scheduler_inv env s0 planned st" "awaiting (sd_point st)" and i: "i \<in> set (sd_in_flight st)" "i \<notin> set (sd_settled st)"
  shows "scheduler_inv env s0 planned (on_settled i outcome st)" and "work_left (on_settled i outcome st) < work_left st"
proof -
  let ?st = "on_settled i outcome st"
  have same: "sd_session ?st = sd_session st" "sd_planned ?st = sd_planned st" "sd_base ?st = sd_base st" "sd_group ?st = sd_group st"
    "sd_limit ?st = sd_limit st" "sd_parallel ?st = sd_parallel st" "sd_call_seqs ?st = sd_call_seqs st" "sd_next ?st = sd_next st"
    "sd_committed ?st = sd_committed st" "sd_started ?st = sd_started st" "sd_in_flight ?st = sd_in_flight st" "sd_point ?st = sd_point st"
    "sd_failure st \<noteq> Some UncommittedCalls \<Longrightarrow> sd_failure ?st \<noteq> Some UncommittedCalls"
    "sd_settled ?st = i # sd_settled st" "sd_failure st \<noteq> None \<Longrightarrow> sd_failure ?st \<noteq> None"
    by (auto simp: on_settled_def split: sum.splits prod.splits option.splits)
  have "pool_ok planned ?st" if p: "pool_ok planned st"
  proof -
    have "i < sd_next st" "sd_next st \<le> length (sd_slots st)" using p i by (auto simp: pool_ok_def)
    moreover have "sd_failure st = None \<longrightarrow> (\<forall>j \<in> set (sd_settled st). sd_slots st ! j \<noteq> None)"
      using p unfolding pool_ok_def by (metis UnI2)
    ultimately show ?thesis using p
      by (cases outcome; auto simp: on_settled_def pool_ok_def nth_list_update split: option.splits if_splits; fastforce)
  qed
  then show "scheduler_inv env s0 planned ?st" using inv same
    by (auto simp: scheduler_inv_def running_def log_ok_def awaiting_def split: scheduler_point.splits)
  have "unsettled ?st < unsettled st"
  proof -
    let ?open = "filter (\<lambda>j. j \<notin> set (sd_settled st)) (sd_in_flight st)"
    have "unsettled ?st = length (filter (\<lambda>j. j \<noteq> i) ?open)" using same(11,14) by (simp add: unsettled_def conj_commute)
    also have "\<dots> < length ?open" by (rule length_filter_less [of i]) (use i in simp_all)
    finally show ?thesis by (simp add: unsettled_def)
  qed
  then show "work_left ?st < work_left st" using same inv(2)
    by (auto simp: work_left_def pool_work_def awaiting_def split: scheduler_point.splits)
qed

lemma on_race_good:
  assumes inv: "scheduler_inv env s0 planned st" "sd_point st = Racing" and i: "i \<in> set (sd_in_flight st)" "i \<in> set (sd_settled st)"
  shows "scheduler_inv env s0 planned (on_race env i st)" and "work_left (on_race env i st) < work_left st"
    and "started_safely (on_race env i st)"
proof -
  let ?st = "st\<lparr>sd_in_flight := remove1 i (sd_in_flight st)\<rparr>"
  have r: "running env s0 planned st" using inv by (simp add: scheduler_inv_def)
  then have p: "pool_ok planned st" by (simp add: running_def)
  have "pool_ok planned ?st"
    using p i by (auto simp: pool_ok_def length_remove1)
  moreover have "log_ok env s0 planned ?st" using r unfolding running_def by (elim conjE) (simp add: log_ok_def)
  ultimately have run: "running env s0 planned ?st" using r by (simp add: running_def)
  have "unsettled ?st = unsettled st" using i by (simp add: unsettled_def filter_remove1 remove1_idem)
  moreover have "0 < length (sd_in_flight st)" using i by auto
  ultimately have work: "Suc (pool_work ?st) = pool_work st" using i by (simp add: pool_work_def length_remove1)
  have "mode_fresh ?st" using p i by (auto simp: mode_fresh_def pool_ok_def)
  then have "good env s0 planned (pool_work ?st) (on_race env i st)"
    using commit_ready_good [OF run] fail_group_good [of env s0 planned ?st] run unsettled_le_work pool_bounds [OF p]
    by (auto simp: on_race_def Let_def split: option.splits)
  with work inv show "scheduler_inv env s0 planned (on_race env i st)" "work_left (on_race env i st) < work_left st"
      "started_safely (on_race env i st)"
    by (auto simp: good_def work_left_def [of st])
qed

lemma on_finalized_good:
  assumes inv: "scheduler_inv env s0 planned st" "sd_point st = Finalizing"
  shows "scheduler_inv env s0 planned (on_finalized env outcome st)" and "work_left (on_finalized env outcome st) < work_left st"
    and "started_safely (on_finalized env outcome st)"
proof -
  have r: "running env s0 planned st" and c: "sd_committed st < sd_next st" using inv by (simp_all add: scheduler_inv_def)
  have less: "Suc (unsettled st) < pool_work st" using c by (simp add: pool_work_def)
  have "good env s0 planned (pool_work st - 1) (on_finalized env outcome st)"
  proof (cases outcome)
    case (Inl x)
    then show ?thesis using fail_group_good [of env s0 planned st] r less by (simp add: on_finalized_def)
  next
    case (Inr x)
    show ?thesis
    proof (cases rule: commit_result_cases [OF r c, of x])
      case (1 err st')
      have "good env s0 planned (pool_work st - 1) (fail_group err st')" using 1(2-4) less by (intro fail_group_good) simp_all
      with 1(1) Inr show ?thesis by (simp add: on_finalized_def)
    next
      case (2 st')
      have "mode_fresh st'" unfolding 2(5) using c by (simp add: mode_fresh_def)
      then have "good env s0 planned (pool_work st - 1) (commit_ready env st')" using commit_ready_good [OF 2(2)] by (auto simp flip: 2(3))
      with 2(1) Inr show ?thesis by (simp add: on_finalized_def)
    qed
  qed
  with less inv show "scheduler_inv env s0 planned (on_finalized env outcome st)" "work_left (on_finalized env outcome st) < work_left st"
      "started_safely (on_finalized env outcome st)"
    by (auto simp: good_def work_left_def [of st])
qed

lemma on_group_end_good:
  assumes inv: "scheduler_inv env s0 planned st" "sd_point st = GroupReturned c a" and "0 < limit"
  shows "scheduler_inv env s0 planned (on_group_end env limit c a st)" and "work_left (on_group_end env limit c a st) < work_left st"
    and "started_safely (on_group_end env limit c a st)"
proof -
  let ?b = "sd_base st + c"
  let ?st = "st\<lparr>sd_base := ?b, sd_turn_concluded := sd_turn_concluded st \<or> sd_concluded st\<rparr>"
  have g: "0 < c" "?b \<le> length planned" "log_shape env s0 planned (sd_session ?st) ?b ?b" "sd_planned st = planned"
    "length (sd_in_flight st) \<le> sd_limit st" "distinct (sd_in_flight st)" "sd_failure st \<noteq> Some UncommittedCalls"
    using inv by (simp_all add: scheduler_inv_def)
  have w: "work_left st = 5 * (length planned - ?b) + 1" using inv g(4) by (simp add: work_left_def)
  have "scheduler_inv env s0 planned (on_group_end env limit c a st) \<and> work_left (on_group_end env limit c a st) < work_left st
      \<and> started_safely (on_group_end env limit c a st)"
  proof (cases a)
    case True
    have rest: "take (length (drop ?b planned)) (drop ?b planned) = drop ?b planned" by simp
    show ?thesis
    proof (cases rule: skip_calls_shape [OF g(3) rest])
      case (1 err s k l)
      then show ?thesis using True g w by (auto simp: on_group_end_def Let_def scheduler_inv_def fail_calls_def work_left_def)
    next
      case (2 s)
      then show ?thesis using True g w by (auto simp: on_group_end_def Let_def scheduler_inv_def work_left_def)
    qed
  next
    case False
    show ?thesis
    proof (cases "?b < length planned")
      case True
      have "good env s0 planned (5 * (length planned - ?b)) (start_group env limit ?st)"
        using start_group_good [of ?st planned limit env s0] True g assms(3) by simp
      with True False g w show ?thesis by (simp add: on_group_end_def good_def)
    next
      case full: False
      then show ?thesis using False g w by (auto simp: on_group_end_def Let_def scheduler_inv_def work_left_def)
    qed
  qed
  then show "scheduler_inv env s0 planned (on_group_end env limit c a st)" "work_left (on_group_end env limit c a st) < work_left st"
      "started_safely (on_group_end env limit c a st)"
    by simp_all
qed

lemma scheduler_step_good:
  assumes inv: "scheduler_inv env s0 planned st" and step: "scheduler_step env l st = Some st'"
  shows "scheduler_inv env s0 planned st'" and "work_left st' < work_left st" and "(\<forall>i x. l \<noteq> Settled i x) \<Longrightarrow> started_safely st'"
proof -
  have "scheduler_inv env s0 planned st' \<and> work_left st' < work_left st \<and> ((\<forall>i x. l \<noteq> Settled i x) \<longrightarrow> started_safely st')"
  proof (cases l)
    case (Prepared outcome)
    with step have "sd_point st = Preparing" "st' = on_prepared env outcome st" by (auto simp: scheduler_step_def split: if_splits)
    with on_prepared_good [OF inv, of outcome] have "good env s0 planned (pool_work st + 3) st'" "work_left st = pool_work st + 4"
      by (simp_all add: work_left_def)
    then show ?thesis by (simp add: good_def)
  next
    case (Settled i x)
    with step have "awaiting (sd_point st)" "i \<in> set (sd_in_flight st)" "i \<notin> set (sd_settled st)" "st' = on_settled i x st"
      by (auto simp: scheduler_step_def split: if_splits)
    with on_settled_good [OF inv] Settled show ?thesis by blast
  next
    case (RaceWon i)
    with step have "sd_point st = Racing" "i \<in> set (sd_in_flight st)" "i \<in> set (sd_settled st)" "st' = on_race env i st"
      by (auto simp: scheduler_step_def split: if_splits)
    with on_race_good [OF inv] show ?thesis by blast
  next
    case (Finalized x)
    with step have "sd_point st = Finalizing" "st' = on_finalized env x st" by (auto simp: scheduler_step_def split: if_splits)
    with on_finalized_good [OF inv] show ?thesis by blast
  next
    case Drained
    with step have "sd_point st = Draining" "st' = st\<lparr>sd_point := CallsFailed\<rparr>" by (auto simp: scheduler_step_def split: if_splits)
    with inv show ?thesis by (simp add: scheduler_inv_def work_left_def)
  next
    case (GroupEnd limit)
    with step obtain c a where "sd_point st = GroupReturned c a" "0 < limit" "st' = on_group_end env limit c a st"
      by (auto simp: scheduler_step_def split: scheduler_point.splits if_splits)
    with on_group_end_good [OF inv] show ?thesis by blast
  qed
  then show "scheduler_inv env s0 planned st'" "work_left st' < work_left st" "(\<forall>i x. l \<noteq> Settled i x) \<Longrightarrow> started_safely st'"
    by simp_all
qed

lemma scheduler_inv_outside:
  "scheduler_inv env s0 planned (st\<lparr>sd_signal := b\<rparr>) = scheduler_inv env s0 planned st"
  "scheduler_inv env s0 planned (st\<lparr>sd_classify := f\<rparr>) = scheduler_inv env s0 planned st"
  "work_left (st\<lparr>sd_signal := b\<rparr>) = work_left st" "work_left (st\<lparr>sd_classify := f\<rparr>) = work_left st"
  "work_left (st\<lparr>sd_session := s\<rparr>) = work_left st"
  by (simp_all add: scheduler_inv_def running_def pool_ok_def log_ok_def work_left_def pool_work_def unsettled_def
      cong: scheduler_point.case_cong)

lemma scheduler_inv_others:
  assumes "scheduler_inv env s0 planned st" and "session_reach s" and "s_log s = sd_log st @ es" and "list_all (bystander env) es"
  shows "scheduler_inv env s0 planned (st\<lparr>sd_session := s\<rparr>)"
proof -
  have shape: "log_shape env s0 planned s m k" if "log_shape env s0 planned (sd_session st) m k" for m k
    using log_shape_others [OF that assms(2-4)] by simp
  have log: "log_ok env s0 planned (st\<lparr>sd_session := s\<rparr>)" if "log_ok env s0 planned st"
  proof -
    have l: "log_shape env s0 planned (sd_session st) (sd_base st + sd_started st) (sd_base st + sd_committed st)"
      using that by (simp add: log_ok_def)
    show ?thesis using that shape [OF l] log_shape_others(2) [OF l assms(2-4)] by (simp add: log_ok_def)
  qed
  show ?thesis
  proof (cases "sd_point st")
    case Draining
    with assms(1) shape show ?thesis by (auto simp: scheduler_inv_def)
  next
    case CallsFailed
    with assms(1) shape show ?thesis by (auto simp: scheduler_inv_def)
  qed (use assms(1) shape log in \<open>simp_all add: scheduler_inv_def running_def\<close>)
qed

lemma scheduler_run_inv:
  "scheduler_run env s0 planned n st \<Longrightarrow> scheduler_inv env s0 planned st \<and> n + work_left st \<le> 5 * length planned"
proof (induction rule: scheduler_run.induct)
  case (called limit signal classify)
  have shape: "log_shape env s0 planned s0 0 0" using called(1) traced_start by (simp add: log_shape_def)
  show ?case
  proof (cases "planned = []")
    case True
    then show ?thesis using shape by (simp add: execute_tool_calls_def Let_def scheduler_inv_def work_left_def)
  next
    case False
    define st where "st = \<lparr>sd_session = s0, sd_contexts = [], sd_signal = signal, sd_classify = classify, sd_limit = limit,
          sd_planned = planned, sd_base = 0, sd_turn_concluded = False, sd_group = [], sd_parallel = False, sd_slots = [],
          sd_call_seqs = [], sd_next = 0, sd_committed = 0, sd_started = 0, sd_aborted = False, sd_concluded = False,
          sd_failure = None, sd_in_flight = [], sd_settled = [], sd_point = CallsReturned\<rparr>"
    have "good env s0 planned (5 * (length planned - sd_base st)) (start_group env limit st)"
      by (rule start_group_good) (use False called(2) shape in \<open>simp_all add: st_def\<close>)
    moreover have "execute_tool_calls env limit signal classify planned s0 = start_group env limit st"
      using False by (simp add: execute_tool_calls_def Let_def st_def)
    ultimately show ?thesis by (simp add: good_def st_def)
  qed
next
  case (labelled n st l st')
  from scheduler_step_good [OF labelled.IH [THEN conjunct1] labelled.hyps(2)] labelled.IH show ?case by simp
next
  case (others n st s es)
  then show ?case using scheduler_inv_others by (simp add: scheduler_inv_outside)
qed (simp_all add: scheduler_inv_outside)

lemma inv_shape:
  assumes "scheduler_inv env s0 planned st"
  obtains m k where "log_shape env s0 planned (sd_session st) m k" "sd_point st = CallsReturned \<Longrightarrow> m = length planned \<and> k = length planned"
  using assms by (cases "sd_point st") (auto simp: scheduler_inv_def running_def log_ok_def)

text \<open>
  Claim C28. Calls run and answer in model order: whatever the interleaving of preparations, dispatches, finalizations,
  aborts and the work of others, the calls logged are the first ones of the model's list, in its order, and the results
  answer the first of these, in the same order, each citing its own call. When the scheduler returns, every call of the
  list is logged and answered, once.
\<close>

theorem calls_in_model_order:
  assumes "scheduler_run env s0 planned n st"
  shows "\<exists>es m k. sd_log st = s_log s0 @ es \<and> k \<le> m \<and> m \<le> length planned
     \<and> map snd (logged_calls env es) = take m planned \<and> logged_results env es = map answer_to (take k (logged_calls env es))
     \<and> (sd_point st = CallsReturned \<longrightarrow> m = length planned \<and> k = length planned)"
proof -
  obtain m k where "log_shape env s0 planned (sd_session st) m k" "sd_point st = CallsReturned \<Longrightarrow> m = length planned \<and> k = length planned"
    using scheduler_run_inv [OF assms] inv_shape by blast
  then show ?thesis unfolding log_shape_def by blast
qed

text \<open>
  Claim C29. The turn trace accepts everything the scheduler appends to the open step, if the identities of the calls are
  distinct and new; once it returns, no call of the list is left waiting.
\<close>

theorem calls_keep_trace:
  assumes "scheduler_run env s0 planned n st" and "seed_session (s_log s0) = Inr tr" and "open_turn tr = Some (se_turn env)"
    and "open_step tr = Some (se_step env)" and "distinct (map tc_id planned)" and "pending_calls tr \<inter> set (map tc_id planned) = {}"
  shows "\<exists>tr'. seed_session (sd_log st) = Inr tr' \<and> open_turn tr' = Some (se_turn env) \<and> open_step tr' = Some (se_step env)
     \<and> (sd_point st = CallsReturned \<longrightarrow> pending_calls tr' = pending_calls tr)"
proof -
  obtain m k where mk: "log_shape env s0 planned (sd_session st) m k" "sd_point st = CallsReturned \<Longrightarrow> m = length planned \<and> k = length planned"
    using scheduler_run_inv [OF assms(1)] inv_shape by blast
  then have "traced env s0 planned (sd_session st) m k" by (simp add: log_shape_def)
  with assms(2-6) mk(2) show ?thesis unfolding traced_def by fastforce
qed

text \<open>
  Claim C30. The scheduler ends: no run takes more than five labels per call, a state that has not ended always admits
  another label, the pool never exceeds its limit, and the check for uncommitted calls, which the code calls
  unreachable, never fires.
\<close>

theorem calls_end:
  assumes "scheduler_run env s0 planned n st"
  shows "n \<le> 5 * length planned \<and> length (sd_in_flight st) \<le> sd_limit st \<and> sd_failure st \<noteq> Some UncommittedCalls
     \<and> (sd_point st = CallsReturned \<or> sd_point st = CallsFailed \<or> (\<exists>l st'. scheduler_step env l st = Some st'))"
proof -
  have inv: "scheduler_inv env s0 planned st" "n \<le> 5 * length planned" using scheduler_run_inv [OF assms] by simp_all
  have settle: "scheduler_step env (Settled i (Inl [])) st = Some (on_settled i (Inl []) st)"
    if "awaiting (sd_point st)" "i \<in> set (sd_in_flight st)" "i \<notin> set (sd_settled st)" for i
    using that by (simp add: scheduler_step_def)
  have "\<exists>l st'. scheduler_step env l st = Some st'" if "sd_point st \<noteq> CallsReturned" "sd_point st \<noteq> CallsFailed"
  proof (cases "sd_point st")
    case Preparing
    then have "scheduler_step env (Prepared (Inl [])) st \<noteq> None" by (simp add: scheduler_step_def)
    then show ?thesis by blast
  next
    case Finalizing
    then have "scheduler_step env (Finalized (Inl [])) st \<noteq> None" by (simp add: scheduler_step_def)
    then show ?thesis by blast
  next
    case Racing
    then have i: "hd (sd_in_flight st) \<in> set (sd_in_flight st)" using inv(1) by (simp add: scheduler_inv_def)
    show ?thesis
    proof (cases "hd (sd_in_flight st) \<in> set (sd_settled st)")
      case True
      with Racing i have "scheduler_step env (RaceWon (hd (sd_in_flight st))) st \<noteq> None" by (simp add: scheduler_step_def)
      then show ?thesis by blast
    next
      case False
      with Racing i settle [of "hd (sd_in_flight st)"] show ?thesis by (auto simp: awaiting_def)
    qed
  next
    case Draining
    show ?thesis
    proof (cases "set (sd_in_flight st) \<subseteq> set (sd_settled st)")
      case True
      with Draining have "scheduler_step env Drained st \<noteq> None" by (simp add: scheduler_step_def)
      then show ?thesis by blast
    next
      case False
      with Draining settle show ?thesis by (auto simp: awaiting_def)
    qed
  next
    case (GroupReturned c a)
    then have "scheduler_step env (GroupEnd 1) st \<noteq> None" by (simp add: scheduler_step_def)
    then show ?thesis by blast
  qed (use that in simp_all)
  with inv show ?thesis by (auto simp: scheduler_inv_def)
qed

text \<open>
  Claim C31. Exclusive calls are barriers: a call starts either in a pool with room, classified parallel at that moment, or
  when nothing is in flight and every earlier call of the list is answered.
\<close>

theorem calls_respect_barriers:
  assumes "scheduler_run env s0 planned n st" and "scheduler_step env l st = Some st'" and "\<forall>i x. l \<noteq> Settled i x"
    and "sd_point st' = Preparing"
  shows "\<exists>es. sd_log st' = s_log s0 @ es \<and> map snd (logged_calls env es) = take (Suc (sd_base st' + sd_next st')) planned
     \<and> (sd_parallel st' \<and> sd_classify st' (planned ! (sd_base st' + sd_next st')) \<and> length (sd_in_flight st') < sd_limit st'
        \<or> sd_in_flight st' = [] \<and> length (logged_results env es) = sd_base st' + sd_next st')"
proof -
  have inv: "scheduler_inv env s0 planned st'" and safe: "started_safely st'"
    using scheduler_step_good [OF scheduler_run_inv [OF assms(1), THEN conjunct1] assms(2)] assms(3) by simp_all
  have p: "pool_ok planned st'" "log_ok env s0 planned st'" "sd_started st' = Suc (sd_next st')" "sd_next st' < length (sd_group st')"
    "length (sd_in_flight st') < sd_limit st'" using inv assms(4) by (simp_all add: scheduler_inv_def)
  let ?m = "Suc (sd_base st' + sd_next st')" and ?k = "sd_base st' + sd_committed st'"
  have shape: "log_shape env s0 planned (sd_session st') ?m ?k" using p(2,3) by (simp add: log_ok_def)
  then obtain es where es: "sd_log st' = s_log s0 @ es" "map snd (logged_calls env es) = take ?m planned"
      "logged_results env es = map answer_to (take ?k (logged_calls env es))" "?k \<le> ?m" "?m \<le> length planned"
    by (auto simp: log_shape_def)
  have len: "length (logged_results env es) = ?k" using es(3-5) arg_cong [OF es(2), of length] by simp
  show ?thesis
  proof (cases "sd_parallel st'")
    case True
    then have "sd_classify st' (planned ! (sd_base st' + sd_next st'))"
      using safe assms(4) group_within [OF p(1,4)] by (simp add: started_safely_def)
    with True es p(5) show ?thesis by blast
  next
    case False
    then have "sd_next st' = 0" "sd_in_flight st' = []" using safe assms(4) by (simp_all add: started_safely_def)
    moreover from this(1) have "sd_committed st' = 0" using p(1) by (simp add: pool_ok_def)
    ultimately show ?thesis using es len by auto
  qed
qed

section \<open>A concrete run\<close>

text \<open>Two calls overlap, and the second settles first.\<close>

definition example_calls :: "tool_call list" where
  "example_calls = [\<lparr>tc_id = ''a'', tc_name = ''read'', tc_arguments = ''{}''\<rparr>, \<lparr>tc_id = ''b'', tc_name = ''read'', tc_arguments = ''{}''\<rparr>]"

definition example_step :: "session_event list" where
  "example_step = [log_event (TurnStart 1) 0, log_event (StepStart 1 1) 1]"

definition example_env :: scheduler_env where
  "example_env = \<lparr>se_turn = 1, se_step = 1, se_clock = (\<lambda>_. 0), se_message_id = (\<lambda>_. ''m''), se_finish = (\<lambda>_ r. Inr r)\<rparr>"

definition example_done :: execution_result where
  "example_done = skipped_result\<lparr>xr_is_error := False, xr_error := None\<rparr>"

fun run_labels :: "scheduler_env \<Rightarrow> scheduler_label list \<Rightarrow> scheduler \<Rightarrow> scheduler option" where
  "run_labels env [] st = Some st"
| "run_labels env (l # ls) st = Option.bind (scheduler_step env l st) (run_labels env ls)"

lemma run_labels_run:
  "run_labels env ls st = Some st' \<Longrightarrow> scheduler_run env s0 planned n st \<Longrightarrow> scheduler_run env s0 planned (n + length ls) st'"
proof (induction ls arbitrary: st n)
  case (Cons l ls)
  then obtain st1 where st1: "scheduler_step env l st = Some st1" "run_labels env ls st1 = Some st'" by (auto simp: bind_eq_Some_conv)
  from Cons.IH [OF st1(2) scheduler_run.labelled [OF Cons.prems(2) st1(1)]] show ?case by simp
qed simp

definition example_labels :: "scheduler_label list" where
  "example_labels = [Prepared (Inr PrepDispatch), Prepared (Inr PrepDispatch), Settled 1 (Inr (example_done, True)), RaceWon 1,
     Settled 0 (Inr (example_done, False)), RaceWon 0, Finalized (Inr example_done), GroupEnd 1]"

lemma example_run:
  obtains s st where "session_reach s" "s_log s = example_step @ [log_event EndSeed 2]"
    "scheduler_run example_env s example_calls 8 st" "sd_point st = CallsReturned"
proof -
  define go where "go = (\<lambda>s. run_labels example_env example_labels (execute_tool_calls example_env 2 False (\<lambda>_. True) example_calls s))"
  have "is_ok (and_then (rethrow (\<lambda>_. ()) (construct_session 0 ''s'' (Some example_step) None SnapshotSeed None))
      (\<lambda>s. reject_if (s_log s \<noteq> example_step @ [log_event EndSeed 2] \<or>
        (case run_labels example_env example_labels (execute_tool_calls example_env 2 False (\<lambda>_. True) example_calls s) of
           None \<Rightarrow> True | Some st \<Rightarrow> sd_point st \<noteq> CallsReturned)) ()))"
    by code_simp
  then obtain s st where s: "construct_session 0 ''s'' (Some example_step) None SnapshotSeed None = Inr s" "s_log s = example_step @ [log_event EndSeed 2]"
    "go s = Some st" "sd_point st = CallsReturned"
    by (auto simp: is_ok_iff and_then_Inr_iff go_def split: option.splits)
  have reach: "session_reach s" by (rule session_reach.construct [OF s(1)])
  have "scheduler_run example_env s example_calls 0 (execute_tool_calls example_env 2 False (\<lambda>_. True) example_calls s)"
    using reach by (rule scheduler_run.called) simp
  from run_labels_run [OF s(3) [unfolded go_def] this] have "scheduler_run example_env s example_calls (0 + length example_labels) st" .
  moreover have "0 + length example_labels = 8" by (simp add: example_labels_def)
  ultimately show ?thesis using that [OF reach s(2) _ s(4)] by simp
qed

theorem calls_in_model_order_witness:
  "\<exists>s st es. scheduler_run example_env s example_calls 8 st \<and> sd_log st = s_log s @ es
     \<and> map snd (logged_calls example_env es) = example_calls
     \<and> logged_results example_env es = map answer_to (logged_calls example_env es)"
proof -
  obtain s st where run: "scheduler_run example_env s example_calls 8 st" "sd_point st = CallsReturned" by (rule example_run)
  from calls_in_model_order [OF run(1)] run(2) obtain es where es: "sd_log st = s_log s @ es" "map snd (logged_calls example_env es) = example_calls"
    "logged_results example_env es = map answer_to (take (length example_calls) (logged_calls example_env es))" by auto
  moreover have "length (logged_calls example_env es) = length example_calls" using arg_cong [OF es(2), of length] by simp
  ultimately show ?thesis using run(1) by (intro exI [of _ s] exI [of _ st] exI [of _ es]) simp
qed

theorem calls_keep_trace_witness:
  "\<exists>s st tr. scheduler_run example_env s example_calls 8 st \<and> seed_session (sd_log st) = Inr tr \<and> pending_calls tr = {}"
proof -
  obtain s st where run: "session_reach s" "s_log s = example_step @ [log_event EndSeed 2]"
    "scheduler_run example_env s example_calls 8 st" "sd_point st = CallsReturned" by (rule example_run)
  have "\<exists>tr. seed_session (s_log s) = Inr tr \<and> open_turn tr = Some 1 \<and> open_step tr = Some 1 \<and> pending_calls tr = {}"
    unfolding run(2) by (simp add: seed_session_def example_step_def validate_defs fresh_trace_def log_event_def)
  then obtain tr where tr: "seed_session (s_log s) = Inr tr" "open_turn tr = Some 1" "open_step tr = Some 1" "pending_calls tr = {}" by blast
  have "distinct (map tc_id example_calls)" by (simp add: example_calls_def)
  with calls_keep_trace [OF run(3) tr(1)] tr run(4) obtain tr' where "seed_session (sd_log st) = Inr tr'" "pending_calls tr' = {}"
    by (auto simp: example_env_def)
  with run(3) show ?thesis by blast
qed

theorem calls_end_witness:
  "\<exists>s st. scheduler_run example_env s example_calls 8 st \<and> 8 \<le> 5 * length example_calls \<and> sd_failure st \<noteq> Some UncommittedCalls"
proof -
  obtain s st where run: "scheduler_run example_env s example_calls 8 st" by (rule example_run)
  from calls_end [OF run] run show ?thesis by blast
qed

theorem calls_respect_barriers_witness:
  "\<exists>st st'. scheduler_step example_env (Prepared (Inr PrepDispatch)) st = Some st' \<and> sd_point st' = Preparing
     \<and> (sd_classify st' (example_calls ! (sd_base st' + sd_next st')) \<or> sd_in_flight st' = [])"
proof -
  let ?start = "execute_tool_calls example_env 2 False (\<lambda>_. True) example_calls"
  have "is_ok (and_then (rethrow (\<lambda>_. ()) (construct_session 0 ''s'' (Some example_step) None SnapshotSeed None))
      (\<lambda>s. reject_if (case scheduler_step example_env (Prepared (Inr PrepDispatch)) (execute_tool_calls example_env 2 False (\<lambda>_. True) example_calls s) of
           None \<Rightarrow> True | Some st \<Rightarrow> sd_point st \<noteq> Preparing) ()))"
    by code_simp
  then obtain s st' where s: "construct_session 0 ''s'' (Some example_step) None SnapshotSeed None = Inr s"
    "scheduler_step example_env (Prepared (Inr PrepDispatch)) (?start s) = Some st'" "sd_point st' = Preparing"
    by (auto simp: is_ok_iff and_then_Inr_iff split: option.splits)
  have "scheduler_run example_env s example_calls 0 (?start s)"
    by (rule scheduler_run.called [OF session_reach.construct [OF s(1)]]) simp
  from calls_respect_barriers [OF this s(2)] s(2,3) show ?thesis by (intro exI [of _ "?start s"] exI [of _ st']) auto
qed

end
