(* ===== verification/Compaction_Policy.thy ===== *)
theory Compaction_Policy
  imports Retry_Policy
begin

text \<open>
  \<open>packages/compaction/compaction-basic/src/config.ts\<close>: the compaction defaults and their exact-route
  overrides, validated once at load, merged for a route, and scaled to that route's context window.
  A configuration is a JSON object, whose numbers are finite.
\<close>

section \<open>What a scope may set\<close>

datatype retention = RetainRatio rat | RetainTokens int

record policy_fields =
  pf_threshold :: "rat option"
  pf_ratio :: "rat option"
  pf_tokens :: "int option"
  pf_provider :: "string option"
  pf_model :: "string option"
  pf_max_tokens :: "int option"
  pf_retries :: "int option"
  pf_overflow :: "int option"

record model_policy =
  mp_provider :: string
  mp_model :: string
  mp_fields :: policy_fields

record compaction_config =
  bc_threshold :: rat
  bc_retention :: retention
  bc_provider :: string
  bc_model :: string
  bc_max_tokens :: int
  bc_retries :: int
  bc_overflow :: int
  bc_policies :: "model_policy list"
  bc_auto :: bool

record target_policy =
  rp_provider :: string
  rp_model :: string
  rp_threshold :: rat
  rp_retention :: retention
  rp_sum_provider :: string
  rp_sum_model :: string
  rp_max_tokens :: int
  rp_retries :: int
  rp_overflow :: int

record compact_spec =
  cp_provider :: string
  cp_model :: string
  cp_window :: int
  cp_threshold_ratio :: rat
  cp_threshold :: int
  cp_retain :: int
  cp_sum_provider :: string
  cp_sum_model :: string
  cp_max_tokens :: int
  cp_retries :: int
  cp_overflow :: int

definition POLICY_CONFIG_KEYS :: "string list" where
  "POLICY_CONFIG_KEYS = [''thresholdRatio'', ''retainRatio'', ''retainTokens'', ''summarizationProvider'',
     ''summarizationModel'', ''maxTokens'', ''compactionRetries'', ''maxOverflowRetries'']"

definition BASIC_COMPACT_CONFIG_KEYS :: "string list" where
  "BASIC_COMPACT_CONFIG_KEYS = POLICY_CONFIG_KEYS @ [''modelPolicies'', ''auto'']"

definition MODEL_POLICY_KEYS :: "string list" where
  "MODEL_POLICY_KEYS = [''provider'', ''model''] @ POLICY_CONFIG_KEYS"

definition DEFAULT_THRESHOLD_RATIO :: rat where
  "DEFAULT_THRESHOLD_RATIO = 4 / 5"

definition DEFAULT_RETAIN_RATIO :: rat where
  "DEFAULT_RETAIN_RATIO = 4 / 25"

text \<open>A scope is the configuration itself or the entry of its table at an index.\<close>

datatype config_scope = WholeConfig | PolicyAt nat

datatype compaction_config_error =
    UnknownConfigKey config_scope string
  | BadRatio config_scope string json
  | BadCount config_scope string json
  | BothRetentions config_scope
  | BadSummaryString config_scope string
  | TornSummaryPair config_scope
  | AutoNotBool
  | RetainOverThreshold config_scope rat rat
  | PoliciesNotArray
  | PolicyNotObject config_scope
  | EmptyTarget config_scope string
  | DuplicateTarget string string

section \<open>Validating one scope\<close>

definition config_keys :: "config_scope \<Rightarrow> (string \<times> json) list \<Rightarrow> string list \<Rightarrow> (compaction_config_error, unit) result" where
  "config_keys sc kvs allowed =
     (case find (\<lambda>k. k \<notin> set allowed) (map fst kvs) of Some k \<Rightarrow> Inl (UnknownConfigKey sc k) | None \<Rightarrow> Inr ())"

definition assert_ratio :: "config_scope \<Rightarrow> string \<Rightarrow> json \<Rightarrow> (compaction_config_error, rat) result" where
  "assert_ratio sc k v = in_range (\<lambda>q. \<not> q \<le> 0 \<and> \<not> q > 1) v (BadRatio sc k v)"

text \<open>\<open>Number.isInteger\<close> and a bound.\<close>

definition integer_least :: "int \<Rightarrow> config_scope \<Rightarrow> string \<Rightarrow> json \<Rightarrow> (compaction_config_error, int) result" where
  "integer_least least sc k v =
     and_then (in_range (\<lambda>q. of_int \<lfloor>q\<rfloor> = q \<and> \<not> q < of_int least) v (BadCount sc k v)) (\<lambda>q. Inr \<lfloor>q\<rfloor>)"

definition non_negative_count :: "config_scope \<Rightarrow> string \<Rightarrow> json \<Rightarrow> (compaction_config_error, int) result" where
  "non_negative_count = integer_least 0"

definition positive_count :: "config_scope \<Rightarrow> string \<Rightarrow> json \<Rightarrow> (compaction_config_error, int) result" where
  "positive_count = integer_least 1"

definition assert_text :: "config_scope \<Rightarrow> string \<Rightarrow> json \<Rightarrow> (compaction_config_error, string) result" where
  "assert_text sc k v = (case v of JStr s \<Rightarrow> Inr s | _ \<Rightarrow> Inl (BadSummaryString sc k))"

definition assert_non_empty_string :: "config_scope \<Rightarrow> string \<Rightarrow> json option \<Rightarrow> (compaction_config_error, string) result" where
  "assert_non_empty_string sc k v =
     (case v of Some (JStr s) \<Rightarrow> if length s = 0 then Inl (EmptyTarget sc k) else Inr s | _ \<Rightarrow> Inl (EmptyTarget sc k))"

text \<open>A field that is only checked when it is there.\<close>

definition when_set ::
    "(config_scope \<Rightarrow> string \<Rightarrow> json \<Rightarrow> (compaction_config_error, 'a) result) \<Rightarrow>
     config_scope \<Rightarrow> (string \<times> json) list \<Rightarrow> string \<Rightarrow> (compaction_config_error, 'a option) result" where
  "when_set check sc kvs k = (case map_of kvs k of None \<Rightarrow> Inr None | Some v \<Rightarrow> and_then (check sc k v) (\<lambda>x. Inr (Some x)))"

definition validate_summarization_pair ::
    "config_scope \<Rightarrow> (string \<times> json) list \<Rightarrow> (compaction_config_error, string option \<times> string option) result" where
  "validate_summarization_pair sc kvs =
     and_then (when_set assert_text sc kvs ''summarizationProvider'') (\<lambda>p.
     and_then (when_set assert_text sc kvs ''summarizationModel'') (\<lambda>m.
       case (p, m) of
         (None, None) \<Rightarrow> Inr (None, None)
       | (Some p', Some m') \<Rightarrow>
           if (length p' = 0) \<noteq> (length m' = 0) then Inl (TornSummaryPair sc) else Inr (Some p', Some m')
       | _ \<Rightarrow> Inl (TornSummaryPair sc)))"

definition validate_policy :: "config_scope \<Rightarrow> (string \<times> json) list \<Rightarrow> (compaction_config_error, policy_fields) result" where
  "validate_policy sc kvs =
     and_then (when_set assert_ratio sc kvs ''thresholdRatio'') (\<lambda>th.
     and_then (when_set assert_ratio sc kvs ''retainRatio'') (\<lambda>rr.
     and_then (when_set non_negative_count sc kvs ''retainTokens'') (\<lambda>rt.
     and_then (reject_if (rr \<noteq> None \<and> rt \<noteq> None) (BothRetentions sc)) (\<lambda>_.
     and_then (when_set positive_count sc kvs ''maxTokens'') (\<lambda>mt.
     and_then (when_set non_negative_count sc kvs ''compactionRetries'') (\<lambda>cr.
     and_then (when_set non_negative_count sc kvs ''maxOverflowRetries'') (\<lambda>mo.
     and_then (validate_summarization_pair sc kvs) (\<lambda>(p, m).
       Inr \<lparr>pf_threshold = th, pf_ratio = rr, pf_tokens = rt, pf_provider = p, pf_model = m,
            pf_max_tokens = mt, pf_retries = cr, pf_overflow = mo\<rparr>))))))))"

definition assert_model_policy :: "config_scope \<Rightarrow> json \<Rightarrow> (compaction_config_error, model_policy) result" where
  "assert_model_policy sc source =
     (case source of
        JObj kvs \<Rightarrow>
          and_then (config_keys sc kvs MODEL_POLICY_KEYS) (\<lambda>_.
          and_then (assert_non_empty_string sc ''provider'' (map_of kvs ''provider'')) (\<lambda>p.
          and_then (assert_non_empty_string sc ''model'' (map_of kvs ''model'')) (\<lambda>m.
          and_then (validate_policy sc kvs) (\<lambda>f. Inr \<lparr>mp_provider = p, mp_model = m, mp_fields = f\<rparr>))))
      | _ \<Rightarrow> Inl (PolicyNotObject sc))"

text \<open>The key of a route in the set of routes seen: its two parts around a NUL.\<close>

definition target_key :: "model_policy \<Rightarrow> string" where
  "target_key p = mp_provider p @ [CHR 0x00] @ mp_model p"

fun model_policies_from ::
    "nat \<Rightarrow> string list \<Rightarrow> json list \<Rightarrow> (compaction_config_error, model_policy list) result" where
  "model_policies_from i seen [] = Inr []"
| "model_policies_from i seen (source # rest) =
     and_then (assert_model_policy (PolicyAt i) source) (\<lambda>p.
       if target_key p \<in> set seen then Inl (DuplicateTarget (mp_provider p) (mp_model p))
       else and_then (model_policies_from (i + 1) (target_key p # seen) rest) (\<lambda>ps. Inr (p # ps)))"

definition resolve_model_policies :: "json option \<Rightarrow> (compaction_config_error, model_policy list) result" where
  "resolve_model_policies configured =
     (case configured of
        None \<Rightarrow> Inr []
      | Some (JArr xs) \<Rightarrow> model_policies_from 0 [] xs
      | Some _ \<Rightarrow> Inl PoliciesNotArray)"

section \<open>Retention\<close>

definition resolve_retention :: "policy_fields \<Rightarrow> retention \<Rightarrow> retention" where
  "resolve_retention f fallback =
     (case pf_tokens f of
        Some n \<Rightarrow> RetainTokens n
      | None \<Rightarrow> (case pf_ratio f of Some q \<Rightarrow> RetainRatio q | None \<Rightarrow> fallback))"

definition validate_ratio_retention :: "rat \<Rightarrow> retention \<Rightarrow> config_scope \<Rightarrow> (compaction_config_error, unit) result" where
  "validate_ratio_retention threshold r sc =
     (case r of RetainRatio q \<Rightarrow> reject_if (q \<ge> threshold) (RetainOverThreshold sc q threshold) | RetainTokens _ \<Rightarrow> Inr ())"

definition set_or :: "'a option \<Rightarrow> 'a \<Rightarrow> 'a" where
  "set_or v fallback = (case v of Some x \<Rightarrow> x | None \<Rightarrow> fallback)"

section \<open>The whole configuration\<close>

fun validate_overrides ::
    "rat \<Rightarrow> retention \<Rightarrow> nat \<Rightarrow> model_policy list \<Rightarrow> (compaction_config_error, unit) result" where
  "validate_overrides threshold r i [] = Inr ()"
| "validate_overrides threshold r i (p # ps) =
     and_then (validate_ratio_retention (set_or (pf_threshold (mp_fields p)) threshold)
       (resolve_retention (mp_fields p) r) (PolicyAt i)) (\<lambda>_.
     validate_overrides threshold r (i + 1) ps)"

definition config_auto :: "(string \<times> json) list \<Rightarrow> (compaction_config_error, bool option) result" where
  "config_auto kvs =
     (case map_of kvs ''auto'' of None \<Rightarrow> Inr None | Some (JBool b) \<Rightarrow> Inr (Some b) | Some _ \<Rightarrow> Inl AutoNotBool)"

definition resolve_config :: "(string \<times> json) list \<Rightarrow> (compaction_config_error, compaction_config) result" where
  "resolve_config kvs =
     and_then (config_keys WholeConfig kvs BASIC_COMPACT_CONFIG_KEYS) (\<lambda>_.
     and_then (validate_policy WholeConfig kvs) (\<lambda>f.
     and_then (config_auto kvs) (\<lambda>a.
     let threshold = set_or (pf_threshold f) DEFAULT_THRESHOLD_RATIO;
         r = resolve_retention f (RetainRatio DEFAULT_RETAIN_RATIO)
     in and_then (validate_ratio_retention threshold r WholeConfig) (\<lambda>_.
        and_then (resolve_model_policies (map_of kvs ''modelPolicies'')) (\<lambda>ps.
        and_then (validate_overrides threshold r 0 ps) (\<lambda>_.
          Inr \<lparr>bc_threshold = threshold, bc_retention = r,
               bc_provider = set_or (pf_provider f) [], bc_model = set_or (pf_model f) [],
               bc_max_tokens = set_or (pf_max_tokens f) 8192, bc_retries = set_or (pf_retries f) 1,
               bc_overflow = set_or (pf_overflow f) 1, bc_policies = ps, bc_auto = set_or a True\<rparr>))))))"

section \<open>A route's policy, and its budget\<close>

definition no_fields :: policy_fields where
  "no_fields = \<lparr>pf_threshold = None, pf_ratio = None, pf_tokens = None, pf_provider = None, pf_model = None,
     pf_max_tokens = None, pf_retries = None, pf_overflow = None\<rparr>"

definition find_override :: "compaction_config \<Rightarrow> string \<Rightarrow> string \<Rightarrow> policy_fields" where
  "find_override config p m =
     (case find (\<lambda>o'. mp_provider o' = p \<and> mp_model o' = m) (bc_policies config) of
        Some o' \<Rightarrow> mp_fields o' | None \<Rightarrow> no_fields)"

definition resolve_target_policy :: "compaction_config \<Rightarrow> string \<Rightarrow> string \<Rightarrow> target_policy" where
  "resolve_target_policy config p m =
     (let f = find_override config p m in
      \<lparr>rp_provider = p, rp_model = m,
       rp_threshold = set_or (pf_threshold f) (bc_threshold config),
       rp_retention = resolve_retention f (bc_retention config),
       rp_sum_provider = set_or (pf_provider f) (bc_provider config),
       rp_sum_model = set_or (pf_model f) (bc_model config),
       rp_max_tokens = set_or (pf_max_tokens f) (bc_max_tokens config),
       rp_retries = set_or (pf_retries f) (bc_retries config),
       rp_overflow = set_or (pf_overflow f) (bc_overflow config)\<rparr>)"

text \<open>The key of the route in the errors that are only warned about once, and their kinds.\<close>

datatype pressure_error = WindowNotPositive string rat | RetainOverBudget string int int | NoCapacity string

definition route_key :: "string \<Rightarrow> string \<Rightarrow> string" where
  "route_key p m = p @ ''/'' @ m"

text \<open>\<open>rnd\<close> is the rounding of the floating product of the window and a ratio.\<close>

definition resolve_compact_spec ::
    "(rat \<Rightarrow> rat) \<Rightarrow> target_policy \<Rightarrow> rat \<Rightarrow> (pressure_error, compact_spec) result" where
  "resolve_compact_spec rnd tp window =
     (let key = route_key (rp_provider tp) (rp_model tp) in
      if \<not> of_int \<lfloor>window\<rfloor> = window \<or> window \<le> 0 then Inl (WindowNotPositive key window)
      else let threshold = \<lfloor>rnd (window * rp_threshold tp)\<rfloor>;
               retain = (case rp_retention tp of RetainRatio q \<Rightarrow> \<lfloor>rnd (window * q)\<rfloor> | RetainTokens n \<Rightarrow> n)
        in if retain \<ge> threshold then Inl (RetainOverBudget key retain threshold)
           else Inr \<lparr>cp_provider = rp_provider tp, cp_model = rp_model tp, cp_window = \<lfloor>window\<rfloor>,
                     cp_threshold_ratio = rp_threshold tp, cp_threshold = threshold, cp_retain = retain,
                     cp_sum_provider = rp_sum_provider tp, cp_sum_model = rp_sum_model tp,
                     cp_max_tokens = rp_max_tokens tp, cp_retries = rp_retries tp, cp_overflow = rp_overflow tp\<rparr>)"

section \<open>What validation establishes\<close>

definition opt_all :: "('a \<Rightarrow> bool) \<Rightarrow> 'a option \<Rightarrow> bool" where
  "opt_all P v = (case v of Some x \<Rightarrow> P x | None \<Rightarrow> True)"

lemma opt_all_simps [simp]: "opt_all P None" "opt_all P (Some x) \<longleftrightarrow> P x"
  by (simp_all add: opt_all_def)

lemma set_or_simps [simp]: "set_or None d = d" "set_or (Some x) d = x"
  by (simp_all add: set_or_def)

lemma opt_all_set_or: "opt_all P v \<Longrightarrow> P d \<Longrightarrow> P (set_or v d)"
  by (cases v) simp_all

definition unit_ratio :: "rat \<Rightarrow> bool" where
  "unit_ratio q \<longleftrightarrow> 0 < q \<and> q \<le> 1"

definition retention_within :: "retention \<Rightarrow> bool" where
  "retention_within r \<longleftrightarrow> (case r of RetainRatio q \<Rightarrow> unit_ratio q | RetainTokens n \<Rightarrow> 0 \<le> n)"

definition paired :: "string option \<Rightarrow> string option \<Rightarrow> bool" where
  "paired p m \<longleftrightarrow> (case (p, m) of (None, None) \<Rightarrow> True | (Some p', Some m') \<Rightarrow> p' = [] \<longleftrightarrow> m' = [] | _ \<Rightarrow> False)"

definition fields_ok :: "policy_fields \<Rightarrow> bool" where
  "fields_ok f \<longleftrightarrow> opt_all unit_ratio (pf_threshold f) \<and> opt_all unit_ratio (pf_ratio f) \<and> opt_all ((\<le>) 0) (pf_tokens f)
     \<and> opt_all ((<) 0) (pf_max_tokens f) \<and> opt_all ((\<le>) 0) (pf_retries f) \<and> opt_all ((\<le>) 0) (pf_overflow f)
     \<and> paired (pf_provider f) (pf_model f)"

definition target_ok :: "target_policy \<Rightarrow> bool" where
  "target_ok tp \<longleftrightarrow> unit_ratio (rp_threshold tp) \<and> retention_within (rp_retention tp)
     \<and> (case rp_retention tp of RetainRatio q \<Rightarrow> q < rp_threshold tp | RetainTokens _ \<Rightarrow> True)
     \<and> (rp_sum_provider tp = [] \<longleftrightarrow> rp_sum_model tp = [])
     \<and> 0 < rp_max_tokens tp \<and> 0 \<le> rp_retries tp \<and> 0 \<le> rp_overflow tp"

lemma when_set_Inr_iff:
  "when_set check sc kvs k = Inr v \<longleftrightarrow>
     (case map_of kvs k of None \<Rightarrow> v = None | Some j \<Rightarrow> \<exists>x. check sc k j = Inr x \<and> v = Some x)"
  by (auto simp: when_set_def and_then_Inr_iff split: option.splits)

lemma when_set_all:
  assumes "when_set check sc kvs k = Inr v" and "\<And>j x. check sc k j = Inr x \<Longrightarrow> P x"
  shows "opt_all P v"
  using assms by (auto simp: when_set_Inr_iff split: option.splits)

lemma assert_ratio_ok: "assert_ratio sc k j = Inr q \<Longrightarrow> unit_ratio q"
  by (auto simp: assert_ratio_def in_range_Inr_iff unit_ratio_def)

lemma integer_least_ok: "integer_least least sc k j = Inr n \<Longrightarrow> least \<le> n"
  by (auto simp: integer_least_def in_range_Inr_iff and_then_Inr_iff not_less le_floor_iff)

lemma summarization_pair_ok: "validate_summarization_pair sc kvs = Inr (p, m) \<Longrightarrow> paired p m"
  by (auto simp: validate_summarization_pair_def and_then_Inr_iff paired_def split: option.splits if_splits)

lemma validate_policy_ok:
  assumes "validate_policy sc kvs = Inr f"
  shows "fields_ok f"
proof -
  have pos: "\<And>j x. positive_count sc ''maxTokens'' j = Inr x \<Longrightarrow> 0 < x"
    using integer_least_ok [of 1] by (fastforce simp: positive_count_def)
  have nn: "\<And>k j x. non_negative_count sc k j = Inr x \<Longrightarrow> 0 \<le> x"
    using integer_least_ok [of 0] by (fastforce simp: non_negative_count_def)
  note when_set_all [OF _ assert_ratio_ok] when_set_all [where P = "(\<le>) 0", OF _ nn] when_set_all [where P = "(<) 0", OF _ pos]
  note sets = this
  from assms show ?thesis
    by (auto simp: validate_policy_def and_then_Inr_iff fields_ok_def intro: sets dest: summarization_pair_ok)
qed

lemma no_fields_ok: "fields_ok no_fields"
  by (simp add: fields_ok_def no_fields_def paired_def)

lemma model_policies_ok:
  "model_policies_from i seen xs = Inr ps \<Longrightarrow>
     (\<forall>p \<in> set ps. fields_ok (mp_fields p) \<and> mp_provider p \<noteq> [] \<and> mp_model p \<noteq> [])
     \<and> distinct (map target_key ps) \<and> set seen \<inter> target_key ` set ps = {}"
proof (induction xs arbitrary: i seen ps)
  case (Cons x xs)
  from Cons.prems obtain p rest where p: "assert_model_policy (PolicyAt i) x = Inr p" "target_key p \<notin> set seen"
    "model_policies_from (i + 1) (target_key p # seen) xs = Inr rest" "ps = p # rest"
    by (auto simp: and_then_Inr_iff split: if_splits)
  from p(1) have "fields_ok (mp_fields p) \<and> mp_provider p \<noteq> [] \<and> mp_model p \<noteq> []"
    by (auto simp: assert_model_policy_def and_then_Inr_iff assert_non_empty_string_def
        dest: validate_policy_ok split: json.splits option.splits if_splits)
  with Cons.IH [OF p(3)] p(2,4) show ?case by auto
qed simp

lemma resolve_model_policies_ok:
  assumes "resolve_model_policies v = Inr ps"
  shows "(\<forall>p \<in> set ps. fields_ok (mp_fields p)) \<and> distinct (map target_key ps)"
  using assms model_policies_ok by (fastforce simp: resolve_model_policies_def split: option.splits json.splits)

lemma validate_overrides_all:
  "validate_overrides th r i ps = Inr () \<Longrightarrow> p \<in> set ps \<Longrightarrow>
     \<exists>sc. validate_ratio_retention (set_or (pf_threshold (mp_fields p)) th) (resolve_retention (mp_fields p) r) sc = Inr ()"
  by (induction ps arbitrary: i) (auto simp: and_then_Inr_iff)

lemma validate_ratio_retention_iff:
  "validate_ratio_retention th r sc = Inr () \<longleftrightarrow> (case r of RetainRatio q \<Rightarrow> q < th | RetainTokens _ \<Rightarrow> True)"
  by (auto simp: validate_ratio_retention_def not_le split: retention.splits)

lemma resolve_retention_within: "fields_ok f \<Longrightarrow> retention_within r \<Longrightarrow> retention_within (resolve_retention f r)"
  by (auto simp: resolve_retention_def fields_ok_def retention_within_def split: option.splits)

lemma paired_set_or:
  assumes "paired p m" and "p' = [] \<longleftrightarrow> m' = []"
  shows "set_or p p' = [] \<longleftrightarrow> set_or m m' = []"
  using assms by (auto simp: paired_def split: option.splits)

lemma target_policy_ok:
  assumes "resolve_config kvs = Inr config"
  shows "target_ok (resolve_target_policy config p m)"
proof -
  from assms obtain f a where f: "validate_policy WholeConfig kvs = Inr f"
    and self: "validate_ratio_retention (bc_threshold config) (bc_retention config) WholeConfig = Inr ()"
    and pols: "resolve_model_policies (map_of kvs ''modelPolicies'') = Inr (bc_policies config)"
    and over: "validate_overrides (bc_threshold config) (bc_retention config) 0 (bc_policies config) = Inr ()"
    and config: "bc_threshold config = set_or (pf_threshold f) DEFAULT_THRESHOLD_RATIO"
      "bc_retention config = resolve_retention f (RetainRatio DEFAULT_RETAIN_RATIO)"
      "bc_provider config = set_or (pf_provider f) []" "bc_model config = set_or (pf_model f) []"
      "bc_max_tokens config = set_or (pf_max_tokens f) 8192" "bc_retries config = set_or (pf_retries f) 1"
      "bc_overflow config = set_or (pf_overflow f) 1"
    by (auto simp: resolve_config_def and_then_Inr_iff Let_def)
  from validate_policy_ok [OF f] have fok: "fields_ok f" .
  let ?o = "find_override config p m"
  have ook: "fields_ok ?o"
    using resolve_model_policies_ok [OF pols] no_fields_ok
    by (auto simp: find_override_def find_Some_iff split: option.splits)
  have checked: "case resolve_retention ?o (bc_retention config) of
      RetainRatio q \<Rightarrow> q < set_or (pf_threshold ?o) (bc_threshold config) | RetainTokens _ \<Rightarrow> True"
  proof (cases "find (\<lambda>o'. mp_provider o' = p \<and> mp_model o' = m) (bc_policies config)")
    case None
    then have "?o = no_fields" by (simp add: find_override_def)
    then have o': "pf_threshold ?o = None" "resolve_retention ?o r = r" for r by (simp_all add: no_fields_def resolve_retention_def)
    show ?thesis unfolding o' set_or_simps using self by (simp add: validate_ratio_retention_iff)
  next
    case (Some q)
    then have "q \<in> set (bc_policies config)" by (auto simp: find_Some_iff)
    from Some have o': "?o = mp_fields q" by (simp add: find_override_def)
    from validate_overrides_all [OF over \<open>q \<in> _\<close>] show ?thesis unfolding o' by (simp add: validate_ratio_retention_iff)
  qed
  have base: "unit_ratio (bc_threshold config)" "retention_within (bc_retention config)" "0 < bc_max_tokens config"
      "0 \<le> bc_retries config" "0 \<le> bc_overflow config" "bc_provider config = [] \<longleftrightarrow> bc_model config = []"
  proof -
    have d: "unit_ratio DEFAULT_THRESHOLD_RATIO" "retention_within (RetainRatio DEFAULT_RETAIN_RATIO)"
      by (simp_all add: unit_ratio_def retention_within_def DEFAULT_THRESHOLD_RATIO_def DEFAULT_RETAIN_RATIO_def)
    have s: "opt_all unit_ratio (pf_threshold f)" "opt_all ((<) 0) (pf_max_tokens f)" "opt_all ((\<le>) 0) (pf_retries f)"
      "opt_all ((\<le>) 0) (pf_overflow f)" "paired (pf_provider f) (pf_model f)"
      using fok by (simp_all add: fields_ok_def)
    show "unit_ratio (bc_threshold config)" unfolding config by (rule opt_all_set_or [OF s(1) d(1)])
    show "retention_within (bc_retention config)" unfolding config by (rule resolve_retention_within [OF fok d(2)])
    show "0 < bc_max_tokens config" unfolding config by (rule opt_all_set_or [OF s(2)]) simp
    show "0 \<le> bc_retries config" unfolding config by (rule opt_all_set_or [OF s(3)]) simp
    show "0 \<le> bc_overflow config" unfolding config by (rule opt_all_set_or [OF s(4)]) simp
    show "bc_provider config = [] \<longleftrightarrow> bc_model config = []" unfolding config by (rule paired_set_or [OF s(5)]) simp
  qed
  have fields: "opt_all unit_ratio (pf_threshold ?o)" "opt_all ((<) 0) (pf_max_tokens ?o)" "opt_all ((\<le>) 0) (pf_retries ?o)"
    "opt_all ((\<le>) 0) (pf_overflow ?o)" "paired (pf_provider ?o) (pf_model ?o)"
    using ook by (simp_all add: fields_ok_def)
  show ?thesis
    using opt_all_set_or [OF fields(1) base(1)] opt_all_set_or [OF fields(2) base(3)] opt_all_set_or [OF fields(3) base(4)]
      opt_all_set_or [OF fields(4) base(5)] paired_set_or [OF fields(5) base(6)] resolve_retention_within [OF ook base(2)] checked
    unfolding target_ok_def resolve_target_policy_def Let_def target_policy.select_convs by blast
qed

text \<open>No route has two overrides, so the one found is the one given.\<close>

theorem override_is_exact:
  assumes "resolve_config kvs = Inr config" and "q \<in> set (bc_policies config)"
  shows "find_override config (mp_provider q) (mp_model q) = mp_fields q"
proof -
  from assms(1) have "resolve_model_policies (map_of kvs ''modelPolicies'') = Inr (bc_policies config)"
    by (auto simp: resolve_config_def and_then_Inr_iff Let_def)
  from resolve_model_policies_ok [OF this] have d: "inj_on target_key (set (bc_policies config))"
    by (simp add: distinct_map)
  show ?thesis
  proof (cases "find (\<lambda>o'. mp_provider o' = mp_provider q \<and> mp_model o' = mp_model q) (bc_policies config)")
    case None
    with assms(2) show ?thesis by (auto simp: find_None_iff)
  next
    case (Some q')
    then have "q' \<in> set (bc_policies config)" "target_key q' = target_key q" by (auto simp: find_Some_iff target_key_def)
    with d assms(2) have "q' = q" by (auto dest: inj_onD)
    with Some show ?thesis by (simp add: find_override_def)
  qed
qed

text \<open>
  The budget of a route: rounding that is monotone and keeps 0 and the window gives a threshold within the window
  and above the retained tail, which is not negative.
\<close>

theorem compact_spec_budget:
  assumes "resolve_config kvs = Inr config" and "resolve_compact_spec rnd (resolve_target_policy config p m) window = Inr spec"
    and "mono rnd" and "rnd 0 = 0" and "rnd window = window"
  shows "0 \<le> cp_retain spec \<and> cp_retain spec < cp_threshold spec \<and> cp_threshold spec \<le> cp_window spec"
proof -
  let ?tp = "resolve_target_policy config p m"
  from target_policy_ok [OF assms(1)] have ok: "unit_ratio (rp_threshold ?tp)" "retention_within (rp_retention ?tp)"
    by (simp_all add: target_ok_def)
  from assms(2) have w: "0 < window" and spec: "cp_window spec = \<lfloor>window\<rfloor>" "cp_retain spec < cp_threshold spec"
    "cp_threshold spec = \<lfloor>rnd (window * rp_threshold ?tp)\<rfloor>"
    "cp_retain spec = (case rp_retention ?tp of RetainRatio q \<Rightarrow> \<lfloor>rnd (window * q)\<rfloor> | RetainTokens n \<Rightarrow> n)"
    by (auto simp: resolve_compact_spec_def Let_def not_le split: if_splits)
  have "window * rp_threshold ?tp \<le> window" using ok(1) w by (simp add: unit_ratio_def mult_left_le)
  then have "rnd (window * rp_threshold ?tp) \<le> window" using monoD [OF assms(3)] assms(5) by fastforce
  then have "cp_threshold spec \<le> cp_window spec" unfolding spec by (rule floor_mono)
  moreover have "0 \<le> cp_retain spec"
  proof (cases "rp_retention ?tp")
    case (RetainRatio q)
    with ok(2) w have "0 \<le> window * q" by (simp add: retention_within_def unit_ratio_def)
    then have "0 \<le> rnd (window * q)" using monoD [OF assms(3)] assms(4) by fastforce
    with RetainRatio show ?thesis by (simp add: spec)
  next
    case (RetainTokens n)
    with ok(2) show ?thesis by (simp add: spec retention_within_def)
  qed
  ultimately show ?thesis using spec(2) by simp
qed

text \<open>
  Claim C35. A configuration that loads serves every route: whatever override the route matches, its merged policy has ratios
  in the unit interval, a retained ratio below its threshold ratio, the two halves of the summary target
  together, a positive output cap and retry counts that are not negative. A retained token count is compared with the
  threshold only when the budget for a window is resolved: such a budget, with rounding that is monotone and keeps 0 and
  the window, retains between zero and strictly less than its threshold, which is within the window,
  and a token count that reaches the threshold is refused.
\<close>

theorem target_policy_within:
  assumes "resolve_config kvs = Inr config" and "tp = resolve_target_policy config p m"
    and "mono rnd" and "rnd 0 = 0" and "rnd window = window"
  shows "target_ok tp
    \<and> (\<forall>spec. resolve_compact_spec rnd tp window = Inr spec \<longrightarrow>
         0 \<le> cp_retain spec \<and> cp_retain spec < cp_threshold spec \<and> cp_threshold spec \<le> cp_window spec)
    \<and> (\<forall>n. rp_retention tp = RetainTokens n \<and> \<lfloor>rnd (window * rp_threshold tp)\<rfloor> \<le> n \<longrightarrow>
         \<not> is_ok (resolve_compact_spec rnd tp window))"
proof (intro conjI allI impI)
  show "target_ok tp" unfolding assms(2) by (rule target_policy_ok [OF assms(1)])
next
  fix spec assume "resolve_compact_spec rnd tp window = Inr spec"
  then show "0 \<le> cp_retain spec" "cp_retain spec < cp_threshold spec" "cp_threshold spec \<le> cp_window spec"
    using compact_spec_budget [OF assms(1) _ assms(3-5)] unfolding assms(2) by blast+
next
  fix n assume "rp_retention tp = RetainTokens n \<and> \<lfloor>rnd (window * rp_threshold tp)\<rfloor> \<le> n"
  then show "\<not> is_ok (resolve_compact_spec rnd tp window)" by (simp add: resolve_compact_spec_def Let_def)
qed

section \<open>A concrete configuration\<close>

definition example_config :: "(string \<times> json) list" where
  "example_config =
     [(''thresholdRatio'', JNum (JFrac (9 / 10))),
      (''modelPolicies'', JArr [JObj [(''provider'', JStr ''p''), (''model'', JStr ''m''), (''thresholdRatio'', JNum (JFrac (1 / 2))),
                                      (''retainTokens'', jint 10), (''summarizationProvider'', JStr ''q''),
                                      (''summarizationModel'', JStr ''s'')]])]"

lemma example_config_loads: obtains config where "resolve_config example_config = Inr config" "length (bc_policies config) = 1"
proof -
  have "is_ok (and_then (resolve_config example_config) (\<lambda>config. reject_if (length (bc_policies config) \<noteq> 1) AutoNotBool))"
    by code_simp
  with that show ?thesis by (auto simp: is_ok_iff and_then_Inr_iff)
qed

theorem target_policy_within_witness:
  "\<exists>config spec. resolve_config example_config = Inr config \<and> target_ok (resolve_target_policy config ''p'' ''m'')
     \<and> rp_retention (resolve_target_policy config ''p'' ''m'') = RetainTokens 10
     \<and> resolve_compact_spec (\<lambda>x. x) (resolve_target_policy config ''p'' ''m'') 1000 = Inr spec
     \<and> cp_retain spec < cp_threshold spec
     \<and> \<not> is_ok (resolve_compact_spec (\<lambda>x. x) (resolve_target_policy config ''p'' ''m'') 20)"
proof -
  have "is_ok (and_then (resolve_config example_config) (\<lambda>config. let tp = resolve_target_policy config ''p'' ''m'' in
    reject_if (rp_retention tp \<noteq> RetainTokens 10 \<or> rp_threshold tp \<noteq> 1 / 2 \<or> \<not> is_ok (resolve_compact_spec (\<lambda>x. x) tp 1000)) AutoNotBool))"
    by code_simp
  then obtain config spec where c: "resolve_config example_config = Inr config"
    "rp_retention (resolve_target_policy config ''p'' ''m'') = RetainTokens 10"
    "rp_threshold (resolve_target_policy config ''p'' ''m'') = 1 / 2"
    "resolve_compact_spec (\<lambda>x. x) (resolve_target_policy config ''p'' ''m'') 1000 = Inr spec"
    by (auto simp: is_ok_iff and_then_Inr_iff Let_def)
  have "mono (\<lambda>x :: rat. x)" by (simp add: mono_def)
  note within = target_policy_within [OF c(1) refl this refl refl, of "''p''" "''m''"]
  have "\<not> is_ok (resolve_compact_spec (\<lambda>x. x) (resolve_target_policy config ''p'' ''m'') 20)"
    using within [of 20] c(2,3) by simp
  with within [of 1000] c show ?thesis by blast
qed

theorem override_is_exact_witness:
  "\<exists>config q. resolve_config example_config = Inr config \<and> q \<in> set (bc_policies config)
     \<and> find_override config (mp_provider q) (mp_model q) = mp_fields q"
proof -
  from example_config_loads obtain config where c: "resolve_config example_config = Inr config" "length (bc_policies config) = 1" .
  from c(2) obtain q where q: "q \<in> set (bc_policies config)" by (cases "bc_policies config") auto
  from override_is_exact [OF c(1) q] c(1) q show ?thesis by blast
qed

theorem compact_spec_budget_witness:
  "\<exists>config spec. resolve_config example_config = Inr config
     \<and> resolve_compact_spec (\<lambda>x. x) (resolve_target_policy config ''p'' ''m'') 1000 = Inr spec
     \<and> cp_retain spec < cp_threshold spec \<and> cp_threshold spec \<le> cp_window spec"
proof -
  have "is_ok (and_then (resolve_config example_config)
    (\<lambda>config. reject_if (\<not> is_ok (resolve_compact_spec (\<lambda>x. x) (resolve_target_policy config ''p'' ''m'') 1000)) AutoNotBool))"
    by code_simp
  then obtain config spec where c: "resolve_config example_config = Inr config"
    "resolve_compact_spec (\<lambda>x. x) (resolve_target_policy config ''p'' ''m'') 1000 = Inr spec"
    by (auto simp: is_ok_iff and_then_Inr_iff)
  from compact_spec_budget [OF c] c show ?thesis by (auto simp: mono_def)
qed

end
