(* ===== verification/Compaction_Engine.thy ===== *)
theory Compaction_Engine
  imports Compaction_Policy Tool_Pruner
begin

text \<open>
  \<open>packages/compaction/compaction-basic/src/index.ts\<close>: when the compaction transaction runs. Step-boundary
  pressure, recovery from a context overflow and the manual command choose a range and run the transaction on
  it; the automatic drivers also keep the overflow retries of each agent and the routes already warned about.
  One session is modelled, with the agents that may own it.
\<close>

section \<open>The engine and one call of it\<close>

datatype compaction_trigger = PressureTrigger | OverflowTrigger

datatype engine_error =
    EngineRegion region_error
  | EnginePruner pruner_error
  | EnginePressure pressure_error
  | EngineModelInfo string
  | StillAbove int int int

text \<open>The configuration, the rounding of the arithmetic, and the pruner if one is installed.\<close>

record engine_env =
  ge_region :: region_env
  ge_config :: compaction_config
  ge_round :: "rat \<Rightarrow> rat"
  ge_pruner :: "prune_config option"

text \<open>
  What one call finds around it: the clock, the identities and the surroundings of each transaction it runs,
  the adapter's answer about the model, and what other code does to the session while that is awaited.
\<close>

record engine_call =
  ga_prune_clock :: "nat \<Rightarrow> int"
  ga_clock :: "nat \<Rightarrow> nat \<Rightarrow> int"
  ga_ids :: "nat \<Rightarrow> string \<times> string"
  ga_around :: "nat \<Rightarrow> surroundings"
  ga_info :: "(string, rat option) result"
  ga_meanwhile :: "region_world \<Rightarrow> region_world"

definition routed_target :: "(region_world, region_error, (string \<times> string) option) step" where
  "routed_target =
     and_do header_in_force (\<lambda>h. give
       (case h of
          None \<Rightarrow> None
        | Some e \<Rightarrow>
            if length (cc_provider (eh_config e)) = 0 \<or> length (cc_model (eh_config e)) = 0 then None
            else Some (cc_provider (eh_config e), cc_model (eh_config e))))"

definition current_turn_options :: transaction_options where
  "current_turn_options = \<lparr>to_in_turn = True, to_stability = WholeSurface, to_flush = False, to_command = None\<rparr>"

definition compact_region ::
    "engine_env \<Rightarrow> engine_call \<Rightarrow> nat \<Rightarrow> nat \<times> nat \<Rightarrow> (region_world, engine_error, closed_result) step" where
  "compact_region ge ga k ab =
     wrap EngineRegion (compact_surface_region (ge_region ge) (ga_clock ga k) (fst (ga_ids ga k)) (snd (ga_ids ga k))
       current_turn_options (ga_around ga k) (fst ab) (snd ab))"

definition remeasure :: "engine_env \<Rightarrow> (region_world, engine_error, measurement) step" where
  "remeasure ge = wrap EngineRegion (measure_surface (ge_region ge))"

definition pick_range :: "measurement \<Rightarrow> int \<Rightarrow> (region_world, engine_error, (nat \<times> nat) option) step" where
  "pick_range m retain = wrap EngineRegion (select_compactable_range m retain)"

text \<open>The model-free pass, and the measurement after it.\<close>

definition prune_first :: "engine_env \<Rightarrow> engine_call \<Rightarrow> measurement \<Rightarrow> (region_world, engine_error, measurement) step" where
  "prune_first ge ga m =
     (case ge_pruner ge of
        None \<Rightarrow> give m
      | Some cfg \<Rightarrow>
          and_do (wrap EnginePruner (prune_session cfg (ge_region ge) (ga_prune_clock ga))) (\<lambda>_. remeasure ge))"

text \<open>The loop of attempts: \<open>left\<close> more are allowed, \<open>k\<close> have been made.\<close>

fun pressure_attempts ::
    "engine_env \<Rightarrow> engine_call \<Rightarrow> compact_spec \<Rightarrow> nat \<Rightarrow> nat \<Rightarrow> measurement \<Rightarrow> closed_result option \<Rightarrow>
     (region_world, engine_error, closed_result option) step" where
  "pressure_attempts ge ga spec 0 k m res = raise (StillAbove (cp_retries spec + 1) (me_total m) (cp_threshold spec))"
| "pressure_attempts ge ga spec (Suc left) k m res =
     and_do (pick_range m (cp_retain spec)) (\<lambda>range.
       case range of
         None \<Rightarrow>
           if res = None then give None
           else raise (StillAbove (cp_retries spec + 1) (me_total m) (cp_threshold spec))
       | Some r \<Rightarrow>
           and_do (compact_region ge ga k r) (\<lambda>res'.
           and_do (remeasure ge) (\<lambda>m'.
             if me_total m' < cp_threshold spec then give (Some res')
             else pressure_attempts ge ga spec left (k + 1) m' (Some res'))))"

definition compact_for_overflow ::
    "engine_env \<Rightarrow> engine_call \<Rightarrow> measurement \<Rightarrow> (region_world, engine_error, closed_result option) step" where
  "compact_for_overflow ge ga m =
     and_do (prune_first ge ga m) (\<lambda>m'.
     and_do (pick_range m' 0) (\<lambda>range.
       case range of None \<Rightarrow> give None | Some r \<Rightarrow> and_do (compact_region ge ga 0 r) (\<lambda>res. give (Some res))))"

text \<open>The request for the model's capacity is awaited.\<close>

definition resolve_capacity :: "engine_call \<Rightarrow> (region_world, engine_error, rat option) step" where
  "resolve_capacity ga w = (rethrow EngineModelInfo (ga_info ga), ga_meanwhile ga w)"

definition compact_for_pressure ::
    "engine_env \<Rightarrow> engine_call \<Rightarrow> target_policy \<Rightarrow> measurement \<Rightarrow> (region_world, engine_error, closed_result option) step" where
  "compact_for_pressure ge ga policy m =
     and_do (resolve_capacity ga) (\<lambda>capacity w.
     and_do (lift_result (rethrow EngineRegion (assert_no_active_compaction (region_log w)))) (\<lambda>_.
     case capacity of
       None \<Rightarrow> raise (EnginePressure (NoCapacity (route_key (rp_provider policy) (rp_model policy))))
     | Some window \<Rightarrow>
         and_do (lift_result (rethrow EnginePressure (resolve_compact_spec (ge_round ge) policy window))) (\<lambda>spec.
         if me_total m < cp_threshold spec then give None
         else and_do (prune_first ge ga m) (\<lambda>m'.
           if me_total m' < cp_threshold spec then give None
           else pressure_attempts ge ga spec (nat (cp_retries spec + 1)) 0 m' None))) w)"

definition compact_if_needed ::
    "engine_env \<Rightarrow> engine_call \<Rightarrow> compaction_trigger \<Rightarrow> (region_world, engine_error, closed_result option) step" where
  "compact_if_needed ge ga trigger =
     and_do (wrap EngineRegion routed_target) (\<lambda>target.
       case target of
         None \<Rightarrow> give None
       | Some (p, m) \<Rightarrow>
           and_do (remeasure ge) (\<lambda>measurement.
             case trigger of
               OverflowTrigger \<Rightarrow> compact_for_overflow ge ga measurement
             | PressureTrigger \<Rightarrow> compact_for_pressure ge ga (resolve_target_policy (ge_config ge) p m) measurement))"

section \<open>The automatic drivers\<close>

text \<open>The session, the retries made for each agent, the agent whose overflow was last seen, and the routes warned about.\<close>

record engine_state =
  en_world :: region_world
  en_retries :: "nat \<Rightarrow> nat option"
  en_watched :: "nat option"
  en_warned :: "string list"

datatype step_note = StepAborted | StepCompacted "closed_result option" | StepWarned engine_error | StepSilent

fun pressure_key :: "pressure_error \<Rightarrow> string" where
  "pressure_key (WindowNotPositive key _) = key"
| "pressure_key (RetainOverBudget key _ _) = key"
| "pressure_key (NoCapacity key) = key"

text \<open>\<open>agent/pre-step\<close>: whatever happens, the step goes on.\<close>

definition on_pre_step :: "engine_env \<Rightarrow> engine_call \<Rightarrow> bool \<Rightarrow> engine_state \<Rightarrow> step_note \<times> engine_state" where
  "on_pre_step ge ga aborted st =
     (if aborted then (StepAborted, st)
      else case compact_if_needed ge ga PressureTrigger (en_world st) of
        (Inr res, w) \<Rightarrow> (StepCompacted res, st\<lparr>en_world := w\<rparr>)
      | (Inl (EnginePressure err), w) \<Rightarrow>
          if pressure_key err \<in> set (en_warned st) then (StepSilent, st\<lparr>en_world := w\<rparr>)
          else (StepWarned (EnginePressure err), st\<lparr>en_world := w, en_warned := pressure_key err # en_warned st\<rparr>)
      | (Inl err, w) \<Rightarrow> (StepWarned err, st\<lparr>en_world := w\<rparr>))"

definition forget_retries :: "nat \<Rightarrow> engine_state \<Rightarrow> engine_state" where
  "forget_retries agent st = st\<lparr>en_retries := (en_retries st)(agent := None)\<rparr>"

definition on_status :: "nat \<Rightarrow> bool \<Rightarrow> engine_state \<Rightarrow> engine_state" where
  "on_status agent idle st = (if idle then forget_retries agent st else st)"

definition on_session_event :: "session_event \<Rightarrow> engine_state \<Rightarrow> engine_state" where
  "on_session_event e st =
     (if ev_type e \<noteq> ''assistant/message'' then st
      else case en_watched st of None \<Rightarrow> st | Some agent \<Rightarrow> forget_retries agent st)"

definition surface_generation :: "(region_world, region_error, nat) step" where
  "surface_generation w =
     (case manager_generation (region_log w) (s_surface (rw_session w)) of
        (r, m) \<Rightarrow> (rethrow SurfaceRead r, w\<lparr>rw_session := (rw_session w)\<lparr>s_surface := m\<rparr>\<rparr>))"

datatype request_decision = RetryRequest | PassOn

definition retries_of :: "nat \<Rightarrow> engine_state \<Rightarrow> nat" where
  "retries_of agent st = (case en_retries st agent of Some n \<Rightarrow> n | None \<Rightarrow> 0)"

text \<open>
  A recovery: compaction whatever its outcome, then a retry if the surface has moved on. \<open>aborted\<close> is the
  signal after the compaction; it is read before the surface is.
\<close>

definition recover ::
    "engine_env \<Rightarrow> engine_call \<Rightarrow> bool \<Rightarrow> (region_world, region_error, request_decision) step" where
  "recover ge ga aborted =
     and_do surface_generation (\<lambda>generation w.
       case compact_if_needed ge ga OverflowTrigger w of
         (_, w1) \<Rightarrow>
           if aborted then (Inr PassOn, w1)
           else and_do surface_generation (\<lambda>g. give (if g > generation then RetryRequest else PassOn)) w1)"

text \<open>\<open>agent/request-error\<close>; \<open>overflow\<close> says whether the failure's code is the one for a context overflow.\<close>

definition on_request_error ::
    "engine_env \<Rightarrow> engine_call \<Rightarrow> nat \<Rightarrow> bool \<Rightarrow> bool \<times> bool \<Rightarrow> engine_state \<Rightarrow>
     (region_error, request_decision) result \<times> engine_state" where
  "on_request_error ge ga agent overflow aborted st =
     (if \<not> overflow \<or> fst aborted then (Inr PassOn, st)
      else let st = st\<lparr>en_watched := Some agent\<rparr> in
        case routed_target (en_world st) of
          (Inl err, w) \<Rightarrow> (Inl err, st\<lparr>en_world := w\<rparr>)
        | (Inr None, w) \<Rightarrow> (Inr PassOn, st\<lparr>en_world := w\<rparr>)
        | (Inr (Some (p, m)), w) \<Rightarrow>
            let policy = resolve_target_policy (ge_config ge) p m; retries = retries_of agent st in
            if int retries \<ge> rp_overflow policy then (Inr PassOn, st\<lparr>en_world := w\<rparr>)
            else case recover ge ga (snd aborted) w of
              (Inr RetryRequest, w1) \<Rightarrow>
                (Inr RetryRequest, st\<lparr>en_world := w1, en_retries := (en_retries st)(agent := Some (retries + 1))\<rparr>)
            | (r, w1) \<Rightarrow> (r, st\<lparr>en_world := w1\<rparr>))"

section \<open>The manual command\<close>

datatype manual_outcome = ManualBusyAgent | ManualCancelled | ManualAborted | ManualError engine_error | ManualDone "closed_result option"

text \<open>
  The signals of one manual call: the caller's at entry, the combined one once admitted and when an
  error is caught, and whether it is the agent's own that fired by then. \<open>admitted\<close> is the agent's answer.
\<close>

record manual_call =
  mc_admitted :: bool
  mc_aborted_entry :: bool
  mc_aborted_admitted :: bool
  mc_agent_fired :: bool
  mc_aborted_caught :: bool
  mc_command :: "string option"

definition manual_transaction :: "manual_call \<Rightarrow> transaction_options" where
  "manual_transaction mc = \<lparr>to_in_turn = False, to_stability = SelectedSpan, to_flush = True, to_command = mc_command mc\<rparr>"

definition manual_body ::
    "engine_env \<Rightarrow> engine_call \<Rightarrow> manual_call \<Rightarrow> (region_world, engine_error, closed_result option) step" where
  "manual_body ge ga mc =
     and_do (lift_result (reject_if (mc_aborted_admitted mc) (EngineRegion SignalAborted))) (\<lambda>_.
     and_do (remeasure ge) (\<lambda>m.
     and_do (pick_range m 0) (\<lambda>range.
       case range of
         None \<Rightarrow> give None
       | Some r \<Rightarrow>
           and_do (wrap EngineRegion (compact_surface_region (ge_region ge) (ga_clock ga 0) (fst (ga_ids ga 0)) (snd (ga_ids ga 0))
             (manual_transaction mc) (ga_around ga 0) (fst r) (snd r))) (\<lambda>res. give (Some res)))))"

definition compact_now :: "engine_env \<Rightarrow> engine_call \<Rightarrow> manual_call \<Rightarrow> region_world \<Rightarrow> manual_outcome \<times> region_world" where
  "compact_now ge ga mc w =
     (if mc_aborted_entry mc then (ManualAborted, w)
      else if \<not> mc_admitted mc then (ManualBusyAgent, w)
      else case manual_body ge ga mc w of
        (Inr res, w') \<Rightarrow> (ManualDone res, w')
      | (Inl err, w') \<Rightarrow>
          (if mc_agent_fired mc then ManualCancelled
           else if mc_aborted_caught mc then ManualAborted else ManualError err, w'))"

section \<open>Every driver only does what a session allows\<close>

definition runs :: "region_env \<Rightarrow> (region_world, 'e, 'a) step \<Rightarrow> bool" where
  "runs env m \<longleftrightarrow> (\<forall>w. region_run env w (snd (m w)))"

lemma runsI: "(\<And>w. region_run env w (snd (m w))) \<Longrightarrow> runs env m"
  by (simp add: runs_def)

lemma runsD: "runs env m \<Longrightarrow> m w = (r, w') \<Longrightarrow> region_run env w w'"
  by (metis runs_def snd_conv)

lemma run_refl [simp]: "region_run env w w"
  by (simp add: region_run_def)

lemma run_trans: "region_run env a b \<Longrightarrow> region_run env b c \<Longrightarrow> region_run env a c"
  by (simp add: region_run_def)

lemma run_step: "region_step env a b \<Longrightarrow> region_run env a b"
  by (auto simp: region_run_def)

lemma reach_run: "region_reach env w \<Longrightarrow> region_run env w w' \<Longrightarrow> region_reach env w'"
  unfolding region_reach_def using run_trans by blast

lemma runs_give: "runs env (give x)" and runs_raise: "runs env (raise e)" and runs_lift: "runs env (lift_result r)"
  by (simp_all add: runs_def give_def raise_def lift_result_def)

lemma runs_and_do:
  assumes "runs env m" and "\<And>x. runs env (f x)"
  shows "runs env (and_do m f)"
proof (rule runsI)
  fix w
  show "region_run env w (snd (and_do m f w))"
  proof (cases "m w")
    case (Pair r w1)
    with assms(1) have "region_run env w w1" by (auto dest: runsD)
    with Pair assms(2) show ?thesis by (cases r) (auto simp: and_do_def runs_def intro: run_trans)
  qed
qed

text \<open>A step that looks at the log first.\<close>

lemma runs_dep: "(\<And>v. runs env (f v)) \<Longrightarrow> runs env (\<lambda>w. f (g w) w)"
  by (simp add: runs_def)

lemma runs_wrap: "runs env m \<Longrightarrow> runs env (wrap g m)"
  by (simp add: runs_def wrap_def split: prod.split) (metis snd_conv)

lemma runs_append: "runs env (append_log now p op sources)"
  by (intro runsI run_step region_step.append)

lemma runs_nodes: "runs env surface_nodes"
  by (intro runsI run_step region_step.surface)

lemma runs_measure: "runs env (measure_surface env)"
  by (intro runsI run_step region_step.measured)

lemma runs_before: "runs env (pairing_query (tool_pairing_balanced_before seq))"
  unfolding tool_pairing_balanced_before_def by (intro runsI run_step region_step.query) simp

lemma runs_after: "runs env (pairing_query (tool_pairing_balanced_after seq))"
  unfolding tool_pairing_balanced_after_def by (intro runsI run_step region_step.query) simp

lemma runs_header: "runs env header_in_force"
proof (rule runsI)
  fix w
  show "region_run env w (snd (header_in_force w))"
    using run_step [OF region_step.header [of env w]] by (cases "request_header (rw_session w)") (simp add: header_in_force_def)
qed

lemma runs_generation: "runs env surface_generation"
proof (rule runsI)
  fix w
  have "snd (surface_generation w) = snd (surface_nodes w)"
    by (simp add: surface_generation_def surface_nodes_def manager_generation_def manager_nodes_def split: prod.split sum.split)
  then show "region_run env w (snd (surface_generation w))" using runs_nodes by (simp add: runs_def)
qed

lemma runs_if: "runs env m \<Longrightarrow> runs env m' \<Longrightarrow> runs env (if b then m else m')"
  by simp

lemma runs_option: "runs env m \<Longrightarrow> (\<And>x. runs env (f x)) \<Longrightarrow> runs env (case v of None \<Rightarrow> m | Some x \<Rightarrow> f x)"
  by (simp split: option.split)

lemma runs_sum: "(\<And>x. runs env (f x)) \<Longrightarrow> (\<And>x. runs env (g x)) \<Longrightarrow> runs env (case v of Inl x \<Rightarrow> f x | Inr x \<Rightarrow> g x)"
  by (simp split: sum.split)

lemma runs_pair: "(\<And>a b. runs env (f a b)) \<Longrightarrow> runs env (case v of (a, b) \<Rightarrow> f a b)"
  by (simp split: prod.split)

lemmas runs_basic = runs_give runs_raise runs_lift runs_append runs_nodes runs_measure runs_before runs_after runs_header
  runs_generation runs_wrap runs_and_do runs_if runs_option runs_sum runs_pair

lemma runs_balance_back: "runs env (balance_back ns k)"
proof (induction k)
  case (Suc k)
  show ?case unfolding balance_back.simps by (rule runs_basic Suc)+
qed (simp add: runs_give)

lemma runs_select: "runs env (select_compactable_range m retain)"
  unfolding select_compactable_range_def Let_def by (rule runs_basic runs_balance_back)+

lemma runs_validate: "runs env (validate_surface_region start end_seq)"
  unfolding validate_surface_region_def by (rule runs_basic)+

lemma runs_open: "runs env (open_compaction_region now cid opts aborted start end_seq)"
  unfolding open_compaction_region_def Let_def
  by (rule runs_and_do, rule runs_lift, rule runs_and_do, rule runs_validate, rule runs_dep, (rule runs_basic)+)

lemma runs_input: "runs env (build_summarization_input shadowed)"
  unfolding build_summarization_input_def
proof (rule runs_and_do [OF runs_header], rule runsI)
  fix h w
  show "region_run env w (snd (case fold_result (shadowed_message (region_log w)) shadowed [] of Inl err \<Rightarrow> (Inl err, w)
    | Inr msgs \<Rightarrow> (Inr \<lparr>si_system = Option.bind h eh_system, si_tools = Option.bind h eh_tools, si_messages = msgs\<rparr>, w)))"
    by (simp split: sum.split)
qed

lemma runs_prepare: "runs env (prepare_compaction env sel)"
  unfolding prepare_compaction_def Let_def by (rule runs_basic runs_input)+

lemma runs_stable: "runs env (assert_stable env rule prepared)"
  unfolding assert_stable_def assert_whole_surface_unchanged_def assert_selected_span_stable_def Let_def
  by (cases rule; simp only: stability.case) ((rule runs_basic runs_validate)+)

lemma runs_commit: "runs env (commit_compaction_body clk tx prepared sr)"
  unfolding commit_compaction_body_def Let_def by (cases sr; simp only: prod.case) ((rule runs_basic)+)

lemma runs_attempt: "runs env (compaction_attempt env clk mid opts aborted tx answer prepared)"
  unfolding compaction_attempt_def by (rule runs_basic runs_stable runs_commit)+

lemma run_close:
  assumes "close_compaction env clk tx (r, w) = (outcome, w')"
  shows "region_run env w w'"
proof -
  have "\<exists>p. w' = snd (append_log (clk 3) p None None w)"
    using assms by (auto simp: close_compaction_def split: sum.splits prod.splits) (metis snd_conv)+
  then show ?thesis using runs_append by (auto simp: runs_def)
qed

lemma runs_compact:
  assumes "calm env around"
  shows "runs env (compact_surface_region env clk cid mid opts around start end_seq)"
  unfolding compact_surface_region_def
proof (rule runs_and_do [OF runs_open], rule runsI)
  fix tx w
  have attempt: "region_run env w (snd (try_compaction env clk mid opts around tx w))"
  proof (cases "prepare_compaction env (tx_selection tx) w")
    case (Pair r w1)
    with runs_prepare have w1: "region_run env w w1" by (auto dest: runsD)
    have "region_run env w1 (sr_meanwhile around w1)" using assms by (simp add: calm_def)
    with w1 have w2: "region_run env w (sr_meanwhile around w1)" by (rule run_trans)
    show ?thesis
    proof (cases r)
      case (Inr prepared)
      with Pair w2 runs_attempt show ?thesis by (auto simp: try_compaction_def runs_def intro: run_trans)
    qed (use Pair w1 in \<open>simp add: try_compaction_def\<close>)
  qed
  obtain r w1 where t: "try_compaction env clk mid opts around tx w = (r, w1)" by (cases "try_compaction env clk mid opts around tx w")
  obtain outcome w2 where c: "close_compaction env clk tx (r, w1) = (outcome, w2)" by (cases "close_compaction env clk tx (r, w1)")
  from attempt t have "region_run env w w1" by simp
  from run_trans [OF this run_close [OF c]] t c
  show "region_run env w (snd (case close_compaction env clk tx (try_compaction env clk mid opts around tx w) of
      (outcome, w') \<Rightarrow> (conclude_compaction opts (sr_aborted around 2) (sr_flush_error around) outcome, w')))" by simp
qed

lemma runs_prune_candidate: "runs env (prune_candidate cfg env clk n d)"
  unfolding prune_candidate_def by (rule runs_basic runs_dep [where g = "\<lambda>w. clk (length (region_log w))"])+

lemma runs_prune_loop: "runs env (prune_loop cfg env clk cands acc)"
proof (induction cands arbitrary: acc)
  case (Cons x cands)
  obtain n d where "x = (n, d)" by (cases x)
  with Cons show ?case by (auto intro: runs_and_do runs_prune_candidate)
qed (simp add: runs_give)

lemma runs_prune: "runs env (prune_session cfg env clk)"
  unfolding prune_session_def
  by (rule runs_and_do, rule runs_wrap, rule runs_nodes, rule runs_dep, rule runs_prune_loop)

section \<open>The drivers\<close>

text \<open>What the surroundings of a call may do is what other code may do to a session.\<close>

definition calm_call :: "engine_env \<Rightarrow> engine_call \<Rightarrow> bool" where
  "calm_call ge ga \<longleftrightarrow> (\<forall>k. calm (ge_region ge) (ga_around ga k)) \<and> (\<forall>w. region_run (ge_region ge) w (ga_meanwhile ga w))"

lemma runs_remeasure: "runs (ge_region ge) (remeasure ge)"
  unfolding remeasure_def by (rule runs_basic)+

lemma runs_pick: "runs env (pick_range m retain)"
  unfolding pick_range_def by (rule runs_basic runs_select)+

lemma runs_target: "runs env routed_target"
  unfolding routed_target_def by (rule runs_basic)+

lemma runs_region: "calm_call ge ga \<Longrightarrow> runs (ge_region ge) (compact_region ge ga k ab)"
  unfolding compact_region_def by (rule runs_wrap, rule runs_compact) (simp add: calm_call_def)

lemma runs_prune_first: "runs (ge_region ge) (prune_first ge ga m)"
  unfolding prune_first_def by (rule runs_basic runs_prune runs_remeasure)+

lemma runs_attempts:
  assumes "calm_call ge ga"
  shows "runs (ge_region ge) (pressure_attempts ge ga spec left k m res)"
proof (induction left arbitrary: k m res)
  case (Suc left)
  show ?case unfolding pressure_attempts.simps by (rule runs_basic runs_pick runs_region runs_remeasure assms Suc)+
qed (simp add: runs_raise)

lemma runs_capacity: "calm_call ge ga \<Longrightarrow> runs (ge_region ge) (resolve_capacity ga)"
  by (simp add: runs_def resolve_capacity_def calm_call_def)

lemma runs_overflow: "calm_call ge ga \<Longrightarrow> runs (ge_region ge) (compact_for_overflow ge ga m)"
  unfolding compact_for_overflow_def by (rule runs_basic runs_prune_first runs_pick runs_region | assumption)+

lemma runs_pressure:
  assumes "calm_call ge ga"
  shows "runs (ge_region ge) (compact_for_pressure ge ga policy m)"
  unfolding compact_for_pressure_def
  by (rule runs_and_do [OF runs_capacity [OF assms]], rule runs_dep,
      (rule runs_basic runs_prune_first runs_attempts assms)+)

lemma runs_needed:
  assumes "calm_call ge ga"
  shows "runs (ge_region ge) (compact_if_needed ge ga trigger)"
  unfolding compact_if_needed_def
  by (cases trigger; simp only: compaction_trigger.case)
    ((rule runs_basic runs_target runs_remeasure runs_overflow runs_pressure assms)+)

lemma runs_manual:
  assumes "calm_call ge ga"
  shows "runs (ge_region ge) (manual_body ge ga mc)"
proof -
  have "calm (ge_region ge) (ga_around ga 0)" using assms by (simp add: calm_call_def)
  from runs_compact [OF this] show ?thesis unfolding manual_body_def
    by - (rule runs_basic runs_pick runs_remeasure | assumption)+
qed

lemma run_recover:
  assumes "calm_call ge ga" and "recover ge ga aborted w = (r, w')"
  shows "region_run (ge_region ge) w w'"
proof -
  have "runs (ge_region ge) (recover ge ga aborted)"
    unfolding recover_def
  proof (rule runs_and_do [OF runs_generation], rule runsI)
    fix g w
    obtain r w1 where c: "compact_if_needed ge ga OverflowTrigger w = (r, w1)" by (cases "compact_if_needed ge ga OverflowTrigger w")
    have "region_run (ge_region ge) w w1" by (rule runsD [OF runs_needed [OF assms(1)] c])
    moreover have "runs (ge_region ge) (and_do surface_generation (\<lambda>g'. give (if g' > g then RetryRequest else PassOn)))"
      by (rule runs_basic)+
    ultimately show "region_run (ge_region ge) w (snd (case compact_if_needed ge ga OverflowTrigger w of
         (_, w1) \<Rightarrow>
           if aborted then (Inr PassOn, w1)
           else and_do surface_generation (\<lambda>g'. give (if g' > g then RetryRequest else PassOn)) w1))"
      using c by (auto simp: runs_def intro: run_trans)
  qed
  then show ?thesis using assms(2) by (rule runsD)
qed

text \<open>Each driver takes a session from one reachable state to another.\<close>

lemma pre_step_run: "calm_call ge ga \<Longrightarrow> region_run (ge_region ge) (en_world st) (en_world (snd (on_pre_step ge ga aborted st)))"
  using runsD [OF runs_needed, of ge ga PressureTrigger "en_world st"]
  by (cases "compact_if_needed ge ga PressureTrigger (en_world st)")
    (auto simp: on_pre_step_def Let_def split: sum.split engine_error.split)

lemma request_error_run:
  assumes "calm_call ge ga"
  shows "region_run (ge_region ge) (en_world st) (en_world (snd (on_request_error ge ga agent overflow aborted st)))"
proof -
  obtain t w1 where t: "routed_target (en_world st) = (t, w1)" by (cases "routed_target (en_world st)")
  have w1: "region_run (ge_region ge) (en_world st) w1" by (rule runsD [OF runs_target t])
  obtain r w2 where r: "recover ge ga (snd aborted) w1 = (r, w2)" by (cases "recover ge ga (snd aborted) w1")
  have "region_run (ge_region ge) (en_world st) w2" by (rule run_trans [OF w1 run_recover [OF assms r]])
  with w1 t r show ?thesis
    by (auto simp: on_request_error_def Let_def split: sum.split option.split request_decision.split)
qed

lemma compact_now_run:
  assumes "calm_call ge ga"
  shows "region_run (ge_region ge) w (snd (compact_now ge ga mc w))"
proof (cases "manual_body ge ga mc w")
  case (Pair r w')
  from runsD [OF runs_manual [OF assms] Pair] have "region_run (ge_region ge) w w'" .
  with Pair show ?thesis by (auto simp: compact_now_def split: sum.split)
qed

section \<open>A measurement repeats\<close>

lemma meter_loop_consumed:
  "meter_loop nt es n st = (Inr (), st') \<Longrightarrow> ms_consumed st' = ms_consumed st + n"
  by (induction n arbitrary: st) (auto split: sum.splits)

lemma sync_meter_again:
  assumes "sync_meter nt es st = (Inr (), st')"
  shows "sync_meter nt es st' = (Inr (), st')"
proof -
  from meter_loop_consumed [of nt es _ st st'] assms have "length es - ms_consumed st' = 0" by (fastforce simp: sync_meter_def)
  then show ?thesis by (simp add: sync_meter_def)
qed

lemma measure_surface_again:
  assumes "measure_surface env w = (Inr m, w')"
  shows "measure_surface env w' = (Inr m, w')"
proof -
  let ?nt = "re_number_text env"
  from assms obtain st' where s: "sync_meter ?nt (region_log w) (rw_meter w) = (Inr (), st')" and w': "w' = w\<lparr>rw_meter := st'\<rparr>"
    by (auto simp: measure_surface_def meter_measure_def Let_def split: prod.splits sum.splits)
  from assms s sync_meter_again [OF s] w' show ?thesis
    by (simp add: measure_surface_def meter_measure_def Let_def)
qed

section \<open>What step-boundary compaction achieves\<close>

lemma wrap_Inr: "wrap g m w = (Inr x, w') \<longleftrightarrow> m w = (Inr x, w')"
  by (cases "m w"; cases "fst (m w)") (auto simp: wrap_def)

lemma and_do_Inr: "and_do m f w = (Inr y, w') \<longleftrightarrow> (\<exists>x w1. m w = (Inr x, w1) \<and> f x w1 = (Inr y, w'))"
  by (auto simp: and_do_def split: prod.splits sum.splits)

lemma remeasure_Inr: "remeasure ge w = (Inr m, w') \<longleftrightarrow> measure_surface (ge_region ge) w = (Inr m, w')"
  by (simp add: remeasure_def wrap_Inr)

lemma attempts_below:
  "pressure_attempts ge ga spec left k m res w = (Inr (Some res'), w') \<Longrightarrow>
     \<exists>m'. measure_surface (ge_region ge) w' = (Inr m', w') \<and> me_total m' < cp_threshold spec"
proof (induction left arbitrary: k m res w)
  case (Suc left)
  from Suc.prems obtain res1 w1 m1 w2 where m1: "measure_surface (ge_region ge) w1 = (Inr m1, w2)"
    and "me_total m1 < cp_threshold spec \<and> w2 = w'
      \<or> pressure_attempts ge ga spec left (k + 1) m1 (Some res1) w2 = (Inr (Some res'), w')"
    by (simp add: and_do_Inr remeasure_Inr split: option.splits if_splits) blast+
  with measure_surface_again [OF m1] Suc.IH show ?case by blast
qed simp

text \<open>
  Claim C36. A pressure pass that returns a result leaves a session whose measured total is below the threshold of the
  route its header names, scaled to the window the adapter gave.
\<close>

theorem pressure_relieved:
  assumes "compact_if_needed ge ga PressureTrigger w = (Inr (Some res), w')"
  shows "\<exists>p m window spec measurement. fst (routed_target w) = Inr (Some (p, m)) \<and> ga_info ga = Inr (Some window)
    \<and> resolve_compact_spec (ge_round ge) (resolve_target_policy (ge_config ge) p m) window = Inr spec
    \<and> measure_surface (ge_region ge) w' = (Inr measurement, w') \<and> me_total measurement < cp_threshold spec"
proof -
  from assms obtain p m w1 m0 w2 where t: "routed_target w = (Inr (Some (p, m)), w1)"
    and run: "compact_for_pressure ge ga (resolve_target_policy (ge_config ge) p m) m0 w2 = (Inr (Some res), w')"
    by (auto simp: compact_if_needed_def and_do_Inr wrap_Inr split: option.splits)
  let ?policy = "resolve_target_policy (ge_config ge) p m"
  from run obtain capacity w3 where cap: "ga_info ga = Inr capacity"
    and r3: "(case capacity of
       None \<Rightarrow> raise (EnginePressure (NoCapacity (route_key (rp_provider ?policy) (rp_model ?policy))))
     | Some window \<Rightarrow>
         and_do (lift_result (rethrow EnginePressure (resolve_compact_spec (ge_round ge) ?policy window))) (\<lambda>spec.
         if me_total m0 < cp_threshold spec then give None
         else and_do (prune_first ge ga m0) (\<lambda>m'.
           if me_total m' < cp_threshold spec then give None
           else pressure_attempts ge ga spec (nat (cp_retries spec + 1)) 0 m' None))) w3 = (Inr (Some res), w')"
    by (auto simp: compact_for_pressure_def and_do_Inr resolve_capacity_def)
  from r3 obtain window where w: "capacity = Some window" by (cases capacity) auto
  from r3 obtain spec where spec: "resolve_compact_spec (ge_round ge) ?policy window = Inr spec"
    and r4: "(if me_total m0 < cp_threshold spec then give None
         else and_do (prune_first ge ga m0) (\<lambda>m'.
           if me_total m' < cp_threshold spec then give None
           else pressure_attempts ge ga spec (nat (cp_retries spec + 1)) 0 m' None)) w3 = (Inr (Some res), w')"
    by (cases "resolve_compact_spec (ge_round ge) ?policy window") (auto simp: w and_do_Inr)
  from r4 obtain m1 w4 where "pressure_attempts ge ga spec (nat (cp_retries spec + 1)) 0 m1 None w4 = (Inr (Some res), w')"
    by (auto simp: and_do_Inr split: if_splits)
  from attempts_below [OF this] t cap w spec show ?thesis by auto
qed

section \<open>What an operation may add to the log\<close>

text \<open>
  A graded effect on logs: what happened between two logs costs at most a number. Nothing costs nothing, costs
  add up, and what reads only costs nothing.
\<close>

locale log_effect =
  fixes effect :: "nat \<Rightarrow> session_event list \<Rightarrow> session_event list \<Rightarrow> bool"
  assumes unchanged: "\<And>es. effect 0 es es"
    and compose: "\<And>a b xs ys zs. effect a xs ys \<Longrightarrow> effect b ys zs \<Longrightarrow> effect (a + b) xs zs"
    and more: "\<And>a b xs ys. effect a xs ys \<Longrightarrow> a \<le> b \<Longrightarrow> effect b xs ys"
begin

definition stays :: "region_env \<Rightarrow> nat \<Rightarrow> (region_world, 'e, 'a) step \<Rightarrow> bool" where
  "stays env n m \<longleftrightarrow> (\<forall>w r w'. region_ok env w \<longrightarrow> m w = (r, w') \<longrightarrow>
     region_ok env w' \<and> effect n (region_log w) (region_log w'))"

lemma staysI:
  assumes "\<And>w r w'. region_ok env w \<Longrightarrow> m w = (r, w') \<Longrightarrow> region_ok env w' \<and> effect n (region_log w) (region_log w')"
  shows "stays env n m"
  using assms by (auto simp: stays_def)

lemma staysD: "stays env n m \<Longrightarrow> region_ok env w \<Longrightarrow> m w = (r, w') \<Longrightarrow> region_ok env w' \<and> effect n (region_log w) (region_log w')"
  by (auto simp: stays_def)

lemma stays_more: "stays env a m \<Longrightarrow> a \<le> b \<Longrightarrow> stays env b m"
  by (auto simp: stays_def intro: more)

lemma stays_reads:
  assumes "reads env m g"
  shows "stays env 0 m"
proof (rule staysI)
  fix w r w'
  assume w: "region_ok env w" and m: "m w = (r, w')"
  from reads_elim [OF assms w] m have "region_ok env w'" "region_log w' = region_log w" by auto
  then show "region_ok env w' \<and> effect 0 (region_log w) (region_log w')" by (simp add: unchanged)
qed

lemma stays_give: "stays env 0 (give x)" and stays_raise: "stays env 0 (raise e)" and stays_lift: "stays env 0 (lift_result r)"
  by (auto simp: stays_def give_def raise_def lift_result_def intro: unchanged)

lemma stays_and_do:
  assumes "stays env a m" and "\<And>x. stays env b (f x)"
  shows "stays env (a + b) (and_do m f)"
proof (rule staysI)
  fix w r w'
  assume w: "region_ok env w" and "and_do m f w = (r, w')"
  from this(2) show "region_ok env w' \<and> effect (a + b) (region_log w) (region_log w')"
  proof (cases rule: and_do_cases)
    case (failed e)
    from staysD [OF assms(1) w failed(1)] show ?thesis by (auto intro: more)
  next
    case (passed x w1)
    from staysD [OF assms(1) w passed(1)] staysD [OF assms(2) _ passed(2)] show ?thesis by (auto intro: compose)
  qed
qed

lemma stays_then: "stays env 0 m \<Longrightarrow> (\<And>x. stays env b (f x)) \<Longrightarrow> stays env b (and_do m f)"
  using stays_and_do [of env 0 m b f] by simp

lemma stays_wrap: "stays env n m \<Longrightarrow> stays env n (wrap g m)"
  by (rule staysI) (auto elim!: wrap_cases dest: staysD)

lemma stays_if: "stays env n m \<Longrightarrow> stays env n m' \<Longrightarrow> stays env n (if b then m else m')"
  by simp

lemma stays_option: "stays env n m \<Longrightarrow> (\<And>x. stays env n (f x)) \<Longrightarrow> stays env n (case v of None \<Rightarrow> m | Some x \<Rightarrow> f x)"
  by (simp split: option.split)

lemma stays_dep: "(\<And>v. stays env n (f v)) \<Longrightarrow> stays env n (\<lambda>w. f (g w) w)"
  by (auto simp: stays_def)

lemma stays_lift_then: "(\<And>x. r = Inr x \<Longrightarrow> stays env n (f x)) \<Longrightarrow> stays env n (and_do (lift_result r) f)"
  by (cases r) (auto simp: stays_def and_do_def lift_result_def intro: more [OF unchanged])

lemma stays_measure: "stays env 0 (measure_surface env)"
proof (rule staysI)
  fix w r w'
  assume w: "region_ok env w" and m: "measure_surface env w = (r, w')"
  from measure_surface_ok [OF this] show "region_ok env w' \<and> effect 0 (region_log w) (region_log w')" by (simp add: unchanged)
qed

lemma stays_target: "stays env 0 routed_target"
proof -
  have "stays env 0 header_in_force"
  proof (rule staysI)
    fix w r w'
    assume w: "region_ok env w" and h: "header_in_force w = (r, w')"
    from h have "region_log w' = region_log w"
      by (auto simp: header_in_force_def request_header_def Let_def split: prod.splits)
    moreover have "region_ok env w'" using region_run_ok [OF runsD [OF runs_header h] w] by simp
    ultimately show "region_ok env w' \<and> effect 0 (region_log w) (region_log w')" by (simp add: unchanged)
  qed
  then show ?thesis unfolding routed_target_def by (intro stays_then stays_give)
qed

lemma stays_remeasure: "stays (ge_region ge) 0 (remeasure ge)"
  unfolding remeasure_def by (intro stays_wrap stays_measure)

lemma stays_pick: "stays env 0 (pick_range m retain)"
  unfolding pick_range_def by (intro stays_wrap stays_reads [OF reads_select])

text \<open>What the engine does costs no more than its parts.\<close>

definition parts_stay :: "engine_env \<Rightarrow> engine_call \<Rightarrow> bool" where
  "parts_stay ge ga \<longleftrightarrow> (\<forall>cfg clk. ge_pruner ge = Some cfg \<longrightarrow> stays (ge_region ge) 0 (prune_session cfg (ge_region ge) clk))
     \<and> (\<forall>k ab. stays (ge_region ge) 1 (compact_region ge ga k ab))
     \<and> stays (ge_region ge) 0 (resolve_capacity ga)"

lemma stays_prune_first:
  assumes "parts_stay ge ga"
  shows "stays (ge_region ge) 0 (prune_first ge ga m)"
proof (cases "ge_pruner ge")
  case None
  then show ?thesis by (simp add: prune_first_def stays_give)
next
  case (Some cfg)
  with assms have "stays (ge_region ge) 0 (prune_session cfg (ge_region ge) (ga_prune_clock ga))" by (simp add: parts_stay_def)
  then show ?thesis unfolding prune_first_def Some option.case by (intro stays_then stays_wrap stays_remeasure)
qed

lemma stays_attempts:
  assumes "parts_stay ge ga"
  shows "stays (ge_region ge) left (pressure_attempts ge ga spec left k m res)"
proof (induction left arbitrary: k m res)
  case (Suc left)
  have one: "stays (ge_region ge) 1 (compact_region ge ga k ab)" for ab using assms unfolding parts_stay_def by blast
  have "stays (ge_region ge) (1 + left) (and_do (compact_region ge ga k ab) (\<lambda>res'. and_do (remeasure ge) (\<lambda>m'.
      if me_total m' < cp_threshold spec then give (Some res') else pressure_attempts ge ga spec left (k + 1) m' (Some res'))))" for ab
    by (intro stays_and_do [OF one] stays_then [OF stays_remeasure] stays_if Suc stays_more [OF stays_give]) simp
  then show ?case unfolding pressure_attempts.simps
    by (intro stays_then [OF stays_pick] stays_option stays_if stays_more [OF stays_give] stays_more [OF stays_raise]) simp_all
qed (simp add: stays_raise)

lemma stays_needed:
  assumes parts: "parts_stay ge ga"
    and limit: "trigger = PressureTrigger \<longrightarrow> (\<forall>p m. rp_retries (resolve_target_policy (ge_config ge) p m) < int n)" and "1 \<le> n"
  shows "stays (ge_region ge) n (compact_if_needed ge ga trigger)"
proof -
  have one: "stays (ge_region ge) n (compact_region ge ga k ab)" for k ab
    using parts \<open>1 \<le> n\<close> unfolding parts_stay_def by (blast intro: stays_more)
  have ending: "stays (ge_region ge) n (and_do (compact_region ge ga 0 ab) (\<lambda>res. give (Some res)))" for ab
    using stays_and_do [OF one stays_give] by simp
  have overflow: "stays (ge_region ge) n (compact_for_overflow ge ga m)" for m
    unfolding compact_for_overflow_def
    by (intro stays_then [OF stays_prune_first [OF parts]] stays_then [OF stays_pick] stays_option stays_more [OF stays_give] ending) simp
  have attempts: "stays (ge_region ge) n (pressure_attempts ge ga spec (nat (cp_retries spec + 1)) 0 m None)"
    if "resolve_compact_spec rnd (resolve_target_policy (ge_config ge) p q) window = Inr spec" "trigger = PressureTrigger" for rnd p q window spec m
  proof -
    from that(1) have "cp_retries spec = rp_retries (resolve_target_policy (ge_config ge) p q)"
      by (auto simp: resolve_compact_spec_def Let_def split: if_splits)
    with limit that(2) have "nat (cp_retries spec + 1) \<le> n" by (metis add.commute nat_le_iff zless_imp_add1_zle)
    then show ?thesis by (rule stays_more [OF stays_attempts [OF parts]])
  qed
  have pressure: "stays (ge_region ge) n (compact_for_pressure ge ga (resolve_target_policy (ge_config ge) p q) m)"
    if "trigger = PressureTrigger" for p q m
  proof -
    have "stays (ge_region ge) 0 (resolve_capacity ga)" using parts unfolding parts_stay_def by blast
    then show ?thesis unfolding compact_for_pressure_def
      apply (rule stays_then)
      apply (rule stays_dep, rule stays_lift_then, rule stays_option, rule stays_more [OF stays_raise], simp)
      apply (rule stays_lift_then, rule stays_if, rule stays_more [OF stays_give], simp)
      apply (rule stays_then [OF stays_prune_first [OF parts]], rule stays_if, rule stays_more [OF stays_give], simp)
      using attempts that by auto
  qed
  have branch: "stays (ge_region ge) n (case target of
         None \<Rightarrow> give None
       | Some (p, m) \<Rightarrow>
           and_do (remeasure ge) (\<lambda>measurement.
             case trigger of
               OverflowTrigger \<Rightarrow> compact_for_overflow ge ga measurement
             | PressureTrigger \<Rightarrow> compact_for_pressure ge ga (resolve_target_policy (ge_config ge) p m) measurement))" for target
    using overflow pressure
    by (cases trigger; cases target) (auto intro!: stays_then [OF stays_remeasure] stays_more [OF stays_give])
  show ?thesis unfolding compact_if_needed_def by (rule stays_then [OF stays_wrap [OF stays_target] branch])
qed

end

section \<open>Bounded work\<close>

definition is_compaction_start :: "session_event \<Rightarrow> bool" where
  "is_compaction_start e \<longleftrightarrow> (case ev_payload e of CompactionStart _ \<Rightarrow> True | _ \<Rightarrow> False)"

definition compactions :: "session_event list \<Rightarrow> nat" where
  "compactions es = length (filter is_compaction_start es)"

lemma compactions_append [simp]: "compactions (xs @ ys) = compactions xs + compactions ys"
  by (simp add: compactions_def)

lemma compactions_none: "(\<forall>e \<in> set es. \<not> is_compaction_start e) \<Longrightarrow> compactions es = 0"
  by (simp add: compactions_def filter_empty_conv)

interpretation starts: log_effect "\<lambda>n xs ys. compactions ys \<le> compactions xs + n"
  by unfold_locales auto

text \<open>Others start no compaction while a call waits.\<close>

definition undisturbed :: "engine_call \<Rightarrow> bool" where
  "undisturbed ga \<longleftrightarrow> (\<forall>k w. compactions (region_log (sr_meanwhile (ga_around ga k) w)) = compactions (region_log w))
     \<and> (\<forall>w. compactions (region_log (ga_meanwhile ga w)) = compactions (region_log w))"

lemma starts_append:
  assumes "\<forall>c. p \<noteq> CompactionStart c"
  shows "starts.stays env 0 (append_log now p op sources)"
proof (rule starts.staysI)
  fix w r w'
  assume "region_ok env w" "append_log now p op sources w = (r, w')"
  from append_log_ok [OF this] assms show "region_ok env w' \<and> compactions (region_log w') \<le> compactions (region_log w) + 0"
    by (cases r) (auto simp: compactions_def is_compaction_start_def split: payload.splits)
qed

lemma starts_prune_candidate: "starts.stays env 0 (prune_candidate cfg env clk n d)"
proof -
  have mark: "starts.stays env 0 (\<lambda>w. append_log (clk (length (region_log w))) p op src w)" if "\<forall>c. p \<noteq> CompactionStart c" for p op src
    by (rule starts.stays_dep [where f = "\<lambda>t. append_log t p op src"]) (rule starts_append [OF that])
  show ?thesis unfolding prune_candidate_def
    by (auto split: sum.split option.split intro!: starts.stays_raise starts.stays_give starts.stays_wrap
        starts.stays_then [OF mark] starts.stays_give)
qed

lemma starts_prune_loop: "starts.stays env 0 (prune_loop cfg env clk cands acc)"
proof (induction cands arbitrary: acc)
  case (Cons x cands)
  obtain n d where "x = (n, d)" by (cases x)
  with Cons show ?case by (auto intro: starts.stays_then starts_prune_candidate)
qed (simp add: starts.stays_give)

lemma starts_prune: "starts.stays env 0 (prune_session cfg env clk)"
  unfolding prune_session_def
  by (rule starts.stays_then, rule starts.stays_wrap, rule starts.stays_reads [OF reads_surface_nodes], rule starts.stays_dep,
      rule starts_prune_loop)

lemma starts_compact:
  assumes calm: "calm env around" and none: "\<forall>w. compactions (region_log (sr_meanwhile around w)) = compactions (region_log w)"
  shows "starts.stays env 1 (compact_surface_region env clk cid mid opts around start end_seq)"
proof (rule starts.staysI)
  fix w r w'
  assume ok: "region_ok env w" and run: "compact_surface_region env clk cid mid opts around start end_seq w = (r, w')"
  from ok calm run show "region_ok env w' \<and> compactions (region_log w') \<le> compactions (region_log w) + 1"
  proof (cases rule: compact_runs)
    case (ran tx before body ends)
    from ran(1) obtain w1 where "region_log w1 = region_log w @ [tx_start tx]"
      "before = region_log w1 \<or> before = region_log (sr_meanwhile around w1)" by (auto simp: ran_def)
    with none have "compactions before \<le> compactions (region_log w) + 1"
      by (auto simp: compactions_def)
    moreover have "compactions body = 0"
      using ran(1) by (intro compactions_none)
        (auto simp: ran_def replacing_def summary_entry_def checkpoint_entry_def is_compaction_start_def)
    moreover have "compactions ends = 0"
      using ran(1) by (intro compactions_none) (auto simp: ran_def lifecycle_end_def is_compaction_start_def)
    ultimately show ?thesis using ran(2,3) by simp
  qed simp
qed

lemma starts_parts:
  assumes "calm_call ge ga" and "undisturbed ga"
  shows "starts.parts_stay ge ga"
proof -
  have "starts.stays (ge_region ge) 1 (compact_region ge ga k ab)" for k ab
    unfolding compact_region_def by (intro starts.stays_wrap starts_compact) (use assms in \<open>auto simp: calm_call_def undisturbed_def\<close>)
  moreover have "starts.stays (ge_region ge) 0 (resolve_capacity ga)"
  proof (rule starts.staysI)
    fix w r w'
    assume w: "region_ok (ge_region ge) w" and c: "resolve_capacity ga w = (r, w')"
    have "region_run (ge_region ge) w w'" by (rule runsD [OF runs_capacity [OF assms(1)] c])
    then have "region_ok (ge_region ge) w'" using region_run_ok [OF _ w] by blast
    moreover have "compactions (region_log w') = compactions (region_log w)"
      using c assms(2) by (auto simp: resolve_capacity_def undisturbed_def)
    ultimately show "region_ok (ge_region ge) w' \<and> compactions (region_log w') \<le> compactions (region_log w) + 0" by simp
  qed
  ultimately show ?thesis using starts_prune unfolding starts.parts_stay_def by blast
qed

text \<open>
  Claim C37. However it ends, one call opens at most one transaction on an overflow, and under pressure at most one more
  than the retries its policies allow, if nobody else compacts meanwhile.
\<close>

theorem attempts_bounded:
  assumes "region_reach (ge_region ge) w" and "calm_call ge ga" and "undisturbed ga"
    and "resolve_config kvs = Inr (ge_config ge)" and "\<forall>p m. rp_retries (resolve_target_policy (ge_config ge) p m) < int n"
    and "compact_if_needed ge ga trigger w = (r, w')"
  shows "compactions (region_log w') \<le> compactions (region_log w) + (case trigger of OverflowTrigger \<Rightarrow> 1 | PressureTrigger \<Rightarrow> n)"
proof (cases trigger)
  case PressureTrigger
  have "0 \<le> rp_retries (resolve_target_policy (ge_config ge) p m)" for p m
    using target_policy_ok [OF assms(4)] by (simp add: target_ok_def)
  then have "0 < int n" using assms(5) by (meson le_less_trans)
  then have "1 \<le> n" by simp
  have "starts.stays (ge_region ge) n (compact_if_needed ge ga trigger)"
    by (rule starts.stays_needed [OF starts_parts [OF assms(2,3)] _ \<open>1 \<le> n\<close>]) (use assms(5) in blast)
  with region_reach_ok [OF assms(1)] assms(6) PressureTrigger show ?thesis by (auto dest: starts.staysD)
next
  case OverflowTrigger
  have "starts.stays (ge_region ge) 1 (compact_if_needed ge ga trigger)"
    by (rule starts.stays_needed [OF starts_parts [OF assms(2,3)]]) (simp_all add: OverflowTrigger)
  with region_reach_ok [OF assms(1)] assms(6) OverflowTrigger show ?thesis by (auto dest: starts.staysD)
qed

section \<open>The log stays metered\<close>

interpretation metering: log_effect "\<lambda>n xs ys. fully_metered nt xs \<longrightarrow> fully_metered nt ys" for nt
  by unfold_locales auto

text \<open>Others append metered events only.\<close>

definition metered_call :: "engine_env \<Rightarrow> engine_call \<Rightarrow> bool" where
  "metered_call ge ga \<longleftrightarrow>
     (let keeps = (\<lambda>f. \<forall>w. fully_metered (re_number_text (ge_region ge)) (region_log w)
        \<longrightarrow> fully_metered (re_number_text (ge_region ge)) (region_log (f w)))
      in (\<forall>k. keeps (sr_meanwhile (ga_around ga k))) \<and> keeps (ga_meanwhile ga))"

lemma metering_compact:
  assumes "calm env around" and "\<And>w1. fully_metered (re_number_text env) (region_log w1)
    \<Longrightarrow> fully_metered (re_number_text env) (region_log (sr_meanwhile around w1))"
  shows "metering.stays (re_number_text env) env 1 (compact_surface_region env clk cid mid opts around start end_seq)"
proof (rule metering.staysI)
  fix w r w'
  assume ok: "region_ok env w" and run: "compact_surface_region env clk cid mid opts around start end_seq w = (r, w')"
  from ok assms(1) run show "region_ok env w' \<and> (fully_metered (re_number_text env) (region_log w) \<longrightarrow>
      fully_metered (re_number_text env) (region_log w'))"
  proof (cases rule: compact_runs)
    case (ran tx before body ends)
    with fully_metered_opening [OF ran(1) _ assms(2)] ran_metered [OF ran(1) assms(1) ran(3,2)] show ?thesis by blast
  qed simp
qed

lemma metering_prune:
  assumes "config_ok cfg"
  shows "metering.stays (re_number_text env) env 0 (prune_session cfg env clk)"
proof (rule metering.staysI)
  fix w r w'
  assume ok: "region_ok env w" and run: "prune_session cfg env clk w = (r, w')"
  have "region_ok env w'" using region_run_ok [OF runsD [OF runs_prune run] ok] by blast
  moreover from prune_session_loop [OF ok run] obtain w1 where w1: "region_ok env w1" "region_log w1 = region_log w"
    "still_pending (region_log w1) (prune_candidates (region_log w) (log_nodes (region_log w)))"
    "prune_loop cfg env clk (prune_candidates (region_log w) (log_nodes (region_log w))) \<lparr>pr_pruned = [], pr_removed = 0\<rparr> w1 = (r, w')" .
  from prune_loop_metered [OF assms w1(1,3) _ w1(4)] w1(2)
  have "fully_metered (re_number_text env) (region_log w) \<longrightarrow> fully_metered (re_number_text env) (region_log w')" by simp
  ultimately show "region_ok env w' \<and> (fully_metered (re_number_text env) (region_log w) \<longrightarrow>
      fully_metered (re_number_text env) (region_log w'))" by blast
qed

lemma metering_parts:
  assumes "calm_call ge ga" and "metered_call ge ga" and "\<forall>cfg. ge_pruner ge = Some cfg \<longrightarrow> config_ok cfg"
  shows "metering.parts_stay (re_number_text (ge_region ge)) ge ga"
proof -
  let ?nt = "re_number_text (ge_region ge)"
  have "metering.stays ?nt (ge_region ge) 1 (compact_region ge ga k ab)" for k ab
    unfolding compact_region_def
    by (intro metering.stays_wrap metering_compact) (use assms(1,2) in \<open>auto simp: calm_call_def metered_call_def Let_def\<close>)
  moreover have "metering.stays ?nt (ge_region ge) 0 (resolve_capacity ga)"
  proof (rule metering.staysI)
    fix w r w'
    assume w: "region_ok (ge_region ge) w" and c: "resolve_capacity ga w = (r, w')"
    have "region_run (ge_region ge) w w'" by (rule runsD [OF runs_capacity [OF assms(1)] c])
    then have "region_ok (ge_region ge) w'" using region_run_ok [OF _ w] by blast
    with c assms(2) show "region_ok (ge_region ge) w' \<and> (fully_metered ?nt (region_log w) \<longrightarrow> fully_metered ?nt (region_log w'))"
      by (auto simp: resolve_capacity_def metered_call_def Let_def)
  qed
  ultimately show ?thesis using metering_prune assms(3) unfolding metering.parts_stay_def by blast
qed

lemma retries_limit: "\<exists>n \<ge> 1. \<forall>p m. rp_retries (resolve_target_policy c p m) < int n"
proof -
  let ?S = "set (bc_retries c # map (\<lambda>q. set_or (pf_retries (mp_fields q)) (bc_retries c)) (bc_policies c))"
  have "rp_retries (resolve_target_policy c p m) \<in> ?S" for p m
    by (auto simp: resolve_target_policy_def Let_def find_override_def no_fields_def find_Some_iff split: option.split)
  then have m: "rp_retries (resolve_target_policy c p m) \<le> Max ?S" for p m by (intro Max_ge) simp_all
  have "x < int (Suc (nat k))" if "x \<le> k" for x k :: int using that by linarith
  then have "\<forall>p m. rp_retries (resolve_target_policy c p m) < int (Suc (nat (Max ?S)))" using m by blast
  then show ?thesis by (intro exI [of _ "Suc (nat (Max ?S))"]) simp
qed

text \<open>
  Whatever a call of the engine does and however it fails, the session stays one that can be reached, and a fully
  metered log stays fully metered.
\<close>

theorem engine_keeps_metering:
  assumes "region_reach (ge_region ge) w" and "calm_call ge ga" and "metered_call ge ga"
    and "\<forall>cfg. ge_pruner ge = Some cfg \<longrightarrow> config_ok cfg"
    and "fully_metered (re_number_text (ge_region ge)) (region_log w)"
    and "compact_if_needed ge ga trigger w = (r, w')"
  shows "region_reach (ge_region ge) w' \<and> fully_metered (re_number_text (ge_region ge)) (region_log w')"
proof -
  from retries_limit obtain n where n: "1 \<le> n" "\<forall>p m. rp_retries (resolve_target_policy (ge_config ge) p m) < int n" by blast
  have "metering.stays (re_number_text (ge_region ge)) (ge_region ge) n (compact_if_needed ge ga trigger)"
    by (rule metering.stays_needed [OF metering_parts [OF assms(2-4)] _ n(1)]) (use n(2) in blast)
  from metering.staysD [OF this region_reach_ok [OF assms(1)] assms(6)] assms(5)
    reach_run [OF assms(1) runsD [OF runs_needed [OF assms(2)] assms(6)]] show ?thesis by blast
qed

section \<open>Recovery from an overflow\<close>

text \<open>
  A retry is only granted when the surface has been replaced since the request, within the limit of the policy
  in force, and it is counted.
\<close>

lemma retry_granted:
  assumes "on_request_error ge ga agent overflow aborted st = (Inr RetryRequest, st')"
  obtains p m w1 w2 w3 g g' res where "overflow" "\<not> fst aborted" "\<not> snd aborted"
    "routed_target (en_world st) = (Inr (Some (p, m)), w1)"
    "int (retries_of agent st) < rp_overflow (resolve_target_policy (ge_config ge) p m)"
    "en_retries st' = (en_retries st)(agent := Some (retries_of agent st + 1))"
    "surface_generation w1 = (Inr g, w2)" "compact_if_needed ge ga OverflowTrigger w2 = (res, w3)"
    "surface_generation w3 = (Inr g', en_world st')" "g < g'"
proof -
  have o: "overflow" "\<not> fst aborted" using assms by (auto simp: on_request_error_def split: if_splits)
  obtain t w1 where t: "routed_target (en_world st) = (t, w1)" by (cases "routed_target (en_world st)")
  with assms o obtain p m where pm: "t = Inr (Some (p, m))"
    by (cases t; cases "projr t") (auto simp: on_request_error_def Let_def)
  have [simp]: "retries_of agent (st\<lparr>en_watched := v\<rparr>) = retries_of agent st" for v by (simp add: retries_of_def)
  obtain rr w4 where rec: "recover ge ga (snd aborted) w1 = (rr, w4)" by (cases "recover ge ga (snd aborted) w1")
  from assms o t pm rec have granted: "int (retries_of agent st) < rp_overflow (resolve_target_policy (ge_config ge) p m)"
      "rr = Inr RetryRequest" "en_world st' = w4" "en_retries st' = (en_retries st)(agent := Some (retries_of agent st + 1))"
    by (auto simp: on_request_error_def Let_def not_le split: if_splits sum.splits request_decision.splits)
  from rec granted(2) obtain g w2 where g: "surface_generation w1 = (Inr g, w2)"
    and rest: "(case compact_if_needed ge ga OverflowTrigger w2 of
         (_, w3) \<Rightarrow>
           if snd aborted then (Inr PassOn, w3)
           else and_do surface_generation (\<lambda>g'. give (if g' > g then RetryRequest else PassOn)) w3) = (Inr RetryRequest, w4)"
    by (auto simp: recover_def and_do_Inr)
  obtain r w3 where c: "compact_if_needed ge ga OverflowTrigger w2 = (r, w3)" by (cases "compact_if_needed ge ga OverflowTrigger w2")
  from rest c obtain g' where "\<not> snd aborted" "surface_generation w3 = (Inr g', w4)" "g < g'"
    by (auto simp: and_do_Inr split: if_splits)
  with o t g c show ?thesis using granted unfolding pm by (intro that) simp_all
qed

text \<open>The handlers in the order their events come.\<close>

datatype driver_event =
    PreStep engine_call bool
  | StatusChanged nat bool
  | Logged session_event
  | RequestFailed engine_call nat bool "bool \<times> bool"

fun handle_one :: "engine_env \<Rightarrow> driver_event \<Rightarrow> engine_state \<Rightarrow> (nat \<times> (region_error, request_decision) result) list \<times> engine_state" where
  "handle_one ge (PreStep ga aborted) st = ([], snd (on_pre_step ge ga aborted st))"
| "handle_one ge (StatusChanged agent idle) st = ([], on_status agent idle st)"
| "handle_one ge (Logged e) st = ([], on_session_event e st)"
| "handle_one ge (RequestFailed ga agent overflow aborted) st =
     (case on_request_error ge ga agent overflow aborted st of (r, st') \<Rightarrow> ([(agent, r)], st'))"

fun handle_all :: "engine_env \<Rightarrow> driver_event list \<Rightarrow> engine_state \<Rightarrow> (nat \<times> (region_error, request_decision) result) list \<times> engine_state" where
  "handle_all ge [] st = ([], st)"
| "handle_all ge (e # es) st = (case handle_one ge e st of (ds, st1) \<Rightarrow> case handle_all ge es st1 of (ds', st') \<Rightarrow> (ds @ ds', st'))"

definition resets :: "nat \<Rightarrow> driver_event \<Rightarrow> bool" where
  "resets agent e \<longleftrightarrow> (case e of
     StatusChanged a idle \<Rightarrow> a = agent \<and> idle | Logged e \<Rightarrow> ev_type e = ''assistant/message'' | _ \<Rightarrow> False)"

definition granted :: "nat \<Rightarrow> (nat \<times> (region_error, request_decision) result) list \<Rightarrow> nat" where
  "granted agent ds = length (filter (\<lambda>d. d = (agent, Inr RetryRequest)) ds)"

lemma granted_simps [simp]: "granted a [] = 0" "granted a (d # ds) = (if d = (a, Inr RetryRequest) then 1 else 0) + granted a ds"
  "granted a (xs @ ys) = granted a xs + granted a ys"
  by (simp_all add: granted_def)

lemma pre_step_retries: "en_retries (snd (on_pre_step ge ga aborted st)) = en_retries st"
  by (auto simp: on_pre_step_def Let_def split: prod.split sum.split engine_error.split)

lemma request_error_retries:
  assumes "on_request_error ge ga agent overflow aborted st = (r, st')" and "r \<noteq> Inr RetryRequest"
  shows "en_retries st' = en_retries st"
  using assms by (auto simp: on_request_error_def Let_def split: if_splits prod.splits sum.splits option.splits request_decision.splits)

lemma handle_retries:
  assumes "handle_one ge e st = (ds, st')" and "\<not> resets a e" and limit: "\<forall>p m. rp_overflow (resolve_target_policy (ge_config ge) p m) \<le> int n"
    and "retries_of a st \<le> n"
  shows "retries_of a st' = retries_of a st + granted a ds \<and> retries_of a st' \<le> n"
proof (cases e)
  case (PreStep ga aborted)
  with assms pre_step_retries [of ge ga aborted st] show ?thesis by (auto simp: retries_of_def)
next
  case (StatusChanged b idle)
  with assms show ?thesis by (auto simp: resets_def on_status_def forget_retries_def retries_of_def)
next
  case (Logged e')
  with assms show ?thesis by (auto simp: resets_def on_session_event_def)
next
  case (RequestFailed ga b overflow aborted)
  with assms(1) obtain r where r: "on_request_error ge ga b overflow aborted st = (r, st')" "ds = [(b, r)]"
    by (auto split: prod.splits)
  show ?thesis
  proof (cases "r = Inr RetryRequest")
    case True
    from retry_granted [OF r(1) [unfolded True]] obtain p m where
      less: "int (retries_of b st) < rp_overflow (resolve_target_policy (ge_config ge) p m)"
      and count: "en_retries st' = (en_retries st)(b := Some (retries_of b st + 1))" by metis
    from limit have "rp_overflow (resolve_target_policy (ge_config ge) p m) \<le> int n" by blast
    with less have "retries_of b st < n" by linarith
    with count r True assms(4) show ?thesis by (cases "a = b") (auto simp: retries_of_def)
  next
    case False
    with request_error_retries [OF r(1)] r assms(4) show ?thesis by (simp add: retries_of_def)
  qed
qed

text \<open>
  Claim C38. Between two responses an agent is granted no more retries than the largest limit of the policies, whatever
  the drivers do in between and however the recoveries end: the counter is the number of retries granted.
\<close>

theorem overflow_retries_bounded:
  assumes "handle_all ge es st = (ds, st')" and "\<forall>e \<in> set es. \<not> resets a e"
    and "\<forall>p m. rp_overflow (resolve_target_policy (ge_config ge) p m) \<le> int n" and "retries_of a st \<le> n"
  shows "retries_of a st' = retries_of a st + granted a ds \<and> retries_of a st + granted a ds \<le> n"
  using assms(1,2,4)
proof (induction es arbitrary: st ds)
  case (Cons e es)
  from Cons.prems(1) obtain d1 st1 d2 where d: "handle_one ge e st = (d1, st1)" "handle_all ge es st1 = (d2, st')" "ds = d1 @ d2"
    by (auto split: prod.splits)
  from Cons.prems(2) have "\<not> resets a e" "\<forall>e \<in> set es. \<not> resets a e" by simp_all
  with handle_retries [OF d(1) _ assms(3) Cons.prems(3)] Cons.IH [OF d(2)] d(3) show ?case by simp
qed simp

section \<open>A concrete engine\<close>

definition engine_header :: epoch_header where
  "engine_header =
     \<lparr>eh_config = \<lparr>cc_provider = ''p'', cc_model = ''m'', cc_effort = None, cc_temperature = None, cc_max_tokens = None, cc_stop = None\<rparr>,
      eh_defaults = None, eh_system = None, eh_tools = None\<rparr>"

definition engine_seed :: "session_event list" where
  "engine_seed = region_seed @ [log_event (RequestHeader engine_header HeaderInitial False) 2, log_event (TurnStart 1) 3]"

definition engine_config :: "(string \<times> json) list" where
  "engine_config = [(''thresholdRatio'', JNum (JFrac (1 / 2))), (''retainTokens'', jint 0)]"

definition engine_example :: "compaction_config \<Rightarrow> engine_env" where
  "engine_example config = \<lparr>ge_region = region_example_env, ge_config = config, ge_round = (\<lambda>q. q), ge_pruner = None\<rparr>"

definition engine_example_call :: "rat \<Rightarrow> engine_call" where
  "engine_example_call window =
     \<lparr>ga_prune_clock = int, ga_clock = (\<lambda>_. int), ga_ids = (\<lambda>_. (''c'', ''k'')), ga_around = (\<lambda>_. region_surroundings),
      ga_info = Inr (Some window), ga_meanwhile = id\<rparr>"

lemma engine_config_loads:
  obtains c where "resolve_config engine_config = Inr c" "bc_policies c = []" "bc_retries c = 1" "bc_overflow c = 1"
proof -
  have "is_ok (and_then (resolve_config engine_config)
    (\<lambda>c. reject_if (bc_policies c \<noteq> [] \<or> bc_retries c \<noteq> 1 \<or> bc_overflow c \<noteq> 1) AutoNotBool))" by code_simp
  with that show ?thesis by (auto simp: is_ok_iff and_then_Inr_iff)
qed

lemma no_overrides:
  assumes "bc_policies c = []"
  shows "rp_retries (resolve_target_policy c p m) = bc_retries c" "rp_overflow (resolve_target_policy c p m) = bc_overflow c"
  using assms by (simp_all add: resolve_target_policy_def find_override_def no_fields_def Let_def)

lemma engine_opens:
  obtains s where "construct_session 5 ''s'' (Some engine_seed) None SnapshotSeed None = Inr s"
    "region_reach region_example_env (region_start s)"
proof -
  have "is_ok (construct_session 5 ''s'' (Some engine_seed) None SnapshotSeed None)" by code_simp
  then obtain s where s: "construct_session 5 ''s'' (Some engine_seed) None SnapshotSeed None = Inr s" by (auto simp: is_ok_iff)
  from session_reach.construct [OF this] have "region_reach region_example_env (region_start s)"
    by (auto simp: region_reach_def)
  with s that show ?thesis by blast
qed

lemma engine_calm: "calm_call (engine_example c) (engine_example_call window)"
  using example_calm by (simp add: calm_call_def engine_example_def engine_example_call_def)

lemma engine_compacts:
  assumes "construct_session 5 ''s'' (Some engine_seed) None SnapshotSeed None = Inr s" and "resolve_config engine_config = Inr c"
  obtains res w' where "compact_if_needed (engine_example c) (engine_example_call 300) PressureTrigger (region_start s) = (Inr (Some res), w')"
    "length (region_log w') = 9"
proof -
  have "is_ok (and_then (rethrow Appending (construct_session 5 ''s'' (Some engine_seed) None SnapshotSeed None)) (\<lambda>s.
    and_then (rethrow (\<lambda>_. SignalAborted) (resolve_config engine_config)) (\<lambda>c.
      case compact_if_needed (engine_example c) (engine_example_call 300) PressureTrigger (region_start s) of
        (Inr (Some _), w') \<Rightarrow> reject_if (length (region_log w') \<noteq> 9) SignalAborted | _ \<Rightarrow> Inl SignalAborted)))" by code_simp
  with assms show ?thesis
    by (auto simp: is_ok_iff intro: that split: prod.splits sum.splits option.splits)
qed

theorem pressure_relieved_witness:
  "\<exists>s c res w' (spec :: compact_spec) m. region_reach region_example_env (region_start s)
     \<and> compact_if_needed (engine_example c) (engine_example_call 300) PressureTrigger (region_start s) = (Inr (Some res), w')
     \<and> measure_surface region_example_env w' = (Inr m, w') \<and> me_total m < cp_threshold spec"
proof -
  from engine_opens obtain s where s: "construct_session 5 ''s'' (Some engine_seed) None SnapshotSeed None = Inr s"
    "region_reach region_example_env (region_start s)" .
  from engine_config_loads obtain c where c: "resolve_config engine_config = Inr c" .
  from engine_compacts [OF s(1) c] obtain res w' where
    r: "compact_if_needed (engine_example c) (engine_example_call 300) PressureTrigger (region_start s) = (Inr (Some res), w')" .
  from pressure_relieved [OF r] obtain spec :: compact_spec and m where
    "measure_surface (ge_region (engine_example c)) w' = (Inr m, w')" "me_total m < cp_threshold spec" by blast
  then have "measure_surface region_example_env w' = (Inr m, w')" "me_total m < cp_threshold spec"
    by (simp_all add: engine_example_def)
  with s(2) r show ?thesis by blast
qed

theorem attempts_bounded_witness:
  "\<exists>s c r w'. compact_if_needed (engine_example c) (engine_example_call 300) PressureTrigger (region_start s) = (r, w')
     \<and> length (region_log w') = 9 \<and> compactions (region_log w') \<le> compactions (s_log s) + 2"
proof -
  from engine_opens obtain s where s: "construct_session 5 ''s'' (Some engine_seed) None SnapshotSeed None = Inr s"
    "region_reach region_example_env (region_start s)" .
  from engine_config_loads obtain c where c: "resolve_config engine_config = Inr c" "bc_policies c = []" "bc_retries c = 1" .
  from engine_compacts [OF s(1) c(1)] obtain res w' where
    r: "compact_if_needed (engine_example c) (engine_example_call 300) PressureTrigger (region_start s) = (Inr (Some res), w')"
      "length (region_log w') = 9" .
  have "compactions (region_log w') \<le> compactions (region_log (region_start s)) + (case PressureTrigger of OverflowTrigger \<Rightarrow> 1 | PressureTrigger \<Rightarrow> 2)"
    by (rule attempts_bounded [OF _ engine_calm _ _ _ r(1)])
      (use s(2) c no_overrides [OF c(2)] in \<open>simp_all add: engine_example_def undisturbed_def engine_example_call_def region_surroundings_def\<close>)
  with r show ?thesis by (auto simp: region_start_def)
qed

theorem engine_keeps_metering_witness:
  "\<exists>s c r w'. compact_if_needed (engine_example c) (engine_example_call 300) OverflowTrigger (region_start s) = (r, w')
     \<and> fully_metered (re_number_text region_example_env) (region_log w')"
proof -
  from engine_opens obtain s where s: "construct_session 5 ''s'' (Some engine_seed) None SnapshotSeed None = Inr s"
    "region_reach region_example_env (region_start s)" .
  from engine_config_loads obtain c where c: "resolve_config engine_config = Inr c" .
  have "is_ok (and_then (construct_session 5 ''s'' (Some engine_seed) None SnapshotSeed None)
    (\<lambda>s. reject_if (\<not> fully_metered plain_text (s_log s)) SeededWithoutSeed))" by code_simp
  with s(1) have m: "fully_metered (re_number_text region_example_env) (s_log s)" by (simp add: is_ok_iff region_example_env_def)
  obtain r w' where r: "compact_if_needed (engine_example c) (engine_example_call 300) OverflowTrigger (region_start s) = (r, w')"
    by (cases "compact_if_needed (engine_example c) (engine_example_call 300) OverflowTrigger (region_start s)")
  have "region_reach (ge_region (engine_example c)) w' \<and> fully_metered (re_number_text (ge_region (engine_example c))) (region_log w')"
    by (rule engine_keeps_metering [OF _ engine_calm _ _ _ r])
      (use s(2) m in \<open>simp_all add: engine_example_def metered_call_def engine_example_call_def region_surroundings_def region_start_def Let_def\<close>)
  then have "fully_metered (re_number_text region_example_env) (region_log w')" by (simp add: engine_example_def)
  with r show ?thesis by blast
qed

definition engine_start :: "session \<Rightarrow> engine_state" where
  "engine_start s = \<lparr>en_world = region_start s, en_retries = (\<lambda>_. None), en_watched = None, en_warned = []\<rparr>"

definition two_failures :: "driver_event list" where
  "two_failures = [RequestFailed (engine_example_call 300) 0 True (False, False), PreStep (engine_example_call 100) True,
     RequestFailed (engine_example_call 300) 0 True (False, False)]"

theorem overflow_retries_bounded_witness:
  "\<exists>s c ds st'. handle_all (engine_example c) two_failures (engine_start s) = (ds, st') \<and> length ds = 2 \<and> granted 0 ds = 1
     \<and> retries_of 0 st' = granted 0 ds"
proof -
  from engine_opens obtain s where s: "construct_session 5 ''s'' (Some engine_seed) None SnapshotSeed None = Inr s" .
  from engine_config_loads obtain c where c: "resolve_config engine_config = Inr c" "bc_policies c = []" "bc_overflow c = 1" .
  obtain ds st' where d: "handle_all (engine_example c) two_failures (engine_start s) = (ds, st')"
    by (cases "handle_all (engine_example c) two_failures (engine_start s)")
  have "is_ok (and_then (rethrow Appending (construct_session 5 ''s'' (Some engine_seed) None SnapshotSeed None)) (\<lambda>s.
    and_then (rethrow (\<lambda>_. SignalAborted) (resolve_config engine_config)) (\<lambda>c.
      reject_if (map (\<lambda>d. d = (0, Inr RetryRequest)) (fst (handle_all (engine_example c) two_failures (engine_start s))) \<noteq> [True, False])
        SignalAborted)))" by code_simp
  with s c(1) d have "map (\<lambda>d. d = (0, Inr RetryRequest)) ds = [True, False]" by (simp add: is_ok_iff)
  then have ds: "length ds = 2" "granted 0 ds = 1" by (auto simp: granted_def map_eq_Cons_conv)
  have "retries_of 0 st' = retries_of 0 (engine_start s) + granted 0 ds \<and> retries_of 0 (engine_start s) + granted 0 ds \<le> 1"
    by (rule overflow_retries_bounded [OF d])
      (use c(3) no_overrides [OF c(2)] in \<open>auto simp: engine_example_def two_failures_def resets_def retries_of_def engine_start_def\<close>)
  then have "retries_of 0 st' = granted 0 ds" by (simp add: retries_of_def engine_start_def)
  with d ds show ?thesis by blast
qed

end
