(* ===== verification/Spec2Isabelle.thy ===== *)
theory Spec2Isabelle
  imports Deque Json Llm_Types Assembler Session_Types Surface Seq_Ranges Chunk_Rows Session_Trace Repair
    Request_Header Session_Validate Session_Log Session_Store Inbox Consumed_Work Tool_Pairing Compaction_Trace
    Goal_Fold Goal_Service Session_Projection Goal_Projection Token_Estimate Token_Projection Token_Meter
    Compaction_Region Compaction_Transaction Prune_Text Tool_Pruner Turn_Usage
    Retry_Policy Llm_Retry Retry_Companion Retry_Executor Adapter_Failure Tool_Calls
    Compaction_Policy Compaction_Engine
begin

text \<open>
  \<^bold>\<open>The program.\<close> The repository is an agent runtime. Its core is an append-only log of events per
  session: turns, steps, messages, tool calls and results, streamed chunks, inbox splices,
  compaction brackets, goal changes. Everything else is derived from the log: the surface (what
  the model sees), the request header in force, pending input, open tool calls, the current goal.
  Stores, recovery, forks and companions keep that derivation sound across crashes, reentrant
  listeners and rewrites of the surface. The development models this core and proves that each
  derived view is the one a replay of the log would give.

  \<^bold>\<open>Theories and sources\<close> (paths under \<open>src/packages\<close>), in the order of the imports.

  \<^item> \<open>Prelude\<close>: results (a value or the thrown error), guard clauses, loops that may throw, array
    and map operations of the language, decimal rendering, trimming.
  \<^item> \<open>Deque\<close> (\<open>util/deque\<close>): the ring buffer refines a list, retains nothing and gives storage back.
  \<^item> \<open>Json\<close> (\<open>util/values\<close>, \<open>core/session/src/surface.ts\<close>): JSON values; the two structural
    comparisons against equality up to member order.
  \<^item> \<open>Llm_Types\<close>, \<open>Session_Types\<close> (\<open>llm/llm\<close>, \<open>core/session/src/types.ts\<close> and the event
    declarations of the agent, compaction and goal packages): the vocabulary with its stored form.
  \<^item> \<open>Assembler\<close> (\<open>llm/llm/src/assembler.ts\<close>): blocks from stream chunks, complete or interrupted.
  \<^item> \<open>Surface\<close> (\<open>core/session/src/surface.ts\<close>): the fold of the log into surface nodes, replacement
    provenance, the incremental manager as a refinement of the fold.
  \<^item> \<open>Seq_Ranges\<close>, \<open>Chunk_Rows\<close> (\<open>seq-ranges.ts\<close>, \<open>chunk-rows.ts\<close>): the stored forms of citations
    and of runs of chunks; round trips and rejection of malformed rows.
  \<^item> \<open>Session_Trace\<close> (\<open>invariant.ts\<close>): the nesting and numbering of turns, steps and calls.
  \<^item> \<open>Repair\<close> (\<open>repair.ts\<close>): the closers of a log that a crash interrupted.
  \<^item> \<open>Request_Header\<close>, \<open>Session_Validate\<close> (\<open>request-header.ts\<close>, \<open>index.ts\<close>): canonical headers and
    the validators at the load boundary.
  \<^item> \<open>Session_Log\<close>, \<open>Session_Store\<close> (\<open>index.ts\<close>): the class \<open>Session\<close> with its caches, and the store
    with creation, publication, deferred detach and forking under reentrant listeners.
  \<^item> \<open>Inbox\<close>, \<open>Consumed_Work\<close> (\<open>core/agent\<close>): pending input as a projection of the log, and the
    account of consumed work.
  \<^item> \<open>Tool_Pairing\<close>, \<open>Compaction_Trace\<close> (\<open>compaction/compaction\<close>): the cached balance of calls and
    results, and the bracket discipline of compaction.
  \<^item> \<open>Goal_Fold\<close>, \<open>Goal_Service\<close> (\<open>goal/goal\<close>): the strict goal fold, its checkpointable projection,
    the compare-and-set service and the companion.
  \<^item> \<open>Session_Projection\<close>, \<open>Goal_Projection\<close> (\<open>session/session-projection\<close>, \<open>goal/goal\<close>): the registry
    that drives checkpointable units over a log, restores and hydrates them; the goal unit in it.
  \<^item> \<open>Token_Estimate\<close>, \<open>Token_Projection\<close>, \<open>Token_Meter\<close> (\<open>llm/token-meter\<close>): the fixed-density prices and
    the priced surface; the constant-size folds of context breakdown, pressure and usage; the
    meter's replay of a session and its measurement under a route's image prices.
  \<^item> \<open>Compaction_Region\<close>, \<open>Compaction_Transaction\<close> (\<open>compaction/compaction-basic\<close>): the choice of the span
    to compact, and the transaction that replaces it around an awaited summarizer. Here the session,
    the balance cache and the meter run together.
  \<^item> \<open>Prune_Text\<close>, \<open>Tool_Pruner\<close> (\<open>compaction/compaction-tool-result-pruner\<close>): cutting the middle out of a long
    text between code points, over any type of code unit with a 16-bit reading and checked against a
    decoder of its own; the pass that prunes tool results in place on the surface, without breaking
    pairing or metering.
  \<^item> \<open>Turn_Usage\<close> (\<open>llm/token-meter/src/turn-usage.ts\<close>): exact accounting of a turn's request attempts,
    and its agreement with the live usage projection.
  \<^item> \<open>Retry_Policy\<close> (\<open>llm/llm/src/retry-policy.ts\<close>), \<open>Adapter_Failure\<close> (\<open>adapter-failure.ts\<close>): the retry
    policy of a provider and the normalized failure of a request, both always within the checked bounds.
  \<^item> \<open>Llm_Retry\<close>, \<open>Retry_Companion\<close>, \<open>Retry_Executor\<close> (\<open>llm/llm-retry\<close>): scheduling retries from a projection of
    the log, the companion's checks on them with the chains they guarantee, and the proof that what is
    scheduled passes.
  \<^item> \<open>Tool_Calls\<close> (\<open>core/agent-loop/src/tool-calls.ts\<close>): the scheduler of the tool calls of a step, as a machine
    whose labels end its awaits; order, barriers, limits, termination and acceptance by the trace.
  \<^item> \<open>Compaction_Policy\<close>, \<open>Compaction_Engine\<close> (\<open>compaction/compaction-basic\<close>, \<open>config.ts\<close> and \<open>index.ts\<close>): the policy
    of a route, and the drivers that compact under pressure, after an overflow and by hand; relief, bounded
    attempts and retries, and metering through every driver.
  \<^item> this theory: properties that span components (forks and turns).

  \<^bold>\<open>How the model reads.\<close> A class or interface is a record, a tagged union a datatype, a method a
  function from the state to its result and the next state; what a failing call leaves behind is
  part of the result. A thrown error is the left of a sum whose constructors name the throws.
  Sequence numbers and array indices are natural numbers, other integers are integers with the
  safe-integer guards of the source; a JSON number keeps the distinction between zero and negative
  zero, and non-integral numbers are rationals (their decimal text, which prices depend on, is an
  argument). Strings are lists of characters, one per code
  unit; only the pruner's text, where code points made of two units matter, is also modelled over
  16-bit units. Maps and sets whose order is observable are lists in insertion order. Listeners are not
  functions: an operation that publishes is split where listeners run, and the theorems about
  stores, companions and goals quantify over every interleaving of the split operations: the store
  keeps the open append calls of a session as frames, so that a nested append is a step of the model
  and its refusal a consequence of the guard. Where a
  method awaits, what others do meanwhile is an argument that the theorems range over.

  \<^bold>\<open>Interfaces.\<close> Where one component relies on another through laws only, they are a locale with an
  interpretation on the model: the incremental caches of a session (\<open>incremental_cache\<close>,
  interpreted by the header and the context cache), the deque against a list, graded effects on a log
  (\<open>log_effect\<close>, interpreted by the count of compactions started and by metering). The remaining
  components call each other's definitions directly, as the code does.

  \<^bold>\<open>Groups of lemmas.\<close> Each component has an invariant with its preservation by every operation
  (\<open>session_inv\<close>, \<open>manager_inv\<close>, \<open>trace_inv\<close>, \<open>inbox_inv\<close>, \<open>goal_inv\<close>, \<open>meter_inv\<close>, \<open>region_ok\<close> and so on), an
  inductive relation of the states that operations reach, and theorems that read the invariant off
  those states. Theorems about logs are proved by induction from the end of the log, since every
  component consumes events one at a time.

  \<^bold>\<open>Bounds and fuel.\<close> Every recursion is structural or has a measure, except the loop that mints a
  session id: its fuel is the number of live sessions, and \<open>minted_id_is_fresh\<close> shows that it
  leaves on a free id within it. Theorems about appending assume a log shorter than the largest
  safe integer, the bound the source checks on sequence numbers.

  \<^bold>\<open>Not modelled.\<close> Files, network, processes and timers; the dependency-injection container
  (Cordis) beyond the order in which it runs listeners; deep freezing (values are immutable here);
  characters beyond one byte outside \<open>Prune_Text\<close>; rounding of doubles (configured ratios are exact
  rationals, a provider's retry delay is an integer); what others do while a finished compaction is
  flushed to disk; adapters, tools, the gateway and the clients. Candidates for further
  work are plan mode and todo state, and the JSON walk over
  object graphs.
\<close>

section \<open>Forks and turns\<close>

text \<open>The open turn of an accepted log is read off its last turn boundary.\<close>

lemma trace_step_open_turn:
  assumes "trace_step e tr = Inr tr'"
  shows "open_turn tr' = (case ev_payload e of TurnStart t \<Rightarrow> Some t | TurnEnd _ _ \<Rightarrow> None | _ \<Rightarrow> open_turn tr)"
  using assms by (cases "ev_payload e") (auto simp: validate_defs and_then_Inr_iff Let_def split: if_splits option.splits)

lemma open_turn_of_boundary:
  "(case ev_payload e of TurnStart t \<Rightarrow> Some t | TurnEnd _ _ \<Rightarrow> None | _ \<Rightarrow> b)
     = (if is_turn_boundary e then case ev_payload e of TurnStart t \<Rightarrow> Some t | _ \<Rightarrow> None else b)"
  by (cases "ev_payload e") (simp_all add: is_turn_boundary_def)

lemma open_turn_last_boundary:
  "seed_session es = Inr tr \<Longrightarrow>
     open_turn tr = (case find_last is_turn_boundary es of
        Some e \<Rightarrow> (case ev_payload e of TurnStart t \<Rightarrow> Some t | _ \<Rightarrow> None) | None \<Rightarrow> None)"
proof (induction es arbitrary: tr rule: rev_induct)
  case Nil
  then show ?case by (auto simp: fresh_trace_def)
next
  case (snoc e es)
  then obtain tr0 where s: "seed_session es = Inr tr0" and step: "trace_step e tr0 = Inr tr"
    by (auto simp: seed_session_snoc and_then_Inr_iff)
  show ?case
    using open_turn_of_boundary [where e = e and b = "open_turn tr0"]
    by (simp add: trace_step_open_turn [OF step] snoc.IH [OF s] del: payload.case)
qed

lemma between_turns_open:
  assumes "seed_session es = Inr tr"
  shows "between_turns es \<longleftrightarrow> open_turn tr = None"
  unfolding open_turn_last_boundary [OF assms] between_turns_def
  by (auto split: option.split payload.split)

lemma seed_session_prefix: "seed_session (es @ fs) = Inr tr \<Longrightarrow> \<exists>tr'. seed_session es = Inr tr'"
  by (auto simp: seed_session_def fold_result_append and_then_Inr_iff)

text \<open>
  Claim C15. A fork never inherits unfinished work: from a session whose log the trace companion
  accepts, every seed a fork may take is itself accepted and leaves no turn, no step and no
  tool call open, whatever boundary was asked for.
\<close>

theorem fork_leaves_nothing_open:
  assumes "session_reach s" and "int (length (s_log s)) \<le> MAX_SAFE_INTEGER"
    and "seed_session (s_log s) = Inr tr" and "fst (fork_seed s boundary) = Inr es"
  shows "\<exists>tr'. seed_session es = Inr tr' \<and> open_turn tr' = None \<and> open_step tr' = None \<and> pending_calls tr' = {}"
proof -
  from fork_seed_exact_holds [OF assms(1,2), of boundary es] assms(4)
  obtain n where es: "es = take n (s_log s)" and closed: "between_turns es" by blast
  have "seed_session (take n (s_log s) @ drop n (s_log s)) = Inr tr" using assms(3) by simp
  then obtain tr' where tr': "seed_session es = Inr tr'" using seed_session_prefix es by blast
  moreover have "open_turn tr' = None" using closed between_turns_open [OF tr'] by simp
  moreover have "trace_inv tr'" by (rule seed_session_inv [OF tr'])
  ultimately show ?thesis by (auto simp: trace_inv_def)
qed

text \<open>
  After a crash the whole log can be forked: once the recovery closers are appended to
  an interrupted log, forking without a boundary succeeds and copies all of it.
\<close>

theorem recovered_log_forks:
  assumes "session_reach s" and "int (length (s_log s)) \<le> MAX_SAFE_INTEGER"
    and "s_log s = events @ closers" and "seed_session events = Inr tr"
    and "interrupted_turn_closers events = Inr closers"
  shows "fst (fork_seed s None) = Inr (events @ closers)"
proof -
  from repair_closes_turn_holds [OF assms(4,5)] obtain tr' where
    "seed_session (events @ closers) = Inr tr'" "open_turn tr' = None" by blast
  then have "between_turns (s_log s)" using between_turns_open assms(3) by simp
  then show ?thesis
    using fork_seed_exact_holds [OF assms(1,2), of None "s_log s"] assms(3) by (simp add: requested_length_def)
qed

section \<open>Examples across components\<close>

definition idle_log :: "session_event list" where
  "idle_log = [log_event (TurnStart 1) 0, log_event (TurnEnd 1 Blocked) 1]"

definition discard_error :: "('e, 'a) result \<Rightarrow> (unit, 'a) result" where
  "discard_error = rethrow (\<lambda>_. ())"

lemma discard_error_Inr [simp]: "discard_error m = Inr x \<longleftrightarrow> m = Inr x"
  by (simp add: discard_error_def)

theorem fork_leaves_nothing_open_witness:
  "\<exists>s es tr'. session_reach s \<and> fst (fork_seed s (Some (JInt 1))) = Inr es \<and> seed_session es = Inr tr' \<and> open_turn tr' = None"
proof -
  have "is_ok (and_then (discard_error (construct_session 5 ''s'' (Some idle_log) None SnapshotSeed None)) (\<lambda>s.
      and_then (discard_error (seed_session (s_log s))) (\<lambda>_.
      and_then (reject_if (length (s_log s) > 5) ()) (\<lambda>_. discard_error (fst (fork_seed s (Some (JInt 1))))))))"
    by code_simp
  then obtain s tr es where s: "construct_session 5 ''s'' (Some idle_log) None SnapshotSeed None = Inr s"
    "seed_session (s_log s) = Inr tr" "length (s_log s) \<le> 5" "fst (fork_seed s (Some (JInt 1))) = Inr es"
    by (auto simp: is_ok_iff and_then_Inr_iff not_less)
  then have "int (length (s_log s)) \<le> MAX_SAFE_INTEGER" by (simp add: MAX_SAFE_INTEGER_def)
  moreover have "session_reach s" by (rule session_reach.construct [OF s(1)])
  ultimately show ?thesis using fork_leaves_nothing_open s(2,4) by blast
qed

definition crashed_then_closed :: "session \<Rightarrow> session" where
  "crashed_then_closed s = snd (session_append 0 (TurnEnd 1 Interrupted) None None (snd (session_append 0 (TurnStart 1) None None s)))"

theorem recovered_log_forks_witness:
  "\<exists>s closers. session_reach s \<and> closers \<noteq> [] \<and> fst (fork_seed s None) = Inr ([log_event (TurnStart 1) 0] @ closers)"
proof -
  have "is_ok (and_then (discard_error (construct_session 5 ''s'' None None SnapshotSeed None)) (\<lambda>s.
      and_then (discard_error (seed_session [log_event (TurnStart 1) 0])) (\<lambda>_.
      and_then (discard_error (interrupted_turn_closers [log_event (TurnStart 1) 0])) (\<lambda>closers.
        reject_if (s_log (crashed_then_closed s) \<noteq> [log_event (TurnStart 1) 0] @ closers \<or> length closers \<noteq> 1) ()))))"
    by code_simp
  then obtain s0 tr closers where s: "construct_session 5 ''s'' None None SnapshotSeed None = Inr s0"
    "seed_session [log_event (TurnStart 1) 0] = Inr tr" "interrupted_turn_closers [log_event (TurnStart 1) 0] = Inr closers"
    "s_log (crashed_then_closed s0) = [log_event (TurnStart 1) 0] @ closers" "length closers = 1"
    by (auto simp: is_ok_iff and_then_Inr_iff)
  have reach: "session_reach (crashed_then_closed s0)"
    unfolding crashed_then_closed_def by (intro session_reach.append session_reach.construct [OF s(1)])
  have "int (length (s_log (crashed_then_closed s0))) \<le> MAX_SAFE_INTEGER"
    using s(4,5) by (simp add: MAX_SAFE_INTEGER_def)
  from recovered_log_forks [OF reach this s(4,2,3)] reach s(5) show ?thesis
    by (intro exI [of _ "crashed_then_closed s0"] exI [of _ closers]) auto
qed

end
